(* ===== verification/Prelude.thy ===== *)
theory Prelude
  imports
    Main
    "HOL-Library.Word"
    "HOL-Library.AList"
    "HOL-Library.Signed_Division"
    "HOL-Library.Char_ord"
    "HOL-Library.List_Lexorder"
    "HOL-Library.Multiset"
begin

text \<open>
  Shared vocabulary of the development: machine integers, the C++ exception
  values, the result monad that stands for code that may throw, the associative
  containers (\<open>std::map\<close>, \<open>std::unordered_map\<close>, \<open>std::unordered_set\<close>) and the
  generic lemmas on them that the component theories use.

  Conventions. A signed 64-bit integer (\<open>int64_t\<close>, a \<open>Timestamp\<close> or a \<open>Duration\<close> in
  milliseconds) is an \<open>int\<close>; the overflow checks of the source are written out
  against \<open>i64_min\<close> and \<open>i64_max\<close>, and where the source does unchecked arithmetic a
  lemma shows that it stays in range. An unsigned integer (\<open>uint64_t\<close>, \<open>uint32_t\<close>,
  \<open>uint8_t\<close>) is a \<open>word\<close> of its width. \<open>std::string\<close> is \<open>string\<close>.

  The iteration order of an unordered container is not specified by C++. The model
  iterates in insertion order; every property of the development is stated on
  sets, maps or multisets where that order could show.
\<close>

unbundle bit_operations_syntax

section \<open>Collections of facts\<close>

named_theorems res_simps \<open>unfolding the result monad\<close>
named_theorems store_simps \<open>lookups in updated containers\<close>
named_theorems inv_intros \<open>preservation of the invariants\<close>

section \<open>Machine integers\<close>

type_synonym u8 = "8 word"
type_synonym u32 = "32 word"
type_synonym u64 = "64 word"
type_synonym bytes = "u8 list"
type_synonym timestamp = int
type_synonym duration = int

definition i64_min :: int where
  "i64_min = - (2 ^ 63)"

definition i64_max :: int where
  "i64_max = 2 ^ 63 - 1"

definition in_i64 :: "int \<Rightarrow> bool" where
  "in_i64 x \<longleftrightarrow> i64_min \<le> x \<and> x \<le> i64_max"

definition u64_max :: u64 where
  "u64_max = - 1"

lemma i64_min_num: "i64_min = - 9223372036854775808"
  by (simp add: i64_min_def)

lemma i64_max_num: "i64_max = 9223372036854775807"
  by (simp add: i64_max_def)

lemmas i64_nums = i64_min_num i64_max_num

lemma i64_min_neg [simp]: "i64_min < 0" and i64_max_pos [simp]: "0 < i64_max"
  by (simp_all add: i64_nums)

lemma in_i64_0 [simp]: "in_i64 0"
  by (simp add: in_i64_def i64_nums)

lemma sint_word_of_int_i64:
  "in_i64 x \<Longrightarrow> sint (word_of_int x :: u64) = x"
  by (simp add: in_i64_def i64_nums signed_take_bit_int_eq_self sint_sbintrunc')

lemma in_i64_sint [simp]: "in_i64 (sint (w :: u64))"
  using sint_ge [of w] sint_lt [of w] by (simp add: in_i64_def i64_nums)

lemma u64_inc_unat: "w \<noteq> u64_max \<Longrightarrow> unat (w + 1 :: u64) = unat w + 1"
proof -
  assume "w \<noteq> u64_max"
  then have "1 + w \<noteq> 0"
    by (simp add: u64_max_def add_eq_0_iff2 minus_equation_iff)
  then show ?thesis
    using unatSuc [of w] by (simp add: add.commute)
qed

lemma sdiv_nonneg [simp]: "0 \<le> a \<Longrightarrow> 0 \<le> b \<Longrightarrow> (a :: int) sdiv b = a div b"
  by (cases "a = 0"; cases "b = 0") (simp_all add: signed_divide_int_def)

section \<open>Exceptions and the result monad\<close>

text \<open>The exception classes the sources throw, with the message of the throw.\<close>

datatype exn =
    InvalidArgument string
  | OutOfRange string
  | OverflowError string
  | RuntimeError string
  | LogicError string
  | JobManifestMismatch string
  | SystemError string

type_synonym 'a res = "exn + 'a"

fun bind_res :: "'a res \<Rightarrow> ('a \<Rightarrow> 'b res) \<Rightarrow> 'b res" where
  "bind_res (Inl e) f = Inl e"
| "bind_res (Inr x) f = f x"

text \<open>A loop whose body may throw: the first throw ends it.\<close>

fun fold_res :: "('a \<Rightarrow> 's \<Rightarrow> 's res) \<Rightarrow> 'a list \<Rightarrow> 's \<Rightarrow> 's res" where
  "fold_res f [] s = Inr s"
| "fold_res f (x # xs) s = bind_res (f x s) (fold_res f xs)"

definition require :: "bool \<Rightarrow> string \<Rightarrow> unit res" where
  "require c msg = (if c then Inr () else Inl (RuntimeError msg))"

lemma bind_res_Inr [simp]: "(bind_res m f = Inr y) = (\<exists>x. m = Inr x \<and> f x = Inr y)"
  by (cases m) auto

lemma bind_res_Inl: "(bind_res m f = Inl e) = (m = Inl e \<or> (\<exists>x. m = Inr x \<and> f x = Inl e))"
  by (cases m) auto

lemma bind_res_assoc: "bind_res (bind_res m f) g = bind_res m (\<lambda>x. bind_res (f x) g)"
  by (cases m) auto

lemma bind_res_return [simp]: "bind_res m Inr = m"
  by (cases m) auto

lemma require_Inr [simp]: "(require c msg = Inr u) = c"
  by (simp add: require_def)

lemma fold_res_append:
  "fold_res f (xs @ ys) s = bind_res (fold_res f xs s) (fold_res f ys)"
proof (induction xs arbitrary: s)
  case Nil
  then show ?case by simp
next
  case (Cons x xs)
  then show ?case by (cases "f x s") auto
qed

lemma fold_res_invariant:
  assumes "fold_res f xs s = Inr t" "P s"
    and "\<And>x s s'. x \<in> set xs \<Longrightarrow> P s \<Longrightarrow> f x s = Inr s' \<Longrightarrow> P s'"
  shows "P t"
  using assms
proof (induction xs arbitrary: s)
  case Nil
  then show ?case by simp
next
  case (Cons x xs)
  then obtain s' where s': "f x s = Inr s'" "fold_res f xs s' = Inr t" by auto
  with Cons.prems have "P s'" by (meson list.set_intros(1))
  with s' Cons.prems(3) show ?case by (intro Cons.IH [of s']) auto
qed

section \<open>Associative containers\<close>

text \<open>
  \<open>std::map\<close>: an association list in strictly ascending key order.
  \<open>om_set\<close> is \<open>m[k] = v\<close>, \<open>om_erase\<close> is \<open>m.erase(k)\<close>, lookup is \<open>map_of\<close>.
\<close>

fun om_set :: "'k::linorder \<Rightarrow> 'v \<Rightarrow> ('k \<times> 'v) list \<Rightarrow> ('k \<times> 'v) list" where
  "om_set k v [] = [(k, v)]"
| "om_set k v ((a, b) # m) =
     (if k < a then (k, v) # (a, b) # m
      else if k = a then (k, v) # m
      else (a, b) # om_set k v m)"

definition om_erase :: "'k \<Rightarrow> ('k \<times> 'v) list \<Rightarrow> ('k \<times> 'v) list" where
  "om_erase k m = filter (\<lambda>e. fst e \<noteq> k) m"

definition om_wf :: "('k::linorder \<times> 'v) list \<Rightarrow> bool" where
  "om_wf m \<longleftrightarrow> sorted_wrt (<) (map fst m)"

text \<open>\<open>std::unordered_set\<close>: the elements in insertion order, without repetition.\<close>

definition us_insert :: "'a \<Rightarrow> 'a list \<Rightarrow> 'a list" where
  "us_insert x xs = (if x \<in> set xs then xs else xs @ [x])"

definition us_erase :: "'a \<Rightarrow> 'a list \<Rightarrow> 'a list" where
  "us_erase x xs = filter (\<lambda>y. y \<noteq> x) xs"

text \<open>\<open>std::unordered_map\<close>: an association list with distinct keys, in insertion order.\<close>

definition um_wf :: "('k \<times> 'v) list \<Rightarrow> bool" where
  "um_wf m \<longleftrightarrow> distinct (map fst m)"

subsection \<open>The interface of a map\<close>

text \<open>
  What the clients of \<open>std::map\<close> and of \<open>std::unordered_map\<close> rely on: a store and an
  erase act on one key. The derived laws for the loops that erase a list of keys and
  that store a list of entries are proved once here.
\<close>

locale map_store =
  fixes lookup :: "'m \<Rightarrow> 'k \<Rightarrow> 'v option"
    and store :: "'k \<Rightarrow> 'v \<Rightarrow> 'm \<Rightarrow> 'm"
    and erase :: "'k \<Rightarrow> 'm \<Rightarrow> 'm"
    and ok :: "'m \<Rightarrow> bool"
  assumes lookup_store: "ok m \<Longrightarrow> lookup (store k v m) = (lookup m)(k \<mapsto> v)"
    and lookup_erase: "ok m \<Longrightarrow> lookup (erase k m) = (lookup m)(k := None)"
    and ok_store: "ok m \<Longrightarrow> ok (store k v m)"
    and ok_erase: "ok m \<Longrightarrow> ok (erase k m)"
begin

lemma ok_erase_all: "ok m \<Longrightarrow> ok (fold erase ks m)"
  by (induction ks arbitrary: m) (auto intro: ok_erase)

lemma lookup_erase_all:
  "ok m \<Longrightarrow> lookup (fold erase ks m) k = (if k \<in> set ks then None else lookup m k)"
  by (induction ks arbitrary: m) (auto simp: lookup_erase ok_erase)

lemma ok_store_all: "ok m \<Longrightarrow> ok (fold (\<lambda>e. store (f e) (g e)) es m)"
  by (induction es arbitrary: m) (auto intro: ok_store)

lemma lookup_store_other:
  "ok m \<Longrightarrow> k \<notin> f ` set es \<Longrightarrow> lookup (fold (\<lambda>e. store (f e) (g e)) es m) k = lookup m k"
  by (induction es arbitrary: m) (auto simp: lookup_store ok_store)

lemma store_commute:
  "ok m \<Longrightarrow> k \<noteq> k' \<Longrightarrow> lookup (store k v (store k' v' m)) = lookup (store k' v' (store k v m))"
  by (auto simp: lookup_store ok_store fun_upd_twist)

end

subsection \<open>Ordered maps\<close>

lemma map_of_om_set [store_simps]: "map_of (om_set k v m) = (map_of m)(k \<mapsto> v)"
  by (induction k v m rule: om_set.induct) (auto simp: fun_eq_iff)

lemma map_of_om_erase [store_simps]: "map_of (om_erase k m) = (map_of m)(k := None)"
  by (induction m) (auto simp: om_erase_def fun_eq_iff)

lemma fst_set_om_set: "fst ` set (om_set k v m) = insert k (fst ` set m)"
  by (induction k v m rule: om_set.induct) auto

lemma om_wf_distinct: "om_wf m \<Longrightarrow> distinct (map fst m)"
  by (simp add: om_wf_def strict_sorted_iff)

lemma om_wf_Nil [simp]: "om_wf []"
  by (simp add: om_wf_def)

lemma om_wf_Cons: "om_wf (e # m) \<longleftrightarrow> (\<forall>k \<in> fst ` set m. fst e < k) \<and> om_wf m"
  by (auto simp: om_wf_def)

lemma om_wf_set [inv_intros]: "om_wf m \<Longrightarrow> om_wf (om_set k v m)"
  by (induction k v m rule: om_set.induct)
     (auto simp: om_wf_Cons fst_set_om_set)

lemma om_wf_erase [inv_intros]: "om_wf m \<Longrightarrow> om_wf (om_erase k m)"
  unfolding om_wf_def om_erase_def
  by (induction m) auto

lemma om_set_last: "(\<And>e. e \<in> set m \<Longrightarrow> fst e < k) \<Longrightarrow> om_set k v m = m @ [(k, v)]"
proof (induction k v m rule: om_set.induct)
  case (2 k v a b m)
  have "a < k" using "2.prems" [of "(a, b)"] by simp
  moreover have "om_set k v m = m @ [(k, v)]" if "\<not> k < a" "k \<noteq> a"
    using that "2.prems" by (intro "2.IH") auto
  ultimately show ?case by auto
qed simp

lemma om_set_snoc_same:
  "(\<And>e. e \<in> set m \<Longrightarrow> fst e < k) \<Longrightarrow> om_set k v (m @ [(k, u)]) = m @ [(k, v)]"
proof (induction m)
  case (Cons e m)
  have "fst e < k" using Cons.prems by simp
  moreover have "om_set k v (m @ [(k, u)]) = m @ [(k, v)]"
    using Cons.prems by (intro Cons.IH) auto
  ultimately show ?case by (cases e) auto
qed simp

lemma map_of_om_wf: "om_wf m \<Longrightarrow> (map_of m k = Some v) = ((k, v) \<in> set m)"
  by (meson map_of_eq_Some_iff om_wf_distinct)

lemma set_om_set:
  fixes m :: "('a::linorder \<times> 'b) list"
  assumes "om_wf m"
  shows "set (om_set k v m) = insert (k, v) {e \<in> set m. fst e \<noteq> k}"
proof (rule set_eqI)
  fix e :: "'a \<times> 'b"
  obtain x y where e: "e = (x, y)" by (cases e)
  have "(e \<in> set (om_set k v m)) = (map_of (om_set k v m) x = Some y)"
    using map_of_om_wf [OF om_wf_set [OF assms]] e by blast
  also have "\<dots> = (if x = k then v = y else map_of m x = Some y)"
    by (simp add: store_simps)
  also have "\<dots> = (e \<in> insert (k, v) {e \<in> set m. fst e \<noteq> k})"
    using e map_of_om_wf [OF assms, of x y] by auto
  finally show "(e \<in> set (om_set k v m)) = (e \<in> insert (k, v) {e \<in> set m. fst e \<noteq> k})" .
qed

lemma map_of_graph: "distinct (map fst m) \<Longrightarrow> map (\<lambda>k. (k, the (map_of m k))) (map fst m) = m"
proof (induction m)
  case (Cons e m)
  have "map_of (e # m) k = map_of m k" if "k \<in> set (map fst m)" for k
    using that Cons.prems by (cases e) auto
  then have "map (\<lambda>k. (k, the (map_of (e # m) k))) (map fst m)
      = map (\<lambda>k. (k, the (map_of m k))) (map fst m)"
    by (intro map_cong refl) simp
  with Cons show ?case by (cases e) simp
qed simp

lemma om_wf_eqI:
  assumes "om_wf m" "om_wf n" "map_of m = map_of n"
  shows "m = n"
proof -
  have "fst ` set m = fst ` set n"
    using assms(3) by (metis dom_map_of_conv_image_fst)
  then have "map fst m = map fst n"
    using assms(1,2) unfolding om_wf_def
    by (intro strict_sorted_equal) auto
  then show ?thesis
    using map_of_graph [OF om_wf_distinct [OF assms(1)]]
      map_of_graph [OF om_wf_distinct [OF assms(2)]] assms(3) by metis
qed

interpretation om: map_store "map_of :: ('k::linorder \<times> 'v) list \<Rightarrow> 'k \<Rightarrow> 'v option" om_set om_erase om_wf
  by unfold_locales (auto simp: store_simps intro: inv_intros)

subsection \<open>Unordered maps and sets\<close>

lemma um_wf_Nil [simp]: "um_wf []"
  by (simp add: um_wf_def)

lemma um_wf_update [inv_intros]: "um_wf m \<Longrightarrow> um_wf (AList.update k v m)"
  by (simp add: um_wf_def distinct_update)

lemma um_wf_erase [inv_intros]: "um_wf m \<Longrightarrow> um_wf (om_erase k m)"
  unfolding um_wf_def om_erase_def by (rule distinct_map_filter)

interpretation um: map_store map_of AList.update om_erase um_wf
  by unfold_locales (auto simp: store_simps update_conv' intro: inv_intros)

lemma update_snoc_new: "k \<notin> fst ` set m \<Longrightarrow> AList.update k v m = m @ [(k, v)]"
  by (induction m) auto

lemma set_us_insert [simp]: "set (us_insert x xs) = insert x (set xs)"
  by (auto simp: us_insert_def)

lemma distinct_us_insert [simp]: "distinct (us_insert x xs) = distinct xs"
  by (auto simp: us_insert_def)

lemma set_us_erase [simp]: "set (us_erase x xs) = set xs - {x}"
  by (auto simp: us_erase_def)

lemma distinct_us_erase: "distinct xs \<Longrightarrow> distinct (us_erase x xs)"
  by (simp add: us_erase_def)

lemma set_fold_us_erase [simp]: "set (fold us_erase ws xs) = set xs - set ws"
  by (induction ws arbitrary: xs) auto

lemma distinct_fold_us_erase: "distinct xs \<Longrightarrow> distinct (fold us_erase ws xs)"
  by (induction ws arbitrary: xs) (auto simp: distinct_us_erase)

lemma fold_us_insert_distinct:
  "distinct (xs @ ys) \<Longrightarrow> fold us_insert ys xs = xs @ ys"
  by (induction ys arbitrary: xs) (auto simp: us_insert_def)

end
