(* ===== verification/Snapshot_Protocol.thy ===== *)
theory Snapshot_Protocol
  imports Prelude
begin

text \<open>
  The Chandy-Lamport participant of \<open>src/src/snapshot/chandy_lamport.{h,cpp}\<close>: the
  messages and snapshots it exchanges, its operations \<open>Send\<close>, \<open>Initiate\<close>, \<open>Receive\<close>,
  \<open>TakeCompleted\<close> and \<open>Restore\<close>, and the check \<open>ValidateGlobal\<close> of a set of local
  snapshots. The callbacks the participant is built with act on an environment of the
  caller's choosing and may throw; an operation returns its outcome together with the
  participant and the environment, so what a throw leaves behind is visible.

  The theory Snapshot_Runs composes participants over FIFO channels and shows that
  the snapshots they complete form a consistent cut.
\<close>

section \<open>Messages and snapshots\<close>

type_synonym node_id = u32

datatype message_kind = KindData | KindMarker | KindOther u8

record message =
  ms_kind :: message_kind
  ms_sequence :: u64
  ms_epoch :: u64
  ms_payload :: bytes

record channel_record =
  cr_peer :: node_id
  cr_sequence :: u64
  cr_payload :: bytes

type_synonym counters = "(node_id \<times> u64) list"

record local_snapshot =
  ls_node :: node_id
  ls_epoch :: u64
  ls_state :: bytes
  ls_received :: counters
  ls_sent :: counters
  ls_marker_sequences :: counters
  ls_channels :: "channel_record list"

type_synonym topology = "(node_id \<times> node_id list) list"

text \<open>\<open>sizeof(ChannelRecord)\<close> under the 64-bit ABI: a padded \<open>NodeId\<close>, a \<open>uint64_t\<close>
  and a \<open>std::vector\<close> of three pointers.\<close>

definition channel_record_size :: nat where
  "channel_record_size = 40"

section \<open>The participant\<close>

record participant =
  pt_node :: node_id
  pt_received :: counters
  pt_sent :: counters
  pt_limit :: nat
  pt_recorded_bytes :: nat
  pt_active :: "local_snapshot option"
  pt_completed :: "local_snapshot option"
  pt_marked :: "node_id list"
  pt_last_epoch :: u64
  pt_failed :: bool

record 'e callbacks =
  cb_capture :: "'e \<Rightarrow> bytes res \<times> 'e"
  cb_deliver :: "node_id \<Rightarrow> bytes \<Rightarrow> 'e \<Rightarrow> unit res \<times> 'e"
  cb_transmit :: "node_id \<Rightarrow> message \<Rightarrow> 'e \<Rightarrow> unit res \<times> 'e"

subsection \<open>Code that changes the participant and its environment, and may throw\<close>

type_synonym ('e, 'a) act = "participant \<times> 'e \<Rightarrow> 'a res \<times> participant \<times> 'e"

definition bind_act :: "('e, 'a) act \<Rightarrow> ('a \<Rightarrow> ('e, 'b) act) \<Rightarrow> ('e, 'b) act" where
  "bind_act m f s = (case m s of (Inl x, t) \<Rightarrow> (Inl x, t) | (Inr a, t) \<Rightarrow> f a t)"

definition check_act :: "(participant \<Rightarrow> bool) \<Rightarrow> string \<Rightarrow> ('e, unit) act" where
  "check_act c msg s = (require (c (fst s)) msg, s)"

definition get_act :: "(participant \<Rightarrow> 'a res) \<Rightarrow> ('e, 'a) act" where
  "get_act f s = (f (fst s), s)"

definition modify_act :: "(participant \<Rightarrow> participant) \<Rightarrow> ('e, unit) act" where
  "modify_act f s = (Inr (), f (fst s), snd s)"

definition call_act :: "('e \<Rightarrow> 'a res \<times> 'e) \<Rightarrow> ('e, 'a) act" where
  "call_act f s = (fst (f (snd s)), fst s, snd (f (snd s)))"

fun for_act :: "('a \<Rightarrow> ('e, unit) act) \<Rightarrow> 'a list \<Rightarrow> ('e, unit) act" where
  "for_act f [] = (\<lambda>s. (Inr (), s))"
| "for_act f (x # xs) = bind_act (f x) (\<lambda>_. for_act f xs)"

definition at_key :: "('k \<times> 'v) list \<Rightarrow> 'k \<Rightarrow> 'v res" where
  "at_key m k = (case map_of m k of None \<Rightarrow> Inl (OutOfRange ''map::at'') | Some v \<Rightarrow> Inr v)"

text \<open>The \<open>CheckHealthy\<close> before and the \<open>catch (...)\<close> around the body of an operation.\<close>

definition check_healthy :: "('e, unit) act" where
  "check_healthy = check_act (\<lambda>p. \<not> pt_failed p) ''snapshot participant failed''"

definition poisoning :: "('e, 'a) act \<Rightarrow> ('e, 'a) act" where
  "poisoning m s =
     (case m s of
        (Inl x, p, e) \<Rightarrow> (Inl x, p\<lparr>pt_failed := True\<rparr>, e)
      | (Inr a, t) \<Rightarrow> (Inr a, t))"

subsection \<open>The operations\<close>

definition new_participant :: "node_id \<Rightarrow> node_id list \<Rightarrow> bool \<Rightarrow> nat \<Rightarrow> participant res" where
  "new_participant node peers has_callbacks limit =
     bind_res (require (0 < limit \<and> has_callbacks) ''invalid snapshot callbacks/limit'') (\<lambda>_.
     fold_res
       (\<lambda>peer p. bind_res
          (require (peer \<noteq> node \<and> map_of (pt_received p) peer = None) ''invalid snapshot peer'') (\<lambda>_.
          Inr (p\<lparr>pt_received := om_set peer 0 (pt_received p),
                 pt_sent := om_set peer 0 (pt_sent p)\<rparr>)))
       peers
       \<lparr>pt_node = node, pt_received = [], pt_sent = [], pt_limit = limit, pt_recorded_bytes = 0,
        pt_active = None, pt_completed = None, pt_marked = [], pt_last_epoch = 0,
        pt_failed = False\<rparr>)"

definition check_peer :: "node_id \<Rightarrow> ('e, unit) act" where
  "check_peer peer = check_act (\<lambda>p. map_of (pt_received p) peer \<noteq> None) ''unknown snapshot peer''"

definition marker_message :: "u64 \<Rightarrow> u64 \<Rightarrow> message" where
  "marker_message sequence epoch =
     \<lparr>ms_kind = KindMarker, ms_sequence = sequence, ms_epoch = epoch, ms_payload = []\<rparr>"

definition data_message :: "u64 \<Rightarrow> bytes \<Rightarrow> message" where
  "data_message sequence payload =
     \<lparr>ms_kind = KindData, ms_sequence = sequence, ms_epoch = 0, ms_payload = payload\<rparr>"

definition cut_here :: "u64 \<Rightarrow> bytes \<Rightarrow> participant \<Rightarrow> local_snapshot" where
  "cut_here epoch state p =
     \<lparr>ls_node = pt_node p, ls_epoch = epoch, ls_state = state, ls_received = pt_received p,
      ls_sent = pt_sent p, ls_marker_sequences = [], ls_channels = []\<rparr>"

definition start :: "'e callbacks \<Rightarrow> u64 \<Rightarrow> ('e, unit) act" where
  "start cbs epoch =
     bind_act (check_act (\<lambda>p. pt_last_epoch p < epoch \<and> pt_active p = None \<and> pt_completed p = None)
       ''overlapping/stale snapshot epoch'') (\<lambda>_.
     bind_act (call_act (cb_capture cbs)) (\<lambda>state.
     bind_act (check_act (\<lambda>p. length state \<le> pt_limit p) ''snapshot state exceeds limit'') (\<lambda>_.
     bind_act (modify_act (\<lambda>p. p\<lparr>pt_recorded_bytes := length state,
                                 pt_active := Some (cut_here epoch state p),
                                 pt_marked := []\<rparr>)) (\<lambda>_.
     bind_act (get_act (\<lambda>p. Inr (pt_sent p))) (\<lambda>sent.
     for_act (\<lambda>(peer, sequence). call_act (cb_transmit cbs peer (marker_message sequence epoch)))
       sent)))))"

definition finish_if_ready :: "participant \<Rightarrow> participant" where
  "finish_if_ready p =
     (case pt_active p of
        Some s \<Rightarrow>
          if length (pt_marked p) = length (pt_received p)
          then p\<lparr>pt_last_epoch := ls_epoch s, pt_completed := Some s, pt_active := None\<rparr>
          else p
      | None \<Rightarrow> p)"

definition initiate :: "'e callbacks \<Rightarrow> u64 \<Rightarrow> ('e, unit) act" where
  "initiate cbs epoch =
     bind_act check_healthy (\<lambda>_.
     poisoning (bind_act (start cbs epoch) (\<lambda>_. modify_act finish_if_ready)))"

definition send :: "'e callbacks \<Rightarrow> node_id \<Rightarrow> bytes \<Rightarrow> ('e, unit) act" where
  "send cbs peer payload =
     bind_act check_healthy (\<lambda>_.
     poisoning (
       bind_act (check_peer peer) (\<lambda>_.
       bind_act (get_act (\<lambda>p. at_key (pt_sent p) peer)) (\<lambda>n.
       bind_act (check_act (\<lambda>_. n \<noteq> u64_max) ''send sequence overflow'') (\<lambda>_.
       bind_act (call_act (cb_transmit cbs peer (data_message (n + 1) payload))) (\<lambda>_.
       modify_act (\<lambda>p. p\<lparr>pt_sent := om_set peer (n + 1) (pt_sent p)\<rparr>)))))))"

text \<open>The two branches of \<open>Receive\<close>; recording in the channel log is its inner \<open>if\<close>.\<close>

definition record_in_flight :: "node_id \<Rightarrow> message \<Rightarrow> ('e, unit) act" where
  "record_in_flight peer m =
     bind_act (check_act (\<lambda>p. channel_record_size \<le> pt_limit p - pt_recorded_bytes p
         \<and> length (ms_payload m) \<le> pt_limit p - pt_recorded_bytes p - channel_record_size)
       ''in-flight channel snapshot exceeds limit'') (\<lambda>_.
     modify_act (\<lambda>p. p\<lparr>
       pt_active := map_option (\<lambda>s. s\<lparr>ls_channels := ls_channels s
         @ [\<lparr>cr_peer = peer, cr_sequence = ms_sequence m, cr_payload = ms_payload m\<rparr>]\<rparr>) (pt_active p),
       pt_recorded_bytes := pt_recorded_bytes p + (channel_record_size + length (ms_payload m))\<rparr>))"

definition receive_data :: "'e callbacks \<Rightarrow> node_id \<Rightarrow> message \<Rightarrow> ('e, unit) act" where
  "receive_data cbs peer m =
     bind_act (get_act (\<lambda>p. at_key (pt_received p) peer)) (\<lambda>n.
     bind_act (check_act (\<lambda>_. ms_epoch m = 0 \<and> n \<noteq> u64_max \<and> ms_sequence m = n + 1)
       ''non-FIFO/duplicate data sequence'') (\<lambda>_.
     bind_act (\<lambda>s. if pt_active (fst s) \<noteq> None \<and> peer \<notin> set (pt_marked (fst s))
                   then record_in_flight peer m s else (Inr (), s)) (\<lambda>_.
     bind_act (modify_act (\<lambda>p. p\<lparr>pt_received := om_set peer (ms_sequence m) (pt_received p)\<rparr>)) (\<lambda>_.
     call_act (cb_deliver cbs peer (ms_payload m))))))"

definition mark :: "node_id \<Rightarrow> u64 \<Rightarrow> participant \<Rightarrow> participant" where
  "mark peer sequence p =
     p\<lparr>pt_marked := us_insert peer (pt_marked p),
       pt_active := map_option (\<lambda>s. s\<lparr>ls_marker_sequences :=
         (if map_of (ls_marker_sequences s) peer = None
          then om_set peer sequence (ls_marker_sequences s) else ls_marker_sequences s)\<rparr>) (pt_active p)\<rparr>"

definition receive_marker :: "'e callbacks \<Rightarrow> node_id \<Rightarrow> message \<Rightarrow> ('e, unit) act" where
  "receive_marker cbs peer m =
     bind_act (check_act (\<lambda>_. ms_payload m = [] \<and> ms_epoch m \<noteq> 0) ''invalid marker'') (\<lambda>_.
     bind_act (get_act (\<lambda>p. at_key (pt_received p) peer)) (\<lambda>n.
     bind_act (check_act (\<lambda>_. ms_sequence m = n) ''marker sequence does not match FIFO frontier'') (\<lambda>_.
     bind_act (\<lambda>s. if pt_active (fst s) = None then start cbs (ms_epoch m) s else (Inr (), s)) (\<lambda>_.
     bind_act (check_act (\<lambda>p. map_option ls_epoch (pt_active p) = Some (ms_epoch m)
         \<and> peer \<notin> set (pt_marked p)) ''overlapping/duplicate marker'') (\<lambda>_.
     bind_act (modify_act (mark peer (ms_sequence m))) (\<lambda>_.
     modify_act finish_if_ready))))))"

definition receive :: "'e callbacks \<Rightarrow> node_id \<Rightarrow> message \<Rightarrow> ('e, unit) act" where
  "receive cbs peer m =
     bind_act check_healthy (\<lambda>_.
     poisoning (
       bind_act (check_peer peer) (\<lambda>_.
       case ms_kind m of
         KindData \<Rightarrow> receive_data cbs peer m
       | KindMarker \<Rightarrow> receive_marker cbs peer m
       | KindOther _ \<Rightarrow> (\<lambda>s. (Inl (RuntimeError ''unknown message kind''), s)))))"

definition take_completed :: "('e, local_snapshot) act" where
  "take_completed =
     bind_act check_healthy (\<lambda>_.
     bind_act (check_act (\<lambda>p. pt_completed p \<noteq> None) ''snapshot is incomplete'') (\<lambda>_.
     bind_act (get_act (\<lambda>p. Inr (the (pt_completed p)))) (\<lambda>s.
     bind_act (modify_act (\<lambda>p. p\<lparr>pt_completed := None\<rparr>)) (\<lambda>_.
     (\<lambda>t. (Inr s, t))))))"

definition replay :: "'e callbacks \<Rightarrow> channel_record \<Rightarrow> ('e, unit) act" where
  "replay cbs r =
     bind_act (check_peer (cr_peer r)) (\<lambda>_.
     bind_act (get_act (\<lambda>p. at_key (pt_received p) (cr_peer r))) (\<lambda>n.
     bind_act (check_act (\<lambda>_. n \<noteq> u64_max \<and> cr_sequence r = n + 1) ''invalid replay sequence'') (\<lambda>_.
     bind_act (modify_act (\<lambda>p. p\<lparr>pt_received := om_set (cr_peer r) (cr_sequence r) (pt_received p)\<rparr>)) (\<lambda>_.
     call_act (cb_deliver cbs (cr_peer r) (cr_payload r))))))"

definition restore_participant :: "'e callbacks \<Rightarrow> local_snapshot \<Rightarrow> ('e, unit) act" where
  "restore_participant cbs s =
     bind_act check_healthy (\<lambda>_.
     poisoning (
       bind_act (check_act (\<lambda>p. pt_active p = None \<and> pt_completed p = None \<and> pt_last_epoch p = 0
           \<and> ls_node s = pt_node p \<and> 0 < ls_epoch s)
         ''restore requires a fresh matching participant'') (\<lambda>_.
       bind_act (check_act (\<lambda>p. length (ls_received s) = length (pt_received p)
           \<and> length (ls_sent s) = length (pt_sent p)
           \<and> length (ls_marker_sequences s) = length (pt_received p)) ''restore topology mismatch'') (\<lambda>_.
       bind_act (check_act (\<lambda>p. list_all (\<lambda>(peer, count). count = 0 \<and> map_of (pt_sent p) peer = Some 0
           \<and> map_of (ls_received s) peer \<noteq> None \<and> map_of (ls_sent s) peer \<noteq> None
           \<and> map_of (ls_marker_sequences s) peer \<noteq> None) (pt_received p))
         ''restore topology/activity mismatch'') (\<lambda>_.
       bind_act (modify_act (\<lambda>p. p\<lparr>pt_received := ls_received s, pt_sent := ls_sent s\<rparr>)) (\<lambda>_.
       bind_act (for_act (replay cbs) (ls_channels s)) (\<lambda>_.
       bind_act (check_act (\<lambda>p. pt_received p = ls_marker_sequences s) ''incomplete channel replay'') (\<lambda>_.
       modify_act (\<lambda>p. p\<lparr>pt_last_epoch := ls_epoch s\<rparr>)))))))))"

subsection \<open>The check of a global snapshot\<close>

definition index_snapshots ::
  "u64 \<Rightarrow> topology \<Rightarrow> local_snapshot list \<Rightarrow> (node_id \<times> local_snapshot) list res" where
  "index_snapshots epoch topology snapshots =
     fold_res (\<lambda>s nodes. bind_res
         (require (ls_epoch s = epoch \<and> map_of topology (ls_node s) \<noteq> None
            \<and> map_of nodes (ls_node s) = None) ''mixed epoch/duplicate/unknown node'') (\<lambda>_.
         Inr (om_set (ls_node s) s nodes)))
       snapshots []"

definition follow_log :: "node_id list \<Rightarrow> channel_record list \<Rightarrow> counters \<Rightarrow> counters res" where
  "follow_log expected =
     fold_res (\<lambda>r next. bind_res
       (require (cr_peer r \<in> set expected \<and> (case map_of next (cr_peer r) of
            None \<Rightarrow> False
          | Some n \<Rightarrow> n \<noteq> u64_max \<and> cr_sequence r = n + 1))
          ''channel log is not a contiguous FIFO prefix'') (\<lambda>_.
       Inr (om_set (cr_peer r) (the (map_of next (cr_peer r)) + 1) next)))"

definition check_link ::
  "(node_id \<times> local_snapshot) list \<Rightarrow> node_id \<Rightarrow> local_snapshot \<Rightarrow> counters \<Rightarrow> node_id \<Rightarrow> unit res" where
  "check_link nodes node s next peer =
     bind_res (require (map_of nodes peer \<noteq> None \<and> map_of (ls_sent s) peer \<noteq> None
         \<and> map_of next peer \<noteq> None \<and> map_of (ls_marker_sequences s) peer \<noteq> None)
       ''snapshot peer missing'') (\<lambda>_.
     bind_res (at_key nodes peer) (\<lambda>sender.
     bind_res (require (map_of (ls_sent sender) node \<noteq> None \<and> map_of (ls_received sender) node \<noteq> None)
       ''asymmetric topology'') (\<lambda>_.
     require (map_of (ls_sent sender) node = map_of next peer
         \<and> map_of next peer = map_of (ls_marker_sequences s) peer)
       ''inconsistent global cut: missing/orphan channel messages'')))"

definition check_node ::
  "(node_id \<times> local_snapshot) list \<Rightarrow> node_id \<times> node_id list \<Rightarrow> unit \<Rightarrow> unit res" where
  "check_node nodes entry u = (case entry of (node, peers) \<Rightarrow>
     bind_res (at_key nodes node) (\<lambda>s.
     let expected = sort (remdups peers) in
     bind_res (require (length expected = length peers \<and> node \<notin> set expected) ''invalid topology'') (\<lambda>_.
     bind_res (require (length (ls_received s) = length expected \<and> length (ls_sent s) = length expected
         \<and> length (ls_marker_sequences s) = length expected) ''snapshot topology mismatch'') (\<lambda>_.
     bind_res (follow_log expected (ls_channels s) (ls_received s)) (\<lambda>next.
     fold_res (\<lambda>peer _. check_link nodes node s next peer) expected ())))))"

definition validate_global :: "local_snapshot list \<Rightarrow> topology \<Rightarrow> unit res" where
  "validate_global snapshots topology =
     bind_res (require (topology \<noteq> [] \<and> length snapshots = length topology)
       ''incomplete global snapshot'') (\<lambda>_.
     bind_res (require (0 < ls_epoch (hd snapshots)) ''invalid global epoch'') (\<lambda>_.
     bind_res (index_snapshots (ls_epoch (hd snapshots)) topology snapshots) (\<lambda>nodes.
     fold_res (check_node nodes) topology ())))"

section \<open>Reasoning about operations\<close>

named_theorems act_simps \<open>outcomes of the participant's code\<close>

lemma bind_act_Inr [act_simps]:
  "(bind_act m f s = (Inr y, t)) = (\<exists>x u. m s = (Inr x, u) \<and> f x u = (Inr y, t))"
  by (auto simp: bind_act_def split: prod.splits sum.splits)

lemma check_act_Inr [act_simps]: "(check_act c msg s = (Inr u, t)) = (c (fst s) \<and> t = s)"
  by (auto simp: check_act_def)

lemma get_act_Inr [act_simps]: "(get_act f s = (Inr x, t)) = (f (fst s) = Inr x \<and> t = s)"
  by (auto simp: get_act_def)

lemma modify_act_Inr [act_simps]:
  "(modify_act f s = (Inr u, t)) = (t = (f (fst s), snd s))"
  by (auto simp: modify_act_def)

lemma call_act_Inr [act_simps]:
  "(call_act f s = (Inr x, t)) = (fst t = fst s \<and> f (snd s) = (Inr x, snd t))"
  by (cases t; cases "f (snd s)") (auto simp: call_act_def)

lemma at_key_Inr [act_simps]: "(at_key m k = Inr v) = (map_of m k = Some v)"
  by (auto simp: at_key_def split: option.splits)

lemma poisoning_Inr [act_simps]: "(poisoning m s = (Inr x, t)) = (m s = (Inr x, t))"
  by (auto simp: poisoning_def split: prod.splits sum.splits)

lemma check_healthy_Inr [act_simps]: "(check_healthy s = (Inr u, t)) = (\<not> pt_failed (fst s) \<and> t = s)"
  by (auto simp: check_healthy_def act_simps)

lemma check_peer_Inr [act_simps]:
  "(check_peer k s = (Inr u, t)) = (map_of (pt_received (fst s)) k \<noteq> None \<and> t = s)"
  by (auto simp: check_peer_def act_simps)

text \<open>A throw poisons the participant for good, except out of \<open>TakeCompleted\<close>.\<close>

lemma poisoned_stays:
  assumes "pt_failed (fst s)"
  shows "send cbs k b s = (Inl (RuntimeError ''snapshot participant failed''), s)"
    and "initiate cbs ep s = (Inl (RuntimeError ''snapshot participant failed''), s)"
    and "receive cbs k m s = (Inl (RuntimeError ''snapshot participant failed''), s)"
    and "restore_participant cbs sn s = (Inl (RuntimeError ''snapshot participant failed''), s)"
    and "take_completed s = (Inl (RuntimeError ''snapshot participant failed''), s)"
  using assms
  by (simp_all add: send_def initiate_def receive_def restore_participant_def take_completed_def bind_act_def
      check_healthy_def check_act_def require_def)

lemma poisoning_Inl: "poisoning m s = (Inl x, t) \<Longrightarrow> pt_failed (fst t)"
  by (auto simp: poisoning_def split: prod.splits sum.splits)

lemma throw_poisons:
  "send cbs k b s = (Inl x, t) \<Longrightarrow> pt_failed (fst t)"
  "initiate cbs ep s = (Inl x, t) \<Longrightarrow> pt_failed (fst t)"
  "receive cbs k m s = (Inl x, t) \<Longrightarrow> pt_failed (fst t)"
  "restore_participant cbs sn s = (Inl x, t) \<Longrightarrow> pt_failed (fst t)"
  unfolding send_def initiate_def receive_def restore_participant_def bind_act_def [of check_healthy]
  by (auto simp: check_healthy_def check_act_def require_def split: if_splits dest: poisoning_Inl)

section \<open>What a global snapshot has to satisfy\<close>

definition log_of :: "node_id \<Rightarrow> local_snapshot \<Rightarrow> channel_record list" where
  "log_of peer s = filter (\<lambda>r. cr_peer r = peer) (ls_channels s)"

text \<open>The sequence numbers of a log continue a counter without a gap and without wrapping.\<close>

fun contiguous :: "u64 \<Rightarrow> channel_record list \<Rightarrow> bool" where
  "contiguous n [] = True"
| "contiguous n (r # rs) = (n \<noteq> u64_max \<and> cr_sequence r = n + 1 \<and> contiguous (n + 1) rs)"

definition keys_are :: "counters \<Rightarrow> node_id list \<Rightarrow> bool" where
  "keys_are m ks \<longleftrightarrow> fst ` set m = set ks"

text \<open>The link from a peer: what the sender had sent at its cut is what the receiver had
  received at its own, plus the recorded log, and is where the marker came.\<close>

definition link_consistent :: "local_snapshot \<Rightarrow> local_snapshot \<Rightarrow> bool" where
  "link_consistent sender s \<longleftrightarrow>
     (\<exists>n. map_of (ls_received s) (ls_node sender) = Some n
        \<and> contiguous n (log_of (ls_node sender) s)
        \<and> map_of (ls_sent sender) (ls_node s) = Some (n + of_nat (length (log_of (ls_node sender) s)))
        \<and> map_of (ls_marker_sequences s) (ls_node sender) = map_of (ls_sent sender) (ls_node s))"

definition node_consistent :: "local_snapshot list \<Rightarrow> local_snapshot \<Rightarrow> node_id list \<Rightarrow> bool" where
  "node_consistent snapshots s peers \<longleftrightarrow>
     distinct peers \<and> ls_node s \<notin> set peers
     \<and> keys_are (ls_received s) peers \<and> keys_are (ls_sent s) peers
     \<and> keys_are (ls_marker_sequences s) peers
     \<and> (\<forall>r \<in> set (ls_channels s). cr_peer r \<in> set peers)
     \<and> (\<forall>peer \<in> set peers. \<exists>sender \<in> set snapshots. ls_node sender = peer
          \<and> link_consistent sender s \<and> map_of (ls_received sender) (ls_node s) \<noteq> None)"

definition consistent_cut :: "local_snapshot list \<Rightarrow> topology \<Rightarrow> bool" where
  "consistent_cut snapshots topology \<longleftrightarrow>
     snapshots \<noteq> [] \<and> 0 < ls_epoch (hd snapshots)
     \<and> (\<forall>s \<in> set snapshots. ls_epoch s = ls_epoch (hd snapshots))
     \<and> distinct (map ls_node snapshots) \<and> set (map ls_node snapshots) = fst ` set topology
     \<and> (\<forall>s \<in> set snapshots. node_consistent snapshots s (the (map_of topology (ls_node s))))"

definition snapshot_wf :: "local_snapshot \<Rightarrow> bool" where
  "snapshot_wf s \<longleftrightarrow> om_wf (ls_received s) \<and> om_wf (ls_sent s) \<and> om_wf (ls_marker_sequences s)"

lemma om_set_present:
  "om_wf m \<Longrightarrow> map_of m k = Some v \<Longrightarrow> om_set k w m = map (\<lambda>(a, b). (a, if a = k then w else b)) m"
proof (induction k w m rule: om_set.induct)
  case (2 k w a b m)
  show ?case
  proof (cases "k = a")
    case True
    have "map (\<lambda>(a, b). (a, if a = k then w else b)) m = m"
      using "2.prems"(1) True by (intro map_idI) (auto simp: om_wf_Cons)
    with True show ?thesis by simp
  next
    case False
    then have "map_of m k = Some v" using "2.prems"(2) by simp
    then have "a < k" using "2.prems"(1) by (auto simp: om_wf_Cons dest!: map_of_SomeD)
    with False "2.IH" "2.prems" \<open>map_of m k = Some v\<close> show ?thesis by (simp add: om_wf_Cons)
  qed
qed simp

definition advance :: "channel_record list \<Rightarrow> counters \<Rightarrow> counters" where
  "advance rs = map (\<lambda>(i, n). (i, n + of_nat (length (filter (\<lambda>r. cr_peer r = i) rs))))"

lemma map_of_advance:
  "map_of (advance rs m) i = map_option (\<lambda>n. n + of_nat (length (filter (\<lambda>r. cr_peer r = i) rs))) (map_of m i)"
  unfolding advance_def by (induction m) auto

lemma fst_advance [simp]: "map fst (advance rs m) = map fst m" "fst ` set (advance rs m) = fst ` set m"
    "length (advance rs m) = length m"
  by (auto simp: advance_def image_image case_prod_unfold)

lemma om_wf_advance [simp]: "om_wf (advance rs m) = om_wf m"
  by (simp add: om_wf_def)

lemma advance_Cons:
  assumes "om_wf m" "map_of m (cr_peer r) = Some n"
  shows "advance rs (om_set (cr_peer r) (n + 1) m) = advance (r # rs) m"
proof -
  have "x = n" if "(cr_peer r, x) \<in> set m" for x
    using that assms map_of_om_wf by (metis option.inject)
  then show ?thesis
    unfolding om_set_present [OF assms] advance_def
    by (auto simp: add.assoc add.commute add.left_commute)
qed

lemma follow_log_iff:
  "om_wf m \<Longrightarrow> (follow_log ks rs m = Inr m') =
     ((\<forall>r \<in> set rs. cr_peer r \<in> set ks \<and> map_of m (cr_peer r) \<noteq> None)
      \<and> (\<forall>i n. map_of m i = Some n \<longrightarrow> contiguous n (filter (\<lambda>r. cr_peer r = i) rs))
      \<and> m' = advance rs m)"
proof (induction rs arbitrary: m)
  case Nil
  have "advance [] m = m" by (simp add: advance_def map_idI)
  then show ?case by (auto simp: follow_log_def)
next
  case (Cons r rs)
  show ?case
  proof (cases "map_of m (cr_peer r)")
    case None
    then show ?thesis by (auto simp: follow_log_def)
  next
    case (Some n)
    let ?m = "om_set (cr_peer r) (n + 1) m"
    have step: "(follow_log ks (r # rs) m = Inr m') =
        (cr_peer r \<in> set ks \<and> n \<noteq> u64_max \<and> cr_sequence r = n + 1 \<and> follow_log ks rs ?m = Inr m')"
      using Some by (auto simp: follow_log_def)
    have look: "map_of ?m i = (if i = cr_peer r then Some (n + 1) else map_of m i)" for i
      by (simp add: store_simps)
    show ?thesis
      unfolding step Cons.IH [OF om_wf_set [OF Cons.prems]] advance_Cons [OF Cons.prems Some] look
      using Some by (auto split: if_splits)
  qed
qed

lemma index_snapshots_Inr:
  "(index_snapshots ep topo snaps = Inr nodes) =
     ((\<forall>s \<in> set snaps. ls_epoch s = ep \<and> map_of topo (ls_node s) \<noteq> None)
      \<and> distinct (map ls_node snaps)
      \<and> nodes = fold (\<lambda>s. om_set (ls_node s) s) snaps [])"
proof -
  let ?f = "\<lambda>s nodes. bind_res (require (ls_epoch s = ep \<and> map_of topo (ls_node s) \<noteq> None
      \<and> map_of nodes (ls_node s) = None) ''mixed epoch/duplicate/unknown node'') (\<lambda>_.
      Inr (om_set (ls_node s) s nodes))"
  have "(fold_res ?f snaps m = Inr nodes) =
     ((\<forall>s \<in> set snaps. ls_epoch s = ep \<and> map_of topo (ls_node s) \<noteq> None \<and> map_of m (ls_node s) = None)
      \<and> distinct (map ls_node snaps) \<and> nodes = fold (\<lambda>s. om_set (ls_node s) s) snaps m)" for m
  proof (induction snaps arbitrary: m)
    case (Cons a snaps)
    have step: "(fold_res ?f (a # snaps) m = Inr nodes) =
        ((ls_epoch a = ep \<and> map_of topo (ls_node a) \<noteq> None \<and> map_of m (ls_node a) = None)
         \<and> fold_res ?f snaps (om_set (ls_node a) a m) = Inr nodes)"
      by simp
    have fresh: "(\<forall>s \<in> set snaps. ls_epoch s = ep \<and> map_of topo (ls_node s) \<noteq> None
          \<and> map_of (om_set (ls_node a) a m) (ls_node s) = None)
        = ((\<forall>s \<in> set snaps. ls_epoch s = ep \<and> map_of topo (ls_node s) \<noteq> None \<and> map_of m (ls_node s) = None)
           \<and> ls_node a \<notin> ls_node ` set snaps)"
      by (auto simp: store_simps image_iff)
    show ?case unfolding step Cons.IH fresh by auto
  qed auto
  from this [of "[]"] show ?thesis by (simp add: index_snapshots_def)
qed

definition snapshot_index :: "local_snapshot list \<Rightarrow> (node_id \<times> local_snapshot) list" where
  "snapshot_index snaps = fold (\<lambda>s. om_set (ls_node s) s) snaps []"

lemma map_of_snapshot_index:
  assumes "distinct (map ls_node snaps)"
  shows "(map_of (snapshot_index snaps) i = Some s) = (s \<in> set snaps \<and> ls_node s = i)"
proof -
  have "(map_of (fold (\<lambda>s. om_set (ls_node s) s) snaps m) i = Some s) =
      ((s \<in> set snaps \<and> ls_node s = i) \<or> i \<notin> ls_node ` set snaps \<and> map_of m i = Some s)" for m
    using assms
  proof (induction snaps arbitrary: m)
    case (Cons x snaps)
    then show ?case by (auto simp: store_simps)
  qed simp
  from this [of "[]"] show ?thesis by (simp add: snapshot_index_def)
qed

lemma fold_res_unit: "(fold_res (\<lambda>x _. f x) xs () = Inr u) = (\<forall>x \<in> set xs. f x = Inr ())"
  by (induction xs) auto

lemma keys_areI:
  assumes "om_wf m" "length m = length ks" "distinct ks" "\<And>k. k \<in> set ks \<Longrightarrow> map_of m k \<noteq> None"
  shows "keys_are m ks"
proof -
  have "set ks \<subseteq> fst ` set m"
    using assms(4) by (metis map_of_eq_None_iff subsetI)
  moreover have "card (fst ` set m) = card (set ks)"
    using assms(2,3) distinct_card [OF om_wf_distinct [OF assms(1)]] by (simp add: distinct_card)
  ultimately show ?thesis
    unfolding keys_are_def by (metis List.finite_set card_subset_eq finite_imageI)
qed

lemma keys_are_length:
  assumes "om_wf m" "keys_are m ks" "distinct ks"
  shows "length m = length ks"
  using assms distinct_card [OF om_wf_distinct [OF assms(1)]]
  by (simp add: keys_are_def distinct_card)

lemma keys_are_map_of: "keys_are m ks \<Longrightarrow> (map_of m k = None) = (k \<notin> set ks)"
  by (simp add: keys_are_def map_of_eq_None_iff)

lemma check_link_Inr:
  assumes "distinct (map ls_node snaps)"
  shows "(check_link (snapshot_index snaps) node s m peer = Inr ()) =
    (\<exists>sender \<in> set snaps. ls_node sender = peer
       \<and> map_of (ls_sent s) peer \<noteq> None \<and> map_of (ls_received sender) node \<noteq> None
       \<and> (\<exists>n. map_of m peer = Some n \<and> map_of (ls_sent sender) node = Some n
            \<and> map_of (ls_marker_sequences s) peer = Some n))"
proof (cases "map_of (snapshot_index snaps) peer")
  case None
  then have "sender \<notin> set snaps" if "ls_node sender = peer" for sender
    using map_of_snapshot_index [OF assms, of peer sender] that by simp
  with None show ?thesis by (auto simp: check_link_def)
next
  case (Some sender)
  then have "(x \<in> set snaps \<and> ls_node x = peer) = (x = sender)" for x
    using map_of_snapshot_index [OF assms, of peer x] by auto
  then have only: "(\<exists>x \<in> set snaps. ls_node x = peer \<and> P x) = P sender" for P
    by metis
  show ?thesis unfolding only using Some by (auto simp: check_link_def act_simps)
qed

lemma check_node_Inr:
  assumes "distinct (map ls_node snaps)" "\<forall>s \<in> set snaps. snapshot_wf s" "s \<in> set snaps"
  shows "(check_node (snapshot_index snaps) (ls_node s, peers) u = Inr ()) = node_consistent snaps s peers"
proof -
  have at: "at_key (snapshot_index snaps) (ls_node s) = Inr s"
    using map_of_snapshot_index [OF assms(1), of "ls_node s" s] assms(3) by (simp add: act_simps)
  have wf: "om_wf (ls_received s)" "om_wf (ls_sent s)" "om_wf (ls_marker_sequences s)"
    using assms(2,3) by (auto simp: snapshot_wf_def)
  have len: "length (sort (remdups peers)) = length peers \<longleftrightarrow> distinct peers"
    by (metis length_remdups_card_conv card_distinct distinct_card length_sort)
  have "(check_node (snapshot_index snaps) (ls_node s, peers) u = Inr ()) =
     (distinct peers \<and> ls_node s \<notin> set peers
      \<and> length (ls_received s) = length peers \<and> length (ls_sent s) = length peers
      \<and> length (ls_marker_sequences s) = length peers
      \<and> (\<forall>r \<in> set (ls_channels s). cr_peer r \<in> set peers \<and> map_of (ls_received s) (cr_peer r) \<noteq> None)
      \<and> (\<forall>i n. map_of (ls_received s) i = Some n \<longrightarrow> contiguous n (log_of i s))
      \<and> (\<forall>peer \<in> set peers. \<exists>sender \<in> set snaps. ls_node sender = peer
         \<and> map_of (ls_sent s) peer \<noteq> None \<and> map_of (ls_received sender) (ls_node s) \<noteq> None
         \<and> (\<exists>n. map_of (advance (ls_channels s) (ls_received s)) peer = Some n
              \<and> map_of (ls_sent sender) (ls_node s) = Some n
              \<and> map_of (ls_marker_sequences s) peer = Some n)))"
    using at len wf(1)
    by (auto simp: check_node_def Let_def follow_log_iff fold_res_unit check_link_Inr [OF assms(1)] log_of_def
        distinct_remdups_id)
  also have "\<dots> = node_consistent snaps s peers" (is "?L = ?R")
  proof
    assume L: ?L
    then have k: "keys_are (ls_received s) peers" "keys_are (ls_sent s) peers"
        "keys_are (ls_marker_sequences s) peers"
      by (fastforce intro!: keys_areI wf simp: map_of_advance)+
    have "\<exists>sender \<in> set snaps. ls_node sender = p \<and> link_consistent sender s
        \<and> map_of (ls_received sender) (ls_node s) \<noteq> None" if p: "p \<in> set peers" for p
    proof -
      obtain sender n where "sender \<in> set snaps" "ls_node sender = p"
          "map_of (ls_received sender) (ls_node s) \<noteq> None"
          "map_of (advance (ls_channels s) (ls_received s)) p = Some n"
          "map_of (ls_sent sender) (ls_node s) = Some n" "map_of (ls_marker_sequences s) p = Some n"
        using L p by blast
      moreover from this obtain n0 where "map_of (ls_received s) p = Some n0"
          "n = n0 + of_nat (length (log_of p s))"
        by (auto simp: map_of_advance log_of_def)
      moreover from this have "contiguous n0 (log_of p s)" using L by blast
      ultimately show ?thesis by (auto simp: link_consistent_def intro!: bexI [of _ sender])
    qed
    with L k show ?R by (auto simp: node_consistent_def)
  next
    assume R: ?R
    have "contiguous n (log_of i s)" if "map_of (ls_received s) i = Some n" for i n
    proof -
      have "i \<in> set peers" using R that keys_are_map_of [of "ls_received s" peers i]
        by (auto simp: node_consistent_def)
      with R that show ?thesis by (fastforce simp: node_consistent_def link_consistent_def)
    qed
    moreover have "length m = length peers" if "m \<in> {ls_received s, ls_sent s, ls_marker_sequences s}" for m
      using R that wf by (auto simp: node_consistent_def intro!: keys_are_length)
    moreover have "\<exists>sender \<in> set snaps. ls_node sender = p
         \<and> map_of (ls_sent s) p \<noteq> None \<and> map_of (ls_received sender) (ls_node s) \<noteq> None
         \<and> (\<exists>n. map_of (advance (ls_channels s) (ls_received s)) p = Some n
              \<and> map_of (ls_sent sender) (ls_node s) = Some n
              \<and> map_of (ls_marker_sequences s) p = Some n)" if p: "p \<in> set peers" for p
    proof -
      obtain sender where "sender \<in> set snaps" "ls_node sender = p" "link_consistent sender s"
          "map_of (ls_received sender) (ls_node s) \<noteq> None"
        using R p by (auto simp: node_consistent_def)
      moreover have "map_of (ls_sent s) p \<noteq> None"
        using R p keys_are_map_of [of "ls_sent s" peers p] by (auto simp: node_consistent_def)
      ultimately show ?thesis
        by (intro bexI [of _ sender]) (auto simp: link_consistent_def map_of_advance log_of_def)
    qed
    moreover have "map_of (ls_received s) (cr_peer r) \<noteq> None" if "r \<in> set (ls_channels s)" for r
      using R that keys_are_map_of [of "ls_received s" peers "cr_peer r"] by (auto simp: node_consistent_def)
    ultimately show ?L
      using R unfolding node_consistent_def by simp
  qed
  finally show ?thesis .
qed

text \<open>\<open>ValidateGlobal\<close> accepts the consistent cuts and nothing else.\<close>

lemma validate_global_iff:
  assumes "om_wf topology" "topology \<noteq> []" "\<forall>s \<in> set snapshots. snapshot_wf s"
  shows "(validate_global snapshots topology = Inr ()) = consistent_cut snapshots topology"
proof -
  let ?dist = "distinct (map ls_node snapshots)"
  let ?ep = "ls_epoch (hd snapshots)"
  have cardt: "card (fst ` set topology) = length topology"
    using distinct_card [OF om_wf_distinct [OF assms(1)]] by simp
  have nodes: "(set (map ls_node snapshots) = fst ` set topology) =
      (length snapshots = length topology \<and> (\<forall>s \<in> set snapshots. map_of topology (ls_node s) \<noteq> None))" if ?dist
  proof -
    have "card (set (map ls_node snapshots)) = length snapshots" using distinct_card [OF that] by simp
    moreover have "(\<forall>s \<in> set snapshots. map_of topology (ls_node s) \<noteq> None)
        = (set (map ls_node snapshots) \<subseteq> fst ` set topology)"
      by (auto simp: map_of_eq_None_iff)
    ultimately show ?thesis using cardt by (metis List.finite_set card_subset_eq finite_imageI order_refl)
  qed
  have each: "(fold_res (check_node (snapshot_index snapshots)) topology () = Inr ()) =
      (\<forall>s \<in> set snapshots. node_consistent snapshots s (the (map_of topology (ls_node s))))"
    if d: ?dist and n: "set (map ls_node snapshots) = fst ` set topology"
  proof -
    have "(fold_res (check_node (snapshot_index snapshots)) topology () = Inr ()) =
        (\<forall>e \<in> set topology. check_node (snapshot_index snapshots) e () = Inr ())"
      using fold_res_unit [of "\<lambda>e. check_node (snapshot_index snapshots) e ()" topology "()"] by simp
    also have "\<dots> = (\<forall>s \<in> set snapshots.
        check_node (snapshot_index snapshots) (ls_node s, the (map_of topology (ls_node s))) () = Inr ())"
    proof (intro iffI ballI)
      fix s assume "\<forall>e \<in> set topology. check_node (snapshot_index snapshots) e () = Inr ()" "s \<in> set snapshots"
      moreover from this n have "ls_node s \<in> fst ` set topology" by auto
      then obtain ps where "map_of topology (ls_node s) = Some ps"
        by (metis map_of_eq_None_iff not_None_eq)
      ultimately show "check_node (snapshot_index snapshots) (ls_node s, the (map_of topology (ls_node s))) () = Inr ()"
        using map_of_SomeD [of topology "ls_node s" ps] by simp
    next
      fix e assume a: "\<forall>s \<in> set snapshots.
          check_node (snapshot_index snapshots) (ls_node s, the (map_of topology (ls_node s))) () = Inr ()"
        and e: "e \<in> set topology"
      obtain s where "s \<in> set snapshots" "ls_node s = fst e" using n e by (metis (no_types, lifting) image_iff set_map)
      moreover have "map_of topology (fst e) = Some (snd e)"
        using e om_wf_distinct [OF assms(1)] by (cases e) auto
      ultimately show "check_node (snapshot_index snapshots) e () = Inr ()" using a by force
    qed
    finally show ?thesis using check_node_Inr [OF d assms(3)] by simp
  qed
  have "(validate_global snapshots topology = Inr ()) =
      (length snapshots = length topology \<and> 0 < ?ep
       \<and> (\<forall>s \<in> set snapshots. ls_epoch s = ?ep \<and> map_of topology (ls_node s) \<noteq> None) \<and> ?dist
       \<and> fold_res (check_node (snapshot_index snapshots)) topology () = Inr ())"
    using assms(2) by (auto simp: validate_global_def index_snapshots_Inr snapshot_index_def)
  also have "\<dots> = consistent_cut snapshots topology"
  proof (cases ?dist)
    case True
    have ne: "length snapshots = length topology \<Longrightarrow> snapshots \<noteq> []" using assms(2) by auto
    show ?thesis unfolding consistent_cut_def nodes [OF True]
      using True each [OF True] nodes [OF True] ne by blast
  qed (simp add: consistent_cut_def)
  finally show ?thesis .
qed

section \<open>A new participant\<close>

definition blank_participant :: "node_id \<Rightarrow> nat \<Rightarrow> counters \<Rightarrow> participant" where
  "blank_participant node limit zeros =
     \<lparr>pt_node = node, pt_received = zeros, pt_sent = zeros, pt_limit = limit, pt_recorded_bytes = 0,
      pt_active = None, pt_completed = None, pt_marked = [], pt_last_epoch = 0, pt_failed = False\<rparr>"

definition zero_counters :: "node_id list \<Rightarrow> counters" where
  "zero_counters peers = fold (\<lambda>peer. om_set peer 0) peers []"

lemma map_of_zero_counters: "map_of (zero_counters peers) k = (if k \<in> set peers then Some 0 else None)"
proof -
  have "map_of (fold (\<lambda>peer. om_set peer (0 :: u64)) peers m) k = (if k \<in> set peers then Some 0 else map_of m k)" for m
    by (induction peers arbitrary: m) (auto simp: store_simps)
  from this [of "[]"] show ?thesis by (simp add: zero_counters_def)
qed

lemma om_wf_zero_counters [simp]: "om_wf (zero_counters peers)"
  unfolding zero_counters_def by (rule om.ok_store_all) simp

lemma keys_are_zero_counters [simp]: "keys_are (zero_counters peers) peers"
proof -
  have "fst ` set (zero_counters peers) = dom (map_of (zero_counters peers))"
    by (simp add: dom_map_of_conv_image_fst)
  then show ?thesis by (auto simp: keys_are_def map_of_zero_counters split: if_splits)
qed

text \<open>The constructor accepts a positive limit, callbacks, and distinct peers other than the node.\<close>

lemma new_participant_Inr:
  "(new_participant node peers cbs limit = Inr p) =
     (0 < limit \<and> cbs \<and> distinct peers \<and> node \<notin> set peers
      \<and> p = blank_participant node limit (zero_counters peers))"
proof -
  let ?f = "\<lambda>peer p. bind_res
      (require (peer \<noteq> node \<and> map_of (pt_received p) peer = None) ''invalid snapshot peer'') (\<lambda>_.
      Inr (p\<lparr>pt_received := om_set peer 0 (pt_received p), pt_sent := om_set peer 0 (pt_sent p)\<rparr>))"
  have step: "(fold_res ?f (k # ks) (blank_participant node limit m) = Inr p) =
      (k \<noteq> node \<and> map_of m k = None
       \<and> fold_res ?f ks (blank_participant node limit (om_set k 0 m)) = Inr p)" for k ks m
    by (auto simp: blank_participant_def)
  have "(fold_res ?f peers (blank_participant node limit m) = Inr p) =
      (distinct peers \<and> node \<notin> set peers \<and> (\<forall>k \<in> set peers. map_of m k = None)
       \<and> p = blank_participant node limit (fold (\<lambda>peer. om_set peer 0) peers m))" for m
  proof (induction peers arbitrary: m)
    case (Cons k ks)
    show ?case unfolding step Cons.IH by (auto simp: store_simps)
  qed auto
  from this [of "[]"] show ?thesis
    by (auto simp: new_participant_def zero_counters_def blank_participant_def)
qed

section \<open>Restoring from a consistent cut\<close>

definition deliver_all :: "'e callbacks \<Rightarrow> channel_record list \<Rightarrow> 'e \<Rightarrow> 'e" where
  "deliver_all cbs = fold (\<lambda>r e. snd (cb_deliver cbs (cr_peer r) (cr_payload r) e))"

lemma replay_follows_log:
  assumes "om_wf m" "follow_log ks rs m = Inr m'" "\<And>k b e. fst (cb_deliver cbs k b e) = Inr ()"
  shows "for_act (replay cbs) rs (p\<lparr>pt_received := m\<rparr>, e) = (Inr (), p\<lparr>pt_received := m'\<rparr>, deliver_all cbs rs e)"
  using assms(1,2)
proof (induction rs arbitrary: m e)
  case (Cons r rs)
  then obtain n where n: "map_of m (cr_peer r) = Some n" "n \<noteq> u64_max" "cr_sequence r = n + 1"
      "follow_log ks rs (om_set (cr_peer r) (n + 1) m) = Inr m'"
    by (auto simp: follow_log_def split: option.splits)
  have "call_act (cb_deliver cbs (cr_peer r) (cr_payload r)) (q, e)
      = (Inr (), q, snd (cb_deliver cbs (cr_peer r) (cr_payload r) e))" for q
    using assms(3) by (simp add: call_act_def)
  then have "replay cbs r (p\<lparr>pt_received := m\<rparr>, e) =
      (Inr (), p\<lparr>pt_received := om_set (cr_peer r) (n + 1) m\<rparr>, snd (cb_deliver cbs (cr_peer r) (cr_payload r) e))"
    using n by (simp add: replay_def act_simps)
  with n(4) Cons.IH [OF om_wf_set [OF Cons.prems(1)]] show ?case
    by (simp add: bind_act_def deliver_all_def)
qed (simp add: follow_log_def deliver_all_def)

lemma node_consistent_follow:
  assumes "node_consistent snaps s peers" "snapshot_wf s"
  shows "follow_log peers (ls_channels s) (ls_received s) = Inr (ls_marker_sequences s)"
proof -
  note nc = assms(1) [unfolded node_consistent_def]
  have wf: "om_wf (ls_received s)" "om_wf (ls_marker_sequences s)"
    using assms(2) by (auto simp: snapshot_wf_def)
  have link: "\<exists>n. map_of (ls_received s) k = Some n \<and> contiguous n (log_of k s)
      \<and> map_of (ls_marker_sequences s) k = Some (n + of_nat (length (log_of k s)))" if "k \<in> set peers" for k
    using nc that unfolding link_consistent_def by fastforce
  have inpeers: "k \<in> set peers" if "map_of (ls_received s) k = Some n" for k n
    using nc that keys_are_map_of [of "ls_received s" peers k] by auto
  have "ls_marker_sequences s = advance (ls_channels s) (ls_received s)"
  proof (rule om_wf_eqI)
    show "map_of (ls_marker_sequences s) = map_of (advance (ls_channels s) (ls_received s))"
    proof
      fix k
      show "map_of (ls_marker_sequences s) k = map_of (advance (ls_channels s) (ls_received s)) k"
      proof (cases "k \<in> set peers")
        case True
        then show ?thesis using link [OF True] by (auto simp: map_of_advance log_of_def)
      next
        case False
        then show ?thesis using nc keys_are_map_of [of _ peers k] by (simp add: map_of_advance)
      qed
    qed
  qed (use wf in simp_all)
  moreover have "contiguous n (filter (\<lambda>r. cr_peer r = k) (ls_channels s))" if "map_of (ls_received s) k = Some n" for k n
    using link [OF inpeers [OF that]] that by (auto simp: log_of_def)
  moreover have "map_of (ls_received s) (cr_peer r) \<noteq> None" if "r \<in> set (ls_channels s)" for r
    using nc that link [of "cr_peer r"] by auto
  ultimately show ?thesis using nc by (simp add: follow_log_iff [OF wf(1)])
qed

lemma restore_succeeds:
  assumes "node_consistent snaps s peers" "snapshot_wf s" "0 < ls_epoch s"
    and "new_participant (ls_node s) peers True limit = Inr p"
    and "\<And>k b e. fst (cb_deliver cbs k b e) = Inr ()"
  shows "restore_participant cbs s (p, e) =
     (Inr (), p\<lparr>pt_received := ls_marker_sequences s, pt_sent := ls_sent s, pt_last_epoch := ls_epoch s\<rparr>,
      deliver_all cbs (ls_channels s) e)"
proof -
  note nc = assms(1) [unfolded node_consistent_def]
  have p: "p = blank_participant (ls_node s) limit (zero_counters peers)"
    using assms(4) by (simp add: new_participant_Inr)
  have len: "length (ls_received s) = length (zero_counters peers)" "length (ls_sent s) = length (zero_counters peers)"
      "length (ls_marker_sequences s) = length (zero_counters peers)"
    using assms(2) nc keys_are_length [of _ peers] by (auto simp: snapshot_wf_def)
  have all: "list_all (\<lambda>(k, n). n = 0 \<and> map_of (pt_sent p) k = Some 0
      \<and> map_of (ls_received s) k \<noteq> None \<and> map_of (ls_sent s) k \<noteq> None
      \<and> map_of (ls_marker_sequences s) k \<noteq> None) (pt_received p)"
  proof -
    have "k \<in> set peers \<and> n = 0" if "(k, n) \<in> set (zero_counters peers)" for k n
      using that map_of_om_wf [of "zero_counters peers" k n]
      by (auto simp: map_of_zero_counters split: if_splits)
    then show ?thesis
      using nc keys_are_map_of [of _ peers]
      by (auto simp: list_all_iff p blank_participant_def map_of_zero_counters)
  qed
  let ?q = "p\<lparr>pt_sent := ls_sent s\<rparr>"
  have q: "p\<lparr>pt_received := ls_received s, pt_sent := ls_sent s\<rparr> = ?q\<lparr>pt_received := ls_received s\<rparr>"
    by simp
  have "for_act (replay cbs) (ls_channels s) (?q\<lparr>pt_received := ls_received s\<rparr>, e)
      = (Inr (), ?q\<lparr>pt_received := ls_marker_sequences s\<rparr>, deliver_all cbs (ls_channels s) e)"
    using replay_follows_log [OF _ node_consistent_follow [OF assms(1,2)] assms(5)] assms(2)
    by (simp add: snapshot_wf_def)
  then show ?thesis
    unfolding restore_participant_def using all len assms(3) q
    by (simp add: bind_act_def poisoning_def check_healthy_def check_act_def require_def
        modify_act_def p blank_participant_def)
qed

end
