(* ===== verification/Snapshot_Runs.thy ===== *)
theory Snapshot_Runs
  imports Snapshot_Protocol
begin

text \<open>
  Participants composed over reliable FIFO channels. A node is a participant with an
  application state and one outgoing queue per peer; the callbacks of the header
  comment of \<open>chandy_lamport.h\<close> are the application's capture and deliver, and a
  transmit that enqueues. A run is a list of actions in any order: a node sends, a
  node initiates the epoch, the head of a channel is delivered, a completed snapshot
  is taken. The run ends when an operation throws.

  The invariant follows every link through the run against the history of the data
  sent on it; from it come the consistency of the cut, the absence of protocol errors
  and the completion of every node once the channels are drained.
\<close>

section \<open>Nodes, channels and actions\<close>

record 'a application =
  ap_capture :: "'a \<Rightarrow> bytes"
  ap_deliver :: "node_id \<Rightarrow> bytes \<Rightarrow> 'a \<Rightarrow> 'a"

record 'a node_env =
  ne_app :: 'a
  ne_out :: "node_id \<Rightarrow> message list"

definition fifo_callbacks :: "'a application \<Rightarrow> 'a node_env callbacks" where
  "fifo_callbacks ap =
     \<lparr>cb_capture = (\<lambda>e. (Inr (ap_capture ap (ne_app e)), e)),
      cb_deliver = (\<lambda>k b e. (Inr (), e\<lparr>ne_app := ap_deliver ap k b (ne_app e)\<rparr>)),
      cb_transmit = (\<lambda>k m e. (Inr (), e\<lparr>ne_out := (ne_out e)(k := ne_out e k @ [m])\<rparr>))\<rparr>"

record 'a snap_system =
  sy_node :: "node_id \<Rightarrow> participant \<times> 'a node_env"
  sy_taken :: "node_id \<Rightarrow> local_snapshot option"
  sy_history :: "node_id \<Rightarrow> node_id \<Rightarrow> (u64 \<times> bytes) list"

abbreviation part_of :: "'a snap_system \<Rightarrow> node_id \<Rightarrow> participant" where
  "part_of s i \<equiv> fst (sy_node s i)"

abbreviation channel :: "'a snap_system \<Rightarrow> node_id \<Rightarrow> node_id \<Rightarrow> message list" where
  "channel s i j \<equiv> ne_out (snd (sy_node s i)) j"

datatype action =
    SendTo node_id node_id bytes
  | InitiateAt node_id
  | DeliverOn node_id node_id
  | TakeAt node_id

definition set_node :: "node_id \<Rightarrow> participant \<times> 'a node_env \<Rightarrow> 'a snap_system \<Rightarrow> 'a snap_system" where
  "set_node i n s = s\<lparr>sy_node := (sy_node s)(i := n)\<rparr>"

definition pop_channel :: "node_id \<Rightarrow> node_id \<Rightarrow> 'a snap_system \<Rightarrow> 'a snap_system" where
  "pop_channel i j s = (case sy_node s i of (p, e) \<Rightarrow>
     set_node i (p, e\<lparr>ne_out := (ne_out e)(j := tl (ne_out e j))\<rparr>) s)"

fun step :: "'a application \<Rightarrow> node_id list \<Rightarrow> u64 \<Rightarrow> action \<Rightarrow> 'a snap_system \<Rightarrow> 'a snap_system option" where
  "step ap ns ep (SendTo i j b) s =
     (if i \<in> set ns then
        (case send (fifo_callbacks ap) j b (sy_node s i) of
           (Inl _, _) \<Rightarrow> None
         | (Inr _, n) \<Rightarrow> Some ((set_node i n s)\<lparr>sy_history := (sy_history s)(i := (sy_history s i)(j :=
             sy_history s i j @ [(the (map_of (pt_sent (fst n)) j), b)]))\<rparr>))
      else None)"
| "step ap ns ep (InitiateAt i) s =
     (if i \<in> set ns then
        (case initiate (fifo_callbacks ap) ep (sy_node s i) of
           (Inl _, _) \<Rightarrow> None
         | (Inr _, n) \<Rightarrow> Some (set_node i n s))
      else None)"
| "step ap ns ep (DeliverOn i j) s =
     (if i \<in> set ns \<and> j \<in> set ns then
        (case channel s i j of
           [] \<Rightarrow> None
         | m # _ \<Rightarrow>
             (case receive (fifo_callbacks ap) i m (sy_node (pop_channel i j s) j) of
                (Inl _, _) \<Rightarrow> None
              | (Inr _, n) \<Rightarrow> Some (set_node j n (pop_channel i j s))))
      else None)"
| "step ap ns ep (TakeAt i) s =
     (if i \<in> set ns then
        (case take_completed (sy_node s i) of
           (Inl _, _) \<Rightarrow> None
         | (Inr sn, n) \<Rightarrow> Some ((set_node i n s)\<lparr>sy_taken := (sy_taken s)(i := Some sn)\<rparr>))
      else None)"

fun run :: "'a application \<Rightarrow> node_id list \<Rightarrow> u64 \<Rightarrow> action list \<Rightarrow> 'a snap_system \<Rightarrow> 'a snap_system option" where
  "run ap ns ep [] s = Some s"
| "run ap ns ep (a # as) s = Option.bind (step ap ns ep a s) (run ap ns ep as)"

section \<open>A link through a run\<close>

text \<open>
  One direction of a link. \<open>b\<close> is the receiver's counter when the run began, \<open>H\<close> the data
  in flight then and sent since, \<open>ch\<close> the channel, \<open>S\<close> and \<open>R\<close> the counters of sender and
  receiver, \<open>ci\<close> the sender's counter at its cut, and \<open>cj\<close> the receiver's counter at its
  cut, the marker it got and the log it recorded.
\<close>

definition numbered :: "nat \<Rightarrow> (u64 \<times> bytes) list \<Rightarrow> bool" where
  "numbered b H \<longleftrightarrow> (\<forall>n < length H. unat (fst (H ! n)) = b + n + 1)"

definition sent_data :: "(u64 \<times> bytes) list \<Rightarrow> message list" where
  "sent_data = map (\<lambda>(q, b). data_message q b)"

type_synonym receiver_cut = "u64 \<times> u64 option \<times> (u64 \<times> bytes) list"

fun log_ok :: "nat \<Rightarrow> (u64 \<times> bytes) list \<Rightarrow> u64 \<Rightarrow> u64 option \<Rightarrow> receiver_cut option \<Rightarrow> bool" where
  "log_ok b H R ci None = True"
| "log_ok b H R ci (Some (q, None, lg)) =
     (b \<le> unat q \<and> unat q \<le> unat R \<and> lg = drop (unat q - b) (take (unat R - b) H))"
| "log_ok b H R ci (Some (q, Some m, lg)) =
     (ci = Some m \<and> b \<le> unat q \<and> unat q \<le> unat m \<and> unat m \<le> unat R
      \<and> lg = drop (unat q - b) (take (unat m - b) H))"

definition got_marker :: "receiver_cut option \<Rightarrow> bool" where
  "got_marker cj = (case cj of Some (_, Some _, _) \<Rightarrow> True | _ \<Rightarrow> False)"

definition channel_ok :: "u64 \<Rightarrow> nat \<Rightarrow> (u64 \<times> bytes) list \<Rightarrow> message list \<Rightarrow> u64 \<Rightarrow> u64
    \<Rightarrow> u64 option \<Rightarrow> receiver_cut option \<Rightarrow> bool" where
  "channel_ok ep b H ch S R ci cj =
     (case ci of
        None \<Rightarrow> ch = sent_data (drop (unat R - b) H) \<and> \<not> got_marker cj
      | Some c \<Rightarrow>
          if got_marker cj then ch = sent_data (drop (unat R - b) H)
          else unat R \<le> unat c \<and> unat c \<le> unat S
            \<and> ch = sent_data (drop (unat R - b) (take (unat c - b) H)) @ marker_message c ep
                   # sent_data (drop (unat c - b) H))"

definition link_ok :: "u64 \<Rightarrow> nat \<Rightarrow> (u64 \<times> bytes) list \<Rightarrow> message list \<Rightarrow> u64 \<Rightarrow> u64
    \<Rightarrow> u64 option \<Rightarrow> receiver_cut option \<Rightarrow> bool" where
  "link_ok ep b H ch S R ci cj \<longleftrightarrow>
     numbered b H \<and> unat S = b + length H \<and> b \<le> unat R \<and> unat R \<le> unat S
     \<and> channel_ok ep b H ch S R ci cj \<and> log_ok b H R ci cj"

lemma sent_data_simps [simp]: "sent_data [] = []" "sent_data (x # xs) = data_message (fst x) (snd x) # sent_data xs"
    "sent_data (xs @ ys) = sent_data xs @ sent_data ys"
  by (auto simp: sent_data_def split: prod.splits)

lemma numbered_snoc: "numbered b H \<Longrightarrow> unat q = b + length H + 1 \<Longrightarrow> numbered b (H @ [(q, x)])"
  by (auto simp: numbered_def nth_append less_Suc_eq)

lemma link_send:
  assumes "link_ok ep b H ch S R ci cj" "S \<noteq> u64_max"
  shows "link_ok ep b (H @ [(S + 1, x)]) (ch @ [data_message (S + 1) x]) (S + 1) R ci cj"
proof -
  note l = assms(1) [unfolded link_ok_def]
  have S: "unat (S + 1) = Suc (unat S)" using u64_inc_unat [OF assms(2)] by simp
  have "log_ok b (H @ [(S + 1, x)]) R ci cj"
    using l by (cases "(b, H, R, ci, cj)" rule: log_ok.cases) auto
  moreover have "channel_ok ep b (H @ [(S + 1, x)]) (ch @ [data_message (S + 1) x]) (S + 1) R ci cj"
    using l S by (auto simp: channel_ok_def split: option.splits if_splits)
  ultimately show ?thesis
    using l S by (simp add: link_ok_def numbered_snoc)
qed

lemma link_sender_cuts:
  assumes "link_ok ep b H ch S R None cj"
  shows "link_ok ep b H (ch @ [marker_message S ep]) S R (Some S) cj"
proof -
  note l = assms [unfolded link_ok_def]
  have nm: "\<not> got_marker cj" using l by (simp add: channel_ok_def)
  have "log_ok b H R (Some S) cj"
    using l nm by (cases "(b, H, R, Some S, cj)" rule: log_ok.cases) (auto simp: got_marker_def)
  with l nm show ?thesis by (simp add: link_ok_def channel_ok_def)
qed

lemma link_receiver_cuts:
  assumes "link_ok ep b H ch S R ci None"
  shows "link_ok ep b H ch S R ci (Some (R, None, []))"
  using assms by (auto simp: link_ok_def channel_ok_def got_marker_def split: option.splits)

lemma sent_data_head:
  assumes "sent_data (drop r X) = m # ch"
  shows "r < length X \<and> m = data_message (fst (X ! r)) (snd (X ! r)) \<and> ch = sent_data (drop (Suc r) X)"
proof -
  have "r < length X" using assms by (cases "r < length X") auto
  then have "drop r X = X ! r # drop (Suc r) X" by (simp add: Cons_nth_drop_Suc)
  with assms \<open>r < length X\<close> show ?thesis by simp
qed

lemma numbered_next:
  assumes "numbered b H" "b \<le> unat R" "unat R - b < length H"
  shows "fst (H ! (unat R - b)) = R + 1" "R \<noteq> u64_max"
proof -
  have n: "unat (fst (H ! (unat R - b))) = unat R + 1"
    using assms by (auto simp: numbered_def)
  have "unat (fst (H ! (unat R - b))) < 2 ^ 64" by (rule unsigned_less [THEN order_less_le_trans]) simp
  then show R: "R \<noteq> u64_max" using n by (auto simp: u64_max_def unsigned_minus_1_eq_mask mask_eq_exp_minus_1)
  show "fst (H ! (unat R - b)) = R + 1"
    using n u64_inc_unat [OF R] by (metis word_unat_eq_iff)
qed

fun log_data :: "u64 \<times> bytes \<Rightarrow> receiver_cut option \<Rightarrow> receiver_cut option" where
  "log_data x (Some (q, None, lg)) = Some (q, None, lg @ [x])"
| "log_data x cj = cj"

lemma got_marker_log_data [simp]: "got_marker (log_data x cj) = got_marker cj"
  by (cases "(x, cj)" rule: log_data.cases) (auto simp: got_marker_def)

text \<open>The head of a channel is the next datum, or the marker exactly at the sender's cut.\<close>

lemma link_head:
  assumes l: "link_ok ep b H (m # ch) S R ci cj"
  obtains (Datum) x where "m = data_message (R + 1) x" "R \<noteq> u64_max"
      "link_ok ep b H ch S (R + 1) ci (log_data (R + 1, x) cj)"
    | (Mark) "m = marker_message R ep" "ci = Some R" "\<not> got_marker cj"
      "\<And>q lg. cj = Some (q, None, lg) \<Longrightarrow> link_ok ep b H ch S R ci (Some (q, Some R, lg))"
proof -
  let ?r = "unat R - b"
  note l = l [unfolded link_ok_def]
  have datum: thesis
    if "m = data_message (fst (H ! ?r)) (snd (H ! ?r))" "?r < length H"
      "channel_ok ep b H ch S (R + 1) ci cj" "unat R < unat S"
      "\<And>c. ci = Some c \<Longrightarrow> \<not> got_marker cj \<Longrightarrow> unat R < unat c"
  proof -
    note nx = numbered_next [OF conjunct1 [OF l] _ that(2)]
    have R1: "unat (R + 1) = Suc (unat R)" using u64_inc_unat [of R] nx l by simp
    have Hr: "H ! ?r = (R + 1, snd (H ! ?r))" using nx l by (metis prod.collapse)
    have r1: "unat (R + 1) - b = Suc ?r" using R1 l by (simp add: Suc_diff_le)
    have tk: "take (Suc ?r) H = take ?r H @ [(R + 1, snd (H ! ?r))]"
      using that(2) Hr by (metis take_Suc_conv_app_nth)
    have "log_ok b H (R + 1) ci (log_data (R + 1, snd (H ! ?r)) cj)"
    proof (cases "(b, H, R, ci, cj)" rule: log_ok.cases)
      case (2 b' H' R' ci' q lg)
      then have q: "b \<le> unat q" "unat q \<le> unat R" "lg = drop (unat q - b) (take ?r H)"
        using l by auto
      then have "drop (unat q - b) (take (Suc ?r) H) = lg @ [(R + 1, snd (H ! ?r))]"
        using that(2) unfolding tk by simp
      with 2 q R1 r1 show ?thesis by simp
    qed (use l R1 in auto)
    moreover have "channel_ok ep b H ch S (R + 1) ci (log_data (R + 1, snd (H ! ?r)) cj)"
      using that(3) unfolding channel_ok_def got_marker_log_data .
    ultimately have "link_ok ep b H ch S (R + 1) ci (log_data (R + 1, snd (H ! ?r)) cj)"
      using l R1 that(4) by (simp add: link_ok_def)
    with that(1) nx l show thesis by (intro Datum) auto
  qed
  have rS: "unat R < unat S" if "?r < length H" using that l by simp
  have suc: "unat (R + 1) - b = Suc ?r" if "?r < length H"
    using numbered_next(2) [OF conjunct1 [OF l] _ that] u64_inc_unat [of R] l by (simp add: Suc_diff_le)
  show thesis
  proof (cases "ci = None \<or> got_marker cj")
    case True
    then have ch: "sent_data (drop ?r H) = m # ch"
      using l by (auto simp: channel_ok_def split: option.splits)
    note h = sent_data_head [OF ch]
    have "channel_ok ep b H ch S (R + 1) ci cj"
      using True h l suc by (auto simp: channel_ok_def split: option.splits)
    with h rS True show thesis by (intro datum) auto
  next
    case False
    then obtain c where c: "ci = Some c" "\<not> got_marker cj" by auto
    then have ch: "unat R \<le> unat c" "unat c \<le> unat S"
        "m # ch = sent_data (drop ?r (take (unat c - b) H)) @ marker_message c ep # sent_data (drop (unat c - b) H)"
      using l by (auto simp: channel_ok_def)
    show thesis
    proof (cases "unat R = unat c")
      case True
      then have "c = R" by (simp add: word_unat_eq_iff)
      with ch have m: "m = marker_message R ep" "ch = sent_data (drop ?r H)" by auto
      have "link_ok ep b H ch S R ci (Some (q, Some R, lg))" if "cj = Some (q, None, lg)" for q lg
        using l c m \<open>c = R\<close> that by (simp add: link_ok_def channel_ok_def got_marker_def)
      with m c \<open>c = R\<close> show thesis by (intro Mark) auto
    next
      case False
      then have lt: "?r < unat c - b" "unat R < unat c" using ch l by auto
      then obtain m' ch' where mc: "sent_data (drop ?r (take (unat c - b) H)) = m' # ch'"
        using ch(2) l by (cases "sent_data (drop ?r (take (unat c - b) H))") (auto simp: sent_data_def)
      note h = sent_data_head [OF mc]
      have len: "?r < length H" using lt ch(2) l by simp
      have "ch = ch' @ marker_message c ep # sent_data (drop (unat c - b) H)" "m = m'"
        using ch(3) mc by auto
      moreover have "unat (R + 1) \<le> unat c"
        using lt(2) numbered_next(2) [OF conjunct1 [OF l] _ len] u64_inc_unat [of R] l by simp
      ultimately have "channel_ok ep b H ch S (R + 1) ci cj"
        using c ch(2) h suc [OF len] by (simp add: channel_ok_def)
      moreover have "m = data_message (fst (H ! ?r)) (snd (H ! ?r))"
        using h lt \<open>m = m'\<close> by simp
      ultimately show thesis using rS [OF len] len lt c by (intro datum) auto
    qed
  qed
qed

section \<open>The operations with enqueuing callbacks\<close>

definition cast_markers :: "u64 \<Rightarrow> counters \<Rightarrow> (node_id \<Rightarrow> message list) \<Rightarrow> node_id \<Rightarrow> message list" where
  "cast_markers ep sent out k =
     out k @ (case map_of sent k of None \<Rightarrow> [] | Some q \<Rightarrow> [marker_message q ep])"

definition began :: "u64 \<Rightarrow> bytes \<Rightarrow> participant \<Rightarrow> participant" where
  "began ep state p =
     p\<lparr>pt_recorded_bytes := length state, pt_active := Some (cut_here ep state p), pt_marked := []\<rparr>"

lemma transmit_markers:
  "distinct (map fst sent) \<Longrightarrow>
   for_act (\<lambda>(peer, sequence). call_act (cb_transmit (fifo_callbacks ap) peer (marker_message sequence ep)))
     sent (p, e) = (Inr (), p, e\<lparr>ne_out := cast_markers ep sent (ne_out e)\<rparr>)"
proof (induction sent arbitrary: e)
  case (Cons x sent)
  obtain k q where x: "x = (k, q)" by (cases x)
  have "map_of sent k = None" using Cons.prems x by (simp add: map_of_eq_None_iff)
  then have "cast_markers ep sent ((ne_out e)(k := ne_out e k @ [marker_message q ep]))
      = cast_markers ep (x # sent) (ne_out e)"
    by (auto simp: cast_markers_def x fun_eq_iff)
  with Cons x show ?case
    by (simp add: bind_act_def call_act_def fifo_callbacks_def)
qed (simp add: cast_markers_def [abs_def])

lemma start_fifo:
  assumes "pt_last_epoch p < ep" "pt_active p = None" "pt_completed p = None" "om_wf (pt_sent p)"
  shows "start (fifo_callbacks ap) ep (p, e) =
     (if length (ap_capture ap (ne_app e)) \<le> pt_limit p
      then (Inr (), began ep (ap_capture ap (ne_app e)) p,
            e\<lparr>ne_out := cast_markers ep (pt_sent p) (ne_out e)\<rparr>)
      else (Inl (RuntimeError ''snapshot state exceeds limit''), p, e))"
  using assms transmit_markers [OF om_wf_distinct [OF assms(4)], of ap ep]
  by (simp add: start_def bind_act_def check_act_def call_act_def modify_act_def get_act_def require_def
      fifo_callbacks_def began_def)

lemma start_Inr_guard:
  "start cbs ep s = (Inr u, t) \<Longrightarrow>
     pt_last_epoch (fst s) < ep \<and> pt_active (fst s) = None \<and> pt_completed (fst s) = None"
  by (auto simp: start_def act_simps)

lemma send_fifo:
  "(send (fifo_callbacks ap) j x (p, e) = (Inr u, n)) =
     (\<exists>q. \<not> pt_failed p \<and> map_of (pt_received p) j \<noteq> None \<and> map_of (pt_sent p) j = Some q \<and> q \<noteq> u64_max
        \<and> n = (p\<lparr>pt_sent := om_set j (q + 1) (pt_sent p)\<rparr>,
               e\<lparr>ne_out := (ne_out e)(j := ne_out e j @ [data_message (q + 1) x])\<rparr>))"
  by (cases n) (auto simp: send_def act_simps fifo_callbacks_def)

definition room_for :: "participant \<Rightarrow> bytes \<Rightarrow> bool" where
  "room_for p x \<longleftrightarrow> channel_record_size \<le> pt_limit p - pt_recorded_bytes p
     \<and> length x \<le> pt_limit p - pt_recorded_bytes p - channel_record_size"

definition recording :: "participant \<Rightarrow> node_id \<Rightarrow> bool" where
  "recording p i \<longleftrightarrow> pt_active p \<noteq> None \<and> i \<notin> set (pt_marked p)"

definition add_record :: "node_id \<Rightarrow> u64 \<Rightarrow> bytes \<Rightarrow> local_snapshot \<Rightarrow> local_snapshot" where
  "add_record i q x c = c\<lparr>ls_channels := ls_channels c @ [\<lparr>cr_peer = i, cr_sequence = q, cr_payload = x\<rparr>]\<rparr>"

definition got_data :: "node_id \<Rightarrow> u64 \<Rightarrow> bytes \<Rightarrow> participant \<Rightarrow> participant" where
  "got_data i q x p =
     (if recording p i
      then p\<lparr>pt_active := map_option (add_record i q x) (pt_active p),
             pt_recorded_bytes := pt_recorded_bytes p + (channel_record_size + length x),
             pt_received := om_set i q (pt_received p)\<rparr>
      else p\<lparr>pt_received := om_set i q (pt_received p)\<rparr>)"

lemma receive_data_fifo:
  assumes "\<not> pt_failed p" "map_of (pt_received p) i = Some R" "R \<noteq> u64_max"
  shows "receive (fifo_callbacks ap) i (data_message (R + 1) x) (p, e) =
     (if recording p i \<and> \<not> room_for p x
      then (Inl (RuntimeError ''in-flight channel snapshot exceeds limit''), p\<lparr>pt_failed := True\<rparr>, e)
      else (Inr (), got_data i (R + 1) x p, e\<lparr>ne_app := ap_deliver ap i x (ne_app e)\<rparr>))"
  using assms
  by (simp add: receive_def receive_data_def record_in_flight_def bind_act_def check_act_def call_act_def
      modify_act_def get_act_def require_def fifo_callbacks_def check_healthy_def check_peer_def poisoning_def
      at_key_def data_message_def recording_def room_for_def got_data_def add_record_def [abs_def])

lemma receive_marker_active:
  assumes "\<not> pt_failed p" "map_of (pt_received p) i = Some R" "ep \<noteq> 0"
    and "pt_active p = Some c" "ls_epoch c = ep" "i \<notin> set (pt_marked p)"
  shows "receive (fifo_callbacks ap) i (marker_message R ep) (p, e) = (Inr (), finish_if_ready (mark i R p), e)"
  using assms
  by (simp add: receive_def receive_marker_def bind_act_def check_act_def modify_act_def get_act_def require_def
      check_healthy_def check_peer_def poisoning_def at_key_def marker_message_def)

lemma receive_marker_idle:
  assumes "\<not> pt_failed p" "map_of (pt_received p) i = Some R" "ep \<noteq> 0" "om_wf (pt_sent p)"
    and "pt_active p = None" "pt_completed p = None" "pt_last_epoch p < ep"
  shows "receive (fifo_callbacks ap) i (marker_message R ep) (p, e) =
     (if length (ap_capture ap (ne_app e)) \<le> pt_limit p
      then (Inr (), finish_if_ready (mark i R (began ep (ap_capture ap (ne_app e)) p)),
            e\<lparr>ne_out := cast_markers ep (pt_sent p) (ne_out e)\<rparr>)
      else (Inl (RuntimeError ''snapshot state exceeds limit''), p\<lparr>pt_failed := True\<rparr>, e))"
  using assms start_fifo [OF assms(7,5,6,4), of ap e]
  by (simp add: receive_def receive_marker_def bind_act_def check_act_def modify_act_def get_act_def require_def
      check_healthy_def check_peer_def poisoning_def at_key_def marker_message_def began_def cut_here_def)

section \<open>The state of a node\<close>

definition local_cut :: "participant \<Rightarrow> local_snapshot option \<Rightarrow> local_snapshot option" where
  "local_cut p tk = (case pt_active p of Some c \<Rightarrow> Some c
     | None \<Rightarrow> (case pt_completed p of Some c \<Rightarrow> Some c | None \<Rightarrow> tk))"

definition cut_ok :: "u64 \<Rightarrow> node_id list \<Rightarrow> node_id \<Rightarrow> local_snapshot \<Rightarrow> bool" where
  "cut_ok ep peers i c \<longleftrightarrow>
     ls_node c = i \<and> ls_epoch c = ep \<and> snapshot_wf c
     \<and> keys_are (ls_received c) peers \<and> keys_are (ls_sent c) peers
     \<and> fst ` set (ls_marker_sequences c) \<subseteq> set peers
     \<and> (\<forall>r \<in> set (ls_channels c). cr_peer r \<in> set peers)"

definition idle :: "u64 \<Rightarrow> participant \<Rightarrow> local_snapshot option \<Rightarrow> bool" where
  "idle ep p tk \<longleftrightarrow> pt_active p = None \<and> pt_completed p = None \<and> tk = None \<and> pt_last_epoch p < ep"

definition taking :: "u64 \<Rightarrow> node_id list \<Rightarrow> participant \<Rightarrow> local_snapshot option \<Rightarrow> local_snapshot \<Rightarrow> bool" where
  "taking ep peers p tk c \<longleftrightarrow>
     pt_active p = Some c \<and> pt_completed p = None \<and> tk = None \<and> pt_last_epoch p < ep
     \<and> set (pt_marked p) = fst ` set (ls_marker_sequences c) \<and> distinct (pt_marked p)"

definition complete :: "u64 \<Rightarrow> node_id list \<Rightarrow> participant \<Rightarrow> local_snapshot option \<Rightarrow> local_snapshot \<Rightarrow> bool" where
  "complete ep peers p tk c \<longleftrightarrow>
     pt_active p = None \<and> pt_last_epoch p = ep \<and> keys_are (ls_marker_sequences c) peers
     \<and> (pt_completed p = Some c \<and> tk = None \<or> pt_completed p = None \<and> tk = Some c)"

definition links_wf :: "node_id list \<Rightarrow> node_id \<Rightarrow> participant \<Rightarrow> bool" where
  "links_wf peers i p \<longleftrightarrow>
     pt_node p = i \<and> \<not> pt_failed p \<and> distinct peers \<and> i \<notin> set peers
     \<and> om_wf (pt_received p) \<and> keys_are (pt_received p) peers
     \<and> om_wf (pt_sent p) \<and> keys_are (pt_sent p) peers \<and> pt_recorded_bytes p \<le> pt_limit p"

definition node_ok :: "u64 \<Rightarrow> node_id list \<Rightarrow> node_id \<Rightarrow> participant \<Rightarrow> local_snapshot option \<Rightarrow> bool" where
  "node_ok ep peers i p tk \<longleftrightarrow>
     links_wf peers i p
     \<and> (idle ep p tk
        \<or> (\<exists>c. cut_ok ep peers i c \<and> taking ep peers p tk c \<and> length (pt_marked p) \<noteq> length peers)
        \<or> (\<exists>c. cut_ok ep peers i c \<and> complete ep peers p tk c))"

subsection \<open>The operations keep it\<close>

lemma keys_are_om_set: "keys_are m ks \<Longrightarrow> k \<in> set ks \<Longrightarrow> keys_are (om_set k v m) ks"
  by (auto simp: keys_are_def fst_set_om_set)

lemma cut_finish [simp]: "local_cut (finish_if_ready p) tk = local_cut p tk"
  by (simp add: local_cut_def finish_if_ready_def split: option.splits)

lemma cut_began [simp]: "local_cut (began ep st p) tk = Some (cut_here ep st p)"
  by (simp add: local_cut_def began_def)

lemma finish_fields [simp]:
  "pt_sent (finish_if_ready p) = pt_sent p" "pt_received (finish_if_ready p) = pt_received p"
  "pt_sent (mark i q p) = pt_sent p" "pt_received (mark i q p) = pt_received p"
  "pt_sent (began ep st p) = pt_sent p" "pt_received (began ep st p) = pt_received p"
  "pt_sent (got_data i q x p) = pt_sent p" "pt_received (got_data i q x p) = om_set i q (pt_received p)"
  by (simp_all add: finish_if_ready_def mark_def began_def got_data_def split: option.splits)

lemma links_wf_simps [simp]:
  "links_wf ps i (finish_if_ready p) = links_wf ps i p" "links_wf ps i (mark k q p) = links_wf ps i p"
  by (auto simp: links_wf_def finish_if_ready_def mark_def split: option.splits)

lemma links_wf_began: "links_wf ps i p \<Longrightarrow> length st \<le> pt_limit p \<Longrightarrow> links_wf ps i (began ep st p)"
  by (auto simp: links_wf_def began_def)

lemma node_send:
  assumes "node_ok ep ps i p tk" "j \<in> set ps"
  shows "node_ok ep ps i (p\<lparr>pt_sent := om_set j q (pt_sent p)\<rparr>) tk"
  using assms by (auto simp: node_ok_def links_wf_def idle_def taking_def complete_def om_wf_set keys_are_om_set)

lemma node_finish:
  assumes "links_wf ps i p" "cut_ok ep ps i c" "taking ep ps p tk c"
  shows "node_ok ep ps i (finish_if_ready p) tk"
proof -
  have len: "length (pt_received p) = length ps"
    using assms(1) by (auto simp: links_wf_def intro: keys_are_length)
  show ?thesis
  proof (cases "length (pt_marked p) = length ps")
    case True
    have "set (pt_marked p) \<subseteq> set ps" using assms(2,3) by (auto simp: cut_ok_def taking_def)
    moreover have "card (set (pt_marked p)) = card (set ps)"
      using True assms(1,3) by (metis distinct_card links_wf_def taking_def)
    ultimately have "set (pt_marked p) = set ps" by (simp add: card_subset_eq)
    then have "complete ep ps (finish_if_ready p) tk c"
      using assms(2,3) True len
      by (auto simp: complete_def taking_def finish_if_ready_def cut_ok_def keys_are_def)
    with assms show ?thesis by (auto simp: node_ok_def)
  next
    case False
    then have "finish_if_ready p = p" using assms(3) len by (simp add: finish_if_ready_def taking_def)
    with False assms show ?thesis by (auto simp: node_ok_def)
  qed
qed

lemma node_began:
  assumes "links_wf ps i p" "idle ep p tk"
  shows "cut_ok ep ps i (cut_here ep st p) \<and> taking ep ps (began ep st p) tk (cut_here ep st p)"
  using assms by (auto simp: cut_ok_def taking_def began_def cut_here_def links_wf_def snapshot_wf_def idle_def)

definition add_marker :: "node_id \<Rightarrow> u64 \<Rightarrow> local_snapshot \<Rightarrow> local_snapshot" where
  "add_marker i q c = c\<lparr>ls_marker_sequences := om_set i q (ls_marker_sequences c)\<rparr>"

lemma marked_active:
  assumes "taking ep ps p tk c" "i \<notin> set (pt_marked p)"
  shows "pt_active (mark i q p) = Some (add_marker i q c)"
  using assms by (simp add: taking_def mark_def add_marker_def map_of_eq_None_iff)

lemma node_mark:
  assumes "cut_ok ep ps k c" "taking ep ps p tk c" "i \<in> set ps" "i \<notin> set (pt_marked p)"
  shows "cut_ok ep ps k (add_marker i q c) \<and> taking ep ps (mark i q p) tk (add_marker i q c)"
proof -
  have "taking ep ps (mark i q p) tk (add_marker i q c)"
    using assms(2) marked_active [OF assms(2,4), of q]
    by (simp add: taking_def) (simp add: mark_def add_marker_def fst_set_om_set)
  with assms(1,3) show ?thesis
    by (auto simp: cut_ok_def add_marker_def snapshot_wf_def om_wf_set fst_set_om_set)
qed

lemma node_data:
  assumes "node_ok ep ps k p tk" "i \<in> set ps" "recording p i \<Longrightarrow> room_for p x"
  shows "node_ok ep ps k (got_data i q x p) tk"
proof (cases "recording p i")
  case False
  then show ?thesis using assms
    by (auto simp: node_ok_def links_wf_def idle_def taking_def complete_def got_data_def om_wf_set keys_are_om_set)
next
  case True
  then obtain c where c: "pt_active p = Some c" "cut_ok ep ps k c" "taking ep ps p tk c"
      "length (pt_marked p) \<noteq> length ps" "links_wf ps k p"
    using assms(1) by (fastforce simp: node_ok_def recording_def idle_def complete_def taking_def)
  then have "cut_ok ep ps k (add_record i q x c)"
    using assms(2) by (auto simp: cut_ok_def add_record_def snapshot_wf_def)
  moreover have "taking ep ps (got_data i q x p) tk (add_record i q x c)"
    using c True by (simp add: taking_def got_data_def add_record_def)
  moreover have "links_wf ps k (got_data i q x p)"
    using c(5) True assms(2) assms(3) [OF True]
    by (auto simp: links_wf_def got_data_def om_wf_set keys_are_om_set room_for_def)
  moreover have "pt_marked (got_data i q x p) = pt_marked p" by (simp add: got_data_def)
  ultimately show ?thesis using c(4) unfolding node_ok_def by auto
qed

lemma take_completed_Inr:
  "(take_completed (p, e) = (Inr c, n)) =
     (\<not> pt_failed p \<and> pt_completed p = Some c \<and> n = (p\<lparr>pt_completed := None\<rparr>, e))"
  by (auto simp: take_completed_def act_simps)

lemma node_take:
  assumes "node_ok ep ps i p tk" "pt_completed p = Some c"
  shows "node_ok ep ps i (p\<lparr>pt_completed := None\<rparr>) (Some c)" "local_cut (p\<lparr>pt_completed := None\<rparr>) (Some c) = local_cut p tk"
  using assms by (auto simp: node_ok_def links_wf_def idle_def taking_def complete_def local_cut_def)

section \<open>The links of a system\<close>

definition sender_cut :: "participant \<Rightarrow> local_snapshot option \<Rightarrow> node_id \<Rightarrow> u64 option" where
  "sender_cut p tk j = map_option (\<lambda>c. the (map_of (ls_sent c) j)) (local_cut p tk)"

definition log_data_of :: "node_id \<Rightarrow> local_snapshot \<Rightarrow> (u64 \<times> bytes) list" where
  "log_data_of i c = map (\<lambda>r. (cr_sequence r, cr_payload r)) (log_of i c)"

definition receiver_cut :: "participant \<Rightarrow> local_snapshot option \<Rightarrow> node_id \<Rightarrow> receiver_cut option" where
  "receiver_cut p tk i = map_option (\<lambda>c.
     (the (map_of (ls_received c) i), map_of (ls_marker_sequences c) i, log_data_of i c)) (local_cut p tk)"

lemma sender_cut_cong:
  "local_cut p' tk' = local_cut p tk \<Longrightarrow> sender_cut p' tk' = sender_cut p tk"
  "local_cut p' tk' = local_cut p tk \<Longrightarrow> receiver_cut p' tk' = receiver_cut p tk"
  by (auto simp: sender_cut_def receiver_cut_def)

lemma cut_idle: "idle ep p tk \<Longrightarrow> local_cut p tk = None"
  by (simp add: idle_def local_cut_def)

lemma cut_taking: "taking ep ps p tk c \<Longrightarrow> local_cut p tk = Some c"
  by (simp add: taking_def local_cut_def)

lemma cut_complete: "complete ep ps p tk c \<Longrightarrow> local_cut p tk = Some c"
  by (auto simp: complete_def local_cut_def)

lemma receiver_cut_began:
  "receiver_cut (began ep st p) tk i = Some (the (map_of (pt_received p) i), None, [])"
  by (simp add: receiver_cut_def cut_here_def log_data_of_def log_of_def)

lemma sender_cut_began: "sender_cut (began ep st p) tk j = Some (the (map_of (pt_sent p) j))"
  by (simp add: sender_cut_def cut_here_def)

lemma cut_got_data:
  "local_cut (got_data i q x p) tk = (if recording p i then map_option (add_record i q x) (local_cut p tk) else local_cut p tk)"
  by (auto simp: local_cut_def got_data_def recording_def split: option.splits)

lemma sender_cut_data [simp]: "sender_cut (got_data i q x p) tk = sender_cut p tk"
  by (cases "local_cut p tk") (simp_all add: sender_cut_def [abs_def] cut_got_data add_record_def)

lemma log_data_of_add: "log_data_of k (add_record i q x c) = (if k = i then log_data_of k c @ [(q, x)] else log_data_of k c)"
  by (simp add: log_data_of_def log_of_def add_record_def)

text \<open>A datum is logged exactly while the link has a cut and no marker.\<close>

lemma receiver_cut_data:
  assumes "node_ok ep ps j p tk" "k \<in> set ps"
  shows "receiver_cut (got_data i q x p) tk k =
     (if k = i then log_data (q, x) (receiver_cut p tk k) else receiver_cut p tk k)"
proof (cases "pt_active p")
  case None
  then have nr: "\<not> recording p i" by (simp add: recording_def)
  have "log_data (q, x) (receiver_cut p tk k) = receiver_cut p tk k"
  proof (cases "local_cut p tk")
    case (Some c)
    then have "keys_are (ls_marker_sequences c) ps"
      using assms(1) None by (auto simp: node_ok_def idle_def taking_def complete_def local_cut_def)
    then obtain m where "map_of (ls_marker_sequences c) k = Some m"
      using assms(2) keys_are_map_of [of "ls_marker_sequences c" ps k] by auto
    with Some show ?thesis by (simp add: receiver_cut_def)
  qed (simp add: receiver_cut_def)
  moreover have "receiver_cut (got_data i q x p) tk = receiver_cut p tk"
    using nr by (intro sender_cut_cong) (simp add: cut_got_data)
  ultimately show ?thesis by auto
next
  case (Some c)
  then have t: "taking ep ps p tk c"
    using assms(1) by (auto simp: node_ok_def idle_def taking_def complete_def)
  have "recording p i \<longleftrightarrow> map_of (ls_marker_sequences c) i = None"
    using t by (auto simp: recording_def taking_def map_of_eq_None_iff)
  moreover have "local_cut p tk = Some c" by (rule cut_taking [OF t])
  ultimately show ?thesis
    by (cases "map_of (ls_marker_sequences c) i")
      (auto simp: receiver_cut_def cut_got_data log_data_of_add, auto simp: add_record_def)
qed

lemma receiver_cut_mark:
  assumes "taking ep ps p tk c" "i \<notin> set (pt_marked p)"
  shows "receiver_cut (mark i q p) tk k =
      (if k = i then Some (the (map_of (ls_received c) k), Some q, log_data_of k c) else receiver_cut p tk k)"
    and "sender_cut (mark i q p) tk = sender_cut p tk"
proof -
  have "local_cut (mark i q p) tk = Some (add_marker i q c)" "local_cut p tk = Some c"
    using marked_active [OF assms, of q] cut_taking [OF assms(1)] by (simp_all add: local_cut_def)
  then show "receiver_cut (mark i q p) tk k =
      (if k = i then Some (the (map_of (ls_received c) k), Some q, log_data_of k c) else receiver_cut p tk k)"
    "sender_cut (mark i q p) tk = sender_cut p tk"
    by (auto simp: receiver_cut_def sender_cut_def add_marker_def store_simps log_data_of_def log_of_def)
qed

definition peers_of :: "topology \<Rightarrow> node_id \<Rightarrow> node_id list" where
  "peers_of topo i = (case map_of topo i of Some ps \<Rightarrow> ps | None \<Rightarrow> [])"

definition topology_ok :: "topology \<Rightarrow> bool" where
  "topology_ok topo \<longleftrightarrow> om_wf topo \<and> topo \<noteq> []
     \<and> (\<forall>i. distinct (peers_of topo i) \<and> i \<notin> set (peers_of topo i))
     \<and> (\<forall>i j. j \<in> set (peers_of topo i) \<longrightarrow> i \<in> set (peers_of topo j))"

definition link_at :: "u64 \<Rightarrow> nat \<Rightarrow> 'a snap_system \<Rightarrow> node_id \<Rightarrow> node_id \<Rightarrow> bool" where
  "link_at ep b s i j = link_ok ep b (sy_history s i j) (channel s i j)
     (the (map_of (pt_sent (part_of s i)) j)) (the (map_of (pt_received (part_of s j)) i))
     (sender_cut (part_of s i) (sy_taken s i) j) (receiver_cut (part_of s j) (sy_taken s j) i)"

type_synonym bases = "node_id \<Rightarrow> node_id \<Rightarrow> nat"

definition sys_ok :: "u64 \<Rightarrow> topology \<Rightarrow> bases \<Rightarrow> 'a snap_system \<Rightarrow> bool" where
  "sys_ok ep topo b s \<longleftrightarrow>
     (\<forall>i \<in> fst ` set topo. node_ok ep (peers_of topo i) i (part_of s i) (sy_taken s i))
     \<and> (\<forall>i. \<forall>j \<in> set (peers_of topo i). link_at ep (b i j) s i j)"

lemma peer_is_node: "topology_ok topo \<Longrightarrow> j \<in> set (peers_of topo i) \<Longrightarrow> i \<in> fst ` set topo \<and> j \<in> fst ` set topo"
  unfolding topology_ok_def peers_of_def
  by (metis empty_iff empty_set map_of_eq_None_iff option.simps(4))

lemma sys_okI:
  assumes ok: "sys_ok ep topo b s" and topo: "topology_ok topo"
    and same: "\<And>k. k \<noteq> v \<Longrightarrow> part_of s' k = part_of s k \<and> sy_taken s' k = sy_taken s k
        \<and> sy_history s' k = sy_history s k"
    and chan: "\<And>x y. x \<noteq> v \<Longrightarrow> y \<noteq> v \<Longrightarrow> channel s' x y = channel s x y"
    and node: "node_ok ep (peers_of topo v) v (part_of s' v) (sy_taken s' v)"
    and out: "\<And>k. k \<noteq> v \<Longrightarrow> k \<in> set (peers_of topo v) \<Longrightarrow> link_at ep (b v k) s' v k"
    and inn: "\<And>k. k \<noteq> v \<Longrightarrow> k \<in> set (peers_of topo v) \<Longrightarrow> link_at ep (b k v) s' k v"
  shows "sys_ok ep topo b s'"
  unfolding sys_ok_def
proof (intro conjI ballI allI)
  fix i assume "i \<in> fst ` set topo"
  then show "node_ok ep (peers_of topo i) i (part_of s' i) (sy_taken s' i)"
    using ok node same [of i] by (cases "i = v") (auto simp: sys_ok_def)
next
  fix i j assume j: "j \<in> set (peers_of topo i)"
  have ij: "i \<noteq> j" "i \<in> set (peers_of topo j)" using topo j by (auto simp: topology_ok_def)
  show "link_at ep (b i j) s' i j"
  proof (cases "i = v \<or> j = v")
    case True
    then show ?thesis using ij j out [of j] inn [of i] by auto
  next
    case False
    then have "link_at ep (b i j) s' i j = link_at ep (b i j) s i j"
      using same [of i] same [of j] chan [of i j] by (simp add: link_at_def)
    then show ?thesis using ok j by (simp add: sys_ok_def)
  qed
qed

lemma sy_node_set [simp]: "sy_node (set_node i n s) = (sy_node s)(i := n)"
    "sy_taken (set_node i n s) = sy_taken s" "sy_history (set_node i n s) = sy_history s"
  by (simp_all add: set_node_def)

lemma pop_channel_simps [simp]:
  "part_of (pop_channel i j s) k = part_of s k" "sy_taken (pop_channel i j s) = sy_taken s"
  "sy_history (pop_channel i j s) = sy_history s"
  "channel (pop_channel i j s) x y = (if x = i \<and> y = j then tl (channel s x y) else channel s x y)"
  "j \<noteq> i \<Longrightarrow> sy_node (pop_channel i j s) j = sy_node s j"
  by (auto simp: pop_channel_def split: prod.splits)

lemma node_lookup:
  assumes "links_wf ps i p" "k \<in> set ps"
  obtains S R where "map_of (pt_sent p) k = Some S" "map_of (pt_received p) k = Some R"
  using assms keys_are_map_of [of "pt_sent p" ps k] keys_are_map_of [of "pt_received p" ps k]
  by (auto simp: links_wf_def)

lemma step_send_ok:
  assumes "sys_ok ep topo b s" "topology_ok topo" "step ap (map fst topo) ep (SendTo i j x) s = Some s'"
  shows "sys_ok ep topo b s'"
proof -
  obtain p e where pe: "sy_node s i = (p, e)" by (cases "sy_node s i")
  from assms(3) pe obtain q where q: "i \<in> fst ` set topo" "map_of (pt_received p) j \<noteq> None"
      "map_of (pt_sent p) j = Some q" "q \<noteq> u64_max"
      "s' = (set_node i (p\<lparr>pt_sent := om_set j (q + 1) (pt_sent p)\<rparr>,
               e\<lparr>ne_out := (ne_out e)(j := ne_out e j @ [data_message (q + 1) x])\<rparr>) s)
             \<lparr>sy_history := (sy_history s)(i := (sy_history s i)(j := sy_history s i j @ [(q + 1, x)]))\<rparr>"
    by (auto simp: send_fifo store_simps split: if_splits prod.splits sum.splits)
  have n: "node_ok ep (peers_of topo i) i p (sy_taken s i)"
    using assms(1) q(1) pe by (auto simp: sys_ok_def)
  then have "j \<in> set (peers_of topo i)"
    using q(2) keys_are_map_of [of "pt_received p" "peers_of topo i" j] by (auto simp: node_ok_def links_wf_def)
  then have n': "node_ok ep (peers_of topo i) i (p\<lparr>pt_sent := om_set j (q + 1) (pt_sent p)\<rparr>) (sy_taken s i)"
    by (rule node_send [OF n])
  have cut: "local_cut (p\<lparr>pt_sent := z\<rparr>) tk = local_cut p tk" for z tk
    by (simp add: local_cut_def split: option.split)
  have l: "link_at ep (b i k) s i k" "link_at ep (b k i) s k i" if "k \<in> set (peers_of topo i)" for k
    using assms(1,2) that by (auto simp: sys_ok_def topology_ok_def)
  show ?thesis
  proof (rule sys_okI [OF assms(1,2), where v = i])
    fix k assume k: "k \<noteq> i" "k \<in> set (peers_of topo i)"
    show "link_at ep (b i k) s' i k"
      using l(1) [OF k(2)] link_send [of ep "b i j" "sy_history s i j" "ne_out e j" q _ _ _ x] q(3,4,5) pe k(1)
      by (cases "k = j") (simp_all add: link_at_def store_simps sender_cut_cong [OF cut])
    show "link_at ep (b k i) s' k i"
      using l(2) [OF k(2)] q(5) pe k(1) by (simp add: link_at_def sender_cut_cong [OF cut])
  qed (use q(5) pe n' in simp_all)
qed

lemma step_take_ok:
  assumes "sys_ok ep topo b s" "topology_ok topo" "step ap (map fst topo) ep (TakeAt i) s = Some s'"
  shows "sys_ok ep topo b s'"
proof -
  obtain p e where pe: "sy_node s i = (p, e)" by (cases "sy_node s i")
  from assms(3) pe obtain c where c: "i \<in> fst ` set topo" "pt_completed p = Some c"
      "s' = (set_node i (p\<lparr>pt_completed := None\<rparr>, e) s)\<lparr>sy_taken := (sy_taken s)(i := Some c)\<rparr>"
    by (auto simp: take_completed_Inr split: if_splits prod.splits sum.splits)
  have n: "node_ok ep (peers_of topo i) i p (sy_taken s i)"
    using assms(1) c(1) pe by (auto simp: sys_ok_def)
  note t = node_take [OF n c(2)]
  have l: "link_at ep (b i k) s i k" "link_at ep (b k i) s k i" if "k \<in> set (peers_of topo i)" for k
    using assms(1,2) that by (auto simp: sys_ok_def topology_ok_def)
  show ?thesis
  proof (rule sys_okI [OF assms(1,2), where v = i])
    fix k assume k: "k \<noteq> i" "k \<in> set (peers_of topo i)"
    show "link_at ep (b i k) s' i k" "link_at ep (b k i) s' k i"
      using l [OF k(2)] c(3) pe k(1) by (simp_all add: link_at_def sender_cut_cong [OF t(2)])
  qed (use c(3) pe t(1) in simp_all)
qed

lemma cast_at: "map_of sent k = Some q \<Longrightarrow> cast_markers ep sent out k = out k @ [marker_message q ep]"
  by (simp add: cast_markers_def)

lemma step_initiate_ok:
  assumes "sys_ok ep topo b s" "topology_ok topo" "step ap (map fst topo) ep (InitiateAt i) s = Some s'"
  shows "sys_ok ep topo b s'"
proof -
  obtain p e where pe: "sy_node s i = (p, e)" by (cases "sy_node s i")
  let ?st = "ap_capture ap (ne_app e)"
  from assms(3) pe obtain t where i: "i \<in> fst ` set topo"
      and st: "start (fifo_callbacks ap) ep (p, e) = (Inr (), t)"
      and s': "s' = set_node i (finish_if_ready (fst t), snd t) s"
    by (auto simp: initiate_def act_simps split: if_splits prod.splits sum.splits)
  have n: "node_ok ep (peers_of topo i) i p (sy_taken s i)"
    using assms(1) i pe by (auto simp: sys_ok_def)
  have id: "idle ep p (sy_taken s i)" and wf: "links_wf (peers_of topo i) i p"
    using n start_Inr_guard [OF st] by (auto simp: node_ok_def idle_def taking_def complete_def)
  have lim: "length ?st \<le> pt_limit p" and t: "t = (began ep ?st p, e\<lparr>ne_out := cast_markers ep (pt_sent p) (ne_out e)\<rparr>)"
    using st start_fifo [of p ep ap e] id wf by (auto simp: idle_def links_wf_def split: if_splits)
  have n': "node_ok ep (peers_of topo i) i (finish_if_ready (began ep ?st p)) (sy_taken s i)"
    using node_finish [OF links_wf_began [OF wf lim]] node_began [OF wf id] by blast
  have l: "link_at ep (b i k) s i k" "link_at ep (b k i) s k i" if "k \<in> set (peers_of topo i)" for k
    using assms(1,2) that by (auto simp: sys_ok_def topology_ok_def)
  have none: "sender_cut p (sy_taken s i) k = None" "receiver_cut p (sy_taken s i) k = None" for k
    using cut_idle [OF id] by (simp_all add: sender_cut_def receiver_cut_def)
  show ?thesis
  proof (rule sys_okI [OF assms(1,2), where v = i])
    fix k assume k: "k \<noteq> i" "k \<in> set (peers_of topo i)"
    obtain S R where "map_of (pt_sent p) k = Some S" "map_of (pt_received p) k = Some R"
      using node_lookup [OF wf k(2)] .
    then show "link_at ep (b i k) s' i k" "link_at ep (b k i) s' k i"
      using l [OF k(2)] s' t pe k(1) none link_sender_cuts link_receiver_cuts
      by (simp_all add: link_at_def cast_at sender_cut_cong [OF cut_finish] sender_cut_began receiver_cut_began)
  qed (use s' t pe n' in simp_all)
qed

text \<open>
  Delivery of the head of a channel. The three outcomes of \<open>delivery\<close> are the cases of
  \<open>Receive\<close> a run can meet: a datum, a marker at a node that has cut, a marker that
  makes an idle node cut.
\<close>

definition delivery :: "'a application \<Rightarrow> u64 \<Rightarrow> node_id \<Rightarrow> message \<Rightarrow> participant \<times> 'a node_env
    \<Rightarrow> (participant \<times> 'a node_env) option" where
  "delivery ap ep i m n = (case n of (p, e) \<Rightarrow>
     if ms_kind m = KindData then
       (if recording p i \<and> \<not> room_for p (ms_payload m) then None
        else Some (got_data i (ms_sequence m) (ms_payload m) p,
                   e\<lparr>ne_app := ap_deliver ap i (ms_payload m) (ne_app e)\<rparr>))
     else if pt_active p \<noteq> None then Some (finish_if_ready (mark i (ms_sequence m) p), e)
     else if length (ap_capture ap (ne_app e)) \<le> pt_limit p
       then Some (finish_if_ready (mark i (ms_sequence m) (began ep (ap_capture ap (ne_app e)) p)),
                  e\<lparr>ne_out := cast_markers ep (pt_sent p) (ne_out e)\<rparr>)
     else None)"

lemma marker_finds_room:
  assumes "node_ok ep ps j p tk" "i \<in> set ps" "\<not> got_marker (receiver_cut p tk i)"
  obtains (Idle) "idle ep p tk" | (Taking) c where "taking ep ps p tk c" "cut_ok ep ps j c" "i \<notin> set (pt_marked p)"
proof -
  have free: "local_cut p tk = Some c \<Longrightarrow> map_of (ls_marker_sequences c) i = None" for c
    using assms(3) by (auto simp: receiver_cut_def got_marker_def split: option.splits)
  moreover have "map_of (ls_marker_sequences c) i \<noteq> None" if "complete ep ps p tk c" for c
    using that assms(2) keys_are_map_of [of "ls_marker_sequences c" ps i] by (auto simp: complete_def)
  ultimately have unfinished: "\<not> complete ep ps p tk c" for c using cut_complete by blast
  have "i \<notin> set (pt_marked p)" if "taking ep ps p tk c" for c
    using that free [OF cut_taking [OF that]] by (simp add: taking_def map_of_eq_None_iff)
  with that unfinished assms(1) show thesis unfolding node_ok_def by blast
qed

lemma receive_delivered:
  assumes ok: "sys_ok ep topo b s" and topo: "topology_ok topo" and ep: "0 < ep"
    and i: "i \<in> set (peers_of topo j)" and ch: "channel s i j = m # ms"
  shows "(receive (fifo_callbacks ap) i m (sy_node s j) = (Inr u, n)) = (delivery ap ep i m (sy_node s j) = Some n)"
proof -
  obtain p e where pe: "sy_node s j = (p, e)" by (cases "sy_node s j")
  have j: "j \<in> set (peers_of topo i)" using topo i by (auto simp: topology_ok_def)
  have n: "node_ok ep (peers_of topo j) j p (sy_taken s j)"
    using ok peer_is_node [OF topo i] pe by (auto simp: sys_ok_def)
  then have wf: "links_wf (peers_of topo j) j p" by (simp add: node_ok_def)
  obtain R where R: "map_of (pt_received p) i = Some R" using node_lookup [OF wf i] by metis
  have l: "link_ok ep (b i j) (sy_history s i j) (m # ms) (the (map_of (pt_sent (part_of s i)) j)) R
      (sender_cut (part_of s i) (sy_taken s i) j) (receiver_cut p (sy_taken s j) i)"
    using ok j ch pe R by (fastforce simp: sys_ok_def link_at_def)
  have ep0: "ep \<noteq> 0" using ep by auto
  from l show ?thesis
  proof (cases rule: link_head)
    case (Datum x)
    then show ?thesis
      using receive_data_fifo [of p i R ap x e] wf R pe
      by (auto simp: links_wf_def delivery_def data_message_def)
  next
    case Mark
    from n i Mark(3) show ?thesis
    proof (cases rule: marker_finds_room)
      case Idle
      then show ?thesis
        using receive_marker_idle [of p i R ep ap e] wf R pe Mark(1) ep0
        by (auto simp: links_wf_def idle_def delivery_def marker_message_def)
    next
      case (Taking c)
      then show ?thesis
        using receive_marker_active [of p i R ep c ap e] wf R pe Mark(1) ep0
        by (auto simp: links_wf_def taking_def cut_ok_def delivery_def marker_message_def)
    qed
  qed
qed

lemma step_deliver_ok:
  assumes ok: "sys_ok ep topo b s" and topo: "topology_ok topo" and ep: "0 < ep"
    and step: "step ap (map fst topo) ep (DeliverOn i j) s = Some s'"
    and i: "i \<in> set (peers_of topo j)"
  shows "sys_ok ep topo b s'"
proof -
  have j: "j \<in> set (peers_of topo i)" and ne: "i \<noteq> j" using topo i by (auto simp: topology_ok_def)
  obtain p e where pe: "sy_node s j = (p, e)" by (cases "sy_node s j")
  from step obtain m ms where ch: "channel s i j = m # ms"
    by (auto split: if_splits list.splits)
  from step ch ne obtain n where s': "s' = set_node j n (pop_channel i j s)"
      and rc: "receive (fifo_callbacks ap) i m (sy_node s j) = (Inr (), n)"
    by (auto split: if_splits prod.splits sum.splits)
  have dl: "delivery ap ep i m (p, e) = Some n"
    using rc receive_delivered [OF ok topo ep i ch] pe by simp
  have nd: "node_ok ep (peers_of topo j) j p (sy_taken s j)"
    using ok peer_is_node [OF topo i] pe by (auto simp: sys_ok_def)
  then have wf: "links_wf (peers_of topo j) j p" by (simp add: node_ok_def)
  have lk: "link_at ep (b j k) s j k" "link_at ep (b k j) s k j" if "k \<in> set (peers_of topo j)" for k
    using ok topo that by (auto simp: sys_ok_def topology_ok_def)
  obtain R where R: "map_of (pt_received p) i = Some R" using node_lookup [OF wf i] by metis
  let ?tk = "sy_taken s j"
  let ?link = "\<lambda>ch R ci cj. link_ok ep (b i j) (sy_history s i j) ch (the (map_of (pt_sent (part_of s i)) j)) R ci cj"
  let ?sc = "sender_cut (part_of s i) (sy_taken s i) j"
  have l: "?link (m # ms) R ?sc (receiver_cut p ?tk i)"
    using lk(2) [OF i] ch pe R by (simp add: link_at_def)
  have conclude: "sys_ok ep topo b s'"
    if "node_ok ep (peers_of topo j) j (fst n) ?tk"
      and "\<And>k. k \<noteq> j \<Longrightarrow> k \<in> set (peers_of topo j) \<Longrightarrow> link_ok ep (b j k) (sy_history s j k) (ne_out (snd n) k)
             (the (map_of (pt_sent (fst n)) k)) (the (map_of (pt_received (part_of s k)) j))
             (sender_cut (fst n) ?tk k) (receiver_cut (part_of s k) (sy_taken s k) j)"
      and "?link ms (the (map_of (pt_received (fst n)) i)) ?sc (receiver_cut (fst n) ?tk i)"
      and "\<And>k. k \<noteq> j \<Longrightarrow> k \<noteq> i \<Longrightarrow> k \<in> set (peers_of topo j) \<Longrightarrow> link_ok ep (b k j) (sy_history s k j) (channel s k j)
             (the (map_of (pt_sent (part_of s k)) j)) (the (map_of (pt_received (fst n)) k))
             (sender_cut (part_of s k) (sy_taken s k) j) (receiver_cut (fst n) ?tk k)"
  proof (rule sys_okI [OF ok topo, where v = j])
    fix k assume k: "k \<noteq> j" "k \<in> set (peers_of topo j)"
    show "link_at ep (b j k) s' j k" using that(2) [OF k] k s' by (simp add: link_at_def)
    show "link_at ep (b k j) s' k j"
      using that(3) that(4) [OF k(1) _ k(2)] k s' ch by (cases "k = i") (simp_all add: link_at_def)
  qed (use s' that(1) in simp_all)
  from l show ?thesis
  proof (cases rule: link_head)
    case (Datum x)
    then have n: "n = (got_data i (R + 1) x p, e\<lparr>ne_app := ap_deliver ap i x (ne_app e)\<rparr>)"
      and room: "recording p i \<Longrightarrow> room_for p x"
      using dl by (auto simp: delivery_def data_message_def split: if_splits)
    show ?thesis
    proof (rule conclude)
      show "node_ok ep (peers_of topo j) j (fst n) ?tk"
        using node_data [OF nd i room] n by simp
      show "?link ms (the (map_of (pt_received (fst n)) i)) ?sc (receiver_cut (fst n) ?tk i)"
        using Datum(3) n receiver_cut_data [OF nd i] by (simp add: store_simps)
    qed (use lk n pe receiver_cut_data [OF nd] in \<open>simp_all add: link_at_def store_simps\<close>)
  next
    case Mark
    from nd i Mark(3) show ?thesis
    proof (cases rule: marker_finds_room)
      case (Taking c)
      then have n: "n = (finish_if_ready (mark i R p), e)"
        using dl Mark(1) by (simp add: delivery_def marker_message_def taking_def)
      note rm = receiver_cut_mark [OF Taking(1,3), of R]
      have rc: "receiver_cut p ?tk i = Some (the (map_of (ls_received c) i), None, log_data_of i c)"
        using Taking cut_taking [OF Taking(1)] by (simp add: receiver_cut_def taking_def map_of_eq_None_iff)
      show ?thesis
      proof (rule conclude)
        show "node_ok ep (peers_of topo j) j (fst n) ?tk"
          using node_mark [OF Taking(2,1) i Taking(3), of R] wf n by (auto intro!: node_finish)
        show "?link ms (the (map_of (pt_received (fst n)) i)) ?sc (receiver_cut (fst n) ?tk i)"
          using Mark(4) [OF rc] R n rm by (simp add: sender_cut_cong [OF cut_finish])
      qed (use lk n pe rm in \<open>simp_all add: link_at_def sender_cut_cong [OF cut_finish]\<close>)
    next
      case Idle
      let ?st = "ap_capture ap (ne_app e)"
      let ?q = "began ep ?st p"
      have n: "n = (finish_if_ready (mark i R ?q), e\<lparr>ne_out := cast_markers ep (pt_sent p) (ne_out e)\<rparr>)"
        and lim: "length ?st \<le> pt_limit p"
        using dl Mark(1) Idle by (auto simp: delivery_def marker_message_def idle_def split: if_splits)
      have q: "cut_ok ep (peers_of topo j) j (cut_here ep ?st p)"
          "taking ep (peers_of topo j) ?q ?tk (cut_here ep ?st p)" "i \<notin> set (pt_marked ?q)"
        using node_began [OF wf Idle, of ?st] by (auto simp: began_def)
      note rm = receiver_cut_mark [OF q(2,3), of R]
      have none: "sender_cut p ?tk k = None" "receiver_cut p ?tk k = None" for k
        using cut_idle [OF Idle] by (simp_all add: sender_cut_def receiver_cut_def)
      have "?link (m # ms) R ?sc (Some (R, None, []))"
        using link_receiver_cuts l none by simp
      then have marked: "?link ms R ?sc (Some (R, Some R, []))"
        by (cases rule: link_head) (use Mark(1) in \<open>auto simp: data_message_def marker_message_def\<close>)
      show ?thesis
      proof (rule conclude)
        show "node_ok ep (peers_of topo j) j (fst n) ?tk"
          using node_mark [OF q(1,2) i q(3), of R] links_wf_began [OF wf lim] n by (auto intro!: node_finish)
        show "?link ms (the (map_of (pt_received (fst n)) i)) ?sc (receiver_cut (fst n) ?tk i)"
          using marked R n rm
          by (simp add: sender_cut_cong [OF cut_finish] cut_here_def log_data_of_def log_of_def)
        fix k assume k: "k \<noteq> j" "k \<in> set (peers_of topo j)"
        obtain S T where ST: "map_of (pt_sent p) k = Some S" "map_of (pt_received p) k = Some T"
          using node_lookup [OF wf k(2)] .
        show "link_ok ep (b j k) (sy_history s j k) (ne_out (snd n) k)
             (the (map_of (pt_sent (fst n)) k)) (the (map_of (pt_received (part_of s k)) j))
             (sender_cut (fst n) ?tk k) (receiver_cut (part_of s k) (sy_taken s k) j)"
          using lk(1) [OF k(2)] link_sender_cuts n pe ST none rm
          by (simp add: link_at_def cast_at sender_cut_cong [OF cut_finish] sender_cut_began)
        assume "k \<noteq> i"
        then show "link_ok ep (b k j) (sy_history s k j) (channel s k j)
             (the (map_of (pt_sent (part_of s k)) j)) (the (map_of (pt_received (fst n)) k))
             (sender_cut (part_of s k) (sy_taken s k) j) (receiver_cut (fst n) ?tk k)"
          using lk(2) [OF k(2)] link_receiver_cuts n pe ST none rm
          by (simp add: link_at_def sender_cut_cong [OF cut_finish] receiver_cut_began)
      qed
    qed
  qed
qed

section \<open>Runs\<close>

abbreviation cut_of :: "'a snap_system \<Rightarrow> node_id \<Rightarrow> local_snapshot option" where
  "cut_of s i \<equiv> local_cut (part_of s i) (sy_taken s i)"

definition snap_finished :: "'a snap_system \<Rightarrow> node_id \<Rightarrow> bool" where
  "snap_finished s i \<longleftrightarrow> pt_active (part_of s i) = None \<and> cut_of s i \<noteq> None"

text \<open>
  Between epochs: no node has a snapshot in any slot, and every channel holds exactly
  the numbered data between the counters of its ends. The history is that data.
\<close>

definition base :: "'a snap_system \<Rightarrow> bases" where
  "base s i j = unat (the (map_of (pt_received (part_of s j)) i))"

definition idle_system :: "u64 \<Rightarrow> topology \<Rightarrow> 'a snap_system \<Rightarrow> bool" where
  "idle_system ep topo s \<longleftrightarrow>
     list_all (\<lambda>i. links_wf (peers_of topo i) i (part_of s i) \<and> idle ep (part_of s i) (sy_taken s i)
       \<and> list_all (\<lambda>j. numbered (base s i j) (sy_history s i j)
            \<and> unat (the (map_of (pt_sent (part_of s i)) j)) = base s i j + length (sy_history s i j)
            \<and> channel s i j = sent_data (sy_history s i j)) (peers_of topo i)) (map fst topo)"

lemma idle_sys_ok:
  assumes "idle_system ep topo s" "topology_ok topo"
  shows "sys_ok ep topo (base s) s"
proof -
  have i: "links_wf (peers_of topo i) i (part_of s i)" "idle ep (part_of s i) (sy_taken s i)" if "i \<in> fst ` set topo" for i
    using assms(1) that by (auto simp: idle_system_def list_all_iff)
  have "link_at ep (base s i j) s i j" if j: "j \<in> set (peers_of topo i)" for i j
  proof -
    note nodes = peer_is_node [OF assms(2) j]
    have h: "numbered (base s i j) (sy_history s i j)" "channel s i j = sent_data (sy_history s i j)"
        "unat (the (map_of (pt_sent (part_of s i)) j)) = base s i j + length (sy_history s i j)"
      using assms(1) j nodes by (auto simp: idle_system_def list_all_iff)
    have "sender_cut (part_of s i) (sy_taken s i) j = None" "receiver_cut (part_of s j) (sy_taken s j) i = None"
      using cut_idle [OF i(2)] nodes by (auto simp: sender_cut_def receiver_cut_def)
    with h show ?thesis
      by (simp add: link_at_def link_ok_def channel_ok_def got_marker_def) (simp add: base_def)
  qed
  then show ?thesis using i by (auto simp: sys_ok_def node_ok_def)
qed

lemma step_ok:
  assumes "sys_ok ep topo b s" "topology_ok topo" "0 < ep" "step ap (map fst topo) ep a s = Some s'"
  shows "sys_ok ep topo b s'"
proof (cases a)
  case (DeliverOn i j)
  obtain m ms n where ch: "channel s i j = m # ms" and j: "j \<in> fst ` set topo"
      and rc: "receive (fifo_callbacks ap) i m (sy_node (pop_channel i j s) j) = (Inr (), n)"
    using assms(4) DeliverOn by (auto split: if_splits list.splits prod.splits sum.splits)
  then have "map_of (pt_received (part_of s j)) i \<noteq> None"
    by (auto simp: receive_def act_simps)
  moreover have "keys_are (pt_received (part_of s j)) (peers_of topo j)"
    using assms(1) j by (auto simp: sys_ok_def node_ok_def links_wf_def)
  ultimately have "i \<in> set (peers_of topo j)" using keys_are_map_of by metis
  then show ?thesis by (rule step_deliver_ok [OF assms(1-3) assms(4) [unfolded DeliverOn]])
next
  case (SendTo i j x)
  show ?thesis by (rule step_send_ok [OF assms(1,2) assms(4) [unfolded SendTo]])
next
  case (InitiateAt i)
  show ?thesis by (rule step_initiate_ok [OF assms(1,2) assms(4) [unfolded InitiateAt]])
next
  case (TakeAt i)
  show ?thesis by (rule step_take_ok [OF assms(1,2) assms(4) [unfolded TakeAt]])
qed

lemma run_ok:
  assumes "topology_ok topo" "0 < ep"
  shows "run ap (map fst topo) ep as s = Some s' \<Longrightarrow> sys_ok ep topo b s \<Longrightarrow> sys_ok ep topo b s'"
proof (induction as arbitrary: s)
  case (Cons a as)
  then obtain t where "step ap (map fst topo) ep a s = Some t" "run ap (map fst topo) ep as t = Some s'"
    by (auto simp: bind_eq_Some_conv)
  then show ?case using Cons step_ok [OF _ assms] by blast
qed simp

lemmas run_from_idle = run_ok [OF _ _ _ idle_sys_ok]

subsection \<open>The cut of a finished run\<close>

lemma finished_complete:
  assumes "sys_ok ep topo b s" "i \<in> fst ` set topo" "snap_finished s i"
  obtains c where "cut_of s i = Some c" "cut_ok ep (peers_of topo i) i c"
    "complete ep (peers_of topo i) (part_of s i) (sy_taken s i) c"
proof -
  have "node_ok ep (peers_of topo i) i (part_of s i) (sy_taken s i)" using assms(1,2) by (auto simp: sys_ok_def)
  moreover have "\<not> idle ep (part_of s i) (sy_taken s i)"
    using assms(3) cut_idle by (fastforce simp: snap_finished_def)
  moreover have "\<not> taking ep (peers_of topo i) (part_of s i) (sy_taken s i) c" for c
    using assms(3) by (simp add: snap_finished_def taking_def)
  ultimately show thesis using that cut_complete unfolding node_ok_def by blast
qed

text \<open>The log of a link is the data sent before the sender's cut and after the receiver's.\<close>

lemma finished_link:
  assumes ok: "sys_ok ep topo b s" and topo: "topology_ok topo" and j: "j \<in> set (peers_of topo i)"
    and fin: "snap_finished s i" "snap_finished s j"
  obtains c d q S where "cut_of s i = Some c" "cut_of s j = Some d"
    "map_of (ls_received d) i = Some q" "map_of (ls_sent c) j = Some S" "map_of (ls_marker_sequences d) i = Some S"
    "b i j \<le> unat q" "unat q \<le> unat S" "unat S \<le> b i j + length (sy_history s i j)"
    "numbered (b i j) (sy_history s i j)"
    "log_data_of i d = drop (unat q - b i j) (take (unat S - b i j) (sy_history s i j))"
proof -
  have nodes: "i \<in> fst ` set topo" "j \<in> fst ` set topo" and sym: "i \<in> set (peers_of topo j)"
    using peer_is_node [OF topo j] topo j by (auto simp: topology_ok_def)
  obtain c where c: "cut_of s i = Some c" "cut_ok ep (peers_of topo i) i c"
    using finished_complete [OF ok nodes(1) fin(1)] by metis
  obtain d where d: "cut_of s j = Some d" "cut_ok ep (peers_of topo j) j d"
      "complete ep (peers_of topo j) (part_of s j) (sy_taken s j) d"
    using finished_complete [OF ok nodes(2) fin(2)] by metis
  obtain q where q: "map_of (ls_received d) i = Some q"
    using d(2) sym keys_are_map_of [of "ls_received d" "peers_of topo j" i] by (auto simp: cut_ok_def)
  obtain S where S: "map_of (ls_sent c) j = Some S"
    using c(2) j keys_are_map_of [of "ls_sent c" "peers_of topo i" j] by (auto simp: cut_ok_def)
  obtain M where M: "map_of (ls_marker_sequences d) i = Some M"
    using d(3) sym keys_are_map_of [of "ls_marker_sequences d" "peers_of topo j" i] by (auto simp: complete_def)
  have "link_at ep (b i j) s i j" using ok j by (simp add: sys_ok_def)
  then show thesis
    using c d q S M that
    by (auto simp: link_at_def link_ok_def sender_cut_def receiver_cut_def)
qed

lemma numbered_contiguous:
  assumes "numbered b H" "b \<le> unat q" "map (\<lambda>r. (cr_sequence r, cr_payload r)) rs = take n (drop (unat q - b) H)"
  shows "contiguous q rs"
  using assms
proof (induction rs arbitrary: q n)
  case (Cons r rs)
  let ?k = "unat q - b"
  have n: "n \<noteq> 0" "?k < length H"
    using Cons.prems(3) by (cases n; cases "?k < length H"; simp)+
  then have "drop ?k H = H ! ?k # drop (Suc ?k) H" by (simp add: Cons_nth_drop_Suc)
  with Cons.prems(3) n obtain n' where n': "(cr_sequence r, cr_payload r) = H ! ?k"
      "map (\<lambda>r. (cr_sequence r, cr_payload r)) rs = take n' (drop (Suc ?k) H)"
    by (cases n) auto
  note nx = numbered_next [OF Cons.prems(1,2) n(2)]
  have "unat (q + 1) - b = Suc ?k" "b \<le> unat (q + 1)"
    using u64_inc_unat [OF nx(2)] Cons.prems(2) by (simp_all add: Suc_diff_le)
  with n'(2) Cons.IH [OF Cons.prems(1), of "q + 1" n'] have "contiguous (q + 1) rs" by simp
  with nx n'(1) show ?case by (metis contiguous.simps(2) fst_conv)
qed simp

lemma finished_link_consistent:
  assumes "sys_ok ep topo b s" "topology_ok topo" "j \<in> set (peers_of topo i)" "snap_finished s i" "snap_finished s j"
  shows "link_consistent (the (cut_of s i)) (the (cut_of s j))"
proof -
  obtain c d q S where f: "cut_of s i = Some c" "cut_of s j = Some d"
    "map_of (ls_received d) i = Some q" "map_of (ls_sent c) j = Some S" "map_of (ls_marker_sequences d) i = Some S"
    "b i j \<le> unat q" "unat q \<le> unat S" "unat S \<le> b i j + length (sy_history s i j)"
    "numbered (b i j) (sy_history s i j)"
    "log_data_of i d = drop (unat q - b i j) (take (unat S - b i j) (sy_history s i j))"
    using finished_link [OF assms] .
  have nodes: "i \<in> fst ` set topo" "j \<in> fst ` set topo" using peer_is_node [OF assms(2,3)] by auto
  have ids: "ls_node c = i" "ls_node d = j"
    using f(1,2) finished_complete [OF assms(1) nodes(1) assms(4)] finished_complete [OF assms(1) nodes(2) assms(5)]
    unfolding cut_ok_def by (metis option.inject)+
  have "contiguous q (log_of i d)"
    using numbered_contiguous [OF f(9,6), of "log_of i d" "unat S - unat q"] f(6,7,10)
    by (simp add: log_data_of_def drop_take)
  moreover have "S = q + of_nat (length (log_of i d))"
  proof -
    have "length (log_of i d) = length (log_data_of i d)" by (simp add: log_data_of_def)
    also have "\<dots> = unat S - unat q" using f(6,7,8) by (simp add: f(10))
    finally have "of_nat (unat q + length (log_of i d)) = (of_nat (unat S) :: u64)" using f(7) by simp
    then show ?thesis by simp
  qed
  ultimately show ?thesis using f ids by (auto simp: link_consistent_def)
qed

lemma finished_consistent_cut:
  assumes "sys_ok ep topo b s" "topology_ok topo" "0 < ep" "\<And>i. i \<in> fst ` set topo \<Longrightarrow> snap_finished s i"
  shows "consistent_cut (map (\<lambda>i. the (cut_of s i)) (map fst topo)) topo"
    and "\<forall>c \<in> set (map (\<lambda>i. the (cut_of s i)) (map fst topo)). snapshot_wf c"
proof -
  have node: "cut_ok ep (peers_of topo i) i (the (cut_of s i))
      \<and> keys_are (ls_marker_sequences (the (cut_of s i))) (peers_of topo i)" if i: "i \<in> fst ` set topo" for i
    using finished_complete [OF assms(1) i assms(4) [OF i]] by (metis complete_def option.sel)
  then have ids: "ls_node (the (cut_of s i)) = i" "ls_epoch (the (cut_of s i)) = ep"
      "snapshot_wf (the (cut_of s i))" if "i \<in> fst ` set topo" for i
    using that by (auto simp: cut_ok_def)
  let ?snaps = "map (\<lambda>i. the (cut_of s i)) (map fst topo)"
  show "\<forall>c \<in> set ?snaps. snapshot_wf c" using ids by auto
  have nodes: "map ls_node ?snaps = map fst topo"
    unfolding map_map by (intro map_cong refl) (use ids in auto)
  have nc: "node_consistent ?snaps (the (cut_of s j)) (peers_of topo j)" if j: "j \<in> fst ` set topo" for j
    unfolding node_consistent_def
  proof (intro conjI ballI)
    fix i assume i: "i \<in> set (peers_of topo j)"
    then have ji: "j \<in> set (peers_of topo i)" "i \<in> fst ` set topo"
      using assms(2) peer_is_node [OF assms(2) i] by (auto simp: topology_ok_def)
    have "map_of (ls_received (the (cut_of s i))) j \<noteq> None"
      using node [OF ji(2)] ji(1) keys_are_map_of [of _ "peers_of topo i" j] by (auto simp: cut_ok_def)
    moreover have "link_consistent (the (cut_of s i)) (the (cut_of s j))"
      using finished_link_consistent assms ji j by blast
    ultimately show "\<exists>sender \<in> set ?snaps. ls_node sender = i \<and> link_consistent sender (the (cut_of s j))
        \<and> map_of (ls_received sender) (ls_node (the (cut_of s j))) \<noteq> None"
      using ids [OF ji(2)] ids [OF j] ji(2) by (intro bexI [of _ "the (cut_of s i)"]) auto
  qed (use node [OF j] ids [OF j] assms(2) in \<open>auto simp: cut_ok_def topology_ok_def\<close>)
  have top: "the (map_of topo j) = peers_of topo j" if "j \<in> fst ` set topo" for j
    using that map_of_eq_None_iff [of topo j] by (auto simp: peers_of_def split: option.splits)
  have ne: "?snaps \<noteq> []" "hd ?snaps \<in> set ?snaps" using assms(2) by (simp_all add: topology_ok_def hd_map)
  have eps: "\<forall>c \<in> set ?snaps. ls_epoch c = ep" using ids by auto
  have "distinct (map ls_node ?snaps)" unfolding nodes
    using assms(2) by (auto simp: topology_ok_def intro: om_wf_distinct)
  moreover have "set (map ls_node ?snaps) = fst ` set topo" unfolding nodes by simp
  moreover have "\<forall>c \<in> set ?snaps. node_consistent ?snaps c (the (map_of topo (ls_node c)))"
    using nc ids top by auto
  ultimately show "consistent_cut ?snaps topo"
    using ne eps assms(3) unfolding consistent_cut_def by (metis (no_types, lifting))
qed

subsection \<open>Deliveries end, and then every node has finished\<close>

lemma deliver_iff:
  assumes ok: "sys_ok ep topo b s" and topo: "topology_ok topo" and ep: "0 < ep"
    and i: "i \<in> set (peers_of topo j)" and ch: "channel s i j = m # ms"
  shows "step ap (map fst topo) ep (DeliverOn i j) s =
     map_option (\<lambda>n. set_node j n (pop_channel i j s)) (delivery ap ep i m (sy_node s j))"
proof -
  have ne: "j \<noteq> i" "i \<in> fst ` set topo" "j \<in> fst ` set topo"
    using topo i peer_is_node [OF topo i] by (auto simp: topology_ok_def)
  note rd = receive_delivered [OF ok topo ep i ch, of ap "()"]
  obtain r n where rn: "receive (fifo_callbacks ap) i m (sy_node s j) = (r, n)"
    by (metis surj_pair)
  show ?thesis
  proof (cases r)
    case (Inl x)
    then have "delivery ap ep i m (sy_node s j) = None"
      using rd rn by (cases "delivery ap ep i m (sy_node s j)") auto
    then show ?thesis using ne ch rn Inl by simp
  next
    case (Inr u)
    then have "delivery ap ep i m (sy_node s j) = Some n" using rd [of n] rn by simp
    then show ?thesis using ne ch rn Inr by simp
  qed
qed

text \<open>What is left to deliver: the messages in the channels, and the markers still to be sent.\<close>

definition node_load :: "topology \<Rightarrow> 'a snap_system \<Rightarrow> node_id \<Rightarrow> nat" where
  "node_load topo s i =
     (\<Sum>j \<in> set (peers_of topo i). length (channel s i j))
     + (if cut_of s i = None then card (set (peers_of topo i)) else 0)"

definition left_to_deliver :: "topology \<Rightarrow> 'a snap_system \<Rightarrow> nat" where
  "left_to_deliver topo s = (\<Sum>i \<in> fst ` set topo. node_load topo s i)"

lemma delivered_queues:
  assumes "delivery ap ep i m (p, e) = Some n" "ms_kind m \<noteq> KindData \<Longrightarrow> idle ep p tk \<or> pt_active p \<noteq> None"
  shows "local_cut (fst n) tk = None \<longleftrightarrow> local_cut p tk = None \<and> ms_kind m = KindData"
    and "ne_out (snd n) = (if local_cut p tk = None \<and> ms_kind m \<noteq> KindData
           then cast_markers ep (pt_sent p) (ne_out e) else ne_out e)"
proof -
  have mk: "(\<exists>y. local_cut (mark i q p') tk = Some y) \<longleftrightarrow> (\<exists>y. local_cut p' tk = Some y)" for q p'
    by (auto simp: local_cut_def mark_def split: option.splits)
  show "local_cut (fst n) tk = None \<longleftrightarrow> local_cut p tk = None \<and> ms_kind m = KindData"
    using assms(1) by (auto simp: delivery_def mk cut_got_data split: if_splits) (auto simp: local_cut_def)
  show "ne_out (snd n) = (if local_cut p tk = None \<and> ms_kind m \<noteq> KindData
           then cast_markers ep (pt_sent p) (ne_out e) else ne_out e)"
    using assms by (auto simp: delivery_def local_cut_def idle_def split: if_splits option.splits)
qed

lemma head_of_channel:
  assumes "sys_ok ep topo b s" "topology_ok topo" "i \<in> set (peers_of topo j)" "channel s i j = m # ms"
    and "ms_kind m \<noteq> KindData"
  shows "idle ep (part_of s j) (sy_taken s j) \<or> pt_active (part_of s j) \<noteq> None"
proof -
  have j: "j \<in> set (peers_of topo i)" using assms(2,3) by (auto simp: topology_ok_def)
  have n: "node_ok ep (peers_of topo j) j (part_of s j) (sy_taken s j)"
    using assms(1) peer_is_node [OF assms(2,3)] by (auto simp: sys_ok_def)
  have "link_at ep (b i j) s i j" using assms(1) j by (auto simp: sys_ok_def)
  then have "\<not> got_marker (receiver_cut (part_of s j) (sy_taken s j) i)"
    unfolding link_at_def assms(4)
    by (cases rule: link_head) (use assms(5) in \<open>auto simp: data_message_def\<close>)
  with n assms(3) show ?thesis by (cases rule: marker_finds_room) (auto simp: taking_def)
qed

lemma sum_length_upd:
  fixes f :: "node_id \<Rightarrow> message list"
  assumes "j \<in> set ks" "f j = m # ms" "\<And>k. k \<in> set ks \<Longrightarrow> k \<noteq> j \<Longrightarrow> g k = f k" "g j = ms"
  shows "(\<Sum>k \<in> set ks. length (f k)) = Suc (\<Sum>k \<in> set ks. length (g k))"
proof -
  have "(\<Sum>k \<in> set ks. length (h k)) = length (h j) + (\<Sum>k \<in> set ks - {j}. length (h k))" for h :: "node_id \<Rightarrow> message list"
    using assms(1) by (simp add: sum.remove)
  moreover have "(\<Sum>k \<in> set ks - {j}. length (g k)) = (\<Sum>k \<in> set ks - {j}. length (f k))"
    using assms(3) by (intro sum.cong) auto
  ultimately show ?thesis using assms(2,4) by simp
qed

lemma deliver_load:
  assumes ok: "sys_ok ep topo b s" and topo: "topology_ok topo" and ep: "0 < ep"
    and i: "i \<in> set (peers_of topo j)"
    and st: "step ap (map fst topo) ep (DeliverOn i j) s = Some s'"
  shows "left_to_deliver topo s = Suc (left_to_deliver topo s')"
proof -
  obtain p e where pe: "sy_node s j = (p, e)" by (cases "sy_node s j")
  have ne: "i \<noteq> j" "j \<in> set (peers_of topo i)" "i \<in> fst ` set topo" "j \<in> fst ` set topo"
    using topo i peer_is_node [OF topo i] by (auto simp: topology_ok_def)
  obtain m ms where ch: "channel s i j = m # ms" using st by (auto split: if_splits list.splits)
  then obtain n where s': "s' = set_node j n (pop_channel i j s)" and dl: "delivery ap ep i m (p, e) = Some n"
    using st unfolding deliver_iff [OF ok topo ep i ch] pe by auto
  note q = delivered_queues [OF dl, of "sy_taken s j"]
  have q1: "local_cut (fst n) (sy_taken s j) = None \<longleftrightarrow> local_cut p (sy_taken s j) = None \<and> ms_kind m = KindData"
    and q2: "ne_out (snd n) = (if local_cut p (sy_taken s j) = None \<and> ms_kind m \<noteq> KindData
           then cast_markers ep (pt_sent p) (ne_out e) else ne_out e)"
    using q head_of_channel [OF ok topo i ch] pe by auto
  have "links_wf (peers_of topo j) j p" using ok ne pe by (auto simp: sys_ok_def node_ok_def)
  then have cast: "length (cast_markers ep (pt_sent p) (ne_out e) k) = length (ne_out e k) + 1"
    if "k \<in> set (peers_of topo j)" for k
    using node_lookup [OF _ that] by (metis cast_at length_append_singleton Suc_eq_plus1)
  have loadj: "node_load topo s' j = node_load topo s j"
    using q1 q2 ne s' pe cast by (auto simp: node_load_def sum_Suc)
  have other: "node_load topo s' x = node_load topo s x" if "x \<noteq> i" "x \<noteq> j" for x
    using that s' by (simp add: node_load_def)
  have "node_load topo s i = Suc (node_load topo s' i)"
    using sum_length_upd [of j "peers_of topo i" "channel s i" m ms "channel s' i"] ne ch s'
    by (simp add: node_load_def)
  moreover have "left_to_deliver topo s = node_load topo s i + (\<Sum>x \<in> fst ` set topo - {i}. node_load topo s x)"
      "left_to_deliver topo s' = node_load topo s' i + (\<Sum>x \<in> fst ` set topo - {i}. node_load topo s' x)"
    unfolding left_to_deliver_def using ne(3) by (simp_all add: sum.remove)
  moreover have "(\<Sum>x \<in> fst ` set topo - {i}. node_load topo s' x) = (\<Sum>x \<in> fst ` set topo - {i}. node_load topo s x)"
    using loadj other by (intro sum.cong) auto
  ultimately show ?thesis by simp
qed

definition deliveries :: "topology \<Rightarrow> action list \<Rightarrow> bool" where
  "deliveries topo = list_all (\<lambda>a. case a of DeliverOn i j \<Rightarrow> i \<in> set (peers_of topo j) | _ \<Rightarrow> False)"

lemma deliveries_load:
  assumes "topology_ok topo" "0 < ep"
  shows "run ap (map fst topo) ep as s = Some s' \<Longrightarrow> sys_ok ep topo b s \<Longrightarrow> deliveries topo as
    \<Longrightarrow> left_to_deliver topo s = length as + left_to_deliver topo s'"
proof (induction as arbitrary: s)
  case (Cons a as)
  then obtain t where t: "step ap (map fst topo) ep a s = Some t" "run ap (map fst topo) ep as t = Some s'"
    by (auto simp: bind_eq_Some_conv)
  obtain i j where a: "a = DeliverOn i j" "i \<in> set (peers_of topo j)"
    using Cons.prems(3) by (cases a) (auto simp: deliveries_def)
  have "left_to_deliver topo s = Suc (left_to_deliver topo t)" using deliver_load [OF Cons.prems(2) assms a(2)] t(1) a(1) by blast
  moreover have "left_to_deliver topo t = length as + left_to_deliver topo s'"
    using Cons.IH [OF t(2) step_ok [OF Cons.prems(2) assms t(1)]] Cons.prems(3) by (simp add: deliveries_def)
  ultimately show ?case by simp
qed simp

lemma cut_spreads:
  assumes ok: "sys_ok ep topo b s" and topo: "topology_ok topo" and j: "j \<in> set (peers_of topo i)"
    and ch: "channel s i j = []" and ci: "cut_of s i \<noteq> None"
  obtains d where "cut_of s j = Some d" "map_of (ls_marker_sequences d) i \<noteq> None"
proof -
  have "link_at ep (b i j) s i j" using ok j by (auto simp: sys_ok_def)
  then have "got_marker (receiver_cut (part_of s j) (sy_taken s j) i)"
    using ch ci by (auto simp: link_at_def link_ok_def channel_ok_def sender_cut_def split: if_splits)
  then show thesis using that by (auto simp: receiver_cut_def got_marker_def split: option.splits)
qed

definition linked :: "topology \<Rightarrow> node_id \<Rightarrow> node_id \<Rightarrow> bool" where
  "linked topo i j \<longleftrightarrow> j \<in> set (peers_of topo i)"

lemma drained_finished:
  assumes ok: "sys_ok ep topo b s" and topo: "topology_ok topo"
    and drained: "\<And>i j. j \<in> set (peers_of topo i) \<Longrightarrow> channel s i j = []"
    and start: "cut_of s r \<noteq> None" and conn: "\<And>i. i \<in> fst ` set topo \<Longrightarrow> (linked topo)\<^sup>*\<^sup>* r i"
    and i: "i \<in> fst ` set topo"
  shows "snap_finished s i"
proof -
  have "cut_of s k \<noteq> None" if "(linked topo)\<^sup>*\<^sup>* r k" for k
    using that
  proof (induction rule: rtranclp_induct)
    case (step x y)
    then show ?case using cut_spreads [OF ok topo, of y x] drained by (metis linked_def option.distinct(1))
  qed (rule start)
  then have cut: "cut_of s k \<noteq> None" if "k \<in> fst ` set topo" for k using conn that by blast
  have n: "node_ok ep (peers_of topo i) i (part_of s i) (sy_taken s i)" using ok i by (auto simp: sys_ok_def)
  have "length (pt_marked (part_of s i)) = length (peers_of topo i)"
    if t: "taking ep (peers_of topo i) (part_of s i) (sy_taken s i) c" "cut_ok ep (peers_of topo i) i c" for c
  proof -
    have "k \<in> set (pt_marked (part_of s i))" if k: "k \<in> set (peers_of topo i)" for k
    proof -
      have ik: "i \<in> set (peers_of topo k)" "k \<in> fst ` set topo"
        using topo k peer_is_node [OF topo k] by (auto simp: topology_ok_def)
      obtain d where "cut_of s i = Some d" "map_of (ls_marker_sequences d) k \<noteq> None"
        using cut_spreads [OF ok topo ik(1) drained [OF ik(1)] cut [OF ik(2)]] .
      then show ?thesis using t(1) cut_taking [OF t(1)] by (auto simp: taking_def map_of_eq_None_iff)
    qed
    then have "set (pt_marked (part_of s i)) = set (peers_of topo i)"
      using t by (auto simp: taking_def cut_ok_def)
    then show ?thesis using t(1) topo by (metis distinct_card taking_def topology_ok_def)
  qed
  then show ?thesis
    using n cut [OF i] by (auto simp: node_ok_def snap_finished_def complete_def dest: cut_idle)
qed

subsection \<open>Fresh connections, and a run on two nodes\<close>

definition fresh_system :: "topology \<Rightarrow> nat \<Rightarrow> (node_id \<Rightarrow> 'a) \<Rightarrow> 'a snap_system" where
  "fresh_system topo limit apps =
     \<lparr>sy_node = (\<lambda>i. (blank_participant i limit (zero_counters (peers_of topo i)),
                      \<lparr>ne_app = apps i, ne_out = (\<lambda>_. [])\<rparr>)),
      sy_taken = (\<lambda>_. None), sy_history = (\<lambda>_ _. [])\<rparr>"

lemma fresh_system_idle:
  assumes "topology_ok topo" "0 < ep"
  shows "idle_system ep topo (fresh_system topo limit apps)"
proof -
  have "i \<in> set (peers_of topo j)" if "j \<in> set (peers_of topo i)" for i j
    using assms(1) that by (auto simp: topology_ok_def)
  then show ?thesis
    using assms by (auto simp: idle_system_def list_all_iff fresh_system_def blank_participant_def links_wf_def
        idle_def numbered_def base_def map_of_zero_counters topology_ok_def)
qed

definition echo_app :: "bytes application" where
  "echo_app = \<lparr>ap_capture = (\<lambda>a. a), ap_deliver = (\<lambda>_ b a. a @ b)\<rparr>"

definition demo_topology :: topology where
  "demo_topology = [(1, [2]), (2, [1])]"

definition demo_start :: "bytes snap_system" where
  "demo_start = fresh_system demo_topology 1000 (\<lambda>_. [])"

text \<open>Node 1 sends; node 2 cuts with the datum in flight; the marker makes node 1 cut.\<close>

definition demo_before :: "action list" where
  "demo_before = [SendTo 1 2 [7], InitiateAt 2, SendTo 2 1 [9]]"

definition demo_deliveries :: "action list" where
  "demo_deliveries = [DeliverOn 1 2, DeliverOn 2 1, DeliverOn 1 2, DeliverOn 2 1]"

definition demo_mid :: "bytes snap_system" where
  "demo_mid = the (run echo_app (map fst demo_topology) 1 demo_before demo_start)"

definition demo_end :: "bytes snap_system" where
  "demo_end = the (run echo_app (map fst demo_topology) 1 demo_deliveries demo_mid)"

lemma run_append:
  "run ap ns ep (as @ bs) s = Option.bind (run ap ns ep as s) (run ap ns ep bs)"
  by (induction as arbitrary: s) (auto simp: Option.bind_assoc split: bind_splits)

lemma demo_topology_ok: "topology_ok demo_topology"
  by (auto simp: topology_ok_def demo_topology_def peers_of_def om_wf_def split: if_splits)

lemma demo_idle: "idle_system 1 demo_topology demo_start"
  unfolding demo_start_def by (rule fresh_system_idle [OF demo_topology_ok]) simp

lemma demo_run_before: "run echo_app (map fst demo_topology) 1 demo_before demo_start = Some demo_mid"
proof -
  have "\<not> Option.is_none (run echo_app (map fst demo_topology) 1 demo_before demo_start)" by code_simp
  then show ?thesis by (simp add: demo_mid_def Option.is_none_def)
qed

lemma demo_run_deliveries: "run echo_app (map fst demo_topology) 1 demo_deliveries demo_mid = Some demo_end"
proof -
  have "\<not> Option.is_none (run echo_app (map fst demo_topology) 1 demo_deliveries demo_mid)" by code_simp
  then show ?thesis by (simp add: demo_end_def Option.is_none_def)
qed

lemma demo_run: "run echo_app (map fst demo_topology) 1 (demo_before @ demo_deliveries) demo_start = Some demo_end"
  by (simp only: run_append demo_run_before demo_run_deliveries bind.bind_lunit)

lemma demo_finished: "list_all (snap_finished demo_end) (map fst demo_topology)"
  by code_simp

subsection \<open>What a run guarantees\<close>

definition sent_before_cut :: "'a snap_system \<Rightarrow> 'a snap_system \<Rightarrow> node_id \<Rightarrow> node_id \<Rightarrow> (u64 \<times> bytes) list" where
  "sent_before_cut s0 s i j =
     take (unat (the (map_of (ls_sent (the (cut_of s i))) j)) - base s0 i j) (sy_history s i j)"

definition received_before_cut :: "'a snap_system \<Rightarrow> 'a snap_system \<Rightarrow> node_id \<Rightarrow> node_id \<Rightarrow> nat" where
  "received_before_cut s0 s i j = unat (the (map_of (ls_received (the (cut_of s j))) i)) - base s0 i j"

definition snapshots_of :: "topology \<Rightarrow> 'a snap_system \<Rightarrow> local_snapshot list" where
  "snapshots_of topo s = map (\<lambda>i. the (cut_of s i)) (map fst topo)"

definition out_of_space :: "'a application \<Rightarrow> 'a snap_system \<Rightarrow> node_id \<Rightarrow> message \<Rightarrow> node_id \<Rightarrow> bool" where
  "out_of_space ap s i m j =
     (if ms_kind m = KindData
      then recording (part_of s j) i \<and> \<not> room_for (part_of s j) (ms_payload m)
      else pt_active (part_of s j) = None
        \<and> pt_limit (part_of s j) < length (ap_capture ap (ne_app (snd (sy_node s j)))))"

definition channels_drained :: "topology \<Rightarrow> 'a snap_system \<Rightarrow> bool" where
  "channels_drained topo s \<longleftrightarrow> list_all (\<lambda>i. list_all (\<lambda>j. channel s i j = []) (peers_of topo i)) (map fst topo)"

lemma delivered_None: "delivery ap ep i m (sy_node s j) = None \<longleftrightarrow> out_of_space ap s i m j"
  by (auto simp: delivery_def out_of_space_def not_le split: prod.splits)

text \<open>C10. However the sends, initiations, deliveries and takes of an epoch interleave, once every
  node has finished, \<open>ValidateGlobal\<close> accepts the snapshots they took, and the channel log a
  node recorded for a peer is exactly the data the peer had sent before its own cut that the
  node had not received before its.\<close>

theorem snapshot_is_consistent_cut:
  assumes "topology_ok topo" "0 < ep" "idle_system ep topo s0"
    and "run ap (map fst topo) ep as s0 = Some s" "list_all (snap_finished s) (map fst topo)"
    and "j \<in> set (peers_of topo i)"
  shows "validate_global (snapshots_of topo s) topo = Inr ()
    \<and> log_data_of i (the (cut_of s j)) = drop (received_before_cut s0 s i j) (sent_before_cut s0 s i j)"
proof
  note ok = run_from_idle [OF assms(1,2,4,3,1)]
  have fin: "snap_finished s k" if "k \<in> fst ` set topo" for k using assms(5) that by (auto simp: list_all_iff)
  show "validate_global (snapshots_of topo s) topo = Inr ()"
    using finished_consistent_cut [OF ok assms(1,2) fin] assms(1)
      validate_global_iff [of topo "map (\<lambda>i. the (cut_of s i)) (map fst topo)"]
    unfolding snapshots_of_def topology_ok_def by blast
  show "log_data_of i (the (cut_of s j)) = drop (received_before_cut s0 s i j) (sent_before_cut s0 s i j)"
    using finished_link [OF ok assms(1,6)] fin peer_is_node [OF assms(1,6)]
    unfolding sent_before_cut_def received_before_cut_def by (metis option.sel)
qed

theorem snapshot_is_consistent_cut_witness:
  "validate_global (snapshots_of demo_topology demo_end) demo_topology = Inr ()
    \<and> log_data_of 1 (the (cut_of demo_end 2)) = [(1, [7])]"
proof -
  have "drop (received_before_cut demo_start demo_end 1 2) (sent_before_cut demo_start demo_end 1 2) = [(1, [7])]"
    by code_simp
  then show ?thesis
    using snapshot_is_consistent_cut [OF demo_topology_ok _ demo_idle demo_run demo_finished, of 2 1]
    by (simp add: demo_topology_def peers_of_def)
qed

text \<open>In a run no participant ever reports a protocol error: delivering the head of a channel
  throws exactly when the receiver runs out of snapshot space, for the channel log of a link
  it is recording or for the state it captures on its first marker.\<close>

theorem delivery_fails_only_for_space:
  assumes "topology_ok topo" "0 < ep" "idle_system ep topo s0"
    and "run ap (map fst topo) ep as s0 = Some s"
    and "i \<in> set (peers_of topo j)" "channel s i j = m # ms"
  shows "step ap (map fst topo) ep (DeliverOn i j) s = None \<longleftrightarrow> out_of_space ap s i m j"
  using deliver_iff [OF run_from_idle [OF assms(1,2,4,3,1)] assms(1,2,5,6)] by (simp add: delivered_None del: step.simps)

theorem delivery_fails_only_for_space_witness:
  "(step echo_app (map fst demo_topology) 1 (DeliverOn 1 2) demo_mid = None)
     = out_of_space echo_app demo_mid 1 (data_message 1 [7]) 2"
proof (rule delivery_fails_only_for_space [OF demo_topology_ok _ demo_idle demo_run_before])
  show "channel demo_mid 1 2 = data_message 1 [7] # []" by code_simp
qed (simp_all add: demo_topology_def peers_of_def)

text \<open>C31. Deliveries end, and end with every snapshot complete: each delivery takes one off the
  messages and markers still to come, and when the channels of a connected topology are
  drained after some node has cut, every node has finished.\<close>

theorem deliveries_complete_snapshot:
  assumes "topology_ok topo" "0 < ep" "idle_system ep topo s0"
    and "run ap (map fst topo) ep as s0 = Some s"
    and "deliveries topo ds" "run ap (map fst topo) ep ds s = Some s'"
    and "cut_of s' r \<noteq> None" "list_all (\<lambda>i. (linked topo)\<^sup>*\<^sup>* r i) (map fst topo)" "channels_drained topo s'"
  shows "length ds = left_to_deliver topo s - left_to_deliver topo s' \<and> list_all (snap_finished s') (map fst topo)"
proof
  note ok = run_from_idle [OF assms(1,2,4,3,1)]
  note ok' = run_ok [OF assms(1,2,6) ok]
  show "length ds = left_to_deliver topo s - left_to_deliver topo s'"
    using deliveries_load [OF assms(1,2,6) ok assms(5)] by simp
  have "channel s' i j = []" if "j \<in> set (peers_of topo i)" for i j
    using assms(9) peer_is_node [OF assms(1) that] that by (auto simp: channels_drained_def list_all_iff)
  moreover have "(linked topo)\<^sup>*\<^sup>* r i" if "i \<in> fst ` set topo" for i
    using assms(8) that by (auto simp: list_all_iff)
  ultimately show "list_all (snap_finished s') (map fst topo)"
    using drained_finished [OF ok' assms(1) _ assms(7)] by (auto simp: list_all_iff)
qed

theorem deliveries_complete_snapshot_witness:
  "length demo_deliveries = left_to_deliver demo_topology demo_mid - left_to_deliver demo_topology demo_end
     \<and> list_all (snap_finished demo_end) (map fst demo_topology)"
proof (rule deliveries_complete_snapshot [OF demo_topology_ok _ demo_idle demo_run_before _ demo_run_deliveries])
  have "linked demo_topology 2 1" by (simp add: linked_def demo_topology_def peers_of_def)
  then show "list_all (\<lambda>i. (linked demo_topology)\<^sup>*\<^sup>* 2 i) (map fst demo_topology)"
    by (auto simp: demo_topology_def)
  have "\<not> Option.is_none (cut_of demo_end 2)" by code_simp
  then show "cut_of demo_end 2 \<noteq> None" by (simp add: Option.is_none_def)
  show "channels_drained demo_topology demo_end" by code_simp
  show "deliveries demo_topology demo_deliveries" by code_simp
qed simp

text \<open>A validated global snapshot can be restored: at every node a new participant for the
  node's peers accepts its snapshot, hands the recorded channel data to the application in
  order, and ends with counters that agree across every link, so that the fresh connections
  start where the sender's counter left off.\<close>

theorem restore_aligns_counters:
  assumes "om_wf topo" "topo \<noteq> []" "list_all snapshot_wf snapshots"
    and valid: "validate_global snapshots topo = Inr ()" and s: "s \<in> set snapshots"
    and sender: "sender \<in> set snapshots" "ls_node sender \<in> set (the (map_of topo (ls_node s)))"
    and limit: "0 < limit" and deliver: "\<And>k b e. fst (cb_deliver cbs k b e) = Inr ()"
  shows "\<exists>p p'. new_participant (ls_node s) (the (map_of topo (ls_node s))) True limit = Inr p
    \<and> restore_participant cbs s (p, e) = (Inr (), p', deliver_all cbs (ls_channels s) e)
    \<and> pt_last_epoch p' = ls_epoch s \<and> pt_sent p' = ls_sent s
    \<and> map_of (pt_received p') (ls_node sender) = map_of (ls_sent sender) (ls_node s)"
proof -
  have wf: "\<forall>s \<in> set snapshots. snapshot_wf s" using assms(3) by (simp add: list_all_iff)
  have cut: "consistent_cut snapshots topo" using validate_global_iff [OF assms(1,2) wf] valid by simp
  then have nc: "node_consistent snapshots s (the (map_of topo (ls_node s)))" and "0 < ls_epoch s"
      and dist: "distinct (map ls_node snapshots)"
    using s unfolding consistent_cut_def by metis+
  obtain p where p: "new_participant (ls_node s) (the (map_of topo (ls_node s))) True limit = Inr p"
    using nc limit by (auto simp: new_participant_Inr node_consistent_def)
  obtain x where "x \<in> set snapshots" "ls_node x = ls_node sender" "link_consistent x s"
    using nc sender(2) by (auto simp: node_consistent_def)
  moreover from this have "x = sender" using dist sender(1) by (simp add: distinct_map inj_on_def)
  ultimately have "map_of (ls_marker_sequences s) (ls_node sender) = map_of (ls_sent sender) (ls_node s)"
    by (auto simp: link_consistent_def)
  with restore_succeeds [OF nc _ \<open>0 < ls_epoch s\<close> p deliver, of e] wf s p show ?thesis by auto
qed

theorem restore_aligns_counters_witness:
  "\<exists>p p'. new_participant 2 [1] True 100 = Inr p
    \<and> restore_participant (fifo_callbacks echo_app) (the (cut_of demo_end 2)) (p, \<lparr>ne_app = [], ne_out = (\<lambda>_. [])\<rparr>)
        = (Inr (), p', deliver_all (fifo_callbacks echo_app) (ls_channels (the (cut_of demo_end 2)))
             \<lparr>ne_app = [], ne_out = (\<lambda>_. [])\<rparr>)
    \<and> pt_last_epoch p' = 1 \<and> pt_sent p' = [(1, 0)] \<and> map_of (pt_received p') 1 = Some 1"
proof -
  let ?s = "the (cut_of demo_end 2)"
  have ids: "ls_node ?s = 2" "ls_node (the (cut_of demo_end 1)) = 1" "ls_epoch ?s = 1" "ls_sent ?s = [(1, 0)]"
      "map_of (ls_sent (the (cut_of demo_end 1))) 2 = Some 1"
    by code_simp+
  have "list_all snapshot_wf (snapshots_of demo_topology demo_end)"
      "validate_global (snapshots_of demo_topology demo_end) demo_topology = Inr ()" "om_wf demo_topology"
    by code_simp+
  moreover have "fst (cb_deliver (fifo_callbacks echo_app) k b e) = Inr ()" for k b e
    by (simp add: fifo_callbacks_def)
  moreover have "the (map_of demo_topology 2) = [1]" "demo_topology \<noteq> []" by (simp_all add: demo_topology_def)
  moreover have "?s \<in> set (snapshots_of demo_topology demo_end)"
      "the (cut_of demo_end 1) \<in> set (snapshots_of demo_topology demo_end)"
    by (simp_all add: snapshots_of_def demo_topology_def)
  ultimately show ?thesis
    using restore_aligns_counters [where snapshots = "snapshots_of demo_topology demo_end" and topo = demo_topology
        and s = ?s and sender = "the (cut_of demo_end 1)" and limit = 100 and cbs = "fifo_callbacks echo_app"
        and e = "\<lparr>ne_app = [], ne_out = (\<lambda>_. [])\<rparr>"] ids
    by simp
qed

end
