(* ===== verification/Stream_Types.thy ===== *)
theory Stream_Types
  imports Prelude
begin

text \<open>
  The data that flows through the engine (\<open>src/src/stream\<close>, \<open>src/src/window/window.h\<close>,
  \<open>src/src/sink/sink.h\<close>, \<open>src/src/aggregate/kernel.h\<close>): records, in-band control
  records, windows with the order of \<open>WindowByEnd\<close>, aggregates and window results, and
  the monotone watermark tracker.
\<close>

section \<open>Records and control records\<close>

record data_record =
  key :: string
  val :: int
  event_time :: timestamp
  processing_time :: timestamp

datatype control_type = KWatermark | KCheckpointBarrier

record control_record =
  ctype :: control_type
  cwatermark :: timestamp
  checkpoint_offset :: u64

text \<open>\<open>BatchItem = std::variant<Record, ControlRecord>\<close>; a batch is the list of its items.\<close>

datatype batch_item = Data data_record | Control control_record

type_synonym batch = "batch_item list"

definition watermark_item :: "timestamp \<Rightarrow> u64 \<Rightarrow> batch_item" where
  "watermark_item wm off =
     Control \<lparr>ctype = KWatermark, cwatermark = wm, checkpoint_offset = off\<rparr>"

definition barrier_item :: "u64 \<Rightarrow> batch_item" where
  "barrier_item off =
     Control \<lparr>ctype = KCheckpointBarrier, cwatermark = i64_min, checkpoint_offset = off\<rparr>"

section \<open>Windows, ordered by end and then by start\<close>

datatype window = Window (wstart: timestamp) (wend: timestamp)

text \<open>
  \<open>WindowByEnd\<close> is the comparator of the ordered window map. It is a strict total order
  on windows, so the library's facts on sorted lists apply to the map.
\<close>

fun window_by_end :: "window \<Rightarrow> window \<Rightarrow> bool" where
  "window_by_end a b =
     (if wend a \<noteq> wend b then wend a < wend b else wstart a < wstart b)"

instantiation window :: linorder
begin

definition less_window :: "window \<Rightarrow> window \<Rightarrow> bool" where
  "less_window a b = window_by_end a b"

definition less_eq_window :: "window \<Rightarrow> window \<Rightarrow> bool" where
  "less_eq_window a b = (a = b \<or> window_by_end a b)"

instance
proof
  fix x y z :: window
  show "(x < y) = (x \<le> y \<and> \<not> y \<le> x)"
    by (cases x; cases y) (auto simp: less_window_def less_eq_window_def)
  show "x \<le> x" by (simp add: less_eq_window_def)
  show "x \<le> y \<Longrightarrow> y \<le> z \<Longrightarrow> x \<le> z"
    by (auto simp: less_eq_window_def split: if_splits)
  show "x \<le> y \<Longrightarrow> y \<le> x \<Longrightarrow> x = y"
    by (auto simp: less_eq_window_def split: if_splits)
  show "x \<le> y \<or> y \<le> x"
    by (cases x; cases y) (auto simp: less_eq_window_def)
qed

end

lemma window_less_end: "(a :: window) < b \<Longrightarrow> wend a \<le> wend b"
  by (auto simp: less_window_def split: if_splits)

lemma window_le_end: "(a :: window) \<le> b \<Longrightarrow> wend a \<le> wend b"
  by (auto simp: less_eq_window_def split: if_splits)

section \<open>Aggregates and results\<close>

record aggregate_result =
  agg_value :: int
  agg_count :: u64

record window_result =
  res_key :: string
  res_window :: window
  res_result :: aggregate_result

definition window_row :: "string \<Rightarrow> window \<Rightarrow> aggregate_result \<Rightarrow> window_result" where
  "window_row k w a = \<lparr>res_key = k, res_window = w, res_result = a\<rparr>"

lemma window_row_sel [simp]:
  "res_key (window_row k w a) = k" "res_window (window_row k w a) = w"
  "res_result (window_row k w a) = a"
  by (simp_all add: window_row_def)

lemma window_row_inject [simp]:
  "(window_row k w a = window_row k' w' a') = (k = k' \<and> w = w' \<and> a = a')"
  by (simp add: window_row_def)

lemma window_row_eta [simp]: "window_row (res_key r) (res_window r) (res_result r) = r"
  by (simp add: window_row_def)

section \<open>The watermark tracker\<close>

text \<open>\<open>WatermarkTracker::Advance\<close>: the new current watermark and whether it moved.\<close>

definition wm_advance :: "timestamp \<Rightarrow> timestamp \<Rightarrow> bool \<times> timestamp" where
  "wm_advance current wm = (if wm > current then (True, wm) else (False, current))"

definition wm_initial :: timestamp where
  "wm_initial = i64_min"

lemma wm_advance_max: "snd (wm_advance current wm) = max current wm"
  by (simp add: wm_advance_def)

lemma wm_advance_moved: "fst (wm_advance current wm) = (current < wm)"
  by (simp add: wm_advance_def)

end
