(* ===== verification/Windows.thy ===== *)
theory Windows
  imports Stream_Types
begin

text \<open>
  The window assigners (\<open>src/src/window/tumbling.{h,cpp}\<close>, \<open>sliding.{h,cpp}\<close>,
  \<open>window.h\<close>). The abstract class \<open>WindowAssigner\<close> is a record of its virtual functions;
  a constructor that validates its arguments returns a result. The laws the engine
  relies on are \<open>lawful_assigner\<close>; the locale \<open>assigner_class\<close> is interpreted on both assigners.
\<close>

record window_assigner =
  assign_windows :: "timestamp \<Rightarrow> window list res"
  descriptor :: string

section \<open>Decimal rendering (\<open>std::to_string\<close>)\<close>

fun digits_of :: "nat \<Rightarrow> string" where
  "digits_of n =
     (if n < 10 then [char_of (48 + n)]
      else digits_of (n div 10) @ [char_of (48 + n mod 10)])"

declare digits_of.simps [simp del]

definition to_string_int :: "int \<Rightarrow> string" where
  "to_string_int x = (if x < 0 then ''-'' @ digits_of (nat (- x)) else digits_of (nat x))"

section \<open>Tumbling windows\<close>

definition tumbling_assign :: "duration \<Rightarrow> timestamp \<Rightarrow> window list res" where
  "tumbling_assign window_ms ms =
     (if ms < 0 \<or> ms > i64_max - window_ms
      then Inl (OutOfRange ''event time outside supported nonnegative window domain'')
      else let start_ms = (ms sdiv window_ms) * window_ms
           in Inr [Window start_ms (start_ms + window_ms)])"

definition tumbling_descriptor :: "duration \<Rightarrow> string" where
  "tumbling_descriptor window_ms = ''tumbling(size_ms='' @ to_string_int window_ms @ '')''"

definition tumbling_assigner :: "duration \<Rightarrow> window_assigner res" where
  "tumbling_assigner window_ms =
     (if window_ms \<le> 0 then Inl (InvalidArgument ''window size must be positive'')
      else Inr \<lparr>assign_windows = tumbling_assign window_ms, descriptor = tumbling_descriptor window_ms\<rparr>)"

section \<open>Sliding windows\<close>

definition sliding_earliest :: "duration \<Rightarrow> duration \<Rightarrow> timestamp \<Rightarrow> timestamp" where
  "sliding_earliest win_ms slide_ms t =
     (let numerator = t - win_ms + slide_ms
      in if numerator \<le> 0 then 0 else (numerator sdiv slide_ms) * slide_ms)"

text \<open>
  The \<open>for\<close> loop over window starts. A non-positive slide is refused by the constructor;
  the loop stops there so that it is total.
\<close>

function sliding_loop :: "duration \<Rightarrow> duration \<Rightarrow> timestamp \<Rightarrow> timestamp \<Rightarrow> window list" where
  "sliding_loop win_ms slide_ms t start =
     (if 0 < slide_ms \<and> start \<le> t
      then (if start + win_ms > t then [Window start (start + win_ms)] else [])
           @ sliding_loop win_ms slide_ms t (start + slide_ms)
      else [])"
  by pat_completeness auto
termination
  by (relation "measure (\<lambda>(win, slide, t, start). nat (t + 1 - start))") auto

declare sliding_loop.simps [simp del]

definition sliding_assign :: "duration \<Rightarrow> duration \<Rightarrow> timestamp \<Rightarrow> window list res" where
  "sliding_assign win_ms slide_ms t =
     (if t < 0 \<or> t > i64_max - max win_ms slide_ms
      then Inl (OutOfRange ''event time outside supported nonnegative window domain'')
      else Inr (sliding_loop win_ms slide_ms t (sliding_earliest win_ms slide_ms t)))"

definition sliding_descriptor :: "duration \<Rightarrow> duration \<Rightarrow> string" where
  "sliding_descriptor win_ms slide_ms =
     ''sliding(size_ms='' @ to_string_int win_ms @ '',slide_ms='' @ to_string_int slide_ms @ '')''"

definition sliding_assigner :: "duration \<Rightarrow> duration \<Rightarrow> window_assigner res" where
  "sliding_assigner win_ms slide_ms =
     (if win_ms \<le> 0 \<or> slide_ms \<le> 0
      then Inl (InvalidArgument ''window size and slide must be positive'')
      else Inr \<lparr>assign_windows = sliding_assign win_ms slide_ms,
                descriptor = sliding_descriptor win_ms slide_ms\<rparr>)"

section \<open>What an assigner promises\<close>

text \<open>
  The engine relies on four things: the windows of a record are distinct, they contain
  its event time, their bounds are representable and nonnegative, and all windows of one
  assigner have the same length, so that a window is determined by its start.
\<close>

definition lawful_assigner :: "window_assigner \<Rightarrow> duration \<Rightarrow> bool" where
  "lawful_assigner a width \<longleftrightarrow>
     (\<forall>t ws. assign_windows a t = Inr ws \<longrightarrow>
        distinct ws \<and>
        (\<forall>w \<in> set ws. wstart w \<le> t \<and> t < wend w \<and> 0 \<le> wstart w \<and> wend w \<le> i64_max \<and>
           wend w = wstart w + width))"

text \<open>An implementation of the abstract class: a constructor all of whose objects are lawful.\<close>

locale assigner_class =
  fixes construct :: "'p \<Rightarrow> window_assigner res"
    and width :: "'p \<Rightarrow> duration"
  assumes constructed_lawful: "construct p = Inr a \<Longrightarrow> lawful_assigner a (width p)"
begin

lemma constructed_in_i64:
  "construct p = Inr a \<Longrightarrow> assign_windows a t = Inr ws \<Longrightarrow> w \<in> set ws \<Longrightarrow>
   in_i64 (wstart w) \<and> in_i64 (wend w)"
  using constructed_lawful [of p a] by (fastforce simp: lawful_assigner_def in_i64_def i64_nums)

lemma constructed_start_determines:
  "construct p = Inr a \<Longrightarrow> assign_windows a t = Inr ws \<Longrightarrow> assign_windows a t' = Inr ws' \<Longrightarrow>
   w \<in> set ws \<Longrightarrow> w' \<in> set ws' \<Longrightarrow> wstart w = wstart w' \<Longrightarrow> w = w'"
  using constructed_lawful [of p a] unfolding lawful_assigner_def by (metis window.expand)

end

lemma lawful_distinct: "lawful_assigner a width \<Longrightarrow> assign_windows a t = Inr ws \<Longrightarrow> distinct ws"
  by (simp add: lawful_assigner_def)

lemma lawful_window:
  assumes "lawful_assigner a width" "assign_windows a t = Inr ws" "w \<in> set ws"
  shows "wstart w \<le> t" "t < wend w" "0 \<le> wstart w" "wend w \<le> i64_max" "wend w = wstart w + width"
  using assms unfolding lawful_assigner_def by blast+

text \<open>The windows of length \<open>win_ms\<close>, at multiples of \<open>slide_ms\<close>, that contain \<open>t\<close>.\<close>

definition aligned_windows :: "duration \<Rightarrow> duration \<Rightarrow> timestamp \<Rightarrow> window set" where
  "aligned_windows win_ms slide_ms t =
     {Window s (s + win_ms) |s. 0 \<le> s \<and> slide_ms dvd s \<and> s \<le> t \<and> t < s + win_ms}"

lemma set_sliding_loop:
  assumes "0 < slide"
  shows "set (sliding_loop win slide t start) =
    {Window s (s + win) |s. (start \<le> s \<and> slide dvd (s - start)) \<and> s \<le> t \<and> t < s + win}"
  using assms
proof (induction win slide t start rule: sliding_loop.induct)
  case (1 win slide t start)
  show ?case
  proof (cases "start \<le> t")
    case False
    then show ?thesis by (subst sliding_loop.simps) auto
  next
    case True
    have split: "(start \<le> s \<and> slide dvd (s - start)) =
        (s = start \<or> (start + slide \<le> s \<and> slide dvd (s - (start + slide))))" for s
    proof -
      have "start + slide \<le> s" if "start \<le> s" "slide dvd (s - start)" "s \<noteq> start"
        using that zdvd_imp_le [of slide "s - start"] by auto
      moreover have "(slide dvd (s - (start + slide))) = (slide dvd (s - start))"
        using dvd_diff_left_iff [of slide slide "s - start"] by (simp add: diff_diff_eq)
      ultimately show ?thesis using "1.prems" by auto
    qed
    have "set (sliding_loop win slide t start) =
        {Window s (s + win) |s. s = start \<and> s \<le> t \<and> t < s + win}
        \<union> set (sliding_loop win slide t (start + slide))"
      using True "1.prems" by (subst sliding_loop.simps) auto
    also have "\<dots> = {Window s (s + win) |s. (start \<le> s \<and> slide dvd (s - start)) \<and> s \<le> t \<and> t < s + win}"
      using "1.IH" True "1.prems" unfolding split by blast
    finally show ?thesis .
  qed
qed

lemma sliding_loop_starts:
  "0 < slide \<Longrightarrow> w \<in> set (sliding_loop win slide t start) \<Longrightarrow> start \<le> wstart w"
  by (auto simp: set_sliding_loop)

lemma sorted_sliding_loop:
  "0 < slide \<Longrightarrow> sorted_wrt (<) (map wstart (sliding_loop win slide t start))"
proof (induction win slide t start rule: sliding_loop.induct)
  case (1 win slide t start)
  have "\<forall>w \<in> set (sliding_loop win slide t (start + slide)). start < wstart w"
    using sliding_loop_starts [OF "1.prems", of _ win t "start + slide"] "1.prems" by fastforce
  with 1 show ?case by (subst sliding_loop.simps) auto
qed

lemma distinct_sliding_loop: "0 < slide \<Longrightarrow> distinct (sliding_loop win slide t start)"
  using sorted_sliding_loop distinct_map strict_sorted_iff by blast

text \<open>The first candidate start: aligned, and no aligned window before it contains \<open>t\<close>.\<close>

lemma sliding_earliest_spec:
  assumes "0 < slide" "0 < win" "0 \<le> t"
  shows "slide dvd sliding_earliest win slide t" "0 \<le> sliding_earliest win slide t"
    and "0 \<le> s \<Longrightarrow> slide dvd s \<Longrightarrow> t < s + win \<Longrightarrow> sliding_earliest win slide t \<le> s"
proof -
  let ?n = "t - win + slide"
  show "slide dvd sliding_earliest win slide t" "0 \<le> sliding_earliest win slide t"
    using assms by (auto simp: sliding_earliest_def Let_def pos_imp_zdiv_nonneg_iff)
  assume s: "0 \<le> s" "slide dvd s" "t < s + win"
  then obtain j where j: "s = slide * j" by blast
  have "?n div slide * slide \<le> s" if "0 < ?n"
  proof -
    have "?n < (j + 1) * slide" using s j by (simp add: algebra_simps)
    moreover have "?n div slide * slide \<le> ?n"
      using assms(1) by (simp add: minus_mod_eq_div_mult [symmetric])
    ultimately have "?n div slide * slide < (j + 1) * slide" by linarith
    then have "?n div slide \<le> j" using assms(1) by simp
    then show ?thesis using j assms(1) by (simp add: mult.commute)
  qed
  with s assms show "sliding_earliest win slide t \<le> s"
    by (auto simp: sliding_earliest_def Let_def)
qed

lemma set_sliding_assign:
  assumes "sliding_assign win slide t = Inr ws" "0 < slide" "0 < win"
  shows "set ws = aligned_windows win slide t" "distinct ws"
proof -
  have t: "0 \<le> t" and ws: "ws = sliding_loop win slide t (sliding_earliest win slide t)"
    using assms(1) by (auto simp: sliding_assign_def split: if_splits)
  note spec = sliding_earliest_spec [OF assms(2,3) t]
  have dvd: "(slide dvd (s - sliding_earliest win slide t)) = (slide dvd s)" for s
    using spec(1) dvd_diff_left_iff by blast
  have "set ws = {Window s (s + win) |s. (sliding_earliest win slide t \<le> s \<and> slide dvd s) \<and> s \<le> t \<and> t < s + win}"
    unfolding ws set_sliding_loop [OF assms(2)] dvd ..
  also have "\<dots> = aligned_windows win slide t"
    unfolding aligned_windows_def using spec(2,3) by (blast intro: order_trans)
  finally show "set ws = aligned_windows win slide t" .
  show "distinct ws" unfolding ws using assms(2) by (rule distinct_sliding_loop)
qed

lemma tumbling_assign_eq:
  assumes "tumbling_assign win t = Inr ws"
  shows "ws = [Window (t div win * win) (t div win * win + win)] \<or> win < 0"
    and "0 \<le> t" "t \<le> i64_max - win"
  using assms by (auto simp: tumbling_assign_def Let_def split: if_splits)

lemma tumbling_window_aligned:
  assumes "0 < win" "0 \<le> t"
  shows "aligned_windows win win t = {Window (t div win * win) (t div win * win + win)}"
proof -
  have "s = t div win * win" if s: "win dvd s" "s \<le> t" "t < s + win" for s
  proof -
    from s(1) obtain j where j: "s = win * j" by blast
    have "t div win = j"
      using s(2,3) j assms by (intro int_div_pos_eq [of _ _ _ "t - s"]) auto
    with j show ?thesis by simp
  qed
  moreover have "t < t div win * win + win" "t div win * win \<le> t"
    using assms pos_mod_bound [of win t] pos_mod_sign [of win t]
    by (simp_all add: minus_mod_eq_div_mult [symmetric])
  ultimately show ?thesis
    using assms by (auto simp: aligned_windows_def pos_imp_zdiv_nonneg_iff)
qed

lemma set_tumbling_assign:
  assumes "tumbling_assign win t = Inr ws" "0 < win"
  shows "set ws = aligned_windows win win t" "distinct ws"
  using tumbling_assign_eq [OF assms(1)] assms(2) by (auto simp: tumbling_window_aligned)

lemma aligned_windows_laws:
  assumes "w \<in> aligned_windows win slide t" "t \<le> i64_max - win"
  shows "wstart w \<le> t \<and> t < wend w \<and> 0 \<le> wstart w \<and> wend w \<le> i64_max \<and> wend w = wstart w + win"
  using assms by (auto simp: aligned_windows_def)

lemma sliding_assign_range: "sliding_assign win slide t = Inr ws \<Longrightarrow> t \<le> i64_max - win"
  by (auto simp: sliding_assign_def split: if_splits)

lemma lawful_if_aligned:
  assumes "\<And>t ws. assign_windows a t = Inr ws \<Longrightarrow>
      distinct ws \<and> set ws = aligned_windows win slide t \<and> t \<le> i64_max - win"
  shows "lawful_assigner a win"
  unfolding lawful_assigner_def using assms aligned_windows_laws by metis

lemma tumbling_lawful:
  assumes "tumbling_assigner win = Inr a"
  shows "lawful_assigner a win"
proof (rule lawful_if_aligned [where slide = win])
  fix t ws
  assume "assign_windows a t = Inr ws"
  then have "tumbling_assign win t = Inr ws" "0 < win"
    using assms by (auto simp: tumbling_assigner_def split: if_splits)
  then show "distinct ws \<and> set ws = aligned_windows win win t \<and> t \<le> i64_max - win"
    using set_tumbling_assign tumbling_assign_eq(3) by blast
qed

lemma sliding_lawful:
  assumes "sliding_assigner win slide = Inr a"
  shows "lawful_assigner a win"
proof (rule lawful_if_aligned [where slide = slide])
  fix t ws
  assume "assign_windows a t = Inr ws"
  then have "sliding_assign win slide t = Inr ws" "0 < win" "0 < slide"
    using assms by (auto simp: sliding_assigner_def split: if_splits)
  then show "distinct ws \<and> set ws = aligned_windows win slide t \<and> t \<le> i64_max - win"
    using set_sliding_assign sliding_assign_range by blast
qed

interpretation tumbling: assigner_class tumbling_assigner "\<lambda>win. win"
  by unfold_locales (rule tumbling_lawful)

interpretation sliding: assigner_class "\<lambda>p. sliding_assigner (fst p) (snd p)" fst
  by unfold_locales (rule sliding_lawful)

section \<open>Properties\<close>

text \<open>
  A sliding assigner accepts exactly the event times from zero up to the largest one whose
  windows fit, and assigns to such a record, without repetition, all windows of its length that
  start at a nonnegative multiple of the slide and contain the event time, and no other window.
\<close>

theorem sliding_assigns_all_windows:
  assumes "sliding_assigner win slide = Inr a"
  shows "if 0 \<le> t \<and> t \<le> i64_max - max win slide
    then \<exists>ws. assign_windows a t = Inr ws \<and> distinct ws \<and>
      set ws = {Window s (s + win) |s. 0 \<le> s \<and> slide dvd s \<and> s \<le> t \<and> t < s + win}
    else \<exists>e. assign_windows a t = Inl e"
proof -
  have a: "assign_windows a t = sliding_assign win slide t" "0 < win" "0 < slide"
    using assms by (auto simp: sliding_assigner_def split: if_splits)
  show ?thesis
    using set_sliding_assign [of win slide t] a
    by (auto simp: aligned_windows_def sliding_assign_def)
qed

theorem sliding_assigns_all_windows_witness:
  "\<exists>a ws. sliding_assigner 10 4 = Inr a \<and> assign_windows a 13 = Inr ws \<and>
     set ws = {Window s (s + 10) |s. 0 \<le> s \<and> 4 dvd s \<and> s \<le> 13 \<and> 13 < s + 10}"
proof -
  obtain a where a: "sliding_assigner 10 4 = Inr a" by (simp add: sliding_assigner_def)
  show ?thesis using sliding_assigns_all_windows [OF a, of 13] a by (auto simp: i64_nums)
qed

text \<open>
  The tumbling assigner is the sliding assigner whose slide is the window size: for every
  event time both return the same window, or both reject the record.
\<close>

theorem tumbling_is_sliding:
  assumes "0 < win"
  shows "tumbling_assign win t = sliding_assign win win t"
proof (cases "t < 0 \<or> t > i64_max - win")
  case False
  then obtain ws vs where ws: "tumbling_assign win t = Inr ws" "sliding_assign win win t = Inr vs"
    by (auto simp: tumbling_assign_def sliding_assign_def Let_def)
  have "ws = [Window (t div win * win) (t div win * win + win)]"
    using tumbling_assign_eq(1) [OF ws(1)] assms by auto
  moreover have "set vs = set ws" "distinct vs"
    using set_sliding_assign [OF ws(2) assms assms] set_tumbling_assign [OF ws(1) assms] by simp_all
  ultimately have "vs = ws" by (cases vs) (auto simp: distinct_length_2_or_more subset_singleton_iff)
  with ws show ?thesis by simp
qed (simp add: tumbling_assign_def sliding_assign_def)

theorem tumbling_is_sliding_witness:
  "(0 :: int) < 10 \<and> tumbling_assign 10 25 = sliding_assign 10 10 25"
  using tumbling_is_sliding [of 10 25] by simp

end
