(* ===== verification/Byte_Codec.thy ===== *)
theory Byte_Codec
  imports Windows
begin

text \<open>
  Fixed-width little-endian fields as the checkpoint writer appends them
  (\<open>src/src/checkpoint/writer.cpp\<close>) and as the readers assemble them
  (\<open>src/src/checkpoint/reader.cpp\<close>), strings as bytes, and zero-padded decimal numbers as
  \<open>snprintf\<close> prints them in file names. A read through a pointer carries its bounds: a read
  past the end of the buffer is the value \<open>Fault\<close>, so that a theorem can exclude it.
\<close>

section \<open>Little-endian fields\<close>

definition append_le32 :: "bytes \<Rightarrow> u32 \<Rightarrow> bytes" where
  "append_le32 buf v =
     buf @ [ucast v, ucast (drop_bit 8 v), ucast (drop_bit 16 v), ucast (drop_bit 24 v)]"

definition append_le64 :: "bytes \<Rightarrow> u64 \<Rightarrow> bytes" where
  "append_le64 buf v = fold (\<lambda>i b. b @ [ucast (drop_bit (i * 8) v)]) [0..<8] buf"

definition append_sle64 :: "bytes \<Rightarrow> int \<Rightarrow> bytes" where
  "append_sle64 buf v = append_le64 buf (word_of_int v)"

definition read_le32 :: "bytes \<Rightarrow> u32" where
  "read_le32 p = ucast (p ! 0) OR push_bit 8 (ucast (p ! 1)) OR
                 push_bit 16 (ucast (p ! 2)) OR push_bit 24 (ucast (p ! 3))"

definition read_le64 :: "bytes \<Rightarrow> u64" where
  "read_le64 p = fold (\<lambda>i v. v OR push_bit (i * 8) (ucast (p ! i))) [0..<8] 0"

definition read_sle64 :: "bytes \<Rightarrow> int" where
  "read_sle64 p = sint (read_le64 p)"

abbreviation le32 :: "u32 \<Rightarrow> bytes" where
  "le32 v \<equiv> append_le32 [] v"

abbreviation le64 :: "u64 \<Rightarrow> bytes" where
  "le64 v \<equiv> append_le64 [] v"

abbreviation sle64 :: "int \<Rightarrow> bytes" where
  "sle64 v \<equiv> append_sle64 [] v"

lemma upt_8: "[0..<8] = [0, 1, 2, 3, 4, 5, 6, 7::nat]"
  by (simp add: upt_rec)

lemma append_le32_acc: "append_le32 buf v = buf @ le32 v"
  by (simp add: append_le32_def)

lemma append_le64_acc: "append_le64 buf v = buf @ le64 v"
  by (simp add: append_le64_def upt_8)

lemma append_sle64_acc: "append_sle64 buf v = buf @ sle64 v"
  unfolding append_sle64_def by (rule append_le64_acc)

lemmas append_acc = append_le32_acc append_le64_acc append_sle64_acc

lemma length_le [simp]:
  "length (le32 v) = 4" "length (le64 w) = 8" "length (sle64 x) = 8"
  by (simp_all add: append_le32_def append_le64_def append_sle64_def upt_8)

lemma nth_le64: "i < 8 \<Longrightarrow> (le64 v @ r) ! i = ucast (drop_bit (i * 8) v)"
proof -
  assume "i < 8"
  then have "i \<in> {0, 1, 2, 3, 4, 5, 6, 7}" by auto
  then show ?thesis by (auto simp: append_le64_def upt_8)
qed

lemma nth_le32: "i < 4 \<Longrightarrow> (le32 v @ r) ! i = ucast (drop_bit (i * 8) v)"
proof -
  assume "i < 4"
  then have "i \<in> {0, 1, 2, 3}" by auto
  then show ?thesis by (auto simp: append_le32_def numeral_2_eq_2 numeral_3_eq_3)
qed

text \<open>Bits of a word assembled from bytes with shifts.\<close>

lemma bit_assembled:
  assumes n: "n < LENGTH('a::len)" "n < 8 * k"
  shows "bit (fold (\<lambda>i u. u OR push_bit (i * 8) (ucast (p ! i))) [0..<k] (0 :: 'a word)) n =
    bit ((p :: bytes) ! (n div 8)) (n mod 8)"
proof -
  have fold: "bit (fold (\<lambda>i u. u OR push_bit (i * 8) (ucast (p ! i))) is u) n =
      (bit u n \<or> (\<exists>i \<in> set is. i * 8 \<le> n \<and> n < i * 8 + 8 \<and> bit (p ! i) (n - i * 8)))"
    for "is" and u :: "'a word"
  proof (induction "is" arbitrary: u)
    case (Cons i js)
    have "bit (u OR push_bit (i * 8) (ucast (p ! i))) n =
        (bit u n \<or> i * 8 \<le> n \<and> n < i * 8 + 8 \<and> bit (p ! i) (n - i * 8))"
      using n by (auto simp: bit_simps dest: bit_imp_le_length)
    then show ?case using Cons by (simp only: fold_simps list.set) auto
  qed simp
  have "i = n div 8" if "i * 8 \<le> n" "n < i * 8 + 8" for i using that by auto
  moreover have "n div 8 < k" "n div 8 * 8 \<le> n" "n < n div 8 * 8 + 8" "n - n div 8 * 8 = n mod 8"
    using n by (auto simp: minus_div_mult_eq_mod)
  ultimately have "(\<exists>i \<in> set [0..<k]. i * 8 \<le> n \<and> n < i * 8 + 8 \<and> bit (p ! i) (n - i * 8)) =
      bit (p ! (n div 8)) (n mod 8)"
    by (metis atLeastLessThan_iff atLeastLessThan_upt zero_le)
  then show ?thesis unfolding fold by simp
qed

lemma bit_read_le64: "n < 64 \<Longrightarrow> bit (read_le64 p) n = bit (p ! (n div 8)) (n mod 8)"
  unfolding read_le64_def by (rule bit_assembled) simp_all

lemma bit_read_le32:
  assumes "n < 32"
  shows "bit (read_le32 p) n = bit (p ! (n div 8)) (n mod 8)"
proof -
  have "[0..<4] = [0, 1, 2, 3::nat]" by (simp add: upt_rec)
  then have "read_le32 p = fold (\<lambda>i u. u OR push_bit (i * 8) (ucast (p ! i))) [0..<4] 0"
    by (simp add: read_le32_def or.assoc del: push_bit_numeral)
  then show ?thesis using assms by (simp add: bit_assembled)
qed

lemma read_le64_append [simp]: "read_le64 (le64 v @ r) = v"
  by (rule bit_word_eqI) (simp add: bit_read_le64 nth_le64 bit_simps)

lemma read_le32_append [simp]: "read_le32 (le32 v @ r) = v"
  by (rule bit_word_eqI) (simp add: bit_read_le32 nth_le32 bit_simps)

lemma le64_read: "length p = 8 \<Longrightarrow> le64 (read_le64 p) = p"
proof (rule nth_equalityI)
  fix i assume "length p = 8" "i < length (le64 (read_le64 p))"
  then show "le64 (read_le64 p) ! i = p ! i"
    using nth_le64 [of i "read_le64 p" "[]"] by (intro bit_word_eqI) (simp add: bit_read_le64 bit_simps)
qed simp

lemma le32_read: "length p = 4 \<Longrightarrow> le32 (read_le32 p) = p"
proof (rule nth_equalityI)
  fix i assume "length p = 4" "i < length (le32 (read_le32 p))"
  then show "le32 (read_le32 p) ! i = p ! i"
    using nth_le32 [of i "read_le32 p" "[]"] by (intro bit_word_eqI) (simp add: bit_read_le32 bit_simps)
qed simp

lemma read_sle64_append [simp]: "in_i64 x \<Longrightarrow> read_sle64 (sle64 x @ r) = x"
  by (simp add: read_sle64_def append_sle64_def sint_word_of_int_i64)

lemma le32_inject [simp]: "(le32 v = le32 w) = (v = w)"
  using read_le32_append [of v "[]"] read_le32_append [of w "[]"] by metis

lemma le64_inject [simp]: "(le64 v = le64 w) = (v = w)"
  using read_le64_append [of v "[]"] read_le64_append [of w "[]"] by metis

section \<open>Bytes of strings\<close>

definition bytes_of_string :: "string \<Rightarrow> bytes" where
  "bytes_of_string s = map of_char s"

definition string_of_bytes :: "bytes \<Rightarrow> string" where
  "string_of_bytes bs = map (\<lambda>b. char_of (unat b)) bs"

lemma unat_of_char: "unat (of_char c :: u8) = (of_char c :: nat)"
proof -
  have "(of_char c :: u8) = of_nat (of_char c)" by (cases c) (simp add: of_char_def)
  moreover have "(of_char c :: nat) < 256" 
    by (metis mod_less_divisor of_char_mod_256 zero_less_numeral)
  ultimately show ?thesis by (simp add: unat_of_nat)
qed

lemma string_of_bytes_of_string [simp]: "string_of_bytes (bytes_of_string s) = s"
  by (simp add: string_of_bytes_def bytes_of_string_def unat_of_char comp_def)

lemma length_bytes_of_string [simp]: "length (bytes_of_string s) = length s"
  by (simp add: bytes_of_string_def)

section \<open>Reads with bounds\<close>

datatype 'a load = Fault | Reject | Loaded 'a

fun bind_load :: "'a load \<Rightarrow> ('a \<Rightarrow> 'b load) \<Rightarrow> 'b load" where
  "bind_load Fault f = Fault"
| "bind_load Reject f = Reject"
| "bind_load (Loaded x) f = f x"

definition rd32 :: "bytes \<Rightarrow> nat \<Rightarrow> u32 load" where
  "rd32 data pos = (if pos + 4 \<le> length data then Loaded (read_le32 (drop pos data)) else Fault)"

definition rd64 :: "bytes \<Rightarrow> nat \<Rightarrow> u64 load" where
  "rd64 data pos = (if pos + 8 \<le> length data then Loaded (read_le64 (drop pos data)) else Fault)"

definition rds64 :: "bytes \<Rightarrow> nat \<Rightarrow> int load" where
  "rds64 data pos = (if pos + 8 \<le> length data then Loaded (read_sle64 (drop pos data)) else Fault)"

definition rd_string :: "bytes \<Rightarrow> nat \<Rightarrow> nat \<Rightarrow> string load" where
  "rd_string data pos n =
     (if pos + n \<le> length data then Loaded (string_of_bytes (take n (drop pos data))) else Fault)"

lemma rd_in_bounds:
  "pos + 4 \<le> length data \<Longrightarrow> rd32 data pos = Loaded (read_le32 (drop pos data))"
  "pos + 8 \<le> length data \<Longrightarrow> rd64 data pos = Loaded (read_le64 (drop pos data))"
  "pos + 8 \<le> length data \<Longrightarrow> rds64 data pos = Loaded (read_sle64 (drop pos data))"
  "pos + n \<le> length data \<Longrightarrow> rd_string data pos n = Loaded (string_of_bytes (take n (drop pos data)))"
  by (simp_all add: rd32_def rd64_def rds64_def rd_string_def)

text \<open>Reading at a position where the field was appended.\<close>

lemma rd_field:
  "length a = pos \<Longrightarrow> rd32 (a @ le32 v @ r) pos = Loaded v"
  "length a = pos \<Longrightarrow> rd64 (a @ le64 w @ r) pos = Loaded w"
  "length a = pos \<Longrightarrow> in_i64 x \<Longrightarrow> rds64 (a @ sle64 x @ r) pos = Loaded x"
  "length a = pos \<Longrightarrow> length s = n \<Longrightarrow> rd_string (a @ bytes_of_string s @ r) pos n = Loaded s"
  by (auto simp: rd32_def rd64_def rds64_def rd_string_def)

section \<open>Zero-padded decimal numbers\<close>

definition pad_decimal :: "nat \<Rightarrow> nat \<Rightarrow> string" where
  "pad_decimal width n =
     replicate (width - length (digits_of n)) (CHR ''0'') @ digits_of n"

text \<open>The same digits, from the last one on.\<close>

fun fixed_digits :: "nat \<Rightarrow> nat \<Rightarrow> string" where
  "fixed_digits 0 n = []"
| "fixed_digits (Suc k) n = fixed_digits k (n div 10) @ [char_of (48 + n mod 10)]"

lemma length_fixed_digits [simp]: "length (fixed_digits k n) = k"
  by (induction k arbitrary: n) simp_all

lemma fixed_digits_zero: "fixed_digits k 0 = replicate k (CHR ''0'')"
proof (induction k)
  case (Suc k)
  have "char_of (48 :: nat) = CHR ''0''" by code_simp
  with Suc show ?case by (simp add: replicate_append_same)
qed simp

lemma digits_of_fixed: "n < 10 ^ k \<Longrightarrow> 0 < k \<Longrightarrow> fixed_digits k n = pad_decimal k n"
proof (induction k arbitrary: n)
  case (Suc k)
  show ?case
  proof (cases "n < 10")
    case True
    then show ?thesis
      by (simp add: pad_decimal_def digits_of.simps [of n] fixed_digits_zero)
  next
    case False
    have k: "0 < k" using False Suc.prems by (cases k) auto
    have "n div 10 < 10 ^ k" using Suc.prems by (simp add: less_mult_imp_div_less mult.commute)
    then show ?thesis
      using Suc.IH [of "n div 10"] k False by (simp add: pad_decimal_def digits_of.simps [of n])
  qed
qed simp

lemma snoc_less: "length xs = length ys \<Longrightarrow>
    (xs @ [a :: 'a :: linorder] < ys @ [b]) = (xs < ys \<or> xs = ys \<and> a < b)"
  by (induction xs ys rule: list_induct2) auto

lemma digit_less: "a < 10 \<Longrightarrow> b < 10 \<Longrightarrow> (char_of (48 + a) < char_of (48 + b)) = (a < (b :: nat))"
  by (simp add: less_char_def)

lemma digit_eq: "a < 10 \<Longrightarrow> b < 10 \<Longrightarrow> (char_of (48 + a) = char_of (48 + b)) = (a = (b :: nat))"
  by (simp add: char_of_eq_iff take_bit_eq_mod)

lemma fixed_digits_inject:
  "a < 10 ^ k \<Longrightarrow> b < 10 ^ k \<Longrightarrow> (fixed_digits k a = fixed_digits k b) = (a = b)"
proof (induction k arbitrary: a b)
  case (Suc k)
  have "a div 10 < 10 ^ k" "b div 10 < 10 ^ k"
    using Suc.prems by (simp_all add: less_mult_imp_div_less mult.commute)
  then have "(fixed_digits (Suc k) a = fixed_digits (Suc k) b) = (a div 10 = b div 10 \<and> a mod 10 = b mod 10)"
    using Suc.IH [of "a div 10" "b div 10"] digit_eq [of "a mod 10" "b mod 10"] by simp
  also have "\<dots> = (a = b)" by (metis div_mult_mod_eq)
  finally show ?case .
qed simp

lemma div_mod_less:
  "(a div 10 < b div 10 \<or> a div 10 = b div 10 \<and> a mod 10 < b mod 10) = (a < (b :: nat))"
proof -
  have "a = 10 * (a div 10) + a mod 10" "a mod 10 < 10" "b = 10 * (b div 10) + b mod 10" "b mod 10 < 10"
    by simp_all
  then show ?thesis by linarith
qed

lemma fixed_digits_less:
  "a < 10 ^ k \<Longrightarrow> b < 10 ^ k \<Longrightarrow> (fixed_digits k a < fixed_digits k b) = (a < b)"
proof (induction k arbitrary: a b)
  case (Suc k)
  have ab: "a div 10 < 10 ^ k" "b div 10 < 10 ^ k"
    using Suc.prems by (simp_all add: less_mult_imp_div_less mult.commute)
  have "(fixed_digits (Suc k) a < fixed_digits (Suc k) b) =
      (a div 10 < b div 10 \<or> a div 10 = b div 10 \<and> a mod 10 < b mod 10)"
    using Suc.IH [OF ab] fixed_digits_inject [OF ab] digit_less [of "a mod 10" "b mod 10"]
    by (simp add: snoc_less)
  also have "\<dots> = (a < b)" by (rule div_mod_less)
  finally show ?case .
qed simp

lemma pad_decimal_less:
  "a < 10 ^ k \<Longrightarrow> b < 10 ^ k \<Longrightarrow> 0 < k \<Longrightarrow> (pad_decimal k a < pad_decimal k b) = (a < b)"
  using fixed_digits_less digits_of_fixed by metis

lemma length_pad_decimal: "n < 10 ^ k \<Longrightarrow> 0 < k \<Longrightarrow> length (pad_decimal k n) = k"
  using digits_of_fixed length_fixed_digits by metis

lemma pad_decimal_inject:
  "a < 10 ^ k \<Longrightarrow> b < 10 ^ k \<Longrightarrow> 0 < k \<Longrightarrow> (pad_decimal k a = pad_decimal k b) = (a = b)"
  using fixed_digits_inject digits_of_fixed by metis

end
