(* ===== verification/Snapshot_Codec.thy ===== *)
theory Snapshot_Codec
  imports Byte_Codec
begin

text \<open>
  The byte codec of \<open>src/src/snapshot/codec.h\<close>. An \<open>Encoder\<close> method is the bytes it
  appends; a \<open>Decoder\<close> is the span it has left, and a method returns the value with the
  span after it or throws. The locale \<open>field_codec\<close> states what a pair of the two
  promises; from it come the round trips of sequences, written with a count before them. A
  field whose reader accepts nothing but what the writer writes is an \<open>exact_codec\<close>: reading
  is then the inverse of writing, for sequences too.
\<close>

section \<open>Encoder\<close>

definition put_u8 :: "u8 \<Rightarrow> bytes res" where
  "put_u8 v = Inr [v]"

definition put_u32 :: "u32 \<Rightarrow> bytes res" where
  "put_u32 v = Inr (map (\<lambda>i. ucast (drop_bit (8 * i) v)) [0..<4])"

definition put_u64 :: "u64 \<Rightarrow> bytes res" where
  "put_u64 v = Inr (map (\<lambda>i. ucast (drop_bit (8 * i) v)) [0..<8])"

definition put_i64 :: "int \<Rightarrow> bytes res" where
  "put_i64 v = put_u64 (word_of_int v)"

text \<open>Consecutive calls on one encoder; the first throw ends them.\<close>

fun put_all :: "bytes res list \<Rightarrow> bytes res" where
  "put_all [] = Inr []"
| "put_all (m # ms) = bind_res m (\<lambda>a. bind_res (put_all ms) (\<lambda>b. Inr (a @ b)))"

definition put_blob :: "bytes \<Rightarrow> bytes res" where
  "put_blob b =
     (if 2 ^ 32 - 1 < length b then Inl (RuntimeError ''encoded blob too large'')
      else put_all [put_u32 (of_nat (length b)), Inr b])"

text \<open>The comparison evaluates on binary numerals.\<close>

lemma put_blob_code [code]:
  "put_blob b =
     (if 4294967295 < int (length b) then Inl (RuntimeError ''encoded blob too large'')
      else put_all [put_u32 (of_nat (length b)), Inr b])"
proof -
  have "(2 ^ 32 - 1 < length b) = (4294967295 < int (length b))" by (simp add: zless_nat_eq_int_zless [symmetric])
  then show ?thesis by (simp only: put_blob_def)
qed

definition put_string :: "string \<Rightarrow> bytes res" where
  "put_string s = put_blob (bytes_of_string s)"

section \<open>Decoder\<close>

type_synonym 'a get = "bytes \<Rightarrow> ('a \<times> bytes) res"

definition need :: "nat \<Rightarrow> bytes \<Rightarrow> unit res" where
  "need n bs = require (n \<le> length bs) ''truncated serialized data''"

definition get_u8 :: "u8 get" where
  "get_u8 bs = bind_res (need 1 bs) (\<lambda>_. Inr (hd bs, tl bs))"

fun get_le :: "nat \<Rightarrow> nat list \<Rightarrow> 'w::len word \<Rightarrow> 'w word get" where
  "get_le w [] v bs = Inr (v, bs)"
| "get_le w (i # is) v bs =
     bind_res (get_u8 bs) (\<lambda>(b, r). get_le w is (v OR push_bit (w * i) (ucast b)) r)"

definition get_u32 :: "u32 get" where
  "get_u32 = get_le 8 [0..<4] 0"

definition get_u64 :: "u64 get" where
  "get_u64 = get_le 8 [0..<8] 0"

definition get_i64 :: "int get" where
  "get_i64 bs = bind_res (get_u64 bs) (\<lambda>(v, r). Inr (sint v, r))"

definition get_blob :: "bytes get" where
  "get_blob bs = bind_res (get_u32 bs) (\<lambda>(n, r).
     bind_res (need (unat n) r) (\<lambda>_. Inr (take (unat n) r, drop (unat n) r)))"

definition get_string :: "string get" where
  "get_string bs = bind_res (get_blob bs) (\<lambda>(b, r). Inr (string_of_bytes b, r))"

definition get_count :: "nat \<Rightarrow> u32 get" where
  "get_count minimum_bytes bs = bind_res (get_u32 bs) (\<lambda>(n, r).
     if length r div minimum_bytes < unat n then Inl (RuntimeError ''impossible serialized count'')
     else Inr (n, r))"

definition get_end :: "bytes \<Rightarrow> unit res" where
  "get_end bs = require (bs = []) ''trailing serialized data''"

text \<open>A loop that reads \<open>n\<close> elements and keeps each one.\<close>

fun get_many :: "'a get \<Rightarrow> nat \<Rightarrow> 'a list get" where
  "get_many g 0 bs = Inr ([], bs)"
| "get_many g (Suc n) bs = bind_res (g bs) (\<lambda>(x, r).
     bind_res (get_many g n r) (\<lambda>(xs, t). Inr (x # xs, t)))"

definition get_counted :: "nat \<Rightarrow> 'a get \<Rightarrow> 'a list get" where
  "get_counted minimum_bytes g bs = bind_res (get_count minimum_bytes bs) (\<lambda>(n, r). get_many g (unat n) r)"

definition put_counted :: "('a \<Rightarrow> bytes res) \<Rightarrow> 'a list \<Rightarrow> bytes res" where
  "put_counted p xs = put_all (put_u32 (of_nat (length xs)) # map p xs)"

text \<open>Two fields in a row.\<close>

definition put_pair :: "('a \<Rightarrow> bytes res) \<Rightarrow> ('b \<Rightarrow> bytes res) \<Rightarrow> 'a \<times> 'b \<Rightarrow> bytes res" where
  "put_pair p q x = put_all [p (fst x), q (snd x)]"

definition get_pair :: "'a get \<Rightarrow> 'b get \<Rightarrow> ('a \<times> 'b) get" where
  "get_pair g h bs = bind_res (g bs) (\<lambda>(a, r). bind_res (h r) (\<lambda>(b, t). Inr ((a, b), t)))"

section \<open>The fixed-width fields\<close>

lemma upt_4: "[0..<4] = [0, 1, 2, 3::nat]"
  by (simp add: upt_rec)

lemma put_u32_le32: "put_u32 v = Inr (le32 v)"
  by (simp add: put_u32_def append_le32_def upt_4)

lemma put_u64_le64: "put_u64 v = Inr (le64 v)"
  by (simp add: put_u64_def append_le64_def upt_8 mult.commute)

lemma get_u8_Cons [simp]: "get_u8 (b # r) = Inr (b, r)"
  by (simp add: get_u8_def need_def require_def)

lemma get_u8_Nil: "get_u8 [] = Inl (RuntimeError ''truncated serialized data'')"
  by (simp add: get_u8_def need_def require_def)

lemma get_u32_append: "get_u32 (le32 v @ r) = Inr (v, r)"
proof -
  have "get_u32 (le32 v @ r) = Inr (read_le32 (le32 v @ r), r)"
    by (simp add: get_u32_def upt_4 append_le32_def read_le32_def or.assoc)
  then show ?thesis by simp
qed

lemma get_u64_append: "get_u64 (le64 v @ r) = Inr (v, r)"
proof -
  have "get_u64 (le64 v @ r) = Inr (read_le64 (le64 v @ r), r)"
    by (simp add: get_u64_def upt_8 append_le64_def read_le64_def or.assoc mult.commute)
  then show ?thesis by simp
qed

text \<open>Conversely, what a fixed-width read took is the encoding of the value.\<close>

lemma get_u8_Inr: "get_u8 bs = Inr (b, r) \<longleftrightarrow> bs = b # r"
  by (cases bs) (auto simp: get_u8_Nil)

lemma get_le_length: "get_le w is v bs = Inr (x, r) \<Longrightarrow> \<exists>p. length p = length is \<and> bs = p @ r"
proof (induction w "is" v bs rule: get_le.induct)
  case (2 w i "is" v bs)
  then obtain b t where b: "get_u8 bs = Inr (b, t)" "get_le w is (v OR push_bit (w * i) (ucast b)) t = Inr (x, r)" by auto
  then obtain p where "length p = length is" "t = p @ r" using "2.IH" by blast
  then show ?case using b(1) by (intro exI [of _ "b # p"]) (simp add: get_u8_Inr)
qed simp

lemma get_u32_le32: "get_u32 bs = Inr (v, r) \<Longrightarrow> bs = le32 v @ r"
proof -
  assume g: "get_u32 bs = Inr (v, r)"
  then obtain p where p: "length p = 4" "bs = p @ r" using get_le_length unfolding get_u32_def by fastforce
  then have "bs = le32 (read_le32 p) @ r" by (simp add: le32_read)
  with g show ?thesis by (simp add: get_u32_append)
qed

lemma get_u64_le64: "get_u64 bs = Inr (v, r) \<Longrightarrow> bs = le64 v @ r"
proof -
  assume g: "get_u64 bs = Inr (v, r)"
  then obtain p where p: "length p = 8" "bs = p @ r" using get_le_length unfolding get_u64_def by fastforce
  then have "bs = le64 (read_le64 p) @ r" by (simp add: le64_read)
  with g show ?thesis by (simp add: get_u64_append)
qed

lemma put_all_append: "put_all (xs @ ys) = bind_res (put_all xs) (\<lambda>a. bind_res (put_all ys) (\<lambda>b. Inr (a @ b)))"
proof (induction xs)
  case (Cons x xs)
  then show ?case by (cases x; cases "put_all xs"; cases "put_all ys") auto
qed simp

section \<open>The promise of a field\<close>

locale field_codec =
  fixes put :: "'a \<Rightarrow> bytes res"
    and get :: "bytes \<Rightarrow> ('a \<times> bytes) res"
    and ok :: "'a \<Rightarrow> bool"
    and least :: nat
  assumes put_get: "put x = Inr b \<Longrightarrow> ok x \<Longrightarrow> get (b @ r) = Inr (x, r)"
    and put_least: "put x = Inr b \<Longrightarrow> least \<le> length b"
begin

lemma many_length: "put_all (map put xs) = Inr b \<Longrightarrow> least * length xs \<le> length b"
proof (induction xs arbitrary: b)
  case (Cons x xs)
  then obtain a c where "put x = Inr a" "put_all (map put xs) = Inr c" "b = a @ c" by auto
  with Cons.IH [of c] put_least [of x a] show ?case by simp
qed simp

lemma many_round: "put_all (map put xs) = Inr b \<Longrightarrow> list_all ok xs \<Longrightarrow> get_many get (length xs) (b @ r) = Inr (xs, r)"
proof (induction xs arbitrary: b)
  case (Cons x xs)
  then obtain a c where "put x = Inr a" "put_all (map put xs) = Inr c" "b = a @ c" by auto
  with Cons show ?case by (simp add: put_get)
qed simp

lemma counted_round:
  assumes "put_counted put xs = Inr b" "list_all ok xs" "length xs < 2 ^ 32" "0 < least"
  shows "get_counted least get (b @ r) = Inr (xs, r)"
proof -
  obtain c where c: "put_all (map put xs) = Inr c" "b = le32 (of_nat (length xs)) @ c"
    using assms(1) by (auto simp: put_counted_def put_u32_le32)
  have n: "unat (of_nat (length xs) :: u32) = length xs"
    using assms(3) by (simp add: unat_of_nat take_bit_nat_eq_self)
  have "length xs \<le> length c div least"
    using many_length [OF c(1)] assms(4) by (simp add: less_eq_div_iff_mult_less_eq mult.commute)
  also have "\<dots> \<le> length (c @ r) div least" by (simp add: div_le_mono)
  finally have "\<not> length (c @ r) div least < length xs" by simp
  then show ?thesis
    using c many_round [OF c(1) assms(2)] n
    by (simp add: get_counted_def get_count_def get_u32_append)
qed

lemma counted_least: "put_counted put xs = Inr b \<Longrightarrow> 4 \<le> length b"
  by (auto simp: put_counted_def put_u32_le32)

end

locale two_fields = a: field_codec put1 get1 ok1 least1 + b: field_codec put2 get2 ok2 least2
  for put1 :: "'a \<Rightarrow> bytes res" and get1 :: "bytes \<Rightarrow> ('a \<times> bytes) res" and ok1 :: "'a \<Rightarrow> bool" and least1 :: nat
    and put2 :: "'b \<Rightarrow> bytes res" and get2 :: "bytes \<Rightarrow> ('b \<times> bytes) res" and ok2 :: "'b \<Rightarrow> bool" and least2 :: nat
begin

lemma pair_round:
  "put_pair put1 put2 x = Inr c \<Longrightarrow> ok1 (fst x) \<and> ok2 (snd x) \<Longrightarrow> get_pair get1 get2 (c @ r) = Inr (x, r)"
  by (auto simp: put_pair_def get_pair_def a.put_get b.put_get)

lemma pair_least: "put_pair put1 put2 x = Inr c \<Longrightarrow> least1 + least2 \<le> length c"
  using a.put_least b.put_least by (auto simp: put_pair_def add_le_mono)

end

sublocale two_fields \<subseteq> pair: field_codec "put_pair put1 put2" "get_pair get1 get2"
    "\<lambda>x. ok1 (fst x) \<and> ok2 (snd x)" "least1 + least2"
  by unfold_locales (auto intro: pair_round pair_least)

interpretation u8: field_codec put_u8 get_u8 "\<lambda>_. True" 1
  by unfold_locales (auto simp: put_u8_def)

interpretation u32: field_codec put_u32 get_u32 "\<lambda>_. True" 4
  by unfold_locales (auto simp: put_u32_le32 get_u32_append)

interpretation u64: field_codec put_u64 get_u64 "\<lambda>_. True" 8
  by unfold_locales (auto simp: put_u64_le64 get_u64_append)

interpretation i64: field_codec put_i64 get_i64 in_i64 8
  by unfold_locales (auto simp: put_i64_def get_i64_def put_u64_le64 get_u64_append sint_word_of_int_i64)

lemma put_blob_Inr:
  "(put_blob b = Inr c) = (length b < 2 ^ 32 \<and> c = le32 (of_nat (length b)) @ b)"
  by (auto simp: put_blob_def put_u32_le32)

lemma blob_round: "put_blob b = Inr c \<Longrightarrow> get_blob (c @ r) = Inr (b, r)"
proof -
  assume c: "put_blob b = Inr c"
  then have "unat (of_nat (length b) :: u32) = length b"
    by (simp add: put_blob_Inr unat_of_nat take_bit_nat_eq_self)
  with c show ?thesis
    by (simp add: put_blob_Inr get_blob_def get_u32_append need_def require_def)
qed

interpretation blob: field_codec put_blob get_blob "\<lambda>_. True" 4
  by unfold_locales (simp add: blob_round, auto simp: put_blob_Inr)

interpretation str: field_codec put_string get_string "\<lambda>_. True" 4
  by unfold_locales (simp add: put_string_def get_string_def blob_round, auto simp: put_string_def put_blob_Inr)

section \<open>Fields read only as they are written\<close>

locale exact_codec = field_codec +
  assumes get_put: "get bs = Inr (x, r) \<Longrightarrow> ok x \<and> (\<exists>b. put x = Inr b \<and> bs = b @ r)"
begin

lemma get_iff: "get bs = Inr (x, r) \<longleftrightarrow> ok x \<and> (\<exists>b. put x = Inr b \<and> bs = b @ r)"
  using get_put put_get by blast

lemma many_iff: "get_many get n bs = Inr (xs, r) \<longleftrightarrow>
    length xs = n \<and> list_all ok xs \<and> (\<exists>b. put_all (map put xs) = Inr b \<and> bs = b @ r)"
proof (induction n arbitrary: bs xs)
  case (Suc n)
  show ?case by (cases xs) (auto simp: Suc get_iff)
qed auto

lemma counted_iff:
  assumes "0 < least"
  shows "get_counted least get bs = Inr (xs, r) \<longleftrightarrow>
    length xs < 2 ^ 32 \<and> list_all ok xs \<and> (\<exists>b. put_counted put xs = Inr b \<and> bs = b @ r)"
proof
  assume "get_counted least get bs = Inr (xs, r)"
  then obtain n t where n: "get_u32 bs = Inr (n, t)" "get_many get (unat n) t = Inr (xs, r)"
    by (auto simp: get_counted_def get_count_def split: if_splits)
  from get_u32_le32 [OF n(1)] n(2) have "bs = le32 n @ t" "unat n = length xs" by (auto simp: many_iff)
  moreover from this(2) [symmetric] have "n = of_nat (length xs)" by simp
  ultimately show "length xs < 2 ^ 32 \<and> list_all ok xs \<and> (\<exists>b. put_counted put xs = Inr b \<and> bs = b @ r)"
    using n(2) unsigned_less [of n, where 'a = nat] by (auto simp: many_iff put_counted_def put_u32_le32)
next
  assume "length xs < 2 ^ 32 \<and> list_all ok xs \<and> (\<exists>b. put_counted put xs = Inr b \<and> bs = b @ r)"
  then show "get_counted least get bs = Inr (xs, r)" using counted_round assms by blast
qed

end

lemma blob_exact: "get_blob bs = Inr (b, r) \<Longrightarrow> \<exists>c. put_blob b = Inr c \<and> bs = c @ r"
proof -
  assume "get_blob bs = Inr (b, r)"
  then obtain n t where n: "get_u32 bs = Inr (n, t)" "unat n \<le> length t" "b = take (unat n) t" "r = drop (unat n) t"
    by (auto simp: get_blob_def need_def)
  then have "length b = unat n" by simp
  then have "put_blob b = Inr (le32 n @ b)" using unsigned_less [of n, where 'a = nat] by (simp add: put_blob_Inr)
  then show ?thesis using get_u32_le32 [OF n(1)] n(3,4) by simp
qed

interpretation u32: exact_codec put_u32 get_u32 "\<lambda>_. True" 4
  by unfold_locales (simp add: put_u32_le32 get_u32_le32)

interpretation u64: exact_codec put_u64 get_u64 "\<lambda>_. True" 8
  by unfold_locales (simp add: put_u64_le64 get_u64_le64)

interpretation blob: exact_codec put_blob get_blob "\<lambda>_. True" 4
  by unfold_locales (simp add: blob_exact)

lemma get_many_length: "get_many g n bs = Inr (xs, r) \<Longrightarrow> length xs = n"
  by (induction n arbitrary: bs xs) auto

end
