(* ===== verification/Crc32c.thy ===== *)
theory Crc32c
  imports Prelude
begin

text \<open>
  CRC-32C (\<open>src/src/checkpoint/crc32c.cpp\<close>): the table built at compile time and the
  table-driven loop. The loop is shown equal to the bitwise definition, and the register
  update is shown injective, which is what makes the trailer of a checkpoint detect a
  corrupted file: equal-length inputs that differ only within four consecutive bytes never
  have the same checksum.
\<close>

section \<open>Table and loop\<close>

definition kCrc32cPoly :: u32 where
  "kCrc32cPoly = 0x82F63B78"

text \<open>The body of the inner loop of \<open>BuildTable\<close>.\<close>

definition crc_bit :: "u32 \<Rightarrow> u32" where
  "crc_bit crc = (if crc AND 1 \<noteq> 0 then drop_bit 1 crc XOR kCrc32cPoly else drop_bit 1 crc)"

definition build_table :: "u32 list" where
  "build_table = map (\<lambda>i. (crc_bit ^^ 8) (of_nat i)) [0..<256]"

definition crc_step :: "u32 \<Rightarrow> u8 \<Rightarrow> u32" where
  "crc_step crc b = build_table ! unat ((crc XOR ucast b) AND 0xFF) XOR drop_bit 8 crc"

definition crc32c :: "bytes \<Rightarrow> u32 \<Rightarrow> u32" where
  "crc32c data initial = NOT (foldl crc_step (NOT initial) data)"

section \<open>The bitwise register\<close>

lemma crc_bit_0 [simp]: "crc_bit 0 = 0"
  by (simp add: crc_bit_def)

lemma and_1_bit: "(x AND 1 \<noteq> 0) = bit (x :: u32) 0"
  by (simp add: and_one_eq odd_iff_mod_2_eq_one bit_0)

lemma crc_bit_alt: "crc_bit x = drop_bit 1 x XOR (if bit x 0 then kCrc32cPoly else 0)"
  by (simp add: crc_bit_def and_1_bit)

lemma crc_bit_xor: "crc_bit (a XOR b) = crc_bit a XOR crc_bit b"
  by (auto simp: crc_bit_alt bit_simps intro!: bit_word_eqI)

lemma crc_bits_0 [simp]: "(crc_bit ^^ n) 0 = 0"
  by (induction n) simp_all

lemma crc_bits_xor: "(crc_bit ^^ n) (a XOR b) = (crc_bit ^^ n) a XOR (crc_bit ^^ n) b"
  by (induction n) (simp_all add: crc_bit_xor)

lemma poly_top: "bit kCrc32cPoly 31"
  by code_simp

lemma crc_bit_top: "bit (crc_bit x) 31 = bit x 0"
  using poly_top by (auto simp: crc_bit_alt bit_simps dest: bit_imp_le_length)

lemma crc_bit_zero_iff: "crc_bit x = 0 \<longleftrightarrow> x = 0"
proof
  assume z: "crc_bit x = 0"
  then have b0: "\<not> bit x 0" using crc_bit_top [of x] by simp
  with z have d: "drop_bit 1 x = 0" by (simp add: crc_bit_alt)
  show "x = 0"
  proof (rule bit_word_eqI)
    fix n assume "n < LENGTH(32)"
    show "bit x n = bit 0 n"
    proof (cases n)
      case (Suc m)
      have "bit (drop_bit 1 x) m = bit x (Suc m)" by (simp add: bit_drop_bit_eq)
      with d Suc show ?thesis by simp
    qed (use b0 in simp)
  qed
qed simp

lemma xor_cancel_left: "(c XOR a = c XOR b) = (a = (b :: u32))"
proof
  assume "c XOR a = c XOR b"
  then have "c XOR (c XOR a) = c XOR (c XOR b)" by simp
  then show "a = b" by (simp add: xor.assoc [symmetric])
qed simp

lemma xor_cancel_right: "(a XOR c = b XOR c) = (a = (b :: u32))"
  using xor_cancel_left [of c a b] by (simp add: xor.commute)

lemma xor_eq_0: "(a XOR b = (0 :: u32)) = (a = b)"
  using xor_cancel_right [of a b b] by simp

lemma crc_bits_inject: "((crc_bit ^^ n) a = (crc_bit ^^ n) b) = (a = b)"
proof -
  have "((crc_bit ^^ n) x = 0) = (x = 0)" for x
    by (induction n) (simp_all add: crc_bit_zero_iff)
  then show ?thesis by (metis crc_bits_xor xor_eq_0)
qed

text \<open>Shifting in zeros undoes the register.\<close>

lemma crc_bit_push: "\<not> bit x 31 \<Longrightarrow> crc_bit (push_bit 1 x) = x"
proof (rule bit_word_eqI)
  fix n assume x: "\<not> bit x 31" and n: "n < LENGTH(32)"
  then show "bit (crc_bit (push_bit 1 x)) n = bit x n"
    by (cases "n = 31")
       (auto simp: crc_bit_alt bit_simps simp del: push_bit_of_1 push_bit_Suc push_bit_eq_mult
         dest: bit_imp_le_length)
qed

lemma crc_bits_push: "(\<And>i. 32 - n \<le> i \<Longrightarrow> \<not> bit x i) \<Longrightarrow> n \<le> 32 \<Longrightarrow> (crc_bit ^^ n) (push_bit n x) = x"
proof (induction n arbitrary: x)
  case (Suc n)
  have "crc_bit (push_bit (Suc n) x) = push_bit n x"
    using crc_bit_push [of "push_bit n x"] Suc.prems by (simp add: push_bit_push_bit bit_simps)
  moreover have "(crc_bit ^^ n) (push_bit n x) = x" using Suc by simp
  ultimately show ?case by (simp only: funpow_Suc_right o_apply)
qed simp

section \<open>The table-driven step is eight bitwise steps\<close>

lemma build_table_nth: "unat x < 256 \<Longrightarrow> build_table ! unat x = (crc_bit ^^ 8) x"
  by (simp add: build_table_def del: upt_conv_Cons_Cons)

lemma ff_mask: "(0xFF :: u32) = mask 8"
  by (simp add: mask_eq_exp_minus_1)

lemma split_low_byte: "x = (x AND 0xFF) XOR push_bit 8 (drop_bit 8 (x :: u32))"
proof (rule bit_word_eqI)
  fix n assume "n < LENGTH(32)"
  then show "bit x n = bit ((x AND 0xFF) XOR push_bit 8 (drop_bit 8 x)) n"
    unfolding ff_mask by (auto simp: bit_simps)
qed

lemma low_byte_less: "unat ((x :: u32) AND 0xFF) < 256"
proof -
  have "unat (x AND 0xFF) = unat x mod 256"
    unfolding ff_mask take_bit_eq_mask [symmetric] by (simp add: take_bit_eq_mod unat_mod_distrib)
  then show ?thesis by simp
qed

lemma drop_ucast_byte: "drop_bit 8 (ucast (b :: u8) :: u32) = 0"
  by (rule bit_word_eqI) (auto simp: bit_simps dest: bit_imp_le_length)

lemma crc_step_bitwise: "crc_step crc b = (crc_bit ^^ 8) (crc XOR ucast b)"
proof -
  let ?x = "crc XOR ucast b"
  have "drop_bit 8 ?x = drop_bit 8 crc" by (simp add: drop_bit_xor drop_ucast_byte)
  moreover have "(crc_bit ^^ 8) (push_bit 8 (drop_bit 8 ?x)) = drop_bit 8 ?x"
    by (rule crc_bits_push) (auto simp: bit_simps dest: bit_imp_le_length)
  ultimately have "crc_step crc b = (crc_bit ^^ 8) (?x AND 0xFF) XOR (crc_bit ^^ 8) (push_bit 8 (drop_bit 8 ?x))"
    by (simp add: crc_step_def build_table_nth low_byte_less)
  also have "\<dots> = (crc_bit ^^ 8) ?x"
    using split_low_byte [of ?x] crc_bits_xor [of 8] by metis
  finally show ?thesis .
qed

lemma crc_step_inject: "(crc_step c b = crc_step c' b) = (c = c')"
  by (simp only: crc_step_bitwise crc_bits_inject xor_cancel_right)

lemma crc_fold_inject: "(foldl crc_step c bs = foldl crc_step c' bs) = (c = c')"
  by (induction bs arbitrary: c c') (simp_all add: crc_step_inject)

section \<open>Bursts\<close>

text \<open>
  The bytes are shifted into the register from below, so four of them reach it as one
  little-endian word.
\<close>

fun le_word :: "bytes \<Rightarrow> u32" where
  "le_word [] = 0"
| "le_word (b # bs) = ucast b XOR push_bit 8 (le_word bs)"

lemma bit_le_word: "bit (le_word bs) n = (n < 32 \<and> n div 8 < length bs \<and> bit (bs ! (n div 8)) (n mod 8))"
proof (induction bs arbitrary: n)
  case (Cons b bs)
  show ?case
  proof (cases "n < 8")
    case True
    then show ?thesis by (auto simp: bit_simps)
  next
    case False
    then obtain m where m: "n = m + 8" by (metis add.commute le_Suc_ex not_less)
    have "\<not> bit b n" using False by (auto dest: bit_imp_le_length)
    moreover have "n div 8 = Suc (m div 8)" "n mod 8 = m mod 8" using m by auto
    ultimately show ?thesis using Cons.IH [of m] m by (auto simp: bit_simps)
  qed
qed simp

lemma crc_fold_word:
  "length bs \<le> 4 \<Longrightarrow> foldl crc_step c bs = (crc_bit ^^ (8 * length bs)) (c XOR le_word bs)"
proof (induction bs arbitrary: c)
  case (Cons b bs)
  have push: "(crc_bit ^^ 8) (push_bit 8 (le_word bs)) = le_word bs"
    using Cons.prems by (intro crc_bits_push) (auto simp: bit_le_word)
  have "foldl crc_step c (b # bs) =
      (crc_bit ^^ (8 * length bs)) ((crc_bit ^^ 8) (c XOR ucast b) XOR le_word bs)"
    using Cons.prems Cons.IH [of "crc_step c b"] by (simp add: crc_step_bitwise [of c b] del: funpow.simps)
  also have "(crc_bit ^^ 8) (c XOR ucast b) XOR le_word bs = (crc_bit ^^ 8) (c XOR le_word (b # bs))"
    by (simp add: crc_bits_xor push xor.assoc del: funpow.simps)
  finally show ?case
    by (simp add: funpow_add [unfolded fun_eq_iff o_apply, rule_format, symmetric]
        add.commute del: funpow.simps)
qed simp

lemma le_word_inject:
  assumes "length bs = length bs'" "length bs \<le> 4" "le_word bs = le_word bs'"
  shows "bs = bs'"
proof (rule nth_equalityI [OF assms(1)])
  fix i assume i: "i < length bs"
  show "bs ! i = bs' ! i"
  proof (rule bit_word_eqI)
    fix j assume "j < LENGTH(8)"
    then have d: "(8 * i + j) div 8 = i" "(8 * i + j) mod 8 = j" by auto
    have "8 * i + j < 32" using i assms(2) \<open>j < LENGTH(8)\<close> by simp
    then show "bit (bs ! i) j = bit (bs' ! i) j"
      using arg_cong [OF assms(3), of "\<lambda>w. bit w (8 * i + j)"] i assms(1) d by (simp add: bit_le_word)
  qed
qed

lemma crc_burst:
  assumes "length m = length m'" "length m \<le> 4" "m \<noteq> m'"
  shows "foldl crc_step c (p @ m @ s) \<noteq> foldl crc_step c (p @ m' @ s)"
proof
  assume "foldl crc_step c (p @ m @ s) = foldl crc_step c (p @ m' @ s)"
  then have "foldl crc_step (foldl crc_step c p) m = foldl crc_step (foldl crc_step c p) m'"
    by (simp add: crc_fold_inject)
  then have "foldl crc_step c p XOR le_word m = foldl crc_step c p XOR le_word m'"
    using assms(1,2) crc_fold_word by (simp add: crc_bits_inject)
  then have "le_word m = le_word m'" by (simp only: xor_cancel_left)
  then show False using le_word_inject assms by blast
qed

lemma crc32c_burst:
  "length m = length m' \<Longrightarrow> length m \<le> 4 \<Longrightarrow> m \<noteq> m' \<Longrightarrow>
   crc32c (p @ m @ s) i \<noteq> crc32c (p @ m' @ s) i"
  using crc_burst [of m m' "NOT i" p s] by (auto simp: crc32c_def)

section \<open>Properties\<close>

text \<open>
  C35. The table-driven checksum is the bitwise CRC-32C: shifting the register one bit at a time
  through the reflected polynomial, for every input and initial value.
\<close>

theorem crc_table_is_bitwise:
  "crc32c data initial =
     NOT (foldl (\<lambda>crc b. (crc_bit ^^ 8) (crc XOR ucast b)) (NOT initial) data)"
  unfolding crc32c_def by (simp add: crc_step_bitwise [abs_def])

text \<open>
  Replacing up to four consecutive bytes of any data by different ones always changes its
  checksum.
\<close>

theorem crc_detects_bursts:
  assumes "length m = length m'" "length m \<le> 4" "m \<noteq> m'"
  shows "crc32c (p @ m @ s) initial \<noteq> crc32c (p @ m' @ s) initial"
  using assms by (rule crc32c_burst)

theorem crc_detects_bursts_witness:
  "crc32c ([1] @ [2, 3] @ [4]) 0 \<noteq> crc32c ([1] @ [2, 7] @ [4]) 0"
  by (rule crc_detects_bursts) simp_all

end
