(* ===== verification/Tcp_Transport.thy ===== *)
theory Tcp_Transport
  imports Snapshot_Codec Snapshot_Protocol Crc32c
begin

text \<open>
  The framing and the queues of \<open>src/src/snapshot/tcp_transport.cpp\<close>: a message as a
  length-prefixed frame with a checksum, the bounded output queue of a channel, the
  loop that writes queued frames in pieces, and the loop that cuts received bytes into
  frames. What the system calls return is a parameter (\<open>send_outcome\<close>, \<open>recv_outcome\<close>):
  a send may take any part of what it is offered, a receive any part of what is on the
  wire. Descriptors and their setup are not modelled.
\<close>

section \<open>Frames\<close>

definition kMaxFrame :: nat where
  "kMaxFrame = 1024 * 1024"

definition kind_byte :: "message_kind \<Rightarrow> u8" where
  "kind_byte k = (case k of KindData \<Rightarrow> 1 | KindMarker \<Rightarrow> 2 | KindOther b \<Rightarrow> b)"

definition kind_of_byte :: "u8 \<Rightarrow> message_kind" where
  "kind_of_byte b = (if b = 1 then KindData else if b = 2 then KindMarker else KindOther b)"

definition encode_message :: "message \<Rightarrow> bytes res" where
  "encode_message m =
     bind_res (put_all [put_u32 0x53474331, put_u8 (kind_byte (ms_kind m)), put_u64 (ms_sequence m),
                        put_u64 (ms_epoch m), put_blob (ms_payload m)]) (\<lambda>body.
     bind_res (require (\<not> kMaxFrame < length body + 4) ''TCP frame exceeds limit'') (\<lambda>_.
     bind_res (put_all [Inr body, put_u32 (crc32c body 0)]) (\<lambda>sealed.
     put_all [put_u32 (of_nat (length sealed)), Inr sealed])))"

definition decode_message :: "bytes \<Rightarrow> message res" where
  "decode_message frame =
     bind_res (require (\<not> length frame < 4) ''short TCP frame'') (\<lambda>_.
     bind_res (get_u32 (drop (length frame - 4) frame)) (\<lambda>(crc, _).
     bind_res (require (crc32c (take (length frame - 4) frame) 0 = crc) ''TCP frame CRC mismatch'') (\<lambda>_.
     bind_res (get_u32 (take (length frame - 4) frame)) (\<lambda>(magic, d1).
     bind_res (require (magic = 0x53474331) ''TCP protocol version mismatch'') (\<lambda>_.
     bind_res (get_u8 d1) (\<lambda>(kind, d2).
     bind_res (get_u64 d2) (\<lambda>(sequence, d3).
     bind_res (get_u64 d3) (\<lambda>(epoch, d4).
     bind_res (get_blob d4) (\<lambda>(payload, d5).
     bind_res (get_end d5) (\<lambda>_.
     bind_res (require (kind_of_byte kind = KindData \<or> kind_of_byte kind = KindMarker) ''invalid TCP message kind'') (\<lambda>_.
     Inr \<lparr>ms_kind = kind_of_byte kind, ms_sequence = sequence, ms_epoch = epoch,
          ms_payload = payload\<rparr>)))))))))))"

section \<open>Channels\<close>

record tcp_channel =
  tc_input :: bytes
  tc_output :: "bytes list"
  tc_front_offset :: nat
  tc_queued_bytes :: nat

record tcp_transport =
  tt_channels :: "(node_id \<times> tcp_channel) list"
  tt_queue_limit :: nat
  tt_failed :: bool

definition new_channel :: tcp_channel where
  "new_channel = \<lparr>tc_input = [], tc_output = [], tc_front_offset = 0, tc_queued_bytes = 0\<rparr>"

text \<open>The constructor: descriptors are distinct and valid, and all can be made non-blocking.\<close>

definition new_transport :: "(node_id \<times> int) list \<Rightarrow> nat \<Rightarrow> bool \<Rightarrow> tcp_transport res" where
  "new_transport sockets limit nonblocking_ok =
     bind_res (if limit = 0 then Inl (InvalidArgument ''zero TCP queue limit'') else Inr ()) (\<lambda>_.
     bind_res (fold_res (\<lambda>(peer, fd) (channels, adopted).
         if fd < 0 \<or> map_of channels peer \<noteq> None \<or> fd \<in> set adopted
         then Inl (InvalidArgument ''invalid/duplicate TCP peer'')
         else Inr (om_set peer new_channel channels, us_insert fd adopted)) sockets ([], [])) (\<lambda>(channels, _).
     if nonblocking_ok \<or> channels = []
     then Inr \<lparr>tt_channels = channels, tt_queue_limit = limit, tt_failed = False\<rparr>
     else Inl (SystemError ''nonblocking socket'')))"

definition push_frame :: "nat \<Rightarrow> bytes \<Rightarrow> tcp_channel \<Rightarrow> tcp_channel res" where
  "push_frame limit frame c =
     bind_res (require (\<not> limit - tc_queued_bytes c < length frame) ''TCP output queue limit exceeded'') (\<lambda>_.
     Inr (c\<lparr>tc_queued_bytes := tc_queued_bytes c + length frame, tc_output := tc_output c @ [frame]\<rparr>))"

definition queue_message :: "node_id \<Rightarrow> message \<Rightarrow> tcp_transport \<Rightarrow> unit res \<times> tcp_transport" where
  "queue_message peer m t =
     (if tt_failed t then (Inl (RuntimeError ''TCP transport failed''), t)
      else case bind_res (encode_message m) (\<lambda>frame. bind_res (at_key (tt_channels t) peer)
                  (push_frame (tt_queue_limit t) frame)) of
        Inl x \<Rightarrow> (Inl x, t\<lparr>tt_failed := True\<rparr>)
      | Inr c \<Rightarrow> (Inr (), t\<lparr>tt_channels := om_set peer c (tt_channels t)\<rparr>))"

definition transport_drained :: "tcp_transport \<Rightarrow> bool" where
  "transport_drained t = list_all (\<lambda>(_, c). tc_output c = []) (tt_channels t)"

section \<open>Writing\<close>

datatype send_outcome = SendInterrupted | SendWouldBlock | SendError | Sent nat

definition kSendBudget :: nat where
  "kSendBudget = 256 * 1024"

text \<open>
  The loop over the output queue; the first component is what reached the wire. A \<open>Sent\<close>
  outcome is cut to what was offered, as the system call guarantees. The list of
  outcomes bounds the loop; when it ends, so does the model of the loop.
\<close>

fun send_loop :: "send_outcome list \<Rightarrow> nat \<Rightarrow> tcp_channel \<Rightarrow> unit res \<times> bytes \<times> tcp_channel" where
  "send_loop [] budget c = (Inr (), [], c)"
| "send_loop (r # rs) budget c =
     (case tc_output c of
        [] \<Rightarrow> (Inr (), [], c)
      | front # rest \<Rightarrow>
          if budget = 0 then (Inr (), [], c)
          else (case r of
              SendInterrupted \<Rightarrow> send_loop rs budget c
            | SendWouldBlock \<Rightarrow> (Inr (), [], c)
            | SendError \<Rightarrow> (Inl (SystemError ''send''), [], c)
            | Sent k \<Rightarrow>
                let offered = min budget (length front - tc_front_offset c);
                    n = min k offered
                in if n = 0 then (Inl (RuntimeError ''zero TCP send''), [], c)
                   else
                     let c' = c\<lparr>tc_front_offset := tc_front_offset c + n,
                               tc_queued_bytes := tc_queued_bytes c - n\<rparr>;
                         c'' = (if tc_front_offset c' = length front
                                then c'\<lparr>tc_output := rest, tc_front_offset := 0\<rparr> else c')
                     in (case send_loop rs (budget - n) c'' of
                           (x, w, d) \<Rightarrow> (x, take n (drop (tc_front_offset c) front) @ w, d))))"

section \<open>Reading\<close>

datatype recv_outcome = RecvInterrupted | RecvWouldBlock | RecvError | Received bytes

function input_loop :: "(message \<Rightarrow> 'e \<Rightarrow> unit res \<times> 'e) \<Rightarrow> bytes \<Rightarrow> 'e \<Rightarrow> unit res \<times> bytes \<times> 'e" where
  "input_loop f input e =
     (if length input < 4 then (Inr (), input, e)
      else case get_u32 (take 4 input) of
        Inl x \<Rightarrow> (Inl x, input, e)
      | Inr (n, _) \<Rightarrow>
          if unat n < 29 \<or> kMaxFrame < unat n
          then (Inl (RuntimeError ''invalid TCP frame length''), input, e)
          else if length input < unat n + 4 then (Inr (), input, e)
          else (case decode_message (take (unat n) (drop 4 input)) of
              Inl x \<Rightarrow> (Inl x, input, e)
            | Inr m \<Rightarrow>
                (case f m e of
                   (Inl x, e') \<Rightarrow> (Inl x, drop (4 + unat n) input, e')
                 | (Inr _, e') \<Rightarrow> input_loop f (drop (4 + unat n) input) e')))"
  by pat_completeness auto

termination input_loop
  by (relation "measure (\<lambda>(_, input, _). length input)") auto

declare input_loop.simps [simp del]

definition recv_step :: "(message \<Rightarrow> 'e \<Rightarrow> unit res \<times> 'e) \<Rightarrow> recv_outcome \<Rightarrow> tcp_channel \<times> 'e
    \<Rightarrow> unit res \<times> tcp_channel \<times> 'e" where
  "recv_step f r s = (case s of (c, e) \<Rightarrow>
     (case r of
        RecvInterrupted \<Rightarrow> (Inr (), c, e)
      | RecvWouldBlock \<Rightarrow> (Inr (), c, e)
      | RecvError \<Rightarrow> (Inl (SystemError ''recv''), c, e)
      | Received bs \<Rightarrow>
          if bs = [] then (Inl (RuntimeError ''TCP peer disconnected; snapshot epoch cannot exclude it''), c, e)
          else (case input_loop f (tc_input c @ bs) e of
                  (x, input, e') \<Rightarrow> (x, c\<lparr>tc_input := input\<rparr>, e'))))"

text \<open>One channel's turn in \<open>PollOnce\<close>: the events \<open>poll\<close> reported for it and what the calls returned.\<close>

record poll_events =
  pe_invalid :: bool
  pe_out :: "send_outcome list option"
  pe_in :: "recv_outcome option"

definition poll_channel :: "(message \<Rightarrow> 'e \<Rightarrow> unit res \<times> 'e) \<Rightarrow> poll_events \<Rightarrow> tcp_channel \<times> 'e
    \<Rightarrow> unit res \<times> bytes \<times> tcp_channel \<times> 'e" where
  "poll_channel f ev s = (case s of (c, e) \<Rightarrow>
     if pe_invalid ev then (Inl (RuntimeError ''invalid TCP descriptor''), [], c, e)
     else (case (case pe_out ev of Some rs \<Rightarrow> send_loop rs kSendBudget c | None \<Rightarrow> (Inr (), [], c)) of
         (Inl x, w, c') \<Rightarrow> (Inl x, w, c', e)
       | (Inr _, w, c') \<Rightarrow>
           (case pe_in ev of
              None \<Rightarrow> (Inr (), w, c', e)
            | Some r \<Rightarrow> (case recv_step f r (c', e) of (x, s') \<Rightarrow> (x, w, s')))))"

fun poll_channels :: "(node_id \<Rightarrow> message \<Rightarrow> 'e \<Rightarrow> unit res \<times> 'e) \<Rightarrow> (node_id \<Rightarrow> poll_events)
    \<Rightarrow> (node_id \<times> tcp_channel) list \<Rightarrow> 'e
    \<Rightarrow> unit res \<times> (node_id \<times> bytes) list \<times> (node_id \<times> tcp_channel) list \<times> 'e" where
  "poll_channels f ev [] e = (Inr (), [], [], e)"
| "poll_channels f ev ((peer, c) # cs) e =
     (case poll_channel (f peer) (ev peer) (c, e) of
        (Inl x, w, c', e') \<Rightarrow> (Inl x, [(peer, w)], (peer, c') # cs, e')
      | (Inr _, w, c', e') \<Rightarrow>
          (case poll_channels f ev cs e' of
             (x, ws, cs', e'') \<Rightarrow> (x, (peer, w) # ws, (peer, c') # cs', e'')))"

definition poll_once :: "(node_id \<Rightarrow> message \<Rightarrow> 'e \<Rightarrow> unit res \<times> 'e) \<Rightarrow> int \<Rightarrow> bool \<Rightarrow> (node_id \<Rightarrow> poll_events)
    \<Rightarrow> tcp_transport \<times> 'e \<Rightarrow> unit res \<times> (node_id \<times> bytes) list \<times> tcp_transport \<times> 'e" where
  "poll_once f timeout_ms poll_ok ev s = (case s of (t, e) \<Rightarrow>
     if tt_failed t then (Inl (RuntimeError ''TCP transport failed''), [], t, e)
     else if timeout_ms < 0
     then (Inl (InvalidArgument ''TCP poll requires bounded timeout''), [], t\<lparr>tt_failed := True\<rparr>, e)
     else if \<not> poll_ok then (Inl (SystemError ''poll''), [], t\<lparr>tt_failed := True\<rparr>, e)
     else (case poll_channels f ev (tt_channels t) e of
         (Inl x, ws, cs, e') \<Rightarrow> (Inl x, ws, t\<lparr>tt_channels := cs, tt_failed := True\<rparr>, e')
       | (Inr u, ws, cs, e') \<Rightarrow> (Inr u, ws, t\<lparr>tt_channels := cs\<rparr>, e')))"

section \<open>A frame read back\<close>

lemma kind_of_kind_byte [simp]:
  "k = KindData \<or> k = KindMarker \<Longrightarrow> kind_of_byte (kind_byte k) = k"
  by (auto simp: kind_of_byte_def kind_byte_def)

definition frame_body :: "message \<Rightarrow> bytes" where
  "frame_body m = le32 0x53474331 @ [kind_byte (ms_kind m)] @ le64 (ms_sequence m) @ le64 (ms_epoch m)
     @ le32 (of_nat (length (ms_payload m))) @ ms_payload m"

definition frame_sealed :: "message \<Rightarrow> bytes" where
  "frame_sealed m = frame_body m @ le32 (crc32c (frame_body m) 0)"

lemma length_frame: "length (frame_body m) = 25 + length (ms_payload m)"
    "length (frame_sealed m) = 29 + length (ms_payload m)"
  by (simp_all add: frame_body_def frame_sealed_def)

lemma encode_message_Inr:
  "(encode_message m = Inr f) =
     (length (frame_sealed m) \<le> kMaxFrame \<and> f = le32 (of_nat (length (frame_sealed m))) @ frame_sealed m)"
proof -
  have "kMaxFrame < 2 ^ 32" by (simp add: kMaxFrame_def)
  then show ?thesis
    by (auto simp: encode_message_def put_u32_le32 put_u64_le64 put_u8_def put_blob_Inr frame_sealed_def
        frame_body_def put_all_append)
qed

lemma decode_message_sealed:
  assumes "length (frame_sealed m) \<le> kMaxFrame" "ms_kind m = KindData \<or> ms_kind m = KindMarker"
  shows "decode_message (frame_sealed m) = Inr m"
proof -
  let ?b = "frame_body m" and ?c = "crc32c (frame_body m) 0"
  have cut: "drop (length (frame_sealed m) - 4) (frame_sealed m) = le32 ?c @ []"
      "take (length (frame_sealed m) - 4) (frame_sealed m) = ?b"
    by (simp_all add: frame_sealed_def)
  have "put_blob (ms_payload m) = Inr (le32 (of_nat (length (ms_payload m))) @ ms_payload m)"
    using assms(1) by (simp add: put_blob_Inr length_frame kMaxFrame_def)
  from blob_round [OF this, of "[]"]
  have blob: "get_blob (le32 (of_nat (length (ms_payload m))) @ ms_payload m) = Inr (ms_payload m, [])" by simp
  have "\<not> length (frame_sealed m) < 4" by (simp add: length_frame)
  then show ?thesis
    unfolding decode_message_def cut get_u32_append
    using assms(2) blob
    by (simp add: require_def frame_body_def get_u32_append get_u64_append get_end_def)
qed

lemma u32_frame_length: "length (frame_sealed m) \<le> kMaxFrame
    \<Longrightarrow> unat (of_nat (length (frame_sealed m)) :: u32) = length (frame_sealed m)"
  by (simp add: kMaxFrame_def unat_of_nat take_bit_nat_eq_self)

text \<open>A whole frame at the front is handed over; a proper part of one waits for more.\<close>

lemma input_loop_frame:
  assumes "encode_message m = Inr f" "ms_kind m = KindData \<or> ms_kind m = KindMarker"
  shows "input_loop g (f @ r) e = (case g m e of (Inl x, e') \<Rightarrow> (Inl x, r, e') | (Inr _, e') \<Rightarrow> input_loop g r e')"
proof -
  let ?s = "frame_sealed m"
  have f: "length ?s \<le> kMaxFrame" "f = le32 (of_nat (length ?s)) @ ?s" using assms(1) by (simp_all add: encode_message_Inr)
  have size: "get_u32 (take 4 (f @ r)) = Inr (of_nat (length ?s), [])"
    using get_u32_append [of "of_nat (length ?s)" "[]"] f(2) by simp
  have body: "take (length ?s) (drop 4 (f @ r)) = ?s" "drop (4 + length ?s) (f @ r) = r" "\<not> length (f @ r) < 4"
      "\<not> length (f @ r) < length ?s + 4" "\<not> length ?s < 29" "\<not> kMaxFrame < length ?s"
    using f by (simp_all add: length_frame)
  show ?thesis
    by (subst input_loop.simps)
      (simp only: body size u32_frame_length [OF f(1)] decode_message_sealed [OF f(1) assms(2)] sum.case prod.case
        if_False simp_thms)
qed

lemma input_loop_part:
  assumes "encode_message m = Inr f" "f = p @ q" "q \<noteq> []"
  shows "input_loop g p e = (Inr (), p, e)"
proof (cases "length p < 4")
  case False
  let ?s = "frame_sealed m"
  have f: "length ?s \<le> kMaxFrame" "f = le32 (of_nat (length ?s)) @ ?s" using assms(1) by (simp_all add: encode_message_Inr)
  have "take 4 p = take 4 f" using False assms(2) by simp
  then have size: "get_u32 (take 4 p) = Inr (of_nat (length ?s), [])"
    using get_u32_append [of "of_nat (length ?s)" "[]"] f(2) by simp
  have "length p + length q = 4 + length ?s"
    using arg_cong [OF assms(2), of length] f(2) by simp
  moreover have "0 < length q" using assms(3) by simp
  ultimately have "length p < length ?s + 4" by linarith
  moreover have "\<not> length ?s < 29" "\<not> kMaxFrame < length ?s" using f(1) by (simp_all add: length_frame)
  ultimately show ?thesis
    using False by (subst input_loop.simps)
      (simp only: size u32_frame_length [OF f(1)] sum.case prod.case if_False if_True simp_thms)
qed (simp add: input_loop.simps [of g p])

section \<open>A stream of frames cut anywhere\<close>

definition collect :: "message \<Rightarrow> message list \<Rightarrow> unit res \<times> message list" where
  "collect m acc = (Inr (), acc @ [m])"

definition sendable :: "message \<Rightarrow> bool" where
  "sendable m \<longleftrightarrow> ms_kind m = KindData \<or> ms_kind m = KindMarker"

definition framed :: "message list \<Rightarrow> bytes list \<Rightarrow> bool" where
  "framed ms fs = list_all2 (\<lambda>m f. encode_message m = Inr f) ms fs"

lemma frame_nonempty: "encode_message m = Inr f \<Longrightarrow> f \<noteq> []"
  by (auto simp: encode_message_Inr append_le32_def)

text \<open>The frames that a prefix of the stream completes are handed over, the rest is kept.\<close>

lemma input_loop_stream:
  assumes "framed ms fs" "list_all sendable ms" "bs @ later = concat fs"
  shows "\<exists>k rest. input_loop collect bs acc = (Inr (), rest, acc @ take k ms)
    \<and> rest @ later = concat (drop k fs) \<and> (later = [] \<longrightarrow> rest = [] \<and> length ms \<le> k)"
  using assms
proof (induction ms arbitrary: fs bs acc)
  case Nil
  then show ?case by (auto simp: framed_def input_loop.simps [of collect "[]"])
next
  case (Cons m ms)
  then obtain f gs where f: "fs = f # gs" "encode_message m = Inr f" "framed ms gs"
    by (auto simp: framed_def list_all2_Cons1)
  have m: "ms_kind m = KindData \<or> ms_kind m = KindMarker" using Cons.prems(2) by (simp add: sendable_def)
  have split: "bs @ later = f @ concat gs" using Cons.prems(3) f(1) by simp
  show ?case
  proof (cases "length f \<le> length bs")
    case True
    then have tk: "take (length f) bs = f" using split by (metis append_eq_append_conv_if)
    then obtain b where b: "bs = f @ b" by (metis append_take_drop_id)
    then have later: "b @ later = concat gs" using split by simp
    obtain k rest where k: "input_loop collect b (acc @ [m]) = (Inr (), rest, (acc @ [m]) @ take k ms)"
        "rest @ later = concat (drop k gs)" "later = [] \<longrightarrow> rest = [] \<and> length ms \<le> k"
      using Cons.IH [OF f(3) _ later, of "acc @ [m]"] Cons.prems(2) by auto
    have "input_loop collect bs acc = input_loop collect b (acc @ [m])"
      unfolding b input_loop_frame [OF f(2) m] by (simp add: collect_def)
    with k f(1) show ?thesis by (intro exI [of _ "Suc k"] exI [of _ rest]) simp
  next
    case False
    then obtain q where q: "f = bs @ q" "q \<noteq> []" "later = q @ concat gs"
      using split by (auto simp: append_eq_append_conv2)
    have "input_loop collect bs acc = (Inr (), bs, acc)" by (rule input_loop_part [OF f(2) q(1,2)])
    with q split f(1) show ?thesis by (intro exI [of _ 0] exI [of _ bs]) simp
  qed
qed

fun feed :: "bytes list \<Rightarrow> tcp_channel \<times> message list \<Rightarrow> unit res \<times> tcp_channel \<times> message list" where
  "feed [] s = (Inr (), s)"
| "feed (b # bs) s = (case recv_step collect (Received b) s of
     (Inl x, t) \<Rightarrow> (Inl x, t) | (Inr _, t) \<Rightarrow> feed bs t)"

lemma feed_stream:
  assumes "framed ms fs" "list_all sendable ms" "tc_input c @ concat chunks @ later = concat fs"
    and "list_all (\<lambda>b. b \<noteq> []) chunks"
  shows "\<exists>k d. feed chunks (c, acc) = (Inr (), d, acc @ take k ms)
    \<and> tc_input d @ later = concat (drop k fs) \<and> (chunks \<noteq> [] \<and> later = [] \<longrightarrow> length ms \<le> k)"
  using assms
proof (induction chunks arbitrary: c ms fs acc)
  case Nil
  then show ?case by (auto intro!: exI [of _ 0])
next
  case (Cons b bs)
  obtain k rest where k: "input_loop collect (tc_input c @ b) acc = (Inr (), rest, acc @ take k ms)"
      "rest @ concat bs @ later = concat (drop k fs)"
      "concat bs @ later = [] \<longrightarrow> rest = [] \<and> length ms \<le> k"
    using input_loop_stream [OF Cons.prems(1,2), of "tc_input c @ b" "concat bs @ later" acc] Cons.prems(3)
    by (metis append.assoc concat.simps(2))
  let ?c = "c\<lparr>tc_input := rest\<rparr>"
  have step: "recv_step collect (Received b) (c, acc) = (Inr (), ?c, acc @ take k ms)"
    using k(1) Cons.prems(4) by (simp add: recv_step_def)
  have "framed (drop k ms) (drop k fs)" using Cons.prems(1) by (simp add: framed_def list_all2_dropI)
  moreover have "list_all sendable (drop k ms)" using Cons.prems(2) by (auto simp: list_all_iff dest: in_set_dropD)
  ultimately obtain k' d where d: "feed bs (?c, acc @ take k ms) = (Inr (), d, (acc @ take k ms) @ take k' (drop k ms))"
      "tc_input d @ later = concat (drop k' (drop k fs))" "bs \<noteq> [] \<and> later = [] \<longrightarrow> length (drop k ms) \<le> k'"
    using Cons.IH [of "drop k ms" "drop k fs" ?c "acc @ take k ms"] k(2) Cons.prems(4) by auto
  have "take k ms @ take k' (drop k ms) = take (k + k') ms" by (simp add: take_add)
  moreover have "length ms \<le> k + k'" if "later = []" using that k(3) d(3) by (cases "bs = []") auto
  ultimately show ?case
    using step d(1,2) by (intro exI [of _ "k + k'"] exI [of _ d]) (simp add: add.commute)
qed

section \<open>The bytes a sender puts on the wire\<close>

definition out_stream :: "tcp_channel \<Rightarrow> bytes" where
  "out_stream c = drop (tc_front_offset c) (concat (tc_output c))"

definition out_ok :: "nat \<Rightarrow> tcp_channel \<Rightarrow> bool" where
  "out_ok limit c \<longleftrightarrow>
     (case tc_output c of [] \<Rightarrow> tc_front_offset c = 0 | front # _ \<Rightarrow> tc_front_offset c < length front)
     \<and> list_all (\<lambda>f. f \<noteq> []) (tc_output c)
     \<and> tc_queued_bytes c = length (out_stream c) \<and> tc_queued_bytes c \<le> limit"

lemma out_ok_new: "out_ok limit new_channel" "out_stream new_channel = []"
  by (simp_all add: out_ok_def new_channel_def out_stream_def)

lemma push_frame_stream:
  assumes "push_frame limit f c = Inr c'" "out_ok limit c" "f \<noteq> []"
  shows "out_ok limit c' \<and> out_stream c' = out_stream c @ f \<and> tc_input c' = tc_input c"
proof -
  have c': "c' = c\<lparr>tc_queued_bytes := tc_queued_bytes c + length f, tc_output := tc_output c @ [f]\<rparr>"
      "length f \<le> limit - tc_queued_bytes c"
    using assms(1) by (auto simp: push_frame_def)
  have "tc_front_offset c \<le> length (concat (tc_output c))"
    using assms(2) by (auto simp: out_ok_def split: list.splits)
  then have str: "out_stream c' = out_stream c @ f" using c'(1) by (simp add: out_stream_def)
  with c' assms(2,3) show ?thesis by (auto simp: out_ok_def split: list.splits)
qed

lemma sent_part:
  assumes "tc_output c = front # rest" "n \<noteq> 0" "tc_front_offset c + n \<le> length front" "out_ok limit c"
    and d: "d = (if tc_front_offset c + n = length front
      then c\<lparr>tc_queued_bytes := tc_queued_bytes c - n, tc_output := rest, tc_front_offset := 0\<rparr>
      else c\<lparr>tc_front_offset := tc_front_offset c + n, tc_queued_bytes := tc_queued_bytes c - n\<rparr>)"
  shows "take n (drop (tc_front_offset c) front) @ out_stream d = out_stream c" "out_ok limit d"
    "tc_input d = tc_input c"
proof -
  let ?o = "tc_front_offset c"
  have "take n (drop ?o front) @ drop (?o + n) front = drop ?o front"
    by (metis append_take_drop_id drop_drop add.commute)
  then show str: "take n (drop ?o front) @ out_stream d = out_stream c"
    using assms(1,3) d by (auto simp: out_stream_def)
  show "tc_input d = tc_input c" by (simp add: d)
  have "length (take n (drop ?o front)) = n" using assms(3) by simp
  with arg_cong [OF str, of length] have "tc_queued_bytes c - n = length (out_stream d)"
    using assms(4) by (simp add: out_ok_def)
  moreover have "tc_queued_bytes d = tc_queued_bytes c - n" "list_all (\<lambda>f. f \<noteq> []) (tc_output d)"
      "tc_queued_bytes c - n \<le> limit"
    using assms(1,4) by (auto simp: d out_ok_def)
  moreover have "case tc_output d of [] \<Rightarrow> tc_front_offset d = 0 | f # _ \<Rightarrow> tc_front_offset d < length f"
  proof (cases "?o + n = length front")
    case True
    then show ?thesis using assms(1,4) by (cases rest) (simp_all add: d out_ok_def)
  next
    case False
    then show ?thesis using assms(1,3) by (simp add: d)
  qed
  ultimately show "out_ok limit d" by (simp add: out_ok_def)
qed

lemma send_loop_stream:
  "send_loop rs budget c = (x, w, c') \<Longrightarrow> out_ok limit c \<Longrightarrow>
     out_ok limit c' \<and> w @ out_stream c' = out_stream c \<and> tc_input c' = tc_input c"
proof (induction rs arbitrary: budget c x w)
  case (Cons r rs)
  show ?case
  proof (cases "tc_output c")
    case Nil
    then show ?thesis using Cons.prems by simp
  next
    case front: (Cons front rest)
    show ?thesis
    proof (cases "budget = 0 \<or> r = SendWouldBlock \<or> r = SendError")
      case True
      then show ?thesis using Cons.prems front by (auto split: if_splits)
    next
      case False
      show ?thesis
      proof (cases r)
        case (Sent k)
        define n where "n = min k (min budget (length front - tc_front_offset c))"
        show ?thesis
        proof (cases "n = 0")
          case True
          then show ?thesis using Cons.prems front False Sent by (auto simp: Let_def n_def)
        next
          case pos: False
          define d where "d = (if tc_front_offset c + n = length front
            then c\<lparr>tc_queued_bytes := tc_queued_bytes c - n, tc_output := rest, tc_front_offset := 0\<rparr>
            else c\<lparr>tc_front_offset := tc_front_offset c + n, tc_queued_bytes := tc_queued_bytes c - n\<rparr>)"
          have le: "tc_front_offset c + n \<le> length front" using pos by (auto simp: n_def)
          obtain w' where rec: "send_loop rs (budget - n) d = (x, w', c')"
              "w = take n (drop (tc_front_offset c) front) @ w'"
            using Cons.prems(1) front False Sent pos
            by (cases "send_loop rs (budget - n) d") (auto simp: Let_def n_def [symmetric] d_def split: if_splits)
          note part = sent_part [OF front pos le Cons.prems(2) d_def]
          show ?thesis using Cons.IH [OF rec(1) part(2)] part rec(2) by simp
        qed
      qed (use Cons False front in auto)
    qed
  qed
qed simp

section \<open>A link from sender to receiver\<close>

text \<open>The life of a channel on the sending side: messages are queued, and the queue is written
  out in polls whose sends take what they take. The second component is the wire.\<close>

datatype sender_op = Enqueue message | WriteOut "send_outcome list"

fun run_sender :: "nat \<Rightarrow> sender_op list \<Rightarrow> tcp_channel \<Rightarrow> unit res \<times> bytes \<times> tcp_channel" where
  "run_sender limit [] c = (Inr (), [], c)"
| "run_sender limit (Enqueue m # ops) c =
     (case bind_res (encode_message m) (\<lambda>f. push_frame limit f c) of
        Inl x \<Rightarrow> (Inl x, [], c)
      | Inr c' \<Rightarrow> run_sender limit ops c')"
| "run_sender limit (WriteOut rs # ops) c =
     (case send_loop rs kSendBudget c of
        (Inl x, w, c') \<Rightarrow> (Inl x, w, c')
      | (Inr _, w, c') \<Rightarrow> (case run_sender limit ops c' of (x, ws, d) \<Rightarrow> (x, w @ ws, d)))"

fun queued_messages :: "sender_op list \<Rightarrow> message list" where
  "queued_messages [] = []"
| "queued_messages (Enqueue m # ops) = m # queued_messages ops"
| "queued_messages (WriteOut _ # ops) = queued_messages ops"

lemma run_sender_stream:
  "run_sender limit ops c = (Inr (), wire, c') \<Longrightarrow> out_ok limit c \<Longrightarrow>
     out_ok limit c' \<and> (\<exists>fs. framed (queued_messages ops) fs \<and> wire @ out_stream c' = out_stream c @ concat fs)"
proof (induction limit ops c arbitrary: wire rule: run_sender.induct)
  case (1 limit c)
  then show ?case by (auto simp: framed_def)
next
  case (2 limit m ops c)
  then obtain f d where f: "encode_message m = Inr f" "push_frame limit f c = Inr d"
      "run_sender limit ops d = (Inr (), wire, c')"
    by (auto split: sum.splits)
  note p = push_frame_stream [OF f(2) "2.prems"(2) frame_nonempty [OF f(1)]]
  from "2.IH" [of d] f p obtain fs where "out_ok limit c'" "framed (queued_messages ops) fs"
      "wire @ out_stream c' = out_stream d @ concat fs"
    by auto
  with f(1) p show ?case by (auto simp: framed_def intro!: exI [of _ "f # fs"])
next
  case (3 limit rs ops c)
  then obtain w d ws where w: "send_loop rs kSendBudget c = (Inr (), w, d)" "run_sender limit ops d = (Inr (), ws, c')"
      "wire = w @ ws"
    by (auto split: prod.splits sum.splits)
  note p = send_loop_stream [OF w(1) "3.prems"(2)]
  from "3.IH" [of "Inr ()" "(w, d)" "()" w d ws] w p obtain fs where "out_ok limit c'" "framed (queued_messages ops) fs"
      "ws @ out_stream c' = out_stream d @ concat fs"
    by auto
  with w(3) p show ?case by (metis append.assoc queued_messages.simps(3))
qed

text \<open>C14. A TCP channel is a reliable FIFO link: whatever the sizes of the sends and of the
  receives, the receiver hands over a prefix of the queued messages, unchanged and in
  order, never an error; once the output is drained and everything on the wire has
  arrived, it has handed over all of them. The output queue never exceeds its limit.\<close>

theorem tcp_link_is_fifo:
  assumes "list_all sendable (queued_messages ops)" "run_sender limit ops new_channel = (Inr (), wire, c)"
    and "concat chunks @ later = wire" "list_all (\<lambda>b. b \<noteq> []) chunks"
  shows "\<exists>k d. feed chunks (new_channel, []) = (Inr (), d, take k (queued_messages ops))
      \<and> (tc_output c = [] \<and> later = [] \<longrightarrow> take k (queued_messages ops) = queued_messages ops)
      \<and> length (concat (tc_output c)) - tc_front_offset c \<le> limit"
proof -
  obtain fs where fs: "out_ok limit c" "framed (queued_messages ops) fs" "wire @ out_stream c = concat fs"
    using run_sender_stream [OF assms(2) out_ok_new(1)] out_ok_new(2) by auto
  have "tc_input new_channel @ concat chunks @ (later @ out_stream c) = concat fs"
    using assms(3) fs(3) by (auto simp: new_channel_def simp flip: append_assoc)
  from feed_stream [OF fs(2) assms(1) this assms(4), of "[]"] obtain k d where
    k: "feed chunks (new_channel, []) = (Inr (), d, take k (queued_messages ops))"
      "chunks \<noteq> [] \<and> later @ out_stream c = [] \<longrightarrow> length (queued_messages ops) \<le> k"
    by auto
  have "take k (queued_messages ops) = queued_messages ops" if "tc_output c = []" "later = []"
  proof (cases "chunks = []")
    case True
    with that fs(3) assms(3) have "concat fs = []" by (simp add: out_stream_def)
    then have "queued_messages ops = []"
      using fs(2) frame_nonempty by (cases "queued_messages ops") (auto simp: framed_def list_all2_Cons1)
    then show ?thesis by simp
  next
    case False
    with k(2) that show ?thesis by (simp add: out_stream_def)
  qed
  with k(1) fs(1) show ?thesis by (auto simp: out_ok_def out_stream_def)
qed

text \<open>Two frames, written in three pieces and received in two.\<close>

definition sample_ops :: "sender_op list" where
  "sample_ops = [Enqueue (data_message 1 [7]), WriteOut [Sent 5, SendWouldBlock], Enqueue (marker_message 1 3),
     WriteOut [SendInterrupted, Sent 100, Sent 100]]"

definition frame_of :: "message \<Rightarrow> bytes" where
  "frame_of m = le32 (of_nat (length (frame_sealed m))) @ frame_sealed m"

lemma frame_of_encodes: "length (ms_payload m) \<le> 1000 \<Longrightarrow> encode_message m = Inr (frame_of m)"
  by (simp add: encode_message_Inr frame_of_def length_frame kMaxFrame_def)

lemma length_frame_of: "length (frame_of m) = 33 + length (ms_payload m)"
  by (simp add: frame_of_def length_frame)

lemma sample_link_run:
  "run_sender 1000 sample_ops new_channel
     = (Inr (), frame_of (data_message 1 [7]) @ frame_of (marker_message 1 3), new_channel)"
  by (simp add: sample_ops_def frame_of_encodes push_frame_def require_def new_channel_def length_frame_of kSendBudget_def
      Let_def data_message_def marker_message_def)

theorem tcp_link_is_fifo_witness:
  "\<exists>d. feed [take 10 (frame_of (data_message 1 [7])),
             drop 10 (frame_of (data_message 1 [7])) @ frame_of (marker_message 1 3)] (new_channel, [])
     = (Inr (), d, [data_message 1 [7], marker_message 1 3])"
proof -
  let ?f = "frame_of (data_message 1 [7])" and ?g = "frame_of (marker_message 1 3)"
  have "concat [take 10 ?f, drop 10 ?f @ ?g] @ [] = ?f @ ?g" by simp
  moreover have "length ?f = 34" "length ?g = 33"
    by (simp_all add: length_frame_of data_message_def marker_message_def)
  then have "list_all (\<lambda>b. b \<noteq> []) [take 10 ?f, drop 10 ?f @ ?g]" by auto
  moreover have "list_all sendable (queued_messages sample_ops)"
    by (simp add: sample_ops_def sendable_def data_message_def marker_message_def)
  ultimately have "\<exists>k d. feed [take 10 ?f, drop 10 ?f @ ?g] (new_channel, []) = (Inr (), d, take k (queued_messages sample_ops))
      \<and> take k (queued_messages sample_ops) = queued_messages sample_ops"
    using tcp_link_is_fifo [OF _ sample_link_run, of "[take 10 ?f, drop 10 ?f @ ?g]" "[]"]
    by (auto simp: new_channel_def simp del: feed.simps)
  then show ?thesis by (auto simp: sample_ops_def simp del: feed.simps)
qed

end
