(* ===== verification/Window_State.thy ===== *)
theory Window_State
  imports Windows
begin

text \<open>
  \<open>KeyedWindowState\<close> (\<open>src/src/window/state.{h,cpp}\<close>): panes keyed by window and key,
  the fired and re-fired window sets and the late-data policy. The ordered window map is
  an ordered association list, the pane map of a window an unordered one. The lemmas
  describe every operation on the abstract view \<open>pane_at\<close>, the partial function from
  window and key to pane.
\<close>

section \<open>Panes\<close>

record pane =
  pane_sum :: int
  pane_count :: u64

definition empty_pane :: pane where
  "empty_pane = \<lparr>pane_sum = 0, pane_count = 0\<rparr>"

definition pane_add :: "pane \<Rightarrow> int \<Rightarrow> pane res" where
  "pane_add p v =
     (if (v > 0 \<and> pane_sum p > i64_max - v) \<or> (v < 0 \<and> pane_sum p < i64_min - v) \<or>
         pane_count p = u64_max
      then Inl (OverflowError ''pane aggregate overflow'')
      else Inr \<lparr>pane_sum = pane_sum p + v, pane_count = pane_count p + 1\<rparr>)"

definition pane_result :: "pane \<Rightarrow> aggregate_result" where
  "pane_result p = \<lparr>agg_value = pane_sum p, agg_count = pane_count p\<rparr>"

lemma pane_result_inject [simp]: "(pane_result p = pane_result q) = (p = q)"
  by (cases p; cases q) (simp add: pane_result_def)

lemma agg_pane_result [simp]:
  "agg_value (pane_result p) = pane_sum p" "agg_count (pane_result p) = pane_count p"
  by (simp_all add: pane_result_def)

text \<open>An addition that does not throw is exact: no wrap-around in the sum or in the count.\<close>

lemma pane_add_exact:
  assumes "pane_add p v = Inr q"
  shows "pane_sum q = pane_sum p + v" "unat (pane_count q) = unat (pane_count p) + 1"
    and "in_i64 (pane_sum p) \<Longrightarrow> in_i64 (pane_sum q)"
  using assms by (auto simp: pane_add_def u64_inc_unat in_i64_def split: if_splits)

section \<open>State and operations\<close>

type_synonym pane_map = "(string \<times> pane) list"

record keyed_window_state =
  windows :: "(window \<times> pane_map) list"
  allowed_lateness :: duration
  fired_windows :: "window list"
  refired_windows :: "window list"

definition empty_state :: keyed_window_state where
  "empty_state = \<lparr>windows = [], allowed_lateness = 0, fired_windows = [], refired_windows = []\<rparr>"

definition set_allowed_lateness ::
    "keyed_window_state \<Rightarrow> duration \<Rightarrow> keyed_window_state res" where
  "set_allowed_lateness s lateness =
     (if lateness < 0 then Inl (InvalidArgument ''lateness must be nonnegative'')
      else Inr (s\<lparr>allowed_lateness := lateness\<rparr>))"

text \<open>\<open>windows_[window]\<close>: the pane map of a window, empty where there is none yet.\<close>

definition panes_of :: "keyed_window_state \<Rightarrow> window \<Rightarrow> pane_map" where
  "panes_of s w = (case map_of (windows s) w of None \<Rightarrow> [] | Some m \<Rightarrow> m)"

definition put_pane :: "keyed_window_state \<Rightarrow> string \<Rightarrow> window \<Rightarrow> pane \<Rightarrow> keyed_window_state" where
  "put_pane s k w p = s\<lparr>windows := om_set w (AList.update k p (panes_of s w)) (windows s)\<rparr>"

text \<open>\<open>Add\<close>: \<open>windows_[window][key].Add(value)\<close>. A throw ends the job.\<close>

definition add_value ::
    "keyed_window_state \<Rightarrow> string \<Rightarrow> window \<Rightarrow> int \<Rightarrow> keyed_window_state res" where
  "add_value s k w v =
     (let p = (case map_of (panes_of s w) k of None \<Rightarrow> empty_pane | Some p \<Rightarrow> p)
      in bind_res (pane_add p v) (\<lambda>p'. Inr (put_pane s k w p')))"

text \<open>The absolute deadline of a window, saturating at \<open>Timestamp::max()\<close>.\<close>

definition deadline :: "duration \<Rightarrow> window \<Rightarrow> timestamp" where
  "deadline lateness w = (if wend w > i64_max - lateness then i64_max else wend w + lateness)"

definition is_fired :: "keyed_window_state \<Rightarrow> window \<Rightarrow> bool" where
  "is_fired s w = List.member (fired_windows s) w"

definition add_with_lateness ::
    "keyed_window_state \<Rightarrow> string \<Rightarrow> window \<Rightarrow> int \<Rightarrow> timestamp \<Rightarrow>
     (bool \<times> keyed_window_state) res" where
  "add_with_lateness s k w v current_watermark =
     (if current_watermark \<ge> deadline (allowed_lateness s) w then Inr (False, s)
      else bind_res (add_value s k w v) (\<lambda>s'.
        Inr (True, if is_fired s' w
                   then s'\<lparr>refired_windows := us_insert w (refired_windows s')\<rparr> else s')))"

text \<open>The walk over the ordered map stops at the first window that ends after the watermark.\<close>

definition expired_windows :: "keyed_window_state \<Rightarrow> timestamp \<Rightarrow> window list" where
  "expired_windows s watermark =
     filter (\<lambda>w. \<not> is_fired s w) (takeWhile (\<lambda>w. wend w \<le> watermark) (map fst (windows s)))"

definition fire_window ::
    "keyed_window_state \<Rightarrow> window \<Rightarrow> window_result list \<times> keyed_window_state" where
  "fire_window s w =
     (case map_of (windows s) w of
        None \<Rightarrow> ([], s)
      | Some m \<Rightarrow>
          (map (\<lambda>(k, p). window_row k w (pane_result p)) m,
           if allowed_lateness s = 0 then s\<lparr>windows := om_erase w (windows s)\<rparr>
           else s\<lparr>fired_windows := us_insert w (fired_windows s)\<rparr>))"

definition garbage_collectable :: "keyed_window_state \<Rightarrow> timestamp \<Rightarrow> window list" where
  "garbage_collectable s watermark =
     filter (\<lambda>w. watermark \<ge> deadline (allowed_lateness s) w) (fired_windows s)"

definition garbage_collect_one :: "window \<Rightarrow> keyed_window_state \<Rightarrow> keyed_window_state" where
  "garbage_collect_one w s =
     s\<lparr>windows := om_erase w (windows s),
       fired_windows := us_erase w (fired_windows s),
       refired_windows := us_erase w (refired_windows s)\<rparr>"

definition garbage_collect :: "keyed_window_state \<Rightarrow> window list \<Rightarrow> keyed_window_state" where
  "garbage_collect s ws = fold garbage_collect_one ws s"

definition clear_refired :: "keyed_window_state \<Rightarrow> keyed_window_state" where
  "clear_refired s = s\<lparr>refired_windows := []\<rparr>"

definition all_windows :: "keyed_window_state \<Rightarrow> window list" where
  "all_windows s = map fst (windows s)"

definition total_panes :: "keyed_window_state \<Rightarrow> nat" where
  "total_panes s = sum_list (map (\<lambda>(w, m). length m) (windows s))"

text \<open>\<open>ForEachPane\<close>: the visits \<open>fn(key, window, pane)\<close>, in order.\<close>

definition each_pane :: "keyed_window_state \<Rightarrow> (string \<times> window \<times> pane) list" where
  "each_pane s = concat (map (\<lambda>(w, m). map (\<lambda>(k, p). (k, w, p)) m) (windows s))"

definition restore_pane ::
    "string \<Rightarrow> window \<Rightarrow> int \<Rightarrow> u64 \<Rightarrow> keyed_window_state \<Rightarrow> keyed_window_state" where
  "restore_pane k w psum cnt s = put_pane s k w \<lparr>pane_sum = psum, pane_count = cnt\<rparr>"

definition restore_fired :: "window list \<Rightarrow> keyed_window_state \<Rightarrow> keyed_window_state" where
  "restore_fired ws s = s\<lparr>fired_windows := fold us_insert ws (fired_windows s)\<rparr>"

definition restore_refired :: "window list \<Rightarrow> keyed_window_state \<Rightarrow> keyed_window_state" where
  "restore_refired ws s = s\<lparr>refired_windows := fold us_insert ws (refired_windows s)\<rparr>"

section \<open>The abstract view and the well-formedness invariant\<close>

definition pane_at :: "keyed_window_state \<Rightarrow> window \<Rightarrow> string \<Rightarrow> pane option" where
  "pane_at s w k = Option.bind (map_of (windows s) w) (\<lambda>m. map_of m k)"

definition kws_wf :: "keyed_window_state \<Rightarrow> bool" where
  "kws_wf s \<longleftrightarrow>
     om_wf (windows s) \<and>
     (\<forall>(w, m) \<in> set (windows s). um_wf m \<and> m \<noteq> []) \<and>
     distinct (fired_windows s) \<and> distinct (refired_windows s) \<and>
     set (refired_windows s) \<subseteq> set (fired_windows s)"

lemma kws_wfD:
  assumes "kws_wf s"
  shows "om_wf (windows s)" "distinct (fired_windows s)" "distinct (refired_windows s)"
    "set (refired_windows s) \<subseteq> set (fired_windows s)"
    "map_of (windows s) w = Some m \<Longrightarrow> um_wf m \<and> m \<noteq> []"
  using assms by (auto simp: kws_wf_def dest: map_of_SomeD)

lemma kws_wf_empty [simp]: "kws_wf empty_state"
  by (simp add: kws_wf_def empty_state_def)

lemma pane_at_empty [simp]: "pane_at empty_state w k = None"
  by (simp add: pane_at_def empty_state_def)

lemma panes_of_lookup: "map_of (panes_of s w) k = pane_at s w k"
  by (simp add: panes_of_def pane_at_def split: option.split)

lemma pane_at_present:
  "kws_wf s \<Longrightarrow> (w \<in> fst ` set (windows s)) = (\<exists>k p. pane_at s w k = Some p)"
proof -
  assume wf: "kws_wf s"
  show ?thesis
  proof (cases "map_of (windows s) w")
    case None
    then have "w \<notin> fst ` set (windows s)" by (simp add: map_of_eq_None_iff)
    with None show ?thesis by (simp add: pane_at_def)
  next
    case (Some m)
    then obtain k p m' where "m = (k, p) # m'"
      using kws_wfD(5) [OF wf Some] by (cases m) auto
    with Some show ?thesis by (force simp: pane_at_def dest: map_of_SomeD)
  qed
qed

lemma pane_at_put [store_simps]:
  "pane_at (put_pane s k w p) w' k' = (if w' = w \<and> k' = k then Some p else pane_at s w' k')"
  by (auto simp: put_pane_def pane_at_def store_simps update_conv' panes_of_def split: option.split)

lemma kws_put_pane_fields [simp]:
  "fired_windows (put_pane s k w p) = fired_windows s"
  "refired_windows (put_pane s k w p) = refired_windows s"
  "allowed_lateness (put_pane s k w p) = allowed_lateness s"
  by (simp_all add: put_pane_def)

lemma panes_of_wf: "kws_wf s \<Longrightarrow> um_wf (panes_of s w)"
  by (auto simp: panes_of_def dest: kws_wfD(5) split: option.split)

lemma kws_wf_put [inv_intros]: "kws_wf s \<Longrightarrow> kws_wf (put_pane s k w p)"
  using panes_of_wf [of s w]
  by (auto simp: kws_wf_def put_pane_def set_om_set inv_intros)

lemma kws_wf_fields:
  "kws_wf s \<Longrightarrow> distinct fs \<Longrightarrow> distinct rs \<Longrightarrow> set rs \<subseteq> set fs \<Longrightarrow>
   kws_wf (s\<lparr>fired_windows := fs, refired_windows := rs\<rparr>)"
  by (auto simp: kws_wf_def)

section \<open>Behaviour of the operations\<close>

lemma add_value_cases:
  assumes "add_value s k w v = Inr s'"
  obtains p where "pane_add (case pane_at s w k of None \<Rightarrow> empty_pane | Some p \<Rightarrow> p) v = Inr p"
    and "s' = put_pane s k w p"
  using assms by (auto simp: add_value_def panes_of_lookup)

lemma add_with_lateness_late:
  "deadline (allowed_lateness s) w \<le> wm \<Longrightarrow> add_with_lateness s k w v wm = Inr (False, s)"
  by (simp add: add_with_lateness_def)

lemma add_with_lateness_accepted:
  assumes "add_with_lateness s k w v wm = Inr (b, s')" "wm < deadline (allowed_lateness s) w"
  obtains p where "pane_add (case pane_at s w k of None \<Rightarrow> empty_pane | Some p \<Rightarrow> p) v = Inr p"
    and "pane_at s' = (pane_at s)(w := (pane_at s w)(k \<mapsto> p))" and "b"
    and "fired_windows s' = fired_windows s" and "allowed_lateness s' = allowed_lateness s"
    and "set (refired_windows s') = set (refired_windows s) \<union> ({w} \<inter> set (fired_windows s))"
    and "kws_wf s \<Longrightarrow> kws_wf s'"
proof -
  obtain t where t: "add_value s k w v = Inr t" "b"
    "s' = (if is_fired t w then t\<lparr>refired_windows := us_insert w (refired_windows t)\<rparr> else t)"
    using assms by (cases "add_value s k w v") (auto simp: add_with_lateness_def)
  obtain p where p: "pane_add (case pane_at s w k of None \<Rightarrow> empty_pane | Some p \<Rightarrow> p) v = Inr p"
    "t = put_pane s k w p"
    using add_value_cases [OF t(1)] .
  have "pane_at s' = pane_at t" by (simp add: t(3) pane_at_def fun_eq_iff)
  also have "\<dots> = (pane_at s)(w := (pane_at s w)(k \<mapsto> p))"
    by (simp add: p(2) fun_eq_iff store_simps)
  finally have "pane_at s' = (pane_at s)(w := (pane_at s w)(k \<mapsto> p))" .
  moreover have "kws_wf s'" if "kws_wf s"
    using kws_wf_put [OF that, of k w p] p(2) t(3)
    by (auto simp: is_fired_def kws_wf_def)
  ultimately show ?thesis
    using that [of p] p t by (auto simp: is_fired_def)
qed

lemma set_expired_windows:
  assumes "kws_wf s"
  shows "set (expired_windows s wm) =
    {w. (\<exists>k p. pane_at s w k = Some p) \<and> wend w \<le> wm \<and> w \<notin> set (fired_windows s)}"
proof -
  have "sorted_wrt (\<lambda>a b. wend a \<le> wend b) (map fst (windows s))"
    using kws_wfD(1) [OF assms] unfolding om_wf_def
    by (rule sorted_wrt_mono_rel [rotated]) (auto simp: window_less_end)
  then have "set (takeWhile (\<lambda>w. wend w \<le> wm) (map fst (windows s))) =
      {w \<in> set (map fst (windows s)). wend w \<le> wm}"
  proof (induction "map fst (windows s)" arbitrary: s)
    case Nil
    then show ?case by (metis (no_types, lifting) empty_iff list.set(1) takeWhile.simps(1) Collect_empty_eq)
  next
    case (Cons a as)
    have IH: "sorted_wrt (\<lambda>a b. wend a \<le> wend b) as \<Longrightarrow>
        set (takeWhile (\<lambda>w. wend w \<le> wm) as) = {w \<in> set as. wend w \<le> wm}"
      using Cons.hyps(1) [of "s\<lparr>windows := map (\<lambda>w. (w, [])) as\<rparr>"] by (simp add: comp_def)
    show ?case
      unfolding Cons.hyps(2) [symmetric]
      using Cons.prems IH unfolding Cons.hyps(2) [symmetric] by auto
  qed
  then show ?thesis
    using pane_at_present [OF assms] by (auto simp: expired_windows_def is_fired_def)
qed

lemma distinct_expired_windows: "kws_wf s \<Longrightarrow> distinct (expired_windows s wm)"
  by (simp add: expired_windows_def om_wf_distinct kws_wfD(1) distinct_takeWhile)

text \<open>Firing emits exactly the panes of the window.\<close>

lemma set_fire_window:
  assumes "kws_wf s"
  shows "set (fst (fire_window s w)) =
    {window_row k w (pane_result p) |k p. pane_at s w k = Some p}"
proof (cases "map_of (windows s) w")
  case None
  then show ?thesis by (simp add: fire_window_def pane_at_def)
next
  case (Some m)
  then have "distinct (map fst m)" using kws_wfD(5) [OF assms] by (simp add: um_wf_def)
  then have "((k, p) \<in> set m) = (map_of m k = Some p)" for k p by simp
  with Some show ?thesis by (auto simp: fire_window_def pane_at_def)
qed

lemma fire_window_state:
  assumes "kws_wf s"
  shows "pane_at (snd (fire_window s w)) =
      (if allowed_lateness s = 0 then (pane_at s)(w := Map.empty) else pane_at s)"
    and "set (fired_windows (snd (fire_window s w))) =
      (if allowed_lateness s = 0 \<or> pane_at s w = Map.empty then set (fired_windows s)
       else insert w (set (fired_windows s)))"
    and "refired_windows (snd (fire_window s w)) = refired_windows s"
    and "allowed_lateness (snd (fire_window s w)) = allowed_lateness s"
    and "kws_wf (snd (fire_window s w))"
proof -
  have nonempty: "pane_at s w \<noteq> Map.empty" if "map_of (windows s) w = Some m" for m
    using kws_wfD(5) [OF assms that] that by (cases m) (auto simp: pane_at_def fun_eq_iff)
  show "pane_at (snd (fire_window s w)) =
      (if allowed_lateness s = 0 then (pane_at s)(w := Map.empty) else pane_at s)"
    by (auto simp: fire_window_def pane_at_def store_simps fun_eq_iff split: option.split)
  show "set (fired_windows (snd (fire_window s w))) =
      (if allowed_lateness s = 0 \<or> pane_at s w = Map.empty then set (fired_windows s)
       else insert w (set (fired_windows s)))"
    using nonempty by (auto simp: fire_window_def pane_at_def fun_eq_iff split: option.split)
  show "refired_windows (snd (fire_window s w)) = refired_windows s"
    "allowed_lateness (snd (fire_window s w)) = allowed_lateness s"
    by (simp_all add: fire_window_def split: option.split)
  show "kws_wf (snd (fire_window s w))"
    using assms by (auto simp: fire_window_def kws_wf_def inv_intros om_erase_def[of _ "windows s"]
        om_wf_erase[unfolded om_erase_def] split: option.split)
qed

lemma garbage_collect_fields:
  "allowed_lateness (garbage_collect s ws) = allowed_lateness s"
  "set (fired_windows (garbage_collect s ws)) = set (fired_windows s) - set ws"
  "set (refired_windows (garbage_collect s ws)) = set (refired_windows s) - set ws"
  "windows (garbage_collect s ws) = fold om_erase ws (windows s)"
  unfolding garbage_collect_def
  by (induction ws arbitrary: s) (auto simp: garbage_collect_one_def)

lemma pane_at_garbage_collect:
  "kws_wf s \<Longrightarrow> pane_at (garbage_collect s ws) w k = (if w \<in> set ws then None else pane_at s w k)"
  by (simp add: pane_at_def garbage_collect_fields om.lookup_erase_all kws_wfD(1))

lemma kws_wf_garbage_collect_one: "kws_wf s \<Longrightarrow> kws_wf (garbage_collect_one w s)"
  by (auto simp: kws_wf_def garbage_collect_one_def om_wf_erase distinct_us_erase
      om_erase_def[of _ "windows s"] om_wf_erase[unfolded om_erase_def])

lemma kws_wf_garbage_collect [inv_intros]: "kws_wf s \<Longrightarrow> kws_wf (garbage_collect s ws)"
  unfolding garbage_collect_def
  by (induction ws arbitrary: s) (auto intro: kws_wf_garbage_collect_one)

lemma clear_refired_simps [simp]:
  "pane_at (clear_refired s) = pane_at s" "refired_windows (clear_refired s) = []"
  "fired_windows (clear_refired s) = fired_windows s"
  "allowed_lateness (clear_refired s) = allowed_lateness s" "windows (clear_refired s) = windows s"
  by (simp_all add: clear_refired_def pane_at_def fun_eq_iff)

lemma kws_wf_clear_refired [inv_intros]: "kws_wf s \<Longrightarrow> kws_wf (clear_refired s)"
  by (simp add: kws_wf_def clear_refired_def)

lemma deadline_ge_end: "0 \<le> l \<Longrightarrow> wend w \<le> i64_max \<Longrightarrow> wend w \<le> deadline l w"
  by (simp add: deadline_def)

lemma deadline_0: "wend w \<le> i64_max \<Longrightarrow> deadline 0 w = wend w"
  by (simp add: deadline_def)

lemma set_all_windows: "kws_wf s \<Longrightarrow> set (all_windows s) = {w. \<exists>k p. pane_at s w k = Some p}"
  using pane_at_present [of s] unfolding all_windows_def set_map by blast

lemma set_garbage_collectable:
  "set (garbage_collectable s wm) =
   {w \<in> set (fired_windows s). deadline (allowed_lateness s) w \<le> wm}"
  by (auto simp: garbage_collectable_def)

lemma each_pane_at: "kws_wf s \<Longrightarrow> ((k, w, p) \<in> set (each_pane s)) = (pane_at s w k = Some p)"
proof -
  assume wf: "kws_wf s"
  have "((k, w, p) \<in> set (each_pane s)) = (\<exists>m. (w, m) \<in> set (windows s) \<and> (k, p) \<in> set m)"
    by (force simp: each_pane_def)
  also have "\<dots> = (\<exists>m. map_of (windows s) w = Some m \<and> map_of m k = Some p)"
    using map_of_om_wf [OF kws_wfD(1) [OF wf]] kws_wfD(5) [OF wf]
    by (metis map_of_eq_Some_iff um_wf_def)
  finally show ?thesis by (simp add: pane_at_def bind_eq_Some_conv)
qed

lemma length_each_pane: "length (each_pane s) = total_panes s"
  by (simp add: each_pane_def total_panes_def length_concat comp_def split_def)

section \<open>Properties\<close>

text \<open>
  Adding a value to a pane never wraps around: it returns the exact sum and count when the
  sum is an int64 and the count a uint64, and throws otherwise.
\<close>

theorem pane_add_checked:
  assumes "in_i64 (pane_sum p)"
  shows "pane_add p v =
    (if in_i64 (pane_sum p + v) \<and> unat (pane_count p) + 1 < 2 ^ 64
     then Inr \<lparr>pane_sum = pane_sum p + v, pane_count = of_nat (unat (pane_count p) + 1)\<rparr>
     else Inl (OverflowError ''pane aggregate overflow''))"
proof -
  have "pane_count p = u64_max \<longleftrightarrow> \<not> unat (pane_count p) + 1 < 2 ^ 64"
  proof -
    have "unat u64_max + 1 = 2 ^ 64" by (simp add: u64_max_def unsigned_minus_1_eq_mask mask_eq_exp_minus_1)
    moreover have "unat (pane_count p) < 2 ^ 64" using unsigned_less [of "pane_count p", where 'a = nat] by simp
    ultimately show ?thesis by (auto simp: word_unat_eq_iff)
  qed
  then show ?thesis
    using assms by (auto simp: pane_add_def in_i64_def)
qed

theorem pane_add_checked_witness:
  "in_i64 (pane_sum empty_pane) \<and> pane_add empty_pane 7 = Inr \<lparr>pane_sum = 7, pane_count = 1\<rparr>"
  using pane_add_checked [of empty_pane 7] by (simp add: empty_pane_def in_i64_def i64_nums)

end
