(* ===== verification/Keyed_Processor.thy ===== *)
theory Keyed_Processor
  imports Window_State
begin

text \<open>
  \<open>KeyedProcessor\<close> (\<open>src/src/engine/keyed_processor.{h,cpp}\<close>): the record, watermark,
  barrier and flush handlers of one worker. What a handler does to its surroundings
  (results emitted, sink flushes, checkpoints written, listener calls) is the list
  \<open>effects\<close>, in order. Whether a checkpoint write succeeds is decided by the file system,
  a parameter of the configuration.

  The abstract specification is one cell per key and window: \<open>cell_step\<close> says what one
  item of the stream does to the pane and to the emitted rows of that cell, without the
  window map, the fired set or the re-fire set. The processor refines every cell.
\<close>

section \<open>State\<close>

record processor_stats =
  records_processed :: u64
  windows_fired :: u64
  windows_refired :: u64
  late_records_accepted :: u64
  late_records_dropped :: u64
  watermarks_advanced :: u64
  checkpoints_written :: u64

definition zero_stats :: processor_stats where
  "zero_stats = \<lparr>records_processed = 0, windows_fired = 0, windows_refired = 0,
     late_records_accepted = 0, late_records_dropped = 0, watermarks_advanced = 0,
     checkpoints_written = 0\<rparr>"

datatype effect =
    Emit window_result
  | Flush
  | WriteCheckpoint u64 timestamp keyed_window_state
  | CheckpointListener u64

record processor_config =
  assigner :: window_assigner
  lateness :: duration
  checkpoint_dir :: string
  checkpoint_write_ok :: "u64 \<Rightarrow> timestamp \<Rightarrow> keyed_window_state \<Rightarrow> bool"

record processor =
  watermark :: timestamp
  state :: keyed_window_state
  stats :: processor_stats
  effects :: "effect list"

definition use_lateness :: "processor_config \<Rightarrow> bool" where
  "use_lateness cfg = (lateness cfg > 0)"

definition new_processor :: "processor_config \<Rightarrow> processor res" where
  "new_processor cfg =
     (if lateness cfg < 0 then Inl (InvalidArgument ''lateness must be nonnegative'')
      else bind_res
        (if use_lateness cfg then set_allowed_lateness empty_state (lateness cfg)
         else Inr empty_state)
        (\<lambda>s. Inr \<lparr>watermark = wm_initial, state = s, stats = zero_stats, effects = []\<rparr>))"

section \<open>Records\<close>

text \<open>The loop over the assigned windows: state, \<open>any_dropped\<close>, \<open>any_late_accepted\<close>.\<close>

definition process_window ::
    "processor_config \<Rightarrow> timestamp \<Rightarrow> data_record \<Rightarrow> window \<Rightarrow>
     keyed_window_state \<times> bool \<times> bool \<Rightarrow> (keyed_window_state \<times> bool \<times> bool) res" where
  "process_window cfg wm r w acc =
     (case acc of (s, any_dropped, any_late_accepted) \<Rightarrow>
        (if use_lateness cfg then
           (let was_fired = is_fired s w
            in bind_res (add_with_lateness s (key r) w (val r) wm) (\<lambda>(accepted, s').
                 Inr (if \<not> accepted then (s', True, any_late_accepted)
                      else if was_fired then (s', any_dropped, True)
                      else (s', any_dropped, any_late_accepted))))
         else
           bind_res (add_with_lateness s (key r) w (val r) wm) (\<lambda>(accepted, s').
             Inr (if \<not> accepted then (s', True, any_late_accepted)
                  else (s', any_dropped, any_late_accepted)))))"

definition count_record :: "bool \<Rightarrow> bool \<Rightarrow> processor_stats \<Rightarrow> processor_stats" where
  "count_record any_dropped any_late_accepted st =
     st\<lparr>late_records_dropped := late_records_dropped st + (if any_dropped then 1 else 0),
        late_records_accepted := late_records_accepted st + (if any_late_accepted then 1 else 0),
        records_processed := records_processed st + 1\<rparr>"

definition process_record :: "processor_config \<Rightarrow> data_record \<Rightarrow> processor \<Rightarrow> processor res" where
  "process_record cfg r p =
     bind_res (assign_windows (assigner cfg) (event_time r)) (\<lambda>ws.
       bind_res (fold_res (process_window cfg (watermark p) r) ws (state p, False, False))
         (\<lambda>(s, any_dropped, any_late_accepted).
            Inr (p\<lparr>state := s, stats := count_record any_dropped any_late_accepted (stats p)\<rparr>)))"

section \<open>Control records\<close>

text \<open>\<open>for (auto& result : state_.FireWindow(w)) sink_.Emit(result);\<close>\<close>

definition fire_and_emit :: "window \<Rightarrow> processor \<Rightarrow> processor" where
  "fire_and_emit w p =
     (let (rows, s) = fire_window (state p) w
      in p\<lparr>state := s, effects := effects p @ map Emit rows\<rparr>)"

definition fire_first :: "window \<Rightarrow> processor \<Rightarrow> processor" where
  "fire_first w p =
     (let p' = fire_and_emit w p
      in p'\<lparr>stats := (stats p')\<lparr>windows_fired := windows_fired (stats p') + 1\<rparr>\<rparr>)"

definition fire_again :: "window \<Rightarrow> processor \<Rightarrow> processor" where
  "fire_again w p =
     (let p' = fire_and_emit w p
      in p'\<lparr>stats := (stats p')\<lparr>windows_refired := windows_refired (stats p') + 1\<rparr>\<rparr>)"

text \<open>The re-fire loop followed by \<open>ClearRefired\<close>.\<close>

definition refire_all :: "processor \<Rightarrow> processor" where
  "refire_all p =
     (let p' = fold fire_again (refired_windows (state p)) p
      in p'\<lparr>state := clear_refired (state p')\<rparr>)"

definition collect_garbage :: "processor \<Rightarrow> processor" where
  "collect_garbage p =
     p\<lparr>state := garbage_collect (state p) (garbage_collectable (state p) (watermark p))\<rparr>"

definition process_watermark :: "processor_config \<Rightarrow> timestamp \<Rightarrow> processor \<Rightarrow> processor" where
  "process_watermark cfg wm p =
     (let (advanced, current) = wm_advance (watermark p) wm in
      if advanced then
        (let p1 = p\<lparr>watermark := current\<rparr>;
             p2 = fold fire_first (expired_windows (state p1) current) p1;
             p3 = (if use_lateness cfg then collect_garbage (refire_all p2) else p2)
         in p3\<lparr>stats := (stats p3)\<lparr>watermarks_advanced := watermarks_advanced (stats p3) + 1\<rparr>\<rparr>)
      else p\<lparr>watermark := current\<rparr>)"

definition process_barrier :: "processor_config \<Rightarrow> u64 \<Rightarrow> processor \<Rightarrow> processor res" where
  "process_barrier cfg off p =
     (if checkpoint_dir cfg \<noteq> [] then
        (let p1 = p\<lparr>effects := effects p @ [Flush]\<rparr> in
         if checkpoint_write_ok cfg off (watermark p1) (state p1) then
           Inr (p1\<lparr>effects := effects p1 @
                     [WriteCheckpoint off (watermark p1) (state p1), CheckpointListener off],
                   stats := (stats p1)\<lparr>checkpoints_written := checkpoints_written (stats p1) + 1\<rparr>\<rparr>)
         else Inl (RuntimeError ''partition checkpoint write failed''))
      else Inr p)"

definition process_control :: "processor_config \<Rightarrow> control_record \<Rightarrow> processor \<Rightarrow> processor res" where
  "process_control cfg c p =
     (case ctype c of
        KWatermark \<Rightarrow> Inr (process_watermark cfg (cwatermark c) p)
      | KCheckpointBarrier \<Rightarrow> process_barrier cfg (checkpoint_offset c) p)"

definition process_item :: "processor_config \<Rightarrow> batch_item \<Rightarrow> processor \<Rightarrow> processor res" where
  "process_item cfg it p =
     (case it of Data r \<Rightarrow> process_record cfg r p | Control c \<Rightarrow> process_control cfg c p)"

text \<open>
  An exception leaves no processor. The only sink call a throwing item makes first is the flush of a
  barrier whose checkpoint cannot be written.
\<close>

definition thrown_calls :: "processor_config \<Rightarrow> batch_item \<Rightarrow> effect list" where
  "thrown_calls cfg it =
     (case it of
        Data r \<Rightarrow> []
      | Control c \<Rightarrow> (if ctype c = KCheckpointBarrier \<and> checkpoint_dir cfg \<noteq> [] then [Flush] else []))"

section \<open>Final flush\<close>

definition final_flush :: "processor_config \<Rightarrow> processor \<Rightarrow> processor" where
  "final_flush cfg p =
     (let p' =
        (if use_lateness cfg then
           (let p1 = refire_all p;
                p2 = fold (\<lambda>w q. if \<not> is_fired (state q) w then fire_first w q else q)
                          (all_windows (state p1)) p1
            in p2\<lparr>state := garbage_collect (state p2) (all_windows (state p2))\<rparr>)
         else fold fire_first (all_windows (state p)) p)
      in p'\<lparr>effects := effects p' @ [Flush]\<rparr>)"

section \<open>Capture and restore\<close>

record pane_entry =
  entry_key :: string
  entry_window :: window
  entry_sum :: int
  entry_count :: u64

record checkpoint_data =
  cd_offset :: u64
  cd_watermark :: timestamp
  cd_panes :: "pane_entry list"
  cd_refired :: "window list"
  cd_fired :: "window list"

definition restore :: "checkpoint_data \<Rightarrow> processor \<Rightarrow> processor" where
  "restore d p =
     (let s1 = fold (\<lambda>e. restore_pane (entry_key e) (entry_window e) (entry_sum e) (entry_count e))
                 (cd_panes d) (state p);
          s2 = (if cd_fired d \<noteq> [] then restore_fired (cd_fired d) s1 else s1);
          s3 = restore_refired (cd_refired d) s2
      in p\<lparr>state := s3, watermark := snd (wm_advance (watermark p) (cd_watermark d))\<rparr>)"

definition capture :: "u64 \<Rightarrow> processor \<Rightarrow> checkpoint_data" where
  "capture off p =
     \<lparr>cd_offset = off, cd_watermark = watermark p,
      cd_panes = map (\<lambda>(k, w, q). \<lparr>entry_key = k, entry_window = w,
                        entry_sum = pane_sum q, entry_count = pane_count q\<rparr>)
                   (each_pane (state p)),
      cd_refired = refired_windows (state p), cd_fired = fired_windows (state p)\<rparr>"

text \<open>A whole run: the items in order.\<close>

definition run_items :: "processor_config \<Rightarrow> batch_item list \<Rightarrow> processor \<Rightarrow> processor res" where
  "run_items cfg = fold_res (process_item cfg)"

section \<open>The specification of one cell\<close>

text \<open>
  A cell follows one key and one window: the current watermark, the live pane and the set
  of rows emitted so far.
\<close>

record cell =
  c_wm :: timestamp
  c_pane :: "pane option"
  c_rows :: "pane set"

definition rows_of :: "string \<Rightarrow> window \<Rightarrow> effect list \<Rightarrow> pane set" where
  "rows_of k w es = {p. Emit (window_row k w (pane_result p)) \<in> set es}"

definition cell_of :: "processor \<Rightarrow> string \<Rightarrow> window \<Rightarrow> cell" where
  "cell_of p k w =
     \<lparr>c_wm = watermark p, c_pane = pane_at (state p) w k, c_rows = rows_of k w (effects p)\<rparr>"

definition assigned :: "processor_config \<Rightarrow> timestamp \<Rightarrow> window \<Rightarrow> bool" where
  "assigned cfg t w = (case assign_windows (assigner cfg) t of Inl e \<Rightarrow> False | Inr ws \<Rightarrow> w \<in> set ws)"

definition grow :: "pane option \<Rightarrow> int \<Rightarrow> pane" where
  "grow c v = (case c of None \<Rightarrow> \<lparr>pane_sum = v, pane_count = 1\<rparr>
                       | Some p \<Rightarrow> \<lparr>pane_sum = pane_sum p + v, pane_count = pane_count p + 1\<rparr>)"

definition cell_record :: "processor_config \<Rightarrow> string \<Rightarrow> window \<Rightarrow> data_record \<Rightarrow> cell \<Rightarrow> cell" where
  "cell_record cfg k w r c =
     (if key r = k \<and> assigned cfg (event_time r) w \<and> c_wm c < deadline (lateness cfg) w
      then c\<lparr>c_pane := Some (grow (c_pane c) (val r))\<rparr> else c)"

definition cell_watermark :: "processor_config \<Rightarrow> window \<Rightarrow> timestamp \<Rightarrow> cell \<Rightarrow> cell" where
  "cell_watermark cfg w wm c =
     (if wm > c_wm c then
        \<lparr>c_wm = wm,
         c_pane = (if wm \<ge> deadline (lateness cfg) w then None else c_pane c),
         c_rows = (if wend w \<le> wm then c_rows c \<union> set_option (c_pane c) else c_rows c)\<rparr>
      else c)"

definition cell_step :: "processor_config \<Rightarrow> string \<Rightarrow> window \<Rightarrow> batch_item \<Rightarrow> cell \<Rightarrow> cell" where
  "cell_step cfg k w it c =
     (case it of
        Data r \<Rightarrow> cell_record cfg k w r c
      | Control ctl \<Rightarrow>
          (case ctype ctl of KWatermark \<Rightarrow> cell_watermark cfg w (cwatermark ctl) c
                           | KCheckpointBarrier \<Rightarrow> c))"

definition cell_flush :: "cell \<Rightarrow> cell" where
  "cell_flush c = c\<lparr>c_pane := None, c_rows := c_rows c \<union> set_option (c_pane c)\<rparr>"

definition empty_cell :: cell where
  "empty_cell = \<lparr>c_wm = wm_initial, c_pane = None, c_rows = {}\<rparr>"

section \<open>Firing\<close>

text \<open>
  What the three firing loops share: a step that fires one window, emits its rows and
  leaves the watermark alone. The effect of a whole loop is proved once in this locale.
\<close>

locale window_firing =
  fixes fire :: "window \<Rightarrow> processor \<Rightarrow> processor"
  assumes fire_state: "state (fire w p) = snd (fire_window (state p) w)"
    and fire_effects: "effects (fire w p) = effects p @ map Emit (fst (fire_window (state p) w))"
    and fire_watermark: "watermark (fire w p) = watermark p"
begin

lemma rows_fire:
  assumes "kws_wf (state p)"
  shows "rows_of k w (effects (fire v p)) =
    rows_of k w (effects p) \<union> (if w = v then set_option (pane_at (state p) w k) else {})"
  using set_fire_window [OF assms, of v]
  by (auto simp: rows_of_def fire_effects image_iff)

lemma fold_fire_all:
  assumes "kws_wf (state p)"
  shows "kws_wf (state (fold fire ws p)) \<and>
    watermark (fold fire ws p) = watermark p \<and>
    refired_windows (state (fold fire ws p)) = refired_windows (state p) \<and>
    allowed_lateness (state (fold fire ws p)) = allowed_lateness (state p) \<and>
    (\<forall>w. pane_at (state (fold fire ws p)) w =
       (if allowed_lateness (state p) = 0 \<and> w \<in> set ws then Map.empty else pane_at (state p) w)) \<and>
    set (fired_windows (state (fold fire ws p))) =
       set (fired_windows (state p)) \<union>
       (if allowed_lateness (state p) = 0 then {} else {w \<in> set ws. pane_at (state p) w \<noteq> Map.empty}) \<and>
    (\<forall>k w. rows_of k w (effects (fold fire ws p)) =
       rows_of k w (effects p) \<union> (if w \<in> set ws then set_option (pane_at (state p) w k) else {}))"
  using assms
proof (induction ws arbitrary: p)
  case (Cons v ws)
  note fw = fire_window_state [OF Cons.prems, of v, folded fire_state]
  have pane: "pane_at (state (fire v p)) w k =
      (if allowed_lateness (state p) = 0 \<and> w = v then None else pane_at (state p) w k)" for w k
    using fw(1) by (simp add: fun_eq_iff)
  have "rows_of k w (effects (fold fire (v # ws) p)) = rows_of k w (effects p) \<union>
      (if w \<in> set (v # ws) then set_option (pane_at (state p) w k) else {})" for k w
    using Cons.IH [OF fw(5)] rows_fire [OF Cons.prems, of k w v] pane by auto
  with Cons.IH [OF fw(5)] fw fire_watermark [of v p] show ?case
    by (auto simp: fun_eq_iff)
qed simp

lemma fold_fire:
  assumes "kws_wf (state p)"
  shows "kws_wf (state (fold fire ws p))"
    "watermark (fold fire ws p) = watermark p"
    "refired_windows (state (fold fire ws p)) = refired_windows (state p)"
    "allowed_lateness (state (fold fire ws p)) = allowed_lateness (state p)"
    "pane_at (state (fold fire ws p)) w =
       (if allowed_lateness (state p) = 0 \<and> w \<in> set ws then Map.empty else pane_at (state p) w)"
    "set (fired_windows (state (fold fire ws p))) =
       set (fired_windows (state p)) \<union>
       (if allowed_lateness (state p) = 0 then {} else {w \<in> set ws. pane_at (state p) w \<noteq> Map.empty})"
    "rows_of k w (effects (fold fire ws p)) =
       rows_of k w (effects p) \<union> (if w \<in> set ws then set_option (pane_at (state p) w k) else {})"
  using fold_fire_all [OF assms, of ws] by blast+

end

interpretation first: window_firing fire_first
  by unfold_locales (simp_all add: fire_first_def fire_and_emit_def Let_def split_def)

interpretation again: window_firing fire_again
  by unfold_locales (simp_all add: fire_again_def fire_and_emit_def Let_def split_def)

section \<open>The invariant\<close>

text \<open>
  Every live pane belongs to a window that is still within its deadline; a window marked
  fired has ended, and unless late data has marked it for re-firing its current panes
  have been emitted. With no lateness nothing is ever marked fired.
\<close>

definition processor_inv :: "processor_config \<Rightarrow> processor \<Rightarrow> bool" where
  "processor_inv cfg p \<longleftrightarrow>
     kws_wf (state p) \<and> 0 \<le> lateness cfg \<and> allowed_lateness (state p) = lateness cfg \<and>
     (\<forall>w k q. pane_at (state p) w k = Some q \<longrightarrow>
        wend w \<le> i64_max \<and> watermark p < deadline (lateness cfg) w) \<and>
     (lateness cfg = 0 \<longrightarrow> fired_windows (state p) = []) \<and>
     (\<forall>w \<in> set (fired_windows (state p)). wend w \<le> watermark p \<and>
        (w \<notin> set (refired_windows (state p)) \<longrightarrow>
           (\<forall>k q. pane_at (state p) w k = Some q \<longrightarrow> q \<in> rows_of k w (effects p))))"

lemma processor_invD:
  assumes "processor_inv cfg p"
  shows "kws_wf (state p)" "0 \<le> lateness cfg" "allowed_lateness (state p) = lateness cfg"
    "pane_at (state p) w k = Some q \<Longrightarrow> wend w \<le> i64_max"
    "pane_at (state p) w k = Some q \<Longrightarrow> watermark p < deadline (lateness cfg) w"
    "lateness cfg = 0 \<Longrightarrow> fired_windows (state p) = []"
    "w \<in> set (fired_windows (state p)) \<Longrightarrow> wend w \<le> watermark p"
    "w \<in> set (fired_windows (state p)) \<Longrightarrow> w \<notin> set (refired_windows (state p)) \<Longrightarrow>
       pane_at (state p) w k = Some q \<Longrightarrow> q \<in> rows_of k w (effects p)"
  using assms unfolding processor_inv_def by blast+

lemma new_processor_inv:
  assumes "new_processor cfg = Inr p"
  shows "processor_inv cfg p" "cell_of p k w = empty_cell"
proof -
  have l: "0 \<le> lateness cfg" using assms by (auto simp: new_processor_def split: if_splits)
  have p: "p = \<lparr>watermark = wm_initial, state = empty_state\<lparr>allowed_lateness := lateness cfg\<rparr>,
      stats = zero_stats, effects = []\<rparr>"
    using assms by (auto simp: new_processor_def set_allowed_lateness_def use_lateness_def
        empty_state_def split: if_splits)
  show "processor_inv cfg p"
    using l by (simp add: p processor_inv_def kws_wf_def pane_at_def empty_state_def)
  show "cell_of p k w = empty_cell"
    by (simp add: p cell_of_def empty_cell_def pane_at_def empty_state_def rows_of_def)
qed

lemma new_processor_total: "0 \<le> lateness cfg \<Longrightarrow> \<exists>p. new_processor cfg = Inr p"
  by (simp add: new_processor_def set_allowed_lateness_def)

lemma rows_of_append_other [simp]:
  "rows_of k w (es @ [Flush]) = rows_of k w es"
  "rows_of k w (es @ [Flush, WriteCheckpoint off wm s, CheckpointListener off']) = rows_of k w es"
  by (simp_all add: rows_of_def)

section \<open>Records refine the cells\<close>

lemma pane_add_grow:
  "pane_add (case c of None \<Rightarrow> empty_pane | Some p \<Rightarrow> p) v = Inr p' \<Longrightarrow> p' = grow c v"
  by (auto simp: pane_add_def grow_def empty_pane_def split: if_splits option.splits)

lemma process_window_cases:
  assumes "process_window cfg wm r w (s, d, l) = Inr (s', d', l')"
    and "kws_wf s" "allowed_lateness s = lateness cfg"
  shows "kws_wf s' \<and> allowed_lateness s' = lateness cfg \<and> fired_windows s' = fired_windows s \<and>
    set (refired_windows s') = set (refired_windows s) \<union>
      {v \<in> {w}. v \<in> set (fired_windows s) \<and> wm < deadline (lateness cfg) v} \<and>
    (\<forall>v k. pane_at s' v k = (if v = w \<and> key r = k \<and> wm < deadline (lateness cfg) v
       then Some (grow (pane_at s v k) (val r)) else pane_at s v k)) \<and>
    d' = (d \<or> deadline (lateness cfg) w \<le> wm) \<and>
    l' = (l \<or> use_lateness cfg \<and> wm < deadline (lateness cfg) w \<and> w \<in> set (fired_windows s)) \<and>
    (wm < deadline (lateness cfg) w \<longrightarrow>
       pane_add (case pane_at s w (key r) of None \<Rightarrow> empty_pane | Some p \<Rightarrow> p) (val r) =
       Inr (grow (pane_at s w (key r)) (val r)))"
proof -
  obtain b t where step: "add_with_lateness s (key r) w (val r) wm = Inr (b, t)"
    and out: "s' = t" "d' = (d \<or> \<not> b)" "l' = (l \<or> use_lateness cfg \<and> b \<and> w \<in> set (fired_windows s))"
    using assms(1) by (auto simp: process_window_def Let_def is_fired_def split: if_splits)
  show ?thesis
  proof (cases "deadline (lateness cfg) w \<le> wm")
    case True
    then show ?thesis
      using step out assms(2,3) by (auto simp: add_with_lateness_late)
  next
    case False
    then have lt: "wm < deadline (allowed_lateness s) w" using assms(3) by simp
    obtain p where p: "pane_add (case pane_at s w (key r) of None \<Rightarrow> empty_pane | Some p \<Rightarrow> p) (val r) = Inr p"
      "pane_at t = (pane_at s)(w := (pane_at s w)(key r \<mapsto> p))" "b"
      "fired_windows t = fired_windows s" "allowed_lateness t = allowed_lateness s"
      "set (refired_windows t) = set (refired_windows s) \<union> ({w} \<inter> set (fired_windows s))" "kws_wf t"
      using add_with_lateness_accepted [OF step lt] assms(2) by metis
    show ?thesis
      using p out assms(3) lt pane_add_grow [OF p(1)] by (auto simp: fun_eq_iff)
  qed
qed

lemma fold_process_window:
  assumes "fold_res (process_window cfg wm r) ws (s, d, l) = Inr (s', d', l')"
    and "distinct ws" "kws_wf s" "allowed_lateness s = lateness cfg"
  shows "kws_wf s' \<and> allowed_lateness s' = lateness cfg \<and> fired_windows s' = fired_windows s \<and>
    set (refired_windows s') = set (refired_windows s) \<union>
      {v \<in> set ws. v \<in> set (fired_windows s) \<and> wm < deadline (lateness cfg) v} \<and>
    (\<forall>v k. pane_at s' v k = (if v \<in> set ws \<and> key r = k \<and> wm < deadline (lateness cfg) v
       then Some (grow (pane_at s v k) (val r)) else pane_at s v k)) \<and>
    d' = (d \<or> (\<exists>w \<in> set ws. deadline (lateness cfg) w \<le> wm)) \<and>
    l' = (l \<or> use_lateness cfg \<and>
          (\<exists>w \<in> set ws. wm < deadline (lateness cfg) w \<and> w \<in> set (fired_windows s)))"
  using assms
proof (induction ws arbitrary: s d l)
  case (Cons w ws)
  then obtain s1 d1 l1 where
    1: "process_window cfg wm r w (s, d, l) = Inr (s1, d1, l1)"
    and 2: "fold_res (process_window cfg wm r) ws (s1, d1, l1) = Inr (s', d', l')"
    by auto
  note A = process_window_cases [OF 1 Cons.prems(3,4)]
  have "distinct ws" "w \<notin> set ws" using Cons.prems(2) by auto
  with Cons.IH [OF 2] A show ?case by auto
qed simp

text \<open>In a loop that does not throw, every accepted addition was exact.\<close>

lemma fold_process_window_exact:
  assumes "fold_res (process_window cfg wm r) ws (s, d, l) = Inr (s', d', l')"
    and "distinct ws" "kws_wf s" "allowed_lateness s = lateness cfg"
    and "w \<in> set ws" "wm < deadline (lateness cfg) w"
  shows "pane_add (case pane_at s w (key r) of None \<Rightarrow> empty_pane | Some p \<Rightarrow> p) (val r) =
    Inr (grow (pane_at s w (key r)) (val r))"
  using assms
proof (induction ws arbitrary: s d l)
  case (Cons v ws)
  then obtain s1 d1 l1 where
    1: "process_window cfg wm r v (s, d, l) = Inr (s1, d1, l1)"
    and 2: "fold_res (process_window cfg wm r) ws (s1, d1, l1) = Inr (s', d', l')"
    by auto
  note A = process_window_cases [OF 1 Cons.prems(3,4)]
  show ?case
  proof (cases "w = v")
    case True
    with A Cons.prems(6) show ?thesis by simp
  next
    case False
    then have "w \<in> set ws" "pane_at s1 w (key r) = pane_at s w (key r)"
      using A Cons.prems(5) by auto
    with Cons.IH [OF 2] A Cons.prems show ?thesis by simp
  qed
qed simp

lemma process_record_refines:
  assumes "process_record cfg r p = Inr p'" "processor_inv cfg p"
    and "lawful_assigner (assigner cfg) width"
  shows "processor_inv cfg p'" "cell_of p' k w = cell_record cfg k w r (cell_of p k w)"
    and "effects p' = effects p" "watermark p' = watermark p"
    and "assign_windows (assigner cfg) (event_time r) = Inr ws \<Longrightarrow>
      late_records_dropped (stats p') = late_records_dropped (stats p) +
        (if \<exists>w \<in> set ws. deadline (lateness cfg) w \<le> watermark p then 1 else 0)"
    and "records_processed (stats p') = records_processed (stats p) + 1"
    and "watermarks_advanced (stats p') = watermarks_advanced (stats p)"
    and "assigned cfg (event_time r) w \<Longrightarrow> watermark p < deadline (lateness cfg) w \<Longrightarrow>
      pane_add (case pane_at (state p) w (key r) of None \<Rightarrow> empty_pane | Some q \<Rightarrow> q) (val r) =
      Inr (grow (pane_at (state p) w (key r)) (val r))"
proof -
  obtain vs s d l where vs: "assign_windows (assigner cfg) (event_time r) = Inr vs"
    and f: "fold_res (process_window cfg (watermark p) r) vs (state p, False, False) = Inr (s, d, l)"
    and p': "p' = p\<lparr>state := s, stats := count_record d l (stats p)\<rparr>"
    using assms(1) by (auto simp: process_record_def split: prod.splits)
  note I = processor_invD [OF assms(2)]
  note F = fold_process_window [OF f lawful_distinct [OF assms(3) vs] I(1,3)]
  have asg: "assigned cfg (event_time r) v = (v \<in> set vs)" for v
    by (simp add: assigned_def vs)
  show cell: "cell_of p' k w = cell_record cfg k w r (cell_of p k w)" for k w
    using F by (auto simp: p' cell_of_def cell_record_def asg)
  show "effects p' = effects p" "watermark p' = watermark p" by (simp_all add: p')
  show "assigned cfg (event_time r) w \<Longrightarrow> watermark p < deadline (lateness cfg) w \<Longrightarrow>
      pane_add (case pane_at (state p) w (key r) of None \<Rightarrow> empty_pane | Some q \<Rightarrow> q) (val r) =
      Inr (grow (pane_at (state p) w (key r)) (val r))"
    using fold_process_window_exact [OF f lawful_distinct [OF assms(3) vs] I(1,3)] by (simp add: asg)
  show "records_processed (stats p') = records_processed (stats p) + 1"
    "watermarks_advanced (stats p') = watermarks_advanced (stats p)"
    by (simp_all add: p' count_record_def)
  show "assign_windows (assigner cfg) (event_time r) = Inr ws \<Longrightarrow>
      late_records_dropped (stats p') = late_records_dropped (stats p) +
        (if \<exists>w \<in> set ws. deadline (lateness cfg) w \<le> watermark p then 1 else 0)"
    using F by (simp add: p' count_record_def vs)
  show "processor_inv cfg p'"
    unfolding processor_inv_def p'
    using F I lawful_window(4) [OF assms(3) vs] by (auto split: if_splits)
qed

section \<open>Watermarks refine the cells\<close>

lemma fire_watermarks_advanced [simp]:
  "watermarks_advanced (stats (fire_first w p)) = watermarks_advanced (stats p)"
  "watermarks_advanced (stats (fire_again w p)) = watermarks_advanced (stats p)"
  by (simp_all add: fire_first_def fire_again_def fire_and_emit_def Let_def split_def)

lemma fire_record_counts [simp]:
  "late_records_dropped (stats (fire_first w p)) = late_records_dropped (stats p)"
  "late_records_dropped (stats (fire_again w p)) = late_records_dropped (stats p)"
  "records_processed (stats (fire_first w p)) = records_processed (stats p)"
  "records_processed (stats (fire_again w p)) = records_processed (stats p)"
  by (simp_all add: fire_first_def fire_again_def fire_and_emit_def Let_def split_def)

lemma fold_same:
  assumes "\<And>x s. f (g x s) = f s"
  shows "f (fold g xs s) = f s"
  by (induction xs arbitrary: s) (simp_all add: assms)

lemma process_watermark_counts:
  "watermarks_advanced (stats (process_watermark cfg wm p)) =
     watermarks_advanced (stats p) + (if watermark p < wm then 1 else 0)"
  "late_records_dropped (stats (process_watermark cfg wm p)) = late_records_dropped (stats p)"
  "records_processed (stats (process_watermark cfg wm p)) = records_processed (stats p)"
  by (simp_all add: process_watermark_def wm_advance_def Let_def refire_all_def collect_garbage_def
      fold_same [of "\<lambda>p. watermarks_advanced (stats p)" fire_first]
      fold_same [of "\<lambda>p. watermarks_advanced (stats p)" fire_again]
      fold_same [of "\<lambda>p. late_records_dropped (stats p)" fire_first]
      fold_same [of "\<lambda>p. late_records_dropped (stats p)" fire_again]
      fold_same [of "\<lambda>p. records_processed (stats p)" fire_first]
      fold_same [of "\<lambda>p. records_processed (stats p)" fire_again])

lemma refire_all_effect:
  assumes "kws_wf (state p)" "allowed_lateness (state p) \<noteq> 0"
  shows "kws_wf (state (refire_all p))" "watermark (refire_all p) = watermark p"
    "refired_windows (state (refire_all p)) = []"
    "allowed_lateness (state (refire_all p)) = allowed_lateness (state p)"
    "pane_at (state (refire_all p)) = pane_at (state p)"
    "set (fired_windows (state (refire_all p))) = set (fired_windows (state p))"
    "rows_of k w (effects (refire_all p)) = rows_of k w (effects p) \<union>
       (if w \<in> set (refired_windows (state p)) then set_option (pane_at (state p) w k) else {})"
  using again.fold_fire [OF assms(1), where ws = "refired_windows (state p)"] assms(2)
    kws_wfD(4) [OF assms(1)]
  by (auto simp: refire_all_def Let_def inv_intros)

lemma collect_garbage_effect:
  assumes "kws_wf (state p)"
  shows "kws_wf (state (collect_garbage p))" "watermark (collect_garbage p) = watermark p"
    "effects (collect_garbage p) = effects p"
    "allowed_lateness (state (collect_garbage p)) = allowed_lateness (state p)"
    "set (refired_windows (state (collect_garbage p))) \<subseteq> set (refired_windows (state p))"
    "pane_at (state (collect_garbage p)) w k =
       (if w \<in> set (fired_windows (state p)) \<and> deadline (allowed_lateness (state p)) w \<le> watermark p
        then None else pane_at (state p) w k)"
    "set (fired_windows (state (collect_garbage p))) =
       {w \<in> set (fired_windows (state p)). watermark p < deadline (allowed_lateness (state p)) w}"
  by (auto simp: collect_garbage_def garbage_collect_fields pane_at_garbage_collect assms
      set_garbage_collectable inv_intros)

text \<open>The state after the expired windows have fired.\<close>

definition after_expiry :: "timestamp \<Rightarrow> processor \<Rightarrow> processor" where
  "after_expiry wm p =
     fold fire_first (expired_windows (state p) wm) (p\<lparr>watermark := wm\<rparr>)"

lemma process_watermark_unfold:
  "watermark p < wm \<Longrightarrow> process_watermark cfg wm p =
     (let q = (if use_lateness cfg then collect_garbage (refire_all (after_expiry wm p))
               else after_expiry wm p)
      in q\<lparr>stats := (stats q)\<lparr>watermarks_advanced := watermarks_advanced (stats q) + 1\<rparr>\<rparr>)"
  "\<not> watermark p < wm \<Longrightarrow> process_watermark cfg wm p = p"
  by (simp_all add: process_watermark_def wm_advance_def after_expiry_def Let_def)

lemma after_expiry_effect:
  assumes "kws_wf (state p)"
  shows "kws_wf (state (after_expiry wm p))" "watermark (after_expiry wm p) = wm"
    "refired_windows (state (after_expiry wm p)) = refired_windows (state p)"
    "allowed_lateness (state (after_expiry wm p)) = allowed_lateness (state p)"
    "pane_at (state (after_expiry wm p)) w k =
       (if allowed_lateness (state p) = 0 \<and> wend w \<le> wm \<and> w \<notin> set (fired_windows (state p))
        then None else pane_at (state p) w k)"
    "set (fired_windows (state (after_expiry wm p))) =
       set (fired_windows (state p)) \<union>
       (if allowed_lateness (state p) = 0 then {}
        else {w. wend w \<le> wm \<and> (\<exists>k q. pane_at (state p) w k = Some q)})"
    "rows_of k w (effects (after_expiry wm p)) = rows_of k w (effects p) \<union>
       (if wend w \<le> wm \<and> w \<notin> set (fired_windows (state p))
        then set_option (pane_at (state p) w k) else {})"
proof -
  let ?p = "p\<lparr>watermark := wm\<rparr>"
  have wf: "kws_wf (state ?p)" using assms by simp
  note F = first.fold_fire [OF wf, where ws = "expired_windows (state p) wm"]
  note E = set_expired_windows [OF assms, of wm]
  show "kws_wf (state (after_expiry wm p))" "watermark (after_expiry wm p) = wm"
    "refired_windows (state (after_expiry wm p)) = refired_windows (state p)"
    "allowed_lateness (state (after_expiry wm p)) = allowed_lateness (state p)"
    using F by (simp_all add: after_expiry_def)
  show "pane_at (state (after_expiry wm p)) w k =
       (if allowed_lateness (state p) = 0 \<and> wend w \<le> wm \<and> w \<notin> set (fired_windows (state p))
        then None else pane_at (state p) w k)"
    using F(5) [of w] by (cases "pane_at (state p) w k") (auto simp: after_expiry_def E fun_eq_iff)
  have ne: "(pane_at (state p) v \<noteq> Map.empty) = (\<exists>k q. pane_at (state p) v k = Some q)" for v
    by (auto simp: fun_eq_iff)
  show "set (fired_windows (state (after_expiry wm p))) =
       set (fired_windows (state p)) \<union>
       (if allowed_lateness (state p) = 0 then {}
        else {w. wend w \<le> wm \<and> (\<exists>k q. pane_at (state p) w k = Some q)})"
    unfolding after_expiry_def F(6) by (auto simp: E ne)
  show "rows_of k w (effects (after_expiry wm p)) = rows_of k w (effects p) \<union>
       (if wend w \<le> wm \<and> w \<notin> set (fired_windows (state p))
        then set_option (pane_at (state p) w k) else {})"
    unfolding after_expiry_def F(7) by (auto simp: E)
qed

lemma process_watermark_refines_late:
  assumes inv: "processor_inv cfg p" and late: "use_lateness cfg" and adv: "watermark p < wm"
  shows "processor_inv cfg (process_watermark cfg wm p) \<and>
    cell_of (process_watermark cfg wm p) k w = cell_watermark cfg w wm (cell_of p k w)"
proof -
  note I = processor_invD [OF inv]
  have l: "lateness cfg \<noteq> 0" using late by (simp add: use_lateness_def)
  let ?a = "after_expiry wm p" and ?b = "refire_all (after_expiry wm p)"
  let ?c = "collect_garbage ?b"
  note A = after_expiry_effect [OF I(1), where wm = wm]
  have la: "allowed_lateness (state ?a) \<noteq> 0" using A(4) I(3) l by simp
  note B = refire_all_effect [OF A(1) la]
  note C = collect_garbage_effect [OF B(1)]
  have lat: "allowed_lateness (state ?b) = lateness cfg" using A(4) B(4) I(3) by simp
  have wmb: "watermark ?b = wm" using A(2) B(2) by simp
  have paneb: "pane_at (state ?b) v j = pane_at (state p) v j" for v j
    using A(5) B(5) I(3) l by simp
  have firedb: "set (fired_windows (state ?b)) = set (fired_windows (state p)) \<union>
      {v. wend v \<le> wm \<and> (\<exists>j q. pane_at (state p) v j = Some q)}"
    using A(6) B(6) I(3) l by simp
  have rowsb: "rows_of j v (effects ?b) = rows_of j v (effects p) \<union>
      (if wend v \<le> wm then set_option (pane_at (state p) v j) else {})" for j v
  proof (cases "pane_at (state p) v j")
    case None
    then show ?thesis using A(5) [of v j] A(7) [of j v] B(7) [of j v] by auto
  next
    case (Some q)
    have "v \<in> set (refired_windows (state p)) \<Longrightarrow> v \<in> set (fired_windows (state p))"
      using kws_wfD(4) [OF I(1)] by blast
    moreover have "v \<in> set (fired_windows (state p)) \<Longrightarrow> wend v \<le> wm" using I(7) adv by fastforce
    ultimately show ?thesis
      using Some A(3) A(5) [of v j] A(7) [of j v] B(7) [of j v] I(8) [of v j q] I(3) l by auto
  qed
  have panec: "pane_at (state ?c) v j =
      (if deadline (lateness cfg) v \<le> wm then None else pane_at (state p) v j)" for v j
  proof (cases "pane_at (state p) v j")
    case None
    then show ?thesis using C(6) [of v j] paneb by simp
  next
    case (Some q)
    then have "deadline (lateness cfg) v \<le> wm \<Longrightarrow> wend v \<le> wm"
      using deadline_ge_end [OF I(2), of v] I(4) by fastforce
    then have "deadline (lateness cfg) v \<le> wm \<Longrightarrow> v \<in> set (fired_windows (state ?b))"
      using Some firedb by blast
    then show ?thesis using C(6) [of v j] paneb lat wmb by auto
  qed
  have rowsc: "rows_of j v (effects ?c) = rows_of j v (effects p) \<union>
      (if wend v \<le> wm then set_option (pane_at (state p) v j) else {})" for j v
    using C(3) rowsb by simp
  let ?q = "process_watermark cfg wm p"
  have q: "state ?q = state ?c" "effects ?q = effects ?c" "watermark ?q = wm"
    using process_watermark_unfold(1) [OF adv, of cfg] late C(2) wmb by (simp_all add: Let_def)
  have cell: "cell_of ?q k w = cell_watermark cfg w wm (cell_of p k w)"
    using adv by (simp add: cell_of_def cell_watermark_def q panec rowsc)
  have "\<forall>v \<in> set (fired_windows (state ?c)). wend v \<le> wm \<and>
      (\<forall>j x. pane_at (state ?c) v j = Some x \<longrightarrow> x \<in> rows_of j v (effects ?c))"
  proof
    fix v
    assume "v \<in> set (fired_windows (state ?c))"
    then have "wend v \<le> wm" using C(7) firedb I(7) adv by fastforce
    then show "wend v \<le> wm \<and>
      (\<forall>j x. pane_at (state ?c) v j = Some x \<longrightarrow> x \<in> rows_of j v (effects ?c))"
      using panec rowsc by (auto split: if_splits)
  qed
  moreover have "wend v \<le> i64_max \<and> wm < deadline (lateness cfg) v"
    if "pane_at (state ?c) v j = Some x" for v j x
    using that panec [of v j] I(4) [of v j x] by (auto split: if_splits)
  ultimately have "processor_inv cfg ?q"
    unfolding processor_inv_def q using C(1,4) lat I(2) l by simp
  with cell show ?thesis by simp
qed

lemma process_watermark_refines_strict:
  assumes inv: "processor_inv cfg p" and late: "\<not> use_lateness cfg" and adv: "watermark p < wm"
  shows "processor_inv cfg (process_watermark cfg wm p) \<and>
    cell_of (process_watermark cfg wm p) k w = cell_watermark cfg w wm (cell_of p k w)"
proof -
  note I = processor_invD [OF inv]
  have l: "lateness cfg = 0" using late I(2) by (simp add: use_lateness_def)
  have nofired: "fired_windows (state p) = []" using I(6) [OF l] .
  note A = after_expiry_effect [OF I(1), where wm = wm]
  let ?q = "process_watermark cfg wm p"
  have q: "state ?q = state (after_expiry wm p)" "effects ?q = effects (after_expiry wm p)"
    "watermark ?q = wm"
    using process_watermark_unfold(1) [OF adv, of cfg] late A(2) by (simp_all add: Let_def)
  have pane: "pane_at (state ?q) v j = (if wend v \<le> wm then None else pane_at (state p) v j)" for v j
    using A(5) [of v j] I(3) l nofired by (simp add: q)
  have rows: "rows_of j v (effects ?q) = rows_of j v (effects p) \<union>
      (if wend v \<le> wm then set_option (pane_at (state p) v j) else {})" for j v
    using A(7) [of j v] nofired by (simp add: q)
  have dl: "deadline (lateness cfg) v = wend v" if "pane_at (state p) v j = Some x" for v j x
    using I(4) [OF that] l by (simp add: deadline_0)
  have "cell_of ?q k w = cell_watermark cfg w wm (cell_of p k w)"
    using adv dl [of w k] by (cases "pane_at (state p) w k") (simp_all add: cell_of_def cell_watermark_def q(3) pane rows)
  moreover have "fired_windows (state ?q) = []"
    using A(6) I(3) l nofired by (simp add: q)
  moreover have "wend v \<le> i64_max \<and> wm < deadline (lateness cfg) v"
    if "pane_at (state ?q) v j = Some x" for v j x
    using that pane [of v j] I(4) [of v j x] dl [of v j x] by (auto split: if_splits)
  ultimately show ?thesis
    using A(1,4) I(2,3) unfolding processor_inv_def by (simp add: q)
qed

lemma process_watermark_refines:
  assumes "processor_inv cfg p"
  shows "processor_inv cfg (process_watermark cfg wm p)"
    "cell_of (process_watermark cfg wm p) k w = cell_watermark cfg w wm (cell_of p k w)"
proof -
  have "processor_inv cfg (process_watermark cfg wm p) \<and>
    cell_of (process_watermark cfg wm p) k w = cell_watermark cfg w wm (cell_of p k w)"
  proof (cases "watermark p < wm")
    case True
    then show ?thesis
      using process_watermark_refines_late [OF assms] process_watermark_refines_strict [OF assms]
      by blast
  next
    case False
    then show ?thesis
      using assms by (simp add: process_watermark_unfold(2) cell_watermark_def cell_of_def)
  qed
  then show "processor_inv cfg (process_watermark cfg wm p)"
    "cell_of (process_watermark cfg wm p) k w = cell_watermark cfg w wm (cell_of p k w)"
    by blast+
qed

section \<open>Runs refine the cells\<close>

lemma process_barrier_refines:
  assumes "process_barrier cfg off p = Inr p'" "processor_inv cfg p"
  shows "processor_inv cfg p'" "cell_of p' k w = cell_of p k w"
    "watermark p' = watermark p" "state p' = state p"
    "late_records_dropped (stats p') = late_records_dropped (stats p)"
    "records_processed (stats p') = records_processed (stats p)"
    "watermarks_advanced (stats p') = watermarks_advanced (stats p)"
proof -
  have p': "state p' = state p" "watermark p' = watermark p"
    "rows_of k w (effects p') = rows_of k w (effects p)" for k w
    using assms(1) by (auto simp: process_barrier_def Let_def split: if_splits)
  show "state p' = state p" "watermark p' = watermark p" by (fact p')+
  show "processor_inv cfg p'" "cell_of p' k w = cell_of p k w"
    using assms(2) unfolding processor_inv_def cell_of_def p' by blast+
  show "late_records_dropped (stats p') = late_records_dropped (stats p)"
    "records_processed (stats p') = records_processed (stats p)"
    "watermarks_advanced (stats p') = watermarks_advanced (stats p)"
    using assms(1) by (auto simp: process_barrier_def Let_def split: if_splits)
qed

lemma process_item_refines:
  assumes "process_item cfg it p = Inr p'" "processor_inv cfg p"
    and "lawful_assigner (assigner cfg) width"
  shows "processor_inv cfg p' \<and> cell_of p' k w = cell_step cfg k w it (cell_of p k w)"
proof (cases it)
  case (Data r)
  then show ?thesis
    using assms process_record_refines(1,2) by (simp add: process_item_def cell_step_def)
next
  case (Control c)
  then show ?thesis
    using assms process_watermark_refines process_barrier_refines(1,2)
    by (cases "ctype c") (auto simp: process_item_def process_control_def cell_step_def)
qed

lemma run_items_simps [simp]:
  "run_items cfg [] p = Inr p"
  "run_items cfg (it # its) p = bind_res (process_item cfg it p) (run_items cfg its)"
  by (simp_all add: run_items_def)

lemma run_items_append:
  "run_items cfg (xs @ ys) p = bind_res (run_items cfg xs p) (run_items cfg ys)"
  by (simp add: run_items_def fold_res_append)

lemma run_items_refines:
  assumes "run_items cfg its p = Inr p'" "processor_inv cfg p"
    and "lawful_assigner (assigner cfg) width"
  shows "processor_inv cfg p' \<and> cell_of p' k w = fold (cell_step cfg k w) its (cell_of p k w)"
  using assms(1,2)
proof (induction its arbitrary: p)
  case (Cons it its)
  then obtain q where q: "process_item cfg it p = Inr q" "run_items cfg its q = Inr p'" by auto
  then show ?case
    using process_item_refines [OF q(1) Cons.prems(2) assms(3)] Cons.IH [OF q(2)] by simp
qed simp

text \<open>The guarded loop of the final flush fires the windows that were unfired at its start.\<close>

lemma fold_fire_unfired:
  assumes "kws_wf (state p)" "distinct ws"
  shows "fold (\<lambda>w q. if \<not> is_fired (state q) w then fire_first w q else q) ws p =
    fold fire_first (filter (\<lambda>w. \<not> is_fired (state p) w) ws) p"
  using assms
proof (induction ws arbitrary: p)
  case (Cons w ws)
  show ?case
  proof (cases "is_fired (state p) w")
    case True
    then show ?thesis using Cons by simp
  next
    case False
    let ?q = "fire_first w p"
    note fw = fire_window_state [OF Cons.prems(1), of w, folded first.fire_state]
    have "is_fired (state ?q) v = is_fired (state p) v" if "v \<in> set ws" for v
      using fw(2) that Cons.prems(2) by (auto simp: is_fired_def)
    then have "filter (\<lambda>w. \<not> is_fired (state ?q) w) ws = filter (\<lambda>w. \<not> is_fired (state p) w) ws"
      by (intro filter_cong) auto
    then show ?thesis using Cons.IH [of ?q] Cons.prems fw(5) False by simp
  qed
qed simp

lemma final_flush_refines:
  assumes "processor_inv cfg p"
  shows "cell_of (final_flush cfg p) k w = cell_flush (cell_of p k w)"
proof (cases "use_lateness cfg")
  case False
  note I = processor_invD [OF assms]
  have l: "allowed_lateness (state p) = 0" using False I(2,3) by (simp add: use_lateness_def)
  note F = first.fold_fire [OF I(1), where ws = "all_windows (state p)"]
  have "pane_at (state p) w k = None" if "w \<notin> set (all_windows (state p))"
    using that set_all_windows [OF I(1)] by (cases "pane_at (state p) w k") auto
  then show ?thesis
    using False F(2) F(5) [of w] F(7) [of k w] l
    by (auto simp: final_flush_def Let_def cell_of_def cell_flush_def)
next
  case True
  note I = processor_invD [OF assms]
  have l: "allowed_lateness (state p) \<noteq> 0" using True I(3) by (simp add: use_lateness_def)
  note B = refire_all_effect [OF I(1) l]
  let ?b = "refire_all p"
  let ?ws = "filter (\<lambda>w. \<not> is_fired (state ?b) w) (all_windows (state ?b))"
  have d: "distinct (all_windows (state ?b))"
    using kws_wfD(1) [OF B(1)] by (simp add: all_windows_def om_wf_distinct)
  note F = first.fold_fire [OF B(1), where ws = ?ws]
  let ?c = "fold fire_first ?ws ?b"
  have rows: "rows_of k w (effects ?c) = rows_of k w (effects p) \<union> set_option (pane_at (state p) w k)"
  proof (cases "pane_at (state p) w k")
    case None
    then show ?thesis using F(7) [of k w] B(5) B(7) [of k w] by simp
  next
    case (Some q)
    then have "w \<in> set (all_windows (state ?b))" using set_all_windows [OF B(1)] B(5) by auto
    then show ?thesis
      using Some F(7) [of k w] B(5,6) B(7) [of k w] I(8) [of w k q] by (auto simp: is_fired_def)
  qed
  have "kws_wf (state ?c)" using F(1) .
  moreover have "pane_at (state ?c) w k = None" if "w \<notin> set (all_windows (state ?c))"
    using that set_all_windows [OF \<open>kws_wf (state ?c)\<close>] by (cases "pane_at (state ?c) w k") auto
  ultimately show ?thesis
    using True F(2) B(2) rows
    by (simp add: final_flush_def Let_def fold_fire_unfired [OF B(1) d] cell_of_def cell_flush_def
        pane_at_garbage_collect)
qed

text \<open>
  The processor refines the cell specification: whatever the stream, after any run that
  does not throw, flushed or not, every key and window has exactly the watermark, pane and
  emitted rows the specification gives.
\<close>

lemma processor_refines_cells:
  assumes "new_processor cfg = Inr p" "run_items cfg its p = Inr p'"
    and "lawful_assigner (assigner cfg) width"
  shows "cell_of p' k w = fold (cell_step cfg k w) its empty_cell"
    and "cell_of (final_flush cfg p') k w = cell_flush (fold (cell_step cfg k w) its empty_cell)"
  using run_items_refines [OF assms(2) new_processor_inv(1) [OF assms(1)] assms(3)]
    new_processor_inv(2) [OF assms(1)] final_flush_refines [of cfg p'] by simp_all

section \<open>Counters\<close>

text \<open>What a stream does to the watermark and to the drop counter, independently of the panes.\<close>

definition stream_watermark :: "timestamp \<Rightarrow> batch_item \<Rightarrow> timestamp" where
  "stream_watermark wm it =
     (case it of Control c \<Rightarrow> (if ctype c = KWatermark then max wm (cwatermark c) else wm)
               | Data r \<Rightarrow> wm)"

definition record_dropped :: "processor_config \<Rightarrow> timestamp \<Rightarrow> data_record \<Rightarrow> bool" where
  "record_dropped cfg wm r = (\<exists>w. assigned cfg (event_time r) w \<and> deadline (lateness cfg) w \<le> wm)"

fun drop_count :: "processor_config \<Rightarrow> timestamp \<Rightarrow> batch_item list \<Rightarrow> u64" where
  "drop_count cfg wm [] = 0"
| "drop_count cfg wm (it # its) =
     (case it of Data r \<Rightarrow> (if record_dropped cfg wm r then 1 else 0) | Control c \<Rightarrow> 0)
     + drop_count cfg (stream_watermark wm it) its"

definition is_data :: "batch_item \<Rightarrow> bool" where
  "is_data it = (case it of Data r \<Rightarrow> True | Control c \<Rightarrow> False)"

definition record_count :: "batch_item list \<Rightarrow> u64" where
  "record_count its = of_nat (length (filter is_data its))"

lemma process_item_counts:
  assumes "process_item cfg it p = Inr p'" "processor_inv cfg p"
    and "lawful_assigner (assigner cfg) width"
  shows "watermark p' = stream_watermark (watermark p) it"
    "late_records_dropped (stats p') = late_records_dropped (stats p) + drop_count cfg (watermark p) [it]"
    "records_processed (stats p') = records_processed (stats p) + record_count [it]"
proof -
  have "watermark p' = stream_watermark (watermark p) it \<and>
    late_records_dropped (stats p') = late_records_dropped (stats p) + drop_count cfg (watermark p) [it] \<and>
    records_processed (stats p') = records_processed (stats p) + record_count [it]"
  proof (cases it)
    case (Data r)
    then have step: "process_record cfg r p = Inr p'" using assms(1) by (simp add: process_item_def)
    then obtain ws where "assign_windows (assigner cfg) (event_time r) = Inr ws"
      by (auto simp: process_record_def)
    then show ?thesis
      using Data process_record_refines [OF step assms(2,3)]
      by (auto simp: stream_watermark_def record_dropped_def assigned_def record_count_def is_data_def)
  next
    case (Control c)
    have "watermark (process_watermark cfg (cwatermark c) p) = max (watermark p) (cwatermark c)"
      using process_watermark_refines(2) [OF assms(2), of "cwatermark c" k w]
      by (auto simp: cell_of_def cell_watermark_def max_def split: if_splits)
    with Control show ?thesis
      using assms(1) process_watermark_counts process_barrier_refines [of cfg _ p p'] assms(2)
      by (cases "ctype c")
         (auto simp: process_item_def process_control_def stream_watermark_def record_count_def is_data_def)
  qed
  then show "watermark p' = stream_watermark (watermark p) it"
    "late_records_dropped (stats p') = late_records_dropped (stats p) + drop_count cfg (watermark p) [it]"
    "records_processed (stats p') = records_processed (stats p) + record_count [it]"
    by blast+
qed

lemma run_items_counts:
  assumes "run_items cfg its p = Inr p'" "processor_inv cfg p"
    and "lawful_assigner (assigner cfg) width"
  shows "watermark p' = fold (\<lambda>it wm. stream_watermark wm it) its (watermark p) \<and>
    late_records_dropped (stats p') = late_records_dropped (stats p) + drop_count cfg (watermark p) its \<and>
    records_processed (stats p') = records_processed (stats p) + record_count its"
  using assms(1,2)
proof (induction its arbitrary: p)
  case Nil
  then show ?case by (simp add: record_count_def)
next
  case (Cons it its)
  then obtain q where q: "process_item cfg it p = Inr q" "run_items cfg its q = Inr p'" by auto
  have "processor_inv cfg q" using process_item_refines [OF q(1) Cons.prems(2) assms(3)] by blast
  moreover have "record_count (it # its) = record_count [it] + record_count its"
    by (simp add: record_count_def)
  ultimately show ?case
    using Cons.IH [OF q(2)] process_item_counts [OF q(1) Cons.prems(2) assms(3)] by (simp add: add.assoc)
qed

section \<open>A sample job\<close>

text \<open>Two keys, one record accepted after its window fired, one dropped, one window left open.\<close>

definition sample_job :: processor_config where
  "sample_job = \<lparr>assigner = projr (tumbling_assigner 10), lateness = 5, checkpoint_dir = ''ckpt'',
     checkpoint_write_ok = (\<lambda>off wm s. True)\<rparr>"

definition sample_record :: "string \<Rightarrow> int \<Rightarrow> timestamp \<Rightarrow> batch_item" where
  "sample_record k v t = Data \<lparr>key = k, val = v, event_time = t, processing_time = t\<rparr>"

definition sample_stream :: "batch_item list" where
  "sample_stream =
     [sample_record ''a'' 5 1, sample_record ''b'' 7 3, watermark_item 12 2, sample_record ''a'' 1 2,
      barrier_item 3, watermark_item 20 3, sample_record ''a'' 9 3, sample_record ''b'' 4 25]"

lemma sample_lawful: "lawful_assigner (assigner sample_job) 10"
  using tumbling_lawful [of 10 "assigner sample_job"] by (simp add: sample_job_def tumbling_assigner_def)

lemma sample_run: "\<exists>p0 p. new_processor sample_job = Inr p0 \<and> run_items sample_job sample_stream p0 = Inr p"
proof -
  have "(case new_processor sample_job of Inl e \<Rightarrow> False
         | Inr p0 \<Rightarrow> \<not> isl (run_items sample_job sample_stream p0))" by code_simp
  then show ?thesis by (metis sum.case_eq_if sum.collapse)
qed

section \<open>Properties\<close>

text \<open>
  C19. The processor with its ordered window map, fired and re-fired sets behaves, for every key
  and window, like an automaton that knows only the watermark, the one pane and the rows emitted
  for it: after any stream without an exception the live pane and the emitted rows are those of
  the automaton, and so are the rows of the final flush.
\<close>

theorem processor_is_cellwise:
  assumes "new_processor cfg = Inr p0" "run_items cfg its p0 = Inr p"
    and "lawful_assigner (assigner cfg) width"
  shows "pane_at (state p) w k = c_pane (fold (cell_step cfg k w) its empty_cell) \<and>
    rows_of k w (effects p) = c_rows (fold (cell_step cfg k w) its empty_cell) \<and>
    rows_of k w (effects (final_flush cfg p)) =
      c_rows (cell_flush (fold (cell_step cfg k w) its empty_cell))"
  unfolding processor_refines_cells(2) [OF assms, of k w, symmetric]
  unfolding processor_refines_cells(1) [OF assms, of k w, symmetric] by (simp add: cell_of_def)

theorem processor_is_cellwise_witness:
  "\<exists>p0 p. new_processor sample_job = Inr p0 \<and> run_items sample_job sample_stream p0 = Inr p \<and>
     rows_of ''a'' (Window 0 10) (effects (final_flush sample_job p)) =
       c_rows (cell_flush (fold (cell_step sample_job ''a'' (Window 0 10)) sample_stream empty_cell))"
  using sample_run processor_is_cellwise [OF _ _ sample_lawful] by blast

text \<open>
  The counters are exact: after any stream the number of dropped records is the number of
  records one of whose windows had reached its deadline when they arrived, every record is
  counted once as processed, and the watermark is the maximum of the watermarks seen.
\<close>

theorem processor_counters_exact:
  assumes "new_processor cfg = Inr p0" "run_items cfg its p0 = Inr p"
    and "lawful_assigner (assigner cfg) width"
  shows "late_records_dropped (stats p) = drop_count cfg wm_initial its \<and>
    records_processed (stats p) = of_nat (length (filter is_data its)) \<and>
    watermark p = fold (\<lambda>it wm. stream_watermark wm it) its wm_initial"
proof -
  have "stats p0 = zero_stats" "watermark p0 = wm_initial"
    using assms(1) by (auto simp: new_processor_def set_allowed_lateness_def split: if_splits)
  then show ?thesis
    using run_items_counts [OF assms(2) new_processor_inv(1) [OF assms(1)] assms(3)]
    by (simp add: zero_stats_def record_count_def)
qed

theorem processor_counters_exact_witness:
  "\<exists>p0 p. new_processor sample_job = Inr p0 \<and> run_items sample_job sample_stream p0 = Inr p \<and>
     late_records_dropped (stats p) = drop_count sample_job wm_initial sample_stream"
  using sample_run processor_counters_exact [OF _ _ sample_lawful] by blast

text \<open>
  C30. State is bounded by the lateness: after any stream no pane is kept whose window has passed
  its deadline, no window is fired before the watermark reaches its end, and a fired window
  whose pane was not changed since has that pane's row in the output.
\<close>

theorem open_panes_within_deadline:
  assumes "new_processor cfg = Inr p0" "run_items cfg its p0 = Inr p"
    and "lawful_assigner (assigner cfg) width"
  shows "kws_wf (state p) \<and>
    (\<forall>w k q. pane_at (state p) w k = Some q \<longrightarrow> watermark p < deadline (lateness cfg) w) \<and>
    (\<forall>w \<in> set (fired_windows (state p)). wend w \<le> watermark p) \<and>
    (\<forall>w k q. is_fired (state p) w \<and> w \<notin> set (refired_windows (state p)) \<and>
       pane_at (state p) w k = Some q \<longrightarrow> Emit (window_row k w (pane_result q)) \<in> set (effects p))"
proof -
  have "processor_inv cfg p"
    using run_items_refines [OF assms(2) new_processor_inv(1) [OF assms(1)] assms(3)] by blast
  note I = processor_invD [OF this]
  show ?thesis using I(1,5,7,8) by (auto simp: is_fired_def rows_of_def)
qed

theorem open_panes_within_deadline_witness:
  "\<exists>p0 p. new_processor sample_job = Inr p0 \<and> run_items sample_job sample_stream p0 = Inr p \<and>
     kws_wf (state p)"
  using sample_run open_panes_within_deadline [OF _ _ sample_lawful] by blast

end
