(* ===== verification/Iteration_Order.thy ===== *)
theory Iteration_Order
  imports Keyed_Processor "HOL-Library.Multiset"
begin

text \<open>
  The order in which the code walks an \<open>unordered_map\<close> or \<open>unordered_set\<close> is unspecified
  (\<open>src/src/window/state.h\<close>); the model keeps such a container as a list. Here the list may
  change its order before every item. Whatever the orders, a run ends with the same exception or
  with the same contents, counters and watermark, and it has made the same sink calls up to the
  order of rows that one loop emits, at most one of which belongs to any key and window.
\<close>

section \<open>Equal up to iteration order\<close>

text \<open>The window map is ordered by the code; its pane maps and the two window sets are not.\<close>

definition same_contents :: "keyed_window_state \<Rightarrow> keyed_window_state \<Rightarrow> bool" where
  "same_contents s t \<longleftrightarrow>
     list_all2 (\<lambda>(w, m) (v, n). w = v \<and> mset m = mset n) (windows s) (windows t) \<and>
     allowed_lateness s = allowed_lateness t \<and>
     mset (fired_windows s) = mset (fired_windows t) \<and>
     mset (refired_windows s) = mset (refired_windows t)"

inductive same_calls :: "effect list \<Rightarrow> effect list \<Rightarrow> bool" where
  calls_Nil: "same_calls [] []"
| calls_rows: "same_calls es fs \<Longrightarrow> mset rows = mset rows' \<Longrightarrow> distinct (map (\<lambda>r. (res_key r, res_window r)) rows) \<Longrightarrow>
    same_calls (es @ map Emit rows) (fs @ map Emit rows')"
| calls_flush: "same_calls es fs \<Longrightarrow> same_calls (es @ [Flush]) (fs @ [Flush])"
| calls_write: "same_calls es fs \<Longrightarrow> same_contents s t \<Longrightarrow>
    same_calls (es @ [WriteCheckpoint off wm s]) (fs @ [WriteCheckpoint off wm t])"
| calls_listener: "same_calls es fs \<Longrightarrow> same_calls (es @ [CheckpointListener off]) (fs @ [CheckpointListener off])"

definition same_processor :: "processor \<Rightarrow> processor \<Rightarrow> bool" where
  "same_processor p q \<longleftrightarrow>
     watermark p = watermark q \<and> stats p = stats q \<and> same_contents (state p) (state q) \<and>
     same_calls (effects p) (effects q)"

text \<open>The same processor with its containers in another order.\<close>

definition reordered :: "processor \<Rightarrow> processor \<Rightarrow> bool" where
  "reordered p q \<longleftrightarrow> (\<exists>s. same_contents (state p) s \<and> q = p\<lparr>state := s\<rparr>)"

text \<open>A run in which every item may find the containers in any order.\<close>

inductive any_order_run :: "processor_config \<Rightarrow> batch_item list \<Rightarrow> processor \<Rightarrow> processor res \<Rightarrow> bool"
  for cfg where
  any_order_end: "reordered p q \<Longrightarrow> any_order_run cfg [] p (Inr q)"
| any_order_item: "reordered p q \<Longrightarrow> process_item cfg it q = Inr p' \<Longrightarrow> any_order_run cfg its p' r \<Longrightarrow>
    any_order_run cfg (it # its) p r"
| any_order_throw: "reordered p q \<Longrightarrow> process_item cfg it q = Inl e \<Longrightarrow> any_order_run cfg (it # its) p (Inl e)"

inductive_simps any_order_Nil: "any_order_run cfg [] p r"

inductive_simps any_order_Cons: "any_order_run cfg (it # its) p r"

text \<open>Whether the file system takes a checkpoint does not depend on the order of its entries.\<close>

definition order_blind :: "processor_config \<Rightarrow> bool" where
  "order_blind cfg \<longleftrightarrow>
     (\<forall>off wm s t. same_contents s t \<longrightarrow> checkpoint_write_ok cfg off wm s = checkpoint_write_ok cfg off wm t)"

text \<open>Results that are the same exception or related values.\<close>

abbreviation same_result :: "processor res \<Rightarrow> processor res \<Rightarrow> bool" where
  "same_result \<equiv> rel_sum (=) same_processor"

section \<open>States\<close>

lemma same_contents_refl [simp]: "same_contents s s"
  by (simp add: same_contents_def list_all2_refl split_def)

lemma same_contents_sym: "same_contents s t \<Longrightarrow> same_contents t s"
  by (auto simp: same_contents_def list_all2_conv_all_nth split_def)

lemma same_contents_trans: "same_contents s t \<Longrightarrow> same_contents t u \<Longrightarrow> same_contents s u"
  unfolding same_contents_def by (auto simp: list_all2_conv_all_nth split_def)

lemma um_wf_mset: "mset m = mset n \<Longrightarrow> um_wf m \<Longrightarrow> um_wf n"
  unfolding um_wf_def by (metis mset_map mset_eq_imp_distinct_iff)

lemma map_of_mset: "mset m = mset n \<Longrightarrow> um_wf m \<Longrightarrow> map_of m = map_of n"
  by (metis map_of_eq_dom map_of_inject_set mset_eq_setD um_wf_def um_wf_mset)

lemma same_windows:
  assumes "list_all2 (\<lambda>(w, m) (v, n). w = v \<and> mset m = mset n) ws vs"
  shows "map fst ws = map fst vs" "map_of ws w = None \<longleftrightarrow> map_of vs w = None"
    "map_of ws w = Some m \<Longrightarrow> \<exists>n. map_of vs w = Some n \<and> mset m = mset n"
  using assms by (induction rule: list_all2_induct) (auto split: if_splits)

lemma same_contents_sets:
  "same_contents s t \<Longrightarrow> set (fired_windows s) = set (fired_windows t)"
  "same_contents s t \<Longrightarrow> set (refired_windows s) = set (refired_windows t)"
  by (auto simp: same_contents_def dest: mset_eq_setD)

lemma same_contents_wf:
  assumes "same_contents s t" "kws_wf s"
  shows "kws_wf t"
proof -
  have l: "list_all2 (\<lambda>(w, m) (v, n). w = v \<and> mset m = mset n) (windows s) (windows t)"
    using assms(1) by (simp add: same_contents_def)
  have "om_wf (windows t)" using assms(2) same_windows(1) [OF l] by (simp add: kws_wf_def om_wf_def)
  moreover have "um_wf n \<and> n \<noteq> []" if n: "(w, n) \<in> set (windows t)" for w n
  proof -
    obtain i where i: "i < length (windows t)" "windows t ! i = (w, n)" using n by (auto simp: in_set_conv_nth)
    obtain m where m: "windows s ! i = (w, m)" "mset m = mset n" "i < length (windows s)"
      using l i by (cases "windows s ! i") (auto simp: list_all2_conv_all_nth)
    have "(w, m) \<in> set (windows s)" using m(1,3) nth_mem by metis
    then have "um_wf m \<and> m \<noteq> []" using assms(2) unfolding kws_wf_def by blast
    then show ?thesis using m(2) um_wf_mset [OF m(2)] by (metis mset_zero_iff)
  qed
  moreover have "distinct (fired_windows t)" "distinct (refired_windows t)"
    using kws_wfD(2,3) [OF assms(2)] assms(1) mset_eq_imp_distinct_iff [of "fired_windows s" "fired_windows t"]
      mset_eq_imp_distinct_iff [of "refired_windows s" "refired_windows t"] by (simp_all add: same_contents_def)
  moreover have "set (refired_windows t) \<subseteq> set (fired_windows t)"
    using same_contents_sets [OF assms(1)] kws_wfD(4) [OF assms(2)] by simp
  ultimately show ?thesis by (auto simp: kws_wf_def)
qed

text \<open>For well-formed states the relation is equality of the abstract views.\<close>

lemma same_contents_iff:
  assumes "kws_wf s" "kws_wf t"
  shows "same_contents s t \<longleftrightarrow> pane_at s = pane_at t \<and> allowed_lateness s = allowed_lateness t \<and>
    set (fired_windows s) = set (fired_windows t) \<and> set (refired_windows s) = set (refired_windows t)"
    (is "_ \<longleftrightarrow> ?view")
proof
  assume s: "same_contents s t"
  then have l: "list_all2 (\<lambda>(w, m) (v, n). w = v \<and> mset m = mset n) (windows s) (windows t)"
    by (simp add: same_contents_def)
  have "pane_at s w k = pane_at t w k" for w k
  proof (cases "map_of (windows s) w")
    case None
    then show ?thesis using same_windows(2) [OF l, of w] by (simp add: pane_at_def)
  next
    case (Some m)
    then obtain n where "map_of (windows t) w = Some n" "mset m = mset n" using same_windows(3) [OF l] by blast
    then show ?thesis using Some map_of_mset [of m n] kws_wfD(5) [OF assms(1) Some] by (simp add: pane_at_def)
  qed
  then show ?view using same_contents_sets [OF s] s by (auto simp: same_contents_def)
next
  assume v: ?view
  have "fst ` set (windows s) = fst ` set (windows t)"
    using pane_at_present [OF assms(1)] pane_at_present [OF assms(2)] v by (intro set_eqI) simp
  then have ks: "map fst (windows s) = map fst (windows t)"
    using kws_wfD(1) [OF assms(1)] kws_wfD(1) [OF assms(2)] unfolding om_wf_def
    by (metis set_map strict_sorted_equal)
  have each: "mset m = mset n" if "(w, m) \<in> set (windows s)" "(w, n) \<in> set (windows t)" for w m n
  proof -
    have mn: "map_of (windows s) w = Some m" "map_of (windows t) w = Some n"
      using that map_of_om_wf [OF kws_wfD(1) [OF assms(1)]] map_of_om_wf [OF kws_wfD(1) [OF assms(2)]] by simp_all
    have "map_of m k = map_of n k" for k
    proof -
      have "pane_at s w k = pane_at t w k" using v by simp
      then show ?thesis by (simp add: pane_at_def mn)
    qed
    moreover have d: "distinct (map fst m)" "distinct (map fst n)"
      using kws_wfD(5) [OF assms(1) mn(1)] kws_wfD(5) [OF assms(2) mn(2)] by (simp_all add: um_wf_def)
    ultimately have "set m = set n" by (metis map_of_inject_set ext)
    then show ?thesis using d by (simp add: set_eq_iff_mset_eq_distinct distinct_map)
  qed
  have "list_all2 (\<lambda>(w, m) (v, n). w = v \<and> mset m = mset n) (windows s) (windows t)"
  proof (rule list_all2_all_nthI)
    show len: "length (windows s) = length (windows t)" using ks by (metis length_map)
    fix i assume i: "i < length (windows s)"
    have "fst (windows s ! i) = fst (windows t ! i)" using ks i len by (metis nth_map)
    moreover have "(fst (windows s ! i), snd (windows s ! i)) \<in> set (windows s)"
        "(fst (windows t ! i), snd (windows t ! i)) \<in> set (windows t)"
      using i len by simp_all
    ultimately show "(case windows s ! i of (w, m) \<Rightarrow> \<lambda>(v, n). w = v \<and> mset m = mset n) (windows t ! i)"
      using each by (auto simp: split_def)
  qed
  then show "same_contents s t"
    using v assms by (simp add: same_contents_def set_eq_iff_mset_eq_distinct [symmetric] kws_wfD(2,3))
qed


section \<open>Sink calls\<close>

text \<open>The rows handed to the sink in order, and those of one key and window.\<close>

definition emitted_rows :: "effect list \<Rightarrow> window_result list" where
  "emitted_rows es = concat (map (\<lambda>e. case e of Emit r \<Rightarrow> [r] | _ \<Rightarrow> []) es)"

definition slot_rows :: "string \<Rightarrow> window \<Rightarrow> effect list \<Rightarrow> window_result list" where
  "slot_rows k w es = filter (\<lambda>r. res_key r = k \<and> res_window r = w) (emitted_rows es)"

lemma emitted_rows_append [simp]: "emitted_rows (xs @ ys) = emitted_rows xs @ emitted_rows ys"
  by (simp add: emitted_rows_def)

lemma emitted_rows_other [simp]:
  "emitted_rows [Flush] = []" "emitted_rows [Flush, WriteCheckpoint off wm s, CheckpointListener off] = []"
  "emitted_rows [WriteCheckpoint off wm s] = []" "emitted_rows [CheckpointListener off] = []" "emitted_rows [] = []"
  by (simp_all add: emitted_rows_def)

lemma emitted_rows_Emit [simp]: "emitted_rows (map Emit rows) = rows"
  by (induction rows) (simp_all add: emitted_rows_def)

lemma slot_rows_append [simp]: "slot_rows k w (xs @ ys) = slot_rows k w xs @ slot_rows k w ys"
  by (simp add: slot_rows_def)

lemma same_calls_refl [simp]: "same_calls es es"
proof (induction es rule: rev_induct)
  case (snoc e es)
  then show ?case
    using calls_rows [of es es "[r]" "[r]" for r] by (cases e) (simp_all add: calls_flush calls_write calls_listener)
qed (rule calls_Nil)

lemma same_calls_append:
  assumes "same_calls xs ys" "same_calls es fs"
  shows "same_calls (xs @ es) (ys @ fs)"
  using assms(2)
proof induction
  case (calls_rows es fs rows rows')
  then show ?case using same_calls.calls_rows [of "xs @ es" "ys @ fs" rows rows'] by simp
next
  case (calls_flush es fs)
  then show ?case using same_calls.calls_flush [of "xs @ es" "ys @ fs"] by simp
next
  case (calls_write es fs s t off wm)
  then show ?case using same_calls.calls_write [of "xs @ es" "ys @ fs" s t] by simp
next
  case (calls_listener es fs off)
  then show ?case using same_calls.calls_listener [of "xs @ es" "ys @ fs"] by simp
qed (use assms(1) in simp)

lemma same_calls_sym: "same_calls es fs \<Longrightarrow> same_calls fs es"
proof (induction rule: same_calls.induct)
  case (calls_rows es fs rows rows')
  have "distinct (map (\<lambda>r. (res_key r, res_window r)) rows')"
    using calls_rows.hyps(2,3) by (metis mset_eq_imp_distinct_iff mset_map)
  with calls_rows show ?case by (intro same_calls.calls_rows) simp_all
qed (auto intro: same_calls.intros same_contents_sym)

text \<open>What does not depend on the order: the multiset of rows and the sequence of every key and window.\<close>

lemma filter_one:
  assumes "distinct (map f xs)" "mset xs = mset ys"
  shows "filter (\<lambda>x. f x = a) xs = filter (\<lambda>x. f x = a) ys"
proof -
  have "length (filter (\<lambda>x. f x = a) xs) \<le> 1"
    using assms(1) by (induction xs) (auto simp: filter_empty_conv image_iff)
  moreover have m: "mset (filter (\<lambda>x. f x = a) xs) = mset (filter (\<lambda>x. f x = a) ys)" using assms(2) by simp
  ultimately show ?thesis
    by (cases "filter (\<lambda>x. f x = a) xs") (auto simp del: mset_filter dest!: arg_cong [of _ _ size])
qed

lemma same_calls_rows:
  assumes "same_calls es fs"
  shows "mset (emitted_rows es) = mset (emitted_rows fs)" "slot_rows k w es = slot_rows k w fs"
proof -
  have "mset (emitted_rows es) = mset (emitted_rows fs) \<and> slot_rows k w es = slot_rows k w fs" using assms
  proof induction
    case (calls_rows es fs rows rows')
    then show ?case
      using filter_one [OF calls_rows.hyps(3,2), of "(k, w)"] by (simp add: slot_rows_def)
  qed (simp_all add: slot_rows_def)
  then show "mset (emitted_rows es) = mset (emitted_rows fs)" "slot_rows k w es = slot_rows k w fs" by simp_all
qed

section \<open>Records\<close>

lemma same_contentsI:
  "kws_wf s \<Longrightarrow> kws_wf t \<Longrightarrow> pane_at s = pane_at t \<Longrightarrow> allowed_lateness s = allowed_lateness t \<Longrightarrow>
   set (fired_windows s) = set (fired_windows t) \<Longrightarrow> set (refired_windows s) = set (refired_windows t) \<Longrightarrow> same_contents s t"
  by (simp add: same_contents_iff)

lemma same_contentsD:
  assumes "same_contents s t" "kws_wf s"
  shows "kws_wf t" "pane_at s = pane_at t" "allowed_lateness s = allowed_lateness t" "is_fired s = is_fired t"
    "map fst (windows s) = map fst (windows t)"
proof -
  show wf: "kws_wf t" by (rule same_contents_wf [OF assms])
  show "pane_at s = pane_at t" "allowed_lateness s = allowed_lateness t"
    using assms(1) same_contents_iff [OF assms(2) wf] by simp_all
  show "is_fired s = is_fired t" using same_contents_sets(1) [OF assms(1)] by (simp add: is_fired_def fun_eq_iff)
  show "map fst (windows s) = map fst (windows t)"
    using assms(1) same_windows(1) unfolding same_contents_def by blast
qed

lemma add_with_lateness_wf:
  "add_with_lateness s k w v wm = Inr (b, s') \<Longrightarrow> kws_wf s \<Longrightarrow> kws_wf s'"
  by (cases "wm < deadline (allowed_lateness s) w")
     (auto elim: add_with_lateness_accepted simp: add_with_lateness_late)

lemma put_pane_same:
  "same_contents s t \<Longrightarrow> kws_wf s \<Longrightarrow> same_contents (put_pane s k w p) (put_pane t k w p)"
  using same_contentsD(1-3) [of s t] same_contents_sets [of s t]
  by (intro same_contentsI kws_wf_put) (simp_all add: fun_eq_iff pane_at_put)

lemma add_with_lateness_same:
  assumes "same_contents s t" "kws_wf s"
  shows "rel_sum (=) (rel_prod (=) same_contents) (add_with_lateness s k w v wm) (add_with_lateness t k w v wm)"
proof -
  note D = same_contentsD [OF assms]
  show ?thesis
  proof (cases "deadline (allowed_lateness s) w \<le> wm \<or> isl (add_value s k w v)")
    case True
    then show ?thesis
      using D assms(1) by (auto simp: add_with_lateness_def add_value_def panes_of_lookup not_less Let_def bind_res_Inl isl_def
          split: option.splits)
  next
    case False
    then obtain p where p: "pane_add (case pane_at s w k of None \<Rightarrow> empty_pane | Some p \<Rightarrow> p) v = Inr p"
      by (auto simp: add_value_def panes_of_lookup isl_def bind_res_Inl split: option.splits)
        (metis sum.exhaust)+
    let ?s = "put_pane s k w p" and ?t = "put_pane t k w p"
    have same: "same_contents ?s ?t" and wf: "kws_wf ?s" "kws_wf ?t"
      using put_pane_same [OF assms] assms(2) D(1) by (auto intro: kws_wf_put)
    have "same_contents (?s\<lparr>refired_windows := us_insert w (refired_windows ?s)\<rparr>) (?t\<lparr>refired_windows := us_insert w (refired_windows ?t)\<rparr>)"
      if "is_fired s w"
    proof -
      have "w \<in> set (fired_windows s)" "w \<in> set (fired_windows t)"
        using that same_contents_sets(1) [OF assms(1)] by (simp_all add: is_fired_def)
      then have "kws_wf (?s\<lparr>refired_windows := us_insert w (refired_windows ?s)\<rparr>)"
          "kws_wf (?t\<lparr>refired_windows := us_insert w (refired_windows ?t)\<rparr>)"
        using wf by (auto simp: kws_wf_def)
      moreover have "pane_at (?s\<lparr>refired_windows := us_insert w (refired_windows ?s)\<rparr>) =
          pane_at (?t\<lparr>refired_windows := us_insert w (refired_windows ?t)\<rparr>)"
        using D(2) by (simp add: pane_at_def [abs_def] fun_eq_iff) (metis pane_at_def pane_at_put)
      ultimately show ?thesis
        using D(3) same_contents_sets [OF assms(1)] by (intro same_contentsI) simp_all
    qed
    then show ?thesis
      using False p D(2,3) same same_contents_sets(1) [OF assms(1)]
      by (simp add: add_with_lateness_def add_value_def panes_of_lookup is_fired_def)
  qed
qed

lemma process_window_same:
  assumes "same_contents s t" "kws_wf s"
  shows "rel_sum (=) (rel_prod same_contents (rel_prod (=) (=))) (process_window cfg wm r w (s, d, l)) (process_window cfg wm r w (t, d, l))"
  using add_with_lateness_same [OF assms, of "key r" w "val r" wm] same_contentsD(4) [OF assms]
  by (cases "add_with_lateness s (key r) w (val r) wm"; cases "add_with_lateness t (key r) w (val r) wm")
     (auto simp: process_window_def Let_def)

lemma process_window_wf: "process_window cfg wm r w (s, d, l) = Inr (s', d', l') \<Longrightarrow> kws_wf s \<Longrightarrow> kws_wf s'"
  by (auto simp: process_window_def Let_def split: if_splits dest: add_with_lateness_wf)

lemma fold_window_same:
  assumes "same_contents s t" "kws_wf s"
  shows "rel_sum (=) (rel_prod same_contents (rel_prod (=) (=)))
    (fold_res (process_window cfg wm r) ws (s, d, l)) (fold_res (process_window cfg wm r) ws (t, d, l))"
  using assms
proof (induction ws arbitrary: s t d l)
  case (Cons w ws)
  show ?case
  proof (cases "process_window cfg wm r w (s, d, l)")
    case (Inl e)
    then show ?thesis using process_window_same [OF Cons.prems, of cfg wm r w d l] by (auto simp: rel_sum.simps)
  next
    case (Inr a)
    then obtain s1 d1 l1 t1 where 1: "process_window cfg wm r w (s, d, l) = Inr (s1, d1, l1)"
        "process_window cfg wm r w (t, d, l) = Inr (t1, d1, l1)" "same_contents s1 t1"
      using process_window_same [OF Cons.prems, of cfg wm r w d l] by (cases a) (auto simp: rel_sum.simps)
    then show ?thesis using Cons.IH [OF 1(3) process_window_wf [OF 1(1) Cons.prems(2)]] by simp
  qed
qed simp

lemma process_record_same:
  assumes "same_processor p q" "kws_wf (state p)"
  shows "same_result (process_record cfg r p) (process_record cfg r q)"
proof (cases "assign_windows (assigner cfg) (event_time r)")
  case (Inr ws)
  have "rel_sum (=) (rel_prod same_contents (rel_prod (=) (=)))
      (fold_res (process_window cfg (watermark p) r) ws (state p, False, False))
      (fold_res (process_window cfg (watermark p) r) ws (state q, False, False))"
    using fold_window_same assms by (simp add: same_processor_def)
  then show ?thesis
    using Inr assms(1) by (auto simp: process_record_def same_processor_def rel_sum.simps rel_prod_sel split_def)
qed (simp add: process_record_def)

section \<open>Firing\<close>

lemma fire_window_rows:
  assumes "same_contents s t" "kws_wf s"
  shows "mset (fst (fire_window s w)) = mset (fst (fire_window t w))"
    "distinct (map (\<lambda>r. (res_key r, res_window r)) (fst (fire_window s w)))"
    "r \<in> set (fst (fire_window s w)) \<Longrightarrow> res_window r = w"
proof -
  have l: "list_all2 (\<lambda>(w, m) (v, n). w = v \<and> mset m = mset n) (windows s) (windows t)"
    using assms(1) by (simp add: same_contents_def)
  show "mset (fst (fire_window s w)) = mset (fst (fire_window t w))"
  proof (cases "map_of (windows s) w")
    case None
    then show ?thesis using same_windows(2) [OF l, of w] by (simp add: fire_window_def)
  next
    case (Some m)
    then show ?thesis using same_windows(3) [OF l Some] by (auto simp: fire_window_def)
  qed
  show "distinct (map (\<lambda>r. (res_key r, res_window r)) (fst (fire_window s w)))"
    using kws_wfD(5) [OF assms(2), of w]
    by (auto simp: fire_window_def um_wf_def comp_def split_def distinct_map inj_on_def split: option.split)
  show "r \<in> set (fst (fire_window s w)) \<Longrightarrow> res_window r = w"
    by (auto simp: fire_window_def split: option.splits)
qed

lemma fire_window_same:
  assumes "same_contents s t" "kws_wf s"
  shows "same_contents (snd (fire_window s w)) (snd (fire_window t w))"
  using same_contentsD [OF assms] same_contents_sets [OF assms(1)] fire_window_state [OF assms(2), of w]
    fire_window_state [OF same_contentsD(1) [OF assms], of w]
  by (intro same_contentsI) simp_all

context window_firing
begin

lemma fire_same:
  assumes "same_processor p q" "kws_wf (state p)" "\<And>p q. stats p = stats q \<Longrightarrow> stats (fire w p) = stats (fire w q)"
  shows "same_processor (fire w p) (fire w q)" "kws_wf (state (fire w p))"
proof -
  have "same_contents (state p) (state q)" using assms(1) by (simp add: same_processor_def)
  note S = fire_window_same [OF this assms(2)] fire_window_rows(1,2) [OF this assms(2)]
  show "same_processor (fire w p) (fire w q)"
    using S(1) calls_rows [OF _ S(2,3)] assms(1) assms(3) [of p q]
    by (simp add: same_processor_def fire_state fire_effects fire_watermark)
  show "kws_wf (state (fire w p))" using fire_window_state(5) [OF assms(2)] by (simp add: fire_state)
qed

end

lemma fire_stats [simp]:
  "stats (fire_first w p) = (stats p)\<lparr>windows_fired := windows_fired (stats p) + 1\<rparr>"
  "stats (fire_again w p) = (stats p)\<lparr>windows_refired := windows_refired (stats p) + 1\<rparr>"
  by (simp_all add: fire_first_def fire_again_def fire_and_emit_def Let_def split_def)

lemma fold_fire_same:
  assumes "same_processor p q" "kws_wf (state p)"
  shows "same_processor (fold fire_first ws p) (fold fire_first ws q)"
  using assms
proof (induction ws arbitrary: p q)
  case (Cons w ws)
  have "same_processor (fire_first w p) (fire_first w q)" "kws_wf (state (fire_first w p))"
    by (rule first.fire_same [OF Cons.prems], simp)+
  then show ?case using Cons.IH by simp
qed simp

text \<open>The re-fire loop walks an unordered set; with a lateness it leaves the panes alone.\<close>

lemma fire_again_keeps:
  assumes "allowed_lateness (state p) \<noteq> 0"
  shows "windows (state (fire_again w p)) = windows (state p)" "allowed_lateness (state (fire_again w p)) = allowed_lateness (state p)"
  using assms by (simp_all add: again.fire_state fire_window_def split: option.split)

lemma fire_window_cong: "windows s = windows t \<Longrightarrow> fst (fire_window s w) = fst (fire_window t w)"
  by (simp add: fire_window_def split: option.split)

lemma fold_again_calls:
  assumes "allowed_lateness (state p) \<noteq> 0"
  shows "effects (fold fire_again ws p) = effects p @ map Emit (concat (map (\<lambda>w. fst (fire_window (state p) w)) ws))"
    "stats (fold fire_again ws p) = (stats p)\<lparr>windows_refired := windows_refired (stats p) + of_nat (length ws)\<rparr>"
proof -
  have "effects (fold fire_again ws p) = effects p @ map Emit (concat (map (\<lambda>w. fst (fire_window (state p) w)) ws)) \<and>
      stats (fold fire_again ws p) = (stats p)\<lparr>windows_refired := windows_refired (stats p) + of_nat (length ws)\<rparr>"
    using assms
  proof (induction ws arbitrary: p)
    case (Cons w ws)
    note k = fire_again_keeps [OF Cons.prems, of w]
    have "fst (fire_window (state (fire_again w p)) v) = fst (fire_window (state p) v)" for v
      by (rule fire_window_cong [OF k(1)])
    then show ?case using Cons.IH [of "fire_again w p"] Cons.prems k(2) by (simp add: again.fire_effects add.commute)
  qed simp
  then show "effects (fold fire_again ws p) = effects p @ map Emit (concat (map (\<lambda>w. fst (fire_window (state p) w)) ws))"
    "stats (fold fire_again ws p) = (stats p)\<lparr>windows_refired := windows_refired (stats p) + of_nat (length ws)\<rparr>" by blast+
qed

lemma distinct_concat_slots:
  assumes "distinct ws" "\<And>w. distinct (map (\<lambda>r. (res_key r, res_window r)) (f w))" "\<And>w r. r \<in> set (f w) \<Longrightarrow> res_window r = w"
  shows "distinct (map (\<lambda>r. (res_key r, res_window r)) (concat (map f ws)))"
  using assms(1)
proof (induction ws)
  case (Cons w ws)
  have "res_window x \<noteq> res_window y" if "x \<in> set (f w)" "v \<in> set ws" "y \<in> set (f v)" for x y v
    using that Cons.prems assms(3) by (metis distinct.simps(2))
  then have "(\<lambda>r. (res_key r, res_window r)) ` set (f w) \<inter> (\<lambda>r. (res_key r, res_window r)) ` set (concat (map f ws)) = {}"
    by fastforce
  then show ?case using Cons assms(2) by simp
qed simp

lemma refire_all_same:
  assumes "same_processor p q" "kws_wf (state p)" "allowed_lateness (state p) \<noteq> 0"
  shows "same_processor (refire_all p) (refire_all q)"
proof -
  let ?f = "\<lambda>s w. fst (fire_window s w)"
  have s: "same_contents (state p) (state q)" "stats p = stats q" "same_calls (effects p) (effects q)" "watermark p = watermark q"
    using assms(1) by (simp_all add: same_processor_def)
  note D = same_contentsD [OF s(1) assms(2)]
  have l: "allowed_lateness (state q) \<noteq> 0" using D(3) assms(3) by simp
  have ms: "mset (refired_windows (state p)) = mset (refired_windows (state q))" using s(1) by (simp add: same_contents_def)
  have "mset (concat (map (?f (state p)) (refired_windows (state p)))) =
      \<Sum>\<^sub># (image_mset (\<lambda>w. mset (?f (state p) w)) (mset (refired_windows (state p))))"
    by (simp add: mset_concat comp_def flip: sum_mset_sum_list)
  also have "\<dots> = \<Sum>\<^sub># (image_mset (\<lambda>w. mset (?f (state q) w)) (mset (refired_windows (state q))))"
    unfolding ms using fire_window_rows(1) [OF s(1) assms(2)] by simp
  also have "\<dots> = mset (concat (map (?f (state q)) (refired_windows (state q))))"
    by (simp add: mset_concat comp_def flip: sum_mset_sum_list)
  finally have "same_calls (effects p @ map Emit (concat (map (?f (state p)) (refired_windows (state p)))))
      (effects q @ map Emit (concat (map (?f (state q)) (refired_windows (state q)))))"
    using fire_window_rows(2,3) [OF s(1) assms(2)] kws_wfD(3) [OF assms(2)]
    by (intro calls_rows [OF s(3)] distinct_concat_slots) simp_all
  then have calls: "same_calls (effects (refire_all p)) (effects (refire_all q))"
    unfolding refire_all_def Let_def by (simp add: fold_again_calls(1) assms(3) l)
  have "size (mset (refired_windows (state p))) = size (mset (refired_windows (state q)))" using ms by simp
  then have "stats (refire_all p) = stats (refire_all q)"
    using s(2) unfolding refire_all_def Let_def by (simp add: fold_again_calls(2) assms(3) l)
  moreover have "same_contents (state (refire_all p)) (state (refire_all q))"
    using refire_all_effect [OF assms(2,3)] refire_all_effect [OF D(1) l] D same_contents_sets [OF s(1)]
    by (intro same_contentsI) simp_all
  moreover have "watermark (refire_all p) = watermark (refire_all q)"
    using refire_all_effect(2) [OF assms(2,3)] refire_all_effect(2) [OF D(1) l] s(4) by simp
  ultimately show ?thesis using calls by (simp add: same_processor_def)
qed

section \<open>Control records and the final flush\<close>

lemma garbage_collect_same:
  assumes "same_contents s t" "kws_wf s" "set ws = set vs"
  shows "same_contents (garbage_collect s ws) (garbage_collect t vs)"
  using same_contentsD [OF assms(1,2)] same_contents_sets [OF assms(1)] assms(2,3)
  by (intro same_contentsI) (simp_all add: garbage_collect_fields pane_at_garbage_collect fun_eq_iff inv_intros)

lemma collect_garbage_same:
  assumes "same_processor p q" "kws_wf (state p)"
  shows "same_processor (collect_garbage p) (collect_garbage q)"
proof -
  have s: "same_contents (state p) (state q)" "watermark p = watermark q" using assms(1) by (simp_all add: same_processor_def)
  have "set (garbage_collectable (state p) (watermark p)) = set (garbage_collectable (state q) (watermark q))"
    using s(2) same_contents_sets(1) [OF s(1)] same_contentsD(3) [OF s(1) assms(2)] by (simp add: set_garbage_collectable)
  then show ?thesis
    using garbage_collect_same [OF s(1) assms(2)] assms(1) by (simp add: collect_garbage_def same_processor_def)
qed

lemma after_expiry_same:
  assumes "same_processor p q" "kws_wf (state p)"
  shows "same_processor (after_expiry wm p) (after_expiry wm q)"
proof -
  have s: "same_contents (state p) (state q)" using assms(1) by (simp add: same_processor_def)
  have "expired_windows (state p) wm = expired_windows (state q) wm"
    using same_contentsD(4,5) [OF s assms(2)] by (simp add: expired_windows_def)
  then show ?thesis
    using fold_fire_same [of "p\<lparr>watermark := wm\<rparr>" "q\<lparr>watermark := wm\<rparr>"] assms
    by (simp add: after_expiry_def same_processor_def)
qed

lemma process_watermark_same:
  assumes "same_processor p q" "processor_inv cfg p"
  shows "same_processor (process_watermark cfg wm p) (process_watermark cfg wm q)"
proof (cases "watermark p < wm")
  case False
  then show ?thesis using assms(1) by (simp add: process_watermark_unfold(2) same_processor_def)
next
  case True
  note I = processor_invD [OF assms(2)]
  note E = after_expiry_effect [OF I(1), where wm = wm]
  have a: "same_processor (after_expiry wm p) (after_expiry wm q)" by (rule after_expiry_same [OF assms(1) I(1)])
  have late: "same_processor (collect_garbage (refire_all (after_expiry wm p))) (collect_garbage (refire_all (after_expiry wm q)))"
    if "use_lateness cfg"
  proof -
    have l: "allowed_lateness (state (after_expiry wm p)) \<noteq> 0" using that E(4) I(3) by (simp add: use_lateness_def)
    show ?thesis by (rule collect_garbage_same [OF refire_all_same [OF a E(1) l] refire_all_effect(1) [OF E(1) l]])
  qed
  have "watermark q < wm" using True assms(1) by (simp add: same_processor_def)
  then show ?thesis
    using True a late by (simp add: process_watermark_unfold(1) Let_def same_processor_def)
qed

lemma process_barrier_same:
  assumes "same_processor p q" "order_blind cfg"
  shows "same_result (process_barrier cfg off p) (process_barrier cfg off q)"
proof -
  have s: "same_contents (state p) (state q)" "watermark p = watermark q" "stats p = stats q" "same_calls (effects p) (effects q)"
    using assms(1) by (simp_all add: same_processor_def)
  have ok: "checkpoint_write_ok cfg off (watermark q) (state p) = checkpoint_write_ok cfg off (watermark q) (state q)"
    using assms(2) s(1) by (simp add: order_blind_def)
  have "same_calls (effects p @ [Flush, WriteCheckpoint off wm (state p), CheckpointListener off])
      (effects q @ [Flush, WriteCheckpoint off wm (state q), CheckpointListener off])" for wm
    using calls_listener [OF calls_write [OF calls_flush [OF s(4)] s(1)]] by simp
  then show ?thesis
    using s ok assms(1) by (simp add: process_barrier_def Let_def same_processor_def)
qed

lemma process_item_same:
  assumes "same_processor p q" "processor_inv cfg p" "order_blind cfg"
  shows "same_result (process_item cfg it p) (process_item cfg it q)"
  using process_record_same [OF assms(1) processor_invD(1) [OF assms(2)]] process_watermark_same [OF assms(1,2)]
    process_barrier_same [OF assms(1,3)]
  by (auto simp: process_item_def process_control_def split: batch_item.split control_type.split)

lemma fold_unfired_same:
  assumes "same_processor p q" "kws_wf (state p)"
  shows "same_processor (fold (\<lambda>w q. if \<not> is_fired (state q) w then fire_first w q else q) ws p)
    (fold (\<lambda>w q. if \<not> is_fired (state q) w then fire_first w q else q) ws q) \<and>
    kws_wf (state (fold (\<lambda>w q. if \<not> is_fired (state q) w then fire_first w q else q) ws p))"
  using assms
proof (induction ws arbitrary: p q)
  case (Cons w ws)
  have f: "is_fired (state p) = is_fired (state q)"
    using same_contentsD(4) [OF _ Cons.prems(2)] Cons.prems(1) by (simp add: same_processor_def)
  have "same_processor (fire_first w p) (fire_first w q)" "kws_wf (state (fire_first w p))"
    by (rule first.fire_same [OF Cons.prems], simp)+
  then show ?case using Cons.IH Cons.prems f by simp
qed simp

lemma final_flush_same:
  assumes "same_processor p q" "processor_inv cfg p"
  shows "same_processor (final_flush cfg p) (final_flush cfg q)"
proof (cases "use_lateness cfg")
  case False
  have "all_windows (state p) = all_windows (state q)"
    using same_contentsD(5) [OF _ processor_invD(1) [OF assms(2)]] assms(1) by (simp add: all_windows_def same_processor_def)
  then show ?thesis
    using False fold_fire_same [OF assms(1) processor_invD(1) [OF assms(2)]]
    by (auto simp: final_flush_def Let_def same_processor_def intro: calls_flush)
next
  case True
  note I = processor_invD [OF assms(2)]
  have l: "allowed_lateness (state p) \<noteq> 0" using True I(3) by (simp add: use_lateness_def)
  have r: "same_processor (refire_all p) (refire_all q)" "kws_wf (state (refire_all p))"
    by (rule refire_all_same [OF assms(1) I(1) l], rule refire_all_effect(1) [OF I(1) l])
  let ?all = "\<lambda>p. fold (\<lambda>w q. if \<not> is_fired (state q) w then fire_first w q else q) (all_windows (state (refire_all p))) (refire_all p)"
  have "all_windows (state (refire_all p)) = all_windows (state (refire_all q))"
    using same_contentsD(5) [OF _ r(2)] r(1) by (simp add: all_windows_def same_processor_def)
  then have a: "same_processor (?all p) (?all q)" "kws_wf (state (?all p))" using fold_unfired_same [OF r] by simp_all
  have "all_windows (state (?all p)) = all_windows (state (?all q))"
    using same_contentsD(5) [OF _ a(2)] a(1) by (simp add: all_windows_def same_processor_def)
  then have "same_contents (garbage_collect (state (?all p)) (all_windows (state (?all p))))
      (garbage_collect (state (?all q)) (all_windows (state (?all q))))"
    using garbage_collect_same [OF _ a(2)] a(1) by (simp add: same_processor_def)
  then show ?thesis
    using a(1) True by (auto simp: final_flush_def Let_def same_processor_def intro: calls_flush)
qed

section \<open>Runs\<close>

lemma same_processor_refl [simp]: "same_processor p p"
  by (simp add: same_processor_def)

lemma reordered_refl [simp]: "reordered p p"
  by (auto simp: reordered_def intro: exI [of _ "state p"])

lemma reordered_trans: "reordered p q \<Longrightarrow> reordered q r \<Longrightarrow> reordered p r"
  using same_contents_trans by (force simp: reordered_def)

lemma same_processor_reordered:
  assumes "same_processor p q" "reordered p p1" "reordered q q1"
  shows "same_processor p1 q1"
proof -
  obtain s t where "same_contents (state p) s" "p1 = p\<lparr>state := s\<rparr>" "same_contents (state q) t" "q1 = q\<lparr>state := t\<rparr>"
    using assms(2,3) by (auto simp: reordered_def)
  moreover from this have "same_contents s t"
    using assms(1) same_contents_trans same_contents_sym unfolding same_processor_def by blast
  ultimately show ?thesis using assms(1) by (simp add: same_processor_def)
qed

lemma processor_inv_reordered:
  assumes "reordered p q" "processor_inv cfg p"
  shows "processor_inv cfg q"
proof -
  obtain s where s: "same_contents (state p) s" "q = p\<lparr>state := s\<rparr>" using assms(1) by (auto simp: reordered_def)
  note D = same_contentsD [OF s(1) processor_invD(1) [OF assms(2)]] same_contents_sets [OF s(1)]
  have "fired_windows s = []" if "lateness cfg = 0"
    using processor_invD(6) [OF assms(2) that] D(6) by simp
  then show ?thesis using assms(2) D unfolding processor_inv_def s(2) by simp
qed

lemma run_items_any_order: "any_order_run cfg its p (run_items cfg its p)"
proof (induction its arbitrary: p)
  case Nil
  then show ?case by (simp add: any_order_end)
next
  case (Cons it its)
  then show ?case
    by (cases "process_item cfg it p") (auto intro: any_order_throw any_order_item reordered_refl)
qed

lemma any_order_step:
  assumes "any_order_run cfg (it # its) p r"
  obtains q where "reordered p q" "case process_item cfg it q of Inl e \<Rightarrow> r = Inl e | Inr p' \<Rightarrow> any_order_run cfg its p' r"
  using assms unfolding any_order_Cons by force

lemma any_order_stepI:
  "reordered p q \<Longrightarrow> (case process_item cfg it q of Inl e \<Rightarrow> r = Inl e | Inr p' \<Rightarrow> any_order_run cfg its p' r) \<Longrightarrow>
   any_order_run cfg (it # its) p r"
  by (cases "process_item cfg it q") (auto intro: any_order_run.intros)

text \<open>Two runs over the same items, each in its own orders, agree.\<close>

lemma any_order_agree:
  assumes "any_order_run cfg its p r" "any_order_run cfg its q r'" "same_processor p q" "processor_inv cfg p"
    and "order_blind cfg" "lawful_assigner (assigner cfg) width"
  shows "same_result r r'"
  using assms(1-4)
proof (induction its arbitrary: p q)
  case Nil
  then show ?case using same_processor_reordered by (auto simp: any_order_Nil)
next
  case (Cons it its)
  obtain p1 where p1: "reordered p p1"
      "case process_item cfg it p1 of Inl e \<Rightarrow> r = Inl e | Inr p' \<Rightarrow> any_order_run cfg its p' r"
    using any_order_step [OF Cons.prems(1)] .
  obtain q1 where q1: "reordered q q1"
      "case process_item cfg it q1 of Inl e \<Rightarrow> r' = Inl e | Inr p' \<Rightarrow> any_order_run cfg its p' r'"
    using any_order_step [OF Cons.prems(2)] .
  have inv: "processor_inv cfg p1" by (rule processor_inv_reordered [OF p1(1) Cons.prems(4)])
  have step: "same_result (process_item cfg it p1) (process_item cfg it q1)"
    by (rule process_item_same [OF same_processor_reordered [OF Cons.prems(3) p1(1) q1(1)] inv assms(5)])
  show ?case
  proof (cases "process_item cfg it p1")
    case (Inl e)
    then show ?thesis using step p1(2) q1(2) by (auto simp: rel_sum.simps)
  next
    case (Inr p')
    then obtain q' where q': "process_item cfg it q1 = Inr q'" "same_processor p' q'" using step by (auto simp: rel_sum.simps)
    then show ?thesis
      using Cons.IH [of p' q'] p1(2) q1(2) Inr process_item_refines [OF Inr inv assms(6)] by simp
  qed
qed

lemma any_order_append:
  assumes "any_order_run cfg xs p (Inr q)" "any_order_run cfg ys q r"
  shows "any_order_run cfg (xs @ ys) p r"
  using assms(1)
proof (induction xs arbitrary: p)
  case Nil
  then have q: "reordered p q" by (simp add: any_order_Nil)
  show ?case
  proof (cases ys)
    case Nil
    then show ?thesis using assms(2) reordered_trans [OF q] by (auto simp: any_order_Nil)
  next
    case (Cons it its)
    then obtain q1 where "reordered q q1"
        "case process_item cfg it q1 of Inl e \<Rightarrow> r = Inl e | Inr p' \<Rightarrow> any_order_run cfg its p' r"
      using any_order_step assms(2) by metis
    then show ?thesis using any_order_stepI [OF reordered_trans [OF q]] Cons by simp
  qed
next
  case (Cons it xs)
  obtain p1 where "reordered p p1"
      "case process_item cfg it p1 of Inl e \<Rightarrow> Inr q = Inl e | Inr p' \<Rightarrow> any_order_run cfg xs p' (Inr q)"
    using any_order_step [OF Cons.prems] .
  then show ?case using any_order_stepI [of p p1] Cons.IH by (simp split: sum.splits)
qed

lemma any_order_inv:
  assumes "any_order_run cfg its p (Inr q)" "processor_inv cfg p" "lawful_assigner (assigner cfg) width"
  shows "processor_inv cfg q"
  using assms(1,2)
proof (induction its arbitrary: p)
  case Nil
  then show ?case using processor_inv_reordered by (auto simp: any_order_Nil)
next
  case (Cons it its)
  obtain p1 where p1: "reordered p p1"
      "case process_item cfg it p1 of Inl e \<Rightarrow> Inr q = Inl e | Inr p' \<Rightarrow> any_order_run cfg its p' (Inr q)"
    using any_order_step [OF Cons.prems(1)] .
  then show ?case
    using Cons.IH process_item_refines [OF _ processor_inv_reordered [OF p1(1) Cons.prems(2)] assms(3)]
    by (simp split: sum.splits)
qed

section \<open>Properties\<close>

text \<open>A run that reverses every container before each item.\<close>

definition reversed :: "processor \<Rightarrow> processor" where
  "reversed p = p\<lparr>state := (state p)\<lparr>windows := map (\<lambda>(w, m). (w, rev m)) (windows (state p)),
     fired_windows := rev (fired_windows (state p)), refired_windows := rev (refired_windows (state p))\<rparr>\<rparr>"

definition reversing_run :: "processor_config \<Rightarrow> batch_item list \<Rightarrow> processor \<Rightarrow> processor res" where
  "reversing_run cfg = fold_res (\<lambda>it p. process_item cfg it (reversed p))"

lemma reordered_reversed: "reordered p (reversed p)"
  by (auto simp: reordered_def reversed_def same_contents_def list_all2_map2 list_all2_refl split_def
      intro!: exI [of _ "state (reversed p)"])

lemma reversing_any_order: "any_order_run cfg its p (reversing_run cfg its p)"
proof (induction its arbitrary: p)
  case Nil
  then show ?case by (simp add: any_order_end reversing_run_def)
next
  case (Cons it its)
  show ?case
    by (rule any_order_stepI [OF reordered_reversed])
      (cases "process_item cfg it (reversed p)"; use Cons in \<open>simp add: reversing_run_def\<close>)
qed

text \<open>
  C40. The unspecified iteration order of the unordered containers is immaterial. A run in which the
  containers may be walked in any order, a new one at every item, throws what the model throws in
  insertion order, or ends with the same panes, window sets, watermark and counters; its sink has
  received, the final flush included, the same multiset of rows, and for each key and window the
  same rows in the same sequence.
\<close>

theorem iteration_order_is_immaterial:
  assumes "new_processor cfg = Inr p0" "lawful_assigner (assigner cfg) width" "order_blind cfg"
    and "any_order_run cfg its p0 r"
  shows "case run_items cfg its p0 of
      Inl e \<Rightarrow> r = Inl e
    | Inr p \<Rightarrow> \<exists>q. r = Inr q \<and> same_processor p q \<and>
        mset (emitted_rows (effects (final_flush cfg p))) = mset (emitted_rows (effects (final_flush cfg q))) \<and>
        (\<forall>k w. slot_rows k w (effects (final_flush cfg p)) = slot_rows k w (effects (final_flush cfg q)))"
proof -
  have inv: "processor_inv cfg p0" by (rule new_processor_inv(1) [OF assms(1)])
  have same: "same_result (run_items cfg its p0) r"
    by (rule any_order_agree [OF run_items_any_order assms(4) same_processor_refl inv assms(3,2)])
  show ?thesis
  proof (cases "run_items cfg its p0")
    case (Inl e)
    then show ?thesis using same by (simp add: rel_sum.simps)
  next
    case (Inr p)
    then obtain q where q: "r = Inr q" "same_processor p q" using same by (auto simp: rel_sum.simps)
    have "same_processor (final_flush cfg p) (final_flush cfg q)"
      using final_flush_same [OF q(2)] run_items_refines [OF Inr inv assms(2)] by blast
    then show ?thesis using Inr q same_calls_rows by (simp add: same_processor_def)
  qed
qed

lemma sample_order_blind: "order_blind sample_job"
  by (simp add: order_blind_def sample_job_def)

theorem iteration_order_is_immaterial_witness:
  "\<exists>p0 p q. new_processor sample_job = Inr p0 \<and> run_items sample_job sample_stream p0 = Inr p \<and>
     reversing_run sample_job sample_stream p0 = Inr q \<and> effects p \<noteq> effects q \<and> same_processor p q \<and>
     mset (emitted_rows (effects (final_flush sample_job p))) = mset (emitted_rows (effects (final_flush sample_job q)))"
proof -
  have "case new_processor sample_job of Inl e \<Rightarrow> False | Inr p0 \<Rightarrow>
      (case (run_items sample_job sample_stream p0, reversing_run sample_job sample_stream p0) of
        (Inr p, Inr q) \<Rightarrow> emitted_rows (effects p) \<noteq> emitted_rows (effects q) | _ \<Rightarrow> False)" by code_simp
  then obtain p0 p q where r: "new_processor sample_job = Inr p0" "run_items sample_job sample_stream p0 = Inr p"
      "reversing_run sample_job sample_stream p0 = Inr q" "emitted_rows (effects p) \<noteq> emitted_rows (effects q)"
    by (auto split: sum.splits)
  show ?thesis
    using iteration_order_is_immaterial [OF r(1) sample_lawful sample_order_blind reversing_any_order, of sample_stream] r by auto
qed

end
