(* ===== verification/Processor_Recovery.thy ===== *)
theory Processor_Recovery
  imports Iteration_Order
begin

text \<open>
  Recovery of one \<open>KeyedProcessor\<close>: \<open>Restore\<close> after \<open>Capture\<close> rebuilds the operator state,
  and what a handler does never depends on the history of effects and counters.
  Together they give the restart theorem: a run that is checkpointed, dropped and
  restored into a fresh processor continues as the uninterrupted run, up to the order
  in which either walks its unordered containers.
\<close>

section \<open>History independence\<close>

definition add_stats :: "processor_stats \<Rightarrow> processor_stats \<Rightarrow> processor_stats" where
  "add_stats a b =
     \<lparr>records_processed = records_processed a + records_processed b,
      windows_fired = windows_fired a + windows_fired b,
      windows_refired = windows_refired a + windows_refired b,
      late_records_accepted = late_records_accepted a + late_records_accepted b,
      late_records_dropped = late_records_dropped a + late_records_dropped b,
      watermarks_advanced = watermarks_advanced a + watermarks_advanced b,
      checkpoints_written = checkpoints_written a + checkpoints_written b\<rparr>"

text \<open>The processor \<open>p\<close> with an earlier history of effects and counters put before its own.\<close>

definition with_history :: "effect list \<Rightarrow> processor_stats \<Rightarrow> processor \<Rightarrow> processor" where
  "with_history es st p = p\<lparr>effects := es @ effects p, stats := add_stats st (stats p)\<rparr>"

definition map_res :: "('a \<Rightarrow> 'b) \<Rightarrow> 'a res \<Rightarrow> 'b res" where
  "map_res f m = bind_res m (\<lambda>x. Inr (f x))"

lemma map_res_simps [simp]: "map_res f (Inl e) = Inl e" "map_res f (Inr x) = Inr (f x)"
  by (simp_all add: map_res_def)

lemma bind_map_res: "bind_res (map_res f m) g = bind_res m (\<lambda>x. g (f x))"
  by (cases m) simp_all

lemma map_bind_res: "map_res f (bind_res m g) = bind_res m (\<lambda>x. map_res f (g x))"
  by (cases m) simp_all

lemma with_history_sel [simp]:
  "state (with_history es st p) = state p" "watermark (with_history es st p) = watermark p"
  "effects (with_history es st p) = es @ effects p"
  "stats (with_history es st p) = add_stats st (stats p)"
  by (simp_all add: with_history_def)

lemma with_history_upd [simp]:
  "(with_history es st p)\<lparr>state := s\<rparr> = with_history es st (p\<lparr>state := s\<rparr>)"
  "(with_history es st p)\<lparr>watermark := wm\<rparr> = with_history es st (p\<lparr>watermark := wm\<rparr>)"
  by (simp_all add: with_history_def)

lemma with_history_empty: "with_history [] zero_stats p = p"
  by (simp add: with_history_def add_stats_def zero_stats_def)

lemma fire_with_history:
  "fire_first w (with_history es st p) = with_history es st (fire_first w p)"
  "fire_again w (with_history es st p) = with_history es st (fire_again w p)"
  by (simp_all add: fire_first_def fire_again_def fire_and_emit_def Let_def split_def
      with_history_def add_stats_def add.assoc)

lemma fold_with_history:
  assumes "\<And>w p. f w (with_history es st p) = with_history es st (f w p)"
  shows "fold f ws (with_history es st p) = with_history es st (fold f ws p)"
  by (induction ws arbitrary: p) (simp_all add: assms)

lemmas fold_fire_with_history =
  fold_with_history [where f = fire_first, OF fire_with_history(1)]
  fold_with_history [where f = fire_again, OF fire_with_history(2)]

lemma refire_with_history: "refire_all (with_history es st p) = with_history es st (refire_all p)"
  by (simp add: refire_all_def Let_def fold_fire_with_history)

lemma collect_with_history:
  "collect_garbage (with_history es st p) = with_history es st (collect_garbage p)"
  by (simp add: collect_garbage_def)

lemma advanced_with_history:
  "(with_history es st p)\<lparr>stats := (add_stats st (stats p))
      \<lparr>watermarks_advanced := watermarks_advanced (add_stats st (stats p)) + 1\<rparr>\<rparr> =
   with_history es st (p\<lparr>stats := (stats p)\<lparr>watermarks_advanced := watermarks_advanced (stats p) + 1\<rparr>\<rparr>)"
  by (simp add: with_history_def add_stats_def add.assoc)

lemma watermark_with_history:
  "process_watermark cfg wm (with_history es st p) = with_history es st (process_watermark cfg wm p)"
proof (cases "watermark p < wm")
  case True
  then have "watermark (with_history es st p) < wm" by simp
  moreover have "after_expiry wm (with_history es st p) = with_history es st (after_expiry wm p)"
    by (simp add: after_expiry_def fold_fire_with_history)
  ultimately show ?thesis
    using True
    by (simp add: process_watermark_unfold(1) Let_def refire_with_history collect_with_history
        advanced_with_history)
next
  case False
  then show ?thesis by (simp add: process_watermark_unfold(2))
qed

lemma item_with_history:
  "process_item cfg it (with_history es st p) = map_res (with_history es st) (process_item cfg it p)"
proof (cases it)
  case (Data r)
  have "count_record d l (add_stats st (stats p)) = add_stats st (count_record d l (stats p))" for d l
    by (simp add: count_record_def add_stats_def add.assoc)
  then show ?thesis
    by (cases "assign_windows (assigner cfg) (event_time r)")
       (auto simp: Data process_item_def process_record_def map_bind_res with_history_def
         intro!: arg_cong2 [where f = bind_res])
next
  case (Control c)
  have "process_barrier cfg off (with_history es st p) =
      map_res (with_history es st) (process_barrier cfg off p)" for off
    by (simp add: process_barrier_def Let_def with_history_def add_stats_def add.assoc)
  with Control show ?thesis
    by (cases "ctype c") (simp_all add: process_item_def process_control_def watermark_with_history)
qed

lemma run_with_history:
  "run_items cfg its (with_history es st p) = map_res (with_history es st) (run_items cfg its p)"
proof (induction its arbitrary: p)
  case (Cons it its)
  then show ?case
    by (cases "process_item cfg it p") (simp_all add: item_with_history)
qed simp

lemma flush_with_history:
  "final_flush cfg (with_history es st p) = with_history es st (final_flush cfg p)"
proof -
  have "(if \<not> is_fired (state (with_history es st q)) w then fire_first w (with_history es st q)
         else with_history es st q) =
        with_history es st (if \<not> is_fired (state q) w then fire_first w q else q)" for w q
    by (simp add: fire_with_history)
  note fold_with_history [where f = "\<lambda>w q. if \<not> is_fired (state q) w then fire_first w q else q", OF this]
  then show ?thesis
    by (simp add: final_flush_def Let_def refire_with_history fold_fire_with_history)
qed

section \<open>Capture, then restore\<close>

lemma panes_of_last:
  "windows s = ms @ [(w, m)] \<Longrightarrow> (\<And>e. e \<in> set ms \<Longrightarrow> fst e < w) \<Longrightarrow> panes_of s w = m"
  by (auto simp: panes_of_def map_of_append map_add_def split: option.split)
     (metis fst_conv less_irrefl map_of_SomeD)

lemma restore_window_tail:
  assumes "windows s = ms @ [(w, m1)]" "\<And>e. e \<in> set ms \<Longrightarrow> fst e < w" "distinct (map fst (m1 @ m2))"
  shows "fold (\<lambda>(k, p) s. put_pane s k w p) m2 s = s\<lparr>windows := ms @ [(w, m1 @ m2)]\<rparr>"
  using assms
proof (induction m2 arbitrary: s m1)
  case (Cons e m2)
  obtain k p where e: "e = (k, p)" by (cases e)
  have "AList.update k p (panes_of s w) = m1 @ [(k, p)]"
    using panes_of_last [OF Cons.prems(1,2)] Cons.prems(3) e by (simp add: update_snoc_new)
  then have put: "put_pane s k w p = s\<lparr>windows := ms @ [(w, m1 @ [(k, p)])]\<rparr>"
    using Cons.prems(1,2) by (simp add: put_pane_def om_set_snoc_same)
  show ?case
    using Cons.IH [of "put_pane s k w p" "m1 @ [(k, p)]"] Cons.prems(2,3) e put by simp
qed simp

lemma restore_window:
  assumes "\<And>e. e \<in> set (windows s) \<Longrightarrow> fst e < w" "um_wf m" "m \<noteq> []"
  shows "fold (\<lambda>(k, p) s. put_pane s k w p) m s = s\<lparr>windows := windows s @ [(w, m)]\<rparr>"
proof -
  obtain k p m' where m: "m = (k, p) # m'" using assms(3) by (cases m) auto
  have "map_of (windows s) w = None"
    using assms(1) by (force simp: map_of_eq_None_iff)
  then have "put_pane s k w p = s\<lparr>windows := windows s @ [(w, [(k, p)])]\<rparr>"
    using om_set_last [of "windows s" w] assms(1) by (simp add: put_pane_def panes_of_def)
  then show ?thesis
    using restore_window_tail [of "put_pane s k w p" "windows s" w "[(k, p)]" m'] assms m
    by (simp add: um_wf_def)
qed

lemma restore_windows:
  assumes "om_wf (windows s @ ws)" "\<forall>(w, m) \<in> set ws. um_wf m \<and> m \<noteq> []"
  shows "fold (\<lambda>(k, w, p) s. put_pane s k w p)
           (concat (map (\<lambda>(w, m). map (\<lambda>(k, p). (k, w, p)) m) ws)) s =
         s\<lparr>windows := windows s @ ws\<rparr>"
  using assms
proof (induction ws arbitrary: s)
  case (Cons e ws)
  obtain w m where e: "e = (w, m)" by (cases e)
  have "fst e' < w" if "e' \<in> set (windows s)" for e'
    using Cons.prems(1) that e by (auto simp: om_wf_def sorted_wrt_append)
  then have "fold (\<lambda>(k, p) s. put_pane s k w p) m s = s\<lparr>windows := windows s @ [(w, m)]\<rparr>"
    using Cons.prems(2) e by (intro restore_window) auto
  moreover have "fold (\<lambda>(k, w, p) s. put_pane s k w p) (map (\<lambda>(k, p). (k, w, p)) m) s =
      fold (\<lambda>(k, p) s. put_pane s k w p) m s"
    by (simp add: fold_map comp_def split_def)
  ultimately show ?case
    using Cons.IH [of "s\<lparr>windows := windows s @ [(w, m)]\<rparr>"] Cons.prems e by simp
qed simp

lemma restore_capture_state:
  assumes "kws_wf s" "s0 = empty_state\<lparr>allowed_lateness := allowed_lateness s\<rparr>"
  shows "fold (\<lambda>(k, w, p) s. put_pane s k w p) (each_pane s) s0 = s0\<lparr>windows := windows s\<rparr>"
  using restore_windows [of s0 "windows s"] assms
  by (simp add: each_pane_def kws_wf_def empty_state_def)

lemma pane_eta: "\<lparr>pane_sum = pane_sum q, pane_count = pane_count q\<rparr> = q"
  by (cases q) simp

lemma restore_capture:
  assumes "kws_wf (state p)" "wm_initial \<le> watermark p"
    and "state p0 = empty_state\<lparr>allowed_lateness := allowed_lateness (state p)\<rparr>"
    and "watermark p0 = wm_initial"
  shows "restore (capture off p) p0 = p0\<lparr>state := state p, watermark := watermark p\<rparr>"
proof -
  let ?s = "state p"
  have "fold (\<lambda>e. restore_pane (entry_key e) (entry_window e) (entry_sum e) (entry_count e))
      (cd_panes (capture off p)) (state p0) =
    fold (\<lambda>(k, w, q) s. put_pane s k w q) (each_pane ?s) (state p0)"
    by (simp add: capture_def restore_pane_def [abs_def] fold_map comp_def split_def pane_eta)
  also have "\<dots> = (state p0)\<lparr>windows := windows ?s\<rparr>"
    using restore_capture_state [OF assms(1,3)] .
  finally have panes: "fold (\<lambda>e. restore_pane (entry_key e) (entry_window e) (entry_sum e) (entry_count e))
      (cd_panes (capture off p)) (state p0) = (state p0)\<lparr>windows := windows ?s\<rparr>" .
  have "fold us_insert (fired_windows ?s) [] = fired_windows ?s"
    "fold us_insert (refired_windows ?s) [] = refired_windows ?s"
    using kws_wfD(2,3) [OF assms(1)] by (simp_all add: fold_us_insert_distinct)
  then show ?thesis
    using panes assms(2-4)
    by (simp add: restore_def Let_def restore_fired_def restore_refired_def wm_advance_def
        capture_def empty_state_def)
qed

text \<open>
  Restart. A processor restored from the snapshot of a run, with the effects and counters
  of that run put back in front, is the processor that never stopped.
\<close>

lemma new_processor_shape:
  "new_processor cfg = Inr p \<Longrightarrow>
   p = \<lparr>watermark = wm_initial, state = empty_state\<lparr>allowed_lateness := lateness cfg\<rparr>,
        stats = zero_stats, effects = []\<rparr>"
  by (auto simp: new_processor_def set_allowed_lateness_def use_lateness_def
      empty_state_def split: if_splits)

lemma fold_stream_watermark_mono: "wm \<le> fold (\<lambda>it wm. stream_watermark wm it) its wm"
proof (induction its arbitrary: wm)
  case (Cons it its)
  have "wm \<le> stream_watermark wm it" by (simp add: stream_watermark_def split: batch_item.split)
  with Cons [of "stream_watermark wm it"] show ?case by simp
qed simp

lemma restored_is_original:
  assumes "new_processor cfg = Inr p0" "run_items cfg its p0 = Inr p"
    and "lawful_assigner (assigner cfg) width"
  shows "p = with_history (effects p) (stats p) (restore (capture off p) p0)"
proof -
  note p0 = new_processor_shape [OF assms(1)]
  have inv: "processor_inv cfg p"
    using run_items_refines [OF assms(2) new_processor_inv(1) [OF assms(1)] assms(3)] by blast
  have "wm_initial \<le> watermark p"
    using run_items_counts [OF assms(2) new_processor_inv(1) [OF assms(1)] assms(3)]
      fold_stream_watermark_mono p0 by simp
  then have "restore (capture off p) p0 = p0\<lparr>state := state p, watermark := watermark p\<rparr>"
    using restore_capture [OF processor_invD(1) [OF inv]] processor_invD(3) [OF inv] p0 by simp
  then show ?thesis
    by (simp add: p0 with_history_def add_stats_def zero_stats_def)
qed

lemma restart_continues:
  assumes "new_processor cfg = Inr p0" "run_items cfg xs p0 = Inr p"
    and "lawful_assigner (assigner cfg) width"
  shows "run_items cfg (xs @ ys) p0 =
    map_res (with_history (effects p) (stats p)) (run_items cfg ys (restore (capture off p) p0))"
proof -
  have "run_items cfg (xs @ ys) p0 = run_items cfg ys p"
    using assms(2) by (simp add: run_items_append)
  also have "\<dots> = run_items cfg ys (with_history (effects p) (stats p) (restore (capture off p) p0))"
    using restored_is_original [OF assms, of off] by simp
  finally show ?thesis by (simp add: run_with_history)
qed

section \<open>Recovery in any iteration order\<close>

lemma reordered_with_history: "reordered p q \<Longrightarrow> reordered (with_history es st p) (with_history es st q)"
  by (auto simp: reordered_def)

lemma any_order_with_history:
  "any_order_run cfg its p r \<Longrightarrow> any_order_run cfg its (with_history es st p) (map_res (with_history es st) r)"
proof (induction rule: any_order_run.induct)
  case (any_order_end p q)
  then show ?case by (simp add: any_order_run.any_order_end reordered_with_history)
next
  case (any_order_item p q it p' its r)
  then show ?case
    using any_order_run.any_order_item [OF reordered_with_history [OF any_order_item.hyps(1)]] by (simp add: item_with_history)
next
  case (any_order_throw p q it e its)
  then show ?case
    using any_order_run.any_order_throw [OF reordered_with_history [OF any_order_throw.hyps(1)]] by (simp add: item_with_history)
qed

lemma same_with_history: "same_processor p q \<Longrightarrow> same_processor (with_history es st p) (with_history es st q)"
  by (simp add: same_processor_def same_calls_append)

text \<open>What \<open>Capture\<close> lists in the order it finds, \<open>Restore\<close> inserts in that order; the next items may find it in another.\<close>

lemma restored_in_any_order:
  assumes "new_processor cfg = Inr p0" "any_order_run cfg its p0 (Inr p)"
    and "lawful_assigner (assigner cfg) width" "order_blind cfg"
  shows "p = with_history (effects p) (stats p) (restore (capture off p) p0)"
proof -
  note p0 = new_processor_shape [OF assms(1)] and inv0 = new_processor_inv(1) [OF assms(1)]
  have inv: "processor_inv cfg p" by (rule any_order_inv [OF assms(2) inv0 assms(3)])
  have "same_result (run_items cfg its p0) (Inr p)"
    by (rule any_order_agree [OF run_items_any_order assms(2) same_processor_refl inv0 assms(4,3)])
  then obtain p1 where "run_items cfg its p0 = Inr p1" "watermark p = watermark p1"
    by (auto simp: rel_sum.simps same_processor_def)
  then have "wm_initial \<le> watermark p"
    using run_items_counts [of cfg its p0 p1, OF _ inv0 assms(3)] fold_stream_watermark_mono p0 by simp
  then have "restore (capture off p) p0 = p0\<lparr>state := state p, watermark := watermark p\<rparr>"
    using restore_capture [OF processor_invD(1) [OF inv]] processor_invD(3) [OF inv] p0 by simp
  then show ?thesis by (simp add: p0 with_history_def add_stats_def zero_stats_def)
qed

section \<open>Properties\<close>

text \<open>
  C20. Recovery is transparent, whatever order the unordered containers are walked in. A fresh
  processor restored from the state captured after \<open>xs\<close> processes the rest \<open>ys\<close> of the stream as
  an uninterrupted run does: it throws the same exception, or with the calls and counters from
  before the capture put in front it has the same panes, window sets, watermark and counters and
  has made the same sink calls up to the order of the rows one loop emits, and so has its final flush.
  Capture, restore and both runs each find the containers in orders of their own.
\<close>

theorem recovery_is_transparent:
  assumes "new_processor cfg = Inr p0" "lawful_assigner (assigner cfg) width" "order_blind cfg"
    and "any_order_run cfg xs p0 (Inr p)" "any_order_run cfg ys (restore (capture off p) p0) r"
    and "any_order_run cfg (xs @ ys) p0 full"
  shows "case full of
      Inl e \<Rightarrow> r = Inl e
    | Inr f \<Rightarrow> \<exists>q. r = Inr q \<and> same_processor f (with_history (effects p) (stats p) q) \<and>
        same_processor (final_flush cfg f) (with_history (effects p) (stats p) (final_flush cfg q))"
proof -
  let ?h = "with_history (effects p) (stats p)"
  have inv: "processor_inv cfg p0" by (rule new_processor_inv(1) [OF assms(1)])
  have "any_order_run cfg ys p (map_res ?h r)"
    using any_order_with_history [OF assms(5), of "effects p" "stats p"]
      restored_in_any_order [OF assms(1,4,2,3), of off] by simp
  then have "any_order_run cfg (xs @ ys) p0 (map_res ?h r)" by (rule any_order_append [OF assms(4)])
  then have same: "same_result full (map_res ?h r)"
    by (rule any_order_agree [OF assms(6) _ same_processor_refl inv assms(3,2)])
  show ?thesis
  proof (cases full)
    case (Inl e)
    then show ?thesis using same by (cases r) simp_all
  next
    case (Inr f)
    then obtain q where q: "r = Inr q" "same_processor f (?h q)" using same by (cases r) simp_all
    have "processor_inv cfg f" using any_order_inv [OF _ inv assms(2)] assms(6) Inr by blast
    from final_flush_same [OF q(2) this] show ?thesis using Inr q by (simp add: flush_with_history)
  qed
qed

theorem recovery_is_transparent_witness:
  "\<exists>p0 p q f. new_processor sample_job = Inr p0 \<and> run_items sample_job sample_stream p0 = Inr p \<and>
     reversing_run sample_job sample_stream (restore (capture 5 p) p0) = Inr q \<and>
     run_items sample_job (sample_stream @ sample_stream) p0 = Inr f \<and>
     same_processor f (with_history (effects p) (stats p) q)"
proof -
  have "case new_processor sample_job of Inl e \<Rightarrow> False | Inr p0 \<Rightarrow>
      (case run_items sample_job sample_stream p0 of Inl e \<Rightarrow> False | Inr p \<Rightarrow>
        \<not> isl (run_items sample_job (sample_stream @ sample_stream) p0))" by code_simp
  then obtain p0 p f where r: "new_processor sample_job = Inr p0" "run_items sample_job sample_stream p0 = Inr p"
      "run_items sample_job (sample_stream @ sample_stream) p0 = Inr f"
    by (auto simp: isl_def split: sum.splits) (metis sum.exhaust)
  have "any_order_run sample_job sample_stream p0 (Inr p)" "any_order_run sample_job (sample_stream @ sample_stream) p0 (Inr f)"
    using run_items_any_order [of sample_job] r(2,3) by metis+
  from recovery_is_transparent [OF r(1) sample_lawful sample_order_blind this(1) reversing_any_order this(2), of 5]
  show ?thesis using r by auto
qed

end
