(* ===== verification/Checkpoint.thy ===== *)
theory Checkpoint
  imports Byte_Codec Crc32c Processor_Recovery
begin

text \<open>
  Checkpoint files: the writer (\<open>src/src/checkpoint/writer.cpp\<close>) and the reader
  (\<open>src/src/checkpoint/reader.cpp\<close>). A checkpoint directory is an association list from
  file names to contents, in the order \<open>readdir\<close> returns it. The outcome of the system
  calls of a write is a parameter; the directories a killed writer can leave behind are
  enumerated.

  The reader is shown to invert the writer, never to read outside the buffer, and to reject
  a file with a damaged trailer or with up to four consecutive damaged bytes in the payload.
\<close>

section \<open>Writing\<close>

definition kMagic :: u32 where
  "kMagic = 0x4B434753"

definition kVersion :: u32 where
  "kVersion = 3"

definition append_entry :: "string \<times> window \<times> pane \<Rightarrow> bytes \<Rightarrow> bytes" where
  "append_entry e payload =
     (case e of (k, w, p) \<Rightarrow>
        (let b1 = append_le32 payload (of_nat (length k));
             b2 = b1 @ bytes_of_string k;
             b3 = append_sle64 b2 (wstart w);
             b4 = append_sle64 b3 (wend w);
             b5 = append_sle64 b4 (pane_sum p)
         in append_le64 b5 (pane_count p)))"

definition append_window :: "window \<Rightarrow> bytes \<Rightarrow> bytes" where
  "append_window w payload = append_sle64 (append_sle64 payload (wstart w)) (wend w)"

definition checkpoint_payload :: "u64 \<Rightarrow> timestamp \<Rightarrow> keyed_window_state \<Rightarrow> bytes" where
  "checkpoint_payload offset wm s =
     (let num_entries = of_nat (total_panes s);
          header = append_le64 (append_sle64 (append_le64 (append_le32 (append_le32 [] kMagic)
                     kVersion) offset) wm) num_entries;
          body = fold append_entry (each_pane s) header;
          fired = fold append_window (fired_windows s)
                    (append_le64 body (of_nat (length (fired_windows s))))
      in fold append_window (refired_windows s)
           (append_le64 fired (of_nat (length (refired_windows s)))))"

definition checkpoint_bytes :: "u64 \<Rightarrow> timestamp \<Rightarrow> keyed_window_state \<Rightarrow> bytes" where
  "checkpoint_bytes offset wm s =
     (let payload = checkpoint_payload offset wm s;
          crc = crc32c payload 0
      in append_le32 (append_le64 payload (of_nat (total_panes s))) crc)"

section \<open>Reading\<close>

fun load_entries ::
    "bytes \<Rightarrow> nat \<Rightarrow> nat \<Rightarrow> nat \<Rightarrow> pane_entry list \<Rightarrow> (nat \<times> pane_entry list) load" where
  "load_entries data body_end 0 pos panes = Loaded (pos, panes)"
| "load_entries data body_end (Suc i) pos panes =
     (if pos + 4 > body_end then Reject
      else bind_load (rd32 data pos) (\<lambda>kl.
        let pos = pos + 4; key_len = unat kl in
        if pos + key_len + 32 > body_end then Reject
        else bind_load (rd_string data pos key_len) (\<lambda>k.
          let pos = pos + key_len in
          bind_load (rds64 data pos) (\<lambda>win_start.
          bind_load (rds64 data (pos + 8)) (\<lambda>win_end.
          bind_load (rds64 data (pos + 16)) (\<lambda>psum.
          bind_load (rd64 data (pos + 24)) (\<lambda>pcount.
            load_entries data body_end i (pos + 32)
              (panes @ [\<lparr>entry_key = k, entry_window = Window win_start win_end,
                         entry_sum = psum, entry_count = pcount\<rparr>]))))))))"

fun load_fired :: "bytes \<Rightarrow> nat \<Rightarrow> nat \<Rightarrow> nat \<Rightarrow> window list \<Rightarrow> (nat \<times> window list) load" where
  "load_fired data body_end 0 pos ws = Loaded (pos, ws)"
| "load_fired data body_end (Suc i) pos ws =
     (if pos + 16 > body_end then Reject
      else bind_load (rds64 data pos) (\<lambda>s. bind_load (rds64 data (pos + 8)) (\<lambda>e.
        load_fired data body_end i (pos + 16) (ws @ [Window s e]))))"

definition load_fired_section :: "u32 \<Rightarrow> bytes \<Rightarrow> nat \<Rightarrow> nat \<Rightarrow> (nat \<times> window list) load" where
  "load_fired_section version data body_end pos =
     (if version \<ge> 2 then
        (if pos + 8 > body_end then Reject
         else bind_load (rd64 data pos) (\<lambda>num_fired.
           let pos = pos + 8 in
           if unat num_fired > (body_end - pos) div 16 then Reject
           else load_fired data body_end (unat num_fired) pos []))
      else Loaded (pos, []))"

fun load_refired ::
    "bytes \<Rightarrow> window list \<Rightarrow> nat \<Rightarrow> nat \<Rightarrow> window list \<Rightarrow> (nat \<times> window list) load" where
  "load_refired data fired 0 pos ws = Loaded (pos, ws)"
| "load_refired data fired (Suc i) pos ws =
     bind_load (rds64 data pos) (\<lambda>s. bind_load (rds64 data (pos + 8)) (\<lambda>e.
       if Window s e \<notin> set fired then Reject
       else load_refired data fired i (pos + 16) (ws @ [Window s e])))"

definition load_refired_section ::
    "u32 \<Rightarrow> bytes \<Rightarrow> nat \<Rightarrow> window list \<Rightarrow> nat \<Rightarrow> (nat \<times> window list) load" where
  "load_refired_section version data body_end fired pos =
     (if version \<ge> 3 then
        (if body_end - pos < 8 then Reject
         else bind_load (rd64 data pos) (\<lambda>count.
           let pos = pos + 8 in
           if unat count > (body_end - pos) div 16 then Reject
           else load_refired data fired (unat count) pos []))
      else Loaded (pos, []))"

text \<open>The part of \<open>TryLoad\<close> after the header and trailer checks.\<close>

definition load_body ::
    "bytes \<Rightarrow> nat \<Rightarrow> u32 \<Rightarrow> u64 \<Rightarrow> timestamp \<Rightarrow> u64 \<Rightarrow> checkpoint_data load" where
  "load_body data body_end version offset wm num_entries =
     (if unat num_entries > (body_end - 32) div 36 then Reject
      else bind_load (load_entries data body_end (unat num_entries) 32 []) (\<lambda>(pos, panes).
        bind_load (load_fired_section version data body_end pos) (\<lambda>(pos, fired).
        bind_load (load_refired_section version data body_end fired pos) (\<lambda>(pos, refired).
          if pos \<noteq> body_end then Reject
          else Loaded \<lparr>cd_offset = offset, cd_watermark = wm, cd_panes = panes,
                       cd_refired = refired, cd_fired = fired\<rparr>))))"

definition try_load :: "bytes \<Rightarrow> checkpoint_data load" where
  "try_load data =
     (if length data < 44 then Reject
      else let body_end = length data - 12 in
        bind_load (rd32 data (length data - 4)) (\<lambda>stored_crc.
        if stored_crc \<noteq> crc32c (take body_end data) 0 then Reject
        else bind_load (rd32 data 0) (\<lambda>magic.
        if magic \<noteq> kMagic then Reject
        else bind_load (rd32 data 4) (\<lambda>version.
        if version = 0 \<or> version > 3 then Reject
        else bind_load (rd64 data 8) (\<lambda>offset.
        bind_load (rds64 data 16) (\<lambda>wm.
        bind_load (rd64 data 24) (\<lambda>num_entries.
        bind_load (rd64 data body_end) (\<lambda>trailer_count.
        if trailer_count \<noteq> num_entries then Reject
        else load_body data body_end version offset wm num_entries))))))))"

section \<open>Reads stay inside the buffer\<close>

lemma load_entries_bounds:
  assumes "body_end \<le> length data" "pos \<le> body_end"
  shows "load_entries data body_end n pos panes \<noteq> Fault \<and>
    (load_entries data body_end n pos panes = Loaded (pos', panes') \<longrightarrow> pos \<le> pos' \<and> pos' \<le> body_end)"
  using assms(2)
proof (induction n arbitrary: pos panes)
  case (Suc n)
  show ?case
  proof (cases "pos + 4 > body_end")
    case False
    then have r: "rd32 data pos = Loaded (read_le32 (drop pos data))"
      using assms(1) by (intro rd_in_bounds) simp
    let ?k = "unat (read_le32 (drop pos data))"
    show ?thesis
    proof (cases "pos + 4 + ?k + 32 > body_end")
      case b: False
      then have "\<exists>e. load_entries data body_end (Suc n) pos panes =
          load_entries data body_end n (pos + 4 + ?k + 32) (panes @ [e])"
        using False r assms(1) by (auto simp: Let_def rd_in_bounds)
      then obtain e where "load_entries data body_end (Suc n) pos panes =
          load_entries data body_end n (pos + 4 + ?k + 32) (panes @ [e])" ..
      then show ?thesis using Suc.IH [of "pos + 4 + ?k + 32" "panes @ [e]"] b by auto
    qed (use False r in \<open>simp add: Let_def\<close>)
  qed simp
qed simp

lemma load_fired_bounds:
  assumes "body_end \<le> length data" "pos \<le> body_end"
  shows "load_fired data body_end n pos ws \<noteq> Fault \<and>
    (load_fired data body_end n pos ws = Loaded (pos', ws') \<longrightarrow> pos \<le> pos' \<and> pos' \<le> body_end)"
  using assms(2)
proof (induction n arbitrary: pos ws)
  case (Suc n)
  show ?case
  proof (cases "pos + 16 > body_end")
    case False
    then show ?thesis
      using assms(1) Suc.IH [of "pos + 16"] by (simp add: rd_in_bounds) (meson add_leD1)
  qed simp
qed simp

lemma load_fired_section_bounds:
  assumes "body_end \<le> length data" "pos \<le> body_end"
  shows "load_fired_section v data body_end pos \<noteq> Fault \<and>
    (load_fired_section v data body_end pos = Loaded (pos', ws') \<longrightarrow> pos' \<le> body_end)"
  using assms load_fired_bounds [OF assms(1), of "pos + 8" "unat (read_le64 (drop pos data))" "[]" pos' ws']
  by (simp add: load_fired_section_def rd_in_bounds Let_def)

lemma load_refired_bounds:
  "pos + 16 * n \<le> length data \<Longrightarrow> load_refired data fired n pos ws \<noteq> Fault"
  by (induction n arbitrary: pos ws) (simp_all add: rd_in_bounds)

lemma load_refired_section_bounds:
  assumes "body_end \<le> length data" "pos \<le> body_end"
  shows "load_refired_section v data body_end fired pos \<noteq> Fault"
proof (cases "version_ok \<and> body_end - pos < 8")
  case False
  have "pos + 8 + 16 * unat c \<le> length data"
    if "\<not> body_end - pos < 8" "\<not> unat c > (body_end - (pos + 8)) div 16" for c :: u64
    using that assms by auto
  then show ?thesis
    using assms load_refired_bounds by (simp add: load_refired_section_def rd_in_bounds Let_def)
qed (use assms load_refired_bounds in \<open>auto simp: load_refired_section_def rd_in_bounds Let_def\<close>)

lemma load_body_no_fault:
  assumes "body_end \<le> length data" "32 \<le> body_end"
  shows "load_body data body_end v off wm num \<noteq> Fault"
proof (cases "load_entries data body_end (unat num) 32 []")
  case e: (Loaded x)
  obtain pos panes where x: "x = (pos, panes)" by (cases x)
  have pos: "pos \<le> body_end" using load_entries_bounds [OF assms] e x by blast
  show ?thesis
  proof (cases "load_fired_section v data body_end pos")
    case f: (Loaded y)
    obtain pos2 fired where y: "y = (pos2, fired)" by (cases y)
    have "pos2 \<le> body_end" using load_fired_section_bounds [OF assms(1) pos] f y by blast
    then have "load_refired_section v data body_end fired pos2 \<noteq> Fault"
      by (rule load_refired_section_bounds [OF assms(1)])
    then show ?thesis
      using e x f y by (cases "load_refired_section v data body_end fired pos2")
        (auto simp: load_body_def split: if_splits)
  qed (use e x load_fired_section_bounds [OF assms(1) pos, of v] in \<open>auto simp: load_body_def\<close>)
qed (use load_entries_bounds [OF assms] in \<open>auto simp: load_body_def\<close>)

lemma try_load_never_faults: "try_load data \<noteq> Fault"
  using load_body_no_fault [of "length data - 12" data]
  by (simp add: try_load_def rd_in_bounds Let_def)

section \<open>The reader inverts the writer\<close>

definition encodable :: "timestamp \<Rightarrow> keyed_window_state \<Rightarrow> bool" where
  "encodable wm s \<longleftrightarrow>
     in_i64 wm \<and>
     (\<forall>(k, w, p) \<in> set (each_pane s).
        length k < 2 ^ 32 \<and> in_i64 (wstart w) \<and> in_i64 (wend w) \<and> in_i64 (pane_sum p)) \<and>
     (\<forall>w \<in> set (fired_windows s). in_i64 (wstart w) \<and> in_i64 (wend w)) \<and>
     set (refired_windows s) \<subseteq> set (fired_windows s) \<and>
     total_panes s < 2 ^ 64 \<and> length (fired_windows s) < 2 ^ 64 \<and> length (refired_windows s) < 2 ^ 64"

definition entry_bytes :: "string \<times> window \<times> pane \<Rightarrow> bytes" where
  "entry_bytes e = append_entry e []"

definition window_bytes :: "window \<Rightarrow> bytes" where
  "window_bytes w = append_window w []"

lemma entry_bytes_unfold:
  "entry_bytes (k, w, p) = le32 (of_nat (length k)) @ bytes_of_string k @ sle64 (wstart w) @
     sle64 (wend w) @ sle64 (pane_sum p) @ le64 (pane_count p)"
  unfolding entry_bytes_def append_entry_def Let_def
  by (simp only: prod.case append_sle64_acc [of "append_sle64 _ _"] append_sle64_acc [of "_ @ _"]
      append_le64_acc [of "_ @ _"] append_assoc)

lemma window_bytes_unfold: "window_bytes w = sle64 (wstart w) @ sle64 (wend w)"
  by (simp add: window_bytes_def append_window_def append_sle64_acc [of "append_sle64 _ _"])

lemma append_entry_acc: "append_entry e buf = buf @ entry_bytes e"
proof (cases e)
  case (fields k w p)
  have "append_entry (k, w, p) buf = buf @ le32 (of_nat (length k)) @ bytes_of_string k @
      sle64 (wstart w) @ sle64 (wend w) @ sle64 (pane_sum p) @ le64 (pane_count p)"
    unfolding append_entry_def Let_def prod.case
    by (subst append_le64_acc, subst append_sle64_acc, subst append_sle64_acc, subst append_sle64_acc,
        subst append_le32_acc) simp
  then show ?thesis by (simp add: fields entry_bytes_unfold)
qed

lemma append_window_acc: "append_window w buf = buf @ window_bytes w"
  by (subst append_window_def, subst append_sle64_acc, subst append_sle64_acc)
     (simp add: window_bytes_unfold)

lemma fold_append_acc:
  "(\<And>x b. f x b = b @ g x) \<Longrightarrow> fold f xs buf = buf @ concat (map g xs)"
  by (induction xs arbitrary: buf) simp_all

lemma length_entry_bytes: "length (entry_bytes (k, w, p)) = 36 + length k"
  by (simp add: entry_bytes_unfold)

lemma length_window_bytes [simp]: "length (window_bytes w) = 16"
  by (simp add: window_bytes_unfold)

lemma length_concat_windows [simp]: "length (concat (map window_bytes ws)) = 16 * length ws"
  by (induction ws) simp_all

lemma length_concat_entries: "36 * length es \<le> length (concat (map entry_bytes es))"
proof (induction es)
  case (Cons e es)
  then show ?case by (cases e) (simp add: length_entry_bytes)
qed simp

definition header_bytes :: "u64 \<Rightarrow> timestamp \<Rightarrow> keyed_window_state \<Rightarrow> bytes" where
  "header_bytes offset wm s =
     le32 kMagic @ le32 kVersion @ le64 offset @ sle64 wm @ le64 (of_nat (total_panes s))"

lemma checkpoint_payload_unfold:
  "checkpoint_payload offset wm s =
     header_bytes offset wm s @ concat (map entry_bytes (each_pane s)) @
     le64 (of_nat (length (fired_windows s))) @ concat (map window_bytes (fired_windows s)) @
     le64 (of_nat (length (refired_windows s))) @ concat (map window_bytes (refired_windows s))"
proof -
  have header: "append_le64 (append_sle64 (append_le64 (append_le32 (append_le32 [] kMagic)
      kVersion) offset) wm) (of_nat (total_panes s)) = header_bytes offset wm s"
    unfolding header_bytes_def
    by (subst append_le64_acc, subst append_sle64_acc, subst append_le64_acc, subst append_le32_acc) simp
  have folds: "fold append_entry es buf = buf @ concat (map entry_bytes es)"
    "fold append_window ws buf = buf @ concat (map window_bytes ws)" for es ws buf
    by (rule fold_append_acc, rule append_entry_acc) (rule fold_append_acc, rule append_window_acc)
  have le: "append_le64 (a @ b) n = a @ b @ le64 n" for a b n
    by (subst append_le64_acc) simp
  show ?thesis
    unfolding checkpoint_payload_def Let_def header folds le append_assoc by (simp only: append_assoc)
qed

lemma checkpoint_bytes_unfold:
  "checkpoint_bytes offset wm s =
     checkpoint_payload offset wm s @ le64 (of_nat (total_panes s)) @
     le32 (crc32c (checkpoint_payload offset wm s) 0)"
  unfolding checkpoint_bytes_def Let_def
  by (subst append_le32_acc, subst append_le64_acc) simp

lemma length_header_bytes [simp]: "length (header_bytes offset wm s) = 32"
  by (simp add: header_bytes_def)

subsection \<open>The loops\<close>

definition entry_of :: "string \<times> window \<times> pane \<Rightarrow> pane_entry" where
  "entry_of e = (case e of (k, w, q) \<Rightarrow>
     \<lparr>entry_key = k, entry_window = w, entry_sum = pane_sum q, entry_count = pane_count q\<rparr>)"

lemma load_entries_written:
  assumes "\<forall>(k, w, p) \<in> set es. length k < 2 ^ 32 \<and> in_i64 (wstart w) \<and> in_i64 (wend w) \<and> in_i64 (pane_sum p)"
    and "length pre = pos" "pos + length (concat (map entry_bytes es)) \<le> body_end"
  shows "load_entries (pre @ concat (map entry_bytes es) @ post) body_end (length es) pos panes =
    Loaded (pos + length (concat (map entry_bytes es)), panes @ map entry_of es)"
  using assms
proof (induction es arbitrary: pre pos panes)
  case (Cons e es)
  obtain k w p where e: "e = (k, w, p)" by (cases e)
  have r: "length k < 2 ^ 32" "in_i64 (wstart w)" "in_i64 (wend w)" "in_i64 (pane_sum p)"
    using Cons.prems(1) e by auto
  let ?rest = "concat (map entry_bytes es) @ post"
  let ?data = "pre @ concat (map entry_bytes (e # es)) @ post"
  have d: "?data = pre @ le32 (of_nat (length k)) @ bytes_of_string k @ sle64 (wstart w) @
      sle64 (wend w) @ sle64 (pane_sum p) @ le64 (pane_count p) @ ?rest"
    by (simp add: e entry_bytes_unfold)
  have k: "unat (of_nat (length k) :: u32) = length k" using r(1) by (simp add: unat_of_nat)
  have f: "rd32 ?data pos = Loaded (of_nat (length k))"
    "rd_string ?data (pos + 4) (length k) = Loaded k"
    "rds64 ?data (pos + 4 + length k) = Loaded (wstart w)"
    "rds64 ?data (pos + 4 + length k + 8) = Loaded (wend w)"
    "rds64 ?data (pos + 4 + length k + 16) = Loaded (pane_sum p)"
    "rd64 ?data (pos + 4 + length k + 24) = Loaded (pane_count p)"
    unfolding d
    using rd_field(1) [of pre pos] rd_field(4) [of "pre @ le32 (of_nat (length k))" "pos + 4" k]
      rd_field(3) [of "pre @ le32 (of_nat (length k)) @ bytes_of_string k" "pos + 4 + length k", OF _ r(2)]
      rd_field(3) [of "pre @ le32 (of_nat (length k)) @ bytes_of_string k @ sle64 (wstart w)"
        "pos + 4 + length k + 8", OF _ r(3)]
      rd_field(3) [of "pre @ le32 (of_nat (length k)) @ bytes_of_string k @ sle64 (wstart w) @ sle64 (wend w)"
        "pos + 4 + length k + 16", OF _ r(4)]
      rd_field(2) [of "pre @ le32 (of_nat (length k)) @ bytes_of_string k @ sle64 (wstart w) @ sle64 (wend w) @
        sle64 (pane_sum p)" "pos + 4 + length k + 24"] Cons.prems(2)
    by simp_all
  have len: "pos + 36 + length k \<le> body_end" using Cons.prems(3) by (simp add: e length_entry_bytes)
  have "load_entries ?data body_end (length (e # es)) pos panes =
      load_entries ?data body_end (length es) (pos + 36 + length k) (panes @ [entry_of e])"
    using len k f by (simp add: Let_def entry_of_def e add.commute add.left_commute)
  also have "?data = (pre @ entry_bytes e) @ concat (map entry_bytes es) @ post" by simp
  also have "load_entries \<dots> body_end (length es) (pos + 36 + length k) (panes @ [entry_of e]) =
      Loaded (pos + 36 + length k + length (concat (map entry_bytes es)), (panes @ [entry_of e]) @ map entry_of es)"
    using Cons.prems by (intro Cons.IH) (auto simp: e length_entry_bytes)
  finally show ?case by (simp add: e length_entry_bytes add.assoc)
qed simp

lemma window_fields:
  assumes "length pre = pos" "in_i64 (wstart w)" "in_i64 (wend w)"
  shows "rds64 (pre @ window_bytes w @ post) pos = Loaded (wstart w)"
    "rds64 (pre @ window_bytes w @ post) (pos + 8) = Loaded (wend w)"
  using rd_field(3) [OF assms(1,2), of "sle64 (wend w) @ post"]
    rd_field(3) [of "pre @ sle64 (wstart w)" "pos + 8", OF _ assms(3), of post] assms(1)
  by (simp_all add: window_bytes_unfold)

lemma load_fired_written:
  assumes "\<forall>w \<in> set fs. in_i64 (wstart w) \<and> in_i64 (wend w)" "length pre = pos"
    and "pos + 16 * length fs \<le> body_end"
  shows "load_fired (pre @ concat (map window_bytes fs) @ post) body_end (length fs) pos ws =
    Loaded (pos + 16 * length fs, ws @ fs)"
  using assms
proof (induction fs arbitrary: pre pos ws)
  case (Cons w fs)
  let ?post = "concat (map window_bytes fs) @ post"
  have "load_fired (pre @ window_bytes w @ ?post) body_end (length (w # fs)) pos ws =
      load_fired (pre @ window_bytes w @ ?post) body_end (length fs) (pos + 16) (ws @ [w])"
    using Cons.prems window_fields [of pre pos w ?post] by (simp add: add.commute)
  also have "pre @ window_bytes w @ ?post = (pre @ window_bytes w) @ ?post" by simp
  also have "load_fired \<dots> body_end (length fs) (pos + 16) (ws @ [w]) =
      Loaded (pos + 16 + 16 * length fs, (ws @ [w]) @ fs)"
    using Cons.prems by (intro Cons.IH) auto
  finally show ?case by simp
qed simp

lemma load_refired_written:
  assumes "\<forall>w \<in> set rs. in_i64 (wstart w) \<and> in_i64 (wend w)" "set rs \<subseteq> set fired" "length pre = pos"
  shows "load_refired (pre @ concat (map window_bytes rs) @ post) fired (length rs) pos ws =
    Loaded (pos + 16 * length rs, ws @ rs)"
  using assms
proof (induction rs arbitrary: pre pos ws)
  case (Cons w rs)
  let ?post = "concat (map window_bytes rs) @ post"
  have "load_refired (pre @ window_bytes w @ ?post) fired (length (w # rs)) pos ws =
      load_refired (pre @ window_bytes w @ ?post) fired (length rs) (pos + 16) (ws @ [w])"
    using Cons.prems window_fields [of pre pos w ?post] by (simp add: add.commute)
  also have "pre @ window_bytes w @ ?post = (pre @ window_bytes w) @ ?post" by simp
  also have "load_refired \<dots> fired (length rs) (pos + 16) (ws @ [w]) =
      Loaded (pos + 16 + 16 * length rs, (ws @ [w]) @ rs)"
    using Cons.prems by (intro Cons.IH) auto
  finally show ?case by simp
qed simp

subsection \<open>The whole file\<close>

lemma load_body_written:
  assumes "encodable wm s" "body_end = length (checkpoint_payload offset wm s)"
  shows "load_body (checkpoint_payload offset wm s @ trailer) body_end kVersion offset wm (of_nat (total_panes s)) =
    Loaded \<lparr>cd_offset = offset, cd_watermark = wm, cd_panes = map entry_of (each_pane s),
            cd_refired = refired_windows s, cd_fired = fired_windows s\<rparr>"
proof -
  let ?h = "header_bytes offset wm s" and ?es = "concat (map entry_bytes (each_pane s))"
  let ?nf = "le64 (of_nat (length (fired_windows s)))" and ?fs = "concat (map window_bytes (fired_windows s))"
  let ?nr = "le64 (of_nat (length (refired_windows s)))" and ?rs = "concat (map window_bytes (refired_windows s))"
  let ?data = "checkpoint_payload offset wm s @ trailer"
  have data: "?data = ?h @ ?es @ ?nf @ ?fs @ ?nr @ ?rs @ trailer" by (simp add: checkpoint_payload_unfold)
  have be: "body_end = 32 + length ?es + 8 + 16 * length (fired_windows s) + 8 + 16 * length (refired_windows s)"
    by (simp add: assms(2) checkpoint_payload_unfold)
  have enc: "\<forall>(k, w, p) \<in> set (each_pane s).
        length k < 2 ^ 32 \<and> in_i64 (wstart w) \<and> in_i64 (wend w) \<and> in_i64 (pane_sum p)"
    "\<forall>w \<in> set (fired_windows s). in_i64 (wstart w) \<and> in_i64 (wend w)"
    "set (refired_windows s) \<subseteq> set (fired_windows s)"
    using assms(1) by (simp_all add: encodable_def)
  then have enr: "\<forall>w \<in> set (refired_windows s). in_i64 (wstart w) \<and> in_i64 (wend w)" by blast
  have un: "unat (of_nat (total_panes s) :: u64) = length (each_pane s)"
    "unat (of_nat (length (fired_windows s)) :: u64) = length (fired_windows s)"
    "unat (of_nat (length (refired_windows s)) :: u64) = length (refired_windows s)"
    using assms(1) by (simp_all add: encodable_def unat_of_nat length_each_pane)
  have E: "load_entries ?data body_end (length (each_pane s)) 32 [] =
      Loaded (32 + length ?es, map entry_of (each_pane s))"
    unfolding data using load_entries_written [OF enc(1), of ?h 32 body_end] be by simp
  have F: "load_fired_section kVersion ?data body_end (32 + length ?es) =
      Loaded (40 + length ?es + 16 * length (fired_windows s), fired_windows s)"
  proof -
    have "rd64 ?data (32 + length ?es) = Loaded (of_nat (length (fired_windows s)))"
      unfolding data using rd_field(2) [of "?h @ ?es" "32 + length ?es"] by simp
    moreover have "load_fired ?data body_end (length (fired_windows s)) (40 + length ?es) [] =
        Loaded (40 + length ?es + 16 * length (fired_windows s), fired_windows s)"
      unfolding data using load_fired_written [OF enc(2), of "?h @ ?es @ ?nf" "40 + length ?es" body_end] be
      by simp
    moreover have "\<not> 32 + length ?es + 8 > body_end" "32 + length ?es + 8 = 40 + length ?es"
      "\<not> length (fired_windows s) > (body_end - (40 + length ?es)) div 16"
      by (simp_all add: be)
    ultimately show ?thesis using un(2) by (simp only: load_fired_section_def kVersion_def Let_def) simp
  qed
  have R: "load_refired_section kVersion ?data body_end (fired_windows s)
        (40 + length ?es + 16 * length (fired_windows s)) = Loaded (body_end, refired_windows s)"
  proof -
    have "rd64 ?data (40 + length ?es + 16 * length (fired_windows s)) = Loaded (of_nat (length (refired_windows s)))"
      unfolding data using rd_field(2) [of "?h @ ?es @ ?nf @ ?fs" "40 + length ?es + 16 * length (fired_windows s)"]
      by simp
    moreover have "load_refired ?data (fired_windows s) (length (refired_windows s))
          (48 + length ?es + 16 * length (fired_windows s)) [] = Loaded (body_end, refired_windows s)"
      unfolding data using load_refired_written [OF enr enc(3), of "?h @ ?es @ ?nf @ ?fs @ ?nr"
        "48 + length ?es + 16 * length (fired_windows s)"] be by simp
    moreover have "\<not> body_end - (40 + length ?es + 16 * length (fired_windows s)) < 8"
      "40 + length ?es + 16 * length (fired_windows s) + 8 = 48 + length ?es + 16 * length (fired_windows s)"
      "\<not> length (refired_windows s) > (body_end - (48 + length ?es + 16 * length (fired_windows s))) div 16"
      by (simp_all add: be)
    ultimately show ?thesis using un(3) by (simp only: load_refired_section_def kVersion_def Let_def) simp
  qed
  have "length (each_pane s) \<le> (body_end - 32) div 36"
    using length_concat_entries [of "each_pane s"] be by simp
  then show ?thesis using E F R un(1) by (simp add: load_body_def)
qed

lemma trailer_length: "length (le64 n @ le32 c) = 12"
  by simp

lemma try_load_fields:
  assumes "length data = length (checkpoint_payload offset wm s) + 12"
    and "take 32 data = header_bytes offset wm s" "in_i64 wm"
  shows "try_load data =
    (if read_le32 (drop (length data - 4) data) \<noteq> crc32c (take (length data - 12) data) 0 then Reject
     else if read_le64 (drop (length data - 12) data) \<noteq> of_nat (total_panes s) then Reject
     else load_body data (length data - 12) kVersion offset wm (of_nat (total_panes s)))"
proof -
  let ?r = "drop 32 data"
  have len: "44 \<le> length data" by (simp add: assms(1) checkpoint_payload_unfold)
  have d: "data = le32 kMagic @ le32 kVersion @ le64 offset @ sle64 wm @ le64 (of_nat (total_panes s)) @ ?r"
    using append_take_drop_id [of 32 data] unfolding assms(2) header_bytes_def by simp
  have f: "rd32 data 0 = Loaded kMagic" "rd32 data 4 = Loaded kVersion" "rd64 data 8 = Loaded offset"
    "rds64 data 16 = Loaded wm" "rd64 data 24 = Loaded (of_nat (total_panes s))"
    using rd_field(1) [of "[]" 0] rd_field(1) [of "le32 kMagic" 4]
      rd_field(2) [of "le32 kMagic @ le32 kVersion" 8]
      rd_field(3) [of "le32 kMagic @ le32 kVersion @ le64 offset" 16, OF _ assms(3)]
      rd_field(2) [of "le32 kMagic @ le32 kVersion @ le64 offset @ sle64 wm" 24]
    by (subst d, simp)+
  show ?thesis
    using len f by (simp add: try_load_def Let_def rd_in_bounds kVersion_def)
qed

lemma take_header: "take 32 (checkpoint_payload offset wm s @ t) = header_bytes offset wm s"
  by (simp add: checkpoint_payload_unfold)

lemma try_load_written:
  assumes "encodable wm s"
  shows "try_load (checkpoint_bytes offset wm s) =
    Loaded \<lparr>cd_offset = offset, cd_watermark = wm, cd_panes = map entry_of (each_pane s),
            cd_refired = refired_windows s, cd_fired = fired_windows s\<rparr>"
proof -
  let ?p = "checkpoint_payload offset wm s"
  let ?t = "le64 (of_nat (total_panes s)) @ le32 (crc32c ?p 0)"
  have d: "checkpoint_bytes offset wm s = ?p @ ?t" by (rule checkpoint_bytes_unfold)
  have "in_i64 wm" using assms by (simp add: encodable_def)
  from try_load_fields [of "?p @ ?t", OF _ take_header this] show ?thesis
    using load_body_written [OF assms, of _ offset ?t] unfolding d
    by (simp add: read_le32_append [of _ "[]", simplified])
qed

lemma capture_entries:
  "capture offset p = \<lparr>cd_offset = offset, cd_watermark = watermark p,
     cd_panes = map entry_of (each_pane (state p)),
     cd_refired = refired_windows (state p), cd_fired = fired_windows (state p)\<rparr>"
  by (simp add: capture_def entry_of_def)

section \<open>Damaged files are rejected\<close>

lemma damaged_payload_rejected:
  assumes "checkpoint_payload offset wm s = a @ m @ b" "length m' = length m" "length m \<le> 4" "m' \<noteq> m"
  shows "try_load (a @ m' @ b @ le64 (of_nat (total_panes s)) @ le32 (crc32c (checkpoint_payload offset wm s) 0)) = Reject"
proof -
  let ?p = "checkpoint_payload offset wm s" and ?p' = "a @ m' @ b"
  let ?t = "le64 (of_nat (total_panes s)) @ le32 (crc32c ?p 0)"
  have len: "length ?p' = length ?p" using assms by simp
  then have "44 \<le> length (?p' @ ?t)" by (simp add: checkpoint_payload_unfold)
  moreover have "crc32c ?p' 0 \<noteq> crc32c ?p 0"
    using crc32c_burst [of m' m a b 0] assms by simp
  moreover have "read_le32 (drop (length (?p' @ ?t) - 4) (?p' @ ?t)) = crc32c ?p 0"
    by (simp add: read_le32_append [of _ "[]", simplified])
  moreover have "take (length (?p' @ ?t) - 12) (?p' @ ?t) = ?p'" by simp
  ultimately have "try_load (?p' @ ?t) = Reject"
    unfolding try_load_def Let_def by (simp add: rd_in_bounds)
  then show ?thesis by simp
qed

lemma damaged_trailer_rejected:
  assumes "encodable wm s" "length t = 12"
    and "t \<noteq> le64 (of_nat (total_panes s)) @ le32 (crc32c (checkpoint_payload offset wm s) 0)"
  shows "try_load (checkpoint_payload offset wm s @ t) = Reject"
proof -
  let ?p = "checkpoint_payload offset wm s"
  have "in_i64 wm" using assms(1) by (simp add: encodable_def)
  note fields = try_load_fields [of "?p @ t", OF _ take_header this]
  show ?thesis
  proof (rule ccontr)
    assume "try_load (?p @ t) \<noteq> Reject"
    then have "read_le32 (drop 8 t) = crc32c ?p 0" "read_le64 t = of_nat (total_panes s)"
      using fields assms(2) by (auto split: if_splits)
    moreover have "read_le64 (take 8 t) = read_le64 t"
      using assms(2) by (intro bit_word_eqI) (simp add: bit_read_le64)
    ultimately have "t = le64 (of_nat (total_panes s)) @ le32 (crc32c ?p 0)"
      using assms(2) le64_read [of "take 8 t"] le32_read [of "drop 8 t"] append_take_drop_id [of 8 t] by simp
    with assms(3) show False ..
  qed
qed

section \<open>Properties\<close>

definition sample_state :: keyed_window_state where
  "sample_state = \<lparr>windows = [(Window 0 10, [(''a'', \<lparr>pane_sum = -3, pane_count = 2\<rparr>)])],
     allowed_lateness = 5, fired_windows = [Window 0 10], refired_windows = [Window 0 10]\<rparr>"

lemma sample_encodable: "encodable 12 sample_state"
  by (simp add: encodable_def sample_state_def each_pane_def total_panes_def in_i64_def i64_nums)

text \<open>
  C21. Round trip of the checkpoint file: what the writer produces for an offset, a watermark and
  a window state is read back with the same offset, watermark, panes, fired and re-fired
  windows. The state must fit the format: keys shorter than 4 GiB and int64 times and sums.
\<close>

theorem checkpoint_round_trip:
  assumes "encodable (watermark p) (state p)"
  shows "try_load (checkpoint_bytes offset (watermark p) (state p)) = Loaded (capture offset p)"
  using try_load_written [OF assms] by (simp add: capture_entries)

theorem checkpoint_round_trip_witness:
  "\<exists>p. state p = sample_state \<and>
     try_load (checkpoint_bytes 7 (watermark p) (state p)) = Loaded (capture 7 p)"
proof -
  let ?p = "\<lparr>watermark = 12, state = sample_state, stats = zero_stats, effects = []\<rparr>"
  show ?thesis using checkpoint_round_trip [of ?p 7] sample_encodable by (intro exI [of _ ?p]) simp
qed

text \<open>
  C22. The reader never reads outside the file it loaded, whatever bytes the file holds: it
  returns a checkpoint or rejects the file.
\<close>

theorem reader_stays_in_bounds:
  "try_load data = Reject \<or> (\<exists>c. try_load data = Loaded c)"
  using try_load_never_faults [of data] by (cases "try_load data") auto

text \<open>
  C23. A checkpoint file in which up to four consecutive bytes of the body were changed, or whose
  twelve trailing bytes were changed in any way, is rejected.
\<close>

theorem damaged_checkpoint_rejected:
  assumes "encodable wm s"
  shows "(\<forall>a m m' b. checkpoint_payload offset wm s = a @ m @ b \<and> length m' = length m \<and>
        length m \<le> 4 \<and> m' \<noteq> m \<longrightarrow>
      try_load (a @ m' @ b @ drop (length (checkpoint_payload offset wm s)) (checkpoint_bytes offset wm s)) = Reject) \<and>
    (\<forall>t. length t = 12 \<and> t \<noteq> drop (length (checkpoint_payload offset wm s)) (checkpoint_bytes offset wm s) \<longrightarrow>
      try_load (checkpoint_payload offset wm s @ t) = Reject)"
proof -
  have t: "drop (length (checkpoint_payload offset wm s)) (checkpoint_bytes offset wm s) =
      le64 (of_nat (total_panes s)) @ le32 (crc32c (checkpoint_payload offset wm s) 0)"
    by (simp add: checkpoint_bytes_unfold)
  show ?thesis
    unfolding t using damaged_payload_rejected [of offset wm s] damaged_trailer_rejected [OF assms] by blast
qed

theorem damaged_checkpoint_rejected_witness:
  "try_load (checkpoint_payload 7 12 sample_state @ replicate 12 0) = Reject"
proof -
  have "total_panes sample_state = 1" by (simp add: sample_state_def total_panes_def)
  then have "hd (drop (length (checkpoint_payload 7 12 sample_state)) (checkpoint_bytes 7 12 sample_state)) = 1"
    by (simp add: checkpoint_bytes_unfold append_le64_def upt_8)
  then have "replicate 12 0 \<noteq> drop (length (checkpoint_payload 7 12 sample_state)) (checkpoint_bytes 7 12 sample_state)"
    by (metis hd_replicate zero_neq_numeral zero_neq_one)
  then show ?thesis
    using damaged_checkpoint_rejected [OF sample_encodable, of 7] by simp
qed

end
