(* ===== verification/Checkpoint_Store.thy ===== *)
theory Checkpoint_Store
  imports Checkpoint
begin

text \<open>
  Checkpoint directories: file names, the atomic write with its retention rule
  (\<open>CheckpointWriter\<close>), and the scans of \<open>CheckpointReader\<close>. The results of the system
  calls are the parameter \<open>write_outcome\<close>; \<open>killed_write_states\<close> lists the directories a writer
  killed at any point can leave.
\<close>

section \<open>File names\<close>

type_synonym directory = "(string \<times> bytes) list"

definition checkpoint_filename :: "u64 \<Rightarrow> string" where
  "checkpoint_filename offset = ''checkpoint-'' @ pad_decimal 20 (unat offset) @ ''.ckpt''"

definition tmp_filename :: "u64 \<Rightarrow> string" where
  "tmp_filename offset = checkpoint_filename offset @ ''.tmp''"

definition is_ckpt :: "string \<Rightarrow> bool" where
  "is_ckpt name = (length name > 5 \<and> drop (length name - 5) name = ''.ckpt'')"

definition is_tmp :: "string \<Rightarrow> bool" where
  "is_tmp name = (length name > 4 \<and> drop (length name - 4) name = ''.tmp'')"

definition ckpt_files :: "directory \<Rightarrow> string list" where
  "ckpt_files d = filter is_ckpt (map fst d)"

text \<open>\<open>std::sort(..., std::greater<>())\<close> on names.\<close>

definition newest_first :: "string list \<Rightarrow> string list" where
  "newest_first names = rev (sort names)"

section \<open>Writing\<close>

datatype write_outcome =
    OpenFails | WriteFails | FsyncFails | RenameFails | DirOpenFails | DirFsyncFails | WriteOk

definition clean_old_checkpoints :: "directory \<Rightarrow> directory" where
  "clean_old_checkpoints d = fold om_erase (drop 2 (newest_first (ckpt_files d))) d"

definition write_checkpoint ::
    "write_outcome \<Rightarrow> bool \<Rightarrow> u64 \<Rightarrow> timestamp \<Rightarrow> keyed_window_state \<Rightarrow> directory \<Rightarrow> bool \<times> directory" where
  "write_checkpoint io retain_all offset wm s d =
     (let payload = checkpoint_bytes offset wm s;
          opened = AList.update (tmp_filename offset) [] d;
          unlinked = om_erase (tmp_filename offset) opened;
          renamed = AList.update (checkpoint_filename offset) payload unlinked
      in case io of
           OpenFails \<Rightarrow> (False, d)
         | WriteFails \<Rightarrow> (False, unlinked)
         | FsyncFails \<Rightarrow> (False, unlinked)
         | RenameFails \<Rightarrow> (False, unlinked)
         | DirOpenFails \<Rightarrow> (False, renamed)
         | DirFsyncFails \<Rightarrow> (False, renamed)
         | WriteOk \<Rightarrow> (True, if retain_all then renamed else clean_old_checkpoints renamed))"

text \<open>
  The directories a process killed during the write leaves, up to the rename: before the temporary
  file is opened, with any prefix of the payload in it, after it has been unlinked because a call
  failed, and after the rename.
\<close>

definition crash_states :: "u64 \<Rightarrow> timestamp \<Rightarrow> keyed_window_state \<Rightarrow> directory \<Rightarrow> directory list" where
  "crash_states offset wm s d =
     (let payload = checkpoint_bytes offset wm s
      in [d] @ map (\<lambda>n. AList.update (tmp_filename offset) (take n payload) d) [0..<Suc (length payload)]
         @ [om_erase (tmp_filename offset) d,
            AList.update (checkpoint_filename offset) payload (om_erase (tmp_filename offset) d)])"

text \<open>A write killed while old files are removed has removed some of them, newest first.\<close>

definition retention_crash_states :: "u64 \<Rightarrow> timestamp \<Rightarrow> keyed_window_state \<Rightarrow> directory \<Rightarrow> directory list" where
  "retention_crash_states offset wm s d =
     (let r = AList.update (checkpoint_filename offset) (checkpoint_bytes offset wm s) (om_erase (tmp_filename offset) d);
          old = drop 2 (newest_first (ckpt_files r))
      in map (\<lambda>n. fold om_erase (take n old) r) [0..<Suc (length old)])"

text \<open>All of them, for both kinds of writer.\<close>

definition killed_write_states :: "bool \<Rightarrow> u64 \<Rightarrow> timestamp \<Rightarrow> keyed_window_state \<Rightarrow> directory \<Rightarrow> directory list" where
  "killed_write_states retain_all offset wm s d =
     crash_states offset wm s d @ (if retain_all then [] else retention_crash_states offset wm s d)"

section \<open>Reading\<close>

definition load_file :: "directory \<Rightarrow> string \<Rightarrow> checkpoint_data option" where
  "load_file d name =
     (case map_of d name of
        None \<Rightarrow> None
      | Some data \<Rightarrow> (case try_load data of Loaded c \<Rightarrow> Some c | _ \<Rightarrow> None))"

fun first_some :: "('a \<Rightarrow> 'b option) \<Rightarrow> 'a list \<Rightarrow> 'b option" where
  "first_some f [] = None"
| "first_some f (x # xs) = (case f x of Some y \<Rightarrow> Some y | None \<Rightarrow> first_some f xs)"

definition clean_tmp_files :: "directory \<Rightarrow> directory" where
  "clean_tmp_files d = filter (\<lambda>e. \<not> is_tmp (fst e)) d"

definition load_latest :: "directory \<Rightarrow> checkpoint_data option \<times> directory" where
  "load_latest d =
     (let d' = clean_tmp_files d
      in (first_some (load_file d') (newest_first (ckpt_files d')), d'))"

fun collect_offsets :: "directory \<Rightarrow> string list \<Rightarrow> u64 list" where
  "collect_offsets d [] = []"
| "collect_offsets d (n # ns) =
     (case load_file d n of Some c \<Rightarrow> cd_offset c # collect_offsets d ns | None \<Rightarrow> collect_offsets d ns)"

definition valid_offsets :: "directory \<Rightarrow> u64 list" where
  "valid_offsets d = collect_offsets d (ckpt_files d)"

definition load_offset :: "u64 \<Rightarrow> directory \<Rightarrow> checkpoint_data option" where
  "load_offset offset d =
     first_some (\<lambda>n. case load_file d n of
                       Some c \<Rightarrow> (if cd_offset c = offset then Some c else None)
                     | None \<Rightarrow> None) (ckpt_files d)"

section \<open>Names\<close>

lemma u64_fits_20_digits: "unat (x :: u64) < 10 ^ 20"
  using unsigned_less [of x, where 'a = nat] by simp

lemma checkpoint_filename_less:
  "(checkpoint_filename a < checkpoint_filename b) = (a < b)"
proof -
  have app: "length xs = length ys \<Longrightarrow> (ps @ xs @ zs < ps @ ys @ zs) = (xs < ys)" for ps xs ys zs :: string
  proof (induction ps)
    case Nil
    then show ?case by (induction xs ys rule: list_induct2) auto
  qed auto
  have "(checkpoint_filename a < checkpoint_filename b) =
      (pad_decimal 20 (unat a) < pad_decimal 20 (unat b))"
    unfolding checkpoint_filename_def 
    by (rule app) (simp only: length_pad_decimal [OF u64_fits_20_digits] zero_less_numeral)
  then show ?thesis
    using pad_decimal_less [OF u64_fits_20_digits u64_fits_20_digits, of a b]
    by (simp add: word_less_nat_alt)
qed

lemma checkpoint_filename_inject [simp]: "(checkpoint_filename a = checkpoint_filename b) = (a = b)"
  using checkpoint_filename_less [of a b] checkpoint_filename_less [of b a] by force

lemma is_ckpt_filename [simp]: "is_ckpt (checkpoint_filename a)"
  by (simp add: is_ckpt_def checkpoint_filename_def)

lemma is_tmp_filename [simp]: "is_tmp (tmp_filename a)"
  by (simp add: is_tmp_def tmp_filename_def checkpoint_filename_def)

lemma ckpt_not_tmp: "is_ckpt n \<Longrightarrow> \<not> is_tmp n"
proof
  assume a: "is_ckpt n" "is_tmp n"
  then have "drop 1 (drop (length n - 5) n) = drop (length n - 4) n"
    unfolding drop_drop by (auto simp: is_ckpt_def intro!: arg_cong [of _ _ "\<lambda>i. drop i n"])
  with a show False by (simp add: is_ckpt_def is_tmp_def)
qed

lemma filename_not_tmp [simp]: "checkpoint_filename a \<noteq> tmp_filename b"
  using ckpt_not_tmp [of "checkpoint_filename a"] is_tmp_filename [of b] by (metis is_ckpt_filename)

section \<open>Scans\<close>

lemma first_some_SomeD: "first_some f xs = Some y \<Longrightarrow> \<exists>x \<in> set xs. f x = Some y"
  by (induction xs) (auto split: option.splits)

lemma first_some_None: "(first_some f xs = None) = (\<forall>x \<in> set xs. f x = None)"
  by (induction xs) (auto split: option.splits)

lemma first_some_cong: "(\<And>x. x \<in> set xs \<Longrightarrow> f x = g x) \<Longrightarrow> first_some f xs = first_some g xs"
  by (induction xs) (auto split: option.split)

lemma set_newest_first [simp]: "set (newest_first xs) = set xs"
  by (simp add: newest_first_def)

text \<open>The first hit of a scan in descending order is the greatest hit.\<close>

lemma first_some_newest:
  assumes "x \<in> set xs" "f x = Some y" "\<And>z. z \<in> set xs \<Longrightarrow> x < z \<Longrightarrow> f z = None"
  shows "first_some f (newest_first xs) = Some y"
proof -
  have "first_some f ys = Some y"
    if "sorted_wrt (\<ge>) ys" "x \<in> set ys" "\<And>z. z \<in> set ys \<Longrightarrow> x < z \<Longrightarrow> f z = None" for ys
    using that
  proof (induction ys)
    case (Cons z ys)
    show ?case
    proof (cases "z = x")
      case False
      then have "x < z" "x \<in> set ys" using Cons.prems(1,2) by auto
      then show ?thesis using Cons by simp
    qed (use assms(2) in simp)
  qed simp
  moreover have "sorted_wrt (\<ge>) (newest_first xs)"
    by (simp add: newest_first_def sorted_wrt_rev)
  ultimately show ?thesis using assms(1,3) by (metis set_newest_first)
qed

lemma set_collect_offsets: "set (collect_offsets d ns) = {cd_offset c |c n. n \<in> set ns \<and> load_file d n = Some c}"
  by (induction ns) (auto split: option.split)

lemma set_valid_offsets:
  "set (valid_offsets d) = {cd_offset c |c n. n \<in> fst ` set d \<and> is_ckpt n \<and> load_file d n = Some c}"
  by (auto simp: valid_offsets_def set_collect_offsets ckpt_files_def)

text \<open>An offset is listed exactly when it can be loaded, and the load returns that offset.\<close>

lemma load_offset_valid: "(\<exists>c. load_offset off d = Some c) = (off \<in> set (valid_offsets d))"
proof -
  have "(load_offset off d = None) = (off \<notin> set (valid_offsets d))"
    unfolding load_offset_def first_some_None valid_offsets_def set_collect_offsets
    by (auto split: option.splits)
  then show ?thesis by auto
qed

lemma load_offset_offset: "load_offset off d = Some c \<Longrightarrow> cd_offset c = off"
  unfolding load_offset_def by (drule first_some_SomeD) (auto split: option.splits if_splits)

lemma load_file_clean: "\<not> is_tmp n \<Longrightarrow> load_file (clean_tmp_files d) n = load_file d n"
proof -
  assume "\<not> is_tmp n"
  then have "map_of (clean_tmp_files d) n = map_of d n"
    by (induction d) (auto simp: clean_tmp_files_def)
  then show ?thesis by (simp add: load_file_def)
qed

lemma ckpt_files_clean: "ckpt_files (clean_tmp_files d) = ckpt_files d"
  unfolding ckpt_files_def clean_tmp_files_def
  by (induction d) (auto dest: ckpt_not_tmp)

lemma load_latest_scan:
  "fst (load_latest d) = first_some (load_file d) (newest_first (ckpt_files d))"
  unfolding load_latest_def Let_def fst_conv ckpt_files_clean
  by (rule first_some_cong) (auto simp: ckpt_files_def dest: ckpt_not_tmp intro: load_file_clean)

lemma set_ckpt_files: "set (ckpt_files d) = {n \<in> fst ` set d. is_ckpt n}"
  by (auto simp: ckpt_files_def)

section \<open>A completed write is what the next start loads\<close>

definition file_state :: "u64 \<Rightarrow> timestamp \<Rightarrow> keyed_window_state \<Rightarrow> checkpoint_data" where
  "file_state offset wm s = \<lparr>cd_offset = offset, cd_watermark = wm, cd_panes = map entry_of (each_pane s),
     cd_refired = refired_windows s, cd_fired = fired_windows s\<rparr>"

lemma load_file_written:
  "encodable wm s \<Longrightarrow> map_of d n = Some (checkpoint_bytes off wm s) \<Longrightarrow>
   load_file d n = Some (file_state off wm s)"
  by (simp add: load_file_def try_load_written file_state_def)

lemma map_of_erase_all:
  "map_of (fold om_erase ns d) n = (if n \<in> set ns then None else map_of d n)"
  by (induction ns arbitrary: d) (simp_all add: store_simps)

lemma newest_not_dropped:
  assumes "x \<in> set xs" "distinct xs" "\<And>z. z \<in> set xs \<Longrightarrow> z \<le> x"
  shows "x \<notin> set (drop 2 (newest_first xs))"
proof -
  have s: "sorted_wrt (\<ge>) (newest_first xs)" and dx: "distinct (newest_first xs)"
    using assms(2) by (simp_all add: newest_first_def sorted_wrt_rev)
  obtain y ys where y: "newest_first xs = y # ys"
    using assms(1) set_newest_first [of xs] by (cases "newest_first xs") auto
  have "x = y"
  proof (rule ccontr)
    assume "x \<noteq> y"
    then have "x \<in> set ys" using assms(1) set_newest_first [of xs] y by auto
    then have "x \<le> y" using s y by auto
    moreover have "y \<le> x" using assms(3) [of y] set_newest_first [of xs] y by auto
    ultimately show False using \<open>x \<noteq> y\<close> by simp
  qed
  then show ?thesis using dx y by (auto simp: numeral_2_eq_2 dest: in_set_dropD)
qed

lemma fst_set_renamed:
  "fst ` set (AList.update f b (om_erase t (AList.update t c d))) = insert f (fst ` set d - {t})"
  unfolding dom_map_of_conv_image_fst [symmetric] by (auto simp: update_conv' store_simps split: if_splits)

lemma load_latest_written:
  assumes "encodable wm s" "um_wf d"
    and "\<And>n. n \<in> set (ckpt_files d) \<Longrightarrow> n \<le> checkpoint_filename offset"
    and "write_checkpoint WriteOk retain_all offset wm s d = (ok, d')"
  shows "ok \<and> fst (load_latest d') = Some (file_state offset wm s)"
proof -
  let ?f = "checkpoint_filename offset" and ?t = "tmp_filename offset"
  let ?r = "AList.update ?f (checkpoint_bytes offset wm s) (om_erase ?t (AList.update ?t [] d))"
  have wf: "um_wf ?r" using assms(2) by (intro inv_intros)
  have mem: "set (ckpt_files ?r) = insert ?f (set (ckpt_files d))"
    unfolding set_ckpt_files fst_set_renamed using ckpt_not_tmp is_tmp_filename [of offset] by force
  have top: "z \<le> ?f" if "z \<in> set (ckpt_files ?r)" for z using that assms(3) mem by auto
  have drop: "?f \<notin> set (drop 2 (newest_first (ckpt_files ?r)))"
  proof (rule newest_not_dropped)
    show "distinct (ckpt_files ?r)" using wf by (simp add: ckpt_files_def um_wf_def)
  qed (use mem top in auto)
  have ok: "ok" and d': "d' = (if retain_all then ?r else clean_old_checkpoints ?r)"
    using assms(4) by (auto simp: write_checkpoint_def Let_def)
  have look: "map_of d' ?f = Some (checkpoint_bytes offset wm s)"
    using drop d' by (simp add: clean_old_checkpoints_def map_of_erase_all update_conv')
  have sub: "set (ckpt_files d') \<subseteq> set (ckpt_files ?r)"
  proof -
    have "fst ` set (fold om_erase ns e) \<subseteq> fst ` set e" for ns and e :: directory
      unfolding dom_map_of_conv_image_fst [symmetric] dom_def by (auto simp: map_of_erase_all)
    then have "fst ` set d' \<subseteq> fst ` set ?r" unfolding d' clean_old_checkpoints_def by simp
    then show ?thesis unfolding set_ckpt_files by blast
  qed
  have "?f \<in> set (ckpt_files d')"
    using look by (auto simp: set_ckpt_files dest!: map_of_SomeD intro: rev_image_eqI)
  then have "first_some (load_file d') (newest_first (ckpt_files d')) = Some (file_state offset wm s)"
    using sub top load_file_written [OF assms(1) look] by (intro first_some_newest [of ?f]) force+
  then show ?thesis using ok by (simp add: load_latest_scan)
qed

section \<open>A killed write loses nothing\<close>

lemma um_wf_erase_all: "um_wf d \<Longrightarrow> um_wf (fold om_erase ns d)"
  by (rule um.ok_erase_all)

lemma clean_update_tmp: "is_tmp t \<Longrightarrow> clean_tmp_files (AList.update t x d) = clean_tmp_files d"
  by (induction d) (auto simp: clean_tmp_files_def)

lemma clean_erase_tmp: "is_tmp t \<Longrightarrow> clean_tmp_files (om_erase t d) = clean_tmp_files d"
  by (induction d) (auto simp: clean_tmp_files_def om_erase_def)

lemma crash_cases:
  assumes "d' \<in> set (crash_states offset wm s d)"
  shows "clean_tmp_files d' = clean_tmp_files d \<and> (um_wf d \<longrightarrow> um_wf d') \<or>
    d' = AList.update (checkpoint_filename offset) (checkpoint_bytes offset wm s) (om_erase (tmp_filename offset) d)"
  using assms clean_update_tmp [OF is_tmp_filename, of offset _ d] clean_erase_tmp [OF is_tmp_filename, of offset d]
  by (auto simp: crash_states_def Let_def inv_intros simp del: upt_Suc)

lemma clean_same_latest: "clean_tmp_files d' = clean_tmp_files d \<Longrightarrow> load_latest d' = load_latest d \<and> ckpt_files d' = ckpt_files d"
  using ckpt_files_clean [of d'] ckpt_files_clean [of d] by (simp add: load_latest_def)

lemma erase_opened: "om_erase t (AList.update t x d) = om_erase t d"
  by (induction d) (auto simp: om_erase_def)

lemma retention_latest:
  assumes "encodable wm s" "um_wf d"
    and "\<And>n. n \<in> set (ckpt_files d) \<Longrightarrow> n \<le> checkpoint_filename offset"
    and "d' \<in> set (retention_crash_states offset wm s d)"
  shows "fst (load_latest d') = Some (file_state offset wm s)" "um_wf d'"
    "set (ckpt_files d') \<subseteq> insert (checkpoint_filename offset) (set (ckpt_files d))"
proof -
  let ?f = "checkpoint_filename offset"
  let ?r = "AList.update ?f (checkpoint_bytes offset wm s) (om_erase (tmp_filename offset) d)"
  obtain n where d': "d' = fold om_erase (take n (drop 2 (newest_first (ckpt_files ?r)))) ?r"
    using assms(4) by (auto simp: retention_crash_states_def Let_def simp del: upt_Suc)
  have wf: "um_wf ?r" using assms(2) by (intro inv_intros)
  then show "um_wf d'" unfolding d' by (rule um_wf_erase_all)
  have mem: "set (ckpt_files ?r) = insert ?f (set (ckpt_files d))"
    using fst_set_renamed [of ?f _ "tmp_filename offset" "[]" d] ckpt_not_tmp is_tmp_filename [of offset]
    unfolding set_ckpt_files erase_opened by force
  have sub: "set (ckpt_files d') \<subseteq> set (ckpt_files ?r)"
  proof -
    have "fst ` set (fold om_erase ns e) \<subseteq> fst ` set e" for ns and e :: directory
      unfolding dom_map_of_conv_image_fst [symmetric] dom_def by (auto simp: map_of_erase_all)
    then show ?thesis unfolding set_ckpt_files d' by blast
  qed
  then show "set (ckpt_files d') \<subseteq> insert ?f (set (ckpt_files d))" using mem by simp
  have "?f \<notin> set (drop 2 (newest_first (ckpt_files ?r)))"
    using wf mem assms(3) by (intro newest_not_dropped) (auto simp: ckpt_files_def um_wf_def)
  then have "?f \<notin> set (take n (drop 2 (newest_first (ckpt_files ?r))))" by (meson in_set_takeD)
  then have look: "map_of d' ?f = Some (checkpoint_bytes offset wm s)"
    by (simp add: d' map_of_erase_all update_conv')
  then have "?f \<in> set (ckpt_files d')"
    by (auto simp: set_ckpt_files dest!: map_of_SomeD intro: rev_image_eqI)
  then have "first_some (load_file d') (newest_first (ckpt_files d')) = Some (file_state offset wm s)"
    using sub mem assms(3) load_file_written [OF assms(1) look] by (intro first_some_newest [of ?f]) force+
  then show "fst (load_latest d') = Some (file_state offset wm s)" by (simp add: load_latest_scan)
qed

lemma write_is_retention:
  assumes "write_checkpoint WriteOk False offset wm s d = (True, d')"
  shows "d' \<in> set (retention_crash_states offset wm s d)"
proof -
  let ?r = "AList.update (checkpoint_filename offset) (checkpoint_bytes offset wm s) (om_erase (tmp_filename offset) d)"
  have "d' = fold om_erase (take (length (drop 2 (newest_first (ckpt_files ?r)))) (drop 2 (newest_first (ckpt_files ?r)))) ?r"
    using assms by (simp add: write_checkpoint_def Let_def clean_old_checkpoints_def erase_opened)
  then show ?thesis unfolding retention_crash_states_def Let_def set_map by (rule image_eqI) (simp del: upt_Suc)
qed

lemma renamed_is_retention:
  "AList.update (checkpoint_filename offset) (checkpoint_bytes offset wm s) (om_erase (tmp_filename offset) d)
     \<in> set (retention_crash_states offset wm s d)"
  by (force simp: retention_crash_states_def Let_def simp del: upt_Suc intro: image_eqI [of _ _ 0])

lemma killed_write_cases:
  assumes "d' \<in> set (killed_write_states retain_all offset wm s d)" "um_wf d"
  shows "d' \<in> set (retention_crash_states offset wm s d) \<or>
    (load_latest d' = load_latest d \<and> um_wf d' \<and> ckpt_files d' = ckpt_files d)"
  using assms crash_cases [of d' offset wm s d] clean_same_latest [of d' d] renamed_is_retention
  by (auto simp: killed_write_states_def split: if_splits)

text \<open>Every return of \<open>WriteCheckpoint\<close>, failures included, leaves one of the directories.\<close>

lemma write_returns_state: "snd (write_checkpoint io retain_all offset wm s d) \<in> set (killed_write_states retain_all offset wm s d)"
proof (cases "io = WriteOk \<and> \<not> retain_all")
  case True
  then have "write_checkpoint WriteOk False offset wm s d = (True, snd (write_checkpoint io retain_all offset wm s d))"
    by (simp add: write_checkpoint_def Let_def)
  from write_is_retention [OF this] show ?thesis using True by (simp add: killed_write_states_def)
next
  case False
  then have "snd (write_checkpoint io retain_all offset wm s d) \<in> set (crash_states offset wm s d)"
    by (cases io) (auto simp: write_checkpoint_def crash_states_def Let_def erase_opened simp del: upt_Suc)
  then show ?thesis by (simp add: killed_write_states_def)
qed

section \<open>Retention by name can delete the checkpoint just written\<close>

text \<open>
  \<open>CleanOldCheckpoints\<close> keeps the two greatest names and ignores its argument. When two
  files with greater offsets are already there (left by a run whose files no longer load, so
  that the job restarted from an earlier point), the file just written is deleted and the
  write still reports success.
\<close>

lemma write_then_lost:
  assumes "um_wf d" "a \<in> set (ckpt_files d)" "b \<in> set (ckpt_files d)" "a \<noteq> b"
    and "checkpoint_filename offset < a" "checkpoint_filename offset < b"
  shows "\<exists>d'. write_checkpoint WriteOk False offset wm s d = (True, d') \<and>
    map_of d' (checkpoint_filename offset) = None"
proof -
  let ?f = "checkpoint_filename offset" and ?t = "tmp_filename offset"
  let ?r = "AList.update ?f (checkpoint_bytes offset wm s) (om_erase ?t (AList.update ?t [] d))"
  let ?ns = "newest_first (ckpt_files ?r)"
  have mem: "set ?ns = insert ?f (set (ckpt_files d))"
    unfolding set_newest_first set_ckpt_files fst_set_renamed
    using ckpt_not_tmp is_tmp_filename [of offset] by force
  have s: "sorted_wrt (\<ge>) ?ns" by (simp add: newest_first_def sorted_wrt_rev)
  have "?f \<in> set (drop 2 ?ns)"
  proof (rule ccontr)
    assume n: "?f \<notin> set (drop 2 ?ns)"
    have "?f \<in> set (take 2 ?ns @ drop 2 ?ns)" using mem by (simp del: append_take_drop_id add: append_take_drop_id)
    then have f: "?f \<in> set (take 2 ?ns)" using n by (metis Un_iff set_append)
    have "x \<in> set (take 2 ?ns)" if "x \<in> {a, b}" for x
    proof (rule ccontr)
      assume "x \<notin> set (take 2 ?ns)"
      moreover have "x \<in> set (take 2 ?ns @ drop 2 ?ns)" using that assms(2,3) mem by auto
      ultimately have "x \<in> set (drop 2 ?ns)" by (metis Un_iff set_append)
      moreover have "sorted_wrt (\<ge>) (take 2 ?ns @ drop 2 ?ns)" using s by simp
      ultimately have "x \<le> ?f" using f unfolding sorted_wrt_append by blast
      then show False using that assms(5,6) by auto
    qed
    then have "{a, b, ?f} \<subseteq> set (take 2 ?ns)" using f by auto
    then have "card {a, b, ?f} \<le> 2"
      using card_length [of "take 2 ?ns"] card_mono [of "set (take 2 ?ns)" "{a, b, ?f}"] by auto
    then show False using assms(4-6) by (auto simp: card_insert_if split: if_splits)
  qed
  then show ?thesis
    by (simp add: write_checkpoint_def Let_def clean_old_checkpoints_def map_of_erase_all)
qed

section \<open>Properties\<close>

text \<open>
  C24. A crash at any point of a checkpoint write is atomic for recovery. Let the offset be no lower
  than those of the files in the directory. In every directory a killed writer can leave (with any
  part of the temporary file written, after its removal on a failed call, after the rename, and
  with any of the old files already deleted by the retention), the latest-checkpoint scan returns
  what it returned before the write, or exactly the new checkpoint. A write that returns, by
  success or failure of any call, leaves one of these directories, and one that reports success
  leaves the new checkpoint as the one recovery loads.
\<close>

theorem checkpoint_write_is_atomic:
  assumes "encodable wm s" "um_wf d" "\<forall>n \<in> set (ckpt_files d). n \<le> checkpoint_filename offset"
    and "d' \<in> set (killed_write_states retain_all offset wm s d)"
  shows "(load_latest d' = load_latest d \<or> fst (load_latest d') = Some (file_state offset wm s)) \<and>
    snd (write_checkpoint io retain_all offset wm s d) \<in> set (killed_write_states retain_all offset wm s d) \<and>
    (fst (write_checkpoint io retain_all offset wm s d) \<longrightarrow>
       fst (load_latest (snd (write_checkpoint io retain_all offset wm s d))) = Some (file_state offset wm s))"
proof -
  have "load_latest d' = load_latest d \<or> fst (load_latest d') = Some (file_state offset wm s)"
    using killed_write_cases [OF assms(4,2)] retention_latest(1) [OF assms(1,2)] assms(3) by blast
  moreover have "io = WriteOk" if "fst (write_checkpoint io retain_all offset wm s d)"
    using that by (cases io) (simp_all add: write_checkpoint_def Let_def)
  then have "fst (load_latest (snd (write_checkpoint io retain_all offset wm s d))) = Some (file_state offset wm s)"
    if "fst (write_checkpoint io retain_all offset wm s d)"
    using that load_latest_written [OF assms(1,2), of offset retain_all] assms(3) by (metis prod.collapse)
  ultimately show ?thesis using write_returns_state by blast
qed

theorem checkpoint_write_is_atomic_witness:
  "\<exists>d d'. d = [(checkpoint_filename 4, []), (checkpoint_filename 5, [])] \<and>
     d' \<in> set (killed_write_states False 7 12 sample_state d) \<and> map_of d' (checkpoint_filename 4) = None \<and>
     (load_latest d' = load_latest d \<or> fst (load_latest d') = Some (file_state 7 12 sample_state))"
proof -
  let ?d = "[(checkpoint_filename 4, []), (checkpoint_filename 5, [])]"
  have less: "checkpoint_filename 4 < checkpoint_filename 5" "checkpoint_filename 5 < checkpoint_filename 7"
    by (simp_all only: checkpoint_filename_less) simp_all
  let ?d' = "snd (write_checkpoint WriteOk False 7 12 sample_state ?d)"
  have m: "?d' \<in> set (killed_write_states False 7 12 sample_state ?d)" by (rule write_returns_state)
  have n: "newest_first (ckpt_files [(checkpoint_filename 4, x), (checkpoint_filename 5, y), (checkpoint_filename 7, z)]) =
      [checkpoint_filename 7, checkpoint_filename 5, checkpoint_filename 4]" for x y z
    using less order.strict_trans [OF less] by (simp add: newest_first_def ckpt_files_def less_imp_le)
  have "map_of ?d' (checkpoint_filename 4) = None"
    by (simp add: write_checkpoint_def Let_def erase_opened om_erase_def clean_old_checkpoints_def n map_of_erase_all)
  moreover have "um_wf ?d" "\<forall>n \<in> set (ckpt_files ?d). n \<le> checkpoint_filename 7"
    using less by (auto simp: um_wf_def ckpt_files_def)
  ultimately show ?thesis using checkpoint_write_is_atomic [OF sample_encodable _ _ m] m by blast
qed

text \<open>
  After a successful checkpoint write at an offset not below those already in the directory,
  with or without retention, recovery loads exactly that checkpoint.
\<close>

theorem recovery_loads_last_write:
  assumes "encodable wm s" "um_wf d"
    and "\<forall>n \<in> set (ckpt_files d). n \<le> checkpoint_filename offset"
    and "write_checkpoint WriteOk retain_all offset wm s d = (ok, d')"
  shows "ok \<and> fst (load_latest d') =
    Some \<lparr>cd_offset = offset, cd_watermark = wm, cd_panes = map entry_of (each_pane s),
          cd_refired = refired_windows s, cd_fired = fired_windows s\<rparr>"
  using load_latest_written [OF assms(1,2) _ assms(4)] assms(3) by (simp add: file_state_def)

theorem recovery_loads_last_write_witness:
  "\<exists>ok d'. write_checkpoint WriteOk False 7 12 sample_state [] = (ok, d') \<and> ok \<and>
     fst (load_latest d') = Some \<lparr>cd_offset = 7, cd_watermark = 12, cd_panes = map entry_of (each_pane sample_state),
       cd_refired = refired_windows sample_state, cd_fired = fired_windows sample_state\<rparr>"
proof -
  obtain ok d' where w: "write_checkpoint WriteOk False 7 12 sample_state [] = (ok, d')" by fastforce
  show ?thesis
    using recovery_loads_last_write [OF sample_encodable _ _ w] w by (auto simp: um_wf_def ckpt_files_def)
qed

text \<open>
  C36. Retention can delete the checkpoint just written: with two files of greater offsets in the
  directory the write reports success although the new file is already gone. The
  \<open>current_offset\<close> argument of \<open>CleanOldCheckpoints\<close> is not used.
\<close>

theorem retention_deletes_new_checkpoint:
  assumes "um_wf d" "a \<in> set (ckpt_files d)" "b \<in> set (ckpt_files d)" "a \<noteq> b"
    and "checkpoint_filename offset < a" "checkpoint_filename offset < b"
  shows "\<exists>d'. write_checkpoint WriteOk False offset wm s d = (True, d') \<and>
    map_of d' (checkpoint_filename offset) = None"
  using assms by (rule write_then_lost)

theorem retention_deletes_new_checkpoint_witness:
  "\<exists>d'. write_checkpoint WriteOk False 7 12 sample_state
      [(checkpoint_filename 8, []), (checkpoint_filename 9, [])] = (True, d') \<and>
    map_of d' (checkpoint_filename 7) = None"
proof -
  have l: "checkpoint_filename 7 < checkpoint_filename 8" "checkpoint_filename 7 < checkpoint_filename 9"
    "checkpoint_filename 8 < checkpoint_filename 9"
    by (simp_all only: checkpoint_filename_less) simp_all
  show ?thesis
    using l by (intro retention_deletes_new_checkpoint [of _ "checkpoint_filename 8" "checkpoint_filename 9"])
      (auto simp: um_wf_def ckpt_files_def is_ckpt_filename)
qed

end
