(* ===== verification/Dist_Checkpoint.thy ===== *)
theory Dist_Checkpoint
  imports Checkpoint_Store "HOL-Library.Sublist"
begin

text \<open>
  The coordinator of the partitioned checkpoint
  (\<open>src/src/checkpoint/distributed_checkpoint.cpp\<close>): the scan for the highest offset every
  partition holds, the highest offset any partition holds, and the live tracker with its
  coordinated retention. A file system maps a path to a directory; a missing directory is
  an empty one, as the scans treat it.

  The tracker never reads a directory. It is shown to agree with the scan: whatever the
  interleaving of the partitions' reports, its last complete offset is the greatest offset
  every partition has reported, and a prune never removes a file at or above it.
\<close>

section \<open>Scans\<close>

type_synonym file_system = "string \<Rightarrow> directory"

definition partition_checkpoint_dir :: "string \<Rightarrow> nat \<Rightarrow> string" where
  "partition_checkpoint_dir root k = root @ ''/p'' @ digits_of k"

definition partition_offsets :: "string \<Rightarrow> file_system \<Rightarrow> nat \<Rightarrow> u64 list" where
  "partition_offsets root fs k = valid_offsets (fs (partition_checkpoint_dir root k))"

text \<open>\<open>std::set\<close> from a range of values.\<close>

definition std_set :: "u64 list \<Rightarrow> u64 list" where
  "std_set xs = sort (remdups xs)"

fun complete_loop :: "string \<Rightarrow> file_system \<Rightarrow> nat list \<Rightarrow> u64 list \<Rightarrow> u64 list" where
  "complete_loop root fs [] common = common"
| "complete_loop root fs (k # ks) common =
     (if common = [] then common
      else let present = std_set (partition_offsets root fs k)
           in complete_loop root fs ks (filter (\<lambda>x. x \<in> set present) common))"

definition highest_complete_checkpoint :: "string \<Rightarrow> nat \<Rightarrow> file_system \<Rightarrow> u64 option" where
  "highest_complete_checkpoint root num_partitions fs =
     (if num_partitions = 0 then None
      else let common = complete_loop root fs [1..<num_partitions] (std_set (partition_offsets root fs 0))
           in if common = [] then None else Some (last common))"

definition keep_best :: "u64 \<Rightarrow> u64 option \<Rightarrow> u64 option" where
  "keep_best x best = (case best of None \<Rightarrow> Some x | Some b \<Rightarrow> (if x > b then Some x else best))"

definition highest_partial_checkpoint :: "string \<Rightarrow> nat \<Rightarrow> file_system \<Rightarrow> u64 option" where
  "highest_partial_checkpoint root num_partitions fs =
     fold (\<lambda>k. fold keep_best (partition_offsets root fs k)) [0..<num_partitions] None"

section \<open>The tracker\<close>

record tracker =
  tr_retain :: nat
  tr_latest :: "u64 option list"
  tr_complete :: "u64 list"

definition new_tracker :: "nat \<Rightarrow> nat \<Rightarrow> u64 option \<Rightarrow> tracker" where
  "new_tracker num_partitions retain restored =
     \<lparr>tr_retain = retain, tr_latest = replicate num_partitions None,
      tr_complete = (case restored of None \<Rightarrow> [] | Some r \<Rightarrow> [r])\<rparr>"

text \<open>The loop over \<open>latest_\<close>; \<open>None\<close> is its early return.\<close>

fun min_latest :: "u64 option list \<Rightarrow> u64 \<Rightarrow> u64 option" where
  "min_latest [] candidate = Some candidate"
| "min_latest (None # ls) candidate = None"
| "min_latest (Some x # ls) candidate = min_latest ls (min candidate x)"

definition keep_newest :: "nat \<Rightarrow> u64 list \<Rightarrow> u64 list" where
  "keep_newest n xs = drop (length xs - n) xs"

text \<open>The new tracker, and the cutoff of the prune when there is one.\<close>

definition on_partition_checkpoint :: "nat \<Rightarrow> u64 \<Rightarrow> tracker \<Rightarrow> (tracker \<times> u64 option) res" where
  "on_partition_checkpoint p offset t =
     (if p \<ge> length (tr_latest t) then Inl (OutOfRange ''vector::at'')
      else let t1 = t\<lparr>tr_latest := (tr_latest t)[p := Some offset]\<rparr> in
        case min_latest (tr_latest t1) u64_max of
          None \<Rightarrow> Inr (t1, None)
        | Some candidate \<Rightarrow>
            (if tr_complete t1 \<noteq> [] \<and> candidate \<le> last (tr_complete t1) then Inr (t1, None)
             else let complete = tr_complete t1 @ [candidate] in
               if tr_retain t1 = 0 then Inr (t1\<lparr>tr_complete := keep_newest 1 complete\<rparr>, None)
               else let kept = keep_newest (tr_retain t1) complete
                    in Inr (t1\<lparr>tr_complete := kept\<rparr>, Some (hd kept))))"

definition last_complete :: "tracker \<Rightarrow> u64 option" where
  "last_complete t = (if tr_complete t = [] then None else Some (last (tr_complete t)))"

text \<open>\<open>std::from_chars\<close> on twenty characters that must all be consumed.\<close>

definition is_digit :: "char \<Rightarrow> bool" where
  "is_digit c = (48 \<le> (of_char c :: nat) \<and> (of_char c :: nat) \<le> 57)"

definition decimal_value :: "string \<Rightarrow> nat" where
  "decimal_value cs = foldl (\<lambda>v c. v * 10 + (of_char c - 48)) 0 cs"

definition from_chars :: "string \<Rightarrow> u64 option" where
  "from_chars cs =
     (if cs \<noteq> [] \<and> list_all is_digit cs \<and> decimal_value cs < 2 ^ 64
      then Some (of_nat (decimal_value cs)) else None)"

definition prunable :: "u64 \<Rightarrow> string \<Rightarrow> bool" where
  "prunable cutoff name =
     (length name = 11 + 20 + 5 \<and> take 11 name = ''checkpoint-'' \<and> drop (length name - 5) name = ''.ckpt'' \<and>
      (case from_chars (take 20 (drop 11 name)) of None \<Rightarrow> False | Some offset \<Rightarrow> offset < cutoff))"

definition prune_below :: "u64 \<Rightarrow> directory \<Rightarrow> directory" where
  "prune_below cutoff d = filter (\<lambda>e. \<not> prunable cutoff (fst e)) d"

section \<open>The scan finds the greatest common offset\<close>

lemma complete_loop_filter:
  "complete_loop root fs ks common =
     filter (\<lambda>x. \<forall>k \<in> set ks. x \<in> set (partition_offsets root fs k)) common"
  by (induction ks arbitrary: common) (auto simp: std_set_def Let_def intro!: filter_cong)

definition complete_offsets :: "string \<Rightarrow> nat \<Rightarrow> file_system \<Rightarrow> u64 set" where
  "complete_offsets root n fs = {x. \<forall>k < n. x \<in> set (partition_offsets root fs k)}"

lemma sorted_last_Max: "sorted xs \<Longrightarrow> xs \<noteq> [] \<Longrightarrow> last xs = Max (set xs)"
  by (intro Max_eqI [symmetric]) (auto simp: sorted_iff_nth_mono last_conv_nth in_set_conv_nth
      intro!: exI [of _ "length xs - 1"])

lemma highest_complete_Max:
  assumes "0 < n"
  shows "highest_complete_checkpoint root n fs =
    (if complete_offsets root n fs = {} then None else Some (Max (complete_offsets root n fs)))"
proof -
  let ?c = "complete_loop root fs [1..<n] (std_set (partition_offsets root fs 0))"
  have "(\<forall>k < n. P k) = (P 0 \<and> (\<forall>k \<in> {1..<n}. P k))" for P
    using assms by (metis One_nat_def atLeastLessThan_iff less_Suc0 not_less)
  then have s: "set ?c = complete_offsets root n fs"
    by (auto simp: complete_loop_filter std_set_def complete_offsets_def)
  have "sorted ?c" by (simp add: complete_loop_filter std_set_def sorted_wrt_filter)
  then have "?c \<noteq> [] \<Longrightarrow> last ?c = Max (set ?c)" by (rule sorted_last_Max)
  then show ?thesis using assms s
    by (auto simp: highest_complete_checkpoint_def Let_def simp del: complete_loop.simps)
qed

lemma Max_insert2: "finite S \<Longrightarrow> Max (insert a (insert b S)) = Max (insert (max a b) S)"
  for a :: "'a :: linorder"
  by (cases "S = {}") (auto simp: max.assoc)

lemma Min_insert2: "finite S \<Longrightarrow> Min (insert a (insert b S)) = Min (insert (min a b) S)"
  for a :: "'a :: linorder"
  by (cases "S = {}") (auto simp: min.assoc)

lemma fold_keep_best_Some: "fold keep_best xs (Some b) = Some (Max (insert b (set xs)))"
proof (induction xs arbitrary: b)
  case (Cons x xs)
  have "keep_best x (Some b) = Some (max b x)" by (auto simp: keep_best_def max_def)
  with Cons show ?case by (simp add: Max_insert2 [symmetric])
qed simp

lemma fold_keep_best: "fold keep_best xs None = (if xs = [] then None else Some (Max (set xs)))"
  by (cases xs) (simp_all add: keep_best_def fold_keep_best_Some)

lemma highest_partial_Max:
  "highest_partial_checkpoint root n fs =
     (let s = (\<Union>k < n. set (partition_offsets root fs k)) in if s = {} then None else Some (Max s))"
proof -
  have flat: "fold (\<lambda>k. fold keep_best (f k)) ks b = fold keep_best (concat (map f ks)) b"
    for f :: "nat \<Rightarrow> u64 list" and ks b
    by (induction ks arbitrary: b) simp_all
  have "set (concat (map (partition_offsets root fs) [0..<n])) = (\<Union>k < n. set (partition_offsets root fs k))"
    by (simp add: atLeast0LessThan)
  then show ?thesis
    unfolding highest_partial_checkpoint_def flat fold_keep_best Let_def by (metis set_empty)
qed

section \<open>Prunes\<close>

lemma decimal_snoc: "decimal_value (cs @ [c]) = decimal_value cs * 10 + (of_char c - 48)"
  by (simp add: decimal_value_def)

lemma of_char_digit: "d < 10 \<Longrightarrow> of_char (char_of (48 + d) :: char) = (48 + d :: nat)"
  by simp

lemma decimal_fixed: "n < 10 ^ k \<Longrightarrow> decimal_value (fixed_digits k n) = n \<and> list_all is_digit (fixed_digits k n)"
proof (induction k arbitrary: n)
  case (Suc k)
  have "n div 10 < 10 ^ k" using Suc.prems by (simp add: less_mult_imp_div_less mult.commute)
  then show ?case
    using Suc.IH [of "n div 10"] of_char_digit [of "n mod 10"] by (simp add: decimal_snoc is_digit_def)
qed (simp add: decimal_value_def)

lemma prunable_filename: "prunable cutoff (checkpoint_filename offset) = (offset < cutoff)"
proof -
  let ?ds = "pad_decimal 20 (unat offset)"
  have n: "unat offset < 10 ^ 20" by (rule u64_fits_20_digits)
  have len: "length ?ds = 20" by (rule length_pad_decimal [OF n]) simp
  have "?ds = fixed_digits 20 (unat offset)" using digits_of_fixed [OF n] by simp
  then have "decimal_value ?ds = unat offset" "list_all is_digit ?ds" using decimal_fixed [OF n] by auto
  moreover have "unat offset < 2 ^ 64" using unsigned_less [of offset, where 'a = nat] by simp
  moreover have "?ds \<noteq> []" using len by auto
  ultimately have "from_chars ?ds = Some offset" by (simp add: from_chars_def)
  moreover have "take 20 (drop 11 (checkpoint_filename offset)) = ?ds"
    using len by (simp add: checkpoint_filename_def)
  ultimately show ?thesis using len by (simp add: prunable_def checkpoint_filename_def)
qed

lemma prune_keeps: "\<not> prunable cutoff n \<Longrightarrow> load_file (prune_below cutoff d) n = load_file d n"
proof -
  assume "\<not> prunable cutoff n"
  then have "map_of (prune_below cutoff d) n = map_of d n"
    by (induction d) (auto simp: prune_below_def)
  then show ?thesis by (simp add: load_file_def)
qed

section \<open>The tracker agrees with the scan\<close>

text \<open>The reports of one partition, in order, and the offsets every partition has reported.\<close>

definition reported :: "nat \<Rightarrow> (nat \<times> u64) list \<Rightarrow> u64 list" where
  "reported p evs = map snd (filter (\<lambda>e. fst e = p) evs)"

definition common_reports :: "nat \<Rightarrow> (nat \<times> u64) list \<Rightarrow> u64 set" where
  "common_reports n evs = {x. \<forall>p < n. x \<in> set (reported p evs)}"

definition tracker_step :: "nat \<times> u64 \<Rightarrow> tracker \<Rightarrow> tracker res" where
  "tracker_step e t = bind_res (on_partition_checkpoint (fst e) (snd e) t) (\<lambda>(t', cutoff). Inr t')"

text \<open>Every partition reports the broadcast offsets \<open>os\<close> in their order.\<close>

definition in_order :: "nat \<Rightarrow> u64 list \<Rightarrow> (nat \<times> u64) list \<Rightarrow> bool" where
  "in_order n os evs = ((\<forall>e \<in> set evs. fst e < n) \<and> (\<forall>p < n. prefix (reported p evs) os))"

lemma reported_snoc: "reported p (evs @ [(q, x)]) = reported p evs @ (if p = q then [x] else [])"
  by (simp add: reported_def)

lemma min_latest_None: "(min_latest ls c = None) = (None \<in> set ls)"
  by (induction ls c rule: min_latest.induct) auto

lemma min_latest_Some: "min_latest (map Some xs) c = Some (Min (insert c (set xs)))"
  by (induction xs arbitrary: c) (simp_all add: Min_insert2 [symmetric])

lemma min_latest_map: "min_latest (map (\<lambda>p. Some (f p)) ps) c = Some (Min (insert c (f ` set ps)))"
  using min_latest_Some [of "map f ps" c] by (simp add: comp_def)

lemma Max_common_reports:
  assumes "0 < n" "sorted_wrt (<) os" "in_order n os evs" "\<forall>p < n. reported p evs \<noteq> []"
  shows "Min (insert u64_max ((\<lambda>p. last (reported p evs)) ` {0..<n})) = Max (common_reports n evs)"
    and "common_reports n evs \<noteq> {}" "finite (common_reports n evs)"
proof -
  let ?l = "\<lambda>p. last (reported p evs)"
  let ?m = "Min (?l ` {0..<n})"
  obtain q where q: "q < n" "?m = ?l q"
    using Min_in [of "?l ` {0..<n}"] assms(1) by (auto simp: image_iff)
  have le: "?m \<le> ?l p" if "p < n" for p using that by simp
  have pre: "prefix (reported p evs) os" if "p < n" for p using assms(3) that by (simp add: in_order_def)
  have mono: "x \<le> ?l p" if "p < n" "x \<in> set (reported p evs)" for p x
  proof -
    have "sorted (reported p evs)"
      using pre [OF that(1)] assms(2) by (auto simp: prefix_def sorted_wrt_append strict_sorted_iff)
    then show ?thesis using that(2) sorted_last_Max [of "reported p evs"] by fastforce
  qed
  have mem: "?m \<in> set (reported p evs)" if p: "p < n" for p
  proof -
    have "prefix (reported q evs) (reported p evs) \<or> prefix (reported p evs) (reported q evs)"
      using pre [OF p] pre [OF q(1)] prefix_same_cases by blast
    then show ?thesis
    proof
      assume "prefix (reported q evs) (reported p evs)"
      then show ?thesis using assms(4) q by (auto simp: prefix_def)
    next
      assume "prefix (reported p evs) (reported q evs)"
      then have "?l p \<le> ?l q" using mono [OF q(1), of "?l p"] assms(4) p by (auto simp: prefix_def)
      then show ?thesis using le [OF p] q assms(4) p by (metis antisym last_in_set)
    qed
  qed
  then show ne: "common_reports n evs \<noteq> {}" by (auto simp: common_reports_def)
  have "common_reports n evs \<subseteq> set (reported 0 evs)" using assms(1) by (auto simp: common_reports_def)
  then show fin: "finite (common_reports n evs)" by (rule finite_subset) simp
  have "?m = Max (common_reports n evs)"
    using mem mono q by (intro Max_eqI [symmetric] fin) (auto simp: common_reports_def)
  moreover have "Min (insert u64_max (?l ` {0..<n})) = ?m"
    using assms(1) by (simp add: u64_max_def min_absorb2)
  ultimately show "Min (insert u64_max (?l ` {0..<n})) = Max (common_reports n evs)" by simp
qed

definition tracker_spec :: "nat \<Rightarrow> u64 option \<Rightarrow> (nat \<times> u64) list \<Rightarrow> tracker \<Rightarrow> bool" where
  "tracker_spec n restored evs t \<longleftrightarrow>
     tr_latest t = map (\<lambda>p. if reported p evs = [] then None else Some (last (reported p evs))) [0..<n] \<and>
     sorted (tr_complete t) \<and>
     last_complete t =
       (if common_reports n evs = {} then restored else Some (Max (common_reports n evs)))"

lemma tracker_spec_new: "0 < n \<Longrightarrow> tracker_spec n restored [] (new_tracker n retain restored)"
proof -
  assume "0 < n"
  then have "common_reports n [] = {}" by (auto simp: common_reports_def reported_def)
  moreover have "replicate n None = map (\<lambda>p. if reported p [] = [] then None else Some (last (reported p []))) [0..<n]"
    by (intro nth_equalityI) (simp_all add: reported_def)
  ultimately show ?thesis
    by (simp add: tracker_spec_def new_tracker_def last_complete_def split: option.split)
qed

lemma last_keep_newest: "0 < n \<Longrightarrow> xs \<noteq> [] \<Longrightarrow> keep_newest n xs \<noteq> [] \<and> last (keep_newest n xs) = last xs"
  by (cases "length xs") (simp_all add: keep_newest_def last_drop)

lemma sorted_keep_newest: "sorted xs \<Longrightarrow> sorted (keep_newest n xs)"
  by (simp add: keep_newest_def sorted_wrt_drop)

lemma latest_after_report:
  assumes "tr_latest t = map (\<lambda>p. if reported p evs = [] then None else Some (last (reported p evs))) [0..<n]"
  shows "(tr_latest t)[q := Some x] =
    map (\<lambda>p. if reported p (evs @ [(q, x)]) = [] then None else Some (last (reported p (evs @ [(q, x)])))) [0..<n]"
  unfolding assms by (intro nth_equalityI) (auto simp: reported_snoc nth_list_update)

lemma tracker_spec_step:
  assumes n: "0 < n" and os: "sorted_wrt (<) os" "\<forall>r x. restored = Some r \<and> x \<in> set os \<longrightarrow> r < x"
    and ord: "in_order n os (evs @ [(q, x)])" and spec: "tracker_spec n restored evs t"
  shows "\<exists>t' cutoff. on_partition_checkpoint q x t = Inr (t', cutoff) \<and>
    tracker_spec n restored (evs @ [(q, x)]) t' \<and>
    (\<forall>c. cutoff = Some c \<longrightarrow> (\<exists>l. last_complete t' = Some l \<and> c \<le> l))"
proof -
  let ?evs = "evs @ [(q, x)]"
  let ?t1 = "t\<lparr>tr_latest := (tr_latest t)[q := Some x]\<rparr>"
  have q: "q < n" using ord by (simp add: in_order_def)
  have lt: "tr_latest ?t1 = map (\<lambda>p. if reported p ?evs = [] then None else Some (last (reported p ?evs))) [0..<n]"
    using latest_after_report [of t evs n q x] spec by (simp add: tracker_spec_def)
  have bnd: "\<not> q \<ge> length (tr_latest t)" using q spec by (simp add: tracker_spec_def)
  have "set (reported p evs) \<subseteq> set (reported p ?evs)" for p unfolding reported_def by auto
  then have mono: "common_reports n evs \<subseteq> common_reports n ?evs"
    unfolding common_reports_def by blast
  show ?thesis
  proof (cases "\<forall>p < n. reported p ?evs \<noteq> []")
    case False
    then have none: "min_latest (tr_latest ?t1) u64_max = None" unfolding min_latest_None lt by auto
    have "common_reports n ?evs = {}" using False by (auto simp: common_reports_def)
    then have "tracker_spec n restored ?evs ?t1"
      using spec lt mono by (auto simp: tracker_spec_def last_complete_def)
    then show ?thesis using none bnd by (simp add: on_partition_checkpoint_def Let_def)
  next
    case True
    note Mx = Max_common_reports [OF n os(1) ord True]
    let ?c = "Max (common_reports n ?evs)"
    have lt': "tr_latest ?t1 = map (\<lambda>p. Some (last (reported p ?evs))) [0..<n]"
      unfolding lt using True by (intro map_cong) auto
    have cand: "min_latest (tr_latest ?t1) u64_max = Some ?c"
      using Mx(1) unfolding lt' min_latest_map by simp
    have backB: "l \<le> ?c" if "last_complete t = Some l" for l
    proof (cases "common_reports n evs = {}")
      case True
      then have "restored = Some l" using that spec by (simp add: tracker_spec_def)
      moreover have "?c \<in> set (reported 0 ?evs)"
        using Max_in [OF Mx(3,2)] n by (auto simp: common_reports_def)
      then have "?c \<in> set os" using ord n by (auto simp: in_order_def dest: set_mono_prefix)
      ultimately show ?thesis using os(2) by (simp add: order_less_imp_le)
    next
      case False
      then have "l = Max (common_reports n evs)" using that spec by (simp add: tracker_spec_def)
      then show ?thesis using Max_mono [OF mono False Mx(3)] by simp
    qed
    have st: "sorted (tr_complete t)" using spec by (simp add: tracker_spec_def)
    show ?thesis
    proof (cases "tr_complete t \<noteq> [] \<and> ?c \<le> last (tr_complete t)")
      case c: True
      then have "last (tr_complete t) = ?c" using backB [of "last (tr_complete t)"] by (simp add: last_complete_def)
      then have "tracker_spec n restored ?evs ?t1"
        using lt st c Mx(2) by (simp add: tracker_spec_def last_complete_def)
      then show ?thesis using cand bnd c by (simp add: on_partition_checkpoint_def Let_def)
    next
      case c: False
      let ?k = "\<lambda>m. keep_newest m (tr_complete t @ [?c])"
      have topB: "y \<le> ?c" if "y \<in> set (tr_complete t)" for y
      proof -
        have "y \<le> last (tr_complete t)" using that st sorted_last_Max [of "tr_complete t"] by fastforce
        moreover have "last (tr_complete t) \<le> ?c" using c that by fastforce
        ultimately show ?thesis by simp
      qed
      with st have sc: "sorted (tr_complete t @ [?c])" using st by (simp add: sorted_append)
      have kept: "tracker_spec n restored ?evs (?t1\<lparr>tr_complete := ?k m\<rparr>)" if "0 < m" for m
        using lt that sorted_keep_newest [OF sc] last_keep_newest [of m "tr_complete t @ [?c]"] Mx(2)
        by (simp add: tracker_spec_def last_complete_def)
      have hd: "hd (?k m) \<le> ?c" if "0 < m" for m
      proof -
        have "hd (?k m) \<in> set (tr_complete t @ [?c])"
          using that last_keep_newest [of m "tr_complete t @ [?c]"]
          by (metis hd_in_set in_set_dropD keep_newest_def snoc_eq_iff_butlast)
        then show ?thesis using topB by auto
      qed
      show ?thesis
        using cand bnd c kept [of 1] kept [of "tr_retain t"] hd [of "tr_retain t"]
          last_keep_newest [of "tr_retain t" "tr_complete t @ [?c]"]
        by (auto simp: on_partition_checkpoint_def Let_def last_complete_def)
    qed
  qed
qed

lemma in_order_prefix: "in_order n os (evs @ [e]) \<Longrightarrow> in_order n os evs"
  by (cases e) (auto simp: in_order_def reported_snoc dest: append_prefixD)

lemma tracker_follows_reports:
  assumes n: "0 < n" and os: "sorted_wrt (<) os" "\<forall>r x. restored = Some r \<and> x \<in> set os \<longrightarrow> r < x"
    and ord: "in_order n os evs"
  shows "\<exists>t. fold_res tracker_step evs (new_tracker n retain restored) = Inr t \<and>
    tracker_spec n restored evs t"
  using ord
proof (induction evs rule: rev_induct)
  case Nil
  then show ?case using tracker_spec_new [OF n] by simp
next
  case (snoc e evs)
  obtain q x where e: "e = (q, x)" by (cases e)
  obtain t where t: "fold_res tracker_step evs (new_tracker n retain restored) = Inr t"
      "tracker_spec n restored evs t"
    using snoc in_order_prefix by blast
  obtain t' cutoff where "on_partition_checkpoint q x t = Inr (t', cutoff)"
      "tracker_spec n restored (evs @ [(q, x)]) t'"
    using tracker_spec_step [OF n os _ t(2), of q x] snoc.prems e by auto
  moreover from this have "tracker_step e t = Inr t'" by (simp add: tracker_step_def e)
  ultimately show ?case using t(1) e by (simp add: fold_res_append)
qed

section \<open>Properties\<close>

text \<open>
  C25. The recovery cut of a partitioned job is the greatest offset for which every partition
  holds a valid checkpoint file, and there is none exactly when no offset is common to all.
\<close>

theorem recovery_cut_is_greatest_common:
  assumes "0 < n"
  shows "highest_complete_checkpoint root n fs =
    (let common = {x. \<forall>k < n. \<exists>c. load_offset x (fs (partition_checkpoint_dir root k)) = Some c}
     in if common = {} then None else Some (Max common))"
  using highest_complete_Max [OF assms] 
  by (simp add: Let_def complete_offsets_def partition_offsets_def load_offset_valid)

theorem recovery_cut_is_greatest_common_witness:
  "highest_complete_checkpoint ''r'' 2 (\<lambda>dir. []) = None"
  using recovery_cut_is_greatest_common [of 2 "''r''" "\<lambda>dir. []"]
  by (auto simp: Let_def load_offset_def ckpt_files_def newest_first_def dest: spec [of _ 0] split: if_splits)

text \<open>
  The in-memory tracker agrees with what the partitions reported: when every partition
  reports the barriers in order, the tracker never throws and its last complete checkpoint is
  the greatest offset that all partitions have reported, or the restored one before there is
  such an offset.
\<close>

theorem tracker_last_complete:
  assumes "0 < n" "sorted_wrt (<) os" "\<forall>r x. restored = Some r \<and> x \<in> set os \<longrightarrow> r < x"
    and "in_order n os evs"
  shows "\<exists>t. fold_res tracker_step evs (new_tracker n retain restored) = Inr t \<and>
    last_complete t = (if common_reports n evs = {} then restored else Some (Max (common_reports n evs)))"
  using tracker_follows_reports [OF assms, of retain] unfolding tracker_spec_def by blast

lemma sample_reports: "in_order 2 [5, 9] [(0, 5), (1, 5), (0, 9)]"
  by (simp add: in_order_def reported_def less_Suc_eq numeral_2_eq_2 all_conj_distrib)

theorem tracker_last_complete_witness:
  "\<exists>t. fold_res tracker_step [(0, 5), (1, 5), (0, 9)] (new_tracker 2 1 None) = Inr t \<and>
     last_complete t = (if common_reports 2 [(0, 5), (1, 5), (0, 9)] = {} then None
       else Some (Max (common_reports 2 [(0, 5), (1, 5), (0, 9)])))"
  using sample_reports by (intro tracker_last_complete [where os = "[5, 9]"]) simp_all

text \<open>
  C26. Coordinated pruning never removes the recovery cut: the cutoff a report returns is at most
  the last complete checkpoint, so after deleting every file below it the file of that
  checkpoint is still loaded in every partition directory.
\<close>

theorem pruning_keeps_last_complete:
  assumes "0 < n" "sorted_wrt (<) os" "\<forall>r x. restored = Some r \<and> x \<in> set os \<longrightarrow> r < x"
    and "in_order n os (evs @ [(q, x)])"
    and "fold_res tracker_step evs (new_tracker n retain restored) = Inr t"
  shows "\<exists>t' cutoff. on_partition_checkpoint q x t = Inr (t', cutoff) \<and>
    (\<forall>c l d. cutoff = Some c \<and> last_complete t' = Some l \<longrightarrow>
       load_file (prune_below c d) (checkpoint_filename l) = load_file d (checkpoint_filename l))"
proof -
  have "in_order n os evs" using assms(4) by (rule in_order_prefix)
  then have "tracker_spec n restored evs t"
    using tracker_follows_reports [OF assms(1-3), of evs retain] assms(5) by auto
  then obtain t' cutoff where t: "on_partition_checkpoint q x t = Inr (t', cutoff)"
      "\<forall>c. cutoff = Some c \<longrightarrow> (\<exists>l. last_complete t' = Some l \<and> c \<le> l)"
    using tracker_spec_step [OF assms(1-4)] by blast
  have "\<not> prunable c (checkpoint_filename l)" if "cutoff = Some c" "last_complete t' = Some l" for c l
    using t(2) that by (auto simp: prunable_filename)
  then show ?thesis using t(1) prune_keeps by blast
qed

theorem pruning_keeps_last_complete_witness:
  "\<exists>t t'. fold_res tracker_step [(0, 5), (1, 5), (0, 9)] (new_tracker 2 1 None) = Inr t \<and>
     on_partition_checkpoint 1 9 t = Inr (t', Some 9) \<and> last_complete t' = Some 9 \<and>
     (\<forall>d. load_file (prune_below 9 d) (checkpoint_filename 9) = load_file d (checkpoint_filename 9))"
proof -
  have "(case fold_res tracker_step [(0, 5), (1, 5), (0, 9)] (new_tracker 2 1 None) of Inl e \<Rightarrow> False
      | Inr t \<Rightarrow> (case on_partition_checkpoint 1 9 t of Inl e \<Rightarrow> False
                 | Inr tc \<Rightarrow> snd tc = Some 9 \<and> last_complete (fst tc) = Some 9))"
    by code_simp
  then obtain t t' where t: "fold_res tracker_step [(0, 5), (1, 5), (0, 9)] (new_tracker 2 1 None) = Inr t"
      "on_partition_checkpoint 1 9 t = Inr (t', Some 9)" "last_complete t' = Some 9"
    by (auto split: sum.splits)
  have "in_order 2 [5, 9] ([(0, 5), (1, 5), (0, 9)] @ [(1, 9)])"
    by (simp add: in_order_def reported_def less_Suc_eq numeral_2_eq_2 all_conj_distrib)
  then show ?thesis
    using pruning_keeps_last_complete [of 2 "[5, 9]" None "[(0, 5), (1, 5), (0, 9)]" 1 9 1 t] t by auto
qed

end
