(* ===== verification/Snapshot_Store.thy ===== *)
theory Snapshot_Store
  imports Snapshot_Codec Snapshot_Protocol Dist_Checkpoint
begin

text \<open>
  The snapshot store of \<open>src/src/snapshot/store.cpp\<close>: the sealed encoding of a local
  snapshot, the commit manifest that binds the files of an epoch to its topology and
  configuration, immutable publication of a file, \<open>SaveLocal\<close>, \<open>Commit\<close>, \<open>LoadCommitted\<close>
  and \<open>LoadLatestCommitted\<close>. The disk is an association list of epoch directories under
  the root. What the system calls return is the parameter \<open>publish_outcome\<close>, with the
  six characters \<open>mkstemp\<close> chose; reading an existing file does not fail in the model.
\<close>

section \<open>Sealed files\<close>

definition kLimit :: nat where
  "kLimit = 64 * 1024 * 1024"

definition kLoadLimit :: nat where
  "kLoadLimit = 512 * 1024 * 1024"

definition seal :: "bytes \<Rightarrow> bytes res" where
  "seal body =
     bind_res (put_all [Inr body, put_u32 (crc32c body 0)]) (\<lambda>e.
     bind_res (require (\<not> kLimit < length e) ''snapshot file exceeds limit'') (\<lambda>_. Inr e))"

definition open_sealed :: "bytes \<Rightarrow> bytes res" where
  "open_sealed bs =
     bind_res (require (\<not> (length bs < 4 \<or> kLimit < length bs)) ''invalid snapshot file size'') (\<lambda>_.
     bind_res (get_u32 (drop (length bs - 4) bs)) (\<lambda>(crc, _).
     bind_res (require (crc32c (take (length bs - 4) bs) 0 = crc) ''snapshot file CRC mismatch'') (\<lambda>_.
     Inr (take (length bs - 4) bs))))"

section \<open>Local snapshots as bytes\<close>

definition put_counter :: "node_id \<times> u64 \<Rightarrow> bytes res" where
  "put_counter = put_pair put_u32 put_u64"

definition put_map :: "counters \<Rightarrow> bytes res" where
  "put_map m = put_counted put_counter m"

fun get_map_entries :: "nat \<Rightarrow> counters \<Rightarrow> counters get" where
  "get_map_entries 0 m bs = Inr (m, bs)"
| "get_map_entries (Suc n) m bs =
     bind_res (get_pair get_u32 get_u64 bs) (\<lambda>((k, v), r).
     bind_res (require (map_of m k = None) ''duplicate serialized peer'') (\<lambda>_.
     get_map_entries n (om_set k v m) r))"

definition get_map :: "counters get" where
  "get_map bs = bind_res (get_count 12 bs) (\<lambda>(n, r). get_map_entries (unat n) [] r)"

definition put_record :: "channel_record \<Rightarrow> bytes res" where
  "put_record r = put_all [put_u32 (cr_peer r), put_u64 (cr_sequence r), put_blob (cr_payload r)]"

definition get_record :: "channel_record get" where
  "get_record bs =
     bind_res (get_u32 bs) (\<lambda>(peer, d1).
     bind_res (get_u64 d1) (\<lambda>(sequence, d2).
     bind_res (get_blob d2) (\<lambda>(payload, d3).
     Inr (\<lparr>cr_peer = peer, cr_sequence = sequence, cr_payload = payload\<rparr>, d3))))"

definition encode_local :: "local_snapshot \<Rightarrow> bytes res" where
  "encode_local s =
     bind_res (put_all [put_u32 0x53474c31, put_u32 (ls_node s), put_u64 (ls_epoch s), put_blob (ls_state s),
        put_map (ls_received s), put_map (ls_sent s), put_map (ls_marker_sequences s),
        put_counted put_record (ls_channels s)]) seal"

definition decode_local :: "bytes \<Rightarrow> local_snapshot res" where
  "decode_local bs =
     bind_res (open_sealed bs) (\<lambda>d0.
     bind_res (get_u32 d0) (\<lambda>(magic, d1).
     bind_res (require (magic = 0x53474c31) ''snapshot format mismatch'') (\<lambda>_.
     bind_res (get_u32 d1) (\<lambda>(node, d2).
     bind_res (get_u64 d2) (\<lambda>(epoch, d3).
     bind_res (require (epoch \<noteq> 0) ''zero local epoch'') (\<lambda>_.
     bind_res (get_blob d3) (\<lambda>(state, d4).
     bind_res (get_map d4) (\<lambda>(received, d5).
     bind_res (get_map d5) (\<lambda>(sent, d6).
     bind_res (get_map d6) (\<lambda>(markers, d7).
     bind_res (get_counted 16 get_record d7) (\<lambda>(channels, d8).
     bind_res (get_end d8) (\<lambda>_.
     Inr \<lparr>ls_node = node, ls_epoch = epoch, ls_state = state, ls_received = received, ls_sent = sent,
          ls_marker_sequences = markers, ls_channels = channels\<rparr>))))))))))))"

section \<open>The disk\<close>

type_synonym disk = "(string \<times> directory) list"

definition epoch_dir :: "u64 \<Rightarrow> string res" where
  "epoch_dir epoch =
     (if epoch = 0 then Inl (RuntimeError ''zero snapshot epoch'')
      else Inr (''epoch-'' @ digits_of (unat epoch)))"

definition local_file :: "node_id \<Rightarrow> string" where
  "local_file node = ''node-'' @ digits_of (unat node) @ ''.snapshot''"

definition committed_file :: string where
  "committed_file = ''COMMITTED''"

definition look :: "disk \<Rightarrow> string \<Rightarrow> string \<Rightarrow> bytes option" where
  "look disk dir name = Option.bind (map_of disk dir) (\<lambda>d. map_of d name)"

definition read_snapshot_file :: "disk \<Rightarrow> string \<Rightarrow> string \<Rightarrow> bytes res" where
  "read_snapshot_file disk dir name =
     (case look disk dir name of
        None \<Rightarrow> Inl (RuntimeError (''snapshot file missing: '' @ dir @ ''/'' @ name))
      | Some bs \<Rightarrow> if kLimit < length bs then Inl (RuntimeError ''snapshot file too large'') else Inr bs)"

datatype publish_outcome =
    EnsureFails | EnsureSyncFails | TempFails | TempWriteFails | LinkFails | TempUnlinkFails
  | PublishSyncFails | Published

definition put_file :: "string \<Rightarrow> string \<Rightarrow> bytes \<Rightarrow> disk \<Rightarrow> disk" where
  "put_file dir name bs disk =
     AList.update dir (AList.update name bs (case map_of disk dir of Some d \<Rightarrow> d | None \<Rightarrow> [])) disk"

definition ensure_directory :: "string \<Rightarrow> disk \<Rightarrow> disk" where
  "ensure_directory dir disk = (if map_of disk dir = None then AList.update dir [] disk else disk)"

definition atomic_write :: "publish_outcome \<Rightarrow> string \<Rightarrow> string \<Rightarrow> string \<Rightarrow> bytes \<Rightarrow> disk \<Rightarrow> unit res \<times> disk" where
  "atomic_write io sfx dir name bs disk =
     (let made = ensure_directory dir disk in
      if map_of disk dir = None \<and> io = EnsureFails then (Inl (SystemError ''open snapshot directory''), disk)
      else if map_of disk dir = None \<and> io = EnsureSyncFails
      then (Inl (SystemError ''fsync snapshot directory''), made)
      else if look made dir name \<noteq> None
      then (bind_res (read_snapshot_file made dir name) (\<lambda>old.
              require (old = bs) ''attempt to overwrite immutable snapshot''), made)
      else let linked = put_file dir name bs made;
               temp = name @ ''.tmp-'' @ sfx in
        (case io of
           TempFails \<Rightarrow> (Inl (SystemError ''snapshot mkstemp''), made)
         | TempWriteFails \<Rightarrow> (Inl (SystemError ''snapshot write''), made)
         | LinkFails \<Rightarrow> (Inl (SystemError ''snapshot publish''), made)
         | TempUnlinkFails \<Rightarrow> (Inl (SystemError ''snapshot temporary unlink''), put_file dir temp bs linked)
         | PublishSyncFails \<Rightarrow> (Inl (SystemError ''fsync snapshot directory''), linked)
         | _ \<Rightarrow> (Inr (), linked)))"

text \<open>
  The disks a process killed during the write leaves: before the directory, with it, with
  any part of the temporary file, and with the file published beside the temporary one.
\<close>

definition write_crashes :: "string \<Rightarrow> string \<Rightarrow> string \<Rightarrow> bytes \<Rightarrow> disk \<Rightarrow> disk list" where
  "write_crashes sfx dir name bs disk =
     (let made = ensure_directory dir disk; temp = name @ ''.tmp-'' @ sfx in
      [disk, made]
      @ (if look made dir name = None
         then map (\<lambda>n. put_file dir temp (take n bs) made) [0..<Suc (length bs)]
              @ [put_file dir temp bs (put_file dir name bs made), put_file dir name bs made]
         else []))"

section \<open>The operations of the store\<close>

definition put_manifest_node :: "(node_id \<times> u32) list \<Rightarrow> node_id \<times> node_id list \<Rightarrow> bytes res" where
  "put_manifest_node crcs entry = (case entry of (node, peers) \<Rightarrow>
     put_all ([put_u32 node, put_u32 (of_nat (length peers))] @ map put_u32 peers
       @ [bind_res (at_key crcs node) put_u32]))"

definition manifest_bytes :: "u64 \<Rightarrow> topology \<Rightarrow> string \<Rightarrow> (node_id \<times> u32) list \<Rightarrow> bytes res" where
  "manifest_bytes epoch topology config crcs =
     bind_res (require (\<not> (config = [] \<or> topology = [] \<or> 1024 < length topology))
       ''invalid global snapshot config/topology'') (\<lambda>_.
     bind_res (put_all [put_u32 0x53474d31, put_u64 epoch, put_string config,
       put_counted (put_manifest_node crcs) topology]) seal)"

definition load_local :: "disk \<Rightarrow> string \<Rightarrow> u64 \<Rightarrow> node_id \<times> node_id list
    \<Rightarrow> local_snapshot list \<times> (node_id \<times> u32) list \<times> nat \<Rightarrow> (local_snapshot list \<times> (node_id \<times> u32) list \<times> nat) res" where
  "load_local disk dir epoch entry acc = (case (entry, acc) of ((node, peers), (snapshots, crcs, bytes_read)) \<Rightarrow>
     bind_res (read_snapshot_file disk dir (local_file node)) (\<lambda>b.
     bind_res (require (\<not> kLoadLimit < bytes_read + length b) ''global snapshot exceeds load limit'') (\<lambda>_.
     bind_res (decode_local b) (\<lambda>s.
     bind_res (require (\<not> (ls_node s \<noteq> node \<or> ls_epoch s \<noteq> epoch)) ''snapshot identity mismatch'') (\<lambda>_.
     Inr (snapshots @ [s],
          (if map_of crcs node = None then om_set node (crc32c (take (length b - 4) b) 0) crcs else crcs),
          bytes_read + length b))))))"

definition load_locals :: "disk \<Rightarrow> string \<Rightarrow> u64 \<Rightarrow> topology \<Rightarrow> (local_snapshot list \<times> (node_id \<times> u32) list) res" where
  "load_locals disk dir epoch topology =
     bind_res (require (\<not> (topology = [] \<or> 1024 < length topology)) ''invalid snapshot topology size'') (\<lambda>_.
     bind_res (fold_res (load_local disk dir epoch) topology ([], [], 0)) (\<lambda>(snapshots, crcs, _).
     bind_res (validate_global snapshots topology) (\<lambda>_. Inr (snapshots, crcs))))"

definition save_local :: "publish_outcome \<Rightarrow> string \<Rightarrow> local_snapshot \<Rightarrow> disk \<Rightarrow> unit res \<times> disk" where
  "save_local io sfx s disk =
     (case bind_res (epoch_dir (ls_epoch s)) (\<lambda>dir. bind_res (encode_local s) (\<lambda>b. Inr (dir, b))) of
        Inl x \<Rightarrow> (Inl x, disk)
      | Inr (dir, b) \<Rightarrow> atomic_write io sfx dir (local_file (ls_node s)) b disk)"

definition commit :: "publish_outcome \<Rightarrow> string \<Rightarrow> u64 \<Rightarrow> topology \<Rightarrow> string \<Rightarrow> disk \<Rightarrow> unit res \<times> disk" where
  "commit io sfx epoch topology config disk =
     (case bind_res (epoch_dir epoch) (\<lambda>dir.
           bind_res (load_locals disk dir epoch topology) (\<lambda>(_, crcs).
           bind_res (manifest_bytes epoch topology config crcs) (\<lambda>b. Inr (dir, b)))) of
        Inl x \<Rightarrow> (Inl x, disk)
      | Inr (dir, b) \<Rightarrow> atomic_write io sfx dir committed_file b disk)"

definition load_committed :: "u64 \<Rightarrow> topology \<Rightarrow> string \<Rightarrow> disk \<Rightarrow> local_snapshot list res" where
  "load_committed epoch topology config disk =
     bind_res (epoch_dir epoch) (\<lambda>dir.
     bind_res (read_snapshot_file disk dir committed_file) (\<lambda>manifest.
     bind_res (open_sealed manifest) (\<lambda>_.
     bind_res (load_locals disk dir epoch topology) (\<lambda>(snapshots, crcs).
     bind_res (manifest_bytes epoch topology config crcs) (\<lambda>expected.
     bind_res (require (manifest = expected) ''committed manifest/configuration mismatch'') (\<lambda>_.
     Inr snapshots))))))"

text \<open>The directory names that \<open>from_chars\<close> reads as a positive epoch, to their last character.\<close>

definition epoch_of_dir :: "string \<Rightarrow> u64 option" where
  "epoch_of_dir name =
     (if take 6 name = ''epoch-'' then
        (case from_chars (drop 6 name) of
           Some e \<Rightarrow> if 0 < e then Some e else None
         | None \<Rightarrow> None)
      else None)"

definition is_runtime_error :: "exn \<Rightarrow> bool" where
  "is_runtime_error x = (case x of RuntimeError _ \<Rightarrow> True | SystemError _ \<Rightarrow> True | OverflowError _ \<Rightarrow> True
     | _ \<Rightarrow> False)"

fun try_epochs :: "u64 list \<Rightarrow> topology \<Rightarrow> string \<Rightarrow> disk \<Rightarrow> local_snapshot list res" where
  "try_epochs [] topology config disk =
     Inl (RuntimeError ''no valid committed snapshot for requested topology/configuration'')"
| "try_epochs (e # es) topology config disk =
     (case load_committed e topology config disk of
        Inr s \<Rightarrow> Inr s
      | Inl x \<Rightarrow> if is_runtime_error x then try_epochs es topology config disk else Inl x)"

definition epochs_of :: "disk \<Rightarrow> u64 list" where
  "epochs_of disk = rev (sort (List.map_filter (\<lambda>(name, _). epoch_of_dir name) disk))"

definition load_latest_committed :: "topology \<Rightarrow> string \<Rightarrow> disk \<Rightarrow> local_snapshot list res" where
  "load_latest_committed topology config disk = try_epochs (epochs_of disk) topology config disk"

section \<open>A local snapshot read back\<close>

interpretation counter: two_fields put_u32 get_u32 "\<lambda>_. True" 4 put_u64 get_u64 "\<lambda>_. True" 8
  by unfold_locales

lemma counter_field: "field_codec put_counter (get_pair get_u32 get_u64) (\<lambda>_. True) 12"
  using counter.pair.field_codec_axioms by (simp add: put_counter_def)

lemma counter_exact: "get_pair get_u32 get_u64 bs = Inr (x, r) \<Longrightarrow> \<exists>b. put_counter x = Inr b \<and> bs = b @ r"
  by (cases x) (auto simp: get_pair_def put_counter_def put_pair_def u32.get_iff u64.get_iff)

interpretation entries: exact_codec put_counter "get_pair get_u32 get_u64" "\<lambda>_. True" 12
  by (rule exact_codec.intro [OF counter_field exact_codec_axioms.intro]) (simp add: counter_exact)

interpretation record_field: exact_codec put_record get_record "\<lambda>_. True" 16
proof
  show "get_record (b @ r) = Inr (x, r)" if "put_record x = Inr b" for x b r
    using that by (auto simp: put_record_def get_record_def put_u32_le32 put_u64_le64 get_u32_append get_u64_append blob_round)
  show "16 \<le> length b" if "put_record x = Inr b" for x b
    using that by (auto simp: put_record_def put_u32_le32 put_u64_le64 put_blob_Inr)
  show "True \<and> (\<exists>b. put_record x = Inr b \<and> bs = b @ r)" if "get_record bs = Inr (x, r)" for bs x r
    using that by (auto simp: put_record_def get_record_def u32.get_iff u64.get_iff blob.get_iff)
qed

text \<open>
  The loop of \<open>GetMap\<close> accepts the entries in any order and no peer twice, and what it builds is
  the map of these entries.
\<close>

lemma om_wf_same: "om_wf m \<Longrightarrow> om_wf n \<Longrightarrow> set m = set n \<Longrightarrow> m = n"
  by (simp add: om_wf_eqI map_of_inject_set om_wf_distinct)

lemma set_om_set_new: "map_of m k = None \<Longrightarrow> set (om_set k v m) = insert (k, v) (set m)"
  by (induction k v m rule: om_set.induct) (auto split: if_splits)

lemma get_map_entries_iff:
  "om_wf a \<Longrightarrow> get_map_entries n a bs = Inr (m, r) \<longleftrightarrow>
     (\<exists>es. get_many (get_pair get_u32 get_u64) n bs = Inr (es, r) \<and> distinct (map fst es)
        \<and> fst ` set es \<inter> fst ` set a = {} \<and> om_wf m \<and> set m = set a \<union> set es)"
proof (induction n arbitrary: a bs)
  case 0
  then show ?case by (auto dest: om_wf_same)
next
  case (Suc n)
  show ?case
  proof (cases "get_pair get_u32 get_u64 bs")
    case (Inr x)
    then obtain k v t where x: "get_pair get_u32 get_u64 bs = Inr ((k, v), t)" by (metis surj_pair)
    show ?thesis
    proof (cases "map_of a k")
      case None
      then have k: "k \<notin> fst ` set a" by (simp add: map_of_eq_None_iff)
      have "get_map_entries (Suc n) a bs = get_map_entries n (om_set k v a) t" using x None by (simp add: require_def)
      then show ?thesis
        using x k by (auto simp: Suc.IH [OF om_wf_set [OF Suc.prems]] set_om_set_new [OF None])
    next
      case (Some y)
      then have "k \<in> fst ` set a" by (metis domI dom_map_of_conv_image_fst)
      then show ?thesis using x Some by (auto simp: require_def)
    qed
  qed simp
qed

lemma get_map_iff:
  "get_map bs = Inr (m, r) \<longleftrightarrow>
     om_wf m \<and> (\<exists>es b. distinct (map fst es) \<and> set es = set m \<and> length es < 2 ^ 32 \<and> put_map es = Inr b \<and> bs = b @ r)"
proof -
  have "get_map bs = Inr (m, r) \<longleftrightarrow>
      (\<exists>es. get_counted 12 (get_pair get_u32 get_u64) bs = Inr (es, r) \<and> distinct (map fst es) \<and> om_wf m \<and> set m = set es)"
    by (auto simp: get_map_def get_counted_def get_map_entries_iff)
  then show ?thesis by (simp add: entries.counted_iff put_map_def list_all_iff) metis
qed

lemma seal_Inr: "(seal body = Inr b) = (b = body @ le32 (crc32c body 0) \<and> length b \<le> kLimit)"
  by (auto simp: seal_def put_u32_le32)

lemma open_seal: "seal body = Inr b \<Longrightarrow> open_sealed b = Inr body"
proof -
  assume "seal body = Inr b"
  then have b: "b = body @ le32 (crc32c body 0)" "length b \<le> kLimit" by (auto simp: seal_Inr)
  then have "drop (length b - 4) b = le32 (crc32c body 0) @ []" "take (length b - 4) b = body" "\<not> length b < 4"
    by simp_all
  with b(2) get_u32_append [of "crc32c body 0" "[]"] show ?thesis by (simp add: open_sealed_def require_def)
qed

lemma open_sealed_iff: "open_sealed b = Inr body \<longleftrightarrow> seal body = Inr b"
proof
  assume o: "open_sealed b = Inr body"
  then have len: "4 \<le> length b" "length b \<le> kLimit" "body = take (length b - 4) b"
      and "\<exists>r. get_u32 (drop (length b - 4) b) = Inr (crc32c body 0, r)"
    by (auto simp: open_sealed_def)
  then obtain r where r: "drop (length b - 4) b = le32 (crc32c body 0) @ r" by (auto simp: u32.get_iff put_u32_le32)
  moreover have "length (drop (length b - 4) b) = 4" using len(1) by simp
  ultimately have "r = []" by simp
  with r len show "seal body = Inr b" by (metis append_Nil2 append_take_drop_id seal_Inr)
qed (rule open_seal)

lemma put_map_length: "put_map m = Inr b \<Longrightarrow> 12 * length m \<le> length b"
proof -
  assume "put_map m = Inr b"
  then obtain c where "put_all (map put_counter m) = Inr c" "length b = 4 + length c"
    by (auto simp: put_map_def put_counted_def put_u32_le32)
  then show ?thesis using entries.many_length [of m c] by simp
qed

text \<open>
  The file of a snapshot: what \<open>EncodeLocal\<close> writes for it, except that the reader does not insist on
  the order of the entries of a counter map, and that its epoch is positive. The size
  limit of a file keeps every count in range.
\<close>

definition snapshot_file :: "local_snapshot \<Rightarrow> bytes \<Rightarrow> bool" where
  "snapshot_file s bs \<longleftrightarrow>
     snapshot_wf s \<and> ls_epoch s \<noteq> 0 \<and>
     (\<exists>received sent markers.
        distinct (map fst received) \<and> set received = set (ls_received s) \<and>
        distinct (map fst sent) \<and> set sent = set (ls_sent s) \<and>
        distinct (map fst markers) \<and> set markers = set (ls_marker_sequences s) \<and>
        encode_local (s\<lparr>ls_received := received, ls_sent := sent, ls_marker_sequences := markers\<rparr>) = Inr bs)"

lemma encode_local_Inr:
  "encode_local s = Inr b \<longleftrightarrow>
     (\<exists>st rc sn mk ch. put_blob (ls_state s) = Inr st \<and> put_map (ls_received s) = Inr rc \<and> put_map (ls_sent s) = Inr sn
        \<and> put_map (ls_marker_sequences s) = Inr mk \<and> put_counted put_record (ls_channels s) = Inr ch
        \<and> seal (le32 0x53474c31 @ le32 (ls_node s) @ le64 (ls_epoch s) @ st @ rc @ sn @ mk @ ch) = Inr b)"
  by (auto simp: encode_local_def put_u32_le32 put_u64_le64)

lemma counts_in_range:
  assumes "seal (le32 a @ le32 n @ le64 e @ st @ rc @ sn @ mk @ ch) = Inr b"
    and "put_map r = Inr rc" "put_map s = Inr sn" "put_map m = Inr mk" "put_counted put_record c = Inr ch"
  shows "length r < 2 ^ 32" "length s < 2 ^ 32" "length m < 2 ^ 32" "length c < 2 ^ 32"
proof -
  have len: "length rc < 2 ^ 32" "length sn < 2 ^ 32" "length mk < 2 ^ 32" "length ch < 2 ^ 32"
    using assms(1) by (auto simp: seal_Inr kLimit_def)
  obtain cc where cc: "put_all (map put_record c) = Inr cc" "length ch = 4 + length cc"
    using assms(5) by (auto simp: put_counted_def put_u32_le32)
  show "length r < 2 ^ 32" "length s < 2 ^ 32" "length m < 2 ^ 32" "length c < 2 ^ 32"
    using put_map_length [OF assms(2)] put_map_length [OF assms(3)] put_map_length [OF assms(4)]
      record_field.many_length [OF cc(1)] cc(2) len by linarith+
qed

lemma snapshot_file_decodes:
  assumes "snapshot_file s bs"
  shows "decode_local bs = Inr s"
proof -
  obtain received sent markers st rc sn mk ch where m: "distinct (map fst received)" "set received = set (ls_received s)"
      "distinct (map fst sent)" "set sent = set (ls_sent s)" "distinct (map fst markers)" "set markers = set (ls_marker_sequences s)"
    and p: "put_blob (ls_state s) = Inr st" "put_map received = Inr rc" "put_map sent = Inr sn" "put_map markers = Inr mk"
      "put_counted put_record (ls_channels s) = Inr ch"
      "seal (le32 0x53474c31 @ le32 (ls_node s) @ le64 (ls_epoch s) @ st @ rc @ sn @ mk @ ch) = Inr bs"
    using assms by (auto simp: snapshot_file_def encode_local_Inr)
  note n = counts_in_range [OF p(6) p(2-5)]
  have wf: "om_wf (ls_received s)" "om_wf (ls_sent s)" "om_wf (ls_marker_sequences s)" "ls_epoch s \<noteq> 0"
    using assms by (auto simp: snapshot_file_def snapshot_wf_def)
  have g: "get_map (rc @ t) = Inr (ls_received s, t)" "get_map (sn @ t) = Inr (ls_sent s, t)"
      "get_map (mk @ t) = Inr (ls_marker_sequences s, t)" for t
    unfolding get_map_iff using wf m p(2-4) n by blast+
  have ch: "get_counted 16 get_record ch = Inr (ls_channels s, [])"
    using record_field.counted_round [OF p(5) _ n(4), of "[]"] by (simp add: list_all_iff)
  show ?thesis
    unfolding decode_local_def open_seal [OF p(6)]
    using wf(4) by (simp add: get_u32_append get_u64_append require_def blob_round [OF p(1)] g ch get_end_def)
qed

lemma decoded_has_file:
  assumes "decode_local bs = Inr s"
  shows "snapshot_file s bs"
proof -
  obtain d st d5 d6 d7 ch where d: "open_sealed bs = Inr (le32 0x53474c31 @ le32 (ls_node s) @ le64 (ls_epoch s) @ st @ d)"
      "ls_epoch s \<noteq> 0" "put_blob (ls_state s) = Inr st" "get_map d = Inr (ls_received s, d5)" "get_map d5 = Inr (ls_sent s, d6)"
      "get_map d6 = Inr (ls_marker_sequences s, d7)" "put_counted put_record (ls_channels s) = Inr ch" "d7 = ch"
    using assms
    by (auto simp: decode_local_def u32.get_iff u64.get_iff blob.get_iff record_field.counted_iff get_end_def put_u32_le32 put_u64_le64)
  then show ?thesis
    by (fastforce simp: snapshot_file_def snapshot_wf_def get_map_iff encode_local_Inr open_sealed_iff)
qed

lemma decode_local_iff: "decode_local bs = Inr s \<longleftrightarrow> snapshot_file s bs"
  using snapshot_file_decodes decoded_has_file by blast

lemma encoded_is_file: "encode_local s = Inr b \<Longrightarrow> snapshot_wf s \<Longrightarrow> ls_epoch s \<noteq> 0 \<Longrightarrow> snapshot_file s b"
  unfolding snapshot_file_def snapshot_wf_def
  by (intro conjI exI [of _ "ls_received s"] exI [of _ "ls_sent s"] exI [of _ "ls_marker_sequences s"]) (simp_all add: om_wf_distinct)

lemmas decode_encode_local = snapshot_file_decodes [OF encoded_is_file]

section \<open>Files stay\<close>

definition permanent :: "string \<Rightarrow> bool" where
  "permanent name \<longleftrightarrow> name = committed_file \<or> (\<exists>node. name = local_file node)"

definition extends :: "disk \<Rightarrow> disk \<Rightarrow> bool" where
  "extends disk disk' \<longleftrightarrow>
     (\<forall>dir name bs. permanent name \<longrightarrow> look disk dir name = Some bs \<longrightarrow> look disk' dir name = Some bs)
     \<and> fst ` set disk \<subseteq> fst ` set disk'"

lemma extends_refl: "extends d d"
  by (simp add: extends_def)

lemma extendsD:
  "extends a b \<Longrightarrow> permanent n \<Longrightarrow> look a dir n = Some bs \<Longrightarrow> look b dir n = Some bs"
  "extends a b \<Longrightarrow> fst ` set a \<subseteq> fst ` set b"
  by (simp_all add: extends_def)

lemma extends_trans:
  assumes "extends a b" "extends b c"
  shows "extends a c"
  unfolding extends_def
proof (intro conjI allI impI)
  show "look c dir n = Some bs" if "permanent n" "look a dir n = Some bs" for dir n bs
    using extendsD(1) [OF assms(2) that(1)] extendsD(1) [OF assms(1) that] .
  show "fst ` set a \<subseteq> fst ` set c" using extendsD(2) [OF assms(1)] extendsD(2) [OF assms(2)] by (rule order_trans)
qed

lemma look_put_file: "look (put_file dir name bs disk) dir' name' =
    (if dir' = dir \<and> name' = name then Some bs else look disk dir' name')"
  by (auto simp: look_def put_file_def update_conv' split: option.splits)

lemma look_ensure: "look (ensure_directory dir disk) = look disk"
  by (auto simp: look_def ensure_directory_def update_conv' fun_eq_iff)

lemma dirs_put_file: "fst ` set (put_file dir name bs disk) = insert dir (fst ` set disk)"
  by (simp add: put_file_def dom_map_of_conv_image_fst [symmetric] update_conv')

lemma dirs_ensure: "fst ` set (ensure_directory dir disk) = insert dir (fst ` set disk)"
proof (cases "map_of disk dir")
  case None
  then show ?thesis by (simp add: ensure_directory_def dom_map_of_conv_image_fst [symmetric] update_conv')
next
  case (Some d)
  then have "dir \<in> fst ` set disk" by (metis domI dom_map_of_conv_image_fst)
  with Some show ?thesis by (auto simp: ensure_directory_def)
qed

lemma extends_ensure: "extends disk (ensure_directory dir disk)"
  by (auto simp: extends_def look_ensure dirs_ensure)

lemma extends_new: "look disk dir name = None \<or> \<not> permanent name \<Longrightarrow> extends disk (put_file dir name bs disk)"
  by (auto simp: extends_def look_put_file dirs_put_file)

lemma temp_not_permanent:
  assumes "length sfx = 6"
  shows "\<not> permanent (name @ ''.tmp-'' @ sfx)"
proof
  let ?t = "name @ ''.tmp-'' @ sfx"
  assume "permanent ?t"
  then consider "?t = committed_file" | node where "?t = local_file node" by (auto simp: permanent_def)
  then show False
  proof cases
    case 1
    then have "length ?t = length committed_file" by (rule arg_cong)
    then show ?thesis using assms by (simp add: committed_file_def)
  next
    case 2
    have "drop (length ?t - 9) ?t = ''mp-'' @ sfx" using assms by simp
    moreover have "drop (length (local_file node) - 9) (local_file node) = ''.snapshot''"
      by (simp add: local_file_def)
    ultimately have "''mp-'' @ sfx = ''.snapshot''" using 2 by metis
    then show ?thesis by simp
  qed
qed

lemma extends_write:
  assumes "length sfx = 6"
  shows "extends disk (snd (atomic_write io sfx dir name bs disk))"
proof -
  let ?made = "ensure_directory dir disk"
  note made = extends_ensure [of disk dir]
  have linked: "extends disk (put_file dir name bs ?made)" if "look ?made dir name = None"
    using extends_trans [OF made extends_new] that by blast
  have temp: "extends disk (put_file dir (name @ ''.tmp-'' @ sfx) bs (put_file dir name bs ?made))"
    if "look ?made dir name = None"
    using extends_trans [OF linked [OF that] extends_new] temp_not_permanent [OF assms] by blast
  show ?thesis
    using made linked temp
    by (auto simp: atomic_write_def Let_def extends_refl split: publish_outcome.splits)
qed

lemma extends_crash:
  assumes "length sfx = 6" "d \<in> set (write_crashes sfx dir name bs disk)"
  shows "extends disk d"
proof -
  let ?made = "ensure_directory dir disk"
  note made = extends_ensure [of disk dir]
  note temp = extends_new [OF disjI2 [OF temp_not_permanent [OF assms(1)]]]
  have linked: "extends disk (put_file dir name bs ?made)" if "look ?made dir name = None"
    using extends_trans [OF made extends_new] that by blast
  show ?thesis
    using assms(2) made linked extends_trans [OF made temp] extends_trans [OF linked temp]
    by (auto simp: write_crashes_def Let_def extends_refl split: if_splits)
qed

lemma permanent_files: "permanent committed_file" "permanent (local_file node)"
  by (auto simp: permanent_def)

lemma read_extends:
  "extends d d' \<Longrightarrow> permanent name \<Longrightarrow> read_snapshot_file d dir name = Inr bs \<Longrightarrow> read_snapshot_file d' dir name = Inr bs"
  by (auto simp: read_snapshot_file_def extends_def split: option.splits if_splits)

lemma fold_res_mono:
  assumes "\<And>x s t. x \<in> set xs \<Longrightarrow> f x s = Inr t \<Longrightarrow> g x s = Inr t"
  shows "fold_res f xs s = Inr t \<Longrightarrow> fold_res g xs s = Inr t"
  using assms
proof (induction xs arbitrary: s)
  case (Cons x xs)
  then obtain u where u: "f x s = Inr u" "fold_res f xs u = Inr t" by auto
  then have "g x s = Inr u" using Cons.prems(2) by simp
  moreover have "fold_res g xs u = Inr t" using Cons.IH [OF u(2)] Cons.prems(2) by simp
  ultimately show ?case by simp
qed simp

lemma load_locals_extends:
  assumes "extends d d'" "load_locals d dir ep topo = Inr x"
  shows "load_locals d' dir ep topo = Inr x"
proof -
  have step: "load_local d' dir ep e s = Inr t" if "load_local d dir ep e s = Inr t" for e s t
    using that read_extends [OF assms(1) permanent_files(2), of dir "fst e"]
    by (auto simp: load_local_def split: prod.splits)
  have "fold_res (load_local d' dir ep) topo s = Inr t" if "fold_res (load_local d dir ep) topo s = Inr t" for s t
    using that by (rule fold_res_mono [rotated]) (rule step)
  with assms(2) show ?thesis by (auto simp: load_locals_def)
qed

lemma load_committed_extends:
  assumes "extends d d'" "load_committed ep topo config d = Inr x"
  shows "load_committed ep topo config d' = Inr x"
  using assms(2) read_extends [OF assms(1) permanent_files(1)] load_locals_extends [OF assms(1)]
  by (fastforce simp: load_committed_def)

section \<open>Committing and loading\<close>

text \<open>What \<open>LoadCommitted\<close> returns is a consistent cut of its epoch, node by node.\<close>

lemma load_local_fold:
  assumes "fold_res (load_local d dir ep) topo (ss, cs, n) = Inr (snaps, crcs, n')"
  shows "\<exists>ts. snaps = ss @ ts \<and> map ls_node ts = map fst topo \<and> (\<forall>s \<in> set ts. ls_epoch s = ep)"
  using assms
proof (induction topo arbitrary: ss cs n)
  case (Cons e topo)
  then obtain st where st: "load_local d dir ep e (ss, cs, n) = Inr st"
      "fold_res (load_local d dir ep) topo st = Inr (snaps, crcs, n')"
    by auto
  then obtain s cs' n'' where s: "ls_node s = fst e" "ls_epoch s = ep"
      "fold_res (load_local d dir ep) topo (ss @ [s], cs', n'') = Inr (snaps, crcs, n')"
    by (cases e) (auto simp: load_local_def)
  from Cons.IH [OF s(3)] obtain ts where "snaps = (ss @ [s]) @ ts" "map ls_node ts = map fst topo"
      "\<forall>s \<in> set ts. ls_epoch s = ep" by auto
  with s(1,2) show ?case by (intro exI [of _ "s # ts"]) simp
qed simp

lemma load_locals_Inr:
  assumes "load_locals d dir ep topo = Inr (snaps, crcs)"
  shows "map ls_node snaps = map fst topo \<and> (\<forall>s \<in> set snaps. ls_epoch s = ep) \<and> validate_global snaps topo = Inr ()"
  using assms load_local_fold [of d dir ep topo "[]" "[]" 0] by (auto simp: load_locals_def)

lemma epoch_dir_Inr: "(epoch_dir ep = Inr dir) = (ep \<noteq> 0 \<and> dir = ''epoch-'' @ digits_of (unat ep))"
  by (auto simp: epoch_dir_def)

lemma manifest_opens: "manifest_bytes ep topo config crcs = Inr b \<Longrightarrow> open_sealed b \<noteq> Inl x \<and> length b \<le> kLimit"
proof -
  assume "manifest_bytes ep topo config crcs = Inr b"
  then obtain body where "seal body = Inr b" by (auto simp: manifest_bytes_def simp del: put_all.simps)
  then show ?thesis using open_seal [of body b] by (auto simp: seal_Inr)
qed

lemma atomic_write_Inr:
  assumes "atomic_write io sfx dir name bs disk = (Inr (), disk')" "length bs \<le> kLimit"
  shows "read_snapshot_file disk' dir name = Inr bs"
  using assms
  by (auto simp: atomic_write_def Let_def read_snapshot_file_def look_put_file split: if_splits option.splits publish_outcome.splits)

lemma commit_loads:
  assumes "commit io sfx ep topo config disk = (Inr (), disk')" "length sfx = 6"
  shows "\<exists>snaps. load_committed ep topo config disk' = Inr snaps"
proof -
  obtain dir snaps crcs b where c: "epoch_dir ep = Inr dir" "load_locals disk dir ep topo = Inr (snaps, crcs)"
      "manifest_bytes ep topo config crcs = Inr b" "atomic_write io sfx dir committed_file b disk = (Inr (), disk')"
    using assms(1) by (auto simp: commit_def split: sum.splits)
  have "extends disk disk'" using extends_write [OF assms(2), of disk io dir committed_file b] c(4) by simp
  note ll = load_locals_extends [OF this c(2)]
  have m: "open_sealed b \<noteq> Inl x" "length b \<le> kLimit" for x using manifest_opens [OF c(3)] by auto
  obtain body where "open_sealed b = Inr body" using m(1) by (cases "open_sealed b") auto
  with atomic_write_Inr [OF c(4) m(2)] c ll show ?thesis by (auto simp: load_committed_def require_def)
qed

subsection \<open>The newest committed epoch\<close>

lemma digits_decimal: "decimal_value (digits_of n) = n \<and> list_all is_digit (digits_of n) \<and> digits_of n \<noteq> []"
proof (induction n rule: digits_of.induct)
  case (1 n)
  have d: "(of_char (char_of (48 + k) :: char) :: nat) = 48 + k" if "k < 10" for k :: nat
    using that by (simp add: take_bit_eq_mod)
  then have dig: "is_digit (char_of (48 + k))" if "k < 10" for k :: nat
    using that by (simp add: is_digit_def)
  show ?case
  proof (cases "n < 10")
    case True
    then show ?thesis using d [OF True] dig [OF True] by (subst (1 2 3) digits_of.simps) (simp add: decimal_value_def)
  next
    case False
    have "n mod 10 < 10" by simp
    with 1 [OF False] d [of "n mod 10"] dig [of "n mod 10"] False show ?thesis
      by (subst (1 2 3) digits_of.simps) (simp add: decimal_snoc)
  qed
qed

lemma epoch_of_epoch_dir: "epoch_dir ep = Inr dir \<Longrightarrow> epoch_of_dir dir = Some ep"
proof -
  assume "epoch_dir ep = Inr dir"
  then have e: "ep \<noteq> 0" "dir = ''epoch-'' @ digits_of (unat ep)" by (simp_all add: epoch_dir_Inr)
  have "unat ep < 2 ^ 64" using unsigned_less [of ep, where 'a = nat] by simp
  then have "from_chars (digits_of (unat ep)) = Some ep"
    using digits_decimal [of "unat ep"] by (simp add: from_chars_def)
  with e show ?thesis by (simp add: epoch_of_dir_def word_neq_0_conv)
qed

lemma set_epochs_of: "set (epochs_of disk) = {e. \<exists>dir \<in> fst ` set disk. epoch_of_dir dir = Some e}"
  by (force simp: epochs_of_def List.map_filter_def)

lemma sorted_epochs_of: "sorted_wrt (\<ge>) (epochs_of disk)"
  by (simp add: epochs_of_def sorted_wrt_rev)

lemma committed_in_epochs: "load_committed ep topo config disk = Inr x \<Longrightarrow> ep \<in> set (epochs_of disk)"
proof -
  assume "load_committed ep topo config disk = Inr x"
  then obtain dir where dir: "epoch_dir ep = Inr dir" "look disk dir committed_file \<noteq> None"
    by (auto simp: load_committed_def read_snapshot_file_def split: option.splits)
  then have "dir \<in> fst ` set disk"
    by (metis bind_eq_None_conv look_def map_of_eq_None_iff)
  with epoch_of_epoch_dir [OF dir(1)] show ?thesis by (auto simp: set_epochs_of)
qed

subsection \<open>Every failure of a load is a \<open>std::runtime_error\<close>\<close>

named_theorems rt_intros \<open>code that throws runtime errors only\<close>

definition rt :: "'a res \<Rightarrow> bool" where
  "rt m \<longleftrightarrow> (\<forall>x. m = Inl x \<longrightarrow> is_runtime_error x)"

lemma rt_Inr [rt_intros, simp]: "rt (Inr x)"
  by (simp add: rt_def)

lemma rt_require [rt_intros, simp]: "rt (require c msg)"
  by (simp add: rt_def require_def is_runtime_error_def)

lemma rt_RuntimeError [rt_intros, simp]: "rt (Inl (RuntimeError msg))"
  by (simp add: rt_def is_runtime_error_def)

lemma rt_bind [rt_intros]: "rt m \<Longrightarrow> (\<And>x. m = Inr x \<Longrightarrow> rt (f x)) \<Longrightarrow> rt (bind_res m f)"
  by (cases m) (auto simp: rt_def)

lemma rt_bind_pair [rt_intros]: "rt m \<Longrightarrow> (\<And>x y. m = Inr (x, y) \<Longrightarrow> rt (f x y)) \<Longrightarrow> rt (bind_res m (\<lambda>(x, y). f x y))"
  by (rule rt_bind) auto

lemma rt_fold: "(\<And>x s. x \<in> set xs \<Longrightarrow> rt (f x s)) \<Longrightarrow> rt (fold_res f xs s)"
  by (induction xs arbitrary: s) (auto intro!: rt_bind)

lemma rt_get_u8 [rt_intros]: "rt (get_u8 bs)"
  unfolding get_u8_def need_def by (intro rt_intros)

lemma rt_get_le: "rt (get_le w is v bs)"
proof (induction "is" arbitrary: v bs)
  case (Cons i "is")
  then show ?case by (auto intro!: rt_intros)
qed simp

lemma rt_gets [rt_intros]: "rt (get_u32 bs)" "rt (get_u64 bs)" "rt (get_blob bs)" "rt (get_count k bs)" "rt (get_end bs)"
proof -
  show u32: "rt (get_u32 bs)" and "rt (get_u64 bs)" for bs unfolding get_u32_def get_u64_def by (rule rt_get_le)+
  show "rt (get_blob bs)" "rt (get_count k bs)" "rt (get_end bs)"
    unfolding get_blob_def get_count_def need_def get_end_def by (auto intro!: rt_intros u32)
qed

lemma rt_get_many: "(\<And>bs. rt (g bs)) \<Longrightarrow> rt (get_many g n bs)"
  by (induction n arbitrary: bs) (auto intro!: rt_intros)

lemma rt_get_map [rt_intros]: "rt (get_map bs)"
proof -
  have "rt (get_map_entries n m bs)" for n m bs
    by (induction n arbitrary: m bs) (auto simp: get_pair_def intro!: rt_intros)
  then show ?thesis unfolding get_map_def by (intro rt_intros) simp_all
qed

lemma rt_get_records [rt_intros]: "rt (get_counted 16 get_record bs)"
proof -
  have "rt (get_record bs)" for bs unfolding get_record_def by (intro rt_intros)
  then show ?thesis unfolding get_counted_def by (intro rt_intros rt_get_many)
qed

lemma rt_open [rt_intros]: "rt (open_sealed bs)"
  unfolding open_sealed_def by (intro rt_intros)

lemma rt_decode_local [rt_intros]: "rt (decode_local bs)"
  unfolding decode_local_def by (intro rt_intros)

lemma rt_put_all: "list_all rt ms \<Longrightarrow> rt (put_all ms)"
  by (induction ms) (auto intro!: rt_intros)

lemma rt_read [rt_intros]: "rt (read_snapshot_file disk dir name)"
  by (auto simp: read_snapshot_file_def rt_def is_runtime_error_def split: option.splits)

lemma rt_at_key: "map_of m k \<noteq> None \<Longrightarrow> rt (at_key m k)"
  by (auto simp: at_key_def)

lemma rt_validate:
  assumes "om_wf topo"
  shows "rt (validate_global snaps topo)"
  unfolding validate_global_def
proof (intro rt_intros)
  fix u v nodes
  assume u: "require (topo \<noteq> [] \<and> length snaps = length topo) ''incomplete global snapshot'' = Inr u"
    and nodes: "index_snapshots (ls_epoch (hd snaps)) topo snaps = Inr nodes"
  have n: "distinct (map ls_node snaps)" "ls_node ` set snaps \<subseteq> fst ` set topo" "nodes = snapshot_index snaps"
    using nodes by (auto simp: index_snapshots_Inr snapshot_index_def) (metis domI dom_map_of_conv_image_fst)
  have "card (ls_node ` set snaps) = card (fst ` set topo)"
    using u distinct_card [OF n(1)] distinct_card [OF om_wf_distinct [OF assms]] by simp
  then have all: "ls_node ` set snaps = fst ` set topo" using n(2) by (simp add: card_subset_eq)
  have known: "map_of nodes i \<noteq> None" if "i \<in> fst ` set topo" for i
    using that all map_of_snapshot_index [OF n(1), of i] n(3) by (metis image_iff option.distinct(1))
  show "rt (fold_res (check_node nodes) topo ())"
  proof (rule rt_fold)
    fix e u assume "e \<in> set topo"
    then have "map_of nodes (fst e) \<noteq> None" using known by simp
    then show "rt (check_node nodes e u)"
      unfolding check_node_def check_link_def follow_log_def Let_def
      by (cases e) (auto intro!: rt_intros rt_fold rt_at_key)
  qed
next
  show "rt (index_snapshots (ls_epoch (hd snaps)) topo snaps)"
    unfolding index_snapshots_def by (intro rt_fold rt_intros)
qed

lemma load_local_crcs:
  assumes "fold_res (load_local d dir ep) topo (ss, cs, n) = Inr (snaps, crcs, n')"
  shows "\<forall>i \<in> fst ` set topo \<union> fst ` set cs. map_of crcs i \<noteq> None"
  using assms
proof (induction topo arbitrary: ss cs n)
  case Nil
  then show ?case by (auto simp: map_of_eq_None_iff)
next
  case (Cons e topo)
  then obtain st where st: "load_local d dir ep e (ss, cs, n) = Inr st"
      "fold_res (load_local d dir ep) topo st = Inr (snaps, crcs, n')"
    by auto
  have keys: "fst ` set (if map_of cs k = None then om_set k v cs else cs) = insert k (fst ` set cs)" for k v
    by (auto simp: fst_set_om_set map_of_eq_None_iff)
  obtain ss' cs' n'' where s: "st = (ss', cs', n'')" "fst ` set cs' = insert (fst e) (fst ` set cs)"
    using st(1) keys by (cases e) (auto simp: load_local_def simp del: if_split_asm)
  with st Cons.IH show ?case by auto
qed

lemma rt_load_committed:
  assumes "om_wf topo"
  shows "rt (load_committed ep topo config disk)"
proof -
  have "rt (load_local disk dir ep e acc)" for dir e acc
    unfolding load_local_def by (auto intro!: rt_intros split: prod.splits)
  then have locals: "rt (load_locals disk dir ep topo)" for dir
    unfolding load_locals_def by (auto intro!: rt_intros rt_fold rt_validate [OF assms] split: prod.splits)
  have manifest: "rt (manifest_bytes ep topo config crcs)" if "load_locals disk dir ep topo = Inr (snaps, crcs)" for dir snaps crcs
  proof -
    have known: "map_of crcs i \<noteq> None" if "i \<in> fst ` set topo" for i
    proof -
      obtain n where "fold_res (load_local disk dir ep) topo ([], [], 0) = Inr (snaps, crcs, n)"
        using \<open>load_locals disk dir ep topo = Inr (snaps, crcs)\<close> by (auto simp: load_locals_def)
      from load_local_crcs [OF this] that show ?thesis by blast
    qed
    have "rt (put_manifest_node crcs e)" if e: "e \<in> set topo" for e
      unfolding put_manifest_node_def using known [OF imageI [OF e, of fst]]
      by (cases e) (auto simp: list_all_iff put_u32_def intro!: rt_put_all rt_bind rt_at_key)
    moreover have "rt (put_string config)"
      unfolding put_string_def put_blob_def by (auto simp: put_u32_def)
    ultimately show ?thesis
      unfolding manifest_bytes_def seal_def
      by (auto simp: put_counted_def put_u32_def put_u64_def list_all_iff simp del: put_all.simps intro!: rt_intros rt_put_all)
  qed
  show ?thesis
    unfolding load_committed_def using locals manifest
    by (auto simp: epoch_dir_def intro!: rt_intros)
qed

lemma try_epochs_newest:
  assumes "om_wf topo" "sorted_wrt (\<ge>) es" "ep \<in> set es" "load_committed ep topo config disk = Inr x"
  shows "\<exists>e y. ep \<le> e \<and> load_committed e topo config disk = Inr y \<and> try_epochs es topo config disk = Inr y"
  using assms(2,3)
proof (induction es)
  case (Cons e es)
  show ?case
  proof (cases "load_committed e topo config disk")
    case (Inr y)
    then show ?thesis using Cons.prems by auto
  next
    case (Inl z)
    then have "is_runtime_error z" using rt_load_committed [OF assms(1), of e config disk] by (simp add: rt_def)
    moreover have "ep \<in> set es" using Cons.prems(2) Inl assms(4) by auto
    ultimately show ?thesis using Cons Inl by auto
  qed
qed simp

section \<open>Histories of a store\<close>

text \<open>One event on the disk: an operation with whatever the system calls return, or an
  operation killed on its way.\<close>

inductive store_step :: "disk \<Rightarrow> disk \<Rightarrow> bool" where
  saves: "length sfx = 6 \<Longrightarrow> store_step d (snd (save_local io sfx s d))"
| commits: "length sfx = 6 \<Longrightarrow> store_step d (snd (commit io sfx ep topo config d))"
| save_killed: "length sfx = 6 \<Longrightarrow> epoch_dir (ls_epoch s) = Inr dir \<Longrightarrow> encode_local s = Inr b
    \<Longrightarrow> d' \<in> set (write_crashes sfx dir (local_file (ls_node s)) b d) \<Longrightarrow> store_step d d'"
| commit_killed: "length sfx = 6 \<Longrightarrow> epoch_dir ep = Inr dir \<Longrightarrow> load_locals d dir ep topo = Inr (ss, crcs)
    \<Longrightarrow> manifest_bytes ep topo config crcs = Inr b
    \<Longrightarrow> d' \<in> set (write_crashes sfx dir committed_file b d) \<Longrightarrow> store_step d d'"

lemma store_step_extends: "store_step d d' \<Longrightarrow> extends d d'"
  by (induction rule: store_step.induct)
    (auto simp: save_local_def commit_def extends_refl extends_write intro: extends_crash split: sum.splits)

lemma history_extends: "store_step\<^sup>*\<^sup>* d d' \<Longrightarrow> extends d d'"
  by (induction rule: rtranclp_induct) (auto intro: extends_refl extends_trans store_step_extends)

text \<open>A store with one node: its snapshot saved, and committed.\<close>

definition sample_snapshot :: local_snapshot where
  "sample_snapshot = \<lparr>ls_node = 1, ls_epoch = 1, ls_state = [5], ls_received = [], ls_sent = [],
     ls_marker_sequences = [], ls_channels = []\<rparr>"

definition sample_topology :: topology where
  "sample_topology = [(1, [])]"

definition sample_body :: bytes where
  "sample_body = le32 0x53474c31 @ le32 1 @ le64 1 @ le32 1 @ [5] @ le32 0 @ le32 0 @ le32 0 @ le32 0"

definition sample_file :: bytes where
  "sample_file = sample_body @ le32 (crc32c sample_body 0)"

definition sample_disk :: disk where
  "sample_disk = snd (save_local Published ''abcdef'' sample_snapshot [])"

lemma sample_encodes: "encode_local sample_snapshot = Inr sample_file"
  by (simp add: encode_local_def sample_snapshot_def put_u32_le32 put_u64_le64 put_blob_def put_map_def put_counted_def
      seal_def require_def kLimit_def sample_file_def sample_body_def)

lemma sample_names: "epoch_dir 1 = Inr ''epoch-1''" "local_file 1 = ''node-1.snapshot''"
  by code_simp+

lemma sample_disk_eq: "sample_disk = [(''epoch-1'', [(''node-1.snapshot'', sample_file)])]"
proof -
  have "ls_epoch sample_snapshot = 1" "ls_node sample_snapshot = 1" by (simp_all add: sample_snapshot_def)
  then show ?thesis
    by (simp add: sample_disk_def save_local_def sample_encodes sample_names atomic_write_def ensure_directory_def
        look_def put_file_def)
qed

lemma sample_loads:
  "load_locals sample_disk ''epoch-1'' 1 sample_topology = Inr ([sample_snapshot], [(1, crc32c sample_body 0)])"
proof -
  have "length sample_file \<le> kLimit" "take (length sample_file - 4) sample_file = sample_body"
    by (simp_all add: sample_file_def sample_body_def kLimit_def)
  moreover have "decode_local sample_file = Inr sample_snapshot"
    by (rule decode_encode_local [OF sample_encodes]) (simp_all add: sample_snapshot_def snapshot_wf_def)
  moreover have "validate_global [sample_snapshot] sample_topology = Inr ()" by code_simp
  moreover have "length sample_file \<le> 512 * 1024 * 1024" by (simp add: sample_file_def sample_body_def)
  ultimately show ?thesis
    by (simp add: load_locals_def sample_topology_def load_local_def read_snapshot_file_def look_def sample_disk_eq sample_names
        require_def kLoadLimit_def) (simp add: sample_snapshot_def)
qed

section \<open>Properties\<close>

text \<open>C34. On any bytes \<open>DecodeLocal\<close> accepts exactly the files of snapshots. When it returns, the bytes
  are the file of the snapshot it returns and of no other: magic, positive epoch, state, counters with no peer
  twice, markers and channel log as \<open>EncodeLocal\<close> lays them out, nothing after them, and the right checksum. When it
  throws, the bytes are the file of no snapshot, and the exception is a \<open>runtime_error\<close>, which the recovery
  scan catches.\<close>

theorem decode_accepts_exactly_files:
  "case decode_local bs of
     Inl x \<Rightarrow> is_runtime_error x \<and> (\<forall>s. \<not> snapshot_file s bs)
   | Inr s \<Rightarrow> (\<forall>s'. snapshot_file s' bs \<longleftrightarrow> s' = s)"
proof (cases "decode_local bs")
  case (Inl x)
  have "rt (decode_local bs)" by (rule rt_decode_local)
  with Inl show ?thesis by (simp add: rt_def decode_local_iff [symmetric])
next
  case (Inr s)
  then show ?thesis by (auto simp: decode_local_iff [symmetric])
qed

text \<open>C33. \<open>DecodeLocal\<close> reads back every local snapshot of a positive epoch that \<open>EncodeLocal\<close> accepts: state,
  counters, markers and channel log. \<open>EncodeLocal\<close> accepts epoch 0 too, and what it writes then is refused
  as a \<open>zero local epoch\<close>.\<close>

theorem local_snapshot_round_trip:
  assumes "encode_local s = Inr b" "snapshot_wf s"
  shows "decode_local b = (if ls_epoch s = 0 then Inl (RuntimeError ''zero local epoch'') else Inr s)"
proof (cases "ls_epoch s = 0")
  case True
  obtain d where "open_sealed b = Inr (le32 0x53474c31 @ le32 (ls_node s) @ le64 0 @ d)"
    using assms(1) True by (auto simp: encode_local_Inr open_sealed_iff)
  then show ?thesis using True by (simp add: decode_local_def get_u32_append get_u64_append require_def)
qed (simp add: decode_encode_local [OF assms])

theorem local_snapshot_round_trip_witness:
  "\<exists>b c. encode_local sample_snapshot = Inr b \<and> decode_local b = Inr sample_snapshot
     \<and> encode_local (sample_snapshot\<lparr>ls_epoch := 0\<rparr>) = Inr c
     \<and> decode_local c = Inl (RuntimeError ''zero local epoch'')"
proof -
  let ?z = "sample_snapshot\<lparr>ls_epoch := 0\<rparr>"
  have wf: "snapshot_wf sample_snapshot" "snapshot_wf ?z" "ls_epoch sample_snapshot \<noteq> 0" "ls_epoch ?z = 0"
    by (simp_all add: sample_snapshot_def snapshot_wf_def om_wf_def)
  obtain c where c: "encode_local ?z = Inr c"
    by (simp add: encode_local_def sample_snapshot_def put_u32_le32 put_u64_le64 put_blob_def put_map_def put_counted_def
      seal_def require_def kLimit_def)
  show ?thesis
    using local_snapshot_round_trip [OF sample_encodes wf(1)] local_snapshot_round_trip [OF c wf(2)] sample_encodes c wf(3,4)
    by auto
qed

text \<open>C13. Once \<open>Commit\<close> has returned, the committed epoch is permanent: after any later saves and
  commits, failed ones and killed ones included, \<open>LoadCommitted\<close> still returns the same
  validated snapshots, one per node of the topology, and \<open>LoadLatestCommitted\<close> returns those
  of this or of a later committed epoch.\<close>

theorem committed_epoch_survives:
  assumes "om_wf topo" "length sfx = 6" "commit io sfx ep topo config disk0 = (Inr (), disk)"
    and "store_step\<^sup>*\<^sup>* disk disk'"
  shows "\<exists>snaps. load_committed ep topo config disk = Inr snaps \<and> load_committed ep topo config disk' = Inr snaps
      \<and> validate_global snaps topo = Inr () \<and> map ls_node snaps = map fst topo
      \<and> (\<exists>ep' snaps'. ep \<le> ep' \<and> load_committed ep' topo config disk' = Inr snaps'
           \<and> load_latest_committed topo config disk' = Inr snaps')"
proof -
  obtain snaps where snaps: "load_committed ep topo config disk = Inr snaps"
    using commit_loads [OF assms(3,2)] by blast
  note after = load_committed_extends [OF history_extends [OF assms(4)] snaps]
  have "validate_global snaps topo = Inr () \<and> map ls_node snaps = map fst topo"
    using snaps load_locals_Inr [of disk _ ep topo snaps] by (auto simp: load_committed_def)
  with snaps after try_epochs_newest [OF assms(1) sorted_epochs_of committed_in_epochs [OF after] after]
  show ?thesis unfolding load_latest_committed_def by blast
qed

theorem committed_epoch_survives_witness:
  "\<exists>disk snaps. commit Published ''abcdef'' 1 sample_topology ''job'' sample_disk = (Inr (), disk)
     \<and> load_committed 1 sample_topology ''job'' disk = Inr snaps
     \<and> load_committed 1 sample_topology ''job'' (snd (save_local TempUnlinkFails ''ghijkl''
         (sample_snapshot\<lparr>ls_epoch := 2\<rparr>) disk)) = Inr snaps"
proof -
  obtain m where m: "manifest_bytes 1 sample_topology ''job'' [(1, crc32c sample_body 0)] = Inr m"
    by (simp add: manifest_bytes_def sample_topology_def put_u32_le32 put_u64_le64 put_string_def put_blob_def
        put_counted_def put_manifest_node_def at_key_def seal_def require_def kLimit_def)
  have none: "look sample_disk ''epoch-1'' committed_file = None" "map_of sample_disk ''epoch-1'' \<noteq> None"
    by (simp_all add: sample_disk_eq look_def committed_file_def)
  obtain disk where c: "commit Published ''abcdef'' 1 sample_topology ''job'' sample_disk = (Inr (), disk)"
    using none by (simp add: commit_def sample_names sample_loads m atomic_write_def ensure_directory_def)
  have "om_wf sample_topology" by (simp add: sample_topology_def om_wf_def)
  moreover have "store_step\<^sup>*\<^sup>* disk (snd (save_local TempUnlinkFails ''ghijkl'' (sample_snapshot\<lparr>ls_epoch := 2\<rparr>) disk))"
    by (rule r_into_rtranclp, rule saves) simp
  ultimately show ?thesis using committed_epoch_survives [OF _ _ c] c by fastforce
qed

end
