(* ===== verification/Window_Operator.thy ===== *)
theory Window_Operator
  imports Snapshot_Codec Snapshot_Protocol Processor_Recovery
begin

text \<open>
  The windowed operator of a distributed job, \<open>src/src/snapshot/window_operator.{h,cpp}\<close>: it
  decodes the payloads of its inputs, combines their watermarks by minimum, drives a
  \<open>KeyedProcessor\<close>, and captures and restores its whole state as bytes. It is the
  application behind the capture and deliver callbacks of a snapshot participant.
  Its sink calls are the effects of the processor; an exception ends the operator.
\<close>

section \<open>State and construction\<close>

record window_operator =
  wo_config :: processor_config
  wo_window_ms :: int
  wo_slide_ms :: int
  wo_lateness_ms :: int
  wo_watermarks :: "(node_id \<times> timestamp) list"
  wo_processor :: processor
  wo_records :: u64
  wo_touched :: bool

definition operator_config :: "window_assigner \<Rightarrow> duration \<Rightarrow> processor_config" where
  "operator_config a lateness_ms =
     \<lparr>assigner = a, lateness = lateness_ms, checkpoint_dir = [], checkpoint_write_ok = (\<lambda>_ _ _. True)\<rparr>"

definition new_operator :: "node_id list \<Rightarrow> int \<Rightarrow> int \<Rightarrow> int \<Rightarrow> window_operator res" where
  "new_operator inputs window_ms slide_ms lateness_ms =
     bind_res (if inputs = [] \<or> slide_ms < 0
               then Inl (InvalidArgument ''invalid window input/slide configuration'') else Inr ()) (\<lambda>_.
     bind_res (fold_res (\<lambda>i m. if map_of m i = None then Inr (om_set i i64_min m)
                               else Inl (InvalidArgument ''duplicate window input'')) inputs []) (\<lambda>wms.
     bind_res (if slide_ms \<noteq> 0 then sliding_assigner window_ms slide_ms else tumbling_assigner window_ms) (\<lambda>a.
     bind_res (new_processor (operator_config a lateness_ms)) (\<lambda>p.
     Inr \<lparr>wo_config = operator_config a lateness_ms, wo_window_ms = window_ms, wo_slide_ms = slide_ms,
          wo_lateness_ms = lateness_ms, wo_watermarks = wms, wo_processor = p, wo_records = 0,
          wo_touched = False\<rparr>))))"

section \<open>Payloads\<close>

definition data_payload :: "data_record \<Rightarrow> bytes res" where
  "data_payload r =
     put_all [put_u8 1, put_string (key r), put_i64 (val r), put_i64 (event_time r), put_i64 (processing_time r)]"

definition watermark_payload :: "timestamp \<Rightarrow> bytes res" where
  "watermark_payload wm = put_all [put_u8 2, put_i64 wm]"

definition min_watermark :: "(node_id \<times> timestamp) list \<Rightarrow> timestamp" where
  "min_watermark m = fold (\<lambda>(_, v) acc. min acc v) m i64_max"

text \<open>\<open>Apply\<close>: its two branches, and the dispatch.\<close>

definition apply_data :: "bytes \<Rightarrow> window_operator \<Rightarrow> window_operator res" where
  "apply_data d0 o1 =
     bind_res (get_string d0) (\<lambda>(k, d1).
     bind_res (get_i64 d1) (\<lambda>(v, d2).
     bind_res (get_i64 d2) (\<lambda>(et, d3).
     bind_res (get_i64 d3) (\<lambda>(pt, d4).
     bind_res (get_end d4) (\<lambda>_.
     bind_res (if wo_records o1 = u64_max then Inl (OverflowError ''window record count overflow'') else Inr ()) (\<lambda>_.
     bind_res (process_record (wo_config o1) \<lparr>key = k, val = v, event_time = et, processing_time = pt\<rparr>
        (wo_processor o1)) (\<lambda>p.
     Inr (o1\<lparr>wo_processor := p, wo_records := wo_records o1 + 1\<rparr>))))))))"

definition apply_watermark :: "node_id \<Rightarrow> bytes \<Rightarrow> window_operator \<Rightarrow> window_operator res" where
  "apply_watermark input d0 o1 =
     bind_res (get_i64 d0) (\<lambda>(wm, d1).
     bind_res (get_end d1) (\<lambda>_.
     bind_res (at_key (wo_watermarks o1) input) (\<lambda>old.
     bind_res (require (\<not> wm < old) ''network source watermark regressed'') (\<lambda>_.
     (let wms = om_set input wm (wo_watermarks o1) in
      bind_res (process_control (wo_config o1)
          \<lparr>ctype = KWatermark, cwatermark = min_watermark wms, checkpoint_offset = wo_records o1\<rparr> (wo_processor o1)) (\<lambda>p.
      Inr (o1\<lparr>wo_watermarks := wms, wo_processor := p\<rparr>)))))))"

definition apply_payload :: "node_id \<Rightarrow> bytes \<Rightarrow> window_operator \<Rightarrow> window_operator res" where
  "apply_payload input payload oper =
     bind_res (require (map_of (wo_watermarks oper) input \<noteq> None) ''unknown window input'') (\<lambda>_.
     (let o1 = oper\<lparr>wo_touched := True\<rparr> in
      bind_res (get_u8 payload) (\<lambda>(kind, d).
      if kind = 1 then apply_data d o1
      else if kind = 2 then apply_watermark input d o1
      else Inl (RuntimeError ''unknown window input payload''))))"

definition operator_final_flush :: "window_operator \<Rightarrow> window_operator" where
  "operator_final_flush oper = oper\<lparr>wo_processor := final_flush (wo_config oper) (wo_processor oper)\<rparr>"

section \<open>Capture\<close>

definition put_window :: "window \<Rightarrow> bytes res" where
  "put_window w = put_all [put_i64 (wstart w), put_i64 (wend w)]"

definition get_window :: "window get" where
  "get_window bs =
     bind_res (get_i64 bs) (\<lambda>(s, d1).
     bind_res (get_i64 d1) (\<lambda>(e, d2).
     bind_res (require (\<not> (s < 0 \<or> e \<le> s)) ''invalid saved window'') (\<lambda>_.
     Inr (Window s e, d2))))"

definition put_input :: "node_id \<times> timestamp \<Rightarrow> bytes res" where
  "put_input = put_pair put_u32 put_i64"

definition put_pane_entry :: "pane_entry \<Rightarrow> bytes res" where
  "put_pane_entry e =
     put_all [put_string (entry_key e), put_window (entry_window e), put_i64 (entry_sum e), put_u64 (entry_count e)]"

definition operator_bytes :: "window_operator \<Rightarrow> bytes res" where
  "operator_bytes oper =
     (let state = capture (wo_records oper) (wo_processor oper) in
      put_all [put_u32 0x53475731, put_i64 (wo_window_ms oper), put_i64 (wo_slide_ms oper),
        put_i64 (wo_lateness_ms oper), put_u64 (wo_records oper), put_i64 (cd_watermark state),
        put_counted put_input (wo_watermarks oper), put_counted put_pane_entry (cd_panes state),
        put_counted put_window (cd_fired state), put_counted put_window (cd_refired state)])"

definition capture_operator :: "window_operator \<Rightarrow> bytes res \<times> window_operator" where
  "capture_operator oper =
     (let p = wo_processor oper; flushed = oper\<lparr>wo_processor := p\<lparr>effects := effects p @ [Flush]\<rparr>\<rparr>
      in (operator_bytes flushed, flushed))"

section \<open>Restore\<close>

fun get_inputs :: "(node_id \<times> timestamp) list \<Rightarrow> nat \<Rightarrow> (node_id \<times> timestamp) list \<Rightarrow> (node_id \<times> timestamp) list get" where
  "get_inputs known 0 m bs = Inr (m, bs)"
| "get_inputs known (Suc n) m bs =
     bind_res (get_pair get_u32 get_i64 bs) (\<lambda>((k, v), r).
     bind_res (require (\<not> (map_of known k = None \<or> map_of m k \<noteq> None)) ''window snapshot inputs mismatch'') (\<lambda>_.
     get_inputs known n (om_set k v m) r))"

definition get_pane_entry :: "pane_entry get" where
  "get_pane_entry bs =
     bind_res (get_string bs) (\<lambda>(k, d1).
     bind_res (get_window d1) (\<lambda>(w, d2).
     bind_res (get_i64 d2) (\<lambda>(s, d3).
     bind_res (get_u64 d3) (\<lambda>(c, d4).
     Inr (\<lparr>entry_key = k, entry_window = w, entry_sum = s, entry_count = c\<rparr>, d4)))))"

fun get_panes :: "nat \<Rightarrow> pane_entry list \<Rightarrow> pane_entry list get" where
  "get_panes 0 es bs = Inr (es, bs)"
| "get_panes (Suc n) es bs =
     bind_res (get_pane_entry bs) (\<lambda>(e, r).
     bind_res (require (\<not> (entry_count e = 0
         \<or> (entry_key e, entry_window e) \<in> set (map (\<lambda>e. (entry_key e, entry_window e)) es)))
       ''duplicate/empty saved pane'') (\<lambda>_.
     get_panes n (es @ [e]) r))"

definition expect_i64 :: "int \<Rightarrow> bytes \<Rightarrow> bytes res" where
  "expect_i64 v bs =
     bind_res (get_i64 bs) (\<lambda>(x, r).
     bind_res (require (x = v) ''window snapshot configuration mismatch'') (\<lambda>_. Inr r))"

definition decode_operator :: "window_operator \<Rightarrow> bytes \<Rightarrow> (checkpoint_data \<times> (node_id \<times> timestamp) list) res" where
  "decode_operator oper bs =
     bind_res (get_u32 bs) (\<lambda>(magic, d1).
     bind_res (require (magic = 0x53475731) ''window snapshot configuration mismatch'') (\<lambda>_.
     bind_res (expect_i64 (wo_window_ms oper) d1) (\<lambda>d2.
     bind_res (expect_i64 (wo_slide_ms oper) d2) (\<lambda>d3.
     bind_res (expect_i64 (wo_lateness_ms oper) d3) (\<lambda>d4.
     bind_res (get_u64 d4) (\<lambda>(off, d5).
     bind_res (get_i64 d5) (\<lambda>(wm, d6).
     bind_res (get_count 12 d6) (\<lambda>(n, d7).
     bind_res (get_inputs (wo_watermarks oper) (unat n) [] d7) (\<lambda>(restored, d8).
     bind_res (require (length restored = length (wo_watermarks oper)) ''window snapshot input missing'') (\<lambda>_.
     bind_res (require (min_watermark restored = wm) ''inconsistent saved watermark combiner'') (\<lambda>_.
     bind_res (get_count 36 d8) (\<lambda>(pn, d9).
     bind_res (get_panes (unat pn) [] d9) (\<lambda>(panes, d10).
     bind_res (get_counted 16 get_window d10) (\<lambda>(fired, d11).
     bind_res (get_counted 16 get_window d11) (\<lambda>(refired, d12).
     bind_res (get_end d12) (\<lambda>_.
     bind_res (require (set refired \<subseteq> set fired) ''pending re-fire without fired window'') (\<lambda>_.
     Inr (\<lparr>cd_offset = off, cd_watermark = wm, cd_panes = panes, cd_refired = refired, cd_fired = fired\<rparr>,
          restored))))))))))))))))))"

definition restore_operator :: "bytes \<Rightarrow> window_operator \<Rightarrow> window_operator res" where
  "restore_operator bs oper =
     bind_res (require (\<not> wo_touched oper) ''window restore requires fresh operator'') (\<lambda>_.
     bind_res (decode_operator oper bs) (\<lambda>(state, restored).
     Inr (oper\<lparr>wo_processor := Keyed_Processor.restore state (wo_processor oper), wo_watermarks := restored,
               wo_records := cd_offset state, wo_touched := True\<rparr>)))"

section \<open>What the operator keeps\<close>

definition window_good :: "window \<Rightarrow> bool" where
  "window_good w \<longleftrightarrow> 0 \<le> wstart w \<and> wstart w < wend w \<and> wend w \<le> i64_max"

definition panes_good :: "processor \<Rightarrow> bool" where
  "panes_good p \<longleftrightarrow>
     (\<forall>w k q. pane_at (state p) w k = Some q \<longrightarrow> window_good w \<and> pane_count q \<noteq> 0 \<and> in_i64 (pane_sum q))
     \<and> (\<forall>w \<in> set (fired_windows (state p)). \<exists>k q. pane_at (state p) w k = Some q)"

lemma window_good_i64: "window_good w \<Longrightarrow> in_i64 (wstart w) \<and> in_i64 (wend w)"
  by (auto simp: window_good_def in_i64_def i64_nums)

lemma pane_add_good:
  assumes "pane_add (case c of None \<Rightarrow> empty_pane | Some q \<Rightarrow> q) v = Inr (grow c v)"
    and "\<And>q. c = Some q \<Longrightarrow> in_i64 (pane_sum q)" "in_i64 v"
  shows "pane_count (grow c v) \<noteq> 0 \<and> in_i64 (pane_sum (grow c v))"
proof -
  have "unat (pane_count (grow c v)) \<noteq> 0" using pane_add_exact(2) [OF assms(1)] by simp
  moreover have "in_i64 (pane_sum (grow c v))"
    using pane_add_exact(3) [OF assms(1)] assms(2) by (auto simp: empty_pane_def split: option.splits)
  ultimately show ?thesis by auto
qed

lemma record_keeps_panes_good:
  assumes "process_record cfg r p = Inr p'" "processor_inv cfg p" "lawful_assigner (assigner cfg) width"
    and "panes_good p" "in_i64 (val r)"
  shows "panes_good p'"
proof -
  note R = process_record_refines [OF assms(1-3)]
  have at: "pane_at (state p') w k =
      (if key r = k \<and> assigned cfg (event_time r) w \<and> watermark p < deadline (lateness cfg) w
       then Some (grow (pane_at (state p) w k) (val r)) else pane_at (state p) w k)" for w k
    using R(2) [of k w] by (auto simp: cell_of_def cell_record_def split: if_splits)
  have win: "window_good w" if "assigned cfg (event_time r) w" for w
    using that lawful_window [OF assms(3)] by (fastforce simp: assigned_def window_good_def split: sum.splits)
  have fired: "fired_windows (state p') = fired_windows (state p)"
  proof -
    obtain ws s d l where ws: "assign_windows (assigner cfg) (event_time r) = Inr ws"
        "fold_res (process_window cfg (watermark p) r) ws (state p, False, False) = Inr (s, d, l)" "state p' = s"
      using assms(1) by (auto simp: process_record_def)
    then show ?thesis
      using fold_process_window [OF ws(2) lawful_distinct [OF assms(3) ws(1)]] processor_invD(1,3) [OF assms(2)] by simp
  qed
  have "window_good w \<and> pane_count q \<noteq> 0 \<and> in_i64 (pane_sum q)" if "pane_at (state p') w k = Some q" for w k q
  proof (cases "key r = k \<and> assigned cfg (event_time r) w \<and> watermark p < deadline (lateness cfg) w")
    case True
    then have "q = grow (pane_at (state p) w k) (val r)" using that at by simp
    with True pane_add_good [OF R(8) [of w]] win [of w] assms(4,5) show ?thesis by (auto simp: panes_good_def)
  next
    case False
    then show ?thesis using that at [of w k] assms(4) by (auto simp: panes_good_def split: if_splits)
  qed
  moreover have "\<exists>k q. pane_at (state p') w k = Some q" if "w \<in> set (fired_windows (state p'))" for w
    using that fired assms(4) at by (fastforce simp: panes_good_def)
  ultimately show ?thesis by (auto simp: panes_good_def)
qed

lemma watermark_keeps_panes_good:
  assumes "processor_inv cfg p" "panes_good p"
  shows "panes_good (process_watermark cfg wm p)"
proof (cases "watermark p < wm")
  case False
  then show ?thesis using assms(2) by (simp add: process_watermark_unfold(2))
next
  case True
  let ?p = "process_watermark cfg wm p"
  note I = processor_invD [OF assms(1)]
  note C = process_watermark_refines(2) [OF assms(1), of wm]
  have at: "pane_at (state ?p) w k = (if deadline (lateness cfg) w \<le> wm then None else pane_at (state p) w k)" for w k
    using C [of k w] True by (simp add: cell_of_def cell_watermark_def)
  have fired: "set (fired_windows (state ?p)) \<subseteq>
      {w. w \<in> set (fired_windows (state p)) \<or> (\<exists>k q. pane_at (state p) w k = Some q)}
      \<and> (\<forall>w \<in> set (fired_windows (state ?p)). wm < deadline (lateness cfg) w)"
  proof (cases "use_lateness cfg")
    case False
    then have "lateness cfg = 0" using I(2) by (simp add: use_lateness_def)
    then have "fired_windows (state ?p) = []"
      using processor_invD(6) [OF process_watermark_refines(1) [OF assms(1)]] by blast
    then show ?thesis by simp
  next
    case late: True
    note E = after_expiry_effect [OF I(1), where wm = wm]
    have nz: "allowed_lateness (state (after_expiry wm p)) \<noteq> 0" using late E(4) I(3) by (simp add: use_lateness_def)
    note F = refire_all_effect [OF E(1) nz]
    note G = collect_garbage_effect [OF F(1)]
    have "fired_windows (state ?p) = fired_windows (state (collect_garbage (refire_all (after_expiry wm p))))"
      using True late by (simp add: process_watermark_unfold(1) Let_def)
    then show ?thesis
      unfolding G(7) F(6) F(4) F(2) E(6) E(2) E(4) I(3) by (auto simp: G(7) F(6) F(4) F(2) E(6) E(2) E(4) I(3))
  qed
  have "\<exists>k q. pane_at (state ?p) w k = Some q" if "w \<in> set (fired_windows (state ?p))" for w
  proof -
    have "wm < deadline (lateness cfg) w" "\<exists>k q. pane_at (state p) w k = Some q"
      using fired that assms(2) by (auto simp: panes_good_def)
    then show ?thesis using at by (auto simp: not_le)
  qed
  with at assms(2) show ?thesis by (auto simp: panes_good_def split: if_splits)
qed

text \<open>The watermark of the processor is the minimum over the inputs, always.\<close>

definition operator_inv :: "window_operator \<Rightarrow> bool" where
  "operator_inv oper \<longleftrightarrow>
     (\<exists>width. lawful_assigner (assigner (wo_config oper)) width)
     \<and> processor_inv (wo_config oper) (wo_processor oper) \<and> panes_good (wo_processor oper)
     \<and> om_wf (wo_watermarks oper) \<and> wo_watermarks oper \<noteq> [] \<and> (\<forall>(i, v) \<in> set (wo_watermarks oper). in_i64 v)
     \<and> watermark (wo_processor oper) = min_watermark (wo_watermarks oper)"

lemma min_watermark_alt: "min_watermark m = Min (insert i64_max (snd ` set m))"
proof -
  have "fold (\<lambda>(_, v) acc. min acc v) m a = Min (insert a (snd ` set m))" for a
  proof (induction m arbitrary: a)
    case (Cons e m)
    have "Min (insert (min a (snd e)) (snd ` set m)) = Min (insert a (insert (snd e) (snd ` set m)))"
      by (simp add: Min_insert2 Min.insert_not_elem) (metis (no_types, lifting) List.finite_set Min_insert finite_imageI finite_insert insert_not_empty min.assoc Min_singleton insert_commute)
    with Cons show ?case by (simp add: case_prod_unfold)
  qed simp
  then show ?thesis by (simp add: min_watermark_def)
qed

lemma min_watermark_grows:
  assumes "om_wf m" "map_of m i = Some old" "old \<le> wm"
  shows "min_watermark m \<le> min_watermark (om_set i wm m)"
proof -
  have "min_watermark m \<le> v" if "(k, v) \<in> set (om_set i wm m)" for k v
  proof -
    have "\<exists>u. u \<in> snd ` set m \<and> u \<le> v"
      using that assms map_of_SomeD [OF assms(2)] by (force simp: set_om_set)
    then show ?thesis unfolding min_watermark_alt by (meson List.finite_set Min_le_iff finite_imageI finite_insert insertI2 insert_not_empty)
  qed
  moreover have "min_watermark m \<le> i64_max" by (simp add: min_watermark_alt)
  ultimately show ?thesis unfolding min_watermark_alt [of "om_set i wm m"] by (auto simp: image_iff)
qed

lemma get_i64_range: "get_i64 bs = Inr (x, r) \<Longrightarrow> in_i64 x"
  by (auto simp: get_i64_def)

definition same_shape :: "window_operator \<Rightarrow> window_operator \<Rightarrow> bool" where
  "same_shape a b \<longleftrightarrow> wo_config a = wo_config b \<and> wo_window_ms a = wo_window_ms b \<and> wo_slide_ms a = wo_slide_ms b
     \<and> wo_lateness_ms a = wo_lateness_ms b \<and> fst ` set (wo_watermarks a) = fst ` set (wo_watermarks b)"

lemma same_shape_trans: "same_shape a b \<Longrightarrow> same_shape b c \<Longrightarrow> same_shape a c"
  by (simp add: same_shape_def)

lemma apply_data_inv:
  assumes "apply_data d oper = Inr o'" "operator_inv oper"
  shows "operator_inv o' \<and> same_shape oper o'"
proof -
  obtain r p where r: "process_record (wo_config oper) r (wo_processor oper) = Inr p" "in_i64 (val r)"
      "o' = oper\<lparr>wo_processor := p, wo_records := wo_records oper + 1\<rparr>"
    using assms(1) get_i64_range by (fastforce simp: apply_data_def split: if_splits)
  obtain width where w: "lawful_assigner (assigner (wo_config oper)) width" using assms(2) by (auto simp: operator_inv_def)
  have inv: "processor_inv (wo_config oper) (wo_processor oper)" "panes_good (wo_processor oper)"
    using assms(2) by (simp_all add: operator_inv_def)
  note R = process_record_refines [OF r(1) inv(1) w] record_keeps_panes_good [OF r(1) inv(1) w inv(2) r(2)]
  with assms(2) r(3) show ?thesis by (auto simp: operator_inv_def same_shape_def)
qed

lemma process_watermark_watermark:
  assumes "processor_inv cfg p"
  shows "watermark (process_watermark cfg wm p) = max (watermark p) wm"
proof -
  have "watermark (process_watermark cfg wm p) = c_wm (cell_of (process_watermark cfg wm p) [] (Window 0 0))"
    by (simp add: cell_of_def)
  also have "\<dots> = max (watermark p) wm"
    unfolding process_watermark_refines(2) [OF assms] by (simp add: cell_of_def cell_watermark_def)
  finally show ?thesis .
qed

lemma om_set_not_Nil [simp]: "om_set k v m \<noteq> []"
  by (cases m) (auto split: if_splits)

lemma apply_watermark_inv:
  assumes "apply_watermark i d oper = Inr o'" "operator_inv oper"
  shows "operator_inv o' \<and> same_shape oper o'"
proof -
  obtain wm old where a: "map_of (wo_watermarks oper) i = Some old" "old \<le> wm" "in_i64 wm"
      "o' = oper\<lparr>wo_watermarks := om_set i wm (wo_watermarks oper),
         wo_processor := process_watermark (wo_config oper) (min_watermark (om_set i wm (wo_watermarks oper))) (wo_processor oper)\<rparr>"
    using assms(1) get_i64_range by (fastforce simp: apply_watermark_def Let_def act_simps process_control_def not_less)
  let ?m = "om_set i wm (wo_watermarks oper)"
  have inv: "processor_inv (wo_config oper) (wo_processor oper)" "panes_good (wo_processor oper)" "om_wf (wo_watermarks oper)"
    using assms(2) by (simp_all add: operator_inv_def)
  have "fst ` set ?m = fst ` set (wo_watermarks oper)"
    using map_of_SomeD [OF a(1)] by (force simp: fst_set_om_set)
  moreover have "\<forall>(k, v) \<in> set ?m. in_i64 v"
    using assms(2) a(3) inv(3) by (auto simp: operator_inv_def set_om_set)
  moreover have "max (watermark (wo_processor oper)) (min_watermark ?m) = min_watermark ?m"
    using min_watermark_grows [OF inv(3) a(1,2)] assms(2) by (simp add: operator_inv_def)
  moreover have "?m \<noteq> []" by simp
  ultimately show ?thesis
    using a(4) assms(2) process_watermark_refines(1) [OF inv(1)] watermark_keeps_panes_good [OF inv(1,2)]
      process_watermark_watermark [OF inv(1)] om_wf_set [OF inv(3)]
    by (auto simp: operator_inv_def same_shape_def)
qed

fun apply_all :: "(node_id \<times> bytes) list \<Rightarrow> window_operator \<Rightarrow> window_operator res" where
  "apply_all [] oper = Inr oper"
| "apply_all ((i, b) # ms) oper = bind_res (apply_payload i b oper) (apply_all ms)"

lemma operator_inv_touched [simp]: "operator_inv (oper\<lparr>wo_touched := t\<rparr>) = operator_inv oper"
  by (simp add: operator_inv_def)

lemma same_shape_touched [simp]: "same_shape (oper\<lparr>wo_touched := t\<rparr>) o' = same_shape oper o'"
  by (simp add: same_shape_def)

lemma apply_payload_inv:
  assumes "apply_payload i b oper = Inr o'" "operator_inv oper"
  shows "operator_inv o' \<and> same_shape oper o'"
  using assms apply_data_inv [of _ "oper\<lparr>wo_touched := True\<rparr>"] apply_watermark_inv [of i _ "oper\<lparr>wo_touched := True\<rparr>"]
  by (auto simp: apply_payload_def Let_def split: if_splits)

text \<open>
  The pane maps and window sets of the processor are unordered: every payload may find them in
  another order.
\<close>

definition reordered_operator :: "window_operator \<Rightarrow> window_operator \<Rightarrow> bool" where
  "reordered_operator a b \<longleftrightarrow> (\<exists>p. reordered (wo_processor a) p \<and> b = a\<lparr>wo_processor := p\<rparr>)"

definition same_operator :: "window_operator \<Rightarrow> window_operator \<Rightarrow> bool" where
  "same_operator a b \<longleftrightarrow> (\<exists>p. same_processor (wo_processor a) p \<and> b = a\<lparr>wo_processor := p\<rparr>)"

inductive any_order_apply :: "(node_id \<times> bytes) list \<Rightarrow> window_operator \<Rightarrow> window_operator res \<Rightarrow> bool" where
  payload_end: "reordered_operator a b \<Longrightarrow> any_order_apply [] a (Inr b)"
| payload_next: "reordered_operator a b \<Longrightarrow> apply_payload i x b = Inr a' \<Longrightarrow> any_order_apply ms a' r \<Longrightarrow>
    any_order_apply ((i, x) # ms) a r"
| payload_throw: "reordered_operator a b \<Longrightarrow> apply_payload i x b = Inl e \<Longrightarrow> any_order_apply ((i, x) # ms) a (Inl e)"

inductive_simps any_order_apply_Nil: "any_order_apply [] a r"
inductive_simps any_order_apply_Cons: "any_order_apply ((i, x) # ms) a r"

lemma any_order_apply_step:
  assumes "any_order_apply ((i, x) # ms) a r"
  obtains b where "reordered_operator a b" "case apply_payload i x b of Inl e \<Rightarrow> r = Inl e | Inr a' \<Rightarrow> any_order_apply ms a' r"
  using assms unfolding any_order_apply_Cons by force

lemma reordered_operator_refl [simp]: "reordered_operator a a"
  by (auto simp: reordered_operator_def intro: exI [of _ "wo_processor a"])

lemma same_operator_refl [simp]: "same_operator a a"
  by (auto simp: same_operator_def intro: exI [of _ "wo_processor a"])

lemma apply_all_any_order: "any_order_apply ms a (apply_all ms a)"
proof (induction ms a rule: apply_all.induct)
  case (2 i x ms a)
  then show ?case
    by (cases "apply_payload i x a") (auto intro: payload_throw payload_next reordered_operator_refl)
qed (simp add: payload_end)

lemma same_operator_reordered:
  "same_operator a b \<Longrightarrow> reordered_operator a a' \<Longrightarrow> reordered_operator b b' \<Longrightarrow> same_operator a' b'"
  using same_processor_reordered by (fastforce simp: same_operator_def reordered_operator_def)

lemma reordered_operator_inv:
  assumes "reordered_operator a b" "operator_inv a"
  shows "operator_inv b \<and> same_shape a b"
proof -
  obtain p where p: "reordered (wo_processor a) p" "b = a\<lparr>wo_processor := p\<rparr>"
    using assms(1) by (auto simp: reordered_operator_def)
  obtain s where s: "same_contents (state (wo_processor a)) s" "p = (wo_processor a)\<lparr>state := s\<rparr>"
    using p(1) by (auto simp: reordered_def)
  have inv: "processor_inv (wo_config a) (wo_processor a)" "panes_good (wo_processor a)"
    using assms(2) by (simp_all add: operator_inv_def)
  have "panes_good p"
    using inv(2) same_contentsD(2) [OF s(1) processor_invD(1) [OF inv(1)]] same_contents_sets(1) [OF s(1)]
    by (simp add: panes_good_def s(2))
  then show ?thesis
    using assms(2) p s(2) processor_inv_reordered [OF p(1) inv(1)] by (simp add: operator_inv_def same_shape_def)
qed

lemma any_order_apply_inv:
  assumes "any_order_apply ms a (Inr b)" "operator_inv a"
  shows "operator_inv b \<and> same_shape a b"
  using assms
proof (induction ms arbitrary: a)
  case Nil
  then show ?case using reordered_operator_inv by (auto simp: any_order_apply_Nil)
next
  case (Cons m ms)
  obtain i x where m: "m = (i, x)" by (cases m)
  obtain c where c: "reordered_operator a c" "case apply_payload i x c of Inl e \<Rightarrow> Inr b = Inl e | Inr a' \<Rightarrow> any_order_apply ms a' (Inr b)"
    using any_order_apply_step Cons.prems(1) unfolding m .
  then obtain a' where a': "apply_payload i x c = Inr a'" "any_order_apply ms a' (Inr b)" by (auto split: sum.splits)
  note R = reordered_operator_inv [OF c(1) Cons.prems(2)]
  then have "operator_inv a' \<and> same_shape a a'" using apply_payload_inv [OF a'(1)] same_shape_trans by blast
  then show ?case using Cons.IH [OF a'(2)] same_shape_trans by blast
qed

lemma rel_bind:
  "rel_sum (=) R m n \<Longrightarrow> (\<And>x y. R x y \<Longrightarrow> rel_sum (=) S (f x) (g y)) \<Longrightarrow> rel_sum (=) S (bind_res m f) (bind_res n g)"
  by (auto simp: rel_sum.simps [of _ _ m n])

lemmas rel_bind_same = rel_bind [OF sum.rel_refl [of "(=)" "(=)", OF refl refl]]

lemma same_operator_alt:
  "same_operator a b \<longleftrightarrow> b = a\<lparr>wo_processor := wo_processor b\<rparr> \<and> same_processor (wo_processor a) (wo_processor b)"
  by (auto simp: same_operator_def)

lemma apply_payload_same:
  assumes "same_operator a b" "operator_inv a"
  shows "rel_sum (=) same_operator (apply_payload i x a) (apply_payload i x b)"
proof -
  obtain q where q: "same_processor (wo_processor a) q" "b = a\<lparr>wo_processor := q\<rparr>"
    using assms(1) by (auto simp: same_operator_def)
  have inv: "processor_inv (wo_config a) (wo_processor a)" using assms(2) by (simp add: operator_inv_def)
  note R = process_record_same [OF q(1) processor_invD(1) [OF inv]] and W = process_watermark_same [OF q(1) inv]
  have "rel_sum (=) same_operator (apply_data d (a\<lparr>wo_touched := True\<rparr>)) (apply_data d (b\<lparr>wo_touched := True\<rparr>))" for d
    unfolding apply_data_def q(2) by (auto simp: same_operator_alt intro!: rel_bind_same rel_bind [OF R])
  moreover have "rel_sum (=) same_operator (apply_watermark i d (a\<lparr>wo_touched := True\<rparr>)) (apply_watermark i d (b\<lparr>wo_touched := True\<rparr>))" for d
    unfolding apply_watermark_def q(2) using W by (auto simp: Let_def process_control_def same_operator_alt intro!: rel_bind_same)
  ultimately show ?thesis
    unfolding apply_payload_def by (auto simp: q(2) Let_def intro!: rel_bind_same)
qed

lemma any_order_apply_agree:
  assumes "any_order_apply ms a x" "any_order_apply ms b y" "same_operator a b" "operator_inv a"
  shows "rel_sum (=) same_operator x y"
  using assms
proof (induction ms arbitrary: a b)
  case Nil
  then show ?case using same_operator_reordered by (auto simp: any_order_apply_Nil)
next
  case (Cons m ms)
  obtain i v where m: "m = (i, v)" by (cases m)
  obtain a1 where a1: "reordered_operator a a1" "case apply_payload i v a1 of Inl e \<Rightarrow> x = Inl e | Inr a' \<Rightarrow> any_order_apply ms a' x"
    using any_order_apply_step Cons.prems(1) unfolding m .
  obtain b1 where b1: "reordered_operator b b1" "case apply_payload i v b1 of Inl e \<Rightarrow> y = Inl e | Inr a' \<Rightarrow> any_order_apply ms a' y"
    using any_order_apply_step Cons.prems(2) unfolding m .
  have inv: "operator_inv a1" using reordered_operator_inv [OF a1(1) Cons.prems(4)] by simp
  have step: "rel_sum (=) same_operator (apply_payload i v a1) (apply_payload i v b1)"
    by (rule apply_payload_same [OF same_operator_reordered [OF Cons.prems(3) a1(1) b1(1)] inv])
  show ?case
  proof (cases "apply_payload i v a1")
    case (Inl e)
    then show ?thesis using step a1(2) b1(2) by (auto simp: rel_sum.simps)
  next
    case (Inr a')
    then obtain b' where b': "apply_payload i v b1 = Inr b'" "same_operator a' b'" using step by (auto simp: rel_sum.simps)
    then show ?thesis using Cons.IH [of a' b'] a1(2) b1(2) Inr apply_payload_inv [OF Inr inv] by simp
  qed
qed

lemma operator_flush_same:
  assumes "same_operator a b" "operator_inv a"
  shows "same_operator (operator_final_flush a) (operator_final_flush b)"
proof -
  obtain q where q: "same_processor (wo_processor a) q" "b = a\<lparr>wo_processor := q\<rparr>"
    using assms(1) by (auto simp: same_operator_def)
  have "processor_inv (wo_config a) (wo_processor a)" using assms(2) by (simp add: operator_inv_def)
  from final_flush_same [OF q(1) this] show ?thesis by (simp add: same_operator_alt operator_final_flush_def q(2))
qed

lemma more_calls_inv: "processor_inv cfg p \<Longrightarrow> processor_inv cfg (p\<lparr>effects := effects p @ es\<rparr>)"
  unfolding processor_inv_def rows_of_def by simp

lemma new_operator_inv:
  assumes "new_operator inputs w s l = Inr o0"
  shows "operator_inv o0" "new_processor (wo_config o0) = Inr (wo_processor o0)" "wo_window_ms o0 = w" "wo_slide_ms o0 = s"
    "wo_lateness_ms o0 = l" "\<not> wo_touched o0"
proof -
  obtain m a p where o0: "inputs \<noteq> []" "fold_res (\<lambda>i m. if map_of m i = None then Inr (om_set i i64_min m)
        else Inl (InvalidArgument ''duplicate window input'')) inputs [] = Inr m"
      "(if s \<noteq> 0 then sliding_assigner w s else tumbling_assigner w) = Inr a" "new_processor (operator_config a l) = Inr p"
      "o0 = \<lparr>wo_config = operator_config a l, wo_window_ms = w, wo_slide_ms = s, wo_lateness_ms = l,
         wo_watermarks = m, wo_processor = p, wo_records = 0, wo_touched = False\<rparr>"
    using assms by (auto simp: new_operator_def split: if_splits)
  show "new_processor (wo_config o0) = Inr (wo_processor o0)" "wo_window_ms o0 = w" "wo_slide_ms o0 = s"
    "wo_lateness_ms o0 = l" "\<not> wo_touched o0" using o0 by simp_all
  have "\<exists>width. lawful_assigner a width"
    using o0(3) tumbling.constructed_lawful sliding.constructed_lawful [of "(w, s)"] by (auto split: if_splits)
  have wms: "om_wf n' \<and> (\<forall>(k, v) \<in> set n'. v = i64_min) \<and> (n \<noteq> [] \<or> ins \<noteq> [] \<longrightarrow> n' \<noteq> [])"
    if "fold_res (\<lambda>i m. if map_of m i = None then Inr (om_set i i64_min m)
        else Inl (InvalidArgument ''duplicate window input'')) ins n = Inr n'"
      "om_wf n" "\<forall>(k, v) \<in> set n. v = i64_min" for ins and n n' :: "(node_id \<times> timestamp) list"
    using that
  proof (induction ins arbitrary: n)
    case (Cons i ins)
    have "\<forall>(k, v) \<in> set (om_set i i64_min n). v = i64_min" using Cons.prems(2,3) by (auto simp: set_om_set)
    with Cons.IH [of "om_set i i64_min n"] Cons.prems(1) om_wf_set [OF Cons.prems(2)] show ?case
      by (simp split: if_splits)
  qed simp
  have m: "om_wf m" "\<forall>(k, v) \<in> set m. v = i64_min" "m \<noteq> []" using wms [OF o0(2)] o0(1) by auto
  have "snd ` set m = {i64_min}" using m(2,3) by (cases m) force+
  then have "min_watermark m = i64_min" by (simp add: min_watermark_alt i64_nums)
  moreover have "panes_good p" "watermark p = i64_min"
    using new_processor_shape [OF o0(4)] by (simp_all add: panes_good_def pane_at_def empty_state_def wm_initial_def)
  moreover have "\<forall>(k, v) \<in> set m. in_i64 v" using m(2) by (auto simp: in_i64_def i64_nums)
  moreover have "assigner (operator_config a l) = a" by (simp add: operator_config_def)
  ultimately show "operator_inv o0"
    using o0(5) m(1,3) \<open>\<exists>width. lawful_assigner a width\<close> new_processor_inv(1) [OF o0(4)]
    by (simp add: operator_inv_def)
qed

section \<open>Reading a capture back\<close>

interpretation input_field: two_fields put_u32 get_u32 "\<lambda>_. True" 4 put_i64 get_i64 in_i64 8
  by unfold_locales

interpretation inputs: field_codec put_input "get_pair get_u32 get_i64" "\<lambda>x. in_i64 (snd x)" 12
  using input_field.pair.field_codec_axioms by (simp add: put_input_def)

interpretation win: field_codec put_window get_window window_good 16
proof
  show "get_window (b @ r) = Inr (w, r)" if p: "put_window w = Inr b" and g: "window_good w" for w b r
  proof -
    obtain c d where "put_i64 (wstart w) = Inr c" "put_i64 (wend w) = Inr d" "b = c @ d"
      using p by (auto simp: put_window_def)
    with g window_good_i64 [OF g] show ?thesis
      by (auto simp: get_window_def i64.put_get require_def window_good_def)
  qed
  show "16 \<le> length b" if "put_window w = Inr b" for w b
    using that by (auto simp: put_window_def dest!: i64.put_least)
qed

definition entry_good :: "pane_entry \<Rightarrow> bool" where
  "entry_good e \<longleftrightarrow> window_good (entry_window e) \<and> in_i64 (entry_sum e) \<and> entry_count e \<noteq> 0"

interpretation pane_field: field_codec put_pane_entry get_pane_entry entry_good 36
proof
  show "get_pane_entry (b @ r) = Inr (e, r)" if p: "put_pane_entry e = Inr b" and g: "entry_good e" for e b r
  proof -
    obtain k w s c where "put_string (entry_key e) = Inr k" "put_window (entry_window e) = Inr w"
        "put_i64 (entry_sum e) = Inr s" "put_u64 (entry_count e) = Inr c" "b = k @ w @ s @ c"
      using p by (auto simp: put_pane_entry_def)
    with g show ?thesis
      by (simp add: get_pane_entry_def str.put_get win.put_get i64.put_get u64.put_get entry_good_def)
  qed
  show "36 \<le> length b" if "put_pane_entry e = Inr b" for e b
    using that by (auto simp: put_pane_entry_def dest!: str.put_least win.put_least i64.put_least u64.put_least)
qed

lemma get_inputs_many:
  assumes "get_many (get_pair get_u32 get_i64) (length m) bs = Inr (m, r)" "om_wf (a @ m)"
    and "fst ` set m \<subseteq> fst ` set known"
  shows "get_inputs known (length m) a bs = Inr (a @ m, r)"
  using assms
proof (induction m arbitrary: a bs)
  case (Cons e m)
  obtain k v where e: "e = (k, v)" by (cases e)
  have less: "\<And>x. x \<in> set a \<Longrightarrow> fst x < k" using Cons.prems(2) e by (auto simp: om_wf_def sorted_wrt_append)
  then have "map_of a k = None" by (force simp: map_of_eq_None_iff)
  moreover have "om_set k v a = a @ [(k, v)]" by (rule om_set_last) (use less in blast)
  moreover have "map_of known k \<noteq> None" using Cons.prems(3) e by (auto simp: map_of_eq_None_iff)
  moreover obtain t where "get_pair get_u32 get_i64 bs = Inr ((k, v), t)"
      "get_many (get_pair get_u32 get_i64) (length m) t = Inr (m, r)"
    using Cons.prems(1) e by auto
  ultimately show ?case
    using Cons.prems(2,3) Cons.IH [of t "a @ [(k, v)]"] by (simp add: e require_def)
qed simp

lemma get_panes_many:
  assumes "get_many get_pane_entry (length es) bs = Inr (es, r)" "list_all entry_good es"
    and "distinct (map (\<lambda>e. (entry_key e, entry_window e)) (a @ es))"
  shows "get_panes (length es) a bs = Inr (a @ es, r)"
  using assms
proof (induction es arbitrary: a bs)
  case (Cons e es)
  obtain t where t: "get_pane_entry bs = Inr (e, t)" "get_many get_pane_entry (length es) t = Inr (es, r)"
    using Cons.prems(1) by auto
  have "get_panes (length es) (a @ [e]) t = Inr ((a @ [e]) @ es, r)"
    using Cons.IH [of t "a @ [e]"] t(2) Cons.prems(2,3) by simp
  moreover have "entry_count e \<noteq> 0" "(entry_key e, entry_window e) \<notin> set (map (\<lambda>e. (entry_key e, entry_window e)) a)"
    using Cons.prems(2,3) by (auto simp: entry_good_def)
  ultimately show ?case using t(1) by (simp add: require_def)
qed simp

text \<open>A loop that checks as it reads agrees with reading first, when every check passes.\<close>

lemma counted_split:
  assumes "get_counted k g bs = Inr (xs, r)"
  obtains n t where "get_count k bs = Inr (n, t)" "length xs = unat n" "get_many g (length xs) t = Inr (xs, r)"
proof -
  obtain n t where n: "get_count k bs = Inr (n, t)" "get_many g (unat n) t = Inr (xs, r)"
    using assms by (auto simp: get_counted_def)
  moreover have "length xs = unat n" using get_many_length [OF n(2)] .
  ultimately show thesis using that by simp
qed

lemma captured_panes:
  assumes "kws_wf (state p)" "panes_good p"
  shows "list_all entry_good (cd_panes (capture off p))"
    and "distinct (map (\<lambda>e. (entry_key e, entry_window e)) (cd_panes (capture off p)))"
proof -
  have "window_good w \<and> in_i64 (pane_sum q) \<and> pane_count q \<noteq> 0" if "(k, w, q) \<in> set (each_pane (state p))" for k w q
    using that each_pane_at [OF assms(1)] assms(2) by (simp add: panes_good_def)
  then show "list_all entry_good (cd_panes (capture off p))"
    by (fastforce simp: list_all_iff capture_def entry_good_def)
  have "distinct (map (\<lambda>(k, w, q). (k, w)) (concat (map (\<lambda>(w, m). map (\<lambda>(k, q). (k, w, q)) m) ws)))"
    if "om_wf ws" "\<forall>(w, m) \<in> set ws. um_wf m" for ws :: "(window \<times> pane_map) list"
    using that
  proof (induction ws)
    case (Cons e ws)
    obtain w m where e: "e = (w, m)" by (cases e)
    have "distinct (map (\<lambda>(k, w, q). (k, w)) (map (\<lambda>(k, q). (k, w, q)) m))"
      using Cons.prems(2) e by (simp add: um_wf_def distinct_map comp_def case_prod_unfold inj_on_def)
    moreover have "w \<notin> fst ` set ws" using Cons.prems(1) e by (auto simp: om_wf_Cons)
    ultimately show ?case using Cons e by (auto simp: om_wf_Cons)
  qed simp
  from this [of "windows (state p)"] show "distinct (map (\<lambda>e. (entry_key e, entry_window e)) (cd_panes (capture off p)))"
    using assms(1) by (auto simp: kws_wf_def capture_def each_pane_def comp_def case_prod_unfold)
qed

lemma counted_small:
  assumes "field_codec put get ok least" "put_counted put xs = Inr b" "length b < 2 ^ 32" "0 < least"
  shows "length xs < 2 ^ 32"
proof -
  obtain c where "put_all (map put xs) = Inr c" "b = le32 (of_nat (length xs)) @ c"
    using assms(2) by (auto simp: put_counted_def put_u32_le32)
  then have "least * length xs \<le> length b" using field_codec.many_length [OF assms(1)] by fastforce
  moreover have "length xs \<le> least * length xs" using assms(4) by simp
  ultimately show ?thesis using assms(3) by linarith
qed

lemmas counted_fits =
  counted_small [OF inputs.field_codec_axioms] counted_small [OF pane_field.field_codec_axioms]
  counted_small [OF win.field_codec_axioms]

text \<open>The window list of a capture, the pane list and the input list, each read back in front of any rest.\<close>

lemma read_inputs:
  assumes "put_counted put_input m = Inr b" "length b < 2 ^ 32" "om_wf m" "\<forall>(k, v) \<in> set m. in_i64 v"
    and "fst ` set m = fst ` set known"
  obtains n t where "get_count 12 (b @ r) = Inr (n, t)" "get_inputs known (unat n) [] t = Inr (m, r)"
proof -
  have "get_counted 12 (get_pair get_u32 get_i64) (b @ r) = Inr (m, r)"
    using inputs.counted_round [OF assms(1)] counted_fits(1) [OF assms(1,2)] assms(4)
    by (auto simp: list_all_iff case_prod_unfold)
  then obtain n t where n: "get_count 12 (b @ r) = Inr (n, t)" "length m = unat n"
      "get_many (get_pair get_u32 get_i64) (length m) t = Inr (m, r)"
    by (rule counted_split)
  with get_inputs_many [OF n(3), of "[]" known] assms(3,5) show thesis by (intro that) auto
qed

lemma read_panes:
  assumes "put_counted put_pane_entry es = Inr b" "length b < 2 ^ 32" "list_all entry_good es"
    and "distinct (map (\<lambda>e. (entry_key e, entry_window e)) es)"
  obtains n t where "get_count 36 (b @ r) = Inr (n, t)" "get_panes (unat n) [] t = Inr (es, r)"
proof -
  have "get_counted 36 get_pane_entry (b @ r) = Inr (es, r)"
    using pane_field.counted_round [OF assms(1,3)] counted_fits(2) [OF assms(1,2)] by simp
  then obtain n t where n: "get_count 36 (b @ r) = Inr (n, t)" "length es = unat n"
      "get_many get_pane_entry (length es) t = Inr (es, r)"
    by (rule counted_split)
  with get_panes_many [OF n(3) assms(3), of "[]"] assms(4) show thesis by (intro that) auto
qed

lemma read_windows:
  assumes "put_counted put_window ws = Inr b" "length b < 2 ^ 32" "\<forall>w \<in> set ws. window_good w"
  shows "get_counted 16 get_window (b @ r) = Inr (ws, r)"
  using win.counted_round [OF assms(1)] counted_fits(3) [OF assms(1,2)] assms(3) by (simp add: list_all_iff)

lemma expect_i64_append: "put_i64 v = Inr b \<Longrightarrow> in_i64 v \<Longrightarrow> expect_i64 v (b @ r) = Inr r"
  by (simp add: expect_i64_def i64.put_get require_def)

lemma om_wf_same_length: "om_wf a \<Longrightarrow> om_wf b \<Longrightarrow> fst ` set a = fst ` set b \<Longrightarrow> length a = length b"
  by (metis distinct_card length_map list.set_map om_wf_distinct)

lemma min_watermark_i64:
  assumes "\<forall>(k, v) \<in> set m. in_i64 v"
  shows "in_i64 (min_watermark m)"
proof -
  have "min_watermark m \<in> insert i64_max (snd ` set m)" unfolding min_watermark_alt by (rule Min_in) auto
  with assms show ?thesis by (auto simp: in_i64_def i64_nums)
qed

lemma decode_captured:
  assumes "operator_bytes oper = Inr b" "length b < 2 ^ 32" "operator_inv oper" "same_shape o0 oper"
    and "in_i64 (wo_window_ms oper)" "in_i64 (wo_slide_ms oper)" "in_i64 (wo_lateness_ms oper)" "operator_inv o0"
  shows "decode_operator o0 b = Inr (capture (wo_records oper) (wo_processor oper), wo_watermarks oper)"
proof -
  let ?p = "wo_processor oper" and ?s = "capture (wo_records oper) (wo_processor oper)"
  have wf: "kws_wf (state ?p)" "panes_good ?p" "om_wf (wo_watermarks oper)"
      "\<forall>(k, v) \<in> set (wo_watermarks oper). in_i64 v" "watermark ?p = min_watermark (wo_watermarks oper)"
    using assms(3) by (auto simp: operator_inv_def dest: processor_invD)
  obtain w s l c wm i ps fs rs where parts: "put_i64 (wo_window_ms oper) = Inr w" "put_i64 (wo_slide_ms oper) = Inr s"
      "put_i64 (wo_lateness_ms oper) = Inr l" "put_u64 (wo_records oper) = Inr c" "put_i64 (cd_watermark ?s) = Inr wm"
      "put_counted put_input (wo_watermarks oper) = Inr i" "put_counted put_pane_entry (cd_panes ?s) = Inr ps"
      "put_counted put_window (cd_fired ?s) = Inr fs" "put_counted put_window (cd_refired ?s) = Inr rs"
      "b = le32 0x53475731 @ w @ s @ l @ c @ wm @ i @ ps @ fs @ rs"
    using assms(1) by (auto simp: operator_bytes_def Let_def put_u32_le32)
  have short: "length i < 2 ^ 32" "length ps < 2 ^ 32" "length fs < 2 ^ 32" "length rs < 2 ^ 32"
    using assms(2) parts(10) by simp_all
  have good: "\<forall>w \<in> set (cd_fired ?s). window_good w" "\<forall>w \<in> set (cd_refired ?s). window_good w"
    using wf(2) kws_wfD(4) [OF wf(1)] by (fastforce simp: panes_good_def capture_def)+
  have shape: "wo_window_ms o0 = wo_window_ms oper" "wo_slide_ms o0 = wo_slide_ms oper"
      "wo_lateness_ms o0 = wo_lateness_ms oper" "fst ` set (wo_watermarks oper) = fst ` set (wo_watermarks o0)"
    using assms(4) by (simp_all add: same_shape_def)
  have wm: "cd_watermark ?s = watermark ?p" "cd_offset ?s = wo_records oper" "set (cd_refired ?s) \<subseteq> set (cd_fired ?s)"
    using kws_wfD(4) [OF wf(1)] by (simp_all add: capture_def)
  obtain n t where n: "get_count 12 (i @ ps @ fs @ rs) = Inr (n, t)"
      "get_inputs (wo_watermarks o0) (unat n) [] t = Inr (wo_watermarks oper, ps @ fs @ rs)"
    using read_inputs [OF parts(6) short(1) wf(3,4) shape(4)] .
  obtain n' t' where n': "get_count 36 (ps @ fs @ rs) = Inr (n', t')"
      "get_panes (unat n') [] t' = Inr (cd_panes ?s, fs @ rs)"
    using read_panes [OF parts(7) short(2) captured_panes [OF wf(1,2)]] .
  have "length (wo_watermarks oper) = length (wo_watermarks o0)"
    using assms(8) wf(3) shape(4) by (intro om_wf_same_length) (auto simp: operator_inv_def)
  moreover have "in_i64 (cd_watermark ?s)" unfolding wm(1) wf(5) by (rule min_watermark_i64 [OF wf(4)])
  ultimately show ?thesis
    using n n' assms(5-7) shape(1-3) wf(5) wm read_windows [OF parts(8) short(3) good(1), of rs]
      read_windows [OF parts(9) short(4) good(2), of "[]"]
    by (simp add: decode_operator_def parts(10) get_u32_append expect_i64_append [OF parts(1)] expect_i64_append [OF parts(2)]
        expect_i64_append [OF parts(3)] u64.put_get [OF parts(4)] i64.put_get [OF parts(5)] require_def get_end_def)
qed

section \<open>A restored operator continues as the original\<close>

definition op_with_history :: "effect list \<Rightarrow> processor_stats \<Rightarrow> window_operator \<Rightarrow> window_operator" where
  "op_with_history es st oper = oper\<lparr>wo_processor := with_history es st (wo_processor oper)\<rparr>"

lemma op_with_history_sel [simp]:
  "wo_config (op_with_history es st oper) = wo_config oper" "wo_watermarks (op_with_history es st oper) = wo_watermarks oper"
  "wo_records (op_with_history es st oper) = wo_records oper"
  "wo_processor (op_with_history es st oper) = with_history es st (wo_processor oper)"
  "(op_with_history es st oper)\<lparr>wo_touched := t\<rparr> = op_with_history es st (oper\<lparr>wo_touched := t\<rparr>)"
  by (simp_all add: op_with_history_def)

lemma bind_res_cong_right: "(\<And>x. f x = g x) \<Longrightarrow> bind_res m f = bind_res m g"
  by (cases m) simp_all

lemma record_with_history:
  "process_record cfg r (with_history es st p) = map_res (with_history es st) (process_record cfg r p)"
  using item_with_history [of cfg "Data r"] by (simp add: process_item_def)

lemma control_with_history:
  "process_control cfg c (with_history es st p) = map_res (with_history es st) (process_control cfg c p)"
  using item_with_history [of cfg "Control c"] by (simp add: process_item_def)

lemma apply_data_with_history:
  "apply_data d (op_with_history es st oper) = map_res (op_with_history es st) (apply_data d oper)"
  by (auto simp: apply_data_def map_bind_res record_with_history bind_map_res op_with_history_def split_def
      intro!: bind_res_cong_right)

lemma apply_watermark_with_history:
  "apply_watermark i d (op_with_history es st oper) = map_res (op_with_history es st) (apply_watermark i d oper)"
  by (auto simp: apply_watermark_def map_bind_res control_with_history bind_map_res op_with_history_def split_def Let_def
      intro!: bind_res_cong_right)

lemma apply_payload_with_history:
  "apply_payload i b (op_with_history es st oper) = map_res (op_with_history es st) (apply_payload i b oper)"
  by (auto simp: apply_payload_def Let_def map_bind_res apply_data_with_history apply_watermark_with_history split_def
      intro!: bind_res_cong_right)

lemma reordered_op_with_history:
  "reordered_operator a b \<Longrightarrow> reordered_operator (op_with_history es st a) (op_with_history es st b)"
  using reordered_with_history by (force simp: reordered_operator_def op_with_history_def)

lemma any_order_apply_with_history:
  "any_order_apply ms a r \<Longrightarrow> any_order_apply ms (op_with_history es st a) (map_res (op_with_history es st) r)"
proof (induction rule: any_order_apply.induct)
  case (payload_end a b)
  then show ?case by (simp add: any_order_apply.payload_end reordered_op_with_history)
next
  case (payload_next a b i x a' ms r)
  then show ?case
    using any_order_apply.payload_next [OF reordered_op_with_history [OF payload_next.hyps(1)]] by (simp add: apply_payload_with_history)
next
  case (payload_throw a b i x e ms)
  then show ?case
    using any_order_apply.payload_throw [OF reordered_op_with_history [OF payload_throw.hyps(1)]] by (simp add: apply_payload_with_history)
qed

lemma operator_flush_with_history:
  "operator_final_flush (op_with_history es st a) = op_with_history es st (operator_final_flush a)"
  by (simp add: operator_final_flush_def op_with_history_def flush_with_history)

lemma operator_bytes_effects:
  "operator_bytes (oper\<lparr>wo_processor := (wo_processor oper)\<lparr>effects := es\<rparr>\<rparr>) = operator_bytes oper"
  by (simp add: operator_bytes_def capture_def)

lemma restore_captured:
  assumes "new_operator inputs w s l = Inr o0" "in_i64 w" "in_i64 s" "in_i64 l"
    and "operator_inv oper" "same_shape o0 oper" "operator_bytes oper = Inr b" "length b < 2 ^ 32"
  shows "restore_operator b o0 = Inr (oper\<lparr>wo_processor :=
    (wo_processor oper)\<lparr>effects := [], stats := zero_stats\<rparr>, wo_touched := True\<rparr>)"
proof -
  note N = new_operator_inv [OF assms(1)]
  note inv = assms(5,6)
  have shape: "wo_config oper = wo_config o0" "wo_window_ms oper = w" "wo_slide_ms oper = s" "wo_lateness_ms oper = l"
    using inv(2) N(3-5) by (simp_all add: same_shape_def)
  have dec: "decode_operator o0 b = Inr (capture (wo_records oper) (wo_processor oper), wo_watermarks oper)"
    using decode_captured [OF assms(7,8) inv] assms(2-4) N(1) shape by simp
  have p: "processor_inv (wo_config o0) (wo_processor oper)" using inv(1) shape by (simp add: operator_inv_def)
  have "wm_initial \<le> watermark (wo_processor oper)"
    using inv(1) min_watermark_i64 [of "wo_watermarks oper"] by (auto simp: operator_inv_def in_i64_def wm_initial_def i64_nums)
  then have "Keyed_Processor.restore (capture (wo_records oper) (wo_processor oper)) (wo_processor o0) =
      (wo_processor o0)\<lparr>state := state (wo_processor oper), watermark := watermark (wo_processor oper)\<rparr>"
    using restore_capture [OF processor_invD(1) [OF p]] processor_invD(3) [OF p] new_processor_shape [OF N(2)] by simp
  also have "\<dots> = (wo_processor oper)\<lparr>effects := [], stats := zero_stats\<rparr>"
    using new_processor_shape [OF N(2)] by simp
  finally show ?thesis
    using dec N(3-6) shape by (cases o0; cases oper) (simp add: restore_operator_def require_def capture_def)
qed

section \<open>Properties\<close>

text \<open>
  C11. Capture then restore of a window operator loses nothing, whatever order the unordered containers are
  walked in. For any messages applied to a freshly constructed operator, the bytes \<open>Capture\<close> returns (under the 4 GiB a
  frame or file can hold) are accepted by \<open>Restore\<close> of another operator built with the same arguments. With the
  sink calls and counters of the first put in front, the restored operator has the state that was captured, and every
  further sequence of payloads ends on both in the same exception, or in operators with the same
  watermarks, counts, panes and window sets that have made the same sink calls up to the order of the rows one loop
  emits, their final flushes included.
\<close>

theorem operator_restore_loses_nothing:
  fixes captured :: window_operator
  defines "h \<equiv> op_with_history (effects (wo_processor captured)) (stats (wo_processor captured))"
  assumes "new_operator inputs w s l = Inr o0" "in_i64 w" "in_i64 s" "in_i64 l"
    and "any_order_apply before o0 (Inr oper)" "capture_operator oper = (Inr b, captured)" "length b < 2 ^ 32"
  shows "\<exists>r. restore_operator b o0 = Inr r \<and> same_operator (h r) (captured\<lparr>wo_touched := True\<rparr>)
    \<and> (\<forall>after x y. any_order_apply after r x \<longrightarrow> any_order_apply after (captured\<lparr>wo_touched := True\<rparr>) y \<longrightarrow>
         rel_sum (=) (\<lambda>p q. same_operator (h p) q \<and> same_operator (h (operator_final_flush p)) (operator_final_flush q)) x y)"
proof -
  have inv: "operator_inv oper" "same_shape o0 oper"
    using any_order_apply_inv [OF assms(6)] new_operator_inv(1) [OF assms(2)] by simp_all
  have c: "captured = oper\<lparr>wo_processor := (wo_processor oper)\<lparr>effects := effects (wo_processor oper) @ [Flush]\<rparr>\<rparr>"
      "operator_bytes oper = Inr b"
    using assms(7) operator_bytes_effects [where oper = oper] by (auto simp: capture_operator_def Let_def)
  let ?r = "oper\<lparr>wo_processor := (wo_processor oper)\<lparr>effects := [], stats := zero_stats\<rparr>, wo_touched := True\<rparr>"
  have "restore_operator b o0 = Inr ?r" by (rule restore_captured [OF assms(2-5) inv c(2) assms(8)])
  moreover have h: "h ?r = captured\<lparr>wo_touched := True\<rparr>"
    by (simp add: h_def c(1) op_with_history_def with_history_def add_stats_def zero_stats_def)
  moreover have "rel_sum (=) (\<lambda>p q. same_operator (h p) q \<and> same_operator (h (operator_final_flush p)) (operator_final_flush q)) x y"
    if "any_order_apply after ?r x" "any_order_apply after (captured\<lparr>wo_touched := True\<rparr>) y" for after x y
  proof -
    have ci: "operator_inv (captured\<lparr>wo_touched := True\<rparr>)"
      using inv(1) by (simp add: c(1) operator_inv_def panes_good_def more_calls_inv)
    have x: "any_order_apply after (captured\<lparr>wo_touched := True\<rparr>) (map_res h x)"
      using any_order_apply_with_history [OF that(1)] unfolding h [unfolded h_def, symmetric] h_def .
    from any_order_apply_agree [OF x that(2) same_operator_refl ci]
    have "rel_sum (=) same_operator (map_res h x) y" .
    moreover have "same_operator (h (operator_final_flush p)) (operator_final_flush q)"
      if "x = Inr p" "same_operator (h p) q" for p q
      using operator_flush_same [OF that(2)] any_order_apply_inv [OF _ ci] x that(1)
      by (simp add: operator_flush_with_history h_def)
    ultimately show ?thesis by (cases x) (auto simp: rel_sum.simps)
  qed
  ultimately show ?thesis by auto
qed

text \<open>Encoded payloads act as the records and watermarks they carry.\<close>

datatype payload = DataPayload data_record | WatermarkPayload timestamp

definition payload_bytes :: "payload \<Rightarrow> bytes res" where
  "payload_bytes v = (case v of DataPayload r \<Rightarrow> data_payload r | WatermarkPayload wm \<Rightarrow> watermark_payload wm)"

definition payload_good :: "payload \<Rightarrow> bool" where
  "payload_good v \<longleftrightarrow> (case v of DataPayload r \<Rightarrow> in_i64 (val r) \<and> in_i64 (event_time r) \<and> in_i64 (processing_time r)
     | WatermarkPayload wm \<Rightarrow> in_i64 wm)"

definition apply_decoded :: "node_id \<Rightarrow> payload \<Rightarrow> window_operator \<Rightarrow> window_operator res" where
  "apply_decoded i v oper =
     bind_res (at_key (wo_watermarks oper) i) (\<lambda>old. 
     (case v of
       DataPayload r \<Rightarrow>
         bind_res (if wo_records oper = u64_max then Inl (OverflowError ''window record count overflow'') else Inr ()) (\<lambda>_.
         bind_res (process_record (wo_config oper) r (wo_processor oper)) (\<lambda>p.
         Inr (oper\<lparr>wo_touched := True, wo_processor := p, wo_records := wo_records oper + 1\<rparr>)))
     | WatermarkPayload wm \<Rightarrow>
         bind_res (require (\<not> wm < old) ''network source watermark regressed'') (\<lambda>_.
         (let wms = om_set i wm (wo_watermarks oper) in
          Inr (oper\<lparr>wo_touched := True, wo_watermarks := wms,
            wo_processor := process_watermark (wo_config oper) (min_watermark wms) (wo_processor oper)\<rparr>)))))"

lemma apply_encoded:
  assumes "payload_bytes v = Inr b" "payload_good v" "map_of (wo_watermarks oper) i = Some old"
  shows "apply_payload i b oper = apply_decoded i v oper"
proof (cases v)
  case (DataPayload r)
  obtain k x e t where "put_string (key r) = Inr k" "put_i64 (val r) = Inr x" "put_i64 (event_time r) = Inr e"
      "put_i64 (processing_time r) = Inr t" "b = 1 # k @ x @ e @ t"
    using assms(1) DataPayload by (auto simp: payload_bytes_def data_payload_def put_u8_def)
  then show ?thesis
    using assms(2,3) DataPayload i64.put_get [where r = "[]"]
    by (cases r) (simp add: apply_payload_def apply_data_def apply_decoded_def str.put_get i64.put_get
        get_end_def require_def payload_good_def at_key_def Let_def)
next
  case (WatermarkPayload wm)
  obtain x where "put_i64 wm = Inr x" "b = 2 # x"
    using assms(1) WatermarkPayload by (auto simp: payload_bytes_def watermark_payload_def put_u8_def)
  then show ?thesis
    using assms(2,3) WatermarkPayload i64.put_get [where r = "[]"]
    by (simp add: apply_payload_def apply_watermark_def apply_decoded_def get_end_def require_def
        payload_good_def at_key_def Let_def process_control_def)
qed

definition demo_data :: data_record where
  "demo_data = \<lparr>key = ''k'', val = 5, event_time = 12, processing_time = 0\<rparr>"

definition demo_messages :: "(node_id \<times> bytes) list" where
  "demo_messages = [(1, projr (data_payload demo_data)), (1, projr (watermark_payload 25)), (2, projr (watermark_payload 9))]"

definition demo_operator :: window_operator where
  "demo_operator = projr (new_operator [1, 2] 10 0 0)"

definition demo_operator1 :: window_operator where
  "demo_operator1 = projr (apply_decoded 1 (DataPayload demo_data) demo_operator)"

definition demo_operator2 :: window_operator where
  "demo_operator2 = projr (apply_decoded 1 (WatermarkPayload 25) demo_operator1)"

definition demo_applied :: window_operator where
  "demo_applied = projr (apply_decoded 2 (WatermarkPayload 9) demo_operator2)"

lemma demo_steps:
  "apply_payload 1 (projr (data_payload demo_data)) demo_operator = Inr demo_operator1"
  "apply_payload 1 (projr (watermark_payload 25)) demo_operator1 = Inr demo_operator2"
  "apply_payload 2 (projr (watermark_payload 9)) demo_operator2 = Inr demo_applied"
proof -
  have *: "apply_payload i (projr (payload_bytes v)) oper = Inr (projr (apply_decoded i v oper))"
    if "\<not> isl (payload_bytes v)" "payload_good v" "map_of (wo_watermarks oper) i \<noteq> None" "\<not> isl (apply_decoded i v oper)"
    for i v oper
    using that apply_encoded [of v "projr (payload_bytes v)" oper i] by auto
  have "\<not> isl (payload_bytes (DataPayload demo_data))" "payload_good (DataPayload demo_data)"
    "map_of (wo_watermarks demo_operator) 1 \<noteq> None" "\<not> isl (apply_decoded 1 (DataPayload demo_data) demo_operator)"
    by code_simp+
  from * [OF this] show "apply_payload 1 (projr (data_payload demo_data)) demo_operator = Inr demo_operator1"
    by (simp add: payload_bytes_def demo_operator1_def)
  have "\<not> isl (payload_bytes (WatermarkPayload 25))" "payload_good (WatermarkPayload 25)"
    "map_of (wo_watermarks demo_operator1) 1 \<noteq> None" "\<not> isl (apply_decoded 1 (WatermarkPayload 25) demo_operator1)"
    by code_simp+
  from * [OF this] show "apply_payload 1 (projr (watermark_payload 25)) demo_operator1 = Inr demo_operator2"
    by (simp add: payload_bytes_def demo_operator2_def)
  have "\<not> isl (payload_bytes (WatermarkPayload 9))" "payload_good (WatermarkPayload 9)"
    "map_of (wo_watermarks demo_operator2) 2 \<noteq> None" "\<not> isl (apply_decoded 2 (WatermarkPayload 9) demo_operator2)"
    by code_simp+
  from * [OF this] show "apply_payload 2 (projr (watermark_payload 9)) demo_operator2 = Inr demo_applied"
    by (simp add: payload_bytes_def demo_applied_def)
qed

lemma demo_operator_runs:
  "new_operator [1, 2] 10 0 0 = Inr demo_operator" "apply_all demo_messages demo_operator = Inr demo_applied"
  "operator_bytes demo_applied = Inr (projr (operator_bytes demo_applied))"
  "length (projr (operator_bytes demo_applied)) < 200"
proof -
  have "\<not> isl (new_operator [1, 2] 10 0 0)" by code_simp
  then show "new_operator [1, 2] 10 0 0 = Inr demo_operator" by (simp add: demo_operator_def)
  show "apply_all demo_messages demo_operator = Inr demo_applied" by (simp add: demo_messages_def demo_steps)
  show "operator_bytes demo_applied = Inr (projr (operator_bytes demo_applied))" by code_simp
  show "length (projr (operator_bytes demo_applied)) < 200" by code_simp
qed

theorem operator_restore_loses_nothing_witness:
  "\<exists>o0 oper b captured r. new_operator [1, 2] 10 0 0 = Inr o0 \<and> apply_all demo_messages o0 = Inr oper
     \<and> capture_operator oper = (Inr b, captured) \<and> restore_operator b o0 = Inr r
     \<and> same_operator (op_with_history (effects (wo_processor captured)) (stats (wo_processor captured)) r) (captured\<lparr>wo_touched := True\<rparr>)
     \<and> rel_sum (=) (\<lambda>p q. same_operator (op_with_history (effects (wo_processor captured)) (stats (wo_processor captured)) p) q)
         (apply_all demo_messages r) (apply_all demo_messages (captured\<lparr>wo_touched := True\<rparr>))"
proof -
  obtain captured where c: "capture_operator demo_applied = (Inr (projr (operator_bytes demo_applied)), captured)"
    using demo_operator_runs(3) by (auto simp: capture_operator_def Let_def operator_bytes_effects)
  let ?h = "\<lambda>captured. op_with_history (effects (wo_processor captured)) (stats (wo_processor captured))"
  have i64: "in_i64 10" "in_i64 0" by (simp_all add: in_i64_def i64_nums)
  have "length (projr (operator_bytes demo_applied)) < 2 ^ 32" using demo_operator_runs(4) by simp
  moreover have "any_order_apply demo_messages demo_operator (Inr demo_applied)"
    using apply_all_any_order demo_operator_runs(2) by metis
  ultimately obtain r where r: "restore_operator (projr (operator_bytes demo_applied)) demo_operator = Inr r"
      "same_operator (?h captured r) (captured\<lparr>wo_touched := True\<rparr>)"
      and after: "\<And>after x y. any_order_apply after r x \<Longrightarrow> any_order_apply after (captured\<lparr>wo_touched := True\<rparr>) y \<Longrightarrow>
         rel_sum (=) (\<lambda>p q. same_operator (?h captured p) q
           \<and> same_operator (?h captured (operator_final_flush p)) (operator_final_flush q)) x y"
    using operator_restore_loses_nothing [OF demo_operator_runs(1) i64(1,2,2) _ c] by blast
  from after [OF apply_all_any_order apply_all_any_order]
  have "rel_sum (=) (\<lambda>p q. same_operator (?h captured p) q)
      (apply_all demo_messages r) (apply_all demo_messages (captured\<lparr>wo_touched := True\<rparr>))"
    by (rule sum.rel_mono_strong) auto
  then show ?thesis using r c demo_operator_runs(1,2) by blast
qed

end
