(* ===== verification/Sources.thy ===== *)
theory Sources
  imports Stream_Types
begin

text \<open>
  The source interface (\<open>src/src/source/source.h\<close>), the bounded wrapper
  (\<open>src/src/source/stopping_source.cpp\<close>), and the job-control helpers every engine loop
  uses (\<open>src/src/engine/job_control.h\<close>): the stop signal whose first request wins and the
  back-off schedule of an idle source.
\<close>

section \<open>The source interface\<close>

record 's source =
  src_next :: "'s \<Rightarrow> (batch option \<times> 's) res"
  src_seek :: "u64 \<Rightarrow> 's \<Rightarrow> 's res"
  src_offset :: "'s \<Rightarrow> u64"
  src_descriptor :: string
  src_replayable :: bool
  src_cancel :: "'s \<Rightarrow> 's"

section \<open>A source that stops after a number of records\<close>

record 's stopping =
  inner_state :: 's
  emitted :: u64

text \<open>The copy loop of \<open>Next\<close>: control records pass, records are counted.\<close>

fun stopping_copy :: "u64 \<Rightarrow> batch \<Rightarrow> u64 \<Rightarrow> batch \<Rightarrow> batch \<times> u64" where
  "stopping_copy max_records [] n result = (result, n)"
| "stopping_copy max_records (it # its) n result =
     (if n \<ge> max_records then (result, n)
      else case it of
             Data r \<Rightarrow> stopping_copy max_records its (n + 1) (result @ [it])
           | Control c \<Rightarrow> stopping_copy max_records its n (result @ [it]))"

definition stopping_next :: "'s source \<Rightarrow> u64 \<Rightarrow> 's stopping \<Rightarrow> (batch option \<times> 's stopping) res" where
  "stopping_next inner max_records st =
     (if emitted st \<ge> max_records then Inr (None, st)
      else bind_res (src_next inner (inner_state st)) (\<lambda>(b, s).
        case b of
          None \<Rightarrow> Inr (None, st\<lparr>inner_state := s\<rparr>)
        | Some items \<Rightarrow>
            (let (result, n) = stopping_copy max_records items (emitted st) []
             in Inr (if result = [] then None else Some result, \<lparr>inner_state = s, emitted = n\<rparr>))))"

definition stopping_seek :: "'s source \<Rightarrow> u64 \<Rightarrow> 's stopping \<Rightarrow> 's stopping res" where
  "stopping_seek inner offset st =
     bind_res (src_seek inner offset (inner_state st)) (\<lambda>s. Inr \<lparr>inner_state = s, emitted = 0\<rparr>)"

definition stopping_source :: "'s source \<Rightarrow> u64 \<Rightarrow> 's stopping source" where
  "stopping_source inner max_records =
     \<lparr>src_next = stopping_next inner max_records, src_seek = stopping_seek inner,
      src_offset = (\<lambda>st. src_offset inner (inner_state st)),
      src_descriptor = src_descriptor inner, src_replayable = src_replayable inner,
      src_cancel = (\<lambda>st. st\<lparr>inner_state := src_cancel inner (inner_state st)\<rparr>)\<rparr>"

definition data_count :: "batch \<Rightarrow> nat" where
  "data_count its = length (filter (\<lambda>it. case it of Data r \<Rightarrow> True | Control c \<Rightarrow> False) its)"

lemma stopping_copy_prefix:
  assumes "stopping_copy max_records its n result = (result', n')"
  shows "\<exists>k. result' = result @ take k its"
  using assms
proof (induction max_records its n result rule: stopping_copy.induct)
  case (1 m n result)
  then show ?case by simp
next
  case (2 m it its n result)
  show ?case
  proof (cases "n \<ge> m")
    case True
    then show ?thesis using "2.prems" by (intro exI [of _ 0]) simp
  next
    case False
    then obtain k where "result' = (result @ [it]) @ take k its"
      using 2 False by (cases it) (auto split: if_splits)
    then show ?thesis by (intro exI [of _ "Suc k"]) simp
  qed
qed

lemma stopping_copy_count:
  assumes "stopping_copy max_records its n result = (result', n')" "n \<le> max_records"
  shows "n' \<le> max_records \<and> unat n' - unat n = data_count result' - data_count result \<and>
    unat n \<le> unat n' \<and> data_count result \<le> data_count result'"
  using assms
proof (induction max_records its n result rule: stopping_copy.induct)
  case (2 m it its n result)
  show ?case
  proof (cases "n \<ge> m")
    case False
    show ?thesis
    proof (cases it)
      case (Data r)
      have "n \<noteq> u64_max" using False by (auto simp: u64_max_def not_le)
      then have n1: "unat (n + 1) = unat n + 1" by (rule u64_inc_unat)
      then have "n + 1 \<le> m" using False by (simp add: word_le_nat_alt not_le word_less_nat_alt)
      with Data False 2 n1 show ?thesis by (auto simp: data_count_def)
    next
      case (Control c)
      with False 2 show ?thesis by (auto simp: data_count_def)
    qed
  qed (use 2 in auto)
qed auto

section \<open>The stop signal\<close>

datatype stop_mode = KFinal | KSuspend

text \<open>\<open>compare_exchange_strong\<close> from \<open>kNone\<close>: the signal afterwards and whether this call set it.\<close>

definition request_stop :: "stop_mode \<Rightarrow> stop_mode option \<Rightarrow> bool \<times> stop_mode option" where
  "request_stop mode sig = (case sig of None \<Rightarrow> (True, Some mode) | Some m \<Rightarrow> (False, Some m))"

lemma first_request_wins:
  "snd (request_stop m sig) \<noteq> None" "sig = Some m0 \<Longrightarrow> request_stop m sig = (False, Some m0)"
  by (simp_all add: request_stop_def split: option.split)

lemma fold_requests:
  "fold (\<lambda>m sig. snd (request_stop m sig)) ms sig = (case sig of None \<Rightarrow> (case ms of [] \<Rightarrow> None | m # _ \<Rightarrow> Some m) | Some m \<Rightarrow> Some m)"
  by (induction ms arbitrary: sig) (auto simp: request_stop_def split: option.split)

section \<open>Idle back-off\<close>

text \<open>One \<open>Wait\<close>: the microseconds slept (0 is a yield) and the next step.\<close>

definition backoff_wait :: "nat \<Rightarrow> nat \<times> nat" where
  "backoff_wait step =
     ((if step = 0 then 0 else min (50 * 2 ^ min (step - 1) 5) 1000), min (step + 1) 6)"

lemma backoff_bounded: "fst (backoff_wait step) \<le> 1000 \<and> snd (backoff_wait step) \<le> 6"
  by (simp add: backoff_wait_def)

lemma backoff_monotone:
  "step \<le> 6 \<Longrightarrow> fst (backoff_wait step) \<le> fst (backoff_wait (snd (backoff_wait step)))"
proof -
  assume "step \<le> 6"
  then have "step \<in> {0, 1, 2, 3, 4, 5, 6}" by auto
  then show ?thesis by (auto simp: backoff_wait_def)
qed

section \<open>Properties\<close>

text \<open>
  A stopping source hands out a prefix of the inner batch and never more records in total
  than its limit, which its counter counts exactly.
\<close>

theorem stopping_source_limit:
  assumes "stopping_next inner max_records st = Inr (b, st')" "emitted st \<le> max_records"
    and "src_next inner (inner_state st) = Inr (Some items, s)"
  shows "emitted st' \<le> max_records \<and>
    (case b of None \<Rightarrow> emitted st' = emitted st
     | Some result \<Rightarrow> (\<exists>k. result = take k items) \<and>
         unat (emitted st') = unat (emitted st) + data_count result)"
proof (cases "emitted st \<ge> max_records")
  case False
  obtain result n where c: "stopping_copy max_records items (emitted st) [] = (result, n)" by fastforce
  then have st: "b = (if result = [] then None else Some result)" "emitted st' = n"
    using assms(1,3) False by (auto simp: stopping_next_def)
  show ?thesis
    using stopping_copy_prefix [OF c] stopping_copy_count [OF c assms(2)] st
    by (auto simp: data_count_def word_unat_eq_iff word_le_nat_alt)
qed (use assms in \<open>simp add: stopping_next_def\<close>)

definition list_source :: "batch list source" where
  "list_source =
     \<lparr>src_next = (\<lambda>bs. Inr (case bs of [] \<Rightarrow> (None, []) | b # bs' \<Rightarrow> (Some b, bs'))),
      src_seek = (\<lambda>off bs. Inr bs), src_offset = (\<lambda>bs. of_nat (length bs)), src_descriptor = ''list'',
      src_replayable = True, src_cancel = (\<lambda>bs. bs)\<rparr>"

theorem stopping_source_limit_witness:
  "\<exists>b st'. stopping_next list_source 1 \<lparr>inner_state = [[watermark_item 5 0], []], emitted = 0\<rparr> = Inr (b, st') \<and>
     emitted st' \<le> 1"
proof -
  let ?st = "\<lparr>inner_state = [[watermark_item 5 0], []], emitted = 0\<rparr>"
  have "\<exists>b st'. stopping_next list_source 1 ?st = Inr (b, st')"
    by (simp add: stopping_next_def list_source_def watermark_item_def)
  then obtain b st' where n: "stopping_next list_source 1 ?st = Inr (b, st')" by blast
  show ?thesis
    using stopping_source_limit [OF n] n by (simp add: list_source_def)
qed

text \<open>
  A stopping source turns the empty batch of a live source, which the interface reserves for
  \<open>no data yet\<close>, into the end of the input, although its limit is not reached.
\<close>

theorem stopping_source_ends_on_empty_batch:
  assumes "emitted st < max_records" "src_next inner (inner_state st) = Inr (Some [], s)"
  shows "stopping_next inner max_records st = Inr (None, \<lparr>inner_state = s, emitted = emitted st\<rparr>)"
  using assms by (simp add: stopping_next_def not_le)

theorem stopping_source_ends_on_empty_batch_witness:
  "stopping_next list_source 3 \<lparr>inner_state = [[], [watermark_item 5 0]], emitted = 0\<rparr> =
     Inr (None, \<lparr>inner_state = [[watermark_item 5 0]], emitted = 0\<rparr>)"
  using stopping_source_ends_on_empty_batch
    [of "\<lparr>inner_state = [[], [watermark_item 5 0]], emitted = 0\<rparr>" 3 list_source "[[watermark_item 5 0]]"]
  by (simp add: list_source_def)

end
