(* ===== verification/Job_Manifest.thy ===== *)
theory Job_Manifest
  imports Checkpoint_Store
begin

text \<open>
  The job manifest of a checkpoint directory (\<open>src/src/checkpoint/job_manifest.cpp\<close>). A
  manifest is an ordered map of strings; the file is the string \<open>Serialize\<close> produces. The
  outcome of the system calls of the atomic write is a parameter.
\<close>

section \<open>Serialization\<close>

type_synonym manifest = "(string \<times> string) list"

definition newline :: char where
  "newline = CHR 0x0A"

definition kManifestName :: string where
  "kManifestName = ''job.manifest''"

definition kHeader :: string where
  "kHeader = ''stormglass-job-manifest v1''"

definition field_ok :: "string \<times> string \<Rightarrow> bool" where
  "field_ok kv =
     (fst kv \<noteq> [] \<and> CHR ''='' \<notin> set (fst kv) \<and> newline \<notin> set (fst kv) \<and> newline \<notin> set (snd kv))"

definition serialize_field :: "string \<times> string \<Rightarrow> string \<Rightarrow> string res" where
  "serialize_field kv out =
     (if \<not> field_ok kv
      then Inl (InvalidArgument (''job manifest field cannot contain '' @ [CHR 0x27, CHR ''='', CHR 0x27] @
             '' in its key or a newline: '' @ fst kv))
      else Inr (out @ fst kv @ ''='' @ snd kv @ [newline]))"

definition serialize :: "manifest \<Rightarrow> string res" where
  "serialize m = fold_res serialize_field m (kHeader @ [newline])"

section \<open>Loading\<close>

text \<open>The lines \<open>std::getline\<close> returns until the stream fails.\<close>

function getlines :: "string \<Rightarrow> string list" where
  "getlines s =
     (if s = [] then []
      else takeWhile (\<lambda>c. c \<noteq> newline) s #
           (case dropWhile (\<lambda>c. c \<noteq> newline) s of [] \<Rightarrow> [] | c # r \<Rightarrow> getlines r))"
  by pat_completeness auto
termination
proof (relation "measure length", simp)
  fix s :: string and c r
  assume "dropWhile (\<lambda>c. c \<noteq> newline) s = c # r"
  then have "length (c # r) \<le> length s" by (metis length_dropWhile_le)
  then show "(r, s) \<in> measure length" by simp
qed

declare getlines.simps [simp del]

definition load_line :: "string \<Rightarrow> string \<Rightarrow> manifest \<Rightarrow> manifest res" where
  "load_line path line m =
     (let k = takeWhile (\<lambda>c. c \<noteq> CHR ''='') line; rest = dropWhile (\<lambda>c. c \<noteq> CHR ''='') line
      in if rest = [] \<or> k = [] then Inl (JobManifestMismatch (''malformed job manifest line in '' @ path @ '': '' @ line))
         else Inr (om_set k (tl rest) m))"

definition load_manifest :: "string \<Rightarrow> string \<Rightarrow> manifest res" where
  "load_manifest path contents =
     (case getlines contents of
        [] \<Rightarrow> Inl (JobManifestMismatch (''unrecognized job manifest format: '' @ path))
      | line # rest \<Rightarrow>
          (if line \<noteq> kHeader then Inl (JobManifestMismatch (''unrecognized job manifest format: '' @ path))
           else fold_res (load_line path) rest []))"

section \<open>Validation\<close>

definition has_checkpoint_files :: "string list \<Rightarrow> bool" where
  "has_checkpoint_files names = list_ex is_ckpt names"

definition describe :: "manifest \<Rightarrow> string \<Rightarrow> string" where
  "describe m k = (case map_of m k of None \<Rightarrow> ''<absent>'' | Some v \<Rightarrow> [CHR 0x27] @ v @ [CHR 0x27])"

text \<open>The keys of both manifests, the differing ones named in the message.\<close>

definition mismatch_message :: "string \<Rightarrow> manifest \<Rightarrow> manifest \<Rightarrow> string" where
  "mismatch_message dir stored expected =
     (let keys = fold (\<lambda>kv m. if map_of m (fst kv) = None then om_set (fst kv) (snd kv) m else m) expected stored
      in ''checkpoint directory '' @ dir @ '' was written by a different job configuration:'' @
         concat (map (\<lambda>kv. if describe stored (fst kv) \<noteq> describe expected (fst kv)
                           then '' '' @ fst kv @ '' checkpointed='' @ describe stored (fst kv) @
                                '' configured='' @ describe expected (fst kv) @ '';''
                           else []) keys))"

text \<open>
  The manifest file (or its absence) and the file names below the directory come in, the
  manifest file afterwards comes out. \<open>io\<close> is the error of a system call that fails.
\<close>

definition validate_or_create ::
    "exn option \<Rightarrow> string \<Rightarrow> string list \<Rightarrow> manifest \<Rightarrow> string option \<Rightarrow> string option res" where
  "validate_or_create io dir names expected file =
     bind_res (serialize expected) (\<lambda>contents.
       case file of
         Some old \<Rightarrow>
           bind_res (load_manifest (dir @ ''/'' @ kManifestName) old) (\<lambda>stored.
             if stored = expected then Inr file
             else Inl (JobManifestMismatch (mismatch_message dir stored expected)))
       | None \<Rightarrow>
           (if has_checkpoint_files names
            then Inl (JobManifestMismatch (''checkpoint directory '' @ dir @
                   '' holds checkpoints but no job manifest; refusing an unverifiable restore''))
            else case io of Some e \<Rightarrow> Inl e | None \<Rightarrow> Inr (Some contents)))"

section \<open>Round trip\<close>

lemma getlines_line: "newline \<notin> set l \<Longrightarrow> getlines (l @ newline # r) = l # getlines r"
proof -
  assume a: "newline \<notin> set l"
  have "takeWhile (\<lambda>c. c \<noteq> newline) (l @ newline # r) = l"
    using a by (subst takeWhile_append2) auto
  moreover have "dropWhile (\<lambda>c. c \<noteq> newline) (l @ newline # r) = newline # r"
    using a by (subst dropWhile_append2) auto
  ultimately show ?thesis by (subst getlines.simps) simp
qed

definition field_text :: "string \<times> string \<Rightarrow> string" where
  "field_text kv = fst kv @ ''='' @ snd kv"

lemma serialize_fields:
  "fold_res serialize_field m out = Inr s \<Longrightarrow>
   (\<forall>kv \<in> set m. field_ok kv) \<and> s = out @ concat (map (\<lambda>kv. field_text kv @ [newline]) m)"
proof (induction m arbitrary: out)
  case (Cons kv m)
  then have kv: "field_ok kv" "fold_res serialize_field m (out @ field_text kv @ [newline]) = Inr s"
    by (auto simp: serialize_field_def [of kv] field_text_def split: if_splits)
  show ?case using Cons.IH [OF kv(2)] kv(1) by simp
qed simp

lemma serialize_total: "(\<forall>kv \<in> set m. field_ok kv) \<Longrightarrow> \<exists>s. fold_res serialize_field m out = Inr s"
  by (induction m arbitrary: out) (auto simp: serialize_field_def)

lemma getlines_fields:
  "\<forall>kv \<in> set m. field_ok kv \<Longrightarrow> getlines (concat (map (\<lambda>kv. field_text kv @ [newline]) m)) = map field_text m"
proof (induction m)
  case (Cons kv m)
  have "newline \<notin> set (field_text kv)"
    using Cons.prems by (auto simp: field_ok_def field_text_def newline_def)
  then show ?case using Cons getlines_line [of "field_text kv"] by simp
qed (simp add: getlines.simps)

lemma load_line_field: "field_ok kv \<Longrightarrow> load_line path (field_text kv) m = Inr (om_set (fst kv) (snd kv) m)"
proof -
  assume ok: "field_ok kv"
  let ?p = "\<lambda>c. c \<noteq> CHR ''=''"
  have k: "\<forall>c \<in> set (fst kv). ?p c" using ok by (auto simp: field_ok_def)
  have "takeWhile ?p (field_text kv) = fst kv" "dropWhile ?p (field_text kv) = ''='' @ snd kv"
    unfolding field_text_def using k by (simp_all add: takeWhile_append2 dropWhile_append2)
  then show ?thesis using ok by (simp add: load_line_def Let_def field_ok_def)
qed

lemma load_fields:
  "\<forall>kv \<in> set m. field_ok kv \<Longrightarrow>
   fold_res (load_line path) (map field_text m) acc = Inr (fold (\<lambda>kv. om_set (fst kv) (snd kv)) m acc)"
  by (induction m arbitrary: acc) (simp_all add: load_line_field)

lemma rebuild_ordered: "om_wf (acc @ m) \<Longrightarrow> fold (\<lambda>kv. om_set (fst kv) (snd kv)) m acc = acc @ m"
proof (induction m arbitrary: acc)
  case (Cons kv m)
  have "fst e < fst kv" if "e \<in> set acc" for e
    using Cons.prems that by (auto simp: om_wf_def sorted_wrt_append)
  then have "om_set (fst kv) (snd kv) acc = acc @ [kv]" by (simp add: om_set_last)
  then show ?case using Cons.IH [of "acc @ [kv]"] Cons.prems by simp
qed simp

lemma load_serialize:
  assumes "serialize m = Inr s" "om_wf m"
  shows "load_manifest path s = Inr m"
proof -
  have ok: "\<forall>kv \<in> set m. field_ok kv"
    and s: "s = (kHeader @ [newline]) @ concat (map (\<lambda>kv. field_text kv @ [newline]) m)"
    using serialize_fields assms(1) unfolding serialize_def by blast+
  have "newline \<notin> set kHeader" by (simp add: kHeader_def newline_def)
  then have "getlines s = kHeader # map field_text m"
    using getlines_line [of kHeader] getlines_fields [OF ok] s by simp
  then show ?thesis
    using load_fields [OF ok, of path "[]"] rebuild_ordered [of "[]" m] assms(2) by (simp add: load_manifest_def)
qed

lemma serialize_bad_field: "\<not> (\<forall>kv \<in> set m. field_ok kv) \<Longrightarrow> \<exists>e. serialize m = Inl e"
  using serialize_fields [of m "kHeader @ [newline]"] unfolding serialize_def
  by (cases "fold_res serialize_field m (kHeader @ [newline])") auto

lemma created_then_validated:
  assumes "validate_or_create None dir [] m1 None = Inr file" "om_wf m1"
    and "\<forall>kv \<in> set m2. field_ok kv"
  shows "(\<exists>f. validate_or_create io dir names m2 file = Inr f) = (m2 = m1)"
proof -
  obtain s where s: "serialize m1 = Inr s" "file = Some s"
    using assms(1) by (auto simp: validate_or_create_def has_checkpoint_files_def)
  obtain s2 where s2: "serialize m2 = Inr s2"
    using serialize_total [OF assms(3)] unfolding serialize_def by blast
  show ?thesis
    using s s2 load_serialize [OF s(1) assms(2)] by (auto simp: validate_or_create_def)
qed

section \<open>Properties\<close>

text \<open>
  A checkpoint directory is bound to one job: after a first run created the manifest for
  \<open>m1\<close>, a later run of a job \<open>m2\<close> is admitted if and only if \<open>m2\<close> is \<open>m1\<close>, field by field,
  whatever checkpoint files are present; the check changes nothing.
\<close>

theorem manifest_admits_same_job_only:
  assumes "validate_or_create None dir [] m1 None = Inr file" "om_wf m1"
    and "\<forall>kv \<in> set m2. field_ok kv"
  shows "(\<exists>f. validate_or_create io dir names m2 file = Inr f) = (m2 = m1)"
  using assms by (rule created_then_validated)

theorem manifest_admits_same_job_only_witness:
  "\<exists>m. validate_or_create None ''d'' [] [(''engine'', ''pipeline'')] None = Inr m \<and>
     \<not> (\<exists>f. validate_or_create None ''d'' [''x.ckpt''] [(''engine'', ''partitioned'')] m = Inr f)"
proof -
  have "\<not> isl (validate_or_create None ''d'' [] [(''engine'', ''pipeline'')] None)" by code_simp
  then obtain m where f: "validate_or_create None ''d'' [] [(''engine'', ''pipeline'')] None = Inr m"
    by (metis sum.collapse(2))
  have "om_wf [(''engine'', ''pipeline'')]" "\<forall>kv \<in> set [(''engine'', ''partitioned'')]. field_ok kv" by code_simp+
  then show ?thesis
    using manifest_admits_same_job_only [OF f, of "[(''engine'', ''partitioned'')]" None "[''x.ckpt'']"] f by simp
qed

text \<open>
  Round trip of the manifest file: a manifest that can be written is read back unchanged.
\<close>

theorem manifest_round_trip:
  assumes "serialize m = Inr s" "om_wf m"
  shows "load_manifest path s = Inr m"
  using assms by (rule load_serialize)

theorem manifest_round_trip_witness:
  "\<exists>s. serialize [(''engine'', ''pipeline''), (''source'', ''generator(seed=1)'')] = Inr s \<and>
     load_manifest ''d/job.manifest'' s = Inr [(''engine'', ''pipeline''), (''source'', ''generator(seed=1)'')]"
proof -
  let ?m = "[(''engine'', ''pipeline''), (''source'', ''generator(seed=1)'')]"
  have "\<not> isl (serialize ?m)" by code_simp
  then obtain s where s: "serialize ?m = Inr s" by (metis sum.collapse(2))
  have "om_wf ?m" by code_simp
  then show ?thesis using manifest_round_trip [OF s] s by blast
qed

end
