(* ===== verification/Pipeline_Engine.thy ===== *)
theory Pipeline_Engine
  imports Sources Checkpoint_Store Job_Manifest
begin

text \<open>
  The single-threaded engine (\<open>src/src/engine/pipeline.cpp\<close>). \<open>Run\<close> inlines its own copy of
  the record, watermark and flush code; the copy is translated here from \<open>pipeline.cpp\<close> and
  shown equal to the handlers of \<open>KeyedProcessor\<close>. The engine state carries the source, the
  watermark, the window state, the counters and the sink (together a \<open>processor\<close>), the stop
  signal, the published progress, and the checkpoint directory on disk.

  The requests of controlling threads are an input: \<open>reqs\<close> lists, for each point at which the
  loop reads the stop signal, the requests that arrive before it. \<open>env\<close> gives the outcome of
  the system calls of the write at an offset. The loop takes fuel, since a live source may
  never end; out of fuel is \<open>None\<close>.
\<close>

section \<open>State\<close>

record pipeline_config =
  plc_lateness :: duration
  plc_checkpoint_dir :: string
  plc_checkpoint_interval :: u64

record 's pipeline =
  pl_source :: 's
  pl_core :: processor
  pl_stop :: "stop_mode option"
  pl_backoff :: nat
  pl_restored_offset :: u64
  pl_last_checkpoint :: "u64 option"
  pl_published :: "processor_stats \<times> timestamp"
  pl_dir :: directory
  pl_manifest :: "string option"

record pipeline_stats =
  ps_counters :: processor_stats
  ps_records_replayed :: u64
  ps_suspended :: bool
  ps_suspend_offset :: "u64 option"

record job_progress =
  jp_counters :: processor_stats
  jp_last_complete :: "u64 option"
  jp_output_watermark :: timestamp

definition checkpointing_enabled :: "pipeline_config \<Rightarrow> bool" where
  "checkpointing_enabled cfg = (plc_checkpoint_dir cfg \<noteq> [] \<and> plc_checkpoint_interval cfg > 0)"

definition new_pipeline ::
    "pipeline_config \<Rightarrow> 's \<Rightarrow> directory \<Rightarrow> string option \<Rightarrow> 's pipeline res" where
  "new_pipeline cfg src dir mf =
     (if plc_lateness cfg < 0 then Inl (InvalidArgument ''lateness must be nonnegative'')
      else bind_res (if plc_lateness cfg > 0 then set_allowed_lateness empty_state (plc_lateness cfg)
                     else Inr empty_state) (\<lambda>s.
        Inr \<lparr>pl_source = src,
             pl_core = \<lparr>watermark = wm_initial, state = s, stats = zero_stats, effects = []\<rparr>,
             pl_stop = None, pl_backoff = 0, pl_restored_offset = 0, pl_last_checkpoint = None,
             pl_published = (zero_stats, wm_initial), pl_dir = dir, pl_manifest = mf\<rparr>))"

definition pl_request_stop :: "'s source \<Rightarrow> stop_mode \<Rightarrow> 's pipeline \<Rightarrow> 's pipeline" where
  "pl_request_stop src mode pl =
     pl\<lparr>pl_stop := snd (request_stop mode (pl_stop pl)), pl_source := src_cancel src (pl_source pl)\<rparr>"

definition pl_progress :: "'s pipeline \<Rightarrow> job_progress" where
  "pl_progress pl = \<lparr>jp_counters = fst (pl_published pl), jp_last_complete = pl_last_checkpoint pl,
     jp_output_watermark = snd (pl_published pl)\<rparr>"

definition publish_progress :: "'s pipeline \<Rightarrow> 's pipeline" where
  "publish_progress pl = pl\<lparr>pl_published := (stats (pl_core pl), watermark (pl_core pl))\<rparr>"

section \<open>Restore and checkpoint\<close>

definition pipeline_manifest :: "pipeline_config \<Rightarrow> window_assigner \<Rightarrow> 's source \<Rightarrow> manifest" where
  "pipeline_manifest cfg a src =
     [(''allowed_lateness_ms'', to_string_int (plc_lateness cfg)), (''assigner'', descriptor a),
      (''engine'', ''pipeline''), (''source'', src_descriptor src)]"

definition restore_core :: "checkpoint_data \<Rightarrow> processor \<Rightarrow> processor" where
  "restore_core d p =
     (let s1 = fold (\<lambda>e. restore_pane (entry_key e) (entry_window e) (entry_sum e) (entry_count e))
                 (cd_panes d) (state p);
          s2 = (if cd_fired d \<noteq> [] then restore_fired (cd_fired d) s1 else s1);
          s3 = restore_refired (cd_refired d) s2
      in p\<lparr>state := s3, watermark := snd (wm_advance (watermark p) (cd_watermark d))\<rparr>)"

definition try_restore ::
    "exn option \<Rightarrow> pipeline_config \<Rightarrow> window_assigner \<Rightarrow> 's source \<Rightarrow> 's pipeline \<Rightarrow> 's pipeline res" where
  "try_restore io cfg a src pl =
     bind_res (validate_or_create io (plc_checkpoint_dir cfg) (map fst (pl_dir pl))
         (pipeline_manifest cfg a src) (pl_manifest pl)) (\<lambda>mf.
       let (latest, dir) = load_latest (pl_dir pl); pl1 = pl\<lparr>pl_manifest := mf, pl_dir := dir\<rparr> in
       case latest of
         None \<Rightarrow> Inr pl1
       | Some d \<Rightarrow>
           bind_res (src_seek src (cd_offset d) (pl_source pl1)) (\<lambda>s.
             Inr (pl1\<lparr>pl_core := restore_core d (pl_core pl1), pl_source := s,
                      pl_restored_offset := cd_offset d, pl_last_checkpoint := Some (cd_offset d)\<rparr>)))"

text \<open>
  The store of the newest offset into the control block is also recorded as the effect
  \<open>CheckpointListener\<close>, the notification a worker gives at the same point.
\<close>

definition pl_write_checkpoint ::
    "(u64 \<Rightarrow> write_outcome) \<Rightarrow> u64 \<Rightarrow> 's pipeline \<Rightarrow> 's pipeline res" where
  "pl_write_checkpoint env offset pl =
     (let p = pl_core pl; p1 = p\<lparr>effects := effects p @ [Flush]\<rparr>;
          (ok, dir) = write_checkpoint (env offset) False offset (watermark p1) (state p1) (pl_dir pl)
      in if ok then
           Inr (pl\<lparr>pl_core := p1\<lparr>effects := effects p1 @
                     [WriteCheckpoint offset (watermark p1) (state p1), CheckpointListener offset],
                     stats := (stats p1)\<lparr>checkpoints_written := checkpoints_written (stats p1) + 1\<rparr>\<rparr>,
                   pl_last_checkpoint := Some offset, pl_dir := dir\<rparr>)
         else Inl (RuntimeError ''checkpoint write failed''))"

section \<open>The inlined handlers\<close>

definition pl_window ::
    "bool \<Rightarrow> timestamp \<Rightarrow> data_record \<Rightarrow> window \<Rightarrow>
     keyed_window_state \<times> bool \<times> bool \<Rightarrow> (keyed_window_state \<times> bool \<times> bool) res" where
  "pl_window lateness_on wm r w acc =
     (let s = fst acc; any_dropped = fst (snd acc); any_late_accepted = snd (snd acc);
          was_fired = is_fired s w
      in case add_with_lateness s (key r) w (val r) wm of
           Inl e \<Rightarrow> Inl e
         | Inr (accepted, s') \<Rightarrow>
             (if lateness_on then
                Inr (s', any_dropped \<or> \<not> accepted, any_late_accepted \<or> accepted \<and> was_fired)
              else Inr (s', any_dropped \<or> \<not> accepted, any_late_accepted)))"

definition pl_record :: "pipeline_config \<Rightarrow> window_assigner \<Rightarrow> data_record \<Rightarrow> processor \<Rightarrow> processor res" where
  "pl_record cfg a r p =
     (case assign_windows a (event_time r) of
        Inl e \<Rightarrow> Inl e
      | Inr ws \<Rightarrow>
          (case fold_res (pl_window (plc_lateness cfg > 0) (watermark p) r) ws (state p, False, False) of
             Inl e \<Rightarrow> Inl e
           | Inr (s, any_dropped, any_late_accepted) \<Rightarrow>
               (let st = stats p;
                    st1 = (if any_dropped then st\<lparr>late_records_dropped := late_records_dropped st + 1\<rparr> else st);
                    st2 = (if any_late_accepted
                           then st1\<lparr>late_records_accepted := late_records_accepted st1 + 1\<rparr> else st1)
                in Inr (p\<lparr>state := s,
                          stats := st2\<lparr>records_processed := records_processed st2 + 1\<rparr>\<rparr>))))"

text \<open>\<open>for (w : ws) \{ for (result : FireWindow(w)) Emit(result); ++counter; \}\<close>\<close>

definition pl_emit_rows :: "window \<Rightarrow> processor \<Rightarrow> processor" where
  "pl_emit_rows w p =
     p\<lparr>effects := fold (\<lambda>row es. es @ [Emit row]) (fst (fire_window (state p) w)) (effects p),
       state := snd (fire_window (state p) w)\<rparr>"

definition pl_fire :: "window \<Rightarrow> processor \<Rightarrow> processor" where
  "pl_fire w p = (pl_emit_rows w p)\<lparr>stats := (stats p)\<lparr>windows_fired := windows_fired (stats p) + 1\<rparr>\<rparr>"

definition pl_refire :: "window \<Rightarrow> processor \<Rightarrow> processor" where
  "pl_refire w p = (pl_emit_rows w p)\<lparr>stats := (stats p)\<lparr>windows_refired := windows_refired (stats p) + 1\<rparr>\<rparr>"

definition pl_refire_clear :: "processor \<Rightarrow> processor" where
  "pl_refire_clear p =
     (let q = fold pl_refire (refired_windows (state p)) p in q\<lparr>state := clear_refired (state q)\<rparr>)"

definition pl_watermark :: "pipeline_config \<Rightarrow> timestamp \<Rightarrow> processor \<Rightarrow> processor" where
  "pl_watermark cfg wm p =
     (if fst (wm_advance (watermark p) wm) then
        (let current = snd (wm_advance (watermark p) wm);
             p1 = fold pl_fire (expired_windows (state p) current) (p\<lparr>watermark := current\<rparr>);
             p2 = (if plc_lateness cfg > 0
                   then let q = pl_refire_clear p1
                        in q\<lparr>state := garbage_collect (state q) (garbage_collectable (state q) current)\<rparr>
                   else p1)
         in p2\<lparr>stats := (stats p2)\<lparr>watermarks_advanced := watermarks_advanced (stats p2) + 1\<rparr>\<rparr>)
      else p)"

definition pl_final_flush :: "pipeline_config \<Rightarrow> processor \<Rightarrow> processor" where
  "pl_final_flush cfg p =
     (let p1 =
        (if plc_lateness cfg > 0 then
           (let q = pl_refire_clear p;
                q1 = fold (\<lambda>w q. if is_fired (state q) w then q else pl_fire w q) (all_windows (state q)) q;
                remaining = all_windows (state q1)
            in q1\<lparr>state := garbage_collect (state q1) remaining\<rparr>)
         else fold pl_fire (all_windows (state p)) p)
      in p1\<lparr>effects := effects p1 @ [Flush]\<rparr>)"

definition pl_item ::
    "pipeline_config \<Rightarrow> window_assigner \<Rightarrow> (u64 \<Rightarrow> write_outcome) \<Rightarrow> batch_item \<Rightarrow> 's pipeline \<Rightarrow> 's pipeline res" where
  "pl_item cfg a env it pl =
     (case it of
        Data r \<Rightarrow> bind_res (pl_record cfg a r (pl_core pl)) (\<lambda>p. Inr (pl\<lparr>pl_core := p\<rparr>))
      | Control c \<Rightarrow>
          (case ctype c of
             KWatermark \<Rightarrow> Inr (pl\<lparr>pl_core := pl_watermark cfg (cwatermark c) (pl_core pl)\<rparr>)
           | KCheckpointBarrier \<Rightarrow>
               (if checkpointing_enabled cfg then pl_write_checkpoint env (checkpoint_offset c) pl
                else Inr pl)))"

section \<open>The loop\<close>

definition arrive :: "'s source \<Rightarrow> stop_mode list list \<Rightarrow> 's pipeline \<Rightarrow> 's pipeline \<times> stop_mode list list" where
  "arrive src reqs pl =
     (case reqs of [] \<Rightarrow> (pl, []) | r # rs \<Rightarrow> (fold (pl_request_stop src) r pl, rs))"

fun pl_loop ::
    "nat \<Rightarrow> pipeline_config \<Rightarrow> window_assigner \<Rightarrow> (u64 \<Rightarrow> write_outcome) \<Rightarrow> 's source \<Rightarrow>
     stop_mode list list \<Rightarrow> 's pipeline \<Rightarrow> ('s pipeline \<times> bool) res option" where
  "pl_loop 0 cfg a env src reqs pl = None"
| "pl_loop (Suc fuel) cfg a env src reqs pl =
     (let (pl1, reqs1) = arrive src reqs pl in
      case pl_stop pl1 of
        Some m \<Rightarrow> Some (Inr (pl1, m = KSuspend))
      | None \<Rightarrow>
          (case src_next src (pl_source pl1) of
             Inl e \<Rightarrow> Some (Inl e)
           | Inr (None, s) \<Rightarrow>
               (let (pl2, reqs2) = arrive src reqs1 (pl1\<lparr>pl_source := s\<rparr>)
                in Some (Inr (pl2, pl_stop pl2 = Some KSuspend)))
           | Inr (Some [], s) \<Rightarrow>
               pl_loop fuel cfg a env src reqs1
                 (pl1\<lparr>pl_source := s, pl_backoff := snd (backoff_wait (pl_backoff pl1))\<rparr>)
           | Inr (Some (it # its), s) \<Rightarrow>
               (case fold_res (pl_item cfg a env) (it # its) (pl1\<lparr>pl_source := s, pl_backoff := 0\<rparr>) of
                  Inl e \<Rightarrow> Some (Inl e)
                | Inr pl2 \<Rightarrow> pl_loop fuel cfg a env src reqs1 (publish_progress pl2))))"

declare pl_loop.simps(2) [simp del]

definition pl_finish ::
    "pipeline_config \<Rightarrow> (u64 \<Rightarrow> write_outcome) \<Rightarrow> 's source \<Rightarrow> 's pipeline \<times> bool \<Rightarrow>
     ('s pipeline \<times> pipeline_stats) res" where
  "pl_finish cfg env src r =
     (case r of (pl, suspend) \<Rightarrow>
        let replayed = (if checkpointing_enabled cfg then pl_restored_offset pl else 0) in
        if suspend then
          bind_res (if checkpointing_enabled cfg then pl_write_checkpoint env (src_offset src (pl_source pl)) pl
                    else Inr pl) (\<lambda>pl1.
            let p = pl_core pl1; pl2 = publish_progress (pl1\<lparr>pl_core := p\<lparr>effects := effects p @ [Flush]\<rparr>\<rparr>)
            in Inr (pl2, \<lparr>ps_counters = stats (pl_core pl2), ps_records_replayed = replayed, ps_suspended = True,
                          ps_suspend_offset = (if checkpointing_enabled cfg
                                               then Some (src_offset src (pl_source pl)) else None)\<rparr>))
        else
          let pl1 = publish_progress (pl\<lparr>pl_core := pl_final_flush cfg (pl_core pl)\<rparr>)
          in Inr (pl1, \<lparr>ps_counters = stats (pl_core pl1), ps_records_replayed = replayed, ps_suspended = False,
                        ps_suspend_offset = None\<rparr>))"

definition pl_run ::
    "nat \<Rightarrow> exn option \<Rightarrow> pipeline_config \<Rightarrow> window_assigner \<Rightarrow> (u64 \<Rightarrow> write_outcome) \<Rightarrow> 's source \<Rightarrow>
     stop_mode list list \<Rightarrow> 's pipeline \<Rightarrow> ('s pipeline \<times> pipeline_stats) res option" where
  "pl_run fuel io cfg a env src reqs pl =
     (if checkpointing_enabled cfg \<and> \<not> src_replayable src
      then Some (Inl (InvalidArgument ''checkpointing requires a replayable source''))
      else case (if checkpointing_enabled cfg then try_restore io cfg a src pl else Inr pl) of
             Inl e \<Rightarrow> Some (Inl e)
           | Inr pl1 \<Rightarrow>
               map_option (\<lambda>r. bind_res r (pl_finish cfg env src)) (pl_loop fuel cfg a env src reqs pl1))"

section \<open>The inlined handlers are the processor's handlers\<close>

definition as_config :: "pipeline_config \<Rightarrow> window_assigner \<Rightarrow> (u64 \<Rightarrow> write_outcome) \<Rightarrow> processor_config" where
  "as_config cfg a env =
     \<lparr>assigner = a, lateness = plc_lateness cfg,
      checkpoint_dir = (if checkpointing_enabled cfg then plc_checkpoint_dir cfg else []),
      checkpoint_write_ok = (\<lambda>off wm s. env off = WriteOk)\<rparr>"

lemma as_config_sel [simp]:
  "assigner (as_config cfg a env) = a" "lateness (as_config cfg a env) = plc_lateness cfg"
  "use_lateness (as_config cfg a env) = (plc_lateness cfg > 0)"
  "(checkpoint_dir (as_config cfg a env) \<noteq> []) = checkpointing_enabled cfg"
  "checkpoint_write_ok (as_config cfg a env) = (\<lambda>off wm s. env off = WriteOk)"
  by (simp_all add: as_config_def use_lateness_def checkpointing_enabled_def)

lemma pl_window_eq: "pl_window (plc_lateness cfg > 0) wm r w acc = process_window (as_config cfg a env) wm r w acc"
  by (cases acc; cases "add_with_lateness (fst acc) (key r) w (val r) wm")
     (auto simp: pl_window_def process_window_def Let_def)

lemma pl_record_eq: "pl_record cfg a r p = process_record (as_config cfg a env) r p"
proof -
  have w: "pl_window (plc_lateness cfg > 0) wm r = process_window (as_config cfg a env) wm r" for wm
    by (intro ext) (rule pl_window_eq)
  show ?thesis
    unfolding pl_record_def process_record_def w as_config_sel
    by (cases "assign_windows a (event_time r)"; simp)
       (auto simp: count_record_def Let_def split: sum.split)
qed

lemma fold_emit: "fold (\<lambda>row es. es @ [Emit row]) rows es = es @ map Emit rows"
  by (induction rows arbitrary: es) simp_all

lemma pl_fire_eq: "pl_fire = fire_first" "pl_refire = fire_again"
  by (auto simp: fun_eq_iff pl_fire_def pl_refire_def pl_emit_rows_def fire_first_def fire_again_def
      fire_and_emit_def Let_def split_def fold_emit)

lemma pl_refire_clear_eq: "pl_refire_clear = refire_all"
  by (auto simp: fun_eq_iff pl_refire_clear_def refire_all_def pl_fire_eq)

lemma pl_final_flush_eq: "pl_final_flush cfg p = final_flush (as_config cfg a env) p"
proof -
  have "(\<lambda>w q. if is_fired (state q) w then q else fire_first w q) =
        (\<lambda>w q. if \<not> is_fired (state q) w then fire_first w q else q)"
    by (intro ext) simp
  then show ?thesis
    unfolding pl_final_flush_def final_flush_def pl_fire_eq pl_refire_clear_eq Let_def by simp
qed

lemma fold_fire_watermark:
  "watermark (fold fire_first ws p) = watermark p" "watermark (fold fire_again ws p) = watermark p"
  by (induction ws arbitrary: p) (simp_all add: first.fire_watermark again.fire_watermark)

lemma pl_watermark_eq: "pl_watermark cfg wm p = process_watermark (as_config cfg a env) wm p"
proof (cases "watermark p < wm")
  case True
  let ?q = "after_expiry wm p"
  have "watermark (refire_all ?q) = wm"
    by (simp add: refire_all_def after_expiry_def Let_def fold_fire_watermark)
  then show ?thesis
    using True process_watermark_unfold(1) [OF True, of "as_config cfg a env"]
    by (simp add: pl_watermark_def wm_advance_def pl_fire_eq pl_refire_clear_eq after_expiry_def
        collect_garbage_def Let_def)
qed (simp add: process_watermark_unfold pl_watermark_def wm_advance_def)

lemma new_pipeline_core:
  "new_pipeline cfg src dir mf = Inr pl \<Longrightarrow> new_processor (as_config cfg a env) = Inr (pl_core pl) \<and>
     pl_source pl = src \<and> pl_dir pl = dir \<and> pl_manifest pl = mf \<and> pl_stop pl = None"
  by (auto simp: new_pipeline_def new_processor_def split: if_splits)

text \<open>
  The two engines in lockstep: an item takes the pipeline's state exactly where it takes the
  processor's, and fails exactly when the processor fails.
\<close>

lemma pl_write_ok:
  "pl_write_checkpoint env off pl = Inr pl' \<Longrightarrow> env off = WriteOk"
  by (auto simp: pl_write_checkpoint_def write_checkpoint_def Let_def split: if_splits write_outcome.splits)

lemma pl_item_lockstep:
  "map_res pl_core (pl_item cfg a env it pl) = process_item (as_config cfg a env) it (pl_core pl) \<or>
   (\<exists>e e'. pl_item cfg a env it pl = Inl e \<and> process_item (as_config cfg a env) it (pl_core pl) = Inl e')"
proof (cases it)
  case (Data r)
  then show ?thesis
    by (cases "pl_record cfg a r (pl_core pl)")
       (simp_all add: pl_item_def process_item_def pl_record_eq [of cfg a r _ env])
next
  case (Control c)
  show ?thesis
  proof (cases "ctype c")
    case KWatermark
    then show ?thesis using Control
      by (simp add: pl_item_def process_item_def process_control_def pl_watermark_eq [of cfg _ _ a env])
  next
    case KCheckpointBarrier
    then show ?thesis using Control
      by (cases "env (checkpoint_offset c)")
         (auto simp: pl_item_def process_item_def process_control_def process_barrier_def
           pl_write_checkpoint_def write_checkpoint_def Let_def)
  qed
qed

lemma pl_items_run:
  "fold_res (pl_item cfg a env) its pl = Inr pl' \<Longrightarrow> run_items (as_config cfg a env) its (pl_core pl) = Inr (pl_core pl')"
proof (induction its arbitrary: pl)
  case (Cons it its)
  then obtain q where q: "pl_item cfg a env it pl = Inr q" "fold_res (pl_item cfg a env) its q = Inr pl'" by auto
  then have "process_item (as_config cfg a env) it (pl_core pl) = Inr (pl_core q)"
    using pl_item_lockstep [of cfg a env it pl] by (metis Inl_Inr_False map_res_simps(2))
  then show ?case using Cons.IH [OF q(2)] by (simp add: run_items_def)
qed (simp add: run_items_def)

lemma pl_items_total:
  "run_items (as_config cfg a env) its (pl_core pl) = Inr p \<Longrightarrow> \<exists>pl'. fold_res (pl_item cfg a env) its pl = Inr pl'"
proof (induction its arbitrary: pl)
  case (Cons it its)
  then obtain c where c: "process_item (as_config cfg a env) it (pl_core pl) = Inr c"
      "run_items (as_config cfg a env) its c = Inr p" by (auto simp: run_items_def)
  then obtain q where "pl_item cfg a env it pl = Inr q" "pl_core q = c"
    using pl_item_lockstep [of cfg a env it pl] by (cases "pl_item cfg a env it pl") auto
  then show ?case using Cons.IH [of q] c by auto
qed simp

section \<open>What the loop consumes\<close>

lemma fold_request_stop_core [simp]:
  "pl_core (fold (pl_request_stop src) ms pl) = pl_core pl"
  "pl_dir (fold (pl_request_stop src) ms pl) = pl_dir pl"
  "pl_manifest (fold (pl_request_stop src) ms pl) = pl_manifest pl"
  by (induction ms arbitrary: pl) (simp_all add: pl_request_stop_def)

lemma arrive_core [simp]:
  "pl_core (fst (arrive src reqs pl)) = pl_core pl" "pl_dir (fst (arrive src reqs pl)) = pl_dir pl"
  "pl_manifest (fst (arrive src reqs pl)) = pl_manifest pl"
  by (simp_all add: arrive_def split: list.split)

lemma publish_core [simp]:
  "pl_core (publish_progress pl) = pl_core pl" "pl_dir (publish_progress pl) = pl_dir pl"
  "pl_source (publish_progress pl) = pl_source pl" "pl_manifest (publish_progress pl) = pl_manifest pl"
  by (simp_all add: publish_progress_def)

text \<open>Whatever the source and the requests do, the loop applies some sequence of whole items.\<close>

lemma pl_loop_runs_items:
  "pl_loop fuel cfg a env src reqs pl = Some (Inr (pl', suspend)) \<Longrightarrow>
   \<exists>its. run_items (as_config cfg a env) its (pl_core pl) = Inr (pl_core pl')"
proof (induction fuel arbitrary: reqs pl)
  case (Suc fuel)
  note prem = Suc.prems [unfolded pl_loop.simps(2)]
  obtain pl1 reqs1 where arr: "arrive src reqs pl = (pl1, reqs1)" by fastforce
  then have c1: "pl_core pl1 = pl_core pl" using arrive_core(1) [of src reqs pl] by simp
  show ?case
  proof (cases "pl_stop pl1")
    case (Some m)
    then have "pl' = pl1" using prem arr by simp
    then show ?thesis using c1 by (intro exI [of _ "[]"]) (simp add: run_items_def)
  next
    case None
    show ?thesis
    proof (cases "src_next src (pl_source pl1)")
      case (Inr bs)
      obtain b s where b: "bs = (b, s)" by (cases bs)
      show ?thesis
      proof (cases b)
        case None2: None
        obtain pl2 reqs2 where arr2: "arrive src reqs1 (pl1\<lparr>pl_source := s\<rparr>) = (pl2, reqs2)" by fastforce
        then have "pl' = pl2" using prem arr None Inr b None2 by simp
        moreover have "pl_core pl2 = pl_core pl1"
          using arrive_core(1) [of src reqs1 "pl1\<lparr>pl_source := s\<rparr>"] arr2 by simp
        ultimately show ?thesis using c1 by (intro exI [of _ "[]"]) (simp add: run_items_def)
      next
        case (Some items)
        show ?thesis
        proof (cases items)
          case Nil
          then show ?thesis
            using prem arr None Inr b Some c1
              Suc.IH [of reqs1 "pl1\<lparr>pl_source := s, pl_backoff := snd (backoff_wait (pl_backoff pl1))\<rparr>"] by simp
        next
          case (Cons it its)
          then obtain pl2 where pl2: "fold_res (pl_item cfg a env) items (pl1\<lparr>pl_source := s, pl_backoff := 0\<rparr>) = Inr pl2"
              "pl_loop fuel cfg a env src reqs1 (publish_progress pl2) = Some (Inr (pl', suspend))"
            using prem arr None Inr b Some by (auto split: sum.splits)
          obtain rest where "run_items (as_config cfg a env) rest (pl_core pl2) = Inr (pl_core pl')"
            using Suc.IH [OF pl2(2)] by auto
          then show ?thesis
            using pl_items_run [OF pl2(1)] c1
            by (intro exI [of _ "items @ rest"]) (simp add: run_items_def fold_res_append)
        qed
      qed
    qed (use prem arr None in simp)
  qed
qed simp

text \<open>The source hands over the batches \<open>bs\<close>, going from \<open>s\<close> to \<open>s'\<close>.\<close>

fun hands_over :: "'s source \<Rightarrow> 's \<Rightarrow> batch list \<Rightarrow> 's \<Rightarrow> bool" where
  "hands_over src s [] s' = (s' = s)"
| "hands_over src s (b # bs) s' = (\<exists>s1. src_next src s = Inr (Some b, s1) \<and> hands_over src s1 bs s')"

definition barrier_below :: "u64 \<Rightarrow> batch_item \<Rightarrow> bool" where
  "barrier_below off it =
     (case it of Control c \<Rightarrow> ctype c = KCheckpointBarrier \<longrightarrow> checkpoint_offset c \<le> off | Data r \<Rightarrow> True)"

definition dir_below :: "u64 \<Rightarrow> directory \<Rightarrow> bool" where
  "dir_below off d \<longleftrightarrow> um_wf d \<and> (\<forall>n \<in> set (ckpt_files d). n \<le> checkpoint_filename off)"

lemma filename_le: "a \<le> b \<Longrightarrow> checkpoint_filename a \<le> checkpoint_filename b"
  using checkpoint_filename_less [of b a] by (simp add: not_less [symmetric])

lemma write_keeps_below:
  assumes "write_checkpoint WriteOk retain_all o1 wm s d = (ok, d')" "dir_below off d" "o1 \<le> off"
  shows "dir_below off d'"
proof -
  let ?r = "AList.update (checkpoint_filename o1) (checkpoint_bytes o1 wm s)
    (om_erase (tmp_filename o1) (AList.update (tmp_filename o1) [] d))"
  have wf: "um_wf ?r" using assms(2) by (auto simp: dir_below_def intro!: inv_intros)
  have names: "n \<le> checkpoint_filename off" if "n \<in> set (ckpt_files ?r)" for n
    using that assms(2) filename_le [OF assms(3)]
    unfolding set_ckpt_files fst_set_renamed by (auto simp: dir_below_def set_ckpt_files)
  have r: "dir_below off ?r" using wf names by (simp add: dir_below_def)
  have "dir_below off (clean_old_checkpoints ?r)"
  proof -
    let ?ns = "drop 2 (newest_first (ckpt_files ?r))"
    have "fst ` set (fold om_erase ?ns ?r) \<subseteq> fst ` set ?r"
      unfolding dom_map_of_conv_image_fst [symmetric] dom_def by (auto simp: map_of_erase_all)
    then have "set (ckpt_files (clean_old_checkpoints ?r)) \<subseteq> set (ckpt_files ?r)"
      unfolding set_ckpt_files clean_old_checkpoints_def by blast
    then show ?thesis using wf names um_wf_erase_all unfolding dir_below_def clean_old_checkpoints_def by blast
  qed
  then show ?thesis using r assms(1) by (auto simp: write_checkpoint_def Let_def split: if_splits)
qed

lemma pl_write_keeps:
  assumes "pl_write_checkpoint env o1 pl = Inr pl'"
  shows "pl_source pl' = pl_source pl" "pl_stop pl' = pl_stop pl" "pl_manifest pl' = pl_manifest pl"
    "pl_restored_offset pl' = pl_restored_offset pl"
    "write_checkpoint WriteOk False o1 (watermark (pl_core pl)) (state (pl_core pl)) (pl_dir pl) = (True, pl_dir pl')"
    "watermark (pl_core pl') = watermark (pl_core pl)" "state (pl_core pl') = state (pl_core pl)"
    "effects (pl_core pl') = effects (pl_core pl) @
      [Flush, WriteCheckpoint o1 (watermark (pl_core pl)) (state (pl_core pl)), CheckpointListener o1]"
  using assms pl_write_ok [OF assms]
  by (auto simp: pl_write_checkpoint_def write_checkpoint_def Let_def)

lemma pl_item_keeps:
  assumes "pl_item cfg a env it pl = Inr pl'"
  shows "pl_source pl' = pl_source pl \<and> pl_stop pl' = pl_stop pl \<and> pl_manifest pl' = pl_manifest pl \<and>
    pl_restored_offset pl' = pl_restored_offset pl \<and>
    (dir_below off (pl_dir pl) \<and> barrier_below off it \<longrightarrow> dir_below off (pl_dir pl'))"
proof (cases it)
  case (Data r)
  then show ?thesis using assms by (auto simp: pl_item_def)
next
  case (Control c)
  show ?thesis
  proof (cases "ctype c = KCheckpointBarrier \<and> checkpointing_enabled cfg")
    case True
    then have w: "pl_write_checkpoint env (checkpoint_offset c) pl = Inr pl'"
      using Control assms by (simp add: pl_item_def)
    show ?thesis
      using pl_write_keeps [OF w] write_keeps_below [OF pl_write_keeps(5) [OF w]] Control True
      by (simp add: barrier_below_def)
  next
    case False
    then show ?thesis using Control assms by (cases "ctype c") (auto simp: pl_item_def)
  qed
qed

lemma pl_items_keep:
  "fold_res (pl_item cfg a env) its pl = Inr pl' \<Longrightarrow>
   pl_source pl' = pl_source pl \<and> pl_stop pl' = pl_stop pl \<and> pl_manifest pl' = pl_manifest pl \<and>
   pl_restored_offset pl' = pl_restored_offset pl \<and>
   (dir_below off (pl_dir pl) \<and> (\<forall>it \<in> set its. barrier_below off it) \<longrightarrow> dir_below off (pl_dir pl'))"
proof (induction its arbitrary: pl)
  case (Cons it its)
  then obtain q where q: "pl_item cfg a env it pl = Inr q" "fold_res (pl_item cfg a env) its q = Inr pl'" by auto
  show ?case using Cons.IH [OF q(2)] pl_item_keeps [OF q(1), of off] by simp
qed simp

lemma pl_loop_consumes:
  assumes "hands_over src (pl_source pl) bs s'" "pl_stop pl = None"
    and "run_items (as_config cfg a env) (concat bs) (pl_core pl) = Inr p"
  shows "\<exists>pl'. pl_loop (length bs + fuel) cfg a env src (replicate (length bs) [] @ reqs) pl =
      pl_loop fuel cfg a env src reqs pl' \<and>
    pl_core pl' = p \<and> pl_source pl' = s' \<and> pl_stop pl' = None \<and> pl_manifest pl' = pl_manifest pl \<and>
    pl_restored_offset pl' = pl_restored_offset pl \<and>
    (dir_below off (pl_dir pl) \<and> (\<forall>it \<in> set (concat bs). barrier_below off it) \<longrightarrow> dir_below off (pl_dir pl'))"
  using assms
proof (induction bs arbitrary: pl)
  case Nil
  then show ?case by (auto simp: run_items_def)
next
  case (Cons b bs)
  obtain s1 where s1: "src_next src (pl_source pl) = Inr (Some b, s1)" "hands_over src s1 bs s'"
    using Cons.prems(1) by auto
  obtain q where q: "run_items (as_config cfg a env) b (pl_core pl) = Inr q"
      "run_items (as_config cfg a env) (concat bs) q = Inr p"
    using Cons.prems(3) by (auto simp: run_items_def fold_res_append)
  show ?case
  proof (cases b)
    case Nil
    then have "q = pl_core pl" using q by (simp add: run_items_def)
    then show ?thesis
      using Cons.IH [of "pl\<lparr>pl_source := s1, pl_backoff := snd (backoff_wait (pl_backoff pl))\<rparr>"]
        s1 q Cons.prems Nil by (simp add: arrive_def pl_loop.simps(2) [of "length bs + fuel"])
  next
    case b: (Cons it its)
    let ?pl1 = "pl\<lparr>pl_source := s1, pl_backoff := 0\<rparr>"
    obtain pl2 where pl2: "fold_res (pl_item cfg a env) b ?pl1 = Inr pl2"
      using pl_items_total [of cfg a env b ?pl1] q(1) by auto
    have k: "pl_source pl2 = s1" "pl_stop pl2 = None" "pl_manifest pl2 = pl_manifest pl"
        "pl_restored_offset pl2 = pl_restored_offset pl"
        "dir_below off (pl_dir pl) \<and> (\<forall>it \<in> set b. barrier_below off it) \<longrightarrow> dir_below off (pl_dir pl2)"
      using pl_items_keep [OF pl2, of off] Cons.prems by auto
    have c: "pl_core pl2 = q" using pl_items_run [OF pl2] q(1) by simp
    have "pl_loop (length (b # bs) + fuel) cfg a env src (replicate (length (b # bs)) [] @ reqs) pl =
        pl_loop (length bs + fuel) cfg a env src (replicate (length bs) [] @ reqs) (publish_progress pl2)"
      using s1(1) pl2 b Cons.prems(2) by (auto simp: arrive_def pl_loop.simps(2) [of "length bs + fuel"])
    then show ?thesis
      using Cons.IH [of "publish_progress pl2"] k c s1(2) q(2) by (auto simp: publish_progress_def)
  qed
qed

lemma pl_loop_no_requests:
  "pl_loop fuel cfg a env src (replicate n []) pl = pl_loop fuel cfg a env src [] pl"
proof (induction fuel arbitrary: n pl)
  case (Suc fuel)
  have arr: "arrive src (replicate k []) q = (q, replicate (k - 1) [])" "arrive src [] q = (q, [])"
    for k and q :: "'a pipeline"
    by (cases k; simp add: arrive_def)+
  show ?case
    unfolding pl_loop.simps arr Let_def prod.case Suc.IH
    by (simp add: arr split: option.split sum.split prod.split list.split)
qed simp

section \<open>Suspend and resume\<close>

lemma digits_no_newline: "newline \<notin> set (digits_of n)"
proof (induction n rule: digits_of.induct)
  case (1 n)
  have "newline \<noteq> char_of (48 + d)" if "d < 10" for d :: nat
    using that by (auto simp: newline_def char_of_eq_iff take_bit_eq_mod dest!: arg_cong [of _ _ "of_char :: char \<Rightarrow> nat"])
  then show ?case using 1 by (subst digits_of.simps) auto
qed

lemma to_string_no_newline: "newline \<notin> set (to_string_int x)"
  using digits_no_newline by (simp add: to_string_int_def newline_def)

lemma pipeline_manifest_ok:
  assumes "newline \<notin> set (descriptor a)" "newline \<notin> set (src_descriptor src)"
  shows "\<forall>kv \<in> set (pipeline_manifest cfg a src). field_ok kv" "om_wf (pipeline_manifest cfg a src)"
proof -
  show "\<forall>kv \<in> set (pipeline_manifest cfg a src). field_ok kv"
    using assms to_string_no_newline by (simp add: pipeline_manifest_def field_ok_def newline_def)
  show "om_wf (pipeline_manifest cfg a src)"
    by (simp add: pipeline_manifest_def om_wf_def less_char_def)
qed

lemma restore_core_eq: "restore_core = restore"
  by (auto simp: fun_eq_iff restore_core_def restore_def)

lemma file_state_capture: "file_state off (watermark p) (state p) = capture off p"
  by (simp add: file_state_def capture_entries)

text \<open>A first run on an empty directory, suspended after the batches \<open>bs\<close>.\<close>

lemma suspended_run:
  assumes new: "new_pipeline cfg s0 [] None = Inr pl0"
    and en: "checkpointing_enabled cfg" "src_replayable src"
    and desc: "newline \<notin> set (descriptor a)" "newline \<notin> set (src_descriptor src)"
    and bs: "hands_over src s0 bs s1"
    and run: "run_items (as_config cfg a env) (concat bs) (pl_core pl0) = Inr p"
    and off: "off = src_offset src (src_cancel src s1)" "env off = WriteOk"
    and bars: "\<forall>it \<in> set (concat bs). barrier_below off it"
    and enc: "encodable (watermark p) (state p)"
  shows "\<exists>pl1 st. pl_run (length bs + Suc fuel) None cfg a env src (replicate (length bs) [] @ [[KSuspend]]) pl0 =
      Some (Inr (pl1, st)) \<and> ps_suspended st \<and> ps_suspend_offset st = Some off \<and>
    emitted_rows (effects (pl_core pl1)) = emitted_rows (effects p) \<and>
    fst (load_latest (pl_dir pl1)) = Some (capture off p) \<and>
    pl_manifest pl1 = Some (projr (serialize (pipeline_manifest cfg a src))) \<and>
    um_wf (pl_dir pl1)"
proof -
  obtain m where m: "serialize (pipeline_manifest cfg a src) = Inr m"
    using serialize_total [OF pipeline_manifest_ok(1) [OF desc]] unfolding serialize_def by blast
  have pl0: "pl_source pl0 = s0" "pl_dir pl0 = []" "pl_manifest pl0 = None" "pl_stop pl0 = None"
    using new_pipeline_core [OF new] by auto
  let ?pl = "pl0\<lparr>pl_manifest := Some m, pl_dir := []\<rparr>"
  have restore: "try_restore None cfg a src pl0 = Inr ?pl"
    using m pl0 by (simp add: try_restore_def validate_or_create_def has_checkpoint_files_def load_latest_def
        clean_tmp_files_def ckpt_files_def newest_first_def Let_def)
  obtain pl2 where pl2: "pl_loop (length bs + Suc fuel) cfg a env src (replicate (length bs) [] @ [[KSuspend]]) ?pl =
        pl_loop (Suc fuel) cfg a env src [[KSuspend]] pl2"
      "pl_core pl2 = p" "pl_source pl2 = s1" "pl_stop pl2 = None" "pl_manifest pl2 = Some m" "dir_below off (pl_dir pl2)"
    using pl_loop_consumes [of src ?pl bs s1 cfg a env p "Suc fuel" "[[KSuspend]]" off] bs run bars pl0
    by (auto simp: dir_below_def ckpt_files_def)
  let ?pl3 = "pl_request_stop src KSuspend pl2"
  have loop: "pl_loop (Suc fuel) cfg a env src [[KSuspend]] pl2 = Some (Inr (?pl3, True))"
    using pl2(4) by (simp add: arrive_def pl_request_stop_def request_stop_def pl_loop.simps(2))
  have c3: "pl_core ?pl3 = p" "pl_source ?pl3 = src_cancel src s1" "pl_manifest ?pl3 = Some m" "pl_dir ?pl3 = pl_dir pl2"
    using pl2 by (simp_all add: pl_request_stop_def)
  obtain pl4 where w: "pl_write_checkpoint env off ?pl3 = Inr pl4"
    using off(2) by (auto simp: pl_write_checkpoint_def write_checkpoint_def Let_def)
  note W = pl_write_keeps [OF w]
  have below: "\<And>n. n \<in> set (ckpt_files (pl_dir pl2)) \<Longrightarrow> n \<le> checkpoint_filename off" "um_wf (pl_dir pl2)"
    using pl2(6) by (auto simp: dir_below_def)
  have latest: "fst (load_latest (pl_dir pl4)) = Some (capture off p)"
    using load_latest_written [where retain_all = False, OF enc below(2,1)] W(5) c3 file_state_capture by simp
  have wf4: "um_wf (pl_dir pl4)"
    using write_keeps_below [OF W(5), of off] pl2(6) c3 by (simp add: dir_below_def)
  let ?p5 = "(pl_core pl4)\<lparr>effects := effects (pl_core pl4) @ [Flush]\<rparr>"
  let ?pl5 = "publish_progress (pl4\<lparr>pl_core := ?p5\<rparr>)"
  obtain st where fin: "pl_finish cfg env src (?pl3, True) = Inr (?pl5, st)"
      "ps_suspended st" "ps_suspend_offset st = Some off"
    using en w c3(2) off(1) by (simp add: pl_finish_def Let_def)
  have "pl_run (length bs + Suc fuel) None cfg a env src (replicate (length bs) [] @ [[KSuspend]]) pl0 =
      Some (Inr (?pl5, st))"
    unfolding pl_run_def using en restore pl2(1) loop fin(1) by simp
  moreover have "emitted_rows (effects (pl_core ?pl5)) = emitted_rows (effects p)"
    using W(8) c3(1) by (simp add: emitted_rows_def)
  moreover have "pl_dir ?pl5 = pl_dir pl4" "pl_manifest ?pl5 = Some m" using W(3) c3(3) by simp_all
  ultimately show ?thesis using fin(2,3) latest wf4 m by simp
qed

text \<open>The second run restores the checkpoint and finishes the stream.\<close>

lemma resumed_run:
  assumes new: "new_pipeline cfg s0 dir (Some m) = Inr pl0"
    and en: "checkpointing_enabled cfg" "src_replayable src"
    and desc: "newline \<notin> set (descriptor a)" "newline \<notin> set (src_descriptor src)"
    and m: "serialize (pipeline_manifest cfg a src) = Inr m"
    and latest: "fst (load_latest dir) = Some d" and wf: "um_wf dir"
    and seek: "src_seek src (cd_offset d) s0 = Inr s1" and bs: "hands_over src s1 bs s2"
    and fin: "src_next src s2 = Inr (None, s3)"
    and run: "run_items (as_config cfg a env) (concat bs) (restore d (pl_core pl0)) = Inr p"
  shows "\<exists>pl1 st. pl_run (length bs + Suc fuel) None cfg a env src [] pl0 = Some (Inr (pl1, st)) \<and>
    \<not> ps_suspended st \<and> ps_records_replayed st = cd_offset d \<and> ps_counters st = stats (pl_core pl1) \<and>
    pl_core pl1 = final_flush (as_config cfg a env) p"
proof -
  have pl0: "pl_source pl0 = s0" "pl_dir pl0 = dir" "pl_manifest pl0 = Some m" "pl_stop pl0 = None"
    using new_pipeline_core [OF new] by auto
  have lm: "load_manifest path m = Inr (pipeline_manifest cfg a src)" for path
    by (rule load_serialize [OF m pipeline_manifest_ok(2) [OF desc]])
  let ?pl = "pl0\<lparr>pl_manifest := Some m, pl_dir := snd (load_latest dir), pl_core := restore d (pl_core pl0),
      pl_source := s1, pl_restored_offset := cd_offset d, pl_last_checkpoint := Some (cd_offset d)\<rparr>"
  have restore: "try_restore None cfg a src pl0 = Inr ?pl"
    using m lm pl0 latest seek
    by (simp add: try_restore_def validate_or_create_def Let_def split_def restore_core_eq)
  obtain pl2 where pl2: "pl_loop (length bs + Suc fuel) cfg a env src [] ?pl = pl_loop (Suc fuel) cfg a env src [] pl2"
      "pl_core pl2 = p" "pl_source pl2 = s2" "pl_stop pl2 = None" "pl_restored_offset pl2 = cd_offset d"
    using pl_loop_consumes [of src ?pl bs s2 cfg a env p "Suc fuel" "[]"] bs run pl0
    by (auto simp: pl_loop_no_requests)
  have "pl_loop (Suc fuel) cfg a env src [] pl2 = Some (Inr (pl2\<lparr>pl_source := s3\<rparr>, False))"
    using pl2 fin by (simp add: arrive_def pl_loop.simps(2))
  moreover have "(checkpointing_enabled cfg \<and> \<not> src_replayable src) = False" using en by simp
  ultimately show ?thesis
    unfolding pl_run_def using restore en pl2 pl_final_flush_eq [of cfg p a env]
    by (simp add: pl_finish_def Let_def)
qed

text \<open>Together: the rows of the two runs are the rows of one uninterrupted run, in order.\<close>

lemma suspend_resume_rows:
  assumes new: "new_pipeline cfg s0 [] None = Inr pl0"
    and law: "lawful_assigner a width"
    and en: "checkpointing_enabled cfg" "src_replayable src"
    and desc: "newline \<notin> set (descriptor a)" "newline \<notin> set (src_descriptor src)"
    and bs: "hands_over src s0 bs s1"
    and off: "off = src_offset src (src_cancel src s1)" "env off = WriteOk"
    and bars: "\<forall>it \<in> set (concat bs). barrier_below off it"
    and run: "run_items (as_config cfg a env) (concat bs) (pl_core pl0) = Inr p"
    and enc: "encodable (watermark p) (state p)"
    and seek: "src_seek src off s0' = Inr s2" and cs: "hands_over src s2 cs s3"
    and fin: "src_next src s3 = Inr (None, s4)"
    and whole: "run_items (as_config cfg a env) (concat bs @ concat cs) (pl_core pl0) = Inr q"
  shows "\<exists>pl1 st1 plr pl2 st2.
    pl_run (length bs + Suc fuel) None cfg a env src (replicate (length bs) [] @ [[KSuspend]]) pl0 =
      Some (Inr (pl1, st1)) \<and> ps_suspended st1 \<and>
    new_pipeline cfg s0' (pl_dir pl1) (pl_manifest pl1) = Inr plr \<and>
    pl_run (length cs + Suc fuel) None cfg a env src [] plr = Some (Inr (pl2, st2)) \<and>
    \<not> ps_suspended st2 \<and> ps_records_replayed st2 = off \<and>
    emitted_rows (effects (pl_core pl1)) @ emitted_rows (effects (pl_core pl2)) =
      emitted_rows (effects (final_flush (as_config cfg a env) q))"
proof -
  let ?c = "as_config cfg a env"
  obtain pl1 st1 where r1: "pl_run (length bs + Suc fuel) None cfg a env src
        (replicate (length bs) [] @ [[KSuspend]]) pl0 = Some (Inr (pl1, st1))"
      "ps_suspended st1" "emitted_rows (effects (pl_core pl1)) = emitted_rows (effects p)"
      "fst (load_latest (pl_dir pl1)) = Some (capture off p)"
      "pl_manifest pl1 = Some (projr (serialize (pipeline_manifest cfg a src)))" "um_wf (pl_dir pl1)"
    using suspended_run [OF new en desc bs run off bars enc, of fuel] by blast
  obtain m where m: "serialize (pipeline_manifest cfg a src) = Inr m"
    using serialize_total [OF pipeline_manifest_ok(1) [OF desc]] unfolding serialize_def by blast
  have p0: "new_processor ?c = Inr (pl_core pl0)" using new_pipeline_core [OF new] by blast
  obtain plr where plr: "new_pipeline cfg s0' (pl_dir pl1) (Some m) = Inr plr"
    using new by (auto simp: new_pipeline_def split: if_splits)
  have cr: "pl_core plr = pl_core pl0"
    using new_pipeline_core [OF plr, of a env] p0 by simp
  have lw: "lawful_assigner (assigner ?c) width" using law by simp
  have "map_res (with_history (effects p) (stats p)) (run_items ?c (concat cs) (restore (capture off p) (pl_core pl0))) = Inr q"
    using restart_continues [OF p0 run lw, of "concat cs" off] whole by simp
  then obtain r where r: "run_items ?c (concat cs) (restore (capture off p) (pl_core pl0)) = Inr r"
      "q = with_history (effects p) (stats p) r"
    by (cases "run_items ?c (concat cs) (restore (capture off p) (pl_core pl0))") auto
  have co: "cd_offset (capture off p) = off" by (simp add: capture_def)
  obtain pl2 st2 where r2: "pl_run (length cs + Suc fuel) None cfg a env src [] plr = Some (Inr (pl2, st2))"
      "\<not> ps_suspended st2" "ps_records_replayed st2 = off" "pl_core pl2 = final_flush ?c r"
    using resumed_run [OF plr en desc m r1(4,6), of s2 cs s3 s4 env r fuel] seek cs fin r(1) cr co by auto
  have "effects (final_flush ?c q) = effects p @ effects (final_flush ?c r)"
    unfolding r(2) flush_with_history by simp
  then show ?thesis using r1 r2 plr m by auto
qed

section \<open>Properties\<close>

text \<open>
  C27. The single-threaded pipeline and the keyed processor of the partitioned engine, two copies
  of the same logic, agree: on every item either both throw or the pipeline's window state,
  watermark, counters and sink calls become those of the processor, and the final flush of the
  pipeline is that of the processor.
\<close>

theorem pipeline_agrees_with_processor:
  "((\<exists>pl'. pl_item cfg a env it pl = Inr pl' \<and>
        process_item (as_config cfg a env) it (pl_core pl) = Inr (pl_core pl')) \<or>
    (\<exists>e e'. pl_item cfg a env it pl = Inl e \<and> process_item (as_config cfg a env) it (pl_core pl) = Inl e')) \<and>
   pl_final_flush cfg p = final_flush (as_config cfg a env) p"
proof -
  have "pl_final_flush cfg p = final_flush (as_config cfg a env) p" by (rule pl_final_flush_eq)
  moreover have "(\<exists>pl'. pl_item cfg a env it pl = Inr pl' \<and>
        process_item (as_config cfg a env) it (pl_core pl) = Inr (pl_core pl')) \<or>
    (\<exists>e e'. pl_item cfg a env it pl = Inl e \<and> process_item (as_config cfg a env) it (pl_core pl) = Inl e')"
    using pl_item_lockstep [of cfg a env it pl] by (cases "pl_item cfg a env it pl") (auto dest: sym)
  ultimately show ?thesis by blast
qed

end
