(* ===== verification/Durable_Sink.thy ===== *)
theory Durable_Sink
  imports Pipeline_Engine "HOL-Library.Product_Lexorder" "HOL-Library.Sublist"
begin

text \<open>
  The append-only result log \<open>src/src/sink/durable_file_sink.cpp\<close>. The file is its bytes; the
  results of \<open>write\<close>, \<open>pread\<close>, \<open>fsync\<close> and the other system calls are parameters, and a list of
  results that ends before the loop reading it does is a process killed at that point (the
  value \<open>None\<close>). Reads of the log carry their bounds. Shown here: a log written across
  any number of killed writers reads back as whole records, every acknowledged one among
  them, and the latest view of a crashed and replayed job is that of an uninterrupted run.
\<close>

section \<open>Writing a record\<close>

datatype write_result = WriteInterrupted | WriteError | Wrote nat

text \<open>\<open>WriteAll\<close>, with the bytes that reached the file; \<open>write\<close> takes at most what it is offered.\<close>

fun write_all :: "write_result list \<Rightarrow> bytes \<Rightarrow> bool option \<times> bytes" where
  "write_all rs [] = (Some True, [])"
| "write_all [] data = (None, [])"
| "write_all (WriteInterrupted # rs) data = write_all rs data"
| "write_all (WriteError # rs) data = (Some False, [])"
| "write_all (Wrote k # rs) data =
     (let n = min k (length data) in
      if n = 0 then (Some False, [])
      else (case write_all rs (drop n data) of (ok, w) \<Rightarrow> (ok, take n data @ w)))"

definition frame_row :: "window_result \<Rightarrow> bytes" where
  "frame_row r =
     (let b1 = append_le32 [] (of_nat (length (res_key r)));
          b2 = b1 @ bytes_of_string (res_key r);
          b3 = append_sle64 b2 (wstart (res_window r));
          b4 = append_sle64 b3 (wend (res_window r));
          b5 = append_sle64 b4 (agg_value (res_result r))
      in append_le64 b5 (agg_count (res_result r)))"

record durable_sink =
  ds_open :: bool
  ds_file :: bytes

definition sink_flush :: "bool \<Rightarrow> durable_sink \<Rightarrow> unit res" where
  "sink_flush fsync_ok s = (if ds_open s \<and> \<not> fsync_ok then Inl (SystemError ''fsync sink'') else Inr ())"

definition sink_emit :: "write_result list \<Rightarrow> bool \<Rightarrow> window_result \<Rightarrow> durable_sink \<Rightarrow> unit res option \<times> durable_sink" where
  "sink_emit rs fsync_ok r s =
     (if \<not> ds_open s then (Some (Inr ()), s)
      else (case write_all rs (frame_row r) of
          (ok, w) \<Rightarrow>
            let s' = s\<lparr>ds_file := ds_file s @ w\<rparr> in
            (case ok of
               None \<Rightarrow> (None, s')
             | Some False \<Rightarrow> (Some (Inl (SystemError ''write sink'')), s')
             | Some True \<Rightarrow> (Some (sink_flush fsync_ok s'), s'))))"

section \<open>Reading the log\<close>

text \<open>\<open>ParseRecords\<close>: the rows and the length of the valid prefix.\<close>

definition parse_row :: "bytes \<Rightarrow> nat \<Rightarrow> nat \<Rightarrow> window_result load" where
  "parse_row data pos key_len =
     bind_load (rd_string data (pos + 4) key_len) (\<lambda>k.
     bind_load (rds64 data (pos + 4 + key_len)) (\<lambda>start.
     bind_load (rds64 data (pos + 4 + key_len + 8)) (\<lambda>end_ms.
     bind_load (rds64 data (pos + 4 + key_len + 16)) (\<lambda>s.
     bind_load (rd64 data (pos + 4 + key_len + 24)) (\<lambda>c.
     Loaded (window_row k (Window start end_ms) \<lparr>agg_value = s, agg_count = c\<rparr>))))))"

function parse_records :: "bytes \<Rightarrow> nat \<Rightarrow> window_result list \<Rightarrow> (window_result list \<times> nat) load" where
  "parse_records data pos results =
     (if pos + 4 \<le> length data then
        (case rd32 data pos of
           Loaded key_len \<Rightarrow>
             let record_size = 4 + unat key_len + 32 in
             if length data < pos + record_size then Loaded (results, pos)
             else bind_load (parse_row data pos (unat key_len)) (\<lambda>r.
                    parse_records data (pos + record_size) (results @ [r]))
         | Fault \<Rightarrow> Fault
         | Reject \<Rightarrow> Reject)
      else Loaded (results, pos))"
  by pat_completeness auto

termination parse_records
  by (relation "measure (\<lambda>(data, pos, _). length data - pos)") auto

declare parse_records.simps [simp del]

datatype pread_result = PreadInterrupted | PreadError | Pread nat

text \<open>\<open>ReadFd\<close>. \<open>pread\<close> returns at least one byte before the end of the file: \<open>Pread k\<close> is a
  read of \<open>k + 1\<close> bytes, cut to what is left.\<close>

fun read_loop :: "pread_result list \<Rightarrow> nat \<Rightarrow> nat \<Rightarrow> bytes \<Rightarrow> bytes res option" where
  "read_loop rs got limit content =
     (if limit \<le> got then Some (Inr (take got content))
      else (case rs of
          [] \<Rightarrow> None
        | PreadInterrupted # rs' \<Rightarrow> read_loop rs' got limit content
        | PreadError # rs' \<Rightarrow> Some (Inl (SystemError ''read sink''))
        | Pread k # rs' \<Rightarrow>
            let n = min (Suc k) (length content - got) in
            if n = 0 then Some (Inr (take got content)) else read_loop rs' (got + n) limit content))"

declare read_loop.simps [simp del]

definition read_fd :: "bool \<Rightarrow> pread_result list \<Rightarrow> bytes \<Rightarrow> bytes res option" where
  "read_fd stat_ok rs content =
     (if \<not> stat_ok then Some (Inl (SystemError ''stat sink''))
      else read_loop rs 0 (length content) content)"

section \<open>Opening, and the two views\<close>

datatype open_mode = KAppend | KTruncate

record open_io =
  oi_open_ok :: bool
  oi_stat_ok :: bool
  oi_reads :: "pread_result list"
  oi_truncate_ok :: bool
  oi_fsync_ok :: bool

text \<open>The result of the constructor beside the file it leaves.\<close>

definition open_sink :: "open_io \<Rightarrow> open_mode \<Rightarrow> bytes option \<Rightarrow> durable_sink res option \<times> bytes option" where
  "open_sink io mode f =
     (if \<not> oi_open_ok io then (Some (Inl (SystemError ''open sink'')), f)
      else (case mode of
          KTruncate \<Rightarrow> (Some (Inr \<lparr>ds_open = True, ds_file = []\<rparr>), Some [])
        | KAppend \<Rightarrow>
            let content = (case f of Some b \<Rightarrow> b | None \<Rightarrow> []) in
            (case read_fd (oi_stat_ok io) (oi_reads io) content of
               None \<Rightarrow> (None, Some content)
             | Some (Inl x) \<Rightarrow> (Some (Inl x), Some content)
             | Some (Inr data) \<Rightarrow>
                 (case parse_records data 0 [] of
                    Loaded (_, valid) \<Rightarrow>
                      if valid \<noteq> length data then
                        if \<not> oi_truncate_ok io then (Some (Inl (SystemError ''truncate torn sink tail'')), Some content)
                        else let s = \<lparr>ds_open = True, ds_file = take valid content\<rparr> in
                          (Some (bind_res (sink_flush (oi_fsync_ok io) s) (\<lambda>_. Inr s)), Some (take valid content))
                      else (Some (Inr \<lparr>ds_open = True, ds_file = content\<rparr>), Some content)
                  | _ \<Rightarrow> (None, Some content)))))"

definition read_all :: "bool \<Rightarrow> bool \<Rightarrow> pread_result list \<Rightarrow> bytes option \<Rightarrow> window_result list load option" where
  "read_all open_ok stat_ok rs f =
     (case f of
        None \<Rightarrow> Some (Loaded [])
      | Some content \<Rightarrow>
          if \<not> open_ok then Some (Loaded [])
          else (case read_fd stat_ok rs content of
              None \<Rightarrow> None
            | Some (Inl x) \<Rightarrow> Some (Loaded [])
            | Some (Inr data) \<Rightarrow>
                Some (bind_load (parse_records data 0 []) (\<lambda>(results, _). Loaded results))))"

type_synonym slot = "int \<times> string \<times> int"

definition slot_of :: "window_result \<Rightarrow> slot" where
  "slot_of r = (wstart (res_window r), res_key r, wend (res_window r))"

definition latest_rows :: "window_result list \<Rightarrow> window_result list" where
  "latest_rows rs = map snd (fold (\<lambda>r m. om_set (slot_of r) r m) rs [])"

definition read_latest :: "bool \<Rightarrow> bool \<Rightarrow> pread_result list \<Rightarrow> bytes option \<Rightarrow> window_result list load option" where
  "read_latest open_ok stat_ok rs f =
     map_option (\<lambda>m. bind_load m (\<lambda>results. Loaded (latest_rows results))) (read_all open_ok stat_ok rs f)"

section \<open>Records and torn records\<close>

definition row_good :: "window_result \<Rightarrow> bool" where
  "row_good r \<longleftrightarrow> length (res_key r) < 2 ^ 32 \<and> in_i64 (wstart (res_window r)) \<and> in_i64 (wend (res_window r))
     \<and> in_i64 (agg_value (res_result r))"

lemma frame_row_alt: "frame_row r = le32 (of_nat (length (res_key r))) @ bytes_of_string (res_key r)
    @ sle64 (wstart (res_window r)) @ sle64 (wend (res_window r)) @ sle64 (agg_value (res_result r))
    @ le64 (agg_count (res_result r))"
  by (simp add: frame_row_def Let_def append_sle64_acc [of "x @ y" for x y] append_sle64_acc [of "append_sle64 b v" for b v]
      append_le64_acc [of "append_sle64 b v" for b v] append_le64_acc [of "x @ y" for x y])

lemma length_frame_row: "length (frame_row r) = 4 + length (res_key r) + 32"
  by (simp add: frame_row_alt)

lemma key_len_exact: "row_good r \<Longrightarrow> unat (of_nat (length (res_key r)) :: u32) = length (res_key r)"
  by (simp add: row_good_def unat_of_nat take_bit_nat_eq_self)

lemma parse_row_frame:
  assumes "row_good r"
  shows "parse_row (a @ frame_row r @ c) (length a) (length (res_key r)) = Loaded r"
proof -
  let ?k = "res_key r" and ?w = "res_window r" and ?g = "res_result r"
  let ?l = "le32 (of_nat (length ?k) :: u32)"
  have data: "a @ frame_row r @ c = (a @ ?l) @ bytes_of_string ?k @ sle64 (wstart ?w) @ sle64 (wend ?w)
      @ sle64 (agg_value ?g) @ le64 (agg_count ?g) @ c"
    by (simp add: frame_row_alt)
  have "rd_string (a @ frame_row r @ c) (length a + 4) (length ?k) = Loaded ?k"
    unfolding data by (rule rd_field(4)) simp_all
  moreover have "rds64 (a @ frame_row r @ c) (length a + 4 + length ?k) = Loaded (wstart ?w)"
    using rd_field(3) [of "a @ ?l @ bytes_of_string ?k" "length a + 4 + length ?k" "wstart ?w"] assms
    by (simp add: data row_good_def)
  moreover have "rds64 (a @ frame_row r @ c) (length a + 4 + length ?k + 8) = Loaded (wend ?w)"
    using rd_field(3) [of "a @ ?l @ bytes_of_string ?k @ sle64 (wstart ?w)" "length a + 4 + length ?k + 8" "wend ?w"] assms
    by (simp add: data row_good_def)
  moreover have "rds64 (a @ frame_row r @ c) (length a + 4 + length ?k + 16) = Loaded (agg_value ?g)"
    using rd_field(3) [of "a @ ?l @ bytes_of_string ?k @ sle64 (wstart ?w) @ sle64 (wend ?w)"
        "length a + 4 + length ?k + 16" "agg_value ?g"] assms
    by (simp add: data row_good_def)
  moreover have "rd64 (a @ frame_row r @ c) (length a + 4 + length ?k + 24) = Loaded (agg_count ?g)"
    using rd_field(2) [of "a @ ?l @ bytes_of_string ?k @ sle64 (wstart ?w) @ sle64 (wend ?w) @ sle64 (agg_value ?g)"
        "length a + 4 + length ?k + 24" "agg_count ?g"]
    by (simp add: data)
  ultimately show ?thesis
    by (cases r; cases ?w; cases ?g) (simp add: parse_row_def window_row_def)
qed

text \<open>A torn record: a proper prefix of the bytes of some record.\<close>

definition torn :: "bytes \<Rightarrow> bool" where
  "torn t \<longleftrightarrow> t = [] \<or> (\<exists>r. row_good r \<and> strict_prefix t (frame_row r))"

lemma parse_torn:
  assumes "torn t"
  shows "parse_records (a @ t) (length a) acc = Loaded (acc, length a)"
proof (cases "4 \<le> length t")
  case True
  then obtain r s where r: "row_good r" "t @ s = frame_row r" "s \<noteq> []"
    using assms by (auto simp: torn_def strict_prefix_def prefix_def)
  have "length t + length s = 4 + length (res_key r) + 32"
    using arg_cong [OF r(2), of length] by (simp add: length_frame_row)
  then have "length t < 4 + length (res_key r) + 32" using r(3) by (cases s) auto
  moreover have "take 4 t = le32 (of_nat (length (res_key r)))"
    using True arg_cong [OF r(2), of "take 4"] by (simp add: frame_row_alt)
  then have "t = le32 (of_nat (length (res_key r))) @ drop 4 t" by (metis append_take_drop_id)
  then have "rd32 (a @ t) (length a) = Loaded (of_nat (length (res_key r)))" by (metis rd_field(1))
  ultimately show ?thesis
    using True by (subst parse_records.simps) (simp add: Let_def key_len_exact [OF r(1)])
qed (simp add: parse_records.simps [of "a @ t"])

lemma parse_rows:
  "list_all row_good rs \<Longrightarrow> parse_records (a @ concat (map frame_row rs) @ u) (length a) acc =
    parse_records (a @ concat (map frame_row rs) @ u) (length (a @ concat (map frame_row rs))) (acc @ rs)"
proof (induction rs arbitrary: a acc)
  case (Cons r rs)
  let ?d = "a @ frame_row r @ concat (map frame_row rs) @ u"
  have "rd32 ?d (length a) = Loaded (of_nat (length (res_key r)))"
    using rd_field(1) [of a "length a" "of_nat (length (res_key r))"] by (simp add: frame_row_alt)
  moreover have "parse_row ?d (length a) (length (res_key r)) = Loaded r"
    using parse_row_frame Cons.prems by simp
  moreover have "length a + 4 \<le> length ?d" "\<not> length ?d < length a + (4 + length (res_key r) + 32)"
    by (simp_all add: length_frame_row)
  ultimately have "parse_records ?d (length a) acc = parse_records ?d (length a + (4 + length (res_key r) + 32)) (acc @ [r])"
    using Cons.prems by (subst parse_records.simps) (simp add: Let_def key_len_exact)
  then show ?case using Cons.IH [of "a @ frame_row r" "acc @ [r]"] Cons.prems by (simp add: length_frame_row)
qed simp

lemma parse_log:
  assumes "list_all row_good rs" "torn t"
  shows "parse_records (a @ concat (map frame_row rs) @ t) (length a) acc =
    Loaded (acc @ rs, length a + length (concat (map frame_row rs)))"
  using parse_rows [OF assms(1), of a t acc] parse_torn [OF assms(2), of "a @ concat (map frame_row rs)" "acc @ rs"] by simp

lemma load_string: "pos + n \<le> length data \<Longrightarrow> \<exists>s. rd_string data pos n = Loaded s"
  by (simp add: rd_string_def)

lemma parse_row_in_bounds: "pos + (4 + n + 32) \<le> length data \<Longrightarrow> \<exists>r. parse_row data pos n = Loaded r"
  by (simp add: parse_row_def rd_in_bounds)

lemma parse_in_bounds: "\<exists>rs valid. parse_records data pos acc = Loaded (rs, valid) \<and> (pos \<le> length data \<longrightarrow> valid \<le> length data)"
proof (induction data pos acc rule: parse_records.induct)
  case (1 data pos acc)
  show ?case
  proof (cases "pos + 4 \<le> length data")
    case True
    then obtain n where n: "rd32 data pos = Loaded n" by (simp add: rd_in_bounds)
    show ?thesis
    proof (cases "length data < pos + (4 + unat n + 32)")
      case False
      then obtain r where r: "parse_row data pos (unat n) = Loaded r" using parse_row_in_bounds by fastforce
      have "\<exists>rs valid. parse_records data (pos + (4 + unat n + 32)) (acc @ [r]) = Loaded (rs, valid)
          \<and> (pos + (4 + unat n + 32) \<le> length data \<longrightarrow> valid \<le> length data)"
        by (rule "1.IH" [OF True n refl False])
      with True False n r show ?thesis by (subst parse_records.simps) (simp add: Let_def)
    qed (use True n in \<open>subst parse_records.simps, simp add: Let_def\<close>)
  qed (simp add: parse_records.simps [of data])
qed

section \<open>What reaches the file\<close>

lemma write_all_prefix: "write_all rs data = (ok, w) \<Longrightarrow> prefix w data \<and> (ok = Some True \<longrightarrow> w = data)"
proof (induction rs data arbitrary: ok w rule: write_all.induct)
  case (5 k rs x xs)
  let ?n = "min k (length (x # xs))"
  show ?case
  proof (cases "?n = 0")
    case False
    obtain ok' w' where w: "write_all rs (drop ?n (x # xs)) = (ok', w')" by fastforce
    have "ok = ok' \<and> w = take ?n (x # xs) @ w'"
      using "5.prems" unfolding write_all.simps Let_def by (simp only: False if_False w prod.case prod.inject)
    moreover have "prefix w' (drop ?n (x # xs)) \<and> (ok' = Some True \<longrightarrow> w' = drop ?n (x # xs))"
      using "5.IH" [OF refl False w] by simp
    ultimately show ?thesis by (metis append_take_drop_id same_prefix_prefix)
  qed (use "5.prems" in \<open>auto simp: Let_def\<close>)
qed auto

lemma read_loop_exact:
  "read_loop rs got (length content) content = Some (Inr data) \<Longrightarrow> data = content"
proof (induction rs arbitrary: got)
  case (Cons r rs)
  then show ?case
    by (subst (asm) (2) read_loop.simps) (auto simp: Let_def split: if_splits pread_result.splits)
qed (auto simp: read_loop.simps [of "[]"] split: if_splits)

definition reads_enough :: "pread_result list \<Rightarrow> bytes \<Rightarrow> bool" where
  "reads_enough rs content \<longleftrightarrow> PreadError \<notin> set rs \<and> length content \<le> length (filter (\<lambda>r. r \<noteq> PreadInterrupted) rs)"

lemma read_loop_returns:
  "PreadError \<notin> set rs \<Longrightarrow> length content - got \<le> length (filter (\<lambda>r. r \<noteq> PreadInterrupted) rs)
   \<Longrightarrow> read_loop rs got (length content) content = Some (Inr content)"
proof (induction rs arbitrary: got)
  case (Cons r rs)
  show ?case
  proof (cases r)
    case (Pread k)
    have "length content - (got + min (Suc k) (length content - got)) \<le> length (filter (\<lambda>r. r \<noteq> PreadInterrupted) rs)"
      using Cons.prems Pread by auto
    with Cons Pread show ?thesis by (subst read_loop.simps) (auto simp: Let_def)
  next
    case PreadInterrupted
    with Cons show ?thesis by (subst read_loop.simps) simp
  qed (use Cons.prems in simp)
qed (simp add: read_loop.simps [of "[]"])

lemma read_fd_returns: "reads_enough rs content \<Longrightarrow> read_fd True rs content = Some (Inr content)"
  by (simp add: read_fd_def reads_enough_def read_loop_returns)

text \<open>The file of a log: whole records, then at most one torn one.\<close>

definition log_bytes :: "window_result list \<Rightarrow> bytes" where
  "log_bytes rs = concat (map frame_row rs)"

lemma log_bytes_simps [simp]:
  "log_bytes [] = []" "log_bytes (xs @ ys) = log_bytes xs @ log_bytes ys" "log_bytes [r] = frame_row r"
  by (simp_all add: log_bytes_def)

lemmas parse_log_bytes = parse_log [where a = "[]" and acc = "[]", folded log_bytes_def, simplified]

lemma read_all_log:
  assumes "list_all row_good rs" "torn t" "reads_enough io (log_bytes rs @ t)"
  shows "read_all True True io (Some (log_bytes rs @ t)) = Some (Loaded rs)"
  using read_fd_returns [OF assms(3)] parse_log_bytes [OF assms(1,2)] by (simp add: read_all_def)

lemma open_append_log:
  assumes "list_all row_good rs" "torn t" "open_sink io KAppend (Some (log_bytes rs @ t)) = (res, f)"
  shows "f = Some (log_bytes rs @ t) \<or> f = Some (log_bytes rs)"
    and "res = Some (Inr d) \<Longrightarrow> d = \<lparr>ds_open = True, ds_file = log_bytes rs\<rparr> \<and> f = Some (log_bytes rs)"
proof -
  have *: "data = log_bytes rs @ t" if "read_fd (oi_stat_ok io) (oi_reads io) (log_bytes rs @ t) = Some (Inr data)" for data
    using that read_loop_exact by (auto simp: read_fd_def split: if_splits)
  show "f = Some (log_bytes rs @ t) \<or> f = Some (log_bytes rs)"
    using assms(3) * parse_log_bytes [OF assms(1,2)]
    by (auto simp: open_sink_def Let_def split: if_splits option.splits sum.splits)
  show "d = \<lparr>ds_open = True, ds_file = log_bytes rs\<rparr> \<and> f = Some (log_bytes rs)" if "res = Some (Inr d)"
    using assms(3) that * parse_log_bytes [OF assms(1,2)]
    by (auto simp: open_sink_def Let_def sink_flush_def split: if_splits option.splits sum.splits)
qed

lemma emit_log:
  assumes "sink_emit ws ok r \<lparr>ds_open = True, ds_file = log_bytes rs\<rparr> = (res, d)" "row_good r"
  shows "ds_file d = log_bytes (rs @ [r]) \<or> res \<noteq> Some (Inr ()) \<and> (\<exists>t. torn t \<and> ds_file d = log_bytes rs @ t)"
    and "ds_open d" "res = Some (Inr ()) \<Longrightarrow> d = \<lparr>ds_open = True, ds_file = log_bytes (rs @ [r])\<rparr>"
proof -
  obtain k w where w: "write_all ws (frame_row r) = (k, w)" by fastforce
  note P = write_all_prefix [OF w]
  have d: "d = \<lparr>ds_open = True, ds_file = log_bytes rs @ w\<rparr>"
    using assms(1) w by (auto simp: sink_emit_def Let_def split: option.splits bool.splits)
  then show "ds_open d" by simp
  have k: "k = Some True" if "res = Some (Inr ())"
    using assms(1) w that by (auto simp: sink_emit_def Let_def split: option.splits bool.splits)
  show "res = Some (Inr ()) \<Longrightarrow> d = \<lparr>ds_open = True, ds_file = log_bytes (rs @ [r])\<rparr>" using k P d by simp
  show "ds_file d = log_bytes (rs @ [r]) \<or> res \<noteq> Some (Inr ()) \<and> (\<exists>t. torn t \<and> ds_file d = log_bytes rs @ t)"
  proof (cases "w = frame_row r")
    case False
    then have "torn w" using P assms(2) by (auto simp: torn_def strict_prefix_def)
    moreover have "res \<noteq> Some (Inr ())" using k P False by auto
    ultimately show ?thesis using d by auto
  qed (use d in simp)
qed

section \<open>A log over many writers\<close>

text \<open>
  The life of a log file: writers open it in append mode and emit rows with arbitrary
  results of their system calls; a writer that is killed or whose call throws is gone.
\<close>

datatype log_event = OpenLog open_io | EmitRow "write_result list" bool window_result

record log_state =
  lg_file :: "bytes option"
  lg_sink :: "durable_sink option"
  lg_acked :: "window_result list"
  lg_tried :: "window_result list"

fun log_step :: "log_event \<Rightarrow> log_state \<Rightarrow> log_state" where
  "log_step (OpenLog io) s =
     (case open_sink io KAppend (lg_file s) of (res, f) \<Rightarrow>
        s\<lparr>lg_file := f, lg_sink := (case res of Some (Inr d) \<Rightarrow> Some d | _ \<Rightarrow> None)\<rparr>)"
| "log_step (EmitRow ws ok r) s =
     (case lg_sink s of
        None \<Rightarrow> s
      | Some d \<Rightarrow>
          (case sink_emit ws ok r d of (res, d') \<Rightarrow>
             s\<lparr>lg_file := Some (ds_file d'), lg_tried := lg_tried s @ [r],
               lg_sink := (if res = Some (Inr ()) then Some d' else None),
               lg_acked := (if res = Some (Inr ()) then lg_acked s @ [r] else lg_acked s)\<rparr>))"

definition new_log :: log_state where
  "new_log = \<lparr>lg_file = None, lg_sink = None, lg_acked = [], lg_tried = []\<rparr>"

definition log_inv :: "window_result list \<Rightarrow> log_state \<Rightarrow> bool" where
  "log_inv rows s \<longleftrightarrow> list_all row_good rows \<and> subseq (lg_acked s) rows \<and> subseq rows (lg_tried s)
     \<and> (\<exists>t. torn t \<and> (case lg_file s of None \<Rightarrow> [] | Some b \<Rightarrow> b) = log_bytes rows @ t)
     \<and> (\<forall>d. lg_sink s = Some d \<longrightarrow> d = \<lparr>ds_open = True, ds_file = log_bytes rows\<rparr> \<and> lg_file s = Some (log_bytes rows))"

lemma open_absent: "open_sink io KAppend None = (res, f) \<Longrightarrow>
    (f = None \<and> (\<forall>d. res \<noteq> Some (Inr d))) \<or> open_sink io KAppend (Some []) = (res, f)"
  by (auto simp: open_sink_def split: if_splits)

lemma torn_Nil [simp]: "torn []"
  by (simp add: torn_def)

lemma open_keeps_log:
  assumes "log_inv rows s"
  shows "log_inv rows (log_step (OpenLog io) s)"
proof -
  obtain t where t: "torn t" "(case lg_file s of None \<Rightarrow> [] | Some b \<Rightarrow> b) = log_bytes rows @ t"
    using assms by (auto simp: log_inv_def)
  obtain res f where o: "open_sink io KAppend (lg_file s) = (res, f)" by fastforce
  have good: "list_all row_good rows" using assms by (simp add: log_inv_def)
  have "(\<exists>t. torn t \<and> (case f of None \<Rightarrow> [] | Some b \<Rightarrow> b) = log_bytes rows @ t)
      \<and> (\<forall>d. res = Some (Inr d) \<longrightarrow> d = \<lparr>ds_open = True, ds_file = log_bytes rows\<rparr> \<and> f = Some (log_bytes rows))"
  proof (cases "lg_file s = None \<and> f = None \<and> (\<forall>d. res \<noteq> Some (Inr d))")
    case True
    then show ?thesis using t by auto
  next
    case False
    have "open_sink io KAppend (Some (log_bytes rows @ t)) = (res, f)"
      using o False t(2) open_absent [of io res f] by (cases "lg_file s") auto
    from open_append_log [OF good t(1) this] show ?thesis using t(1) torn_Nil by fastforce
  qed
  then show ?thesis using assms o by (auto simp: log_inv_def split: option.splits sum.splits)
qed

lemma subseq_snoc: "subseq xs ys \<Longrightarrow> subseq xs (ys @ [y])"
  by (meson list_emb_append2 subseq_order.order_trans subseq_order.order_refl prefix_imp_subseq prefixI)

lemma emit_keeps_log:
  assumes "log_inv rows s" "row_good r"
  shows "\<exists>rows'. log_inv rows' (log_step (EmitRow ws ok r) s)"
proof (cases "lg_sink s")
  case (Some d)
  obtain res d' where e: "sink_emit ws ok r d = (res, d')" by fastforce
  have d: "d = \<lparr>ds_open = True, ds_file = log_bytes rows\<rparr>" using assms(1) Some by (simp add: log_inv_def)
  note E = emit_log [OF e [unfolded d] assms(2)]
  show ?thesis
  proof (cases "ds_file d' = log_bytes (rows @ [r])")
    case True
    have "log_inv (rows @ [r]) (log_step (EmitRow ws ok r) s)"
      using assms Some e True E(3) by (auto simp: log_inv_def intro: list_emb_append_mono subseq_snoc
          intro!: exI [of _ "[]"])
    then show ?thesis by blast
  next
    case False
    then have "res \<noteq> Some (Inr ()) \<and> (\<exists>t. torn t \<and> ds_file d' = log_bytes rows @ t)" using E(1) by blast
    then have "log_inv rows (log_step (EmitRow ws ok r) s)"
      using assms Some e by (auto simp: log_inv_def intro: subseq_snoc)
    then show ?thesis by blast
  qed
qed (use assms in auto)

definition event_good :: "log_event \<Rightarrow> bool" where
  "event_good e = (case e of OpenLog io \<Rightarrow> True | EmitRow ws ok r \<Rightarrow> row_good r)"

lemma log_history_inv: "list_all event_good es \<Longrightarrow> log_inv rows s \<Longrightarrow> \<exists>rows'. log_inv rows' (fold log_step es s)"
proof (induction es arbitrary: rows s)
  case (Cons e es)
  obtain rows' where "log_inv rows' (log_step e s)"
    using Cons.prems open_keeps_log emit_keeps_log [of rows s]
    by (cases e) (fastforce simp: event_good_def simp del: log_step.simps)+
  with Cons show ?case by auto
qed auto

section \<open>The latest view\<close>

lemma find_append: "find P (xs @ ys) = (case find P xs of None \<Rightarrow> find P ys | Some x \<Rightarrow> Some x)"
  by (induction xs) simp_all

lemma fold_latest:
  "om_wf m \<Longrightarrow> om_wf (fold (\<lambda>r m. om_set (slot_of r) r m) rs m)
   \<and> map_of (fold (\<lambda>r m. om_set (slot_of r) r m) rs m) = map_of m ++ (\<lambda>k. find (\<lambda>r. slot_of r = k) (rev rs))"
proof (induction rs arbitrary: m)
  case (Cons r rs)
  have "map_of (om_set (slot_of r) r m) ++ (\<lambda>k. find (\<lambda>r. slot_of r = k) (rev rs)) =
      map_of m ++ (\<lambda>k. find (\<lambda>r. slot_of r = k) (rev (r # rs)))"
    by (auto simp: fun_eq_iff store_simps map_add_def find_append split: option.splits)
  with Cons.IH [OF om_wf_set [OF Cons.prems]] show ?case by simp
qed (simp add: map_add_def)

lemma latest_rows_cong:
  assumes "\<And>k. find (\<lambda>r. slot_of r = k) (rev xs) = find (\<lambda>r. slot_of r = k) (rev ys)"
  shows "latest_rows xs = latest_rows ys"
proof -
  have "fold (\<lambda>r m. om_set (slot_of r) r m) xs [] = fold (\<lambda>r m. om_set (slot_of r) r m) ys []"
    using fold_latest [of "[]" xs] fold_latest [of "[]" ys] assms by (intro om_wf_eqI) (auto simp: fun_eq_iff map_add_def)
  then show ?thesis by (simp add: latest_rows_def)
qed

text \<open>Rows that are written again later do not show.\<close>

lemma latest_rows_replayed:
  assumes "set b \<subseteq> set c"
  shows "latest_rows (a @ b @ c) = latest_rows (a @ c)"
proof (rule latest_rows_cong)
  fix k
  show "find (\<lambda>r. slot_of r = k) (rev (a @ b @ c)) = find (\<lambda>r. slot_of r = k) (rev (a @ c))"
  proof (cases "find (\<lambda>r. slot_of r = k) (rev c)")
    case None
    then have "find (\<lambda>r. slot_of r = k) (rev b) = None" using assms by (auto simp: find_None_iff)
    with None show ?thesis by (simp add: find_append)
  qed (simp add: find_append)
qed

section \<open>A crashed and replayed job\<close>

text \<open>Rows emitted one after the other; a row without system call results is one the process
  was killed before.\<close>

fun emit_rows :: "(write_result list \<times> bool) list \<Rightarrow> window_result list \<Rightarrow> durable_sink \<Rightarrow> unit res option \<times> durable_sink" where
  "emit_rows io [] s = (Some (Inr ()), s)"
| "emit_rows [] (r # rs) s = (None, s)"
| "emit_rows ((ws, ok) # io) (r # rs) s =
     (case sink_emit ws ok r s of (res, s') \<Rightarrow>
        if res = Some (Inr ()) then emit_rows io rs s' else (res, s'))"

lemma emit_rows_log:
  assumes "emit_rows io rs \<lparr>ds_open = True, ds_file = log_bytes done0\<rparr> = (res, d)" "list_all row_good rs"
  shows "\<exists>b t. prefix b rs \<and> torn t \<and> ds_file d = log_bytes (done0 @ b) @ t"
    and "res = Some (Inr ()) \<Longrightarrow> d = \<lparr>ds_open = True, ds_file = log_bytes (done0 @ rs)\<rparr>"
proof -
  have "(\<exists>b t. prefix b rs \<and> torn t \<and> ds_file d = log_bytes (done0 @ b) @ t)
      \<and> (res = Some (Inr ()) \<longrightarrow> d = \<lparr>ds_open = True, ds_file = log_bytes (done0 @ rs)\<rparr>)"
    using assms
  proof (induction io rs "\<lparr>ds_open = True, ds_file = log_bytes done0\<rparr>" arbitrary: done0 rule: emit_rows.induct)
    case (1 io)
    then show ?case by (auto intro!: exI [of _ "[]"])
  next
    case (2 r rs)
    then show ?case by (auto intro!: exI [of _ "[]"])
  next
    case (3 ws ok io r rs)
    obtain res1 d1 where e: "sink_emit ws ok r \<lparr>ds_open = True, ds_file = log_bytes done0\<rparr> = (res1, d1)" by fastforce
    note E = emit_log [OF e]
    show ?case
    proof (cases "res1 = Some (Inr ())")
      case True
      have d1: "d1 = \<lparr>ds_open = True, ds_file = log_bytes (done0 @ [r])\<rparr>" using E(3) True 3 by simp
      have "emit_rows io rs d1 = (res, d)" using "3.prems"(1) e True by simp
      then have "(\<exists>b t. prefix b rs \<and> torn t \<and> ds_file d = log_bytes ((done0 @ [r]) @ b) @ t)
          \<and> (res = Some (Inr ()) \<longrightarrow> d = \<lparr>ds_open = True, ds_file = log_bytes ((done0 @ [r]) @ rs)\<rparr>)"
        using "3.hyps" [OF e [symmetric, unfolded d1] True] "3.prems"(2) d1 by simp
      then show ?thesis by (metis Cons_prefix_Cons append.assoc append_Cons append_Nil)
    next
      case False
      then have "res = res1" "d = d1" using "3.prems"(1) e by simp_all
      moreover have "prefix [] (r # rs)" "prefix [r] (r # rs)" by simp_all
      ultimately show ?thesis using E(1) False "3.prems"(2) torn_Nil
        by (metis append_Nil2 list.pred_inject(2))
    qed
  qed
  then show "\<exists>b t. prefix b rs \<and> torn t \<and> ds_file d = log_bytes (done0 @ b) @ t"
    "res = Some (Inr ()) \<Longrightarrow> d = \<lparr>ds_open = True, ds_file = log_bytes (done0 @ rs)\<rparr>" by blast+
qed

lemma effects_grow: "run_items cfg its p = Inr q \<Longrightarrow> \<exists>es. effects q = effects p @ es"
proof -
  assume r: "run_items cfg its p = Inr q"
  let ?p = "p\<lparr>effects := [], stats := zero_stats\<rparr>"
  have "p = with_history (effects p) (stats p) ?p"
    by (simp add: with_history_def add_stats_def zero_stats_def)
  then have "run_items cfg its p = map_res (with_history (effects p) (stats p)) (run_items cfg its ?p)"
    by (metis run_with_history)
  with r show ?thesis by (cases "run_items cfg its ?p") auto
qed

lemma flush_grows: "\<exists>es. effects (final_flush cfg p) = effects p @ es"
proof -
  let ?p = "p\<lparr>effects := [], stats := zero_stats\<rparr>"
  have "p = with_history (effects p) (stats p) ?p"
    by (simp add: with_history_def add_stats_def zero_stats_def)
  then have "final_flush cfg p = with_history (effects p) (stats p) (final_flush cfg ?p)"
    by (metis flush_with_history)
  then show ?thesis by auto
qed

section \<open>System calls that succeed\<close>

lemma emit_succeeds:
  assumes "length (frame_row r) \<le> k"
  shows "sink_emit [Wrote k] True r \<lparr>ds_open = True, ds_file = f\<rparr> = (Some (Inr ()), \<lparr>ds_open = True, ds_file = f @ frame_row r\<rparr>)"
proof -
  obtain x xs where "frame_row r = x # xs" by (cases "frame_row r") (use length_frame_row [of r] in auto)
  with assms have "write_all [Wrote k] (frame_row r) = (Some True, frame_row r)" by (simp add: Let_def min_def)
  then show ?thesis by (simp add: sink_emit_def sink_flush_def)
qed

lemma emit_rows_succeed:
  "list_all (\<lambda>r. length (frame_row r) \<le> k) rs \<Longrightarrow> emit_rows (replicate (length rs) ([Wrote k], True)) rs \<lparr>ds_open = True, ds_file = f\<rparr>
    = (Some (Inr ()), \<lparr>ds_open = True, ds_file = f @ log_bytes rs\<rparr>)"
  by (induction rs arbitrary: f) (simp_all add: emit_succeeds log_bytes_def)

lemma open_append_succeeds:
  assumes "list_all row_good rs" "torn t" "reads_enough (oi_reads io) (log_bytes rs @ t)"
    and "oi_open_ok io" "oi_stat_ok io" "oi_truncate_ok io" "oi_fsync_ok io"
  shows "open_sink io KAppend (Some (log_bytes rs @ t)) =
    (Some (Inr \<lparr>ds_open = True, ds_file = log_bytes rs\<rparr>), Some (log_bytes rs))"
  using read_fd_returns [OF assms(3)] parse_log_bytes [OF assms(1,2)] assms(4-7)
  by (simp add: open_sink_def Let_def sink_flush_def)

lemma enough_reads: "length content \<le> n \<Longrightarrow> reads_enough (replicate n (Pread k)) content"
  by (simp add: reads_enough_def)

definition good_open :: open_io where
  "good_open = \<lparr>oi_open_ok = True, oi_stat_ok = True, oi_reads = replicate 200 (Pread 9), oi_truncate_ok = True,
     oi_fsync_ok = True\<rparr>"

definition sample_row :: "int \<Rightarrow> window_result" where
  "sample_row v = window_row ''k'' (Window 0 10) \<lparr>agg_value = v, agg_count = 1\<rparr>"

lemma sample_row_good: "in_i64 v \<Longrightarrow> row_good (sample_row v)" "length (frame_row (sample_row v)) = 37"
  by (simp_all add: row_good_def sample_row_def in_i64_def i64_nums length_frame_row)

section \<open>Properties\<close>

text \<open>
  C32. The log survives its writers. After any sequence of opens and emits, whatever their system
  calls return and wherever a writer is killed, reading the file back gives whole rows only: a
  subsequence of the rows ever emitted that contains, in order, every row whose \<open>Emit\<close>
  returned.
\<close>

theorem durable_log_survives:
  assumes "list_all event_good es" "s = fold log_step es new_log"
  shows "\<exists>rows. subseq (lg_acked s) rows \<and> subseq rows (lg_tried s) \<and>
    (\<forall>io. reads_enough io (case lg_file s of None \<Rightarrow> [] | Some b \<Rightarrow> b) \<longrightarrow>
       read_all True True io (lg_file s) = Some (Loaded rows))"
proof -
  have "log_inv [] new_log" by (auto simp: log_inv_def new_log_def)
  then obtain rows where inv: "log_inv rows s" using log_history_inv [OF assms(1)] assms(2) by blast
  then obtain t where t: "torn t" "(case lg_file s of None \<Rightarrow> [] | Some b \<Rightarrow> b) = log_bytes rows @ t"
      "list_all row_good rows"
    by (auto simp: log_inv_def)
  have "read_all True True io (lg_file s) = Some (Loaded rows)"
    if "reads_enough io (case lg_file s of None \<Rightarrow> [] | Some b \<Rightarrow> b)" for io
  proof (cases "lg_file s")
    case None
    then have "rows = []" using t(2) by (cases rows) (auto simp: log_bytes_def frame_row_alt append_le32_def)
    with None show ?thesis by (simp add: read_all_def)
  qed (use read_all_log [OF t(3,1)] t(2) that in auto)
  with inv show ?thesis by (auto simp: log_inv_def)
qed

theorem durable_log_survives_witness:
  "\<exists>rows s. s = fold log_step [OpenLog good_open, EmitRow [Wrote 99] True (sample_row 5),
       EmitRow [WriteInterrupted, Wrote 11] True (sample_row 6), OpenLog good_open, EmitRow [Wrote 30, Wrote 99] True (sample_row 7)] new_log
     \<and> subseq (lg_acked s) rows \<and> subseq rows (lg_tried s)
     \<and> (\<exists>io. read_all True True io (lg_file s) = Some (Loaded rows))"
proof -
  let ?es = "[OpenLog good_open, EmitRow [Wrote 99] True (sample_row 5),
       EmitRow [WriteInterrupted, Wrote 11] True (sample_row 6), OpenLog good_open, EmitRow [Wrote 30, Wrote 99] True (sample_row 7)]"
  have "list_all event_good ?es" using sample_row_good(1) by (simp add: event_good_def in_i64_def i64_nums)
  from durable_log_survives [OF this refl] enough_reads show ?thesis by (meson order_refl)
qed

text \<open>
  C12. The latest view hides a crash. A job takes a checkpoint after \<open>xs\<close>, its rows so far being in
  the log, goes on into \<open>zs\<close> and dies with any part of the following rows written; a new
  process reopens the log, restores the checkpoint, processes the replayed stream \<open>zs @ ws\<close> to
  its end and flushes. Then \<open>ReadLatest\<close> returns exactly what it would return for a job that
  processed the whole stream without a crash.
\<close>

theorem latest_view_hides_crash:
  assumes "new_processor cfg = Inr p0" "run_items cfg xs p0 = Inr p" "lawful_assigner (assigner cfg) width"
    and "run_items cfg zs p = Inr c" "emitted_rows (effects c) = emitted_rows (effects p) @ rest"
    and "run_items cfg (xs @ zs @ ws) p0 = Inr whole"
    and "run_items cfg (zs @ ws) (restore (capture off p) p0) = Inr q"
    and "list_all row_good (emitted_rows (effects (final_flush cfg whole)))"
    and "emit_rows io1 (emitted_rows (effects p)) \<lparr>ds_open = True, ds_file = []\<rparr> = (Some (Inr ()), d1)"
    and "emit_rows io2 rest d1 = (res, d2)"
    and "open_sink io KAppend (Some (ds_file d2)) = (Some (Inr d3), f)"
    and "emit_rows io3 (emitted_rows (effects (final_flush cfg q))) d3 = (Some (Inr ()), d4)"
    and "reads_enough rs (ds_file d4)"
  shows "read_latest True True rs (Some (ds_file d4)) =
    Some (Loaded (latest_rows (emitted_rows (effects (final_flush cfg whole)))))"
proof -
  let ?E = "emitted_rows (effects p)" and ?R = "emitted_rows (effects (final_flush cfg q))"
  have whole: "whole = with_history (effects p) (stats p) q"
    using restart_continues [OF assms(1-3), of "zs @ ws" off] assms(6,7) by simp
  then have rows: "emitted_rows (effects (final_flush cfg whole)) = ?E @ ?R" by (simp add: flush_with_history)
  then have good: "list_all row_good ?E" "list_all row_good ?R" using assms(8) by simp_all
  have pre: "prefix rest ?R"
  proof -
    have "run_items cfg (xs @ zs) p0 = Inr c" using assms(2,4) by (simp add: run_items_append)
    then have "run_items cfg ws c = Inr whole" using assms(6) by (auto simp: run_items_append simp flip: append_assoc)
    then obtain es where "effects whole = effects c @ es" using effects_grow by blast
    moreover obtain es' where "effects (final_flush cfg whole) = effects whole @ es'" using flush_grows by blast
    ultimately have "?E @ ?R = ?E @ rest @ emitted_rows es @ emitted_rows es'"
      using rows assms(5) by (metis append.assoc emitted_rows_append)
    then show ?thesis by (metis prefixI same_append_eq)
  qed
  then have rest: "list_all row_good rest" using good(2) by (auto simp: prefix_def)
  have d1: "d1 = \<lparr>ds_open = True, ds_file = log_bytes ?E\<rparr>"
    using emit_rows_log(2) [of io1 ?E "[]"] assms(9) good(1) by simp
  obtain b t where b: "prefix b rest" "torn t" "ds_file d2 = log_bytes (?E @ b) @ t"
    using emit_rows_log(1) [OF assms(10) [unfolded d1] rest] by blast
  have gb: "list_all row_good (?E @ b)" using good(1) rest b(1) by (auto simp: prefix_def)
  have "d3 = \<lparr>ds_open = True, ds_file = log_bytes (?E @ b)\<rparr>"
    using open_append_log(2) [OF gb b(2)] assms(11) b(3) by auto
  then have d4: "ds_file d4 = log_bytes (?E @ b @ ?R)"
    using emit_rows_log(2) [of io3 ?R "?E @ b"] assms(12) good(2) by simp
  have "list_all row_good (?E @ b @ ?R)" using gb good(2) by simp
  then have "read_all True True rs (Some (ds_file d4)) = Some (Loaded (?E @ b @ ?R))"
    using read_all_log [OF _ torn_Nil, of "?E @ b @ ?R" rs] assms(13) d4 by simp
  moreover have "set b \<subseteq> set ?R" using b(1) pre by (metis prefix_order.order_trans set_mono_prefix)
  ultimately show ?thesis using latest_rows_replayed rows by (simp add: read_latest_def)
qed

definition crash_before :: "batch_item list" where
  "crash_before = take 5 sample_stream"

definition crash_after :: "batch_item list" where
  "crash_after = drop 5 sample_stream"

definition rows_before :: "window_result list" where
  "rows_before = [window_row ''a'' (Window 0 10) \<lparr>agg_value = 5, agg_count = 1\<rparr>, window_row ''b'' (Window 0 10) \<lparr>agg_value = 7, agg_count = 1\<rparr>]"

definition rows_lost :: "window_result list" where
  "rows_lost = [window_row ''a'' (Window 0 10) \<lparr>agg_value = 6, agg_count = 2\<rparr>, window_row ''b'' (Window 0 10) \<lparr>agg_value = 7, agg_count = 1\<rparr>]"

definition rows_after :: "window_result list" where
  "rows_after = rows_lost @ [window_row ''b'' (Window 20 30) \<lparr>agg_value = 4, agg_count = 1\<rparr>]"

lemma crash_rows_good:
  "list_all row_good (rows_before @ rows_after)" "list_all (\<lambda>r. length (frame_row r) \<le> 99) (rows_before @ rows_after)"
  by (simp_all add: rows_before_def rows_after_def rows_lost_def row_good_def in_i64_def i64_nums length_frame_row)

lemma crash_runs:
  obtains p0 p c q where "new_processor sample_job = Inr p0" "run_items sample_job crash_before p0 = Inr p"
    "emitted_rows (effects p) = rows_before" "run_items sample_job (take 1 crash_after) p = Inr c"
    "emitted_rows (effects c) = rows_before @ rows_lost"
    "run_items sample_job crash_after (restore (capture 3 p) p0) = Inr q"
    "emitted_rows (effects (final_flush sample_job q)) = rows_after"
proof -
  have "(case new_processor sample_job of Inl e \<Rightarrow> False | Inr p0 \<Rightarrow>
      (case run_items sample_job crash_before p0 of Inl e \<Rightarrow> False | Inr p \<Rightarrow>
        emitted_rows (effects p) = rows_before \<and>
        (case run_items sample_job (take 1 crash_after) p of Inl e \<Rightarrow> False
         | Inr c \<Rightarrow> emitted_rows (effects c) = rows_before @ rows_lost) \<and>
        (case run_items sample_job crash_after (restore (capture 3 p) p0) of Inl e \<Rightarrow> False
         | Inr q \<Rightarrow> emitted_rows (effects (final_flush sample_job q)) = rows_after)))"
    by code_simp
  then show thesis using that by (auto split: sum.splits)
qed

theorem latest_view_hides_crash_witness:
  "\<exists>p0 whole d2 d3 d4 f rs. new_processor sample_job = Inr p0 \<and> run_items sample_job sample_stream p0 = Inr whole
     \<and> emit_rows [([Wrote 11], True)] rows_lost \<lparr>ds_open = True, ds_file = log_bytes rows_before\<rparr> = (None, d2)
     \<and> open_sink good_open KAppend (Some (ds_file d2)) = (Some (Inr d3), f)
     \<and> emit_rows (replicate 3 ([Wrote 99], True)) rows_after d3 = (Some (Inr ()), d4)
     \<and> read_latest True True rs (Some (ds_file d4)) =
         Some (Loaded (latest_rows (emitted_rows (effects (final_flush sample_job whole)))))"
proof -
  obtain p0 p c q where r: "new_processor sample_job = Inr p0" "run_items sample_job crash_before p0 = Inr p"
    "emitted_rows (effects p) = rows_before" "run_items sample_job (take 1 crash_after) p = Inr c"
    "emitted_rows (effects c) = rows_before @ rows_lost"
    "run_items sample_job crash_after (restore (capture 3 p) p0) = Inr q"
    "emitted_rows (effects (final_flush sample_job q)) = rows_after"
    using crash_runs .
  have streams: "sample_stream = crash_before @ take 1 crash_after @ drop 1 crash_after"
      "take 1 crash_after @ drop 1 crash_after = crash_after"
    unfolding crash_before_def crash_after_def by (simp_all only: append_take_drop_id)
  obtain whole where whole: "run_items sample_job sample_stream p0 = Inr whole"
      "emitted_rows (effects (final_flush sample_job whole)) = rows_before @ rows_after"
    using restart_continues [OF r(1,2) sample_lawful, of crash_after 3] r(3,6,7) streams
    by (simp add: flush_with_history)
  let ?d1 = "\<lparr>ds_open = True, ds_file = log_bytes rows_before\<rparr>"
  let ?t = "take 11 (frame_row (hd rows_lost))"
  have w: "write_all [Wrote 11] (frame_row (hd rows_lost)) = (None, ?t)"
  proof -
    obtain x xs where "frame_row (hd rows_lost) = x # xs" "11 < length (x # xs)"
      using length_frame_row [of "hd rows_lost"] by (cases "frame_row (hd rows_lost)") auto
    then show ?thesis by (cases "drop 11 (x # xs)") (auto simp: Let_def)
  qed
  have d2: "emit_rows [([Wrote 11], True)] rows_lost ?d1 = (None, \<lparr>ds_open = True, ds_file = log_bytes rows_before @ ?t\<rparr>)"
    using w by (simp add: rows_lost_def sink_emit_def)
  have "torn ?t"
    using crash_rows_good(1) length_frame_row [of "hd rows_lost"]
    by (auto simp: torn_def rows_after_def rows_lost_def strict_prefix_def take_is_prefix intro!: exI [of _ "hd rows_lost"])
  moreover have "length (log_bytes rows_before @ ?t) \<le> 200"
    by (simp add: log_bytes_def rows_before_def length_frame_row)
  ultimately have d3: "open_sink good_open KAppend (Some (log_bytes rows_before @ ?t)) =
      (Some (Inr ?d1), Some (log_bytes rows_before))"
    using crash_rows_good(1) enough_reads by (intro open_append_succeeds) (auto simp: good_open_def)
  have d1: "emit_rows (replicate 2 ([Wrote 99], True)) rows_before \<lparr>ds_open = True, ds_file = []\<rparr> = (Some (Inr ()), ?d1)"
    using emit_rows_succeed [of 99 rows_before "[]"] crash_rows_good(2) by (simp add: rows_before_def numeral_2_eq_2)
  have d4: "emit_rows (replicate 3 ([Wrote 99], True)) rows_after ?d1 =
      (Some (Inr ()), \<lparr>ds_open = True, ds_file = log_bytes rows_before @ log_bytes rows_after\<rparr>)"
    using emit_rows_succeed [of 99 rows_after] crash_rows_good(2)
    by (simp add: rows_after_def rows_lost_def numeral_3_eq_3 del: emit_rows.simps)
  show ?thesis
    using latest_view_hides_crash [where zs = "take 1 crash_after" and ws = "drop 1 crash_after" and off = 3,
        OF r(1,2) sample_lawful r(4) _ _ _ _ _ d2 _ _ enough_reads [OF order_refl]]
      r whole d1 d2 d3 d4 crash_rows_good(1) streams
    by fastforce
qed

section \<open>A sink used after a failed write\<close>

lemma failed_write_torn: "write_all rs data = (Some False, w) \<Longrightarrow> strict_prefix w data"
proof (induction rs data arbitrary: w rule: write_all.induct)
  case (5 k rs x xs)
  let ?n = "min k (length (x # xs))"
  show ?case
  proof (cases "?n = 0")
    case False
    then obtain w' where w: "write_all rs (drop ?n (x # xs)) = (Some False, w')" "w = take ?n (x # xs) @ w'"
      using "5.prems" by (auto simp: Let_def simp del: drop_Suc_Cons take_Suc_Cons split: prod.splits if_splits)
    have "strict_prefix w' (drop ?n (x # xs))" using "5.IH" [OF refl False w(1)] .
    then show ?thesis unfolding w(2) by (metis append_take_drop_id strict_prefix_def same_append_eq same_prefix_prefix)
  qed (use "5.prems" in \<open>auto simp: Let_def\<close>)
qed auto

lemma bytes_of_string_of_bytes [simp]: "bytes_of_string (string_of_bytes b) = b" "length (string_of_bytes b) = length b"
proof -
  have "of_char (char_of (unat x)) = x" for x :: u8
  proof -
    have "unat x < 256" using unsigned_less [of x, where 'a = nat] by simp
    then have "(of_char (char_of (unat x)) :: nat) = unat x" by simp
    then have "unat (of_char (char_of (unat x)) :: u8) = unat x" by (simp only: unat_of_char)
    then show ?thesis by (simp only: word_unat_eq_iff)
  qed
  then show "bytes_of_string (string_of_bytes b) = b" by (simp add: bytes_of_string_def string_of_bytes_def comp_def)
qed (simp add: string_of_bytes_def)

text \<open>Any bytes with the right length field are the bytes of a row.\<close>

lemma bytes_are_row:
  assumes "length c = 4 + k + 32" "take 4 c = le32 (of_nat k)" "k < 2 ^ 32"
  shows "\<exists>r. row_good r \<and> length (res_key r) = k \<and> frame_row r = c"
proof -
  define word where "word i = take 8 (drop (4 + k + i) c)" for i
  define field where "field i = sint (read_le64 (word i))" for i
  have len: "length (word i) = 8" if "i \<le> 24" for i using that assms(1) by (simp add: word_def)
  have le: "sle64 (field i) = word i" "in_i64 (field i)" if "i \<le> 24" for i
    using le64_read [OF len [OF that]] by (simp_all add: field_def append_sle64_def in_i64_sint)
  let ?r = "window_row (string_of_bytes (take k (drop 4 c))) (Window (field 0) (field 8))
      \<lparr>agg_value = field 16, agg_count = read_le64 (word 24)\<rparr>"
  have split: "c = take 4 c @ take k (drop 4 c) @ word 0 @ word 8 @ word 16 @ word 24"
  proof -
    have last: "drop (4 + k + 24) c = word 24" using assms(1) by (simp add: word_def)
    have more: "drop (4 + k + i) c = word i @ drop (4 + k + (i + 8)) c" for i
      using append_take_drop_id [of 8 "drop (4 + k + i) c"] by (simp add: word_def ac_simps)
    have "drop (4 + k) c = word 0 @ word 8 @ word 16 @ word 24"
      using more [of 0] more [of 8] more [of 16] last by simp
    then have "drop 4 c = take k (drop 4 c) @ word 0 @ word 8 @ word 16 @ word 24"
      using append_take_drop_id [of k "drop 4 c"] by (simp add: ac_simps)
    then show ?thesis using append_take_drop_id [of 4 c] by simp
  qed
  have "length (res_key ?r) = k" using assms(1) by (simp add: window_row_def string_of_bytes_def)
  moreover have "frame_row ?r = c"
    using split [symmetric] assms(1,2) le(1) le64_read [OF len, of 24] by (simp add: frame_row_alt window_row_def)
  moreover have "row_good ?r" using le(2) calculation(1) assms(3) by (simp add: row_good_def window_row_def)
  ultimately show ?thesis by blast
qed

text \<open>A row read behind a position takes no more bytes than are left there.\<close>

lemma parse_rest:
  "\<exists>rs valid. parse_records data pos acc = Loaded (acc @ rs, valid) \<and> (\<forall>r \<in> set rs. length (frame_row r) \<le> length data - pos)"
proof (induction data pos acc rule: parse_records.induct)
  case (1 data pos acc)
  show ?case
  proof (cases "pos + 4 \<le> length data")
    case True
    then obtain n where n: "rd32 data pos = Loaded n" by (simp add: rd_in_bounds)
    show ?thesis
    proof (cases "length data < pos + (4 + unat n + 32)")
      case False
      then obtain r where r: "parse_row data pos (unat n) = Loaded r" using parse_row_in_bounds by fastforce
      then have "length (frame_row r) = 4 + unat n + 32"
        using False by (auto simp: parse_row_def length_frame_row window_row_def rd_string_def string_of_bytes_def rd_in_bounds)
      moreover obtain rs valid where "parse_records data (pos + (4 + unat n + 32)) (acc @ [r]) = Loaded ((acc @ [r]) @ rs, valid)"
          "\<forall>r \<in> set rs. length (frame_row r) \<le> length data - (pos + (4 + unat n + 32))"
        using "1.IH" [OF True n refl False] by blast
      ultimately show ?thesis
        using True False n r by (subst parse_records.simps) (fastforce simp: Let_def intro: exI [of _ "r # rs"])
    qed (use True n in \<open>subst parse_records.simps, simp add: Let_def\<close>)
  qed (simp add: parse_records.simps [of data])
qed

lemma frame_row_inject:
  assumes "row_good r" "row_good r'"
  shows "frame_row r = frame_row r' \<longleftrightarrow> r = r'"
proof
  assume f: "frame_row r = frame_row r'"
  then have "length (res_key r) = length (res_key r')" using length_frame_row [of r] length_frame_row [of r'] by simp
  then show "r = r'" using parse_row_frame [OF assms(1), of "[]" "[]"] parse_row_frame [OF assms(2), of "[]" "[]"] f by simp
qed simp

text \<open>How the log reads back when the bytes of a row follow a torn record.\<close>

lemma parse_spliced:
  assumes "list_all row_good rows" "row_good r" "strict_prefix t (frame_row r)" "4 \<le> length t" "row_good r2"
  defines "spliced \<equiv> take (length (frame_row r)) (t @ frame_row r2)"
  shows "\<exists>read valid. parse_records (log_bytes rows @ t @ frame_row r2) 0 [] = Loaded (rows @ read, valid)
    \<and> (if length spliced < length (frame_row r) then read = [] else \<exists>r' rest. read = r' # rest \<and> frame_row r' = spliced)
    \<and> (r2 \<in> set read \<longleftrightarrow> spliced = frame_row r2)"
proof -
  let ?k = "length (res_key r)" and ?d = "log_bytes rows @ t @ frame_row r2" and ?p = "length (log_bytes rows)"
  have at: "parse_records ?d 0 [] = parse_records ?d ?p rows"
    using parse_rows [OF assms(1), of "[]" "t @ frame_row r2" "[]"] by (simp add: log_bytes_def)
  obtain s where s: "frame_row r = t @ s" using assms(3) by (auto simp: strict_prefix_def prefix_def)
  have head: "take 4 t = le32 (of_nat ?k)" using assms(4) arg_cong [OF s, of "take 4"] by (simp add: frame_row_alt)
  then have "t @ frame_row r2 = le32 (of_nat ?k) @ drop 4 t @ frame_row r2" by (metis append.assoc append_take_drop_id)
  then have key: "rd32 ?d ?p = Loaded (of_nat ?k)" using rd_field(1) [of "log_bytes rows" ?p] by metis
  show ?thesis
  proof (cases "length (t @ frame_row r2) < length (frame_row r)")
    case True
    then have "parse_records ?d ?p rows = Loaded (rows, ?p)"
      using key assms(4) by (subst parse_records.simps) (simp add: Let_def key_len_exact [OF assms(2)] length_frame_row)
    moreover have "spliced = t @ frame_row r2" using True by (simp add: spliced_def)
    ultimately show ?thesis using at True assms(4) by auto
  next
    case False
    then have len: "length spliced = 4 + ?k + 32" by (simp add: spliced_def length_frame_row)
    have "take 4 spliced = le32 (of_nat ?k)" using head assms(4) by (simp add: spliced_def length_frame_row min_def)
    with len obtain r' where r': "row_good r'" "length (res_key r') = ?k" "frame_row r' = spliced"
      using bytes_are_row [of spliced ?k] assms(2) by (auto simp: row_good_def)
    let ?u = "drop (length (frame_row r)) (t @ frame_row r2)" and ?q = "length (log_bytes (rows @ [r']))"
    have d: "?d = log_bytes (rows @ [r']) @ ?u"
      using r'(3) append_take_drop_id [of "length (frame_row r)" "t @ frame_row r2"]
      by (simp add: spliced_def del: take_append drop_append append_take_drop_id)
    have rows: "parse_records ?d 0 [] = parse_records ?d ?q (rows @ [r'])"
      using parse_rows [of "rows @ [r']" "[]" ?u "[]"] assms(1) r'(1) unfolding d by (simp add: log_bytes_def)
    obtain rest valid where rest: "parse_records ?d ?q (rows @ [r']) = Loaded ((rows @ [r']) @ rest, valid)"
        "\<forall>x \<in> set rest. length (frame_row x) \<le> length ?d - ?q"
      using parse_rest by blast
    have "length ?d - ?q < length (frame_row r2)"
      using assms(3) d by (auto simp: length_frame_row r'(2) dest: prefix_length_less)
    then have "r2 \<notin> set rest" using rest(2) by fastforce
    moreover have "r2 = r' \<longleftrightarrow> spliced = frame_row r2"
    proof
      assume "spliced = frame_row r2"
      then have "frame_row r' = frame_row r2" using r'(3) by simp
      then show "r2 = r'" using frame_row_inject [OF assms(5) r'(1)] by simp
    qed (use r'(3) in simp)
    ultimately show ?thesis using rows rest(1) r'(3) len False by (auto simp: length_frame_row)
  qed
qed

text \<open>
  C37. A sink does not survive its own failed write. When \<open>write\<close> stores part of a row, past its length field,
  and then fails, \<open>Emit\<close> throws but the sink stays open on the torn bytes. Whatever row is emitted
  through it afterwards is acknowledged and spliced: the reader frames the torn bytes with the first bytes
  of the new row as one row, or, when these do not fill the announced length, stops there. The acknowledged row is read back only if
  the spliced bytes happen to be its own.
\<close>

theorem emit_after_failed_write_misframes:
  assumes "list_all row_good rows" "row_good r" "row_good r2"
    and "sink_emit ws ok r \<lparr>ds_open = True, ds_file = log_bytes rows\<rparr> = (Some (Inl (SystemError ''write sink'')), d1)"
    and "ds_file d1 = log_bytes rows @ t" "4 \<le> length t"
    and "sink_emit ws2 ok2 r2 d1 = (Some (Inr ()), d2)" "reads_enough io (ds_file d2)"
  shows "\<exists>read. read_all True True io (Some (ds_file d2)) = Some (Loaded (rows @ read)) \<and>
    (let spliced = take (length (frame_row r)) (t @ frame_row r2) in
     (if length spliced < length (frame_row r) then read = [] else \<exists>r' rest. read = r' # rest \<and> frame_row r' = spliced) \<and>
     (r2 \<in> set read \<longleftrightarrow> spliced = frame_row r2))"
proof -
  obtain k w where w: "write_all ws (frame_row r) = (k, w)" by fastforce
  then have "k = Some False" "d1 = \<lparr>ds_open = True, ds_file = log_bytes rows @ w\<rparr>"
    using assms(4) by (auto simp: sink_emit_def sink_flush_def Let_def split: option.splits bool.splits if_splits)
  then have t: "d1 = \<lparr>ds_open = True, ds_file = log_bytes rows @ t\<rparr>" "strict_prefix t (frame_row r)"
    using failed_write_torn w assms(5) by auto
  obtain k2 w2 where w2: "write_all ws2 (frame_row r2) = (k2, w2)" by fastforce
  then have "k2 = Some True" "ds_file d2 = log_bytes rows @ t @ w2"
    using assms(7) t(1) by (auto simp: sink_emit_def Let_def split: option.splits bool.splits)
  then have "ds_file d2 = log_bytes rows @ t @ frame_row r2" using write_all_prefix [OF w2] by simp
  then have "read_all True True io (Some (ds_file d2)) =
      Some (bind_load (parse_records (log_bytes rows @ t @ frame_row r2) 0 []) (\<lambda>(results, _). Loaded results))"
    using read_fd_returns [OF assms(8)] by (simp add: read_all_def)
  with parse_spliced [OF assms(1,2) t(2) assms(6,3)] show ?thesis
    unfolding Let_def by (elim exE conjE) (rule exI, intro conjI, simp, assumption+)
qed

theorem emit_after_failed_write_misframes_witness:
  "\<exists>d1 d2 r. sink_emit [Wrote 11, WriteError] True (sample_row 5) \<lparr>ds_open = True, ds_file = log_bytes []\<rparr>
       = (Some (Inl (SystemError ''write sink'')), d1)
     \<and> sink_emit [Wrote 99] True (sample_row 6) d1 = (Some (Inr ()), d2)
     \<and> (\<exists>rest. read_all True True (replicate 48 (Pread 0)) (Some (ds_file d2)) = Some (Loaded (r # rest))
     \<and> r \<noteq> sample_row 5 \<and> sample_row 6 \<notin> set (r # rest))"
proof -
  let ?t = "take 11 (frame_row (sample_row 5))"
  let ?d1 = "\<lparr>ds_open = True, ds_file = log_bytes [] @ ?t\<rparr>" and ?d2 = "\<lparr>ds_open = True, ds_file = ?t @ frame_row (sample_row 6)\<rparr>"
  have "write_all [Wrote 11, WriteError] (frame_row (sample_row 5)) = (Some False, ?t)" by code_simp
  then have e1: "sink_emit [Wrote 11, WriteError] True (sample_row 5) \<lparr>ds_open = True, ds_file = log_bytes []\<rparr>
      = (Some (Inl (SystemError ''write sink'')), ?d1)"
    by (simp add: sink_emit_def)
  have e2: "sink_emit [Wrote 99] True (sample_row 6) ?d1 = (Some (Inr ()), ?d2)"
    by (simp add: emit_succeeds sample_row_good)
  have len: "length (frame_row (sample_row 5)) = 37" "length (frame_row (sample_row 6)) = 37" by (rule sample_row_good(2))+
  have good: "row_good (sample_row 5)" "row_good (sample_row 6)" by (simp_all add: sample_row_good in_i64_def i64_nums)
  have enough: "reads_enough (replicate 48 (Pread 0)) (ds_file ?d2)" by (rule enough_reads) (simp add: len)
  have other: "take 37 (?t @ frame_row (sample_row 6)) \<noteq> frame_row (sample_row 6)"
      "take 37 (?t @ frame_row (sample_row 6)) \<noteq> frame_row (sample_row 5)"
    by code_simp+
  obtain r rest where "read_all True True (replicate 48 (Pread 0)) (Some (ds_file ?d2)) = Some (Loaded (r # rest))"
      "frame_row r = take 37 (?t @ frame_row (sample_row 6))" "sample_row 6 \<notin> set (r # rest)"
    using emit_after_failed_write_misframes [of "[]" "sample_row 5" "sample_row 6", OF _ good e1 _ _ e2 enough] other(1)
    by (auto simp: Let_def len)
  with e1 e2 other(2) show ?thesis by metis
qed

end
