(* ===== verification/Generator.thy ===== *)
theory Generator
  imports Complex_Main Sources Byte_Codec Pipeline_Engine
begin

text \<open>
  The deterministic generator (\<open>src/src/source/generator.cpp\<close>, \<open>generator.h\<close>): a seeded stream of
  records with bounded or heavy-tailed disorder, watermarks and checkpoint barriers at fixed
  record intervals, and a \<open>Seek\<close> that replays the stream from its start. The engine and the
  distributions of the random number library are parameters of the model, a record of functions;
  the law used of them is that a uniform distribution stays in its interval.
\<close>

section \<open>Configuration and state\<close>

datatype disorder_mode = KBounded | KHeavyTailed

text \<open>A \<open>double\<close>; infinities and NaN are one value, which every range check refuses.\<close>

datatype double = Finite rat | NonFinite

record idle_span =
  span_start :: u64
  span_length :: u64

record generator_config =
  gc_seed :: u64
  gc_num_keys :: u32
  gc_num_records :: u64
  gc_event_time_step :: int
  gc_max_disorder :: duration
  gc_batch_size :: u32
  gc_watermark_interval :: u32
  gc_checkpoint_interval :: u64
  gc_disorder_mode :: disorder_mode
  gc_late_fraction :: double
  gc_late_tail :: duration
  gc_idle_spans :: "idle_span list"

record 'g random_ops =
  rng_seed :: "u64 \<Rightarrow> 'g"
  rng_uniform :: "int \<Rightarrow> int \<Rightarrow> 'g \<Rightarrow> int \<times> 'g"
  rng_bernoulli :: "double \<Rightarrow> 'g \<Rightarrow> bool \<times> 'g"
  print_double :: "double \<Rightarrow> string"

definition lawful_random :: "'g random_ops \<Rightarrow> bool" where
  "lawful_random R \<longleftrightarrow>
     (\<forall>lo hi g. lo \<le> hi \<longrightarrow> lo \<le> fst (rng_uniform R lo hi g) \<and> fst (rng_uniform R lo hi g) \<le> hi)"

record 'g generator =
  g_rng :: 'g
  g_offset :: u64
  g_since_watermark :: u64
  g_since_checkpoint :: u64
  g_max_seen :: timestamp

definition unit_interval :: "double \<Rightarrow> bool" where
  "unit_interval d = (case d of Finite q \<Rightarrow> 0 \<le> q \<and> q \<le> 1 | NonFinite \<Rightarrow> False)"

definition generator_ok :: "generator_config \<Rightarrow> bool" where
  "generator_ok cfg =
     (\<not> (gc_num_keys cfg = 0 \<or> gc_batch_size cfg = 0 \<or> gc_watermark_interval cfg = 0 \<or>
         gc_max_disorder cfg < 0 \<or> gc_event_time_step cfg < 0 \<or> \<not> unit_interval (gc_late_fraction cfg)))"

definition fresh_generator :: "'g random_ops \<Rightarrow> generator_config \<Rightarrow> 'g generator" where
  "fresh_generator R cfg =
     \<lparr>g_rng = rng_seed R (gc_seed cfg), g_offset = 0, g_since_watermark = 0, g_since_checkpoint = 0,
      g_max_seen = i64_min\<rparr>"

definition new_generator :: "'g random_ops \<Rightarrow> generator_config \<Rightarrow> 'g generator res" where
  "new_generator R cfg =
     (if \<not> generator_ok cfg then Inl (InvalidArgument ''invalid generator configuration'')
      else Inr (fresh_generator R cfg))"

section \<open>Records\<close>

text \<open>
  The event-time draw: the event time before clamping and the random state afterwards. The code computes it
  in \<open>int64_t\<close>; only a disorder bound and a late tail whose sum exceeds \<open>2 ^ 63\<close> milliseconds
  take the subtraction out of that range, where C++ defines no result, and such configurations are outside the model.
\<close>

definition heavy_tailed :: "generator_config \<Rightarrow> bool" where
  "heavy_tailed cfg =
     (gc_disorder_mode cfg = KHeavyTailed \<and>
      (case gc_late_fraction cfg of Finite q \<Rightarrow> q > 0 | NonFinite \<Rightarrow> False))"

definition draw_event_ms :: "'g random_ops \<Rightarrow> generator_config \<Rightarrow> int \<Rightarrow> 'g \<Rightarrow> int \<times> 'g" where
  "draw_event_ms R cfg base_ms g =
     (if heavy_tailed cfg then
        (let (is_late, g1) = rng_bernoulli R (gc_late_fraction cfg) g in
         if is_late then
           (let tail_max = max 1 (gc_late_tail cfg); (tl, g2) = rng_uniform R 1 tail_max g1
            in (base_ms - gc_max_disorder cfg - tl, g2))
         else
           (let (jitter, g2) = rng_uniform R (- gc_max_disorder cfg) 0 g1 in (base_ms + jitter, g2)))
      else
        (let (jitter, g1) = rng_uniform R (- gc_max_disorder cfg) 0 g in (base_ms + jitter, g1)))"

definition generator_key :: "generator_config \<Rightarrow> u64 \<Rightarrow> string" where
  "generator_key cfg offset = ''key-'' @ pad_decimal 4 (unat (offset mod ucast (gc_num_keys cfg)))"

definition generate_record :: "'g random_ops \<Rightarrow> generator_config \<Rightarrow> 'g generator \<Rightarrow> data_record \<times> 'g generator" where
  "generate_record R cfg g =
     (let base_ms = sint (g_offset g) * gc_event_time_step cfg;
          (drawn, r1) = draw_event_ms R cfg base_ms (g_rng g);
          event_ms = (if drawn < 0 then 0 else drawn);
          (v, r2) = rng_uniform R 1 1000 r1
      in (\<lparr>key = generator_key cfg (g_offset g), val = v, event_time = event_ms, processing_time = base_ms\<rparr>,
          g\<lparr>g_rng := r2, g_max_seen := (if event_ms > g_max_seen g then event_ms else g_max_seen g)\<rparr>))"

section \<open>Control records\<close>

text \<open>The body of the loop of \<open>Next\<close>: one record and the control records due after it.\<close>

definition watermark_due :: "generator_config \<Rightarrow> 'g generator \<Rightarrow> batch_item list \<times> 'g generator" where
  "watermark_due cfg g =
     (if g_since_watermark g \<ge> ucast (gc_watermark_interval cfg) then
        (let wm = g_max_seen g - gc_max_disorder cfg;
             wm_time = (if wm < 0 then 0 else wm)
         in ([watermark_item wm_time (g_offset g)], g\<lparr>g_since_watermark := 0\<rparr>))
      else ([], g))"

definition barrier_due :: "generator_config \<Rightarrow> 'g generator \<Rightarrow> batch_item list \<times> 'g generator" where
  "barrier_due cfg g =
     (if gc_checkpoint_interval cfg > 0 then
        (let n = g_since_checkpoint g + 1
         in if n \<ge> gc_checkpoint_interval cfg
            then ([barrier_item (g_offset g)], g\<lparr>g_since_checkpoint := 0\<rparr>)
            else ([], g\<lparr>g_since_checkpoint := n\<rparr>))
      else ([], g))"

definition gen_step :: "'g random_ops \<Rightarrow> generator_config \<Rightarrow> 'g generator \<Rightarrow> batch_item list \<times> 'g generator" where
  "gen_step R cfg g =
     (let (r, g1) = generate_record R cfg g;
          g2 = g1\<lparr>g_offset := g_offset g1 + 1, g_since_watermark := g_since_watermark g1 + 1\<rparr>;
          (wms, g3) = watermark_due cfg g2;
          (bars, g4) = barrier_due cfg g3
      in (Data r # wms @ bars, g4))"

fun gen_loop :: "'g random_ops \<Rightarrow> generator_config \<Rightarrow> nat \<Rightarrow> 'g generator \<Rightarrow> batch_item list \<times> 'g generator" where
  "gen_loop R cfg 0 g = ([], g)"
| "gen_loop R cfg (Suc n) g =
     (let (its, g1) = gen_step R cfg g; (rest, g2) = gen_loop R cfg n g1 in (its @ rest, g2))"

definition generator_next :: "'g random_ops \<Rightarrow> generator_config \<Rightarrow> 'g generator \<Rightarrow> batch option \<times> 'g generator" where
  "generator_next R cfg g =
     (if g_offset g \<ge> gc_num_records cfg then (None, g)
      else let n = min (ucast (gc_batch_size cfg)) (gc_num_records cfg - g_offset g);
               (its, g') = gen_loop R cfg (unat n) g
           in (Some its, g'))"

section \<open>Seek\<close>

text \<open>The body of the replay loop, with its own copies of the counters' resets.\<close>

definition seek_step :: "'g random_ops \<Rightarrow> generator_config \<Rightarrow> 'g generator \<Rightarrow> 'g generator" where
  "seek_step R cfg g =
     (let g1 = snd (generate_record R cfg g);
          g2 = g1\<lparr>g_offset := g_offset g1 + 1, g_since_watermark := g_since_watermark g1 + 1\<rparr>;
          g3 = (if g_since_watermark g2 \<ge> ucast (gc_watermark_interval cfg)
                then g2\<lparr>g_since_watermark := 0\<rparr> else g2)
      in if gc_checkpoint_interval cfg > 0 then
           (let g4 = g3\<lparr>g_since_checkpoint := g_since_checkpoint g3 + 1\<rparr>
            in if g_since_checkpoint g4 \<ge> gc_checkpoint_interval cfg
               then g4\<lparr>g_since_checkpoint := 0\<rparr> else g4)
         else g3)"

lemma generate_record_frame [simp]:
  "g_offset (snd (generate_record R cfg g)) = g_offset g"
  "g_since_watermark (snd (generate_record R cfg g)) = g_since_watermark g"
  "g_since_checkpoint (snd (generate_record R cfg g)) = g_since_checkpoint g"
  by (simp_all add: generate_record_def Let_def split_def)

lemma seek_step_offset [simp]: "g_offset (seek_step R cfg g) = g_offset g + 1"
  by (simp add: seek_step_def Let_def)

function seek_loop :: "'g random_ops \<Rightarrow> generator_config \<Rightarrow> u64 \<Rightarrow> 'g generator \<Rightarrow> 'g generator" where
  "seek_loop R cfg offset g = (if g_offset g < offset then seek_loop R cfg offset (seek_step R cfg g) else g)"
  by pat_completeness auto
termination
proof (relation "measure (\<lambda>(R, cfg, offset, g). unat offset - unat (g_offset g))")
  fix R :: "'g random_ops" and cfg offset and g :: "'g generator"
  assume a: "g_offset g < offset"
  then have "unat (g_offset g + 1) = unat (g_offset g) + 1"
    by (intro u64_inc_unat) (auto simp: u64_max_def)
  then show "((R, cfg, offset, seek_step R cfg g), R, cfg, offset, g)
      \<in> measure (\<lambda>(R, cfg, offset, g). unat offset - unat (g_offset g))"
    using a by (simp add: word_less_nat_alt)
qed simp

declare seek_loop.simps [simp del]

definition generator_seek :: "'g random_ops \<Rightarrow> generator_config \<Rightarrow> u64 \<Rightarrow> 'g generator \<Rightarrow> 'g generator" where
  "generator_seek R cfg offset g = seek_loop R cfg offset (fresh_generator R cfg)"

section \<open>Descriptor and source interface\<close>

definition disorder_number :: "disorder_mode \<Rightarrow> string" where
  "disorder_number m = (case m of KBounded \<Rightarrow> ''0'' | KHeavyTailed \<Rightarrow> ''1'')"

definition generator_descriptor :: "'g random_ops \<Rightarrow> generator_config \<Rightarrow> string" where
  "generator_descriptor R cfg =
     ''generator(seed='' @ digits_of (unat (gc_seed cfg)) @
     '',keys='' @ digits_of (unat (gc_num_keys cfg)) @
     '',step_ms='' @ to_string_int (gc_event_time_step cfg) @
     '',disorder_ms='' @ to_string_int (gc_max_disorder cfg) @
     '',watermark_interval='' @ digits_of (unat (gc_watermark_interval cfg)) @
     '',checkpoint_interval='' @ digits_of (unat (gc_checkpoint_interval cfg)) @
     '',disorder_mode='' @ disorder_number (gc_disorder_mode cfg) @
     (if gc_disorder_mode cfg = KHeavyTailed
      then '',late_fraction='' @ print_double R (gc_late_fraction cfg) @
           '',late_tail_ms='' @ to_string_int (gc_late_tail cfg)
      else []) @ '')''"

definition generator_source :: "'g random_ops \<Rightarrow> generator_config \<Rightarrow> 'g generator source" where
  "generator_source R cfg =
     \<lparr>src_next = (\<lambda>g. Inr (generator_next R cfg g)),
      src_seek = (\<lambda>off g. Inr (generator_seek R cfg off g)),
      src_offset = g_offset, src_descriptor = generator_descriptor R cfg, src_replayable = True,
      src_cancel = (\<lambda>g. g)\<rparr>"

section \<open>Seek replays the stream\<close>

lemma gen_step_offset [simp]: "g_offset (snd (gen_step R cfg g)) = g_offset g + 1"
  by (simp add: gen_step_def watermark_due_def barrier_due_def Let_def split_def)

lemma gen_step_state: "snd (gen_step R cfg g) = seek_step R cfg g"
  by (simp add: gen_step_def seek_step_def watermark_due_def barrier_due_def Let_def split_def)

lemma gen_loop_Suc:
  "gen_loop R cfg (Suc n) g =
     (fst (gen_step R cfg g) @ fst (gen_loop R cfg n (snd (gen_step R cfg g))),
      snd (gen_loop R cfg n (snd (gen_step R cfg g))))"
  by (simp add: split_def Let_def)

lemma gen_loop_add:
  "gen_loop R cfg (m + n) g =
     (fst (gen_loop R cfg m g) @ fst (gen_loop R cfg n (snd (gen_loop R cfg m g))),
      snd (gen_loop R cfg n (snd (gen_loop R cfg m g))))"
  by (induction m arbitrary: g) (simp_all add: gen_loop_Suc del: gen_loop.simps(2))

lemma gen_loop_offset: "g_offset (snd (gen_loop R cfg n g)) = g_offset g + of_nat n"
  by (induction n arbitrary: g) (simp_all add: gen_loop_Suc algebra_simps del: gen_loop.simps(2))

lemma seek_loop_gen:
  assumes "unat (g_offset g) + n = unat offset"
  shows "seek_loop R cfg offset g = snd (gen_loop R cfg n g)"
  using assms
proof (induction n arbitrary: g)
  case 0
  then show ?case by (subst seek_loop.simps) (simp add: word_less_nat_alt)
next
  case (Suc n)
  then have lt: "g_offset g < offset" by (simp add: word_less_nat_alt)
  then have "unat (g_offset g + 1) = unat (g_offset g) + 1"
    by (intro u64_inc_unat) (auto simp: u64_max_def)
  then show ?case
    using Suc.IH [of "seek_step R cfg g"] Suc.prems lt
    by (subst seek_loop.simps) (simp add: gen_loop_Suc gen_step_state del: gen_loop.simps(2))
qed

lemma fresh_offset [simp]: "g_offset (fresh_generator R cfg) = 0"
  by (simp add: fresh_generator_def)

lemma seek_is_sequential: "generator_seek R cfg offset g = snd (gen_loop R cfg (unat offset) (fresh_generator R cfg))"
  unfolding generator_seek_def by (rule seek_loop_gen) simp

lemma unat_ucast_up: "unat (ucast (b :: u32) :: u64) = unat b"
proof -
  have "unat b < 2 ^ 32" using unsigned_less [of b, where 'a = nat] by simp
  then show ?thesis by (simp add: unsigned_ucast_eq take_bit_nat_eq_self)
qed

lemma gen_loop_data: "length (filter is_data (fst (gen_loop R cfg n g))) = n"
proof (induction n arbitrary: g)
  case (Suc n)
  have "length (filter is_data (fst (gen_step R cfg g))) = 1"
    by (auto simp: gen_step_def watermark_due_def barrier_due_def Let_def split_def is_data_def watermark_item_def barrier_item_def)
  then show ?case using Suc by (simp add: gen_loop_Suc del: gen_loop.simps(2))
qed simp

text \<open>From any position the source hands over the rest of the stream in non-empty batches and ends.\<close>

lemma gen_step_nonempty: "fst (gen_step R cfg g) \<noteq> []"
  by (simp add: gen_step_def split_def Let_def)

lemma generator_hands_over:
  assumes "gc_batch_size cfg \<noteq> 0" "unat (g_offset g) + n = unat (gc_num_records cfg)"
  shows "\<exists>bs. hands_over (generator_source R cfg) g bs (snd (gen_loop R cfg n g)) \<and>
    concat bs = fst (gen_loop R cfg n g) \<and> [] \<notin> set bs \<and> length bs \<le> n \<and>
    src_next (generator_source R cfg) (snd (gen_loop R cfg n g)) = Inr (None, snd (gen_loop R cfg n g))"
  using assms(2)
proof (induction n arbitrary: g rule: less_induct)
  case (less n)
  show ?case
  proof (cases n)
    case 0
    then have "g_offset g = gc_num_records cfg" using less.prems by (simp add: word_unat_eq_iff)
    then show ?thesis
      using 0 by (intro exI [of _ "[]"]) (simp add: generator_source_def generator_next_def)
  next
    case (Suc n')
    let ?k = "unat (min (ucast (gc_batch_size cfg)) (gc_num_records cfg - g_offset g))"
    have lt: "g_offset g < gc_num_records cfg" using less.prems Suc by (simp add: word_less_nat_alt)
    have rest: "unat (gc_num_records cfg - g_offset g) = n"
      using less.prems lt by (simp add: unat_sub less_imp_le)
    have bs: "0 < unat (ucast (gc_batch_size cfg) :: u64)"
      using assms(1) by (simp add: unat_ucast_up unat_gt_0)
    have k: "0 < ?k" "?k \<le> n"
      using bs rest Suc by (auto simp: min_def word_le_nat_alt)
    have next1: "src_next (generator_source R cfg) g = Inr (Some (fst (gen_loop R cfg ?k g)), snd (gen_loop R cfg ?k g))"
      using lt by (simp add: generator_source_def generator_next_def Let_def split_def not_le)
    have "unat (g_offset g) + ?k < 2 ^ 64"
      using less.prems k(2) unsigned_less [of "gc_num_records cfg", where 'a = nat] by simp
    then have off: "unat (g_offset (snd (gen_loop R cfg ?k g))) = unat (g_offset g) + ?k"
      by (simp add: gen_loop_offset unat_word_ariths)
    obtain bs where b: "hands_over (generator_source R cfg) (snd (gen_loop R cfg ?k g)) bs
          (snd (gen_loop R cfg (n - ?k) (snd (gen_loop R cfg ?k g))))"
        "concat bs = fst (gen_loop R cfg (n - ?k) (snd (gen_loop R cfg ?k g)))" "[] \<notin> set bs" "length bs \<le> n - ?k"
        "src_next (generator_source R cfg) (snd (gen_loop R cfg (n - ?k) (snd (gen_loop R cfg ?k g)))) =
           Inr (None, snd (gen_loop R cfg (n - ?k) (snd (gen_loop R cfg ?k g))))"
      using less.IH [of "n - ?k" "snd (gen_loop R cfg ?k g)"] k off less.prems by auto
    have split: "gen_loop R cfg n g = (fst (gen_loop R cfg ?k g) @ fst (gen_loop R cfg (n - ?k) (snd (gen_loop R cfg ?k g))),
        snd (gen_loop R cfg (n - ?k) (snd (gen_loop R cfg ?k g))))"
      using gen_loop_add [of R cfg ?k "n - ?k" g] k(2) by simp
    have ne: "fst (gen_loop R cfg ?k g) \<noteq> []"
      using k(1) gen_step_nonempty [of R cfg g] by (cases ?k) (simp_all add: gen_loop_Suc del: gen_loop.simps(2))
    show ?thesis
      using b next1 ne k by (intro exI [of _ "fst (gen_loop R cfg ?k g) # bs"]) (simp add: split)
  qed
qed

section \<open>The range of the generated records\<close>

text \<open>The event-time base stays an int64 for the whole stream.\<close>

definition clock_fits :: "generator_config \<Rightarrow> bool" where
  "clock_fits cfg \<longleftrightarrow>
     unat (gc_num_records cfg) < 2 ^ 63 \<and> int (unat (gc_num_records cfg)) * gc_event_time_step cfg \<le> i64_max"

lemma sint_small: "unat (w :: u64) < 2 ^ 63 \<Longrightarrow> sint w = int (unat w)"
proof -
  assume a: "unat w < 2 ^ 63"
  have "(uint w :: int) < 2 ^ 63" unfolding uint_nat using a by (metis of_nat_less_numeral_power_cancel_iff)
  then have "signed_take_bit 63 (uint w) = uint w"
    by (rule signed_take_bit_int_eq_self [rotated]) (rule order_trans [OF _ uint_ge_0], simp)
  moreover have "sint w = signed_take_bit 63 (uint w)" using sint_uint [of w] by simp
  ultimately show ?thesis by simp
qed

lemma uint_eq_succ: "unat (w + 1 :: u64) = unat w + 1 \<Longrightarrow> uint (w + 1) = uint w + 1"
  by (metis of_nat_Suc of_nat_unat add.commute Suc_eq_plus1)

lemma draw_bounds:
  assumes "lawful_random R" "0 \<le> gc_max_disorder cfg"
  shows "fst (draw_event_ms R cfg base g) \<le> base"
    and "\<not> heavy_tailed cfg \<Longrightarrow> base - gc_max_disorder cfg \<le> fst (draw_event_ms R cfg base g)"
proof -
  have u: "- gc_max_disorder cfg \<le> fst (rng_uniform R (- gc_max_disorder cfg) 0 g1)"
      "fst (rng_uniform R (- gc_max_disorder cfg) 0 g1) \<le> 0"
      "1 \<le> fst (rng_uniform R 1 (max 1 t) g1)" for g1 t
    using assms by (simp_all add: lawful_random_def)
  have t: "base - gc_max_disorder cfg - fst (rng_uniform R 1 (max 1 t) g1) \<le> base" for g1 t
    using u(3) [of t g1] assms(2) by linarith
  show "fst (draw_event_ms R cfg base g) \<le> base"
    using u(2) t by (simp add: draw_event_ms_def Let_def split_def)
  show "\<not> heavy_tailed cfg \<Longrightarrow> base - gc_max_disorder cfg \<le> fst (draw_event_ms R cfg base g)"
    using u(1) [of g] by (simp add: draw_event_ms_def Let_def split_def)
qed

lemma generate_record_facts:
  assumes "lawful_random R" "0 \<le> gc_max_disorder cfg" "0 \<le> gc_event_time_step cfg" "unat (g_offset g) < 2 ^ 63"
  shows "1 \<le> val (fst (generate_record R cfg g)) \<and> val (fst (generate_record R cfg g)) \<le> 1000"
    and "0 \<le> event_time (fst (generate_record R cfg g))"
    and "event_time (fst (generate_record R cfg g)) \<le> int (unat (g_offset g)) * gc_event_time_step cfg"
    and "\<not> heavy_tailed cfg \<Longrightarrow>
      int (unat (g_offset g)) * gc_event_time_step cfg - gc_max_disorder cfg \<le> event_time (fst (generate_record R cfg g))"
    and "g_max_seen (snd (generate_record R cfg g)) = max (g_max_seen g) (event_time (fst (generate_record R cfg g)))"
proof -
  let ?base = "int (unat (g_offset g)) * gc_event_time_step cfg"
  have s: "sint (g_offset g) * gc_event_time_step cfg = ?base" using sint_small [OF assms(4)] by simp
  have pos: "0 \<le> ?base" using assms(3) by simp
  note d = draw_bounds [OF assms(1,2), of ?base "g_rng g"]
  show "1 \<le> val (fst (generate_record R cfg g)) \<and> val (fst (generate_record R cfg g)) \<le> 1000"
    using assms(1) by (simp add: generate_record_def Let_def split_def lawful_random_def)
  show "0 \<le> event_time (fst (generate_record R cfg g))" "event_time (fst (generate_record R cfg g)) \<le> ?base"
    using d(1) pos by (simp_all add: generate_record_def Let_def split_def s)
  show "\<not> heavy_tailed cfg \<Longrightarrow> ?base - gc_max_disorder cfg \<le> event_time (fst (generate_record R cfg g))"
    using d(2) by (simp add: generate_record_def Let_def split_def s)
  show "g_max_seen (snd (generate_record R cfg g)) = max (g_max_seen g) (event_time (fst (generate_record R cfg g)))"
    by (simp add: generate_record_def Let_def split_def max_def)
qed

lemma gen_step_shape:
  "\<exists>wms bars. fst (gen_step R cfg g) = Data (fst (generate_record R cfg g)) # wms @ bars \<and>
     (wms = [] \<or> wms = [watermark_item (max 0 (g_max_seen (snd (generate_record R cfg g)) - gc_max_disorder cfg)) (g_offset g + 1)]) \<and>
     (bars = [] \<or> gc_checkpoint_interval cfg > 0 \<and> bars = [barrier_item (g_offset g + 1)])"
proof (intro exI conjI)
  let ?g2 = "(snd (generate_record R cfg g))\<lparr>g_offset := g_offset g + 1, g_since_watermark := g_since_watermark g + 1\<rparr>"
  let ?w = "watermark_due cfg ?g2"
  show "fst (gen_step R cfg g) = Data (fst (generate_record R cfg g)) # fst ?w @ fst (barrier_due cfg (snd ?w))"
    by (simp add: gen_step_def Let_def split_def)
  show "fst ?w = [] \<or> fst ?w = [watermark_item (max 0 (g_max_seen (snd (generate_record R cfg g)) - gc_max_disorder cfg)) (g_offset g + 1)]"
    by (simp add: watermark_due_def Let_def max_def)
  show "fst (barrier_due cfg (snd ?w)) = [] \<or>
      gc_checkpoint_interval cfg > 0 \<and> fst (barrier_due cfg (snd ?w)) = [barrier_item (g_offset g + 1)]"
    by (simp add: watermark_due_def barrier_due_def Let_def)
qed

lemma gen_step_max_seen: "g_max_seen (snd (gen_step R cfg g)) = g_max_seen (snd (generate_record R cfg g))"
  by (simp add: gen_step_def watermark_due_def barrier_due_def Let_def split_def)

text \<open>A stream in which no record is below the watermark that precedes it.\<close>

fun never_late :: "timestamp \<Rightarrow> batch_item list \<Rightarrow> bool" where
  "never_late wm [] = True"
| "never_late wm (it # its) =
     ((case it of Data r \<Rightarrow> wm \<le> event_time r | Control c \<Rightarrow> True) \<and> never_late (stream_watermark wm it) its)"

lemma stream_watermark_items [simp]:
  "stream_watermark wm (Data r) = wm" "stream_watermark wm (watermark_item w off) = max wm w"
  "stream_watermark wm (barrier_item off) = wm"
  by (simp_all add: stream_watermark_def watermark_item_def barrier_item_def)

lemma control_item_case [simp]:
  "(case watermark_item w off of Data r \<Rightarrow> f r | Control c \<Rightarrow> True)"
  "(case barrier_item off of Data r \<Rightarrow> f r | Control c \<Rightarrow> True)"
  by (simp_all add: watermark_item_def barrier_item_def)

lemma gen_loop_never_late:
  assumes R: "lawful_random R" and cfg: "0 \<le> gc_max_disorder cfg" "0 \<le> gc_event_time_step cfg" "\<not> heavy_tailed cfg"
    and "unat (g_offset g) + n \<le> 2 ^ 63"
    and "g_max_seen g \<le> int (unat (g_offset g)) * gc_event_time_step cfg"
    and "wm \<le> max 0 (g_max_seen g - gc_max_disorder cfg)"
  shows "never_late wm (fst (gen_loop R cfg n g))"
  using assms(5-7)
proof (induction n arbitrary: g wm)
  case (Suc n)
  let ?r = "fst (generate_record R cfg g)" and ?g = "snd (gen_step R cfg g)"
  have off: "unat (g_offset g) < 2 ^ 63" using Suc.prems(1) by simp
  note F = generate_record_facts [OF R cfg(1,2) off]
  have step: "int (unat (g_offset g)) * gc_event_time_step cfg \<le> int (unat (g_offset g) + 1) * gc_event_time_step cfg"
    using cfg(2) by (simp add: algebra_simps)
  have "g_offset g \<noteq> u64_max" using off by (auto simp: u64_max_def unsigned_minus_1_eq_mask mask_eq_exp_minus_1)
  then have o1: "unat (g_offset ?g) = unat (g_offset g) + 1" by (simp add: u64_inc_unat)
  then have oi: "uint (g_offset g + 1) = uint (g_offset g) + 1" by (simp add: uint_eq_succ)
  have wm: "wm \<le> event_time ?r" using F(2,4) cfg(3) Suc.prems(2,3) by auto
  have ms: "g_max_seen ?g = max (g_max_seen g) (event_time ?r)" using F(5) by (simp add: gen_step_max_seen)
  have seen: "g_max_seen ?g \<le> int (unat (g_offset ?g)) * gc_event_time_step cfg"
    unfolding ms o1 using Suc.prems(2) F(3) step by linarith
  have low: "wm \<le> max 0 (g_max_seen ?g - gc_max_disorder cfg)" using Suc.prems(3) ms by linarith
  obtain wms bars where s: "fst (gen_step R cfg g) = Data ?r # wms @ bars"
      "wms = [] \<or> wms = [watermark_item (max 0 (g_max_seen ?g - gc_max_disorder cfg)) (g_offset g + 1)]"
      "bars = [] \<or> bars = [barrier_item (g_offset g + 1)]"
    using gen_step_shape [of R cfg g] by (auto simp: gen_step_max_seen)
  have "never_late wm' (fst (gen_loop R cfg n ?g))" if "wm' \<le> max 0 (g_max_seen ?g - gc_max_disorder cfg)" for wm'
    using Suc.IH [of ?g wm'] Suc.prems(1) o1 seen that oi by (simp add: algebra_simps)
  then show ?case
    using s wm low by (auto simp: gen_loop_Suc simp del: gen_loop.simps(2))
qed simp

lemma gen_loop_records:
  assumes R: "lawful_random R" and cfg: "0 \<le> gc_max_disorder cfg" "0 \<le> gc_event_time_step cfg"
    and "unat (g_offset g) + n \<le> 2 ^ 63" "Data r \<in> set (fst (gen_loop R cfg n g))"
  shows "1 \<le> val r \<and> val r \<le> 1000 \<and> 0 \<le> event_time r \<and>
    event_time r \<le> int (unat (g_offset g) + n) * gc_event_time_step cfg"
  using assms(4,5)
proof (induction n arbitrary: g)
  case (Suc n)
  let ?r = "fst (generate_record R cfg g)" and ?g = "snd (gen_step R cfg g)"
  have off: "unat (g_offset g) < 2 ^ 63" using Suc.prems(1) by simp
  note F = generate_record_facts [OF R cfg off]
  have mono: "int a * gc_event_time_step cfg \<le> int b * gc_event_time_step cfg" if "a \<le> b" for a b
    using that cfg(2) by (simp add: mult_right_mono)
  have "g_offset g \<noteq> u64_max" using off by (auto simp: u64_max_def unsigned_minus_1_eq_mask mask_eq_exp_minus_1)
  then have o1: "unat (g_offset ?g) = unat (g_offset g) + 1" by (simp add: u64_inc_unat)
  then have oi: "uint (g_offset g + 1) = uint (g_offset g) + 1" by (simp add: uint_eq_succ)
  have "r = ?r \<or> Data r \<in> set (fst (gen_loop R cfg n ?g))"
    using Suc.prems(2) gen_step_shape [of R cfg g]
    by (auto simp: gen_loop_Suc watermark_item_def barrier_item_def simp del: gen_loop.simps(2))
  then show ?case
  proof
    assume "r = ?r"
    then show ?thesis using F(1,2,3) mono [of "unat (g_offset g)" "unat (g_offset g) + Suc n"] by auto
  next
    assume "Data r \<in> set (fst (gen_loop R cfg n ?g))"
    then show ?thesis using Suc.IH [of ?g] Suc.prems(1) o1 oi by (simp add: algebra_simps)
  qed
qed simp

lemma never_late_no_drops:
  assumes "lawful_assigner (assigner cfg) width" "0 \<le> lateness cfg"
  shows "never_late wm its \<Longrightarrow> drop_count cfg wm its = 0"
proof (induction its arbitrary: wm)
  case (Cons it its)
  have "\<not> record_dropped cfg wm r" if "it = Data r" for r
  proof
    assume "record_dropped cfg wm r"
    then obtain ws w where w: "assign_windows (assigner cfg) (event_time r) = Inr ws" "w \<in> set ws" "deadline (lateness cfg) w \<le> wm"
      by (cases "assign_windows (assigner cfg) (event_time r)") (auto simp: record_dropped_def assigned_def)
    have "event_time r < wend w" "wend w \<le> i64_max" using lawful_window [OF assms(1) w(1,2)] by simp_all
    then have "event_time r < deadline (lateness cfg) w" using assms(2) by (simp add: deadline_def)
    then show False using Cons.prems w(3) that by simp
  qed
  then show ?case using Cons by (cases it) simp_all
qed simp

section \<open>Properties\<close>

text \<open>A linear congruential generator, as a concrete random number library for the examples.\<close>

definition sample_random :: "nat random_ops" where
  "sample_random =
     \<lparr>rng_seed = (\<lambda>s. unat s),
      rng_uniform = (\<lambda>lo hi g. (lo + int (g mod nat (hi - lo + 1)), (g * 1103 + 12345) mod 65536)),
      rng_bernoulli = (\<lambda>p g. (g mod 3 = 0, (g * 1103 + 12345) mod 65536)),
      print_double = (\<lambda>d. ''0.5'')\<rparr>"

lemma sample_random_lawful: "lawful_random sample_random"
proof -
  have *: "int (g mod nat (hi - lo + 1)) \<le> hi - lo" if "lo \<le> hi" for g :: nat and lo hi :: int
  proof -
    have "g mod nat (hi - lo + 1) < nat (hi - lo + 1)" using that by simp
    then show ?thesis using that by linarith
  qed
  have "lo + int (g mod nat (hi - lo + 1)) \<le> hi" if "lo \<le> hi" for g :: nat and lo hi :: int
    using * [OF that, of g] by linarith
  then show ?thesis by (simp add: lawful_random_def sample_random_def)
qed

definition sample_generator :: generator_config where
  "sample_generator = \<lparr>gc_seed = 42, gc_num_keys = 3, gc_num_records = 7, gc_event_time_step = 4, gc_max_disorder = 6,
     gc_batch_size = 3, gc_watermark_interval = 2, gc_checkpoint_interval = 3, gc_disorder_mode = KBounded,
     gc_late_fraction = Finite 0, gc_late_tail = 0, gc_idle_spans = []\<rparr>"

text \<open>
  C29. Seek is exact: reading from the start, or seeking to any offset of the stream and reading on,
  both hand over the stream in finitely many non-empty batches and then end, and what the
  sought generator hands over is the rest of the stream after the first \<open>offset\<close> records,
  with its watermarks and barriers in the same places.
\<close>

theorem seek_resumes_the_stream:
  assumes "new_generator R cfg = Inr g0" "offset \<le> gc_num_records cfg"
  shows "\<exists>bs cs ge gs. hands_over (generator_source R cfg) g0 bs ge \<and>
    src_next (generator_source R cfg) ge = Inr (None, ge) \<and>
    hands_over (generator_source R cfg) (generator_seek R cfg offset g) cs gs \<and>
    src_next (generator_source R cfg) gs = Inr (None, gs) \<and> [] \<notin> set bs \<union> set cs \<and>
    concat bs = fst (gen_loop R cfg (unat offset) g0) @ concat cs \<and>
    length (filter is_data (concat bs)) = unat (gc_num_records cfg) \<and>
    length (filter is_data (fst (gen_loop R cfg (unat offset) g0))) = unat offset"
proof -
  have g0: "g0 = fresh_generator R cfg" and b: "gc_batch_size cfg \<noteq> 0"
    using assms(1) by (auto simp: new_generator_def generator_ok_def split: if_splits)
  let ?N = "unat (gc_num_records cfg)" and ?k = "unat offset"
  let ?gs = "generator_seek R cfg offset g"
  have k: "?k \<le> ?N" using assms(2) by (simp add: word_le_nat_alt)
  have gs: "?gs = snd (gen_loop R cfg ?k g0)" by (simp add: seek_is_sequential g0)
  have o: "unat (g_offset ?gs) + (?N - ?k) = ?N" using k by (simp add: gs gen_loop_offset g0)
  have z: "unat (g_offset g0) + ?N = ?N" by (simp add: g0)
  have d: "length (filter is_data (fst (gen_loop R cfg n h))) = n" for n and h :: "'a generator"
    by (rule gen_loop_data)
  have split: "fst (gen_loop R cfg ?N g0) = fst (gen_loop R cfg ?k g0) @ fst (gen_loop R cfg (?N - ?k) ?gs)"
    using gen_loop_add [of R cfg ?k "?N - ?k" g0] k gs by simp
  obtain bs where B: "hands_over (generator_source R cfg) g0 bs (snd (gen_loop R cfg ?N g0))"
      "concat bs = fst (gen_loop R cfg ?N g0)" "[] \<notin> set bs"
      "src_next (generator_source R cfg) (snd (gen_loop R cfg ?N g0)) = Inr (None, snd (gen_loop R cfg ?N g0))"
    using generator_hands_over [OF b z] by blast
  obtain cs where C: "hands_over (generator_source R cfg) ?gs cs (snd (gen_loop R cfg (?N - ?k) ?gs))"
      "concat cs = fst (gen_loop R cfg (?N - ?k) ?gs)" "[] \<notin> set cs"
      "src_next (generator_source R cfg) (snd (gen_loop R cfg (?N - ?k) ?gs)) = Inr (None, snd (gen_loop R cfg (?N - ?k) ?gs))"
    using generator_hands_over [OF b o] by blast
  have "length (filter is_data (concat bs)) = ?N" using d B(2) by simp
  moreover have "concat bs = fst (gen_loop R cfg ?k g0) @ concat cs" using split B(2) C(2) by simp
  ultimately show ?thesis using B C d by blast
qed

theorem seek_resumes_the_stream_witness:
  "\<exists>g0 bs cs ge gs. new_generator sample_random sample_generator = Inr g0 \<and>
     hands_over (generator_source sample_random sample_generator) g0 bs ge \<and>
     hands_over (generator_source sample_random sample_generator) (generator_seek sample_random sample_generator 4 g0) cs gs \<and>
     concat bs = fst (gen_loop sample_random sample_generator (unat (4 :: u64)) g0) @ concat cs"
proof -
  have "generator_ok sample_generator"
    by (simp add: generator_ok_def sample_generator_def unit_interval_def)
  then obtain g0 where g0: "new_generator sample_random sample_generator = Inr g0" by (simp add: new_generator_def)
  have "(4 :: u64) \<le> gc_num_records sample_generator" by (simp add: sample_generator_def)
  then show ?thesis using seek_resumes_the_stream [OF g0] g0 by blast
qed

text \<open>
  In bounded mode nothing is ever late: no generated record lies below a watermark emitted
  before it, so an engine over any lawful window assigner and any lateness drops none of the
  records.
\<close>

theorem bounded_generator_never_late:
  assumes "lawful_random R" "new_generator R gen = Inr g0" "gc_disorder_mode gen = KBounded"
    and "n \<le> unat (gc_num_records gen)" "unat (gc_num_records gen) < 2 ^ 63"
    and "lawful_assigner (assigner cfg) width" "0 \<le> lateness cfg"
  shows "never_late wm_initial (fst (gen_loop R gen n g0)) \<and> drop_count cfg wm_initial (fst (gen_loop R gen n g0)) = 0"
proof -
  have g0: "g0 = fresh_generator R gen" and ok: "generator_ok gen"
    using assms(2) by (auto simp: new_generator_def split: if_splits)
  have "never_late wm_initial (fst (gen_loop R gen n g0))"
    using ok assms(3-5) by (intro gen_loop_never_late [OF assms(1)])
      (auto simp: g0 generator_ok_def heavy_tailed_def fresh_generator_def wm_initial_def i64_nums)
  then show ?thesis using never_late_no_drops [OF assms(6,7)] by blast
qed

theorem bounded_generator_never_late_witness:
  "\<exists>g0. new_generator sample_random sample_generator = Inr g0 \<and>
     drop_count sample_job wm_initial (fst (gen_loop sample_random sample_generator 7 g0)) = 0"
proof -
  have "generator_ok sample_generator"
    by (simp add: generator_ok_def sample_generator_def unit_interval_def)
  then obtain g0 where g0: "new_generator sample_random sample_generator = Inr g0" by (simp add: new_generator_def)
  have "gc_disorder_mode sample_generator = KBounded" "7 \<le> unat (gc_num_records sample_generator)"
    "unat (gc_num_records sample_generator) < 2 ^ 63" "0 \<le> lateness sample_job"
    by (simp_all add: sample_generator_def sample_job_def)
  then show ?thesis using bounded_generator_never_late [OF sample_random_lawful g0 _ _ _ sample_lawful] g0 by blast
qed

end
