(* ===== verification/Source_Merge.thy ===== *)
theory Source_Merge
  imports Generator
begin

text \<open>
  The merge of several sources into one (\<open>src/src/source/source_merge.cpp\<close>, \<open>source_merge.h\<close>):
  round-robin pulling, the running minimum of the channels' watermarks, idle channels, and the
  alignment of the channels' checkpoint barriers. A channel is any source of one state type.
  The reading of the wall clock a step takes is an argument of the step. The loops of \<open>Next\<close> and
  \<open>Seek\<close> carry fuel, one unit per step, because a channel may go on for ever without a record.
\<close>

section \<open>The minimum of the watermarks\<close>

record combiner =
  cb_per_source :: "timestamp list"
  cb_active :: "bool list"
  cb_emitted :: timestamp

definition new_combiner :: "nat \<Rightarrow> combiner" where
  "new_combiner k = \<lparr>cb_per_source = replicate k i64_min, cb_active = replicate k True, cb_emitted = i64_min\<rparr>"

definition lower_to :: "timestamp \<times> bool \<Rightarrow> bool \<times> timestamp \<Rightarrow> bool \<times> timestamp" where
  "lower_to wa acc =
     (if \<not> snd wa then acc else (True, if fst wa < snd acc then fst wa else snd acc))"

definition recompute :: "combiner \<Rightarrow> timestamp option \<times> combiner" where
  "recompute cb =
     (let (any, min_wm) = fold lower_to (zip (cb_per_source cb) (cb_active cb)) (False, i64_max)
      in if \<not> any then (None, cb)
         else if min_wm > cb_emitted cb then (Some min_wm, cb\<lparr>cb_emitted := min_wm\<rparr>)
         else (None, cb))"

definition observe :: "nat \<Rightarrow> timestamp \<Rightarrow> combiner \<Rightarrow> timestamp option \<times> combiner" where
  "observe i wm cb =
     (let cb1 = cb\<lparr>cb_active := (cb_active cb)[i := True]\<rparr>;
          cb2 = (if wm > cb_per_source cb1 ! i then cb1\<lparr>cb_per_source := (cb_per_source cb1)[i := wm]\<rparr> else cb1)
      in recompute cb2)"

definition mark_idle :: "nat \<Rightarrow> combiner \<Rightarrow> timestamp option \<times> combiner" where
  "mark_idle i cb = recompute (cb\<lparr>cb_active := (cb_active cb)[i := False]\<rparr>)"

definition mark_active :: "nat \<Rightarrow> combiner \<Rightarrow> timestamp option \<times> combiner" where
  "mark_active i cb = recompute (cb\<lparr>cb_active := (cb_active cb)[i := True]\<rparr>)"

section \<open>Configuration and state\<close>

record merge_config =
  mc_sources :: "generator_config list"
  mc_checkpoint_interval :: u64
  mc_batch_size :: u32
  mc_live_inputs :: bool
  mc_idle_timeout_wall :: int
  mc_idle_timeout :: u32

record 's channel_state =
  ch_ops :: "'s source"
  ch_source :: 's
  ch_buf :: batch
  ch_cursor :: nat
  ch_exhausted :: bool
  ch_idle_spans :: "idle_span list"
  ch_next_span :: nat
  ch_gap_remaining :: u64
  ch_data_pulled :: u64
  ch_consecutive_empty :: u64
  ch_idle :: bool
  ch_last_item :: int
  ch_barriers_seen :: u64

record 's merge_state =
  mg_config :: merge_config
  mg_channels :: "'s channel_state list"
  mg_combiner :: combiner
  mg_rr :: nat
  mg_offset :: u64
  mg_epoch_closed :: u64

definition reset_channel :: "int \<Rightarrow> 's channel_state \<Rightarrow> 's channel_state" where
  "reset_channel now st =
     st\<lparr>ch_buf := [], ch_cursor := 0, ch_exhausted := False, ch_next_span := 0, ch_gap_remaining := 0,
        ch_data_pulled := 0, ch_consecutive_empty := 0, ch_idle := False, ch_last_item := now,
        ch_barriers_seen := 0\<rparr>"

definition reset_progress :: "int \<Rightarrow> 's merge_state \<Rightarrow> 's merge_state" where
  "reset_progress now m =
     m\<lparr>mg_channels := map (reset_channel now) (mg_channels m),
       mg_combiner := new_combiner (max 1 (length (mg_channels m))),
       mg_rr := 0, mg_offset := 0, mg_epoch_closed := 0\<rparr>"

definition add_input :: "'s source \<Rightarrow> 's \<Rightarrow> idle_span list \<Rightarrow> 's merge_state \<Rightarrow> 's merge_state res" where
  "add_input ops s spans m =
     (if \<not> sorted_wrt (\<le>) (map span_start spans)
      then Inl (InvalidArgument ''idle spans must be sorted by start_offset'')
      else Inr (m\<lparr>mg_channels := mg_channels m @
        [\<lparr>ch_ops = ops, ch_source = s, ch_buf = [], ch_cursor = 0, ch_exhausted = False, ch_idle_spans = spans,
          ch_next_span = 0, ch_gap_remaining = 0, ch_data_pulled = 0, ch_consecutive_empty = 0, ch_idle = False,
          ch_last_item = 0, ch_barriers_seen = 0\<rparr>]\<rparr>))"

definition empty_merge :: "merge_config \<Rightarrow> 's merge_state" where
  "empty_merge cfg =
     \<lparr>mg_config = cfg, mg_channels = [], mg_combiner = new_combiner 1, mg_rr = 0, mg_offset = 0, mg_epoch_closed = 0\<rparr>"

text \<open>The constructor over arbitrary inputs: source operations, source state and idle spans.\<close>

definition new_merge_inputs ::
    "int \<Rightarrow> ('s source \<times> 's \<times> idle_span list) list \<Rightarrow> merge_config \<Rightarrow> 's merge_state res" where
  "new_merge_inputs now inputs cfg =
     (if mc_batch_size cfg = 0 then Inl (InvalidArgument ''merged batch size must be positive'')
      else if mc_sources cfg \<noteq> [] then Inl (InvalidArgument ''SourceMerge inputs and generator configs cannot be mixed'')
      else if mc_checkpoint_interval cfg \<noteq> 0
        then Inl (InvalidArgument ''SourceMerge inputs emit their own barriers; checkpoint_interval must be 0'')
      else if mc_idle_timeout_wall cfg < 0 then Inl (InvalidArgument ''idle_timeout_wall must be nonnegative'')
      else if mc_idle_timeout_wall cfg > 0 \<and> \<not> mc_live_inputs cfg
        then Inl (InvalidArgument ''idle_timeout_wall requires live_inputs'')
      else bind_res (fold_res (\<lambda>(ops, s, spans). add_input ops s spans) inputs (empty_merge cfg))
             (\<lambda>m. Inr (reset_progress now m)))"

text \<open>The constructor over generator configurations, with the default barrier interval.\<close>

definition effective_interval :: "merge_config \<Rightarrow> generator_config \<Rightarrow> u64" where
  "effective_interval cfg src =
     (if gc_checkpoint_interval src > 0 then gc_checkpoint_interval src else mc_checkpoint_interval cfg)"

definition add_generator ::
    "'g random_ops \<Rightarrow> merge_config \<Rightarrow> generator_config \<Rightarrow> 'g generator merge_state \<Rightarrow> 'g generator merge_state res" where
  "add_generator R cfg src m =
     (let gen = src\<lparr>gc_checkpoint_interval := effective_interval cfg src\<rparr>
      in bind_res (new_generator R gen) (\<lambda>g. add_input (generator_source R gen) g (gc_idle_spans src) m))"

definition new_merge :: "'g random_ops \<Rightarrow> int \<Rightarrow> merge_config \<Rightarrow> 'g generator merge_state res" where
  "new_merge R now cfg =
     (if mc_batch_size cfg = 0 then Inl (InvalidArgument ''merged batch size must be positive'')
      else if mc_live_inputs cfg
        then Inl (InvalidArgument ''generator-config SourceMerge inputs are replayable; use SourceMergeInput for live inputs'')
      else if mc_idle_timeout_wall cfg \<noteq> 0 then Inl (InvalidArgument ''idle_timeout_wall requires live_inputs'')
      else bind_res (fold_res (add_generator R cfg) (mc_sources cfg) (empty_merge cfg))
             (\<lambda>m. Inr (reset_progress now m)))"

section \<open>One step\<close>

text \<open>The merged control records carry the merged offset.\<close>

definition emit_watermark :: "timestamp option \<Rightarrow> 's merge_state \<Rightarrow> batch_item list" where
  "emit_watermark merged m = (case merged of None \<Rightarrow> [] | Some wm \<Rightarrow> [watermark_item wm (mg_offset m)])"

definition active_channel :: "'s channel_state \<Rightarrow> bool" where
  "active_channel st = (\<not> (ch_exhausted st \<or> ch_idle st))"

definition maybe_close_epoch :: "'s merge_state \<Rightarrow> batch_item list \<times> 's merge_state" where
  "maybe_close_epoch m =
     (let next_epoch = mg_epoch_closed m + 1
      in if list_ex (\<lambda>st. active_channel st \<and> ch_barriers_seen st < next_epoch) (mg_channels m) then ([], m)
         else if \<not> list_ex active_channel (mg_channels m) then ([], m)
         else ([barrier_item (mg_offset m)], m\<lparr>mg_epoch_closed := next_epoch\<rparr>))"

definition set_channel :: "nat \<Rightarrow> 's channel_state \<Rightarrow> 's merge_state \<Rightarrow> 's merge_state" where
  "set_channel i st m = m\<lparr>mg_channels := (mg_channels m)[i := st]\<rparr>"

definition combine_idle :: "nat \<Rightarrow> 's merge_state \<Rightarrow> batch_item list \<times> 's merge_state" where
  "combine_idle i m =
     (let (merged, cb) = mark_idle i (mg_combiner m);
          m1 = m\<lparr>mg_combiner := cb\<rparr>;
          (bars, m2) = maybe_close_epoch m1
      in (emit_watermark merged m1 @ bars, m2))"

definition mark_channel_idle :: "nat \<Rightarrow> 's merge_state \<Rightarrow> batch_item list \<times> 's merge_state" where
  "mark_channel_idle i m = combine_idle i (set_channel i ((mg_channels m ! i)\<lparr>ch_idle := True\<rparr>) m)"

datatype pull_result = PItem batch_item | PNoData | PExhausted

definition pull_next_item :: "int \<Rightarrow> merge_config \<Rightarrow> 's channel_state \<Rightarrow> (pull_result \<times> 's channel_state) res" where
  "pull_next_item now cfg st =
     (let take_item = (\<lambda>st. Inr (PItem (ch_buf st ! ch_cursor st),
              st\<lparr>ch_cursor := ch_cursor st + 1,
                 ch_last_item := (if mc_idle_timeout_wall cfg > 0 then now else ch_last_item st)\<rparr>))
      in if ch_cursor st \<ge> length (ch_buf st) then
           bind_res (src_next (ch_ops st) (ch_source st)) (\<lambda>(b, s).
             case b of
               None \<Rightarrow> Inr (PExhausted, st\<lparr>ch_source := s, ch_exhausted := True\<rparr>)
             | Some [] \<Rightarrow>
                 (if \<not> mc_live_inputs cfg
                  then Inl (LogicError ''SourceMerge input returned an empty batch; set live_inputs for live sources'')
                  else Inr (PNoData, st\<lparr>ch_source := s\<rparr>))
             | Some (it # its) \<Rightarrow> take_item (st\<lparr>ch_source := s, ch_buf := it # its, ch_cursor := 0\<rparr>))
         else take_item st)"

datatype step_result = SProduced | SNoData | SExhausted

definition channel_blocked :: "'s merge_state \<Rightarrow> 's channel_state \<Rightarrow> bool" where
  "channel_blocked m st = (ch_barriers_seen st > mg_epoch_closed m)"

text \<open>A gap begins when the channel has pulled as many records as the next span says.\<close>

definition enter_gap :: "'s channel_state \<Rightarrow> 's channel_state" where
  "enter_gap st =
     (if ch_gap_remaining st = 0 \<and> ch_next_span st < length (ch_idle_spans st) \<and>
         span_start (ch_idle_spans st ! ch_next_span st) = ch_data_pulled st
      then st\<lparr>ch_gap_remaining := span_length (ch_idle_spans st ! ch_next_span st),
              ch_next_span := ch_next_span st + 1\<rparr>
      else st)"

definition resume_channel :: "nat \<Rightarrow> 's merge_state \<Rightarrow> 's merge_state" where
  "resume_channel i m =
     (let st = mg_channels m ! i;
          m1 = (if ch_idle st
                then (set_channel i (st\<lparr>ch_idle := False\<rparr>) m)\<lparr>mg_combiner := snd (mark_active i (mg_combiner m))\<rparr>
                else m)
      in set_channel i ((mg_channels m1 ! i)\<lparr>ch_consecutive_empty := 0\<rparr>) m1)"

definition deliver_item :: "nat \<Rightarrow> batch_item \<Rightarrow> 's merge_state \<Rightarrow> batch_item list \<times> 's merge_state" where
  "deliver_item i it m =
     (let st = mg_channels m ! i in
      case it of
        Data r \<Rightarrow> ([Data r], (set_channel i (st\<lparr>ch_data_pulled := ch_data_pulled st + 1\<rparr>) m)
                              \<lparr>mg_offset := mg_offset m + 1\<rparr>)
      | Control c \<Rightarrow>
          (case ctype c of
             KWatermark \<Rightarrow>
               (let (merged, cb) = observe i (cwatermark c) (mg_combiner m)
                in (emit_watermark merged m, m\<lparr>mg_combiner := cb\<rparr>))
           | KCheckpointBarrier \<Rightarrow>
               maybe_close_epoch (set_channel i (st\<lparr>ch_barriers_seen := ch_barriers_seen st + 1\<rparr>) m)))"

text \<open>One turn of channel \<open>i\<close>, after the checks that skip it.\<close>

definition service_channel :: "int \<Rightarrow> nat \<Rightarrow> 's merge_state \<Rightarrow> (step_result \<times> batch_item list \<times> 's merge_state) res" where
  "service_channel now i m =
     (let k = length (mg_channels m); cfg = mg_config m; st = enter_gap (mg_channels m ! i)
      in if ch_gap_remaining st > 0 then
           (let st1 = st\<lparr>ch_gap_remaining := ch_gap_remaining st - 1, ch_consecutive_empty := ch_consecutive_empty st + 1\<rparr>;
                m1 = (set_channel i st1 m)\<lparr>mg_rr := (i + 1) mod k\<rparr>
            in if mc_idle_timeout cfg > 0 \<and> \<not> ch_idle st1 \<and> ch_consecutive_empty st1 \<ge> ucast (mc_idle_timeout cfg)
               then (let (out, m2) = mark_channel_idle i m1 in Inr (SProduced, out, m2))
               else Inr (SProduced, [], m1))
         else bind_res (pull_next_item now cfg st) (\<lambda>(pulled, st1).
           let m1 = set_channel i st1 m in
           case pulled of
             PNoData \<Rightarrow>
               (let m2 = m1\<lparr>mg_rr := (i + 1) mod k\<rparr>
                in if mc_idle_timeout_wall cfg > 0 \<and> \<not> ch_idle st1 \<and> now - ch_last_item st1 \<ge> mc_idle_timeout_wall cfg
                   then (let (out, m3) = mark_channel_idle i m2 in Inr (SNoData, out, m3))
                   else Inr (SNoData, [], m2))
           | PExhausted \<Rightarrow> (let (out, m2) = combine_idle i m1 in Inr (SProduced, out, m2))
           | PItem it \<Rightarrow>
               (let (out, m2) = deliver_item i it (resume_channel i (m1\<lparr>mg_rr := (i + 1) mod k\<rparr>))
                in Inr (SProduced, out, m2))))"

fun produce_attempts :: "int \<Rightarrow> nat list \<Rightarrow> 's merge_state \<Rightarrow> (step_result \<times> batch_item list \<times> 's merge_state) res" where
  "produce_attempts now [] m = Inr (SExhausted, [], m)"
| "produce_attempts now (attempt # attempts) m =
     (let i = (mg_rr m + attempt) mod length (mg_channels m); st = mg_channels m ! i
      in if ch_exhausted st \<or> channel_blocked m st then produce_attempts now attempts m
         else service_channel now i m)"

definition produce_one_merged_step :: "int \<Rightarrow> 's merge_state \<Rightarrow> (step_result \<times> batch_item list \<times> 's merge_state) res" where
  "produce_one_merged_step now m = produce_attempts now [0..<length (mg_channels m)] m"

section \<open>The source interface\<close>

definition all_exhausted :: "'s merge_state \<Rightarrow> bool" where
  "all_exhausted m = list_all ch_exhausted (mg_channels m)"

definition data_records :: "batch_item list \<Rightarrow> nat" where
  "data_records its = length (filter is_data its)"

text \<open>The loop of \<open>Next\<close>: the batch so far, the records in it and the quiet steps in a row.\<close>

fun merge_loop ::
    "nat \<Rightarrow> (nat \<Rightarrow> int) \<Rightarrow> batch \<Rightarrow> nat \<Rightarrow> 's merge_state \<Rightarrow> (batch \<times> 's merge_state) res option" where
  "merge_loop 0 clock out quiet m = None"
| "merge_loop (Suc fuel) clock out quiet m =
     (if \<not> data_records out < unat (mc_batch_size (mg_config m)) then Some (Inr (out, m))
      else case produce_one_merged_step (clock 0) m of
             Inl e \<Rightarrow> Some (Inl e)
           | Inr (SExhausted, its, m1) \<Rightarrow> Some (Inr (out @ its, m1))
           | Inr (SNoData, its, m1) \<Rightarrow>
               (if quiet + 1 \<ge> length (mg_channels m1) then Some (Inr (out @ its, m1))
                else merge_loop fuel (\<lambda>n. clock (n + 1)) (out @ its) (quiet + 1) m1)
           | Inr (SProduced, its, m1) \<Rightarrow> merge_loop fuel (\<lambda>n. clock (n + 1)) (out @ its) 0 m1)"

definition merge_next :: "nat \<Rightarrow> (nat \<Rightarrow> int) \<Rightarrow> 's merge_state \<Rightarrow> (batch option \<times> 's merge_state) res option" where
  "merge_next fuel clock m =
     (if mg_channels m = [] \<or> all_exhausted m then Some (Inr (None, m))
      else map_option (\<lambda>r. bind_res r (\<lambda>(out, m1).
             Inr (if out = [] \<and> (all_exhausted m1 \<or> \<not> mc_live_inputs (mg_config m1)) then None else Some out, m1)))
           (merge_loop fuel clock [] 0 m))"

fun seek_channels :: "'s channel_state list \<Rightarrow> 's channel_state list res" where
  "seek_channels [] = Inr []"
| "seek_channels (st # sts) =
     bind_res (src_seek (ch_ops st) 0 (ch_source st)) (\<lambda>s.
     bind_res (seek_channels sts) (\<lambda>sts'. Inr (st\<lparr>ch_source := s\<rparr> # sts')))"

fun merge_replay :: "nat \<Rightarrow> (nat \<Rightarrow> int) \<Rightarrow> u64 \<Rightarrow> 's merge_state \<Rightarrow> 's merge_state res option" where
  "merge_replay 0 clock offset m = None"
| "merge_replay (Suc fuel) clock offset m =
     (if \<not> mg_offset m < offset then Some (Inr m)
      else case produce_one_merged_step (clock 0) m of
             Inl e \<Rightarrow> Some (Inl e)
           | Inr (r, its, m1) \<Rightarrow>
               (if r = SExhausted then Some (Inr m1) else merge_replay fuel (\<lambda>n. clock (n + 1)) offset m1))"

definition merge_seek :: "nat \<Rightarrow> (nat \<Rightarrow> int) \<Rightarrow> u64 \<Rightarrow> 's merge_state \<Rightarrow> 's merge_state res option" where
  "merge_seek fuel clock offset m =
     (if mc_live_inputs (mg_config m) \<and> offset > 0
      then Some (Inl (LogicError ''SourceMerge with live_inputs cannot seek: its merge order is not replayable''))
      else case seek_channels (mg_channels m) of
             Inl e \<Rightarrow> Some (Inl e)
           | Inr sts \<Rightarrow> merge_replay fuel (\<lambda>n. clock (n + 1)) offset (reset_progress (clock 0) (m\<lparr>mg_channels := sts\<rparr>)))"

definition merge_replayable :: "'s merge_state \<Rightarrow> bool" where
  "merge_replayable m =
     (\<not> mc_live_inputs (mg_config m) \<and> list_all (\<lambda>st. src_replayable (ch_ops st)) (mg_channels m))"

definition merge_cancel :: "'s merge_state \<Rightarrow> 's merge_state" where
  "merge_cancel m =
     m\<lparr>mg_channels := map (\<lambda>st. st\<lparr>ch_source := src_cancel (ch_ops st) (ch_source st)\<rparr>) (mg_channels m)\<rparr>"

definition span_text :: "idle_span \<Rightarrow> string" where
  "span_text sp = ''@idle('' @ digits_of (unat (span_start sp)) @ '','' @ digits_of (unat (span_length sp)) @ '')''"

definition merge_descriptor :: "'s merge_state \<Rightarrow> string" where
  "merge_descriptor m =
     (if list_ex (\<lambda>st. src_descriptor (ch_ops st) = []) (mg_channels m) then []
      else ''merge(idle_timeout='' @ digits_of (unat (mc_idle_timeout (mg_config m))) @
           concat (map (\<lambda>st. '';'' @ src_descriptor (ch_ops st) @ concat (map span_text (ch_idle_spans st)))
             (mg_channels m)) @ '')'')"

section \<open>The combiner computes the minimum over the active channels\<close>

definition active_wms :: "combiner \<Rightarrow> timestamp list" where
  "active_wms cb = map fst (filter snd (zip (cb_per_source cb) (cb_active cb)))"

definition combiner_wf :: "nat \<Rightarrow> combiner \<Rightarrow> bool" where
  "combiner_wf k cb \<longleftrightarrow>
     length (cb_per_source cb) = k \<and> length (cb_active cb) = k \<and> (\<forall>wm \<in> set (cb_per_source cb). wm \<le> i64_max)"

lemma fold_lower_to:
  "fold lower_to zs (b, x) = (b \<or> filter snd zs \<noteq> [], foldl min x (map fst (filter snd zs)))"
  by (induction zs arbitrary: b x) (auto simp: lower_to_def min_def)

lemma foldl_min: "foldl min x ys = (if ys = [] then x else min x (Min (set ys)))" for x :: int
  by (induction ys arbitrary: x) (auto simp: min.assoc)

lemma active_wms_le: "combiner_wf k cb \<Longrightarrow> wm \<in> set (active_wms cb) \<Longrightarrow> wm \<le> i64_max"
  by (auto simp: active_wms_def combiner_wf_def dest: set_zip_leftD)

lemma recompute_spec:
  assumes "combiner_wf k cb"
  shows "recompute cb =
    (if active_wms cb = [] \<or> Min (set (active_wms cb)) \<le> cb_emitted cb then (None, cb)
     else (Some (Min (set (active_wms cb))), cb\<lparr>cb_emitted := Min (set (active_wms cb))\<rparr>))"
proof -
  have "Min (set (active_wms cb)) \<le> i64_max" if "active_wms cb \<noteq> []"
    using that active_wms_le [OF assms] Min_in [of "set (active_wms cb)"] by simp
  then show ?thesis
    by (auto simp: recompute_def fold_lower_to foldl_min active_wms_def min_def)
qed

lemma combiner_wf_new: "combiner_wf k (new_combiner k)"
  by (auto simp: combiner_wf_def new_combiner_def i64_nums)

lemma recompute_frame:
  "cb_per_source (snd (recompute cb)) = cb_per_source cb" "cb_active (snd (recompute cb)) = cb_active cb"
  "cb_emitted cb \<le> cb_emitted (snd (recompute cb))"
  "fst (recompute cb) = (if cb_emitted (snd (recompute cb)) = cb_emitted cb then None else Some (cb_emitted (snd (recompute cb))))"
  by (auto simp: recompute_def Let_def split: prod.split)

lemma combiner_wf_recompute [simp]: "combiner_wf k (snd (recompute cb)) = combiner_wf k cb"
  by (simp add: combiner_wf_def recompute_frame)

lemma combiner_wf_update:
  "combiner_wf k cb \<Longrightarrow> combiner_wf k (cb\<lparr>cb_active := (cb_active cb)[i := b]\<rparr>)"
  "combiner_wf k cb \<Longrightarrow> wm \<le> i64_max \<Longrightarrow> combiner_wf k (snd (observe i wm cb))"
  by (auto simp: combiner_wf_def observe_def Let_def recompute_frame dest!: set_update_subset_insert [THEN subsetD])

section \<open>Alignment never blocks every channel\<close>

text \<open>
  A channel that is not exhausted is at most one barrier ahead of the closed epochs, an idle one
  is not ahead; and unless no channel is active, some active channel is not blocked.
\<close>

definition epochs_ok :: "'s merge_state \<Rightarrow> bool" where
  "epochs_ok m \<longleftrightarrow>
     (\<forall>st \<in> set (mg_channels m). \<not> ch_exhausted st \<longrightarrow>
        unat (ch_barriers_seen st) \<le> unat (mg_epoch_closed m) + 1 \<and>
        (ch_idle st \<longrightarrow> ch_barriers_seen st \<le> mg_epoch_closed m))"

definition some_unblocked :: "'s merge_state \<Rightarrow> bool" where
  "some_unblocked m \<longleftrightarrow>
     (\<exists>st \<in> set (mg_channels m). active_channel st) \<longrightarrow>
     (\<exists>st \<in> set (mg_channels m). active_channel st \<and> \<not> channel_blocked m st)"

text \<open>An epoch closes when every active channel has delivered exactly that many barriers.\<close>

definition closed_aligned :: "u64 \<Rightarrow> 's merge_state \<Rightarrow> bool" where
  "closed_aligned e m \<longleftrightarrow>
     mg_epoch_closed m = e \<or> (\<forall>st \<in> set (mg_channels m). active_channel st \<longrightarrow> ch_barriers_seen st = mg_epoch_closed m)"

lemma maybe_close_epoch_ok:
  assumes "epochs_ok m" "mg_epoch_closed m \<noteq> u64_max"
  shows "epochs_ok (snd (maybe_close_epoch m)) \<and> some_unblocked (snd (maybe_close_epoch m)) \<and>
    closed_aligned (mg_epoch_closed m) (snd (maybe_close_epoch m))"
proof -
  have next1: "unat (mg_epoch_closed m + 1) = unat (mg_epoch_closed m) + 1" by (rule u64_inc_unat [OF assms(2)])
  consider (waits) "list_ex (\<lambda>st. active_channel st \<and> ch_barriers_seen st < mg_epoch_closed m + 1) (mg_channels m)"
    | (none) "\<not> list_ex (\<lambda>st. active_channel st \<and> ch_barriers_seen st < mg_epoch_closed m + 1) (mg_channels m)"
        "\<not> list_ex active_channel (mg_channels m)"
    | (close) "snd (maybe_close_epoch m) = m\<lparr>mg_epoch_closed := mg_epoch_closed m + 1\<rparr>"
        "\<not> list_ex (\<lambda>st. active_channel st \<and> ch_barriers_seen st < mg_epoch_closed m + 1) (mg_channels m)"
    by (fastforce simp: maybe_close_epoch_def)
  then show ?thesis
  proof cases
    case waits
    then show ?thesis
      using assms(1) next1
      by (auto simp: maybe_close_epoch_def closed_aligned_def some_unblocked_def channel_blocked_def list_ex_iff word_less_nat_alt)
  next
    case none
    then show ?thesis using assms(1) by (auto simp: maybe_close_epoch_def closed_aligned_def some_unblocked_def list_ex_iff)
  next
    case close
    have le: "ch_barriers_seen st \<le> mg_epoch_closed m + 1" if "st \<in> set (mg_channels m)" "\<not> ch_exhausted st" for st
      using assms(1) that next1 by (auto simp: epochs_ok_def word_le_nat_alt)
    then have "ch_barriers_seen st = mg_epoch_closed m + 1" if "st \<in> set (mg_channels m)" "active_channel st" for st
      using close(2) that by (auto simp: list_ex_iff active_channel_def not_less intro: antisym)
    then have "closed_aligned (mg_epoch_closed m) (snd (maybe_close_epoch m))" using close(1) by (simp add: closed_aligned_def)
    then show ?thesis
      using close(1) next1 le
      by (auto simp: epochs_ok_def some_unblocked_def channel_blocked_def active_channel_def word_le_nat_alt
          word_less_nat_alt not_less intro: le_SucI)
  qed
qed

lemma set_channel_sel [simp]:
  "mg_channels (set_channel i st m) = (mg_channels m)[i := st]" "mg_config (set_channel i st m) = mg_config m"
  "mg_combiner (set_channel i st m) = mg_combiner m" "mg_offset (set_channel i st m) = mg_offset m"
  "mg_epoch_closed (set_channel i st m) = mg_epoch_closed m" "mg_rr (set_channel i st m) = mg_rr m"
  by (simp_all add: set_channel_def)

text \<open>The outcomes of one turn.\<close>

lemma service_cases [consumes 1, case_names tick tick_idle quiet quiet_idle exhausted item]:
  assumes "service_channel now i m = Inr (r, out, m')"
  obtains
    st where "st = enter_gap (mg_channels m ! i)" "0 < ch_gap_remaining st" "r = SProduced" "out = []"
      "m' = (set_channel i (st\<lparr>ch_gap_remaining := ch_gap_remaining st - 1,
               ch_consecutive_empty := ch_consecutive_empty st + 1\<rparr>) m)\<lparr>mg_rr := (i + 1) mod length (mg_channels m)\<rparr>"
  | st where "st = enter_gap (mg_channels m ! i)" "0 < ch_gap_remaining st" "r = SProduced"
      "mc_idle_timeout (mg_config m) > 0" "\<not> ch_idle st"
      "(out, m') = mark_channel_idle i ((set_channel i (st\<lparr>ch_gap_remaining := ch_gap_remaining st - 1,
               ch_consecutive_empty := ch_consecutive_empty st + 1\<rparr>) m)\<lparr>mg_rr := (i + 1) mod length (mg_channels m)\<rparr>)"
  | st1 where "pull_next_item now (mg_config m) (enter_gap (mg_channels m ! i)) = Inr (PNoData, st1)"
      "ch_gap_remaining (enter_gap (mg_channels m ! i)) = 0" "r = SNoData" "out = []"
      "m' = (set_channel i st1 m)\<lparr>mg_rr := (i + 1) mod length (mg_channels m)\<rparr>"
  | st1 where "pull_next_item now (mg_config m) (enter_gap (mg_channels m ! i)) = Inr (PNoData, st1)"
      "ch_gap_remaining (enter_gap (mg_channels m ! i)) = 0" "r = SNoData" "mc_idle_timeout_wall (mg_config m) > 0"
      "(out, m') = mark_channel_idle i ((set_channel i st1 m)\<lparr>mg_rr := (i + 1) mod length (mg_channels m)\<rparr>)"
  | st1 where "pull_next_item now (mg_config m) (enter_gap (mg_channels m ! i)) = Inr (PExhausted, st1)"
      "ch_gap_remaining (enter_gap (mg_channels m ! i)) = 0" "r = SProduced" "(out, m') = combine_idle i (set_channel i st1 m)"
  | it st1 where "pull_next_item now (mg_config m) (enter_gap (mg_channels m ! i)) = Inr (PItem it, st1)"
      "ch_gap_remaining (enter_gap (mg_channels m ! i)) = 0" "r = SProduced"
      "(out, m') = deliver_item i it (resume_channel i ((set_channel i st1 m)\<lparr>mg_rr := (i + 1) mod length (mg_channels m)\<rparr>))"
proof (cases "ch_gap_remaining (enter_gap (mg_channels m ! i)) > 0")
  case True
  then show ?thesis
    using assms that(1) [OF refl] that(2) [OF refl] by (auto simp: service_channel_def Let_def split_def split: if_splits)
next
  case False
  then have z: "ch_gap_remaining (enter_gap (mg_channels m ! i)) = 0" by (simp add: word_gt_0)
  obtain p st1 where p: "pull_next_item now (mg_config m) (enter_gap (mg_channels m ! i)) = Inr (p, st1)"
    using assms False by (auto simp: service_channel_def Let_def)
  show ?thesis
    using assms False p that(3-6) z
    by (cases p) (auto simp: service_channel_def Let_def split_def split: if_splits)
qed

lemma enter_gap_frame [simp]:
  "ch_exhausted (enter_gap st) = ch_exhausted st" "ch_idle (enter_gap st) = ch_idle st"
  "ch_barriers_seen (enter_gap st) = ch_barriers_seen st" "ch_buf (enter_gap st) = ch_buf st"
  "ch_cursor (enter_gap st) = ch_cursor st" "ch_source (enter_gap st) = ch_source st"
  "ch_ops (enter_gap st) = ch_ops st" "ch_idle_spans (enter_gap st) = ch_idle_spans st"
  by (simp_all add: enter_gap_def)

lemma pull_frame:
  assumes "pull_next_item now cfg st = Inr (p, st1)"
  shows "ch_idle st1 = ch_idle st" "ch_barriers_seen st1 = ch_barriers_seen st"
    "ch_exhausted st1 = (ch_exhausted st \<or> p = PExhausted)" "ch_ops st1 = ch_ops st"
    "ch_idle_spans st1 = ch_idle_spans st" "ch_next_span st1 = ch_next_span st"
    "ch_gap_remaining st1 = ch_gap_remaining st"
  using assms by (auto simp: pull_next_item_def Let_def split: if_splits option.splits list.splits)

lemma epochs_ok_set:
  assumes "epochs_ok m"
    and "\<not> ch_exhausted st \<longrightarrow> unat (ch_barriers_seen st) \<le> unat (mg_epoch_closed m) + 1 \<and>
      (ch_idle st \<longrightarrow> ch_barriers_seen st \<le> mg_epoch_closed m)"
  shows "epochs_ok (set_channel i st m)"
  using assms by (auto simp: epochs_ok_def dest!: set_update_subset_insert [THEN subsetD])

lemma epochs_ok_upd [simp]:
  "epochs_ok (m\<lparr>mg_rr := j\<rparr>) = epochs_ok m" "epochs_ok (m\<lparr>mg_combiner := cb\<rparr>) = epochs_ok m"
  "epochs_ok (m\<lparr>mg_offset := off\<rparr>) = epochs_ok m"
  "some_unblocked (m\<lparr>mg_rr := j\<rparr>) = some_unblocked m" "some_unblocked (m\<lparr>mg_combiner := cb\<rparr>) = some_unblocked m"
  "some_unblocked (m\<lparr>mg_offset := off\<rparr>) = some_unblocked m"
  by (simp_all add: epochs_ok_def some_unblocked_def channel_blocked_def)

lemma unblocked_here:
  "i < length (mg_channels m) \<Longrightarrow> active_channel st \<Longrightarrow> ch_barriers_seen st \<le> mg_epoch_closed m \<Longrightarrow>
   some_unblocked (set_channel i st m)"
  by (auto simp: some_unblocked_def channel_blocked_def not_less intro!: bexI [of _ st] set_update_memI)

lemma unblocked_same:
  assumes "some_unblocked m" "i < length (mg_channels m)" "active_channel st = active_channel (mg_channels m ! i)"
    and "ch_barriers_seen st = ch_barriers_seen (mg_channels m ! i)"
  shows "some_unblocked (set_channel i st m)"
proof -
  have old: "mg_channels m ! i \<in> set (mg_channels m)" using assms(2) by simp
  have other: "x \<in> set ((mg_channels m)[i := st])" if "x \<in> set (mg_channels m)" "x \<noteq> mg_channels m ! i" for x
    using that assms(2) by (metis in_set_conv_nth length_list_update nth_list_update_neq)
  have new: "st \<in> set ((mg_channels m)[i := st])" using assms(2) by (rule set_update_memI)
  show ?thesis
    unfolding some_unblocked_def
  proof
    assume "\<exists>x \<in> set (mg_channels (set_channel i st m)). active_channel x"
    then obtain x where "x \<in> set (mg_channels m)" "active_channel x"
      using assms(3) old by (auto dest!: set_update_subset_insert [THEN subsetD])
    then obtain y where y: "y \<in> set (mg_channels m)" "active_channel y" "\<not> channel_blocked m y"
      using assms(1) by (auto simp: some_unblocked_def)
    then show "\<exists>x \<in> set (mg_channels (set_channel i st m)). active_channel x \<and> \<not> channel_blocked (set_channel i st m) x"
      using other [of y] new assms(3,4) by (cases "y = mg_channels m ! i") (auto simp: channel_blocked_def)
  qed
qed

lemma mark_channel_idle_ok:
  assumes "epochs_ok m" "mg_epoch_closed m \<noteq> u64_max" "i < length (mg_channels m)"
    and "\<not> ch_exhausted (mg_channels m ! i)" "ch_barriers_seen (mg_channels m ! i) \<le> mg_epoch_closed m"
  shows "epochs_ok (snd (mark_channel_idle i m)) \<and> some_unblocked (snd (mark_channel_idle i m)) \<and>
    closed_aligned (mg_epoch_closed m) (snd (mark_channel_idle i m))"
proof -
  let ?m = "set_channel i ((mg_channels m ! i)\<lparr>ch_idle := True\<rparr>) m"
  have "epochs_ok ?m" using assms by (intro epochs_ok_set) (auto simp: word_le_nat_alt)
  then show ?thesis
    using maybe_close_epoch_ok [of "?m\<lparr>mg_combiner := snd (mark_idle i (mg_combiner ?m))\<rparr>"] assms(2)
    by (simp add: mark_channel_idle_def combine_idle_def Let_def split_def)
qed

lemma resume_channel_eq:
  assumes "i < length (mg_channels m)"
  shows "resume_channel i m =
    (set_channel i ((mg_channels m ! i)\<lparr>ch_consecutive_empty := 0, ch_idle := False\<rparr>) m)
      \<lparr>mg_combiner := (if ch_idle (mg_channels m ! i) then snd (mark_active i (mg_combiner m)) else mg_combiner m)\<rparr>"
proof (cases "ch_idle (mg_channels m ! i)")
  case False
  then have e: "(mg_channels m ! i)\<lparr>ch_consecutive_empty := 0, ch_idle := False\<rparr> = (mg_channels m ! i)\<lparr>ch_consecutive_empty := 0\<rparr>"
    by (cases "mg_channels m ! i") simp
  show ?thesis unfolding e using False by (simp add: resume_channel_def set_channel_def)
next
  case True
  obtain st where st: "mg_channels m ! i = st" by simp
  then show ?thesis
    using True assms by (cases m, cases st) (simp add: resume_channel_def set_channel_def)
qed

lemma service_keeps_alignment:
  assumes "service_channel now i m = Inr (r, out, m')" "i < length (mg_channels m)"
    and "epochs_ok m" "some_unblocked m" "mg_epoch_closed m \<noteq> u64_max"
    and "\<not> ch_exhausted (mg_channels m ! i)" "\<not> channel_blocked m (mg_channels m ! i)"
  shows "epochs_ok m' \<and> some_unblocked m' \<and> closed_aligned (mg_epoch_closed m) m'"
proof -
  have seen: "ch_barriers_seen (mg_channels m ! i) \<le> mg_epoch_closed m"
    using assms(7) by (simp add: channel_blocked_def not_less)
  then have useen: "unat (ch_barriers_seen (mg_channels m ! i)) \<le> unat (mg_epoch_closed m)" by (simp add: word_le_nat_alt)
  have set_ok: "epochs_ok (set_channel i st m)"
    if "ch_barriers_seen st = ch_barriers_seen (mg_channels m ! i)" for st
    using that seen useen assms(3) by (intro epochs_ok_set) auto
  show ?thesis
    using assms(1)
  proof (cases rule: service_cases)
    case (tick st)
    then show ?thesis
      using unblocked_same [OF assms(4,2)] set_ok by (simp add: active_channel_def closed_aligned_def)
  next
    case (tick_idle st)
    let ?x = "(set_channel i (st\<lparr>ch_gap_remaining := ch_gap_remaining st - 1,
               ch_consecutive_empty := ch_consecutive_empty st + 1\<rparr>) m)\<lparr>mg_rr := (i + 1) mod length (mg_channels m)\<rparr>"
    have m': "m' = snd (mark_channel_idle i ?x)" using tick_idle(6) by (metis snd_conv)
    have "mg_epoch_closed ?x = mg_epoch_closed m" by simp
    then show ?thesis
      unfolding m' using mark_channel_idle_ok [of ?x i] tick_idle(1) set_ok seen assms(2,5,6) by simp
  next
    case (quiet st1)
    then show ?thesis
      using unblocked_same [OF assms(4,2)] set_ok pull_frame [OF quiet(1)] by (simp add: active_channel_def closed_aligned_def)
  next
    case (quiet_idle st1)
    note F = pull_frame [OF quiet_idle(1)]
    let ?x = "(set_channel i st1 m)\<lparr>mg_rr := (i + 1) mod length (mg_channels m)\<rparr>"
    have m': "m' = snd (mark_channel_idle i ?x)" using quiet_idle(5) by (metis snd_conv)
    have "mg_epoch_closed ?x = mg_epoch_closed m" by simp
    then show ?thesis
      unfolding m' using mark_channel_idle_ok [of ?x i] F set_ok seen assms(2,5,6) by simp
  next
    case (exhausted st1)
    note F = pull_frame [OF exhausted(1)]
    have "epochs_ok (set_channel i st1 m)" using set_ok F by simp
    then show ?thesis
      using maybe_close_epoch_ok [of "(set_channel i st1 m)\<lparr>mg_combiner := snd (mark_idle i (mg_combiner (set_channel i st1 m)))\<rparr>"]
        assms(5) exhausted(4) by (simp add: combine_idle_def Let_def split_def)
  next
    case (item it st1)
    note F = pull_frame [OF item(1)]
    let ?m = "resume_channel i ((set_channel i st1 m)\<lparr>mg_rr := (i + 1) mod length (mg_channels m)\<rparr>)"
    let ?st = "st1\<lparr>ch_consecutive_empty := 0, ch_idle := False\<rparr>"
    obtain cb where r: "?m = (set_channel i ?st m)\<lparr>mg_rr := (i + 1) mod length (mg_channels m), mg_combiner := cb\<rparr>"
    proof
      have "i < length (mg_channels ((set_channel i st1 m)\<lparr>mg_rr := (i + 1) mod length (mg_channels m)\<rparr>))" using assms(2) by simp
      from resume_channel_eq [OF this] show "?m = (set_channel i ?st m)\<lparr>mg_rr := (i + 1) mod length (mg_channels m),
          mg_combiner := (if ch_idle st1 then snd (mark_active i (mg_combiner m)) else mg_combiner m)\<rparr>"
        using assms(2) by (simp add: set_channel_def)
    qed
    have act: "active_channel ?st" "ch_barriers_seen ?st = ch_barriers_seen (mg_channels m ! i)"
      using F assms(6) by (auto simp: active_channel_def)
    have e: "epochs_ok ?m" "some_unblocked ?m"
      using set_ok act unblocked_here [OF assms(2), of ?st] seen unfolding r by simp_all
    have ci: "mg_channels ?m ! i = ?st" "i < length (mg_channels ?m)" "mg_epoch_closed ?m = mg_epoch_closed m"
      using assms(2) unfolding r by simp_all
    show ?thesis
    proof (cases it)
      case (Data x)
      then show ?thesis
        using item(4) e act seen ci epochs_ok_set [OF e(1), of "?st\<lparr>ch_data_pulled := ch_data_pulled ?st + 1\<rparr>" i]
          unblocked_same [OF e(2) ci(2), of "?st\<lparr>ch_data_pulled := ch_data_pulled ?st + 1\<rparr>"] useen
        by (simp add: deliver_item_def Let_def active_channel_def closed_aligned_def)
    next
      case (Control c)
      show ?thesis
      proof (cases "ctype c")
        case KWatermark
        then show ?thesis using item(4) e Control ci(3) by (simp add: deliver_item_def Let_def split_def closed_aligned_def)
      next
        case KCheckpointBarrier
        let ?b = "?st\<lparr>ch_barriers_seen := ch_barriers_seen ?st + 1\<rparr>"
        have "ch_barriers_seen ?st \<noteq> u64_max"
          using seen act(2) assms(5) by (auto simp: u64_max_def dest: word_order.extremum_uniqueI)
        then have "unat (ch_barriers_seen ?b) \<le> unat (mg_epoch_closed m) + 1"
          using useen act(2) by (simp add: u64_inc_unat)
        then have "epochs_ok (set_channel i ?b ?m)" using e(1) ci by (intro epochs_ok_set) simp_all
        then show ?thesis
          using maybe_close_epoch_ok [of "set_channel i ?b ?m"] assms(5) item(4) Control KCheckpointBarrier ci
          by (simp add: deliver_item_def Let_def prod_eq_iff)
      qed
    qed
  qed
qed

lemma service_not_exhausted:
  assumes "service_channel now i m = Inr (r, out, m')"
  shows "r \<noteq> SExhausted"
  using assms
proof (cases rule: service_cases)
qed auto

lemma produce_attempts_cases:
  assumes "produce_attempts now as m = Inr (r, out, m')" "mg_channels m \<noteq> []"
  shows "r = SExhausted \<and> out = [] \<and> m' = m \<and>
      (\<forall>a \<in> set as. let st = mg_channels m ! ((mg_rr m + a) mod length (mg_channels m)) in ch_exhausted st \<or> channel_blocked m st) \<or>
    r \<noteq> SExhausted \<and> (\<exists>i < length (mg_channels m). \<not> ch_exhausted (mg_channels m ! i) \<and>
      \<not> channel_blocked m (mg_channels m ! i) \<and> service_channel now i m = Inr (r, out, m'))"
  using assms
proof (induction as)
  case (Cons a as)
  let ?i = "(mg_rr m + a) mod length (mg_channels m)"
  show ?case
  proof (cases "ch_exhausted (mg_channels m ! ?i) \<or> channel_blocked m (mg_channels m ! ?i)")
    case True
    then show ?thesis using Cons by (auto simp: Let_def)
  next
    case False
    then have s: "service_channel now ?i m = Inr (r, out, m')" using Cons.prems(1) by (simp add: Let_def)
    then show ?thesis
      using False service_not_exhausted [OF s] Cons.prems(2) by (intro disjI2 conjI exI [of _ ?i]) auto
  qed
qed simp

lemma rotation_covers:
  assumes "j < k"
  shows "\<exists>a < k. (rr + a) mod k = (j :: nat)"
proof -
  let ?a = "(j + (k - rr mod k)) mod k"
  have "(rr + ?a) mod k = (rr mod k + (j + (k - rr mod k))) mod k" by (simp add: mod_simps)
  also have "rr mod k + (j + (k - rr mod k)) = j + k" using assms mod_less_divisor [of k rr] by linarith
  also have "(j + k) mod k = j" using assms by simp
  finally show ?thesis using assms by (intro exI [of _ ?a]) auto
qed

lemma produce_cases [consumes 2, case_names stuck turn]:
  assumes "produce_one_merged_step now m = Inr (r, out, m')" "mg_channels m \<noteq> []"
  obtains "r = SExhausted" "out = []" "m' = m" "\<forall>st \<in> set (mg_channels m). ch_exhausted st \<or> channel_blocked m st"
  | i where "r \<noteq> SExhausted" "i < length (mg_channels m)" "\<not> ch_exhausted (mg_channels m ! i)"
      "\<not> channel_blocked m (mg_channels m ! i)" "service_channel now i m = Inr (r, out, m')"
proof -
  let ?k = "length (mg_channels m)"
  have "ch_exhausted st \<or> channel_blocked m st"
    if *: "\<forall>a \<in> set [0..<?k]. let st = mg_channels m ! ((mg_rr m + a) mod ?k) in ch_exhausted st \<or> channel_blocked m st"
      and st: "st \<in> set (mg_channels m)" for st
  proof -
    obtain j where j: "j < ?k" "st = mg_channels m ! j" using st by (auto simp: in_set_conv_nth)
    then obtain a where "a < ?k" "(mg_rr m + a) mod ?k = j" using rotation_covers by blast
    then show ?thesis using * j(2) by (auto simp: Let_def)
  qed
  then show ?thesis
    using produce_attempts_cases [OF assms(1) [unfolded produce_one_merged_step_def] assms(2)] that by blast
qed

text \<open>A run of the merge: the items produced by any number of steps.\<close>

inductive merge_runs :: "'s merge_state \<Rightarrow> batch_item list \<Rightarrow> 's merge_state \<Rightarrow> bool" where
  merge_runs_refl: "merge_runs m [] m"
| merge_runs_step: "merge_runs m out m1 \<Longrightarrow> produce_one_merged_step now m1 = Inr (r, its, m2) \<Longrightarrow>
    merge_runs m (out @ its) m2"

lemma combine_idle_frame:
  "length (mg_channels (snd (combine_idle i m))) = length (mg_channels m)" "mg_config (snd (combine_idle i m)) = mg_config m"
  "mg_channels (snd (combine_idle i m)) = mg_channels m"
  by (simp_all add: combine_idle_def maybe_close_epoch_def Let_def split_def)

lemma deliver_item_frame:
  "length (mg_channels (snd (deliver_item i it m))) = length (mg_channels m)" "mg_config (snd (deliver_item i it m)) = mg_config m"
  by (simp_all add: deliver_item_def maybe_close_epoch_def Let_def split_def split: batch_item.split control_type.split)

lemma resume_channel_frame:
  "length (mg_channels (resume_channel i m)) = length (mg_channels m)" "mg_config (resume_channel i m) = mg_config m"
  by (simp_all add: resume_channel_def Let_def)

lemma service_frame:
  assumes "service_channel now i m = Inr (r, out, m')"
  shows "length (mg_channels m') = length (mg_channels m) \<and> mg_config m' = mg_config m"
proof -
  have p: "(out, m') = x \<Longrightarrow> m' = snd x" for x by (metis snd_conv)
  show ?thesis
    using assms
  proof (cases rule: service_cases)
    case (tick_idle st)
    then show ?thesis using p [OF tick_idle(6)] by (simp add: mark_channel_idle_def combine_idle_frame)
  next
    case (quiet_idle st1)
    then show ?thesis using p [OF quiet_idle(5)] by (simp add: mark_channel_idle_def combine_idle_frame)
  next
    case (exhausted st1)
    then show ?thesis using p [OF exhausted(4)] by (simp add: combine_idle_frame)
  next
    case (item it st1)
    then show ?thesis using p [OF item(4)] by (simp add: deliver_item_frame resume_channel_frame)
  qed simp_all
qed

section \<open>Channels over finite streams\<close>

text \<open>The items a channel has still to deliver: the rest of its buffer and of its source.\<close>

definition yields :: "'s channel_state \<Rightarrow> batch_item list \<Rightarrow> bool" where
  "yields st its \<longleftrightarrow>
     (\<exists>bs s1 s2. hands_over (ch_ops st) (ch_source st) bs s1 \<and> src_next (ch_ops st) s1 = Inr (None, s2) \<and>
        [] \<notin> set bs \<and> its = drop (ch_cursor st) (ch_buf st) @ concat bs)"

lemma yields_frame:
  "ch_ops st' = ch_ops st \<Longrightarrow> ch_source st' = ch_source st \<Longrightarrow> ch_cursor st' = ch_cursor st \<Longrightarrow> ch_buf st' = ch_buf st \<Longrightarrow>
   yields st' its = yields st its"
  by (simp add: yields_def)

lemma pull_exhausted:
  assumes "yields st []"
  shows "\<exists>s. pull_next_item now cfg st = Inr (PExhausted, st\<lparr>ch_source := s, ch_exhausted := True\<rparr>)"
proof -
  obtain bs s1 s2 where b: "hands_over (ch_ops st) (ch_source st) bs s1" "src_next (ch_ops st) s1 = Inr (None, s2)"
      "[] \<notin> set bs" "drop (ch_cursor st) (ch_buf st) = []" "concat bs = []"
    using assms by (auto simp: yields_def)
  then have "bs = []" by (cases bs) auto
  then show ?thesis using b by (auto simp: pull_next_item_def Let_def)
qed

lemma pull_item:
  assumes "yields st (it # its)"
  shows "\<exists>st1. pull_next_item now cfg st = Inr (PItem it, st1) \<and> yields st1 its"
proof -
  obtain bs s1 s2 where b: "hands_over (ch_ops st) (ch_source st) bs s1" "src_next (ch_ops st) s1 = Inr (None, s2)"
      "[] \<notin> set bs" "it # its = drop (ch_cursor st) (ch_buf st) @ concat bs"
    using assms by (auto simp: yields_def)
  show ?thesis
  proof (cases "ch_cursor st < length (ch_buf st)")
    case True
    then have d: "drop (ch_cursor st) (ch_buf st) = ch_buf st ! ch_cursor st # drop (Suc (ch_cursor st)) (ch_buf st)"
      by (simp add: Cons_nth_drop_Suc)
    then show ?thesis using True b by (auto simp: pull_next_item_def Let_def yields_def)
  next
    case False
    then have n: "it # its = concat bs" using b(4) by simp
    then obtain x xs bs' where bs: "bs = (x # xs) # bs'" using b(3) by (cases bs; cases "hd bs") auto
    then obtain s where s: "src_next (ch_ops st) (ch_source st) = Inr (Some (x # xs), s)" "hands_over (ch_ops st) s bs' s1"
      using b(1) by auto
    show ?thesis using False s b(2,3) n bs by (auto simp: pull_next_item_def Let_def yields_def)
  qed
qed

definition finite_merge :: "'s merge_state \<Rightarrow> batch_item list list \<Rightarrow> bool" where
  "finite_merge m R \<longleftrightarrow>
     length R = length (mg_channels m) \<and>
     (\<forall>i < length R. if ch_exhausted (mg_channels m ! i) then R ! i = [] else yields (mg_channels m ! i) (R ! i))"

definition channel_cost :: "'s channel_state \<Rightarrow> batch_item list \<Rightarrow> nat" where
  "channel_cost st its =
     length its + unat (ch_gap_remaining st) +
     sum_list (map (unat \<circ> span_length) (drop (ch_next_span st) (ch_idle_spans st))) +
     (if ch_exhausted st then 0 else 1)"

definition merge_cost :: "'s merge_state \<Rightarrow> batch_item list list \<Rightarrow> nat" where
  "merge_cost m R = sum_list (map2 channel_cost (mg_channels m) R)"

lemma enter_gap_cost: "channel_cost (enter_gap st) its = channel_cost st its"
proof (cases "ch_next_span st < length (ch_idle_spans st)")
  case True
  then have "drop (ch_next_span st) (ch_idle_spans st) =
      ch_idle_spans st ! ch_next_span st # drop (Suc (ch_next_span st)) (ch_idle_spans st)"
    by (simp add: Cons_nth_drop_Suc)
  then show ?thesis by (simp add: enter_gap_def channel_cost_def)
qed (simp add: enter_gap_def)

lemma merge_cost_set:
  assumes "length R = length (mg_channels m)" "i < length R" "channel_cost st its < channel_cost (mg_channels m ! i) (R ! i)"
    and "mg_channels m' = (mg_channels m)[i := st]"
  shows "merge_cost m' (R[i := its]) < merge_cost m R"
proof -
  have "map2 channel_cost ((mg_channels m)[i := st]) (R[i := its]) =
      (map2 channel_cost (mg_channels m) R)[i := channel_cost st its]"
    using assms(1,2) by (auto simp: list_eq_iff_nth_eq nth_list_update)
  moreover have "sum_list (xs[i := x]) < sum_list xs" if "i < length xs" "x < xs ! i" for xs :: "nat list" and x
    using that elem_le_sum_list [of i xs] by (simp add: sum_list_update)
  ultimately show ?thesis using assms by (simp add: merge_cost_def)
qed

lemma finite_merge_set:
  assumes "finite_merge m R" "i < length R" "if ch_exhausted st then its = [] else yields st its"
    and "mg_channels m' = (mg_channels m)[i := st]"
  shows "finite_merge m' (R[i := its])"
  using assms by (auto simp: finite_merge_def nth_list_update)

lemma mark_channel_idle_channels:
  "mg_channels (snd (mark_channel_idle i m)) = (mg_channels m)[i := (mg_channels m ! i)\<lparr>ch_idle := True\<rparr>]"
  by (simp add: mark_channel_idle_def combine_idle_frame)

text \<open>The data records of a stream, in order.\<close>

fun data_of :: "batch_item list \<Rightarrow> data_record list" where
  "data_of [] = []"
| "data_of (Data r # its) = r # data_of its"
| "data_of (Control c # its) = data_of its"

lemma data_of_append [simp]: "data_of (a @ b) = data_of a @ data_of b"
  by (induction a rule: data_of.induct) simp_all

lemma data_of_control [simp]:
  "data_of (watermark_item w off # its) = data_of its" "data_of (barrier_item off # its) = data_of its"
  by (simp_all add: watermark_item_def barrier_item_def)

lemma control_no_records:
  "data_of (fst (combine_idle i m)) = []" "data_of (emit_watermark w m) = []" "data_of (fst (maybe_close_epoch m)) = []"
  "data_of (fst (mark_channel_idle i m)) = []"
  by (simp_all add: combine_idle_def mark_channel_idle_def emit_watermark_def maybe_close_epoch_def Let_def split_def
      split: option.split)

text \<open>
  One turn on a finite channel consumes an item, an idle tick or the end of the channel, and
  forwards the record it consumes.
\<close>

definition after_turn :: "nat \<Rightarrow> 's merge_state \<Rightarrow> batch_item list list \<Rightarrow> batch_item list list" where
  "after_turn i m R =
     R[i := (if ch_gap_remaining (enter_gap (mg_channels m ! i)) > 0 then R ! i else tl (R ! i))]"

lemma service_finite:
  assumes fin: "finite_merge m R" and i: "i < length (mg_channels m)" "\<not> ch_exhausted (mg_channels m ! i)"
  shows "\<exists>out m'. service_channel now i m = Inr (SProduced, out, m') \<and> finite_merge m' (after_turn i m R) \<and>
    merge_cost m' (after_turn i m R) < merge_cost m R \<and> data_of (R ! i) = data_of out @ data_of (after_turn i m R ! i)"
proof -
  let ?st = "enter_gap (mg_channels m ! i)" and ?k = "length (mg_channels m)"
  have len: "length R = ?k" and iR: "i < length R" using fin i by (simp_all add: finite_merge_def)
  have y: "yields ?st (R ! i)" using fin i iR yields_frame [of ?st "mg_channels m ! i"] by (auto simp: finite_merge_def)
  have cost: "channel_cost ?st (R ! i) = channel_cost (mg_channels m ! i) (R ! i)" by (rule enter_gap_cost)
  show ?thesis
  proof (cases "ch_gap_remaining ?st > 0")
    case True
    let ?st1 = "?st\<lparr>ch_gap_remaining := ch_gap_remaining ?st - 1, ch_consecutive_empty := ch_consecutive_empty ?st + 1\<rparr>"
    let ?m1 = "(set_channel i ?st1 m)\<lparr>mg_rr := (i + 1) mod ?k\<rparr>"
    have g: "unat (ch_gap_remaining ?st - 1) < unat (ch_gap_remaining ?st)"
      using True by (simp add: unat_gt_0 word_gt_0 unat_minus_one)
    have c: "channel_cost (?st1\<lparr>ch_idle := b\<rparr>) (R ! i) < channel_cost (mg_channels m ! i) (R ! i)" for b
      unfolding cost [symmetric] using g by (simp add: channel_cost_def)
    have y1: "yields (?st1\<lparr>ch_idle := b\<rparr>) (R ! i)" for b using y by (simp add: yields_def)
    obtain out m' b where s: "service_channel now i m = Inr (SProduced, out, m')" "data_of out = []"
        "mg_channels m' = (mg_channels m)[i := ?st1\<lparr>ch_idle := b\<rparr>]"
    proof (cases "mc_idle_timeout (mg_config m) > 0 \<and> \<not> ch_idle ?st1 \<and> ch_consecutive_empty ?st1 \<ge> ucast (mc_idle_timeout (mg_config m))")
      case idle: True
      show ?thesis
      proof (rule that)
        show "service_channel now i m = Inr (SProduced, fst (mark_channel_idle i ?m1), snd (mark_channel_idle i ?m1))"
          using True idle by (simp add: service_channel_def Let_def split_def)
        show "data_of (fst (mark_channel_idle i ?m1)) = []" by (rule control_no_records(4))
        show "mg_channels (snd (mark_channel_idle i ?m1)) = (mg_channels m)[i := ?st1\<lparr>ch_idle := True\<rparr>]"
          using i(1) unfolding mark_channel_idle_channels by simp
      qed
    next
      case noidle: False
      have self: "?st1\<lparr>ch_idle := ch_idle ?st1\<rparr> = ?st1" by (cases ?st1) simp
      show ?thesis
      proof (rule that)
        show "service_channel now i m = Inr (SProduced, [], ?m1)"
          using True noidle by (auto simp: service_channel_def Let_def)
        show "data_of [] = []" by simp
        show "mg_channels ?m1 = (mg_channels m)[i := ?st1\<lparr>ch_idle := ch_idle ?st1\<rparr>]" unfolding self by simp
      qed
    qed
    have at: "after_turn i m R = R[i := R ! i]" using True by (simp add: after_turn_def)
    show ?thesis
      using s finite_merge_set [OF fin iR _ s(3), of "R ! i"] merge_cost_set [OF len iR c s(3)] y1 i(2)
      unfolding at by (intro exI [of _ out] exI [of _ m']) auto
  next
    case False
    then have at: "after_turn i m R = R[i := tl (R ! i)]" by (simp add: after_turn_def)
    from False have pull: "service_channel now i m = bind_res (pull_next_item now (mg_config m) ?st) (\<lambda>(pulled, st1).
           let m1 = set_channel i st1 m in
           case pulled of
             PNoData \<Rightarrow>
               (let m2 = m1\<lparr>mg_rr := (i + 1) mod ?k\<rparr>
                in if mc_idle_timeout_wall (mg_config m) > 0 \<and> \<not> ch_idle st1 \<and> now - ch_last_item st1 \<ge> mc_idle_timeout_wall (mg_config m)
                   then (let (out, m3) = mark_channel_idle i m2 in Inr (SNoData, out, m3))
                   else Inr (SNoData, [], m2))
           | PExhausted \<Rightarrow> (let (out, m2) = combine_idle i m1 in Inr (SProduced, out, m2))
           | PItem it \<Rightarrow>
               (let (out, m2) = deliver_item i it (resume_channel i (m1\<lparr>mg_rr := (i + 1) mod ?k\<rparr>))
                in Inr (SProduced, out, m2)))"
      by (simp add: service_channel_def Let_def)
    show ?thesis
    proof (cases "R ! i")
      case Nil
      obtain s where p: "pull_next_item now (mg_config m) ?st = Inr (PExhausted, ?st\<lparr>ch_source := s, ch_exhausted := True\<rparr>)"
        using pull_exhausted [of ?st] y Nil by metis
      let ?st1 = "?st\<lparr>ch_source := s, ch_exhausted := True\<rparr>"
      let ?x = "combine_idle i (set_channel i ?st1 m)"
      have ch: "mg_channels (snd ?x) = (mg_channels m)[i := ?st1]" by (simp add: combine_idle_frame)
      have c: "channel_cost ?st1 [] < channel_cost (mg_channels m ! i) (R ! i)"
        unfolding cost [symmetric] using i(2) Nil by (simp add: channel_cost_def)
      show ?thesis
      proof (intro exI conjI)
        show "service_channel now i m = Inr (SProduced, fst ?x, snd ?x)" using pull p by (simp add: Let_def split_def)
        show "finite_merge (snd ?x) (after_turn i m R)" using finite_merge_set [OF fin iR _ ch, of "[]"] Nil by (simp add: at)
        show "merge_cost (snd ?x) (after_turn i m R) < merge_cost m R" using merge_cost_set [OF len iR c ch] Nil by (simp add: at)
        show "data_of (R ! i) = data_of (fst ?x) @ data_of (after_turn i m R ! i)"
          using control_no_records(1) [of i "set_channel i ?st1 m"] Nil iR by (simp add: at)
      qed
    next
      case (Cons it its)
      then obtain st1 where p: "pull_next_item now (mg_config m) ?st = Inr (PItem it, st1)" "yields st1 its"
        using pull_item y by metis
      let ?m = "resume_channel i ((set_channel i st1 m)\<lparr>mg_rr := (i + 1) mod ?k\<rparr>)"
      let ?x = "deliver_item i it ?m"
      note F = pull_frame [OF p(1)]
      have rc: "mg_channels ?m = (mg_channels m)[i := st1\<lparr>ch_consecutive_empty := 0, ch_idle := False\<rparr>]"
        using i(1) by (subst resume_channel_eq) simp_all
      obtain st2 where st2: "mg_channels (snd ?x) = (mg_channels m)[i := st2]" "yields st2 its" "\<not> ch_exhausted st2"
          "channel_cost st2 its < channel_cost ?st (R ! i)"
      proof -
        let ?a = "st1\<lparr>ch_consecutive_empty := 0, ch_idle := False\<rparr>"
        let ?st2 = "(case it of Data r \<Rightarrow> ?a\<lparr>ch_data_pulled := ch_data_pulled ?a + 1\<rparr>
            | Control c \<Rightarrow> (if ctype c = KWatermark then ?a else ?a\<lparr>ch_barriers_seen := ch_barriers_seen ?a + 1\<rparr>))"
        have "mg_channels (snd ?x) = (mg_channels m)[i := ?st2]"
          using i(1) rc
          by (cases it) (auto simp: deliver_item_def maybe_close_epoch_def Let_def split_def split: control_type.split)
        moreover have "yields ?st2 its" using p(2) by (cases it) (simp_all add: yields_def)
        moreover have "\<not> ch_exhausted ?st2" using F i(2) by (cases it) simp_all
        moreover have "channel_cost ?st2 its < channel_cost ?st (R ! i)"
          using F Cons i(2) by (cases it) (simp_all add: channel_cost_def)
        ultimately show ?thesis using that by blast
      qed
      have o: "data_of (fst ?x) = data_of [it]"
        using control_no_records(2,3)
        by (cases it) (auto simp: deliver_item_def Let_def split_def split: control_type.split)
      moreover have "data_of (it # its) = data_of [it] @ data_of its" by (cases it) simp_all
      ultimately have d: "data_of (R ! i) = data_of (fst ?x) @ data_of (R[i := its] ! i)" using Cons iR by simp
      show ?thesis
        using pull p(1) finite_merge_set [OF fin iR _ st2(1), of its] st2(2,3) d Cons
          merge_cost_set [OF len iR st2(4) [unfolded cost] st2(1)]
        by (intro exI [of _ "fst ?x"] exI [of _ "snd ?x"]) (auto simp: at Let_def split_def)
    qed
  qed
qed

section \<open>Running a merge of finite channels\<close>

text \<open>
  The state of a merge of finite channels: \<open>R\<close> holds what each channel has still to deliver, and
  the epoch counter cannot reach its maximum before the channels end.
\<close>

definition merge_live :: "'s merge_state \<Rightarrow> batch_item list list \<Rightarrow> bool" where
  "merge_live m R \<longleftrightarrow>
     finite_merge m R \<and> mg_channels m \<noteq> [] \<and> epochs_ok m \<and> some_unblocked m \<and>
     unat (mg_epoch_closed m) + merge_cost m R < 2 ^ 64 - 1"

text \<open>A step closes at most one epoch, and then emits an item.\<close>

definition epoch_step :: "'s merge_state \<Rightarrow> batch_item list \<times> 's merge_state \<Rightarrow> bool" where
  "epoch_step m res \<longleftrightarrow>
     mg_epoch_closed (snd res) = mg_epoch_closed m \<or> mg_epoch_closed (snd res) = mg_epoch_closed m + 1 \<and> fst res \<noteq> []"

lemma maybe_close_epoch_epoch:
  "epoch_step m (maybe_close_epoch m)"
  by (auto simp: epoch_step_def maybe_close_epoch_def Let_def)

lemma combine_idle_epoch:
  "epoch_step m (combine_idle i m)"
  using maybe_close_epoch_epoch [of "m\<lparr>mg_combiner := snd (mark_idle i (mg_combiner m))\<rparr>"]
  by (auto simp: epoch_step_def combine_idle_def Let_def split_def)

lemma mark_channel_idle_epoch:
  "epoch_step m (mark_channel_idle i m)"
  using combine_idle_epoch [of "set_channel i ((mg_channels m ! i)\<lparr>ch_idle := True\<rparr>) m" i] by (simp add: mark_channel_idle_def epoch_step_def)

lemma resume_channel_epoch [simp]: "mg_epoch_closed (resume_channel i m) = mg_epoch_closed m"
  by (simp add: resume_channel_def Let_def)

lemma deliver_item_epoch:
  "epoch_step m (deliver_item i it m)"
  using maybe_close_epoch_epoch
    [of "set_channel i ((mg_channels m ! i)\<lparr>ch_barriers_seen := ch_barriers_seen (mg_channels m ! i) + 1\<rparr>) m"]
  by (auto simp: epoch_step_def deliver_item_def Let_def split_def split: batch_item.split control_type.split)

lemma service_epoch:
  assumes "service_channel now i m = Inr (r, out, m')"
  shows "epoch_step m (out, m')"
proof -
  have p: "(out, m') = x \<Longrightarrow> x = (out, m')" for x by simp
  show ?thesis
    using assms
  proof (cases rule: service_cases)
    case (tick_idle st)
    then show ?thesis
      using mark_channel_idle_epoch [of "(set_channel i (st\<lparr>ch_gap_remaining := ch_gap_remaining st - 1,
        ch_consecutive_empty := ch_consecutive_empty st + 1\<rparr>) m)\<lparr>mg_rr := (i + 1) mod length (mg_channels m)\<rparr>" i]
        p [OF tick_idle(6)] by (simp add: epoch_step_def)
  next
    case (quiet_idle st1)
    then show ?thesis
      using mark_channel_idle_epoch [of "(set_channel i st1 m)\<lparr>mg_rr := (i + 1) mod length (mg_channels m)\<rparr>" i]
        p [OF quiet_idle(5)] by (simp add: epoch_step_def)
  next
    case (exhausted st1)
    then show ?thesis using p [OF exhausted(4)] combine_idle_epoch [of "set_channel i st1 m" i] by (simp add: epoch_step_def)
  next
    case (item it st1)
    then show ?thesis
      using deliver_item_epoch [of "resume_channel i ((set_channel i st1 m)\<lparr>mg_rr := (i + 1) mod length (mg_channels m)\<rparr>)" i it]
        p [OF item(4)] by (simp add: epoch_step_def)
  qed (simp_all add: epoch_step_def)
qed

lemma produce_attempts_turn:
  assumes "\<not> (\<forall>a \<in> set as. let st = mg_channels m ! ((mg_rr m + a) mod length (mg_channels m)) in ch_exhausted st \<or> channel_blocked m st)"
    and "mg_channels m \<noteq> []"
  shows "\<exists>i < length (mg_channels m). \<not> ch_exhausted (mg_channels m ! i) \<and> \<not> channel_blocked m (mg_channels m ! i) \<and>
    produce_attempts now as m = service_channel now i m"
  using assms
proof (induction as)
  case (Cons a as)
  let ?i = "(mg_rr m + a) mod length (mg_channels m)"
  show ?case
  proof (cases "ch_exhausted (mg_channels m ! ?i) \<or> channel_blocked m (mg_channels m ! ?i)")
    case True
    then show ?thesis using Cons by (auto simp: Let_def)
  next
    case False
    then show ?thesis using Cons.prems(2) by (intro exI [of _ ?i]) (auto simp: Let_def)
  qed
qed simp

lemma live_not_stuck:
  assumes "merge_live m R" "\<not> all_exhausted m"
  shows "\<exists>i < length (mg_channels m). \<not> ch_exhausted (mg_channels m ! i) \<and> \<not> channel_blocked m (mg_channels m ! i) \<and>
    produce_one_merged_step now m = service_channel now i m"
proof -
  obtain st where st: "st \<in> set (mg_channels m)" "\<not> ch_exhausted st"
    using assms(2) by (auto simp: all_exhausted_def list_all_iff)
  have "\<exists>st \<in> set (mg_channels m). \<not> ch_exhausted st \<and> \<not> channel_blocked m st"
  proof (cases "ch_idle st")
    case True
    then show ?thesis using assms(1) st by (auto simp: merge_live_def epochs_ok_def channel_blocked_def not_less)
  next
    case False
    then have "active_channel st" using st(2) by (simp add: active_channel_def)
    then show ?thesis using assms(1) st(1) by (auto simp: merge_live_def some_unblocked_def active_channel_def)
  qed
  then obtain j where j: "j < length (mg_channels m)" "\<not> ch_exhausted (mg_channels m ! j)" "\<not> channel_blocked m (mg_channels m ! j)"
    by (auto simp: in_set_conv_nth)
  moreover obtain a where "a < length (mg_channels m)" "(mg_rr m + a) mod length (mg_channels m) = j"
    using rotation_covers j(1) by blast
  ultimately show ?thesis
    using assms(1) unfolding produce_one_merged_step_def
    by (intro produce_attempts_turn) (auto simp: merge_live_def Let_def)
qed

lemma turn_keeps_live:
  assumes "merge_live m R" "i < length (mg_channels m)" "\<not> ch_exhausted (mg_channels m ! i)"
    and "\<not> channel_blocked m (mg_channels m ! i)"
  shows "\<exists>out m'. service_channel now i m = Inr (SProduced, out, m') \<and> merge_live m' (after_turn i m R) \<and>
    merge_cost m' (after_turn i m R) < merge_cost m R \<and> data_of (R ! i) = data_of out @ data_of (after_turn i m R ! i)"
proof -
  have L: "finite_merge m R" "mg_channels m \<noteq> []" "epochs_ok m" "some_unblocked m"
      "unat (mg_epoch_closed m) + merge_cost m R < 2 ^ 64 - 1"
    using assms(1) by (simp_all add: merge_live_def)
  obtain out m' where s: "service_channel now i m = Inr (SProduced, out, m')" "finite_merge m' (after_turn i m R)"
      "merge_cost m' (after_turn i m R) < merge_cost m R" "data_of (R ! i) = data_of out @ data_of (after_turn i m R ! i)"
    using service_finite [OF L(1) assms(2,3)] by blast
  have e: "mg_epoch_closed m \<noteq> u64_max" using L(5) by (auto simp: u64_max_def unsigned_minus_1_eq_mask mask_eq_exp_minus_1)
  have "unat (mg_epoch_closed m') \<le> unat (mg_epoch_closed m) + 1"
    using service_epoch [OF s(1)] u64_inc_unat [OF e] by (auto simp: epoch_step_def)
  moreover have "epochs_ok m' \<and> some_unblocked m'"
    using service_keeps_alignment [OF s(1) assms(2) L(3,4) e assms(3,4)] by simp
  moreover have "mg_channels m' \<noteq> []" using service_frame [OF s(1)] L(2) by auto
  ultimately show ?thesis using s L(5) by (intro exI [of _ out] exI [of _ m']) (simp add: merge_live_def)
qed

text \<open>A sequence of turns.\<close>

inductive turns :: "'s merge_state \<Rightarrow> batch_item list list \<Rightarrow> batch_item list \<Rightarrow> 's merge_state \<Rightarrow> batch_item list list \<Rightarrow> bool" where
  turns_refl: "turns m R [] m R"
| turns_step: "merge_live m R \<Longrightarrow> i < length (mg_channels m) \<Longrightarrow> \<not> ch_exhausted (mg_channels m ! i) \<Longrightarrow>
    service_channel now i m = Inr (SProduced, out, m1) \<Longrightarrow> data_of (R ! i) = data_of out @ data_of (after_turn i m R ! i) \<Longrightarrow>
    merge_cost m1 (after_turn i m R) < merge_cost m R \<Longrightarrow> turns m1 (after_turn i m R) rest m2 R2 \<Longrightarrow> turns m R (out @ rest) m2 R2"

lemma turns_trans: "turns m R a m1 R1 \<Longrightarrow> turns m1 R1 b m2 R2 \<Longrightarrow> turns m R (a @ b) m2 R2"
  by (induction rule: turns.induct) (auto intro: turns.intros)

lemma turns_config: "turns m R a m1 R1 \<Longrightarrow> mg_config m1 = mg_config m"
  by (induction rule: turns.induct) (auto dest: service_frame)

lemma service_out_length:
  assumes "service_channel now i m = Inr (r, out, m')"
  shows "length out \<le> 2"
proof -
  have c: "length (fst (combine_idle j n)) \<le> 2" for j and n :: "'a merge_state"
    by (simp add: combine_idle_def Let_def split_def emit_watermark_def maybe_close_epoch_def split: option.split)
  have d: "length (fst (deliver_item j it n)) \<le> 2" for j it and n :: "'a merge_state"
    by (simp add: deliver_item_def Let_def split_def emit_watermark_def maybe_close_epoch_def
        split: batch_item.split control_type.split option.split)
  have p: "(out, m') = x \<Longrightarrow> out = fst x" for x by (metis fst_conv)
  show ?thesis
    using assms
  proof (cases rule: service_cases)
    case (tick_idle st)
    then show ?thesis using p [OF tick_idle(6)] c by (simp add: mark_channel_idle_def)
  next
    case (quiet_idle st1)
    then show ?thesis using p [OF quiet_idle(5)] c by (simp add: mark_channel_idle_def)
  next
    case (exhausted st1)
    then show ?thesis using p [OF exhausted(4)] c by simp
  next
    case (item it st1)
    then show ?thesis using p [OF item(4)] d by simp
  qed simp_all
qed

lemma turns_length: "turns m R out m' R' \<Longrightarrow> length out + 2 * merge_cost m' R' \<le> 2 * merge_cost m R"
proof (induction rule: turns.induct)
  case (turns_step m R i now out m1 rest m2 R2)
  then show ?case using service_out_length [OF turns_step(4)] by simp
qed simp

lemma merge_loop_finite:
  assumes "merge_live m R" "merge_cost m R < fuel"
  shows "\<exists>out' m' R'. merge_loop fuel clock out quiet m = Some (Inr (out @ out', m')) \<and> turns m R out' m' R' \<and>
    merge_live m' R' \<and> (all_exhausted m' \<or> unat (mc_batch_size (mg_config m)) \<le> data_records (out @ out')) \<and>
    (if data_records out < unat (mc_batch_size (mg_config m)) \<and> \<not> all_exhausted m then merge_cost m' R' < merge_cost m R
     else merge_cost m' R' = merge_cost m R)"
  using assms
proof (induction fuel arbitrary: clock out quiet m R)
  case (Suc fuel)
  consider (full) "\<not> data_records out < unat (mc_batch_size (mg_config m))"
    | (ended) "data_records out < unat (mc_batch_size (mg_config m))" "all_exhausted m"
    | (turn) "data_records out < unat (mc_batch_size (mg_config m))" "\<not> all_exhausted m" by blast
  then show ?case
  proof cases
    case full
    then show ?thesis using Suc.prems(1) by (intro exI [of _ "[]"] exI [of _ m] exI [of _ R]) (auto intro: turns_refl)
  next
    case ended
    have "mg_channels m \<noteq> []" using Suc.prems(1) by (simp add: merge_live_def)
    then have "produce_attempts (clock 0) as m = Inr (SExhausted, [], m)" for as
      using ended(2) by (induction as) (simp_all add: Let_def all_exhausted_def list_all_length)
    then show ?thesis
      using ended Suc.prems(1)
      by (intro exI [of _ "[]"] exI [of _ m] exI [of _ R]) (auto simp: produce_one_merged_step_def intro: turns_refl)
  next
    case turn
    obtain i where i: "i < length (mg_channels m)" "\<not> ch_exhausted (mg_channels m ! i)" "\<not> channel_blocked m (mg_channels m ! i)"
        "produce_one_merged_step (clock 0) m = service_channel (clock 0) i m"
      using live_not_stuck [OF Suc.prems(1) turn(2)] by blast
    obtain its m1 where s: "service_channel (clock 0) i m = Inr (SProduced, its, m1)" "merge_live m1 (after_turn i m R)"
        "merge_cost m1 (after_turn i m R) < merge_cost m R" "data_of (R ! i) = data_of its @ data_of (after_turn i m R ! i)"
      using turn_keeps_live [OF Suc.prems(1) i(1-3)] by blast
    have f: "merge_cost m1 (after_turn i m R) < fuel" using s(3) Suc.prems(2) by linarith
    obtain out' m' R' where I:
        "merge_loop fuel (\<lambda>n. clock (n + 1)) (out @ its) 0 m1 = Some (Inr ((out @ its) @ out', m'))"
        "turns m1 (after_turn i m R) out' m' R'" "merge_live m' R'"
        "all_exhausted m' \<or> unat (mc_batch_size (mg_config m1)) \<le> data_records ((out @ its) @ out')"
        "merge_cost m' R' \<le> merge_cost m1 (after_turn i m R)"
      using Suc.IH [OF s(2) f, of "\<lambda>n. clock (n + 1)" "out @ its" 0] by (auto split: if_splits)
    have c: "mg_config m1 = mg_config m" using service_frame [OF s(1)] by simp
    show ?thesis
      using I turn i(4) s(1,3) c turns_step [OF Suc.prems(1) i(1,2) s(1,4,3) I(2)]
      by (intro exI [of _ "its @ out'"] exI [of _ m'] exI [of _ R']) auto
  qed
qed simp

section \<open>The merged stream interleaves the channels\<close>

inductive takes :: "'a list list \<Rightarrow> 'a list \<Rightarrow> 'a list list \<Rightarrow> bool" where
  takes_none: "takes D [] D"
| takes_some: "i < length D \<Longrightarrow> D ! i = xs @ ys \<Longrightarrow> takes (D[i := ys]) out D' \<Longrightarrow> takes D (xs @ out) D'"

lemma takes_trans: "takes D a D1 \<Longrightarrow> takes D1 b D2 \<Longrightarrow> takes D (a @ b) D2"
  by (induction rule: takes.induct) (auto intro: takes.intros)

lemma turns_takes: "turns m R out m' R' \<Longrightarrow> takes (map data_of R) (data_of out) (map data_of R')"
proof (induction rule: turns.induct)
  case (turns_step m R i now out m1 rest m2 R2)
  have i: "i < length R" using turns_step(1,2) by (simp add: merge_live_def finite_merge_def)
  have "map data_of (after_turn i m R) = (map data_of R)[i := data_of (after_turn i m R ! i)]"
    using i by (simp add: after_turn_def map_update)
  then show ?case
    using takes_some [of i "map data_of R" "data_of out" "data_of (after_turn i m R ! i)"] turns_step i by simp
qed (simp add: takes_none)

text \<open>The calls of \<open>Next\<close> that hand over the batches \<open>bs\<close>, each with its own clock readings.\<close>

fun merge_hands_over ::
    "nat \<Rightarrow> (nat \<Rightarrow> nat \<Rightarrow> int) \<Rightarrow> 's merge_state \<Rightarrow> batch list \<Rightarrow> 's merge_state \<Rightarrow> bool" where
  "merge_hands_over fuel clocks m [] m' = (m' = m)"
| "merge_hands_over fuel clocks m (b # bs) m' =
     (\<exists>m1. merge_next fuel (clocks 0) m = Some (Inr (Some b, m1)) \<and>
           merge_hands_over fuel (\<lambda>n. clocks (n + 1)) m1 bs m')"

lemma merge_next_finite:
  assumes "merge_live m R" "merge_cost m R < fuel" "mc_batch_size (mg_config m) \<noteq> 0"
  shows "\<exists>b m' R'. merge_next fuel clock m = Some (Inr (b, m')) \<and> turns m R (case b of None \<Rightarrow> [] | Some its \<Rightarrow> its) m' R' \<and>
    merge_live m' R' \<and> (case b of None \<Rightarrow> all_exhausted m' | Some its \<Rightarrow> its \<noteq> [] \<and> merge_cost m' R' < merge_cost m R)"
proof (cases "all_exhausted m")
  case True
  then show ?thesis
    using assms(1) by (intro exI [of _ None] exI [of _ m] exI [of _ R]) (simp add: merge_next_def turns_refl)
next
  case False
  have ne: "mg_channels m \<noteq> []" using assms(1) by (simp add: merge_live_def)
  have z: "data_records [] < unat (mc_batch_size (mg_config m))" using assms(3) by (simp add: data_records_def unat_gt_0)
  obtain out m' R' where L: "merge_loop fuel clock [] 0 m = Some (Inr (out, m'))" "turns m R out m' R'" "merge_live m' R'"
      "all_exhausted m' \<or> unat (mc_batch_size (mg_config m)) \<le> data_records out" "merge_cost m' R' < merge_cost m R"
    using merge_loop_finite [OF assms(1,2), of clock "[]" 0] z False by auto
  show ?thesis
  proof (cases "out = []")
    case True
    then have "all_exhausted m'" using L(4) z by auto
    then show ?thesis
      using True L ne False by (intro exI [of _ None] exI [of _ m'] exI [of _ R']) (simp add: merge_next_def)
  next
    case out: False
    then show ?thesis
      using L ne False by (intro exI [of _ "Some out"] exI [of _ m'] exI [of _ R']) (simp add: merge_next_def)
  qed
qed

lemma merge_drains:
  assumes "merge_live m R" "merge_cost m R < fuel" "mc_batch_size (mg_config m) \<noteq> 0"
  shows "\<exists>bs m1 m2 R2. merge_hands_over fuel clocks m bs m1 \<and>
    merge_next fuel (clocks (length bs)) m1 = Some (Inr (None, m2)) \<and> turns m R (concat bs) m2 R2 \<and> merge_live m2 R2 \<and>
    all_exhausted m2 \<and> [] \<notin> set bs \<and> length bs \<le> merge_cost m R"
  using assms
proof (induction "merge_cost m R" arbitrary: m R clocks rule: less_induct)
  case less
  obtain b m' R' where n: "merge_next fuel (clocks 0) m = Some (Inr (b, m'))"
      "turns m R (case b of None \<Rightarrow> [] | Some its \<Rightarrow> its) m' R'" "merge_live m' R'"
      "case b of None \<Rightarrow> all_exhausted m' | Some its \<Rightarrow> its \<noteq> [] \<and> merge_cost m' R' < merge_cost m R"
    using merge_next_finite [OF less.prems, of "clocks 0"] by blast
  show ?case
  proof (cases b)
    case None
    then show ?thesis using n by (intro exI [of _ "[]"] exI [of _ m] exI [of _ m'] exI [of _ R']) simp
  next
    case (Some its)
    have c: "mg_config m' = mg_config m" using turns_config [OF n(2)] .
    obtain bs m1 m2 R2 where I: "merge_hands_over fuel (\<lambda>n. clocks (n + 1)) m' bs m1"
        "merge_next fuel (clocks (length bs + 1)) m1 = Some (Inr (None, m2))" "turns m' R' (concat bs) m2 R2"
        "merge_live m2 R2" "all_exhausted m2" "[] \<notin> set bs" "length bs \<le> merge_cost m' R'"
      using less.hyps [of m' R' "\<lambda>n. clocks (n + 1)"] n Some less.prems c by auto
    have "turns m R (its @ concat bs) m2 R2" using turns_trans [OF _ I(3)] n(2) Some by simp
    moreover have "merge_hands_over fuel clocks m (its # bs) m1" using I(1) n(1) Some by auto
    moreover have "[] \<notin> set (its # bs)" "length (its # bs) \<le> merge_cost m R" using I(6,7) n(4) Some by auto
    ultimately show ?thesis using I(2,4,5) by (metis Suc_eq_plus1 concat.simps(2) length_Cons)
  qed
qed

lemma exhausted_empty:
  assumes "merge_live m R" "all_exhausted m"
  shows "R = replicate (length R) []"
proof (rule nth_equalityI)
  fix i assume "i < length R"
  then show "R ! i = replicate (length R) [] ! i"
    using assms unfolding merge_live_def finite_merge_def all_exhausted_def list_all_length by simp
qed simp

section \<open>The merged watermark is never ahead of a record to come\<close>

text \<open>Without idle time-outs: the emitted watermark is below what every channel has announced.\<close>

lemma recompute_below:
  assumes "j < length (cb_per_source cb)" "length (cb_active cb) = length (cb_per_source cb)" "cb_active cb ! j"
    and "cb_emitted cb \<le> cb_per_source cb ! j"
  shows "cb_emitted (snd (recompute cb)) \<le> cb_per_source cb ! j"
proof -
  have "(cb_per_source cb ! j, True) \<in> set (zip (cb_per_source cb) (cb_active cb))"
    using assms(1-3) by (auto simp: in_set_zip)
  then have "cb_per_source cb ! j \<in> set (map fst (filter snd (zip (cb_per_source cb) (cb_active cb))))" by force
  then have "foldl min i64_max (map fst (filter snd (zip (cb_per_source cb) (cb_active cb)))) \<le> cb_per_source cb ! j"
    unfolding foldl_min using Min_le [OF finite_set] by (auto simp del: set_map set_filter intro: min.coboundedI2)
  then show ?thesis
    using assms(4) by (auto simp: recompute_def fold_lower_to)
qed

definition announced :: "'s merge_state \<Rightarrow> batch_item list list \<Rightarrow> bool" where
  "announced m R \<longleftrightarrow>
     length (cb_per_source (mg_combiner m)) = length R \<and> length (cb_active (mg_combiner m)) = length R \<and>
     mc_idle_timeout (mg_config m) = 0 \<and> \<not> mc_idle_timeout_wall (mg_config m) > 0 \<and>
     (\<forall>i < length R. \<not> ch_idle (mg_channels m ! i) \<and>
        (\<not> ch_exhausted (mg_channels m ! i) \<longrightarrow>
           cb_active (mg_combiner m) ! i \<and> cb_emitted (mg_combiner m) \<le> cb_per_source (mg_combiner m) ! i \<and>
           never_late (cb_per_source (mg_combiner m) ! i) (R ! i)))"

lemma never_late_append: "never_late wm (a @ b) \<longleftrightarrow> never_late wm a \<and> never_late (fold (\<lambda>it wm. stream_watermark wm it) a wm) b"
  by (induction a arbitrary: wm) auto

lemma announced_step:
  assumes "announced m R" "length R = length (mg_channels m)" "mg_config m' = mg_config m" "mg_channels m' = (mg_channels m)[i := st]"
    and "\<not> ch_idle st" "length (cb_per_source (mg_combiner m')) = length R" "length (cb_active (mg_combiner m')) = length R"
    and "\<And>j. j < length R \<Longrightarrow> j \<noteq> i \<Longrightarrow> cb_per_source (mg_combiner m') ! j = cb_per_source (mg_combiner m) ! j \<and>
        cb_active (mg_combiner m') ! j = cb_active (mg_combiner m) ! j"
    and "\<And>j. j < length R \<Longrightarrow> j \<noteq> i \<Longrightarrow> \<not> ch_exhausted (mg_channels m ! j) \<Longrightarrow>
        cb_emitted (mg_combiner m') \<le> cb_per_source (mg_combiner m') ! j"
    and "\<not> ch_exhausted st \<Longrightarrow> cb_active (mg_combiner m') ! i \<and> cb_emitted (mg_combiner m') \<le> cb_per_source (mg_combiner m') ! i \<and>
        never_late (cb_per_source (mg_combiner m') ! i) rest"
  shows "announced m' (R[i := rest])"
  unfolding announced_def
proof (intro conjI allI impI)
  fix j assume j: "j < length (R[i := rest])"
  show "\<not> ch_idle (mg_channels m' ! j)"
    using assms(1,2,4,5) j by (cases "j = i") (simp_all add: announced_def)
  assume e: "\<not> ch_exhausted (mg_channels m' ! j)"
  show "cb_active (mg_combiner m') ! j" "cb_emitted (mg_combiner m') \<le> cb_per_source (mg_combiner m') ! j"
    "never_late (cb_per_source (mg_combiner m') ! j) (R[i := rest] ! j)"
    using assms(1,2,4) assms(8,9) [of j] assms(10) j e by (cases "j = i"; simp add: announced_def)+
qed (use assms(1,3,6,7) in \<open>simp_all add: announced_def\<close>)

lemma emit_never_late:
  "never_late wm (emit_watermark w m @ fst (maybe_close_epoch m'))"
  "fold (\<lambda>it wm. stream_watermark wm it) (emit_watermark w m @ fst (maybe_close_epoch m')) wm =
     (case w of None \<Rightarrow> wm | Some x \<Rightarrow> max wm x)"
  by (auto simp: emit_watermark_def maybe_close_epoch_def Let_def split: option.split)

lemma recompute_emits:
  "wm \<le> cb_emitted cb \<Longrightarrow>
   (case fst (recompute cb) of None \<Rightarrow> wm | Some x \<Rightarrow> max wm x) \<le> cb_emitted (snd (recompute cb))"
  using recompute_frame(3,4) [of cb] by auto

lemma observe_frame:
  assumes "i < length (cb_per_source cb)" "length (cb_active cb) = length (cb_per_source cb)"
  shows "cb_per_source (snd (observe i wm cb)) = (cb_per_source cb)[i := max (cb_per_source cb ! i) wm]"
    "cb_active (snd (observe i wm cb)) = (cb_active cb)[i := True]"
  using assms by (auto simp: observe_def Let_def recompute_frame max_def)

lemma observe_below:
  assumes "j < length (cb_per_source cb)" "length (cb_active cb) = length (cb_per_source cb)" "j = i \<or> cb_active cb ! j"
    and "cb_emitted cb \<le> cb_per_source cb ! j"
  shows "cb_emitted (snd (observe i wm cb)) \<le> cb_per_source (snd (observe i wm cb)) ! j"
proof -
  define cb2 where "cb2 = cb\<lparr>cb_active := (cb_active cb)[i := True],
      cb_per_source := (if wm > cb_per_source cb ! i then (cb_per_source cb)[i := wm] else cb_per_source cb)\<rparr>"
  have o: "observe i wm cb = recompute cb2" by (cases cb) (simp add: cb2_def observe_def Let_def)
  have "cb_emitted (snd (recompute cb2)) \<le> cb_per_source cb2 ! j"
    by (rule recompute_below; cases "i = j") (use assms in \<open>auto simp: cb2_def\<close>)
  then show ?thesis unfolding o by (simp add: recompute_frame)
qed

lemma observe_emits:
  "wm \<le> cb_emitted cb \<Longrightarrow>
   (case fst (observe i w cb) of None \<Rightarrow> wm | Some x \<Rightarrow> max wm x) \<le> cb_emitted (snd (observe i w cb))"
  unfolding observe_def Let_def by (rule recompute_emits) simp

lemma mark_idle_frame:
  "cb_per_source (snd (mark_idle i cb)) = cb_per_source cb" "cb_active (snd (mark_idle i cb)) = (cb_active cb)[i := False]"
  by (simp_all add: mark_idle_def recompute_frame)

lemma mark_idle_emits:
  "wm \<le> cb_emitted cb \<Longrightarrow>
   (case fst (mark_idle i cb) of None \<Rightarrow> wm | Some x \<Rightarrow> max wm x) \<le> cb_emitted (snd (mark_idle i cb))"
  unfolding mark_idle_def by (rule recompute_emits) simp

lemma mark_idle_below:
  assumes "j < length (cb_per_source cb)" "length (cb_active cb) = length (cb_per_source cb)" "j \<noteq> i" "cb_active cb ! j"
    and "cb_emitted cb \<le> cb_per_source cb ! j"
  shows "cb_emitted (snd (mark_idle i cb)) \<le> cb_per_source cb ! j"
  unfolding mark_idle_def using recompute_below [of j "cb\<lparr>cb_active := (cb_active cb)[i := False]\<rparr>"] assms by simp

lemma turn_announced:
  assumes live: "merge_live m R" and i: "i < length (mg_channels m)" "\<not> ch_exhausted (mg_channels m ! i)"
    and s: "service_channel now i m = Inr (SProduced, out, m')"
    and ann: "announced m R" and wm: "wm \<le> cb_emitted (mg_combiner m)"
  shows "never_late wm out \<and> announced m' (after_turn i m R) \<and>
    fold (\<lambda>it wm. stream_watermark wm it) out wm \<le> cb_emitted (mg_combiner m')"
proof -
  let ?st = "enter_gap (mg_channels m ! i)"
  have len: "length R = length (mg_channels m)" and iR: "i < length R" and y: "yields ?st (R ! i)"
    using live i yields_frame [of ?st "mg_channels m ! i"] by (auto simp: merge_live_def finite_merge_def)
  have A: "length (cb_per_source (mg_combiner m)) = length R" "length (cb_active (mg_combiner m)) = length R"
      "mc_idle_timeout (mg_config m) = 0" "\<not> mc_idle_timeout_wall (mg_config m) > 0" "\<not> ch_idle (mg_channels m ! i)"
      "cb_emitted (mg_combiner m) \<le> cb_per_source (mg_combiner m) ! i" "cb_active (mg_combiner m) ! i"
      "never_late (cb_per_source (mg_combiner m) ! i) (R ! i)"
    using ann iR i(2) by (simp_all add: announced_def)
  have B: "cb_active (mg_combiner m) ! j" "cb_emitted (mg_combiner m) \<le> cb_per_source (mg_combiner m) ! j"
    if "j < length R" "\<not> ch_exhausted (mg_channels m ! j)" for j using ann that by (simp_all add: announced_def)
  show ?thesis
    using s
  proof (cases rule: service_cases)
    case (tick st)
    have "announced m' (R[i := R ! i])"
      by (rule announced_step [OF ann len, where i = i and st = "st\<lparr>ch_gap_remaining := ch_gap_remaining st - 1,
               ch_consecutive_empty := ch_consecutive_empty st + 1\<rparr>"])
        (use tick A B i in \<open>simp_all add: set_channel_def\<close>)
    then show ?thesis using tick wm by (simp add: after_turn_def)
  next
    case (exhausted st1)
    note F = pull_frame [OF exhausted(1)]
    let ?m1 = "set_channel i st1 m" and ?r = "mark_idle i (mg_combiner m)"
    have at: "after_turn i m R = R[i := tl (R ! i)]" using exhausted(2) by (simp add: after_turn_def)
    have out: "out = emit_watermark (fst ?r) (?m1\<lparr>mg_combiner := snd ?r\<rparr>) @ fst (maybe_close_epoch (?m1\<lparr>mg_combiner := snd ?r\<rparr>))"
      and m': "m' = snd (maybe_close_epoch (?m1\<lparr>mg_combiner := snd ?r\<rparr>))"
      using exhausted(4) by (simp_all add: combine_idle_def Let_def split_def)
    have sel: "mg_combiner m' = snd ?r" "mg_channels m' = (mg_channels m)[i := st1]" "mg_config m' = mg_config m"
      unfolding m' by (simp_all add: maybe_close_epoch_def Let_def)
    have "announced m' (R[i := tl (R ! i)])"
      by (rule announced_step [OF ann len sel(3,2)])
        (use A B F mark_idle_below [of _ "mg_combiner m" i] in \<open>simp_all add: sel mark_idle_frame\<close>)
    then show ?thesis using mark_idle_emits [OF wm] unfolding at out emit_never_late sel by (simp add: emit_never_late(1))
  next
    case (item it st1)
    note F = pull_frame [OF item(1)]
    obtain rest where R: "R ! i = it # rest"
      using pull_exhausted [of ?st now "mg_config m"] pull_item [of ?st _ _ now "mg_config m"] y item(1) by (cases "R ! i") auto
    have at: "after_turn i m R = R[i := rest]" using item(2) R by (simp add: after_turn_def)
    let ?s1 = "st1\<lparr>ch_consecutive_empty := 0, ch_idle := False\<rparr>"
    define m1 where "m1 = resume_channel i ((set_channel i st1 m)\<lparr>mg_rr := (i + 1) mod length (mg_channels m)\<rparr>)"
    have sel: "mg_combiner m1 = mg_combiner m" "mg_channels m1 = (mg_channels m)[i := ?s1]" "mg_config m1 = mg_config m"
      using A(5) F i(1) unfolding m1_def by (subst resume_channel_eq; simp)+
    have d: "out = fst (deliver_item i it m1)" "m' = snd (deliver_item i it m1)" using item(4) by (simp_all add: m1_def prod_eq_iff)
    show ?thesis
    proof (cases it)
      case (Data r)
      let ?s2 = "?s1\<lparr>ch_data_pulled := ch_data_pulled ?s1 + 1\<rparr>"
      have "announced m' (R[i := rest])"
        by (rule announced_step [OF ann len, where i = i and st = ?s2])
          (use A B F i R Data sel in \<open>simp_all add: d deliver_item_def Let_def\<close>)
      then show ?thesis using wm A(6,8) R Data by (simp add: at d deliver_item_def Let_def sel)
    next
      case (Control c)
      show ?thesis
      proof (cases "ctype c")
        case KWatermark
        let ?r = "observe i (cwatermark c) (mg_combiner m)"
        have nl: "never_late (max (cb_per_source (mg_combiner m) ! i) (cwatermark c)) rest"
          using A(8) R Control KWatermark by (simp add: stream_watermark_def)
        have e: "out = emit_watermark (fst ?r) m1" "mg_combiner m' = snd ?r" "mg_channels m' = (mg_channels m)[i := ?s1]" "mg_config m' = mg_config m"
          using Control KWatermark sel by (simp_all add: d deliver_item_def Let_def split_def)
        have ob: "cb_emitted (snd ?r) \<le> (cb_per_source (mg_combiner m))[i := max (cb_per_source (mg_combiner m) ! i) (cwatermark c)] ! j"
          if "j < length R" "\<not> ch_exhausted (mg_channels m ! j)" for j
          using observe_below [of j "mg_combiner m" i "cwatermark c"] A B [OF that] that iR by (simp add: observe_frame)
        have oj: "cb_emitted (snd ?r) \<le> cb_per_source (mg_combiner m) ! j"
          if "j < length R" "\<not> ch_exhausted (mg_channels m ! j)" "j \<noteq> i" for j using ob [OF that(1,2)] that(3) by simp
        have "announced m' (R[i := rest])"
          by (rule announced_step [OF ann len e(4,3)])
            (use A F nl iR i(2) ob [of i] oj in \<open>simp_all add: e observe_frame\<close>)
        moreover have "never_late wm out" "fold (\<lambda>it wm. stream_watermark wm it) out wm = (case fst ?r of None \<Rightarrow> wm | Some x \<Rightarrow> max wm x)"
          by (auto simp: e emit_watermark_def split: option.split)
        ultimately show ?thesis using observe_emits [OF wm] by (simp add: at e)
      next
        case KCheckpointBarrier
        let ?s2 = "?s1\<lparr>ch_barriers_seen := ch_barriers_seen ?s1 + 1\<rparr>"
        have e: "out = fst (maybe_close_epoch (set_channel i ?s2 m1))" "mg_combiner m' = mg_combiner m"
            "mg_channels m' = (mg_channels m)[i := ?s2]" "mg_config m' = mg_config m"
          using Control KCheckpointBarrier sel i(1) by (simp_all add: d deliver_item_def Let_def maybe_close_epoch_def)
        have nl: "never_late (cb_per_source (mg_combiner m) ! i) rest"
          using A(8) R Control KCheckpointBarrier by (simp add: stream_watermark_def)
        have "announced m' (R[i := rest])"
          by (rule announced_step [OF ann len e(4,3)]) (use A B F nl in \<open>simp_all add: e\<close>)
        then show ?thesis
          using wm emit_never_late [where wm = wm and w = None and m = m1 and m' = "set_channel i ?s2 m1"] by (simp add: at e emit_watermark_def)
      qed
    qed
  qed (use A(3,4) in simp_all)
qed

lemma turns_never_late:
  assumes "turns m R out m' R'" "announced m R" "wm \<le> cb_emitted (mg_combiner m)"
  shows "never_late wm out"
  using assms
proof (induction arbitrary: wm rule: turns.induct)
  case (turns_step m R i now out m1 rest m2 R2)
  then show ?case using turn_announced [OF turns_step(1-4) turns_step.prems] by (simp add: never_late_append)
qed simp

section \<open>Fresh merges\<close>

text \<open>What a source delivers from a state: non-empty batches that end.\<close>

definition delivers :: "'s source \<Rightarrow> 's \<Rightarrow> batch_item list \<Rightarrow> bool" where
  "delivers src s its \<longleftrightarrow>
     (\<exists>bs s1 s2. hands_over src s bs s1 \<and> src_next src s1 = Inr (None, s2) \<and> [] \<notin> set bs \<and> its = concat bs)"

definition input_cost :: "idle_span list \<Rightarrow> batch_item list \<Rightarrow> nat" where
  "input_cost spans its = length its + sum_list (map (unat \<circ> span_length) spans) + 1"

lemma reset_live:
  assumes "mg_channels m \<noteq> []" "length R = length (mg_channels m)"
    and "\<And>i. i < length R \<Longrightarrow> delivers (ch_ops (mg_channels m ! i)) (ch_source (mg_channels m ! i)) (R ! i)"
    and "sum_list (map2 (\<lambda>st. input_cost (ch_idle_spans st)) (mg_channels m) R) < 2 ^ 64 - 1"
  shows "merge_live (reset_progress now m) R"
    "merge_cost (reset_progress now m) R = sum_list (map2 (\<lambda>st. input_cost (ch_idle_spans st)) (mg_channels m) R)"
proof -
  have c: "merge_cost (reset_progress now m) R = sum_list (map2 (\<lambda>st. input_cost (ch_idle_spans st)) (mg_channels m) R)"
    by (simp add: merge_cost_def reset_progress_def reset_channel_def channel_cost_def input_cost_def zip_map1 comp_def split_def)
  then show "merge_cost (reset_progress now m) R = sum_list (map2 (\<lambda>st. input_cost (ch_idle_spans st)) (mg_channels m) R)" .
  have "finite_merge (reset_progress now m) R"
    using assms(2,3) by (simp add: finite_merge_def reset_progress_def reset_channel_def yields_def delivers_def)
  then show "merge_live (reset_progress now m) R"
    using assms(1,4) c
    by (auto simp: merge_live_def epochs_ok_def some_unblocked_def reset_progress_def reset_channel_def channel_blocked_def active_channel_def)
qed

lemma reset_announced:
  assumes "mg_channels m \<noteq> []" "length R = length (mg_channels m)"
    and "mc_idle_timeout (mg_config m) = 0" "\<not> mc_idle_timeout_wall (mg_config m) > 0"
    and "\<And>i. i < length R \<Longrightarrow> never_late wm_initial (R ! i)"
  shows "announced (reset_progress now m) R"
proof -
  have "max 1 (length R) = length R" using assms(1,2) by (cases R) auto
  then show ?thesis
    using assms by (auto simp: announced_def reset_progress_def reset_channel_def new_combiner_def wm_initial_def)
qed

lemma add_input_facts:
  assumes "add_input ops s spans m = Inr m'"
  shows "map (\<lambda>st. (ch_ops st, ch_source st, ch_idle_spans st)) (mg_channels m') =
      map (\<lambda>st. (ch_ops st, ch_source st, ch_idle_spans st)) (mg_channels m) @ [(ops, s, spans)]" "mg_config m' = mg_config m"
  using assms by (auto simp: add_input_def split: if_splits)

lemma fold_add_input:
  "fold_res (\<lambda>(ops, s, spans). add_input ops s spans) inputs m = Inr m' \<Longrightarrow>
   map (\<lambda>st. (ch_ops st, ch_source st, ch_idle_spans st)) (mg_channels m') =
     map (\<lambda>st. (ch_ops st, ch_source st, ch_idle_spans st)) (mg_channels m) @ inputs \<and> mg_config m' = mg_config m"
proof (induction inputs arbitrary: m)
  case (Cons input inputs)
  obtain ops s spans where i: "input = (ops, s, spans)" by (cases input)
  obtain m1 where a: "add_input ops s spans m = Inr m1" "fold_res (\<lambda>(ops, s, spans). add_input ops s spans) inputs m1 = Inr m'"
    using Cons.prems i by (auto split: sum.splits)
  show ?case using Cons.IH [OF a(2)] add_input_facts [OF a(1)] i by simp
qed simp

lemma new_inputs_reset:
  assumes "new_merge_inputs now inputs cfg = Inr m"
  obtains m0 where "m = reset_progress now m0" "mg_config m0 = cfg" "mc_batch_size cfg \<noteq> 0" "length (mg_channels m0) = length inputs"
    "\<And>i. i < length inputs \<Longrightarrow> (ch_ops (mg_channels m0 ! i), ch_source (mg_channels m0 ! i), ch_idle_spans (mg_channels m0 ! i)) = inputs ! i"
proof -
  obtain m0 where m0: "fold_res (\<lambda>(ops, s, spans). add_input ops s spans) inputs (empty_merge cfg) = Inr m0" "m = reset_progress now m0"
      "mc_batch_size cfg \<noteq> 0"
    using assms by (auto simp: new_merge_inputs_def split: if_splits)
  have f: "map (\<lambda>st. (ch_ops st, ch_source st, ch_idle_spans st)) (mg_channels m0) = inputs" "mg_config m0 = cfg"
    using fold_add_input [OF m0(1)] by (simp_all add: empty_merge_def)
  have "length (mg_channels m0) = length inputs" using f(1) by (metis length_map)
  moreover have "(ch_ops (mg_channels m0 ! i), ch_source (mg_channels m0 ! i), ch_idle_spans (mg_channels m0 ! i)) = inputs ! i"
    if "i < length inputs" for i using that calculation by (subst f(1) [symmetric]) simp
  ultimately show ?thesis using that m0(2,3) f(2) by blast
qed

text \<open>A fresh merge over inputs that deliver the finite streams \<open>streams\<close>.\<close>

definition merge_of :: "int \<Rightarrow> ('s source \<times> 's \<times> idle_span list) list \<Rightarrow> merge_config \<Rightarrow> batch_item list list \<Rightarrow> 's merge_state \<Rightarrow> bool" where
  "merge_of now inputs cfg streams m \<longleftrightarrow>
     new_merge_inputs now inputs cfg = Inr m \<and> inputs \<noteq> [] \<and> length streams = length inputs \<and>
     list_all2 (\<lambda>(ops, s, spans) its. delivers ops s its) inputs streams"

definition inputs_cost :: "('s source \<times> 's \<times> idle_span list) list \<Rightarrow> batch_item list list \<Rightarrow> nat" where
  "inputs_cost inputs streams = sum_list (map2 (\<lambda>(ops, s, spans). input_cost spans) inputs streams)"

lemma merge_of_live:
  assumes "merge_of now inputs cfg streams m" "inputs_cost inputs streams < 2 ^ 64 - 1"
  shows "merge_live m streams" "merge_cost m streams = inputs_cost inputs streams" "mc_batch_size (mg_config m) \<noteq> 0"
    "mg_config m = cfg"
    "(\<And>i. i < length streams \<Longrightarrow> never_late wm_initial (streams ! i)) \<Longrightarrow> mc_idle_timeout cfg = 0 \<Longrightarrow>
      \<not> mc_idle_timeout_wall cfg > 0 \<Longrightarrow> announced m streams" "cb_emitted (mg_combiner m) = wm_initial"
proof -
  obtain m0 where m0: "m = reset_progress now m0" "mg_config m0 = cfg" "mc_batch_size cfg \<noteq> 0" "length (mg_channels m0) = length inputs"
      "\<And>i. i < length inputs \<Longrightarrow> (ch_ops (mg_channels m0 ! i), ch_source (mg_channels m0 ! i), ch_idle_spans (mg_channels m0 ! i)) = inputs ! i"
  proof -
    have "new_merge_inputs now inputs cfg = Inr m" using assms(1) by (simp add: merge_of_def)
    from new_inputs_reset [OF this] show ?thesis using that by blast
  qed
  have ne: "mg_channels m0 \<noteq> []" using assms(1) m0(4) by (auto simp: merge_of_def)
  have len: "length streams = length (mg_channels m0)" using assms(1) m0(4) by (simp add: merge_of_def)
  have d: "delivers (ch_ops (mg_channels m0 ! i)) (ch_source (mg_channels m0 ! i)) (streams ! i)" if "i < length streams" for i
    using assms(1) that len m0(4) m0(5) [of i] list_all2_nthD2 [of _ inputs streams i] unfolding merge_of_def by force
  have "map2 (\<lambda>st. input_cost (ch_idle_spans st)) (mg_channels m0) streams = map2 (\<lambda>(ops, s, spans). input_cost spans) inputs streams"
  proof (rule nth_equalityI)
    fix i assume "i < length (map2 (\<lambda>st. input_cost (ch_idle_spans st)) (mg_channels m0) streams)"
    then have i: "i < length inputs" "i < length streams" using len m0(4) by simp_all
    show "map2 (\<lambda>st. input_cost (ch_idle_spans st)) (mg_channels m0) streams ! i = map2 (\<lambda>(ops, s, spans). input_cost spans) inputs streams ! i"
      using m0(5) [OF i(1), symmetric] i m0(4) by simp
  qed (use len m0(4) in simp)
  then have c: "sum_list (map2 (\<lambda>st. input_cost (ch_idle_spans st)) (mg_channels m0) streams) = inputs_cost inputs streams"
    by (simp add: inputs_cost_def)
  show "merge_live m streams" "merge_cost m streams = inputs_cost inputs streams"
    using reset_live [OF ne len d] c assms(2) m0(1) by simp_all
  show cfg: "mg_config m = cfg" and "cb_emitted (mg_combiner m) = wm_initial"
    using m0(1,2) by (simp_all add: reset_progress_def new_combiner_def wm_initial_def)
  then show "mc_batch_size (mg_config m) \<noteq> 0" using m0(3) by simp
  show "announced m streams" if "\<And>i. i < length streams \<Longrightarrow> never_late wm_initial (streams ! i)" "mc_idle_timeout cfg = 0" "\<not> mc_idle_timeout_wall cfg > 0"
    using reset_announced [OF ne len, of now] that m0(1,2) by simp
qed

lemma hands_over_turns:
  assumes "merge_live m R" "merge_cost m R < fuel" "mc_batch_size (mg_config m) \<noteq> 0" "merge_hands_over fuel clocks m bs m1"
  shows "\<exists>R1. turns m R (concat bs) m1 R1"
  using assms
proof (induction bs arbitrary: m R clocks)
  case Nil
  then show ?case by (auto intro: turns_refl)
next
  case (Cons b bs)
  obtain m' where n: "merge_next fuel (clocks 0) m = Some (Inr (Some b, m'))" "merge_hands_over fuel (\<lambda>n. clocks (n + 1)) m' bs m1"
    using Cons.prems(4) by auto
  obtain R' where t: "turns m R b m' R'" "merge_live m' R'" "merge_cost m' R' < merge_cost m R"
    using merge_next_finite [OF Cons.prems(1-3), of "clocks 0"] n(1) by auto
  have "mc_batch_size (mg_config m') \<noteq> 0" using turns_config [OF t(1)] Cons.prems(3) by simp
  then obtain R1 where "turns m' R' (concat bs) m1 R1" using Cons.IH [OF t(2) _ _ n(2)] t(3) Cons.prems(2) by force
  then show ?case using turns_trans [OF t(1)] by auto
qed

lemma reachable_alignment:
  assumes "merge_runs m out m'" "length out < 2 ^ 64 - 1" "mg_epoch_closed m = 0" "epochs_ok m" "some_unblocked m" "mg_channels m \<noteq> []"
  shows "epochs_ok m' \<and> some_unblocked m' \<and> unat (mg_epoch_closed m') \<le> length out \<and> mg_channels m' \<noteq> []"
  using assms
proof (induction rule: merge_runs.induct)
  case (merge_runs_step m out m1 now r its m2)
  have I: "epochs_ok m1" "some_unblocked m1" "unat (mg_epoch_closed m1) \<le> length out" "mg_channels m1 \<noteq> []"
    using merge_runs_step by simp_all
  have e: "mg_epoch_closed m1 \<noteq> u64_max"
    using I(3) merge_runs_step.prems(1) by (auto simp: u64_max_def unsigned_minus_1_eq_mask mask_eq_exp_minus_1)
  show ?case
    using merge_runs_step(2) I(4)
  proof (cases rule: produce_cases)
    case stuck
    then show ?thesis using I by simp
  next
    case (turn i)
    have "mg_channels m2 \<noteq> []" using service_frame [OF turn(5)] I(4) by auto
    moreover have "unat (mg_epoch_closed m2) \<le> length (out @ its)"
      using service_epoch [OF turn(5)] I(3) u64_inc_unat [OF e] by (cases its) (auto simp: epoch_step_def)
    ultimately show ?thesis
      using service_keeps_alignment [OF turn(5,2) I(1,2) e turn(3,4)] by simp
  qed
qed simp

lemma reset_aligned: "epochs_ok (reset_progress now m) \<and> some_unblocked (reset_progress now m)"
  by (auto simp: epochs_ok_def some_unblocked_def reset_progress_def reset_channel_def channel_blocked_def active_channel_def)

section \<open>Properties\<close>

text \<open>
  C16. The merge is fair and loses nothing: over channels with finite streams, and whatever the
  clock shows, repeated calls of \<open>Next\<close> hand over finitely many non-empty batches and then report
  the end, and the records handed over are an interleaving of the channels' records: every
  record of every channel once, the records of one channel in its own order.
\<close>

theorem merge_interleaves_channels:
  assumes "merge_of now inputs cfg streams m" "inputs_cost inputs streams < 2 ^ 64 - 1" "inputs_cost inputs streams < fuel"
  shows "\<exists>bs m1 m2. merge_hands_over fuel clocks m bs m1 \<and>
    merge_next fuel (clocks (length bs)) m1 = Some (Inr (None, m2)) \<and> [] \<notin> set bs \<and>
    takes (map data_of streams) (data_of (concat bs)) (replicate (length streams) [])"
proof -
  note L = merge_of_live [OF assms(1,2)]
  obtain bs m1 m2 R2 where D: "merge_hands_over fuel clocks m bs m1" "merge_next fuel (clocks (length bs)) m1 = Some (Inr (None, m2))"
      "turns m streams (concat bs) m2 R2" "merge_live m2 R2" "all_exhausted m2" "[] \<notin> set bs"
    using merge_drains [OF L(1) _ L(3), of fuel clocks] L(2) assms(3) by auto
  have "length R2 = length streams" using D(3) by (induction rule: turns.induct) (simp_all add: after_turn_def)
  then have "map data_of R2 = replicate (length streams) []"
    using arg_cong [OF exhausted_empty [OF D(4,5)], of "map data_of"] by simp
  then show ?thesis using D(1,2,6) turns_takes [OF D(3)] by auto
qed

text \<open>
  C17. The merged watermark is safe: without idle time-outs, when no channel delivers a record below
  a watermark it has announced, neither does the merge, however the channels' clocks diverge.
\<close>

theorem merged_watermark_is_safe:
  assumes "merge_of now inputs cfg streams m" "inputs_cost inputs streams < 2 ^ 64 - 1" "inputs_cost inputs streams < fuel"
    and "mc_idle_timeout cfg = 0" "mc_idle_timeout_wall cfg = 0" "list_all (never_late wm_initial) streams"
    and "merge_hands_over fuel clocks m bs m1"
  shows "never_late wm_initial (concat bs)"
proof -
  note L = merge_of_live [OF assms(1,2)]
  have "announced m streams" using L(5) assms(4-6) by (simp add: list_all_length)
  moreover obtain R1 where "turns m streams (concat bs) m1 R1"
    using hands_over_turns [OF L(1) _ L(3) assms(7)] L(2) assms(3) by auto
  ultimately show ?thesis using turns_never_late [of m streams "concat bs" m1 R1 wm_initial] L(6) by simp
qed

text \<open>
  C18. Barrier alignment never wedges and cuts consistently. In every state that a merge reaches
  from a reset, over any channels, live or not: a step that finds no channel to serve means that
  every channel has ended, so a blocked channel always waits for one that can move; and when a
  step closes an epoch, each active channel has delivered exactly as many barriers as epochs
  are closed.
\<close>

theorem alignment_never_wedges:
  assumes "merge_runs (reset_progress now m0) out m" "length out < 2 ^ 64 - 1" "mg_channels m0 \<noteq> []"
    and "produce_one_merged_step t m = Inr (r, its, m')"
  shows "(r = SExhausted \<longrightarrow> all_exhausted m) \<and>
    (mg_epoch_closed m' \<noteq> mg_epoch_closed m \<longrightarrow>
       (\<forall>st \<in> set (mg_channels m'). active_channel st \<longrightarrow> ch_barriers_seen st = mg_epoch_closed m'))"
proof -
  have "mg_epoch_closed (reset_progress now m0) = 0" "mg_channels (reset_progress now m0) \<noteq> []"
    using assms(3) by (simp_all add: reset_progress_def)
  then have I: "epochs_ok m" "some_unblocked m" "unat (mg_epoch_closed m) \<le> length out" "mg_channels m \<noteq> []"
    using reachable_alignment [OF assms(1,2)] reset_aligned [of now m0] by simp_all
  have e: "mg_epoch_closed m \<noteq> u64_max"
    using I(3) assms(2) by (auto simp: u64_max_def unsigned_minus_1_eq_mask mask_eq_exp_minus_1)
  show ?thesis
    using assms(4) I(4)
  proof (cases rule: produce_cases)
    case stuck
    have "ch_exhausted st" if "st \<in> set (mg_channels m)" for st
    proof (rule ccontr)
      assume n: "\<not> ch_exhausted st"
      then have "channel_blocked m st" using stuck(4) that by blast
      then have "active_channel st" using I(1) that n by (auto simp: epochs_ok_def channel_blocked_def active_channel_def)
      then show False using I(2) that stuck(4) by (auto simp: some_unblocked_def active_channel_def)
    qed
    then show ?thesis using stuck(3) by (simp add: all_exhausted_def list_all_iff)
  next
    case (turn i)
    then show ?thesis
      using service_keeps_alignment [OF turn(5,2) I(1,2) e turn(3,4)] by (auto simp: closed_aligned_def)
  qed
qed

text \<open>
  C38. A watermark is lost on resume: when the only channel that becomes active again holds a
  watermark above the merged one, the record that resumes it is all the step emits, although the
  merged watermark has advanced, and the same watermark announced again is not emitted either.
\<close>

theorem resume_swallows_watermark:
  assumes "i < length (mg_channels m)" "combiner_wf (length (mg_channels m)) (mg_combiner m)" "ch_idle (mg_channels m ! i)"
    and "cb_active (mg_combiner m) = replicate (length (mg_channels m)) False"
    and "deliver_item i (Data r) (resume_channel i m) = (out, m')"
    and "cb_emitted (mg_combiner m) < wm" "wm = cb_per_source (mg_combiner m) ! i"
  shows "out = [Data r] \<and> cb_emitted (mg_combiner m') = wm \<and> fst (observe i wm (mg_combiner m')) = None"
proof -
  let ?k = "length (mg_channels m)" and ?cb = "mg_combiner m"
  let ?c1 = "?cb\<lparr>cb_active := (replicate ?k False)[i := True]\<rparr>"
  have wf: "combiner_wf ?k ?c1" using combiner_wf_update(1) [OF assms(2), of i True] assms(4) by simp
  have len: "length (cb_per_source ?cb) = ?k" using assms(2) by (simp add: combiner_wf_def)
  have "set (active_wms ?c1) = {wm}"
    using assms(1,7) len by (auto simp: active_wms_def set_zip nth_list_update image_iff split: if_splits) blast
  then have act: "active_wms ?c1 \<noteq> []" "Min (set (active_wms ?c1)) = wm" by auto
  then have r1: "recompute ?c1 = (Some wm, ?c1\<lparr>cb_emitted := wm\<rparr>)" using recompute_spec [OF wf] assms(6) by simp
  let ?c2 = "?c1\<lparr>cb_emitted := wm\<rparr>"
  have "combiner_wf ?k ?c2" "active_wms ?c2 = active_wms ?c1" using wf by (simp_all add: combiner_wf_def active_wms_def)
  then have "recompute ?c2 = (None, ?c2)" using recompute_spec [of ?k ?c2] act by simp
  moreover have "observe i wm ?c2 = recompute ?c2" using assms(7) by (cases "mg_combiner m") (simp add: observe_def Let_def)
  moreover have "mg_combiner m' = ?c2"
    using assms(3-5) r1 by (auto simp: deliver_item_def Let_def resume_channel_eq [OF assms(1)] mark_active_def)
  moreover have "out = [Data r]" using assms(5) by (auto simp: deliver_item_def Let_def)
  ultimately show ?thesis by simp
qed

section \<open>Examples\<close>

definition sample_inputs :: "(batch list source \<times> batch list \<times> idle_span list) list" where
  "sample_inputs =
     [(list_source, [[sample_record ''a'' 1 5, watermark_item 4 1], [sample_record ''b'' 2 6, barrier_item 2]], []),
      (list_source, [[barrier_item 0, sample_record ''c'' 3 9, watermark_item 9 1]], [\<lparr>span_start = 1, span_length = 2\<rparr>])]"

definition sample_merge_config :: merge_config where
  "sample_merge_config = \<lparr>mc_sources = [], mc_checkpoint_interval = 0, mc_batch_size = 2, mc_live_inputs = False,
     mc_idle_timeout_wall = 0, mc_idle_timeout = 0\<rparr>"

definition sample_streams :: "batch_item list list" where
  "sample_streams = map (\<lambda>(ops, s, spans). concat s) sample_inputs"

lemma list_source_delivers:
  assumes "[] \<notin> set bs"
  shows "delivers list_source bs (concat bs)"
proof -
  have "hands_over list_source bs bs []" by (induction bs) (simp_all add: list_source_def)
  then show ?thesis
    using assms unfolding delivers_def by (intro exI [of _ bs] exI [of _ "[]"]) (simp add: list_source_def)
qed

lemma sample_merge_of: "\<exists>m. merge_of 0 sample_inputs sample_merge_config sample_streams m"
proof -
  have "\<exists>m. new_merge_inputs 0 sample_inputs sample_merge_config = Inr m"
    by (simp add: new_merge_inputs_def sample_merge_config_def sample_inputs_def add_input_def)
  moreover have "list_all2 (\<lambda>(ops, s, spans) its. delivers ops s its) sample_inputs sample_streams"
    unfolding sample_streams_def sample_inputs_def
    using list_source_delivers [of "[[sample_record ''a'' 1 5, watermark_item 4 1], [sample_record ''b'' 2 6, barrier_item 2]]"]
      list_source_delivers [of "[[barrier_item 0, sample_record ''c'' 3 9, watermark_item 9 1]]"] by simp
  ultimately show ?thesis by (auto simp: merge_of_def sample_streams_def sample_inputs_def)
qed

lemma sample_inputs_cost: "inputs_cost sample_inputs sample_streams = 11"
  by (simp add: inputs_cost_def sample_inputs_def sample_streams_def input_cost_def)

theorem merge_interleaves_channels_witness:
  "\<exists>bs m m1 m2. new_merge_inputs 0 sample_inputs sample_merge_config = Inr m \<and> merge_hands_over 12 (\<lambda>n k. 0) m bs m1 \<and>
     merge_next 12 (\<lambda>k. 0) m1 = Some (Inr (None, m2)) \<and>
     takes (map data_of sample_streams) (data_of (concat bs)) [[], []]"
proof -
  obtain m where m: "merge_of 0 sample_inputs sample_merge_config sample_streams m" using sample_merge_of by blast
  have c: "inputs_cost sample_inputs sample_streams < 2 ^ 64 - 1" "inputs_cost sample_inputs sample_streams < 12"
    by (simp_all add: sample_inputs_cost)
  have "replicate (length sample_streams) ([] :: data_record list) = [[], []]" by (simp add: sample_streams_def sample_inputs_def)
  then show ?thesis
    using merge_interleaves_channels [OF m c, of "\<lambda>n k. 0"] m by (auto simp: merge_of_def)
qed

lemma sample_first_batch:
  "case new_merge_inputs 0 sample_inputs sample_merge_config of
     Inl e \<Rightarrow> False
   | Inr m \<Rightarrow> (case merge_next 12 (\<lambda>k. 0) m of Some (Inr (Some b, m1)) \<Rightarrow> b \<noteq> [] | _ \<Rightarrow> False)"
  by code_simp

theorem merged_watermark_is_safe_witness:
  "\<exists>m m1 b. merge_of 0 sample_inputs sample_merge_config sample_streams m \<and> b \<noteq> [] \<and>
     merge_hands_over 12 (\<lambda>n k. 0) m [b] m1 \<and> never_late wm_initial b"
proof -
  obtain m where m: "merge_of 0 sample_inputs sample_merge_config sample_streams m" using sample_merge_of by blast
  note L = merge_of_live [OF m]
  have "list_all (never_late wm_initial) sample_streams"
    by (simp add: sample_streams_def sample_inputs_def sample_record_def wm_initial_def i64_nums)
  moreover have "mc_idle_timeout sample_merge_config = 0" "mc_idle_timeout_wall sample_merge_config = 0"
    by (simp_all add: sample_merge_config_def)
  moreover obtain b m1 where b: "merge_hands_over 12 (\<lambda>n k. 0) m [b] m1" "b \<noteq> []"
    using sample_first_batch m by (auto simp: merge_of_def split: option.splits sum.splits)
  moreover have c: "inputs_cost sample_inputs sample_streams < 2 ^ 64 - 1" "inputs_cost sample_inputs sample_streams < 12"
    by (simp_all add: sample_inputs_cost)
  ultimately have "never_late wm_initial (concat [b])" by (intro merged_watermark_is_safe [OF m c])
  then show ?thesis using m b by auto
qed

definition barrier_merge :: "batch list merge_state" where
  "barrier_merge = (empty_merge sample_merge_config)\<lparr>mg_channels := [
     \<lparr>ch_ops = list_source, ch_source = [[barrier_item 0]], ch_buf = [], ch_cursor = 0, ch_exhausted = False, ch_idle_spans = [],
      ch_next_span = 0, ch_gap_remaining = 0, ch_data_pulled = 0, ch_consecutive_empty = 0, ch_idle = False,
      ch_last_item = 0, ch_barriers_seen = 0\<rparr>]\<rparr>"

theorem alignment_never_wedges_witness:
  "\<exists>m'. produce_one_merged_step 0 (reset_progress 0 barrier_merge) = Inr (SProduced, [barrier_item 0], m') \<and>
     mg_epoch_closed m' = 1 \<and> ch_barriers_seen (mg_channels m' ! 0) = mg_epoch_closed m'"
proof -
  have "\<exists>m'. produce_one_merged_step 0 (reset_progress 0 barrier_merge) = Inr (SProduced, [barrier_item 0], m') \<and>
      mg_epoch_closed m' = 1 \<and> (\<exists>st. mg_channels m' = [st] \<and> active_channel st)"
    by (simp add: produce_one_merged_step_def service_channel_def barrier_merge_def reset_progress_def reset_channel_def
        empty_merge_def channel_blocked_def enter_gap_def pull_next_item_def list_source_def Let_def sample_merge_config_def
        barrier_item_def resume_channel_def set_channel_def deliver_item_def maybe_close_epoch_def active_channel_def)
  then obtain m' st where s: "produce_one_merged_step 0 (reset_progress 0 barrier_merge) = Inr (SProduced, [barrier_item 0], m')"
      "mg_epoch_closed m' = 1" "mg_channels m' = [st]" "active_channel st" by blast
  have "mg_channels barrier_merge \<noteq> []" "mg_epoch_closed (reset_progress 0 barrier_merge) \<noteq> 1"
    by (simp_all add: barrier_merge_def reset_progress_def)
  then show ?thesis
    using alignment_never_wedges [OF merge_runs_refl _ _ s(1)] s by auto
qed

definition idle_merge :: "batch list merge_state" where
  "idle_merge = barrier_merge\<lparr>mg_channels := map (\<lambda>st. st\<lparr>ch_idle := True\<rparr>) (mg_channels barrier_merge),
     mg_combiner := \<lparr>cb_per_source = [20], cb_active = [False], cb_emitted = 5\<rparr>\<rparr>"

theorem resume_swallows_watermark_witness:
  "\<exists>r out m'. deliver_item 0 (Data r) (resume_channel 0 idle_merge) = (out, m') \<and> out = [Data r] \<and>
     cb_emitted (mg_combiner idle_merge) = 5 \<and> cb_emitted (mg_combiner m') = 20"
proof -
  obtain r :: data_record and out m' where d: "deliver_item 0 (Data r) (resume_channel 0 idle_merge) = (out, m')"
    by (metis surj_pair)
  have h: "0 < length (mg_channels idle_merge)" "ch_idle (mg_channels idle_merge ! 0)"
      "cb_active (mg_combiner idle_merge) = replicate (length (mg_channels idle_merge)) False"
      "cb_emitted (mg_combiner idle_merge) < 20" "20 = cb_per_source (mg_combiner idle_merge) ! 0"
      "cb_emitted (mg_combiner idle_merge) = 5"
    by (simp_all add: idle_merge_def barrier_merge_def)
  have "combiner_wf (length (mg_channels idle_merge)) (mg_combiner idle_merge)"
    by (simp add: idle_merge_def barrier_merge_def combiner_wf_def i64_nums)
  from resume_swallows_watermark [OF h(1) this h(2,3) d h(4,5)] show ?thesis using d h(6) by blast
qed

end
