(* ===== verification/Partition_Routing.thy ===== *)
theory Partition_Routing
  imports Processor_Recovery
begin

text \<open>
  Routing of a stream to workers: the FNV-1a hash and the partition of a key
  (\<open>src/src/engine/partition_hash.h\<close>) and the router's split of a source batch
  (\<open>src/src/engine/partitioned_pipeline.cpp\<close>), with what the split means for the results: the
  worker that owns a key sees every item that matters to the key, in order, so each key and
  window has the same panes and the same rows as in the single-threaded engine, and the record
  and drop counters of the workers add up to its counters.
\<close>

section \<open>The partition of a key\<close>

definition fnv_step :: "char \<Rightarrow> u64 \<Rightarrow> u64" where
  "fnv_step c hash = (hash XOR of_char c) * 1099511628211"

definition fnv1a64 :: "string \<Rightarrow> u64" where
  "fnv1a64 data = fold fnv_step data 14695981039346656037"

definition partition_for_key :: "string \<Rightarrow> u32 \<Rightarrow> u32" where
  "partition_for_key k num_partitions = ucast (fnv1a64 k mod ucast num_partitions)"

lemma partition_in_range:
  assumes "0 < n"
  shows "unat (partition_for_key k n) < unat n"
proof -
  have "unat n < 2 ^ 64" using unsigned_less [of n, where 'a = nat] by simp
  then have "unat (ucast n :: u64) = unat n"
    by (simp add: unsigned_ucast_eq take_bit_eq_mod)
  moreover have "0 < unat n" using assms by (simp add: unat_gt_0)
  ultimately have less: "unat (fnv1a64 k mod ucast n) < unat n"
    by (simp add: unat_mod_distrib)
  have "unat (partition_for_key k n) = unat (fnv1a64 k mod ucast n) mod 2 ^ 32"
    by (simp add: partition_for_key_def unsigned_ucast_eq take_bit_eq_mod)
  moreover have "unat (fnv1a64 k mod ucast n) mod 2 ^ 32 \<le> unat (fnv1a64 k mod ucast n)"
    by (rule mod_less_eq_dividend)
  ultimately show ?thesis using less by linarith
qed

section \<open>Splitting a batch\<close>

datatype worker_message = MRecord data_record | MControl control_record | MEndOfStream | MSuspend

text \<open>Appends one item of the source batch to the pending vectors, one per worker.\<close>

definition route_item :: "u32 \<Rightarrow> batch_item \<Rightarrow> worker_message list list \<Rightarrow> worker_message list list" where
  "route_item n it pending =
     (case it of
        Data r \<Rightarrow> (let p = unat (partition_for_key (key r) n)
                   in pending[p := pending ! p @ [MRecord r]])
      | Control c \<Rightarrow> map (\<lambda>b. b @ [MControl c]) pending)"

definition route_batch :: "u32 \<Rightarrow> batch \<Rightarrow> worker_message list list" where
  "route_batch n items = fold (route_item n) items (replicate (unat n) [])"

text \<open>What one worker is meant to receive.\<close>

definition goes_to :: "u32 \<Rightarrow> nat \<Rightarrow> batch_item \<Rightarrow> bool" where
  "goes_to n p it = (case it of Data r \<Rightarrow> unat (partition_for_key (key r) n) = p | Control c \<Rightarrow> True)"

definition message_of :: "batch_item \<Rightarrow> worker_message" where
  "message_of it = (case it of Data r \<Rightarrow> MRecord r | Control c \<Rightarrow> MControl c)"

definition share :: "u32 \<Rightarrow> nat \<Rightarrow> batch_item list \<Rightarrow> batch_item list" where
  "share n p its = filter (goes_to n p) its"

lemma length_route_item [simp]: "length (route_item n it pending) = length pending"
  by (simp add: route_item_def Let_def split: batch_item.split)

lemma route_fold:
  assumes "0 < n" "length pending = unat n" "p < unat n"
  shows "length (fold (route_item n) its pending) = unat n \<and>
    fold (route_item n) its pending ! p = pending ! p @ map message_of (share n p its)"
  using assms(2)
proof (induction its arbitrary: pending)
  case (Cons it its)
  have "route_item n it pending ! p = pending ! p @ map message_of (share n p [it])"
    using partition_in_range [OF assms(1)] assms(3) Cons.prems
    by (auto simp: route_item_def share_def goes_to_def message_of_def Let_def nth_list_update split: batch_item.split)
  moreover have "share n p (it # its) = share n p [it] @ share n p its" by (simp add: share_def)
  ultimately show ?case using Cons by simp
qed (simp add: share_def)

lemma route_batch_share:
  assumes "0 < n"
  shows "length (route_batch n its) = unat n"
    "p < unat n \<Longrightarrow> route_batch n its ! p = map message_of (share n p its)"
proof -
  have "0 < unat n" using assms by (simp add: unat_gt_0)
  then show "length (route_batch n its) = unat n"
    using route_fold [OF assms, of "replicate (unat n) []" 0] by (simp add: route_batch_def)
  show "p < unat n \<Longrightarrow> route_batch n its ! p = map message_of (share n p its)"
    using route_fold [OF assms, of "replicate (unat n) []"] by (simp add: route_batch_def)
qed

section \<open>The owner of a key computes the key's results\<close>

lemma cell_step_other: "\<not> goes_to n (unat (partition_for_key k n)) it \<Longrightarrow> cell_step cfg k w it c = c"
  by (auto simp: cell_step_def goes_to_def cell_record_def split: batch_item.splits)

lemma cell_fold_share:
  "fold (cell_step cfg k w) (share n (unat (partition_for_key k n)) its) c = fold (cell_step cfg k w) its c"
  by (induction its arbitrary: c) (simp_all add: share_def cell_step_other)

lemma cell_fold_foreign:
  assumes "p \<noteq> unat (partition_for_key k n)" "c_pane c = None" "c_rows c = {}"
  shows "c_pane (fold (cell_step cfg k w) (share n p its) c) = None \<and>
    c_rows (fold (cell_step cfg k w) (share n p its) c) = {}"
  using assms(2,3)
proof (induction its arbitrary: c)
  case (Cons it its)
  show ?case
  proof (cases "goes_to n p it")
    case True
    have "c_pane (cell_step cfg k w it c) = None \<and> c_rows (cell_step cfg k w it c) = {}"
    proof (cases it)
      case (Data r)
      then have "key r \<noteq> k" using True assms(1) by (auto simp: goes_to_def)
      then show ?thesis using Data Cons.prems by (simp add: cell_step_def cell_record_def)
    next
      case (Control ctl)
      then show ?thesis
        using Cons.prems by (simp add: cell_step_def cell_watermark_def split: control_type.split)
    qed
    then show ?thesis using True Cons.IH [of "cell_step cfg k w it c"] by (simp add: share_def)
  next
    case False
    then show ?thesis using Cons by (simp add: share_def)
  qed
qed (simp add: share_def)

text \<open>Two configurations that differ only in their checkpoint settings have the same cells.\<close>

lemma cell_step_config:
  "assigner c1 = assigner c2 \<Longrightarrow> lateness c1 = lateness c2 \<Longrightarrow> cell_step c1 = cell_step c2"
  by (intro ext) (simp add: cell_step_def cell_record_def cell_watermark_def assigned_def
      split: batch_item.split control_type.split)

lemma drop_count_config:
  "assigner c1 = assigner c2 \<Longrightarrow> lateness c1 = lateness c2 \<Longrightarrow> drop_count c1 wm its = drop_count c2 wm its"
  by (induction its arbitrary: wm) (simp_all add: record_dropped_def assigned_def split: batch_item.split)

section \<open>Counters and watermarks\<close>

lemma share_watermark:
  "fold (\<lambda>it wm. stream_watermark wm it) (share n p its) wm = fold (\<lambda>it wm. stream_watermark wm it) its wm"
proof (induction its arbitrary: wm)
  case (Cons it its)
  have "goes_to n p it \<or> stream_watermark wm it = wm"
    by (cases it) (auto simp: goes_to_def stream_watermark_def)
  then show ?case using Cons by (auto simp: share_def)
qed (simp add: share_def)

lemma sum_indicator: "q < (N :: nat) \<Longrightarrow> (\<Sum>p<N. if q = p then x else 0) = (x :: 'a :: comm_monoid_add)"
  by simp

lemma share_counts:
  assumes "0 < n"
  shows "(\<Sum>p<unat n. record_count (share n p its)) = record_count its"
    and "(\<Sum>p<unat n. drop_count cfg wm (share n p its)) = drop_count cfg wm its"
proof -
  have "(\<Sum>p<unat n. record_count (share n p its)) = record_count its \<and>
    (\<forall>wm. (\<Sum>p<unat n. drop_count cfg wm (share n p its)) = drop_count cfg wm its)"
  proof (induction its)
    case Nil
    then show ?case by (simp add: share_def record_count_def)
  next
    case (Cons it its)
    show ?case
    proof (cases it)
      case (Data r)
      let ?q = "unat (partition_for_key (key r) n)"
      have q: "?q < unat n" by (rule partition_in_range [OF assms])
      have rc: "record_count (share n p (it # its)) = record_count (share n p its) + (if ?q = p then 1 else 0)" for p
        using Data by (simp add: share_def goes_to_def record_count_def is_data_def)
      have dc: "drop_count cfg wm (share n p (it # its)) =
          drop_count cfg wm (share n p its) + (if ?q = p then (if record_dropped cfg wm r then 1 else 0) else 0)" for p wm
        using Data by (simp add: share_def goes_to_def stream_watermark_def)
      show ?thesis
        unfolding rc dc sum.distrib sum_indicator [OF q] using Cons Data
        by (simp add: record_count_def is_data_def stream_watermark_def)
    next
      case (Control c)
      then have "share n p (it # its) = it # share n p its" for p by (simp add: share_def goes_to_def)
      then show ?thesis using Cons Control by (simp add: record_count_def is_data_def)
    qed
  qed
  then show "(\<Sum>p<unat n. record_count (share n p its)) = record_count its"
    "(\<Sum>p<unat n. drop_count cfg wm (share n p its)) = drop_count cfg wm its" by blast+
qed

section \<open>Batches concatenate\<close>

lemma share_append: "share n p (xs @ ys) = share n p xs @ share n p ys"
  by (simp add: share_def)

lemma share_concat: "share n p (concat bs) = concat (map (share n p) bs)"
  by (induction bs) (simp_all add: share_def)

section \<open>Properties\<close>

text \<open>
  The router splits the stream without loss: the vector it builds for a worker holds exactly
  the control records and the records of that worker's keys, in source order; a record goes to
  one worker only, which depends on its key alone.
\<close>

theorem routing_splits_the_stream:
  assumes "0 < n"
  shows "length (route_batch n its) = unat n \<and>
    (\<forall>p < unat n. route_batch n its ! p =
       map message_of (filter (\<lambda>it. case it of Data r \<Rightarrow> unat (partition_for_key (key r) n) = p
                                             | Control c \<Rightarrow> True) its)) \<and>
    (\<forall>k. unat (partition_for_key k n) < unat n)"
  using route_batch_share [OF assms] partition_in_range [OF assms]
  by (simp add: share_def goes_to_def [abs_def])

theorem routing_splits_the_stream_witness:
  "(0 :: u32) < 4 \<and> length (route_batch 4 [watermark_item 5 1]) = unat (4 :: u32)"
  using routing_splits_the_stream [of 4 "[watermark_item 5 1]"] by simp

end
