(* ===== verification/Bounded_Queue.thy ===== *)
theory Bounded_Queue
  imports Prelude
begin

text \<open>
  The bounded blocking queue between the router and a worker
  (\<open>src/src/engine/bounded_queue.h\<close>). A blocking call is a guard (the predicate the
  condition variable waits for) and the action taken under the mutex once it holds, so a
  thread that waits is a thread whose guard is false. Notifications only wake waiters that
  re-check the guard; they change no state of the queue.
\<close>

section \<open>The queue\<close>

record 'a bqueue =
  bq_capacity :: nat
  bq_items :: "'a list"
  bq_closed :: bool

definition new_queue :: "nat \<Rightarrow> 'a bqueue res" where
  "new_queue cap =
     (if cap = 0 then Inl (InvalidArgument ''queue capacity must be positive'')
      else Inr \<lparr>bq_capacity = cap, bq_items = [], bq_closed = False\<rparr>)"

definition push_ready :: "'a bqueue \<Rightarrow> bool" where
  "push_ready q = (length (bq_items q) < bq_capacity q \<or> bq_closed q)"

definition push :: "'a \<Rightarrow> 'a bqueue \<Rightarrow> bool \<times> 'a bqueue" where
  "push v q = (if bq_closed q then (False, q) else (True, q\<lparr>bq_items := bq_items q @ [v]\<rparr>))"

definition pop_ready :: "'a bqueue \<Rightarrow> bool" where
  "pop_ready q = (bq_items q \<noteq> [] \<or> bq_closed q)"

definition pop :: "'a bqueue \<Rightarrow> 'a option \<times> 'a bqueue" where
  "pop q = (case bq_items q of [] \<Rightarrow> (None, q) | x # xs \<Rightarrow> (Some x, q\<lparr>bq_items := xs\<rparr>))"

definition close_queue :: "'a bqueue \<Rightarrow> 'a bqueue" where
  "close_queue q = q\<lparr>bq_closed := True\<rparr>"

definition bq_wf :: "'a bqueue \<Rightarrow> bool" where
  "bq_wf q = (0 < bq_capacity q \<and> length (bq_items q) \<le> bq_capacity q)"

lemma bq_wf_new: "new_queue cap = Inr q \<Longrightarrow> bq_wf q"
  by (auto simp: new_queue_def bq_wf_def split: if_splits)

lemma bq_wf_push [inv_intros]: "bq_wf q \<Longrightarrow> push_ready q \<Longrightarrow> bq_wf (snd (push v q))"
  by (auto simp: bq_wf_def push_def push_ready_def)

lemma bq_wf_pop [inv_intros]: "bq_wf q \<Longrightarrow> bq_wf (snd (pop q))"
  by (auto simp: bq_wf_def pop_def split: list.split)

lemma bq_wf_close [inv_intros]: "bq_wf q \<Longrightarrow> bq_wf (close_queue q)"
  by (simp add: bq_wf_def close_queue_def)

text \<open>One of the two ends can always move: a full queue can be popped, an empty one pushed.\<close>

lemma queue_not_stuck: "bq_wf q \<Longrightarrow> push_ready q \<or> pop_ready q"
  by (auto simp: bq_wf_def push_ready_def pop_ready_def)

section \<open>The channel contract\<close>

text \<open>
  What a producer and a consumer rely on: an accepted value goes to the end, a pop takes
  from the front, nothing is accepted after a close and nothing accepted is ever lost. The
  history law (received values followed by the buffered ones are the accepted ones) is
  proved from the contract for every sequence of calls.
\<close>

datatype 'a queue_call = QPush 'a | QPop | QClose

locale channel =
  fixes contents :: "'q \<Rightarrow> 'a list"
    and shut :: "'q \<Rightarrow> bool"
    and send :: "'a \<Rightarrow> 'q \<Rightarrow> bool \<times> 'q"
    and recv :: "'q \<Rightarrow> 'a option \<times> 'q"
    and shutdown :: "'q \<Rightarrow> 'q"
  assumes send_open: "\<not> shut q \<Longrightarrow> fst (send v q) \<and> contents (snd (send v q)) = contents q @ [v]"
    and send_shut: "shut q \<Longrightarrow> send v q = (False, q)"
    and shut_send: "shut (snd (send v q)) = shut q"
    and recv_some: "contents q = x # xs \<Longrightarrow> fst (recv q) = Some x \<and> contents (snd (recv q)) = xs"
    and recv_none: "contents q = [] \<Longrightarrow> recv q = (None, q)"
    and shut_recv: "shut (snd (recv q)) = shut q"
    and contents_shutdown: "contents (shutdown q) = contents q"
    and shut_shutdown: "shut (shutdown q)"
begin

fun call :: "'a queue_call \<Rightarrow> 'q \<times> 'a list \<times> 'a list \<Rightarrow> 'q \<times> 'a list \<times> 'a list" where
  "call (QPush v) (q, sent, got) =
     (snd (send v q), (if fst (send v q) then sent @ [v] else sent), got)"
| "call QPop (q, sent, got) =
     (snd (recv q), sent, (case fst (recv q) of None \<Rightarrow> got | Some x \<Rightarrow> got @ [x]))"
| "call QClose (q, sent, got) = (shutdown q, sent, got)"

lemma call_history:
  "(case call c (q, sent, got) of (q', sent', got') \<Rightarrow>
      got @ contents q = sent \<longrightarrow> got' @ contents q' = sent')"
proof (cases c)
  case (QPush v)
  then show ?thesis using send_open send_shut by (cases "shut q") auto
next
  case QPop
  then show ?thesis using recv_some recv_none by (cases "contents q") (auto split: option.split)
next
  case QClose
  then show ?thesis by (simp add: contents_shutdown)
qed

lemma history:
  "fold call cs (q, sent, got) = (q', sent', got') \<Longrightarrow> got @ contents q = sent \<Longrightarrow>
   got' @ contents q' = sent'"
proof (induction cs arbitrary: q sent got)
  case (Cons c cs)
  obtain q1 s1 g1 where c: "call c (q, sent, got) = (q1, s1, g1)"
    using prod_cases3 by blast
  then show ?case using call_history [where c = c and q = q and sent = sent and got = got] Cons by auto
qed simp

lemma shut_stays: "fold call cs (q, sent, got) = (q', sent', got') \<Longrightarrow> shut q \<Longrightarrow>
    shut q' \<and> sent' = sent"
proof (induction cs arbitrary: q sent got)
  case (Cons c cs)
  obtain q1 s1 g1 where c: "call c (q, sent, got) = (q1, s1, g1)"
    using prod_cases3 by blast
  then have "shut q1 \<and> s1 = sent"
    using Cons.prems(2) send_shut shut_recv shut_shutdown by (cases c) auto
  with c show ?case using Cons by auto
qed simp

end

interpretation bq: channel bq_items bq_closed push pop close_queue
  by unfold_locales
     (auto simp: push_def pop_def close_queue_def split: list.split)

section \<open>Properties\<close>

text \<open>
  The queue is a lossless first-in first-out channel: after any sequence of push, pop and
  close calls on a new queue the values received so far followed by the buffered ones are
  exactly the accepted ones, in order.
\<close>

theorem queue_is_fifo:
  assumes "new_queue cap = Inr q0" "fold bq.call cs (q0, [], []) = (q, sent, got)"
  shows "sent = got @ bq_items q"
proof -
  have "bq_items q0 = []" using assms(1) by (auto simp: new_queue_def split: if_splits)
  then show ?thesis using bq.history [OF assms(2)] by simp
qed

theorem queue_is_fifo_witness:
  "\<exists>q0 q sent got. new_queue 2 = Inr q0 \<and>
     fold bq.call [QPush (1 :: nat), QPush 2, QPop, QClose, QPush 3] (q0, [], []) = (q, sent, got) \<and>
     sent = got @ bq_items q \<and> sent = [1, 2] \<and> got = [1]"
proof -
  obtain q0 :: "nat bqueue" where q0: "new_queue 2 = Inr q0" by (simp add: new_queue_def)
  then have s: "q0 = \<lparr>bq_capacity = 2, bq_items = [], bq_closed = False\<rparr>" by (simp add: new_queue_def)
  have r: "fold bq.call [QPush (1 :: nat), QPush 2, QPop, QClose, QPush 3] (q0, [], []) =
      (\<lparr>bq_capacity = 2, bq_items = [2], bq_closed = True\<rparr>, [1, 2], [1])"
    by (simp add: s push_def pop_def close_queue_def)
  then show ?thesis using queue_is_fifo [OF q0 r] q0 r by blast
qed

end
