(* ===== verification/Partitioned_Pipeline.thy ===== *)
theory Partitioned_Pipeline
  imports Partition_Routing Bounded_Queue Dist_Checkpoint Pipeline_Engine
begin

text \<open>
  The multi-worker engine (\<open>src/src/engine/partitioned_pipeline.cpp\<close>) as a system of threads:
  the router, which pushes batches into one bounded queue per worker, and the workers, which
  pop them and drive a \<open>KeyedProcessor\<close>. A thread step is one action on shared state: a push, a
  pop, one message handled (with at most one delivery to the shared sink, under its mutex), a
  drain, a flush. A step is \<open>None\<close> while the thread waits. Any interleaving of steps is a run.

  A failing thread records its exception, cancels and closes every queue in one step. What the
  router reads from the source, and how its loop ended, is its program.
\<close>

section \<open>Router program\<close>

datatype router_action = RPush nat "worker_message list" | RClose nat | RThrow exn

text \<open>How the router loop ended: input exhausted or stopped for good, suspended (with the barrier
  offset when checkpointing), or an exception out of the source.\<close>

datatype router_end = EndFinal | EndSuspend "u64 option" | EndThrow exn

text \<open>One push per worker and source batch; empty vectors are skipped.\<close>

definition push_batch :: "u32 \<Rightarrow> batch \<Rightarrow> router_action list" where
  "push_batch n items =
     (let pending = route_batch n items
      in concat (map (\<lambda>p. if pending ! p = [] then [] else [RPush p (pending ! p)]) [0..<unat n]))"

definition suspend_barrier :: "u64 \<Rightarrow> control_record" where
  "suspend_barrier off = \<lparr>ctype = KCheckpointBarrier, cwatermark = i64_min, checkpoint_offset = off\<rparr>"

definition sentinels :: "u32 \<Rightarrow> worker_message \<Rightarrow> router_action list" where
  "sentinels n m = concat (map (\<lambda>p. [RPush p [m], RClose p]) [0..<unat n])"

definition ending :: "u32 \<Rightarrow> router_end \<Rightarrow> router_action list" where
  "ending n e =
     (case e of
        EndFinal \<Rightarrow> sentinels n MEndOfStream
      | EndSuspend None \<Rightarrow> sentinels n MSuspend
      | EndSuspend (Some off) \<Rightarrow>
          map (\<lambda>p. RPush p [MControl (suspend_barrier off)]) [0..<unat n] @ sentinels n MSuspend
      | EndThrow x \<Rightarrow> [RThrow x])"

definition router_program :: "u32 \<Rightarrow> batch list \<Rightarrow> router_end \<Rightarrow> router_action list" where
  "router_program n bs e = concat (map (push_batch n) bs) @ ending n e"

section \<open>System state\<close>

datatype worker_phase = WLoop | WBatch "worker_message list" | WFlush | WExited

record worker =
  w_cfg :: processor_config
  w_queue :: "worker_message list bqueue"
  w_proc :: processor
  w_phase :: worker_phase
  w_done :: bool
  w_suspend :: bool
  w_pending :: "window_result list"
  w_counters :: "processor_stats \<times> timestamp"

record system =
  sys_router :: "router_action list"
  sys_workers :: "worker list"
  sys_sink :: "effect list"
  sys_cancelled :: bool
  sys_error :: "exn option"

section \<open>The forwarding sink\<close>

text \<open>One call on a worker's sink: the pending rows and the shared sink's calls afterwards.\<close>

definition forward :: "effect \<Rightarrow> window_result list \<times> effect list \<Rightarrow> window_result list \<times> effect list" where
  "forward e ps =
     (case e of
        Emit r \<Rightarrow> (fst ps @ [r], snd ps)
      | Flush \<Rightarrow> ([], snd ps @ map Emit (fst ps) @ [Flush])
      | _ \<Rightarrow> ps)"

definition drain :: "window_result list \<times> effect list \<Rightarrow> window_result list \<times> effect list" where
  "drain ps = ([], snd ps @ map Emit (fst ps))"

section \<open>Thread steps\<close>

definition set_worker :: "nat \<Rightarrow> worker \<Rightarrow> system \<Rightarrow> system" where
  "set_worker i w s = s\<lparr>sys_workers := (sys_workers s)[i := w]\<rparr>"

definition fail :: "exn \<Rightarrow> system \<Rightarrow> system" where
  "fail e s =
     s\<lparr>sys_error := (case sys_error s of None \<Rightarrow> Some e | Some x \<Rightarrow> Some x),
       sys_cancelled := True,
       sys_workers := map (\<lambda>w. w\<lparr>w_queue := close_queue (w_queue w)\<rparr>) (sys_workers s)\<rparr>"

definition publish :: "worker \<Rightarrow> worker" where
  "publish w = w\<lparr>w_counters := (stats (w_proc w), watermark (w_proc w))\<rparr>"

text \<open>Installs the processor \<open>p\<close> and passes its new sink calls through the forwarding sink.\<close>

definition forward_new :: "nat \<Rightarrow> worker \<Rightarrow> processor \<Rightarrow> system \<Rightarrow> system" where
  "forward_new i w p s =
     (let news = drop (length (effects (w_proc w))) (effects p);
          (pending, sink) = fold forward news (w_pending w, sys_sink s)
      in (set_worker i (w\<lparr>w_proc := p, w_pending := pending\<rparr>) s)\<lparr>sys_sink := sink\<rparr>)"

definition process_message :: "processor_config \<Rightarrow> worker_message \<Rightarrow> processor \<Rightarrow> processor res" where
  "process_message cfg m p =
     (case m of
        MRecord r \<Rightarrow> process_record cfg r p
      | MControl c \<Rightarrow> process_control cfg c p
      | _ \<Rightarrow> Inr p)"

text \<open>A handler that throws has made its earlier sink calls.\<close>

definition thrown_processor :: "processor_config \<Rightarrow> worker_message \<Rightarrow> processor \<Rightarrow> processor" where
  "thrown_processor cfg m p =
     p\<lparr>effects := effects p @ (case m of MControl c \<Rightarrow> thrown_calls cfg (Control c) | _ \<Rightarrow> [])\<rparr>"

definition worker_step :: "nat \<Rightarrow> system \<Rightarrow> system option" where
  "worker_step i s =
     (let w = sys_workers s ! i in
      case w_phase w of
        WLoop \<Rightarrow>
          (if sys_cancelled s then Some (set_worker i (w\<lparr>w_phase := WFlush\<rparr>) s)
           else if \<not> pop_ready (w_queue w) then None
           else (case pop (w_queue w) of
                   (None, q) \<Rightarrow> Some (set_worker i (w\<lparr>w_queue := q, w_phase := WFlush\<rparr>) s)
                 | (Some b, q) \<Rightarrow> Some (set_worker i (w\<lparr>w_queue := q, w_phase := WBatch b\<rparr>) s)))
      | WBatch [] \<Rightarrow>
          (let (pending, sink) = drain (w_pending w, sys_sink s)
           in Some ((set_worker i (publish (w\<lparr>w_pending := pending,
                        w_phase := (if w_done w then WFlush else WLoop)\<rparr>)) s)\<lparr>sys_sink := sink\<rparr>))
      | WBatch (m # ms) \<Rightarrow>
          (case m of
             MSuspend \<Rightarrow> Some (set_worker i (w\<lparr>w_suspend := True, w_done := True, w_phase := WBatch []\<rparr>) s)
           | MEndOfStream \<Rightarrow> Some (set_worker i (w\<lparr>w_done := True, w_phase := WBatch []\<rparr>) s)
           | _ \<Rightarrow>
               (case process_message (w_cfg w) m (w_proc w) of
                  Inl e \<Rightarrow> Some (fail e (forward_new i (w\<lparr>w_phase := WExited\<rparr>) (thrown_processor (w_cfg w) m (w_proc w)) s))
                | Inr p \<Rightarrow> Some (forward_new i (w\<lparr>w_phase := WBatch ms\<rparr>) p s)))
      | WFlush \<Rightarrow>
          (if sys_cancelled s then Some (set_worker i (w\<lparr>w_phase := WExited\<rparr>) s)
           else let p = (if w_suspend w then (w_proc w)\<lparr>effects := effects (w_proc w) @ [Flush]\<rparr>
                         else final_flush (w_cfg w) (w_proc w));
                    s' = forward_new i (w\<lparr>w_phase := WExited\<rparr>) p s
                in Some (set_worker i (publish (sys_workers s' ! i)) s'))
      | WExited \<Rightarrow> None)"

definition router_step :: "system \<Rightarrow> system option" where
  "router_step s =
     (case sys_router s of
        [] \<Rightarrow> None
      | RPush p b # acts \<Rightarrow>
          (let w = sys_workers s ! p in
           if \<not> push_ready (w_queue w) then None
           else (case push b (w_queue w) of
                   (False, q) \<Rightarrow> Some (s\<lparr>sys_router := []\<rparr>)
                 | (True, q) \<Rightarrow> Some ((set_worker p (w\<lparr>w_queue := q\<rparr>) s)\<lparr>sys_router := acts\<rparr>)))
      | RClose p # acts \<Rightarrow>
          (let w = sys_workers s ! p
           in Some ((set_worker p (w\<lparr>w_queue := close_queue (w_queue w)\<rparr>) s)\<lparr>sys_router := acts\<rparr>))
      | RThrow e # acts \<Rightarrow> Some (fail e (s\<lparr>sys_router := []\<rparr>)))"

datatype thread = RouterT | WorkerT nat

definition thread_step :: "thread \<Rightarrow> system \<Rightarrow> system option" where
  "thread_step t s =
     (case t of
        RouterT \<Rightarrow> router_step s
      | WorkerT i \<Rightarrow> (if i < length (sys_workers s) then worker_step i s else None))"

inductive reaches :: "system \<Rightarrow> system \<Rightarrow> bool" where
  reaches_refl: "reaches s s"
| reaches_step: "reaches s s' \<Longrightarrow> thread_step t s' = Some s'' \<Longrightarrow> reaches s s''"

text \<open>An executable scheduler: threads take turns as listed, a blocked one is skipped.\<close>

fun run_schedule :: "thread list \<Rightarrow> system \<Rightarrow> system" where
  "run_schedule [] s = s"
| "run_schedule (t # ts) s =
     run_schedule ts (case thread_step t s of None \<Rightarrow> s | Some s' \<Rightarrow> s')"

definition finished :: "system \<Rightarrow> bool" where
  "finished s = (sys_router s = [] \<and> (\<forall>w \<in> set (sys_workers s). w_phase w = WExited))"

section \<open>Set-up and merge\<close>

record partitioned_config =
  pc_num_workers :: u32
  pc_queue_capacity :: nat
  pc_lateness :: duration
  pc_checkpoint_dir :: string
  pc_write_ok :: "nat \<Rightarrow> u64 \<Rightarrow> timestamp \<Rightarrow> keyed_window_state \<Rightarrow> bool"

definition effective_workers :: "partitioned_config \<Rightarrow> u32" where
  "effective_workers pc = max 1 (pc_num_workers pc)"

definition worker_config :: "partitioned_config \<Rightarrow> window_assigner \<Rightarrow> nat \<Rightarrow> processor_config" where
  "worker_config pc a i =
     \<lparr>assigner = a, lateness = pc_lateness pc,
      checkpoint_dir = (if pc_checkpoint_dir pc = [] then []
                        else partition_checkpoint_dir (pc_checkpoint_dir pc) i),
      checkpoint_write_ok = pc_write_ok pc i\<rparr>"

definition new_worker :: "partitioned_config \<Rightarrow> window_assigner \<Rightarrow> nat \<Rightarrow> worker res" where
  "new_worker pc a i =
     bind_res (new_queue (pc_queue_capacity pc)) (\<lambda>q.
     bind_res (new_processor (worker_config pc a i)) (\<lambda>p.
       Inr \<lparr>w_cfg = worker_config pc a i, w_queue = q, w_proc = p, w_phase = WLoop, w_done = False,
            w_suspend = False, w_pending = [], w_counters = (zero_stats, wm_initial)\<rparr>))"

fun build_workers :: "partitioned_config \<Rightarrow> window_assigner \<Rightarrow> nat list \<Rightarrow> worker list res" where
  "build_workers pc a [] = Inr []"
| "build_workers pc a (i # is) =
     bind_res (new_worker pc a i) (\<lambda>w. bind_res (build_workers pc a is) (\<lambda>ws. Inr (w # ws)))"

text \<open>Restore of every partition from the file of the complete offset.\<close>

definition restore_worker :: "partitioned_config \<Rightarrow> file_system \<Rightarrow> u64 \<Rightarrow> nat \<times> worker \<Rightarrow> worker res" where
  "restore_worker pc fs offset iw =
     (case load_offset offset (fs (partition_checkpoint_dir (pc_checkpoint_dir pc) (fst iw))) of
        None \<Rightarrow> Inl (RuntimeError ''complete checkpoint disappeared during restore'')
      | Some d \<Rightarrow> Inr ((snd iw)\<lparr>w_proc := restore d (w_proc (snd iw))\<rparr>))"

fun restore_workers :: "partitioned_config \<Rightarrow> file_system \<Rightarrow> u64 \<Rightarrow> (nat \<times> worker) list \<Rightarrow> worker list res" where
  "restore_workers pc fs offset [] = Inr []"
| "restore_workers pc fs offset (iw # iws) =
     bind_res (restore_worker pc fs offset iw) (\<lambda>w.
     bind_res (restore_workers pc fs offset iws) (\<lambda>ws. Inr (w # ws)))"

definition initial_system :: "router_action list \<Rightarrow> worker list \<Rightarrow> system" where
  "initial_system acts ws =
     \<lparr>sys_router = acts, sys_workers = ws, sys_sink = [], sys_cancelled = False, sys_error = None\<rparr>"

record merged_stats =
  ms_counters :: processor_stats
  ms_output_watermark :: timestamp
  ms_num_workers :: nat

definition merge_worker :: "worker \<Rightarrow> processor_stats \<times> timestamp \<Rightarrow> processor_stats \<times> timestamp" where
  "merge_worker w acc =
     (let st = fst acc; ws = stats (w_proc w)
      in (\<lparr>records_processed = records_processed st + records_processed ws,
           windows_fired = windows_fired st + windows_fired ws,
           windows_refired = windows_refired st + windows_refired ws,
           late_records_accepted = late_records_accepted st + late_records_accepted ws,
           late_records_dropped = late_records_dropped st + late_records_dropped ws,
           watermarks_advanced = max (watermarks_advanced st) (watermarks_advanced ws),
           checkpoints_written = checkpoints_written st + checkpoints_written ws\<rparr>,
          min (snd acc) (watermark (w_proc w))))"

definition merge_stats :: "system \<Rightarrow> merged_stats" where
  "merge_stats s =
     (let (st, wm) = fold merge_worker (sys_workers s) (zero_stats, i64_max)
      in \<lparr>ms_counters = st, ms_output_watermark = wm, ms_num_workers = length (sys_workers s)\<rparr>)"

text \<open>The end of \<open>Run\<close>: rethrow the first error, or merge and flush the caller's sink.\<close>

definition run_result :: "system \<Rightarrow> (merged_stats \<times> effect list) res" where
  "run_result s =
     (case sys_error s of Some e \<Rightarrow> Inl e | None \<Rightarrow> Inr (merge_stats s, sys_sink s @ [Flush]))"

section \<open>Every run ends\<close>

definition action_cost :: "router_action \<Rightarrow> nat" where
  "action_cost a = (case a of RPush p b \<Rightarrow> 4 + length b | _ \<Rightarrow> 1)"

definition phase_cost :: "worker_phase \<Rightarrow> nat" where
  "phase_cost ph = (case ph of WLoop \<Rightarrow> 2 | WBatch ms \<Rightarrow> 3 + length ms | WFlush \<Rightarrow> 1 | WExited \<Rightarrow> 0)"

definition worker_cost :: "worker \<Rightarrow> nat" where
  "worker_cost w = phase_cost (w_phase w) + sum_list (map (\<lambda>b. 3 + length b) (bq_items (w_queue w)))"

definition work_left :: "system \<Rightarrow> nat" where
  "work_left s = sum_list (map action_cost (sys_router s)) + sum_list (map worker_cost (sys_workers s))"

lemma sum_list_update:
  "i < length xs \<Longrightarrow> sum_list (map f (xs[i := x])) + f (xs ! i) = sum_list (map f xs) + (f x :: nat)"
  by (induction xs arbitrary: i) (auto split: nat.split)

lemma work_left_set_worker:
  "i < length (sys_workers s) \<Longrightarrow>
   work_left (set_worker i w s) + worker_cost (sys_workers s ! i) = work_left s + worker_cost w"
  using sum_list_update [of i "sys_workers s" worker_cost w] by (simp add: work_left_def set_worker_def)

lemma work_left_simps [simp]:
  "work_left (s\<lparr>sys_sink := k\<rparr>) = work_left s"
  "work_left (fail e s) = work_left s"
  by (simp_all add: work_left_def fail_def comp_def worker_cost_def [abs_def] close_queue_def)

lemma worker_cost_upd [simp]:
  "worker_cost (w\<lparr>w_proc := p\<rparr>) = worker_cost w" "worker_cost (w\<lparr>w_pending := k\<rparr>) = worker_cost w"
  "worker_cost (publish w) = worker_cost w" "worker_cost (w\<lparr>w_done := b\<rparr>) = worker_cost w"
  "worker_cost (w\<lparr>w_suspend := b\<rparr>) = worker_cost w"
  by (simp_all add: worker_cost_def publish_def)

lemma length_workers [simp]:
  "length (sys_workers (set_worker i w s)) = length (sys_workers s)"
  "length (sys_workers (fail e s)) = length (sys_workers s)"
  "length (sys_workers (forward_new i w p s)) = length (sys_workers s)"
  by (simp_all add: set_worker_def fail_def forward_new_def Let_def split_def)

lemma forward_new_worker:
  "i < length (sys_workers s) \<Longrightarrow> sys_workers (forward_new i w p s) ! i =
     w\<lparr>w_proc := p, w_pending := fst (fold forward (drop (length (effects (w_proc w))) (effects p)) (w_pending w, sys_sink s))\<rparr>"
  by (simp add: forward_new_def set_worker_def Let_def split_def)

lemma work_left_forward_new:
  "i < length (sys_workers s) \<Longrightarrow>
   work_left (forward_new i w p s) + worker_cost (sys_workers s ! i) = work_left s + worker_cost w"
  using work_left_set_worker [of i s] by (simp add: forward_new_def Let_def split_def)

text \<open>The cases of a worker step.\<close>

definition flushed_processor :: "worker \<Rightarrow> processor" where
  "flushed_processor w =
     (if w_suspend w then (w_proc w)\<lparr>effects := effects (w_proc w) @ [Flush]\<rparr>
      else final_flush (w_cfg w) (w_proc w))"

definition drained :: "worker \<Rightarrow> worker" where
  "drained w = publish (w\<lparr>w_pending := [], w_phase := (if w_done w then WFlush else WLoop)\<rparr>)"

lemma worker_step_cases [consumes 1, case_names cancel empty batch drain stop throw handle abandon flush]:
  assumes "worker_step i s = Some s'"
  obtains
    "w_phase (sys_workers s ! i) = WLoop" "sys_cancelled s"
      "s' = set_worker i ((sys_workers s ! i)\<lparr>w_phase := WFlush\<rparr>) s"
  | "w_phase (sys_workers s ! i) = WLoop" "\<not> sys_cancelled s" "bq_items (w_queue (sys_workers s ! i)) = []"
      "bq_closed (w_queue (sys_workers s ! i))"
      "s' = set_worker i ((sys_workers s ! i)\<lparr>w_phase := WFlush\<rparr>) s"
  | b bs where "w_phase (sys_workers s ! i) = WLoop" "\<not> sys_cancelled s"
      "bq_items (w_queue (sys_workers s ! i)) = b # bs"
      "s' = set_worker i ((sys_workers s ! i)\<lparr>w_queue := (w_queue (sys_workers s ! i))\<lparr>bq_items := bs\<rparr>,
              w_phase := WBatch b\<rparr>) s"
  | "w_phase (sys_workers s ! i) = WBatch []"
      "s' = (set_worker i (drained (sys_workers s ! i)) s)
              \<lparr>sys_sink := sys_sink s @ map Emit (w_pending (sys_workers s ! i))\<rparr>"
  | m ms where "w_phase (sys_workers s ! i) = WBatch (m # ms)" "m = MSuspend \<or> m = MEndOfStream"
      "s' = set_worker i ((sys_workers s ! i)\<lparr>w_suspend := (m = MSuspend \<or> w_suspend (sys_workers s ! i)),
              w_done := True, w_phase := WBatch []\<rparr>) s"
  | m ms e where "w_phase (sys_workers s ! i) = WBatch (m # ms)" "m \<noteq> MSuspend" "m \<noteq> MEndOfStream"
      "process_message (w_cfg (sys_workers s ! i)) m (w_proc (sys_workers s ! i)) = Inl e"
      "s' = fail e (forward_new i ((sys_workers s ! i)\<lparr>w_phase := WExited\<rparr>)
              (thrown_processor (w_cfg (sys_workers s ! i)) m (w_proc (sys_workers s ! i))) s)"
  | m ms p where "w_phase (sys_workers s ! i) = WBatch (m # ms)" "m \<noteq> MSuspend" "m \<noteq> MEndOfStream"
      "process_message (w_cfg (sys_workers s ! i)) m (w_proc (sys_workers s ! i)) = Inr p"
      "s' = forward_new i ((sys_workers s ! i)\<lparr>w_phase := WBatch ms\<rparr>) p s"
  | "w_phase (sys_workers s ! i) = WFlush" "sys_cancelled s"
      "s' = set_worker i ((sys_workers s ! i)\<lparr>w_phase := WExited\<rparr>) s"
  | s1 where "w_phase (sys_workers s ! i) = WFlush" "\<not> sys_cancelled s"
      "s1 = forward_new i ((sys_workers s ! i)\<lparr>w_phase := WExited\<rparr>) (flushed_processor (sys_workers s ! i)) s"
      "s' = set_worker i (publish (sys_workers s1 ! i)) s1"
proof (cases "w_phase (sys_workers s ! i)")
  case WLoop
  then show ?thesis
    using assms that(1-3)
    by (cases "sys_cancelled s"; cases "bq_items (w_queue (sys_workers s ! i))")
       (auto simp: worker_step_def pop_ready_def pop_def Let_def split: if_splits)
next
  case (WBatch ms)
  show ?thesis
  proof (cases ms)
    case Nil
    then show ?thesis using assms WBatch that(4) by (auto simp: worker_step_def drain_def drained_def Let_def)
  next
    case (Cons m rest)
    have "w\<lparr>w_done := True, w_phase := WBatch []\<rparr> =
        w\<lparr>w_suspend := w_suspend w, w_done := True, w_phase := WBatch []\<rparr>" for w :: worker by simp
    with Cons show ?thesis using assms WBatch that(5) [of m rest] that(6) [of m rest] that(7) [of m rest]
      by (cases m; cases "process_message (w_cfg (sys_workers s ! i)) m (w_proc (sys_workers s ! i))")
         (auto simp: worker_step_def Let_def)
  qed
next
  case WFlush
  then show ?thesis using assms that(8,9)
    by (auto simp: worker_step_def flushed_processor_def Let_def split: if_splits)
qed (use assms in \<open>simp add: worker_step_def\<close>)

lemma router_step_cases [consumes 1, case_names refused pushed closed thrown]:
  assumes "router_step s = Some s'"
  obtains
    p b acts where "sys_router s = RPush p b # acts" "bq_closed (w_queue (sys_workers s ! p))"
      "s' = s\<lparr>sys_router := []\<rparr>"
  | p b acts where "sys_router s = RPush p b # acts" "\<not> bq_closed (w_queue (sys_workers s ! p))"
      "length (bq_items (w_queue (sys_workers s ! p))) < bq_capacity (w_queue (sys_workers s ! p))"
      "s' = (set_worker p ((sys_workers s ! p)\<lparr>w_queue := (w_queue (sys_workers s ! p))
              \<lparr>bq_items := bq_items (w_queue (sys_workers s ! p)) @ [b]\<rparr>\<rparr>) s)\<lparr>sys_router := acts\<rparr>"
  | p acts where "sys_router s = RClose p # acts"
      "s' = (set_worker p ((sys_workers s ! p)\<lparr>w_queue := close_queue (w_queue (sys_workers s ! p))\<rparr>) s)
              \<lparr>sys_router := acts\<rparr>"
  | e acts where "sys_router s = RThrow e # acts" "s' = fail e (s\<lparr>sys_router := []\<rparr>)"
proof (cases "sys_router s")
  case (Cons act acts)
  then show ?thesis
    using assms that by (cases act) (auto simp: router_step_def push_ready_def push_def Let_def split: if_splits)
qed (use assms in \<open>simp add: router_step_def\<close>)

lemma cheaper_worker:
  "i < length (sys_workers s) \<Longrightarrow> worker_cost w < worker_cost (sys_workers s ! i) \<Longrightarrow>
   work_left (set_worker i w s) < work_left s"
  using work_left_set_worker [of i s w] by simp

lemma worker_step_decreases:
  assumes i: "i < length (sys_workers s)" and step: "worker_step i s = Some s'"
  shows "work_left s' < work_left s"
  using step
proof (cases rule: worker_step_cases)
  case cancel
  then show ?thesis using cheaper_worker [OF i] by (simp add: worker_cost_def phase_cost_def)
next
  case empty
  then show ?thesis using cheaper_worker [OF i] by (simp add: worker_cost_def phase_cost_def)
next
  case (batch b bs)
  then show ?thesis using cheaper_worker [OF i] by (simp add: worker_cost_def phase_cost_def)
next
  case drain
  then show ?thesis using cheaper_worker [OF i]
    by (simp add: drained_def worker_cost_def phase_cost_def publish_def)
next
  case (stop m ms)
  then show ?thesis using cheaper_worker [OF i] by (simp add: worker_cost_def phase_cost_def)
next
  case (throw m ms e)
  then show ?thesis
    using work_left_forward_new [OF i, of "(sys_workers s ! i)\<lparr>w_phase := WExited\<rparr>"
        "thrown_processor (w_cfg (sys_workers s ! i)) m (w_proc (sys_workers s ! i))"]
    by (simp add: worker_cost_def phase_cost_def)
next
  case (handle m ms p)
  then show ?thesis
    using work_left_forward_new [OF i, of "(sys_workers s ! i)\<lparr>w_phase := WBatch ms\<rparr>" p]
    by (simp add: worker_cost_def phase_cost_def)
next
  case abandon
  then show ?thesis using cheaper_worker [OF i] by (simp add: worker_cost_def phase_cost_def)
next
  case (flush s1)
  let ?w = "(sys_workers s ! i)\<lparr>w_phase := WExited\<rparr>"
  have "worker_cost ?w < worker_cost (sys_workers s ! i)"
    using flush(1) by (simp add: worker_cost_def phase_cost_def)
  moreover have "work_left s1 + worker_cost (sys_workers s ! i) = work_left s + worker_cost ?w"
    unfolding flush(3) by (rule work_left_forward_new [OF i])
  moreover have "work_left s' = work_left s1"
    using work_left_set_worker [of i s1 "publish (sys_workers s1 ! i)"] i flush(3,4) by simp
  ultimately show ?thesis by simp
qed

definition actions_ok :: "nat \<Rightarrow> router_action list \<Rightarrow> bool" where
  "actions_ok n acts = (\<forall>a \<in> set acts. case a of RPush p b \<Rightarrow> p < n \<and> b \<noteq> [] | RClose p \<Rightarrow> p < n | RThrow e \<Rightarrow> True)"

lemma router_step_decreases:
  assumes "actions_ok (length (sys_workers s)) (sys_router s)" "router_step s = Some s'"
  shows "work_left s' < work_left s"
  using assms(2)
proof (cases rule: router_step_cases)
  case (refused p b acts)
  then show ?thesis by (simp add: work_left_def action_cost_def)
next
  case (pushed p b acts)
  then have p: "p < length (sys_workers s)" using assms(1) by (simp add: actions_ok_def)
  let ?w = "(sys_workers s ! p)\<lparr>w_queue := (w_queue (sys_workers s ! p))
      \<lparr>bq_items := bq_items (w_queue (sys_workers s ! p)) @ [b]\<rparr>\<rparr>"
  have "worker_cost ?w = worker_cost (sys_workers s ! p) + 3 + length b" by (simp add: worker_cost_def)
  then show ?thesis
    using pushed(1,4) sum_list_update [OF p, of worker_cost ?w]
    by (simp add: work_left_def action_cost_def set_worker_def)
next
  case (closed p acts)
  then have p: "p < length (sys_workers s)" using assms(1) by (simp add: actions_ok_def)
  let ?w = "(sys_workers s ! p)\<lparr>w_queue := close_queue (w_queue (sys_workers s ! p))\<rparr>"
  have "worker_cost ?w = worker_cost (sys_workers s ! p)" by (simp add: worker_cost_def close_queue_def)
  then show ?thesis
    using closed sum_list_update [OF p, of worker_cost ?w]
    by (simp add: work_left_def action_cost_def set_worker_def)
next
  case (thrown e acts)
  then have "work_left s' = work_left (s\<lparr>sys_router := []\<rparr>)" by simp
  then show ?thesis using thrown(1) by (simp add: work_left_def action_cost_def)
qed

section \<open>Every message reaches its worker, once and in order\<close>

definition is_stop :: "worker_message \<Rightarrow> bool" where
  "is_stop m = (m = MEndOfStream \<or> m = MSuspend)"

text \<open>The messages the router still has to push to worker \<open>p\<close>.\<close>

fun future :: "nat \<Rightarrow> router_action list \<Rightarrow> worker_message list" where
  "future p [] = []"
| "future p (RPush q b # acts) = (if q = p then b else []) @ future p acts"
| "future p (RClose q # acts) = future p acts"
| "future p (RThrow e # acts) = future p acts"

text \<open>A close comes after the last push to that worker.\<close>

fun closes_last :: "nat \<Rightarrow> router_action list \<Rightarrow> bool" where
  "closes_last p [] = True"
| "closes_last p (RClose q # acts) = ((q = p \<longrightarrow> future p acts = []) \<and> closes_last p acts)"
| "closes_last p (a # acts) = closes_last p acts"

definition ends_with_stop :: "worker_message list \<Rightarrow> bool" where
  "ends_with_stop ms = (ms \<noteq> [] \<and> is_stop (last ms))"

definition in_hand :: "worker \<Rightarrow> worker_message list" where
  "in_hand w = (case w_phase w of WBatch ms \<Rightarrow> ms | _ \<Rightarrow> [])"

definition todo :: "nat \<Rightarrow> router_action list \<Rightarrow> worker \<Rightarrow> worker_message list" where
  "todo i acts w = in_hand w @ concat (bq_items (w_queue w)) @ future i acts"

text \<open>
  The state of worker \<open>i\<close> against its whole message list \<open>ms\<close> and its initial processor \<open>p0\<close>:
  still consuming, stopped by its sentinel, or flushed and gone.
\<close>

definition consuming :: "nat \<Rightarrow> worker_message list \<Rightarrow> processor \<Rightarrow> router_action list \<Rightarrow> worker \<Rightarrow> bool" where
  "consuming i ms p0 acts w \<longleftrightarrow>
     \<not> w_done w \<and> \<not> w_suspend w \<and> (w_phase w = WLoop \<or> (\<exists>b. w_phase w = WBatch b)) \<and>
     (\<exists>cs. cs @ todo i acts w = ms \<and> \<not> list_ex is_stop cs \<and>
        fold_res (process_message (w_cfg w)) cs p0 = Inr (w_proc w))"

definition stopping_worker :: "nat \<Rightarrow> worker_message list \<Rightarrow> processor \<Rightarrow> router_action list \<Rightarrow> worker \<Rightarrow> bool" where
  "stopping_worker i ms p0 acts w \<longleftrightarrow>
     w_done w \<and> (w_phase w = WBatch [] \<or> w_phase w = WFlush) \<and> todo i acts w = [] \<and> ends_with_stop ms \<and>
     fold_res (process_message (w_cfg w)) ms p0 = Inr (w_proc w) \<and> w_suspend w = (last ms = MSuspend)"

definition exited_worker :: "nat \<Rightarrow> worker_message list \<Rightarrow> processor \<Rightarrow> router_action list \<Rightarrow> worker \<Rightarrow> bool" where
  "exited_worker i ms p0 acts w \<longleftrightarrow>
     w_phase w = WExited \<and> todo i acts w = [] \<and> ends_with_stop ms \<and>
     (\<exists>q. fold_res (process_message (w_cfg w)) ms p0 = Inr q \<and>
        w_proc w = (if last ms = MSuspend then q\<lparr>effects := effects q @ [Flush]\<rparr> else final_flush (w_cfg w) q))"

definition worker_inv :: "nat \<Rightarrow> worker_message list \<Rightarrow> processor \<Rightarrow> router_action list \<Rightarrow> worker \<Rightarrow> bool" where
  "worker_inv i ms p0 acts w \<longleftrightarrow>
     (consuming i ms p0 acts w \<or> stopping_worker i ms p0 acts w \<or> exited_worker i ms p0 acts w) \<and>
     list_all (\<lambda>m. \<not> is_stop m) (butlast ms) \<and>
     closes_last i acts \<and> (bq_closed (w_queue w) \<longrightarrow> future i acts = []) \<and>
     (bq_closed (w_queue w) \<or> RClose i \<in> set acts \<longrightarrow> ends_with_stop ms) \<and>
     (bq_closed (w_queue w) \<or> RClose i \<in> set acts \<or> (\<exists>e. RThrow e \<in> set acts))"

definition system_inv :: "(nat \<Rightarrow> worker_message list) \<Rightarrow> worker list \<Rightarrow> system \<Rightarrow> bool" where
  "system_inv M ws0 s \<longleftrightarrow>
     length (sys_workers s) = length ws0 \<and> actions_ok (length ws0) (sys_router s) \<and>
     (\<forall>i < length ws0. bq_wf (w_queue (sys_workers s ! i)) \<and> w_cfg (sys_workers s ! i) = w_cfg (ws0 ! i)) \<and>
     sys_cancelled s = (sys_error s \<noteq> None) \<and>
     (sys_cancelled s \<longrightarrow> (\<forall>i < length ws0. bq_closed (w_queue (sys_workers s ! i)))) \<and>
     (\<not> sys_cancelled s \<longrightarrow>
        (\<forall>i < length ws0. worker_inv i (M i) (w_proc (ws0 ! i)) (sys_router s) (sys_workers s ! i)))"

lemma system_invD:
  assumes "system_inv M ws0 s"
  shows "length (sys_workers s) = length ws0" "actions_ok (length ws0) (sys_router s)"
    "i < length ws0 \<Longrightarrow> bq_wf (w_queue (sys_workers s ! i))"
    "i < length ws0 \<Longrightarrow> w_cfg (sys_workers s ! i) = w_cfg (ws0 ! i)"
    "sys_cancelled s = (sys_error s \<noteq> None)"
    "sys_cancelled s \<Longrightarrow> i < length ws0 \<Longrightarrow> bq_closed (w_queue (sys_workers s ! i))"
    "\<not> sys_cancelled s \<Longrightarrow> i < length ws0 \<Longrightarrow>
       worker_inv i (M i) (w_proc (ws0 ! i)) (sys_router s) (sys_workers s ! i)"
  using assms by (simp_all add: system_inv_def)

lemma set_worker_sel [simp]:
  "sys_router (set_worker i w s) = sys_router s" "sys_cancelled (set_worker i w s) = sys_cancelled s"
  "sys_error (set_worker i w s) = sys_error s" "sys_sink (set_worker i w s) = sys_sink s"
  "sys_workers (set_worker i w s) = (sys_workers s)[i := w]"
  by (simp_all add: set_worker_def)

text \<open>Replacing one worker by one that satisfies its part keeps the system invariant.\<close>

lemma system_inv_set_worker:
  assumes "system_inv M ws0 s" "i < length ws0" "bq_wf (w_queue w)"
    "w_cfg w = w_cfg (sys_workers s ! i)" "bq_closed (w_queue w) = bq_closed (w_queue (sys_workers s ! i))"
    "\<not> sys_cancelled s \<Longrightarrow> worker_inv i (M i) (w_proc (ws0 ! i)) (sys_router s) w"
  shows "system_inv M ws0 (set_worker i w s)"
  using assms by (simp add: system_inv_def nth_list_update)

lemma system_inv_sink [simp]: "system_inv M ws0 (s\<lparr>sys_sink := k\<rparr>) = system_inv M ws0 s"
  by (simp add: system_inv_def)

lemma system_inv_fail:
  assumes "system_inv M ws0 s"
  shows "system_inv M ws0 (fail e s)"
  using assms by (auto simp: system_inv_def fail_def bq_wf_close close_queue_def bq_wf_def split: option.split)

lemma process_message_stop: "is_stop m \<Longrightarrow> process_message cfg m p = Inr p"
  by (auto simp: is_stop_def process_message_def)

text \<open>A sentinel taken from the batch is the last message there is.\<close>

lemma stop_is_last:
  assumes "cs @ m # rest = ms" "is_stop m" "list_all (\<lambda>m. \<not> is_stop m) (butlast ms)"
  shows "rest = []"
proof (rule ccontr)
  assume "rest \<noteq> []"
  then have "m \<in> set (butlast ms)" using assms(1) by (auto simp: butlast_append)
  then show False using assms(2,3) by (auto simp: list_all_iff)
qed

lemma worker_inv_stop:
  assumes inv: "worker_inv i ms p0 acts w" and ph: "w_phase w = WBatch (m # rest)" and stop: "is_stop m"
  shows "worker_inv i ms p0 acts (w\<lparr>w_suspend := (m = MSuspend \<or> w_suspend w), w_done := True, w_phase := WBatch []\<rparr>)"
proof -
  have con: "consuming i ms p0 acts w"
    using inv ph by (auto simp: worker_inv_def stopping_worker_def exited_worker_def)
  then obtain cs where cs: "cs @ todo i acts w = ms" "\<not> list_ex is_stop cs"
      "fold_res (process_message (w_cfg w)) cs p0 = Inr (w_proc w)" "\<not> w_suspend w"
    by (auto simp: consuming_def)
  let ?r = "rest @ concat (bq_items (w_queue w)) @ future i acts"
  have all: "cs @ m # ?r = ms" using cs(1) ph by (simp add: todo_def in_hand_def)
  moreover have "list_all (\<lambda>m. \<not> is_stop m) (butlast ms)" using inv by (simp add: worker_inv_def)
  ultimately have none: "?r = []" using stop_is_last [of cs m ?r ms] stop by blast
  moreover have "ms = cs @ [m]" using all unfolding none by simp
  ultimately have "stopping_worker i ms p0 acts
      (w\<lparr>w_suspend := (m = MSuspend \<or> w_suspend w), w_done := True, w_phase := WBatch []\<rparr>)"
    using cs stop process_message_stop [OF stop]
    by (auto simp: stopping_worker_def todo_def in_hand_def ends_with_stop_def fold_res_append)
  then show ?thesis using inv by (simp add: worker_inv_def)
qed

lemma worker_inv_handle:
  assumes inv: "worker_inv i ms p0 acts w" and ph: "w_phase w = WBatch (m # rest)" and m: "\<not> is_stop m"
    and p: "process_message (w_cfg w) m (w_proc w) = Inr p"
  shows "worker_inv i ms p0 acts (w\<lparr>w_phase := WBatch rest, w_proc := p, w_pending := k\<rparr>)"
proof -
  have con: "consuming i ms p0 acts w"
    using inv ph by (auto simp: worker_inv_def stopping_worker_def exited_worker_def)
  then obtain cs where cs: "cs @ todo i acts w = ms" "\<not> list_ex is_stop cs"
      "fold_res (process_message (w_cfg w)) cs p0 = Inr (w_proc w)" "\<not> w_suspend w" "\<not> w_done w"
    by (auto simp: consuming_def)
  have "consuming i ms p0 acts (w\<lparr>w_phase := WBatch rest, w_proc := p, w_pending := k\<rparr>)"
    using cs ph m p by (auto simp: consuming_def todo_def in_hand_def fold_res_append intro!: exI [of _ "cs @ [m]"])
  then show ?thesis using inv by (simp add: worker_inv_def)
qed

lemma worker_inv_batch:
  assumes inv: "worker_inv i ms p0 acts w" and ph: "w_phase w = WLoop" and q: "bq_items (w_queue w) = b # bs"
  shows "worker_inv i ms p0 acts (w\<lparr>w_queue := (w_queue w)\<lparr>bq_items := bs\<rparr>, w_phase := WBatch b\<rparr>)"
proof -
  have "consuming i ms p0 acts w"
    using inv ph by (auto simp: worker_inv_def stopping_worker_def exited_worker_def)
  then have "consuming i ms p0 acts (w\<lparr>w_queue := (w_queue w)\<lparr>bq_items := bs\<rparr>, w_phase := WBatch b\<rparr>)"
    using ph q by (auto simp: consuming_def todo_def in_hand_def)
  then show ?thesis using inv by (simp add: worker_inv_def)
qed

lemma worker_inv_not_drained_early:
  assumes "worker_inv i ms p0 acts w" "w_phase w = WLoop" "bq_items (w_queue w) = []" "bq_closed (w_queue w)"
  shows False
proof -
  have con: "consuming i ms p0 acts w"
    using assms(1,2) by (auto simp: worker_inv_def stopping_worker_def exited_worker_def)
  have "todo i acts w = []" using assms by (simp add: todo_def in_hand_def worker_inv_def)
  then have "\<not> list_ex is_stop ms" using con by (auto simp: consuming_def)
  moreover have "ends_with_stop ms" using assms by (simp add: worker_inv_def)
  ultimately show False by (auto simp: ends_with_stop_def list_ex_iff)
qed

lemma worker_inv_drained:
  assumes "worker_inv i ms p0 acts w" "w_phase w = WBatch []"
  shows "worker_inv i ms p0 acts (drained w)"
proof (cases "w_done w")
  case True
  then have "stopping_worker i ms p0 acts w"
    using assms by (auto simp: worker_inv_def consuming_def exited_worker_def)
  then have "stopping_worker i ms p0 acts (drained w)"
    using True assms(2) by (simp add: stopping_worker_def drained_def publish_def todo_def in_hand_def)
  then show ?thesis using assms(1) by (simp add: worker_inv_def drained_def publish_def)
next
  case False
  then have "consuming i ms p0 acts w"
    using assms by (auto simp: worker_inv_def stopping_worker_def exited_worker_def)
  then have "consuming i ms p0 acts (drained w)"
    using False assms(2) by (simp add: consuming_def drained_def publish_def todo_def in_hand_def)
  then show ?thesis using assms(1) by (simp add: worker_inv_def drained_def publish_def)
qed

lemma worker_inv_flushed:
  assumes "worker_inv i ms p0 acts w" "w_phase w = WFlush"
  shows "worker_inv i ms p0 acts (publish (w\<lparr>w_phase := WExited, w_proc := flushed_processor w, w_pending := k\<rparr>))"
proof -
  have "stopping_worker i ms p0 acts w"
    using assms by (auto simp: worker_inv_def consuming_def exited_worker_def)
  then have "exited_worker i ms p0 acts (publish (w\<lparr>w_phase := WExited, w_proc := flushed_processor w, w_pending := k\<rparr>))"
    using assms(2)
    by (auto simp: stopping_worker_def exited_worker_def flushed_processor_def publish_def todo_def in_hand_def)
  then show ?thesis using assms(1) by (simp add: worker_inv_def publish_def)
qed

lemma worker_step_inv:
  assumes inv: "system_inv M ws0 s" and i: "i < length (sys_workers s)" and step: "worker_step i s = Some s'"
  shows "system_inv M ws0 s'"
proof -
  note I = system_invD [OF inv]
  have i0: "i < length ws0" using i I(1) by simp
  let ?w = "sys_workers s ! i"
  have wf: "bq_wf (w_queue ?w)" using I(3) [OF i0] .
  note set = system_inv_set_worker [OF inv i0]
  show ?thesis
    using step
  proof (cases rule: worker_step_cases)
    case cancel
    then show ?thesis using wf by (auto intro!: set)
  next
    case empty
    then show ?thesis using worker_inv_not_drained_early [OF I(7) [OF _ i0]] by auto
  next
    case (batch b bs)
    have "bq_wf ((w_queue ?w)\<lparr>bq_items := bs\<rparr>)" using wf batch(3) by (simp add: bq_wf_def)
    then show ?thesis
      using worker_inv_batch [OF I(7) [OF _ i0] batch(1) batch(3)] unfolding batch(4) by (intro set) auto
  next
    case drain
    have "system_inv M ws0 (set_worker i (drained ?w) s)"
      using worker_inv_drained [OF I(7) [OF _ i0] drain(1)] wf
      by (intro set) (auto simp: drained_def publish_def)
    then show ?thesis unfolding drain(2) by simp
  next
    case (stop m ms)
    then have "is_stop m" by (auto simp: is_stop_def)
    then show ?thesis
      using worker_inv_stop [OF I(7) [OF _ i0] stop(1)] wf unfolding stop(3) by (intro set) auto
  next
    case (throw m ms e)
    have "length (sys_workers (fail e s)) = length ws0" using I(1) by simp
    have "system_inv M ws0 (fail e s)" by (rule system_inv_fail [OF inv])
    then show ?thesis unfolding throw(5) using i0 I
      by (auto simp: system_inv_def fail_def forward_new_def set_worker_def Let_def split_def nth_list_update close_queue_def
          bq_wf_def split: option.splits)
  next
    case (handle m ms p)
    let ?k = "fst (fold forward (drop (length (effects (w_proc ?w))) (effects p)) (w_pending ?w, sys_sink s))"
    have "\<not> is_stop m" using handle by (simp add: is_stop_def)
    then have "system_inv M ws0 (set_worker i (?w\<lparr>w_phase := WBatch ms, w_proc := p, w_pending := ?k\<rparr>) s)"
      using worker_inv_handle [OF I(7) [OF _ i0] handle(1) _ handle(4)] wf by (intro set) auto
    then show ?thesis unfolding handle(5) by (simp add: forward_new_def Let_def split_def)
  next
    case abandon
    then show ?thesis using wf by (auto intro!: set)
  next
    case (flush s1)
    let ?k = "fst (fold forward (drop (length (effects (w_proc ?w))) (effects (flushed_processor ?w)))
        (w_pending ?w, sys_sink s))"
    let ?x = "publish (?w\<lparr>w_phase := WExited, w_proc := flushed_processor ?w, w_pending := ?k\<rparr>)"
    have "system_inv M ws0 (set_worker i ?x s)"
      using worker_inv_flushed [OF I(7) [OF _ i0] flush(1)] wf by (intro set) (auto simp: publish_def)
    then show ?thesis
      unfolding flush(4) flush(3) using i
      by (simp add: forward_new_def Let_def split_def set_worker_def publish_def system_inv_def)
  qed
qed

lemma actions_ok_tail: "actions_ok n (a # acts) \<Longrightarrow> actions_ok n acts"
  by (simp add: actions_ok_def)

lemma worker_inv_pushed:
  assumes inv: "worker_inv i ms p0 (RPush i b # acts) w" and op: "\<not> bq_closed (w_queue w)"
  shows "worker_inv i ms p0 acts (w\<lparr>w_queue := (w_queue w)\<lparr>bq_items := bq_items (w_queue w) @ [b]\<rparr>\<rparr>)"
    (is "worker_inv i ms p0 acts ?w")
proof -
  have eq: "todo i acts ?w = todo i (RPush i b # acts) w" by (simp add: todo_def in_hand_def)
  have "consuming i ms p0 acts ?w = consuming i ms p0 (RPush i b # acts) w"
    "stopping_worker i ms p0 acts ?w = stopping_worker i ms p0 (RPush i b # acts) w"
    "exited_worker i ms p0 acts ?w = exited_worker i ms p0 (RPush i b # acts) w"
    unfolding consuming_def stopping_worker_def exited_worker_def eq by simp_all
  then show ?thesis using inv op unfolding worker_inv_def by auto
qed

lemma worker_inv_pushed_other:
  assumes inv: "worker_inv i ms p0 (RPush q b # acts) w" and "q \<noteq> i"
  shows "worker_inv i ms p0 acts w"
proof -
  have "todo i (RPush q b # acts) w = todo i acts w" using assms(2) by (simp add: todo_def)
  then have "consuming i ms p0 (RPush q b # acts) w = consuming i ms p0 acts w"
    "stopping_worker i ms p0 (RPush q b # acts) w = stopping_worker i ms p0 acts w"
    "exited_worker i ms p0 (RPush q b # acts) w = exited_worker i ms p0 acts w"
    unfolding consuming_def stopping_worker_def exited_worker_def by simp_all
  then show ?thesis using inv assms(2) unfolding worker_inv_def by auto
qed

lemma worker_inv_closed:
  assumes inv: "worker_inv i ms p0 (RClose q # acts) w"
  shows "worker_inv i ms p0 acts (if q = i then w\<lparr>w_queue := close_queue (w_queue w)\<rparr> else w)"
proof -
  let ?w = "if q = i then w\<lparr>w_queue := close_queue (w_queue w)\<rparr> else w"
  have eq: "todo i acts ?w = todo i (RClose q # acts) w"
    by (simp add: todo_def in_hand_def close_queue_def)
  have "consuming i ms p0 acts ?w = consuming i ms p0 (RClose q # acts) w"
    "stopping_worker i ms p0 acts ?w = stopping_worker i ms p0 (RClose q # acts) w"
    "exited_worker i ms p0 acts ?w = exited_worker i ms p0 (RClose q # acts) w"
    unfolding consuming_def stopping_worker_def exited_worker_def eq by simp_all
  then show ?thesis using inv unfolding worker_inv_def by (auto simp: close_queue_def)
qed

lemma router_step_inv:
  assumes inv: "system_inv M ws0 s" and step: "router_step s = Some s'"
  shows "system_inv M ws0 s'"
proof -
  note I = system_invD [OF inv]
  show ?thesis
    using step
  proof (cases rule: router_step_cases)
    case (refused p b acts)
    have p: "p < length ws0" "b \<noteq> []" using I(2) refused(1) by (auto simp: actions_ok_def)
    have "sys_cancelled s"
    proof (rule ccontr)
      assume "\<not> sys_cancelled s"
      then have "future p (RPush p b # acts) = []"
        using I(7) [OF _ p(1)] refused(1,2) by (auto simp: worker_inv_def)
      then show False using p(2) by simp
    qed
    then show ?thesis using inv refused(3) by (simp add: system_inv_def actions_ok_def)
  next
    case (pushed p b acts)
    have p: "p < length ws0" using I(2) pushed(1) by (auto simp: actions_ok_def)
    have nc: "\<not> sys_cancelled s" using I(6) [OF _ p] pushed(2) by blast
    let ?w = "(sys_workers s ! p)\<lparr>w_queue := (w_queue (sys_workers s ! p))
        \<lparr>bq_items := bq_items (w_queue (sys_workers s ! p)) @ [b]\<rparr>\<rparr>"
    have "worker_inv j (M j) (w_proc (ws0 ! j)) acts ((sys_workers s)[p := ?w] ! j)" if j: "j < length ws0" for j
      using worker_inv_pushed [of p "M p" "w_proc (ws0 ! p)" b acts "sys_workers s ! p"]
        worker_inv_pushed_other [of j "M j" "w_proc (ws0 ! j)" p b acts "sys_workers s ! j"]
        I(7) [OF nc j] I(1) pushed(1,2) j by (cases "j = p") simp_all
    moreover have "bq_wf (w_queue ?w)" using I(3) [OF p] pushed(3) by (simp add: bq_wf_def)
    ultimately show ?thesis
      using inv nc pushed p actions_ok_tail [of "length ws0" "RPush p b" acts]
      by (simp add: system_inv_def nth_list_update)
  next
    case (closed p acts)
    have p: "p < length ws0" using I(2) closed(1) by (auto simp: actions_ok_def)
    let ?w = "(sys_workers s ! p)\<lparr>w_queue := close_queue (w_queue (sys_workers s ! p))\<rparr>"
    have "worker_inv j (M j) (w_proc (ws0 ! j)) acts ((sys_workers s)[p := ?w] ! j)"
      if j: "j < length ws0" and nc: "\<not> sys_cancelled s" for j
      using worker_inv_closed [of j "M j" "w_proc (ws0 ! j)" p acts "sys_workers s ! j"]
        I(7) [OF nc j] I(1) closed(1) j by (cases "j = p") simp_all
    then show ?thesis
      using inv closed p actions_ok_tail [of "length ws0" "RClose p" acts] I(3) [OF p]
      by (simp add: system_inv_def nth_list_update bq_wf_close) (simp add: close_queue_def)
  next
    case (thrown e acts)
    then show ?thesis
      using inv by (auto simp: system_inv_def fail_def bq_wf_close actions_ok_def close_queue_def bq_wf_def split: option.split)
  qed
qed

lemma reaches_inv:
  assumes "reaches s0 s" "system_inv M ws0 s0"
  shows "system_inv M ws0 s"
  using assms
proof (induction rule: reaches.induct)
  case (reaches_step s s' t s'')
  then have inv: "system_inv M ws0 s'" by simp
  show ?case
  proof (cases t)
    case RouterT
    then show ?thesis using reaches_step.hyps(2) router_step_inv [OF inv] by (simp add: thread_step_def)
  next
    case (WorkerT i)
    then show ?thesis
      using reaches_step.hyps(2) worker_step_inv [OF inv, of i] by (simp add: thread_step_def split: if_splits)
  qed
qed

section \<open>No deadlock\<close>

lemma worker_can_step:
  "w_phase (sys_workers s ! i) \<noteq> WExited \<Longrightarrow>
   w_phase (sys_workers s ! i) = WLoop \<longrightarrow> sys_cancelled s \<or> pop_ready (w_queue (sys_workers s ! i)) \<Longrightarrow>
   \<exists>s'. worker_step i s = Some s'"
  by (cases "w_phase (sys_workers s ! i)")
     (auto simp: worker_step_def Let_def split: option.split prod.split list.split worker_message.split sum.split)

lemma no_deadlock:
  assumes inv: "system_inv M ws0 s" and "\<not> finished s"
  shows "\<exists>t s'. thread_step t s = Some s'"
proof -
  note I = system_invD [OF inv]
  have worker: "\<exists>t s'. thread_step t s = Some s'"
    if i: "i < length ws0" and ph: "w_phase (sys_workers s ! i) \<noteq> WExited"
      and rdy: "w_phase (sys_workers s ! i) = WLoop \<longrightarrow> sys_cancelled s \<or> pop_ready (w_queue (sys_workers s ! i))" for i
    using worker_can_step [OF ph rdy] i I(1)
    by (auto simp: thread_step_def intro!: exI [of _ "WorkerT i"])
  show ?thesis
  proof (cases "sys_router s")
    case (Cons act acts)
    show ?thesis
    proof (cases "\<exists>s'. router_step s = Some s'")
      case True
      then show ?thesis by (auto simp: thread_step_def intro!: exI [of _ RouterT])
    next
      case False
      then obtain p b where act: "act = RPush p b" and full: "\<not> push_ready (w_queue (sys_workers s ! p))"
        using Cons by (cases act) (auto simp: router_step_def Let_def split: if_splits prod.splits bool.splits)
      have p: "p < length ws0" "b \<noteq> []" using I(2) Cons act by (auto simp: actions_ok_def)
      have open': "\<not> bq_closed (w_queue (sys_workers s ! p))" "bq_items (w_queue (sys_workers s ! p)) \<noteq> []"
        using full I(3) [OF p(1)] by (auto simp: push_ready_def bq_wf_def)
      have nc: "\<not> sys_cancelled s" using I(6) [OF _ p(1)] open' by blast
      have "todo p (sys_router s) (sys_workers s ! p) \<noteq> []" using p(2) Cons act by (simp add: todo_def)
      then have "w_phase (sys_workers s ! p) \<noteq> WExited"
        using I(7) [OF nc p(1)] by (auto simp: worker_inv_def consuming_def stopping_worker_def exited_worker_def)
      then show ?thesis using worker [OF p(1)] open'(2) by (simp add: pop_ready_def)
    qed
  next
    case Nil
    then obtain i where i: "i < length ws0" "w_phase (sys_workers s ! i) \<noteq> WExited"
      using assms(2) I(1) by (auto simp: finished_def in_set_conv_nth)
    have "sys_cancelled s \<or> bq_closed (w_queue (sys_workers s ! i))"
      using I(7) [OF _ i(1)] Nil by (auto simp: worker_inv_def)
    then show ?thesis using worker [OF i] by (auto simp: pop_ready_def)
  qed
qed

lemma thread_step_decreases:
  assumes "system_inv M ws0 s" "thread_step t s = Some s'"
  shows "work_left s' < work_left s"
proof (cases t)
  case RouterT
  then show ?thesis
    using router_step_decreases [of s s'] system_invD(1,2) [OF assms(1)] assms(2) by (simp add: thread_step_def)
next
  case (WorkerT i)
  then show ?thesis
    using worker_step_decreases [of i s s'] assms(2) by (simp add: thread_step_def split: if_splits)
qed

lemma reaches_trans: "reaches b c \<Longrightarrow> reaches a b \<Longrightarrow> reaches a c"
  by (induction rule: reaches.induct) (auto intro: reaches.intros)

lemma can_finish:
  assumes "system_inv M ws0 s"
  shows "\<exists>s'. reaches s s' \<and> finished s'"
  using assms
proof (induction "work_left s" arbitrary: s rule: less_induct)
  case less
  show ?case
  proof (cases "finished s")
    case True
    then show ?thesis using reaches_refl by blast
  next
    case False
    then obtain t s1 where s1: "thread_step t s = Some s1" using no_deadlock [OF less.prems] by blast
    have r: "reaches s s1" using reaches_step [OF reaches_refl s1] .
    obtain s' where "reaches s1 s'" "finished s'"
      using less.hyps [OF thread_step_decreases [OF less.prems s1] reaches_inv [OF r less.prems]] by blast
    then show ?thesis using reaches_trans r by blast
  qed
qed

text \<open>A sequence of \<open>k\<close> steps uses up at least \<open>k\<close> units of work.\<close>

inductive steps :: "nat \<Rightarrow> system \<Rightarrow> system \<Rightarrow> bool" where
  steps_0: "steps 0 s s"
| steps_Suc: "steps k s s' \<Longrightarrow> thread_step t s' = Some s'' \<Longrightarrow> steps (Suc k) s s''"

lemma steps_reaches: "steps k s s' \<Longrightarrow> reaches s s'"
  by (induction rule: steps.induct) (auto intro: reaches.intros)

lemma steps_bounded: "steps k s s' \<Longrightarrow> system_inv M ws0 s \<Longrightarrow> k + work_left s' \<le> work_left s"
proof (induction rule: steps.induct)
  case (steps_Suc k s s' t s'')
  have "work_left s'' < work_left s'"
    using thread_step_decreases steps_Suc.hyps(2) reaches_inv [OF steps_reaches [OF steps_Suc.hyps(1)] steps_Suc.prems]
    by blast
  then show ?case using steps_Suc by simp
qed simp

section \<open>No failure when no partition fails\<close>

definition no_throw :: "router_action list \<Rightarrow> bool" where
  "no_throw acts = (\<forall>e. RThrow e \<notin> set acts)"

definition partitions_ok :: "(nat \<Rightarrow> worker_message list) \<Rightarrow> worker list \<Rightarrow> bool" where
  "partitions_ok M ws0 =
     (\<forall>i < length ws0. \<exists>q. fold_res (process_message (w_cfg (ws0 ! i))) (M i) (w_proc (ws0 ! i)) = Inr q)"

lemma no_throw_tail: "no_throw (a # acts) \<Longrightarrow> no_throw acts"
  by (auto simp: no_throw_def)

lemma router_step_no_failure:
  assumes "router_step s = Some s'" "\<not> sys_cancelled s" "no_throw (sys_router s)"
  shows "\<not> sys_cancelled s' \<and> no_throw (sys_router s')"
  using assms by (cases rule: router_step_cases) (auto simp: no_throw_def)

lemma forward_new_sel [simp]:
  "sys_cancelled (forward_new i w p s) = sys_cancelled s" "sys_router (forward_new i w p s) = sys_router s"
  by (simp_all add: forward_new_def Let_def split_def)

lemma worker_step_no_failure:
  assumes inv: "system_inv M ws0 s" and i: "i < length (sys_workers s)" and step: "worker_step i s = Some s'"
    and nc: "\<not> sys_cancelled s" and nt: "no_throw (sys_router s)" and ok: "partitions_ok M ws0"
  shows "\<not> sys_cancelled s' \<and> no_throw (sys_router s')"
  using step
proof (cases rule: worker_step_cases)
  case (throw m ms e)
  let ?w = "sys_workers s ! i"
  note I = system_invD [OF inv]
  have i0: "i < length ws0" using i I(1) by simp
  have "consuming i (M i) (w_proc (ws0 ! i)) (sys_router s) ?w"
    using I(7) [OF nc i0] throw(1) by (auto simp: worker_inv_def stopping_worker_def exited_worker_def)
  then obtain cs where cs: "cs @ todo i (sys_router s) ?w = M i"
      "fold_res (process_message (w_cfg ?w)) cs (w_proc (ws0 ! i)) = Inr (w_proc ?w)"
    by (auto simp: consuming_def)
  have "M i = cs @ m # (ms @ concat (bq_items (w_queue ?w)) @ future i (sys_router s))"
    using cs(1) throw(1) by (simp add: todo_def in_hand_def)
  then have "fold_res (process_message (w_cfg ?w)) (M i) (w_proc (ws0 ! i)) = Inl e"
    using cs(2) throw(4) by (simp add: fold_res_append)
  then show ?thesis using ok i0 I(4) [OF i0] by (auto simp: partitions_ok_def)
qed (use nc nt in \<open>auto simp: set_worker_def\<close>)

lemma reaches_no_failure:
  assumes "reaches s0 s" "system_inv M ws0 s0" "\<not> sys_cancelled s0" "no_throw (sys_router s0)" "partitions_ok M ws0"
  shows "\<not> sys_cancelled s \<and> no_throw (sys_router s)"
  using assms
proof (induction rule: reaches.induct)
  case (reaches_step s0 s t s')
  then have inv: "system_inv M ws0 s" using reaches_inv by blast
  show ?case
  proof (cases t)
    case RouterT
    then show ?thesis
      using reaches_step router_step_no_failure [of s s'] by (simp add: thread_step_def)
  next
    case (WorkerT i)
    then show ?thesis
      using reaches_step worker_step_no_failure [OF inv, of i s'] by (simp add: thread_step_def split: if_splits)
  qed
qed simp

text \<open>The state of every worker once all threads have returned.\<close>

lemma finished_workers:
  assumes inv: "system_inv M ws0 s" and fin: "finished s" and nc: "\<not> sys_cancelled s" and i: "i < length ws0"
  shows "\<exists>q. fold_res (process_message (w_cfg (ws0 ! i))) (M i) (w_proc (ws0 ! i)) = Inr q \<and>
    w_proc (sys_workers s ! i) =
      (if last (M i) = MSuspend then q\<lparr>effects := effects q @ [Flush]\<rparr> else final_flush (w_cfg (ws0 ! i)) q)"
proof -
  note I = system_invD [OF inv]
  have "w_phase (sys_workers s ! i) = WExited" using fin i I(1) by (simp add: finished_def)
  then have "exited_worker i (M i) (w_proc (ws0 ! i)) (sys_router s) (sys_workers s ! i)"
    using I(7) [OF nc i] by (auto simp: worker_inv_def consuming_def stopping_worker_def)
  then show ?thesis using I(4) [OF i] by (auto simp: exited_worker_def)
qed

section \<open>The router's program\<close>

definition end_items :: "router_end \<Rightarrow> batch_item list" where
  "end_items e = (case e of EndSuspend (Some off) \<Rightarrow> [Control (suspend_barrier off)] | _ \<Rightarrow> [])"

definition end_stop :: "router_end \<Rightarrow> worker_message list" where
  "end_stop e = (case e of EndFinal \<Rightarrow> [MEndOfStream] | EndSuspend off \<Rightarrow> [MSuspend] | EndThrow x \<Rightarrow> [])"

text \<open>The items worker \<open>p\<close> has to process, and its messages.\<close>

definition worker_items :: "u32 \<Rightarrow> batch list \<Rightarrow> router_end \<Rightarrow> nat \<Rightarrow> batch_item list" where
  "worker_items n bs e p = share n p (concat bs @ end_items e)"

definition worker_messages :: "u32 \<Rightarrow> batch list \<Rightarrow> router_end \<Rightarrow> nat \<Rightarrow> worker_message list" where
  "worker_messages n bs e p = map message_of (worker_items n bs e p) @ end_stop e"

lemma future_append: "future p (xs @ ys) = future p xs @ future p ys"
  by (induction p xs rule: future.induct) simp_all

lemma future_concat: "future p (concat xss) = concat (map (future p) xss)"
  by (induction xss) (simp_all add: future_append)

lemma concat_single:
  "p < n \<Longrightarrow> concat (map (\<lambda>q. if q = p then x else []) [0..<n]) = x"
proof -
  assume p: "p < n"
  then have "[0..<n] = [0..<p] @ p # [Suc p..<n]"
    using upt_add_eq_append [of 0 p "n - p"] upt_conv_Cons [of p n] by simp
  moreover have skip: "concat (map (\<lambda>q. if q = p then x else []) qs) = []" if "p \<notin> set qs" for qs
    using that by (induction qs) auto
  ultimately show ?thesis by (simp add: skip del: concat_eq_Nil_conv)
qed

lemma future_push_batch:
  assumes "0 < n" "p < unat n"
  shows "future p (push_batch n items) = map message_of (share n p items)"
proof -
  let ?r = "route_batch n items"
  have "future p (push_batch n items) = concat (map (\<lambda>q. if q = p then ?r ! p else []) [0..<unat n])"
    unfolding push_batch_def Let_def future_concat map_map
    by (intro arg_cong [of _ _ concat] map_cong) auto
  also have "\<dots> = ?r ! p" by (rule concat_single [OF assms(2)])
  finally show ?thesis using route_batch_share(2) [OF assms] by simp
qed

lemma future_sentinels: "p < unat n \<Longrightarrow> future p (sentinels n m) = [m]"
proof -
  assume p: "p < unat n"
  have "future p (sentinels n m) = concat (map (\<lambda>q. if q = p then [m] else []) [0..<unat n])"
    unfolding sentinels_def future_concat map_map by (intro arg_cong [of _ _ concat] map_cong) auto
  then show ?thesis using concat_single [OF p] by simp
qed

lemma future_broadcast: "p < unat n \<Longrightarrow> future p (map (\<lambda>q. RPush q [m]) [0..<unat n]) = [m]"
proof -
  assume p: "p < unat n"
  have "future p (map (\<lambda>q. RPush q [m]) qs) = concat (map (\<lambda>q. if q = p then [m] else []) qs)" for qs
    by (induction qs) auto
  then show ?thesis using concat_single [OF p] by simp
qed

lemma future_program:
  assumes "0 < n" "p < unat n"
  shows "future p (router_program n bs e) = worker_messages n bs e p"
proof -
  have "future p (concat (map (push_batch n) bs)) = map message_of (share n p (concat bs))"
    unfolding future_concat map_map share_concat map_concat
    by (intro arg_cong [of _ _ concat] map_cong) (simp_all add: future_push_batch [OF assms])
  moreover have "future p (ending n e) = map message_of (share n p (end_items e)) @ end_stop e"
    using future_sentinels [OF assms(2)] future_broadcast [OF assms(2)]
    by (auto simp: ending_def end_items_def end_stop_def share_def goes_to_def message_of_def future_append
        split: router_end.split option.split)
  ultimately show ?thesis
    by (simp add: router_program_def worker_messages_def worker_items_def future_append share_append)
qed

lemma closes_last_append:
  "(\<And>q. RClose q \<notin> set xs) \<Longrightarrow> closes_last p (xs @ ys) = closes_last p ys"
proof (induction xs)
  case (Cons a xs)
  then show ?case by (cases a) auto
qed simp

lemma closes_last_sentinels:
  "distinct qs \<Longrightarrow> closes_last p (concat (map (\<lambda>q. [RPush q [m], RClose q]) qs))"
proof (induction qs)
  case (Cons q qs)
  have "future p (concat (map (\<lambda>q. [RPush q [m], RClose q]) rs)) = []" if "p \<notin> set rs" for rs
    using that by (induction rs) auto
  with Cons show ?case by auto
qed simp

lemma push_batch_pushes: "a \<in> set (push_batch n items) \<Longrightarrow> \<exists>p b. a = RPush p b \<and> p < unat n \<and> b \<noteq> []"
  by (auto simp: push_batch_def Let_def split: if_splits)

lemma closes_last_program: "closes_last p (router_program n bs e)"
proof -
  have "closes_last p (ending n e)"
    using closes_last_sentinels [of "[0..<unat n]" p]
      closes_last_append [of "map (\<lambda>q. RPush q [MControl (suspend_barrier off)]) [0..<unat n]" p for off]
    by (auto simp: ending_def sentinels_def split: router_end.split option.split)
  moreover have "RClose q \<notin> set (concat (map (push_batch n) bs))" for q
    using push_batch_pushes by fastforce
  ultimately show ?thesis by (simp add: router_program_def closes_last_append del: set_concat)
qed

lemma actions_ok_program: "actions_ok (unat n) (router_program n bs e)"
  using push_batch_pushes
  by (fastforce simp: actions_ok_def router_program_def ending_def sentinels_def
      split: router_action.splits router_end.splits option.splits)

lemma close_in_program:
  "RClose p \<in> set (router_program n bs e) \<longleftrightarrow> p < unat n \<and> (\<forall>x. e \<noteq> EndThrow x)"
proof -
  have "RClose p \<notin> set (push_batch n b)" for b using push_batch_pushes by fastforce
  then show ?thesis
    by (auto simp: router_program_def ending_def sentinels_def split: router_end.split option.split)
qed

lemma throw_in_program: "RThrow x \<in> set (router_program n bs e) \<longleftrightarrow> e = EndThrow x"
proof -
  have "RThrow x \<notin> set (push_batch n b)" for b using push_batch_pushes by fastforce
  then show ?thesis
    by (auto simp: router_program_def ending_def sentinels_def split: router_end.split option.split)
qed

text \<open>A fresh worker: empty open queue, nothing consumed.\<close>

definition fresh_worker :: "worker \<Rightarrow> bool" where
  "fresh_worker w \<longleftrightarrow> bq_wf (w_queue w) \<and> bq_items (w_queue w) = [] \<and> \<not> bq_closed (w_queue w) \<and>
     w_phase w = WLoop \<and> \<not> w_done w \<and> \<not> w_suspend w \<and> w_pending w = [] \<and> effects (w_proc w) = []"

lemma initial_inv:
  assumes n: "0 < n" "length ws = unat n" and fresh: "\<forall>w \<in> set ws. fresh_worker w"
  shows "system_inv (worker_messages n bs e) ws (initial_system (router_program n bs e) ws)"
proof -
  have "worker_inv i (worker_messages n bs e i) (w_proc (ws ! i)) (router_program n bs e) (ws ! i)"
    if i: "i < length ws" for i
  proof -
    have f: "fresh_worker (ws ! i)" using fresh i by simp
    have "todo i (router_program n bs e) (ws ! i) = worker_messages n bs e i"
      using f future_program [OF n(1), of i bs e] i n(2) by (simp add: todo_def in_hand_def fresh_worker_def)
    then have "consuming i (worker_messages n bs e i) (w_proc (ws ! i)) (router_program n bs e) (ws ! i)"
      using f by (auto simp: consuming_def fresh_worker_def)
    moreover have "list_all (\<lambda>m. \<not> is_stop m) (butlast (worker_messages n bs e i))"
      by (auto simp: worker_messages_def end_stop_def list_all_iff is_stop_def message_of_def
          split: router_end.splits batch_item.splits dest!: in_set_butlastD)
    moreover have "(\<forall>x. e \<noteq> EndThrow x) \<Longrightarrow> ends_with_stop (worker_messages n bs e i)"
      by (auto simp: ends_with_stop_def worker_messages_def end_stop_def is_stop_def split: router_end.splits)
    ultimately show ?thesis
      using f i n(2) closes_last_program [of i n bs e] close_in_program [of i n bs e] throw_in_program
      by (auto simp: worker_inv_def fresh_worker_def)
  qed
  then show ?thesis
    using fresh actions_ok_program [of n bs e] n(2)
    by (simp add: system_inv_def initial_system_def fresh_worker_def)
qed

end
