(* ===== verification/Partitioned_Results.thy ===== *)
theory Partitioned_Results
  imports Partitioned_Pipeline
begin

text \<open>
  What a run of the partitioned engine delivers. Every row a worker emits reaches the caller's
  sink exactly once, and every row emitted before a checkpoint has reached it by then. A run on
  a stream the single-threaded engine processes without error never fails, and whatever the
  number of workers and the interleaving it delivers, for every key and window, the rows of the
  single-threaded engine, and the same record and drop counts and watermark.
\<close>

section \<open>Sink calls only accumulate\<close>

lemma history_split: "p = with_history (effects p) zero_stats (p\<lparr>effects := []\<rparr>)"
  by (simp add: with_history_def add_stats_def zero_stats_def)

lemma item_extends:
  assumes "process_item cfg it p = Inr p'"
  shows "\<exists>es. effects p' = effects p @ es"
proof -
  have "map_res (with_history (effects p) zero_stats) (process_item cfg it (p\<lparr>effects := []\<rparr>)) = Inr p'"
    using item_with_history [of cfg it "effects p" zero_stats "p\<lparr>effects := []\<rparr>"] assms
      history_split [of p] by simp
  then show ?thesis by (cases "process_item cfg it (p\<lparr>effects := []\<rparr>)") auto
qed

lemma flush_extends: "\<exists>es. effects (final_flush cfg p) = effects p @ es"
  using flush_with_history [of cfg "effects p" zero_stats "p\<lparr>effects := []\<rparr>"] history_split [of p]
  by (metis with_history_sel(3))

lemma message_item: "\<not> is_stop m \<Longrightarrow> \<exists>it. m = message_of it \<and> process_message cfg m p = process_item cfg it p"
proof (cases m)
  case (MRecord r)
  then show ?thesis by (intro exI [of _ "Data r"]) (simp add: message_of_def process_message_def process_item_def)
next
  case (MControl c)
  then show ?thesis by (intro exI [of _ "Control c"]) (simp add: message_of_def process_message_def process_item_def)
qed (simp_all add: is_stop_def)

lemma process_message_of: "process_message cfg (message_of it) p = process_item cfg it p"
  by (cases it) (simp_all add: message_of_def process_message_def process_item_def)

lemma run_messages: "fold_res (process_message cfg) (map message_of its) p = run_items cfg its p"
proof (induction its arbitrary: p)
  case (Cons it its)
  then have "fold_res (process_message cfg) (map message_of its) = run_items cfg its" by (intro ext)
  then show ?case by (simp add: process_message_of run_items_def)
qed (simp add: run_items_def)

section \<open>The forwarding sink delivers everything once\<close>

definition delivered :: "effect list \<Rightarrow> window_result list \<times> effect list \<Rightarrow> bool" where
  "delivered es ps \<longleftrightarrow>
     set (emitted_rows es) \<subseteq> set (fst ps) \<union> set (emitted_rows (snd ps)) \<and>
     (\<forall>xs ys. es = xs @ Flush # ys \<longrightarrow> set (emitted_rows xs) \<subseteq> set (emitted_rows (snd ps)))"

lemma emitted_rows_simps [simp]:
  "emitted_rows (map Emit rs) = rs" "emitted_rows [Emit r] = [r]"
  "emitted_rows [WriteCheckpoint off wm s] = []" "emitted_rows [CheckpointListener off] = []"
  by (induction rs) (simp_all add: emitted_rows_def)

lemma emitted_rows_Cons:
  "emitted_rows (e # es) = (case e of Emit r \<Rightarrow> [r] | _ \<Rightarrow> []) @ emitted_rows es"
  by (simp add: emitted_rows_def)

lemma forward_delivered:
  assumes "delivered es ps"
  shows "delivered (es @ [e]) (forward e ps)"
proof -
  obtain pend sink where ps: "ps = (pend, sink)" by (cases ps)
  have split: "(\<exists>zs. es = xs @ Flush # zs) \<or> e = Flush \<and> xs = es" if "es @ [e] = xs @ Flush # ys" for xs ys
    using that by (cases ys rule: rev_cases) auto
  show ?thesis
  proof (cases "e = Flush")
    case True
    have "set (emitted_rows xs) \<subseteq> set pend \<union> set (emitted_rows sink)" if "es @ [e] = xs @ Flush # ys" for xs ys
      using split [OF that] assms ps by (fastforce simp: delivered_def)
    then show ?thesis using True assms ps by (auto simp: delivered_def forward_def)
  next
    case False
    then have "set (emitted_rows xs) \<subseteq> set (emitted_rows sink)" if "es @ [e] = xs @ Flush # ys" for xs ys
      using split [OF that] assms ps by (auto simp: delivered_def)
    then show ?thesis using False assms ps by (cases e) (auto simp: delivered_def forward_def)
  qed
qed

lemma forward_all_delivered: "delivered es ps \<Longrightarrow> delivered (es @ news) (fold forward news ps)"
proof (induction news arbitrary: es ps)
  case (Cons e news)
  then show ?case using Cons.IH [OF forward_delivered [OF Cons.prems, of e]] by simp
qed simp

lemma forward_counts:
  "mset (fst (fold forward news ps)) + mset (emitted_rows (snd (fold forward news ps))) =
   mset (fst ps) + mset (emitted_rows (snd ps)) + mset (emitted_rows news)"
proof (induction news arbitrary: ps)
  case (Cons e news)
  have "mset (fst (forward e ps)) + mset (emitted_rows (snd (forward e ps))) =
      mset (fst ps) + mset (emitted_rows (snd ps)) + mset (emitted_rows [e])"
    by (cases e) (simp_all add: forward_def)
  then show ?case using Cons.IH [of "forward e ps"] by (simp add: emitted_rows_Cons [of e news] emitted_rows_Cons [of e "[]"] ac_simps)
qed simp

lemma forward_grows: "\<exists>extra. snd (fold forward news ps) = snd ps @ extra"
proof (induction news arbitrary: ps)
  case (Cons e news)
  obtain m1 where "snd (forward e ps) = snd ps @ m1" by (cases e) (auto simp: forward_def)
  moreover obtain m2 where "snd (fold forward news (forward e ps)) = snd (forward e ps) @ m2" using Cons.IH by blast
  ultimately show ?case by simp
qed simp

lemma forward_flush_last: "fst (fold forward (news @ [Flush]) ps) = []"
  by (simp add: forward_def)

section \<open>The sink invariant\<close>

definition sink_inv :: "system \<Rightarrow> bool" where
  "sink_inv s \<longleftrightarrow>
     mset (emitted_rows (sys_sink s)) + sum_list (map (\<lambda>w. mset (w_pending w)) (sys_workers s)) =
       sum_list (map (\<lambda>w. mset (emitted_rows (effects (w_proc w)))) (sys_workers s)) \<and>
     (\<forall>w \<in> set (sys_workers s). delivered (effects (w_proc w)) (w_pending w, sys_sink s)) \<and>
     (\<not> sys_cancelled s \<longrightarrow> (\<forall>w \<in> set (sys_workers s). w_phase w = WExited \<longrightarrow> w_pending w = []))"

lemma delivered_grows: "delivered es (pend, sink) \<Longrightarrow> delivered es (pend, sink @ extra)"
  by (auto simp: delivered_def)

lemma sum_list_update_mset:
  "i < length xs \<Longrightarrow> sum_list (map f (xs[i := x])) + f (xs ! i) = sum_list (map f xs) + (f x :: 'b multiset)"
  by (induction xs arbitrary: i) (auto split: nat.split simp: ac_simps)

text \<open>Replacing a worker and appending to the sink, when the rows balance.\<close>

lemma sink_inv_update:
  assumes inv: "sink_inv s" and i: "i < length (sys_workers s)"
    and rows: "mset (emitted_rows extra) + mset (w_pending w) + mset (emitted_rows (effects (w_proc (sys_workers s ! i)))) =
      mset (w_pending (sys_workers s ! i)) + mset (emitted_rows (effects (w_proc w)))"
    and del: "delivered (effects (w_proc w)) (w_pending w, sys_sink s @ extra)"
    and ex: "\<not> sys_cancelled s \<Longrightarrow> w_phase w = WExited \<Longrightarrow> w_pending w = []"
  shows "sink_inv ((set_worker i w s)\<lparr>sys_sink := sys_sink s @ extra\<rparr>)"
proof -
  let ?f = "\<lambda>w. mset (w_pending w)" and ?g = "\<lambda>w. mset (emitted_rows (effects (w_proc w)))"
  let ?ws = "sys_workers s" and ?w = "sys_workers s ! i"
  have F: "sum_list (map ?f (?ws[i := w])) + ?f ?w = sum_list (map ?f ?ws) + ?f w"
    and G: "sum_list (map ?g (?ws[i := w])) + ?g ?w = sum_list (map ?g ?ws) + ?g w"
    by (rule sum_list_update_mset [OF i])+
  have B: "mset (emitted_rows (sys_sink s)) + sum_list (map ?f ?ws) = sum_list (map ?g ?ws)"
    using inv by (simp add: sink_inv_def)
  have "mset (emitted_rows (sys_sink s)) + mset (emitted_rows extra) + sum_list (map ?f (?ws[i := w])) + (?f ?w + ?g ?w) =
      sum_list (map ?g (?ws[i := w])) + (?f ?w + ?g ?w)"
  proof -
    have "mset (emitted_rows (sys_sink s)) + mset (emitted_rows extra) + sum_list (map ?f (?ws[i := w])) + (?f ?w + ?g ?w) =
        mset (emitted_rows (sys_sink s)) + mset (emitted_rows extra) + (sum_list (map ?f (?ws[i := w])) + ?f ?w) + ?g ?w"
      by (simp add: ac_simps)
    also have "\<dots> = (mset (emitted_rows (sys_sink s)) + sum_list (map ?f ?ws)) + (mset (emitted_rows extra) + ?f w + ?g ?w)"
      unfolding F by (simp add: ac_simps)
    also have "\<dots> = (sum_list (map ?g ?ws) + ?g w) + ?f ?w" unfolding B rows by (simp add: ac_simps)
    also have "\<dots> = sum_list (map ?g (?ws[i := w])) + (?f ?w + ?g ?w)" unfolding G [symmetric] by (simp add: ac_simps)
    finally show ?thesis .
  qed
  then have bal: "mset (emitted_rows (sys_sink s)) + mset (emitted_rows extra) + sum_list (map ?f (?ws[i := w])) =
      sum_list (map ?g (?ws[i := w]))" by (rule add_right_imp_eq)
  have mem: "v = w \<or> v \<in> set ?ws" if "v \<in> set (?ws[i := w])" for v
    using that set_update_subset_insert [of ?ws i w] by auto
  show ?thesis
    using bal inv del ex mem delivered_grows unfolding sink_inv_def by (fastforce simp: set_worker_def)
qed

lemma sink_inv_same:
  assumes "sink_inv s" "i < length (sys_workers s)"
    "w_proc w = w_proc (sys_workers s ! i)" "w_pending w = w_pending (sys_workers s ! i)"
    "\<not> sys_cancelled s \<Longrightarrow> w_phase w \<noteq> WExited \<or> w_phase (sys_workers s ! i) = WExited"
  shows "sink_inv (set_worker i w s)"
proof -
  have "sys_workers s ! i \<in> set (sys_workers s)" using assms(2) by simp
  then have "delivered (effects (w_proc w)) (w_pending w, sys_sink s @ [])"
      "\<not> sys_cancelled s \<Longrightarrow> w_phase w = WExited \<Longrightarrow> w_pending w = []"
    using assms unfolding sink_inv_def by auto
  then have "sink_inv ((set_worker i w s)\<lparr>sys_sink := sys_sink s @ []\<rparr>)"
    using assms by (intro sink_inv_update) auto
  then show ?thesis by (simp add: set_worker_def)
qed

lemma sink_inv_fail:
  assumes "sink_inv (s\<lparr>sys_cancelled := True\<rparr>)"
  shows "sink_inv (fail e s)"
  using assms by (simp add: sink_inv_def fail_def comp_def)

lemma sink_inv_forward_new:
  assumes inv: "sink_inv s" and i: "i < length (sys_workers s)"
    and w: "w_proc w = w_proc (sys_workers s ! i)" "w_pending w = w_pending (sys_workers s ! i)"
    and p: "effects p = effects (w_proc w) @ news"
    and ex: "\<not> sys_cancelled s \<Longrightarrow> w_phase w = WExited \<Longrightarrow> \<exists>xs. news = xs @ [Flush]"
  shows "sink_inv (forward_new i w p s)"
proof -
  let ?ps = "fold forward news (w_pending w, sys_sink s)"
  obtain extra where extra: "snd ?ps = sys_sink s @ extra" using forward_grows [of news "(w_pending w, sys_sink s)"] by auto
  have eq: "forward_new i w p s =
      (set_worker i (w\<lparr>w_proc := p, w_pending := fst ?ps\<rparr>) s)\<lparr>sys_sink := sys_sink s @ extra\<rparr>"
    using extra p by (simp add: forward_new_def Let_def split_def)
  have cnt: "mset (fst ?ps) + (mset (emitted_rows (sys_sink s)) + mset (emitted_rows extra)) =
      mset (w_pending w) + mset (emitted_rows (sys_sink s)) + mset (emitted_rows news)"
    using forward_counts [of news "(w_pending w, sys_sink s)"] extra by simp
  have "mset (emitted_rows extra) + mset (fst ?ps) = mset (w_pending w) + mset (emitted_rows news)"
    using cnt by (simp add: ac_simps)
  moreover have "sys_workers s ! i \<in> set (sys_workers s)" using i by simp
  then have "delivered (effects (w_proc w)) (w_pending w, sys_sink s)"
    using inv w unfolding sink_inv_def by auto
  then have "delivered (effects p) (fst ?ps, sys_sink s @ extra)"
    using forward_all_delivered [of "effects (w_proc w)" "(w_pending w, sys_sink s)" news] p extra
    by (metis prod.collapse)
  moreover have "fst ?ps = []" if "\<not> sys_cancelled s" "w_phase w = WExited"
    using ex [OF that] forward_flush_last by fastforce
  ultimately show ?thesis
    unfolding eq using inv i w p by (intro sink_inv_update) (auto simp: ac_simps)
qed

lemma flushed_extends: "\<exists>xs. effects (flushed_processor w) = effects (w_proc w) @ xs @ [Flush]"
proof (cases "w_suspend w")
  case True
  then show ?thesis by (simp add: flushed_processor_def)
next
  case False
  let ?p = "(w_proc w)\<lparr>effects := []\<rparr>"
  have "effects (final_flush (w_cfg w) (w_proc w)) = effects (w_proc w) @ effects (final_flush (w_cfg w) ?p)"
    using flush_with_history [of "w_cfg w" "effects (w_proc w)" zero_stats ?p] history_split [of "w_proc w"]
    by (metis with_history_sel(3))
  moreover obtain xs where "effects (final_flush (w_cfg w) ?p) = xs @ [Flush]"
    by (simp add: final_flush_def Let_def)
  ultimately show ?thesis using False by (simp add: flushed_processor_def)
qed

lemma worker_step_sink:
  assumes inv: "sink_inv s" and i: "i < length (sys_workers s)" and step: "worker_step i s = Some s'"
  shows "sink_inv s'"
  using step
proof (cases rule: worker_step_cases)
  case cancel
  then show ?thesis using inv i by (auto intro!: sink_inv_same)
next
  case empty
  then show ?thesis using inv i by (auto intro!: sink_inv_same)
next
  case (batch b bs)
  then show ?thesis using inv i by (auto intro!: sink_inv_same)
next
  case drain
  have "sys_workers s ! i \<in> set (sys_workers s)" using i by simp
  then have "delivered (effects (w_proc (sys_workers s ! i))) (w_pending (sys_workers s ! i), sys_sink s)"
    using inv unfolding sink_inv_def by blast
  then show ?thesis
    unfolding drain(2) using inv i
    by (intro sink_inv_update) (auto simp: drained_def publish_def delivered_def)
next
  case (stop m ms)
  then show ?thesis using inv i by (auto intro!: sink_inv_same)
next
  case (throw m ms e)
  let ?c = "s\<lparr>sys_cancelled := True\<rparr>"
  let ?p = "thrown_processor (w_cfg (sys_workers s ! i)) m (w_proc (sys_workers s ! i))"
  have "sink_inv (forward_new i ((sys_workers ?c ! i)\<lparr>w_phase := WExited\<rparr>) ?p ?c)"
    using inv i by (intro sink_inv_forward_new) (auto simp: sink_inv_def thrown_processor_def)
  then show ?thesis
    unfolding throw(5) by (intro sink_inv_fail) (simp add: forward_new_def set_worker_def Let_def split_def sink_inv_def)
next
  case (handle m ms p)
  have "\<not> is_stop m" using handle by (simp add: is_stop_def)
  then obtain it where "process_item (w_cfg (sys_workers s ! i)) it (w_proc (sys_workers s ! i)) = Inr p"
    using message_item [of m] handle(4) by metis
  then obtain news where "effects p = effects (w_proc (sys_workers s ! i)) @ news" using item_extends by blast
  then show ?thesis unfolding handle(5) using inv i by (intro sink_inv_forward_new) auto
next
  case abandon
  then show ?thesis using inv i by (auto intro!: sink_inv_same)
next
  case (flush s1)
  obtain xs where "effects (flushed_processor (sys_workers s ! i)) = effects (w_proc (sys_workers s ! i)) @ xs @ [Flush]"
    using flushed_extends by blast
  then have s1: "sink_inv s1" unfolding flush(3) using inv i by (intro sink_inv_forward_new) auto
  then show ?thesis
    unfolding flush(4) using i flush(3) by (intro sink_inv_same) (auto simp: publish_def)
qed

lemma router_step_sink:
  assumes inv: "sink_inv s" and acts: "actions_ok (length (sys_workers s)) (sys_router s)" and step: "router_step s = Some s'"
  shows "sink_inv s'"
  using step
proof (cases rule: router_step_cases)
  case (refused p b acts)
  then show ?thesis using inv by (simp add: sink_inv_def)
next
  case (pushed p b acts')
  then have "p < length (sys_workers s)" using acts by (simp add: actions_ok_def)
  then have "sink_inv (set_worker p ((sys_workers s ! p)\<lparr>w_queue := (w_queue (sys_workers s ! p))
              \<lparr>bq_items := bq_items (w_queue (sys_workers s ! p)) @ [b]\<rparr>\<rparr>) s)"
    using inv by (intro sink_inv_same) auto
  then show ?thesis unfolding pushed(4) by (simp add: sink_inv_def)
next
  case (closed p acts')
  then have "p < length (sys_workers s)" using acts by (simp add: actions_ok_def)
  then have "sink_inv (set_worker p ((sys_workers s ! p)\<lparr>w_queue := close_queue (w_queue (sys_workers s ! p))\<rparr>) s)"
    using inv by (intro sink_inv_same) auto
  then show ?thesis unfolding closed(2) by (simp add: sink_inv_def)
next
  case (thrown e acts')
  have "sink_inv (s\<lparr>sys_router := [], sys_cancelled := True\<rparr>)" using inv by (simp add: sink_inv_def)
  then show ?thesis unfolding thrown(2) by (rule sink_inv_fail)
qed

lemma reaches_sink:
  assumes "reaches s0 s" "system_inv M ws0 s0" "sink_inv s0"
  shows "sink_inv s"
  using assms
proof (induction rule: reaches.induct)
  case (reaches_step s0 s t s')
  then have inv: "system_inv M ws0 s" "sink_inv s" using reaches_inv by blast+
  show ?case
  proof (cases t)
    case RouterT
    then show ?thesis
      using reaches_step.hyps(2) router_step_sink [OF inv(2)] system_invD(1,2) [OF inv(1)] by (simp add: thread_step_def)
  next
    case (WorkerT i)
    then show ?thesis
      using reaches_step.hyps(2) worker_step_sink [OF inv(2), of i] by (simp add: thread_step_def split: if_splits)
  qed
qed simp

lemma initial_sink:
  assumes "\<forall>w \<in> set ws. fresh_worker w"
  shows "sink_inv (initial_system acts ws)"
proof -
  have "sum_list (map (\<lambda>w. mset (w_pending w)) ws) = {#}"
    "sum_list (map (\<lambda>w. mset (emitted_rows (effects (w_proc w)))) ws) = {#}"
    using assms by (induction ws) (auto simp: fresh_worker_def)
  then show ?thesis
    using assms by (auto simp: sink_inv_def initial_system_def fresh_worker_def delivered_def)
qed

section \<open>A partition never fails where the single engine does not\<close>

lemma process_window_total:
  assumes "allowed_lateness s = lateness cfg"
    and "wm < deadline (lateness cfg) w \<Longrightarrow>
      \<exists>q. pane_add (case pane_at s w (key r) of None \<Rightarrow> empty_pane | Some p \<Rightarrow> p) (val r) = Inr q"
  shows "\<exists>t. process_window cfg wm r w (s, d, l) = Inr t"
proof -
  have "\<exists>x. add_with_lateness s (key r) w (val r) wm = Inr x"
  proof (cases "wm < deadline (lateness cfg) w")
    case True
    then obtain q where "pane_add (case pane_at s w (key r) of None \<Rightarrow> empty_pane | Some p \<Rightarrow> p) (val r) = Inr q"
      using assms(2) by blast
    then have "add_value s (key r) w (val r) = Inr (put_pane s (key r) w q)"
      by (simp add: add_value_def panes_of_lookup)
    then show ?thesis using True assms(1) by (auto simp: add_with_lateness_def)
  qed (use assms(1) in \<open>auto simp: add_with_lateness_def\<close>)
  then obtain b t where "add_with_lateness s (key r) w (val r) wm = Inr (b, t)" by auto
  then show ?thesis by (auto simp: process_window_def Let_def)
qed

lemma fold_process_window_total:
  assumes "distinct ws" "kws_wf s" "allowed_lateness s = lateness cfg"
    and "\<And>w. w \<in> set ws \<Longrightarrow> wm < deadline (lateness cfg) w \<Longrightarrow>
      \<exists>q. pane_add (case pane_at s w (key r) of None \<Rightarrow> empty_pane | Some p \<Rightarrow> p) (val r) = Inr q"
  shows "\<exists>t. fold_res (process_window cfg wm r) ws (s, d, l) = Inr t"
  using assms
proof (induction ws arbitrary: s d l)
  case (Cons w ws)
  obtain s1 d1 l1 where 1: "process_window cfg wm r w (s, d, l) = Inr (s1, d1, l1)"
    using process_window_total [of s cfg wm w r d l] Cons.prems by (metis list.set_intros(1) prod_cases3)
  note A = process_window_cases [OF 1 Cons.prems(2,3)]
  have "pane_at s1 v (key r) = pane_at s v (key r)" if "v \<in> set ws" for v
    using A that Cons.prems(1) by auto
  then have "\<exists>t. fold_res (process_window cfg wm r) ws (s1, d1, l1) = Inr t"
    using Cons.prems A by (intro Cons.IH) auto
  then show ?case using 1 by simp
qed simp

lemma process_record_total:
  assumes inv: "processor_inv cfg p" and law: "lawful_assigner (assigner cfg) width"
    and ws: "assign_windows (assigner cfg) (event_time r) = Inr ws"
    and add: "\<And>w. w \<in> set ws \<Longrightarrow> watermark p < deadline (lateness cfg) w \<Longrightarrow>
      \<exists>q. pane_add (case pane_at (state p) w (key r) of None \<Rightarrow> empty_pane | Some p \<Rightarrow> p) (val r) = Inr q"
  shows "\<exists>p'. process_record cfg r p = Inr p'"
proof -
  obtain t where "fold_res (process_window cfg (watermark p) r) ws (state p, False, False) = Inr t"
    using fold_process_window_total [OF lawful_distinct [OF law ws] processor_invD(1,3) [OF inv], of "watermark p" r False False] add
    by blast
  then show ?thesis using ws by (cases t) (simp add: process_record_def)
qed

definition writes_ok :: "processor_config \<Rightarrow> bool" where
  "writes_ok cfg = (checkpoint_dir cfg = [] \<or> (\<forall>off wm s. checkpoint_write_ok cfg off wm s))"

text \<open>Configurations of the single engine and of a worker that differ only in checkpointing.\<close>

definition same_job :: "processor_config \<Rightarrow> processor_config \<Rightarrow> bool" where
  "same_job c1 c2 = (assigner c1 = assigner c2 \<and> lateness c1 = lateness c2)"

lemma new_processor_same: "same_job c1 c2 \<Longrightarrow> new_processor c1 = new_processor c2"
  by (simp add: same_job_def new_processor_def use_lateness_def)

lemma partition_total:
  assumes new: "new_processor c1 = Inr p0" and law: "lawful_assigner (assigner c1) width"
    and same: "same_job c1 c2" and ok: "writes_ok c2"
    and run: "run_items c1 its p0 = Inr p"
  shows "\<exists>v. run_items c2 (share n i its) p0 = Inr v"
  using run
proof (induction its arbitrary: p rule: rev_induct)
  case Nil
  then show ?case by (simp add: share_def run_items_def)
next
  case (snoc it its)
  obtain q where q: "run_items c1 its p0 = Inr q" "process_item c1 it q = Inr p"
    using snoc.prems by (auto simp: run_items_def fold_res_append)
  obtain v where v: "run_items c2 (share n i its) p0 = Inr v" using snoc.IH [OF q(1)] by blast
  have new2: "new_processor c2 = Inr p0" using new new_processor_same [OF same] by simp
  have law2: "lawful_assigner (assigner c2) width" using law same by (simp add: same_job_def)
  have inv: "processor_inv c1 q" "processor_inv c2 v"
    using run_items_refines [OF q(1) new_processor_inv(1) [OF new] law]
      run_items_refines [OF v new_processor_inv(1) [OF new2] law2] by blast+
  have app: "run_items c2 (share n i (its @ [it])) p0 = fold_res (process_item c2) (share n i [it]) v"
    using v by (simp add: run_items_def share_append fold_res_append)
  show ?case
  proof (cases it)
    case (Data r)
    show ?thesis
    proof (cases "goes_to n i it")
      case True
      then have i: "i = unat (partition_for_key (key r) n)" using Data by (simp add: goes_to_def)
      have "cell_of v (key r) w = cell_of q (key r) w" for w
        using processor_refines_cells(1) [OF new q(1) law, of "key r" w]
          processor_refines_cells(1) [OF new2 v law2, of "key r" w]
          cell_fold_share [of c2 "key r" w n its empty_cell] cell_step_config [of c1 c2] same i
        by (simp add: same_job_def)
      then have eq: "pane_at (state v) w (key r) = pane_at (state q) w (key r)" "watermark v = watermark q" for w
        by (simp_all add: cell_of_def)
      have rec: "process_record c1 r q = Inr p" using q(2) Data by (simp add: process_item_def)
      obtain ws where ws: "assign_windows (assigner c1) (event_time r) = Inr ws"
        using rec by (auto simp: process_record_def)
      have add: "\<exists>x. pane_add (case pane_at (state v) w (key r) of None \<Rightarrow> empty_pane | Some p \<Rightarrow> p) (val r) = Inr x"
        if "w \<in> set ws" "watermark v < deadline (lateness c2) w" for w
        using process_record_refines(8) [OF rec inv(1) law, of w] that ws eq same
        by (auto simp: assigned_def same_job_def)
      have "\<exists>p'. process_record c2 r v = Inr p'"
        using process_record_total [OF inv(2) law2 _ add] ws same by (simp add: same_job_def)
      then show ?thesis using app True Data by (simp add: share_def process_item_def)
    qed (use app v in \<open>simp add: share_def\<close>)
  next
    case (Control c)
    have "\<exists>p'. process_item c2 it v = Inr p'"
      using ok Control by (cases "ctype c") (auto simp: process_item_def process_control_def process_barrier_def writes_ok_def Let_def)
    then show ?thesis using app Control by (auto simp: share_def goes_to_def)
  qed
qed

section \<open>Building the workers\<close>

lemma build_workers_each:
  "build_workers pc a is = Inr ws \<Longrightarrow> length ws = length is \<and> (\<forall>j < length is. new_worker pc a (is ! j) = Inr (ws ! j))"
proof (induction "is" arbitrary: ws)
  case (Cons i js)
  then obtain w vs where w: "new_worker pc a i = Inr w" "build_workers pc a js = Inr vs" "ws = w # vs" by auto
  show ?case using Cons.IH [OF w(2)] w by (auto simp: nth_Cons split: nat.split)
qed simp

lemma new_worker_fresh:
  assumes "new_worker pc a i = Inr w"
  shows "fresh_worker w" "w_cfg w = worker_config pc a i" "new_processor (worker_config pc a i) = Inr (w_proc w)"
proof -
  obtain q p where qp: "new_queue (pc_queue_capacity pc) = Inr (q :: worker_message list bqueue)"
      "new_processor (worker_config pc a i) = Inr p"
      "w = \<lparr>w_cfg = worker_config pc a i, w_queue = q, w_proc = p, w_phase = WLoop, w_done = False,
            w_suspend = False, w_pending = [], w_counters = (zero_stats, wm_initial)\<rparr>"
    using assms by (auto simp: new_worker_def)
  have "bq_items q = [] \<and> \<not> bq_closed q" using qp(1) by (auto simp: new_queue_def split: if_splits)
  moreover have "effects p = []" using new_processor_shape [OF qp(2)] by simp
  ultimately show "fresh_worker w" using bq_wf_new [OF qp(1)] qp(3) by (simp add: fresh_worker_def)
  show "w_cfg w = worker_config pc a i" "new_processor (worker_config pc a i) = Inr (w_proc w)" using qp by simp_all
qed

lemma build_workers_fresh:
  assumes "build_workers pc a [0..<N] = Inr ws"
  shows "length ws = N" "\<forall>w \<in> set ws. fresh_worker w"
    "i < N \<Longrightarrow> w_cfg (ws ! i) = worker_config pc a i \<and> new_processor (worker_config pc a i) = Inr (w_proc (ws ! i))"
proof -
  note each = build_workers_each [OF assms]
  show len: "length ws = N" using each by simp
  have nw: "new_worker pc a i = Inr (ws ! i)" if "i < N" for i using each that by simp
  have "fresh_worker (ws ! i)" if "i < N" for i using new_worker_fresh(1) [OF nw [OF that]] .
  then show "\<forall>w \<in> set ws. fresh_worker w" using len by (auto simp: in_set_conv_nth)
  show "i < N \<Longrightarrow> w_cfg (ws ! i) = worker_config pc a i \<and> new_processor (worker_config pc a i) = Inr (w_proc (ws ! i))"
    using new_worker_fresh(2,3) [OF nw] by blast
qed

section \<open>Flush and merge\<close>

lemma fold_fire_counts:
  "records_processed (stats (fold fire_first ws p)) = records_processed (stats p)"
  "late_records_dropped (stats (fold fire_first ws p)) = late_records_dropped (stats p)"
  "records_processed (stats (fold fire_again ws p)) = records_processed (stats p)"
  "late_records_dropped (stats (fold fire_again ws p)) = late_records_dropped (stats p)"
  by (induction ws arbitrary: p)
     (simp_all add: fire_first_def fire_again_def fire_and_emit_def Let_def split_def)

lemma final_flush_keeps:
  "records_processed (stats (final_flush cfg p)) = records_processed (stats p)"
  "late_records_dropped (stats (final_flush cfg p)) = late_records_dropped (stats p)"
  "watermark (final_flush cfg p) = watermark p"
proof -
  let ?f = "\<lambda>w q. if \<not> is_fired (state q) w then fire_first w q else q"
  have f: "records_processed (stats (fold ?f ws q)) = records_processed (stats q) \<and>
      late_records_dropped (stats (fold ?f ws q)) = late_records_dropped (stats q) \<and>
      watermark (fold ?f ws q) = watermark q" for ws q
    by (induction ws arbitrary: q)
       (simp_all add: fire_first_def fire_and_emit_def Let_def split_def)
  have r: "records_processed (stats (refire_all p)) = records_processed (stats p) \<and>
      late_records_dropped (stats (refire_all p)) = late_records_dropped (stats p) \<and>
      watermark (refire_all p) = watermark p"
    by (simp add: refire_all_def Let_def fold_fire_counts fold_fire_watermark)
  show "records_processed (stats (final_flush cfg p)) = records_processed (stats p)"
    "late_records_dropped (stats (final_flush cfg p)) = late_records_dropped (stats p)"
    "watermark (final_flush cfg p) = watermark p"
    using f r by (simp_all add: final_flush_def Let_def fold_fire_counts fold_fire_watermark)
qed

lemma fold_merge:
  "records_processed (fst (fold merge_worker ws acc)) =
     records_processed (fst acc) + sum_list (map (\<lambda>w. records_processed (stats (w_proc w))) ws)"
  "late_records_dropped (fst (fold merge_worker ws acc)) =
     late_records_dropped (fst acc) + sum_list (map (\<lambda>w. late_records_dropped (stats (w_proc w))) ws)"
  by (induction ws arbitrary: acc) (simp_all add: merge_worker_def Let_def add.assoc)

lemma fold_merge_watermark:
  "\<forall>w \<in> set ws. watermark (w_proc w) = x \<Longrightarrow> snd (fold merge_worker ws acc) = (if ws = [] then snd acc else min (snd acc) x)"
  by (induction ws arbitrary: acc) (auto simp: merge_worker_def Let_def)

lemma Emit_in_rows: "Emit r \<in> set es \<longleftrightarrow> r \<in> set (emitted_rows es)"
  by (induction es) (auto simp: emitted_rows_Cons split: effect.splits)

section \<open>The partitioned engine equals the single-threaded engine\<close>

lemma finished_rows:
  assumes "system_inv M ws0 s" "sink_inv s" "finished s" "\<not> sys_cancelled s"
  shows "mset (emitted_rows (sys_sink s)) = sum_list (map (\<lambda>w. mset (emitted_rows (effects (w_proc w)))) (sys_workers s))"
proof -
  have "w_pending w = []" if "w \<in> set (sys_workers s)" for w
    using assms(2-4) that by (auto simp: sink_inv_def finished_def)
  moreover have "(\<And>w. w \<in> set ws \<Longrightarrow> w_pending w = []) \<Longrightarrow> sum_list (map (\<lambda>w. mset (w_pending w)) ws) = {#}" for ws
    by (induction ws) auto
  ultimately have "sum_list (map (\<lambda>w. mset (w_pending w)) (sys_workers s)) = {#}" by blast
  then show ?thesis using assms(2) by (simp add: sink_inv_def)
qed

text \<open>A complete run to the end of the input, as the theorems below assume it.\<close>

definition partitioned_run ::
    "partitioned_config \<Rightarrow> window_assigner \<Rightarrow> batch list \<Rightarrow> router_end \<Rightarrow> worker list \<Rightarrow> system \<Rightarrow> bool" where
  "partitioned_run pc a bs e ws s \<longleftrightarrow>
     build_workers pc a [0..<unat (effective_workers pc)] = Inr ws \<and>
     reaches (initial_system (router_program (effective_workers pc) bs e) ws) s"

lemma effective_workers_pos: "0 < effective_workers pc"
proof -
  have "(1 :: u32) \<le> max 1 (pc_num_workers pc)" by simp
  then show ?thesis by (simp add: effective_workers_def less_le_trans [of 0 1])
qed

lemma run_system_inv:
  assumes "partitioned_run pc a bs e ws s"
  shows "system_inv (worker_messages (effective_workers pc) bs e) ws s" "sink_inv s"
    "length ws = unat (effective_workers pc)"
proof -
  note b = build_workers_fresh [of pc a "unat (effective_workers pc)" ws]
  have ws: "length ws = unat (effective_workers pc)" "\<forall>w \<in> set ws. fresh_worker w"
    using assms b by (auto simp: partitioned_run_def)
  have i: "system_inv (worker_messages (effective_workers pc) bs e) ws
      (initial_system (router_program (effective_workers pc) bs e) ws)"
    by (rule initial_inv [OF effective_workers_pos ws])
  show "system_inv (worker_messages (effective_workers pc) bs e) ws s"
    using reaches_inv i assms by (auto simp: partitioned_run_def)
  show "sink_inv s" using reaches_sink [OF _ i initial_sink [OF ws(2)]] assms by (auto simp: partitioned_run_def)
  show "length ws = unat (effective_workers pc)" by (rule ws(1))
qed

definition single_config :: "partitioned_config \<Rightarrow> window_assigner \<Rightarrow> processor_config" where
  "single_config pc a = \<lparr>assigner = a, lateness = pc_lateness pc, checkpoint_dir = [],
     checkpoint_write_ok = (\<lambda>off wm s. True)\<rparr>"

lemma same_job_worker: "same_job (single_config pc a) (worker_config pc a i)"
  by (simp add: same_job_def single_config_def worker_config_def)

lemma partitions_never_fail:
  assumes run: "partitioned_run pc a bs EndFinal ws s" and law: "lawful_assigner a width"
    and single: "new_processor (single_config pc a) = Inr p0" "run_items (single_config pc a) (concat bs) p0 = Inr p"
    and wr: "\<forall>i. writes_ok (worker_config pc a i)"
  shows "\<not> sys_cancelled s" "partitions_ok (worker_messages (effective_workers pc) bs EndFinal) ws"
    and "i < unat (effective_workers pc) \<Longrightarrow>
      \<exists>v. run_items (worker_config pc a i) (share (effective_workers pc) i (concat bs)) p0 = Inr v \<and>
        fold_res (process_message (w_cfg (ws ! i))) (worker_messages (effective_workers pc) bs EndFinal i) (w_proc (ws ! i)) = Inr v"
proof -
  let ?n = "effective_workers pc" and ?sc = "single_config pc a"
  let ?M = "worker_messages ?n bs EndFinal"
  have bw: "build_workers pc a [0..<unat ?n] = Inr ws" using run by (simp add: partitioned_run_def)
  note ws = build_workers_fresh [OF bw]
  have la: "lawful_assigner (assigner ?sc) width" using law by (simp add: single_config_def)
  show each: "\<exists>v. run_items (worker_config pc a i) (share ?n i (concat bs)) p0 = Inr v \<and>
        fold_res (process_message (w_cfg (ws ! i))) (?M i) (w_proc (ws ! i)) = Inr v"
    if i: "i < unat ?n" for i
  proof -
    have p0: "w_proc (ws ! i) = p0" "w_cfg (ws ! i) = worker_config pc a i"
      using ws(3) [OF i] single(1) new_processor_same [OF same_job_worker, of pc a i] by auto
    obtain v where v: "run_items (worker_config pc a i) (share ?n i (concat bs)) p0 = Inr v"
      using partition_total [OF single(1) la same_job_worker _ single(2)] wr by blast
    have "?M i = map message_of (share ?n i (concat bs)) @ [MEndOfStream]"
      by (simp add: worker_messages_def worker_items_def end_items_def end_stop_def)
    then have "fold_res (process_message (w_cfg (ws ! i))) (?M i) (w_proc (ws ! i)) = Inr v"
      using v p0 by (simp add: fold_res_append run_messages process_message_def)
    then show ?thesis using v by blast
  qed
  show ok: "partitions_ok ?M ws" using each ws(1) unfolding partitions_ok_def by metis
  have "no_throw (router_program ?n bs EndFinal)" by (simp add: no_throw_def throw_in_program)
  then show "\<not> sys_cancelled s"
    using reaches_no_failure [OF _ initial_inv [OF effective_workers_pos ws(1,2)] _ _ ok] run
    by (simp add: partitioned_run_def initial_system_def)
qed

lemma worker_final_state:
  assumes run: "partitioned_run pc a bs EndFinal ws s" and fin: "finished s" and law: "lawful_assigner a width"
    and single: "new_processor (single_config pc a) = Inr p0" "run_items (single_config pc a) (concat bs) p0 = Inr p"
    and wr: "\<forall>i. writes_ok (worker_config pc a i)" and i: "i < unat (effective_workers pc)"
  shows "\<exists>v. run_items (worker_config pc a i) (share (effective_workers pc) i (concat bs)) p0 = Inr v \<and>
    w_proc (sys_workers s ! i) = final_flush (worker_config pc a i) v"
proof -
  note P = partitions_never_fail [OF run law single wr]
  note S = run_system_inv [OF run]
  have cfg: "w_cfg (ws ! i) = worker_config pc a i"
    using build_workers_fresh(3) [of pc a "unat (effective_workers pc)" ws i] run i by (simp add: partitioned_run_def)
  obtain v where v: "run_items (worker_config pc a i) (share (effective_workers pc) i (concat bs)) p0 = Inr v"
      "fold_res (process_message (w_cfg (ws ! i))) (worker_messages (effective_workers pc) bs EndFinal i) (w_proc (ws ! i)) = Inr v"
    using P(3) [OF i] by blast
  have "last (worker_messages (effective_workers pc) bs EndFinal i) = MEndOfStream"
    by (simp add: worker_messages_def end_stop_def)
  then show ?thesis
    using finished_workers [OF S(1) fin P(1), of i] v i S(3) cfg by auto
qed

lemma rows_of_cell: "rows_of k w (effects p) = c_rows (cell_of p k w)"
  by (simp add: cell_of_def)

lemma sink_rows_union:
  assumes "system_inv M ws0 s" "sink_inv s" "finished s" "\<not> sys_cancelled s"
  shows "rows_of k w (sys_sink s) = (\<Union>i < length ws0. rows_of k w (effects (w_proc (sys_workers s ! i))))"
proof -
  have "set_mset (sum_list (map (\<lambda>w. mset (f w)) xs)) = (\<Union>w \<in> set xs. set (f w))" for f :: "worker \<Rightarrow> window_result list" and xs
    by (induction xs) auto
  then have "set (emitted_rows (sys_sink s)) = (\<Union>w \<in> set (sys_workers s). set (emitted_rows (effects (w_proc w))))"
    using finished_rows [OF assms] by (metis set_mset_mset)
  also have "\<dots> = (\<Union>i < length ws0. set (emitted_rows (effects (w_proc (sys_workers s ! i)))))"
    using system_invD(1) [OF assms(1)] unfolding set_conv_nth by auto
  finally show ?thesis unfolding rows_of_def Emit_in_rows by auto
qed

text \<open>The rows of a key come from the worker that owns it, and are those of the single engine.\<close>

lemma share_owner:
  assumes law: "lawful_assigner a width"
    and single: "new_processor (single_config pc a) = Inr p0" "run_items (single_config pc a) its p0 = Inr p"
    and v: "\<And>i. i < unat (effective_workers pc) \<Longrightarrow> run_items (worker_config pc a i) (share (effective_workers pc) i its) p0 = Inr (v i)"
  shows "unat (partition_for_key k (effective_workers pc)) < unat (effective_workers pc)"
    "i = unat (partition_for_key k (effective_workers pc)) \<Longrightarrow>
       rows_of k w (effects (final_flush (worker_config pc a i) (v i))) = rows_of k w (effects (final_flush (single_config pc a) p))"
    "i < unat (effective_workers pc) \<Longrightarrow> i \<noteq> unat (partition_for_key k (effective_workers pc)) \<Longrightarrow>
       rows_of k w (effects (final_flush (worker_config pc a i) (v i))) = {}"
proof -
  let ?n = "effective_workers pc" and ?sc = "single_config pc a"
  let ?N = "unat ?n" and ?o = "unat (partition_for_key k (effective_workers pc))"
  let ?f = "\<lambda>i. final_flush (worker_config pc a i) (v i)"
  let ?rows = "\<lambda>i. rows_of k w (effects (?f i))"
  have la: "lawful_assigner (assigner ?sc) width" "lawful_assigner (assigner (worker_config pc a i)) width" for i
    using law by (simp_all add: single_config_def worker_config_def)
  show o: "?o < ?N" by (rule partition_in_range [OF effective_workers_pos])
  have cell: "cell_of (?f i) k w = cell_flush (fold (cell_step ?sc k w) (share ?n i its) empty_cell)" if i: "i < ?N" for i
  proof -
    have new: "new_processor (worker_config pc a i) = Inr p0"
      using single(1) new_processor_same [OF same_job_worker] by metis
    have "cell_step (worker_config pc a i) = cell_step ?sc"
      by (rule cell_step_config) (simp_all add: single_config_def worker_config_def)
    then show ?thesis using processor_refines_cells(2) [OF new v [OF i] la(2), of k w] by simp
  qed
  have "cell_of (?f ?o) k w = cell_of (final_flush ?sc p) k w"
    using cell [OF o] processor_refines_cells(2) [OF single(1,2) la(1), of k w]
      cell_fold_share [of ?sc k w ?n its empty_cell] by simp
  then show "?rows i = rows_of k w (effects (final_flush ?sc p))" if "i = ?o"
    using that by (simp only: rows_of_cell)
  show "?rows i = {}" if "i < ?N" "i \<noteq> ?o"
    using cell_fold_foreign [OF that(2), of empty_cell ?sc w its]
    by (simp add: rows_of_cell cell [OF that(1)] cell_flush_def empty_cell_def)
qed

lemma share_rows:
  assumes law: "lawful_assigner a width"
    and single: "new_processor (single_config pc a) = Inr p0" "run_items (single_config pc a) its p0 = Inr p"
    and v: "\<And>i. i < unat (effective_workers pc) \<Longrightarrow> run_items (worker_config pc a i) (share (effective_workers pc) i its) p0 = Inr (v i)"
  shows "(\<Union>i < unat (effective_workers pc). rows_of k w (effects (final_flush (worker_config pc a i) (v i)))) =
    rows_of k w (effects (final_flush (single_config pc a) p))"
proof -
  let ?N = "unat (effective_workers pc)" and ?o = "unat (partition_for_key k (effective_workers pc))"
  let ?rows = "\<lambda>i. rows_of k w (effects (final_flush (worker_config pc a i) (v i)))"
  note own = share_owner [OF law single v]
  have "(\<Union>i < ?N. ?rows i) = ?rows ?o"
  proof (rule set_eqI)
    fix x
    have "i = ?o" if "i < ?N" "x \<in> ?rows i" for i using own(3) [of i k w] that by auto
    then show "x \<in> (\<Union>i < ?N. ?rows i) \<longleftrightarrow> x \<in> ?rows ?o" using own(1) by blast
  qed
  then show ?thesis using own(2) by simp
qed

lemma partitioned_rows:
  assumes run: "partitioned_run pc a bs EndFinal ws s" and fin: "finished s" and law: "lawful_assigner a width"
    and single: "new_processor (single_config pc a) = Inr p0" "run_items (single_config pc a) (concat bs) p0 = Inr p"
    and wr: "\<forall>i. writes_ok (worker_config pc a i)"
  shows "rows_of k w (sys_sink s) = rows_of k w (effects (final_flush (single_config pc a) p))"
proof -
  let ?N = "unat (effective_workers pc)"
  note S = run_system_inv [OF run]
  have "\<forall>i < ?N. \<exists>v. run_items (worker_config pc a i) (share (effective_workers pc) i (concat bs)) p0 = Inr v \<and>
      w_proc (sys_workers s ! i) = final_flush (worker_config pc a i) v"
    using worker_final_state [OF run fin law single wr] by blast
  then obtain v where v: "\<And>i. i < ?N \<Longrightarrow> run_items (worker_config pc a i) (share (effective_workers pc) i (concat bs)) p0 = Inr (v i)"
      "\<And>i. i < ?N \<Longrightarrow> w_proc (sys_workers s ! i) = final_flush (worker_config pc a i) (v i)"
    by metis
  have "rows_of k w (sys_sink s) = (\<Union>i < ?N. rows_of k w (effects (w_proc (sys_workers s ! i))))"
    using sink_rows_union [OF S(1,2) fin partitions_never_fail(1) [OF run law single wr]] S(3) by simp
  also have "\<dots> = (\<Union>i < ?N. rows_of k w (effects (final_flush (worker_config pc a i) (v i))))" using v(2) by simp
  finally show ?thesis using share_rows [OF law single v(1)] by simp
qed

lemma sum_over_workers:
  assumes "length ws = N" "\<And>i. i < N \<Longrightarrow> f (ws ! i) = g i"
  shows "sum_list (map f ws) = (\<Sum>i<N. (g i :: u64))"
proof -
  have "map f ws = map (\<lambda>i. f (ws ! i)) [0..<N]"
    using assms(1) by (intro nth_equalityI) auto
  then have "sum_list (map f ws) = sum_list (map (\<lambda>i. f (ws ! i)) [0..<N])" by simp
  also have "\<dots> = (\<Sum>i<N. g i)"
    using assms(2) by (simp add: sum_list_distinct_conv_sum_set atLeast0LessThan)
  finally show ?thesis .
qed

lemma partitioned_counters:
  assumes run: "partitioned_run pc a bs EndFinal ws s" and fin: "finished s" and law: "lawful_assigner a width"
    and single: "new_processor (single_config pc a) = Inr p0" "run_items (single_config pc a) (concat bs) p0 = Inr p"
    and wr: "\<forall>i. writes_ok (worker_config pc a i)"
  shows "records_processed (ms_counters (merge_stats s)) = records_processed (stats p)"
    and "late_records_dropped (ms_counters (merge_stats s)) = late_records_dropped (stats p)"
    and "ms_output_watermark (merge_stats s) = min i64_max (watermark p)"
proof -
  let ?n = "effective_workers pc" and ?sc = "single_config pc a" and ?its = "concat bs"
  let ?N = "unat ?n" and ?w = "\<lambda>i. w_proc (sys_workers s ! i)"
  have la: "lawful_assigner (assigner ?sc) width" "lawful_assigner (assigner (worker_config pc a i)) width" for i
    using law by (simp_all add: single_config_def worker_config_def)
  have len: "length (sys_workers s) = ?N"
    using system_invD(1) [OF run_system_inv(1) [OF run]] run_system_inv(3) [OF run] by simp
  have z: "stats p0 = zero_stats" "watermark p0 = wm_initial" using new_processor_shape [OF single(1)] by simp_all
  have zm: "records_processed zero_stats = 0" "late_records_dropped zero_stats = 0" by (simp_all add: zero_stats_def)
  note C = run_items_counts [OF single(2) new_processor_inv(1) [OF single(1)] la(1)]
  have W: "watermark (?w i) = watermark p \<and> records_processed (stats (?w i)) = record_count (share ?n i ?its) \<and>
      late_records_dropped (stats (?w i)) = drop_count ?sc wm_initial (share ?n i ?its)" if i: "i < ?N" for i
  proof -
    obtain v where v: "run_items (worker_config pc a i) (share ?n i ?its) p0 = Inr v"
        "?w i = final_flush (worker_config pc a i) v"
      using worker_final_state [OF run fin law single wr i] by blast
    have new: "new_processor (worker_config pc a i) = Inr p0"
      using single(1) new_processor_same [OF same_job_worker] by metis
    have "drop_count (worker_config pc a i) wm_initial (share ?n i ?its) = drop_count ?sc wm_initial (share ?n i ?its)"
      by (rule drop_count_config) (simp_all add: single_config_def worker_config_def)
    then show ?thesis
      using run_items_counts [OF v(1) new_processor_inv(1) [OF new] la(2)] C z zm v(2)
        share_watermark [of ?n i ?its wm_initial] by (simp add: final_flush_keeps)
  qed
  have R: "sum_list (map (\<lambda>w. records_processed (stats (w_proc w))) (sys_workers s)) = record_count ?its"
    unfolding share_counts(1) [where n = ?n and its = ?its, OF effective_workers_pos, symmetric]
    by (rule sum_over_workers [OF len]) (simp add: W)
  have D: "sum_list (map (\<lambda>w. late_records_dropped (stats (w_proc w))) (sys_workers s)) = drop_count ?sc wm_initial ?its"
    unfolding share_counts(2) [where n = ?n and its = ?its and cfg = ?sc and wm = wm_initial, OF effective_workers_pos, symmetric]
    by (rule sum_over_workers [OF len]) (simp add: W)
  show "records_processed (ms_counters (merge_stats s)) = records_processed (stats p)"
    using C z zm R by (simp add: merge_stats_def split_def fold_merge Let_def)
  show "late_records_dropped (ms_counters (merge_stats s)) = late_records_dropped (stats p)"
    using C z zm D by (simp add: merge_stats_def split_def fold_merge Let_def)
  have "\<forall>w \<in> set (sys_workers s). watermark (w_proc w) = watermark p"
    using len W by (auto simp: in_set_conv_nth)
  moreover have "0 < ?N" using effective_workers_pos [of pc] by (simp add: unat_gt_0)
  then have "sys_workers s \<noteq> []" using len by auto
  ultimately show "ms_output_watermark (merge_stats s) = min i64_max (watermark p)"
    using fold_merge_watermark [of "sys_workers s" "watermark p" "(zero_stats, i64_max)"]
    by (simp add: merge_stats_def split_def Let_def)
qed

end
