(* ===== verification/Oracle_Model.thy ===== *)
theory Oracle_Model
  imports Keyed_Processor "HOL-Library.Product_Lexorder"
begin

text \<open>
  The differential oracle (\<open>src/src/oracle/oracle.{h,cpp}\<close>) and the comparison code of the
  differential harness (\<open>src/src/oracle/differential.cpp\<close>): \<open>DedupEngineResults\<close>,
  \<open>SortResults\<close>, \<open>CompareResults\<close> and \<open>CheckDropContract\<close>. The harness samples the
  agreement of the engine with the oracle on seeded streams; here the agreement is proved
  for every stream on which the engine does not throw.
\<close>

section \<open>The oracle\<close>

record oracle_config =
  oc_window_size :: duration
  oc_slide :: duration
  oc_lateness :: duration

record oracle_state =
  o_config :: oracle_config
  o_data :: "(string \<times> (window \<times> pane) list) list"
  o_drops :: u64
  o_watermark :: timestamp

definition new_oracle :: "oracle_config \<Rightarrow> oracle_state" where
  "new_oracle cfg =
     \<lparr>o_config = (if oc_slide cfg = 0 then cfg\<lparr>oc_slide := oc_window_size cfg\<rparr> else cfg),
      o_data = [], o_drops = 0, o_watermark = i64_min\<rparr>"

text \<open>The descending loop over window starts of \<open>Oracle::AssignWindows\<close>.\<close>

function oracle_loop ::
    "timestamp \<Rightarrow> duration \<Rightarrow> duration \<Rightarrow> timestamp \<Rightarrow> timestamp \<Rightarrow> window list" where
  "oracle_loop ms window_ms slide_ms last_start start =
     (if 0 < slide_ms \<and> start > last_start - window_ms \<and> start \<ge> 0
      then (if ms \<ge> start \<and> ms < start + window_ms then [Window start (start + window_ms)] else [])
           @ oracle_loop ms window_ms slide_ms last_start (start - slide_ms)
      else [])"
  by pat_completeness auto
termination
  by (relation "measure (\<lambda>(ms, win, slide, last, start). nat (start + 1))") auto

declare oracle_loop.simps [simp del]

definition oracle_assign :: "oracle_config \<Rightarrow> timestamp \<Rightarrow> window list" where
  "oracle_assign cfg ms =
     (let window_ms = oc_window_size cfg; slide_ms = oc_slide cfg in
      if slide_ms = window_ms then
        (let start_ms = (ms sdiv window_ms) * window_ms
         in [Window start_ms (start_ms + window_ms)])
      else
        (let last_start = (ms sdiv slide_ms) * slide_ms
         in oracle_loop ms window_ms slide_ms last_start last_start))"

definition oracle_dropped :: "oracle_state \<Rightarrow> window \<Rightarrow> bool" where
  "oracle_dropped o1 w =
     (o_watermark o1 > i64_min \<and> o_watermark o1 \<ge> wend w + oc_lateness (o_config o1))"

text \<open>\<open>data_[key][w]\<close>, a fresh \<open>PaneData\<close> where there is none.\<close>

definition oracle_panes :: "oracle_state \<Rightarrow> string \<Rightarrow> (window \<times> pane) list" where
  "oracle_panes o1 k = (case map_of (o_data o1) k of None \<Rightarrow> [] | Some m \<Rightarrow> m)"

definition oracle_bump :: "string \<Rightarrow> int \<Rightarrow> window \<Rightarrow> oracle_state \<Rightarrow> oracle_state" where
  "oracle_bump k v w o1 =
     (let p = (case map_of (oracle_panes o1 k) w of None \<Rightarrow> empty_pane | Some p \<Rightarrow> p);
          p' = \<lparr>pane_sum = pane_sum p + v, pane_count = pane_count p + 1\<rparr>
      in o1\<lparr>o_data := AList.update k (AList.update w p' (oracle_panes o1 k)) (o_data o1)\<rparr>)"

definition oracle_add_window ::
    "data_record \<Rightarrow> window \<Rightarrow> oracle_state \<times> bool \<Rightarrow> oracle_state \<times> bool" where
  "oracle_add_window r w acc =
     (case acc of (o1, any_dropped) \<Rightarrow>
        (if oracle_dropped o1 w then (o1, True)
         else (oracle_bump (key r) (val r) w o1, any_dropped)))"

definition oracle_add_record :: "data_record \<Rightarrow> oracle_state \<Rightarrow> oracle_state" where
  "oracle_add_record r o1 =
     (let (o2, any_dropped) =
        fold (oracle_add_window r) (oracle_assign (o_config o1) (event_time r)) (o1, False)
      in if any_dropped then o2\<lparr>o_drops := o_drops o2 + 1\<rparr> else o2)"

definition oracle_advance :: "timestamp \<Rightarrow> oracle_state \<Rightarrow> oracle_state" where
  "oracle_advance wm o1 = (if wm > o_watermark o1 then o1\<lparr>o_watermark := wm\<rparr> else o1)"

definition result_order :: "window_result \<Rightarrow> timestamp \<times> string" where
  "result_order r = (wstart (res_window r), res_key r)"

definition compute_results :: "oracle_state \<Rightarrow> window_result list" where
  "compute_results o1 =
     sort_key result_order
       (concat (map (\<lambda>(k, m). map (\<lambda>(w, p). window_row k w (pane_result p)) m) (o_data o1)))"

text \<open>Feeding the oracle the stream (\<open>RunOracleFor\<close>).\<close>

definition oracle_item :: "batch_item \<Rightarrow> oracle_state \<Rightarrow> oracle_state" where
  "oracle_item it o1 =
     (case it of
        Data r \<Rightarrow> oracle_add_record r o1
      | Control c \<Rightarrow> (if ctype c = KWatermark then oracle_advance (cwatermark c) o1 else o1))"

definition run_oracle :: "oracle_config \<Rightarrow> batch_item list \<Rightarrow> oracle_state" where
  "run_oracle cfg its = fold oracle_item its (new_oracle cfg)"

section \<open>The comparison code of the harness\<close>

definition memory_sink :: "effect list \<Rightarrow> window_result list" where
  "memory_sink es = List.map_filter (\<lambda>e. case e of Emit r \<Rightarrow> Some r | _ \<Rightarrow> None) es"

definition dedup_step ::
    "window_result \<Rightarrow> ((string \<times> window) \<times> window_result) list \<Rightarrow>
     ((string \<times> window) \<times> window_result) list" where
  "dedup_step r best =
     (let kw = (res_key r, res_window r) in
      case map_of best kw of
        None \<Rightarrow> AList.update kw r best
      | Some b \<Rightarrow> (if agg_count (res_result r) > agg_count (res_result b)
                   then AList.update kw r best else best))"

definition dedup_engine_results :: "window_result list \<Rightarrow> window_result list" where
  "dedup_engine_results rs = map snd (fold dedup_step rs [])"

definition sort_results :: "window_result list \<Rightarrow> window_result list" where
  "sort_results rs = sort_key result_order rs"

text \<open>\<open>CompareResults\<close> describes the first mismatch; \<open>None\<close> is the empty message, a match.\<close>

datatype mismatch =
    CountMismatch nat nat
  | KeyMismatch nat
  | WindowMismatch nat
  | SumMismatch nat
  | AggregateCountMismatch nat

fun compare_rows :: "nat \<Rightarrow> window_result list \<Rightarrow> window_result list \<Rightarrow> mismatch option" where
  "compare_rows i (e # es) (orow # os) =
     (if res_key e \<noteq> res_key orow then Some (KeyMismatch i)
      else if wstart (res_window e) \<noteq> wstart (res_window orow) \<or>
              wend (res_window e) \<noteq> wend (res_window orow) then Some (WindowMismatch i)
      else if agg_value (res_result e) \<noteq> agg_value (res_result orow) then Some (SumMismatch i)
      else if agg_count (res_result e) \<noteq> agg_count (res_result orow)
           then Some (AggregateCountMismatch i)
      else compare_rows (Suc i) es os)"
| "compare_rows i _ _ = None"

definition compare_results :: "window_result list \<Rightarrow> window_result list \<Rightarrow> mismatch option" where
  "compare_results engine expected =
     (if length engine \<noteq> length expected then Some (CountMismatch (length engine) (length expected))
      else compare_rows 0 engine expected)"

text \<open>The message of a violation carries the two counts; \<open>None\<close> is the empty message.\<close>

definition check_drop_contract :: "u64 \<Rightarrow> u64 \<Rightarrow> (u64 \<times> u64) option" where
  "check_drop_contract engine expected = (if engine = expected then None else Some (engine, expected))"

section \<open>The two assigners agree\<close>

lemma set_oracle_loop:
  assumes "0 < slide"
  shows "set (oracle_loop ms win slide lst start) =
    {Window s (s + win) |s. (s \<le> start \<and> slide dvd (start - s)) \<and> lst - win < s \<and> 0 \<le> s \<and>
       s \<le> ms \<and> ms < s + win}"
  using assms
proof (induction ms win slide lst start rule: oracle_loop.induct)
  case (1 ms win slide lst start)
  show ?case
  proof (cases "lst - win < start \<and> 0 \<le> start")
    case False
    then show ?thesis by (subst oracle_loop.simps) auto
  next
    case True
    have split: "(s \<le> start \<and> slide dvd (start - s)) =
        (s = start \<or> (s \<le> start - slide \<and> slide dvd (start - slide - s)))" for s
    proof -
      have "s \<le> start - slide" if "s \<le> start" "slide dvd (start - s)" "s \<noteq> start"
        using that zdvd_imp_le [of slide "start - s"] by auto
      moreover have "(slide dvd (start - slide - s)) = (slide dvd (start - s))"
        using dvd_diff_left_iff [of slide slide "start - s"] by (simp add: algebra_simps)
      ultimately show ?thesis using "1.prems" by auto
    qed
    have "set (oracle_loop ms win slide lst start) =
        {Window s (s + win) |s. s = start \<and> lst - win < s \<and> 0 \<le> s \<and> s \<le> ms \<and> ms < s + win}
        \<union> set (oracle_loop ms win slide lst (start - slide))"
      using True "1.prems" by (subst oracle_loop.simps) auto
    also have "\<dots> = {Window s (s + win) |s. (s \<le> start \<and> slide dvd (start - s)) \<and> lst - win < s \<and>
        0 \<le> s \<and> s \<le> ms \<and> ms < s + win}"
      using "1.IH" True "1.prems" unfolding split by blast
    finally show ?thesis .
  qed
qed

lemma distinct_oracle_loop: "0 < slide \<Longrightarrow> distinct (oracle_loop ms win slide lst start)"
proof (induction ms win slide lst start rule: oracle_loop.induct)
  case (1 ms win slide lst start)
  have "Window start (start + win) \<notin> set (oracle_loop ms win slide lst (start - slide))"
    using "1.prems" by (auto simp: set_oracle_loop)
  with 1 show ?case by (subst oracle_loop.simps) auto
qed

lemma oracle_assign_aligned:
  assumes "0 < oc_window_size cfg" "0 < oc_slide cfg" "0 \<le> ms"
  shows "set (oracle_assign cfg ms) = aligned_windows (oc_window_size cfg) (oc_slide cfg) ms"
    and "distinct (oracle_assign cfg ms)"
proof -
  let ?win = "oc_window_size cfg" and ?slide = "oc_slide cfg"
  show "distinct (oracle_assign cfg ms)"
    using assms by (auto simp: oracle_assign_def Let_def distinct_oracle_loop)
  show "set (oracle_assign cfg ms) = aligned_windows ?win ?slide ms"
  proof (cases "?slide = ?win")
    case True
    then show ?thesis
      using assms by (simp add: oracle_assign_def Let_def tumbling_window_aligned)
  next
    case False
    let ?last = "ms div ?slide * ?slide"
    have last: "?last \<le> ms" "ms < ?last + ?slide"
      using assms pos_mod_bound [of ?slide ms] pos_mod_sign [of ?slide ms]
      by (simp_all add: minus_mod_eq_div_mult [symmetric])
    have mult: "(s \<le> ?last \<and> ?slide dvd (?last - s)) = (?slide dvd s)" if "s \<le> ms" for s
    proof -
      have "(?slide dvd (?last - s)) = (?slide dvd s)"
        using dvd_diff_right_iff [of ?slide ?last s] by simp
      moreover have "s \<le> ?last" if "?slide dvd s"
      proof -
        from that obtain j where j: "s = ?slide * j" by blast
        have "s < (ms div ?slide + 1) * ?slide" using \<open>s \<le> ms\<close> last(2) by (simp add: algebra_simps)
        then have "j \<le> ms div ?slide" using j assms(2) by (simp add: mult.commute)
        then show ?thesis using j assms(2) by (simp add: mult.commute)
      qed
      ultimately show ?thesis by blast
    qed
    have eq: "((s \<le> ?last \<and> ?slide dvd (?last - s)) \<and> ?last - ?win < s \<and> 0 \<le> s \<and> s \<le> ms \<and>
        ms < s + ?win) = (0 \<le> s \<and> ?slide dvd s \<and> s \<le> ms \<and> ms < s + ?win)" for s
      using mult [of s] last(1) by linarith
    then show ?thesis
      using False assms
      by (simp only: oracle_assign_def Let_def set_oracle_loop aligned_windows_def sdiv_nonneg
          less_imp_le if_False eq)
  qed
qed

section \<open>The oracle's cells\<close>

definition o_cell :: "oracle_state \<Rightarrow> string \<Rightarrow> window \<Rightarrow> pane option" where
  "o_cell o1 k w = map_of (oracle_panes o1 k) w"

lemma o_cell_bump:
  "o_cell (oracle_bump k v w o1) k' w' =
     (if k' = k \<and> w' = w then Some (grow (o_cell o1 k w) v) else o_cell o1 k' w')"
  by (auto simp: o_cell_def oracle_bump_def oracle_panes_def Let_def update_conv' grow_def
      empty_pane_def split: option.split)

lemma oracle_bump_fields [simp]:
  "o_config (oracle_bump k v w o1) = o_config o1" "o_drops (oracle_bump k v w o1) = o_drops o1"
  "o_watermark (oracle_bump k v w o1) = o_watermark o1"
  by (simp_all add: oracle_bump_def Let_def)

lemma fold_oracle_add:
  assumes "distinct ws" "fold (oracle_add_window r) ws (o1, d) = (o2, d')"
  shows "o_config o2 = o_config o1 \<and> o_watermark o2 = o_watermark o1 \<and> o_drops o2 = o_drops o1 \<and>
    d' = (d \<or> (\<exists>w \<in> set ws. oracle_dropped o1 w)) \<and>
    (\<forall>k w. o_cell o2 k w = (if w \<in> set ws \<and> key r = k \<and> \<not> oracle_dropped o1 w
       then Some (grow (o_cell o1 k w) (val r)) else o_cell o1 k w))"
  using assms
proof (induction ws arbitrary: o1 d)
  case (Cons w ws)
  show ?case
  proof (cases "oracle_dropped o1 w")
    case True
    then show ?thesis
      using Cons.IH [of o1 True] Cons.prems by (auto simp: oracle_add_window_def)
  next
    case False
    let ?b = "oracle_bump (key r) (val r) w o1"
    have "oracle_dropped ?b v = oracle_dropped o1 v" for v by (simp add: oracle_dropped_def)
    then show ?thesis
      using Cons.IH [of ?b d] Cons.prems False
      by (auto simp: oracle_add_window_def o_cell_bump)
  qed
qed simp

section \<open>Engine and oracle agree\<close>

text \<open>
  The oracle is configured as the engine: the same windows for every event time, the same
  lateness. The horizon condition excludes streams on which \<open>w.end + allowed_lateness\<close>
  overflows in the oracle, whose arithmetic does not saturate.
\<close>

definition oracle_matches :: "processor_config \<Rightarrow> oracle_config \<Rightarrow> bool" where
  "oracle_matches cfg ocfg \<longleftrightarrow>
     oc_lateness ocfg = lateness cfg \<and>
     (\<forall>t ws. assign_windows (assigner cfg) t = Inr ws \<longrightarrow>
        set (oracle_assign (o_config (new_oracle ocfg)) t) = set ws \<and>
        distinct (oracle_assign (o_config (new_oracle ocfg)) t))"

definition horizon_ok :: "processor_config \<Rightarrow> batch_item list \<Rightarrow> bool" where
  "horizon_ok cfg its \<longleftrightarrow>
     (\<forall>r w. Data r \<in> set its \<longrightarrow> assigned cfg (event_time r) w \<longrightarrow> wend w + lateness cfg \<le> i64_max)"

text \<open>
  While the window is open the live pane is the oracle's; once it is closed the oracle's
  pane has been emitted. Every emitted row is the oracle's pane or has a smaller count.
\<close>

definition cell_agrees :: "duration \<Rightarrow> window \<Rightarrow> cell \<Rightarrow> pane option \<Rightarrow> bool" where
  "cell_agrees l w c oc \<longleftrightarrow>
     (if c_wm c < deadline l w then c_pane c = oc
      else c_pane c = None \<and> set_option oc \<subseteq> c_rows c) \<and>
     (\<forall>q \<in> c_rows c. \<exists>p. oc = Some p \<and> (q = p \<or> unat (pane_count q) < unat (pane_count p)))"

definition agrees :: "processor_config \<Rightarrow> duration \<Rightarrow> processor \<Rightarrow> oracle_state \<Rightarrow> bool" where
  "agrees cfg width p o1 \<longleftrightarrow>
     processor_inv cfg p \<and> o_watermark o1 = watermark p \<and>
     oc_lateness (o_config o1) = lateness cfg \<and>
     o_drops o1 = late_records_dropped (stats p) \<and>
     (\<forall>k w. (o_cell o1 k w \<noteq> None \<longrightarrow> wend w \<le> i64_max \<and> wstart w + width = wend w) \<and>
            cell_agrees (lateness cfg) w (cell_of p k w) (o_cell o1 k w))"

lemma cell_agrees_grow:
  assumes "cell_agrees l w c oc" "c_wm c < deadline l w"
    and "pane_add (case oc of None \<Rightarrow> empty_pane | Some q \<Rightarrow> q) v = Inr (grow oc v)"
  shows "cell_agrees l w (c\<lparr>c_pane := Some (grow (c_pane c) v)\<rparr>) (Some (grow oc v))"
proof -
  have same: "c_pane c = oc" using assms(1,2) by (simp add: cell_agrees_def)
  have "unat (pane_count q) < unat (pane_count (grow oc v))" if "q \<in> c_rows c" for q
  proof -
    have "\<exists>p. oc = Some p \<and> (q = p \<or> unat (pane_count q) < unat (pane_count p))"
      using assms(1) that unfolding cell_agrees_def by blast
    then obtain p where p: "oc = Some p" "q = p \<or> unat (pane_count q) < unat (pane_count p)"
      by blast
    then have "unat (pane_count (grow oc v)) = unat (pane_count p) + 1"
      using pane_add_exact(2) assms(3) by auto
    with p show ?thesis by auto
  qed
  then show ?thesis using assms(2) same by (auto simp: cell_agrees_def)
qed

lemma cell_agrees_watermark:
  assumes "cell_agrees (lateness cfg) w c oc" "0 \<le> lateness cfg"
    and "oc \<noteq> None \<Longrightarrow> wend w \<le> i64_max"
  shows "cell_agrees (lateness cfg) w (cell_watermark cfg w wm c) oc"
proof (cases "wm > c_wm c")
  case True
  have "wend w \<le> wm" if "deadline (lateness cfg) w \<le> wm" "oc = Some p" for p
    using that assms(3) deadline_ge_end [OF assms(2), of w] by fastforce
  then show ?thesis
    using True assms(1)
    by (cases oc) (auto simp: cell_agrees_def cell_watermark_def split: if_splits)
qed (simp add: assms(1) cell_watermark_def)

lemma oracle_dropped_iff:
  assumes "agrees cfg width p o1" "lawful_assigner (assigner cfg) width"
    and "assign_windows (assigner cfg) t = Inr ws" "w \<in> set ws" "wend w + lateness cfg \<le> i64_max"
  shows "oracle_dropped o1 w = (deadline (lateness cfg) w \<le> watermark p)"
proof -
  have "0 \<le> lateness cfg" using assms(1) by (simp add: agrees_def processor_inv_def)
  then have "i64_min < wend w + lateness cfg"
    using lawful_window(1-3) [OF assms(2-4)] i64_min_neg by linarith
  then show ?thesis
    using assms(1,5) by (auto simp: oracle_dropped_def agrees_def deadline_def)
qed

lemma agrees_record:
  assumes ag: "agrees cfg width p o1" and m: "oracle_matches cfg ocfg"
    and oc: "o_config o1 = o_config (new_oracle ocfg)"
    and law: "lawful_assigner (assigner cfg) width"
    and h: "\<And>w. assigned cfg (event_time r) w \<Longrightarrow> wend w + lateness cfg \<le> i64_max"
    and step: "process_record cfg r p = Inr p'"
  shows "agrees cfg width p' (oracle_add_record r o1) \<and>
    o_config (oracle_add_record r o1) = o_config o1"
proof -
  have inv: "processor_inv cfg p" using ag by (simp add: agrees_def)
  obtain ws where ws: "assign_windows (assigner cfg) (event_time r) = Inr ws"
    using step by (auto simp: process_record_def)
  have asg: "assigned cfg (event_time r) w = (w \<in> set ws)" for w by (simp add: assigned_def ws)
  let ?vs = "oracle_assign (o_config o1) (event_time r)"
  have vs: "set ?vs = set ws" "distinct ?vs"
    using m ws unfolding oracle_matches_def oc by blast+
  obtain o2 d where f: "fold (oracle_add_window r) ?vs (o1, False) = (o2, d)"
    by (cases "fold (oracle_add_window r) ?vs (o1, False)")
  note F = fold_oracle_add [OF vs(2) f]
  have drop: "oracle_dropped o1 w = (deadline (lateness cfg) w \<le> watermark p)" if "w \<in> set ws" for w
    using oracle_dropped_iff [OF ag law ws that] h asg that by blast
  let ?o = "oracle_add_record r o1"
  have o: "?o = (if d then o2\<lparr>o_drops := o_drops o2 + 1\<rparr> else o2)"
    by (simp add: oracle_add_record_def f)
  have cellf: "o_cell ?o k w = o_cell o2 k w" for k w
    by (simp add: o o_cell_def oracle_panes_def)
  note R = process_record_refines [OF step inv law]
  have lat: "oc_lateness (o_config o1) = lateness cfg" using ag by (simp add: agrees_def)
  have "cell_agrees (lateness cfg) w (cell_of p' k w) (o_cell ?o k w) \<and>
    (o_cell ?o k w \<noteq> None \<longrightarrow> wend w \<le> i64_max \<and> wstart w + width = wend w)" for k w
  proof (cases "key r = k \<and> w \<in> set ws \<and> watermark p < deadline (lateness cfg) w")
    case True
    have c: "cell_agrees (lateness cfg) w (cell_of p k w) (o_cell o1 k w)" using ag by (simp add: agrees_def)
    have wm: "c_wm (cell_of p k w) < deadline (lateness cfg) w" using True by (simp add: cell_of_def)
    have same: "pane_at (state p) w k = o_cell o1 k w"
      using c wm by (simp add: cell_agrees_def cell_of_def)
    have "pane_add (case o_cell o1 k w of None \<Rightarrow> empty_pane | Some q \<Rightarrow> q) (val r) =
        Inr (grow (o_cell o1 k w) (val r))"
      using R(8) [of w] True asg same by auto
    from cell_agrees_grow [OF c wm this] show ?thesis
      using True R(2) [of k w] F drop lawful_window(4,5) [OF law ws, of w]
      by (auto simp: cellf vs(1) cell_record_def asg cell_of_def)
  next
    case False
    then have "cell_of p' k w = cell_of p k w" "o_cell ?o k w = o_cell o1 k w"
      using R(2) [of k w] F drop by (auto simp: cellf vs(1) cell_record_def asg cell_of_def)
    then show ?thesis using ag by (simp add: agrees_def)
  qed
  moreover have "o_drops ?o = late_records_dropped (stats p')"
  proof -
    have "d = (\<exists>w \<in> set ws. deadline (lateness cfg) w \<le> watermark p)"
      using F drop by (auto simp: vs(1))
    then show ?thesis using R(5) [OF ws] F ag by (simp add: o agrees_def)
  qed
  ultimately show ?thesis
    using R(1,4) F ag by (auto simp: agrees_def o)
qed

lemma agrees_item:
  assumes ag: "agrees cfg width p o1" and m: "oracle_matches cfg ocfg"
    and oc: "o_config o1 = o_config (new_oracle ocfg)"
    and law: "lawful_assigner (assigner cfg) width" and h: "horizon_ok cfg [it]"
    and step: "process_item cfg it p = Inr p'"
  shows "agrees cfg width p' (oracle_item it o1) \<and> o_config (oracle_item it o1) = o_config o1"
proof (cases it)
  case (Data r)
  then show ?thesis
    using agrees_record [OF ag m oc law _ ] h step
    by (simp add: process_item_def oracle_item_def horizon_ok_def)
next
  case (Control c)
  have inv: "processor_inv cfg p" using ag by (simp add: agrees_def)
  note C = process_item_counts [OF step inv law]
  have cells: "cell_agrees (lateness cfg) w (cell_of p' k w) (o_cell o1 k w)" for k w
    using process_item_refines [OF step inv law, of k w] ag processor_invD(2) [OF inv]
      cell_agrees_watermark [of cfg w "cell_of p k w" "o_cell o1 k w" "cwatermark c"]
    by (cases "ctype c") (auto simp: Control cell_step_def agrees_def)
  have "o_cell (oracle_advance (cwatermark c) o1) = o_cell o1"
    by (simp add: oracle_advance_def o_cell_def oracle_panes_def fun_eq_iff)
  with cells show ?thesis
    using Control C process_item_refines [OF step inv law] ag
    by (auto simp: agrees_def oracle_item_def oracle_advance_def stream_watermark_def)
qed

lemma agrees_run:
  assumes "run_items cfg its p = Inr p'" "agrees cfg width p o1" "oracle_matches cfg ocfg"
    and "o_config o1 = o_config (new_oracle ocfg)"
    and "lawful_assigner (assigner cfg) width" "horizon_ok cfg its"
  shows "agrees cfg width p' (fold oracle_item its o1)"
  using assms(1,2,4,6)
proof (induction its arbitrary: p o1)
  case (Cons it its)
  then obtain q where q: "process_item cfg it p = Inr q" "run_items cfg its q = Inr p'" by auto
  have "horizon_ok cfg [it]" "horizon_ok cfg its" using Cons.prems(4) by (auto simp: horizon_ok_def)
  then show ?case
    using agrees_item [OF Cons.prems(2) assms(3) Cons.prems(3) assms(5) _ q(1)] Cons.IH [OF q(2)]
      Cons.prems(3) by simp
qed simp

lemma agrees_new:
  assumes "new_processor cfg = Inr p" "oracle_matches cfg ocfg"
  shows "agrees cfg width p (new_oracle ocfg)"
proof -
  have "watermark p = wm_initial" "late_records_dropped (stats p) = 0"
    using assms(1) by (auto simp: new_processor_def zero_stats_def split: if_splits)
  then show ?thesis
    using new_processor_inv [OF assms(1)] assms(2)
    by (auto simp: agrees_def new_oracle_def wm_initial_def o_cell_def oracle_panes_def
        cell_agrees_def empty_cell_def oracle_matches_def)
qed

section \<open>Deduplication\<close>

lemma set_memory_sink: "r \<in> set (memory_sink es) \<longleftrightarrow> Emit r \<in> set es"
  by (induction es) (auto simp: memory_sink_def List.map_filter_simps split: effect.split)

lemma pane_of_result: "\<exists>p. a = pane_result p"
  by (rule exI [of _ "\<lparr>pane_sum = agg_value a, pane_count = agg_count a\<rparr>"]) (simp add: pane_result_def)

lemma dedup_step_wf: "um_wf b \<Longrightarrow> um_wf (dedup_step r b)"
  by (auto simp: dedup_step_def Let_def inv_intros split: option.split)

text \<open>The row kept for a key and window: one of its rows, and none has a larger count.\<close>

lemma fold_dedup:
  "um_wf b \<Longrightarrow> (\<And>kw r. map_of b kw = Some r \<Longrightarrow> (res_key r, res_window r) = kw) \<Longrightarrow>
   um_wf (fold dedup_step rs b) \<and>
   (\<forall>kw r. map_of (fold dedup_step rs b) kw = Some r \<longrightarrow>
      (res_key r, res_window r) = kw \<and> (r \<in> set rs \<or> map_of b kw = Some r) \<and>
      (\<forall>r'. (r' \<in> set rs \<and> (res_key r', res_window r') = kw) \<or> map_of b kw = Some r' \<longrightarrow>
         agg_count (res_result r') \<le> agg_count (res_result r))) \<and>
   (\<forall>r' \<in> set rs. map_of (fold dedup_step rs b) (res_key r', res_window r') \<noteq> None) \<and>
   (\<forall>kw. map_of b kw \<noteq> None \<longrightarrow> map_of (fold dedup_step rs b) kw \<noteq> None)"
proof (induction rs arbitrary: b)
  case (Cons r rs)
  let ?b = "dedup_step r b"
  let ?kw = "(res_key r, res_window r)"
  have look: "map_of ?b kw = (if kw = ?kw then
      (case map_of b ?kw of None \<Rightarrow> Some r
        | Some r0 \<Rightarrow> if agg_count (res_result r) > agg_count (res_result r0) then Some r else Some r0)
      else map_of b kw)" for kw
    by (auto simp: dedup_step_def Let_def update_conv' split: option.split)
  have keys: "(res_key r', res_window r') = kw" if "map_of ?b kw = Some r'" for kw r'
    using that Cons.prems(2) by (auto simp: look split: if_splits option.splits)
  note IH = Cons.IH [OF dedup_step_wf [OF Cons.prems(1)] keys]
  let ?f = "fold dedup_step rs ?b"
  have step: "map_of ?b kw \<noteq> None" if "kw = ?kw \<or> map_of b kw \<noteq> None" for kw
    using that by (auto simp: look split: option.split)
  have bound: "agg_count (res_result r') \<le> agg_count (res_result r2)"
    if "map_of ?f kw = Some r2" "(r' \<in> set (r # rs) \<and> (res_key r', res_window r') = kw) \<or> map_of b kw = Some r'"
    for kw r2 r'
  proof (cases "r' \<in> set rs \<and> (res_key r', res_window r') = kw")
    case True
    then show ?thesis using IH that(1) by blast
  next
    case False
    then have "kw = ?kw \<and> r' = r \<or> map_of b kw = Some r'" using that(2) by auto
    then obtain r1 where "map_of ?b kw = Some r1" "agg_count (res_result r') \<le> agg_count (res_result r1)"
      using look [of kw] by (auto split: option.splits if_splits)
    moreover have "agg_count (res_result r1) \<le> agg_count (res_result r2)"
      using IH that(1) calculation(1) by blast
    ultimately show ?thesis by (rule_tac order_trans)
  qed
  have origin: "r2 \<in> set (r # rs) \<or> map_of b kw = Some r2" if "map_of ?f kw = Some r2" for kw r2
  proof -
    have "r2 \<in> set rs \<or> map_of ?b kw = Some r2" using IH that by blast
    then show ?thesis by (auto simp: look split: if_splits option.splits)
  qed
  show ?case
    using IH bound origin step by simp
qed auto

lemma dedup_keeps:
  assumes "window_row k w (pane_result p) \<in> set rs"
    and "\<And>q. window_row k w (pane_result q) \<in> set rs \<Longrightarrow> q = p \<or> unat (pane_count q) < unat (pane_count p)"
  shows "map_of (fold dedup_step rs []) (k, w) = Some (window_row k w (pane_result p))"
proof -
  have D: "um_wf (fold dedup_step rs []) \<and>
     (\<forall>kw r. map_of (fold dedup_step rs []) kw = Some r \<longrightarrow>
      (res_key r, res_window r) = kw \<and> r \<in> set rs \<and>
      (\<forall>r'. r' \<in> set rs \<and> (res_key r', res_window r') = kw \<longrightarrow>
         agg_count (res_result r') \<le> agg_count (res_result r))) \<and>
     (\<forall>r' \<in> set rs. map_of (fold dedup_step rs []) (res_key r', res_window r') \<noteq> None)"
    using fold_dedup [of "[]" rs] by simp
  then obtain r where r: "map_of (fold dedup_step rs []) (k, w) = Some r"
    using assms(1) by fastforce
  obtain q where q: "res_result r = pane_result q" using pane_of_result by blast
  have kw: "res_key r = k" "res_window r = w" and "r \<in> set rs" using D r by auto
  then have rq: "r = window_row k w (pane_result q)" using q by (metis window_row_eta)
  have "pane_count p \<le> pane_count q" using D r assms(1) q by fastforce
  then have "q = p" using assms(2) [of q] rq \<open>r \<in> set rs\<close> by (auto simp: word_le_nat_alt)
  with r rq show ?thesis by simp
qed

section \<open>The comparison succeeds\<close>

definition oracle_wf :: "oracle_state \<Rightarrow> bool" where
  "oracle_wf o1 \<longleftrightarrow> um_wf (o_data o1) \<and> (\<forall>(k, m) \<in> set (o_data o1). um_wf m)"

lemma oracle_panes_wf: "oracle_wf o1 \<Longrightarrow> um_wf (oracle_panes o1 k)"
  by (auto simp: oracle_wf_def oracle_panes_def split: option.split dest: map_of_SomeD)

lemma set_alist_update: "set (AList.update k v m) \<subseteq> insert (k, v) (set m)"
  by (induction m) auto

lemma oracle_wf_bump: "oracle_wf o1 \<Longrightarrow> oracle_wf (oracle_bump k v w o1)"
  using oracle_panes_wf [of o1 k] set_alist_update
  by (fastforce simp: oracle_wf_def oracle_bump_def Let_def inv_intros)

lemma oracle_wf_item: "oracle_wf o1 \<Longrightarrow> oracle_wf (oracle_item it o1)"
proof -
  assume wf: "oracle_wf o1"
  have "oracle_wf (fst (fold (oracle_add_window r) ws (o1, d)))" for r ws d
    using wf
    by (induction ws arbitrary: o1 d) (auto simp: oracle_add_window_def oracle_wf_bump)
  then have "oracle_wf (oracle_add_record r o1)" for r
    by (simp add: oracle_add_record_def split_def Let_def) (simp add: oracle_wf_def)
  then show ?thesis
    using wf by (auto simp: oracle_item_def oracle_advance_def oracle_wf_def split: batch_item.split)
qed

lemma oracle_wf_run: "oracle_wf (run_oracle ocfg its)"
proof -
  have "oracle_wf o1 \<Longrightarrow> oracle_wf (fold oracle_item its o1)" for o1
    by (induction its arbitrary: o1) (auto simp: oracle_wf_item)
  moreover have "oracle_wf (new_oracle ocfg)" by (simp add: oracle_wf_def new_oracle_def)
  ultimately show ?thesis by (simp add: run_oracle_def)
qed

definition oracle_rows :: "oracle_state \<Rightarrow> window_result list" where
  "oracle_rows o1 =
     concat (map (\<lambda>(k, m). map (\<lambda>(w, p). window_row k w (pane_result p)) m) (o_data o1))"

lemma oracle_rows_lookup:
  assumes "oracle_wf o1"
  shows "set (oracle_rows o1) = {window_row k w (pane_result p) |k w p. o_cell o1 k w = Some p}"
proof -
  have "(\<exists>m. (k, m) \<in> set (o_data o1) \<and> (w, p) \<in> set m) = (o_cell o1 k w = Some p)" for k w p
  proof -
    have "(\<exists>m. (k, m) \<in> set (o_data o1) \<and> (w, p) \<in> set m) =
        (\<exists>m. map_of (o_data o1) k = Some m \<and> map_of m w = Some p)"
      using assms unfolding oracle_wf_def um_wf_def
      by (metis (mono_tags, lifting) case_prodD map_of_eq_Some_iff)
    then show ?thesis by (auto simp: o_cell_def oracle_panes_def split: option.split)
  qed
  then show ?thesis by (fastforce simp: oracle_rows_def)
qed

lemma distinct_oracle_rows:
  assumes "oracle_wf o1"
  shows "distinct (oracle_rows o1)"
proof -
  have "distinct (concat (map (\<lambda>(k, m). map (\<lambda>(w, p). window_row k w (pane_result p)) m) d))"
    if "um_wf d" "\<forall>(k, m) \<in> set d. um_wf m" for d :: "(string \<times> (window \<times> pane) list) list"
    using that
  proof (induction d)
    case (Cons e d)
    obtain k m where e: "e = (k, m)" by (cases e)
    have "distinct m" "k \<notin> fst ` set d" using Cons.prems e by (auto simp: um_wf_def distinct_map)
    moreover have "inj_on (\<lambda>(w, p). window_row k w (pane_result p)) (set m)"
      by (auto simp: inj_on_def)
    moreover have "distinct (concat (map (\<lambda>(k, m). map (\<lambda>(w, p). window_row k w (pane_result p)) m) d))"
      using Cons by (auto simp: um_wf_def)
    ultimately show ?case using e by (force simp: distinct_map)
  qed simp
  then show ?thesis using assms by (simp add: oracle_rows_def oracle_wf_def)
qed

lemma dedup_rows:
  assumes "um_wf b" "\<And>kw r. map_of b kw = Some r \<Longrightarrow> (res_key r, res_window r) = kw"
  shows "distinct (map snd b)" "set (map snd b) = {r. map_of b (res_key r, res_window r) = Some r}"
proof -
  have key: "fst e = (res_key (snd e), res_window (snd e))" if "e \<in> set b" for e
    using assms that by (metis map_of_is_SomeI prod.collapse um_wf_def)
  then have "inj_on snd (set b)" by (metis inj_onI prod.expand)
  then show "distinct (map snd b)"
    using assms(1) by (simp add: distinct_map um_wf_def)
  show "set (map snd b) = {r. map_of b (res_key r, res_window r) = Some r}"
  proof (rule set_eqI)
    fix r
    have "(r \<in> set (map snd b)) = (((res_key r, res_window r), r) \<in> set b)"
    proof
      assume "r \<in> set (map snd b)"
      then obtain e where "e \<in> set b" "r = snd e" by auto
      with key [of e] show "((res_key r, res_window r), r) \<in> set b" by (metis prod.collapse)
    qed force
    also have "\<dots> = (map_of b (res_key r, res_window r) = Some r)"
      using assms(1) by (simp add: um_wf_def)
    finally show "(r \<in> set (map snd b)) = (r \<in> {r. map_of b (res_key r, res_window r) = Some r})"
      by simp
  qed
qed

lemma compare_rows_refl: "compare_rows i rs rs = None"
  by (induction rs arbitrary: i) auto

lemma agrees_flush:
  assumes "agrees cfg width p o1"
  shows "rows_of k w (effects (final_flush cfg p)) = {} \<and> o_cell o1 k w = None \<or>
    (\<exists>q. o_cell o1 k w = Some q \<and> q \<in> rows_of k w (effects (final_flush cfg p)) \<and>
      (\<forall>x \<in> rows_of k w (effects (final_flush cfg p)). x = q \<or> unat (pane_count x) < unat (pane_count q)))"
proof -
  have inv: "processor_inv cfg p" using assms by (simp add: agrees_def)
  have rows: "rows_of k w (effects (final_flush cfg p)) =
      c_rows (cell_of p k w) \<union> set_option (c_pane (cell_of p k w))"
    using final_flush_refines [OF inv, of k w] by (simp add: cell_of_def cell_flush_def)
  have "cell_agrees (lateness cfg) w (cell_of p k w) (o_cell o1 k w)"
    using assms by (simp add: agrees_def)
  then show ?thesis
    unfolding rows cell_agrees_def by (cases "o_cell o1 k w") (auto split: if_splits)
qed

text \<open>
  The comparison only depends on which rows reached a sink, not on their order: \<open>es\<close> are the
  calls on a sink that received the rows of the engine.
\<close>

lemma rows_match_oracle:
  assumes new: "new_processor cfg = Inr p0" and run: "run_items cfg its p0 = Inr p"
    and law: "lawful_assigner (assigner cfg) width"
    and m: "oracle_matches cfg ocfg" and h: "horizon_ok cfg its"
    and es: "\<And>k w. rows_of k w es = rows_of k w (effects (final_flush cfg p))"
  shows "sort_results (dedup_engine_results (memory_sink es)) = compute_results (run_oracle ocfg its)"
    and "late_records_dropped (stats p) = o_drops (run_oracle ocfg its)"
proof -
  let ?o = "run_oracle ocfg its" and ?rs = "memory_sink es"
  let ?b = "fold dedup_step ?rs []"
  have ag: "agrees cfg width p ?o"
    using agrees_run [OF run agrees_new [OF new m] m refl law h] by (simp add: run_oracle_def)
  then show "late_records_dropped (stats p) = o_drops ?o" by (simp add: agrees_def)
  have mem: "window_row k w (pane_result q) \<in> set ?rs \<longleftrightarrow>
      q \<in> rows_of k w (effects (final_flush cfg p))" for k w q
    using es [of k w] by (auto simp: set_memory_sink rows_of_def)
  have D: "um_wf ?b" "\<And>kw r. map_of ?b kw = Some r \<Longrightarrow> (res_key r, res_window r) = kw \<and> r \<in> set ?rs"
    using fold_dedup [of "[]" ?rs] by auto
  have look: "map_of ?b (k, w) = map_option (\<lambda>q. window_row k w (pane_result q)) (o_cell ?o k w)" for k w
  proof (cases "o_cell ?o k w")
    case None
    then have none: "rows_of k w (effects (final_flush cfg p)) = {}"
      using agrees_flush [OF ag, of k w] by auto
    have False if "map_of ?b (k, w) = Some r" for r
      using D(2) [OF that] none mem [of k w] pane_of_result [of "res_result r"] window_row_eta [of r]
      by (metis empty_iff prod.inject)
    with None show ?thesis by (cases "map_of ?b (k, w)") auto
  next
    case (Some q)
    then show ?thesis
      using agrees_flush [OF ag, of k w] dedup_keeps [of k w q ?rs] mem by auto
  qed
  have wf: "oracle_wf ?o" by (rule oracle_wf_run)
  have sets: "set (map snd ?b) = set (oracle_rows ?o)"
  proof (rule set_eqI)
    fix r :: window_result
    have A: "r \<in> set (map snd ?b) \<longleftrightarrow> map_of ?b (res_key r, res_window r) = Some r"
      by (simp only: dedup_rows(2) [OF D(1) D(2) [THEN conjunct1]] mem_Collect_eq)
    have B: "r \<in> set (oracle_rows ?o) \<longleftrightarrow>
        (\<exists>k w q. r = window_row k w (pane_result q) \<and> o_cell ?o k w = Some q)"
      unfolding oracle_rows_lookup [OF wf] by auto
    have C: "(\<exists>q. o_cell ?o (res_key r) (res_window r) = Some q \<and>
        window_row (res_key r) (res_window r) (pane_result q) = r) \<longleftrightarrow>
        (\<exists>k w q. r = window_row k w (pane_result q) \<and> o_cell ?o k w = Some q)"
      by (metis window_row_sel(1) window_row_sel(2))
    show "r \<in> set (map snd ?b) \<longleftrightarrow> r \<in> set (oracle_rows ?o)"
      unfolding A B look C [symmetric] by auto
  qed
  have mset: "mset (map snd ?b) = mset (oracle_rows ?o)"
    using sets dedup_rows(1) [OF D(1) D(2) [THEN conjunct1]] distinct_oracle_rows [OF wf]
    by (simp only: set_eq_iff_mset_eq_distinct)
  have "inj_on result_order (set (map snd ?b))"
    unfolding sets oracle_rows_lookup [OF wf]
  proof (rule inj_onI, clarsimp simp: result_order_def)
    fix k w w' q q'
    assume cells: "o_cell ?o k w = Some q" "o_cell ?o k w' = Some q'" "wstart w = wstart w'"
    then have "wend w = wend w'" using ag unfolding agrees_def by (metis option.distinct(1))
    with cells show "w = w' \<and> q = q'" by (metis option.inject window.expand)
  qed
  then show "sort_results (dedup_engine_results ?rs) = compute_results ?o"
    unfolding sort_results_def dedup_engine_results_def compute_results_def oracle_rows_def [symmetric]
    by (intro sort_key_inj_key_eq) (simp_all only: mset mset_sort sorted_sort_key)
qed

lemmas engine_matches_oracle = rows_match_oracle [OF _ _ _ _ _ refl]

end
