(* ===== verification/Differential.thy ===== *)
theory Differential
  imports Source_Merge Partitioned_Results Oracle_Model
begin

text \<open>
  The differential harness (\<open>src/src/oracle/differential.cpp\<close>, \<open>differential.h\<close>): for a range of
  seeds it generates a workload, runs the single-threaded engine, the partitioned engine or both
  over it, feeds the oracle the same stream and compares. The comparison functions themselves
  are in \<open>Oracle_Model\<close>. The order in which the operating system runs the threads of a
  partitioned engine is an argument, a schedule; a schedule that stops before the threads have
  exited has no result (\<open>None\<close>), as has a loop that runs out of fuel.
\<close>

section \<open>Configuration and results\<close>

datatype assigner_type = KTumbling | KSliding

record differential_config =
  dc_num_seeds :: u64
  dc_records_per_seed :: u64
  dc_num_keys :: u32
  dc_window_size :: duration
  dc_max_disorder :: duration
  dc_allowed_lateness :: duration
  dc_assigner :: assigner_type
  dc_slide :: duration
  dc_disorder_mode :: disorder_mode
  dc_late_fraction :: double
  dc_late_tail :: duration
  dc_seed_start :: u64
  dc_workers :: u32
  dc_sources :: u32
  dc_idle_timeout :: u32
  dc_idle_span_start :: u64
  dc_idle_span_length :: u64

text \<open>What a failed comparison reports in place of the formatted message.\<close>

datatype disagreement = ResultsDiffer mismatch | DropsDiffer "u64 \<times> u64"

record 'd harness_result =
  hr_seeds_tested :: u64
  hr_seeds_passed :: u64
  hr_seeds_failed :: u64
  hr_failed_seeds :: "u64 list"
  hr_failure_detail :: "(u64 \<times> 'd) option"
  hr_late_dropped :: u64
  hr_predicted_drops :: u64
  hr_windows_refired :: u64
  hr_late_accepted :: u64

definition empty_result :: "'d harness_result" where
  "empty_result = \<lparr>hr_seeds_tested = 0, hr_seeds_passed = 0, hr_seeds_failed = 0, hr_failed_seeds = [],
     hr_failure_detail = None, hr_late_dropped = 0, hr_predicted_drops = 0, hr_windows_refired = 0, hr_late_accepted = 0\<rparr>"

definition cross_n_workers :: "u32 list" where
  "cross_n_workers = [1, 2, 4, 8]"

section \<open>Building blocks\<close>

text \<open>Sequencing where both an exception and a missing result end the computation.\<close>

definition bind_run :: "'a res option \<Rightarrow> ('a \<Rightarrow> 'b res option) \<Rightarrow> 'b res option" where
  "bind_run x f = (case x of None \<Rightarrow> None | Some (Inl e) \<Rightarrow> Some (Inl e) | Some (Inr a) \<Rightarrow> f a)"

lemma bind_run_simps [simp]:
  "bind_run None f = None" "bind_run (Some (Inl e)) f = Some (Inl e)" "bind_run (Some (Inr a)) f = f a"
  by (simp_all add: bind_run_def)

definition make_gen_config :: "differential_config \<Rightarrow> u64 \<Rightarrow> generator_config" where
  "make_gen_config dc seed =
     \<lparr>gc_seed = seed, gc_num_keys = dc_num_keys dc, gc_num_records = dc_records_per_seed dc, gc_event_time_step = 1,
      gc_max_disorder = dc_max_disorder dc, gc_batch_size = 1024, gc_watermark_interval = 100, gc_checkpoint_interval = 0,
      gc_disorder_mode = dc_disorder_mode dc, gc_late_fraction = dc_late_fraction dc, gc_late_tail = dc_late_tail dc,
      gc_idle_spans = []\<rparr>"

definition make_assigner :: "assigner_type \<Rightarrow> duration \<Rightarrow> duration \<Rightarrow> window_assigner res" where
  "make_assigner ty window_size slide =
     (if ty = KSliding then sliding_assigner window_size slide else tumbling_assigner window_size)"

record engine_run =
  er_results :: "window_result list"
  er_late_dropped :: u64
  er_late_accepted :: u64
  er_windows_refired :: u64

definition collect_run :: "effect list \<Rightarrow> processor_stats \<Rightarrow> engine_run" where
  "collect_run sink st =
     \<lparr>er_results = sort_results (dedup_engine_results (memory_sink sink)), er_late_dropped = late_records_dropped st,
      er_late_accepted = late_records_accepted st, er_windows_refired = windows_refired st\<rparr>"

definition harness_pipeline_config :: "differential_config \<Rightarrow> pipeline_config" where
  "harness_pipeline_config dc =
     \<lparr>plc_lateness = dc_allowed_lateness dc, plc_checkpoint_dir = [], plc_checkpoint_interval = 0\<rparr>"

definition harness_partitioned_config :: "differential_config \<Rightarrow> u32 \<Rightarrow> partitioned_config" where
  "harness_partitioned_config dc workers =
     \<lparr>pc_num_workers = workers, pc_queue_capacity = 32, pc_lateness = dc_allowed_lateness dc, pc_checkpoint_dir = [],
      pc_write_ok = (\<lambda>i off wm s. True)\<rparr>"

text \<open>The two engines over a source, given by its operations and its initial state.\<close>

definition drive_pipeline ::
    "nat \<Rightarrow> differential_config \<Rightarrow> 's source \<Rightarrow> 's \<Rightarrow> engine_run res option" where
  "drive_pipeline fuel dc src s =
     bind_run (Some (make_assigner (dc_assigner dc) (dc_window_size dc) (dc_slide dc))) (\<lambda>a.
     bind_run (Some (new_pipeline (harness_pipeline_config dc) s [] None)) (\<lambda>pl.
     bind_run (pl_run fuel None (harness_pipeline_config dc) a (\<lambda>off. WriteOk) src [] pl) (\<lambda>(pl1, st).
       Some (Inr (collect_run (effects (pl_core pl1)) (ps_counters st))))))"

text \<open>The batches a source hands over to its end, and the exception it ends with, if any.\<close>

fun drain_source :: "nat \<Rightarrow> 's source \<Rightarrow> 's \<Rightarrow> (batch list \<times> exn option) option" where
  "drain_source 0 src s = None"
| "drain_source (Suc fuel) src s =
     (case src_next src s of
        Inl e \<Rightarrow> Some ([], Some e)
      | Inr (None, s1) \<Rightarrow> Some ([], None)
      | Inr (Some b, s1) \<Rightarrow> map_option (\<lambda>(bs, e). (b # bs, e)) (drain_source fuel src s1))"

definition drive_partitioned ::
    "nat \<Rightarrow> thread list \<Rightarrow> differential_config \<Rightarrow> u32 \<Rightarrow> 's source \<Rightarrow> 's \<Rightarrow> engine_run res option" where
  "drive_partitioned fuel schedule dc workers src s =
     (let pc = harness_partitioned_config dc workers; n = effective_workers pc in
      bind_run (Some (make_assigner (dc_assigner dc) (dc_window_size dc) (dc_slide dc))) (\<lambda>a.
      bind_run (Some (build_workers pc a [0..<unat n])) (\<lambda>ws.
      case drain_source fuel src s of
        None \<Rightarrow> None
      | Some (bs, err) \<Rightarrow>
          (let final = run_schedule schedule
             (initial_system (router_program n bs (case err of None \<Rightarrow> EndFinal | Some e \<Rightarrow> EndThrow e)) ws)
           in if finished final
              then Some (bind_res (run_result final) (\<lambda>(ms, sink). Inr (collect_run sink (ms_counters ms))))
              else None))))"

record oracle_run =
  or_results :: "window_result list"
  or_drops :: u64

definition harness_oracle_config :: "assigner_type \<Rightarrow> duration \<Rightarrow> duration \<Rightarrow> duration \<Rightarrow> oracle_config" where
  "harness_oracle_config ty window_size slide lateness_ms =
     \<lparr>oc_window_size = window_size, oc_slide = (if ty = KSliding then slide else 0), oc_lateness = lateness_ms\<rparr>"

definition feed_oracle :: "nat \<Rightarrow> differential_config \<Rightarrow> 's source \<Rightarrow> 's \<Rightarrow> oracle_run res option" where
  "feed_oracle fuel dc src s =
     (case drain_source fuel src s of
        None \<Rightarrow> None
      | Some (bs, Some e) \<Rightarrow> Some (Inl e)
      | Some (bs, None) \<Rightarrow>
          (let o1 = run_oracle (harness_oracle_config (dc_assigner dc) (dc_window_size dc) (dc_slide dc) (dc_allowed_lateness dc))
                      (concat bs)
           in Some (Inr \<lparr>or_results = compute_results o1, or_drops = o_drops o1\<rparr>)))"

text \<open>The comparison of two runs: the result sets, then the drop counts.\<close>

definition compare_runs :: "window_result list \<Rightarrow> u64 \<Rightarrow> oracle_run \<Rightarrow> disagreement option" where
  "compare_runs results dropped orc =
     (case compare_results results (or_results orc) of
        Some m \<Rightarrow> Some (ResultsDiffer m)
      | None \<Rightarrow> map_option DropsDiffer (check_drop_contract dropped (or_drops orc)))"

text \<open>The counters of one seed.\<close>

definition tally_run :: "engine_run \<Rightarrow> oracle_run \<Rightarrow> 'd harness_result \<Rightarrow> 'd harness_result" where
  "tally_run engine orc res =
     res\<lparr>hr_seeds_tested := hr_seeds_tested res + 1,
         hr_late_dropped := hr_late_dropped res + er_late_dropped engine,
         hr_late_accepted := hr_late_accepted res + er_late_accepted engine,
         hr_windows_refired := hr_windows_refired res + er_windows_refired engine,
         hr_predicted_drops := hr_predicted_drops res + or_drops orc\<rparr>"

definition tally_verdict :: "u64 \<Rightarrow> 'd option \<Rightarrow> 'd harness_result \<Rightarrow> 'd harness_result" where
  "tally_verdict seed mismatch res =
     (case mismatch of
        None \<Rightarrow> res\<lparr>hr_seeds_passed := hr_seeds_passed res + 1\<rparr>
      | Some d \<Rightarrow>
          res\<lparr>hr_seeds_failed := hr_seeds_failed res + 1,
              hr_failed_seeds := hr_failed_seeds res @ [seed],
              hr_failure_detail := (case hr_failure_detail res of None \<Rightarrow> Some (seed, d) | Some x \<Rightarrow> Some x)\<rparr>)"

text \<open>\<open>for (seed = start; seed <= last_seed; ++seed)\<close>\<close>

fun seed_loop :: "nat \<Rightarrow> (u64 \<Rightarrow> 'r \<Rightarrow> 'r res option) \<Rightarrow> u64 \<Rightarrow> u64 \<Rightarrow> 'r \<Rightarrow> 'r res option" where
  "seed_loop 0 body seed last_seed res = None"
| "seed_loop (Suc fuel) body seed last_seed res =
     (if seed \<le> last_seed
      then bind_run (body seed res) (\<lambda>res1. seed_loop fuel body (seed + 1) last_seed res1)
      else Some (Inr res))"

section \<open>The three harnesses\<close>

text \<open>Each run constructs its own generator.\<close>

definition with_generator ::
    "'g random_ops \<Rightarrow> generator_config \<Rightarrow> ('g generator source \<Rightarrow> 'g generator \<Rightarrow> 'a res option) \<Rightarrow> 'a res option" where
  "with_generator R gen f = bind_run (Some (new_generator R gen)) (f (generator_source R gen))"

definition run_single_threaded_engine ::
    "'g random_ops \<Rightarrow> nat \<Rightarrow> differential_config \<Rightarrow> generator_config \<Rightarrow> engine_run res option" where
  "run_single_threaded_engine R fuel dc gen = with_generator R gen (drive_pipeline fuel dc)"

definition run_partitioned_engine ::
    "'g random_ops \<Rightarrow> nat \<Rightarrow> thread list \<Rightarrow> differential_config \<Rightarrow> generator_config \<Rightarrow> u32 \<Rightarrow> engine_run res option" where
  "run_partitioned_engine R fuel schedule dc gen workers = with_generator R gen (drive_partitioned fuel schedule dc workers)"

definition run_engine ::
    "'g random_ops \<Rightarrow> nat \<Rightarrow> thread list \<Rightarrow> differential_config \<Rightarrow> generator_config \<Rightarrow> u32 \<Rightarrow> engine_run res option" where
  "run_engine R fuel schedule dc gen workers =
     (if workers \<le> 1 then run_single_threaded_engine R fuel dc gen
      else run_partitioned_engine R fuel schedule dc gen workers)"

definition run_oracle_for :: "'g random_ops \<Rightarrow> nat \<Rightarrow> differential_config \<Rightarrow> generator_config \<Rightarrow> oracle_run res option" where
  "run_oracle_for R fuel dc gen = with_generator R gen (feed_oracle fuel dc)"

definition differential_seed ::
    "'g random_ops \<Rightarrow> nat \<Rightarrow> (u64 \<Rightarrow> u32 \<Rightarrow> thread list) \<Rightarrow> differential_config \<Rightarrow>
     u64 \<Rightarrow> disagreement harness_result \<Rightarrow> disagreement harness_result res option" where
  "differential_seed R fuel schedules dc seed res =
     (let gen = make_gen_config dc seed in
      bind_run (run_engine R fuel (schedules seed (dc_workers dc)) dc gen (dc_workers dc)) (\<lambda>engine.
      bind_run (run_oracle_for R fuel dc gen) (\<lambda>orc.
        Some (Inr (tally_verdict seed (compare_runs (er_results engine) (er_late_dropped engine) orc)
               (tally_run engine orc res))))))"

definition run_differential ::
    "'g random_ops \<Rightarrow> nat \<Rightarrow> (u64 \<Rightarrow> u32 \<Rightarrow> thread list) \<Rightarrow> differential_config \<Rightarrow>
     disagreement harness_result res option" where
  "run_differential R fuel schedules dc =
     (let last_seed = dc_seed_start dc + dc_num_seeds dc - 1
      in seed_loop fuel (differential_seed R fuel schedules dc) (dc_seed_start dc) last_seed empty_result)"

datatype cross_disagreement =
    SingleVsOracle disagreement
  | WorkersVsOracle u32 disagreement
  | WorkersVsSingle u32 mismatch

text \<open>The partitioned engine at each worker count against the oracle and the reference.\<close>

fun cross_workers ::
    "'g random_ops \<Rightarrow> nat \<Rightarrow> (u32 \<Rightarrow> thread list) \<Rightarrow> differential_config \<Rightarrow> generator_config \<Rightarrow> oracle_run \<Rightarrow> engine_run \<Rightarrow>
     u32 list \<Rightarrow> cross_disagreement option res option" where
  "cross_workers R fuel schedules dc gen orc ref [] = Some (Inr None)"
| "cross_workers R fuel schedules dc gen orc ref (n # ns) =
     bind_run (run_partitioned_engine R fuel (schedules n) dc gen n) (\<lambda>eng.
       case compare_runs (er_results eng) (er_late_dropped eng) orc of
         Some m \<Rightarrow> Some (Inr (Some (WorkersVsOracle n m)))
       | None \<Rightarrow>
           (case compare_results (er_results eng) (er_results ref) of
              Some m \<Rightarrow> Some (Inr (Some (WorkersVsSingle n m)))
            | None \<Rightarrow> cross_workers R fuel schedules dc gen orc ref ns))"

definition cross_n_seed ::
    "'g random_ops \<Rightarrow> nat \<Rightarrow> (u64 \<Rightarrow> u32 \<Rightarrow> thread list) \<Rightarrow> differential_config \<Rightarrow>
     u64 \<Rightarrow> cross_disagreement harness_result \<Rightarrow> cross_disagreement harness_result res option" where
  "cross_n_seed R fuel schedules dc seed res =
     (let gen = make_gen_config dc seed in
      bind_run (run_oracle_for R fuel dc gen) (\<lambda>orc.
      bind_run (run_single_threaded_engine R fuel dc gen) (\<lambda>ref.
      bind_run (case compare_runs (er_results ref) (er_late_dropped ref) orc of
                  Some m \<Rightarrow> Some (Inr (Some (SingleVsOracle m)))
                | None \<Rightarrow> cross_workers R fuel (schedules seed) dc gen orc ref cross_n_workers) (\<lambda>mismatch.
        Some (Inr (tally_verdict seed mismatch (tally_run ref orc res)))))))"

definition run_cross_n ::
    "'g random_ops \<Rightarrow> nat \<Rightarrow> (u64 \<Rightarrow> u32 \<Rightarrow> thread list) \<Rightarrow> differential_config \<Rightarrow>
     cross_disagreement harness_result res option" where
  "run_cross_n R fuel schedules dc =
     (let last_seed = dc_seed_start dc + dc_num_seeds dc - 1
      in seed_loop fuel (cross_n_seed R fuel schedules dc) (dc_seed_start dc) last_seed empty_result)"

definition make_merge_config :: "differential_config \<Rightarrow> u64 \<Rightarrow> u32 \<Rightarrow> merge_config" where
  "make_merge_config dc seed k =
     (let sources = map (\<lambda>i. (make_gen_config dc (seed + of_nat i * 7919))\<lparr>gc_event_time_step := int (unat k) - int i\<rparr>)
                      [0..<unat k];
          sources1 = (if dc_idle_timeout dc > 0 \<and> dc_idle_span_length dc > 0 \<and> k \<ge> 2
                      then butlast sources @ [(List.last sources)\<lparr>gc_idle_spans := gc_idle_spans (List.last sources) @
                             [\<lparr>span_start = dc_idle_span_start dc, span_length = dc_idle_span_length dc\<rparr>]\<rparr>]
                      else sources)
      in \<lparr>mc_sources = sources1, mc_checkpoint_interval = 0, mc_batch_size = 1024, mc_live_inputs = False,
          mc_idle_timeout_wall = 0, mc_idle_timeout = dc_idle_timeout dc\<rparr>)"

text \<open>
  The merge behind the source interface. Its clock is never read for its value, because the wall
  time-out is off; a step budget that runs out is reported as an exception of its own.
\<close>

definition merge_source :: "nat \<Rightarrow> 's merge_state \<Rightarrow> 's merge_state source" where
  "merge_source budget m0 =
     \<lparr>src_next = (\<lambda>m. case merge_next budget (\<lambda>n. 0) m of None \<Rightarrow> Inl (LogicError ''merge budget'') | Some r \<Rightarrow> r),
      src_seek = (\<lambda>off m. case merge_seek budget (\<lambda>n. 0) off m of None \<Rightarrow> Inl (LogicError ''merge budget'') | Some r \<Rightarrow> r),
      src_offset = mg_offset, src_descriptor = merge_descriptor m0, src_replayable = merge_replayable m0, src_cancel = merge_cancel\<rparr>"

text \<open>Each run constructs its own merge; the reading of the clock at the construction is 0.\<close>

definition with_merge ::
    "'g random_ops \<Rightarrow> nat \<Rightarrow> merge_config \<Rightarrow> ('g generator merge_state source \<Rightarrow> 'g generator merge_state \<Rightarrow> 'a res option) \<Rightarrow>
     'a res option" where
  "with_merge R fuel mc f = bind_run (Some (new_merge R 0 mc)) (\<lambda>m. f (merge_source fuel m) m)"

definition run_single_threaded_engine_merged ::
    "'g random_ops \<Rightarrow> nat \<Rightarrow> differential_config \<Rightarrow> merge_config \<Rightarrow> engine_run res option" where
  "run_single_threaded_engine_merged R fuel dc mc = with_merge R fuel mc (drive_pipeline fuel dc)"

definition run_partitioned_engine_merged ::
    "'g random_ops \<Rightarrow> nat \<Rightarrow> thread list \<Rightarrow> differential_config \<Rightarrow> merge_config \<Rightarrow> u32 \<Rightarrow> engine_run res option" where
  "run_partitioned_engine_merged R fuel schedule dc mc workers = with_merge R fuel mc (drive_partitioned fuel schedule dc workers)"

definition run_oracle_for_merged :: "'g random_ops \<Rightarrow> nat \<Rightarrow> differential_config \<Rightarrow> merge_config \<Rightarrow> oracle_run res option" where
  "run_oracle_for_merged R fuel dc mc = with_merge R fuel mc (feed_oracle fuel dc)"

definition run_engine_merged ::
    "'g random_ops \<Rightarrow> nat \<Rightarrow> thread list \<Rightarrow> differential_config \<Rightarrow> merge_config \<Rightarrow> u32 \<Rightarrow> engine_run res option" where
  "run_engine_merged R fuel schedule dc mc workers =
     (if workers \<le> 1 then run_single_threaded_engine_merged R fuel dc mc
      else run_partitioned_engine_merged R fuel schedule dc mc workers)"

definition multi_source_seed ::
    "'g random_ops \<Rightarrow> nat \<Rightarrow> (u64 \<Rightarrow> u32 \<Rightarrow> thread list) \<Rightarrow> differential_config \<Rightarrow> u32 \<Rightarrow>
     u64 \<Rightarrow> disagreement harness_result \<Rightarrow> disagreement harness_result res option" where
  "multi_source_seed R fuel schedules dc k seed res =
     (let mc = make_merge_config dc seed k in
      bind_run (run_engine_merged R fuel (schedules seed (dc_workers dc)) dc mc (dc_workers dc)) (\<lambda>engine.
      bind_run (run_oracle_for_merged R fuel dc mc) (\<lambda>orc.
        Some (Inr (tally_verdict seed (compare_runs (er_results engine) (er_late_dropped engine) orc)
               (tally_run engine orc res))))))"

definition run_multi_source_differential ::
    "'g random_ops \<Rightarrow> nat \<Rightarrow> (u64 \<Rightarrow> u32 \<Rightarrow> thread list) \<Rightarrow> differential_config \<Rightarrow>
     disagreement harness_result res option" where
  "run_multi_source_differential R fuel schedules dc =
     (let k = max 1 (dc_sources dc); last_seed = dc_seed_start dc + dc_num_seeds dc - 1
      in seed_loop fuel (multi_source_seed R fuel schedules dc k) (dc_seed_start dc) last_seed empty_result)"

section \<open>The assigner and the oracle of a job\<close>

lemma make_assigner_facts:
  assumes "make_assigner ty win slide = Inr a"
  shows "0 < win" "lawful_assigner a win"
    "0 \<le> t \<Longrightarrow> t \<le> i64_max - win - (if ty = KSliding then \<bar>slide\<bar> else 0) \<Longrightarrow> \<exists>ws. assign_windows a t = Inr ws"
    "newline \<notin> set (descriptor a)"
proof -
  show "0 < win" "lawful_assigner a win"
    using assms tumbling_lawful sliding_lawful
    by (auto simp: make_assigner_def tumbling_assigner_def sliding_assigner_def split: if_splits)
  then show "\<exists>ws. assign_windows a t = Inr ws" if "0 \<le> t" "t \<le> i64_max - win - (if ty = KSliding then \<bar>slide\<bar> else 0)"
    using assms that
    by (auto simp: make_assigner_def tumbling_assigner_def sliding_assigner_def tumbling_assign_def sliding_assign_def Let_def split: if_splits)
  show "newline \<notin> set (descriptor a)"
    using assms to_string_no_newline
    by (auto simp: make_assigner_def tumbling_assigner_def sliding_assigner_def tumbling_descriptor_def
        sliding_descriptor_def newline_def split: if_splits)
qed

lemma harness_oracle_matches:
  assumes "make_assigner ty win slide = Inr (assigner cfg)"
  shows "oracle_matches cfg (harness_oracle_config ty win slide (lateness cfg))"
proof -
  let ?oc = "harness_oracle_config ty win slide (lateness cfg)"
  let ?slide = "if ty = KSliding then slide else win"
  have w: "0 < win" by (rule make_assigner_facts(1) [OF assms])
  have s: "0 < ?slide" using assms w by (auto simp: make_assigner_def sliding_assigner_def split: if_splits)
  have oc: "oc_window_size (o_config (new_oracle ?oc)) = win" "oc_slide (o_config (new_oracle ?oc)) = ?slide"
      "oc_lateness ?oc = lateness cfg"
    using s by (auto simp: new_oracle_def harness_oracle_config_def)
  have "set ws = aligned_windows win ?slide t \<and> 0 \<le> t" if t: "assign_windows (assigner cfg) t = Inr ws" for t ws
  proof (cases "ty = KSliding")
    case True
    then have "assigner cfg = \<lparr>assign_windows = sliding_assign win slide, descriptor = sliding_descriptor win slide\<rparr>"
      using assms by (auto simp: make_assigner_def sliding_assigner_def split: if_splits)
    then have "sliding_assign win slide t = Inr ws" using t by simp
    then show ?thesis
      using True w s set_sliding_assign [of win slide t ws] by (auto simp: sliding_assign_def split: if_splits)
  next
    case False
    then have "assigner cfg = \<lparr>assign_windows = tumbling_assign win, descriptor = tumbling_descriptor win\<rparr>"
      using assms by (auto simp: make_assigner_def tumbling_assigner_def split: if_splits)
    then have "tumbling_assign win t = Inr ws" using t by simp
    then show ?thesis using False w set_tumbling_assign [of win t ws] tumbling_assign_eq(2) [of win t ws] by auto
  qed
  then show ?thesis
    using oracle_assign_aligned [of "o_config (new_oracle ?oc)"] oc w s by (auto simp: oracle_matches_def)
qed

lemma short_horizon:
  assumes "lawful_assigner (assigner cfg) win"
    and "\<forall>r. Data r \<in> set its \<longrightarrow> event_time r \<le> i64_max - win - lateness cfg"
  shows "horizon_ok cfg its"
  using assms(2) lawful_window [OF assms(1)] by (fastforce simp: horizon_ok_def assigned_def split: sum.splits)

section \<open>An engine does not fail on a bounded workload\<close>

text \<open>In a cell the sum is at most 1000 times the count, and the count at most the records seen.\<close>

definition pane_small :: "nat \<Rightarrow> pane option \<Rightarrow> bool" where
  "pane_small n c = (case c of None \<Rightarrow> True | Some p \<Rightarrow> unat (pane_count p) \<le> n \<and> 0 \<le> pane_sum p \<and> pane_sum p \<le> 1000 * int n)"

lemma pane_small_grow:
  assumes "pane_small n c" "0 \<le> v" "v \<le> 1000" "n < 2 ^ 64 - 1"
  shows "pane_small (Suc n) (Some (grow c v))"
proof (cases c)
  case (Some p)
  then have "unat (pane_count p) \<le> n" using assms(1) by (simp add: pane_small_def)
  moreover from this have "pane_count p \<noteq> u64_max" using assms(4) by (auto simp: u64_max_def unsigned_minus_1_eq_mask mask_eq_exp_minus_1)
  ultimately show ?thesis using Some assms by (simp add: pane_small_def grow_def u64_inc_unat)
qed (use assms in \<open>simp add: pane_small_def grow_def\<close>)

lemma pane_small_mono: "pane_small n c \<Longrightarrow> n \<le> k \<Longrightarrow> pane_small k c"
  by (auto simp: pane_small_def split: option.splits)

lemma cell_small:
  assumes "\<forall>r. Data r \<in> set its \<longrightarrow> 0 \<le> val r \<and> val r \<le> 1000" "length (data_of its) < 2 ^ 64"
  shows "pane_small (length (data_of its)) (c_pane (fold (cell_step cfg k w) its empty_cell))"
  using assms
proof (induction its rule: rev_induct)
  case Nil
  then show ?case by (simp add: pane_small_def empty_cell_def)
next
  case (snoc it its)
  define c where "c = fold (cell_step cfg k w) its empty_cell"
  have I: "pane_small (length (data_of its)) (c_pane c)" using snoc by (simp add: c_def)
  have step: "fold (cell_step cfg k w) (its @ [it]) empty_cell = cell_step cfg k w it c" by (simp add: c_def)
  show ?case
  proof (cases it)
    case (Data r)
    then have "pane_small (Suc (length (data_of its))) (Some (grow (c_pane c) (val r)))"
      using snoc.prems by (intro pane_small_grow [OF I]) auto
    then show ?thesis unfolding step using Data pane_small_mono [OF I] by (simp add: cell_step_def cell_record_def)
  next
    case (Control ctl)
    then show ?thesis
      unfolding step using I by (cases "ctype ctl") (auto simp: cell_step_def cell_watermark_def pane_small_def)
  qed
qed

lemma bounded_stream_total:
  assumes new: "new_processor cfg = Inr p0" and law: "lawful_assigner (assigner cfg) width"
    and dir: "checkpoint_dir cfg = [] \<or> (\<forall>off wm s. checkpoint_write_ok cfg off wm s)"
    and val: "\<forall>r. Data r \<in> set its \<longrightarrow> 0 \<le> val r \<and> val r \<le> 1000"
    and asg: "\<forall>r. Data r \<in> set its \<longrightarrow> (\<exists>ws. assign_windows (assigner cfg) (event_time r) = Inr ws)"
    and size: "1000 * int (length (data_of its)) \<le> i64_max"
  shows "\<exists>p. run_items cfg its p0 = Inr p"
  using val asg size
proof (induction its rule: rev_induct)
  case Nil
  then show ?case by (simp add: run_items_def)
next
  case (snoc it its)
  have sz: "1000 * int (length (data_of its)) \<le> i64_max" using snoc.prems(3) by simp
  then obtain q where q: "run_items cfg its p0 = Inr q" using snoc by auto
  have inv: "processor_inv cfg q" using run_items_refines [OF q new_processor_inv(1) [OF new] law] by blast
  have "\<exists>p. process_item cfg it q = Inr p"
  proof (cases it)
    case (Data r)
    obtain ws where ws: "assign_windows (assigner cfg) (event_time r) = Inr ws" using snoc.prems(2) Data by auto
    have big: "length (data_of its) < 2 ^ 64 - 1" using sz by (simp add: i64_nums)
    have v: "0 \<le> val r" "val r \<le> 1000" "1000 * int (length (data_of its)) + 1000 \<le> i64_max"
      using snoc.prems(1,3) Data by auto
    have "\<exists>x. pane_add (case pane_at (state q) w (key r) of None \<Rightarrow> empty_pane | Some p \<Rightarrow> p) (val r) = Inr x" for w
    proof -
      have "c_pane (cell_of q (key r) w) = pane_at (state q) w (key r)" by (simp add: cell_of_def)
      then have "pane_small (length (data_of its)) (pane_at (state q) w (key r))"
        using cell_small [of its cfg "key r" w] snoc.prems(1) big processor_refines_cells(1) [OF new q law, of "key r" w] by simp
      then have s: "unat (pane_count (case pane_at (state q) w (key r) of None \<Rightarrow> empty_pane | Some p \<Rightarrow> p)) \<le> length (data_of its)"
          "pane_sum (case pane_at (state q) w (key r) of None \<Rightarrow> empty_pane | Some p \<Rightarrow> p) \<le> 1000 * int (length (data_of its))"
        by (auto simp: pane_small_def empty_pane_def split: option.splits)
      then have "pane_count (case pane_at (state q) w (key r) of None \<Rightarrow> empty_pane | Some p \<Rightarrow> p) \<noteq> u64_max"
        using big by (auto simp: u64_max_def unsigned_minus_1_eq_mask mask_eq_exp_minus_1)
      then show ?thesis using s(2) v by (auto simp: pane_add_def)
    qed
    then show ?thesis using process_record_total [OF inv law ws] Data by (simp add: process_item_def)
  next
    case (Control c)
    then show ?thesis
      using dir by (cases "ctype c") (auto simp: process_item_def process_control_def process_barrier_def Let_def)
  qed
  then show ?case using q by (auto simp: run_items_def fold_res_append)
qed

section \<open>The harness over any bounded workload\<close>

definition horizon :: "differential_config \<Rightarrow> timestamp" where
  "horizon dc =
     i64_max - dc_window_size dc - (if dc_assigner dc = KSliding then \<bar>dc_slide dc\<bar> else 0) - dc_allowed_lateness dc"

text \<open>A job the harness can run and a stream whose values and times fit the arithmetic.\<close>

definition job_ok :: "differential_config \<Rightarrow> bool" where
  "job_ok dc \<longleftrightarrow>
     0 < dc_window_size dc \<and> (dc_assigner dc = KSliding \<longrightarrow> 0 < dc_slide dc) \<and> 0 \<le> dc_allowed_lateness dc"

definition workload_ok :: "differential_config \<Rightarrow> batch_item list \<Rightarrow> bool" where
  "workload_ok dc its \<longleftrightarrow>
     (\<forall>r. Data r \<in> set its \<longrightarrow> 0 \<le> val r \<and> val r \<le> 1000 \<and> 0 \<le> event_time r \<and> event_time r \<le> horizon dc) \<and>
     1000 * int (length (data_of its)) \<le> i64_max"

lemma run_schedule_reaches: "reaches s0 s \<Longrightarrow> reaches s0 (run_schedule ts s)"
  by (induction ts arbitrary: s) (auto split: option.split intro: reaches_step)

lemma run_schedule_append: "run_schedule (ts @ us) s = run_schedule us (run_schedule ts s)"
  by (induction ts arbitrary: s) simp_all

lemma reaches_schedule: "reaches s s' \<Longrightarrow> \<exists>ts. run_schedule ts s = s'"
proof (induction rule: reaches.induct)
  case (reaches_refl s)
  show ?case by (rule exI [of _ "[]"]) simp
next
  case (reaches_step s s' t s'')
  then obtain ts where "run_schedule ts s = s'" by blast
  then show ?case using reaches_step(2) by (intro exI [of _ "ts @ [t]"]) (simp add: run_schedule_append)
qed

lemma drain_handed_over:
  "hands_over src s bs s1 \<Longrightarrow> src_next src s1 = Inr (None, s2) \<Longrightarrow> length bs < fuel \<Longrightarrow> drain_source fuel src s = Some (bs, None)"
proof (induction bs arbitrary: s fuel)
  case Nil
  then show ?case by (cases fuel) simp_all
next
  case (Cons b bs)
  then obtain f where "fuel = Suc f" by (cases fuel) simp_all
  then show ?case using Cons by auto
qed

lemma length_concat_nonempty: "[] \<notin> set bs \<Longrightarrow> length bs \<le> length (concat bs)"
proof (induction bs)
  case (Cons b bs)
  then have "0 < length b" "length bs \<le> length (concat bs)" by auto
  then have "Suc (length bs) \<le> length b + length (concat bs)" by linarith
  then show ?case by simp
qed simp

lemma harness_config [simp]:
  "\<not> checkpointing_enabled (harness_pipeline_config dc)"
  "as_config (harness_pipeline_config dc) a (\<lambda>off. WriteOk) = single_config (harness_partitioned_config dc n) a"
  "lateness (single_config (harness_partitioned_config dc n) a) = dc_allowed_lateness dc"
  "assigner (single_config (harness_partitioned_config dc n) a) = a"
  "checkpoint_dir (single_config (harness_partitioned_config dc n) a) = []"
  "writes_ok (worker_config (harness_partitioned_config dc n) a i)"
  by (simp_all add: checkpointing_enabled_def harness_pipeline_config_def as_config_def single_config_def
      harness_partitioned_config_def writes_ok_def worker_config_def)

lemma pipeline_finishes:
  assumes new: "new_pipeline (harness_pipeline_config dc) s [] None = Inr pl"
    and bs: "hands_over src s bs s1" "src_next src s1 = Inr (None, s2)" "length bs < fuel"
    and run: "run_items (single_config (harness_partitioned_config dc n) a) (concat bs) (pl_core pl) = Inr p"
  shows "\<exists>pl1 st. pl_run fuel None (harness_pipeline_config dc) a (\<lambda>off. WriteOk) src [] pl = Some (Inr (pl1, st)) \<and>
    pl_core pl1 = final_flush (single_config (harness_partitioned_config dc n) a) p \<and> ps_counters st = stats (pl_core pl1)"
proof -
  let ?c = "harness_pipeline_config dc" and ?env = "\<lambda>off. WriteOk"
  obtain f where f: "fuel = length bs + Suc f" using bs(3) less_imp_Suc_add by auto
  have pl: "pl_source pl = s" "pl_stop pl = None" using new_pipeline_core [OF new] by auto
  have ac: "as_config ?c a ?env = single_config (harness_partitioned_config dc n) a" by simp
  obtain pl2 where pl2: "pl_loop (length bs + Suc f) ?c a ?env src (replicate (length bs) [] @ []) pl =
        pl_loop (Suc f) ?c a ?env src [] pl2"
      "pl_core pl2 = p" "pl_source pl2 = s1" "pl_stop pl2 = None"
    using pl_loop_consumes [of src pl bs s1 ?c a ?env p "Suc f" "[]"] bs(1) pl run unfolding ac by auto
  have "pl_loop fuel ?c a ?env src [] pl = Some (Inr (pl2\<lparr>pl_source := s2\<rparr>, False))"
    using pl2 bs(2) pl_loop_no_requests [of fuel ?c a ?env src "length bs" pl] by (simp add: f arrive_def pl_loop.simps(2))
  then show ?thesis
    using pl2(2) pl_final_flush_eq [of ?c p a ?env] unfolding ac
    by (auto simp: pl_run_def pl_finish_def publish_progress_def Let_def)
qed

lemma build_workers_total:
  assumes "\<And>i. \<exists>w. new_worker pc a i = Inr w"
  shows "\<exists>ws. build_workers pc a is = Inr ws"
proof (induction "is")
  case (Cons i js)
  then show ?case using assms [of i] by auto
qed simp

text \<open>
  The interface the harness asks of a workload: a source that hands over a fixed stream and ends,
  with values and times that fit. Everything the harness checks follows from it.
\<close>

locale workload_source =
  fixes fits :: "'c \<Rightarrow> bool" and job :: "'c \<Rightarrow> differential_config" and ops :: "'c \<Rightarrow> 's source" and start :: "'c \<Rightarrow> 's"
    and items :: "'c \<Rightarrow> batch_item list"
  assumes handed_over: "fits c \<Longrightarrow> delivers (ops c) (start c) (items c)"
    and job_fits: "fits c \<Longrightarrow> job_ok (job c)"
    and stream_fits: "fits c \<Longrightarrow> workload_ok (job c) (items c)"
begin

definition expected_run :: "'c \<Rightarrow> oracle_run" where
  "expected_run c =
     (let o1 = run_oracle (harness_oracle_config (dc_assigner (job c)) (dc_window_size (job c)) (dc_slide (job c))
                 (dc_allowed_lateness (job c))) (items c)
      in \<lparr>or_results = compute_results o1, or_drops = o_drops o1\<rparr>)"

lemma batches:
  assumes "fits c" "length (items c) < fuel"
  obtains bs s1 s2 where "hands_over (ops c) (start c) bs s1" "src_next (ops c) s1 = Inr (None, s2)" "concat bs = items c"
    "length bs < fuel" "drain_source fuel (ops c) (start c) = Some (bs, None)"
proof -
  obtain bs s1 s2 where b: "hands_over (ops c) (start c) bs s1" "src_next (ops c) s1 = Inr (None, s2)" "[] \<notin> set bs" "items c = concat bs"
    using handed_over [OF assms(1)] by (auto simp: delivers_def)
  then have "length bs < fuel" using length_concat_nonempty [OF b(3)] assms(2) by simp
  then show ?thesis using that [OF b(1,2)] b(4) drain_handed_over [OF b(1,2)] by simp
qed

lemma oracle_result: "fits c \<Longrightarrow> length (items c) < fuel \<Longrightarrow> feed_oracle fuel (job c) (ops c) (start c) = Some (Inr (expected_run c))"
  by (rule batches) (auto simp: feed_oracle_def expected_run_def Let_def)

lemma assigner_made:
  assumes "fits c"
  obtains a where "make_assigner (dc_assigner (job c)) (dc_window_size (job c)) (dc_slide (job c)) = Inr a"
proof -
  have "\<exists>a. make_assigner (dc_assigner (job c)) (dc_window_size (job c)) (dc_slide (job c)) = Inr a"
    using job_fits [OF assms] by (auto simp: job_ok_def make_assigner_def tumbling_assigner_def sliding_assigner_def)
  then show ?thesis using that by blast
qed

lemma processor_runs:
  assumes "fits c" "make_assigner (dc_assigner (job c)) (dc_window_size (job c)) (dc_slide (job c)) = Inr a"
  obtains p0 p where "new_processor (single_config (harness_partitioned_config (job c) n) a) = Inr p0"
    "run_items (single_config (harness_partitioned_config (job c) n) a) (items c) p0 = Inr p"
    "late_records_dropped (stats p) = or_drops (expected_run c)"
    "\<And>es. (\<And>k w. rows_of k w es = rows_of k w (effects (final_flush (single_config (harness_partitioned_config (job c) n) a) p))) \<Longrightarrow>
       sort_results (dedup_engine_results (memory_sink es)) = or_results (expected_run c)"
proof -
  let ?cfg = "single_config (harness_partitioned_config (job c) n) a"
  note A = make_assigner_facts [OF assms(2)]
  note W = stream_fits [OF assms(1), unfolded workload_ok_def horizon_def]
  have late: "0 \<le> dc_allowed_lateness (job c)" using job_fits [OF assms(1)] by (simp add: job_ok_def)
  have law: "lawful_assigner (assigner ?cfg) (dc_window_size (job c))" using A(2) by simp
  have "\<exists>p0. new_processor ?cfg = Inr p0" using late by (simp add: new_processor_def set_allowed_lateness_def)
  then obtain p0 where p0: "new_processor ?cfg = Inr p0" by blast
  have "\<exists>ws. assign_windows (assigner ?cfg) (event_time r) = Inr ws" if "Data r \<in> set (items c)" for r
    using W late that A(3) [of "event_time r"] by fastforce
  then obtain p where p: "run_items ?cfg (items c) p0 = Inr p"
    using bounded_stream_total [OF p0 law disjI1 [OF harness_config(5)]] W by blast
  have m: "oracle_matches ?cfg (harness_oracle_config (dc_assigner (job c)) (dc_window_size (job c)) (dc_slide (job c)) (lateness ?cfg))"
    by (rule harness_oracle_matches) (simp add: assms(2))
  have "event_time r \<le> i64_max - dc_window_size (job c) - lateness ?cfg" if "Data r \<in> set (items c)" for r
    using W that by (auto split: if_splits)
  then have h: "horizon_ok ?cfg (items c)" using short_horizon [OF law] by blast
  show ?thesis
    using that [OF p0 p] rows_match_oracle [OF p0 p law m h] by (simp add: expected_run_def Let_def)
qed

text \<open>The single-threaded engine returns and agrees with the oracle.\<close>

lemma single_threaded_agrees:
  assumes "fits c" "length (items c) < fuel"
  shows "\<exists>e. drive_pipeline fuel (job c) (ops c) (start c) = Some (Inr e) \<and>
    er_results e = or_results (expected_run c) \<and> er_late_dropped e = or_drops (expected_run c)"
proof -
  obtain a where a: "make_assigner (dc_assigner (job c)) (dc_window_size (job c)) (dc_slide (job c)) = Inr a"
    using assigner_made [OF assms(1)] .
  obtain bs s1 s2 where b: "hands_over (ops c) (start c) bs s1" "src_next (ops c) s1 = Inr (None, s2)" "concat bs = items c" "length bs < fuel"
    using batches [OF assms] by metis
  obtain p0 p where p: "new_processor (single_config (harness_partitioned_config (job c) 1) a) = Inr p0"
      "run_items (single_config (harness_partitioned_config (job c) 1) a) (items c) p0 = Inr p"
      "late_records_dropped (stats p) = or_drops (expected_run c)"
      "\<And>es. (\<And>k w. rows_of k w es = rows_of k w (effects (final_flush (single_config (harness_partitioned_config (job c) 1) a) p))) \<Longrightarrow>
         sort_results (dedup_engine_results (memory_sink es)) = or_results (expected_run c)"
    using processor_runs [OF assms(1) a] by metis
  have "\<exists>pl. new_pipeline (harness_pipeline_config (job c)) (start c) [] None = Inr pl"
    using job_fits [OF assms(1)] by (simp add: new_pipeline_def job_ok_def harness_pipeline_config_def set_allowed_lateness_def)
  then obtain pl where pl: "new_pipeline (harness_pipeline_config (job c)) (start c) [] None = Inr pl" by blast
  have "pl_core pl = p0"
    using new_pipeline_core [OF pl, of a "\<lambda>off. WriteOk"] p(1) unfolding harness_config(2) [of _ _ 1] by simp
  then obtain pl1 st where r: "pl_run fuel None (harness_pipeline_config (job c)) a (\<lambda>off. WriteOk) (ops c) [] pl = Some (Inr (pl1, st))"
      "pl_core pl1 = final_flush (single_config (harness_partitioned_config (job c) 1) a) p" "ps_counters st = stats (pl_core pl1)"
    using pipeline_finishes [OF pl b(1,2,4), of 1 a p] p(2) b(3) by auto
  show ?thesis
    using a pl r p(3) p(4) [of "effects (pl_core pl1)"] by (simp add: drive_pipeline_def collect_run_def final_flush_keeps)
qed

text \<open>The partitioned engine agrees with it under every schedule that runs the threads to their end.\<close>

lemma partitioned_agrees:
  assumes "fits c" "length (items c) < fuel" "drive_partitioned fuel schedule (job c) n (ops c) (start c) = Some r"
  shows "\<exists>e. r = Inr e \<and> er_results e = or_results (expected_run c) \<and> er_late_dropped e = or_drops (expected_run c)"
proof -
  let ?pc = "harness_partitioned_config (job c) n"
  obtain a where a: "make_assigner (dc_assigner (job c)) (dc_window_size (job c)) (dc_slide (job c)) = Inr a"
    using assigner_made [OF assms(1)] .
  obtain bs where b: "concat bs = items c" "drain_source fuel (ops c) (start c) = Some (bs, None)"
    using batches [OF assms(1,2)] by metis
  obtain p0 p where p: "new_processor (single_config ?pc a) = Inr p0" "run_items (single_config ?pc a) (items c) p0 = Inr p"
      "late_records_dropped (stats p) = or_drops (expected_run c)"
      "\<And>es. (\<And>k w. rows_of k w es = rows_of k w (effects (final_flush (single_config ?pc a) p))) \<Longrightarrow>
         sort_results (dedup_engine_results (memory_sink es)) = or_results (expected_run c)"
    using processor_runs [OF assms(1) a] by metis
  obtain ws where ws: "build_workers ?pc a [0..<unat (effective_workers ?pc)] = Inr ws"
    using build_workers_total [of ?pc a] p(1) new_processor_same [OF same_job_worker, of ?pc a]
    by (force simp: new_worker_def new_queue_def harness_partitioned_config_def)
  let ?s = "run_schedule schedule (initial_system (router_program (effective_workers ?pc) bs EndFinal) ws)"
  have fin: "finished ?s" and r: "r = bind_res (run_result ?s) (\<lambda>(ms, sink). Inr (collect_run sink (ms_counters ms)))"
    using assms(3) a b ws by (simp_all add: drive_partitioned_def Let_def split: if_splits)
  have run: "partitioned_run ?pc a bs EndFinal ws ?s"
    using ws run_schedule_reaches [OF reaches_refl] by (simp add: partitioned_run_def)
  have law: "lawful_assigner a (dc_window_size (job c))" by (rule make_assigner_facts(2) [OF a])
  have wr: "\<forall>i. writes_ok (worker_config ?pc a i)" by simp
  have p2: "run_items (single_config ?pc a) (concat bs) p0 = Inr p" using p(2) b(1) by simp
  have "sys_error ?s = None"
    using system_invD(5) [OF run_system_inv(1) [OF run]] partitions_never_fail(1) [OF run law p(1) p2 wr] by simp
  moreover have "rows_of k w (sys_sink ?s @ [Flush]) = rows_of k w (effects (final_flush (single_config ?pc a) p))" for k w
    using partitioned_rows [OF run fin law p(1) p2 wr, of k w] by (simp add: rows_of_def)
  ultimately show ?thesis
    using r p(3) p(4) [of "sys_sink ?s @ [Flush]"] partitioned_counters(2) [OF run fin law p(1) p2 wr]
    by (simp add: run_result_def collect_run_def)
qed

lemma partitioned_schedule_exists:
  assumes "fits c" "length (items c) < fuel"
  shows "\<exists>schedule r. drive_partitioned fuel schedule (job c) n (ops c) (start c) = Some r"
proof -
  let ?pc = "harness_partitioned_config (job c) n"
  obtain a where a: "make_assigner (dc_assigner (job c)) (dc_window_size (job c)) (dc_slide (job c)) = Inr a"
    using assigner_made [OF assms(1)] .
  obtain bs where b: "drain_source fuel (ops c) (start c) = Some (bs, None)" using batches [OF assms] by metis
  show ?thesis
  proof (cases "build_workers ?pc a [0..<unat (effective_workers ?pc)]")
    case (Inl e)
    then show ?thesis using a by (simp add: drive_partitioned_def Let_def)
  next
    case (Inr ws)
    let ?s0 = "initial_system (router_program (effective_workers ?pc) bs EndFinal) ws"
    have "partitioned_run ?pc a bs EndFinal ws ?s0" using Inr reaches_refl by (simp add: partitioned_run_def)
    then obtain s ts where "finished s" "run_schedule ts ?s0 = s"
      using can_finish run_system_inv(1) reaches_schedule by blast
    then show ?thesis using a b Inr by (intro exI [of _ ts]) (simp add: drive_partitioned_def Let_def)
  qed
qed

end

section \<open>The workloads of the harness\<close>

text \<open>One generator per seed.\<close>

definition gen_of :: "'g random_ops \<times> differential_config \<times> u64 \<Rightarrow> generator_config" where
  "gen_of c = make_gen_config (fst (snd c)) (snd (snd c))"

definition generator_fits :: "'g random_ops \<times> differential_config \<times> u64 \<Rightarrow> bool" where
  "generator_fits c \<longleftrightarrow>
     lawful_random (fst c) \<and> job_ok (fst (snd c)) \<and> generator_ok (gen_of c) \<and>
     int (unat (dc_records_per_seed (fst (snd c)))) \<le> horizon (fst (snd c)) \<and>
     1000 * int (unat (dc_records_per_seed (fst (snd c)))) \<le> i64_max"

definition generator_items :: "'g random_ops \<times> differential_config \<times> u64 \<Rightarrow> batch_item list" where
  "generator_items c =
     fst (gen_loop (fst c) (gen_of c) (unat (dc_records_per_seed (fst (snd c)))) (fresh_generator (fst c) (gen_of c)))"

lemma data_of_length: "length (data_of its) = length (filter is_data its)"
  by (induction its rule: data_of.induct) (simp_all add: is_data_def)

lemma gen_loop_delivers:
  assumes "gc_batch_size gen \<noteq> 0"
  shows "delivers (generator_source R gen) (fresh_generator R gen) (fst (gen_loop R gen (unat (gc_num_records gen)) (fresh_generator R gen)))"
  using generator_hands_over [OF assms, of "fresh_generator R gen" "unat (gc_num_records gen)" R] unfolding delivers_def by force

lemma gen_of_sel [simp]:
  "gc_num_records (gen_of c) = dc_records_per_seed (fst (snd c))" "gc_batch_size (gen_of c) = 1024"
  "gc_event_time_step (gen_of c) = 1" "gc_max_disorder (gen_of c) = dc_max_disorder (fst (snd c))"
  by (simp_all add: gen_of_def make_gen_config_def)

interpretation gen: workload_source generator_fits "\<lambda>c. fst (snd c)" "\<lambda>c. generator_source (fst c) (gen_of c)"
  "\<lambda>c. fresh_generator (fst c) (gen_of c)" generator_items
proof unfold_locales
  fix c :: "'a random_ops \<times> differential_config \<times> u64"
  assume f: "generator_fits c"
  then show "job_ok (fst (snd c))" by (simp add: generator_fits_def)
  show "delivers (generator_source (fst c) (gen_of c)) (fresh_generator (fst c) (gen_of c)) (generator_items c)"
    unfolding generator_items_def using gen_loop_delivers [of "gen_of c" "fst c"] by simp
  have n: "1000 * int (unat (dc_records_per_seed (fst (snd c)))) \<le> i64_max" "0 \<le> dc_max_disorder (fst (snd c))"
    using f by (auto simp: generator_fits_def generator_ok_def)
  have "N \<le> 2 ^ 63" if "1000 * int N \<le> i64_max" for N using that by (simp add: i64_nums)
  then have "unat (dc_records_per_seed (fst (snd c))) \<le> 2 ^ 63" using n(1) by blast
  then have "1 \<le> val r \<and> val r \<le> 1000 \<and> 0 \<le> event_time r \<and> event_time r \<le> int (unat (dc_records_per_seed (fst (snd c))))"
    if "Data r \<in> set (generator_items c)" for r
    using gen_loop_records [of "fst c" "gen_of c" "fresh_generator (fst c) (gen_of c)" "unat (dc_records_per_seed (fst (snd c)))" r]
      f that n by (simp add: generator_fits_def generator_items_def)
  moreover have "length (data_of (generator_items c)) = unat (dc_records_per_seed (fst (snd c)))"
    by (simp add: data_of_length generator_items_def gen_loop_data)
  ultimately show "workload_ok (fst (snd c)) (generator_items c)"
    using f n by (fastforce simp: workload_ok_def generator_fits_def)
qed

lemma gen_loop_length: "length (fst (gen_loop R cfg n g)) \<le> 3 * n"
proof (induction n arbitrary: g)
  case (Suc n)
  have "length (fst (gen_step R cfg g)) \<le> 3"
    by (simp add: gen_step_def watermark_due_def barrier_due_def Let_def split_def)
  then show ?case using Suc [of "snd (gen_step R cfg g)"] by (simp add: gen_loop_Suc del: gen_loop.simps(2))
qed simp

lemma generator_items_length: "length (generator_items c) \<le> 3 * unat (dc_records_per_seed (fst (snd c)))"
  using gen_loop_length by (simp add: generator_items_def)

section \<open>The loop over the seeds\<close>

definition all_passed :: "nat \<Rightarrow> 'd harness_result \<Rightarrow> bool" where
  "all_passed k res \<longleftrightarrow>
     hr_seeds_tested res = of_nat k \<and> hr_seeds_passed res = of_nat k \<and> hr_seeds_failed res = 0 \<and> hr_failed_seeds res = [] \<and>
     hr_failure_detail res = None \<and> hr_late_dropped res = hr_predicted_drops res"

lemma all_passed_empty: "all_passed 0 empty_result"
  by (simp add: all_passed_def empty_result_def)

lemma all_passed_tally:
  "all_passed k res \<Longrightarrow> er_late_dropped e = or_drops orc \<Longrightarrow> all_passed (Suc k) (tally_verdict seed None (tally_run e orc res))"
  by (simp add: all_passed_def tally_verdict_def tally_run_def)

lemma seed_loop_passes:
  assumes body: "\<And>seed k res. all_passed k res \<Longrightarrow> \<exists>res'. body seed res = Some (Inr res') \<and> all_passed (Suc k) res'"
    and "all_passed k res" "last_seed \<noteq> u64_max" "unat seed \<le> unat last_seed + 1" "unat last_seed + 1 - unat seed < fuel"
  shows "\<exists>res'. seed_loop fuel body seed last_seed res = Some (Inr res') \<and> all_passed (k + (unat last_seed + 1 - unat seed)) res'"
  using assms(2,4,5)
proof (induction fuel arbitrary: seed k res)
  case (Suc fuel)
  show ?case
  proof (cases "seed \<le> last_seed")
    case False
    then have "unat seed = unat last_seed + 1" using Suc.prems(2) by (simp add: word_le_nat_alt)
    then show ?thesis using False Suc.prems(1) by simp
  next
    case True
    then have "seed \<noteq> u64_max" using assms(3) by (auto simp: u64_max_def dest: word_order.extremum_uniqueI)
    then have s: "unat (seed + 1) = unat seed + 1" by (rule u64_inc_unat)
    have le: "unat seed \<le> unat last_seed" using True by (simp add: word_le_nat_alt)
    obtain res1 where 1: "body seed res = Some (Inr res1)" "all_passed (Suc k) res1" using body [OF Suc.prems(1)] by blast
    obtain res' where r: "seed_loop fuel body (seed + 1) last_seed res1 = Some (Inr res')"
        "all_passed (Suc k + (unat last_seed + 1 - unat (seed + 1))) res'"
    proof -
      have "unat (seed + 1) \<le> unat last_seed + 1" "unat last_seed + 1 - unat (seed + 1) < fuel"
        using s le Suc.prems(3) by linarith+
      from Suc.IH [OF 1(2) this] show ?thesis using that by blast
    qed
    have "Suc k + (unat last_seed + 1 - unat (seed + 1)) = k + (unat last_seed + 1 - unat seed)"
      using s le by simp
    then have "all_passed (k + (unat last_seed + 1 - unat seed)) res'" using r(2) by (simp only:)
    then show ?thesis using True 1(1) r(1) by (intro exI [of _ res'] conjI) simp_all
  qed
qed simp

text \<open>Every seed is at most the last 64-bit one: the loop goes on while its body succeeds.\<close>

lemma seed_loop_goes_on:
  assumes body: "\<And>seed k res. all_passed k res \<Longrightarrow> \<exists>res'. body seed res = Some (Inr res') \<and> all_passed (Suc k) res'"
    and "n \<le> fuel" "all_passed 0 res"
  shows "\<exists>res'. seed_loop fuel body seed u64_max res = seed_loop (fuel - n) body (seed + of_nat n) u64_max res' \<and> all_passed n res'"
  using assms(2)
proof (induction n)
  case 0
  then show ?case using assms(3) by auto
next
  case (Suc n)
  then obtain res1 where 1: "seed_loop fuel body seed u64_max res = seed_loop (fuel - n) body (seed + of_nat n) u64_max res1" "all_passed n res1"
    by auto
  obtain res2 where 2: "body (seed + of_nat n) res1 = Some (Inr res2)" "all_passed (Suc n) res2" using body [OF 1(2)] by blast
  have "fuel - n = Suc (fuel - Suc n)" "seed + of_nat n \<le> u64_max" using Suc.prems by (simp_all add: u64_max_def)
  then show ?case using 1(1) 2 by (simp add: add.assoc) (metis add.commute)
qed

text \<open>The last seed of a range that does not reach the end of the 64-bit seeds.\<close>

lemma last_seed_facts:
  assumes "0 < dc_num_seeds dc" "unat (dc_seed_start dc) + unat (dc_num_seeds dc) < 2 ^ 64"
  shows "unat (dc_seed_start dc + dc_num_seeds dc - 1) + 1 = unat (dc_seed_start dc) + unat (dc_num_seeds dc)"
    "dc_seed_start dc + dc_num_seeds dc - 1 \<noteq> u64_max"
proof -
  have s: "unat (dc_seed_start dc + dc_num_seeds dc) = unat (dc_seed_start dc) + unat (dc_num_seeds dc)"
    using assms(2) by (simp add: unat_word_ariths)
  moreover have "0 < unat (dc_num_seeds dc)" using assms(1) by (simp add: unat_gt_0 word_gt_0)
  ultimately have "dc_seed_start dc + dc_num_seeds dc \<noteq> 0" by auto
  then have "unat (dc_seed_start dc + dc_num_seeds dc - 1) = unat (dc_seed_start dc + dc_num_seeds dc) - 1"
    by (simp add: unat_minus_one)
  then show l: "unat (dc_seed_start dc + dc_num_seeds dc - 1) + 1 = unat (dc_seed_start dc) + unat (dc_num_seeds dc)"
    using s \<open>0 < unat (dc_num_seeds dc)\<close> by simp
  show "dc_seed_start dc + dc_num_seeds dc - 1 \<noteq> u64_max"
  proof
    assume "dc_seed_start dc + dc_num_seeds dc - 1 = u64_max"
    then have "unat (dc_seed_start dc + dc_num_seeds dc - 1) = 2 ^ 64 - 1"
      by (simp add: u64_max_def unsigned_minus_1_eq_mask mask_eq_exp_minus_1)
    then show False using l assms(2) by simp
  qed
qed

section \<open>The merged workload\<close>

text \<open>The merge of one seed; the step budget of the merge is part of the workload.\<close>

record 'g merged_workload =
  mw_random :: "'g random_ops"
  mw_job :: differential_config
  mw_seed :: u64
  mw_sources :: u32
  mw_budget :: nat

definition mw_config :: "'g merged_workload \<Rightarrow> merge_config" where
  "mw_config c = make_merge_config (mw_job c) (mw_seed c) (mw_sources c)"

definition mw_start :: "'g merged_workload \<Rightarrow> 'g generator merge_state" where
  "mw_start c = (case new_merge (mw_random c) 0 (mw_config c) of Inl e \<Rightarrow> empty_merge (mw_config c) | Inr m \<Rightarrow> m)"

definition mw_source :: "'g merged_workload \<Rightarrow> 'g generator merge_state source" where
  "mw_source c = merge_source (mw_budget c) (mw_start c)"

definition mw_items :: "'g merged_workload \<Rightarrow> batch_item list" where
  "mw_items c =
     (case drain_source (mw_budget c) (mw_source c) (mw_start c) of Some (bs, None) \<Rightarrow> concat bs | _ \<Rightarrow> [])"

definition mw_cost :: "differential_config \<Rightarrow> u32 \<Rightarrow> nat" where
  "mw_cost dc k = unat k * (3 * unat (dc_records_per_seed dc) + 1) + unat (dc_idle_span_length dc)"

definition merged_fits :: "'g merged_workload \<Rightarrow> bool" where
  "merged_fits c \<longleftrightarrow>
     lawful_random (mw_random c) \<and> job_ok (mw_job c) \<and> 0 < mw_sources c \<and> generator_ok (make_gen_config (mw_job c) (mw_seed c)) \<and>
     int (unat (mw_sources c)) * int (unat (dc_records_per_seed (mw_job c))) \<le> horizon (mw_job c) \<and>
     1000 * (int (unat (mw_sources c)) * int (unat (dc_records_per_seed (mw_job c)))) \<le> i64_max \<and>
     mw_cost (mw_job c) (mw_sources c) < 2 ^ 64 - 1 \<and> mw_cost (mw_job c) (mw_sources c) < mw_budget c"

lemma takes_set: "takes D out D' \<Longrightarrow> x \<in> set out \<Longrightarrow> \<exists>i < length D. x \<in> set (D ! i)"
proof (induction rule: takes.induct)
  case (takes_some i D xs ys out D')
  show ?case
  proof (cases "x \<in> set xs")
    case True
    then show ?thesis using takes_some(1,2) by auto
  next
    case False
    then obtain j where "j < length D" "x \<in> set (D[i := ys] ! j)" using takes_some by auto
    then show ?thesis using takes_some(2) by (cases "j = i") auto
  qed
qed simp

lemma takes_length: "takes D out D' \<Longrightarrow> length out + sum_list (map length D') = sum_list (map length D)"
proof (induction rule: takes.induct)
  case (takes_some i D xs ys out D')
  have "length xs + sum_list (map length (D[i := ys])) = sum_list (map length D)"
    using takes_some(1,2) elem_le_sum_list [of i "map length D"] by (simp add: map_update Groups_List.sum_list_update)
  then show ?case using takes_some by simp
qed simp

lemma fold_add_generator:
  assumes "\<And>g. g \<in> set gens \<Longrightarrow> generator_ok (g\<lparr>gc_checkpoint_interval := effective_interval cfg g\<rparr>) \<and> sorted_wrt (\<le>) (map span_start (gc_idle_spans g))"
  shows "\<exists>m'. fold_res (add_generator R cfg) gens m = Inr m' \<and> mg_config m' = mg_config m \<and>
    map (\<lambda>st. (ch_ops st, ch_source st, ch_idle_spans st)) (mg_channels m') =
      map (\<lambda>st. (ch_ops st, ch_source st, ch_idle_spans st)) (mg_channels m) @
      map (\<lambda>g. let gen = g\<lparr>gc_checkpoint_interval := effective_interval cfg g\<rparr>
               in (generator_source R gen, fresh_generator R gen, gc_idle_spans g)) gens"
  using assms
proof (induction gens arbitrary: m)
  case (Cons g gens)
  let ?gen = "g\<lparr>gc_checkpoint_interval := effective_interval cfg g\<rparr>"
  have "\<exists>m1. add_generator R cfg g m = Inr m1"
    using Cons.prems [of g] by (simp add: add_generator_def new_generator_def add_input_def Let_def)
  then obtain m1 where m1: "add_generator R cfg g m = Inr m1" by blast
  then have "add_input (generator_source R ?gen) (fresh_generator R ?gen) (gc_idle_spans g) m = Inr m1"
    using Cons.prems [of g] by (simp add: add_generator_def new_generator_def Let_def)
  note A = add_input_facts [OF this]
  obtain m' where "fold_res (add_generator R cfg) gens m1 = Inr m'" "mg_config m' = mg_config m1"
      "map (\<lambda>st. (ch_ops st, ch_source st, ch_idle_spans st)) (mg_channels m') =
        map (\<lambda>st. (ch_ops st, ch_source st, ch_idle_spans st)) (mg_channels m1) @
        map (\<lambda>g. let gen = g\<lparr>gc_checkpoint_interval := effective_interval cfg g\<rparr>
                 in (generator_source R gen, fresh_generator R gen, gc_idle_spans g)) gens"
    using Cons.IH [of m1] Cons.prems by auto
  then show ?case using m1 A by (intro exI [of _ m']) (simp add: Let_def)
qed simp

text \<open>The generator configurations of a merged workload.\<close>

definition mw_gen :: "'g merged_workload \<Rightarrow> nat \<Rightarrow> generator_config" where
  "mw_gen c i = (mc_sources (mw_config c) ! i)\<lparr>gc_checkpoint_interval := effective_interval (mw_config c) (mc_sources (mw_config c) ! i)\<rparr>"

lemma mw_config_sources:
  "length (mc_sources (mw_config c)) = unat (mw_sources c)" "mc_batch_size (mw_config c) = 1024"
  "mc_live_inputs (mw_config c) = False" "mc_idle_timeout_wall (mw_config c) = 0"
proof -
  have "2 \<le> mw_sources c \<Longrightarrow> Suc (unat (mw_sources c) - Suc 0) = unat (mw_sources c)"
    by (cases "unat (mw_sources c)") (auto simp: word_le_nat_alt)
  then show "length (mc_sources (mw_config c)) = unat (mw_sources c)" "mc_batch_size (mw_config c) = 1024"
    "mc_live_inputs (mw_config c) = False" "mc_idle_timeout_wall (mw_config c) = 0"
    by (simp_all add: mw_config_def make_merge_config_def Let_def)
qed

lemma mw_source_at:
  assumes "i < unat (mw_sources c)"
  shows "\<exists>spans. mc_sources (mw_config c) ! i =
      (make_gen_config (mw_job c) (mw_seed c + of_nat i * 7919))\<lparr>gc_event_time_step := int (unat (mw_sources c)) - int i, gc_idle_spans := spans\<rparr> \<and>
    (spans = [] \<or> Suc i = unat (mw_sources c) \<and>
       spans = [\<lparr>span_start = dc_idle_span_start (mw_job c), span_length = dc_idle_span_length (mw_job c)\<rparr>])"
proof -
  let ?k = "unat (mw_sources c)"
  let ?f = "\<lambda>i. (make_gen_config (mw_job c) (mw_seed c + of_nat i * 7919))\<lparr>gc_event_time_step := int ?k - int i\<rparr>"
  let ?gens = "map ?f [0..<?k]" and ?sp = "\<lparr>span_start = dc_idle_span_start (mw_job c), span_length = dc_idle_span_length (mw_job c)\<rparr>"
  have at: "?gens ! j = ?f j" if "j < ?k" for j using that by simp
  have f: "?f j = (make_gen_config (mw_job c) (mw_seed c + of_nat j * 7919))\<lparr>gc_event_time_step := int ?k - int j, gc_idle_spans := []\<rparr>" for j
    by (simp add: make_gen_config_def)
  have ne: "?gens \<noteq> []" "List.last ?gens = ?f (?k - 1)" using assms by (auto simp: last_conv_nth)
  have "mc_sources (mw_config c) = ?gens \<or>
      mc_sources (mw_config c) = butlast ?gens @ [(List.last ?gens)\<lparr>gc_idle_spans := gc_idle_spans (List.last ?gens) @ [?sp]\<rparr>]"
    unfolding mw_config_def make_merge_config_def Let_def by simp
  then consider (plain) "mc_sources (mw_config c) = ?gens"
    | (gap) "mc_sources (mw_config c) = butlast ?gens @ [(List.last ?gens)\<lparr>gc_idle_spans := gc_idle_spans (List.last ?gens) @ [?sp]\<rparr>]"
    by blast
  then show ?thesis
  proof cases
    case plain
    then show ?thesis using at [OF assms] f [of i] by (intro exI [of _ "[]"]) simp
  next
    case gap
    show ?thesis
    proof (cases "Suc i = ?k")
      case True
      then have "mc_sources (mw_config c) ! i = (?f i)\<lparr>gc_idle_spans := gc_idle_spans (?f i) @ [?sp]\<rparr>"
        unfolding gap using ne(2) True [symmetric] by (simp add: nth_append)
      then show ?thesis using True by (intro exI [of _ "[?sp]"]) (simp add: make_gen_config_def)
    next
      case False
      then have "mc_sources (mw_config c) ! i = ?f i"
        unfolding gap using assms at [OF assms] by (auto simp: nth_append nth_butlast)
      then show ?thesis using f [of i] by (intro exI [of _ "[]"]) simp
    qed
  qed
qed

lemma mw_gen_facts:
  assumes "i < unat (mw_sources c)"
  shows "gc_num_records (mw_gen c i) = dc_records_per_seed (mw_job c)" "gc_batch_size (mw_gen c i) = 1024"
    "gc_event_time_step (mw_gen c i) = int (unat (mw_sources c)) - int i" "gc_max_disorder (mw_gen c i) = dc_max_disorder (mw_job c)"
    "generator_ok (mw_gen c i) = generator_ok (make_gen_config (mw_job c) (mw_seed c))"
    "sorted_wrt (\<le>) (map span_start (gc_idle_spans (mc_sources (mw_config c) ! i)))"
    "sum_list (map (unat \<circ> span_length) (gc_idle_spans (mc_sources (mw_config c) ! i))) \<le>
       (if Suc i = unat (mw_sources c) then unat (dc_idle_span_length (mw_job c)) else 0)"
proof -
  have "int i < int (unat (mw_sources c))" using assms by (simp only: of_nat_less_iff)
  then have "int i < uint (mw_sources c)" by simp
  then show "gc_num_records (mw_gen c i) = dc_records_per_seed (mw_job c)" "gc_batch_size (mw_gen c i) = 1024"
    "gc_event_time_step (mw_gen c i) = int (unat (mw_sources c)) - int i" "gc_max_disorder (mw_gen c i) = dc_max_disorder (mw_job c)"
    "generator_ok (mw_gen c i) = generator_ok (make_gen_config (mw_job c) (mw_seed c))"
    "sorted_wrt (\<le>) (map span_start (gc_idle_spans (mc_sources (mw_config c) ! i)))"
    "sum_list (map (unat \<circ> span_length) (gc_idle_spans (mc_sources (mw_config c) ! i))) \<le>
       (if Suc i = unat (mw_sources c) then unat (dc_idle_span_length (mw_job c)) else 0)"
    using mw_source_at [OF assms] by (auto simp: mw_gen_def make_gen_config_def generator_ok_def)
qed

definition mw_streams :: "'g merged_workload \<Rightarrow> batch_item list list" where
  "mw_streams c = map (\<lambda>i. fst (gen_loop (mw_random c) (mw_gen c i) (unat (dc_records_per_seed (mw_job c)))
      (fresh_generator (mw_random c) (mw_gen c i)))) [0..<unat (mw_sources c)]"

lemma mw_start_reset:
  assumes "merged_fits c"
  obtains m0 where "new_merge (mw_random c) 0 (mw_config c) = Inr (mw_start c)" "mw_start c = reset_progress 0 m0"
    "mg_config m0 = mw_config c" "length (mg_channels m0) = unat (mw_sources c)"
    "\<And>i. i < unat (mw_sources c) \<Longrightarrow> ch_ops (mg_channels m0 ! i) = generator_source (mw_random c) (mw_gen c i) \<and>
       ch_source (mg_channels m0 ! i) = fresh_generator (mw_random c) (mw_gen c i) \<and>
       ch_idle_spans (mg_channels m0 ! i) = gc_idle_spans (mc_sources (mw_config c) ! i)"
proof -
  let ?cfg = "mw_config c" and ?R = "mw_random c" and ?k = "unat (mw_sources c)"
  note S = mw_config_sources [of c]
  have "generator_ok (g\<lparr>gc_checkpoint_interval := effective_interval ?cfg g\<rparr>) \<and> sorted_wrt (\<le>) (map span_start (gc_idle_spans g))"
    if g: "g \<in> set (mc_sources ?cfg)" for g
  proof -
    obtain i where "i < length (mc_sources ?cfg)" "mc_sources ?cfg ! i = g" using g unfolding in_set_conv_nth by blast
    then have "i < ?k" "g = mc_sources ?cfg ! i" using S(1) by simp_all
    then show ?thesis using mw_gen_facts(5,6) [of i c] assms by (simp add: mw_gen_def merged_fits_def)
  qed
  then obtain m0 where m0: "fold_res (add_generator ?R ?cfg) (mc_sources ?cfg) (empty_merge ?cfg) = Inr m0" "mg_config m0 = ?cfg"
      "map (\<lambda>st. (ch_ops st, ch_source st, ch_idle_spans st)) (mg_channels m0) =
        map (\<lambda>g. let gen = g\<lparr>gc_checkpoint_interval := effective_interval ?cfg g\<rparr>
                 in (generator_source ?R gen, fresh_generator ?R gen, gc_idle_spans g)) (mc_sources ?cfg)" (is "?l = ?r")
    using fold_add_generator [of "mc_sources ?cfg" ?cfg ?R "empty_merge ?cfg"] by (auto simp: empty_merge_def)
  have new: "new_merge ?R 0 ?cfg = Inr (reset_progress 0 m0)" using m0(1) S by (simp add: new_merge_def)
  have len: "length (mg_channels m0) = ?k" using arg_cong [OF m0(3), of length] S(1) by simp
  have "(ch_ops (mg_channels m0 ! i), ch_source (mg_channels m0 ! i), ch_idle_spans (mg_channels m0 ! i)) =
      (generator_source ?R (mw_gen c i), fresh_generator ?R (mw_gen c i), gc_idle_spans (mc_sources ?cfg ! i))" if "i < ?k" for i
    using arg_cong [OF m0(3), of "\<lambda>xs. xs ! i"] that len S(1) by (simp add: mw_gen_def Let_def)
  then show ?thesis using that [of m0] new m0(2) len by (simp add: mw_start_def)
qed

lemma merge_source_hands_over:
  "merge_hands_over budget (\<lambda>n k. 0) m bs m1 \<Longrightarrow> hands_over (merge_source budget m0) m bs m1"
  by (induction bs arbitrary: m) (auto simp: merge_source_def)

lemma mw_streams_sel:
  "length (mw_streams c) = unat (mw_sources c)"
  "i < unat (mw_sources c) \<Longrightarrow> mw_streams c ! i = fst (gen_loop (mw_random c) (mw_gen c i) (unat (dc_records_per_seed (mw_job c)))
      (fresh_generator (mw_random c) (mw_gen c i)))"
  by (simp_all add: mw_streams_def)

lemma sum_list_nth_le: "(\<And>i. i < length xs \<Longrightarrow> xs ! i \<le> b i) \<Longrightarrow> sum_list xs \<le> (\<Sum>i<length xs. b i)" for xs :: "nat list"
  unfolding sum_list_sum_nth atLeast0LessThan by (rule sum_mono) simp

lemma mw_start_live:
  assumes "merged_fits c"
  shows "merge_live (mw_start c) (mw_streams c)" "merge_cost (mw_start c) (mw_streams c) \<le> mw_cost (mw_job c) (mw_sources c)"
    "mc_batch_size (mg_config (mw_start c)) \<noteq> 0"
proof -
  let ?k = "unat (mw_sources c)" and ?n = "unat (dc_records_per_seed (mw_job c))"
  obtain m0 where m0: "mw_start c = reset_progress 0 m0" "mg_config m0 = mw_config c" "length (mg_channels m0) = ?k"
      "\<And>i. i < ?k \<Longrightarrow> ch_ops (mg_channels m0 ! i) = generator_source (mw_random c) (mw_gen c i) \<and>
         ch_source (mg_channels m0 ! i) = fresh_generator (mw_random c) (mw_gen c i) \<and>
         ch_idle_spans (mg_channels m0 ! i) = gc_idle_spans (mc_sources (mw_config c) ! i)"
    using mw_start_reset [OF assms] by metis
  have k: "0 < ?k" using assms by (simp add: merged_fits_def unat_gt_0 word_gt_0)
  have len: "length (mw_streams c) = length (mg_channels m0)" using m0(3) mw_streams_sel(1) by simp
  have d: "delivers (ch_ops (mg_channels m0 ! i)) (ch_source (mg_channels m0 ! i)) (mw_streams c ! i)" if "i < length (mw_streams c)" for i
    using that m0(4) [of i] mw_gen_facts(1,2) [of i c] mw_streams_sel(1) [of c] mw_streams_sel(2) [of i c] gen_loop_delivers [of "mw_gen c i" "mw_random c"]
    by simp
  let ?xs = "map2 (\<lambda>st. input_cost (ch_idle_spans st)) (mg_channels m0) (mw_streams c)"
  let ?b = "\<lambda>i. (3 * ?n + 1) + (if i = ?k - 1 then unat (dc_idle_span_length (mw_job c)) else 0)"
  have "?xs ! i \<le> ?b i" if "i < length ?xs" for i
  proof -
    have i: "i < ?k" using that m0(3) by simp
    have "length (mw_streams c ! i) \<le> 3 * ?n" using gen_loop_length mw_streams_sel(2) [OF i] by simp
    moreover have "?xs ! i = length (mw_streams c ! i) + sum_list (map (unat \<circ> span_length) (gc_idle_spans (mc_sources (mw_config c) ! i))) + 1"
      using m0(3) m0(4) [OF i] i len by (simp add: input_cost_def)
    moreover have "(Suc i = ?k) = (i = ?k - 1)" using i by auto
    ultimately show ?thesis using mw_gen_facts(7) [OF i] by (simp only:)
  qed
  from sum_list_nth_le [OF this] have "sum_list ?xs \<le> (\<Sum>i<length ?xs. ?b i)" .
  also have "\<dots> = mw_cost (mw_job c) (mw_sources c)"
  proof -
    have s: "(\<Sum>i<k. a + (if i = k - 1 then b else 0)) = k * a + b" if "0 < k" for k a b :: nat
      using that by (simp add: sum.distrib)
    have l: "length ?xs = ?k" using m0(3) mw_streams_sel(1) [of c] by simp
    show ?thesis unfolding l mw_cost_def by (rule s [OF k])
  qed
  finally have cost: "sum_list ?xs \<le> mw_cost (mw_job c) (mw_sources c)" .
  have ne: "mg_channels m0 \<noteq> []" using k m0(3) by auto
  have small: "sum_list ?xs < 2 ^ 64 - 1" using cost assms by (simp add: merged_fits_def)
  show "merge_live (mw_start c) (mw_streams c)" "merge_cost (mw_start c) (mw_streams c) \<le> mw_cost (mw_job c) (mw_sources c)"
    using reset_live [OF ne len d small, of 0] cost m0(1) by simp_all
  show "mc_batch_size (mg_config (mw_start c)) \<noteq> 0" using m0(1,2) mw_config_sources(2) [of c] by (simp add: reset_progress_def)
qed

lemma mw_delivered:
  assumes "merged_fits c"
  obtains bs m1 m2 where "hands_over (mw_source c) (mw_start c) bs m1" "src_next (mw_source c) m1 = Inr (None, m2)" "[] \<notin> set bs"
    "mw_items c = concat bs" "length (mw_items c) \<le> 2 * mw_cost (mw_job c) (mw_sources c)"
    "takes (map data_of (mw_streams c)) (data_of (mw_items c)) (replicate (unat (mw_sources c)) [])"
proof -
  note L = mw_start_live [OF assms]
  have f: "merge_cost (mw_start c) (mw_streams c) < mw_budget c" using L(2) assms by (simp add: merged_fits_def)
  obtain bs m1 m2 R2 where D: "merge_hands_over (mw_budget c) (\<lambda>n k. 0) (mw_start c) bs m1"
      "merge_next (mw_budget c) (\<lambda>k. 0) m1 = Some (Inr (None, m2))" "turns (mw_start c) (mw_streams c) (concat bs) m2 R2"
      "merge_live m2 R2" "all_exhausted m2" "[] \<notin> set bs" "length bs \<le> merge_cost (mw_start c) (mw_streams c)"
    using merge_drains [OF L(1) f L(3), of "\<lambda>n k. 0"] by blast
  have h: "hands_over (mw_source c) (mw_start c) bs m1" "src_next (mw_source c) m1 = Inr (None, m2)"
    using merge_source_hands_over [OF D(1)] D(2) by (simp_all add: mw_source_def merge_source_def)
  have "drain_source (mw_budget c) (mw_source c) (mw_start c) = Some (bs, None)"
    using drain_handed_over [OF h] D(7) f by simp
  then have items: "mw_items c = concat bs" by (simp add: mw_items_def)
  have "length (concat bs) \<le> 2 * mw_cost (mw_job c) (mw_sources c)" using turns_length [OF D(3)] L(2) by simp
  moreover have "length R2 = length (mw_streams c)" using D(3) by (induction rule: turns.induct) (simp_all add: after_turn_def)
  then have "map data_of R2 = replicate (unat (mw_sources c)) []"
    using arg_cong [OF exhausted_empty [OF D(4,5)], of "map data_of"] mw_streams_sel(1) [of c] by simp
  ultimately show ?thesis using that [OF h D(6) items] turns_takes [OF D(3)] items by simp
qed

interpretation mgd: workload_source merged_fits mw_job mw_source mw_start mw_items
proof unfold_locales
  fix c :: "'a merged_workload"
  assume f: "merged_fits c"
  let ?k = "unat (mw_sources c)" and ?n = "unat (dc_records_per_seed (mw_job c))"
  show "job_ok (mw_job c)" using f by (simp add: merged_fits_def)
  obtain bs m1 m2 where D: "hands_over (mw_source c) (mw_start c) bs m1" "src_next (mw_source c) m1 = Inr (None, m2)" "[] \<notin> set bs"
      "mw_items c = concat bs" "takes (map data_of (mw_streams c)) (data_of (mw_items c)) (replicate ?k [])"
    using mw_delivered [OF f] by metis
  then show "delivers (mw_source c) (mw_start c) (mw_items c)" by (auto simp: delivers_def)
  have big: "1000 * (int ?k * int ?n) \<le> i64_max" and hor: "int ?k * int ?n \<le> horizon (mw_job c)"
    and ok: "generator_ok (make_gen_config (mw_job c) (mw_seed c))" and R: "lawful_random (mw_random c)"
    using f by (simp_all only: merged_fits_def)
  have k: "1 \<le> ?k" using f by (simp add: merged_fits_def Suc_le_eq unat_gt_0 word_gt_0)
  have kn: "int a \<le> int b * int a" if "1 \<le> b" for a b :: nat using that by (simp add: mult_le_cancel_right1)
  have "1000 * int ?n \<le> i64_max" using big kn [OF k, of ?n] by linarith
  moreover have "N \<le> 2 ^ 63" if "1000 * int N \<le> i64_max" for N using that by (simp add: i64_nums)
  ultimately have n: "?n \<le> 2 ^ 63" by blast
  have rec: "0 \<le> val r \<and> val r \<le> 1000 \<and> 0 \<le> event_time r \<and> event_time r \<le> int ?k * int ?n" if r: "Data r \<in> set (mw_streams c ! i)" and i: "i < ?k" for r i
  proof -
    have "0 \<le> gc_max_disorder (mw_gen c i)" "0 \<le> gc_event_time_step (mw_gen c i)"
      using ok mw_gen_facts(5) [OF i] by (auto simp: generator_ok_def)
    then have "1 \<le> val r \<and> val r \<le> 1000 \<and> 0 \<le> event_time r \<and> event_time r \<le> int ?n * gc_event_time_step (mw_gen c i)"
      using gen_loop_records [of "mw_random c" "mw_gen c i" "fresh_generator (mw_random c) (mw_gen c i)" ?n r] R n r mw_streams_sel(2) [OF i] by simp
    moreover have "int ?n * gc_event_time_step (mw_gen c i) \<le> int ?n * int ?k" using mw_gen_facts(3) [OF i] by (simp add: mult_left_mono)
    ultimately show ?thesis by (simp add: mult.commute)
  qed
  have data: "Data r \<in> set its" if "r \<in> set (data_of its)" for r its
    using that by (induction its rule: data_of.induct) auto
  have data': "r \<in> set (data_of its)" if "Data r \<in> set its" for r its
    using that by (induction its rule: data_of.induct) auto
  have "\<exists>i < ?k. Data r \<in> set (mw_streams c ! i)" if "Data r \<in> set (mw_items c)" for r
    using takes_set [OF D(5) data' [OF that]] mw_streams_sel(1) [of c] data by auto
  moreover have "length (data_of (mw_items c)) = ?k * ?n"
  proof -
    have "map length (map data_of (mw_streams c)) = replicate ?k ?n"
      using mw_streams_sel(1) [of c] mw_streams_sel(2) [of _ c] by (intro nth_equalityI) (simp_all add: data_of_length gen_loop_data)
    then show ?thesis using takes_length [OF D(5)] by (simp add: sum_list_replicate)
  qed
  ultimately show "workload_ok (mw_job c) (mw_items c)" using rec hor big by (fastforce simp: workload_ok_def)
qed

section \<open>One seed\<close>

lemma compare_runs_equal: "compare_runs (or_results orc) (or_drops orc) orc = None"
  by (simp add: compare_runs_def compare_results_def compare_rows_refl check_drop_contract_def)

lemma generator_fits_seed: "generator_fits (R, dc, s) \<Longrightarrow> generator_fits (R, dc, s')"
  by (simp add: generator_fits_def gen_of_def make_gen_config_def generator_ok_def)

lemma with_generator_fits:
  "generator_fits (R, dc, s) \<Longrightarrow>
   with_generator R (make_gen_config dc s) f = f (generator_source R (make_gen_config dc s)) (fresh_generator R (make_gen_config dc s))"
  by (simp add: generator_fits_def gen_of_def new_generator_def with_generator_def)

lemma generator_run_agrees:
  assumes "generator_fits (R, dc, seed)" "3 * unat (dc_records_per_seed dc) < fuel"
  shows "run_oracle_for R fuel dc (make_gen_config dc seed) = Some (Inr (gen.expected_run (R, dc, seed)))"
    "\<exists>e. run_single_threaded_engine R fuel dc (make_gen_config dc seed) = Some (Inr e) \<and>
       er_results e = or_results (gen.expected_run (R, dc, seed)) \<and> er_late_dropped e = or_drops (gen.expected_run (R, dc, seed))"
    "run_partitioned_engine R fuel schedule dc (make_gen_config dc seed) n \<noteq> None \<Longrightarrow>
     \<exists>e. run_partitioned_engine R fuel schedule dc (make_gen_config dc seed) n = Some (Inr e) \<and>
       er_results e = or_results (gen.expected_run (R, dc, seed)) \<and> er_late_dropped e = or_drops (gen.expected_run (R, dc, seed))"
    "\<exists>schedule. run_partitioned_engine R fuel schedule dc (make_gen_config dc seed) n \<noteq> None"
proof -
  let ?c = "(R, dc, seed)"
  have len: "length (generator_items ?c) < fuel" using generator_items_length [of ?c] assms(2) by simp
  note W = with_generator_fits [OF assms(1)]
  show "run_oracle_for R fuel dc (make_gen_config dc seed) = Some (Inr (gen.expected_run ?c))"
    using gen.oracle_result [OF assms(1) len] by (simp add: W run_oracle_for_def gen_of_def)
  show "\<exists>e. run_single_threaded_engine R fuel dc (make_gen_config dc seed) = Some (Inr e) \<and>
      er_results e = or_results (gen.expected_run ?c) \<and> er_late_dropped e = or_drops (gen.expected_run ?c)"
    using gen.single_threaded_agrees [OF assms(1) len] by (simp add: W run_single_threaded_engine_def gen_of_def)
  show "\<exists>schedule. run_partitioned_engine R fuel schedule dc (make_gen_config dc seed) n \<noteq> None"
    using gen.partitioned_schedule_exists [OF assms(1) len, of n] by (auto simp: W run_partitioned_engine_def gen_of_def)
  show "\<exists>e. run_partitioned_engine R fuel schedule dc (make_gen_config dc seed) n = Some (Inr e) \<and>
      er_results e = or_results (gen.expected_run ?c) \<and> er_late_dropped e = or_drops (gen.expected_run ?c)"
    if "run_partitioned_engine R fuel schedule dc (make_gen_config dc seed) n \<noteq> None"
    using gen.partitioned_agrees [OF assms(1) len, of schedule n] that by (force simp: W run_partitioned_engine_def gen_of_def)
qed

lemma differential_seed_passes:
  assumes "generator_fits (R, dc, seed)" "3 * unat (dc_records_per_seed dc) < fuel" "all_passed k res"
    and "run_engine R fuel (schedules seed (dc_workers dc)) dc (make_gen_config dc seed) (dc_workers dc) \<noteq> None"
  shows "\<exists>res'. differential_seed R fuel schedules dc seed res = Some (Inr res') \<and> all_passed (Suc k) res'"
proof -
  note G = generator_run_agrees [OF assms(1,2)]
  obtain e where e: "run_engine R fuel (schedules seed (dc_workers dc)) dc (make_gen_config dc seed) (dc_workers dc) = Some (Inr e)"
      "er_results e = or_results (gen.expected_run (R, dc, seed))" "er_late_dropped e = or_drops (gen.expected_run (R, dc, seed))"
    using assms(4) G(2) G(3) [of "schedules seed (dc_workers dc)" "dc_workers dc"] unfolding run_engine_def by (auto split: if_splits)
  show ?thesis
    using e G(1) all_passed_tally [OF assms(3) e(3)] by (simp add: differential_seed_def compare_runs_equal)
qed

lemma cross_workers_agree:
  assumes "generator_fits (R, dc, seed)" "3 * unat (dc_records_per_seed dc) < fuel"
    and "er_results ref = or_results (gen.expected_run (R, dc, seed))"
    and "\<forall>n \<in> set ns. run_partitioned_engine R fuel (scheds n) dc (make_gen_config dc seed) n \<noteq> None"
  shows "cross_workers R fuel scheds dc (make_gen_config dc seed) (gen.expected_run (R, dc, seed)) ref ns = Some (Inr None)"
  using assms(4)
proof (induction ns)
  case (Cons n ns)
  obtain e where "run_partitioned_engine R fuel (scheds n) dc (make_gen_config dc seed) n = Some (Inr e)"
      "er_results e = or_results (gen.expected_run (R, dc, seed))" "er_late_dropped e = or_drops (gen.expected_run (R, dc, seed))"
    using Cons.prems generator_run_agrees(3) [OF assms(1,2), of "scheds n" n] by auto
  then show ?case
    using Cons assms(3) by (simp add: compare_runs_equal compare_results_def compare_rows_refl)
qed simp

lemma cross_n_seed_passes:
  assumes "generator_fits (R, dc, seed)" "3 * unat (dc_records_per_seed dc) < fuel" "all_passed k res"
    and "\<forall>n \<in> set cross_n_workers. run_partitioned_engine R fuel (schedules seed n) dc (make_gen_config dc seed) n \<noteq> None"
  shows "\<exists>res'. cross_n_seed R fuel schedules dc seed res = Some (Inr res') \<and> all_passed (Suc k) res'"
proof -
  note G = generator_run_agrees [OF assms(1,2)]
  obtain e where e: "run_single_threaded_engine R fuel dc (make_gen_config dc seed) = Some (Inr e)"
      "er_results e = or_results (gen.expected_run (R, dc, seed))" "er_late_dropped e = or_drops (gen.expected_run (R, dc, seed))"
    using G(2) by blast
  show ?thesis
    using e G(1) all_passed_tally [OF assms(3) e(3)] cross_workers_agree [OF assms(1,2) e(2) assms(4)]
    by (simp add: cross_n_seed_def compare_runs_equal)
qed

definition workload_of :: "'g random_ops \<Rightarrow> nat \<Rightarrow> differential_config \<Rightarrow> u32 \<Rightarrow> u64 \<Rightarrow> 'g merged_workload" where
  "workload_of R fuel dc k seed = \<lparr>mw_random = R, mw_job = dc, mw_seed = seed, mw_sources = k, mw_budget = fuel\<rparr>"

lemma workload_of_sel [simp]:
  "mw_random (workload_of R fuel dc k seed) = R" "mw_job (workload_of R fuel dc k seed) = dc" "mw_seed (workload_of R fuel dc k seed) = seed"
  "mw_sources (workload_of R fuel dc k seed) = k" "mw_budget (workload_of R fuel dc k seed) = fuel"
  by (simp_all add: workload_of_def)

lemma merged_fits_seed: "merged_fits (workload_of R fuel dc k s) \<Longrightarrow> merged_fits (workload_of R fuel dc k s')"
  by (simp add: merged_fits_def make_gen_config_def generator_ok_def)

lemma with_merge_fits:
  assumes "merged_fits (workload_of R fuel dc k seed)"
  shows "with_merge R fuel (make_merge_config dc seed k) f = f (mw_source (workload_of R fuel dc k seed)) (mw_start (workload_of R fuel dc k seed))"
proof -
  have "new_merge R 0 (make_merge_config dc seed k) = Inr (mw_start (workload_of R fuel dc k seed))"
    using mw_start_reset [OF assms] by (metis mw_config_def workload_of_sel(1,2,3,4))
  then show ?thesis by (simp add: with_merge_def mw_source_def)
qed

lemma merged_run_agrees:
  assumes "merged_fits (workload_of R fuel dc k seed)" "2 * mw_cost dc k < fuel"
  shows "run_oracle_for_merged R fuel dc (make_merge_config dc seed k) = Some (Inr (mgd.expected_run (workload_of R fuel dc k seed)))"
    "run_engine_merged R fuel schedule dc (make_merge_config dc seed k) n \<noteq> None \<Longrightarrow>
     \<exists>e. run_engine_merged R fuel schedule dc (make_merge_config dc seed k) n = Some (Inr e) \<and>
       er_results e = or_results (mgd.expected_run (workload_of R fuel dc k seed)) \<and>
       er_late_dropped e = or_drops (mgd.expected_run (workload_of R fuel dc k seed))"
    "\<exists>schedule. run_engine_merged R fuel schedule dc (make_merge_config dc seed k) n \<noteq> None"
proof -
  let ?c = "workload_of R fuel dc k seed"
  have len: "length (mw_items ?c) < fuel" using mw_delivered [OF assms(1)] assms(2) by (metis le_less_trans workload_of_sel(2,4))
  note W = with_merge_fits [OF assms(1)]
  show "run_oracle_for_merged R fuel dc (make_merge_config dc seed k) = Some (Inr (mgd.expected_run ?c))"
    using mgd.oracle_result [OF assms(1) len] by (simp add: W run_oracle_for_merged_def)
  have s: "\<exists>e. run_single_threaded_engine_merged R fuel dc (make_merge_config dc seed k) = Some (Inr e) \<and>
      er_results e = or_results (mgd.expected_run ?c) \<and> er_late_dropped e = or_drops (mgd.expected_run ?c)"
    using mgd.single_threaded_agrees [OF assms(1) len] by (simp add: W run_single_threaded_engine_merged_def)
  show "\<exists>schedule. run_engine_merged R fuel schedule dc (make_merge_config dc seed k) n \<noteq> None"
    using mgd.partitioned_schedule_exists [OF assms(1) len, of n] s
    by (auto simp: W run_engine_merged_def run_partitioned_engine_merged_def)
  show "\<exists>e. run_engine_merged R fuel schedule dc (make_merge_config dc seed k) n = Some (Inr e) \<and>
      er_results e = or_results (mgd.expected_run ?c) \<and> er_late_dropped e = or_drops (mgd.expected_run ?c)"
    if "run_engine_merged R fuel schedule dc (make_merge_config dc seed k) n \<noteq> None"
    using mgd.partitioned_agrees [OF assms(1) len, of schedule n] that s
    by (force simp: W run_engine_merged_def run_partitioned_engine_merged_def split: if_splits)
qed

lemma multi_source_seed_passes:
  assumes "merged_fits (workload_of R fuel dc k seed)" "2 * mw_cost dc k < fuel" "all_passed j res"
    and "run_engine_merged R fuel (schedules seed (dc_workers dc)) dc (make_merge_config dc seed k) (dc_workers dc) \<noteq> None"
  shows "\<exists>res'. multi_source_seed R fuel schedules dc k seed res = Some (Inr res') \<and> all_passed (Suc j) res'"
proof -
  note G = merged_run_agrees [OF assms(1,2)]
  obtain e where e: "run_engine_merged R fuel (schedules seed (dc_workers dc)) dc (make_merge_config dc seed k) (dc_workers dc) = Some (Inr e)"
      "er_results e = or_results (mgd.expected_run (workload_of R fuel dc k seed))"
      "er_late_dropped e = or_drops (mgd.expected_run (workload_of R fuel dc k seed))"
    using G(2) [OF assms(4)] by blast
  show ?thesis
    using e G(1) all_passed_tally [OF assms(3) e(3)] by (simp add: multi_source_seed_def compare_runs_equal)
qed

section \<open>Properties\<close>

definition sample_differential :: differential_config where
  "sample_differential = \<lparr>dc_num_seeds = 2, dc_records_per_seed = 5, dc_num_keys = 3, dc_window_size = 10, dc_max_disorder = 2,
     dc_allowed_lateness = 3, dc_assigner = KSliding, dc_slide = 5, dc_disorder_mode = KBounded, dc_late_fraction = Finite 0,
     dc_late_tail = 0, dc_seed_start = 7, dc_workers = 2, dc_sources = 2, dc_idle_timeout = 1, dc_idle_span_start = 2,
     dc_idle_span_length = 3\<rparr>"

lemma sample_generator_fits: "generator_fits (sample_random, sample_differential, s)"
  using sample_random_lawful
  by (simp add: generator_fits_def job_ok_def generator_ok_def gen_of_def make_gen_config_def unit_interval_def horizon_def
      sample_differential_def i64_nums)

lemma sample_merged_fits: "merged_fits (workload_of sample_random 100 sample_differential 2 s)"
  using sample_random_lawful
  by (simp add: merged_fits_def job_ok_def generator_ok_def make_gen_config_def unit_interval_def horizon_def mw_cost_def
      sample_differential_def i64_nums)

text \<open>
  C15. The differential test cannot fail. For every random number library, every seed range that
  does not touch the last 64-bit seed, every valid job and every number of workers, under every
  thread schedule that runs to its end, the harness returns, reports each seed as tested and
  passed, none as failed, and equal totals of dropped records for engine and oracle.
\<close>

theorem differential_always_passes:
  assumes "generator_fits (R, dc, dc_seed_start dc)" "0 < dc_num_seeds dc"
    and "unat (dc_seed_start dc) + unat (dc_num_seeds dc) < 2 ^ 64"
    and "3 * unat (dc_records_per_seed dc) < fuel" "unat (dc_num_seeds dc) < fuel"
    and "\<forall>seed. run_engine R fuel (schedules seed (dc_workers dc)) dc (make_gen_config dc seed) (dc_workers dc) \<noteq> None"
  shows "\<exists>res. run_differential R fuel schedules dc = Some (Inr res) \<and> all_passed (unat (dc_num_seeds dc)) res"
proof -
  note L = last_seed_facts [OF assms(2,3)]
  have "\<exists>res'. differential_seed R fuel schedules dc seed res = Some (Inr res') \<and> all_passed (Suc k) res'"
    if "all_passed k res" for seed k res
    using differential_seed_passes [OF generator_fits_seed [OF assms(1)] assms(4) that] assms(6) by blast
  from seed_loop_passes [OF this all_passed_empty L(2), where seed = "dc_seed_start dc" and fuel = fuel] show ?thesis
    using L(1) assms(5) by (auto simp: run_differential_def)
qed

theorem differential_always_passes_witness:
  "\<exists>schedules res. run_differential sample_random 20 schedules sample_differential = Some (Inr res) \<and> all_passed 2 res"
proof -
  let ?dc = sample_differential and ?R = sample_random
  have h: "0 < dc_num_seeds ?dc" "unat (dc_seed_start ?dc) + unat (dc_num_seeds ?dc) < 2 ^ 64" "3 * unat (dc_records_per_seed ?dc) < 20"
      "unat (dc_num_seeds ?dc) < 20" "unat (dc_num_seeds ?dc) = 2" "dc_workers ?dc = 2"
    by (simp_all add: sample_differential_def)
  define schedules where "schedules seed n =
      (SOME schedule. run_partitioned_engine ?R 20 schedule ?dc (make_gen_config ?dc seed) n \<noteq> None)" for seed n
  have s: "run_partitioned_engine ?R 20 (schedules seed n) ?dc (make_gen_config ?dc seed) n \<noteq> None" for seed n
    unfolding schedules_def by (rule someI_ex [OF generator_run_agrees(4) [OF sample_generator_fits h(3)]])
  have "\<forall>seed. run_engine ?R 20 (schedules seed (dc_workers ?dc)) ?dc (make_gen_config ?dc seed) (dc_workers ?dc) \<noteq> None"
    using s by (simp add: run_engine_def h(6) word_le_nat_alt)
  from differential_always_passes [where schedules = schedules, OF sample_generator_fits h(1-4) this] show ?thesis using h(5) by auto
qed

text \<open>
  The cross-N proof of the harness succeeds as well: for each seed the partitioned engine at
  1, 2, 4 and 8 workers agrees with the oracle and with the single-threaded reference.
\<close>

theorem cross_n_always_passes:
  assumes "generator_fits (R, dc, dc_seed_start dc)" "0 < dc_num_seeds dc"
    and "unat (dc_seed_start dc) + unat (dc_num_seeds dc) < 2 ^ 64"
    and "3 * unat (dc_records_per_seed dc) < fuel" "unat (dc_num_seeds dc) < fuel"
    and "\<forall>seed. \<forall>n \<in> set cross_n_workers.
      run_partitioned_engine R fuel (schedules seed n) dc (make_gen_config dc seed) n \<noteq> None"
  shows "\<exists>res. run_cross_n R fuel schedules dc = Some (Inr res) \<and> all_passed (unat (dc_num_seeds dc)) res"
proof -
  note L = last_seed_facts [OF assms(2,3)]
  have "\<exists>res'. cross_n_seed R fuel schedules dc seed res = Some (Inr res') \<and> all_passed (Suc k) res'"
    if "all_passed k res" for seed k res
    using cross_n_seed_passes [OF generator_fits_seed [OF assms(1)] assms(4) that] assms(6) by blast
  from seed_loop_passes [OF this all_passed_empty L(2), where seed = "dc_seed_start dc" and fuel = fuel] show ?thesis
    using L(1) assms(5) by (auto simp: run_cross_n_def)
qed

theorem cross_n_always_passes_witness:
  "\<exists>schedules res. run_cross_n sample_random 20 schedules sample_differential = Some (Inr res) \<and> all_passed 2 res"
proof -
  let ?dc = sample_differential and ?R = sample_random
  have h: "0 < dc_num_seeds ?dc" "unat (dc_seed_start ?dc) + unat (dc_num_seeds ?dc) < 2 ^ 64" "3 * unat (dc_records_per_seed ?dc) < 20"
      "unat (dc_num_seeds ?dc) < 20" "unat (dc_num_seeds ?dc) = 2" "dc_workers ?dc = 2"
    by (simp_all add: sample_differential_def)
  define schedules where "schedules seed n =
      (SOME schedule. run_partitioned_engine ?R 20 schedule ?dc (make_gen_config ?dc seed) n \<noteq> None)" for seed n
  have s: "run_partitioned_engine ?R 20 (schedules seed n) ?dc (make_gen_config ?dc seed) n \<noteq> None" for seed n
    unfolding schedules_def by (rule someI_ex [OF generator_run_agrees(4) [OF sample_generator_fits h(3)]])
  then have "\<forall>seed. \<forall>n \<in> set cross_n_workers. run_partitioned_engine ?R 20 (schedules seed n) ?dc (make_gen_config ?dc seed) n \<noteq> None"
    by blast
  from cross_n_always_passes [where schedules = schedules, OF sample_generator_fits h(1-4) this] show ?thesis using h(5) by auto
qed

text \<open>
  C28. The multi-source test cannot fail either: with any number of merged generators of diverging
  clocks, with or without idle gaps and time-outs, the engine over the merge agrees with the
  oracle over a second merge of the same sources.
\<close>

theorem multi_source_always_passes:
  assumes "merged_fits (workload_of R fuel dc (max 1 (dc_sources dc)) (dc_seed_start dc))" "0 < dc_num_seeds dc"
    and "unat (dc_seed_start dc) + unat (dc_num_seeds dc) < 2 ^ 64"
    and "2 * mw_cost dc (max 1 (dc_sources dc)) < fuel" "unat (dc_num_seeds dc) < fuel"
    and "\<forall>seed. run_engine_merged R fuel (schedules seed (dc_workers dc)) dc
      (make_merge_config dc seed (max 1 (dc_sources dc))) (dc_workers dc) \<noteq> None"
  shows "\<exists>res. run_multi_source_differential R fuel schedules dc = Some (Inr res) \<and> all_passed (unat (dc_num_seeds dc)) res"
proof -
  note L = last_seed_facts [OF assms(2,3)]
  have "\<exists>res'. multi_source_seed R fuel schedules dc (max 1 (dc_sources dc)) seed res = Some (Inr res') \<and> all_passed (Suc k) res'"
    if "all_passed k res" for seed k res
    using multi_source_seed_passes [OF merged_fits_seed [OF assms(1)] assms(4) that] assms(6) by blast
  from seed_loop_passes [OF this all_passed_empty L(2), where seed = "dc_seed_start dc" and fuel = fuel] show ?thesis
    using L(1) assms(5) by (auto simp: run_multi_source_differential_def Let_def)
qed

theorem multi_source_always_passes_witness:
  "\<exists>schedules res. run_multi_source_differential sample_random 100 schedules sample_differential = Some (Inr res) \<and> all_passed 2 res"
proof -
  let ?dc = sample_differential and ?R = sample_random
  have h: "0 < dc_num_seeds ?dc" "unat (dc_seed_start ?dc) + unat (dc_num_seeds ?dc) < 2 ^ 64" "2 * mw_cost ?dc (max 1 (dc_sources ?dc)) < 100"
      "unat (dc_num_seeds ?dc) < 100" "unat (dc_num_seeds ?dc) = 2" "max 1 (dc_sources ?dc) = 2" "2 * mw_cost ?dc 2 < 100"
    by (simp_all add: sample_differential_def mw_cost_def)
  define schedules where "schedules seed n =
      (SOME schedule. run_engine_merged ?R 100 schedule ?dc (make_merge_config ?dc seed 2) n \<noteq> None)" for seed n
  have "run_engine_merged ?R 100 (schedules seed n) ?dc (make_merge_config ?dc seed 2) n \<noteq> None" for seed n
    unfolding schedules_def by (rule someI_ex [OF merged_run_agrees(3) [OF sample_merged_fits h(7)]])
  then have r: "\<forall>seed. run_engine_merged ?R 100 (schedules seed (dc_workers ?dc)) ?dc
      (make_merge_config ?dc seed (max 1 (dc_sources ?dc))) (dc_workers ?dc) \<noteq> None" unfolding h(6) by blast
  have "merged_fits (workload_of ?R 100 ?dc (max 1 (dc_sources ?dc)) (dc_seed_start ?dc))"
    unfolding h(6) by (rule sample_merged_fits)
  from multi_source_always_passes [where schedules = schedules, OF this h(1-4) r] show ?thesis using h(5) by auto
qed

text \<open>
  C39. A range that ends at the last 64-bit seed makes the harness loop for ever: the loop condition
  compares with \<open>seed_start + num_seeds - 1\<close>, which every seed satisfies. For a valid job, schedules
  under which each engine run ends and any fuel that is enough for one seed, the harness has no
  result at that fuel, and not because a run threw or stopped: for every number of seeds up to the fuel it has
  tested and passed that many and goes on with the next seed, past the end of the range and around. The empty
  range that starts at seed 0 is such a range.
\<close>

theorem seed_range_never_ends:
  assumes "dc_seed_start dc + dc_num_seeds dc - 1 = u64_max" "generator_fits (R, dc, dc_seed_start dc)"
    and "3 * unat (dc_records_per_seed dc) < fuel"
    and "\<forall>seed. run_engine R fuel (schedules seed (dc_workers dc)) dc (make_gen_config dc seed) (dc_workers dc) \<noteq> None"
  shows "run_differential R fuel schedules dc = None \<and>
    (\<forall>n \<le> fuel. \<exists>res. run_differential R fuel schedules dc =
       seed_loop (fuel - n) (differential_seed R fuel schedules dc) (dc_seed_start dc + of_nat n) u64_max res \<and> all_passed n res)"
proof -
  have "\<exists>res'. differential_seed R fuel schedules dc seed res = Some (Inr res') \<and> all_passed (Suc k) res'"
    if "all_passed k res" for seed k res
    using differential_seed_passes [OF generator_fits_seed [OF assms(2)] assms(3) that] assms(4) by blast
  from seed_loop_goes_on [where fuel = fuel and seed = "dc_seed_start dc", OF this _ all_passed_empty]
  have on: "\<forall>n \<le> fuel. \<exists>res. run_differential R fuel schedules dc =
      seed_loop (fuel - n) (differential_seed R fuel schedules dc) (dc_seed_start dc + of_nat n) u64_max res \<and> all_passed n res"
    using assms(1) by (simp add: run_differential_def)
  moreover have "run_differential R fuel schedules dc = None" using on [rule_format, OF order_refl] by auto
  ultimately show ?thesis by blast
qed

theorem seed_range_never_ends_witness:
  "\<exists>dc schedules. dc_num_seeds dc = 0 \<and> dc_seed_start dc = 0 \<and> run_differential sample_random 20 schedules dc = None \<and>
     (\<exists>res. run_differential sample_random 20 schedules dc =
        seed_loop 3 (differential_seed sample_random 20 schedules dc) 17 u64_max res \<and> all_passed 17 res)"
proof -
  let ?dc = "sample_differential\<lparr>dc_num_seeds := 0, dc_seed_start := 0\<rparr>" and ?R = sample_random
  have h: "dc_seed_start ?dc + dc_num_seeds ?dc - 1 = u64_max" "3 * unat (dc_records_per_seed ?dc) < 20" "dc_workers ?dc = 2"
      "dc_seed_start ?dc = 0"
    by (simp_all add: sample_differential_def u64_max_def)
  have fits: "generator_fits (?R, ?dc, seed)" for seed
    using sample_random_lawful
    by (simp add: generator_fits_def job_ok_def generator_ok_def gen_of_def make_gen_config_def unit_interval_def horizon_def
        sample_differential_def i64_nums)
  define schedules where "schedules seed n =
      (SOME schedule. run_partitioned_engine ?R 20 schedule ?dc (make_gen_config ?dc seed) n \<noteq> None)" for seed n
  have "run_partitioned_engine ?R 20 (schedules seed n) ?dc (make_gen_config ?dc seed) n \<noteq> None" for seed n
    unfolding schedules_def by (rule someI_ex [OF generator_run_agrees(4) [OF fits h(2)]])
  then have "\<forall>seed. run_engine ?R 20 (schedules seed (dc_workers ?dc)) ?dc (make_gen_config ?dc seed) (dc_workers ?dc) \<noteq> None"
    by (simp add: run_engine_def h(3) word_le_nat_alt)
  note E = seed_range_never_ends [where schedules = schedules, OF h(1) fits h(2) this]
  have "\<exists>res. run_differential ?R 20 schedules ?dc = seed_loop 3 (differential_seed ?R 20 schedules ?dc) 17 u64_max res \<and> all_passed 17 res"
    using E [THEN conjunct2, rule_format, of 17] by (simp add: h(4))
  then show ?thesis using E by (intro exI [of _ ?dc] exI [of _ schedules]) simp
qed

end
