(* ===== verification/Crash_Recovery.thy ===== *)
theory Crash_Recovery
  imports Durable_Sink Differential
begin

text \<open>
  Crash and restart of the single-threaded engine over a durable sink. A child process is a step
  relation, and the files it can leave when it is killed at any point are a predicate on its
  state. For a job that fits (the locale \<open>recoverable_job\<close>) everything a killed child
  leaves can be recovered: the restarted pipeline returns, and the rows in the old and the
  new sink together end, for each key and window, with the row of an undisturbed run. A second
  group of lemmas shows that this last row is the oracle's.
\<close>

section \<open>What a step emits\<close>

text \<open>
  A step of the processor that only fires and discards windows: every row it emits is a live pane
  of the state before it, and no pane appears or changes.
\<close>

definition fires_from :: "processor \<Rightarrow> processor \<Rightarrow> bool" where
  "fires_from p p' \<longleftrightarrow> (kws_wf (state p) \<longrightarrow> kws_wf (state p') \<and>
     (\<exists>es. effects p' = effects p @ es \<and>
        (\<forall>k w q. q \<in> rows_of k w es \<longrightarrow> pane_at (state p) w k = Some q)) \<and>
     (\<forall>w k q. pane_at (state p') w k = Some q \<longrightarrow> pane_at (state p) w k = Some q) \<and>
     set (fired_windows (state p')) \<subseteq> set (fired_windows (state p)) \<union> {w. pane_at (state p) w \<noteq> Map.empty})"

lemma rows_of_append [simp]: "rows_of k w (xs @ ys) = rows_of k w xs \<union> rows_of k w ys"
  by (auto simp: rows_of_def)

lemma rows_of_Nil [simp]: "rows_of k w [] = {}"
  by (simp add: rows_of_def)

lemma fires_from_refl: "fires_from p p"
  by (auto simp: fires_from_def intro: exI [of _ "[]"])

lemma fires_from_trans:
  assumes "fires_from p q" "fires_from q r"
  shows "fires_from p r"
proof -
  have "fires_from p r" if wf: "kws_wf (state p)"
  proof -
    obtain es where es: "effects q = effects p @ es" "\<forall>k w x. x \<in> rows_of k w es \<longrightarrow> pane_at (state p) w k = Some x"
        "kws_wf (state q)" "\<forall>w k x. pane_at (state q) w k = Some x \<longrightarrow> pane_at (state p) w k = Some x"
        "set (fired_windows (state q)) \<subseteq> set (fired_windows (state p)) \<union> {w. pane_at (state p) w \<noteq> Map.empty}"
      using assms(1) wf unfolding fires_from_def by blast
    obtain fs where fs: "effects r = effects q @ fs" "\<forall>k w x. x \<in> rows_of k w fs \<longrightarrow> pane_at (state q) w k = Some x"
        "kws_wf (state r)" "\<forall>w k x. pane_at (state r) w k = Some x \<longrightarrow> pane_at (state q) w k = Some x"
        "set (fired_windows (state r)) \<subseteq> set (fired_windows (state q)) \<union> {w. pane_at (state q) w \<noteq> Map.empty}"
      using assms(2) es(3) unfolding fires_from_def by blast
    have "{w. pane_at (state q) w \<noteq> Map.empty} \<subseteq> {w. pane_at (state p) w \<noteq> Map.empty}"
      using es(4) by (force simp: fun_eq_iff)
    then have fired: "set (fired_windows (state r)) \<subseteq> set (fired_windows (state p)) \<union> {w. pane_at (state p) w \<noteq> Map.empty}"
      using es(5) fs(5) by blast
    have "effects r = effects p @ es @ fs" using es(1) fs(1) by simp
    moreover have "pane_at (state p) w k = Some x" if "x \<in> rows_of k w (es @ fs)" for k w x
      using that es(2,4) fs(2) by auto
    ultimately show ?thesis using es(4) fs(3,4) fired unfolding fires_from_def by blast
  qed
  then show ?thesis by (auto simp: fires_from_def)
qed

lemma fires_from_fold: "(\<And>w p. fires_from p (f w p)) \<Longrightarrow> fires_from p (fold f ws p)"
  by (induction ws arbitrary: p) (auto intro: fires_from_refl fires_from_trans)

context window_firing
begin

lemma fires_from_fire: "fires_from p (fire v p)"
  using fire_window_state [of "state p" v] set_fire_window [of "state p" v]
  by (auto simp: fires_from_def fire_state fire_effects rows_of_def fun_eq_iff split: if_splits)

end

lemma fires_from_same:
  assumes "state p' = state p" "effects p' = effects p @ es" "\<And>r. Emit r \<notin> set es"
  shows "fires_from p p'"
  using assms by (auto simp: fires_from_def rows_of_def)

lemma fires_from_state:
  assumes "effects p' = effects p" "kws_wf (state p) \<Longrightarrow> kws_wf (state p')"
    and "\<And>w k q. kws_wf (state p) \<Longrightarrow> pane_at (state p') w k = Some q \<Longrightarrow> pane_at (state p) w k = Some q"
    and "set (fired_windows (state p')) \<subseteq> set (fired_windows (state p))"
  shows "fires_from p p'"
  using assms unfolding fires_from_def by (auto intro: exI [of _ "[]"])

lemma fires_from_collect: "fires_from p (p\<lparr>state := garbage_collect (state p) ws\<rparr>)"
  by (rule fires_from_state) (auto simp: inv_intros pane_at_garbage_collect garbage_collect_fields split: if_splits)

lemma fires_from_clear: "fires_from p (p\<lparr>state := clear_refired (state p)\<rparr>)"
  by (rule fires_from_state) (auto simp: inv_intros)

lemma fires_from_refire: "fires_from p (refire_all p)"
  unfolding refire_all_def Let_def
  by (rule fires_from_trans [OF fires_from_fold fires_from_clear]) (rule again.fires_from_fire)

lemma fires_from_watermark: "fires_from p (process_watermark cfg wm p)"
proof (cases "watermark p < wm")
  case True
  have "fires_from p (p\<lparr>watermark := wm\<rparr>)" by (rule fires_from_same [of _ _ "[]"]) simp_all
  then have e: "fires_from p (after_expiry wm p)"
    unfolding after_expiry_def by (rule fires_from_trans) (rule fires_from_fold, rule first.fires_from_fire)
  let ?q = "if use_lateness cfg then collect_garbage (refire_all (after_expiry wm p)) else after_expiry wm p"
  have "fires_from p ?q"
    using e fires_from_trans [OF fires_from_trans [OF e fires_from_refire] fires_from_collect]
    by (simp add: collect_garbage_def)
  then show ?thesis
    unfolding process_watermark_unfold(1) [OF True] Let_def
    by (rule fires_from_trans) (rule fires_from_same [of _ _ "[]"], simp_all)
qed (simp add: process_watermark_unfold fires_from_refl)

lemma fires_from_flush: "fires_from p (final_flush cfg p)"
proof -
  let ?f = "\<lambda>w q. if \<not> is_fired (state q) w then fire_first w q else q"
  have f: "fires_from q (?f w q)" for w q using first.fires_from_fire fires_from_refl by simp
  have l: "fires_from p (fold ?f (all_windows (state (refire_all p))) (refire_all p))"
    by (rule fires_from_trans [OF fires_from_refire fires_from_fold]) (rule f)
  have s: "fires_from p (fold fire_first (all_windows (state p)) p)"
    by (rule fires_from_fold) (rule first.fires_from_fire)
  have fl: "fires_from q (q\<lparr>effects := effects q @ [Flush]\<rparr>)" for q
    by (rule fires_from_same [of _ _ "[Flush]"]) simp_all
  show ?thesis
    unfolding final_flush_def Let_def
    using fires_from_trans [OF fires_from_trans [OF l fires_from_collect] fl] fires_from_trans [OF s fl] by simp
qed

lemma fires_from_control:
  assumes "process_item cfg (Control c) p = Inr p'"
  shows "fires_from p p'"
proof (cases "ctype c")
  case KWatermark
  then show ?thesis using assms fires_from_watermark by (auto simp: process_item_def process_control_def)
next
  case KCheckpointBarrier
  then have b: "process_barrier cfg (checkpoint_offset c) p = Inr p'"
    using assms by (simp add: process_item_def process_control_def)
  then have "state p' = state p \<and> (\<exists>es. effects p' = effects p @ es \<and> (\<forall>r. Emit r \<notin> set es))"
    by (auto simp: process_barrier_def Let_def split: if_splits)
  then show ?thesis using fires_from_same by blast
qed

section \<open>The last row of a slot\<close>

lemma set_emitted_rows: "r \<in> set (emitted_rows es) \<longleftrightarrow> Emit r \<in> set es"
  by (auto simp: emitted_rows_def split: effect.splits)

lemma set_slot_rows: "set (slot_rows k w es) = (\<lambda>q. window_row k w (pane_result q)) ` rows_of k w es"
proof -
  have "r \<in> set (slot_rows k w es) \<longleftrightarrow> (\<exists>q \<in> rows_of k w es. r = window_row k w (pane_result q))" for r
  proof -
    obtain q where q: "res_result r = pane_result q" using pane_of_result by blast
    then have "r = window_row (res_key r) (res_window r) (pane_result q)" by (metis window_row_eta)
    then show ?thesis by (auto simp: slot_rows_def set_emitted_rows rows_of_def intro!: exI [of _ q])
  qed
  then show ?thesis by blast
qed

lemma slot_rows_empty: "slot_rows k w es = [] \<longleftrightarrow> rows_of k w es = {}"
  using set_slot_rows [of k w es] by (metis image_is_empty set_empty)

text \<open>No row is followed, for its key and window, by one with a smaller count.\<close>

definition settled :: "processor \<Rightarrow> bool" where
  "settled p \<longleftrightarrow> (\<forall>k w q. rows_of k w (effects p) \<noteq> {} \<longrightarrow>
     List.last (slot_rows k w (effects p)) = window_row k w (pane_result q) \<longrightarrow>
     (\<forall>x \<in> rows_of k w (effects p). x = q \<or> unat (pane_count x) < unat (pane_count q)))"

text \<open>New rows come from panes the oracle still agrees with, so they are the oracle's row.\<close>

lemma settled_fires:
  assumes ag: "agrees cfg width p o1" and st: "settled p" and f: "fires_from p p'"
  shows "settled p'"
  unfolding settled_def
proof (intro allI impI ballI)
  fix k w q x
  assume ne: "rows_of k w (effects p') \<noteq> {}"
    and l: "List.last (slot_rows k w (effects p')) = window_row k w (pane_result q)" and x: "x \<in> rows_of k w (effects p')"
  have inv: "processor_inv cfg p" using ag by (simp add: agrees_def)
  obtain es where es: "effects p' = effects p @ es" "\<And>y. y \<in> rows_of k w es \<Longrightarrow> pane_at (state p) w k = Some y"
    using f processor_invD(1) [OF inv] unfolding fires_from_def by blast
  show "x = q \<or> unat (pane_count x) < unat (pane_count q)"
  proof (cases "rows_of k w es = {}")
    case True
    then have "slot_rows k w es = []" by (simp add: slot_rows_empty)
    then show ?thesis using st ne l x es(1) True unfolding settled_def by auto
  next
    case False
    then obtain y where y: "y \<in> rows_of k w es" "pane_at (state p) w k = Some y" using es(2) by blast
    then have only: "rows_of k w es = {y}" using es(2) by fastforce
    have "slot_rows k w es \<noteq> []" using False by (simp add: slot_rows_empty)
    then have "List.last (slot_rows k w (effects p')) \<in> set (slot_rows k w es)" using es(1) by simp
    then have q: "q = y" using l only by (simp add: set_slot_rows)
    have c: "cell_agrees (lateness cfg) w (cell_of p k w) (o_cell o1 k w)" using ag by (simp add: agrees_def)
    then have "o_cell o1 k w = Some y"
      using y(2) processor_invD(5) [OF inv y(2)] by (simp add: cell_agrees_def cell_of_def)
    moreover have "\<forall>z \<in> rows_of k w (effects p). \<exists>v. o_cell o1 k w = Some v \<and> (z = v \<or> unat (pane_count z) < unat (pane_count v))"
      using c unfolding cell_agrees_def cell_of_def by simp
    ultimately show ?thesis using x es(1) only q by auto
  qed
qed

lemma settled_run:
  assumes "run_items cfg its p = Inr p'" "agrees cfg width p o1" "settled p" "oracle_matches cfg ocfg"
    and "o_config o1 = o_config (new_oracle ocfg)"
    and "lawful_assigner (assigner cfg) width" "horizon_ok cfg its"
  shows "settled p'"
  using assms(1,2,3,5,7)
proof (induction its arbitrary: p o1)
  case (Cons it its)
  then obtain q where q: "process_item cfg it p = Inr q" "run_items cfg its q = Inr p'" by auto
  have h: "horizon_ok cfg [it]" "horizon_ok cfg its" using Cons.prems(5) by (auto simp: horizon_ok_def)
  have "settled q"
  proof (cases it)
    case (Data r)
    then have "effects q = effects p"
      using process_record_refines(3) [OF _ _ assms(6)] q(1) Cons.prems(2) by (auto simp: process_item_def agrees_def)
    then show ?thesis using Cons.prems(3) by (simp add: settled_def)
  next
    case (Control c)
    then show ?thesis using settled_fires [OF Cons.prems(2,3)] fires_from_control q(1) by blast
  qed
  then show ?case
    using Cons.IH [OF q(2)] agrees_item [OF Cons.prems(2) assms(4) Cons.prems(4) assms(6) h(1) q(1)] Cons.prems(4) h(2) by metis
qed simp

lemma new_no_effects: "new_processor cfg = Inr p \<Longrightarrow> effects p = []"
  by (auto simp: new_processor_def split: if_splits)

lemma settled_flush:
  assumes new: "new_processor cfg = Inr p0" and run: "run_items cfg its p0 = Inr p"
    and law: "lawful_assigner (assigner cfg) width"
    and m: "oracle_matches cfg ocfg" and h: "horizon_ok cfg its"
  shows "settled (final_flush cfg p)"
proof -
  have ag: "agrees cfg width p (run_oracle ocfg its)"
    using agrees_run [OF run agrees_new [OF new m] m refl law h] by (simp add: run_oracle_def)
  have "effects p0 = []" by (rule new_no_effects [OF new])
  then have "settled p0" by (simp add: settled_def)
  then have "settled p" using settled_run [OF run agrees_new [OF new m] _ m refl law h] by blast
  then show ?thesis using settled_fires [OF ag] fires_from_flush by blast
qed

lemma find_last: "find P (rev xs) = (if filter P xs = [] then None else Some (List.last (filter P xs)))"
  by (induction xs) (auto simp: find_append)

text \<open>The last row a finished run emits for a key and window is the oracle's row.\<close>

lemma last_row_is_oracle_row:
  assumes new: "new_processor cfg = Inr p0" and run: "run_items cfg its p0 = Inr p"
    and law: "lawful_assigner (assigner cfg) width"
    and m: "oracle_matches cfg ocfg" and h: "horizon_ok cfg its"
  shows "find (\<lambda>r. res_key r = k \<and> res_window r = w) (rev (emitted_rows (effects (final_flush cfg p)))) =
    map_option (\<lambda>q. window_row k w (pane_result q)) (o_cell (run_oracle ocfg its) k w)"
proof -
  let ?o = "run_oracle ocfg its" and ?es = "effects (final_flush cfg p)"
  have ag: "agrees cfg width p ?o"
    using agrees_run [OF run agrees_new [OF new m] m refl law h] by (simp add: run_oracle_def)
  note st = settled_flush [OF new run law m h]
  show ?thesis
  proof (cases "o_cell ?o k w")
    case None
    then have "slot_rows k w ?es = []" using agrees_flush [OF ag, of k w] by (auto simp: slot_rows_empty)
    then show ?thesis using None unfolding find_last slot_rows_def by simp
  next
    case (Some q)
    then have q: "q \<in> rows_of k w ?es" "\<forall>x \<in> rows_of k w ?es. x = q \<or> unat (pane_count x) < unat (pane_count q)"
      using agrees_flush [OF ag, of k w] by auto
    then have ne: "slot_rows k w ?es \<noteq> []" by (auto simp: slot_rows_empty)
    then obtain l where l: "l \<in> rows_of k w ?es" "List.last (slot_rows k w ?es) = window_row k w (pane_result l)"
      using last_in_set [OF ne] by (auto simp: set_slot_rows)
    have "q = l \<or> unat (pane_count q) < unat (pane_count l)" using st l(2) q(1) unfolding settled_def by blast
    moreover have "l = q \<or> unat (pane_count l) < unat (pane_count q)" using q(2) l(1) by blast
    ultimately have "l = q" by auto
    then show ?thesis using Some ne l(2) unfolding find_last slot_rows_def by simp
  qed
qed

text \<open>Its count is the greatest of its key and window.\<close>

lemma last_row_has_most:
  assumes "settled p" "find (\<lambda>r. res_key r = k \<and> res_window r = w) (rev (emitted_rows (effects p))) = Some r"
    and "x \<in> set (emitted_rows (effects p))" "res_key x = k" "res_window x = w"
  shows "agg_count (res_result x) \<le> agg_count (res_result r)"
proof -
  have ne: "slot_rows k w (effects p) \<noteq> []" and last: "r = List.last (slot_rows k w (effects p))"
    using assms(2) unfolding find_last slot_rows_def by (auto split: if_splits)
  have "r \<in> set (slot_rows k w (effects p))" "x \<in> set (slot_rows k w (effects p))"
    using last_in_set [OF ne] last assms(3-5) by (simp_all add: slot_rows_def)
  then obtain q y where q: "r = window_row k w (pane_result q)" "q \<in> rows_of k w (effects p)"
      and y: "x = window_row k w (pane_result y)" "y \<in> rows_of k w (effects p)"
    by (auto simp: set_slot_rows)
  have "y = q \<or> unat (pane_count y) < unat (pane_count q)"
    using assms(1) q y last unfolding settled_def by (metis empty_iff)
  then show ?thesis using q(1) y(1) by (auto simp: pane_result_def word_le_nat_alt)
qed

section \<open>A child process and the disk it leaves\<close>

text \<open>
  The pipeline of a child process over a durable sink, as the steps that touch the outside: pull a
  batch, process an item (the rows it emits queue up for the sink), write a row, and
  drain at the end of the source. The rows of an item reach the sink before the next item is
  processed. \<open>left_behind\<close> gives the files a process killed in a state can leave:
  between two steps, inside the write of a row, or inside the write of a checkpoint.
\<close>

record 's child =
  ch_pipeline :: "'s pipeline"
  ch_todo :: "batch_item list"
  ch_out :: "window_result list"
  ch_sink :: durable_sink
  ch_drained :: bool

record disk =
  dk_manifest :: "string option"
  dk_dir :: directory
  dk_sink :: "bytes option"

definition new_rows :: "processor \<Rightarrow> processor \<Rightarrow> window_result list" where
  "new_rows p p' = drop (length (emitted_rows (effects p))) (emitted_rows (effects p'))"

inductive child_step ::
    "pipeline_config \<Rightarrow> window_assigner \<Rightarrow> 's source \<Rightarrow> 's child \<Rightarrow> 's child \<Rightarrow> bool"
  for cfg :: pipeline_config and a :: window_assigner and src :: "'s source" where
  child_pull: "ch_todo ch = [] \<Longrightarrow> ch_out ch = [] \<Longrightarrow> \<not> ch_drained ch \<Longrightarrow>
     src_next src (pl_source (ch_pipeline ch)) = Inr (Some b, s) \<Longrightarrow>
     child_step cfg a src ch (ch\<lparr>ch_pipeline := (ch_pipeline ch)\<lparr>pl_source := s\<rparr>, ch_todo := b\<rparr>)"
| child_item: "ch_todo ch = it # its \<Longrightarrow> ch_out ch = [] \<Longrightarrow>
     pl_item cfg a (\<lambda>off. WriteOk) it (ch_pipeline ch) = Inr pl \<Longrightarrow>
     child_step cfg a src ch (ch\<lparr>ch_pipeline := pl, ch_todo := its,
       ch_out := new_rows (pl_core (ch_pipeline ch)) (pl_core pl)\<rparr>)"
| child_emit: "ch_out ch = r # rs \<Longrightarrow> sink_emit ws ok r (ch_sink ch) = (Some (Inr ()), d) \<Longrightarrow>
     child_step cfg a src ch (ch\<lparr>ch_out := rs, ch_sink := d\<rparr>)"
| child_drain: "ch_todo ch = [] \<Longrightarrow> ch_out ch = [] \<Longrightarrow> \<not> ch_drained ch \<Longrightarrow>
     src_next src (pl_source (ch_pipeline ch)) = Inr (None, s) \<Longrightarrow>
     p = pl_final_flush cfg (pl_core (ch_pipeline ch)) \<Longrightarrow>
     child_step cfg a src ch (ch\<lparr>ch_pipeline := (ch_pipeline ch)\<lparr>pl_source := s, pl_core := p\<rparr>,
       ch_out := new_rows (pl_core (ch_pipeline ch)) p, ch_drained := True\<rparr>)"

inductive left_behind :: "pipeline_config \<Rightarrow> 's child \<Rightarrow> disk \<Rightarrow> bool"
  for cfg :: pipeline_config and ch :: "'s child" where
  left_between: "left_behind cfg ch \<lparr>dk_manifest = pl_manifest (ch_pipeline ch), dk_dir = pl_dir (ch_pipeline ch),
     dk_sink = Some (ds_file (ch_sink ch))\<rparr>"
| left_in_emit: "ch_out ch = r # rs \<Longrightarrow> sink_emit ws ok r (ch_sink ch) = (res, d) \<Longrightarrow>
   left_behind cfg ch \<lparr>dk_manifest = pl_manifest (ch_pipeline ch), dk_dir = pl_dir (ch_pipeline ch),
     dk_sink = Some (ds_file d)\<rparr>"
| left_in_checkpoint: "ch_todo ch = Control b # its \<Longrightarrow> ch_out ch = [] \<Longrightarrow> ctype b = KCheckpointBarrier \<Longrightarrow>
   checkpointing_enabled cfg \<Longrightarrow> p = pl_core (ch_pipeline ch) \<Longrightarrow>
   dir \<in> set (killed_write_states False (checkpoint_offset b) (watermark p) (state p) (pl_dir (ch_pipeline ch))) \<Longrightarrow>
   left_behind cfg ch \<lparr>dk_manifest = pl_manifest (ch_pipeline ch), dk_dir = dir, dk_sink = Some (ds_file (ch_sink ch))\<rparr>"

text \<open>
  A fresh child: it opens its sink file, then creates the manifest of the empty checkpoint
  directory (when checkpointing is on), and runs.
\<close>

definition started_child :: "'s pipeline \<Rightarrow> string option \<Rightarrow> 's child" where
  "started_child pl mf = \<lparr>ch_pipeline = pl\<lparr>pl_manifest := mf\<rparr>, ch_todo = [], ch_out = [],
     ch_sink = \<lparr>ds_open = True, ds_file = []\<rparr>, ch_drained = False\<rparr>"

definition killed_at_start :: "string \<Rightarrow> disk list" where
  "killed_at_start m =
     [\<lparr>dk_manifest = None, dk_dir = [], dk_sink = None\<rparr>, \<lparr>dk_manifest = None, dk_dir = [], dk_sink = Some []\<rparr>] @
     map (\<lambda>n. \<lparr>dk_manifest = None, dk_dir = [(kManifestName @ ''.tmp'', bytes_of_string (take n m))], dk_sink = Some []\<rparr>)
       [0..<Suc (length m)]"

definition killed_disk :: "pipeline_config \<Rightarrow> window_assigner \<Rightarrow> 's source \<Rightarrow> 's \<Rightarrow> disk \<Rightarrow> bool" where
  "killed_disk cfg a src s0 dk \<longleftrightarrow>
     (\<exists>pl m. new_pipeline cfg s0 [] None = Inr pl \<and> serialize (pipeline_manifest cfg a src) = Inr m \<and>
        (dk \<in> set (killed_at_start m) \<or>
         (\<exists>ch. (child_step cfg a src)\<^sup>*\<^sup>* (started_child pl (if checkpointing_enabled cfg then Some m else None)) ch \<and>
            left_behind cfg ch dk)))"

section \<open>Recovery\<close>

definition safe_config :: "pipeline_config \<Rightarrow> window_assigner \<Rightarrow> processor_config" where
  "safe_config cfg a = as_config cfg a (\<lambda>off. WriteOk)"

lemma safe_config_sel [simp]:
  "assigner (safe_config cfg a) = a" "lateness (safe_config cfg a) = plc_lateness cfg"
  by (simp_all add: safe_config_def)

text \<open>
  The job of a crash test: a source that delivers a fixed stream and that, sought to the offset of a
  barrier, delivers what follows the barrier; and an engine that processes the stream without an
  exception, in states a checkpoint can hold and with rows the log can hold.
\<close>

locale recoverable_job =
  fixes fits :: "'c \<Rightarrow> bool" and cfg :: "'c \<Rightarrow> pipeline_config" and asg :: "'c \<Rightarrow> window_assigner" and width :: "'c \<Rightarrow> duration"
    and ops :: "'c \<Rightarrow> 's source" and start :: "'c \<Rightarrow> 's" and items :: "'c \<Rightarrow> batch_item list"
  assumes delivered: "fits c \<Longrightarrow> delivers (ops c) (start c) (items c)"
    and replayable: "fits c \<Longrightarrow> src_replayable (ops c)"
    and seekable: "fits c \<Longrightarrow> items c = xs @ Control b # ys \<Longrightarrow> ctype b = KCheckpointBarrier \<Longrightarrow>
      \<exists>s. src_seek (ops c) (checkpoint_offset b) (start c) = Inr s \<and> delivers (ops c) s ys"
    and increasing: "fits c \<Longrightarrow> items c = xs @ Control b # ys \<Longrightarrow> ctype b = KCheckpointBarrier \<Longrightarrow>
      \<forall>it \<in> set xs. barrier_below (checkpoint_offset b) it"
    and descriptors: "fits c \<Longrightarrow> newline \<notin> set (descriptor (asg c)) \<and> newline \<notin> set (src_descriptor (ops c))"
    and lawful: "fits c \<Longrightarrow> lawful_assigner (asg c) (width c)"
    and runs: "fits c \<Longrightarrow> \<exists>p0 p. new_processor (safe_config (cfg c) (asg c)) = Inr p0 \<and>
      run_items (safe_config (cfg c) (asg c)) (items c) p0 = Inr p"
    and holds_state: "fits c \<Longrightarrow> new_processor (safe_config (cfg c) (asg c)) = Inr p0 \<Longrightarrow> items c = xs @ ys \<Longrightarrow>
      run_items (safe_config (cfg c) (asg c)) xs p0 = Inr p \<Longrightarrow> encodable (watermark p) (state p)"
    and holds_rows: "fits c \<Longrightarrow> new_processor (safe_config (cfg c) (asg c)) = Inr p0 \<Longrightarrow>
      run_items (safe_config (cfg c) (asg c)) (items c) p0 = Inr p \<Longrightarrow>
      list_all row_good (emitted_rows (effects (final_flush (safe_config (cfg c) (asg c)) p)))"
begin

text \<open>The processor at the start, and the rows of a run that is not disturbed.\<close>

definition first_state :: "'c \<Rightarrow> processor" where
  "first_state c = projr (new_processor (safe_config (cfg c) (asg c)))"

definition final_state :: "'c \<Rightarrow> processor" where
  "final_state c = projr (run_items (safe_config (cfg c) (asg c)) (items c) (first_state c))"

definition all_rows :: "'c \<Rightarrow> window_result list" where
  "all_rows c = emitted_rows (effects (final_flush (safe_config (cfg c) (asg c)) (final_state c)))"

lemma whole_run:
  assumes "fits c"
  shows "new_processor (safe_config (cfg c) (asg c)) = Inr (first_state c)"
    "run_items (safe_config (cfg c) (asg c)) (items c) (first_state c) = Inr (final_state c)"
    "list_all row_good (all_rows c)"
  using runs [OF assms] holds_rows [OF assms] by (auto simp: first_state_def final_state_def all_rows_def)

lemma run_prefix:
  assumes "fits c" "items c = xs @ ys"
  obtains p where "run_items (safe_config (cfg c) (asg c)) xs (first_state c) = Inr p"
    "run_items (safe_config (cfg c) (asg c)) ys p = Inr (final_state c)"
    "prefix (emitted_rows (effects p)) (all_rows c)" "encodable (watermark p) (state p)"
proof -
  let ?P = "safe_config (cfg c) (asg c)"
  note W = whole_run [OF assms(1)]
  obtain p where p: "run_items ?P xs (first_state c) = Inr p" "run_items ?P ys p = Inr (final_state c)"
    using W(2) assms(2) by (auto simp: run_items_append)
  obtain es fs where "effects (final_state c) = effects p @ es" "effects (final_flush ?P (final_state c)) = effects (final_state c) @ fs"
    using effects_grow [OF p(2)] flush_grows by blast
  then have "prefix (emitted_rows (effects p)) (all_rows c)" by (simp add: all_rows_def)
  then show ?thesis using that p holds_state [OF assms(1) W(1) assms(2) p(1)] by blast
qed

text \<open>
  A recovery point: nothing yet, or a barrier of the stream whose state the directory's newest
  checkpoint holds. The rows written to the sink include those emitted before it.
\<close>

definition recovery_point :: "'c \<Rightarrow> window_result list \<Rightarrow> directory \<Rightarrow> bool" where
  "recovery_point c written dir \<longleftrightarrow>
     fst (load_latest dir) = None \<or>
     checkpointing_enabled (cfg c) \<and>
     (\<exists>xs b ys p. items c = xs @ Control b # ys \<and> ctype b = KCheckpointBarrier \<and>
        run_items (safe_config (cfg c) (asg c)) xs (first_state c) = Inr p \<and>
        fst (load_latest dir) = Some (capture (checkpoint_offset b) p) \<and> prefix (emitted_rows (effects p)) written)"

definition recoverable :: "'c \<Rightarrow> window_result list \<Rightarrow> disk \<Rightarrow> bool" where
  "recoverable c written dk \<longleftrightarrow>
     prefix written (all_rows c) \<and> um_wf (dk_dir dk) \<and> recovery_point c written (dk_dir dk) \<and>
     (case dk_manifest dk of None \<Rightarrow> ckpt_files (dk_dir dk) = []
      | Some m \<Rightarrow> serialize (pipeline_manifest (cfg c) (asg c) (ops c)) = Inr m) \<and>
     (\<exists>t. torn t \<and> (case dk_sink dk of None \<Rightarrow> [] | Some b \<Rightarrow> b) = log_bytes written @ t)"

lemma recovery_point_grows: "recovery_point c xs dir \<Longrightarrow> prefix xs ys \<Longrightarrow> recovery_point c ys dir"
  unfolding recovery_point_def by (meson prefix_order.order_trans)

text \<open>
  A running child that has consumed \<open>xs\<close>, has \<open>ys\<close> still to pull, and has written the rows
  \<open>written\<close>.
\<close>

definition child_at :: "'c \<Rightarrow> batch_item list \<Rightarrow> batch_item list \<Rightarrow> processor \<Rightarrow> window_result list \<Rightarrow> 's child \<Rightarrow> bool" where
  "child_at c xs ys p written ch \<longleftrightarrow>
     items c = xs @ ch_todo ch @ ys \<and> run_items (safe_config (cfg c) (asg c)) xs (first_state c) = Inr p \<and>
     (if ch_drained ch then ch_todo ch @ ys = [] \<and> pl_core (ch_pipeline ch) = final_flush (safe_config (cfg c) (asg c)) p
      else pl_core (ch_pipeline ch) = p \<and> delivers (ops c) (pl_source (ch_pipeline ch)) ys) \<and>
     emitted_rows (effects (pl_core (ch_pipeline ch))) = written @ ch_out ch \<and>
     ch_sink ch = \<lparr>ds_open = True, ds_file = log_bytes written\<rparr>"

definition dir_at :: "'c \<Rightarrow> batch_item list \<Rightarrow> window_result list \<Rightarrow> string option \<Rightarrow> directory \<Rightarrow> bool" where
  "dir_at c xs written mf dir \<longleftrightarrow>
     um_wf dir \<and> recovery_point c written dir \<and>
     (\<forall>n \<in> set (ckpt_files dir).
        \<exists>b. Control b \<in> set xs \<and> ctype b = KCheckpointBarrier \<and> n = checkpoint_filename (checkpoint_offset b)) \<and>
     (case mf of None \<Rightarrow> ckpt_files dir = [] \<and> \<not> checkpointing_enabled (cfg c)
      | Some m \<Rightarrow> serialize (pipeline_manifest (cfg c) (asg c) (ops c)) = Inr m)"

definition child_inv :: "'c \<Rightarrow> 's child \<Rightarrow> bool" where
  "child_inv c ch \<longleftrightarrow>
     (\<exists>xs ys p written. child_at c xs ys p written ch \<and>
        dir_at c xs written (pl_manifest (ch_pipeline ch)) (pl_dir (ch_pipeline ch)))"

lemma dir_at_grows:
  "dir_at c xs written mf dir \<Longrightarrow> prefix xs xs' \<Longrightarrow> prefix written written' \<Longrightarrow> dir_at c xs' written' mf dir"
  unfolding dir_at_def using recovery_point_grows set_mono_prefix by (metis subsetD)

text \<open>A checkpoint written at the next barrier is the new recovery point.\<close>

lemma dir_at_retention:
  assumes fits: "fits c" and d: "dir_at c xs written mf dir" and en: "checkpointing_enabled (cfg c)"
    and its: "items c = xs @ Control b # ys" "ctype b = KCheckpointBarrier"
    and p: "run_items (safe_config (cfg c) (asg c)) xs (first_state c) = Inr p" "emitted_rows (effects p) = written"
    and dir': "dir' \<in> set (retention_crash_states (checkpoint_offset b) (watermark p) (state p) dir)"
  shows "dir_at c (xs @ [Control b]) written mf dir'"
proof -
  have enc: "encodable (watermark p) (state p)"
    using holds_state [OF fits whole_run(1) [OF fits] its(1) p(1)] .
  have below: "n \<le> checkpoint_filename (checkpoint_offset b)" if n: "n \<in> set (ckpt_files dir)" for n
  proof -
    obtain b' where "Control b' \<in> set xs" "ctype b' = KCheckpointBarrier" "n = checkpoint_filename (checkpoint_offset b')"
      using d n unfolding dir_at_def by blast
    then show ?thesis using increasing [OF fits its] filename_le by (force simp: barrier_below_def)
  qed
  have wf: "um_wf dir" using d by (simp add: dir_at_def)
  note R = retention_latest [OF enc wf below dir']
  have "recovery_point c written dir'"
    unfolding recovery_point_def using R(1) en its p file_state_capture by fastforce
  moreover have "mf \<noteq> None" using d en by (auto simp: dir_at_def split: option.splits)
  ultimately show ?thesis using R(2,3) d its(2) unfolding dir_at_def by (auto split: option.splits)
qed

end

lemma delivers_next:
  assumes "delivers src s its" "src_next src s = Inr (Some b, s')"
  obtains its' where "its = b @ its'" "delivers src s' its'"
proof -
  obtain bs s1 s2 where bs: "hands_over src s bs s1" "src_next src s1 = Inr (None, s2)" "[] \<notin> set bs" "its = concat bs"
    using assms(1) by (auto simp: delivers_def)
  then obtain bs' where "bs = b # bs'" "hands_over src s' bs' s1" using assms(2) by (cases bs) auto
  then show ?thesis using that [of "concat bs'"] bs by (auto simp: delivers_def)
qed

lemma delivers_end: "delivers src s its \<Longrightarrow> src_next src s = Inr (None, s') \<Longrightarrow> its = []"
  by (auto simp: delivers_def elim: hands_over.elims)

lemma pl_item_dir:
  assumes "pl_item cfg a (\<lambda>off. WriteOk) it pl = Inr pl'"
  shows "pl_source pl' = pl_source pl \<and> pl_manifest pl' = pl_manifest pl \<and>
    process_item (safe_config cfg a) it (pl_core pl) = Inr (pl_core pl') \<and>
    (pl_dir pl' = pl_dir pl \<or>
     (\<exists>b. it = Control b \<and> ctype b = KCheckpointBarrier \<and> checkpointing_enabled cfg \<and>
        pl_dir pl' \<in> set (retention_crash_states (checkpoint_offset b) (watermark (pl_core pl)) (state (pl_core pl)) (pl_dir pl))))"
proof -
  have lock: "process_item (safe_config cfg a) it (pl_core pl) = Inr (pl_core pl')"
    using pl_items_run [of cfg a "\<lambda>off. WriteOk" "[it]" pl pl'] assms by (simp add: safe_config_def)
  show ?thesis
  proof (cases "\<exists>b. it = Control b \<and> ctype b = KCheckpointBarrier \<and> checkpointing_enabled cfg")
    case True
    then obtain b where b: "it = Control b" "ctype b = KCheckpointBarrier" "checkpointing_enabled cfg" by blast
    then have "pl_write_checkpoint (\<lambda>off. WriteOk) (checkpoint_offset b) pl = Inr pl'" using assms by (simp add: pl_item_def)
    note W = pl_write_keeps [OF this]
    show ?thesis using lock W(1,3) write_is_retention [OF W(5)] b by blast
  next
    case False
    then have "pl_dir pl' = pl_dir pl \<and> pl_source pl' = pl_source pl \<and> pl_manifest pl' = pl_manifest pl"
      using assms by (auto simp: pl_item_def split: batch_item.splits control_type.splits)
    then show ?thesis using lock by blast
  qed
qed

lemma new_rows_split:
  "\<exists>es. effects p' = effects p @ es \<Longrightarrow> emitted_rows (effects p') = emitted_rows (effects p) @ new_rows p p'"
  by (auto simp: new_rows_def)

lemma item_grows: "process_item cfg it p = Inr p' \<Longrightarrow> \<exists>es. effects p' = effects p @ es"
  using effects_grow [of cfg "[it]" p p'] by simp

context recoverable_job
begin

lemma child_rows:
  assumes "fits c" "child_at c xs ys p written ch"
  shows "prefix (written @ ch_out ch) (all_rows c)"
proof -
  have its: "items c = xs @ ch_todo ch @ ys" "run_items (safe_config (cfg c) (asg c)) xs (first_state c) = Inr p"
      "emitted_rows (effects (pl_core (ch_pipeline ch))) = written @ ch_out ch"
    using assms(2) by (simp_all add: child_at_def)
  show ?thesis
  proof (cases "ch_drained ch")
    case True
    then have "pl_core (ch_pipeline ch) = final_flush (safe_config (cfg c) (asg c)) p" "xs = items c"
      using assms(2) by (auto simp: child_at_def)
    moreover from this have "p = final_state c" using its(2) whole_run(2) [OF assms(1)] by simp
    ultimately show ?thesis using its(3) by (simp add: all_rows_def)
  next
    case False
    then have "pl_core (ch_pipeline ch) = p" using assms(2) by (simp add: child_at_def)
    then show ?thesis using run_prefix [OF assms(1) its(1)] its(2,3) by (metis sum.inject(2))
  qed
qed

lemma inv_item:
  assumes "fits c" "child_inv c ch" "ch_todo ch = it # its" "ch_out ch = []"
    and "pl_item (cfg c) (asg c) (\<lambda>off. WriteOk) it (ch_pipeline ch) = Inr pl"
  shows "child_inv c (ch\<lparr>ch_pipeline := pl, ch_todo := its, ch_out := new_rows (pl_core (ch_pipeline ch)) (pl_core pl)\<rparr>)"
proof -
  obtain xs ys p written where ch: "child_at c xs ys p written ch"
      "dir_at c xs written (pl_manifest (ch_pipeline ch)) (pl_dir (ch_pipeline ch))"
    using assms(2) unfolding child_inv_def by blast
  have nd: "\<not> ch_drained ch" "pl_core (ch_pipeline ch) = p" "items c = xs @ it # (its @ ys)"
      "run_items (safe_config (cfg c) (asg c)) xs (first_state c) = Inr p" "emitted_rows (effects p) = written"
    using ch(1) assms(3,4) by (auto simp: child_at_def split: if_splits)
  note I = pl_item_dir [OF assms(5), unfolded nd(2)]
  have "run_items (safe_config (cfg c) (asg c)) (xs @ [it]) (first_state c) = Inr (pl_core pl)"
    using nd(4) I by (simp add: run_items_append)
  moreover have "emitted_rows (effects (pl_core pl)) = written @ new_rows p (pl_core pl)"
    using new_rows_split [OF item_grows] I nd(5) by metis
  ultimately have at: "child_at c (xs @ [it]) ys (pl_core pl) written
      (ch\<lparr>ch_pipeline := pl, ch_todo := its, ch_out := new_rows p (pl_core pl)\<rparr>)"
    using ch(1) nd(1,2) I assms(3) by (auto simp: child_at_def)
  have "dir_at c (xs @ [it]) written (pl_manifest pl) (pl_dir pl)"
    using I dir_at_retention [OF assms(1) ch(2) _ _ _ nd(4,5)] dir_at_grows [OF ch(2)] nd(3) by auto
  then show ?thesis using at nd(2) unfolding child_inv_def by auto
qed

lemma inv_emit:
  assumes "fits c" "child_inv c ch" "ch_out ch = r # rs" "sink_emit ws ok r (ch_sink ch) = (Some (Inr ()), d)"
  shows "child_inv c (ch\<lparr>ch_out := rs, ch_sink := d\<rparr>)"
proof -
  obtain xs ys p written where ch: "child_at c xs ys p written ch"
      "dir_at c xs written (pl_manifest (ch_pipeline ch)) (pl_dir (ch_pipeline ch))"
    using assms(2) unfolding child_inv_def by blast
  have "row_good r"
    using child_rows [OF assms(1) ch(1)] whole_run(3) [OF assms(1)] assms(3) by (auto simp: prefix_def)
  then have "d = \<lparr>ds_open = True, ds_file = log_bytes (written @ [r])\<rparr>"
    using emit_log(3) assms(4) ch(1) unfolding child_at_def by fastforce
  then have "child_at c xs ys p (written @ [r]) (ch\<lparr>ch_out := rs, ch_sink := d\<rparr>)"
    using ch(1) assms(3) by (simp add: child_at_def)
  moreover have "dir_at c xs (written @ [r]) (pl_manifest (ch_pipeline ch)) (pl_dir (ch_pipeline ch))"
    using dir_at_grows [OF ch(2)] by simp
  ultimately show ?thesis unfolding child_inv_def by fastforce
qed

lemma inv_pull:
  assumes "child_inv c ch" "ch_todo ch = []" "\<not> ch_drained ch"
    and "src_next (ops c) (pl_source (ch_pipeline ch)) = Inr (Some b, s)"
  shows "child_inv c (ch\<lparr>ch_pipeline := (ch_pipeline ch)\<lparr>pl_source := s\<rparr>, ch_todo := b\<rparr>)"
proof -
  obtain xs ys p written where ch: "child_at c xs ys p written ch"
      "dir_at c xs written (pl_manifest (ch_pipeline ch)) (pl_dir (ch_pipeline ch))"
    using assms(1) unfolding child_inv_def by blast
  then have "delivers (ops c) (pl_source (ch_pipeline ch)) ys" using assms(3) by (simp add: child_at_def)
  then obtain ys' where "ys = b @ ys'" "delivers (ops c) s ys'" using delivers_next [OF _ assms(4)] by blast
  then have "child_at c xs ys' p written (ch\<lparr>ch_pipeline := (ch_pipeline ch)\<lparr>pl_source := s\<rparr>, ch_todo := b\<rparr>)"
    using ch(1) assms(2,3) by (auto simp: child_at_def)
  then show ?thesis using ch(2) unfolding child_inv_def by fastforce
qed

lemma inv_drain:
  assumes "child_inv c ch" "ch_todo ch = []" "ch_out ch = []" "\<not> ch_drained ch"
    and "src_next (ops c) (pl_source (ch_pipeline ch)) = Inr (None, s)"
    and q: "q = pl_final_flush (cfg c) (pl_core (ch_pipeline ch))"
  shows "child_inv c (ch\<lparr>ch_pipeline := (ch_pipeline ch)\<lparr>pl_source := s, pl_core := q\<rparr>,
    ch_out := new_rows (pl_core (ch_pipeline ch)) q, ch_drained := True\<rparr>)"
proof -
  obtain xs ys p written where ch: "child_at c xs ys p written ch"
      "dir_at c xs written (pl_manifest (ch_pipeline ch)) (pl_dir (ch_pipeline ch))"
    using assms(1) unfolding child_inv_def by blast
  then have "ys = []" and p: "pl_core (ch_pipeline ch) = p"
    using assms(4) delivers_end [OF _ assms(5)] by (auto simp: child_at_def)
  moreover have "q = final_flush (safe_config (cfg c) (asg c)) p"
    using q p pl_final_flush_eq by (simp add: safe_config_def)
  moreover from this have "emitted_rows (effects q) = emitted_rows (effects p) @ new_rows p q"
    using new_rows_split flush_grows by blast
  ultimately have "child_at c xs [] p written (ch\<lparr>ch_pipeline := (ch_pipeline ch)\<lparr>pl_source := s, pl_core := q\<rparr>,
      ch_out := new_rows (pl_core (ch_pipeline ch)) q, ch_drained := True\<rparr>)"
    using ch(1) assms(2,3) by (simp add: child_at_def)
  then show ?thesis using ch(2) unfolding child_inv_def by fastforce
qed


lemma inv_step:
  assumes "child_step (cfg c) (asg c) (ops c) ch ch'" "fits c" "child_inv c ch"
  shows "child_inv c ch'"
  using assms
proof (cases rule: child_step.cases)
  case (child_pull b s)
  then show ?thesis using inv_pull [OF assms(3)] by simp
next
  case (child_item it its pl)
  then show ?thesis using inv_item [OF assms(2,3)] by simp
next
  case (child_emit r rs ws ok d)
  then show ?thesis using inv_emit [OF assms(2,3)] by simp
next
  case (child_drain s q)
  then show ?thesis using inv_drain [OF assms(3)] by simp
qed

lemma inv_steps:
  "(child_step (cfg c) (asg c) (ops c))\<^sup>*\<^sup>* ch ch' \<Longrightarrow> fits c \<Longrightarrow> child_inv c ch \<Longrightarrow> child_inv c ch'"
  by (induction rule: rtranclp_induct) (auto intro: inv_step)

lemma inv_left:
  assumes "left_behind (cfg c) ch dk" "fits c" "child_inv c ch"
  shows "\<exists>written. recoverable c written dk"
proof -
  obtain xs ys p written where ch: "child_at c xs ys p written ch"
      "dir_at c xs written (pl_manifest (ch_pipeline ch)) (pl_dir (ch_pipeline ch))"
    using assms(3) unfolding child_inv_def by blast
  have pre: "prefix (written @ ch_out ch) (all_rows c)" by (rule child_rows [OF assms(2) ch(1)])
  have sink: "ch_sink ch = \<lparr>ds_open = True, ds_file = log_bytes written\<rparr>" using ch(1) by (simp add: child_at_def)
  have rec: "recoverable c w \<lparr>dk_manifest = pl_manifest (ch_pipeline ch), dk_dir = dir, dk_sink = Some f\<rparr>"
    if "prefix w (all_rows c)" "dir_at c zs w (pl_manifest (ch_pipeline ch)) dir" "torn t" "f = log_bytes w @ t" for w zs dir t f
    using that by (auto simp: recoverable_def dir_at_def split: option.splits)
  show ?thesis
    using assms(1)
  proof (cases rule: left_behind.cases)
    case left_between
    then show ?thesis
      using rec [OF append_prefixD [OF pre] ch(2) torn_Nil] sink by auto
  next
    case (left_in_emit r rs ws ok res d)
    have good: "row_good r"
      using pre whole_run(3) [OF assms(2)] left_in_emit(2) by (auto simp: prefix_def)
    have p1: "prefix (written @ [r]) (all_rows c)" "prefix written (written @ [r])"
      using pre left_in_emit(2) by (auto simp: prefix_def)
    show ?thesis
      using emit_log(1) [OF left_in_emit(3) [unfolded sink] good] left_in_emit(1)
        rec [OF p1(1) dir_at_grows [OF ch(2) prefix_order.refl p1(2)] torn_Nil] rec [OF append_prefixD [OF p1(1)] ch(2)]
      by (metis append_Nil2)
  next
    case (left_in_checkpoint b its q dir)
    then have nd: "\<not> ch_drained ch" "q = p" "items c = xs @ Control b # (its @ ys)" "emitted_rows (effects p) = written"
        "run_items (safe_config (cfg c) (asg c)) xs (first_state c) = Inr p"
      using ch(1) by (auto simp: child_at_def split: if_splits)
    have wf: "um_wf (pl_dir (ch_pipeline ch))" using ch(2) by (simp add: dir_at_def)
    from killed_write_cases [OF left_in_checkpoint(7) wf]
    have "\<exists>zs. dir_at c zs written (pl_manifest (ch_pipeline ch)) dir"
    proof
      assume "dir \<in> set (retention_crash_states (checkpoint_offset b) (watermark q) (state q) (pl_dir (ch_pipeline ch)))"
      then show ?thesis
        using dir_at_retention [OF assms(2) ch(2) left_in_checkpoint(5) nd(3) left_in_checkpoint(4) nd(5,4)] nd(2) by blast
    next
      assume "load_latest dir = load_latest (pl_dir (ch_pipeline ch)) \<and> um_wf dir \<and> ckpt_files dir = ckpt_files (pl_dir (ch_pipeline ch))"
      then show ?thesis using ch(2) by (intro exI [of _ xs]) (simp add: dir_at_def recovery_point_def split: option.splits)
    qed
    then show ?thesis
      using rec [OF append_prefixD [OF pre] _ torn_Nil] sink left_in_checkpoint(1) by auto
  qed
qed

lemma manifest_made:
  assumes "fits c"
  obtains m where "serialize (pipeline_manifest (cfg c) (asg c) (ops c)) = Inr m"
  using serialize_total [OF pipeline_manifest_ok(1)] descriptors [OF assms] unfolding serialize_def by blast

text \<open>Wherever the child is killed, what it leaves is recoverable.\<close>

lemma killed_recoverable:
  assumes "fits c" "killed_disk (cfg c) (asg c) (ops c) (start c) dk"
  shows "\<exists>written. recoverable c written dk"
proof -
  obtain pl m where pl: "new_pipeline (cfg c) (start c) [] None = Inr pl"
      "serialize (pipeline_manifest (cfg c) (asg c) (ops c)) = Inr m"
    and dk: "dk \<in> set (killed_at_start m) \<or>
      (\<exists>ch. (child_step (cfg c) (asg c) (ops c))\<^sup>*\<^sup>* (started_child pl (if checkpointing_enabled (cfg c) then Some m else None)) ch \<and>
         left_behind (cfg c) ch dk)"
    using assms(2) by (auto simp: killed_disk_def)
  note N = new_pipeline_core [OF pl(1)]
  have p0: "pl_core pl = first_state c"
    using N [of "asg c" "\<lambda>off. WriteOk"] whole_run(1) [OF assms(1)] by (simp add: safe_config_def)
  have none: "fst (load_latest dir) = None" if "ckpt_files dir = []" for dir
    using that by (simp add: load_latest_scan newest_first_def)
  from dk show ?thesis
  proof
    assume "dk \<in> set (killed_at_start m)"
    then have "recoverable c [] dk"
      using none by (auto simp: killed_at_start_def recoverable_def recovery_point_def um_wf_def ckpt_files_def is_ckpt_def
          kManifestName_def simp del: upt_Suc intro: torn_Nil)
    then show ?thesis by blast
  next
    let ?mf = "if checkpointing_enabled (cfg c) then Some m else None"
    have "effects (first_state c) = []" by (rule new_no_effects [OF whole_run(1) [OF assms(1)]])
    then have "child_at c [] (items c) (first_state c) [] (started_child pl ?mf)"
      using N delivered [OF assms(1)] p0 by (simp add: child_at_def started_child_def)
    moreover have "dir_at c [] [] ?mf []"
      using pl(2) none [of "[]"] by (simp add: dir_at_def recovery_point_def ckpt_files_def)
    ultimately have "child_inv c (started_child pl ?mf)"
      using N unfolding child_inv_def by (fastforce simp: started_child_def)
    moreover assume "\<exists>ch. (child_step (cfg c) (asg c) (ops c))\<^sup>*\<^sup>* (started_child pl ?mf) ch \<and> left_behind (cfg c) ch dk"
    ultimately show ?thesis using inv_left [OF _ assms(1)] inv_steps [OF _ assms(1)] by blast
  qed
qed

end

section \<open>The restarted pipeline\<close>

text \<open>A run that finds no checkpoint starts from the beginning.\<close>

lemma pl_loop_invariant:
  fixes pl :: "'s pipeline"
  assumes "hands_over src (pl_source pl) bs s'" "pl_stop pl = None" "[] \<notin> set bs"
    and "run_items (as_config cfg a env) (concat bs) (pl_core pl) = Inr p"
    and "I xs (pl_core pl) (pl_dir pl)"
    and step: "\<And>it (q :: 's pipeline) q' zs ys. xs @ concat bs = zs @ it # ys \<Longrightarrow> I zs (pl_core q) (pl_dir q) \<Longrightarrow>
      pl_item cfg a env it q = Inr q' \<Longrightarrow> I (zs @ [it]) (pl_core q') (pl_dir q')"
  shows "\<exists>pl'. pl_loop (length bs + fuel) cfg a env src [] pl = pl_loop fuel cfg a env src [] pl' \<and>
    pl_core pl' = p \<and> pl_source pl' = s' \<and> pl_stop pl' = None \<and> pl_manifest pl' = pl_manifest pl \<and>
    pl_restored_offset pl' = pl_restored_offset pl \<and> I (xs @ concat bs) p (pl_dir pl')"
  using assms
proof (induction bs arbitrary: pl xs)
  case Nil
  then show ?case by (auto simp: run_items_def)
next
  case (Cons b bs)
  obtain s1 where s1: "src_next src (pl_source pl) = Inr (Some b, s1)" "hands_over src s1 bs s'"
    using Cons.prems(1) by auto
  obtain q where q: "run_items (as_config cfg a env) b (pl_core pl) = Inr q"
      "run_items (as_config cfg a env) (concat bs) q = Inr p"
    using Cons.prems(4) by (auto simp: run_items_def fold_res_append)
  have b: "b \<noteq> []" using Cons.prems(3) by auto
  let ?pl1 = "pl\<lparr>pl_source := s1, pl_backoff := 0\<rparr>"
  obtain pl2 where pl2: "fold_res (pl_item cfg a env) b ?pl1 = Inr pl2"
    using pl_items_total [of cfg a env b ?pl1] q(1) by auto
  have k: "pl_source pl2 = s1" "pl_stop pl2 = None" "pl_manifest pl2 = pl_manifest pl"
      "pl_restored_offset pl2 = pl_restored_offset pl"
    using pl_items_keep [OF pl2] Cons.prems by auto
  have c: "pl_core pl2 = q" using pl_items_run [OF pl2] q(1) by simp
  note advance = Cons.prems(6)
  have inv: "fold_res (pl_item cfg a env) zs u = Inr v \<Longrightarrow> I ys (pl_core u) (pl_dir u) \<Longrightarrow>
      xs @ concat (b # bs) = ys @ zs @ ts \<Longrightarrow> I (ys @ zs) (pl_core v) (pl_dir v)" for zs ys ts and u v :: "'s pipeline"
  proof (induction zs arbitrary: ys u)
    case (Cons z zs)
    obtain u1 where u1: "pl_item cfg a env z u = Inr u1" "fold_res (pl_item cfg a env) zs u1 = Inr v"
      using Cons.prems(1) by auto
    show ?case
      using Cons.IH [OF u1(2), of "ys @ [z]"] advance [of ys z "zs @ ts" u u1] u1(1) Cons.prems(2,3) by simp
  qed simp
  have "pl_loop (length (b # bs) + fuel) cfg a env src [] pl = pl_loop (length bs + fuel) cfg a env src [] (publish_progress pl2)"
    using s1(1) pl2 b Cons.prems(2) by (auto simp: arrive_def pl_loop.simps(2) [of "length bs + fuel"] neq_Nil_conv)
  moreover have "I (xs @ b) (pl_core pl2) (pl_dir pl2)" using inv [OF pl2, of xs "concat bs"] Cons.prems(5) by simp
  ultimately show ?case
    using Cons.IH [of "publish_progress pl2" "xs @ b"] k c s1(2) q(2) Cons.prems(3,6) by (auto simp: publish_progress_def)
qed

lemma fresh_run:
  fixes pl0 :: "'s pipeline"
  assumes new: "new_pipeline cfg s0 dir mf = Inr pl0"
    and en: "checkpointing_enabled cfg \<Longrightarrow> src_replayable src \<and> fst (load_latest dir) = None"
    and desc: "newline \<notin> set (descriptor a)" "newline \<notin> set (src_descriptor src)"
    and mf: "case mf of None \<Rightarrow> ckpt_files dir = [] | Some m \<Rightarrow> serialize (pipeline_manifest cfg a src) = Inr m"
    and bs: "hands_over src s0 bs s1" "[] \<notin> set bs" and fin: "src_next src s1 = Inr (None, s2)"
    and run: "run_items (as_config cfg a env) (concat bs) (pl_core pl0) = Inr p"
    and inv: "I [] (pl_core pl0) (if checkpointing_enabled cfg then snd (load_latest dir) else dir)"
    and step: "\<And>it (q :: 's pipeline) q' zs ys. concat bs = zs @ it # ys \<Longrightarrow> I zs (pl_core q) (pl_dir q) \<Longrightarrow>
      pl_item cfg a env it q = Inr q' \<Longrightarrow> I (zs @ [it]) (pl_core q') (pl_dir q')"
  shows "\<exists>pl1 st. pl_run (length bs + Suc fuel) None cfg a env src [] pl0 = Some (Inr (pl1, st)) \<and>
    \<not> ps_suspended st \<and> ps_records_replayed st = 0 \<and> ps_counters st = stats (pl_core pl1) \<and>
    pl_core pl1 = final_flush (as_config cfg a env) p \<and> I (concat bs) p (pl_dir pl1) \<and>
    pl_manifest pl1 = (if checkpointing_enabled cfg \<and> mf = None
      then Some (projr (serialize (pipeline_manifest cfg a src))) else mf)"
proof -
  have pl0: "pl_source pl0 = s0" "pl_dir pl0 = dir" "pl_manifest pl0 = mf" "pl_stop pl0 = None"
    using new_pipeline_core [OF new] by auto
  have zero: "pl_restored_offset pl0 = 0" using new by (auto simp: new_pipeline_def split: if_splits)
  obtain m where m: "serialize (pipeline_manifest cfg a src) = Inr m"
    using serialize_total [OF pipeline_manifest_ok(1) [OF desc]] unfolding serialize_def by blast
  have lm: "load_manifest path m = Inr (pipeline_manifest cfg a src)" for path
    by (rule load_serialize [OF m pipeline_manifest_ok(2) [OF desc]])
  have "\<exists>pl. (if checkpointing_enabled cfg then try_restore None cfg a src pl0 else Inr pl0) = Inr pl \<and>
      pl_source pl = s0 \<and> pl_stop pl = None \<and> pl_core pl = pl_core pl0 \<and> pl_restored_offset pl = 0 \<and>
      pl_dir pl = (if checkpointing_enabled cfg then snd (load_latest dir) else dir) \<and>
      pl_manifest pl = (if checkpointing_enabled cfg \<and> mf = None then Some (projr (serialize (pipeline_manifest cfg a src))) else mf)"
  proof (cases "checkpointing_enabled cfg")
    case True
    then have latest: "fst (load_latest dir) = None" using en by blast
    have "validate_or_create None (plc_checkpoint_dir cfg) (map fst dir) (pipeline_manifest cfg a src) mf =
        Inr (if mf = None then Some (projr (serialize (pipeline_manifest cfg a src))) else mf)"
      using mf m lm by (cases mf) (auto simp: validate_or_create_def has_checkpoint_files_def ckpt_files_def list_ex_iff filter_empty_conv)
    then show ?thesis using True latest pl0 zero by (auto simp: try_restore_def Let_def split_def)
  qed (use pl0 zero in simp)
  then obtain pl where pl: "(if checkpointing_enabled cfg then try_restore None cfg a src pl0 else Inr pl0) = Inr pl"
      "pl_source pl = s0" "pl_stop pl = None" "pl_core pl = pl_core pl0" "pl_restored_offset pl = 0"
      "pl_dir pl = (if checkpointing_enabled cfg then snd (load_latest dir) else dir)"
      "pl_manifest pl = (if checkpointing_enabled cfg \<and> mf = None then Some (projr (serialize (pipeline_manifest cfg a src))) else mf)"
    by blast
  obtain pl2 where pl2: "pl_loop (length bs + Suc fuel) cfg a env src [] pl = pl_loop (Suc fuel) cfg a env src [] pl2"
      "pl_core pl2 = p" "pl_source pl2 = s1" "pl_stop pl2 = None" "pl_restored_offset pl2 = 0"
      "I (concat bs) p (pl_dir pl2)" "pl_manifest pl2 = pl_manifest pl"
    using pl_loop_invariant [of src pl bs s1 cfg a env p I "[]" "Suc fuel"] bs run pl(2-6) inv step by auto
  have "pl_loop (Suc fuel) cfg a env src [] pl2 = Some (Inr (pl2\<lparr>pl_source := s2\<rparr>, False))"
    using pl2 fin by (simp add: arrive_def pl_loop.simps(2))
  moreover have "(checkpointing_enabled cfg \<and> \<not> src_replayable src) = False" using en by blast
  ultimately show ?thesis
    unfolding pl_run_def using pl pl2 pl_final_flush_eq [of cfg p a env]
    by (simp add: pl_finish_def Let_def publish_progress_def)
qed

lemma delivers_batches:
  assumes "delivers src s its" "length its < fuel"
  obtains bs s1 s2 f where "hands_over src s bs s1" "src_next src s1 = Inr (None, s2)" "concat bs = its" "fuel = length bs + Suc f" "[] \<notin> set bs"
proof -
  obtain bs s1 s2 where b: "hands_over src s bs s1" "src_next src s1 = Inr (None, s2)" "[] \<notin> set bs" "its = concat bs"
    using assms(1) by (auto simp: delivers_def)
  then have "length bs < fuel" using length_concat_nonempty [OF b(3)] assms(2) by simp
  then obtain f where "fuel = length bs + Suc f" using less_imp_Suc_add by auto
  then show ?thesis using that b by blast
qed

context recoverable_job
begin

lemma pipeline_made:
  assumes "fits c"
  obtains pl0 where "new_pipeline (cfg c) (start c) dir mf = Inr pl0" "pl_core pl0 = first_state c"
proof -
  have new: "new_processor (safe_config (cfg c) (asg c)) = Inr (first_state c)" by (rule whole_run(1) [OF assms])
  then have "0 \<le> plc_lateness (cfg c)" by (auto simp: new_processor_def split: if_splits)
  then have "\<exists>pl0. new_pipeline (cfg c) (start c) dir mf = Inr pl0"
    by (simp add: new_pipeline_def set_allowed_lateness_def)
  then obtain pl0 where pl0: "new_pipeline (cfg c) (start c) dir mf = Inr pl0" by blast
  have "pl_core pl0 = first_state c"
    using new_pipeline_core [OF pl0, of "asg c" "\<lambda>off. WriteOk"] new by (simp add: safe_config_def)
  then show ?thesis using that pl0 by blast
qed

text \<open>
  The restarted pipeline returns, and its rows are those the whole run emits after the recovery
  point; everything before it is in the old sink.
\<close>

lemma restart_completes:
  assumes fits: "fits c" and rec: "recoverable c written dk" and fuel: "length (items c) < fuel"
  shows "\<exists>pl0 pl1 st before. new_pipeline (cfg c) (start c) (dk_dir dk) (dk_manifest dk) = Inr pl0 \<and>
    pl_run fuel None (cfg c) (asg c) (\<lambda>off. WriteOk) (ops c) [] pl0 = Some (Inr (pl1, st)) \<and>
    all_rows c = before @ emitted_rows (effects (pl_core pl1)) \<and> prefix before written \<and>
    (checkpointing_enabled (cfg c) \<longrightarrow> ps_records_replayed st = (case fst (load_latest (dk_dir dk)) of None \<Rightarrow> 0 | Some d \<Rightarrow> cd_offset d))"
proof -
  let ?P = "safe_config (cfg c) (asg c)"
  note W = whole_run [OF fits] and D = descriptors [OF fits]
  obtain pl0 where pl0: "new_pipeline (cfg c) (start c) (dk_dir dk) (dk_manifest dk) = Inr pl0" "pl_core pl0 = first_state c"
    using pipeline_made [OF fits] .
  have wf: "um_wf (dk_dir dk)" and point: "recovery_point c written (dk_dir dk)"
    and mf: "case dk_manifest dk of None \<Rightarrow> ckpt_files (dk_dir dk) = []
      | Some m \<Rightarrow> serialize (pipeline_manifest (cfg c) (asg c) (ops c)) = Inr m"
    using rec by (simp_all add: recoverable_def)
  from point consider (fresh) "fst (load_latest (dk_dir dk)) = None"
    | (resumed) xs b ys p where "checkpointing_enabled (cfg c)" "items c = xs @ Control b # ys" "ctype b = KCheckpointBarrier"
        "run_items ?P xs (first_state c) = Inr p" "fst (load_latest (dk_dir dk)) = Some (capture (checkpoint_offset b) p)"
        "prefix (emitted_rows (effects p)) written"
    unfolding recovery_point_def by metis
  then show ?thesis
  proof cases
    case fresh
    obtain bs s1 s2 f where b: "hands_over (ops c) (start c) bs s1" "src_next (ops c) s1 = Inr (None, s2)" "concat bs = items c"
        "fuel = length bs + Suc f" "[] \<notin> set bs"
      using delivers_batches [OF delivered [OF fits] fuel] .
    have en: "checkpointing_enabled (cfg c) \<Longrightarrow> src_replayable (ops c) \<and> fst (load_latest (dk_dir dk)) = None"
      using fresh replayable [OF fits] by simp
    have "run_items (as_config (cfg c) (asg c) (\<lambda>off. WriteOk)) (concat bs) (pl_core pl0) = Inr (final_state c)"
      using W(2) b(3) pl0(2) by (simp add: safe_config_def)
    from fresh_run [OF pl0(1) en conjunct1 [OF D] conjunct2 [OF D] mf b(1,5,2) this, of "\<lambda>_ _ _. True" f]
    obtain pl1 st where r: "pl_run fuel None (cfg c) (asg c) (\<lambda>off. WriteOk) (ops c) [] pl0 = Some (Inr (pl1, st))"
        "ps_records_replayed st = 0" "pl_core pl1 = final_flush ?P (final_state c)"
      unfolding b(4) safe_config_def by auto
    then show ?thesis
      using pl0(1) fresh by (intro exI [of _ pl0] exI [of _ pl1] exI [of _ st] exI [of _ "[]"]) (simp add: all_rows_def)
  next
    case resumed
    obtain s where s: "src_seek (ops c) (checkpoint_offset b) (start c) = Inr s" "delivers (ops c) s ys"
      using seekable [OF fits resumed(2,3)] by blast
    have "length ys < fuel" using fuel resumed(2) by simp
    then obtain bs s1 s2 f where b: "hands_over (ops c) s bs s1" "src_next (ops c) s1 = Inr (None, s2)" "concat bs = ys" "fuel = length bs + Suc f" "[] \<notin> set bs"
      by (rule delivers_batches [OF s(2)])
    obtain m where m: "dk_manifest dk = Some m" "serialize (pipeline_manifest (cfg c) (asg c) (ops c)) = Inr m"
      using mf resumed(5) by (cases "dk_manifest dk") (auto simp: load_latest_scan newest_first_def)
    have split: "items c = (xs @ [Control b]) @ ys" using resumed(2) by simp
    obtain p1 where p1: "run_items ?P (xs @ [Control b]) (first_state c) = Inr p1" "run_items ?P ys p1 = Inr (final_state c)"
      using run_prefix [OF fits split] by blast
    have step: "process_item ?P (Control b) p = Inr p1" using p1(1) resumed(4) by (simp add: run_items_append)
    then have bar: "process_barrier ?P (checkpoint_offset b) p = Inr p1"
      using resumed(3) by (simp add: process_item_def process_control_def)
    then have same: "capture off p1 = capture off p" "emitted_rows (effects p1) = emitted_rows (effects p)" for off
      by (auto simp: process_barrier_def Let_def capture_def split: if_splits)
    have lw: "lawful_assigner (assigner ?P) (width c)" using lawful [OF fits] by simp
    let ?d = "capture (checkpoint_offset b) p"
    obtain r where r: "run_items ?P ys (restore ?d (first_state c)) = Inr r"
        "final_state c = with_history (effects p1) (stats p1) r"
      using restart_continues [OF W(1) p1(1) lw, of ys "checkpoint_offset b"] W(2) split same(1)
      by (cases "run_items ?P ys (restore ?d (first_state c))") auto
    have rows: "all_rows c = emitted_rows (effects p) @ emitted_rows (effects (final_flush ?P r))"
      using same(2) by (simp add: all_rows_def r(2) flush_with_history)
    have seek: "src_seek (ops c) (cd_offset ?d) (start c) = Inr s" using s(1) by (simp add: capture_def)
    have run: "run_items (as_config (cfg c) (asg c) (\<lambda>off. WriteOk)) (concat bs) (restore ?d (pl_core pl0)) = Inr r"
      using r(1) b(3) pl0(2) by (simp add: safe_config_def)
    from resumed_run [OF pl0(1) [unfolded m(1)] resumed(1) replayable [OF fits] conjunct1 [OF D] conjunct2 [OF D] m(2)
        resumed(5) wf seek b(1,2) run] show ?thesis
      using pl0(1) rows resumed(5,6) b(4) by (fastforce simp: safe_config_def)
  qed
qed

end

section \<open>What a bounded stream leaves in the state\<close>

text \<open>
  Streams whose values, times and keys fit the checkpoint and log formats, over an assigner that
  puts a record into at most one window.
\<close>

definition storable_stream :: "processor_config \<Rightarrow> batch_item list \<Rightarrow> bool" where
  "storable_stream cfg its \<longleftrightarrow>
     (\<forall>r. Data r \<in> set its \<longrightarrow> 0 \<le> val r \<and> val r \<le> 1000 \<and> length (key r) < 2 ^ 32) \<and>
     (\<forall>b. Control b \<in> set its \<longrightarrow> ctype b = KWatermark \<longrightarrow> in_i64 (cwatermark b)) \<and>
     1000 * int (length (data_of its)) \<le> i64_max \<and>
     (\<forall>t ws. assign_windows (assigner cfg) t = Inr ws \<longrightarrow> length ws \<le> 1)"

definition stream_slots :: "processor_config \<Rightarrow> batch_item list \<Rightarrow> (string \<times> window) set" where
  "stream_slots cfg its = {(k, w). \<exists>r. Data r \<in> set its \<and> key r = k \<and> assigned cfg (event_time r) w}"

lemma set_data_of: "r \<in> set (data_of its) \<longleftrightarrow> Data r \<in> set its"
  by (induction its rule: data_of.induct) auto

lemma slots_bound:
  assumes "storable_stream cfg its"
  shows "finite (stream_slots cfg its)" "card (stream_slots cfg its) \<le> length (data_of its)"
proof -
  let ?f = "\<lambda>r. (key r, case assign_windows (assigner cfg) (event_time r) of Inr [w] \<Rightarrow> w | _ \<Rightarrow> undefined)"
  have "(key r, w) = ?f r" if "assigned cfg (event_time r) w" for r w
  proof -
    obtain ws where ws: "assign_windows (assigner cfg) (event_time r) = Inr ws" "w \<in> set ws"
      using \<open>assigned cfg (event_time r) w\<close> by (auto simp: assigned_def split: sum.splits)
    then have "length ws \<le> 1" using assms by (simp add: storable_stream_def)
    then have "ws = [w]" using ws(2) by (cases ws) auto
    then show ?thesis using ws(1) by simp
  qed
  then have sub: "stream_slots cfg its \<subseteq> ?f ` set (data_of its)"
    by (force simp: stream_slots_def set_data_of)
  then show "finite (stream_slots cfg its)" by (rule finite_subset) simp
  have "card (stream_slots cfg its) \<le> card (?f ` set (data_of its))" using sub by (intro card_mono) auto
  also have "\<dots> \<le> length (data_of its)" by (meson card_image_le card_length finite_set order_trans)
  finally show "card (stream_slots cfg its) \<le> length (data_of its)" .
qed

text \<open>A cell with a pane or a row has had a record, and its sums are small.\<close>

lemma cell_bounded:
  assumes "\<forall>r. Data r \<in> set its \<longrightarrow> 0 \<le> val r \<and> val r \<le> 1000" "length (data_of its) < 2 ^ 64"
    and "q \<in> set_option (c_pane (fold (cell_step cfg k w) its empty_cell)) \<union> c_rows (fold (cell_step cfg k w) its empty_cell)"
  shows "pane_small (length (data_of its)) (Some q) \<and> (k, w) \<in> stream_slots cfg its"
  using assms
proof (induction its arbitrary: q rule: rev_induct)
  case Nil
  then show ?case by (simp add: empty_cell_def)
next
  case (snoc it its)
  define c where "c = fold (cell_step cfg k w) its empty_cell"
  have IH: "pane_small (length (data_of its)) (Some x) \<and> (k, w) \<in> stream_slots cfg its"
    if "x \<in> set_option (c_pane c) \<union> c_rows c" for x
    using snoc that by (simp add: c_def)
  have mono: "pane_small (length (data_of (its @ [it]))) (Some x)" "(k, w) \<in> stream_slots cfg (its @ [it])"
    if "x \<in> set_option (c_pane c) \<union> c_rows c" for x
    using IH [OF that] pane_small_mono [of "length (data_of its)"] by (auto simp: stream_slots_def)
  have q: "q \<in> set_option (c_pane (cell_step cfg k w it c)) \<union> c_rows (cell_step cfg k w it c)"
    using snoc.prems(3) by (simp add: c_def)
  show ?case
  proof (cases it)
    case (Data r)
    show ?thesis
    proof (cases "key r = k \<and> assigned cfg (event_time r) w \<and> c_wm c < deadline (lateness cfg) w")
      case True
      have "pane_small (length (data_of its)) (c_pane c)"
        using IH by (cases "c_pane c") (auto simp: pane_small_def)
      then have "pane_small (Suc (length (data_of its))) (Some (grow (c_pane c) (val r)))"
        using snoc.prems Data by (intro pane_small_grow) auto
      then show ?thesis
        using q True Data mono by (auto simp: cell_step_def cell_record_def stream_slots_def)
    next
      case False
      then show ?thesis using q Data mono by (auto simp: cell_step_def cell_record_def split: if_splits)
    qed
  next
    case (Control b)
    then have "q \<in> set_option (c_pane c) \<union> c_rows c"
      using q by (cases "ctype b") (auto simp: cell_step_def cell_watermark_def split: if_splits)
    then show ?thesis using mono by blast
  qed
qed

lemma run_bounded:
  assumes new: "new_processor cfg = Inr p0" and run: "run_items cfg its p0 = Inr p"
    and law: "lawful_assigner (assigner cfg) width" and ok: "storable_stream cfg its"
  shows "pane_at (state p) w k = Some q \<Longrightarrow> pane_small (length (data_of its)) (Some q) \<and> (k, w) \<in> stream_slots cfg its"
    and "q \<in> rows_of k w (effects (final_flush cfg p)) \<Longrightarrow>
      pane_small (length (data_of its)) (Some q) \<and> (k, w) \<in> stream_slots cfg its"
proof -
  let ?c = "fold (cell_step cfg k w) its empty_cell"
  have size: "length (data_of its) < 2 ^ 64" using ok by (simp add: storable_stream_def i64_nums)
  have val: "\<forall>r. Data r \<in> set its \<longrightarrow> 0 \<le> val r \<and> val r \<le> 1000" using ok by (simp add: storable_stream_def)
  note B = cell_bounded [OF val size, of _ cfg k w]
  have "c_pane ?c = pane_at (state p) w k"
    using processor_refines_cells(1) [OF new run law, of k w] by (metis cell.select_convs(2) cell_of_def)
  then show "pane_at (state p) w k = Some q \<Longrightarrow> pane_small (length (data_of its)) (Some q) \<and> (k, w) \<in> stream_slots cfg its"
    using B [of q] by simp
  have "rows_of k w (effects (final_flush cfg p)) = c_rows (cell_flush ?c)"
    using processor_refines_cells(2) [OF new run law, of k w] by (metis cell.select_convs(3) cell_of_def)
  then show "q \<in> rows_of k w (effects (final_flush cfg p)) \<Longrightarrow>
      pane_small (length (data_of its)) (Some q) \<and> (k, w) \<in> stream_slots cfg its"
    using B [of q] by (auto simp: cell_flush_def)
qed

lemma record_keeps_fired: "process_record cfg r p = Inr p' \<Longrightarrow> processor_inv cfg p \<Longrightarrow> lawful_assigner (assigner cfg) width \<Longrightarrow>
    fired_windows (state p') = fired_windows (state p)"
proof -
  assume r: "process_record cfg r p = Inr p'" and inv: "processor_inv cfg p" and law: "lawful_assigner (assigner cfg) width"
  obtain vs s d l where vs: "assign_windows (assigner cfg) (event_time r) = Inr vs"
    and f: "fold_res (process_window cfg (watermark p) r) vs (state p, False, False) = Inr (s, d, l)"
    and p': "p' = p\<lparr>state := s, stats := count_record d l (stats p)\<rparr>"
    using r by (auto simp: process_record_def split: prod.splits)
  show ?thesis
    using fold_process_window [OF f lawful_distinct [OF law vs] processor_invD(1,3) [OF inv]] by (simp add: p')
qed

lemma run_fired_slots:
  assumes new: "new_processor cfg = Inr p0" and run: "run_items cfg its p0 = Inr p"
    and law: "lawful_assigner (assigner cfg) width" and ok: "storable_stream cfg its"
  shows "set (fired_windows (state p)) \<subseteq> snd ` stream_slots cfg its"
  using run ok
proof (induction its arbitrary: p rule: rev_induct)
  case Nil
  then show ?case using new by (auto simp: new_processor_def set_allowed_lateness_def empty_state_def split: if_splits)
next
  case (snoc it its)
  then obtain q where q: "run_items cfg its p0 = Inr q" "process_item cfg it q = Inr p" by (auto simp: run_items_append)
  have ok: "storable_stream cfg its" using snoc.prems(2) by (auto simp: storable_stream_def)
  have more_slots: "stream_slots cfg its \<subseteq> stream_slots cfg (its @ [it])" by (auto simp: stream_slots_def)
  have IH: "set (fired_windows (state q)) \<subseteq> snd ` stream_slots cfg its" using snoc.IH [OF q(1) ok] .
  have inv: "processor_inv cfg q" using run_items_refines [OF q(1) new_processor_inv(1) [OF new] law] by blast
  show ?case
  proof (cases it)
    case (Data r)
    then show ?thesis using q(2) IH more_slots record_keeps_fired [OF _ inv law] by (auto simp: process_item_def)
  next
    case (Control b)
    have "w \<in> snd ` stream_slots cfg its" if "pane_at (state q) w \<noteq> Map.empty" for w
      using that run_bounded(1) [OF new q(1) law ok] by (force simp: fun_eq_iff)
    moreover have "set (fired_windows (state p)) \<subseteq> set (fired_windows (state q)) \<union> {w. pane_at (state q) w \<noteq> Map.empty}"
      using fires_from_control q(2) Control processor_invD(1) [OF inv] unfolding fires_from_def by blast
    ultimately show ?thesis using IH more_slots by blast
  qed
qed

lemma slot_fits:
  assumes "(k, w) \<in> stream_slots cfg its" "lawful_assigner (assigner cfg) width" "storable_stream cfg its"
  shows "length k < 2 ^ 32" "in_i64 (wstart w)" "in_i64 (wend w)"
proof -
  obtain r where "Data r \<in> set its" "key r = k" "assigned cfg (event_time r) w" using assms(1) by (auto simp: stream_slots_def)
  then obtain ws where r: "Data r \<in> set its" "key r = k" "assign_windows (assigner cfg) (event_time r) = Inr ws" "w \<in> set ws"
    by (cases "assign_windows (assigner cfg) (event_time r)") (auto simp: assigned_def)
  show "length k < 2 ^ 32" using assms(3) r(1,2) by (auto simp: storable_stream_def)
  show "in_i64 (wstart w)" "in_i64 (wend w)"
    using lawful_window [OF assms(2) r(3,4)] by (auto simp: in_i64_def i64_nums)
qed

lemma small_sum: "pane_small n (Some q) \<Longrightarrow> 1000 * int n \<le> i64_max \<Longrightarrow> in_i64 (pane_sum q)"
  by (simp add: pane_small_def in_i64_def i64_nums)

lemma distinct_each_pane: "kws_wf s \<Longrightarrow> distinct (map (\<lambda>(k, w, q). (k, w)) (each_pane s))"
proof -
  assume "kws_wf s"
  then have "distinct (map fst (windows s)) \<and> (\<forall>(w, m) \<in> set (windows s). distinct (map fst m))"
    using om_wf_distinct by (auto simp: kws_wf_def um_wf_def)
  moreover have "distinct (map (\<lambda>(k, w, q). (k, w)) (concat (map (\<lambda>(w, m). map (\<lambda>(k, p). (k, w, p)) m) ws)))"
    if "distinct (map fst ws) \<and> (\<forall>(w, m) \<in> set ws. distinct (map fst m))" for ws :: "(window \<times> pane_map) list"
    using that
  proof (induction ws)
    case (Cons e ws)
    obtain w m where e: "e = (w, m)" by (cases e)
    let ?rest = "map (\<lambda>(k, w, q). (k, w)) (concat (map (\<lambda>(w, m). map (\<lambda>(k, p). (k, w, p)) m) ws))"
    have head: "map (\<lambda>(k, w, q). (k, w)) (map (\<lambda>(k, p). (k, w, p)) m) = map (\<lambda>k. (k, w)) (map fst m)" by auto
    have "distinct (map (\<lambda>k. (k, w)) (map fst m))" using Cons.prems e by (auto simp: distinct_map inj_on_def)
    moreover have "snd ` set ?rest \<subseteq> fst ` set ws" by (auto simp: image_iff) force
    then have "set (map (\<lambda>k. (k, w)) (map fst m)) \<inter> set ?rest = {}" using Cons.prems e by (fastforce simp: image_subset_iff)
    moreover have "distinct ?rest" using Cons by simp
    ultimately show ?case unfolding e by (simp only: list.map concat.simps prod.case map_append head distinct_append)
  qed simp
  ultimately show ?thesis by (simp add: each_pane_def)
qed

lemma storable_encodable:
  assumes new: "new_processor cfg = Inr p0" and run: "run_items cfg its p0 = Inr p"
    and law: "lawful_assigner (assigner cfg) width" and ok: "storable_stream cfg its"
  shows "encodable (watermark p) (state p)"
proof -
  let ?S = "stream_slots cfg its"
  note S = slots_bound [OF ok]
  have size: "1000 * int (length (data_of its)) \<le> i64_max" "length (data_of its) < 2 ^ 64"
    using ok by (simp_all add: storable_stream_def i64_nums)
  have wf: "kws_wf (state p)"
    using run_items_refines [OF run new_processor_inv(1) [OF new] law] by (blast dest: processor_invD(1))
  have fired: "set (fired_windows (state p)) \<subseteq> snd ` ?S" by (rule run_fired_slots [OF new run law ok])
  have slots: "set (map (\<lambda>(k, w, q). (k, w)) (each_pane (state p))) \<subseteq> ?S"
    using each_pane_at [OF wf] run_bounded(1) [OF new run law ok] by auto
  have "length (each_pane (state p)) \<le> length (data_of its)"
    using distinct_card [OF distinct_each_pane [OF wf]] card_mono [OF S(1) slots] S(2) by simp
  then have total: "total_panes (state p) < 2 ^ 64" using size(2) by (simp add: length_each_pane)
  have "card (snd ` ?S) \<le> length (data_of its)" using S by (meson card_image_le order_trans)
  then have f: "length (fired_windows (state p)) \<le> length (data_of its)"
    using distinct_card [OF kws_wfD(2) [OF wf]] card_mono [OF finite_imageI [OF S(1)] fired] by simp
  have r: "length (refired_windows (state p)) \<le> length (fired_windows (state p))"
    using distinct_card [OF kws_wfD(2) [OF wf]] distinct_card [OF kws_wfD(3) [OF wf]] card_mono [OF _ kws_wfD(4) [OF wf]] by simp
  have "in_i64 wm \<Longrightarrow> in_i64 (fold (\<lambda>it wm. stream_watermark wm it) xs wm)" if "set xs \<subseteq> set its" for xs wm
    using that ok
    by (induction xs arbitrary: wm) (auto simp: stream_watermark_def storable_stream_def max_def split: batch_item.split)
  moreover have "watermark p0 = wm_initial" using new by (auto simp: new_processor_def split: if_splits)
  ultimately have wm: "in_i64 (watermark p)"
    using run_items_counts [OF run new_processor_inv(1) [OF new] law] by (simp add: wm_initial_def in_i64_def i64_nums)
  have "length k < 2 ^ 32 \<and> in_i64 (wstart w) \<and> in_i64 (wend w) \<and> in_i64 (pane_sum q)"
    if "(k, w, q) \<in> set (each_pane (state p))" for k w q
    using that run_bounded(1) [OF new run law ok] slot_fits [OF _ law ok] small_sum [OF _ size(1)]
    unfolding each_pane_at [OF wf] by blast
  moreover have "in_i64 (wstart w) \<and> in_i64 (wend w)" if "w \<in> set (fired_windows (state p))" for w
    using that fired slot_fits(2,3) [OF _ law ok] by force
  ultimately show ?thesis
    unfolding encodable_def using wm total f r size(2) kws_wfD(4) [OF wf] by auto
qed

lemma storable_rows:
  assumes new: "new_processor cfg = Inr p0" and run: "run_items cfg its p0 = Inr p"
    and law: "lawful_assigner (assigner cfg) width" and ok: "storable_stream cfg its"
  shows "list_all row_good (emitted_rows (effects (final_flush cfg p)))"
  unfolding list_all_iff
proof
  fix r
  assume r: "r \<in> set (emitted_rows (effects (final_flush cfg p)))"
  obtain q where "res_result r = pane_result q" using pane_of_result by blast
  then have rq: "r = window_row (res_key r) (res_window r) (pane_result q)" by (metis window_row_eta)
  then have "q \<in> rows_of (res_key r) (res_window r) (effects (final_flush cfg p))"
    using r by (simp add: set_emitted_rows rows_of_def)
  from run_bounded(2) [OF new run law ok this] have b: "pane_small (length (data_of its)) (Some q)"
      "(res_key r, res_window r) \<in> stream_slots cfg its" by simp_all
  have "1000 * int (length (data_of its)) \<le> i64_max" using ok by (simp add: storable_stream_def)
  then have "in_i64 (agg_value (res_result r))" using small_sum [OF b(1)] rq by (metis agg_pane_result(1) window_row_sel(3))
  then show "row_good r" using slot_fits [OF b(2) law ok] by (simp add: row_good_def)
qed

section \<open>The union of the two outputs\<close>

lemma find_replayed:
  assumes "set b \<subseteq> set c"
  shows "find P (rev (a @ b @ c)) = find P (rev (a @ c))"
proof (cases "find P (rev c)")
  case None
  then have "find P (rev b) = None" using assms by (auto simp: find_None_iff)
  with None show ?thesis by (simp add: find_append)
qed (simp add: find_append)

lemma replay_overlap:
  assumes "prefix written (before @ post)" "prefix before written"
  shows "find P (rev (written @ post)) = find P (rev (before @ post))"
proof -
  obtain b where b: "written = before @ b" using assms(2) by (auto simp: prefix_def)
  then have "set b \<subseteq> set post" using assms(1) by (auto dest: set_mono_prefix)
  then show ?thesis using find_replayed [of b post P before] b by simp
qed

text \<open>A stream of a generator, cut at a barrier.\<close>

lemma gen_loop_barrier:
  assumes "fst (gen_loop R gen n g) = xs @ Control b # ys" "ctype b = KCheckpointBarrier"
  shows "\<exists>k \<le> n. checkpoint_offset b = g_offset g + of_nat k \<and> fst (gen_loop R gen k g) = xs @ [Control b] \<and>
    ys = fst (gen_loop R gen (n - k) (snd (gen_loop R gen k g)))"
  using assms(1)
proof (induction n arbitrary: g xs)
  case (Suc n)
  let ?s = "fst (gen_step R gen g)" and ?g = "snd (gen_step R gen g)"
  obtain wms bars where s: "?s = Data (fst (generate_record R gen g)) # wms @ bars"
      "wms = [] \<or> wms = [watermark_item (max 0 (g_max_seen (snd (generate_record R gen g)) - gc_max_disorder gen)) (g_offset g + 1)]"
      "bars = [] \<or> bars = [barrier_item (g_offset g + 1)]"
    using gen_step_shape [of R gen g] by blast
  have split: "xs @ Control b # ys = ?s @ fst (gen_loop R gen n ?g)"
    using Suc.prems by (simp add: gen_loop_Suc del: gen_loop.simps(2))
  then consider (here) zs where "?s = xs @ Control b # zs" "ys = zs @ fst (gen_loop R gen n ?g)"
    | (later) zs where "xs = ?s @ zs" "fst (gen_loop R gen n ?g) = zs @ Control b # ys"
    by (auto simp: append_eq_append_conv2 Cons_eq_append_conv dest!: sym [of "xs @ _"])
  then show ?case
  proof cases
    case here
    then have "zs = [] \<and> Control b = barrier_item (g_offset g + 1)"
      using s assms(2) by (auto simp: watermark_item_def barrier_item_def Cons_eq_append_conv append_eq_Cons_conv)
    then show ?thesis
      using here by (intro exI [of _ 1]) (simp add: gen_loop_Suc barrier_item_def del: gen_loop.simps(2))
  next
    case later
    obtain k where k: "k \<le> n" "checkpoint_offset b = g_offset ?g + of_nat k" "fst (gen_loop R gen k ?g) = zs @ [Control b]"
        "ys = fst (gen_loop R gen (n - k) (snd (gen_loop R gen k ?g)))"
      using Suc.IH [OF later(2)] by blast
    then show ?thesis
      using later(1) by (intro exI [of _ "Suc k"]) (simp add: gen_loop_Suc algebra_simps del: gen_loop.simps(2))
  qed
qed simp

lemma gen_loop_barriers_below:
  assumes "unat (g_offset g) + n < 2 ^ 64" "it \<in> set (fst (gen_loop R gen n g))"
  shows "barrier_below (g_offset g + of_nat n) it"
  using assms
proof (induction n)
  case (Suc n)
  let ?h = "snd (gen_loop R gen n g)"
  have off: "unat (g_offset g + of_nat n) = unat (g_offset g) + n" "unat (g_offset g + of_nat (Suc n)) = unat (g_offset g) + Suc n"
    using Suc.prems(1) by (simp_all add: unat_word_ariths unat_of_nat)
  have le: "g_offset g + of_nat n \<le> g_offset g + of_nat (Suc n)" unfolding word_le_nat_alt off by simp
  have "it \<in> set (fst (gen_loop R gen n g)) \<or> it \<in> set (fst (gen_step R gen ?h))"
    using Suc.prems(2) arg_cong [OF gen_loop_add [of R gen n 1 g], of "set \<circ> fst"]
    by (simp add: gen_loop_Suc del: gen_loop.simps(2)) blast
  then show ?case
  proof
    assume "it \<in> set (fst (gen_loop R gen n g))"
    then have "barrier_below (g_offset g + of_nat n) it" using Suc by simp
    then show ?thesis using le by (auto simp: barrier_below_def split: batch_item.splits)
  next
    assume "it \<in> set (fst (gen_step R gen ?h))"
    then show ?thesis
      using gen_step_shape [of R gen ?h] gen_loop_offset [of R gen n g]
      by (auto simp: barrier_below_def watermark_item_def barrier_item_def algebra_simps)
  qed
qed simp

end
