(* ===== verification/Generated_Job.thy ===== *)
theory Generated_Job
  imports Crash_Recovery
begin

text \<open>
  The job of the crash tests in \<open>src/src/nemesis/nemesis.cpp\<close>: a pipeline over the
  deterministic generator with a tumbling assigner. The locale \<open>recoverable_job\<close> is interpreted on it.
\<close>

section \<open>The job\<close>

record 'g generated_job =
  gj_random :: "'g random_ops"
  gj_gen :: generator_config
  gj_pipeline :: pipeline_config
  gj_window :: duration

definition gj_assigner :: "'g generated_job \<Rightarrow> window_assigner" where
  "gj_assigner c = projr (tumbling_assigner (gj_window c))"

abbreviation gj_source :: "'g generated_job \<Rightarrow> 'g generator source" where
  "gj_source c \<equiv> generator_source (gj_random c) (gj_gen c)"

abbreviation gj_start :: "'g generated_job \<Rightarrow> 'g generator" where
  "gj_start c \<equiv> fresh_generator (gj_random c) (gj_gen c)"

definition gj_items :: "'g generated_job \<Rightarrow> batch_item list" where
  "gj_items c = fst (gen_loop (gj_random c) (gj_gen c) (unat (gc_num_records (gj_gen c))) (gj_start c))"

text \<open>
  A configuration whose window ends, with the lateness, and whose sums stay in 64 bits. The two
  laws of the random number library: a draw stays in its interval, and a printed number is on one line.
\<close>

definition gj_fits :: "'g generated_job \<Rightarrow> bool" where
  "gj_fits c \<longleftrightarrow>
     lawful_random (gj_random c) \<and> (\<forall>d. newline \<notin> set (print_double (gj_random c) d)) \<and>
     generator_ok (gj_gen c) \<and> gc_event_time_step (gj_gen c) = 1 \<and>
     0 < gj_window c \<and> 0 \<le> plc_lateness (gj_pipeline c) \<and>
     int (unat (gc_num_records (gj_gen c))) \<le> i64_max - gj_window c - plc_lateness (gj_pipeline c) \<and>
     1000 * int (unat (gc_num_records (gj_gen c))) \<le> i64_max"

lemma gj_fitsD:
  assumes "gj_fits c"
  shows "lawful_random (gj_random c)" "\<forall>d. newline \<notin> set (print_double (gj_random c) d)"
    "0 \<le> gc_max_disorder (gj_gen c)" "gc_event_time_step (gj_gen c) = 1" "gc_batch_size (gj_gen c) \<noteq> 0"
    "0 < gj_window c" "0 \<le> plc_lateness (gj_pipeline c)"
  using assms by (auto simp: gj_fits_def generator_ok_def)

lemma digits_length: "n < 10 ^ k \<Longrightarrow> 0 < k \<Longrightarrow> length (digits_of n) \<le> k"
  using length_pad_decimal [of n k] by (simp add: pad_decimal_def)

lemma generator_key_short: "length (generator_key gen off) < 2 ^ 32"
proof -
  have "length (digits_of (unat (off mod ucast (gc_num_keys gen)))) \<le> 20"
    by (rule digits_length [OF u64_fits_20_digits]) simp
  then show ?thesis by (simp add: generator_key_def pad_decimal_def)
qed

lemma gen_loop_keys: "Data r \<in> set (fst (gen_loop R gen n g)) \<Longrightarrow> length (key r) < 2 ^ 32"
proof (induction n arbitrary: g)
  case (Suc n)
  have "length (key (fst (generate_record R gen g))) < 2 ^ 32"
    using generator_key_short by (simp add: generate_record_def Let_def split_def)
  then show ?case
    using Suc gen_step_shape [of R gen g]
    by (auto simp: gen_loop_Suc watermark_item_def barrier_item_def simp del: gen_loop.simps(2))
qed simp

lemma gen_loop_watermarks:
  assumes R: "lawful_random R" and gen: "0 \<le> gc_max_disorder gen" "0 \<le> gc_event_time_step gen"
    and "unat (g_offset g) + n \<le> 2 ^ 63" "int (unat (g_offset g) + n) * gc_event_time_step gen \<le> i64_max"
    and "g_max_seen g \<le> i64_max" "Control b \<in> set (fst (gen_loop R gen n g))" "ctype b = KWatermark"
  shows "in_i64 (cwatermark b)"
  using assms(4-7)
proof (induction n arbitrary: g)
  case (Suc n)
  let ?r = "fst (generate_record R gen g)" and ?g = "snd (gen_step R gen g)"
  have off: "unat (g_offset g) < 2 ^ 63" using Suc.prems(1) by simp
  note F = generate_record_facts [OF R gen off]
  have "int (unat (g_offset g)) * gc_event_time_step gen \<le> int (unat (g_offset g) + Suc n) * gc_event_time_step gen"
    using gen(2) by (intro mult_right_mono) simp_all
  then have seen: "g_max_seen ?g \<le> i64_max"
    using F(3,5) Suc.prems(2,3) by (simp add: gen_step_max_seen)
  have "g_offset g \<noteq> u64_max" using off by (auto simp: u64_max_def unsigned_minus_1_eq_mask mask_eq_exp_minus_1)
  then have o1: "unat (g_offset ?g) = unat (g_offset g) + 1" by (simp add: u64_inc_unat)
  then have oi: "uint (g_offset g + 1) = uint (g_offset g) + 1" by (simp add: uint_eq_succ)
  have "Control b \<in> set (fst (gen_step R gen g)) \<or> Control b \<in> set (fst (gen_loop R gen n ?g))"
    using Suc.prems(4) by (auto simp: gen_loop_Suc simp del: gen_loop.simps(2))
  then show ?case
  proof
    assume "Control b \<in> set (fst (gen_step R gen g))"
    then have "cwatermark b = max 0 (g_max_seen ?g - gc_max_disorder gen)"
      using gen_step_shape [of R gen g] assms(8) by (auto simp: watermark_item_def barrier_item_def gen_step_max_seen)
    then show ?thesis using seen gen(1) by (simp add: in_i64_def i64_nums)
  next
    assume "Control b \<in> set (fst (gen_loop R gen n ?g))"
    then show ?thesis using Suc.IH [of ?g] Suc.prems(1,2) o1 oi seen by (simp add: algebra_simps)
  qed
qed simp

lemma tumbling_made:
  assumes "0 < win"
  obtains a where "tumbling_assigner win = Inr a" "a = projr (tumbling_assigner win)" "lawful_assigner a win"
    "newline \<notin> set (descriptor a)" "\<And>t ws. assign_windows a t = Inr ws \<Longrightarrow> length ws \<le> 1"
    "\<And>t. 0 \<le> t \<Longrightarrow> t \<le> i64_max - win \<Longrightarrow> \<exists>ws. assign_windows a t = Inr ws"
proof -
  obtain a where a: "tumbling_assigner win = Inr a" using assms by (auto simp: tumbling_assigner_def)
  then have m: "make_assigner KTumbling win 0 = Inr a" by (simp add: make_assigner_def)
  note A = make_assigner_facts [OF m]
  show ?thesis
  proof (rule that)
    show "tumbling_assigner win = Inr a" "a = projr (tumbling_assigner win)" using a by simp_all
    show "lawful_assigner a win" "newline \<notin> set (descriptor a)" by (rule A)+
    show "length ws \<le> 1" if "assign_windows a t = Inr ws" for t ws
      using that a by (auto simp: tumbling_assigner_def tumbling_assign_def Let_def split: if_splits)
    show "\<exists>ws. assign_windows a t = Inr ws" if "0 \<le> t" "t \<le> i64_max - win" for t
      using A(3) [OF that(1)] that(2) by simp
  qed
qed

lemma generator_descriptor_line:
  assumes "\<forall>d. newline \<notin> set (print_double R d)"
  shows "newline \<notin> set (generator_descriptor R gen)"
  using assms to_string_no_newline digits_no_newline
  by (auto simp: generator_descriptor_def disorder_number_def newline_def split: disorder_mode.splits)

lemma gj_stream:
  assumes "gj_fits c"
  shows "storable_stream (safe_config (gj_pipeline c) (gj_assigner c)) (gj_items c)"
    "Data r \<in> set (gj_items c) \<Longrightarrow> 0 \<le> event_time r \<and> event_time r \<le> int (unat (gc_num_records (gj_gen c)))"
proof -
  let ?n = "unat (gc_num_records (gj_gen c))" and ?g = "gj_start c"
  have R: "lawful_random (gj_random c)" "0 \<le> gc_max_disorder (gj_gen c)" "0 \<le> gc_event_time_step (gj_gen c)"
    and n: "1000 * int ?n \<le> i64_max" and win: "0 < gj_window c"
    using assms by (auto simp: gj_fits_def generator_ok_def)
  have "N \<le> 2 ^ 63 \<and> int N \<le> i64_max" if "1000 * int N \<le> i64_max" for N using that by (simp add: i64_nums)
  then have "?n \<le> 2 ^ 63" "int ?n \<le> i64_max" using n by blast+
  then have small: "unat (g_offset ?g) + ?n \<le> 2 ^ 63" "int (unat (g_offset ?g) + ?n) * gc_event_time_step (gj_gen c) \<le> i64_max"
    by (simp_all add: gj_fitsD(4) [OF assms])
  have D: "1 \<le> val r \<and> val r \<le> 1000 \<and> 0 \<le> event_time r \<and> event_time r \<le> int ?n" if "Data r \<in> set (gj_items c)" for r
    using gen_loop_records [OF R small(1)] that by (simp add: gj_items_def gj_fitsD(4) [OF assms])
  then show "Data r \<in> set (gj_items c) \<Longrightarrow> 0 \<le> event_time r \<and> event_time r \<le> int ?n" by blast
  have "g_max_seen ?g \<le> i64_max" by (simp add: fresh_generator_def i64_nums)
  then have W: "in_i64 (cwatermark b)" if "Control b \<in> set (gj_items c)" "ctype b = KWatermark" for b
    using gen_loop_watermarks [OF R small] that by (simp add: gj_items_def)
  have K: "length (key r) < 2 ^ 32" if "Data r \<in> set (gj_items c)" for r
    using gen_loop_keys that unfolding gj_items_def by blast
  have len: "length (data_of (gj_items c)) = ?n" by (simp add: data_of_length gj_items_def gen_loop_data)
  obtain a where "a = gj_assigner c" "\<And>t ws. assign_windows a t = Inr ws \<Longrightarrow> length ws \<le> 1"
    using tumbling_made [OF win] by (metis gj_assigner_def)
  then show "storable_stream (safe_config (gj_pipeline c) (gj_assigner c)) (gj_items c)"
    unfolding storable_stream_def using D W K len n by fastforce
qed

lemma storable_prefix: "storable_stream cfg (xs @ ys) \<Longrightarrow> storable_stream cfg xs"
  by (auto simp: storable_stream_def)

lemma gj_runs:
  assumes "gj_fits c"
  shows "\<exists>p0 p. new_processor (safe_config (gj_pipeline c) (gj_assigner c)) = Inr p0 \<and>
    run_items (safe_config (gj_pipeline c) (gj_assigner c)) (gj_items c) p0 = Inr p"
proof -
  let ?P = "safe_config (gj_pipeline c) (gj_assigner c)"
  have win: "0 < gj_window c" and late: "0 \<le> lateness ?P"
    and hor: "int (unat (gc_num_records (gj_gen c))) \<le> i64_max - gj_window c - lateness ?P"
    using assms by (auto simp: gj_fits_def)
  obtain p0 where p0: "new_processor ?P = Inr p0" using new_processor_total late by blast
  obtain a where a: "a = gj_assigner c" "lawful_assigner a (gj_window c)"
      "\<And>t. 0 \<le> t \<Longrightarrow> t \<le> i64_max - gj_window c \<Longrightarrow> \<exists>ws. assign_windows a t = Inr ws"
    using tumbling_made [OF win] by (metis gj_assigner_def)
  have "\<exists>ws. assign_windows (assigner ?P) (event_time r) = Inr ws" if "Data r \<in> set (gj_items c)" for r
    using a(1) a(3) [of "event_time r"] gj_stream(2) [OF assms that] hor late by simp
  moreover have "\<forall>off wm s. checkpoint_write_ok ?P off wm s" by (simp add: safe_config_def as_config_def)
  ultimately show ?thesis
    using bounded_stream_total [OF p0, of "gj_window c" "gj_items c"] a(1,2) gj_stream(1) [OF assms] p0
    by (auto simp: storable_stream_def)
qed

interpretation gj: recoverable_job gj_fits gj_pipeline gj_assigner gj_window
  "\<lambda>c. gj_source c" "\<lambda>c. gj_start c" gj_items
proof unfold_locales
  fix c :: "'a generated_job" and xs ys :: "batch_item list" and b p0 p
  assume f: "gj_fits c"
  let ?P = "safe_config (gj_pipeline c) (gj_assigner c)" and ?g = "gj_start c"
  let ?N = "unat (gc_num_records (gj_gen c))"
  have win: "0 < gj_window c" using f by (simp add: gj_fits_def)
  show "delivers (gj_source c) ?g (gj_items c)"
    using gen_loop_delivers [OF gj_fitsD(5) [OF f]] by (simp add: gj_items_def)
  show "src_replayable (gj_source c)" by (simp add: generator_source_def)
  show law: "lawful_assigner (gj_assigner c) (gj_window c)"
    using tumbling_made [OF win] by (metis gj_assigner_def)
  show "newline \<notin> set (descriptor (gj_assigner c)) \<and> newline \<notin> set (src_descriptor (gj_source c))"
    using tumbling_made [OF win] generator_descriptor_line [of "gj_random c"] f by (metis (no_types, lifting) generator_source_def gj_assigner_def gj_fits_def source.select_convs(4))
  show "\<exists>p0 p. new_processor ?P = Inr p0 \<and> run_items ?P (gj_items c) p0 = Inr p" by (rule gj_runs [OF f])
  note ok = gj_stream(1) [OF f]
  have lw: "lawful_assigner (assigner ?P) (gj_window c)" using law by simp
  show "encodable (watermark p) (state p)" if "new_processor ?P = Inr p0" "gj_items c = xs @ ys" "run_items ?P xs p0 = Inr p"
    using storable_encodable [OF that(1,3) lw] ok that(2) storable_prefix by metis
  show "list_all row_good (emitted_rows (effects (final_flush ?P p)))" if "new_processor ?P = Inr p0" "run_items ?P (gj_items c) p0 = Inr p"
    by (rule storable_rows [OF that lw ok])
  assume its: "gj_items c = xs @ Control b # ys" and bar: "ctype b = KCheckpointBarrier"
  obtain k where k: "k \<le> ?N" "checkpoint_offset b = of_nat k" "fst (gen_loop (gj_random c) (gj_gen c) k ?g) = xs @ [Control b]"
      "ys = fst (gen_loop (gj_random c) (gj_gen c) (?N - k) (snd (gen_loop (gj_random c) (gj_gen c) k ?g)))"
    using gen_loop_barrier [of "gj_random c" "gj_gen c" ?N ?g xs b ys] its bar by (auto simp: gj_items_def)
  have small: "k < 2 ^ 64" using k(1) unsigned_less [of "gc_num_records (gj_gen c)", where 'a = nat] by simp
  then have uk: "unat (of_nat k :: u64) = k" by (simp add: unat_of_nat take_bit_nat_eq_self)
  show "\<forall>it \<in> set xs. barrier_below (checkpoint_offset b) it"
    using gen_loop_barriers_below [of ?g k _ "gj_random c" "gj_gen c"] k(2,3) small by auto
  have seek: "generator_seek (gj_random c) (gj_gen c) (checkpoint_offset b) ?g = snd (gen_loop (gj_random c) (gj_gen c) k ?g)"
    by (simp add: seek_is_sequential k(2) uk)
  have "unat (g_offset (snd (gen_loop (gj_random c) (gj_gen c) k ?g))) + (?N - k) = unat (gc_num_records (gj_gen c))"
    using k(1) uk by (simp add: gen_loop_offset)
  then have "delivers (gj_source c) (snd (gen_loop (gj_random c) (gj_gen c) k ?g)) ys"
    using generator_hands_over [OF gj_fitsD(5) [OF f], of "snd (gen_loop (gj_random c) (gj_gen c) k ?g)" "?N - k" "gj_random c"] k(4)
    unfolding delivers_def by fastforce
  then show "\<exists>s. src_seek (gj_source c) (checkpoint_offset b) ?g = Inr s \<and>
      delivers (gj_source c) s ys"
    using seek by (simp add: generator_source_def)
qed

lemma gj_oracle:
  assumes "gj_fits c"
  shows "oracle_matches (safe_config (gj_pipeline c) (gj_assigner c))
      \<lparr>oc_window_size = gj_window c, oc_slide = 0, oc_lateness = plc_lateness (gj_pipeline c)\<rparr>"
    "horizon_ok (safe_config (gj_pipeline c) (gj_assigner c)) (gj_items c)"
proof -
  let ?P = "safe_config (gj_pipeline c) (gj_assigner c)"
  have win: "0 < gj_window c" using assms by (simp add: gj_fits_def)
  have late: "lateness ?P = plc_lateness (gj_pipeline c)" by simp
  have "make_assigner KTumbling (gj_window c) 0 = Inr (assigner ?P)"
    using tumbling_made [OF win] by (metis assigner_type.distinct(1) make_assigner_def gj_assigner_def safe_config_sel(1))
  from harness_oracle_matches [OF this] show "oracle_matches ?P
      \<lparr>oc_window_size = gj_window c, oc_slide = 0, oc_lateness = plc_lateness (gj_pipeline c)\<rparr>"
    unfolding late by (simp add: harness_oracle_config_def)
  have "event_time r \<le> i64_max - gj_window c - lateness ?P" if "Data r \<in> set (gj_items c)" for r
    using gj_stream(2) [OF assms that] assms late by (simp add: gj_fits_def)
  then show "horizon_ok ?P (gj_items c)" using short_horizon [of ?P] gj.lawful [OF assms] by simp
qed

lemma gj_length: "length (gj_items c) \<le> 3 * unat (gc_num_records (gj_gen c))"
  unfolding gj_items_def by (rule gen_loop_length)

lemma gj_made:
  assumes "gj_fits c"
  shows "new_generator (gj_random c) (gj_gen c) = Inr (gj_start c)" "tumbling_assigner (gj_window c) = Inr (gj_assigner c)"
  using assms by (simp_all add: gj_fits_def new_generator_def gj_assigner_def tumbling_assigner_def)

text \<open>The last row of an undisturbed run for a key and window is the oracle's.\<close>

lemma gj_last_rows:
  assumes "gj_fits c"
  shows "find (\<lambda>r. res_key r = k \<and> res_window r = w) (rev (gj.all_rows c)) =
    map_option (\<lambda>q. window_row k w (pane_result q)) (o_cell (run_oracle
      \<lparr>oc_window_size = gj_window c, oc_slide = 0, oc_lateness = plc_lateness (gj_pipeline c)\<rparr> (gj_items c)) k w)"
proof -
  have "lawful_assigner (assigner (safe_config (gj_pipeline c) (gj_assigner c))) (gj_window c)"
    using gj.lawful [OF assms] by simp
  from last_row_is_oracle_row [OF gj.whole_run(1,2) [OF assms] this gj_oracle [OF assms]]
  show ?thesis unfolding gj.all_rows_def .
qed

end
