(* ===== verification/Nemesis.thy ===== *)
theory Nemesis
  imports Generated_Job
begin

text \<open>
  The crash tests of \<open>src/src/nemesis/nemesis.cpp\<close>. \<open>RunRealKillNemesis\<close> forks a child that runs
  the pipeline over a durable sink, kills it, restarts a pipeline on the files it left
  and compares the union of the two outputs with the oracle. What the operating system
  decides is an argument: the results of \<open>fork\<close> and \<open>waitpid\<close>, the directory listings the parent
  polls, and the files the child leaves. The formatted messages are values of a datatype.
\<close>

section \<open>Configuration and results\<close>

datatype real_kill_point = KBetweenCheckpoints | KMidCheckpoint

record real_kill_config =
  rk_seed :: u64
  rk_num_records :: u64
  rk_num_keys :: u32
  rk_window_size :: duration
  rk_max_disorder :: duration
  rk_checkpoint_interval :: u64
  rk_kill_point :: real_kill_point
  rk_disorder_mode :: disorder_mode
  rk_late_fraction :: double
  rk_late_tail :: duration
  rk_allowed_lateness :: duration
  rk_target_checkpoint :: u32
  rk_max_attempts :: u32

type_synonym row_slot = "string \<times> int \<times> int"

type_synonym result_map = "(row_slot \<times> (int \<times> u64)) list"

datatype nemesis_failure =
    TempDirFailed
  | ForkFailed
  | NoGenuineCrash
  | MissingResult row_slot
  | ValueMismatch row_slot "int \<times> u64" "int \<times> u64"
  | WrongOffset u64 u64 u64
  | TornOffset u64 u64

record real_kill_result =
  rr_passed :: bool
  rr_attempts :: u32
  rr_killed_by_sigkill :: bool
  rr_final_flush_completed :: bool
  rr_stale_tmp_after_kill :: bool
  rr_restored_offset :: u64
  rr_pre_crash_emits :: u64
  rr_post_restore_emits :: u64
  rr_union_results :: u64
  rr_oracle_results :: u64
  rr_missing_results :: u64
  rr_duplicates :: u64
  rr_failure_detail :: "nemesis_failure option"

definition empty_kill_result :: real_kill_result where
  "empty_kill_result = \<lparr>rr_passed = False, rr_attempts = 0, rr_killed_by_sigkill = False, rr_final_flush_completed = False,
     rr_stale_tmp_after_kill = False, rr_restored_offset = 0, rr_pre_crash_emits = 0, rr_post_restore_emits = 0,
     rr_union_results = 0, rr_oracle_results = 0, rr_missing_results = 0, rr_duplicates = 0, rr_failure_detail = None\<rparr>"

section \<open>Results by key and window\<close>

definition result_key :: "window_result \<Rightarrow> row_slot" where
  "result_key r = (res_key r, wstart (res_window r), wend (res_window r))"

definition result_value :: "window_result \<Rightarrow> int \<times> u64" where
  "result_value r = (agg_value (res_result r), agg_count (res_result r))"

text \<open>The lambda \<open>absorb\<close>: a later row replaces an earlier one.\<close>

definition absorb :: "window_result list \<Rightarrow> result_map \<Rightarrow> result_map" where
  "absorb rows combined = fold (\<lambda>r m. om_set (result_key r) (result_value r) m) rows combined"

text \<open>One turn of the comparison loop; only the first difference is described.\<close>

definition check_result ::
    "result_map \<Rightarrow> window_result \<Rightarrow> u64 \<times> nemesis_failure option \<Rightarrow> u64 \<times> nemesis_failure option" where
  "check_result combined r acc =
     (case acc of (missing, detail) \<Rightarrow>
        (case map_of combined (result_key r) of
           None \<Rightarrow> (missing + 1, if detail = None then Some (MissingResult (result_key r)) else detail)
         | Some v \<Rightarrow>
             (if fst v \<noteq> agg_value (res_result r) \<or> snd v \<noteq> agg_count (res_result r)
              then (missing + 1, if detail = None then Some (ValueMismatch (result_key r) (result_value r) v) else detail)
              else (missing, detail))))"

section \<open>Watching the child\<close>

definition ends_with :: "string \<Rightarrow> string \<Rightarrow> bool" where
  "ends_with s suf = (length s \<ge> length suf \<and> drop (length s - length suf) s = suf)"

text \<open>A listing is \<open>None\<close> when the directory cannot be opened.\<close>

definition count_completed_checkpoints :: "string list option \<Rightarrow> u32" where
  "count_completed_checkpoints names =
     (case names of None \<Rightarrow> 0 | Some ns \<Rightarrow> fold (\<lambda>n c. if ends_with n ''.ckpt'' then c + 1 else c) ns 0)"

definition has_tmp_file :: "string list option \<Rightarrow> bool" where
  "has_tmp_file names = (case names of None \<Rightarrow> False | Some ns \<Rightarrow> list_ex (\<lambda>n. ends_with n ''.tmp'') ns)"

text \<open>One turn of a polling loop: whether \<open>waitpid\<close> reaped the child, and the two listings.\<close>

record poll =
  po_reaped :: bool
  po_listing :: "string list option"
  po_tmp_listing :: "string list option"

text \<open>The result is \<open>(killed, child_reaped)\<close>; \<open>None\<close> while the observations go on.\<close>

fun watch_between :: "u32 \<Rightarrow> poll list \<Rightarrow> (bool \<times> bool) option" where
  "watch_between target [] = None"
| "watch_between target (p # ps) =
     (if po_reaped p then Some (False, True)
      else if count_completed_checkpoints (po_listing p) \<ge> target then Some (True, False)
      else watch_between target ps)"

fun watch_mid :: "u32 \<Rightarrow> bool \<Rightarrow> poll list \<Rightarrow> (bool \<times> bool) option" where
  "watch_mid target armed [] = None"
| "watch_mid target armed (p # ps) =
     (if po_reaped p then Some (False, True)
      else if \<not> armed \<and> \<not> count_completed_checkpoints (po_listing p) \<ge> target then watch_mid target False ps
      else if has_tmp_file (po_tmp_listing p) then Some (True, False)
      else watch_mid target True ps)"

datatype wait_status = Exited | Signaled nat

definition SIGKILL :: nat where
  "SIGKILL = 9"

record attempt =
  at_workdir :: string
  at_fork_ok :: bool
  at_polls :: "poll list"
  at_status :: wait_status
  at_sentinel :: bool
  at_disk :: disk

definition watch_child :: "real_kill_config \<Rightarrow> poll list \<Rightarrow> (bool \<times> bool) option" where
  "watch_child config ps =
     (case rk_kill_point config of
        KBetweenCheckpoints \<Rightarrow> watch_between (rk_target_checkpoint config) ps
      | KMidCheckpoint \<Rightarrow> watch_mid (rk_target_checkpoint config) False ps)"

definition by_sigkill :: "bool \<Rightarrow> attempt \<Rightarrow> bool" where
  "by_sigkill killed a = (killed \<and> at_status a = Signaled SIGKILL)"

definition disk_names :: "disk \<Rightarrow> string list" where
  "disk_names dk = map fst (dk_dir dk) @ (case dk_manifest dk of None \<Rightarrow> [] | Some m \<Rightarrow> [kManifestName])"

datatype capture_outcome =
    Returned real_kill_result
  | NotCaptured real_kill_result
  | Captured real_kill_result attempt

fun capture_crash :: "real_kill_config \<Rightarrow> u32 \<Rightarrow> attempt list \<Rightarrow> real_kill_result \<Rightarrow> capture_outcome option" where
  "capture_crash config k [] res = (if k \<le> rk_max_attempts config then None else Some (NotCaptured res))"
| "capture_crash config k (a # as) res =
     (if k \<le> rk_max_attempts config then
        (let res1 = res\<lparr>rr_attempts := k\<rparr> in
         if at_workdir a = [] then Some (Returned (res1\<lparr>rr_failure_detail := Some TempDirFailed\<rparr>))
         else if \<not> at_fork_ok a then Some (Returned (res1\<lparr>rr_failure_detail := Some ForkFailed\<rparr>))
         else (case watch_child config (at_polls a) of
             None \<Rightarrow> None
           | Some (killed, child_reaped) \<Rightarrow>
               (let tmp_present = has_tmp_file (Some (disk_names (at_disk a)));
                    genuine = by_sigkill killed a \<and> \<not> at_sentinel a \<and>
                      (rk_kill_point config = KMidCheckpoint \<longrightarrow> tmp_present)
                in if \<not> genuine then capture_crash config (k + 1) as res1
                   else Some (Captured (res1\<lparr>rr_killed_by_sigkill := by_sigkill killed a,
                          rr_final_flush_completed := at_sentinel a, rr_stale_tmp_after_kill := tmp_present\<rparr>) a))))
      else Some (NotCaptured res))"

section \<open>Restart and verification\<close>

definition make_real_gen_config :: "real_kill_config \<Rightarrow> generator_config" where
  "make_real_gen_config config =
     \<lparr>gc_seed = rk_seed config, gc_num_keys = rk_num_keys config, gc_num_records = rk_num_records config, gc_event_time_step = 1,
      gc_max_disorder = rk_max_disorder config, gc_batch_size = 1024, gc_watermark_interval = 100,
      gc_checkpoint_interval = rk_checkpoint_interval config, gc_disorder_mode = rk_disorder_mode config,
      gc_late_fraction = rk_late_fraction config, gc_late_tail = rk_late_tail config, gc_idle_spans = []\<rparr>"

definition real_kill_pipeline :: "real_kill_config \<Rightarrow> string \<Rightarrow> pipeline_config" where
  "real_kill_pipeline config workdir =
     \<lparr>plc_lateness = rk_allowed_lateness config, plc_checkpoint_dir = workdir @ ''/ckpt'',
      plc_checkpoint_interval = rk_checkpoint_interval config\<rparr>"

text \<open>The system calls of the restarted pipeline, of its sink and of the reads of the two logs.\<close>

record nemesis_io =
  ni_open :: open_io
  ni_manifest :: "exn option"
  ni_checkpoints :: "u64 \<Rightarrow> write_outcome"
  ni_writes :: "window_result list \<Rightarrow> (write_result list \<times> bool) list"
  ni_reads :: "bytes \<Rightarrow> pread_result list"

text \<open>
  A pipeline over a new durable sink, run to its end: the offset it reports as replayed and the
  log it leaves. The rows are written after the run here and during it in the code; an
  exception of either ends both.
\<close>

definition run_to_log ::
    "nat \<Rightarrow> nemesis_io \<Rightarrow> pipeline_config \<Rightarrow> window_assigner res \<Rightarrow> 's source \<Rightarrow> 's res \<Rightarrow> disk \<Rightarrow> (u64 \<times> bytes) res option" where
  "run_to_log fuel io cfg asg src start dk =
     bind_run (Some start) (\<lambda>s.
     bind_run (fst (open_sink (ni_open io) KTruncate None)) (\<lambda>sink.
     bind_run (Some asg) (\<lambda>a.
     bind_run (Some (new_pipeline cfg s (dk_dir dk) (dk_manifest dk))) (\<lambda>pl.
     bind_run (pl_run fuel (ni_manifest io) cfg a (ni_checkpoints io) src [] pl) (\<lambda>(pl1, st).
       let rows = emitted_rows (effects (pl_core pl1)) in
       (case emit_rows (ni_writes io rows) rows sink of
          (res, d) \<Rightarrow> bind_run res (\<lambda>_. Some (Inr (ps_records_replayed st, ds_file d)))))))))"

definition read_log :: "nemesis_io \<Rightarrow> bytes option \<Rightarrow> window_result list res option" where
  "read_log io f =
     (case read_all True True (ni_reads io (case f of None \<Rightarrow> [] | Some b \<Rightarrow> b)) f of
        Some (Loaded rows) \<Rightarrow> Some (Inr rows)
      | _ \<Rightarrow> None)"

definition nemesis_oracle ::
    "nat \<Rightarrow> duration \<Rightarrow> duration \<Rightarrow> 's source \<Rightarrow> 's \<Rightarrow> window_result list res option" where
  "nemesis_oracle fuel window_size lateness_ms src s =
     (case drain_source fuel src s of
        None \<Rightarrow> None
      | Some (bs, Some e) \<Rightarrow> Some (Inl e)
      | Some (bs, None) \<Rightarrow>
          Some (Inr (compute_results (run_oracle
            \<lparr>oc_window_size = window_size, oc_slide = 0, oc_lateness = lateness_ms\<rparr> (concat bs)))))"

definition verify_union ::
    "window_result list \<Rightarrow> window_result list \<Rightarrow> window_result list \<Rightarrow> real_kill_result \<Rightarrow> real_kill_result" where
  "verify_union pre post expected res =
     (let combined = absorb post (absorb pre []);
          (missing, detail) = fold (check_result combined) expected (0, rr_failure_detail res)
      in res\<lparr>rr_pre_crash_emits := of_nat (length pre), rr_post_restore_emits := of_nat (length post),
             rr_union_results := of_nat (length combined),
             rr_duplicates := of_nat (length pre) + of_nat (length post) - of_nat (length combined),
             rr_oracle_results := of_nat (length expected), rr_missing_results := missing,
             rr_failure_detail := detail, rr_passed := (missing = 0)\<rparr>)"

definition run_real_kill_nemesis ::
    "'g random_ops \<Rightarrow> nat \<Rightarrow> nemesis_io \<Rightarrow> attempt list \<Rightarrow> real_kill_config \<Rightarrow> real_kill_result res option" where
  "run_real_kill_nemesis R fuel io attempts config =
     (case capture_crash config 1 attempts empty_kill_result of
        None \<Rightarrow> None
      | Some (Returned res) \<Rightarrow> Some (Inr res)
      | Some (NotCaptured res) \<Rightarrow> Some (Inr (res\<lparr>rr_failure_detail := Some NoGenuineCrash\<rparr>))
      | Some (Captured res a) \<Rightarrow>
          (let gen = make_real_gen_config config; src = generator_source R gen in
           bind_run (run_to_log fuel io (real_kill_pipeline config (at_workdir a)) (tumbling_assigner (rk_window_size config))
               src (new_generator R gen) (at_disk a)) (\<lambda>(restored, log).
           bind_run (read_log io (dk_sink (at_disk a))) (\<lambda>pre.
           bind_run (read_log io (Some log)) (\<lambda>post.
           bind_run (Some (new_generator R gen)) (\<lambda>g.
           bind_run (nemesis_oracle fuel (rk_window_size config) (rk_allowed_lateness config) src g) (\<lambda>expected.
             Some (Inr (verify_union pre post expected (res\<lparr>rr_restored_offset := restored\<rparr>))))))))))"

section \<open>The comparison\<close>

lemma absorb_lookup:
  "om_wf m \<Longrightarrow> om_wf (absorb rows m) \<and>
   map_of (absorb rows m) = map_of m ++ (\<lambda>k. map_option result_value (find (\<lambda>r. result_key r = k) (rev rows)))"
proof (induction rows arbitrary: m)
  case (Cons r rows)
  have "map_of (om_set (result_key r) (result_value r) m) ++ (\<lambda>k. map_option result_value (find (\<lambda>r. result_key r = k) (rev rows))) =
      map_of m ++ (\<lambda>k. map_option result_value (find (\<lambda>r. result_key r = k) (rev (r # rows))))"
    by (auto simp: fun_eq_iff store_simps map_add_def find_append split: option.splits)
  with Cons.IH [OF om_wf_set [OF Cons.prems]] show ?case by (simp add: absorb_def)
qed (simp add: absorb_def map_add_def)

lemma absorb_both:
  "map_of (absorb post (absorb pre [])) k = map_option result_value (find (\<lambda>r. result_key r = k) (rev (pre @ post)))"
  using absorb_lookup [of "absorb pre []" post] absorb_lookup [of "[]" pre]
  by (auto simp: map_add_def find_append split: option.splits)

lemma check_found:
  assumes "\<And>r. r \<in> set expected \<Longrightarrow> map_of combined (result_key r) = Some (result_value r)"
  shows "fold (check_result combined) expected (missing, detail) = (missing, detail)"
  using assms by (induction expected) (simp_all add: check_result_def result_value_def)

lemma result_key_eq: "result_key r = (k, s, e) \<longleftrightarrow> res_key r = k \<and> res_window r = Window s e"
  by (cases "res_window r") (auto simp: result_key_def)

lemma verify_union_passes:
  assumes "\<And>r. r \<in> set expected \<Longrightarrow> find (\<lambda>x. res_key x = res_key r \<and> res_window x = res_window r) (rev (pre @ post)) = Some r"
  shows "rr_passed (verify_union pre post expected res)" "rr_missing_results (verify_union pre post expected res) = 0"
    "rr_failure_detail (verify_union pre post expected res) = rr_failure_detail res"
    "rr_restored_offset (verify_union pre post expected res) = rr_restored_offset res"
proof -
  have "map_of (absorb post (absorb pre [])) (result_key r) = Some (result_value r)" if "r \<in> set expected" for r
  proof -
    have "(\<lambda>x. result_key x = result_key r) = (\<lambda>x. res_key x = res_key r \<and> res_window x = res_window r)"
      by (auto simp: fun_eq_iff result_key_def window.expand)
    then show ?thesis using assms [OF that] by (simp add: absorb_both)
  qed
  then have "fold (check_result (absorb post (absorb pre []))) expected (0, rr_failure_detail res) = (0, rr_failure_detail res)"
    by (rule check_found)
  then show "rr_passed (verify_union pre post expected res)" "rr_missing_results (verify_union pre post expected res) = 0"
    "rr_failure_detail (verify_union pre post expected res) = rr_failure_detail res"
    "rr_restored_offset (verify_union pre post expected res) = rr_restored_offset res"
    by (simp_all add: verify_union_def Let_def)
qed

lemma set_compute_results:
  "set (compute_results (run_oracle ocfg its)) = {window_row k w (pane_result p) |k w p. o_cell (run_oracle ocfg its) k w = Some p}"
  using oracle_rows_lookup [OF oracle_wf_run, of ocfg its] by (simp add: compute_results_def oracle_rows_def)

section \<open>The restarted pipeline and its log\<close>

text \<open>System calls that succeed: every row is written, and every log is read to its end.\<close>

definition nemesis_io_ok :: "nemesis_io \<Rightarrow> bool" where
  "nemesis_io_ok io \<longleftrightarrow>
     oi_open_ok (ni_open io) \<and> ni_manifest io = None \<and> (\<forall>off. ni_checkpoints io off = WriteOk) \<and>
     (\<forall>rows. fst (emit_rows (ni_writes io rows) rows \<lparr>ds_open = True, ds_file = []\<rparr>) = Some (Inr ())) \<and>
     (\<forall>b. reads_enough (ni_reads io b) b)"

definition good_io :: nemesis_io where
  "good_io = \<lparr>ni_open = good_open, ni_manifest = None, ni_checkpoints = (\<lambda>off. WriteOk),
     ni_writes = map (\<lambda>r. ([Wrote (length (frame_row r))], True)), ni_reads = (\<lambda>b. replicate (length b) (Pread 0))\<rparr>"

lemma good_io_ok: "nemesis_io_ok good_io"
proof -
  have "fst (emit_rows (map (\<lambda>r. ([Wrote (length (frame_row r))], True)) rows) rows \<lparr>ds_open = True, ds_file = f\<rparr>) = Some (Inr ())"
    for rows f
    by (induction rows arbitrary: f) (simp_all add: emit_succeeds)
  then show ?thesis by (simp add: nemesis_io_ok_def good_io_def good_open_def enough_reads)
qed

lemma read_log_rows:
  assumes "nemesis_io_ok io" "list_all row_good rows" "torn t"
    and "(case f of None \<Rightarrow> [] | Some b \<Rightarrow> b) = log_bytes rows @ t"
  shows "read_log io f = Some (Inr rows)"
proof (cases f)
  case None
  then have "rows = []" using assms(4) by (cases rows) (auto simp: log_bytes_def frame_row_alt append_le32_def)
  with None show ?thesis by (simp add: read_log_def read_all_def)
next
  case (Some b)
  have "reads_enough (ni_reads io b) b" using assms(1) by (simp add: nemesis_io_ok_def)
  then show ?thesis using read_all_log [OF assms(2,3)] assms(4) Some by (simp add: read_log_def)
qed

lemma checkpoints_ok: "nemesis_io_ok io \<Longrightarrow> ni_checkpoints io = (\<lambda>off. WriteOk)"
  by (simp add: nemesis_io_ok_def fun_eq_iff)

lemma log_written:
  assumes "nemesis_io_ok io" "list_all row_good rows"
  shows "\<exists>d. emit_rows (ni_writes io rows) rows \<lparr>ds_open = True, ds_file = []\<rparr> = (Some (Inr ()), d) \<and> ds_file d = log_bytes rows"
proof -
  obtain res d where e: "emit_rows (ni_writes io rows) rows \<lparr>ds_open = True, ds_file = log_bytes []\<rparr> = (res, d)" by fastforce
  then have "res = Some (Inr ())" using assms(1) by (simp add: nemesis_io_ok_def) (metis fst_conv)
  then show ?thesis using emit_rows_log(2) [OF e assms(2)] e by simp
qed

context recoverable_job
begin

text \<open>
  The restarted pipeline writes a log, and the old and the new log together hold, for every key and
  window, the last row of a run without a crash.
\<close>

lemma crash_recovers:
  assumes fits: "fits c" and killed: "killed_disk (cfg c) (asg c) (ops c) (start c) dk"
    and fuel: "length (items c) < fuel" and io: "nemesis_io_ok io"
  obtains restored log pre post where
    "run_to_log fuel io (cfg c) (Inr (asg c)) (ops c) (Inr (start c)) dk = Some (Inr (restored, log))"
    "read_log io (dk_sink dk) = Some (Inr pre)" "read_log io (Some log) = Some (Inr post)"
    "\<And>P. find P (rev (pre @ post)) = find P (rev (all_rows c))"
    "checkpointing_enabled (cfg c) \<Longrightarrow> restored = (case fst (load_latest (dk_dir dk)) of None \<Rightarrow> 0 | Some d \<Rightarrow> cd_offset d)"
proof -
  obtain pre where rec: "recoverable c pre dk" using killed_recoverable [OF fits killed] by blast
  then obtain t where t: "prefix pre (all_rows c)" "torn t" "(case dk_sink dk of None \<Rightarrow> [] | Some b \<Rightarrow> b) = log_bytes pre @ t"
    by (auto simp: recoverable_def)
  obtain pl0 pl1 st before where run: "new_pipeline (cfg c) (start c) (dk_dir dk) (dk_manifest dk) = Inr pl0"
      "pl_run fuel None (cfg c) (asg c) (\<lambda>off. WriteOk) (ops c) [] pl0 = Some (Inr (pl1, st))"
      "all_rows c = before @ emitted_rows (effects (pl_core pl1))" "prefix before pre"
      "checkpointing_enabled (cfg c) \<longrightarrow>
         ps_records_replayed st = (case fst (load_latest (dk_dir dk)) of None \<Rightarrow> 0 | Some d \<Rightarrow> cd_offset d)"
    using restart_completes [OF fits rec fuel] by blast
  let ?post = "emitted_rows (effects (pl_core pl1))"
  have good: "list_all row_good pre" "list_all row_good ?post"
    using whole_run(3) [OF fits] set_mono_prefix [OF t(1)] run(3) by (auto simp: list_all_iff)
  obtain d where d: "emit_rows (ni_writes io ?post) ?post \<lparr>ds_open = True, ds_file = []\<rparr> = (Some (Inr ()), d)" "ds_file d = log_bytes ?post"
    using log_written [OF io good(2)] by blast
  have "run_to_log fuel io (cfg c) (Inr (asg c)) (ops c) (Inr (start c)) dk = Some (Inr (ps_records_replayed st, log_bytes ?post))"
    using run(1,2) d io checkpoints_ok [OF io] by (simp add: run_to_log_def nemesis_io_ok_def open_sink_def Let_def)
  moreover have "read_log io (dk_sink dk) = Some (Inr pre)" by (rule read_log_rows [OF io good(1) t(2,3)])
  moreover have "read_log io (Some (log_bytes ?post)) = Some (Inr ?post)" using read_log_rows [OF io good(2) torn_Nil] by simp
  moreover have "find P (rev (pre @ ?post)) = find P (rev (all_rows c))" for P
    using replay_overlap [of pre before ?post P] t(1) run(3,4) by simp
  ultimately show ?thesis using that run(5) by blast
qed

end

lemma captured_attempt:
  assumes "capture_crash config k as res = Some (Captured res' a)"
  shows "a \<in> set as \<and> at_status a = Signaled SIGKILL \<and> \<not> at_sentinel a \<and>
    rr_killed_by_sigkill res' \<and> \<not> rr_final_flush_completed res' \<and> rr_failure_detail res' = rr_failure_detail res"
  using assms
proof (induction "as" arbitrary: k res)
  case (Cons b bs)
  then obtain killed reaped where w: "watch_child config (at_polls b) = Some (killed, reaped)"
    by (auto simp: Let_def split: if_splits option.splits)
  have k: "k \<le> rk_max_attempts config" "at_workdir b \<noteq> []" "at_fork_ok b"
    using Cons.prems by (auto simp: Let_def split: if_splits)
  let ?genuine = "by_sigkill killed b \<and> \<not> at_sentinel b \<and>
    (rk_kill_point config = KMidCheckpoint \<longrightarrow> has_tmp_file (Some (disk_names (at_disk b))))"
  show ?case
  proof (cases ?genuine)
    case True
    then show ?thesis using Cons.prems w k by (auto simp: Let_def by_sigkill_def)
  next
    case False
    then have "capture_crash config (k + 1) bs (res\<lparr>rr_attempts := k\<rparr>) = Some (Captured res' a)"
      using Cons.prems w k by (simp add: Let_def)
    then show ?thesis using Cons.IH by force
  qed
qed (simp split: if_splits)

definition kill_job :: "'g random_ops \<Rightarrow> real_kill_config \<Rightarrow> string \<Rightarrow> 'g generated_job" where
  "kill_job R config workdir =
     \<lparr>gj_random = R, gj_gen = make_real_gen_config config, gj_pipeline = real_kill_pipeline config workdir,
      gj_window = rk_window_size config\<rparr>"

section \<open>Properties\<close>

text \<open>
  C7. The crash test cannot fail. Whatever the child was doing when the signal hit it (between two
  items, inside the write of a row, of a checkpoint, of the manifest, or while old checkpoints are
  removed) and whatever the parent observed, once an attempt counts as a genuine crash
  the restarted pipeline returns, it restores the newest complete checkpoint of the directory,
  and no result of the oracle is missing or different in the union of the two logs.
\<close>

theorem real_kill_nemesis_passes:
  assumes "capture_crash config 1 attempts empty_kill_result = Some (Captured res a)"
    and "gj_fits (kill_job R config (at_workdir a))"
    and "\<forall>a \<in> set attempts. at_status a = Signaled SIGKILL \<longrightarrow> \<not> at_sentinel a \<longrightarrow>
      killed_disk (real_kill_pipeline config (at_workdir a)) (projr (tumbling_assigner (rk_window_size config)))
        (generator_source R (make_real_gen_config config)) (fresh_generator R (make_real_gen_config config)) (at_disk a)"
    and "3 * unat (rk_num_records config) < fuel" "nemesis_io_ok io"
  shows "\<exists>result. run_real_kill_nemesis R fuel io attempts config = Some (Inr result) \<and>
    rr_passed result \<and> rr_missing_results result = 0 \<and> rr_failure_detail result = None \<and>
    (0 < rk_checkpoint_interval config \<longrightarrow>
       rr_restored_offset result = (case fst (load_latest (dk_dir (at_disk a))) of None \<Rightarrow> 0 | Some d \<Rightarrow> cd_offset d))"
proof -
  let ?c = "kill_job R config (at_workdir a)"
  let ?oc = "\<lparr>oc_window_size = rk_window_size config, oc_slide = 0, oc_lateness = rk_allowed_lateness config\<rparr>"
  let ?exp = "compute_results (run_oracle ?oc (gj_items ?c))"
  note A = captured_attempt [OF assms(1)] and M = gj_made [OF assms(2)]
  have len: "length (gj_items ?c) < fuel" using gj_length [of ?c] assms(4) by (simp add: kill_job_def make_real_gen_config_def)
  have "killed_disk (gj_pipeline ?c) (gj_assigner ?c) (gj_source ?c) (gj_start ?c) (at_disk a)"
    using assms(3) A by (simp add: gj_assigner_def kill_job_def)
  then obtain restored log pre post where r:
      "run_to_log fuel io (gj_pipeline ?c) (Inr (gj_assigner ?c)) (gj_source ?c) (Inr (gj_start ?c)) (at_disk a) = Some (Inr (restored, log))"
      "read_log io (dk_sink (at_disk a)) = Some (Inr pre)" "read_log io (Some log) = Some (Inr post)"
      "\<And>P. find P (rev (pre @ post)) = find P (rev (gj.all_rows ?c))"
      "checkpointing_enabled (gj_pipeline ?c) \<Longrightarrow>
         restored = (case fst (load_latest (dk_dir (at_disk a))) of None \<Rightarrow> 0 | Some d \<Rightarrow> cd_offset d)"
    using gj.crash_recovers [OF assms(2) _ len assms(5), of "at_disk a"] by blast
  have found: "find (\<lambda>x. res_key x = res_key row \<and> res_window x = res_window row) (rev (pre @ post)) = Some row"
    if row: "row \<in> set ?exp" for row
  proof -
    obtain k w p where p: "row = window_row k w (pane_result p)" "o_cell (run_oracle ?oc (gj_items ?c)) k w = Some p"
      using row unfolding set_compute_results by blast
    then show ?thesis unfolding r(4) using gj_last_rows [OF assms(2), of k w] by (simp add: kill_job_def real_kill_pipeline_def)
  qed
  obtain bs s1 s2 f where b: "hands_over (gj_source ?c) (gj_start ?c) bs s1"
      "src_next (gj_source ?c) s1 = Inr (None, s2)" "concat bs = gj_items ?c" "fuel = length bs + Suc f"
    using delivers_batches [OF gj.delivered [OF assms(2)] len] .
  then have "nemesis_oracle fuel (rk_window_size config) (rk_allowed_lateness config) (gj_source ?c) (gj_start ?c) = Some (Inr ?exp)"
    using drain_handed_over [OF b(1,2), of fuel] by (simp add: nemesis_oracle_def)
  then have run: "run_real_kill_nemesis R fuel io attempts config =
      Some (Inr (verify_union pre post ?exp (res\<lparr>rr_restored_offset := restored\<rparr>)))"
    using assms(1) r(1-3) M by (simp add: run_real_kill_nemesis_def Let_def kill_job_def)
  have "rr_failure_detail res = None" using A by (simp add: empty_kill_result_def)
  moreover have "checkpointing_enabled (gj_pipeline ?c)" if "0 < rk_checkpoint_interval config"
    using that by (simp add: checkpointing_enabled_def kill_job_def real_kill_pipeline_def)
  ultimately show ?thesis using run r(5) verify_union_passes [OF found] by auto
qed

definition sample_kill :: real_kill_config where
  "sample_kill = \<lparr>rk_seed = 7, rk_num_records = 6, rk_num_keys = 2, rk_window_size = 3, rk_max_disorder = 1, rk_checkpoint_interval = 2,
     rk_kill_point = KBetweenCheckpoints, rk_disorder_mode = KHeavyTailed, rk_late_fraction = Finite (1 / 2), rk_late_tail = 2,
     rk_allowed_lateness = 2, rk_target_checkpoint = 0, rk_max_attempts = 5\<rparr>"

definition sample_attempts :: "disk \<Rightarrow> attempt list" where
  "sample_attempts dk =
     [\<lparr>at_workdir = ''/tmp/a'', at_fork_ok = True, at_polls = [\<lparr>po_reaped = True, po_listing = None, po_tmp_listing = None\<rparr>],
       at_status = Exited, at_sentinel = True, at_disk = dk\<rparr>,
      \<lparr>at_workdir = ''/tmp/b'', at_fork_ok = True,
       at_polls = [\<lparr>po_reaped = False, po_listing = Some [''.'', ''..'', kManifestName], po_tmp_listing = None\<rparr>],
       at_status = Signaled SIGKILL, at_sentinel = False, at_disk = dk\<rparr>]"

lemma sample_kill_fits: "gj_fits (kill_job sample_random sample_kill wd)"
  using sample_random_lawful
  by (simp add: gj_fits_def kill_job_def real_kill_pipeline_def make_real_gen_config_def generator_ok_def sample_kill_def unit_interval_def i64_nums
      sample_random_def newline_def)

lemma sample_capture:
  "\<exists>res. capture_crash sample_kill 1 (sample_attempts dk) empty_kill_result = Some (Captured res (sample_attempts dk ! 1))"
  by (simp add: sample_attempts_def sample_kill_def watch_child_def by_sigkill_def Let_def count_completed_checkpoints_def ends_with_def
      kManifestName_def)

theorem real_kill_nemesis_passes_witness:
  "\<exists>dk result. run_real_kill_nemesis sample_random 20 good_io (sample_attempts dk) sample_kill = Some (Inr result) \<and>
     rr_passed result \<and> rr_missing_results result = 0"
proof -
  let ?gen = "make_real_gen_config sample_kill" and ?cfg = "real_kill_pipeline sample_kill ''/tmp/b''"
  let ?src = "generator_source sample_random ?gen" and ?s0 = "fresh_generator sample_random ?gen"
  let ?a = "projr (tumbling_assigner (rk_window_size sample_kill))"
  let ?c = "kill_job sample_random sample_kill ''/tmp/b''"
  have c: "gj_pipeline ?c = ?cfg" "gj_assigner ?c = ?a" "gj_source ?c = ?src" "gj_start ?c = ?s0" by (simp_all add: kill_job_def gj_assigner_def)
  obtain m where m: "serialize (pipeline_manifest ?cfg ?a ?src) = Inr m"
    using gj.manifest_made [OF sample_kill_fits, of "''/tmp/b''"] c by metis
  obtain pl where pl: "new_pipeline ?cfg ?s0 [] None = Inr pl"
    using gj.pipeline_made [OF sample_kill_fits, of "''/tmp/b''" "[]" None] c by metis
  have en: "checkpointing_enabled ?cfg" by (simp add: checkpointing_enabled_def real_kill_pipeline_def sample_kill_def)
  let ?ch = "started_child pl (Some m)"
  define dk where "dk = \<lparr>dk_manifest = pl_manifest (ch_pipeline ?ch), dk_dir = pl_dir (ch_pipeline ?ch), dk_sink = Some (ds_file (ch_sink ?ch))\<rparr>"
  have "left_behind ?cfg ?ch dk" unfolding dk_def by (rule left_between)
  then have k: "killed_disk ?cfg ?a ?src ?s0 dk"
    unfolding killed_disk_def using pl m en by (intro exI [of _ pl] exI [of _ m] conjI disjI2 exI [of _ ?ch]) simp_all
  obtain res where cap: "capture_crash sample_kill 1 (sample_attempts dk) empty_kill_result = Some (Captured res (sample_attempts dk ! 1))"
    using sample_capture by blast
  have "\<forall>a \<in> set (sample_attempts dk). at_status a = Signaled SIGKILL \<longrightarrow> \<not> at_sentinel a \<longrightarrow>
      killed_disk (real_kill_pipeline sample_kill (at_workdir a)) ?a ?src ?s0 (at_disk a)"
    using k by (simp add: sample_attempts_def)
  from real_kill_nemesis_passes [OF cap sample_kill_fits this _ good_io_ok, of 20] show ?thesis
    by (auto simp: sample_kill_def)
qed

end
