(* ===== verification/Early_Stop.thy ===== *)
theory Early_Stop
  imports Generated_Job
begin

text \<open>
  A pipeline whose source is cut off after a number of records (\<open>source/stopping_source.cpp\<close>) and that
  drains: its final flush emits the panes that are open at the cut. Restarted on the
  uncut source from the newest checkpoint, with lateness zero, the job emits those
  windows again with the complete panes, so the last row of every key and window is that of an
  undisturbed run.
\<close>

section \<open>A source that is cut off\<close>

lemma stopping_copy_cut:
  assumes "stopping_copy m its n acc = (res, n')"
  shows "\<exists>xs. res = acc @ xs \<and> prefix xs its \<and> (xs = its \<or> m \<le> n') \<and> (n < m \<longrightarrow> its \<noteq> [] \<longrightarrow> xs \<noteq> [])"
  using assms
proof (induction m its n acc rule: stopping_copy.induct)
  case (2 m it its n acc)
  show ?case
  proof (cases "m \<le> n")
    case False
    then obtain xs where "res = (acc @ [it]) @ xs" "prefix xs its" "xs = its \<or> m \<le> n'"
      using 2 by (cases it) auto
    then show ?thesis by (intro exI [of _ "it # xs"]) auto
  qed (use "2.prems" in auto)
qed auto

lemma stopping_ended: "m \<le> n \<Longrightarrow> delivers (stopping_source src m) \<lparr>inner_state = s, emitted = n\<rparr> []"
  unfolding delivers_def
  by (intro exI [of _ "[]"] exI [of _ "\<lparr>inner_state = s, emitted = n\<rparr>"]) (simp add: stopping_source_def stopping_next_def)

text \<open>It delivers a prefix of the stream: all of it, or as many records as the limit allows.\<close>

lemma stopping_delivers:
  assumes "delivers src s its" "n \<le> m"
  shows "\<exists>xs ys. its = xs @ ys \<and> delivers (stopping_source src m) \<lparr>inner_state = s, emitted = n\<rparr> xs \<and>
    (ys = [] \<and> data_count xs \<le> unat m - unat n \<or> data_count xs = unat m - unat n)"
proof -
  obtain bs s1 s2 where "hands_over src s bs s1" "src_next src s1 = Inr (None, s2)" "[] \<notin> set bs" "its = concat bs"
    using assms(1) by (auto simp: delivers_def)
  then show ?thesis
    using assms(2)
  proof (induction bs arbitrary: s n its)
    case Nil
    have "src_next (stopping_source src m) \<lparr>inner_state = s, emitted = n\<rparr> =
        Inr (None, \<lparr>inner_state = (if m \<le> n then s else s2), emitted = n\<rparr>)"
      using Nil by (simp add: stopping_source_def stopping_next_def)
    then have "delivers (stopping_source src m) \<lparr>inner_state = s, emitted = n\<rparr> []"
      unfolding delivers_def by (metis concat.simps(1) empty_iff empty_set hands_over.simps(1))
    then show ?case using Nil by (intro exI [of _ "[]"]) (simp add: data_count_def)
  next
    case (Cons b bs)
    obtain t where t: "src_next src s = Inr (Some b, t)" "hands_over src t bs s1" using Cons.prems(1) by auto
    have b: "b \<noteq> []" using Cons.prems(3) by auto
    show ?case
    proof (cases "m \<le> n")
      case True
      then have "n = m" using Cons.prems(5) by simp
      then show ?thesis using stopping_ended [of m n src s] by (intro exI [of _ "[]"] exI [of _ its]) (simp add: data_count_def)
    next
      case False
      obtain res k where c: "stopping_copy m b n [] = (res, k)" by fastforce
      then have res: "prefix res b" "res = b \<or> m \<le> k" "res \<noteq> []" using stopping_copy_cut [OF c] b False by auto
      have k: "k \<le> m" "unat k = unat n + data_count res"
        using stopping_copy_count [OF c Cons.prems(5)] by (auto simp: data_count_def)
      have pulled: "src_next (stopping_source src m) \<lparr>inner_state = s, emitted = n\<rparr> = Inr (Some res, \<lparr>inner_state = t, emitted = k\<rparr>)"
        using False t(1) c res(3) by (simp add: stopping_source_def stopping_next_def)
      have more: "delivers (stopping_source src m) \<lparr>inner_state = s, emitted = n\<rparr> (res @ xs)"
        if rest: "delivers (stopping_source src m) \<lparr>inner_state = t, emitted = k\<rparr> xs" for xs
      proof -
        obtain cs u1 u2 where "hands_over (stopping_source src m) \<lparr>inner_state = t, emitted = k\<rparr> cs u1"
            "src_next (stopping_source src m) u1 = Inr (None, u2)" "[] \<notin> set cs" "xs = concat cs"
          using rest by (auto simp: delivers_def)
        then show ?thesis
          unfolding delivers_def using pulled res(3) by (intro exI [of _ "res # cs"] exI [of _ u1] exI [of _ u2]) simp
      qed
      show ?thesis
      proof (cases "res = b")
        case True
        obtain xs ys where "concat bs = xs @ ys" "delivers (stopping_source src m) \<lparr>inner_state = t, emitted = k\<rparr> xs"
            "ys = [] \<and> data_count xs \<le> unat m - unat k \<or> data_count xs = unat m - unat k"
          using Cons.IH [OF t(2) Cons.prems(2) _ refl k(1)] Cons.prems(3) by auto
        then show ?thesis
          using more [of xs] True Cons.prems(4) k
          by (intro exI [of _ "res @ xs"] exI [of _ ys]) (auto simp: data_count_def word_le_nat_alt)
      next
        case False
        then have "k = m" using res(2) k(1) by simp
        moreover obtain zs where "b = res @ zs" using res(1) by (auto simp: prefix_def)
        ultimately show ?thesis
          using more [of "[]"] stopping_ended [of m k src t] k(2) Cons.prems(4)
          by (intro exI [of _ res] exI [of _ "zs @ concat bs"]) simp
      qed
    qed
  qed
qed

section \<open>A drained run\<close>

lemma cell_keeps_trace:
  assumes "0 \<le> lateness cfg" "wend w \<le> i64_max" "c_pane c \<noteq> None \<or> c_rows c \<noteq> {}"
  shows "c_pane (fold (cell_step cfg k w) its c) \<noteq> None \<or> c_rows (fold (cell_step cfg k w) its c) \<noteq> {}"
  using assms(3)
proof (induction its arbitrary: c)
  case (Cons it its)
  have "c_pane (cell_step cfg k w it c) \<noteq> None \<or> c_rows (cell_step cfg k w it c) \<noteq> {}"
    using Cons.prems deadline_ge_end [OF assms(1,2)]
    by (auto simp: cell_step_def cell_record_def cell_watermark_def split: batch_item.splits control_type.splits)
  then show ?case using Cons.IH by simp
qed simp

text \<open>With lateness zero a live pane has not been emitted yet and will be.\<close>

lemma live_pane_fires:
  assumes inv: "processor_inv cfg p" and l: "lateness cfg = 0" and law: "lawful_assigner (assigner cfg) width"
    and run: "run_items cfg its p = Inr p'" and live: "pane_at (state p) w k = Some q"
    and es: "effects (final_flush cfg p') = effects p @ es"
  shows "rows_of k w es \<noteq> {}"
proof -
  let ?p = "p\<lparr>effects := []\<rparr>"
  have p: "p = with_history (effects p) zero_stats ?p" by (simp add: with_history_def add_stats_def zero_stats_def)
  have inv': "processor_inv cfg ?p" using inv l by (simp add: processor_inv_def)
  obtain r where r: "run_items cfg its ?p = Inr r" "p' = with_history (effects p) zero_stats r"
    using run run_with_history [of cfg its "effects p" zero_stats ?p] p by (cases "run_items cfg its ?p") auto
  note R = run_items_refines [OF r(1) inv' law, of k w]
  have "effects (final_flush cfg r) = es" using es r(2) by (simp add: flush_with_history)
  moreover have "c_pane (cell_of r k w) \<noteq> None \<or> c_rows (cell_of r k w) \<noteq> {}"
    unfolding conjunct2 [OF R] using live l processor_invD(4) [OF inv live] by (intro cell_keeps_trace) (simp_all add: cell_of_def)
  ultimately show ?thesis
    using final_flush_refines [OF conjunct1 [OF R], of k w] by (auto simp: cell_of_def cell_flush_def)
qed

context recoverable_job
begin

lemma drained_run:
  assumes fits: "fits c" and its: "items c = xs @ ys"
    and src: "src_descriptor src = src_descriptor (ops c)" "src_replayable src" "delivers src s0 xs" and fuel: "length xs < fuel"
  shows "\<exists>pl0 pl1 st p. new_pipeline (cfg c) s0 [] None = Inr pl0 \<and>
    pl_run fuel None (cfg c) (asg c) (\<lambda>off. WriteOk) src [] pl0 = Some (Inr (pl1, st)) \<and>
    run_items (safe_config (cfg c) (asg c)) xs (first_state c) = Inr p \<and>
    pl_core pl1 = final_flush (safe_config (cfg c) (asg c)) p \<and> ps_counters st = stats (pl_core pl1) \<and>
    dir_at c xs (emitted_rows (effects p)) (pl_manifest pl1) (pl_dir pl1)"
proof -
  let ?P = "safe_config (cfg c) (asg c)"
  note W = whole_run [OF fits] and D = descriptors [OF fits, folded src(1)]
  have "0 \<le> plc_lateness (cfg c)" using W(1) by (auto simp: new_processor_def split: if_splits)
  then obtain pl0 where pl0: "new_pipeline (cfg c) s0 [] None = Inr pl0"
    by (fastforce simp: new_pipeline_def set_allowed_lateness_def)
  have core: "pl_core pl0 = first_state c"
    using new_pipeline_core [OF pl0, of "asg c" "\<lambda>off. WriteOk"] W(1) by (simp add: safe_config_def)
  obtain m where m: "serialize (pipeline_manifest (cfg c) (asg c) (ops c)) = Inr m" using manifest_made [OF fits] .
  have same: "pipeline_manifest (cfg c) (asg c) src = pipeline_manifest (cfg c) (asg c) (ops c)"
    by (simp add: pipeline_manifest_def src(1))
  obtain p where p: "run_items ?P xs (first_state c) = Inr p" using run_prefix [OF fits its] by blast
  obtain bs s1 s2 f where b: "hands_over src s0 bs s1" "src_next src s1 = Inr (None, s2)" "concat bs = xs" "fuel = length bs + Suc f" "[] \<notin> set bs"
    by (rule delivers_batches [OF src(3) fuel])
  have latest: "fst (load_latest []) = None" "snd (load_latest []) = []" by (simp_all add: load_latest_def clean_tmp_files_def ckpt_files_def newest_first_def)
  let ?mf = "if checkpointing_enabled (cfg c) then Some m else None"
  let ?I = "\<lambda>zs q dir. run_items ?P zs (first_state c) = Inr q \<and> dir_at c zs (emitted_rows (effects q)) ?mf dir"
  have "effects (first_state c) = []" by (rule new_no_effects [OF W(1)])
  then have I0: "?I [] (pl_core pl0) (if checkpointing_enabled (cfg c) then snd (load_latest []) else [])"
    using core m latest by (simp add: dir_at_def recovery_point_def ckpt_files_def um_wf_def)
  have step: "?I (zs @ [it]) (pl_core q') (pl_dir q')"
    if z: "concat bs = zs @ it # ts" and I: "?I zs (pl_core q) (pl_dir q)" and s: "pl_item (cfg c) (asg c) (\<lambda>off. WriteOk) it q = Inr q'"
    for it zs ts and q q' :: "'d pipeline"
  proof -
    note S = pl_item_dir [OF s]
    have split: "items c = zs @ it # (ts @ ys)" using its b(3) z by simp
    have run: "run_items ?P (zs @ [it]) (first_state c) = Inr (pl_core q')" using I S by (simp add: run_items_append)
    obtain es where es: "effects (pl_core q') = effects (pl_core q) @ es" using item_grows S by blast
    have d: "dir_at c zs (emitted_rows (effects (pl_core q))) ?mf (pl_dir q)"
      and q: "run_items ?P zs (first_state c) = Inr (pl_core q)" using I by simp_all
    have keeps: "dir_at c (zs @ [it]) (emitted_rows (effects (pl_core q))) ?mf (pl_dir q)"
      by (rule dir_at_grows [OF d]) simp_all
    have "dir_at c (zs @ [it]) (emitted_rows (effects (pl_core q))) ?mf (pl_dir q')"
    proof (cases "pl_dir q' = pl_dir q")
      case False
      then obtain b where "it = Control b" "ctype b = KCheckpointBarrier" "checkpointing_enabled (cfg c)"
          "pl_dir q' \<in> set (retention_crash_states (checkpoint_offset b) (watermark (pl_core q)) (state (pl_core q)) (pl_dir q))"
        using S by blast
      then show ?thesis using dir_at_retention [OF fits d _ _ _ q refl] split by simp
    qed (use keeps in simp)
    then show ?thesis using run es dir_at_grows [OF _ prefix_order.refl] by auto
  qed
  have mf: "case None of None \<Rightarrow> ckpt_files [] = [] | Some m \<Rightarrow> serialize (pipeline_manifest (cfg c) (asg c) src) = Inr m"
    by (simp add: ckpt_files_def)
  have run: "run_items (as_config (cfg c) (asg c) (\<lambda>off. WriteOk)) (concat bs) (pl_core pl0) = Inr p"
    using p core b(3) by (simp add: safe_config_def)
  have en: "checkpointing_enabled (cfg c) \<Longrightarrow> src_replayable src \<and> fst (load_latest []) = None" using src(2) latest by simp
  have "\<exists>pl1 st. pl_run (length bs + Suc f) None (cfg c) (asg c) (\<lambda>off. WriteOk) src [] pl0 = Some (Inr (pl1, st)) \<and>
      \<not> ps_suspended st \<and> ps_records_replayed st = 0 \<and> ps_counters st = stats (pl_core pl1) \<and>
      pl_core pl1 = final_flush (as_config (cfg c) (asg c) (\<lambda>off. WriteOk)) p \<and> ?I (concat bs) p (pl_dir pl1) \<and>
      pl_manifest pl1 = (if checkpointing_enabled (cfg c) \<and> (None :: string option) = None
        then Some (projr (serialize (pipeline_manifest (cfg c) (asg c) src))) else None)"
    by (rule fresh_run [where I = ?I, OF pl0 en conjunct1 [OF D] conjunct2 [OF D] mf b(1,5,2) run I0]) (assumption, rule step)
  then obtain pl1 st where r: "pl_run fuel None (cfg c) (asg c) (\<lambda>off. WriteOk) src [] pl0 = Some (Inr (pl1, st))"
      "ps_counters st = stats (pl_core pl1)" "pl_core pl1 = final_flush ?P p" "?I (concat bs) p (pl_dir pl1)" "pl_manifest pl1 = ?mf"
    unfolding b(4) safe_config_def same m by auto
  then show ?thesis using pl0 p b(3) by (intro exI [of _ pl0] exI [of _ pl1] exI [of _ st] exI [of _ p]) simp
qed

text \<open>The rows of the cut run and of the restarted run end, for every key and window, like the whole run.\<close>

lemma drained_overlap:
  assumes fits: "fits c" and l: "plc_lateness (cfg c) = 0" and its: "items c = xs @ ys"
    and p: "run_items (safe_config (cfg c) (asg c)) xs (first_state c) = Inr p"
    and split: "all_rows c = before @ post" "prefix before (emitted_rows (effects p))"
  shows "find (\<lambda>r. res_key r = k \<and> res_window r = w)
      (rev (emitted_rows (effects (final_flush (safe_config (cfg c) (asg c)) p)) @ post)) =
    find (\<lambda>r. res_key r = k \<and> res_window r = w) (rev (all_rows c))"
proof -
  let ?P = "safe_config (cfg c) (asg c)" and ?s = "\<lambda>r. res_key r = k \<and> res_window r = w"
  note W = whole_run [OF fits]
  have law: "lawful_assigner (assigner ?P) (width c)" using lawful [OF fits] by simp
  have inv: "processor_inv ?P p" using run_items_refines [OF p new_processor_inv(1) [OF W(1)] law] by blast
  have rest: "run_items ?P ys p = Inr (final_state c)" using W(2) its p by (simp add: run_items_append)
  obtain fs where fs: "effects (final_flush ?P p) = effects p @ fs" "\<And>q. q \<in> rows_of k w fs \<Longrightarrow> pane_at (state p) w k = Some q"
    using fires_from_flush [of p ?P] processor_invD(1) [OF inv] unfolding fires_from_def by blast
  obtain es where es: "effects (final_flush ?P (final_state c)) = effects p @ es"
    using effects_grow [OF rest] flush_grows by (metis append.assoc)
  obtain mid where mid: "emitted_rows (effects p) = before @ mid" using split(2) by (auto simp: prefix_def)
  have post: "post = mid @ emitted_rows es" using split(1) mid es by (simp add: all_rows_def)
  show ?thesis
  proof (cases "find ?s (rev post)")
    case (Some r)
    then show ?thesis using split(1) by (simp add: find_append)
  next
    case None
    then have "slot_rows k w es = []" "filter ?s mid = []"
      using post by (auto simp: find_None_iff slot_rows_def filter_empty_conv)
    then have "rows_of k w es = {}" by (simp add: slot_rows_empty)
    then have "rows_of k w fs = {}"
      using live_pane_fires [OF inv _ law rest _ es] fs(2) l by (metis all_not_in_conv safe_config_sel(2))
    then have "slot_rows k w fs = []" by (simp add: slot_rows_empty)
    then have "filter ?s (emitted_rows (effects (final_flush ?P p)) @ post) = filter ?s (all_rows c)"
      using fs(1) mid split(1) \<open>filter ?s mid = []\<close> by (simp add: slot_rows_def)
    then show ?thesis unfolding find_last by simp
  qed
qed

end

end
