(* ===== verification/Nemesis_Stop.thy ===== *)
theory Nemesis_Stop
  imports Nemesis Early_Stop
begin

text \<open>
  The in-process recovery test \<open>RunNemesis\<close> of \<open>src/src/nemesis/nemesis.cpp\<close>: a pipeline
  whose source stops at a kill point, a second one that restores from its checkpoints and
  runs to the end, and a third without checkpoints whose rows are the expected ones. The rounding
  of floating-point arithmetic and the outcome of the injected file write are arguments; a
  cast or a division C++ leaves undefined makes the run \<open>None\<close>.
\<close>

section \<open>Configuration and results\<close>

datatype nemesis_phase = PhMidCheckpoint | PhMidEmission | PhBetweenCheckpoints

record nemesis_config =
  nc_seed :: u64
  nc_num_records :: u64
  nc_num_keys :: u32
  nc_window_size :: duration
  nc_max_disorder :: duration
  nc_checkpoint_interval :: u64
  nc_kill_phase :: nemesis_phase
  nc_kill_position :: double

record nemesis_result =
  nr_passed :: bool
  nr_records_before_kill :: u64
  nr_records_after_restore :: u64
  nr_duplicates_at_sink :: u64
  nr_missing_results :: u64
  nr_failure_detail :: "nemesis_failure option"

definition empty_nemesis_result :: nemesis_result where
  "empty_nemesis_result = \<lparr>nr_passed = False, nr_records_before_kill = 0, nr_records_after_restore = 0, nr_duplicates_at_sink = 0,
     nr_missing_results = 0, nr_failure_detail = None\<rparr>"

definition make_nemesis_gen_config :: "nemesis_config \<Rightarrow> generator_config" where
  "make_nemesis_gen_config config =
     \<lparr>gc_seed = nc_seed config, gc_num_keys = nc_num_keys config, gc_num_records = nc_num_records config, gc_event_time_step = 1,
      gc_max_disorder = nc_max_disorder config, gc_batch_size = 1024, gc_watermark_interval = 100,
      gc_checkpoint_interval = nc_checkpoint_interval config, gc_disorder_mode = KBounded,
      gc_late_fraction = Finite 0, gc_late_tail = 0, gc_idle_spans = []\<rparr>"

text \<open>The value of a \<open>double\<close> cast to \<open>uint64_t\<close>: truncation, undefined when out of range.\<close>

definition cast_u64 :: "rat \<Rightarrow> u64 option" where
  "cast_u64 x = (if x \<le> -1 \<or> x \<ge> 2 ^ 64 then None else Some (of_int (if x \<ge> 0 then \<lfloor>x\<rfloor> else \<lceil>x\<rceil>)))"

definition adjust_kill :: "nemesis_config \<Rightarrow> u64 \<Rightarrow> u64 option" where
  "adjust_kill config k =
     (let i = nc_checkpoint_interval config in
      case nc_kill_phase config of
        PhBetweenCheckpoints \<Rightarrow> (if i = 0 then None else Some ((k div i) * i + i div 2))
      | PhMidCheckpoint \<Rightarrow> (if i = 0 then None else (let b = (k div i) * i in Some (if b = 0 then i else b)))
      | PhMidEmission \<Rightarrow> Some k)"

text \<open>The last correction is unsigned: an interval above the number of records wraps around.\<close>

definition kill_at :: "(rat \<Rightarrow> rat) \<Rightarrow> nemesis_config \<Rightarrow> u64 option" where
  "kill_at rnd config =
     (case nc_kill_position config of
        NonFinite \<Rightarrow> None
      | Finite x \<Rightarrow>
          (case cast_u64 (rnd (rnd (of_nat (unat (nc_num_records config))) * x)) of
             None \<Rightarrow> None
           | Some k \<Rightarrow> map_option (\<lambda>k. if k \<ge> nc_num_records config
               then nc_num_records config - nc_checkpoint_interval config else k) (adjust_kill config k)))"

text \<open>\<open>None\<close> is an \<open>open\<close> that fails, \<open>Some n\<close> a \<open>write\<close> of the first \<open>n\<close> bytes.\<close>

definition create_stale_tmp_file :: "nat option \<Rightarrow> u64 \<Rightarrow> directory \<Rightarrow> directory" where
  "create_stale_tmp_file io offset dir =
     (case io of None \<Rightarrow> dir
      | Some n \<Rightarrow> AList.update (tmp_filename offset) (take n (bytes_of_string ''PARTIAL_CHECKPOINT_DATA'')) dir)"

definition to_result_map :: "window_result list \<Rightarrow> result_map" where
  "to_result_map results = fold (\<lambda>r m.
     (case map_of m (result_key r) of
        None \<Rightarrow> om_set (result_key r) (result_value r) m
      | Some v \<Rightarrow> (if agg_count (res_result r) \<ge> snd v then om_set (result_key r) (result_value r) m else m))) results []"

section \<open>The run\<close>

record pipeline_io =
  pi_manifest :: "exn option"
  pi_checkpoints :: "u64 \<Rightarrow> write_outcome"

definition nemesis_pipeline :: "nemesis_config \<Rightarrow> string \<Rightarrow> pipeline_config" where
  "nemesis_pipeline config ckpt_dir =
     \<lparr>plc_lateness = 0, plc_checkpoint_dir = ckpt_dir, plc_checkpoint_interval = nc_checkpoint_interval config\<rparr>"

definition plain_pipeline :: pipeline_config where
  "plain_pipeline = \<lparr>plc_lateness = 0, plc_checkpoint_dir = [], plc_checkpoint_interval = 0\<rparr>"

text \<open>One phase: a pipeline over a memory sink, run to its end on a checkpoint directory.\<close>

definition run_to_memory ::
    "nat \<Rightarrow> pipeline_io \<Rightarrow> pipeline_config \<Rightarrow> window_assigner res \<Rightarrow> 's source \<Rightarrow> 's res \<Rightarrow> directory \<Rightarrow> string option \<Rightarrow>
     (u64 \<times> window_result list \<times> directory \<times> string option) res option" where
  "run_to_memory fuel io cfg asg src start dir mf =
     bind_run (Some start) (\<lambda>s.
     bind_run (Some asg) (\<lambda>a.
     bind_run (Some (new_pipeline cfg s dir mf)) (\<lambda>pl.
     bind_run (pl_run fuel (pi_manifest io) cfg a (pi_checkpoints io) src [] pl) (\<lambda>(pl1, st).
       Some (Inr (records_processed (ps_counters st), memory_sink (effects (pl_core pl1)), pl_dir pl1, pl_manifest pl1))))))"

definition check_entry ::
    "result_map \<Rightarrow> row_slot \<times> (int \<times> u64) \<Rightarrow> u64 \<times> nemesis_failure option \<Rightarrow> u64 \<times> nemesis_failure option" where
  "check_entry combined e acc =
     (case acc of (missing, detail) \<Rightarrow>
        (case map_of combined (fst e) of
           None \<Rightarrow> (missing + 1, detail)
         | Some v \<Rightarrow>
             (if v \<noteq> snd e then (missing + 1, if detail = None then Some (ValueMismatch (fst e) (snd e) v) else detail)
              else (missing, detail))))"

definition compare_phases ::
    "window_result list \<Rightarrow> window_result list \<Rightarrow> window_result list \<Rightarrow> nemesis_result \<Rightarrow> nemesis_result" where
  "compare_phases pre post expected res =
     (let combined = absorb post (absorb pre []);
          (missing, detail) = fold (check_entry combined) (to_result_map expected) (0, nr_failure_detail res)
      in res\<lparr>nr_duplicates_at_sink := of_nat (length pre) + of_nat (length post) - of_nat (length combined),
             nr_missing_results := missing, nr_failure_detail := detail, nr_passed := (missing = 0)\<rparr>)"

definition run_nemesis ::
    "'g random_ops \<Rightarrow> (rat \<Rightarrow> rat) \<Rightarrow> nat \<Rightarrow> pipeline_io \<Rightarrow> nat option \<Rightarrow> pipeline_io \<Rightarrow> string \<Rightarrow> nemesis_config \<Rightarrow>
     nemesis_result res option" where
  "run_nemesis R rnd fuel io1 stale io2 ckpt_dir config =
     (if ckpt_dir = [] then Some (Inr (empty_nemesis_result\<lparr>nr_failure_detail := Some TempDirFailed\<rparr>))
      else case kill_at rnd config of
        None \<Rightarrow> None
      | Some k \<Rightarrow>
          (let gen = make_nemesis_gen_config config; src = generator_source R gen; new = new_generator R gen;
               asg = tumbling_assigner (nc_window_size config); cfg = nemesis_pipeline config ckpt_dir
           in bind_run (run_to_memory fuel io1 cfg asg (stopping_source src k)
                  (bind_res new (\<lambda>g. Inr \<lparr>inner_state = g, emitted = 0\<rparr>)) [] None) (\<lambda>(before, pre, dir, mf).
              let dir1 = (if nc_kill_phase config = PhMidCheckpoint then create_stale_tmp_file stale k dir else dir) in
              bind_run (run_to_memory fuel io2 cfg asg src new dir1 mf) (\<lambda>(after, post, _).
              bind_run (run_to_memory fuel io2 plain_pipeline asg src new [] None) (\<lambda>(_, expected, _).
                Some (Inr (compare_phases pre post expected
                  (empty_nemesis_result\<lparr>nr_records_before_kill := before, nr_records_after_restore := after\<rparr>))))))))"

section \<open>The comparison\<close>

lemma to_result_map_snoc:
  "to_result_map (rows @ [r]) =
     (case map_of (to_result_map rows) (result_key r) of
        None \<Rightarrow> om_set (result_key r) (result_value r) (to_result_map rows)
      | Some v \<Rightarrow> (if agg_count (res_result r) \<ge> snd v then om_set (result_key r) (result_value r) (to_result_map rows)
                   else to_result_map rows))"
  unfolding to_result_map_def fold_append by (simp split: option.split)

lemma to_result_map_rows:
  "om_wf (to_result_map rows) \<and>
   (\<forall>k v. map_of (to_result_map rows) k = Some v \<longrightarrow> (\<exists>r \<in> set rows. result_key r = k \<and> result_value r = v))"
proof (induction rows rule: rev_induct)
  case (snoc r rows)
  then show ?case
    by (auto simp: to_result_map_snoc store_simps inv_intros split: option.split)
qed (simp add: to_result_map_def om_wf_def)

text \<open>A last row with the greatest count is the one the map keeps.\<close>

lemma to_result_map_last:
  assumes "find (\<lambda>r. result_key r = k) (rev rows) = Some r"
    and "\<And>x. x \<in> set rows \<Longrightarrow> result_key x = k \<Longrightarrow> agg_count (res_result x) \<le> agg_count (res_result r)"
  shows "map_of (to_result_map rows) k = Some (result_value r)"
  using assms
proof (induction rows rule: rev_induct)
  case (snoc y rows)
  show ?case
  proof (cases "result_key y = k")
    case True
    then have y: "y = r" using snoc.prems(1) by simp
    have "snd v \<le> agg_count (res_result r)" if "map_of (to_result_map rows) k = Some v" for v
      using that to_result_map_rows [of rows] snoc.prems(2) by (fastforce simp: result_value_def)
    then show ?thesis using True y by (auto simp: to_result_map_snoc store_simps split: option.split)
  next
    case False
    then have "map_of (to_result_map rows) k = Some (result_value r)" using snoc by simp
    then show ?thesis using False by (auto simp: to_result_map_snoc store_simps split: option.split)
  qed
qed simp

lemma key_of_slot: "(\<lambda>x. result_key x = (k, s, e)) = (\<lambda>x. res_key x = k \<and> res_window x = Window s e)"
  by (simp add: fun_eq_iff result_key_eq)

lemma entries_found:
  "\<forall>e \<in> set es. map_of c (fst e) = Some (snd e) \<Longrightarrow> fold (check_entry c) es acc = acc"
  by (induction es arbitrary: acc) (simp_all add: check_entry_def split_def)

lemma compare_phases_passes:
  assumes same: "\<And>k w. find (\<lambda>x. res_key x = k \<and> res_window x = w) (rev (pre @ post)) = find (\<lambda>x. res_key x = k \<and> res_window x = w) (rev expected)"
    and most: "\<And>k w r x. find (\<lambda>x. res_key x = k \<and> res_window x = w) (rev expected) = Some r \<Longrightarrow> x \<in> set expected \<Longrightarrow>
      res_key x = k \<Longrightarrow> res_window x = w \<Longrightarrow> agg_count (res_result x) \<le> agg_count (res_result r)"
  shows "nr_passed (compare_phases pre post expected res)" "nr_missing_results (compare_phases pre post expected res) = 0"
    "nr_failure_detail (compare_phases pre post expected res) = nr_failure_detail res"
    "nr_records_before_kill (compare_phases pre post expected res) = nr_records_before_kill res"
proof -
  let ?c = "absorb post (absorb pre [])"
  have "map_of ?c (fst e) = Some (snd e)" if e: "e \<in> set (to_result_map expected)" for e
  proof -
    obtain k s f v where kv: "e = ((k, s, f), v)" by (metis prod_cases3 surj_pair)
    then have v: "map_of (to_result_map expected) (k, s, f) = Some v"
      using e to_result_map_rows [of expected] by (simp add: om_wf_distinct map_of_is_SomeI)
    then obtain x where "x \<in> set expected" "result_key x = (k, s, f)" using to_result_map_rows [of expected] by blast
    then obtain r where r: "find (\<lambda>x. result_key x = (k, s, f)) (rev expected) = Some r"
      by (cases "find (\<lambda>x. result_key x = (k, s, f)) (rev expected)") (auto simp: find_None_iff)
    then have "map_of (to_result_map expected) (k, s, f) = Some (result_value r)"
      using most [of k "Window s f" r] by (intro to_result_map_last) (auto simp: key_of_slot result_key_eq)
    moreover have "map_of ?c (k, s, f) = Some (result_value r)"
      using r same [of k "Window s f"] unfolding absorb_both key_of_slot by simp
    ultimately show ?thesis using v kv by simp
  qed
  then have "fold (check_entry ?c) (to_result_map expected) acc = acc" for acc by (intro entries_found) blast
  then show "nr_passed (compare_phases pre post expected res)" "nr_missing_results (compare_phases pre post expected res) = 0"
    "nr_failure_detail (compare_phases pre post expected res) = nr_failure_detail res"
    "nr_records_before_kill (compare_phases pre post expected res) = nr_records_before_kill res"
    by (simp_all add: compare_phases_def Let_def split_def)
qed

section \<open>The three phases\<close>

lemma memory_rows: "memory_sink es = emitted_rows es"
  by (induction es) (simp_all add: memory_sink_def emitted_rows_def List.map_filter_simps split: effect.split)

lemma stale_tmp_harmless:
  assumes "um_wf dir"
  shows "load_latest (create_stale_tmp_file io off dir) = load_latest dir" "um_wf (create_stale_tmp_file io off dir)"
    "ckpt_files (create_stale_tmp_file io off dir) = ckpt_files dir"
proof -
  have c: "clean_tmp_files (create_stale_tmp_file io off dir) = clean_tmp_files dir"
    by (simp add: create_stale_tmp_file_def clean_update_tmp split: option.split)
  then show "load_latest (create_stale_tmp_file io off dir) = load_latest dir" by (simp add: load_latest_def)
  show "um_wf (create_stale_tmp_file io off dir)"
    using assms by (simp add: create_stale_tmp_file_def um_wf_update split: option.split)
  show "ckpt_files (create_stale_tmp_file io off dir) = ckpt_files dir"
    using c ckpt_files_clean by metis
qed

context recoverable_job
begin

lemma drained_recoverable:
  assumes "fits c" "items c = xs @ ys" "run_items (safe_config (cfg c) (asg c)) xs (first_state c) = Inr p"
    and "dir_at c xs (emitted_rows (effects p)) mf dir"
    and "load_latest dir' = load_latest dir" "um_wf dir'" "ckpt_files dir' = ckpt_files dir"
  shows "recoverable c (emitted_rows (effects p))
    \<lparr>dk_manifest = mf, dk_dir = dir', dk_sink = Some (log_bytes (emitted_rows (effects p)))\<rparr>"
proof -
  have "prefix (emitted_rows (effects p)) (all_rows c)" using run_prefix [OF assms(1,2)] assms(3) by force
  then show ?thesis
    using assms(4-7) torn_Nil by (auto simp: recoverable_def dir_at_def recovery_point_def split: option.splits)
qed

text \<open>A job on an empty disk returns all its rows.\<close>

lemma undisturbed_run:
  assumes "fits c" "length (items c) < fuel"
  shows "\<exists>pl0 pl1 st. new_pipeline (cfg c) (start c) [] None = Inr pl0 \<and>
    pl_run fuel None (cfg c) (asg c) (\<lambda>off. WriteOk) (ops c) [] pl0 = Some (Inr (pl1, st)) \<and>
    emitted_rows (effects (pl_core pl1)) = all_rows c"
proof -
  have "recoverable c [] \<lparr>dk_manifest = None, dk_dir = [], dk_sink = None\<rparr>"
    using torn_Nil by (simp add: recoverable_def recovery_point_def um_wf_def ckpt_files_def load_latest_scan newest_first_def)
  from restart_completes [OF assms(1) this assms(2)] show ?thesis by auto
qed

end

definition stop_job :: "'g random_ops \<Rightarrow> nemesis_config \<Rightarrow> pipeline_config \<Rightarrow> 'g generated_job" where
  "stop_job R config cfg = \<lparr>gj_random = R, gj_gen = make_nemesis_gen_config config, gj_pipeline = cfg, gj_window = nc_window_size config\<rparr>"

lemma stop_job_sel [simp]:
  "gj_random (stop_job R config cfg) = R" "gj_gen (stop_job R config cfg) = make_nemesis_gen_config config"
  "gj_pipeline (stop_job R config cfg) = cfg" "gj_window (stop_job R config cfg) = nc_window_size config"
  "gc_num_records (make_nemesis_gen_config config) = nc_num_records config"
  by (simp_all add: stop_job_def make_nemesis_gen_config_def)

lemma gj_settled:
  assumes "gj_fits c"
  shows "settled (final_flush (safe_config (gj_pipeline c) (gj_assigner c)) (gj.final_state c))"
proof -
  have "lawful_assigner (assigner (safe_config (gj_pipeline c) (gj_assigner c))) (gj_window c)"
    using gj.lawful [OF assms] by simp
  from settled_flush [OF gj.whole_run(1,2) [OF assms] this gj_oracle [OF assms]] show ?thesis .
qed

text \<open>The first phase stops after the records before the kill point.\<close>

lemma processed_before_kill:
  assumes fits: "gj_fits c" and its: "gj_items c = xs @ ys"
    and p: "run_items (safe_config (gj_pipeline c) (gj_assigner c)) xs (gj.first_state c) = Inr p"
    and cut: "ys = [] \<and> data_count xs \<le> unat k - unat (0 :: u64) \<or> data_count xs = unat k - unat (0 :: u64)"
  shows "records_processed (stats (final_flush (safe_config (gj_pipeline c) (gj_assigner c)) p)) = min k (gc_num_records (gj_gen c))"
proof -
  let ?P = "safe_config (gj_pipeline c) (gj_assigner c)" and ?n = "gc_num_records (gj_gen c)"
  have law: "lawful_assigner (assigner ?P) (gj_window c)" using gj.lawful [OF fits] by simp
  have new: "new_processor ?P = Inr (gj.first_state c)" by (rule gj.whole_run(1) [OF fits])
  have r: "records_processed (stats p) = of_nat (length (filter is_data xs))"
    using processor_counters_exact [OF new p law] by blast
  have d: "data_count zs = length (filter is_data zs)" for zs by (simp add: data_count_def is_data_def [abs_def])
  have "data_count (xs @ ys) = unat ?n" using its gen_loop_data by (metis d gj_items_def)
  then have "data_count xs = unat (min k ?n)"
    using cut by (auto simp: data_count_def min_def word_le_nat_alt)
  then show ?thesis using r by (simp add: d final_flush_keeps)
qed

section \<open>Properties\<close>

definition pipeline_io_ok :: "pipeline_io \<Rightarrow> bool" where
  "pipeline_io_ok io \<longleftrightarrow> pi_manifest io = None \<and> (\<forall>off. pi_checkpoints io off = WriteOk)"

lemma pipeline_io_okD: "pipeline_io_ok io \<Longrightarrow> pi_manifest io = None" "pipeline_io_ok io \<Longrightarrow> pi_checkpoints io = (\<lambda>off. WriteOk)"
  by (simp_all add: pipeline_io_ok_def fun_eq_iff)

text \<open>
  C9. The in-process recovery test always passes. For every phase and kill point, whether or not
  the injected file was written, the three pipelines return and every row of the undisturbed
  run is in the union of the stopped and the restarted one with the same sum and count, although the
  stopped pipeline flushes the windows that are still open; the records it processed before the stop
  are exactly those before the kill point.
\<close>

theorem nemesis_passes:
  assumes "gj_fits (stop_job R config (nemesis_pipeline config ckpt_dir))" "ckpt_dir \<noteq> []" "kill_at rnd config = Some k"
    and "pipeline_io_ok io1" "pipeline_io_ok io2" "3 * unat (nc_num_records config) < fuel"
  shows "\<exists>result. run_nemesis R rnd fuel io1 stale io2 ckpt_dir config = Some (Inr result) \<and>
    nr_passed result \<and> nr_missing_results result = 0 \<and> nr_failure_detail result = None \<and>
    nr_records_before_kill result = min k (nc_num_records config)"
proof -
  let ?cfg = "nemesis_pipeline config ckpt_dir"
  let ?c = "stop_job R config ?cfg" and ?d = "stop_job R config plain_pipeline"
  let ?src = "stopping_source (gj_source ?c) k" and ?s = "\<lparr>inner_state = gj_start ?c, emitted = 0\<rparr>"
  let ?P = "safe_config ?cfg (gj_assigner ?c)"
  have d: "gj_fits ?d" using assms(1) by (simp add: gj_fits_def stop_job_def nemesis_pipeline_def plain_pipeline_def)
  have same: "gj_items ?d = gj_items ?c" "gj_assigner ?d = gj_assigner ?c" by (simp_all add: gj_items_def gj_assigner_def)
  note M = gj_made [OF assms(1)]
  have len: "length (gj_items ?c) < fuel" using gj_length [of ?c] assms(6) by simp
  obtain xs ys where x: "gj_items ?c = xs @ ys" "delivers ?src ?s xs"
      "ys = [] \<and> data_count xs \<le> unat k - unat (0 :: u64) \<or> data_count xs = unat k - unat (0 :: u64)"
    using stopping_delivers [OF gj.delivered [OF assms(1)], of 0 k] by auto
  have desc: "src_descriptor ?src = src_descriptor (gj_source ?c)" "src_replayable ?src"
    by (simp_all add: stopping_source_def generator_source_def)
  have lenx: "length xs < fuel" using len x(1) by simp
  obtain pl0 pl1 st p where one: "new_pipeline ?cfg ?s [] None = Inr pl0"
      "pl_run fuel None ?cfg (gj_assigner ?c) (\<lambda>off. WriteOk) ?src [] pl0 = Some (Inr (pl1, st))"
      "run_items ?P xs (gj.first_state ?c) = Inr p" "pl_core pl1 = final_flush ?P p" "ps_counters st = stats (pl_core pl1)"
      "gj.dir_at ?c xs (emitted_rows (effects p)) (pl_manifest pl1) (pl_dir pl1)"
    using gj.drained_run [OF assms(1) x(1) desc x(2) lenx] unfolding stop_job_sel by blast
  have p: "run_items (safe_config (gj_pipeline ?c) (gj_assigner ?c)) xs (gj.first_state ?c) = Inr p" using one(3) by simp
  let ?pre = "emitted_rows (effects (final_flush ?P p))"
  define dir where "dir = (if nc_kill_phase config = PhMidCheckpoint then create_stale_tmp_file stale k (pl_dir pl1) else pl_dir pl1)"
  have wf: "um_wf (pl_dir pl1)" using one(6) by (simp add: gj.dir_at_def)
  have "load_latest dir = load_latest (pl_dir pl1)" "um_wf dir" "ckpt_files dir = ckpt_files (pl_dir pl1)"
    using stale_tmp_harmless [OF wf] wf by (simp_all add: dir_def)
  note rec = gj.drained_recoverable [OF assms(1) x(1) p one(6) this]
  obtain ql0 ql1 qt before where two: "new_pipeline ?cfg (gj_start ?c) dir (pl_manifest pl1) = Inr ql0"
      "pl_run fuel None ?cfg (gj_assigner ?c) (\<lambda>off. WriteOk) (gj_source ?c) [] ql0 = Some (Inr (ql1, qt))"
      "gj.all_rows ?c = before @ emitted_rows (effects (pl_core ql1))" "prefix before (emitted_rows (effects p))"
    using gj.restart_completes [OF assms(1) rec len] by auto
  let ?post = "emitted_rows (effects (pl_core ql1))"
  obtain rl0 rl1 rt where three: "new_pipeline plain_pipeline (gj_start ?c) [] None = Inr rl0"
      "pl_run fuel None plain_pipeline (gj_assigner ?c) (\<lambda>off. WriteOk) (gj_source ?c) [] rl0 = Some (Inr (rl1, rt))"
      "emitted_rows (effects (pl_core rl1)) = gj.all_rows ?d"
    using gj.undisturbed_run [OF d, of fuel] len same by auto
  have run: "run_nemesis R rnd fuel io1 stale io2 ckpt_dir config = Some (Inr (compare_phases ?pre ?post (gj.all_rows ?d)
      (empty_nemesis_result\<lparr>nr_records_before_kill := records_processed (stats (final_flush ?P p)),
         nr_records_after_restore := records_processed (ps_counters qt)\<rparr>)))"
    using M one two(1,2) three assms(2,3) pipeline_io_okD [OF assms(4)] pipeline_io_okD [OF assms(5)]
    by (simp add: run_nemesis_def run_to_memory_def Let_def memory_rows flip: dir_def)
  have last: "find (\<lambda>x. res_key x = key \<and> res_window x = w) (rev (?pre @ ?post)) =
      find (\<lambda>x. res_key x = key \<and> res_window x = w) (rev (gj.all_rows ?d))" for key w
    using gj.drained_overlap [OF assms(1) _ x(1) p two(3,4), of key w]
      gj_last_rows [OF assms(1), of key w] gj_last_rows [OF d, of key w] same
    by (simp add: nemesis_pipeline_def plain_pipeline_def)
  have most: "agg_count (res_result x) \<le> agg_count (res_result r)"
    if "find (\<lambda>x. res_key x = key \<and> res_window x = w) (rev (gj.all_rows ?d)) = Some r" "x \<in> set (gj.all_rows ?d)"
      "res_key x = key" "res_window x = w" for key w r x
    using last_row_has_most [OF gj_settled [OF d]] that unfolding gj.all_rows_def by simp
  show ?thesis
    using run compare_phases_passes [OF last most] processed_before_kill [OF assms(1) x(1) p x(3)]
    by (simp add: empty_nemesis_result_def)
qed

definition sample_stop :: nemesis_config where
  "sample_stop = \<lparr>nc_seed = 7, nc_num_records = 6, nc_num_keys = 2, nc_window_size = 3, nc_max_disorder = 1, nc_checkpoint_interval = 2,
     nc_kill_phase = PhMidCheckpoint, nc_kill_position = Finite (5 / 6)\<rparr>"

lemma sample_stop_fits: "gj_fits (stop_job sample_random sample_stop (nemesis_pipeline sample_stop dir))"
  using sample_random_lawful
  by (simp add: gj_fits_def stop_job_def make_nemesis_gen_config_def generator_ok_def sample_stop_def nemesis_pipeline_def unit_interval_def
      i64_nums sample_random_def newline_def)

lemma sample_kill_at: "kill_at id sample_stop = Some 4"
  by (simp add: kill_at_def sample_stop_def cast_u64_def adjust_kill_def Let_def)

theorem nemesis_passes_witness:
  "\<exists>result. run_nemesis sample_random id 20 \<lparr>pi_manifest = None, pi_checkpoints = (\<lambda>off. WriteOk)\<rparr> (Some 7)
     \<lparr>pi_manifest = None, pi_checkpoints = (\<lambda>off. WriteOk)\<rparr> ''/tmp/n'' sample_stop = Some (Inr result) \<and>
     nr_passed result \<and> nr_missing_results result = 0 \<and> nr_records_before_kill result = 4"
proof -
  let ?io = "\<lparr>pi_manifest = None, pi_checkpoints = (\<lambda>off. WriteOk)\<rparr>"
  have io: "pipeline_io_ok ?io" by (simp add: pipeline_io_ok_def)
  have "3 * unat (nc_num_records sample_stop) < 20" "min 4 (nc_num_records sample_stop) = 4" by (simp_all add: sample_stop_def min_def)
  then show ?thesis
    using nemesis_passes [OF sample_stop_fits _ sample_kill_at io io, of "''/tmp/n''" 20 "Some 7"] by auto
qed

end
