(* ===== verification/Partitioned_Restart.thy ===== *)
theory Partitioned_Restart
  imports Crash_Recovery
begin

text \<open>
  Crash and restart of the partitioned engine (\<open>src/src/engine/partitioned_pipeline.cpp\<close>). The start of \<open>Run\<close>
  checks the manifest, builds the workers and restores them from the highest complete
  checkpoint. While the threads run, the checkpoints of the workers reach the partition directories
  and the tracker prunes old ones; the joint states are those of \<open>disk_reaches\<close>. A process
  killed in any of them, or inside the write of a file, leaves a disk from which a restarted run
  delivers every row the caller's sink has not got yet.
\<close>

section \<open>The start of a run\<close>

definition partitioned_manifest :: "partitioned_config \<Rightarrow> window_assigner \<Rightarrow> 's source \<Rightarrow> manifest" where
  "partitioned_manifest pc a src =
     [(''allowed_lateness_ms'', to_string_int (pc_lateness pc)), (''assigner'', descriptor a),
      (''engine'', ''partitioned''), (''num_workers'', digits_of (unat (effective_workers pc))),
      (''source'', src_descriptor src)]"

record 's run_start =
  rs_workers :: "worker list"
  rs_source :: 's
  rs_manifest :: "string option"
  rs_replayed :: u64
  rs_tracker :: "tracker option"
  rs_last_complete :: "u64 option"

text \<open>The restored workers and source, and the offset.\<close>

definition restore_run ::
    "partitioned_config \<Rightarrow> 's source \<Rightarrow> file_system \<Rightarrow> worker list \<Rightarrow> 's \<Rightarrow> (worker list \<times> 's \<times> u64 option) res" where
  "restore_run pc src fs ws s =
     (if pc_checkpoint_dir pc = [] then Inr (ws, s, None)
      else case highest_complete_checkpoint (pc_checkpoint_dir pc) (unat (effective_workers pc)) fs of
        None \<Rightarrow> Inr (ws, s, None)
      | Some off \<Rightarrow>
          bind_res (restore_workers pc fs off (enumerate 0 ws)) (\<lambda>ws1.
          bind_res (src_seek src off s) (\<lambda>s1. Inr (ws1, s1, Some off))))"

text \<open>
  \<open>Run\<close> up to the start of the threads. \<open>names\<close> is the recursive listing of the checkpoint directory
  the manifest check makes; \<open>io\<close> and \<open>mk\<close> are the failures, if any, of storing the manifest and of
  creating the partition directories.
\<close>

definition start_partitioned ::
    "exn option \<Rightarrow> exn option \<Rightarrow> nat \<Rightarrow> partitioned_config \<Rightarrow> window_assigner \<Rightarrow> 's source \<Rightarrow> string list \<Rightarrow> file_system \<Rightarrow> string option \<Rightarrow> 's \<Rightarrow>
     's run_start res" where
  "start_partitioned io mk retain pc a src names fs mf s =
     (let checkpointing = (pc_checkpoint_dir pc \<noteq> []); n = unat (effective_workers pc) in
      if checkpointing \<and> \<not> src_replayable src then Inl (InvalidArgument ''checkpointing requires a replayable source'')
      else bind_res (if checkpointing
                     then validate_or_create io (pc_checkpoint_dir pc) names (partitioned_manifest pc a src) mf
                     else Inr mf) (\<lambda>mf1.
        bind_res (case mk of Some e \<Rightarrow> if checkpointing then Inl e else Inr () | None \<Rightarrow> Inr ()) (\<lambda>_.
        bind_res (build_workers pc a [0..<n]) (\<lambda>ws.
        bind_res (restore_run pc src fs ws s) (\<lambda>(ws1, s1, restored).
          Inr \<lparr>rs_workers = ws1, rs_source = s1, rs_manifest = mf1,
               rs_replayed = (case restored of None \<Rightarrow> 0 | Some off \<Rightarrow> off),
               rs_tracker = (if checkpointing then Some (new_tracker n retain restored) else None),
               rs_last_complete = restored\<rparr>)))))"

section \<open>Checkpoints on disk\<close>

definition prune_all :: "partitioned_config \<Rightarrow> u64 \<Rightarrow> file_system \<Rightarrow> file_system" where
  "prune_all pc cutoff fs =
     fold (\<lambda>k fs. fs(partition_checkpoint_dir (pc_checkpoint_dir pc) k :=
         prune_below cutoff (fs (partition_checkpoint_dir (pc_checkpoint_dir pc) k))))
       [0..<unat (effective_workers pc)] fs"

text \<open>The listener of worker \<open>i\<close>: the tracker notes the report and prunes.\<close>

definition checkpoint_listener ::
    "partitioned_config \<Rightarrow> nat \<Rightarrow> u64 \<Rightarrow> file_system \<times> tracker \<times> u64 option \<Rightarrow> file_system \<times> tracker \<times> u64 option" where
  "checkpoint_listener pc i off d =
     (case d of (fs, t, newest) \<Rightarrow>
        (case on_partition_checkpoint i off t of
           Inl e \<Rightarrow> d
         | Inr (t1, cutoff) \<Rightarrow>
             (case cutoff of None \<Rightarrow> fs | Some c \<Rightarrow> prune_all pc c fs, t1,
              case last_complete t1 of None \<Rightarrow> newest | Some c \<Rightarrow> Some c)))"

definition apply_effect ::
    "partitioned_config \<Rightarrow> nat \<Rightarrow> effect \<Rightarrow> file_system \<times> tracker \<times> u64 option \<Rightarrow> file_system \<times> tracker \<times> u64 option" where
  "apply_effect pc i e d =
     (case e of
        WriteCheckpoint off wm st \<Rightarrow>
          (let dir = partition_checkpoint_dir (pc_checkpoint_dir pc) i
           in ((fst d)(dir := snd (write_checkpoint WriteOk True off wm st (fst d dir))), snd d))
      | CheckpointListener off \<Rightarrow> checkpoint_listener pc i off d
      | _ \<Rightarrow> d)"

text \<open>The calls a thread step makes beyond the sink: those its worker's processor added.\<close>

definition step_effects :: "thread \<Rightarrow> system \<Rightarrow> system \<Rightarrow> effect list" where
  "step_effects t s s' =
     (case t of RouterT \<Rightarrow> []
      | WorkerT i \<Rightarrow> drop (length (effects (w_proc (sys_workers s ! i)))) (effects (w_proc (sys_workers s' ! i))))"

definition disk_after :: "partitioned_config \<Rightarrow> thread \<Rightarrow> effect list \<Rightarrow> file_system \<times> tracker \<times> u64 option \<Rightarrow> file_system \<times> tracker \<times> u64 option" where
  "disk_after pc t es d = (case t of RouterT \<Rightarrow> d | WorkerT i \<Rightarrow> fold (apply_effect pc i) es d)"

inductive disk_reaches ::
    "partitioned_config \<Rightarrow> system \<Rightarrow> file_system \<times> tracker \<times> u64 option \<Rightarrow> system \<Rightarrow> file_system \<times> tracker \<times> u64 option \<Rightarrow> bool"
  for pc :: partitioned_config and s0 :: system and d0 :: "file_system \<times> tracker \<times> u64 option" where
  disk_start: "disk_reaches pc s0 d0 s0 d0"
| disk_step: "disk_reaches pc s0 d0 s d \<Longrightarrow> thread_step t s = Some s' \<Longrightarrow>
    disk_reaches pc s0 d0 s' (disk_after pc t (step_effects t s s') d)"

section \<open>A killed process\<close>

text \<open>
  The signal finds every worker inside the step it was in, after some of the step's calls:
  those made, those to come, the rows its forwarding sink holds back; and the caller's sink and the
  disk.
\<close>

definition next_calls :: "system \<Rightarrow> nat \<Rightarrow> effect list" where
  "next_calls s i = (case thread_step (WorkerT i) s of None \<Rightarrow> [] | Some s' \<Rightarrow> step_effects (WorkerT i) s s')"

definition worker_effects :: "system \<Rightarrow> nat \<Rightarrow> effect list" where
  "worker_effects s j = (if j < length (sys_workers s) then effects (w_proc (sys_workers s ! j)) else [])"

record kill_point =
  kp_calls :: "nat \<Rightarrow> effect list"
  kp_next :: "nat \<Rightarrow> effect list"
  kp_pending :: "nat \<Rightarrow> window_result list"
  kp_sink :: "effect list"
  kp_disk :: "file_system \<times> tracker \<times> u64 option"

definition step_start :: "system \<Rightarrow> file_system \<times> tracker \<times> u64 option \<Rightarrow> kill_point" where
  "step_start s d =
     \<lparr>kp_calls = worker_effects s, kp_next = next_calls s, kp_pending = (\<lambda>i. w_pending (sys_workers s ! i)),
      kp_sink = sys_sink s, kp_disk = d\<rparr>"

definition make_call :: "partitioned_config \<Rightarrow> nat \<Rightarrow> effect \<Rightarrow> effect list \<Rightarrow> kill_point \<Rightarrow> kill_point" where
  "make_call pc i e rest k =
     (case forward e (kp_pending k i, kp_sink k) of
        (pending, sink) \<Rightarrow>
          \<lparr>kp_calls = (kp_calls k)(i := kp_calls k i @ [e]), kp_next = (kp_next k)(i := rest),
           kp_pending = (kp_pending k)(i := pending), kp_sink = sink, kp_disk = apply_effect pc i e (kp_disk k)\<rparr>)"

text \<open>
  A worker stopped inside a call: some rows of a flush or a drain are out, a checkpoint file is
  partly written, or some of the files to prune are gone.
\<close>

inductive kill_reaches :: "partitioned_config \<Rightarrow> system \<Rightarrow> file_system \<times> tracker \<times> u64 option \<Rightarrow> kill_point \<Rightarrow> bool"
  for pc :: partitioned_config and s :: system and d :: "file_system \<times> tracker \<times> u64 option" where
  kill_start: "kill_reaches pc s d (step_start s d)"
| kill_call: "kill_reaches pc s d k \<Longrightarrow> i < length (sys_workers s) \<Longrightarrow> kp_next k i = e # rest \<Longrightarrow>
    kill_reaches pc s d (make_call pc i e rest k)"
| kill_in_flush: "kill_reaches pc s d k \<Longrightarrow> i < length (sys_workers s) \<Longrightarrow>
    kill_reaches pc s d (k\<lparr>kp_next := (kp_next k)(i := []), kp_sink := kp_sink k @ map Emit (take n (kp_pending k i))\<rparr>)"
| kill_in_write: "kill_reaches pc s d k \<Longrightarrow> i < length (sys_workers s) \<Longrightarrow>
    kp_next k i = WriteCheckpoint off wm st # rest \<Longrightarrow> kp_disk k = (fs, td) \<Longrightarrow>
    dir = partition_checkpoint_dir (pc_checkpoint_dir pc) i \<Longrightarrow> files \<in> set (crash_states off wm st (fs dir)) \<Longrightarrow>
    kill_reaches pc s d (k\<lparr>kp_calls := (kp_calls k)(i := kp_calls k i @ [WriteCheckpoint off wm st]), kp_next := (kp_next k)(i := []),
      kp_disk := (fs(dir := files), td)\<rparr>)"
| kill_in_prune: "kill_reaches pc s d k \<Longrightarrow> i < length (sys_workers s) \<Longrightarrow>
    kp_next k i = CheckpointListener off # rest \<Longrightarrow> kp_disk k = (fs, t, c) \<Longrightarrow>
    on_partition_checkpoint i off t = Inr (t1, Some cutoff) \<Longrightarrow>
    kill_reaches pc s d (k\<lparr>kp_next := (kp_next k)(i := []),
      kp_disk := (\<lambda>dir. filter (\<lambda>e. \<not> prunable cutoff (fst e) \<or> keep dir (fst e)) (fs dir), t1, c)\<rparr>)"

section \<open>Progress of a running job\<close>

definition add_counters :: "processor_stats \<times> timestamp \<Rightarrow> job_progress \<Rightarrow> job_progress" where
  "add_counters c p =
     p\<lparr>jp_counters := (jp_counters p)\<lparr>
         records_processed := records_processed (jp_counters p) + records_processed (fst c),
         windows_fired := windows_fired (jp_counters p) + windows_fired (fst c),
         windows_refired := windows_refired (jp_counters p) + windows_refired (fst c),
         late_records_accepted := late_records_accepted (jp_counters p) + late_records_accepted (fst c),
         late_records_dropped := late_records_dropped (jp_counters p) + late_records_dropped (fst c),
         checkpoints_written := checkpoints_written (jp_counters p) + checkpoints_written (fst c)\<rparr>,
       jp_output_watermark := min (jp_output_watermark p) (snd c)\<rparr>"

definition pp_progress :: "system \<Rightarrow> u64 option \<Rightarrow> job_progress" where
  "pp_progress s newest =
     (fold (\<lambda>w. add_counters (w_counters w)) (sys_workers s)
       \<lparr>jp_counters = zero_stats, jp_last_complete = None, jp_output_watermark = i64_max\<rparr>)\<lparr>jp_last_complete := newest\<rparr>"

section \<open>The checkpoints a processor writes\<close>

lemma fire_writes:
  "WriteCheckpoint off wm st \<in> set (effects (fire_first w p)) \<longleftrightarrow> WriteCheckpoint off wm st \<in> set (effects p)"
  "WriteCheckpoint off wm st \<in> set (effects (fire_again w p)) \<longleftrightarrow> WriteCheckpoint off wm st \<in> set (effects p)"
  by (auto simp: fire_first_def fire_again_def fire_and_emit_def Let_def split_def)

lemma watermark_writes:
  "WriteCheckpoint off wm st \<in> set (effects (process_watermark cfg v p)) \<longleftrightarrow> WriteCheckpoint off wm st \<in> set (effects p)"
  by (simp add: process_watermark_def wm_advance_def Let_def refire_all_def collect_garbage_def
      fold_same [of "\<lambda>p. WriteCheckpoint off wm st \<in> set (effects p)" fire_first, OF fire_writes(1)]
      fold_same [of "\<lambda>p. WriteCheckpoint off wm st \<in> set (effects p)" fire_again, OF fire_writes(2)])

lemma flush_writes:
  "WriteCheckpoint off wm st \<in> set (effects (final_flush cfg p)) \<longleftrightarrow> WriteCheckpoint off wm st \<in> set (effects p)"
proof -
  have g: "WriteCheckpoint off wm st \<in> set (effects (if \<not> is_fired (state q) w then fire_first w q else q)) \<longleftrightarrow>
      WriteCheckpoint off wm st \<in> set (effects q)" for w q by (simp add: fire_writes)
  show ?thesis
    by (simp add: final_flush_def Let_def refire_all_def
        fold_same [of "\<lambda>p. WriteCheckpoint off wm st \<in> set (effects p)" fire_first, OF fire_writes(1)]
        fold_same [of "\<lambda>p. WriteCheckpoint off wm st \<in> set (effects p)" fire_again, OF fire_writes(2)]
        fold_same [of "\<lambda>p. WriteCheckpoint off wm st \<in> set (effects p)", OF g])
qed

text \<open>Where a checkpoint stands in the calls: its barrier, the state before it, the flush before it.\<close>

lemma run_writes:
  assumes "run_items cfg its p0 = Inr p" "effects p0 = []" "effects p = A @ WriteCheckpoint off wm st # B"
    and inv: "processor_inv cfg p0" and law: "lawful_assigner (assigner cfg) width"
  shows "\<exists>xs b ys q. its = xs @ Control b # ys \<and> ctype b = KCheckpointBarrier \<and> checkpoint_offset b = off \<and>
    run_items cfg xs p0 = Inr q \<and> wm = watermark q \<and> st = state q \<and> A = effects q @ [Flush]"
  using assms(1,3)
proof (induction its arbitrary: p B rule: rev_induct)
  case (snoc it its)
  obtain q where q: "run_items cfg its p0 = Inr q" "process_item cfg it q = Inr p"
    using snoc.prems(1) by (auto simp: run_items_append)
  obtain es where es: "effects p = effects q @ es" using item_extends [OF q(2)] by blast
  show ?case
  proof (cases "length A < length (effects q)")
    case True
    then obtain C where "effects q = A @ WriteCheckpoint off wm st # C"
      using snoc.prems(2) es by (metis append_eq_append_conv_if append_eq_conv_conj drop_eq_Nil2 id_take_nth_drop linorder_not_less
          nth_append nth_append_length)
    then show ?thesis using snoc.IH [OF q(1)] by fastforce
  next
    case False
    then obtain D where D: "A = effects q @ D" "es = D @ WriteCheckpoint off wm st # B"
      using snoc.prems(2) es by (auto simp: append_eq_append_conv2)
    then have new: "WriteCheckpoint off wm st \<in> set es" by simp
    have inv_q: "processor_inv cfg q" using run_items_refines [OF q(1) inv law] by blast
    show ?thesis
    proof (cases it)
      case (Data r)
      then have "effects p = effects q"
        using process_record_refines(3) [OF _ inv_q law] q(2) by (auto simp: process_item_def)
      then show ?thesis using es new by simp
    next
      case (Control c)
      show ?thesis
      proof (cases "ctype c")
        case KWatermark
        then have p: "p = process_watermark cfg (cwatermark c) q"
          using q(2) Control by (simp add: process_item_def process_control_def)
        let ?q = "q\<lparr>effects := []\<rparr>"
        have "p = with_history (effects q) zero_stats (process_watermark cfg (cwatermark c) ?q)"
          using p watermark_with_history [of cfg "cwatermark c" "effects q" zero_stats ?q] history_split [of q] by simp
        then have "es = effects (process_watermark cfg (cwatermark c) ?q)" using es by simp
        then show ?thesis using new by (simp add: watermark_writes)
      next
        case KCheckpointBarrier
        then have "es = [Flush, WriteCheckpoint (checkpoint_offset c) (watermark q) (state q), CheckpointListener (checkpoint_offset c)]"
          using q(2) Control es new by (auto simp: process_item_def process_control_def process_barrier_def Let_def split: if_splits)
        then have "D = [Flush]" "off = checkpoint_offset c" "wm = watermark q" "st = state q"
          using D(2) by (auto simp: Cons_eq_append_conv append_eq_Cons_conv)
        then show ?thesis using q(1) Control KCheckpointBarrier D(1) by blast
      qed
    qed
  qed
qed (use assms(2) in simp)

section \<open>The files of a partition\<close>

text \<open>Every checkpoint file is one the worker wrote.\<close>

definition partition_files :: "effect list \<Rightarrow> directory \<Rightarrow> bool" where
  "partition_files es d \<longleftrightarrow>
     (\<forall>n bs. map_of d n = Some bs \<longrightarrow> is_ckpt n \<longrightarrow>
        (\<exists>off wm st. n = checkpoint_filename off \<and> bs = checkpoint_bytes off wm st \<and> WriteCheckpoint off wm st \<in> set es))"

lemma partition_files_Nil: "partition_files es []"
  by (simp add: partition_files_def)

lemma partition_files_mono: "partition_files es d \<Longrightarrow> set es \<subseteq> set es' \<Longrightarrow> partition_files es' d"
  unfolding partition_files_def by blast

lemma partition_files_renamed:
  assumes "partition_files es d" "WriteCheckpoint off wm st \<in> set es" "\<And>n. is_ckpt n \<Longrightarrow> map_of d' n = map_of d n"
  shows "partition_files es (AList.update (checkpoint_filename off) (checkpoint_bytes off wm st) d')"
  using assms by (fastforce simp: partition_files_def update_conv' split: if_splits)

lemma tmp_lookup:
  assumes "is_ckpt n"
  shows "map_of (AList.update (tmp_filename off) x d) n = map_of d n" "map_of (om_erase (tmp_filename off) d) n = map_of d n"
proof -
  have "n \<noteq> tmp_filename off" using ckpt_not_tmp [OF assms] is_tmp_filename [of off] by auto
  then show "map_of (AList.update (tmp_filename off) x d) n = map_of d n" "map_of (om_erase (tmp_filename off) d) n = map_of d n"
    by (simp_all add: update_conv' store_simps)
qed

lemma partition_files_written:
  assumes "partition_files es d" "WriteCheckpoint off wm st \<in> set es"
  shows "partition_files es (snd (write_checkpoint WriteOk True off wm st d))"
  using partition_files_renamed [OF assms] by (simp add: write_checkpoint_def Let_def tmp_lookup)

lemma partition_files_filter:
  assumes "partition_files es d"
  shows "partition_files es (filter (\<lambda>e. P (fst e)) d)"
proof -
  have "map_of (filter (\<lambda>e. P (fst e)) d) n = (if P n then map_of d n else None)" for n
    by (induction d) auto
  then show ?thesis using assms by (auto simp: partition_files_def split: if_splits)
qed

lemma partition_files_pruned: "partition_files es d \<Longrightarrow> partition_files es (prune_below cutoff d)"
  unfolding prune_below_def by (rule partition_files_filter)

lemma partition_files_crash:
  assumes "partition_files es d" "files \<in> set (crash_states off wm st d)"
  shows "partition_files (es @ [WriteCheckpoint off wm st]) files"
proof -
  have mono: "partition_files (es @ [WriteCheckpoint off wm st]) d" by (rule partition_files_mono [OF assms(1)]) auto
  have tmp: "partition_files (es @ [WriteCheckpoint off wm st]) (AList.update (tmp_filename off) x d)" for x
    using mono by (auto simp: partition_files_def tmp_lookup)
  have gone: "partition_files (es @ [WriteCheckpoint off wm st]) (om_erase (tmp_filename off) d)"
    using mono by (auto simp: partition_files_def tmp_lookup)
  have "partition_files (es @ [WriteCheckpoint off wm st])
      (AList.update (checkpoint_filename off) (checkpoint_bytes off wm st) (om_erase (tmp_filename off) d))"
    by (rule partition_files_renamed [OF mono]) (simp_all add: tmp_lookup)
  then show ?thesis using assms(2) mono tmp gone by (auto simp: crash_states_def Let_def simp del: upt_Suc)
qed

lemma partition_files_load:
  assumes "partition_files es d" "load_offset off d = Some c"
    and "\<And>off wm st. WriteCheckpoint off wm st \<in> set es \<Longrightarrow> encodable wm st"
  shows "\<exists>wm st. WriteCheckpoint off wm st \<in> set es \<and> c = file_state off wm st"
proof -
  obtain n where n: "is_ckpt n" "load_file d n = Some c" "cd_offset c = off"
    using assms(2) unfolding load_offset_def
    by (auto dest!: first_some_SomeD simp: ckpt_files_def split: option.splits if_splits)
  then obtain bs where "map_of d n = Some bs" by (auto simp: load_file_def split: option.splits)
  then obtain off' wm st where w: "map_of d n = Some (checkpoint_bytes off' wm st)" "WriteCheckpoint off' wm st \<in> set es"
    using assms(1) n(1) unfolding partition_files_def by blast
  then have "c = file_state off' wm st" using load_file_written [OF assms(3)] n(2) by simp
  then show ?thesis using w(2) n(3) by (auto simp: file_state_def)
qed

section \<open>Joint states\<close>

lemma digits_of_inject: "digits_of a = digits_of b \<longleftrightarrow> a = b"
proof
  have "n < 10 ^ n" for n :: nat by (induction n) simp_all
  then have "a < 10 ^ Suc (max a b)" "b < 10 ^ Suc (max a b)"
    by (meson le_SucI less_le_trans max.cobounded1 max.cobounded2 power_increasing one_le_numeral)+
  moreover assume "digits_of a = digits_of b"
  then have "pad_decimal (Suc (max a b)) a = pad_decimal (Suc (max a b)) b" by (simp add: pad_decimal_def)
  ultimately show "a = b" using pad_decimal_inject [of a "Suc (max a b)" b] by blast
qed simp

lemma partition_dir_inject: "partition_checkpoint_dir r i = partition_checkpoint_dir r j \<longleftrightarrow> i = j"
  using digits_of_inject by (auto simp: partition_checkpoint_dir_def)

lemma disk_reaches_reaches: "disk_reaches pc s0 d0 s d \<Longrightarrow> reaches s0 s"
  by (induction rule: disk_reaches.induct) (auto intro: reaches.intros)

lemma reaches_disk_reaches: "reaches s0 s \<Longrightarrow> \<exists>d. disk_reaches pc s0 d0 s d"
  by (induction rule: reaches.induct) (blast intro: disk_reaches.intros)+

lemma fail_worker: "j < length (sys_workers s) \<Longrightarrow> w_proc (sys_workers (fail e s) ! j) = w_proc (sys_workers s ! j)"
  by (simp add: fail_def)

lemma message_extends: "process_message cfg m p = Inr p' \<Longrightarrow> \<exists>es. effects p' = effects p @ es"
  using message_item [of m cfg p] item_extends process_message_stop [of m cfg p] by (cases "is_stop m") auto

lemma messages_extend: "fold_res (process_message cfg) ms p = Inr p' \<Longrightarrow> \<exists>es. effects p' = effects p @ es"
proof (induction ms arbitrary: p)
  case (Cons m ms)
  then obtain q where q: "process_message cfg m p = Inr q" "fold_res (process_message cfg) ms q = Inr p'" by auto
  then show ?case using Cons.IH [OF q(2)] message_extends [OF q(1)] by auto
qed simp

lemma nth_update: "xs[p := x] ! j = (if p = j \<and> j < length xs then x else xs ! j)"
  by (cases "p = j"; cases "j < length xs") (simp_all add: list_update_beyond)

lemma length_thread_step: "thread_step t s = Some s' \<Longrightarrow> length (sys_workers s') = length (sys_workers s)"
proof (cases t)
  case RouterT
  moreover assume "thread_step t s = Some s'"
  ultimately have "router_step s = Some s'" by (simp add: thread_step_def)
  then show ?thesis by (cases rule: router_step_cases) (simp_all add: set_worker_def fail_def)
next
  case (WorkerT i)
  moreover assume "thread_step t s = Some s'"
  ultimately have "worker_step i s = Some s'" by (simp add: thread_step_def split: if_splits)
  then show ?thesis
    by (cases rule: worker_step_cases) (simp_all add: set_worker_def fail_def forward_new_def Let_def split_def)
qed

text \<open>A step only appends calls, and only to the processor of its own worker.\<close>

lemma thread_step_effects:
  assumes "thread_step t s = Some s'" "j < length (sys_workers s)"
  shows "length (sys_workers s') = length (sys_workers s)"
    "\<exists>es. effects (w_proc (sys_workers s' ! j)) = effects (w_proc (sys_workers s ! j)) @ es \<and> (t \<noteq> WorkerT j \<longrightarrow> es = [])"
proof -
  have "length (sys_workers s') = length (sys_workers s) \<and>
    (\<exists>es. effects (w_proc (sys_workers s' ! j)) = effects (w_proc (sys_workers s ! j)) @ es \<and> (t \<noteq> WorkerT j \<longrightarrow> es = []))"
  proof (cases t)
    case RouterT
    then have "router_step s = Some s'" using assms(1) by (simp add: thread_step_def)
    then have "length (sys_workers s') = length (sys_workers s) \<and> w_proc (sys_workers s' ! j) = w_proc (sys_workers s ! j)"
      using assms(2) by (cases rule: router_step_cases) (auto simp: set_worker_def fail_def nth_update)
    then show ?thesis by simp
  next
    case (WorkerT i)
    then have i: "i < length (sys_workers s)" "worker_step i s = Some s'"
      using assms(1) by (auto simp: thread_step_def split: if_splits)
    obtain xs where fl: "effects (flushed_processor (sys_workers s ! i)) = effects (w_proc (sys_workers s ! i)) @ xs"
      using flushed_extends [of "sys_workers s ! i"] by auto
    show ?thesis
      using i(2)
    proof (cases rule: worker_step_cases)
      case (throw m ms e)
      then show ?thesis
        using WorkerT i(1) assms(2)
        by (auto simp: forward_new_def set_worker_def fail_def thrown_processor_def Let_def split_def nth_list_update)
    next
      case (handle m ms p)
      obtain es where "effects p = effects (w_proc (sys_workers s ! i)) @ es" using message_extends [OF handle(4)] by blast
      then show ?thesis
        using handle(5) WorkerT i(1) assms(2) by (auto simp: forward_new_def set_worker_def Let_def split_def nth_list_update)
    next
      case (flush s1)
      then show ?thesis
        using WorkerT i(1) assms(2) fl
        by (auto simp: forward_new_def set_worker_def Let_def split_def nth_list_update publish_def)
    qed (use WorkerT i(1) assms(2) in \<open>auto simp: set_worker_def fail_def nth_list_update drained_def publish_def\<close>)
  qed
  then show "length (sys_workers s') = length (sys_workers s)"
    "\<exists>es. effects (w_proc (sys_workers s' ! j)) = effects (w_proc (sys_workers s ! j)) @ es \<and> (t \<noteq> WorkerT j \<longrightarrow> es = [])"
    by blast+
qed

lemma prune_all_files:
  assumes "\<forall>j. partition_files (E j) (fs (partition_checkpoint_dir (pc_checkpoint_dir pc) j))"
  shows "\<forall>j. partition_files (E j) (prune_all pc cutoff fs (partition_checkpoint_dir (pc_checkpoint_dir pc) j))"
proof -
  let ?f = "\<lambda>k fs. fs(partition_checkpoint_dir (pc_checkpoint_dir pc) k := prune_below cutoff (fs (partition_checkpoint_dir (pc_checkpoint_dir pc) k)))"
  have "\<forall>j. partition_files (E j) (fold ?f ks fs (partition_checkpoint_dir (pc_checkpoint_dir pc) j))" for ks
    using assms
  proof (induction ks arbitrary: fs)
    case (Cons k ks)
    have "\<forall>j. partition_files (E j) (?f k fs (partition_checkpoint_dir (pc_checkpoint_dir pc) j))"
      using Cons.prems partition_files_pruned by (auto simp: partition_dir_inject)
    from Cons.IH [OF this] show ?case by simp
  qed simp
  then show ?thesis by (simp add: prune_all_def)
qed

lemma apply_effects_files:
  assumes "\<forall>j. partition_files (E j) (fst d (partition_checkpoint_dir (pc_checkpoint_dir pc) j))"
    and "\<And>off wm st. WriteCheckpoint off wm st \<in> set es \<Longrightarrow> WriteCheckpoint off wm st \<in> set (E i)"
  shows "\<forall>j. partition_files (E j) (fst (fold (apply_effect pc i) es d) (partition_checkpoint_dir (pc_checkpoint_dir pc) j))"
  using assms
proof (induction es arbitrary: d)
  case (Cons e es)
  have "\<forall>j. partition_files (E j) (fst (apply_effect pc i e d) (partition_checkpoint_dir (pc_checkpoint_dir pc) j))"
  proof (cases e)
    case (WriteCheckpoint off wm st)
    then show ?thesis
      using Cons.prems partition_files_written by (auto simp: apply_effect_def Let_def partition_dir_inject)
  next
    case (CheckpointListener off)
    then show ?thesis
      using Cons.prems(1) prune_all_files
      by (auto simp: apply_effect_def checkpoint_listener_def split: prod.splits sum.splits option.splits)
  qed (use Cons.prems in \<open>simp_all add: apply_effect_def\<close>)
  then show ?case using Cons.IH Cons.prems(2) by simp
qed simp

lemma disk_files:
  assumes "disk_reaches pc s0 ((\<lambda>_. []), t0, c0) s d"
  shows "\<forall>j. partition_files (worker_effects s j) (fst d (partition_checkpoint_dir (pc_checkpoint_dir pc) j))"
  using assms
proof (induction rule: disk_reaches.induct)
  case (disk_step s d t s')
  have grow: "\<exists>es. worker_effects s' j = worker_effects s j @ es \<and> (t \<noteq> WorkerT j \<longrightarrow> es = [])" for j
  proof (cases "j < length (sys_workers s)")
    case True
    then show ?thesis using thread_step_effects [OF disk_step.hyps(2) True] by (simp add: worker_effects_def)
  next
    case False
    moreover have "length (sys_workers s') = length (sys_workers s)"
      using length_thread_step disk_step.hyps(2) by blast
    ultimately show ?thesis by (simp add: worker_effects_def)
  qed
  then have "set (worker_effects s j) \<subseteq> set (worker_effects s' j)" for j by (metis set_append sup_ge1)
  then have files: "\<forall>j. partition_files (worker_effects s' j) (fst d (partition_checkpoint_dir (pc_checkpoint_dir pc) j))"
    using disk_step.IH partition_files_mono by blast
  show ?case
  proof (cases t)
    case (WorkerT i)
    then have "i < length (sys_workers s)" using disk_step.hyps(2) by (auto simp: thread_step_def split: if_splits)
    then have "set (step_effects t s s') \<subseteq> set (worker_effects s' i)"
      using WorkerT length_thread_step [OF disk_step.hyps(2)] by (auto simp: step_effects_def worker_effects_def dest: in_set_dropD)
    then show ?thesis
      using apply_effects_files [OF files, of "step_effects t s s'" i] WorkerT by (auto simp: disk_after_def)
  qed (use files in \<open>simp add: disk_after_def\<close>)
qed (simp add: partition_files_Nil)

section \<open>The job and its cuts\<close>

definition barrier_offsets :: "batch_item list \<Rightarrow> u64 list" where
  "barrier_offsets its = concat (map (\<lambda>it. case it of
     Control b \<Rightarrow> (if ctype b = KCheckpointBarrier then [checkpoint_offset b] else []) | Data r \<Rightarrow> []) its)"

lemma barrier_offsets_simps [simp]:
  "barrier_offsets [] = []" "barrier_offsets (xs @ ys) = barrier_offsets xs @ barrier_offsets ys"
  "barrier_offsets (Data r # its) = barrier_offsets its"
  "ctype b = KCheckpointBarrier \<Longrightarrow> barrier_offsets (Control b # its) = checkpoint_offset b # barrier_offsets its"
  by (simp_all add: barrier_offsets_def)

lemma barrier_offsets_share: "barrier_offsets (share n i its) = barrier_offsets its"
  by (induction its) (auto simp: share_def barrier_offsets_def goes_to_def split: batch_item.split)

lemma share_simps [simp]:
  "share n i (xs @ ys) = share n i xs @ share n i ys" "share n i (Control b # its) = Control b # share n i its"
  by (simp_all add: share_def goes_to_def)

lemma barrier_split:
  assumes "distinct (barrier_offsets its)" "its = xs @ Control b # ys" "its = xs' @ Control b' # ys'"
    and "ctype b = KCheckpointBarrier" "ctype b' = KCheckpointBarrier" "checkpoint_offset b = checkpoint_offset b'"
  shows "xs = xs' \<and> b = b' \<and> ys = ys'"
  using assms(1-3)
proof (induction xs arbitrary: its xs')
  case Nil
  show ?case
  proof (cases xs')
    case (Cons x zs)
    then have "ys = zs @ Control b' # ys'" using Nil by simp
    then show ?thesis using Nil assms(4-6) by simp
  qed (use Nil in auto)
next
  case (Cons x xs)
  show ?case
  proof (cases xs')
    case Nil
    then have "ys' = xs @ Control b # ys" "x = Control b'" using Cons.prems by auto
    then show ?thesis using Cons.prems Nil assms(4-6) by simp
  next
    case (Cons y zs)
    have d: "distinct (barrier_offsets (xs @ Control b # ys))"
      using Cons.prems(1,2) unfolding barrier_offsets_def by simp
    have e: "xs @ Control b # ys = zs @ Control b' # ys'" and y: "x = y" using Cons.prems(2,3) Cons by simp_all
    show ?thesis using Cons.IH [OF d refl e] y Cons by simp
  qed
qed

text \<open>
  A job whose stream the single-threaded engine processes without an exception, whose checkpoint
  writes succeed, whose barriers have different offsets, and whose states fit a checkpoint.
\<close>

definition partitioned_job ::
    "partitioned_config \<Rightarrow> window_assigner \<Rightarrow> duration \<Rightarrow> batch_item list \<Rightarrow> processor \<Rightarrow> processor \<Rightarrow> bool" where
  "partitioned_job pc a width its p0 p \<longleftrightarrow>
     lawful_assigner a width \<and> new_processor (single_config pc a) = Inr p0 \<and> run_items (single_config pc a) its p0 = Inr p \<and>
     (\<forall>i. writes_ok (worker_config pc a i)) \<and> distinct (barrier_offsets its) \<and>
     (\<forall>i xs ys q. share (effective_workers pc) i its = xs @ ys \<longrightarrow> run_items (worker_config pc a i) xs p0 = Inr q \<longrightarrow>
        encodable (watermark q) (state q))"

text \<open>The processor of worker \<open>i\<close> after its share of the whole stream.\<close>

definition whole_share :: "partitioned_config \<Rightarrow> window_assigner \<Rightarrow> batch_item list \<Rightarrow> processor \<Rightarrow> nat \<Rightarrow> processor" where
  "whole_share pc a its p0 i = projr (run_items (worker_config pc a i) (share (effective_workers pc) i its) p0)"

lemma job_worker:
  assumes "partitioned_job pc a width its p0 p"
  shows "lawful_assigner (assigner (worker_config pc a i)) width" "new_processor (worker_config pc a i) = Inr p0"
    "run_items (worker_config pc a i) (share (effective_workers pc) i its) p0 = Inr (whole_share pc a its p0 i)"
    "effects p0 = []" "processor_inv (worker_config pc a i) p0"
proof -
  have single: "lawful_assigner a width" "new_processor (single_config pc a) = Inr p0" "run_items (single_config pc a) its p0 = Inr p"
      "writes_ok (worker_config pc a i)"
    using assms by (simp_all add: partitioned_job_def)
  show "lawful_assigner (assigner (worker_config pc a i)) width" using single(1) by (simp add: worker_config_def)
  show new: "new_processor (worker_config pc a i) = Inr p0"
    using single(2) new_processor_same [OF same_job_worker] by metis
  have "lawful_assigner (assigner (single_config pc a)) width" using single(1) by (simp add: single_config_def)
  then show "run_items (worker_config pc a i) (share (effective_workers pc) i its) p0 = Inr (whole_share pc a its p0 i)"
    using partition_total [OF single(2) _ same_job_worker single(4,3), of width "effective_workers pc" i] by (auto simp: whole_share_def)
  show "effects p0 = []" by (rule new_no_effects [OF new])
  show "processor_inv (worker_config pc a i) p0" by (rule new_processor_inv(1) [OF new])
qed

text \<open>A checkpoint among the calls of a worker belongs to a barrier of the stream.\<close>

lemma share_checkpoint:
  assumes job: "partitioned_job pc a width its p0 p"
    and pre: "effects (final_flush (worker_config pc a i) (whole_share pc a its p0 i)) = es @ rest"
    and w: "WriteCheckpoint off wm st \<in> set es"
  shows "\<exists>xs b ys q zs. share (effective_workers pc) i its = xs @ Control b # ys \<and> ctype b = KCheckpointBarrier \<and> checkpoint_offset b = off \<and>
    run_items (worker_config pc a i) xs p0 = Inr q \<and> wm = watermark q \<and> st = state q \<and> es = effects q @ Flush # zs"
proof -
  let ?P = "worker_config pc a i" and ?v = "whole_share pc a its p0 i"
  note J = job_worker [OF job]
  obtain A B where es: "es = A @ WriteCheckpoint off wm st # B" using w by (auto simp: in_set_conv_decomp)
  obtain fs where fs: "effects (final_flush ?P ?v) = effects ?v @ fs" using flush_extends by blast
  have "length A < length (effects ?v)"
  proof (rule ccontr)
    assume "\<not> length A < length (effects ?v)"
    then have "WriteCheckpoint off wm st \<in> set fs"
      using pre es fs by (auto simp: append_eq_append_conv2 append_eq_Cons_conv Cons_eq_append_conv)
    moreover have "effects (final_flush ?P (?v\<lparr>effects := []\<rparr>)) = fs"
      using fs flush_with_history [of ?P "effects ?v" zero_stats "?v\<lparr>effects := []\<rparr>"] history_split [of ?v]
      by (metis same_append_eq with_history_sel(3))
    ultimately show False using flush_writes [of off wm st ?P "?v\<lparr>effects := []\<rparr>"] by simp
  qed
  moreover have "effects ?v @ fs = A @ WriteCheckpoint off wm st # (B @ rest)" using pre es fs by simp
  ultimately obtain C where "effects ?v = A @ WriteCheckpoint off wm st # C"
    by (auto simp: append_eq_append_conv2 append_eq_Cons_conv Cons_eq_append_conv)
  from run_writes [OF J(3,4) this J(5,1)] show ?thesis using es by fastforce
qed

section \<open>What a killed process leaves\<close>

text \<open>
  The calls each worker has made by the kill: they start its calls in a whole run, and their
  checkpoints are the files of its directory.
\<close>

definition calls_left ::
    "partitioned_config \<Rightarrow> window_assigner \<Rightarrow> batch_item list \<Rightarrow> processor \<Rightarrow> (nat \<Rightarrow> effect list) \<Rightarrow> file_system \<Rightarrow> bool" where
  "calls_left pc a its p0 E fs \<longleftrightarrow>
     (\<forall>i < unat (effective_workers pc).
        (\<exists>rest. effects (final_flush (worker_config pc a i) (whole_share pc a its p0 i)) = E i @ rest) \<and>
        partition_files (E i) (fs (partition_checkpoint_dir (pc_checkpoint_dir pc) i)))"

lemma calls_leftD:
  assumes "calls_left pc a its p0 E fs" "i < unat (effective_workers pc)"
  shows "\<exists>rest. effects (final_flush (worker_config pc a i) (whole_share pc a its p0 i)) = E i @ rest"
    "partition_files (E i) (fs (partition_checkpoint_dir (pc_checkpoint_dir pc) i))"
  using assms unfolding calls_left_def by blast+

definition rows_made :: "partitioned_config \<Rightarrow> (nat \<Rightarrow> effect list) \<Rightarrow> window_result set" where
  "rows_made pc E = (\<Union>i < unat (effective_workers pc). set (emitted_rows (E i)))"

text \<open>The rows flushed by these calls are in the caller's sink, which has no others.\<close>

definition sink_left :: "partitioned_config \<Rightarrow> (nat \<Rightarrow> effect list) \<Rightarrow> effect list \<Rightarrow> bool" where
  "sink_left pc E sink \<longleftrightarrow>
     (\<forall>i < unat (effective_workers pc). \<forall>xs ys. E i = xs @ Flush # ys \<longrightarrow> set (emitted_rows xs) \<subseteq> set (emitted_rows sink)) \<and>
     set (emitted_rows sink) \<subseteq> rows_made pc E"

lemma worker_calls:
  assumes job: "partitioned_job pc a width (concat bs) p0 p" and run: "partitioned_run pc a bs EndFinal ws s"
    and i: "i < unat (effective_workers pc)"
  shows "\<exists>rest. effects (final_flush (worker_config pc a i) (whole_share pc a (concat bs) p0 i)) = effects (w_proc (sys_workers s ! i)) @ rest"
proof -
  let ?n = "effective_workers pc" and ?P = "worker_config pc a i" and ?w = "sys_workers s ! i"
  let ?M = "worker_messages ?n bs EndFinal" and ?v = "whole_share pc a (concat bs) p0 i"
  have single: "lawful_assigner a width" "new_processor (single_config pc a) = Inr p0" "run_items (single_config pc a) (concat bs) p0 = Inr p"
      "\<forall>i. writes_ok (worker_config pc a i)"
    using job by (simp_all add: partitioned_job_def)
  note P = partitions_never_fail [OF run single] and S = run_system_inv [OF run]
  have W: "w_cfg (ws ! i) = ?P" "w_cfg ?w = ?P"
    using build_workers_fresh(3) [of pc a "unat ?n" ws i] run i S(3) system_invD(4) [OF S(1), of i]
    by (auto simp: partitioned_run_def)
  obtain v where "run_items ?P (share ?n i (concat bs)) p0 = Inr v"
      "fold_res (process_message (w_cfg (ws ! i))) (?M i) (w_proc (ws ! i)) = Inr v"
    using P(3) [OF i] by blast
  then have v: "fold_res (process_message ?P) (?M i) (w_proc (ws ! i)) = Inr ?v"
    using job_worker(3) [OF job, of i] W(1) by simp
  have inv: "worker_inv i (?M i) (w_proc (ws ! i)) (sys_router s) ?w"
    using system_invD(7) [OF S(1) P(1)] i S(3) by simp
  obtain fs where fs: "effects (final_flush ?P ?v) = effects ?v @ fs" using flush_extends by blast
  have last: "last (?M i) = MEndOfStream" by (simp add: worker_messages_def end_stop_def)
  have rest: "fold_res (process_message ?P) (todo i (sys_router s) ?w) (w_proc ?w) = Inr ?v"
    if live: "consuming i (?M i) (w_proc (ws ! i)) (sys_router s) ?w"
  proof -
    obtain cs where "cs @ todo i (sys_router s) ?w = ?M i" "fold_res (process_message ?P) cs (w_proc (ws ! i)) = Inr (w_proc ?w)"
      using live W(2) unfolding consuming_def by auto
    then show ?thesis using v by (metis bind_res.simps(2) fold_res_append)
  qed
  show "\<exists>rest. effects (final_flush ?P ?v) = effects (w_proc ?w) @ rest"
  proof -
    consider "consuming i (?M i) (w_proc (ws ! i)) (sys_router s) ?w" | "stopping_worker i (?M i) (w_proc (ws ! i)) (sys_router s) ?w"
      | "exited_worker i (?M i) (w_proc (ws ! i)) (sys_router s) ?w"
      using inv unfolding worker_inv_def by blast
    then show ?thesis
    proof cases
      case 1
      then show ?thesis using messages_extend [OF rest] fs by force
    next
      case 2
      then have "w_proc ?w = ?v" using v W(2) by (simp add: stopping_worker_def)
      then show ?thesis using fs by simp
    next
      case 3
      then show ?thesis using v W(2) last by (auto simp: exited_worker_def)
    qed
  qed
qed

lemma emitted_in_workers:
  assumes "sink_inv s"
  shows "set (emitted_rows (sys_sink s)) \<union> (\<Union>w \<in> set (sys_workers s). set (w_pending w)) =
    (\<Union>w \<in> set (sys_workers s). set (emitted_rows (effects (w_proc w))))"
proof -
  have sums: "set_mset (sum_list (map (\<lambda>w. mset (f w)) xs)) = (\<Union>w \<in> set xs. set (f w))" for f :: "worker \<Rightarrow> window_result list" and xs
    by (induction xs) auto
  have "mset (emitted_rows (sys_sink s)) + sum_list (map (\<lambda>w. mset (w_pending w)) (sys_workers s)) =
      sum_list (map (\<lambda>w. mset (emitted_rows (effects (w_proc w)))) (sys_workers s))"
    using assms by (simp add: sink_inv_def)
  from arg_cong [OF this, of set_mset] show ?thesis by (simp add: sums)
qed

text \<open>What holds at every point the signal can hit.\<close>

definition kill_inv :: "partitioned_config \<Rightarrow> window_assigner \<Rightarrow> batch_item list \<Rightarrow> processor \<Rightarrow> kill_point \<Rightarrow> bool" where
  "kill_inv pc a its p0 k \<longleftrightarrow>
     (\<forall>i < unat (effective_workers pc).
        (\<exists>rest. effects (final_flush (worker_config pc a i) (whole_share pc a its p0 i)) = kp_calls k i @ kp_next k i @ rest) \<and>
        delivered (kp_calls k i) (kp_pending k i, kp_sink k) \<and>
        set (kp_pending k i) \<subseteq> rows_made pc (kp_calls k)) \<and>
     (\<forall>i. partition_files (kp_calls k i) (fst (kp_disk k) (partition_checkpoint_dir (pc_checkpoint_dir pc) i))) \<and>
     set (emitted_rows (kp_sink k)) \<subseteq> rows_made pc (kp_calls k)"

lemma kill_inv_left:
  "kill_inv pc a its p0 k \<Longrightarrow> calls_left pc a its p0 (kp_calls k) (fst (kp_disk k)) \<and> sink_left pc (kp_calls k) (kp_sink k)"
  by (auto simp: kill_inv_def calls_left_def sink_left_def delivered_def)

lemma kill_inv_start:
  assumes job: "partitioned_job pc a width (concat bs) p0 p" and ws: "build_workers pc a [0..<unat (effective_workers pc)] = Inr ws"
    and run: "disk_reaches pc (initial_system (router_program (effective_workers pc) bs EndFinal) ws) ((\<lambda>_. []), t0, c0) s d"
  shows "kill_inv pc a (concat bs) p0 (step_start s d)" "length (sys_workers s) = unat (effective_workers pc)"
proof -
  let ?N = "unat (effective_workers pc)"
  have r: "partitioned_run pc a bs EndFinal ws s" using ws disk_reaches_reaches [OF run] by (simp add: partitioned_run_def)
  note S = run_system_inv [OF r]
  show len: "length (sys_workers s) = ?N" using system_invD(1) [OF S(1)] S(3) by simp
  then have E: "worker_effects s i = effects (w_proc (sys_workers s ! i))" if "i < ?N" for i using that by (simp add: worker_effects_def)
  have del: "delivered (worker_effects s i) (w_pending (sys_workers s ! i), sys_sink s)" if "i < ?N" for i
    using S(2) that len E by (simp add: sink_inv_def)
  have img: "set (sys_workers s) = (\<lambda>i. sys_workers s ! i) ` {..<?N}"
    unfolding len [symmetric] by (auto simp: set_conv_nth)
  have all: "set (emitted_rows (sys_sink s)) \<union> (\<Union>i < ?N. set (w_pending (sys_workers s ! i))) = rows_made pc (worker_effects s)"
    using emitted_in_workers [OF S(2)] E unfolding img rows_made_def by simp
  then have pend: "set (w_pending (sys_workers s ! i)) \<subseteq> rows_made pc (worker_effects s)" if "i < ?N" for i using that by blast
  have "\<exists>rest. effects (final_flush (worker_config pc a i) (whole_share pc a (concat bs) p0 i)) = worker_effects s i @ next_calls s i @ rest"
    if i: "i < ?N" for i
  proof (cases "thread_step (WorkerT i) s")
    case None
    then show ?thesis using worker_calls [OF job r i] E [OF i] by (simp add: next_calls_def)
  next
    case (Some s')
    then have r': "partitioned_run pc a bs EndFinal ws s'" using r by (auto simp: partitioned_run_def intro: reaches_step)
    obtain es where es: "effects (w_proc (sys_workers s' ! i)) = effects (w_proc (sys_workers s ! i)) @ es"
      using thread_step_effects(2) [OF Some, of i] i len by auto
    then have "next_calls s i = es" using Some by (simp add: next_calls_def step_effects_def)
    then show ?thesis using worker_calls [OF job r' i] E [OF i] es by simp
  qed
  then show "kill_inv pc a (concat bs) p0 (step_start s d)"
    unfolding kill_inv_def step_start_def kill_point.select_convs
    by (intro conjI allI impI del pend) (use all disk_files [OF run] in blast)+
qed

lemma rows_made_call:
  assumes "i < unat (effective_workers pc)"
  shows "rows_made pc (E(i := E i @ es)) = rows_made pc E \<union> set (emitted_rows es)"
proof -
  have "set (emitted_rows ((E(i := E i @ es)) j)) = set (emitted_rows (E j)) \<union> (if j = i then set (emitted_rows es) else {})" for j
    by simp
  then show ?thesis using assms unfolding rows_made_def by (auto split: if_splits)
qed

lemma kill_invD:
  assumes "kill_inv pc a its p0 k"
  shows "i < unat (effective_workers pc) \<Longrightarrow>
      \<exists>rest. effects (final_flush (worker_config pc a i) (whole_share pc a its p0 i)) = kp_calls k i @ kp_next k i @ rest"
    "i < unat (effective_workers pc) \<Longrightarrow> delivered (kp_calls k i) (kp_pending k i, kp_sink k)"
    "i < unat (effective_workers pc) \<Longrightarrow> set (kp_pending k i) \<subseteq> rows_made pc (kp_calls k)"
    "partition_files (kp_calls k i) (fst (kp_disk k) (partition_checkpoint_dir (pc_checkpoint_dir pc) i))"
    "set (emitted_rows (kp_sink k)) \<subseteq> rows_made pc (kp_calls k)"
  using assms unfolding kill_inv_def by blast+

text \<open>A worker makes calls, the caller's sink grows.\<close>

lemma kill_inv_grows:
  assumes inv: "kill_inv pc a its p0 k" and i: "i < unat (effective_workers pc)"
    and next_calls: "\<exists>rest. kp_next k i = es @ later @ rest"
    and del: "delivered (kp_calls k i @ es) (pending, kp_sink k @ extra)"
    and rows: "set pending \<union> set (emitted_rows extra) \<subseteq> rows_made pc (kp_calls k) \<union> set (emitted_rows es)"
    and files: "\<forall>j. partition_files (((kp_calls k)(i := kp_calls k i @ es)) j) (fst d (partition_checkpoint_dir (pc_checkpoint_dir pc) j))"
    and k': "kp_calls k' = (kp_calls k)(i := kp_calls k i @ es)" "kp_next k' = (kp_next k)(i := later)"
      "kp_pending k' = (kp_pending k)(i := pending)" "kp_sink k' = kp_sink k @ extra" "kp_disk k' = d"
  shows "kill_inv pc a its p0 k'"
proof -
  let ?C = "(kp_calls k)(i := kp_calls k i @ es)"
  note I = kill_invD [OF inv]
  have V: "rows_made pc ?C = rows_made pc (kp_calls k) \<union> set (emitted_rows es)" by (rule rows_made_call [OF i])
  show ?thesis
    unfolding kill_inv_def k'
  proof (intro conjI allI impI)
    fix j assume j: "j < unat (effective_workers pc)"
    show "\<exists>rest. effects (final_flush (worker_config pc a j) (whole_share pc a its p0 j)) = ?C j @ ((kp_next k)(i := later)) j @ rest"
      using I(1) [OF j] next_calls by (cases "j = i") auto
    show "delivered (?C j) (((kp_pending k)(i := pending)) j, kp_sink k @ extra)"
      using del delivered_grows [OF I(2) [OF j]] by (cases "j = i") simp_all
    show "set (((kp_pending k)(i := pending)) j) \<subseteq> rows_made pc ?C"
      using I(3) [OF j] rows V by (cases "j = i") auto
  next
    show "partition_files (?C j) (fst d (partition_checkpoint_dir (pc_checkpoint_dir pc) j))" for j using files by blast
    show "set (emitted_rows (kp_sink k @ extra)) \<subseteq> rows_made pc ?C" using I(5) rows V by auto
  qed
qed

lemma kill_inv_call:
  assumes inv: "kill_inv pc a its p0 k" and i: "i < unat (effective_workers pc)" and e: "kp_next k i = e # rest"
  shows "kill_inv pc a its p0 (make_call pc i e rest k)"
proof -
  let ?C = "(kp_calls k)(i := kp_calls k i @ [e])"
  note I = kill_invD [OF inv]
  obtain pending extra where f: "forward e (kp_pending k i, kp_sink k) = (pending, kp_sink k @ extra)"
    by (cases e) (auto simp: forward_def)
  have "set pending \<union> set (emitted_rows extra) \<subseteq> set (kp_pending k i) \<union> set (emitted_rows [e])"
    using f by (cases e) (auto simp: forward_def)
  then have rows: "set pending \<union> set (emitted_rows extra) \<subseteq> rows_made pc (kp_calls k) \<union> set (emitted_rows [e])"
    using I(3) [OF i] by blast
  have "\<forall>j. partition_files (?C j) (fst (kp_disk k) (partition_checkpoint_dir (pc_checkpoint_dir pc) j))"
    by (intro allI partition_files_mono [OF I(4)]) auto
  then have files: "\<forall>j. partition_files (?C j) (fst (apply_effect pc i e (kp_disk k)) (partition_checkpoint_dir (pc_checkpoint_dir pc) j))"
    using apply_effects_files [of ?C "kp_disk k" pc "[e]" i] by simp
  have "delivered (kp_calls k i @ [e]) (pending, kp_sink k @ extra)" using forward_delivered [OF I(2) [OF i], of e] f by simp
  from kill_inv_grows [OF inv i _ this rows files, of rest] show ?thesis using e by (simp add: make_call_def f)
qed

lemma kill_inv_reaches:
  assumes "kill_reaches pc s d k" "kill_inv pc a its p0 (step_start s d)" "length (sys_workers s) = unat (effective_workers pc)"
  shows "kill_inv pc a its p0 k"
  using assms
proof (induction rule: kill_reaches.induct)
  case (kill_call k i e rest)
  then show ?case using kill_inv_call by simp
next
  case (kill_in_flush k i n)
  then have inv: "kill_inv pc a its p0 k" and i: "i < unat (effective_workers pc)" by simp_all
  note I = kill_invD [OF inv]
  have del: "delivered (kp_calls k i @ []) (kp_pending k i, kp_sink k @ map Emit (take n (kp_pending k i)))"
    using delivered_grows [OF I(2) [OF i]] by simp
  have rows: "set (kp_pending k i) \<union> set (emitted_rows (map Emit (take n (kp_pending k i)))) \<subseteq> rows_made pc (kp_calls k) \<union> set (emitted_rows [])"
    using I(3) [OF i] set_take_subset [of n "kp_pending k i"] by auto
  show ?case by (rule kill_inv_grows [OF inv i _ del rows, of "[]" "kp_disk k"]) (simp_all add: I(4))
next
  case (kill_in_write k i off wm st rest fs td dir files)
  then have inv: "kill_inv pc a its p0 k" and i: "i < unat (effective_workers pc)" by simp_all
  note I = kill_invD [OF inv]
  have del: "delivered (kp_calls k i @ [WriteCheckpoint off wm st]) (kp_pending k i, kp_sink k @ [])"
    using forward_delivered [OF I(2) [OF i], of "WriteCheckpoint off wm st"] by (simp add: forward_def)
  have rows: "set (kp_pending k i) \<union> set (emitted_rows []) \<subseteq> rows_made pc (kp_calls k) \<union> set (emitted_rows [WriteCheckpoint off wm st])"
    using I(3) [OF i] by simp
  have "partition_files (kp_calls k i @ [WriteCheckpoint off wm st]) files"
    using partition_files_crash [OF I(4) [of i]] kill_in_write.hyps(4-6) by simp
  then have "\<forall>j. partition_files (((kp_calls k)(i := kp_calls k i @ [WriteCheckpoint off wm st])) j)
      (fst (fs(dir := files), td) (partition_checkpoint_dir (pc_checkpoint_dir pc) j))"
    using I(4) kill_in_write.hyps(4,5) by (auto simp: partition_dir_inject)
  from kill_inv_grows [OF inv i _ del rows this, of "[]"] show ?case using kill_in_write.hyps(3) by simp
next
  case (kill_in_prune k i off rest fs t c t1 cutoff keep)
  then have inv: "kill_inv pc a its p0 k" and i: "i < unat (effective_workers pc)" by simp_all
  note I = kill_invD [OF inv]
  have files: "\<forall>j. partition_files (((kp_calls k)(i := kp_calls k i @ [])) j)
      (fst (\<lambda>dir. filter (\<lambda>e. \<not> prunable cutoff (fst e) \<or> keep dir (fst e)) (fs dir), t1, c) (partition_checkpoint_dir (pc_checkpoint_dir pc) j))"
    using partition_files_filter [OF I(4), where P = "\<lambda>n. \<not> prunable cutoff n \<or> keep (partition_checkpoint_dir (pc_checkpoint_dir pc) j) n" for j]
      kill_in_prune.hyps(4) by simp
  show ?case
    by (rule kill_inv_grows [OF inv i _ _ _ files, of "[]" "kp_pending k i" "[]"]) (use I(2,3) [OF i] in simp_all)
qed simp

section \<open>The restored cut\<close>

lemma left_encodable:
  assumes job: "partitioned_job pc a width its p0 p" and left: "calls_left pc a its p0 E fs" and i: "i < unat (effective_workers pc)"
    and w: "WriteCheckpoint off wm st \<in> set (E i)"
  shows "encodable wm st"
proof -
  obtain rest where "effects (final_flush (worker_config pc a i) (whole_share pc a its p0 i)) = E i @ rest" using calls_leftD(1) [OF left i] by blast
  from share_checkpoint [OF job this w] obtain xs b ys q where "share (effective_workers pc) i its = xs @ Control b # ys"
      "run_items (worker_config pc a i) xs p0 = Inr q" "wm = watermark q" "st = state q"
    by blast
  then show ?thesis using job unfolding partitioned_job_def by blast
qed

text \<open>The highest complete checkpoint is one barrier of the stream, and each file its worker's state there.\<close>

lemma restored_cut:
  assumes job: "partitioned_job pc a width its p0 p" and left: "calls_left pc a its p0 E fs"
    and off: "highest_complete_checkpoint (pc_checkpoint_dir pc) (unat (effective_workers pc)) fs = Some off"
  shows "\<exists>xs b ys. its = xs @ Control b # ys \<and> ctype b = KCheckpointBarrier \<and> checkpoint_offset b = off \<and>
    (\<forall>i < unat (effective_workers pc). \<exists>q zs. run_items (worker_config pc a i) (share (effective_workers pc) i xs) p0 = Inr q \<and>
       load_offset off (fs (partition_checkpoint_dir (pc_checkpoint_dir pc) i)) = Some (capture off q) \<and> E i = effects q @ Flush # zs)"
proof -
  let ?n = "effective_workers pc" and ?d = "partition_checkpoint_dir (pc_checkpoint_dir pc)"
  have N: "0 < unat ?n" using effective_workers_pos [of pc] by (simp add: unat_gt_0)
  have fin: "finite (complete_offsets (pc_checkpoint_dir pc) (unat ?n) fs)"
    by (rule finite_subset [of _ "set (partition_offsets (pc_checkpoint_dir pc) fs 0)"]) (use N in \<open>auto simp: complete_offsets_def\<close>)
  have mem: "off \<in> complete_offsets (pc_checkpoint_dir pc) (unat ?n) fs"
  proof (cases "complete_offsets (pc_checkpoint_dir pc) (unat ?n) fs = {}")
    case False
    then show ?thesis using off Max_in [OF fin False] by (simp add: highest_complete_Max [OF N])
  qed (use off in \<open>simp add: highest_complete_Max [OF N]\<close>)
  have part: "\<exists>xs b ys q zs. share ?n i its = xs @ Control b # ys \<and> ctype b = KCheckpointBarrier \<and> checkpoint_offset b = off \<and>
      run_items (worker_config pc a i) xs p0 = Inr q \<and> load_offset off (fs (?d i)) = Some (capture off q) \<and> E i = effects q @ Flush # zs"
    if i: "i < unat ?n" for i
  proof -
    note L = calls_leftD [OF left i]
    obtain rest where rest: "effects (final_flush (worker_config pc a i) (whole_share pc a its p0 i)) = E i @ rest" using L(1) by blast
    have "off \<in> set (valid_offsets (fs (?d i)))" using mem i by (simp add: complete_offsets_def partition_offsets_def)
    then obtain c where c: "load_offset off (fs (?d i)) = Some c" using load_offset_valid by blast
    obtain wm st where w: "WriteCheckpoint off wm st \<in> set (E i)" "c = file_state off wm st"
      using partition_files_load [OF L(2) c] left_encodable [OF job left i] by blast
    then show ?thesis using share_checkpoint [OF job rest w(1)] c file_state_capture by metis
  qed
  obtain xs0 b0 ys0 where b0: "share ?n 0 its = xs0 @ Control b0 # ys0" "ctype b0 = KCheckpointBarrier" "checkpoint_offset b0 = off"
    using part [OF N] by blast
  then have "Control b0 \<in> set (share ?n 0 its)" by simp
  then have "Control b0 \<in> set its" by (simp add: share_def)
  then obtain xs ys where its: "its = xs @ Control b0 # ys" by (auto simp: in_set_conv_decomp)
  have "\<exists>q zs. run_items (worker_config pc a i) (share ?n i xs) p0 = Inr q \<and>
      load_offset off (fs (?d i)) = Some (capture off q) \<and> E i = effects q @ Flush # zs" if i: "i < unat ?n" for i
  proof -
    obtain xs1 b1 ys1 q zs where 1: "share ?n i its = xs1 @ Control b1 # ys1" "ctype b1 = KCheckpointBarrier" "checkpoint_offset b1 = off"
        "run_items (worker_config pc a i) xs1 p0 = Inr q" "load_offset off (fs (?d i)) = Some (capture off q)" "E i = effects q @ Flush # zs"
      using part [OF i] by blast
    have "share ?n i its = share ?n i xs @ Control b0 # share ?n i ys" using its by simp
    moreover have "distinct (barrier_offsets (share ?n i its))" using job by (simp add: barrier_offsets_share partitioned_job_def)
    ultimately have "share ?n i xs = xs1" using barrier_split 1(1-3) b0(2,3) by metis
    then show ?thesis using 1(4-6) by blast
  qed
  then show ?thesis using its b0 by blast
qed

section \<open>The restarted run\<close>

text \<open>From fresh workers every run ends well, and the sink has the rows of the shares.\<close>

lemma fresh_workers_finish:
  assumes ws: "length ws = unat (effective_workers pc)" "\<forall>w \<in> set ws. fresh_worker w"
    and r: "\<And>i. i < unat (effective_workers pc) \<Longrightarrow> w_cfg (ws ! i) = worker_config pc a i \<and>
      run_items (worker_config pc a i) (share (effective_workers pc) i (concat cs)) (w_proc (ws ! i)) = Inr (r i)"
    and run: "reaches (initial_system (router_program (effective_workers pc) cs EndFinal) ws) s'" "finished s'"
  shows "sys_error s' = None"
    "rows_of k w (sys_sink s') = (\<Union>i < unat (effective_workers pc). rows_of k w (effects (final_flush (worker_config pc a i) (r i))))"
    "map w_proc (sys_workers s') = map (\<lambda>i. final_flush (worker_config pc a i) (r i)) [0..<unat (effective_workers pc)]"
proof -
  let ?n = "effective_workers pc"
  let ?M = "worker_messages ?n cs EndFinal" and ?s0 = "initial_system (router_program ?n cs EndFinal) ws"
  have i0: "system_inv ?M ws ?s0" by (rule initial_inv [OF effective_workers_pos ws])
  have inv: "system_inv ?M ws s'" by (rule reaches_inv [OF run(1) i0])
  have sink: "sink_inv s'" by (rule reaches_sink [OF run(1) i0 initial_sink [OF ws(2)]])
  have each: "fold_res (process_message (w_cfg (ws ! i))) (?M i) (w_proc (ws ! i)) = Inr (r i)" if i: "i < unat ?n" for i
  proof -
    have "?M i = map message_of (share ?n i (concat cs)) @ [MEndOfStream]"
      by (simp add: worker_messages_def worker_items_def end_items_def end_stop_def)
    then show ?thesis using r [OF i] by (simp add: fold_res_append run_messages process_message_def)
  qed
  have nc: "\<not> sys_cancelled s'"
  proof -
    have "partitions_ok ?M ws" using each ws(1) unfolding partitions_ok_def by metis
    moreover have "no_throw (router_program ?n cs EndFinal)" by (simp add: no_throw_def throw_in_program)
    ultimately show ?thesis using reaches_no_failure [OF run(1) i0] by (simp add: initial_system_def)
  qed
  then show "sys_error s' = None" using system_invD(5) [OF inv] by simp
  have proc: "w_proc (sys_workers s' ! i) = final_flush (worker_config pc a i) (r i)" if i: "i < unat ?n" for i
  proof -
    have "last (?M i) = MEndOfStream" by (simp add: worker_messages_def end_stop_def)
    then show ?thesis using finished_workers [OF inv run(2) nc, of i] each [OF i] i ws(1) r [OF i] by auto
  qed
  then show "rows_of k w (sys_sink s') = (\<Union>i < unat ?n. rows_of k w (effects (final_flush (worker_config pc a i) (r i))))"
    using sink_rows_union [OF inv sink run(2) nc] ws(1) by simp
  show "map w_proc (sys_workers s') = map (\<lambda>i. final_flush (worker_config pc a i) (r i)) [0..<unat ?n]"
    using proc system_invD(1) [OF inv] ws(1) by (intro nth_equalityI) simp_all
qed

text \<open>A worker restored at the cut continues its share.\<close>

lemma restored_share:
  assumes job: "partitioned_job pc a width its p0 p" and its: "its = xs @ Control b # ys" and b: "ctype b = KCheckpointBarrier"
    and q: "run_items (worker_config pc a i) (share (effective_workers pc) i xs) p0 = Inr q"
  shows "\<exists>r es. run_items (worker_config pc a i) (share (effective_workers pc) i ys) (restore (capture (checkpoint_offset b) q) p0) = Inr r \<and>
    effects (final_flush (worker_config pc a i) (whole_share pc a its p0 i)) = es @ effects (final_flush (worker_config pc a i) r) \<and>
    emitted_rows es = emitted_rows (effects q)"
proof -
  let ?P = "worker_config pc a i" and ?xs = "share (effective_workers pc) i xs" and ?ys = "share (effective_workers pc) i ys"
  note J = job_worker [OF job]
  have whole: "run_items ?P ((?xs @ [Control b]) @ ?ys) p0 = Inr (whole_share pc a its p0 i)"
    using J(3) [of i] its by simp
  then obtain q1 where q1: "run_items ?P (?xs @ [Control b]) p0 = Inr q1" "process_item ?P (Control b) q = Inr q1"
    using q by (cases "process_item ?P (Control b) q") (auto simp: run_items_append)
  have bar: "process_barrier ?P (checkpoint_offset b) q = Inr q1"
    using q1(2) b by (simp add: process_item_def process_control_def)
  have same: "capture (checkpoint_offset b) q1 = capture (checkpoint_offset b) q" "emitted_rows (effects q1) = emitted_rows (effects q)"
    using bar by (auto simp: process_barrier_def Let_def capture_def split: if_splits)
  obtain r where r: "run_items ?P ?ys (restore (capture (checkpoint_offset b) q) p0) = Inr r"
      "whole_share pc a its p0 i = with_history (effects q1) (stats q1) r"
    using restart_continues [OF J(2) q1(1) J(1), of ?ys "checkpoint_offset b"] whole same(1)
    by (cases "run_items ?P ?ys (restore (capture (checkpoint_offset b) q) p0)") auto
  then show ?thesis using same(2) by (intro exI [of _ r] exI [of _ "effects q1"]) (simp add: flush_with_history)
qed

lemma restore_workers_each:
  "restore_workers pc fs off (enumerate k ws) = Inr ws' \<Longrightarrow> length ws' = length ws \<and>
   (\<forall>i < length ws. \<exists>d. load_offset off (fs (partition_checkpoint_dir (pc_checkpoint_dir pc) (k + i))) = Some d \<and>
      ws' ! i = (ws ! i)\<lparr>w_proc := restore d (w_proc (ws ! i))\<rparr>)"
proof (induction ws arbitrary: k ws')
  case (Cons w ws)
  then obtain w1 vs where w1: "restore_worker pc fs off (k, w) = Inr w1" "restore_workers pc fs off (enumerate (Suc k) ws) = Inr vs" "ws' = w1 # vs"
    by auto
  show ?case
    using Cons.IH [OF w1(2)] w1(1,3) by (auto simp: restore_worker_def nth_Cons split: option.splits nat.split)
qed simp

lemma restore_workers_total:
  "(\<And>i. i < length ws \<Longrightarrow> load_offset off (fs (partition_checkpoint_dir (pc_checkpoint_dir pc) (k + i))) \<noteq> None) \<Longrightarrow>
   \<exists>ws'. restore_workers pc fs off (enumerate k ws) = Inr ws'"
proof (induction ws arbitrary: k)
  case (Cons w ws)
  have "\<exists>ws'. restore_workers pc fs off (enumerate (Suc k) ws) = Inr ws'"
    using Cons.IH [of "Suc k"] Cons.prems [of "Suc i" for i] by simp
  moreover obtain d where "load_offset off (fs (partition_checkpoint_dir (pc_checkpoint_dir pc) k)) = Some d"
    using Cons.prems [of 0] by auto
  ultimately show ?case by (auto simp: restore_worker_def)
qed simp

text \<open>A source that delivers the stream and, sought to a barrier, what follows it.\<close>

definition replays :: "'s source \<Rightarrow> 's \<Rightarrow> batch_item list \<Rightarrow> bool" where
  "replays src s its \<longleftrightarrow> src_replayable src \<and> delivers src s its \<and>
     (\<forall>xs b ys. its = xs @ Control b # ys \<longrightarrow> ctype b = KCheckpointBarrier \<longrightarrow>
        (\<exists>s1. src_seek src (checkpoint_offset b) s = Inr s1 \<and> delivers src s1 ys))"

lemma partitioned_manifest_wf: "om_wf (partitioned_manifest pc a src)"
  by (simp add: partitioned_manifest_def om_wf_def less_char_def)

lemma partitioned_manifest_made:
  assumes "newline \<notin> set (descriptor a)" "newline \<notin> set (src_descriptor src)"
  shows "\<exists>m. serialize (partitioned_manifest pc a src) = Inr m"
proof -
  have "\<forall>kv \<in> set (partitioned_manifest pc a src). field_ok kv"
    using assms to_string_no_newline digits_no_newline by (simp add: partitioned_manifest_def field_ok_def newline_def)
  then show ?thesis unfolding serialize_def by (rule serialize_total)
qed

text \<open>
  The start of the restarted run: fresh or restored, its workers continue their shares on what the
  source delivers, and emit what a whole run emits after a flush among the calls made.
\<close>

definition continues ::
    "partitioned_config \<Rightarrow> window_assigner \<Rightarrow> batch_item list \<Rightarrow> processor \<Rightarrow> (nat \<Rightarrow> effect list) \<Rightarrow> batch_item list \<Rightarrow> worker list \<Rightarrow>
     (nat \<Rightarrow> processor) \<Rightarrow> bool" where
  "continues pc a its p0 E ys ws r \<longleftrightarrow> length ws = unat (effective_workers pc) \<and> (\<forall>w \<in> set ws. fresh_worker w) \<and>
     (\<forall>i < unat (effective_workers pc).
        w_cfg (ws ! i) = worker_config pc a i \<and>
        run_items (worker_config pc a i) (share (effective_workers pc) i ys) (w_proc (ws ! i)) = Inr (r i) \<and>
        (\<exists>before. emitted_rows (effects (final_flush (worker_config pc a i) (whole_share pc a its p0 i))) =
             emitted_rows before @ emitted_rows (effects (final_flush (worker_config pc a i) (r i))) \<and>
           (before = [] \<or> (\<exists>zs. E i = before @ Flush # zs))))"

lemma fresh_continues:
  assumes job: "partitioned_job pc a width its p0 p" and ws: "build_workers pc a [0..<unat (effective_workers pc)] = Inr ws"
  shows "continues pc a its p0 E its ws (whole_share pc a its p0)"
proof -
  have "w_proc (ws ! i) = p0" if "i < unat (effective_workers pc)" for i
    using build_workers_fresh(3) [OF ws that] job_worker(2) [OF job, of i] by simp
  then show ?thesis
    using build_workers_fresh [OF ws] job_worker(3) [OF job] unfolding continues_def by (auto intro: exI [of _ "[]"])
qed

lemma restored_continues:
  assumes job: "partitioned_job pc a width its p0 p" and ws: "build_workers pc a [0..<unat (effective_workers pc)] = Inr ws"
    and its: "its = xs @ Control b # ys" and b: "ctype b = KCheckpointBarrier"
    and q: "\<And>i. i < unat (effective_workers pc) \<Longrightarrow>
      run_items (worker_config pc a i) (share (effective_workers pc) i xs) p0 = Inr (q i) \<and>
      load_offset (checkpoint_offset b) (fs (partition_checkpoint_dir (pc_checkpoint_dir pc) i)) = Some (capture (checkpoint_offset b) (q i)) \<and>
      E i = effects (q i) @ Flush # zs i"
  shows "\<exists>ws1 r. restore_workers pc fs (checkpoint_offset b) (enumerate 0 ws) = Inr ws1 \<and> continues pc a its p0 E ys ws1 r"
proof -
  let ?n = "effective_workers pc" and ?off = "checkpoint_offset b"
  note B = build_workers_fresh [OF ws]
  have "\<exists>ws'. restore_workers pc fs ?off (enumerate 0 ws) = Inr ws'"
    by (rule restore_workers_total) (use q B(1) in simp)
  then obtain ws1 where ws1: "restore_workers pc fs ?off (enumerate 0 ws) = Inr ws1" by blast
  have len: "length ws1 = unat ?n" using restore_workers_each [OF ws1] B(1) by simp
  have each: "ws1 ! i = (ws ! i)\<lparr>w_proc := restore (capture ?off (q i)) p0\<rparr>" if i: "i < unat ?n" for i
  proof -
    have "w_proc (ws ! i) = p0" using B(3) [OF i] job_worker(2) [OF job, of i] by simp
    then show ?thesis using restore_workers_each [OF ws1] q [OF i] i B(1) by auto
  qed
  have "\<forall>i. \<exists>r es. i < unat ?n \<longrightarrow> run_items (worker_config pc a i) (share ?n i ys) (restore (capture ?off (q i)) p0) = Inr r \<and>
      effects (final_flush (worker_config pc a i) (whole_share pc a its p0 i)) = es @ effects (final_flush (worker_config pc a i) r) \<and>
      emitted_rows es = emitted_rows (effects (q i))"
    using restored_share [OF job its b] q by blast
  then obtain r es where r: "\<And>i. i < unat ?n \<Longrightarrow> run_items (worker_config pc a i) (share ?n i ys) (restore (capture ?off (q i)) p0) = Inr (r i) \<and>
      effects (final_flush (worker_config pc a i) (whole_share pc a its p0 i)) = es i @ effects (final_flush (worker_config pc a i) (r i)) \<and>
      emitted_rows (es i) = emitted_rows (effects (q i))"
    by metis
  have "fresh_worker (ws1 ! i)" if i: "i < unat ?n" for i
  proof -
    have "fresh_worker (ws ! i)" "w_proc (ws ! i) = p0" using B(1,2) B(3) [OF i] job_worker(2) [OF job, of i] i by auto
    then show ?thesis using each [OF i] by (simp add: fresh_worker_def restore_def Let_def)
  qed
  then have "\<forall>w \<in> set ws1. fresh_worker w" using len by (metis in_set_conv_nth)
  moreover have "\<exists>before. emitted_rows (effects (final_flush (worker_config pc a i) (whole_share pc a its p0 i))) =
      emitted_rows before @ emitted_rows (effects (final_flush (worker_config pc a i) (r i))) \<and> (before = [] \<or> (\<exists>zs. E i = before @ Flush # zs))"
    if i: "i < unat ?n" for i
    using r [OF i] q [OF i] by (intro exI [of _ "effects (q i)"]) auto
  ultimately have "continues pc a its p0 E ys ws1 r"
    using len each r B(3) by (simp add: continues_def)
  then show ?thesis using ws1 by blast
qed

lemma restore_run_continues:
  assumes job: "partitioned_job pc a width its p0 p" and ws: "build_workers pc a [0..<unat (effective_workers pc)] = Inr ws"
    and left: "calls_left pc a its p0 E fs" and rp: "replays src s0 its"
  shows "\<exists>ws1 s1 ys r. restore_run pc src fs ws s0 = Inr (ws1, s1, if pc_checkpoint_dir pc = [] then None
      else highest_complete_checkpoint (pc_checkpoint_dir pc) (unat (effective_workers pc)) fs) \<and>
    delivers src s1 ys \<and> length ys \<le> length its \<and> continues pc a its p0 E ys ws1 r"
proof (cases "if pc_checkpoint_dir pc = [] then None else highest_complete_checkpoint (pc_checkpoint_dir pc) (unat (effective_workers pc)) fs")
  case None
  then have "restore_run pc src fs ws s0 = Inr (ws, s0, None)" by (auto simp: restore_run_def split: if_splits)
  moreover have "delivers src s0 its" using rp by (simp add: replays_def)
  ultimately show ?thesis unfolding None using fresh_continues [OF job ws] by blast
next
  case (Some off)
  then have dir: "pc_checkpoint_dir pc \<noteq> []" and hc: "highest_complete_checkpoint (pc_checkpoint_dir pc) (unat (effective_workers pc)) fs = Some off"
    by (simp_all split: if_splits)
  obtain xs b ys where its: "its = xs @ Control b # ys" and b: "ctype b = KCheckpointBarrier" "checkpoint_offset b = off"
    and each: "\<forall>i < unat (effective_workers pc). \<exists>q zs. run_items (worker_config pc a i) (share (effective_workers pc) i xs) p0 = Inr q \<and>
       load_offset off (fs (partition_checkpoint_dir (pc_checkpoint_dir pc) i)) = Some (capture off q) \<and> E i = effects q @ Flush # zs"
    using restored_cut [OF job left hc] by blast
  from each obtain q zs where "\<And>i. i < unat (effective_workers pc) \<Longrightarrow>
      run_items (worker_config pc a i) (share (effective_workers pc) i xs) p0 = Inr (q i) \<and>
      load_offset (checkpoint_offset b) (fs (partition_checkpoint_dir (pc_checkpoint_dir pc) i)) = Some (capture (checkpoint_offset b) (q i)) \<and>
      E i = effects (q i) @ Flush # zs i"
    unfolding b(2) by metis
  from restored_continues [OF job ws its b(1) this] obtain ws1 r
    where w: "restore_workers pc fs off (enumerate 0 ws) = Inr ws1" "continues pc a its p0 E ys ws1 r"
    using b(2) by blast
  obtain s1 where "src_seek src off s0 = Inr s1" "delivers src s1 ys" using rp its b unfolding replays_def by blast
  moreover from this w(1) have "restore_run pc src fs ws s0 = Inr (ws1, s1, Some off)" using dir hc by (simp add: restore_run_def)
  moreover have "length ys \<le> length its" using its by simp
  ultimately show ?thesis unfolding Some using w(2) by blast
qed

text \<open>The start succeeds on the manifest of the first run.\<close>

lemma start_continues:
  assumes job: "partitioned_job pc a width its p0 p" and ws: "build_workers pc a [0..<unat (effective_workers pc)] = Inr ws"
    and left: "calls_left pc a its p0 E fs" and rp: "replays src s0 its"
    and mf: "serialize (partitioned_manifest pc a src) = Inr m"
  shows "\<exists>st cs s1 s2 r. start_partitioned None None retain pc a src names fs (Some m) s0 = Inr st \<and>
    rs_last_complete st = (if pc_checkpoint_dir pc = [] then None
      else highest_complete_checkpoint (pc_checkpoint_dir pc) (unat (effective_workers pc)) fs) \<and>
    rs_replayed st = (case rs_last_complete st of None \<Rightarrow> 0 | Some off \<Rightarrow> off) \<and>
    hands_over src (rs_source st) cs s1 \<and> src_next src s1 = Inr (None, s2) \<and> length cs \<le> length its \<and>
    continues pc a its p0 E (concat cs) (rs_workers st) r"
proof -
  let ?hc = "if pc_checkpoint_dir pc = [] then None
    else highest_complete_checkpoint (pc_checkpoint_dir pc) (unat (effective_workers pc)) fs"
  obtain ws1 s1 ys r where R: "restore_run pc src fs ws s0 = Inr (ws1, s1, ?hc)" "delivers src s1 ys" "length ys \<le> length its"
      "continues pc a its p0 E ys ws1 r"
    using restore_run_continues [OF job ws left rp] by blast
  obtain cs s2 s3 where cs: "hands_over src s1 cs s2" "src_next src s2 = Inr (None, s3)" "[] \<notin> set cs" "ys = concat cs"
    using R(2) unfolding delivers_def by blast
  have "load_manifest (pc_checkpoint_dir pc @ ''/'' @ kManifestName) m = Inr (partitioned_manifest pc a src)"
    by (rule load_serialize [OF mf partitioned_manifest_wf])
  then have "(if pc_checkpoint_dir pc \<noteq> [] then validate_or_create None (pc_checkpoint_dir pc) names (partitioned_manifest pc a src) (Some m)
      else Inr (Some m)) = Inr (Some m)" using mf by (simp add: validate_or_create_def)
  moreover have "src_replayable src" using rp by (simp add: replays_def)
  ultimately obtain st where "start_partitioned None None retain pc a src names fs (Some m) s0 = Inr st"
      "rs_workers st = ws1" "rs_source st = s1" "rs_last_complete st = ?hc" "rs_replayed st = (case ?hc of None \<Rightarrow> 0 | Some off \<Rightarrow> off)"
    using ws R(1) by (simp add: start_partitioned_def Let_def del: if_split)
  then show ?thesis
    by (intro exI [of _ st] exI [of _ cs] exI [of _ s2] exI [of _ s3] exI [of _ r])
      (use cs R(3,4) length_concat_nonempty [OF cs(3)] in simp)
qed

lemma rows_in: "x \<in> rows_of k w es \<longleftrightarrow> window_row k w (pane_result x) \<in> set (emitted_rows es)"
  by (simp add: rows_of_def Emit_in_rows)

lemma continued_rows:
  assumes job: "partitioned_job pc a width its p0 p" and left: "calls_left pc a its p0 E fs" and sink: "sink_left pc E sink"
    and c: "continues pc a its p0 E (concat cs) ws r"
    and run: "reaches (initial_system (router_program (effective_workers pc) cs EndFinal) ws) s'" "finished s'"
  shows "sys_error s' = None"
    "rows_of k w sink \<union> rows_of k w (sys_sink s') = rows_of k w (effects (final_flush (single_config pc a) p))"
proof -
  let ?N = "unat (effective_workers pc)"
  let ?whole = "\<lambda>i. effects (final_flush (worker_config pc a i) (whole_share pc a its p0 i))"
  let ?new = "\<lambda>i. effects (final_flush (worker_config pc a i) (r i))"
  have C: "length ws = ?N" "\<forall>w \<in> set ws. fresh_worker w"
    "\<And>i. i < ?N \<Longrightarrow> w_cfg (ws ! i) = worker_config pc a i \<and>
      run_items (worker_config pc a i) (share (effective_workers pc) i (concat cs)) (w_proc (ws ! i)) = Inr (r i)"
    using c by (auto simp: continues_def)
  note F = fresh_workers_finish [OF C(1-3) run]
  show "sys_error s' = None" by (rule F(1))
  have new: "rows_of k w (sys_sink s') = (\<Union>i < ?N. rows_of k w (?new i))" by (rule F(2))
  have whole: "(\<Union>i < ?N. rows_of k w (?whole i)) = rows_of k w (effects (final_flush (single_config pc a) p))"
    by (rule share_rows [where width = width]) (use job job_worker(3) [OF job] in \<open>auto simp: partitioned_job_def\<close>)
  have before: "rows_of k w sink \<subseteq> (\<Union>i < ?N. rows_of k w (?whole i))"
  proof
    fix x assume "x \<in> rows_of k w sink"
    then have "window_row k w (pane_result x) \<in> rows_made pc E" using sink unfolding sink_left_def rows_in by blast
    then obtain i where i: "i < ?N" "window_row k w (pane_result x) \<in> set (emitted_rows (E i))" by (auto simp: rows_made_def)
    then have "x \<in> rows_of k w (?whole i)" using calls_leftD(1) [OF left i(1)] by (auto simp: rows_in)
    then show "x \<in> (\<Union>i < ?N. rows_of k w (?whole i))" using i(1) by (intro UN_I) simp_all
  qed
  have each: "rows_of k w (?new i) \<subseteq> rows_of k w (?whole i)" "rows_of k w (?whole i) \<subseteq> rows_of k w sink \<union> rows_of k w (?new i)"
    if i: "i < ?N" for i
  proof -
    obtain b where b: "emitted_rows (?whole i) = emitted_rows b @ emitted_rows (?new i)" "b = [] \<or> (\<exists>zs. E i = b @ Flush # zs)"
      using c i unfolding continues_def by blast
    then have "set (emitted_rows b) \<subseteq> set (emitted_rows sink)" using sink i unfolding sink_left_def by auto
    then show "rows_of k w (?new i) \<subseteq> rows_of k w (?whole i)" "rows_of k w (?whole i) \<subseteq> rows_of k w sink \<union> rows_of k w (?new i)"
      using b(1) by (auto simp: rows_in)
  qed
  have after: "(\<Union>i < ?N. rows_of k w (?new i)) \<subseteq> (\<Union>i < ?N. rows_of k w (?whole i))" by (rule UN_mono) (simp_all add: each(1))
  have all: "(\<Union>i < ?N. rows_of k w (?whole i)) \<subseteq> rows_of k w sink \<union> (\<Union>i < ?N. rows_of k w (?new i))"
  proof (rule UN_least)
    fix i assume "i \<in> {..<?N}"
    then show "rows_of k w (?whole i) \<subseteq> rows_of k w sink \<union> (\<Union>i < ?N. rows_of k w (?new i))"
      using each(2) [of i] by (intro order_trans [OF each(2)] Un_mono order_refl UN_upper) simp_all
  qed
  show "rows_of k w sink \<union> rows_of k w (sys_sink s') = rows_of k w (effects (final_flush (single_config pc a) p))"
    unfolding new whole [symmetric] by (intro equalityI Un_least before after all)
qed

text \<open>A stream a checkpoint can always store makes such a job.\<close>

lemma storable_share: "storable_stream cfg its \<Longrightarrow> assigner cfg' = assigner cfg \<Longrightarrow> share n i its = xs @ ys \<Longrightarrow> storable_stream cfg' xs"
proof -
  have len: "length (data_of (filter P its)) \<le> length (data_of its)" for P and its :: "batch_item list"
  proof (induction its)
    case (Cons it its)
    then show ?case by (cases it) simp_all
  qed simp
  assume ok: "storable_stream cfg its" "assigner cfg' = assigner cfg" and xs: "share n i its = xs @ ys"
  have "1000 * int (length (data_of (filter (goes_to n i) its))) \<le> 1000 * int (length (data_of its))"
    using len [of "goes_to n i" its] by simp
  then have "storable_stream cfg' (share n i its)"
    using ok unfolding storable_stream_def share_def by auto
  then show ?thesis using xs by (auto simp: storable_stream_def)
qed

lemma storable_partitioned_job:
  assumes "lawful_assigner a width" "new_processor (single_config pc a) = Inr p0" "run_items (single_config pc a) its p0 = Inr p"
    and "\<forall>i. writes_ok (worker_config pc a i)" "distinct (barrier_offsets its)" "storable_stream (single_config pc a) its"
  shows "partitioned_job pc a width its p0 p"
proof -
  have "encodable (watermark q) (state q)"
    if "share (effective_workers pc) i its = xs @ ys" "run_items (worker_config pc a i) xs p0 = Inr q" for i xs ys q
  proof (rule storable_encodable [OF _ that(2)])
    show "new_processor (worker_config pc a i) = Inr p0" using assms(2) new_processor_same [OF same_job_worker] by metis
    show "lawful_assigner (assigner (worker_config pc a i)) width" using assms(1) by (simp add: worker_config_def)
    show "storable_stream (worker_config pc a i) xs"
      by (rule storable_share [OF assms(6) _ that(1)]) (simp add: worker_config_def single_config_def)
  qed
  then show ?thesis using assms(1-5) unfolding partitioned_job_def by blast
qed

text \<open>
  C6. A partitioned run is killed at any point: its threads in any reachable state, every worker after
  any of the calls of the step it is in, and inside a flush of its rows, at any byte of a checkpoint
  write or while old checkpoints are pruned. A run
  restarted on the disk it left, with the manifest of the first run, starts without an exception from
  the highest checkpoint complete in all partitions (or from the beginning when there is none); the
  source hands over the rest of the stream; the threads can finish; and every finished schedule has no
  error and has, with the rows delivered before the kill, exactly the rows the single-threaded
  engine emits on the whole stream, for every key and window.
\<close>

theorem partitioned_crash_loses_nothing:
  assumes job: "partitioned_job pc a width (concat bs) p0 p" and rp: "replays src s0 (concat bs)"
    and ws: "build_workers pc a [0..<unat (effective_workers pc)] = Inr ws"
    and run: "disk_reaches pc (initial_system (router_program (effective_workers pc) bs EndFinal) ws)
      ((\<lambda>_. []), new_tracker (unat (effective_workers pc)) retain None, None) s d"
    and killed: "kill_reaches pc s d k"
    and mf: "serialize (partitioned_manifest pc a src) = Inr m"
  shows "\<exists>st cs s1 s2. start_partitioned None None retain pc a src names (fst (kp_disk k)) (Some m) s0 = Inr st \<and>
    rs_last_complete st = (if pc_checkpoint_dir pc = [] then None
      else highest_complete_checkpoint (pc_checkpoint_dir pc) (unat (effective_workers pc)) (fst (kp_disk k))) \<and>
    hands_over src (rs_source st) cs s1 \<and> src_next src s1 = Inr (None, s2) \<and>
    (\<exists>s'. reaches (initial_system (router_program (effective_workers pc) cs EndFinal) (rs_workers st)) s' \<and> finished s') \<and>
    (\<forall>s'. reaches (initial_system (router_program (effective_workers pc) cs EndFinal) (rs_workers st)) s' \<longrightarrow> finished s' \<longrightarrow>
      sys_error s' = None \<and>
      (\<forall>key w. rows_of key w (kp_sink k) \<union> rows_of key w (sys_sink s') = rows_of key w (effects (final_flush (single_config pc a) p))))"
proof -
  have left: "calls_left pc a (concat bs) p0 (kp_calls k) (fst (kp_disk k))" "sink_left pc (kp_calls k) (kp_sink k)"
    using kill_inv_left [OF kill_inv_reaches [OF killed kill_inv_start [OF job ws run]]] by blast+
  obtain st cs s1 s2 r where S: "start_partitioned None None retain pc a src names (fst (kp_disk k)) (Some m) s0 = Inr st"
      "rs_last_complete st = (if pc_checkpoint_dir pc = [] then None
        else highest_complete_checkpoint (pc_checkpoint_dir pc) (unat (effective_workers pc)) (fst (kp_disk k)))"
      "hands_over src (rs_source st) cs s1" "src_next src s1 = Inr (None, s2)"
      "continues pc a (concat bs) p0 (kp_calls k) (concat cs) (rs_workers st) r"
    using start_continues [OF job ws left(1) rp mf] by metis
  have "system_inv (worker_messages (effective_workers pc) cs EndFinal) (rs_workers st)
      (initial_system (router_program (effective_workers pc) cs EndFinal) (rs_workers st))"
    by (rule initial_inv [OF effective_workers_pos]) (use S(5) in \<open>simp_all add: continues_def\<close>)
  then have e: "\<exists>s'. reaches (initial_system (router_program (effective_workers pc) cs EndFinal) (rs_workers st)) s' \<and> finished s'"
    by (rule can_finish)
  show ?thesis
    by (intro exI [of _ st] exI [of _ cs] exI [of _ s1] exI [of _ s2] conjI S(1-4) e allI impI continued_rows [OF job left S(5)])
qed

text \<open>Two workers, one checkpoint in the stream, killed after it.\<close>

definition sample_restart :: partitioned_config where
  "sample_restart = \<lparr>pc_num_workers = 2, pc_queue_capacity = 1, pc_lateness = 5,
     pc_checkpoint_dir = ''ckpt'', pc_write_ok = (\<lambda>i off wm s. True)\<rparr>"

definition restart_source :: "batch_item list list source" where
  "restart_source =
     \<lparr>src_next = (\<lambda>bs. Inr (case bs of [] \<Rightarrow> (None, []) | b # bs' \<Rightarrow> (Some b, bs'))),
      src_seek = (\<lambda>off bs. Inr [tl (dropWhile (\<lambda>it. it \<noteq> barrier_item off) (concat bs))]),
      src_offset = (\<lambda>bs. 0), src_descriptor = ''sample'', src_replayable = True, src_cancel = (\<lambda>bs. bs)\<rparr>"

lemma restart_source_delivers: "b \<noteq> [] \<Longrightarrow> delivers restart_source [b] b"
  unfolding delivers_def by (intro exI [of _ "[b]"] exI [of _ "[]"]) (simp add: restart_source_def)

lemma sample_barriers: "barrier_offsets sample_stream = [3]"
  by code_simp

lemma restart_source_replays: "replays restart_source [sample_stream] sample_stream"
  unfolding replays_def
proof (intro conjI allI impI)
  show "src_replayable restart_source" by (simp add: restart_source_def)
  show "delivers restart_source [sample_stream] sample_stream"
    by (rule restart_source_delivers) (simp add: sample_stream_def)
  fix xs b ys assume its: "sample_stream = xs @ Control b # ys" and b: "ctype b = KCheckpointBarrier"
  have split: "sample_stream = take 4 sample_stream @ barrier_item 3 # drop 5 sample_stream" by (simp add: sample_stream_def)
  obtain c where c: "barrier_item 3 = Control c" "ctype c = KCheckpointBarrier" "checkpoint_offset c = 3" by (auto simp: barrier_item_def)
  have off: "checkpoint_offset b = 3" using sample_barriers b unfolding its by (auto simp: Cons_eq_append_conv append_eq_Cons_conv)
  then have ys: "ys = drop 5 sample_stream"
    using barrier_split [OF _ its split [unfolded c(1)] b c(2)] sample_barriers c(3) by simp
  have "src_seek restart_source 3 [sample_stream] = Inr [drop 5 sample_stream]"
    by (simp add: restart_source_def sample_stream_def sample_record_def barrier_item_def watermark_item_def)
  moreover have "delivers restart_source [drop 5 sample_stream] (drop 5 sample_stream)"
    by (rule restart_source_delivers) (simp add: sample_stream_def)
  ultimately show "\<exists>s1. src_seek restart_source (checkpoint_offset b) [sample_stream] = Inr s1 \<and> delivers restart_source s1 ys"
    unfolding off ys by blast
qed

lemma sample_restart_job: "\<exists>p0 p. partitioned_job sample_restart (assigner sample_job) 10 sample_stream p0 p"
proof -
  let ?c = "single_config sample_restart (assigner sample_job)"
  have "(case new_processor ?c of Inl e \<Rightarrow> False | Inr p0 \<Rightarrow> \<not> isl (run_items ?c sample_stream p0))" by code_simp
  then obtain p0 p where r: "new_processor ?c = Inr p0" "run_items ?c sample_stream p0 = Inr p" by (metis sum.case_eq_if sum.collapse)
  have "assign_windows (assigner sample_job) t = Inr vs \<Longrightarrow> length vs \<le> 1" for t vs
    by (auto simp: sample_job_def tumbling_assigner_def tumbling_assign_def Let_def split: if_splits)
  then have "storable_stream ?c sample_stream"
    by (auto simp: storable_stream_def sample_stream_def sample_record_def barrier_item_def watermark_item_def
        single_config_def in_i64_def i64_nums)
  then show ?thesis
    using storable_partitioned_job [OF sample_lawful r] sample_barriers
    by (auto simp: writes_ok_def worker_config_def sample_restart_def)
qed

theorem partitioned_crash_loses_nothing_witness:
  "\<exists>ws s fs t c m st p. build_workers sample_restart (assigner sample_job) [0..<2] = Inr ws \<and>
    disk_reaches sample_restart (initial_system (router_program 2 [sample_stream] EndFinal) ws) ((\<lambda>_. []), new_tracker 2 3 None, None) s (fs, t, c) \<and>
    finished s \<and> serialize (partitioned_manifest sample_restart (assigner sample_job) restart_source) = Inr m \<and>
    start_partitioned None None 3 sample_restart (assigner sample_job) restart_source [] fs (Some m) [sample_stream] = Inr st \<and>
    (\<exists>cs s'. reaches (initial_system (router_program 2 cs EndFinal) (rs_workers st)) s' \<and> finished s' \<and>
      (\<forall>k w. rows_of k w (sys_sink s) \<union> rows_of k w (sys_sink s') =
        rows_of k w (effects (final_flush (single_config sample_restart (assigner sample_job)) p))))"
proof -
  let ?pc = sample_restart and ?a = "assigner sample_job"
  have n: "effective_workers ?pc = 2" by code_simp
  obtain p0 p where job: "partitioned_job ?pc ?a 10 (concat [sample_stream]) p0 p" using sample_restart_job by auto
  have "\<not> isl (build_workers ?pc ?a [0..<unat (effective_workers ?pc)])" by code_simp
  then obtain ws where ws: "build_workers ?pc ?a [0..<unat (effective_workers ?pc)] = Inr ws" by (metis sum.collapse(2))
  let ?s0 = "initial_system (router_program (effective_workers ?pc) [sample_stream] EndFinal) ws"
  have "system_inv (worker_messages (effective_workers ?pc) [sample_stream] EndFinal) ws ?s0"
    by (rule initial_inv [OF effective_workers_pos]) (use build_workers_fresh [OF ws] in simp_all)
  then obtain s where s: "reaches ?s0 s" "finished s" using can_finish by blast
  then obtain fs t c where run: "disk_reaches ?pc ?s0 ((\<lambda>_. []), new_tracker (unat (effective_workers ?pc)) 3 None, None) s (fs, t, c)"
    using reaches_disk_reaches by (metis prod_cases3)
  have "\<not> isl (serialize (partitioned_manifest ?pc ?a restart_source))" by code_simp
  then obtain m where m: "serialize (partitioned_manifest ?pc ?a restart_source) = Inr m" by (metis sum.collapse(2))
  have rp: "replays restart_source [sample_stream] (concat [sample_stream])" using restart_source_replays by simp
  from partitioned_crash_loses_nothing [OF job rp ws run kill_start m, of "[]"] obtain st cs s' where
      "start_partitioned None None 3 ?pc ?a restart_source [] fs (Some m) [sample_stream] = Inr st"
      "reaches (initial_system (router_program (effective_workers ?pc) cs EndFinal) (rs_workers st)) s'" "finished s'"
      "\<forall>k w. rows_of k w (sys_sink s) \<union> rows_of k w (sys_sink s') = rows_of k w (effects (final_flush (single_config ?pc ?a) p))"
    unfolding step_start_def kill_point.select_convs fst_conv by meson
  moreover have "unat (2 :: u32) = 2" by simp
  ultimately show ?thesis using ws run s(2) m unfolding n by metis
qed

end
