(* ===== verification/Partitioned_Nemesis.thy ===== *)
theory Partitioned_Nemesis
  imports Nemesis Partitioned_Restart
begin

text \<open>
  \<open>RunPartitionedRealKillNemesis\<close> of \<open>src/src/nemesis/nemesis.cpp\<close>. A forked child runs the partitioned engine,
  each worker over its own durable log; the parent kills it while some partitions have written a
  checkpoint that others have not, restarts the engine on the files, and compares the logs of
  both runs with the oracle. Results of system calls, the thread schedule and the files the parent
  sees are arguments.
\<close>

section \<open>Configuration and results\<close>

record partitioned_kill_config =
  pk_seed :: u64
  pk_num_records :: u64
  pk_num_keys :: u32
  pk_num_workers :: u32
  pk_window_size :: duration
  pk_max_disorder :: duration
  pk_checkpoint_interval :: u64
  pk_allowed_lateness :: duration
  pk_target_checkpoint :: u32
  pk_max_attempts :: u32

record partitioned_kill_result =
  pr_passed :: bool
  pr_attempts :: u32
  pr_num_workers :: u32
  pr_killed_by_sigkill :: bool
  pr_final_flush_completed :: bool
  pr_torn_observed :: bool
  pr_torn_offset :: u64
  pr_restored_offset :: u64
  pr_pre_crash_emits :: u64
  pr_post_restore_emits :: u64
  pr_union_results :: u64
  pr_oracle_results :: u64
  pr_missing_results :: u64
  pr_duplicates :: u64
  pr_failure_detail :: "nemesis_failure option"

definition empty_partitioned_result :: "partitioned_kill_config \<Rightarrow> partitioned_kill_result" where
  "empty_partitioned_result config =
     \<lparr>pr_passed = False, pr_attempts = 0, pr_num_workers = pk_num_workers config, pr_killed_by_sigkill = False,
      pr_final_flush_completed = False, pr_torn_observed = False, pr_torn_offset = 0, pr_restored_offset = 0,
      pr_pre_crash_emits = 0, pr_post_restore_emits = 0, pr_union_results = 0, pr_oracle_results = 0,
      pr_missing_results = 0, pr_duplicates = 0, pr_failure_detail = None\<rparr>"

definition make_part_gen_config :: "partitioned_kill_config \<Rightarrow> generator_config" where
  "make_part_gen_config config =
     \<lparr>gc_seed = pk_seed config, gc_num_keys = pk_num_keys config, gc_num_records = pk_num_records config, gc_event_time_step = 1,
      gc_max_disorder = pk_max_disorder config, gc_batch_size = 1024, gc_watermark_interval = 100,
      gc_checkpoint_interval = pk_checkpoint_interval config, gc_disorder_mode = KBounded,
      gc_late_fraction = Finite 0, gc_late_tail = 0, gc_idle_spans = []\<rparr>"

text \<open>The configuration of the child (with the workers asked for) and of the restart (at least one).\<close>

definition part_kill_pipeline ::
    "partitioned_kill_config \<Rightarrow> string \<Rightarrow> u32 \<Rightarrow> (nat \<Rightarrow> u64 \<Rightarrow> timestamp \<Rightarrow> keyed_window_state \<Rightarrow> bool) \<Rightarrow> partitioned_config" where
  "part_kill_pipeline config workdir workers write_ok =
     \<lparr>pc_num_workers = workers, pc_queue_capacity = 32, pc_lateness = pk_allowed_lateness config,
      pc_checkpoint_dir = workdir @ ''/ckpt'', pc_write_ok = write_ok\<rparr>"

section \<open>Watching the child\<close>

text \<open>A higher offset some partition has than the highest they all have.\<close>

definition is_torn :: "u64 option \<Rightarrow> u64 option \<Rightarrow> bool" where
  "is_torn complete_off partial = (case (complete_off, partial) of (Some c, Some p) \<Rightarrow> p > c | _ \<Rightarrow> False)"

text \<open>One turn of the polling loop: \<open>waitpid\<close>, and the files each of the four scans sees, the last two with the child frozen.\<close>

record torn_poll =
  tp_reaped :: bool
  tp_complete :: file_system
  tp_partial :: file_system
  tp_frozen_complete :: file_system
  tp_frozen_partial :: file_system

fun watch_torn :: "string \<Rightarrow> nat \<Rightarrow> u64 \<Rightarrow> bool \<Rightarrow> torn_poll list \<Rightarrow> (bool \<times> bool) option" where
  "watch_torn ckpt_root n arm_offset armed [] = None"
| "watch_torn ckpt_root n arm_offset armed (p # ps) =
     (if tp_reaped p then Some (False, True)
      else let complete_off = highest_complete_checkpoint ckpt_root n (tp_complete p) in
        if \<not> armed \<and> \<not> (case complete_off of None \<Rightarrow> False | Some c \<Rightarrow> c \<ge> arm_offset)
        then watch_torn ckpt_root n arm_offset False ps
        else if is_torn complete_off (highest_partial_checkpoint ckpt_root n (tp_partial p)) \<and>
                is_torn (highest_complete_checkpoint ckpt_root n (tp_frozen_complete p))
                        (highest_partial_checkpoint ckpt_root n (tp_frozen_partial p))
        then Some (True, False)
        else watch_torn ckpt_root n arm_offset True ps)"

text \<open>What the child leaves: the manifest, the recursive listing of its directory, the checkpoint files and the logs.\<close>

record partitioned_disk =
  pd_manifest :: "string option"
  pd_names :: "string list"
  pd_files :: file_system
  pd_logs :: "nat \<Rightarrow> bytes option"

record torn_attempt =
  ta_workdir :: string
  ta_fork_ok :: bool
  ta_polls :: "torn_poll list"
  ta_status :: wait_status
  ta_sentinel :: bool
  ta_disk :: partitioned_disk

datatype torn_outcome =
    TornReturned partitioned_kill_result
  | TornMissed partitioned_kill_result
  | TornCaptured partitioned_kill_result torn_attempt u64 u64

definition part_workers :: "partitioned_kill_config \<Rightarrow> u32" where
  "part_workers config = max 1 (pk_num_workers config)"

definition arm_offset :: "partitioned_kill_config \<Rightarrow> u64" where
  "arm_offset config = ucast (pk_target_checkpoint config) * pk_checkpoint_interval config"

fun capture_torn :: "partitioned_kill_config \<Rightarrow> u32 \<Rightarrow> torn_attempt list \<Rightarrow> partitioned_kill_result \<Rightarrow> torn_outcome option" where
  "capture_torn config k [] res = (if k \<le> pk_max_attempts config then None else Some (TornMissed res))"
| "capture_torn config k (a # as) res =
     (if k \<le> pk_max_attempts config then
        (let res1 = res\<lparr>pr_attempts := k\<rparr>; n = unat (part_workers config); ckpt_root = ta_workdir a @ ''/ckpt'' in
         if ta_workdir a = [] then Some (TornReturned (res1\<lparr>pr_failure_detail := Some TempDirFailed\<rparr>))
         else if \<not> ta_fork_ok a then Some (TornReturned (res1\<lparr>pr_failure_detail := Some ForkFailed\<rparr>))
         else (case watch_torn ckpt_root n (arm_offset config) False (ta_polls a) of
             None \<Rightarrow> None
           | Some (killed, child_reaped) \<Rightarrow>
               (let complete_off = highest_complete_checkpoint ckpt_root n (pd_files (ta_disk a));
                    partial = highest_partial_checkpoint ckpt_root n (pd_files (ta_disk a));
                    by_kill = (killed \<and> ta_status a = Signaled SIGKILL);
                    genuine = (by_kill \<and> \<not> ta_sentinel a \<and> is_torn complete_off partial)
                in if \<not> genuine then capture_torn config (k + 1) as res1
                   else Some (TornCaptured (res1\<lparr>pr_killed_by_sigkill := by_kill, pr_final_flush_completed := ta_sentinel a,
                          pr_torn_observed := is_torn complete_off partial, pr_torn_offset := the partial\<rparr>) a (the complete_off) (the partial)))))
      else Some (TornMissed res))"

section \<open>Restart and verification\<close>

definition write_log :: "nemesis_io \<Rightarrow> window_result list \<Rightarrow> bytes res option" where
  "write_log io rows =
     bind_run (fst (open_sink (ni_open io) KTruncate None)) (\<lambda>sink.
       case emit_rows (ni_writes io rows) rows sink of (res, d) \<Rightarrow> bind_run res (\<lambda>_. Some (Inr (ds_file d))))"

fun write_logs :: "nemesis_io \<Rightarrow> window_result list list \<Rightarrow> bytes list res option" where
  "write_logs io [] = Some (Inr [])"
| "write_logs io (rows # rest) =
     bind_run (write_log io rows) (\<lambda>log. bind_run (write_logs io rest) (\<lambda>logs. Some (Inr (log # logs))))"

text \<open>
  The partitioned engine over a new durable log per worker, run to its end under a schedule: the offset it
  reports as replayed and the logs. A worker's log gets the rows its processor emits; they are
  written after the run here and during it in the code, and an exception of either ends both.
\<close>

definition run_to_logs ::
    "nat \<Rightarrow> thread list \<Rightarrow> nemesis_io \<Rightarrow> exn option \<Rightarrow> partitioned_config \<Rightarrow> window_assigner res \<Rightarrow> 's source \<Rightarrow> 's res \<Rightarrow>
     partitioned_disk \<Rightarrow> (u64 \<times> bytes list) res option" where
  "run_to_logs fuel schedule io mk pc asg src start dk =
     bind_run (Some start) (\<lambda>s.
     bind_run (Some asg) (\<lambda>a.
     bind_run (Some (start_partitioned (ni_manifest io) mk 0 pc a src (pd_names dk) (pd_files dk) (pd_manifest dk) s)) (\<lambda>st.
       case drain_source fuel src (rs_source st) of
         None \<Rightarrow> None
       | Some (bs, err) \<Rightarrow>
           (let final = run_schedule schedule (initial_system (router_program (effective_workers pc) bs
                  (case err of None \<Rightarrow> EndFinal | Some e \<Rightarrow> EndThrow e)) (rs_workers st))
            in if \<not> finished final then None
               else case sys_error final of
                  Some e \<Rightarrow> Some (Inl e)
                | None \<Rightarrow> bind_run (write_logs io (map (emitted_rows \<circ> effects \<circ> w_proc) (sys_workers final)))
                    (\<lambda>logs. Some (Inr (rs_replayed st, logs)))))))"

definition check_offsets :: "u64 \<Rightarrow> u64 \<Rightarrow> u64 \<Rightarrow> nemesis_failure option \<Rightarrow> nemesis_failure option" where
  "check_offsets restored complete_off torn_off detail =
     (let detail1 = (if restored \<noteq> complete_off then Some (WrongOffset restored complete_off torn_off) else detail)
      in if restored \<ge> torn_off \<and> detail1 = None then Some (TornOffset restored torn_off) else detail1)"

fun read_logs :: "nemesis_io \<Rightarrow> (bytes option \<times> bytes option) list \<Rightarrow> (window_result list \<times> window_result list) list res option" where
  "read_logs io [] = Some (Inr [])"
| "read_logs io ((pre, post) # rest) =
     bind_run (read_log io pre) (\<lambda>a. bind_run (read_log io post) (\<lambda>b.
     bind_run (read_logs io rest) (\<lambda>ps. Some (Inr ((a, b) # ps)))))"

definition absorb_logs :: "(window_result list \<times> window_result list) list \<Rightarrow> result_map" where
  "absorb_logs ps = fold (\<lambda>(pre, post) m. absorb post (absorb pre m)) ps []"

definition verify_logs ::
    "(window_result list \<times> window_result list) list \<Rightarrow> window_result list \<Rightarrow> partitioned_kill_result \<Rightarrow> partitioned_kill_result" where
  "verify_logs ps expected res =
     (let combined = absorb_logs ps;
          pre_total = sum_list (map (of_nat \<circ> length \<circ> fst) ps); post_total = sum_list (map (of_nat \<circ> length \<circ> snd) ps);
          (missing, detail) = fold (check_result combined) expected (0, pr_failure_detail res)
      in res\<lparr>pr_pre_crash_emits := pre_total, pr_post_restore_emits := post_total,
             pr_union_results := of_nat (length combined), pr_duplicates := pre_total + post_total - of_nat (length combined),
             pr_oracle_results := of_nat (length expected), pr_missing_results := missing,
             pr_failure_detail := detail, pr_passed := (missing = 0 \<and> detail = None)\<rparr>)"

definition run_partitioned_kill_nemesis ::
    "'g random_ops \<Rightarrow> nat \<Rightarrow> thread list \<Rightarrow> nemesis_io \<Rightarrow> exn option \<Rightarrow> torn_attempt list \<Rightarrow> partitioned_kill_config \<Rightarrow>
     partitioned_kill_result res option" where
  "run_partitioned_kill_nemesis R fuel schedule io mk attempts config =
     (case capture_torn config 1 attempts (empty_partitioned_result config) of
        None \<Rightarrow> None
      | Some (TornReturned res) \<Rightarrow> Some (Inr res)
      | Some (TornMissed res) \<Rightarrow> Some (Inr (res\<lparr>pr_failure_detail := Some NoGenuineCrash\<rparr>))
      | Some (TornCaptured res a complete_off torn_off) \<Rightarrow>
          (let gen = make_part_gen_config config; src = generator_source R gen;
               pc = part_kill_pipeline config (ta_workdir a) (part_workers config) (\<lambda>i off wm s. ni_checkpoints io off = WriteOk) in
           bind_run (run_to_logs fuel schedule io mk pc (tumbling_assigner (pk_window_size config)) src (new_generator R gen) (ta_disk a))
             (\<lambda>(restored, logs).
           let res1 = res\<lparr>pr_restored_offset := restored, pr_failure_detail := check_offsets restored complete_off torn_off (pr_failure_detail res)\<rparr> in
           bind_run (read_logs io (map (\<lambda>k. (pd_logs (ta_disk a) k, Some (logs ! k))) [0..<unat (part_workers config)])) (\<lambda>ps.
           bind_run (Some (new_generator R gen)) (\<lambda>g.
           bind_run (nemesis_oracle fuel (pk_window_size config) (pk_allowed_lateness config) src g) (\<lambda>expected.
             Some (Inr (verify_logs ps expected res1))))))))"

section \<open>What the killed child leaves\<close>

text \<open>The log of a worker: the rows it emitted, and what the write of the next one had written.\<close>

definition log_left :: "effect list \<Rightarrow> effect list \<Rightarrow> bytes option \<Rightarrow> bool" where
  "log_left calls next_ones f \<longleftrightarrow>
     f = Some (log_bytes (emitted_rows calls)) \<or>
     (\<exists>r rest ws ok res d. next_ones = Emit r # rest \<and>
        sink_emit ws ok r \<lparr>ds_open = True, ds_file = log_bytes (emitted_rows calls)\<rparr> = (res, d) \<and> f = Some (ds_file d))"

text \<open>
  A child killed before its threads run leaves no checkpoint. Afterwards its workers are at
  any point of their calls.
\<close>

definition killed_partitioned_disk ::
    "partitioned_config \<Rightarrow> window_assigner \<Rightarrow> 's source \<Rightarrow> 's \<Rightarrow> partitioned_disk \<Rightarrow> bool" where
  "killed_partitioned_disk pc a src s0 dk \<longleftrightarrow>
     (\<forall>dir. pd_files dk dir = []) \<or>
     (\<exists>m bs s1 s2 ws s d k. serialize (partitioned_manifest pc a src) = Inr m \<and> pd_manifest dk = Some m \<and>
        hands_over src s0 bs s1 \<and> src_next src s1 = Inr (None, s2) \<and>
        build_workers pc a [0..<unat (effective_workers pc)] = Inr ws \<and>
        disk_reaches pc (initial_system (router_program (effective_workers pc) bs EndFinal) ws)
          ((\<lambda>_. []), new_tracker (unat (effective_workers pc)) 0 None, None) s d \<and>
        kill_reaches pc s d k \<and> pd_files dk = fst (kp_disk k) \<and>
        (\<forall>i < unat (effective_workers pc). log_left (kp_calls k i) (kp_next k i) (pd_logs dk i)))"

section \<open>The union of the logs\<close>

lemma absorb_append: "absorb (xs @ ys) m = absorb ys (absorb xs m)"
  by (simp add: absorb_def)

lemma absorb_logs_lookup:
  "map_of (absorb_logs ps) slot = map_option result_value (find (\<lambda>r. result_key r = slot) (rev (concat (map (\<lambda>(pre, post). pre @ post) ps))))"
proof -
  have "fold (\<lambda>(pre, post) m. absorb post (absorb pre m)) ps m = absorb (concat (map (\<lambda>(pre, post). pre @ post) ps)) m" for m
    by (induction ps arbitrary: m) (auto simp: absorb_append absorb_def)
  then show ?thesis using absorb_lookup [of "[]"] by (simp add: absorb_logs_def map_add_def split: option.splits)
qed

lemma verify_logs_passes:
  assumes "\<And>r. r \<in> set expected \<Longrightarrow>
      find (\<lambda>x. res_key x = res_key r \<and> res_window x = res_window r) (rev (concat (map (\<lambda>(pre, post). pre @ post) ps))) = Some r"
    and "pr_failure_detail res = None"
  shows "pr_passed (verify_logs ps expected res)" "pr_missing_results (verify_logs ps expected res) = 0"
    "pr_failure_detail (verify_logs ps expected res) = None" "pr_restored_offset (verify_logs ps expected res) = pr_restored_offset res"
proof -
  have "map_of (absorb_logs ps) (result_key r) = Some (result_value r)" if "r \<in> set expected" for r
  proof -
    have "(\<lambda>x. result_key x = result_key r) = (\<lambda>x. res_key x = res_key r \<and> res_window x = res_window r)"
      by (auto simp: fun_eq_iff result_key_def window.expand)
    then show ?thesis using assms(1) [OF that] by (simp add: absorb_logs_lookup)
  qed
  then have "fold (check_result (absorb_logs ps)) expected (0, None) = (0, None)" by (rule check_found)
  then show "pr_passed (verify_logs ps expected res)" "pr_missing_results (verify_logs ps expected res) = 0"
    "pr_failure_detail (verify_logs ps expected res) = None" "pr_restored_offset (verify_logs ps expected res) = pr_restored_offset res"
    using assms(2) by (simp_all add: verify_logs_def Let_def)
qed

text \<open>The last row of a key and window comes from the worker that owns the key.\<close>

lemma find_owner:
  assumes "o1 < n" "\<And>i. i < n \<Longrightarrow> i \<noteq> o1 \<Longrightarrow> \<forall>x \<in> set (f i). \<not> P x"
  shows "find P (rev (concat (map f [0..<n]))) = find P (rev (f o1))"
proof -
  have "filter P (concat (map f [0..<m])) = (if o1 < m then filter P (f o1) else [])" if "m \<le> n" for m
    using that
  proof (induction m)
    case (Suc m)
    have "filter P (f m) = []" if "m \<noteq> o1" using assms(2) [of m] Suc.prems that by (simp add: filter_empty_conv)
    then show ?case using Suc by (auto simp: less_Suc_eq)
  qed simp
  from this [of n] show ?thesis using assms(1) by (simp add: find_last)
qed

lemma settled_last:
  assumes "settled p" "settled q" "rows_of k w (effects p) = rows_of k w (effects q)"
  shows "find (\<lambda>r. res_key r = k \<and> res_window r = w) (rev (emitted_rows (effects p))) =
    find (\<lambda>r. res_key r = k \<and> res_window r = w) (rev (emitted_rows (effects q)))"
proof (cases "rows_of k w (effects p) = {}")
  case True
  then have "slot_rows k w (effects p) = []" "slot_rows k w (effects q) = []" using assms(3) by (simp_all add: slot_rows_empty)
  then show ?thesis unfolding find_last slot_rows_def by simp
next
  case False
  then have ne: "slot_rows k w (effects p) \<noteq> []" "slot_rows k w (effects q) \<noteq> []" using assms(3) by (simp_all add: slot_rows_empty)
  obtain x y where x: "x \<in> rows_of k w (effects p)" "List.last (slot_rows k w (effects p)) = window_row k w (pane_result x)"
    and y: "y \<in> rows_of k w (effects q)" "List.last (slot_rows k w (effects q)) = window_row k w (pane_result y)"
    using last_in_set [OF ne(1)] last_in_set [OF ne(2)] by (auto simp: set_slot_rows)
  have "y = x \<or> unat (pane_count y) < unat (pane_count x)"
    using assms(1) False x(2) y(1) [folded assms(3)] unfolding settled_def by blast
  moreover have "x = y \<or> unat (pane_count x) < unat (pane_count y)"
    using assms(2) False [unfolded assms(3)] y(2) x(1) [unfolded assms(3)] unfolding settled_def by blast
  ultimately have "x = y" by auto
  then show ?thesis using ne x(2) y(2) unfolding find_last slot_rows_def by simp
qed

text \<open>The logs of a killed run and of its restart hold, for every key and window, the last row of the single engine.\<close>

lemma union_of_logs:
  assumes job: "partitioned_job pc a width its p0 p" and m: "oracle_matches (single_config pc a) ocfg" and h: "horizon_ok (single_config pc a) its"
    and pre: "\<And>i. i < unat (effective_workers pc) \<Longrightarrow> \<exists>before.
      emitted_rows (effects (final_flush (worker_config pc a i) (whole_share pc a its p0 i))) = before @ post i \<and>
      prefix before (pre i) \<and> prefix (pre i) (before @ post i)"
  shows "find (\<lambda>r. res_key r = k \<and> res_window r = w) (rev (concat (map (\<lambda>i. pre i @ post i) [0..<unat (effective_workers pc)]))) =
    map_option (\<lambda>q. window_row k w (pane_result q)) (o_cell (run_oracle ocfg its) k w)"
proof -
  let ?n = "effective_workers pc" and ?P = "\<lambda>r. res_key r = k \<and> res_window r = w"
  let ?o = "unat (partition_for_key k (effective_workers pc))"
  let ?whole = "\<lambda>i. final_flush (worker_config pc a i) (whole_share pc a its p0 i)"
  have J: "lawful_assigner a width" "new_processor (single_config pc a) = Inr p0" "run_items (single_config pc a) its p0 = Inr p"
    using job by (simp_all add: partitioned_job_def)
  note O = share_owner [OF J job_worker(3) [OF job]]
  have la: "lawful_assigner (assigner (single_config pc a)) width" using J(1) by (simp add: single_config_def)
  have own: "find ?P (rev (pre i @ post i)) = find ?P (rev (emitted_rows (effects (?whole i))))"
    and sub: "set (pre i @ post i) \<subseteq> set (emitted_rows (effects (?whole i)))" if "i < unat ?n" for i
  proof -
    obtain b where b: "emitted_rows (effects (?whole i)) = b @ post i" "prefix b (pre i)" "prefix (pre i) (b @ post i)" using pre \<open>i < unat ?n\<close> by blast
    show "find ?P (rev (pre i @ post i)) = find ?P (rev (emitted_rows (effects (?whole i))))"
      unfolding b(1) using replay_overlap b(2,3) by blast
    show "set (pre i @ post i) \<subseteq> set (emitted_rows (effects (?whole i)))"
      unfolding b(1) using set_mono_prefix [OF b(3)] by auto
  qed
  have foreign: "\<forall>x \<in> set (pre i @ post i). \<not> ?P x" if i: "i < unat ?n" "i \<noteq> ?o" for i
  proof -
    have "slot_rows k w (effects (?whole i)) = []" using O(3) [OF i] by (simp add: slot_rows_empty)
    then show ?thesis using sub [OF i(1)] unfolding slot_rows_def filter_empty_conv by blast
  qed
  have "oracle_matches (worker_config pc a ?o) ocfg" "horizon_ok (worker_config pc a ?o) (share ?n ?o its)"
    using m h by (auto simp: oracle_matches_def horizon_ok_def single_config_def worker_config_def share_def assigned_def)
  then have "settled (?whole ?o)" using settled_flush [OF job_worker(2,3,1) [OF job]] by blast
  moreover have "settled (final_flush (single_config pc a) p)" by (rule settled_flush [OF J(2,3) la m h])
  ultimately have "find ?P (rev (emitted_rows (effects (?whole ?o)))) = find ?P (rev (emitted_rows (effects (final_flush (single_config pc a) p))))"
    using settled_last O(2) by blast
  moreover have o: "?o < unat ?n" by (rule O(1))
  ultimately show ?thesis
    using find_owner [OF o, of "\<lambda>i. pre i @ post i" ?P] foreign own [OF o] last_row_is_oracle_row [OF J(2,3) la m h, of k w] by simp
qed

section \<open>Reading and writing the logs\<close>

lemma log_left_rows:
  assumes "log_left calls next_ones f" "whole = calls @ next_ones @ rest" "list_all row_good (emitted_rows whole)"
  shows "\<exists>pre t. torn t \<and> (case f of None \<Rightarrow> [] | Some b \<Rightarrow> b) = log_bytes pre @ t \<and>
    prefix (emitted_rows calls) pre \<and> prefix pre (emitted_rows whole)"
  using assms(1) unfolding log_left_def
proof (elim disjE exE conjE)
  assume "f = Some (log_bytes (emitted_rows calls))"
  then show ?thesis using assms(2) by (intro exI [of _ "emitted_rows calls"] exI [of _ "[]"]) (simp add: torn_Nil)
next
  fix r rest1 ws ok res d
  assume r: "next_ones = Emit r # rest1" and e: "sink_emit ws ok r \<lparr>ds_open = True, ds_file = log_bytes (emitted_rows calls)\<rparr> = (res, d)"
    and f: "f = Some (ds_file d)"
  have w: "emitted_rows whole = emitted_rows calls @ r # emitted_rows (rest1 @ rest)" using assms(2) r by (simp add: emitted_rows_Cons)
  then have "row_good r" using assms(3) by simp
  from emit_log(1) [OF e this] show ?thesis
  proof (elim disjE conjE exE)
    assume "ds_file d = log_bytes (emitted_rows calls @ [r])"
    then show ?thesis using f w by (intro exI [of _ "emitted_rows calls @ [r]"] exI [of _ "[]"]) (simp add: torn_Nil)
  next
    fix t assume "torn t" "ds_file d = log_bytes (emitted_rows calls) @ t"
    then show ?thesis using f w by (intro exI [of _ "emitted_rows calls"] exI [of _ t]) simp
  qed
qed

lemma write_logs_ok:
  assumes io: "nemesis_io_ok io"
  shows "\<forall>rows \<in> set rs. list_all row_good rows \<Longrightarrow> write_logs io rs = Some (Inr (map log_bytes rs))"
proof (induction rs)
  case (Cons rows rs)
  obtain d where "emit_rows (ni_writes io rows) rows \<lparr>ds_open = True, ds_file = []\<rparr> = (Some (Inr ()), d)" "ds_file d = log_bytes rows"
    using log_written [OF io] Cons.prems by auto
  then have "write_log io rows = Some (Inr (log_bytes rows))"
    using io by (simp add: write_log_def open_sink_def nemesis_io_ok_def)
  then show ?case using Cons by simp
qed simp

lemma read_logs_ok:
  assumes io: "nemesis_io_ok io"
  shows "\<forall>k \<in> set ks. list_all row_good (pre k) \<and> list_all row_good (post k) \<and>
     (\<exists>t. torn t \<and> (case f k of None \<Rightarrow> [] | Some b \<Rightarrow> b) = log_bytes (pre k) @ t) \<Longrightarrow>
   read_logs io (map (\<lambda>k. (f k, Some (log_bytes (post k)))) ks) = Some (Inr (map (\<lambda>k. (pre k, post k)) ks))"
proof (induction ks)
  case (Cons k ks)
  obtain t where t: "torn t" "(case f k of None \<Rightarrow> [] | Some b \<Rightarrow> b) = log_bytes (pre k) @ t" using Cons.prems by auto
  have "read_log io (f k) = Some (Inr (pre k))" using read_log_rows [OF io _ t] Cons.prems by simp
  moreover have "read_log io (Some (log_bytes (post k))) = Some (Inr (post k))" using read_log_rows [OF io _ torn_Nil] Cons.prems by simp
  ultimately show ?case using Cons by simp
qed simp

section \<open>The generated job on the partitioned engine\<close>

lemma gen_loop_barriers:
  "unat (g_offset g) + n < 2 ^ 64 \<Longrightarrow> distinct (barrier_offsets (fst (gen_loop R gen n g))) \<and>
     (\<forall>off \<in> set (barrier_offsets (fst (gen_loop R gen n g))). unat (g_offset g) < unat off)"
proof (induction n arbitrary: g)
  case (Suc n)
  let ?g = "snd (gen_step R gen g)"
  obtain wms bars where s: "fst (gen_step R gen g) = Data (fst (generate_record R gen g)) # wms @ bars"
      "wms = [] \<or> (\<exists>w o1. wms = [watermark_item w o1])" "bars = [] \<or> bars = [barrier_item (g_offset g + 1)]"
    using gen_step_shape [of R gen g] by blast
  have "g_offset ?g = g_offset g + 1" using gen_loop_offset [of R gen 1 g] by (simp add: split_def Let_def)
  moreover have "unat (g_offset g + 1) = unat (g_offset g) + 1" using Suc.prems by (simp add: unat_word_ariths)
  ultimately have o1: "unat (g_offset ?g) = unat (g_offset g) + 1" by simp
  have b: "barrier_offsets (fst (gen_step R gen g)) = [] \<or> barrier_offsets (fst (gen_step R gen g)) = [g_offset ?g]"
    using s \<open>g_offset ?g = g_offset g + 1\<close> by (auto simp: barrier_offsets_def watermark_item_def barrier_item_def)
  have IH: "distinct (barrier_offsets (fst (gen_loop R gen n ?g)))"
      "\<forall>off \<in> set (barrier_offsets (fst (gen_loop R gen n ?g))). unat (g_offset ?g) < unat off"
    using Suc.IH [of ?g] Suc.prems o1 by simp_all
  have "barrier_offsets (fst (gen_loop R gen (Suc n) g)) = barrier_offsets (fst (gen_step R gen g)) @ barrier_offsets (fst (gen_loop R gen n ?g))"
    by (simp add: gen_loop_Suc del: gen_loop.simps(2))
  then show ?case using b IH o1 by fastforce
qed simp

lemma gj_replays:
  assumes "gj_fits c"
  shows "replays (gj_source c) (gj_start c) (gj_items c)"
  unfolding replays_def using gj.delivered [OF assms] gj.replayable [OF assms] gj.seekable [OF assms] by blast

lemma gj_partitioned:
  assumes fits: "gj_fits c" and pc: "pc_lateness pc = plc_lateness (gj_pipeline c)" "\<forall>i. writes_ok (worker_config pc (gj_assigner c) i)"
  shows "\<exists>p0 p. partitioned_job pc (gj_assigner c) (gj_window c) (gj_items c) p0 p"
    "storable_stream (single_config pc (gj_assigner c)) (gj_items c)"
    "oracle_matches (single_config pc (gj_assigner c)) \<lparr>oc_window_size = gj_window c, oc_slide = 0, oc_lateness = pc_lateness pc\<rparr>"
    "horizon_ok (single_config pc (gj_assigner c)) (gj_items c)"
proof -
  let ?a = "gj_assigner c" and ?P = "safe_config (gj_pipeline c) (gj_assigner c)"
  have same: "assigner (single_config pc ?a) = assigner ?P" "lateness (single_config pc ?a) = lateness ?P"
    using pc(1) by (simp_all add: single_config_def)
  show st: "storable_stream (single_config pc ?a) (gj_items c)"
    using gj_stream(1) [OF fits] same unfolding storable_stream_def by simp
  show "oracle_matches (single_config pc ?a) \<lparr>oc_window_size = gj_window c, oc_slide = 0, oc_lateness = pc_lateness pc\<rparr>"
    using gj_oracle(1) [OF fits] same pc(1) unfolding oracle_matches_def by simp
  show "horizon_ok (single_config pc ?a) (gj_items c)"
    using gj_oracle(2) [OF fits] same unfolding horizon_ok_def assigned_def by simp
  have law: "lawful_assigner ?a (gj_window c)" by (rule gj.lawful [OF fits])
  obtain p0 where p0: "new_processor (single_config pc ?a) = Inr p0"
    using new_processor_total gj_fitsD(7) [OF fits] same(2) by fastforce
  have asg: "\<forall>r. Data r \<in> set (gj_items c) \<longrightarrow> (\<exists>ws. assign_windows (assigner (single_config pc ?a)) (event_time r) = Inr ws)"
  proof (intro allI impI)
    fix r assume r: "Data r \<in> set (gj_items c)"
    obtain b where b: "b = ?a" "\<And>t. 0 \<le> t \<Longrightarrow> t \<le> i64_max - gj_window c \<Longrightarrow> \<exists>ws. assign_windows b t = Inr ws"
      using tumbling_made [OF gj_fitsD(6) [OF fits]] by (metis gj_assigner_def)
    have "0 \<le> event_time r" "event_time r \<le> i64_max - gj_window c"
      using gj_stream(2) [OF fits r] fits by (auto simp: gj_fits_def)
    then show "\<exists>ws. assign_windows (assigner (single_config pc ?a)) (event_time r) = Inr ws" using b same(1) by simp
  qed
  obtain p where p: "run_items (single_config pc ?a) (gj_items c) p0 = Inr p"
    using bounded_stream_total [OF p0 _ _ _ asg, of "gj_window c"] law st by (auto simp: single_config_def storable_stream_def)
  have "unat (g_offset (gj_start c)) + unat (gc_num_records (gj_gen c)) < 2 ^ 64"
    using unsigned_less [of "gc_num_records (gj_gen c)", where 'a = nat] by (simp add: fresh_generator_def)
  then have "distinct (barrier_offsets (gj_items c))" using gen_loop_barriers unfolding gj_items_def by blast
  then show "\<exists>p0 p. partitioned_job pc ?a (gj_window c) (gj_items c) p0 p"
    using storable_partitioned_job [OF law p0 p pc(2) _ st] by blast
qed

section \<open>The restarted engine and its logs\<close>

lemma restart_to_logs:
  assumes job: "partitioned_job pc a width its p0 p" and left: "calls_left pc a its p0 E (pd_files dk)" and rp: "replays src s0 its"
    and mf: "serialize (partitioned_manifest pc a src) = Inr m" "pd_manifest dk = Some m" and io: "nemesis_io_ok io"
    and good: "\<And>i. i < unat (effective_workers pc) \<Longrightarrow>
      list_all row_good (emitted_rows (effects (final_flush (worker_config pc a i) (whole_share pc a its p0 i))))"
    and fuel: "length its < fuel" and dir: "pc_checkpoint_dir pc \<noteq> []" and cap: "0 < pc_queue_capacity pc"
    and hc: "highest_complete_checkpoint (pc_checkpoint_dir pc) (unat (effective_workers pc)) (pd_files dk) = Some off"
  shows "\<exists>post. (\<forall>i < unat (effective_workers pc). list_all row_good (post i) \<and>
      (\<exists>before. emitted_rows (effects (final_flush (worker_config pc a i) (whole_share pc a its p0 i))) = emitted_rows before @ post i \<and>
        (before = [] \<or> (\<exists>zs. E i = before @ Flush # zs)))) \<and>
    (\<exists>schedule. run_to_logs fuel schedule io None pc (Inr a) src (Inr s0) dk \<noteq> None) \<and>
    (\<forall>schedule r. run_to_logs fuel schedule io None pc (Inr a) src (Inr s0) dk = Some r \<longrightarrow>
       r = Inr (off, map (log_bytes \<circ> post) [0..<unat (effective_workers pc)]))"
proof -
  let ?n = "effective_workers pc"
  have "\<exists>w. new_worker pc a i = Inr w" for i using job_worker(2) [OF job, of i] cap by (simp add: new_worker_def new_queue_def)
  then obtain ws where ws: "build_workers pc a [0..<unat ?n] = Inr ws" using build_workers_total by blast
  obtain st cs s1 s2 r where S: "start_partitioned None None 0 pc a src (pd_names dk) (pd_files dk) (Some m) s0 = Inr st"
      "rs_last_complete st = Some off" "rs_replayed st = off" "hands_over src (rs_source st) cs s1" "src_next src s1 = Inr (None, s2)"
      "length cs \<le> length its" "continues pc a its p0 E (concat cs) (rs_workers st) r"
    using start_continues [OF job ws left rp mf(1), of 0 "pd_names dk"] dir hc by auto
  let ?post = "\<lambda>i. emitted_rows (effects (final_flush (worker_config pc a i) (r i)))"
  let ?s0 = "initial_system (router_program ?n cs EndFinal) (rs_workers st)"
  have drain: "drain_source fuel src (rs_source st) = Some (cs, None)"
    using drain_handed_over [OF S(4,5)] S(6) fuel by simp
  have C: "length (rs_workers st) = unat ?n" "\<forall>w \<in> set (rs_workers st). fresh_worker w"
    "\<And>i. i < unat ?n \<Longrightarrow> w_cfg (rs_workers st ! i) = worker_config pc a i \<and>
      run_items (worker_config pc a i) (share ?n i (concat cs)) (w_proc (rs_workers st ! i)) = Inr (r i)"
    using S(7) by (auto simp: continues_def)
  have before: "\<exists>before. emitted_rows (effects (final_flush (worker_config pc a i) (whole_share pc a its p0 i))) = emitted_rows before @ ?post i \<and>
      (before = [] \<or> (\<exists>zs. E i = before @ Flush # zs))" if "i < unat ?n" for i
    using S(7) that unfolding continues_def by blast
  then have pg: "list_all row_good (?post i)" if "i < unat ?n" for i using good [OF that] that by fastforce
  have run: "run_to_logs fuel schedule io None pc (Inr a) src (Inr s0) dk =
      (let final = run_schedule schedule ?s0 in if \<not> finished final then None
       else case sys_error final of Some e \<Rightarrow> Some (Inl e)
         | None \<Rightarrow> bind_run (write_logs io (map (emitted_rows \<circ> effects \<circ> w_proc) (sys_workers final))) (\<lambda>logs. Some (Inr (off, logs))))" for schedule
    using S(1,3) drain mf(2) io by (simp add: run_to_logs_def nemesis_io_ok_def Let_def cong: option.case_cong)
  have fin: "run_to_logs fuel schedule io None pc (Inr a) src (Inr s0) dk = Some (Inr (off, map (log_bytes \<circ> ?post) [0..<unat ?n]))"
    if f: "finished (run_schedule schedule ?s0)" for schedule
  proof -
    let ?s = "run_schedule schedule ?s0"
    note F = fresh_workers_finish [OF C run_schedule_reaches [OF reaches_refl] f]
    have procs: "map w_proc (sys_workers ?s) = map (\<lambda>i. final_flush (worker_config pc a i) (r i)) [0..<unat ?n]" by (rule F(3))
    have "map (emitted_rows \<circ> effects \<circ> w_proc) (sys_workers ?s) = map (emitted_rows \<circ> effects) (map w_proc (sys_workers ?s))"
      by (simp add: comp_assoc)
    then have rows: "map (emitted_rows \<circ> effects \<circ> w_proc) (sys_workers ?s) = map ?post [0..<unat ?n]" unfolding procs by simp
    have "write_logs io (map ?post [0..<unat ?n]) = Some (Inr (map log_bytes (map ?post [0..<unat ?n])))"
      by (rule write_logs_ok [OF io]) (use pg in auto)
    then show ?thesis using f F(1) unfolding run by (simp add: Let_def rows)
  qed
  have "\<exists>schedule. finished (run_schedule schedule ?s0)"
    using can_finish [OF initial_inv [OF effective_workers_pos C(1,2)]] reaches_schedule by metis
  then have "\<exists>schedule. run_to_logs fuel schedule io None pc (Inr a) src (Inr s0) dk \<noteq> None" using fin by auto
  moreover have "\<forall>schedule r. run_to_logs fuel schedule io None pc (Inr a) src (Inr s0) dk = Some r \<longrightarrow>
      r = Inr (off, map (log_bytes \<circ> ?post) [0..<unat ?n])"
  proof (intro allI impI)
    fix schedule r1 assume r1: "run_to_logs fuel schedule io None pc (Inr a) src (Inr s0) dk = Some r1"
    then have "finished (run_schedule schedule ?s0)" unfolding run by (auto simp: Let_def split: if_splits)
    then show "r1 = Inr (off, map (log_bytes \<circ> ?post) [0..<unat ?n])" using fin r1 by simp
  qed
  ultimately show ?thesis using before pg by (intro exI [of _ ?post]) blast
qed

section \<open>The captured attempt\<close>

lemma captured_torn:
  assumes "capture_torn config k as res = Some (TornCaptured res' a c t)"
  shows "a \<in> set as \<and> ta_status a = Signaled SIGKILL \<and> \<not> ta_sentinel a \<and> pr_failure_detail res' = pr_failure_detail res \<and>
    highest_complete_checkpoint (ta_workdir a @ ''/ckpt'') (unat (part_workers config)) (pd_files (ta_disk a)) = Some c \<and>
    c < t \<and> pr_torn_offset res' = t"
  using assms
proof (induction "as" arbitrary: k res)
  case (Cons b bs)
  let ?n = "unat (part_workers config)" and ?root = "ta_workdir b @ ''/ckpt''"
  let ?c = "highest_complete_checkpoint ?root ?n (pd_files (ta_disk b))" and ?t = "highest_partial_checkpoint ?root ?n (pd_files (ta_disk b))"
  obtain killed reaped where w: "watch_torn ?root ?n (arm_offset config) False (ta_polls b) = Some (killed, reaped)"
    using Cons.prems by (auto simp: Let_def split: if_splits option.splits)
  have k: "k \<le> pk_max_attempts config" "ta_workdir b \<noteq> []" "ta_fork_ok b"
    using Cons.prems by (auto simp: Let_def split: if_splits)
  show ?case
  proof (cases "(killed \<and> ta_status b = Signaled SIGKILL) \<and> \<not> ta_sentinel b \<and> is_torn ?c ?t")
    case True
    then obtain c1 t1 where "?c = Some c1" "?t = Some t1" "c1 < t1" by (auto simp: is_torn_def split: option.splits)
    then show ?thesis using Cons.prems w k True by (auto simp: Let_def)
  next
    case False
    then have "capture_torn config (k + 1) bs (res\<lparr>pr_attempts := k\<rparr>) = Some (TornCaptured res' a c t)"
      using Cons.prems w k by (simp add: Let_def del: de_Morgan_conj)
    then show ?thesis using Cons.IH by force
  qed
qed (simp split: if_splits)

lemma no_files_no_checkpoint:
  assumes "0 < n" "\<forall>dir. fs dir = []"
  shows "highest_complete_checkpoint root_dir n fs = None"
proof -
  have "complete_offsets root_dir n fs = {}"
    using assms by (auto simp: complete_offsets_def partition_offsets_def valid_offsets_def ckpt_files_def)
  then show ?thesis by (simp add: highest_complete_Max [OF assms(1)])
qed

lemma pipeline_same:
  fixes config wd f
  defines "pc \<equiv> part_kill_pipeline config wd (pk_num_workers config) f" and "pc' \<equiv> part_kill_pipeline config wd (part_workers config) f"
  shows "effective_workers pc' = effective_workers pc" "worker_config pc' = worker_config pc" "pc_checkpoint_dir pc' = pc_checkpoint_dir pc"
    "partitioned_manifest pc' = partitioned_manifest pc" "unat (effective_workers pc) = unat (part_workers config)"
proof -
  show e: "effective_workers pc' = effective_workers pc" "unat (effective_workers pc) = unat (part_workers config)"
    by (simp_all add: pc_def pc'_def part_kill_pipeline_def effective_workers_def part_workers_def)
  show "worker_config pc' = worker_config pc" "pc_checkpoint_dir pc' = pc_checkpoint_dir pc"
    by (auto simp: fun_eq_iff pc_def pc'_def part_kill_pipeline_def worker_config_def)
  show "partitioned_manifest pc' = partitioned_manifest pc"
    using e(1) by (simp add: fun_eq_iff partitioned_manifest_def) (simp add: pc_def pc'_def part_kill_pipeline_def)
qed

definition part_kill_job :: "'g random_ops \<Rightarrow> partitioned_kill_config \<Rightarrow> 'g generated_job" where
  "part_kill_job R config =
     \<lparr>gj_random = R, gj_gen = make_part_gen_config config,
      gj_pipeline = \<lparr>plc_lateness = pk_allowed_lateness config, plc_checkpoint_dir = [], plc_checkpoint_interval = pk_checkpoint_interval config\<rparr>,
      gj_window = pk_window_size config\<rparr>"

lemma hands_over_unique:
  assumes "delivers src s its" "hands_over src s bs s1" "src_next src s1 = Inr (None, s2)"
  shows "concat bs = its"
proof -
  obtain cs t1 t2 where c: "hands_over src s cs t1" "src_next src t1 = Inr (None, t2)" "its = concat cs"
    using assms(1) unfolding delivers_def by blast
  have "Some (bs, None :: exn option) = Some (cs, None)"
    using drain_handed_over [OF assms(2,3), of "Suc (length bs + length cs)"] drain_handed_over [OF c(1,2), of "Suc (length bs + length cs)"] by simp
  then show ?thesis using c(3) by simp
qed

text \<open>What the killed child has left: its workers' calls, the files they made, and the logs.\<close>

lemma killed_child_left:
  assumes fits: "gj_fits c" and job: "partitioned_job pc (gj_assigner c) (gj_window c) (gj_items c) p0 p"
    and killed: "killed_partitioned_disk pc (gj_assigner c) (gj_source c) (gj_start c) dk"
    and hc: "highest_complete_checkpoint root_dir (unat (effective_workers pc)) (pd_files dk) = Some off"
  shows "\<exists>m (k :: kill_point). serialize (partitioned_manifest pc (gj_assigner c) (gj_source c)) = Inr m \<and> pd_manifest dk = Some m \<and>
    calls_left pc (gj_assigner c) (gj_items c) p0 (kp_calls k) (pd_files dk) \<and>
    (\<forall>i < unat (effective_workers pc). log_left (kp_calls k i) (kp_next k i) (pd_logs dk i) \<and>
      (\<exists>rest. effects (final_flush (worker_config pc (gj_assigner c) i) (whole_share pc (gj_assigner c) (gj_items c) p0 i)) =
        kp_calls k i @ kp_next k i @ rest))"
proof -
  have "0 < unat (effective_workers pc)" using effective_workers_pos [of pc] by (simp add: unat_gt_0)
  then have "\<not> (\<forall>dir. pd_files dk dir = [])" using no_files_no_checkpoint hc by fastforce
  then obtain m bs s1 s2 ws s d k where K: "serialize (partitioned_manifest pc (gj_assigner c) (gj_source c)) = Inr m" "pd_manifest dk = Some m"
      "hands_over (gj_source c) (gj_start c) bs s1" "src_next (gj_source c) s1 = Inr (None, s2)"
      "build_workers pc (gj_assigner c) [0..<unat (effective_workers pc)] = Inr ws"
      "disk_reaches pc (initial_system (router_program (effective_workers pc) bs EndFinal) ws)
        ((\<lambda>_. []), new_tracker (unat (effective_workers pc)) 0 None, None) s d"
      "kill_reaches pc s d k" "pd_files dk = fst (kp_disk k)"
      "\<forall>i < unat (effective_workers pc). log_left (kp_calls k i) (kp_next k i) (pd_logs dk i)"
    using killed unfolding killed_partitioned_disk_def by blast
  have its: "concat bs = gj_items c" by (rule hands_over_unique [OF gj.delivered [OF fits] K(3,4)])
  have inv: "kill_inv pc (gj_assigner c) (gj_items c) p0 k"
    using kill_inv_reaches [OF K(7) kill_inv_start [OF job [folded its] K(5,6)]] unfolding its .
  show ?thesis
  proof (intro exI [of _ m] exI [of _ k] conjI allI impI)
    show "serialize (partitioned_manifest pc (gj_assigner c) (gj_source c)) = Inr m" "pd_manifest dk = Some m" by (rule K)+
    show "calls_left pc (gj_assigner c) (gj_items c) p0 (kp_calls k) (pd_files dk)" using kill_inv_left [OF inv] K(8) by simp
  qed (use K(9) kill_invD(1) [OF inv] in blast)+
qed

text \<open>The restarted engine, its logs and the old ones.\<close>

lemma torn_crash_recovers:
  fixes c :: "'g generated_job"
  assumes fits: "gj_fits c" and io: "nemesis_io_ok io" and fuel: "length (gj_items c) < fuel"
    and late: "pk_allowed_lateness config = plc_lateness (gj_pipeline c)"
    and pc: "pc = part_kill_pipeline config wd (pk_num_workers config) (\<lambda>i off wm s. True)"
    and pc': "pc' = part_kill_pipeline config wd (part_workers config) (\<lambda>i off wm s. True)"
    and killed: "killed_partitioned_disk pc (gj_assigner c) (gj_source c) (gj_start c) dk"
    and hc: "highest_complete_checkpoint (wd @ ''/ckpt'') (unat (part_workers config)) (pd_files dk) = Some off"
  shows "\<exists>pre post. (\<exists>schedule. run_to_logs fuel schedule io None pc' (Inr (gj_assigner c)) (gj_source c) (Inr (gj_start c)) dk \<noteq> None) \<and>
    (\<forall>schedule r. run_to_logs fuel schedule io None pc' (Inr (gj_assigner c)) (gj_source c) (Inr (gj_start c)) dk = Some r \<longrightarrow>
      r = Inr (off, map (log_bytes \<circ> post) [0..<unat (part_workers config)])) \<and>
    read_logs io (map (\<lambda>k. (pd_logs dk k, Some (log_bytes (post k)))) [0..<unat (part_workers config)]) =
      Some (Inr (map (\<lambda>k. (pre k, post k)) [0..<unat (part_workers config)])) \<and>
    (\<forall>k w. find (\<lambda>r. res_key r = k \<and> res_window r = w) (rev (concat (map (\<lambda>i. pre i @ post i) [0..<unat (part_workers config)]))) =
      map_option (\<lambda>q. window_row k w (pane_result q)) (o_cell (run_oracle
        \<lparr>oc_window_size = gj_window c, oc_slide = 0, oc_lateness = pk_allowed_lateness config\<rparr> (gj_items c)) k w))"
proof -
  let ?a = "gj_assigner c" and ?N = "unat (part_workers config)"
  note same = pipeline_same [of config wd "\<lambda>i off wm s. True", folded pc pc']
  have sel: "pc_lateness pc' = pk_allowed_lateness config" "pc_checkpoint_dir pc' = wd @ ''/ckpt''" "single_config pc' = single_config pc"
      "\<forall>i. writes_ok (worker_config pc' ?a i)"
    by (auto simp: pc pc' part_kill_pipeline_def single_config_def fun_eq_iff writes_ok_def worker_config_def)
  note G = gj_partitioned [OF fits sel(1) [unfolded late] sel(4)]
  obtain p0 p where job: "partitioned_job pc' ?a (gj_window c) (gj_items c) p0 p" using G(1) by blast
  have whole: "whole_share pc' = whole_share pc" by (simp add: fun_eq_iff whole_share_def same(1,2))
  have "partitioned_job pc ?a (gj_window c) (gj_items c) p0 p"
    using job unfolding partitioned_job_def sel(3) same(1,2) .
  from killed_child_left [OF fits this killed, unfolded same(5), OF hc] obtain m and k :: kill_point where
      "serialize (partitioned_manifest pc ?a (gj_source c)) = Inr m" "pd_manifest dk = Some m"
      "calls_left pc ?a (gj_items c) p0 (kp_calls k) (pd_files dk)"
      "\<forall>i < ?N. log_left (kp_calls k i) (kp_next k i) (pd_logs dk i) \<and>
        (\<exists>rest. effects (final_flush (worker_config pc ?a i) (whole_share pc ?a (gj_items c) p0 i)) = kp_calls k i @ kp_next k i @ rest)"
    by blast
  then have K: "serialize (partitioned_manifest pc' ?a (gj_source c)) = Inr m" "pd_manifest dk = Some m"
      "calls_left pc' ?a (gj_items c) p0 (kp_calls k) (pd_files dk)"
      "\<And>i. i < ?N \<Longrightarrow> log_left (kp_calls k i) (kp_next k i) (pd_logs dk i)"
      "\<And>i. i < ?N \<Longrightarrow> \<exists>rest. effects (final_flush (worker_config pc' ?a i) (whole_share pc' ?a (gj_items c) p0 i)) = kp_calls k i @ kp_next k i @ rest"
    unfolding calls_left_def same whole by blast+
  let ?whole = "\<lambda>i. emitted_rows (effects (final_flush (worker_config pc' ?a i) (whole_share pc' ?a (gj_items c) p0 i)))"
  have N: "unat (effective_workers pc') = ?N" using same(1,5) by simp
  have good: "list_all row_good (?whole i)" for i
    by (rule storable_rows [OF job_worker(2,3,1) [OF job]])
      (rule storable_share [OF G(2), of _ _ _ _ "[]"], simp_all add: worker_config_def single_config_def)
  have dir: "pc_checkpoint_dir pc' \<noteq> []" "0 < pc_queue_capacity pc'" using sel(2) by (simp_all add: pc' part_kill_pipeline_def)
  obtain post where P: "\<And>i. i < ?N \<Longrightarrow> list_all row_good (post i) \<and>
        (\<exists>before. ?whole i = emitted_rows before @ post i \<and> (before = [] \<or> (\<exists>zs. kp_calls k i = before @ Flush # zs)))"
      "\<exists>schedule. run_to_logs fuel schedule io None pc' (Inr ?a) (gj_source c) (Inr (gj_start c)) dk \<noteq> None"
      "\<forall>schedule r. run_to_logs fuel schedule io None pc' (Inr ?a) (gj_source c) (Inr (gj_start c)) dk = Some r \<longrightarrow>
        r = Inr (off, map (log_bytes \<circ> post) [0..<?N])"
    using restart_to_logs [OF job K(3) gj_replays [OF fits] K(1,2) io good fuel dir, unfolded N sel(2), OF hc] by blast
  have "\<exists>pre t. torn t \<and> (case pd_logs dk i of None \<Rightarrow> [] | Some b \<Rightarrow> b) = log_bytes pre @ t \<and>
      prefix (emitted_rows (kp_calls k i)) pre \<and> prefix pre (?whole i)" if i: "i < ?N" for i
  proof -
    obtain rest where "effects (final_flush (worker_config pc' ?a i) (whole_share pc' ?a (gj_items c) p0 i)) = kp_calls k i @ kp_next k i @ rest"
      using K(5) [OF i] by blast
    from log_left_rows [OF K(4) [OF i] this good] show ?thesis .
  qed
  then obtain pre t where L: "\<And>i. i < ?N \<Longrightarrow> torn (t i) \<and> (case pd_logs dk i of None \<Rightarrow> [] | Some b \<Rightarrow> b) = log_bytes (pre i) @ t i \<and>
      prefix (emitted_rows (kp_calls k i)) (pre i) \<and> prefix (pre i) (?whole i)"
    by metis
  have "list_all row_good (pre i)" if "i < ?N" for i
    using L [OF that] good [of i] set_mono_prefix unfolding list_all_iff by blast
  then have "read_logs io (map (\<lambda>k. (pd_logs dk k, Some (log_bytes (post k)))) [0..<?N]) = Some (Inr (map (\<lambda>k. (pre k, post k)) [0..<?N]))"
    using P(1) L by (intro read_logs_ok [OF io]) auto
  moreover have "\<exists>before. ?whole i = before @ post i \<and> prefix before (pre i) \<and> prefix (pre i) (before @ post i)" if i: "i < unat (effective_workers pc')" for i
  proof -
    have i': "i < ?N" using i N by simp
    obtain b where b: "?whole i = emitted_rows b @ post i" "b = [] \<or> (\<exists>zs. kp_calls k i = b @ Flush # zs)" using P(1) [OF i'] by blast
    then have "prefix (emitted_rows b) (emitted_rows (kp_calls k i))" by auto
    then show ?thesis using b(1) L [OF i'] by (intro exI [of _ "emitted_rows b"]) (auto intro: prefix_order.order_trans)
  qed
  note U = union_of_logs [OF job G(3,4) this]
  ultimately show ?thesis using P(2,3) U unfolding N sel(1) by (intro exI [of _ pre] exI [of _ post]) blast
qed

section \<open>Files without retention\<close>

text \<open>A run that keeps all checkpoints has on disk exactly those its workers have written.\<close>

definition written_offsets :: "effect list \<Rightarrow> u64 set" where
  "written_offsets es = {off. \<exists>wm st. WriteCheckpoint off wm st \<in> set es}"

lemma written_offsets_simps [simp]:
  "written_offsets [] = {}" "written_offsets (xs @ ys) = written_offsets xs \<union> written_offsets ys"
  "written_offsets (WriteCheckpoint off wm st # es) = insert off (written_offsets es)"
  "written_offsets (Emit r # es) = written_offsets es" "written_offsets (Flush # es) = written_offsets es"
  "written_offsets (CheckpointListener off # es) = written_offsets es"
  by (auto simp: written_offsets_def)

definition keeps_all :: "partitioned_config \<Rightarrow> (nat \<Rightarrow> u64 set) \<Rightarrow> file_system \<times> tracker \<times> u64 option \<Rightarrow> bool" where
  "keeps_all pc W d \<longleftrightarrow> tr_retain (fst (snd d)) = 0 \<and>
     (\<forall>j off. map_of (fst d (partition_checkpoint_dir (pc_checkpoint_dir pc) j)) (checkpoint_filename off) \<noteq> None \<longleftrightarrow> off \<in> W j)"

lemma listener_keeps_all: "keeps_all pc W d \<Longrightarrow> keeps_all pc W (checkpoint_listener pc i off d)"
proof -
  assume k: "keeps_all pc W d"
  obtain fs t c where d: "d = (fs, t, c)" by (cases d) auto
  have "cutoff = None \<and> tr_retain t1 = 0" if "on_partition_checkpoint i off t = Inr (t1, cutoff)" for t1 cutoff
    using that k d by (auto simp: on_partition_checkpoint_def keeps_all_def Let_def split: if_splits option.splits)
  then have "checkpoint_listener pc i off d = d \<or> (\<exists>t1 c1. checkpoint_listener pc i off d = (fs, t1, c1) \<and> tr_retain t1 = 0)"
    using d by (cases "on_partition_checkpoint i off t") (auto simp: checkpoint_listener_def)
  then show ?thesis using k unfolding keeps_all_def d by force
qed

lemma write_keeps_all:
  assumes "keeps_all pc W d"
  shows "keeps_all pc (W(i := insert off (W i))) (apply_effect pc i (WriteCheckpoint off wm st) d)"
proof -
  have "map_of (snd (write_checkpoint WriteOk True off wm st e)) (checkpoint_filename o2) =
      (if o2 = off then Some (checkpoint_bytes off wm st) else map_of e (checkpoint_filename o2))" for e o2
    by (auto simp: write_checkpoint_def Let_def update_conv' tmp_lookup [OF is_ckpt_filename])
  then show ?thesis using assms by (auto simp: keeps_all_def apply_effect_def Let_def partition_dir_inject)
qed

lemma calls_keep_all:
  "keeps_all pc W d \<Longrightarrow> keeps_all pc (W(i := W i \<union> written_offsets es)) (fold (apply_effect pc i) es d)"
proof (induction es arbitrary: W d)
  case (Cons e es)
  show ?case
  proof (cases e)
    case (WriteCheckpoint off wm st)
    have "W(i := W i \<union> written_offsets (e # es)) = (W(i := insert off (W i)))(i := (W(i := insert off (W i))) i \<union> written_offsets es)"
      using WriteCheckpoint by simp
    then show ?thesis using Cons.IH [OF write_keeps_all [OF Cons.prems, of i off wm st]] WriteCheckpoint by (simp only: fold_simps)
  next
    case (CheckpointListener off)
    from Cons.IH [OF listener_keeps_all [OF Cons.prems, of i off]] show ?thesis using CheckpointListener by (simp add: apply_effect_def)
  qed (use Cons.IH [OF Cons.prems] in \<open>simp_all add: apply_effect_def\<close>)
qed simp

lemma run_keeps_all:
  assumes "disk_reaches pc s0 ((\<lambda>_. []), t0, c0) s d" "tr_retain t0 = 0" "\<forall>j. worker_effects s0 j = []"
  shows "keeps_all pc (\<lambda>j. written_offsets (worker_effects s j)) d"
  using assms
proof (induction rule: disk_reaches.induct)
  case (disk_step s d t s')
  have IH: "keeps_all pc (\<lambda>j. written_offsets (worker_effects s j)) d" using disk_step by blast
  have len: "length (sys_workers s') = length (sys_workers s)" by (rule length_thread_step [OF disk_step.hyps(2)])
  have other: "worker_effects s' j = worker_effects s j" if "t \<noteq> WorkerT j" for j
    using thread_step_effects(2) [OF disk_step.hyps(2), of j] that len by (auto simp: worker_effects_def)
  show ?case
  proof (cases t)
    case RouterT
    then show ?thesis using IH other by (simp add: disk_after_def)
  next
    case (WorkerT i)
    then have i: "i < length (sys_workers s)" using disk_step.hyps(2) by (auto simp: thread_step_def split: if_splits)
    obtain es where es: "effects (w_proc (sys_workers s' ! i)) = effects (w_proc (sys_workers s ! i)) @ es"
      using thread_step_effects(2) [OF disk_step.hyps(2) i] by blast
    then have new: "step_effects t s s' = es" "worker_effects s' i = worker_effects s i @ es"
      using WorkerT i len by (simp_all add: step_effects_def worker_effects_def)
    have "(\<lambda>j. written_offsets (worker_effects s j))(i := written_offsets (worker_effects s i) \<union> written_offsets es) =
        (\<lambda>j. written_offsets (worker_effects s' j))"
      using new(2) other WorkerT by (auto simp: fun_eq_iff)
    then show ?thesis using calls_keep_all [OF IH, of i es] WorkerT new(1) by (simp add: disk_after_def)
  qed
qed (simp add: keeps_all_def)

lemma kept_offsets:
  assumes all: "keeps_all pc W d" and files: "partition_files es (fst d (partition_checkpoint_dir (pc_checkpoint_dir pc) j))"
    and enc: "\<And>off wm st. WriteCheckpoint off wm st \<in> set es \<Longrightarrow> encodable wm st"
  shows "set (partition_offsets (pc_checkpoint_dir pc) (fst d) j) = W j"
proof -
  let ?d = "fst d (partition_checkpoint_dir (pc_checkpoint_dir pc) j)"
  have "off \<in> set (valid_offsets ?d) \<longleftrightarrow> map_of ?d (checkpoint_filename off) \<noteq> None" for off
  proof
    assume "map_of ?d (checkpoint_filename off) \<noteq> None"
    then obtain bs where bs: "map_of ?d (checkpoint_filename off) = Some bs" by blast
    then obtain wm st where w: "bs = checkpoint_bytes off wm st" "WriteCheckpoint off wm st \<in> set es"
      using files is_ckpt_filename [of off] checkpoint_filename_inject unfolding partition_files_def by metis
    then have "load_file ?d (checkpoint_filename off) = Some (file_state off wm st)" using load_file_written [OF enc] bs by simp
    moreover have "checkpoint_filename off \<in> fst ` set ?d" using bs by (force dest: map_of_SomeD)
    ultimately show "off \<in> set (valid_offsets ?d)" using is_ckpt_filename [of off] unfolding set_valid_offsets by (force simp: file_state_def)
  next
    assume "off \<in> set (valid_offsets ?d)"
    then obtain c n where c: "off = cd_offset c" "is_ckpt n" "load_file ?d n = Some c" unfolding set_valid_offsets by blast
    then obtain bs where "map_of ?d n = Some bs" by (auto simp: load_file_def split: option.splits)
    then obtain o1 wm st where w: "n = checkpoint_filename o1" "map_of ?d n = Some (checkpoint_bytes o1 wm st)" "WriteCheckpoint o1 wm st \<in> set es"
      using files c(2) unfolding partition_files_def by blast
    then have "c = file_state o1 wm st" using load_file_written [OF enc] c(3) by simp
    then show "map_of ?d (checkpoint_filename off) \<noteq> None" using w c(1) by (simp add: file_state_def)
  qed
  then show ?thesis using all by (auto simp: keeps_all_def partition_offsets_def)
qed

text \<open>
  Two records with a checkpoint after each, two workers: one has written both, the other the
  first.
\<close>

definition sample_torn :: partitioned_kill_config where
  "sample_torn = \<lparr>pk_seed = 7, pk_num_records = 2, pk_num_keys = 2, pk_num_workers = 2, pk_window_size = 3, pk_max_disorder = 1,
     pk_checkpoint_interval = 1, pk_allowed_lateness = 2, pk_target_checkpoint = 0, pk_max_attempts = 1\<rparr>"

definition lowest_random :: "unit random_ops" where
  "lowest_random = \<lparr>rng_seed = (\<lambda>s. ()), rng_uniform = (\<lambda>lo hi g. (lo, g)), rng_bernoulli = (\<lambda>p g. (False, g)),
     print_double = (\<lambda>d. ''0'')\<rparr>"

definition torn_job :: "unit generated_job" where
  "torn_job = part_kill_job lowest_random sample_torn"

definition torn_pipeline :: partitioned_config where
  "torn_pipeline = part_kill_pipeline sample_torn ''/tmp/b'' 2 (\<lambda>i off wm s. True)"

definition torn_schedule :: "thread list" where
  "torn_schedule = [RouterT, RouterT] @ replicate 4 (WorkerT 0) @ replicate 3 (WorkerT 1)"

definition torn_state :: "worker list \<Rightarrow> system" where
  "torn_state ws = run_schedule torn_schedule (initial_system (router_program 2 [gj_items torn_job] EndFinal) ws)"

lemma sample_torn_fits: "gj_fits torn_job"
  by (simp add: gj_fits_def torn_job_def part_kill_job_def make_part_gen_config_def generator_ok_def sample_torn_def unit_interval_def
      i64_nums lowest_random_def lawful_random_def newline_def)

definition write_offsets :: "effect list \<Rightarrow> u64 list" where
  "write_offsets es = concat (map (\<lambda>e. case e of WriteCheckpoint off wm st \<Rightarrow> [off] | _ \<Rightarrow> []) es)"

lemma set_write_offsets: "set (write_offsets es) = written_offsets es"
  by (auto simp: write_offsets_def written_offsets_def split: effect.splits)

lemma torn_writes:
  "case build_workers torn_pipeline (gj_assigner torn_job) [0..<2] of Inl e \<Rightarrow> False
   | Inr ws \<Rightarrow> map (write_offsets \<circ> effects \<circ> w_proc) (sys_workers (torn_state ws)) = [[1, 2], [1]]"
  by code_simp

lemma torn_batch:
  "\<exists>s1. hands_over (gj_source torn_job) (gj_start torn_job) [gj_items torn_job] s1 \<and> src_next (gj_source torn_job) s1 = Inr (None, s1)"
proof -
  let ?g = "snd (gen_loop lowest_random (gj_gen torn_job) 2 (gj_start torn_job))"
  have c: "gj_random torn_job = lowest_random" "gc_num_records (gj_gen torn_job) = 2" "gc_batch_size (gj_gen torn_job) = 1024"
    by (simp_all add: torn_job_def part_kill_job_def make_part_gen_config_def sample_torn_def)
  have o: "g_offset (gj_start torn_job) = 0" by (simp add: fresh_generator_def)
  have "generator_next lowest_random (gj_gen torn_job) (gj_start torn_job) = (Some (gj_items torn_job), ?g)"
    unfolding generator_next_def gj_items_def o c by (simp add: Let_def split_def min_def)
  moreover have "generator_next lowest_random (gj_gen torn_job) ?g = (None, ?g)"
    by (simp add: generator_next_def gen_loop_offset o c del: gen_loop.simps)
  ultimately show ?thesis by (intro exI [of _ ?g]) (simp add: generator_source_def c)
qed

definition torn_disk :: "string \<Rightarrow> system \<Rightarrow> file_system \<Rightarrow> partitioned_disk" where
  "torn_disk m s fs = \<lparr>pd_manifest = Some m, pd_names = [], pd_files = fs,
     pd_logs = (\<lambda>i. Some (log_bytes (emitted_rows (worker_effects s i))))\<rparr>"

definition torn_attempts :: "partitioned_disk \<Rightarrow> torn_attempt list" where
  "torn_attempts dk =
     [\<lparr>ta_workdir = ''/tmp/b'', ta_fork_ok = True,
       ta_polls = [\<lparr>tp_reaped = False, tp_complete = pd_files dk, tp_partial = pd_files dk,
         tp_frozen_complete = pd_files dk, tp_frozen_partial = pd_files dk\<rparr>],
       ta_status = Signaled SIGKILL, ta_sentinel = False, ta_disk = dk\<rparr>]"

lemma torn_sizes: "effective_workers torn_pipeline = 2" "pc_checkpoint_dir torn_pipeline = ''/tmp/b/ckpt''" "part_workers sample_torn = 2"
    "pc_lateness torn_pipeline = plc_lateness (gj_pipeline torn_job)" "\<forall>i. writes_ok (worker_config torn_pipeline (gj_assigner torn_job) i)"
  by (simp_all add: torn_pipeline_def part_kill_pipeline_def effective_workers_def part_workers_def sample_torn_def torn_job_def
      part_kill_job_def writes_ok_def worker_config_def)

text \<open>The child of the sample can be killed with a torn checkpoint on disk.\<close>

lemma torn_disk_exists:
  "\<exists>m s fs. killed_partitioned_disk torn_pipeline (gj_assigner torn_job) (gj_source torn_job) (gj_start torn_job) (torn_disk m s fs) \<and>
     highest_complete_checkpoint ''/tmp/b/ckpt'' 2 fs = Some 1 \<and> highest_partial_checkpoint ''/tmp/b/ckpt'' 2 fs = Some 2"
proof -
  let ?pc = torn_pipeline and ?a = "gj_assigner torn_job"
  have n: "unat (effective_workers ?pc) = 2" using torn_sizes(1) by simp
  obtain ws where ws: "build_workers ?pc ?a [0..<2] = Inr ws"
      "map (write_offsets \<circ> effects \<circ> w_proc) (sys_workers (torn_state ws)) = [[1, 2], [1]]"
    using torn_writes by (auto split: sum.splits)
  let ?init = "initial_system (router_program (effective_workers ?pc) [gj_items torn_job] EndFinal) ws" and ?st = "torn_state ws"
  have "reaches ?init ?st" unfolding torn_state_def torn_sizes(1) by (rule run_schedule_reaches [OF reaches_refl])
  then obtain d where run: "disk_reaches ?pc ?init ((\<lambda>_. []), new_tracker (unat (effective_workers ?pc)) 0 None, None) ?st d"
    using reaches_disk_reaches by blast
  obtain p0 p where "partitioned_job ?pc ?a (gj_window torn_job) (gj_items torn_job) p0 p"
    using gj_partitioned(1) [OF sample_torn_fits torn_sizes(4,5)] by blast
  then have job: "partitioned_job ?pc ?a (gj_window torn_job) (concat [gj_items torn_job]) p0 p" by simp
  note I = kill_inv_start [OF job ws(1) [folded n] run]
  have left: "calls_left ?pc ?a (concat [gj_items torn_job]) p0 (worker_effects ?st) (fst d)"
    using kill_inv_left [OF I(1)] by (simp add: step_start_def)
  have "worker_effects ?init j = []" for j
    using build_workers_fresh(1,2) [OF ws(1)] by (auto simp: worker_effects_def initial_system_def fresh_worker_def)
  then have all: "keeps_all ?pc (\<lambda>j. written_offsets (worker_effects ?st j)) d" using run_keeps_all [OF run] by (simp add: new_tracker_def)
  have offs: "set (partition_offsets ''/tmp/b/ckpt'' (fst d) j) = written_offsets (worker_effects ?st j)" if j: "j < 2" for j
    using kept_offsets [OF all] disk_files [OF run] left_encodable [OF job left] j n torn_sizes(2) by metis
  have len: "length (sys_workers ?st) = 2" using I(2) n by simp
  then have "written_offsets (worker_effects ?st j) = set (map (write_offsets \<circ> effects \<circ> w_proc) (sys_workers ?st) ! j)" if "j < 2" for j
    using that by (simp add: worker_effects_def set_write_offsets)
  then have each: "set (partition_offsets ''/tmp/b/ckpt'' (fst d) 0) = {1, 2}" "set (partition_offsets ''/tmp/b/ckpt'' (fst d) 1) = {1}"
    using offs ws(2) by (simp_all add: insert_commute)
  have two: "{..<2} = {0, 1 :: nat}" "(\<forall>k < 2. P k) = (P 0 \<and> P (1 :: nat))" for P by (auto simp: less_2_cases_iff)
  have "complete_offsets ''/tmp/b/ckpt'' 2 (fst d) = {1}" unfolding complete_offsets_def two(2) each by auto
  then have hc: "highest_complete_checkpoint ''/tmp/b/ckpt'' 2 (fst d) = Some 1" by (simp add: highest_complete_Max)
  have hp: "highest_partial_checkpoint ''/tmp/b/ckpt'' 2 (fst d) = Some 2"
    unfolding highest_partial_Max two(1) using each by (simp add: max_def)
  obtain m where m: "serialize (partitioned_manifest ?pc ?a (gj_source torn_job)) = Inr m"
    using partitioned_manifest_made gj.descriptors [OF sample_torn_fits] by blast
  obtain s1 where s1: "hands_over (gj_source torn_job) (gj_start torn_job) [gj_items torn_job] s1" "src_next (gj_source torn_job) s1 = Inr (None, s1)"
    using torn_batch by blast
  have "killed_partitioned_disk ?pc ?a (gj_source torn_job) (gj_start torn_job) (torn_disk m ?st (fst d))"
    unfolding killed_partitioned_disk_def using m s1 ws(1) [folded n] run kill_start
    by (intro disjI2 exI [of _ m] exI [of _ "[gj_items torn_job]"] exI [of _ s1] exI [of _ ws] exI [of _ ?st] exI [of _ d] exI [of _ "step_start ?st d"])
      (simp add: torn_disk_def step_start_def log_left_def)
  then show ?thesis using hc hp by blast
qed

section \<open>Properties\<close>

text \<open>
  C8. The partitioned crash test cannot fail. Whatever the threads of the child were doing when the signal
  hit it (each worker after any of its calls, or inside the write of a row or of a checkpoint)
  and whatever the parent observed, once an attempt counts as a torn crash the restarted engine
  can run to its end, and under every schedule that does it restores the
  highest complete offset, below the torn one, and no result of the oracle is missing or different in the
  union of all workers' logs.
\<close>

theorem partitioned_kill_nemesis_passes:
  assumes "capture_torn config 1 attempts (empty_partitioned_result config) = Some (TornCaptured res a c t)"
    and "gj_fits (part_kill_job R config)"
    and "\<forall>a \<in> set attempts. ta_status a = Signaled SIGKILL \<longrightarrow> \<not> ta_sentinel a \<longrightarrow>
      killed_partitioned_disk (part_kill_pipeline config (ta_workdir a) (pk_num_workers config) (\<lambda>i off wm s. True))
        (projr (tumbling_assigner (pk_window_size config)))
        (generator_source R (make_part_gen_config config)) (fresh_generator R (make_part_gen_config config)) (ta_disk a)"
    and "3 * unat (pk_num_records config) < fuel" "nemesis_io_ok io"
  shows "(\<exists>schedule. run_partitioned_kill_nemesis R fuel schedule io None attempts config \<noteq> None) \<and>
    (\<forall>schedule r. run_partitioned_kill_nemesis R fuel schedule io None attempts config = Some r \<longrightarrow>
      (\<exists>result. r = Inr result \<and> pr_passed result \<and> pr_missing_results result = 0 \<and> pr_failure_detail result = None \<and>
        pr_restored_offset result = c \<and> c < t))"
proof -
  let ?c = "part_kill_job R config" and ?N = "unat (part_workers config)"
  let ?oc = "\<lparr>oc_window_size = pk_window_size config, oc_slide = 0, oc_lateness = pk_allowed_lateness config\<rparr>"
  let ?exp = "compute_results (run_oracle ?oc (gj_items ?c))"
  let ?pc = "part_kill_pipeline config (ta_workdir a) (part_workers config) (\<lambda>i off wm s. True)"
  have gj [simp]: "gj_source ?c = generator_source R (make_part_gen_config config)" "gj_start ?c = fresh_generator R (make_part_gen_config config)"
      "gj_assigner ?c = projr (tumbling_assigner (pk_window_size config))" "gj_window ?c = pk_window_size config"
      "plc_lateness (gj_pipeline ?c) = pk_allowed_lateness config" "gj_random ?c = R" "gj_gen ?c = make_part_gen_config config"
    by (simp_all add: part_kill_job_def gj_assigner_def)
  note A = captured_torn [OF assms(1)] and M = gj_made [OF assms(2), unfolded gj]
  have len: "length (gj_items ?c) < fuel" using gj_length [of ?c] assms(4) by (simp add: part_kill_job_def make_part_gen_config_def)
  obtain pre post where r:
      "\<exists>schedule. run_to_logs fuel schedule io None ?pc (Inr (gj_assigner ?c)) (gj_source ?c) (Inr (gj_start ?c)) (ta_disk a) \<noteq> None"
      "\<And>schedule r. run_to_logs fuel schedule io None ?pc (Inr (gj_assigner ?c)) (gj_source ?c) (Inr (gj_start ?c)) (ta_disk a) = Some r \<Longrightarrow>
        r = Inr (c, map (log_bytes \<circ> post) [0..<?N])"
      "read_logs io (map (\<lambda>k. (pd_logs (ta_disk a) k, Some (log_bytes (post k)))) [0..<?N]) = Some (Inr (map (\<lambda>k. (pre k, post k)) [0..<?N]))"
      "\<And>k w. find (\<lambda>r. res_key r = k \<and> res_window r = w) (rev (concat (map (\<lambda>i. pre i @ post i) [0..<?N]))) =
        map_option (\<lambda>q. window_row k w (pane_result q)) (o_cell (run_oracle ?oc (gj_items ?c)) k w)"
    using torn_crash_recovers [OF assms(2,5) len _ refl refl, of config "ta_workdir a" "ta_disk a" c] assms(3) A by auto
  have found: "find (\<lambda>x. res_key x = res_key row \<and> res_window x = res_window row)
      (rev (concat (map (\<lambda>(pre, post). pre @ post) (map (\<lambda>k. (pre k, post k)) [0..<?N])))) = Some row" if row: "row \<in> set ?exp" for row
  proof -
    obtain k w p where "row = window_row k w (pane_result p)" "o_cell (run_oracle ?oc (gj_items ?c)) k w = Some p"
      using row unfolding set_compute_results by blast
    then show ?thesis using r(4) [of k w] by (simp add: comp_def)
  qed
  obtain bs s1 s2 f where b: "hands_over (gj_source ?c) (gj_start ?c) bs s1"
      "src_next (gj_source ?c) s1 = Inr (None, s2)" "concat bs = gj_items ?c" "fuel = length bs + Suc f"
    using delivers_batches [OF gj.delivered [OF assms(2)] len] .
  then have orc: "nemesis_oracle fuel (pk_window_size config) (pk_allowed_lateness config) (gj_source ?c) (gj_start ?c) = Some (Inr ?exp)"
    using drain_handed_over [OF b(1,2), of fuel] by (simp add: nemesis_oracle_def)
  let ?res = "res\<lparr>pr_restored_offset := c, pr_failure_detail := None\<rparr>"
  have detail: "check_offsets c c t (pr_failure_detail res) = None"
    using A by (auto simp: check_offsets_def empty_partitioned_result_def)
  have logs: "map (\<lambda>k. (pd_logs (ta_disk a) k, Some (map (log_bytes \<circ> post) [0..<?N] ! k))) [0..<?N] =
      map (\<lambda>k. (pd_logs (ta_disk a) k, Some (log_bytes (post k)))) [0..<?N]" by simp
  have io: "(\<lambda>(i :: nat) off (wm :: timestamp) (s :: keyed_window_state). ni_checkpoints io off = WriteOk) = (\<lambda>i off wm s. True)"
    using checkpoints_ok [OF assms(5)] by simp
  have run: "run_partitioned_kill_nemesis R fuel schedule io None attempts config =
      map_option (\<lambda>_. Inr (verify_logs (map (\<lambda>k. (pre k, post k)) [0..<?N]) ?exp ?res))
        (run_to_logs fuel schedule io None ?pc (Inr (gj_assigner ?c)) (gj_source ?c) (Inr (gj_start ?c)) (ta_disk a))" for schedule
  proof (cases "run_to_logs fuel schedule io None ?pc (Inr (gj_assigner ?c)) (gj_source ?c) (Inr (gj_start ?c)) (ta_disk a)")
    case None
    then show ?thesis using M assms(1) by (simp add: run_partitioned_kill_nemesis_def Let_def io)
  next
    case (Some x)
    then have "x = Inr (c, map (log_bytes \<circ> post) [0..<?N])" by (rule r(2))
    then show ?thesis
      using Some M assms(1) r(3) orc detail by (simp add: run_partitioned_kill_nemesis_def Let_def io logs)
  qed
  have "pr_failure_detail ?res = None" by simp
  note V = verify_logs_passes [OF found this]
  show ?thesis using r(1) A V unfolding run by auto
qed

theorem partitioned_kill_nemesis_passes_witness:
  "\<exists>dk schedule result. run_partitioned_kill_nemesis lowest_random 20 schedule good_io None (torn_attempts dk) sample_torn = Some (Inr result) \<and>
     pr_passed result \<and> pr_missing_results result = 0 \<and> pr_restored_offset result = 1"
proof -
  obtain m s fs where D: "killed_partitioned_disk torn_pipeline (gj_assigner torn_job) (gj_source torn_job) (gj_start torn_job) (torn_disk m s fs)"
      "highest_complete_checkpoint ''/tmp/b/ckpt'' 2 fs = Some 1" "highest_partial_checkpoint ''/tmp/b/ckpt'' 2 fs = Some 2"
    using torn_disk_exists by blast
  let ?dk = "torn_disk m s fs"
  have "\<exists>res. capture_torn sample_torn 1 (torn_attempts ?dk) (empty_partitioned_result sample_torn) =
      Some (TornCaptured res (hd (torn_attempts ?dk)) 1 2)"
    using D(2,3) by (simp add: torn_attempts_def torn_disk_def Let_def is_torn_def sample_torn_def part_workers_def arm_offset_def)
  then obtain res where cap: "capture_torn sample_torn 1 (torn_attempts ?dk) (empty_partitioned_result sample_torn) =
      Some (TornCaptured res (hd (torn_attempts ?dk)) 1 2)" by blast
  have killed: "\<forall>a \<in> set (torn_attempts ?dk). ta_status a = Signaled SIGKILL \<longrightarrow> \<not> ta_sentinel a \<longrightarrow>
      killed_partitioned_disk (part_kill_pipeline sample_torn (ta_workdir a) (pk_num_workers sample_torn) (\<lambda>i off wm s. True))
        (projr (tumbling_assigner (pk_window_size sample_torn)))
        (generator_source lowest_random (make_part_gen_config sample_torn)) (fresh_generator lowest_random (make_part_gen_config sample_torn)) (ta_disk a)"
    using D(1) by (simp add: torn_attempts_def torn_pipeline_def torn_job_def part_kill_job_def gj_assigner_def)
      (simp add: sample_torn_def)
  from partitioned_kill_nemesis_passes [OF cap sample_torn_fits [unfolded torn_job_def] killed _ good_io_ok, of 20]
  show ?thesis by (simp add: sample_torn_def) (metis option.exhaust)
qed

end
