(* ===== verification/Spec2Isabelle.thy ===== *)
theory Spec2Isabelle
  imports Snapshot_Runs Tcp_Transport Snapshot_Store Window_Operator Nemesis_Stop Partitioned_Nemesis
begin

text \<open>
  Stormglass is a stream-processing engine in C++ (\<open>src/src\<close>): sources hand out batches of
  records and control records, an engine assigns the records to windows, aggregates them per key
  and emits a row per key and window when the watermark passes, checkpoints its state on barriers
  and restarts from a checkpoint. This development models the engine and its checkpointing as
  executable HOL functions and proves them correct.

  \<^bold>\<open>Conventions.\<close> Signed 64-bit values (times, sums) are \<open>int\<close> with the source's range checks
  written out; unsigned ones are \<open>32 word\<close> and \<open>64 word\<close>. Exceptions are the left values of
  \<open>'a res\<close> (\<open>Prelude\<close>), with the loops of the source as \<open>fold_res\<close>. A \<open>std::map\<close> is a sorted
  association list, an \<open>unordered_map\<close> or \<open>unordered_set\<close> a list in insertion order; \<open>Iteration_Order\<close>
  shows that every other order gives the same results, and statements about recovery are made
  up to that order. Calls on a sink are recorded as a list of effects. System
  calls enter as outcomes (\<open>write_outcome\<close>), source and sink objects as records of functions.

  \<^bold>\<open>Theories.\<close>
  \<^item> \<open>Prelude\<close>, \<open>Stream_Types\<close>: the shared vocabulary; records, batches, windows, watermarks
    (\<open>stream/\<close>, \<open>window/window.h\<close>, \<open>aggregate/kernel.h\<close>, \<open>sink/sink.h\<close>).
  \<^item> \<open>Windows\<close>: \<open>window/tumbling.cpp\<close>, \<open>window/sliding.cpp\<close>. The locale \<open>assigner_class\<close> is the
    contract of an assigner; both assigners are exact against the set of aligned windows.
  \<^item> \<open>Window_State\<close>: \<open>window/state.cpp\<close>, panes and the operations of \<open>KeyedWindowState\<close>.
  \<^item> \<open>Keyed_Processor\<close>: \<open>engine/keyed_processor.cpp\<close>. The abstract specification is the automaton
    \<open>cell_step\<close> of one key and window; the processor refines it and its counters are exact.
  \<^item> \<open>Iteration_Order\<close>: runs in which the unordered containers are walked in any order, a new one at
    every item (\<open>any_order_run\<close>), and the relation \<open>same_processor\<close> they keep: equal contents, counters and
    watermark, and equal sink calls up to the order of the rows one loop emits.
  \<^item> \<open>Processor_Recovery\<close>: capture and restore; a restored processor continues as the original, up to
    iteration order.
  \<^item> \<open>Oracle_Model\<close>: \<open>oracle/oracle.cpp\<close> and the comparison code of \<open>oracle/differential.cpp\<close>.
  \<^item> \<open>Generator\<close>: \<open>source/generator.cpp\<close>, with the random number library as a parameter; its stream
    is bounded and never late, and \<open>Seek\<close> is exact.
  \<^item> \<open>Source_Merge\<close>: \<open>source/source_merge.cpp\<close>, the merge of several sources with the minimum of
    their watermarks, idle channels and barrier alignment. Its loops carry fuel, one unit per
    step; \<open>merge_cost\<close> of the channels' streams is enough.
  \<^item> \<open>Differential\<close>: the harnesses of \<open>oracle/differential.cpp\<close>. The locale \<open>workload_source\<close> is
    what they need of a workload; it is interpreted on the generator and on the merge, and all
    three harnesses pass on every seed. The thread schedule of a partitioned run is an argument.
  \<^item> \<open>Bounded_Queue\<close>: \<open>engine/bounded_queue.h\<close>, with the locale \<open>channel\<close>; blocking is the
    guard of the step that would block.
  \<^item> \<open>Crc32c\<close>, \<open>Byte_Codec\<close>, \<open>Checkpoint\<close>, \<open>Checkpoint_Store\<close>: \<open>checkpoint/crc32c.cpp\<close>,
    \<open>writer.cpp\<close>, \<open>reader.cpp\<close>: the file format with reads that fault when out of bounds, the
    write protocol with every directory a killed write leaves (\<open>killed_write_states\<close>), retention and
    the recovery scans.
  \<^item> \<open>Dist_Checkpoint\<close>: \<open>checkpoint/distributed_checkpoint.cpp\<close>, global cuts and pruning.
  \<^item> \<open>Job_Manifest\<close>: \<open>checkpoint/job_manifest.cpp\<close>.
  \<^item> \<open>Sources\<close>: \<open>source/source.h\<close>, \<open>source/stopping_source.cpp\<close>, \<open>engine/job_control.h\<close>.
  \<^item> \<open>Pipeline_Engine\<close>: \<open>engine/pipeline.cpp\<close>; \<open>pl_loop\<close> carries fuel because a live source may
    never end, one unit per call of \<open>Next\<close>; the theorems give the fuel that is enough.
  \<^item> \<open>Partition_Routing\<close>, \<open>Partitioned_Pipeline\<close>, \<open>Partitioned_Results\<close>: \<open>engine/partition_hash.h\<close>
    and \<open>engine/partitioned_pipeline.cpp\<close>. Router and workers are threads of an interleaving step
    relation (\<open>thread_step\<close>, \<open>reaches\<close>) over one system state; a step is one queue operation, one
    message or one sink call sequence under the sink mutex.
  \<^item> \<open>Durable_Sink\<close>: \<open>sink/durable_file_sink.cpp\<close>, the append-only result log. A list of system
    call results that ends early is a writer killed at that point. The log reads back whole rows
    after any killed writers, the latest view of a crashed and replayed job is that of an
    uninterrupted one, and a sink used after a failed write misframes its log.
  \<^item> \<open>Crash_Recovery\<close>: the pipeline over a durable sink as a process of small steps that may be killed at
    any of them. The locale \<open>recoverable_job\<close> names what a job needs for the files it leaves to
    restart it; the newest checkpoint and the log then determine all rows of the
    uninterrupted run.
  \<^item> \<open>Partitioned_Restart\<close>: the start of the partitioned engine's \<open>Run\<close> (manifest, restore, tracker), the
    checkpoint files its workers write and prune, and a process killed anywhere: the workers after any of
    their calls, or inside one. The restarted run completes the rows of the single-threaded engine.
  \<^item> \<open>Generated_Job\<close>, \<open>Early_Stop\<close>: the job of the recovery tests, a pipeline over the generator,
    on which the locale is interpreted; and what a run leaves whose source stops early.
  \<^item> \<open>Nemesis\<close>, \<open>Nemesis_Stop\<close>: \<open>RunRealKillNemesis\<close> and \<open>RunNemesis\<close> of \<open>nemesis/nemesis.cpp\<close>, which
    kill or stop such a job, restart it and compare with the oracle or an undisturbed run; both
    tests pass wherever the job is interrupted.
  \<^item> \<open>Partitioned_Nemesis\<close>: \<open>RunPartitionedRealKillNemesis\<close>, which kills the partitioned engine, each
    worker over its own durable log, while some workers have written a checkpoint others
    have not. The restart falls back to the complete checkpoint, and the test passes under every schedule.
  \<^item> \<open>Snapshot_Protocol\<close>: \<open>snapshot/chandy_lamport.cpp\<close>, the participant of a distributed
    snapshot. Its operations are state transformers over the participant and the environment of
    its three callbacks; \<open>validate_global\<close> is exact against the specification \<open>consistent_cut\<close>.
  \<^item> \<open>Snapshot_Runs\<close>: systems of participants joined by FIFO channels and every interleaving of
    their operations; a finished epoch is a consistent cut, deliveries complete it, and restored
    participants agree across every link.
  \<^item> \<open>Snapshot_Codec\<close>: \<open>snapshot/codec.h\<close>. The locale \<open>field_codec\<close> is what an encoder and a decoder
    promise each other; it is interpreted on every field the clients write. An \<open>exact_codec\<close> reads nothing
    but what is written.
  \<^item> \<open>Tcp_Transport\<close>: \<open>snapshot/tcp_transport.cpp\<close>, frames, output queues and one turn of polling;
    together with the socket's byte stream it is the FIFO channel \<open>Snapshot_Runs\<close> assumes.
  \<^item> \<open>Snapshot_Store\<close>: \<open>snapshot/store.cpp\<close>, immutable snapshot files and committed epochs, with
    every crash state of a write; a file decodes exactly when it encodes a snapshot.
  \<^item> \<open>Window_Operator\<close>: \<open>snapshot/window_operator.cpp\<close>, the application behind a participant's
    callbacks, whose captured bytes restore it, up to iteration order.

  This theory holds the properties that span components: engine against oracle, partitioned
  against single-threaded engine, termination, delivery, and suspend with restart.

  \<^bold>\<open>Not modelled.\<close> Opening and closing sockets (\<open>ListenTcp\<close>, \<open>ConnectTcp\<close>, \<open>AcceptTcp\<close>),
  \<open>stdout_sink\<close>, the benchmarks and the command line programs under \<open>app/\<close> are process and file
  I/O around the engine. Of \<open>nemesis/\<close> the mid-alignment test is left out. Timing counters of a restore have no model.
\<close>

section \<open>The engine against the oracle\<close>

text \<open>
  C1. The engine computes what the oracle computes. For every window size, slide and lateness and
  every stream of records and watermarks the engine processes without an exception (with event
  times low enough that no deadline exceeds the clock), the emitted rows, reduced to the most
  complete one per key and window and sorted, compare equal to the oracle's results, and the
  drop counts agree.
\<close>

theorem engine_agrees_with_oracle:
  assumes "make_assigner ty win slide = Inr (assigner cfg)"
    and "new_processor cfg = Inr p0" "run_items cfg its p0 = Inr p"
    and "\<forall>r. Data r \<in> set its \<longrightarrow> event_time r \<le> i64_max - win - lateness cfg"
    and "o1 = run_oracle (harness_oracle_config ty win slide (lateness cfg)) its"
  shows "compare_results (sort_results (dedup_engine_results (memory_sink (effects (final_flush cfg p)))))
      (compute_results o1) = None \<and>
    check_drop_contract (late_records_dropped (stats p)) (o_drops o1) = None"
proof -
  have law: "lawful_assigner (assigner cfg) win" by (rule make_assigner_facts(2) [OF assms(1)])
  note E = engine_matches_oracle [OF assms(2,3) law harness_oracle_matches [OF assms(1)] short_horizon [OF law assms(4)]]
  show ?thesis
    using E assms(5) by (simp add: compare_results_def compare_rows_refl check_drop_contract_def)
qed

theorem engine_agrees_with_oracle_witness:
  "\<exists>p0 p. new_processor sample_job = Inr p0 \<and> run_items sample_job sample_stream p0 = Inr p \<and>
     check_drop_contract (late_records_dropped (stats p))
       (o_drops (run_oracle (harness_oracle_config KTumbling 10 10 (lateness sample_job)) sample_stream)) = None"
proof -
  obtain p0 p where r: "new_processor sample_job = Inr p0" "run_items sample_job sample_stream p0 = Inr p"
    using sample_run by blast
  have "make_assigner KTumbling 10 10 = Inr (assigner sample_job)"
    by (simp add: make_assigner_def sample_job_def tumbling_assigner_def)
  moreover have "\<forall>r. Data r \<in> set sample_stream \<longrightarrow> event_time r \<le> i64_max - 10 - lateness sample_job"
    by (auto simp: sample_stream_def sample_record_def watermark_item_def barrier_item_def sample_job_def i64_nums)
  ultimately show ?thesis using engine_agrees_with_oracle [OF _ r] r by blast
qed

section \<open>The partitioned engine against the single-threaded one\<close>

text \<open>
  C2. The number of workers and the thread schedule do not change the result: when a partitioned
  run over a stream that the single-threaded engine processes without error has finished, no
  thread has failed, the caller's sink has received, for every key and window, exactly the rows
  of the single-threaded engine, and it has received every row a worker emitted exactly once.
\<close>

theorem partitioned_rows_equal_single:
  assumes "partitioned_run pc a bs EndFinal ws s" "finished s" "lawful_assigner a width"
    and "new_processor (single_config pc a) = Inr p0" "run_items (single_config pc a) (concat bs) p0 = Inr p"
    and "\<forall>i. writes_ok (worker_config pc a i)"
  shows "sys_error s = None \<and>
    (\<forall>k w. rows_of k w (sys_sink s) = rows_of k w (effects (final_flush (single_config pc a) p))) \<and>
    mset (emitted_rows (sys_sink s)) = sum_list (map (\<lambda>w. mset (emitted_rows (effects (w_proc w)))) (sys_workers s))"
proof -
  have c: "\<not> sys_cancelled s" by (rule partitions_never_fail(1) [OF assms(1,3-6)])
  then have "sys_error s = None" using system_invD(5) [OF run_system_inv(1) [OF assms(1)]] by simp
  then show ?thesis
    using partitioned_rows [OF assms] finished_rows [OF run_system_inv(1,2) [OF assms(1)] assms(2) c] by blast
qed

definition sample_partitioned :: partitioned_config where
  "sample_partitioned = \<lparr>pc_num_workers = 2, pc_queue_capacity = 1, pc_lateness = 5,
     pc_checkpoint_dir = [], pc_write_ok = (\<lambda>i off wm s. True)\<rparr>"

lemma sample_partitioned_run:
  "\<exists>ws s p0 p. partitioned_run sample_partitioned (assigner sample_job) [sample_stream, sample_stream] EndFinal ws s \<and>
     finished s \<and> new_processor (single_config sample_partitioned (assigner sample_job)) = Inr p0 \<and>
     run_items (single_config sample_partitioned (assigner sample_job)) (concat [sample_stream, sample_stream]) p0 = Inr p"
proof -
  let ?pc = sample_partitioned and ?a = "assigner sample_job"
  have "\<not> isl (build_workers ?pc ?a [0..<unat (effective_workers ?pc)])" by code_simp
  then obtain ws where ws: "build_workers ?pc ?a [0..<unat (effective_workers ?pc)] = Inr ws" by (metis sum.collapse(2))
  let ?s0 = "initial_system (router_program (effective_workers ?pc) [sample_stream, sample_stream] EndFinal) ws"
  have "partitioned_run ?pc ?a [sample_stream, sample_stream] EndFinal ws ?s0"
    using ws reaches_refl by (simp add: partitioned_run_def)
  then obtain s where "reaches ?s0 s" "finished s" using can_finish run_system_inv(1) by blast
  then have s: "partitioned_run ?pc ?a [sample_stream, sample_stream] EndFinal ws s" "finished s"
    using ws by (simp_all add: partitioned_run_def)
  have "(case new_processor (single_config ?pc ?a) of Inl e \<Rightarrow> False
      | Inr p0 \<Rightarrow> \<not> isl (run_items (single_config ?pc ?a) (concat [sample_stream, sample_stream]) p0))" by code_simp
  then obtain p0 p where "new_processor (single_config ?pc ?a) = Inr p0"
      "run_items (single_config ?pc ?a) (concat [sample_stream, sample_stream]) p0 = Inr p"
    by (metis sum.case_eq_if sum.collapse)
  with s show ?thesis by blast
qed

lemma sample_partitioned_writes: "\<forall>i. writes_ok (worker_config sample_partitioned a i)"
  by (simp add: writes_ok_def worker_config_def sample_partitioned_def)

theorem partitioned_rows_equal_single_witness:
  "\<exists>ws s p. partitioned_run sample_partitioned (assigner sample_job) [sample_stream, sample_stream] EndFinal ws s \<and>
     (\<forall>k w. rows_of k w (sys_sink s) =
        rows_of k w (effects (final_flush (single_config sample_partitioned (assigner sample_job)) p)))"
  using sample_partitioned_run partitioned_rows_equal_single [OF _ _ sample_lawful _ _ sample_partitioned_writes] by meson

text \<open>
  The merged statistics of a partitioned run equal those of the single-threaded engine where
  the documentation says so for processed and dropped records and the output watermark.
\<close>

theorem partitioned_counters_equal_single:
  assumes "partitioned_run pc a bs EndFinal ws s" "finished s" "lawful_assigner a width"
    and "new_processor (single_config pc a) = Inr p0" "run_items (single_config pc a) (concat bs) p0 = Inr p"
    and "\<forall>i. writes_ok (worker_config pc a i)"
  shows "records_processed (ms_counters (merge_stats s)) = records_processed (stats p) \<and>
    late_records_dropped (ms_counters (merge_stats s)) = late_records_dropped (stats p) \<and>
    ms_output_watermark (merge_stats s) = min i64_max (watermark p)"
  using partitioned_counters [OF assms] by blast

theorem partitioned_counters_equal_single_witness:
  "\<exists>ws s (p :: processor). partitioned_run sample_partitioned (assigner sample_job) [sample_stream, sample_stream] EndFinal ws s \<and>
     late_records_dropped (ms_counters (merge_stats s)) = late_records_dropped (stats p)"
  using sample_partitioned_run partitioned_counters_equal_single [OF _ _ sample_lawful _ _ sample_partitioned_writes] by blast

text \<open>
  C3. Every run of the partitioned engine ends, on any input and also when a worker or the source
  throws: in a state that is not finished some thread can step (no deadlock on the bounded
  queues), no execution is longer than a bound computed from the input, and from every state a
  finished one is reachable.
\<close>

theorem partitioned_run_terminates:
  assumes "partitioned_run pc a bs e ws s"
  shows "(\<not> finished s \<longrightarrow> (\<exists>t s'. thread_step t s = Some s')) \<and>
    (\<forall>k s'. steps k s s' \<longrightarrow> k \<le> work_left s) \<and> (\<exists>s'. reaches s s' \<and> finished s')"
proof -
  note i = run_system_inv(1) [OF assms]
  show ?thesis using no_deadlock [OF i] can_finish [OF i] steps_bounded [OF _ i] by fastforce
qed

theorem partitioned_run_terminates_witness:
  "\<exists>ws s s'. partitioned_run sample_partitioned (assigner sample_job) [sample_stream, sample_stream] EndFinal ws s \<and>
     reaches s s' \<and> finished s'"
  using sample_partitioned_run partitioned_run_terminates by meson

text \<open>
  C5. The recovery invariant of the forwarding sink: at every moment of every run, also of one
  that failed, the rows a worker had emitted before a flush (which precedes each of its
  checkpoints) have reached the caller's sink, and no row has been delivered twice.
\<close>

theorem flushed_rows_are_delivered:
  assumes "partitioned_run pc a bs e ws s" "w \<in> set (sys_workers s)" "effects (w_proc w) = xs @ Flush # ys"
  shows "set (emitted_rows xs) \<subseteq> set (emitted_rows (sys_sink s)) \<and>
    mset (emitted_rows (sys_sink s)) \<subseteq># sum_list (map (\<lambda>w. mset (emitted_rows (effects (w_proc w)))) (sys_workers s))"
proof -
  have i: "sink_inv s" by (rule run_system_inv(2) [OF assms(1)])
  then have "delivered (effects (w_proc w)) (w_pending w, sys_sink s)" using assms(2) by (simp add: sink_inv_def)
  moreover have "mset (emitted_rows (sys_sink s)) \<subseteq># sum_list (map (\<lambda>w. mset (emitted_rows (effects (w_proc w)))) (sys_workers s))"
    using i unfolding sink_inv_def by (metis mset_subset_eq_add_left)
  ultimately show ?thesis using assms(3) by (simp add: delivered_def)
qed

theorem flushed_rows_are_delivered_witness:
  "\<exists>ws s w xs ys. partitioned_run sample_partitioned (assigner sample_job) [sample_stream, sample_stream] EndFinal ws s \<and>
     w \<in> set (sys_workers s) \<and> effects (w_proc w) = xs @ Flush # ys \<and>
     set (emitted_rows xs) \<subseteq> set (emitted_rows (sys_sink s))"
proof -
  obtain ws s p0 p where r:
      "partitioned_run sample_partitioned (assigner sample_job) [sample_stream, sample_stream] EndFinal ws s"
      "finished s" "new_processor (single_config sample_partitioned (assigner sample_job)) = Inr p0"
      "run_items (single_config sample_partitioned (assigner sample_job)) (concat [sample_stream, sample_stream]) p0 = Inr p"
    using sample_partitioned_run by blast
  have n: "0 < unat (effective_workers sample_partitioned)" by code_simp
  obtain v where "w_proc (sys_workers s ! 0) = final_flush (worker_config sample_partitioned (assigner sample_job) 0) v"
    using worker_final_state [OF r(1,2) sample_lawful r(3,4) sample_partitioned_writes n] by blast
  then obtain xs where "effects (w_proc (sys_workers s ! 0)) = xs @ [Flush]" by (auto simp: final_flush_def Let_def)
  moreover have "sys_workers s ! 0 \<in> set (sys_workers s)"
    using system_invD(1) [OF run_system_inv(1) [OF r(1)]] run_system_inv(3) [OF r(1)] n by simp
  ultimately show ?thesis using flushed_rows_are_delivered [OF r(1)] r(1) by metis
qed

section \<open>Suspend and restart of the single-threaded engine\<close>

text \<open>
  C4. Suspending a job with checkpointing and starting it again from its directory loses and
  repeats nothing: the rows emitted by the suspended and by the restarted run together are those of one
  uninterrupted run, each as often, and for every key and window in the same sequence. The uninterrupted
  run may walk the unordered containers in any order. Both runs return, the first one suspended, the
  second one after replaying from the suspend offset. The source is any replayable source that
  hands out \<open>bs\<close>, then, after a seek to its offset, \<open>cs\<close>, and the two lists together are a stream
  the engine processes without error.
\<close>

theorem suspend_and_restart_lose_nothing:
  assumes "new_pipeline cfg s0 [] None = Inr pl0" "make_assigner ty win slide = Inr a"
    and "checkpointing_enabled cfg" "src_replayable src" "newline \<notin> set (src_descriptor src)"
    and "hands_over src s0 bs s1" "off = src_offset src (src_cancel src s1)" "env off = WriteOk"
    and "\<forall>it \<in> set (concat bs). barrier_below off it"
    and "run_items (as_config cfg a env) (concat bs) (pl_core pl0) = Inr p" "encodable (watermark p) (state p)"
    and "src_seek src off s0' = Inr s2" "hands_over src s2 cs s3" "src_next src s3 = Inr (None, s4)"
    and "any_order_run (as_config cfg a env) (concat bs @ concat cs) (pl_core pl0) (Inr q)"
  shows "\<exists>pl1 st1 plr pl2 st2.
    pl_run (length bs + Suc fuel) None cfg a env src (replicate (length bs) [] @ [[KSuspend]]) pl0 =
      Some (Inr (pl1, st1)) \<and> ps_suspended st1 \<and>
    new_pipeline cfg s0' (pl_dir pl1) (pl_manifest pl1) = Inr plr \<and>
    pl_run (length cs + Suc fuel) None cfg a env src [] plr = Some (Inr (pl2, st2)) \<and>
    \<not> ps_suspended st2 \<and> ps_records_replayed st2 = off \<and>
    mset (emitted_rows (effects (pl_core pl1))) + mset (emitted_rows (effects (pl_core pl2))) =
      mset (emitted_rows (effects (final_flush (as_config cfg a env) q))) \<and>
    (\<forall>k w. slot_rows k w (effects (pl_core pl1)) @ slot_rows k w (effects (pl_core pl2)) =
      slot_rows k w (effects (final_flush (as_config cfg a env) q)))"
proof -
  let ?c = "as_config cfg a env"
  have law: "lawful_assigner (assigner ?c) win" using make_assigner_facts(2) [OF assms(2)] by simp
  have blind: "order_blind ?c" by (simp add: order_blind_def)
  have inv: "processor_inv ?c (pl_core pl0)" using new_processor_inv(1) new_pipeline_core [OF assms(1)] by blast
  obtain f where f: "run_items ?c (concat bs @ concat cs) (pl_core pl0) = Inr f" "same_processor f q"
    using any_order_agree [OF run_items_any_order assms(15) same_processor_refl inv blind law] by (auto simp: rel_sum.simps)
  have "same_processor (final_flush ?c f) (final_flush ?c q)"
    using final_flush_same [OF f(2)] run_items_refines [OF f(1) inv law] by blast
  then have rows: "mset (emitted_rows (effects (final_flush ?c f))) = mset (emitted_rows (effects (final_flush ?c q)))"
      "\<And>k w. slot_rows k w (effects (final_flush ?c f)) = slot_rows k w (effects (final_flush ?c q))"
    using same_calls_rows by (auto simp: same_processor_def)
  obtain pl1 st1 plr pl2 st2 where r:
      "pl_run (length bs + Suc fuel) None cfg a env src (replicate (length bs) [] @ [[KSuspend]]) pl0 = Some (Inr (pl1, st1))"
      "ps_suspended st1" "new_pipeline cfg s0' (pl_dir pl1) (pl_manifest pl1) = Inr plr"
      "pl_run (length cs + Suc fuel) None cfg a env src [] plr = Some (Inr (pl2, st2))"
      "\<not> ps_suspended st2" "ps_records_replayed st2 = off"
    and e: "emitted_rows (effects (pl_core pl1)) @ emitted_rows (effects (pl_core pl2)) =
      emitted_rows (effects (final_flush ?c f))"
    using suspend_resume_rows [OF assms(1) make_assigner_facts(2) [OF assms(2)] assms(3,4)
        make_assigner_facts(4) [OF assms(2)] assms(5-14) f(1), of fuel] by blast
  have "mset (emitted_rows (effects (pl_core pl1))) + mset (emitted_rows (effects (pl_core pl2))) =
      mset (emitted_rows (effects (final_flush ?c q)))"
    unfolding rows(1) [symmetric] e [symmetric] by simp
  moreover have "slot_rows k w (effects (pl_core pl1)) @ slot_rows k w (effects (pl_core pl2)) =
      slot_rows k w (effects (final_flush ?c q))" for k w
    unfolding rows(2) [symmetric] by (simp add: slot_rows_def e [symmetric])
  ultimately show ?thesis using r by blast
qed

definition sample_source :: "nat source" where
  "sample_source =
     \<lparr>src_next = (\<lambda>i. Inr (if i < 2 then (Some sample_stream, i + 1) else (None, i))),
      src_seek = (\<lambda>off i. Inr (unat off div 10)), src_offset = (\<lambda>i. of_nat (10 * i)),
      src_descriptor = ''sample'', src_replayable = True, src_cancel = (\<lambda>i. i)\<rparr>"

definition sample_pipeline :: pipeline_config where
  "sample_pipeline = \<lparr>plc_lateness = 5, plc_checkpoint_dir = ''ckpt'', plc_checkpoint_interval = 8\<rparr>"

theorem suspend_and_restart_lose_nothing_witness:
  "\<exists>pl0 q pl1 st1 plr pl2 st2. new_pipeline sample_pipeline 0 [] None = Inr pl0 \<and>
    pl_run 2 None sample_pipeline (assigner sample_job) (\<lambda>off. WriteOk) sample_source [[], [KSuspend]] pl0 =
      Some (Inr (pl1, st1)) \<and> ps_suspended st1 \<and>
    new_pipeline sample_pipeline 0 (pl_dir pl1) (pl_manifest pl1) = Inr plr \<and>
    pl_run 2 None sample_pipeline (assigner sample_job) (\<lambda>off. WriteOk) sample_source [] plr = Some (Inr (pl2, st2)) \<and>
    reversing_run (as_config sample_pipeline (assigner sample_job) (\<lambda>off. WriteOk)) (sample_stream @ sample_stream)
      (pl_core pl0) = Inr q \<and>
    mset (emitted_rows (effects (pl_core pl1))) + mset (emitted_rows (effects (pl_core pl2))) =
      mset (emitted_rows (effects (final_flush (as_config sample_pipeline (assigner sample_job) (\<lambda>off. WriteOk)) q)))"
proof -
  let ?a = "assigner sample_job" and ?env = "\<lambda>off :: u64. WriteOk"
  let ?c = "as_config sample_pipeline ?a ?env"
  let ?st = "\<lparr>windows = [(Window 20 30, [(''b'', \<lparr>pane_sum = 4, pane_count = 1\<rparr>)])], allowed_lateness = 5,
      fired_windows = [], refired_windows = []\<rparr>"
  obtain pl0 :: "nat pipeline" where pl0: "new_pipeline sample_pipeline 0 [] None = Inr pl0"
    by (simp add: new_pipeline_def sample_pipeline_def set_allowed_lateness_def)
  have pc: "pl_core pl0 = \<lparr>watermark = wm_initial, state = empty_state\<lparr>allowed_lateness := 5\<rparr>, stats = zero_stats, effects = []\<rparr>"
    using pl0 by (auto simp: new_pipeline_def sample_pipeline_def set_allowed_lateness_def)
  have "\<not> isl (reversing_run ?c (concat [sample_stream] @ concat [sample_stream]) (pl_core pl0))"
    unfolding pc by code_simp
  then obtain q where q: "reversing_run ?c (concat [sample_stream] @ concat [sample_stream]) (pl_core pl0) = Inr q"
    by (metis sum.collapse(2))
  then have any: "any_order_run ?c (concat [sample_stream] @ concat [sample_stream]) (pl_core pl0) (Inr q)"
    using reversing_any_order by metis
  have "(case run_items ?c (concat [sample_stream]) (pl_core pl0) of Inl e \<Rightarrow> False
      | Inr p \<Rightarrow> watermark p = 20 \<and> state p = ?st)"
    unfolding pc by code_simp
  then obtain p where p: "run_items ?c (concat [sample_stream]) (pl_core pl0) = Inr p" "watermark p = 20" "state p = ?st"
    by (cases "run_items ?c (concat [sample_stream]) (pl_core pl0)") simp_all
  have e: "encodable (watermark p) (state p)"
    using p(2,3) by (simp add: encodable_def each_pane_def total_panes_def in_i64_def i64_nums)
  have a: "make_assigner KTumbling 10 10 = Inr ?a" by (simp add: make_assigner_def sample_job_def tumbling_assigner_def)
  have src: "src_replayable sample_source" "newline \<notin> set (src_descriptor sample_source)"
      "hands_over sample_source 0 [sample_stream] 1" "10 = src_offset sample_source (src_cancel sample_source 1)"
      "src_seek sample_source 10 0 = Inr 1" "hands_over sample_source 1 [sample_stream] 2"
      "src_next sample_source 2 = Inr (None, 2)"
    by (simp_all add: sample_source_def newline_def)
  have "checkpointing_enabled sample_pipeline" "\<forall>it \<in> set (concat [sample_stream]). barrier_below 10 it"
    by (code_simp, code_simp)
  then show ?thesis
    using suspend_and_restart_lose_nothing [OF pl0 a _ src(1-4) _ _ p(1) e src(5-7) any, where fuel = 0] pl0 q
    by (auto simp: numeral_2_eq_2)
qed

section \<open>A counter that depends on the number of workers\<close>

text \<open>
  Key \<open>a\<close> lives on one worker and makes it fire the window; key \<open>b\<close> of the same window first
  arrives afterwards, on a worker that has not fired it.
\<close>

definition late_key_stream :: "batch_item list" where
  "late_key_stream = [sample_record ''a'' 5 1, watermark_item 12 1, sample_record ''b'' 7 2]"

definition round_robin :: "thread list" where
  "round_robin = concat (replicate 12 [RouterT, WorkerT 0, WorkerT 1])"

text \<open>
  The number of late records accepted is not the single-threaded total, although the
  documentation of the merged statistics says that record counts are: there is a stream and a
  run on two workers that reports none where the single-threaded engine counts one.
\<close>

theorem late_accepted_depends_on_workers:
  "\<exists>ws s p0 p. partitioned_run sample_partitioned (assigner sample_job) [late_key_stream] EndFinal ws s \<and> finished s \<and>
     new_processor (single_config sample_partitioned (assigner sample_job)) = Inr p0 \<and>
     run_items (single_config sample_partitioned (assigner sample_job)) late_key_stream p0 = Inr p \<and>
     late_records_accepted (ms_counters (merge_stats s)) = 0 \<and> late_records_accepted (stats p) = 1"
proof -
  let ?pc = sample_partitioned and ?a = "assigner sample_job"
  let ?s = "\<lambda>ws. run_schedule round_robin
      (initial_system (router_program (effective_workers ?pc) [late_key_stream] EndFinal) ws)"
  have "(case build_workers ?pc ?a [0..<unat (effective_workers ?pc)] of Inl e \<Rightarrow> False
      | Inr ws \<Rightarrow> finished (?s ws) \<and> late_records_accepted (ms_counters (merge_stats (?s ws))) = 0)"
    by code_simp
  then obtain ws where ws: "build_workers ?pc ?a [0..<unat (effective_workers ?pc)] = Inr ws"
      "finished (?s ws)" "late_records_accepted (ms_counters (merge_stats (?s ws))) = 0"
    by (cases "build_workers ?pc ?a [0..<unat (effective_workers ?pc)]") simp_all
  have "(case new_processor (single_config ?pc ?a) of Inl e \<Rightarrow> False
      | Inr p0 \<Rightarrow> (case run_items (single_config ?pc ?a) late_key_stream p0 of Inl e \<Rightarrow> False
                  | Inr p \<Rightarrow> late_records_accepted (stats p) = 1))" by code_simp
  then obtain p0 p where "new_processor (single_config ?pc ?a) = Inr p0"
      "run_items (single_config ?pc ?a) late_key_stream p0 = Inr p" "late_records_accepted (stats p) = 1"
    by (auto split: sum.splits)
  moreover have "partitioned_run ?pc ?a [late_key_stream] EndFinal ws (?s ws)"
    using ws(1) run_schedule_reaches [OF reaches_refl] by (simp add: partitioned_run_def)
  ultimately show ?thesis using ws(2,3) by blast
qed

end
